(* ===== verification/Prelude.thy ===== *)
theory Prelude
  imports Main "HOL-Library.Word" "HOL-Library.Monad_Syntax"
begin

text \<open>
  Shared vocabulary of the development: the machine types, the two ways memory is
  modelled (bounds-checked blocks and heaps of nodes), the C library's character
  classification in the C locale, and the generic list and map lemmas that several
  components use.

  Throughout, an outer \<^typ>\<open>'a option\<close> is undefined behaviour made explicit:
  \<^term>\<open>None\<close> is a step the C standard gives no meaning to (a NULL or dangling
  dereference, an access outside its block, a failed assert) or, where a text says
  so, a loop that does not return. Error codes of the program are ordinary values.
\<close>

unbundle bit_operations_syntax

section \<open>Machine types\<close>

type_synonym u8 = "8 word"
type_synonym u16 = "16 word"
type_synonym u32 = "32 word"
type_synonym u64 = "64 word"

text \<open>The value of a (signed) C \<^verbatim>\<open>char\<close> as an integer.\<close>

definition schar :: "char \<Rightarrow> int" where
  "schar c = (let n = of_char c in if n < 128 then n else n - 256)"

lemma unat_of_nat32: "n < 2 ^ 32 \<Longrightarrow> unat (of_nat n :: u32) = n"
  by (simp add: unsigned_of_nat take_bit_nat_eq_self)

section \<open>Memory\<close>

text \<open>
  A pointer is \<^term>\<open>None\<close> for NULL. A heap of nodes maps the addresses of the
  live nodes to their contents, so that a freed node is simply absent.
\<close>

type_synonym addr = nat
type_synonym ptr = "addr option"
type_synonym 'n heap = "addr \<Rightarrow> 'n option"

definition deref :: "'n heap \<Rightarrow> ptr \<Rightarrow> 'n option" where
  "deref h p = Option.bind p h"

definition modify :: "'n heap \<Rightarrow> ptr \<Rightarrow> ('n \<Rightarrow> 'n) \<Rightarrow> 'n heap option" where
  "modify h p f =
     (case p of None \<Rightarrow> None
      | Some a \<Rightarrow> (case h a of None \<Rightarrow> None | Some n \<Rightarrow> Some (h(a \<mapsto> f n))))"

definition release :: "'n heap \<Rightarrow> ptr \<Rightarrow> 'n heap option" where
  "release h p =
     (case p of None \<Rightarrow> Some h
      | Some a \<Rightarrow> (case h a of None \<Rightarrow> None | Some n \<Rightarrow> Some (h(a := None))))"

lemma deref_simps [simp]:
  "deref h None = None"
  "deref h (Some a) = h a"
  by (simp_all add: deref_def)

lemma modify_simps [simp]:
  "modify h None f = None"
  "h a = Some n \<Longrightarrow> modify h (Some a) f = Some (h(a \<mapsto> f n))"
  "h a = None \<Longrightarrow> modify h (Some a) f = None"
  by (simp_all add: modify_def)

lemma release_simps [simp]:
  "release h None = Some h"
  "h a = Some n \<Longrightarrow> release h (Some a) = Some (h(a := None))"
  "h a = None \<Longrightarrow> release h (Some a) = None"
  by (simp_all add: release_def)

text \<open>Bounds-checked access to a block of memory.\<close>

definition rd :: "'a list \<Rightarrow> int \<Rightarrow> 'a option" where
  "rd xs i = (if 0 \<le> i \<and> i < int (length xs) then Some (xs ! nat i) else None)"

definition wr :: "'a list \<Rightarrow> int \<Rightarrow> 'a \<Rightarrow> 'a list option" where
  "wr xs i v = (if 0 \<le> i \<and> i < int (length xs) then Some (xs[nat i := v]) else None)"

lemma rd_of_nat [simp]: "i < length xs \<Longrightarrow> rd xs (int i) = Some (xs ! i)"
  by (simp add: rd_def)

lemma wr_of_nat [simp]: "i < length xs \<Longrightarrow> wr xs (int i) v = Some (xs[i := v])"
  by (simp add: wr_def)

lemma rd_Some_iff: "rd xs i = Some x \<longleftrightarrow> 0 \<le> i \<and> i < int (length xs) \<and> x = xs ! nat i"
  by (auto simp: rd_def)

lemma wr_Some_iff:
  "wr xs i v = Some ys \<longleftrightarrow> 0 \<le> i \<and> i < int (length xs) \<and> ys = xs[nat i := v]"
  by (auto simp: wr_def)

lemma wr_length: "wr xs i v = Some ys \<Longrightarrow> length ys = length xs"
  by (auto simp: wr_def split: if_splits)

section \<open>The C locale's character classes\<close>

text \<open>\<^verbatim>\<open>isspace\<close>: space, tab, newline, vertical tab, form feed, carriage return.\<close>

definition isspace :: "char \<Rightarrow> bool" where
  "isspace c \<longleftrightarrow> c \<in> {CHR '' '', CHR 0x09, CHR 0x0A, CHR 0x0B, CHR 0x0C, CHR 0x0D}"

text \<open>\<^verbatim>\<open>tolower\<close> changes the 26 upper case letters only.\<close>

definition tolower :: "char \<Rightarrow> char" where
  "tolower c = (let n = (of_char c :: nat) in if 65 \<le> n \<and> n \<le> 90 then char_of (n + 32) else c)"

lemma tolower_idem [simp]: "tolower (tolower c) = tolower c"
proof -
  have "of_char c < (256 :: nat)" by (rule of_char_mod_256 [THEN subst]) simp
  then show ?thesis by (auto simp: tolower_def Let_def)
qed

section \<open>Lists and association lists\<close>

text \<open>
  Tables are parallel arrays: the abstraction of such a table is \<^term>\<open>map_of\<close> of
  the zipped arrays, so the first slot that holds a key decides.
\<close>

lemma map_of_zip_first:
  assumes "length xs = length ys" and "i < length xs" and "xs ! i = k"
    and "\<forall>j<i. xs ! j \<noteq> k"
  shows "map_of (zip xs ys) k = Some (ys ! i)"
  using assms
proof (induction xs ys arbitrary: i rule: list_induct2)
  case Nil
  then show ?case by simp
next
  case (Cons x xs y ys)
  show ?case
  proof (cases i)
    case 0
    with Cons show ?thesis by simp
  next
    case (Suc m)
    from Cons.prems(3) Suc have "x \<noteq> k" by force
    moreover have "\<forall>j<m. xs ! j \<noteq> k"
      using Cons.prems(3) Suc by fastforce
    ultimately show ?thesis using Cons Suc by simp
  qed
qed

lemma map_of_zip_absent:
  "length xs = length ys \<Longrightarrow> \<forall>j<length xs. xs ! j \<noteq> k \<Longrightarrow> map_of (zip xs ys) k = None"
  by (metis in_set_conv_nth map_of_zip_is_None)

lemma map_of_zip_upd_other:
  assumes "length xs = length ys" and "i < length xs" and "xs ! i \<noteq> k'" and "k \<noteq> k'"
  shows "map_of (zip (xs[i := k]) (ys[i := v])) k' = map_of (zip xs ys) k'"
  using assms
proof (induction xs ys arbitrary: i rule: list_induct2)
  case Nil
  then show ?case by simp
next
  case (Cons x xs y ys)
  then show ?case by (cases i) auto
qed

lemma filter_length_update:
  assumes "i < length xs"
  shows "length (filter P (xs[i := x])) + (if P (xs ! i) then 1 else 0)
       = length (filter P xs) + (if P x then 1 else 0)"
  using assms
proof (induction xs arbitrary: i)
  case Nil
  then show ?case by simp
next
  case (Cons y ys)
  then show ?case by (cases i) (auto split: if_splits)
qed

lemma filter_length_less_ex:
  "length (filter P xs) < length xs \<Longrightarrow> \<exists>i<length xs. \<not> P (xs ! i)"
  by (metis filter_id_conv in_set_conv_nth less_irrefl)

section \<open>Reading lines\<close>

text \<open>\<^verbatim>\<open>fgets\<close>: at most \<open>n - 1\<close> characters, up to a newline; NULL at the end of the file.
  The last component is the end-of-file flag.\<close>

fun read_line :: "nat \<Rightarrow> string \<Rightarrow> string \<times> string" where
  "read_line 0 s = ([], s)"
| "read_line (Suc n) [] = ([], [])"
| "read_line (Suc n) (c # s) =
     (if c = CHR 0x0A then ([c], s)
      else (case read_line n s of (l, r) \<Rightarrow> (c # l, r)))"

definition fgets :: "nat \<Rightarrow> string \<Rightarrow> (string \<times> string \<times> bool) option" where
  "fgets n s =
     (if s = [] \<and> n > 1 then None
      else (case read_line (n - 1) s of
              (l, r) \<Rightarrow> Some (l, r, length l < n - 1 \<and> (l = [] \<or> last l \<noteq> CHR 0x0A))))"

text \<open>The physical line read by \<^verbatim>\<open>fgets\<close>.\<close>

lemma read_line_newline:
  "CHR 0x0A \<notin> set l \<Longrightarrow> length l < n \<Longrightarrow> read_line n (l @ CHR 0x0A # r) = (l @ [CHR 0x0A], r)"
proof (induction l arbitrary: n)
  case Nil
  then show ?case by (cases n) auto
next
  case (Cons c l)
  then show ?case by (cases n) auto
qed

lemma fgets_line:
  "CHR 0x0A \<notin> set l \<Longrightarrow> length l + 1 < n \<Longrightarrow>
   fgets n (l @ CHR 0x0A # r) = Some (l @ [CHR 0x0A], r, False)"
  by (simp add: fgets_def read_line_newline)

lemma read_line_split: "read_line n s = (l, r) \<Longrightarrow> s = l @ r \<and> length l \<le> n \<and> (s \<noteq> [] \<and> n \<noteq> 0 \<longrightarrow> l \<noteq> [])"
  by (induction n s arbitrary: l r rule: read_line.induct) (auto split: if_splits prod.splits)

lemma fgets_split:
  assumes "fgets n s = Some (l, r, eof)" and "1 < n"
  shows "s = l @ r \<and> l \<noteq> [] \<and> length l < n"
  using assms read_line_split [of "n - 1" s]
  by (auto simp: fgets_def split: if_splits prod.splits)

section \<open>Counting threads\<close>

text \<open>
  The threads of a program are a list of the places they are at; \<open>at\<close> counts those in a
  set of places. A step moves one thread.
\<close>

definition at :: "'p list \<Rightarrow> 'p set \<Rightarrow> nat" where
  "at ps P = length (filter (\<lambda>p. p \<in> P) ps)"

lemma at_move:
  "i < length ps \<Longrightarrow> at (ps[i := q]) P = at ps P + of_bool (q \<in> P) - of_bool (ps ! i \<in> P)"
proof (induction ps arbitrary: i)
  case (Cons p ps)
  then show ?case
  proof (cases i)
    case (Suc j)
    have "of_bool (ps ! j \<in> P) \<le> at ps P" if "j < length ps"
      using that by (auto simp: at_def of_bool_def filter_empty_conv Suc_le_eq)
    then show ?thesis using Cons Suc by (auto simp: at_def)
  qed (auto simp: at_def)
qed simp

lemma at_same: "i < length ps \<Longrightarrow> (ps ! i \<in> P) = (q \<in> P) \<Longrightarrow> at (ps[i := q]) P = at ps P"
  by (simp add: at_move)

lemma at_0: "at ps P = 0 \<longleftrightarrow> (\<forall>i < length ps. ps ! i \<notin> P)"
  by (simp add: at_def filter_empty_conv all_set_conv_all_nth)

lemma at_pos: "i < length ps \<Longrightarrow> ps ! i \<in> P \<Longrightarrow> 0 < at ps P"
  by (auto simp: at_def filter_empty_conv)

lemma at_ex: "0 < at ps P \<Longrightarrow> \<exists>i < length ps. ps ! i \<in> P"
  by (metis at_0 not_gr_zero)

lemma at_replicate_if: "at (replicate n p) P = (if p \<in> P then n else 0)"
  by (simp add: at_def)

lemma at_all: "(\<And>p. p \<in> P) \<Longrightarrow> at ps P = length ps"
  by (simp add: at_def)

lemma at_length: "at ps P = length ps \<longleftrightarrow> (\<forall>i < length ps. ps ! i \<in> P)"
proof
  assume "at ps P = length ps"
  then have "\<forall>p \<in> set ps. p \<in> P" unfolding at_def by (metis length_filter_less less_irrefl)
  then show "\<forall>i < length ps. ps ! i \<in> P" by simp
next
  assume "\<forall>i < length ps. ps ! i \<in> P"
  then have "\<forall>p \<in> set ps. p \<in> P" by (simp add: all_set_conv_all_nth)
  then show "at ps P = length ps" by (simp add: at_def)
qed

end
