(* ===== verification/Store.thy ===== *)
theory Store
  imports Prelude
begin

text \<open>
  The interface of the library's tables. Two components keep a table of named
  values (\<^verbatim>\<open>ini/dictionary.c\<close>, \<^verbatim>\<open>udpclient/hashmap/hashmap.c\<close>); their clients only
  rely on what a lookup returns after an insertion or a removal. The locale
  \<open>table\<close> is the part both keep: an insertion that succeeds updates the observed map
  at one key. \<open>erasable_table\<close> adds a removal and promises that both always succeed.
\<close>

locale table =
  fixes lookup :: "'m \<Rightarrow> 'k \<Rightarrow> 'v option"
    and insert_in :: "'k \<Rightarrow> 'v \<Rightarrow> 'm \<Rightarrow> 'm option"
    and inv :: "'m \<Rightarrow> bool"
  assumes insert_inv: "inv m \<Longrightarrow> insert_in k v m = Some m' \<Longrightarrow> inv m'"
    and lookup_insert: "inv m \<Longrightarrow> insert_in k v m = Some m' \<Longrightarrow>
      lookup m' = (lookup m)(k \<mapsto> v)"
begin

text \<open>A client that fills the table with a sequence of pairs, stopping at a failure.\<close>

primrec insert_all :: "('k \<times> 'v) list \<Rightarrow> 'm \<Rightarrow> 'm option" where
  "insert_all [] m = Some m"
| "insert_all (p # ps) m = Option.bind (insert_in (fst p) (snd p) m) (insert_all ps)"

lemma insert_all_inv: "inv m \<Longrightarrow> insert_all ps m = Some m' \<Longrightarrow> inv m'"
proof (induction ps arbitrary: m)
  case (Cons p ps)
  then show ?case by (auto simp: Option.bind_eq_Some_conv intro: insert_inv)
qed simp

lemma insert_all_append:
  "insert_all (ps @ qs) m = Option.bind (insert_all ps m) (insert_all qs)"
proof (induction ps arbitrary: m)
  case (Cons p ps)
  then show ?case by (cases "insert_in (fst p) (snd p) m") simp_all
qed simp

text \<open>The table then holds, for every key, the last value given for it.\<close>

lemma insert_all_last:
  "inv m \<Longrightarrow> insert_all ps m = Some m' \<Longrightarrow> lookup m' = lookup m ++ map_of (rev ps)"
proof (induction ps arbitrary: m)
  case (Cons p ps)
  then obtain m1 where m1: "insert_in (fst p) (snd p) m = Some m1" "insert_all ps m1 = Some m'"
    by (auto simp: Option.bind_eq_Some_conv)
  have "lookup m' = lookup m1 ++ map_of (rev ps)"
    using Cons.IH m1 insert_inv [OF Cons.prems(1) m1(1)] by blast
  then show ?case
    using lookup_insert [OF Cons.prems(1) m1(1)] by (cases p) (auto simp: map_add_assoc [symmetric])
qed simp

end

locale erasable_table = table lookup insert_in inv
  for lookup :: "'m \<Rightarrow> 'k \<Rightarrow> 'v option"
    and insert_in :: "'k \<Rightarrow> 'v \<Rightarrow> 'm \<Rightarrow> 'm option"
    and inv :: "'m \<Rightarrow> bool" +
  fixes delete_from :: "'k \<Rightarrow> 'm \<Rightarrow> 'm option"
  assumes insert_ok: "inv m \<Longrightarrow> \<exists>m'. insert_in k v m = Some m'"
    and delete_ok: "inv m \<Longrightarrow> \<exists>m'. delete_from k m = Some m'"
    and delete_inv: "inv m \<Longrightarrow> delete_from k m = Some m' \<Longrightarrow> inv m'"
    and lookup_delete: "inv m \<Longrightarrow> delete_from k m = Some m' \<Longrightarrow> lookup m' = (lookup m)(k := None)"
begin

lemma insert_all_ok: "inv m \<Longrightarrow> \<exists>m'. insert_all ps m = Some m'"
proof (induction ps arbitrary: m)
  case (Cons p ps)
  then obtain m1 where m1: "insert_in (fst p) (snd p) m = Some m1" using insert_ok by blast
  then show ?case using Cons.IH [OF insert_inv [OF Cons.prems m1]] by simp
qed simp

lemma delete_insert:
  "inv m \<Longrightarrow> insert_in k v m = Some m1 \<Longrightarrow> delete_from k m1 = Some m2 \<Longrightarrow>
   lookup m2 = (lookup m)(k := None)"
  using insert_inv [of m k v m1] lookup_insert [of m k v m1] lookup_delete [of m1 k m2]
  by simp

end

end
