(* ===== verification/Dictionary.thy ===== *)
theory Dictionary
  imports Store
begin

text \<open>
  \<^verbatim>\<open>ini/dictionary.c\<close>: a table of strings in three parallel arrays (values, keys and
  the hashes of the keys), with free slots marked by a NULL key.

  A \<^verbatim>\<open>char *\<close> argument is a \<^typ>\<open>string option\<close> (NULL is \<^term>\<open>None\<close>) without embedded NUL
  characters. The outcome of each allocation is an argument of the operation that
  makes it. An array that could not be allocated is the empty list, so that any
  access to it is undefined behaviour (\<^term>\<open>None\<close>). The number of entries is an \<^verbatim>\<open>int\<close> in the code; it never
  exceeds the slots, and the model does not wrap it.
\<close>

section \<open>Data\<close>

record dictionary =
  dict_n :: int
  dict_size :: int
  dict_val :: "string option list"
  dict_key :: "string option list"
  dict_hash :: "u32 list"

text \<open>
  The pointers \<^verbatim>\<open>dictionary_get\<close> can return: NULL, the invalid pointer
  \<^verbatim>\<open>((char*)-1)\<close> its callers pass as a default, or a string.
\<close>

datatype cstr = Null | InvalidKey | Str string

primrec ptr_of :: "string option \<Rightarrow> cstr" where
  "ptr_of None = Null"
| "ptr_of (Some s) = Str s"

lemma ptr_of_not_invalid [simp]: "ptr_of v \<noteq> InvalidKey" "InvalidKey \<noteq> ptr_of v"
  by (cases v; simp)+

section \<open>Operations\<close>

definition xstrdup :: "bool \<Rightarrow> string option \<Rightarrow> string option" where
  "xstrdup ok s = (case s of None \<Rightarrow> None | Some t \<Rightarrow> if ok then Some t else None)"

text \<open>One step of the Dr Dobbs hash: the character is sign extended to 32 bits.\<close>

definition hash_step :: "u32 \<Rightarrow> char \<Rightarrow> u32" where
  "hash_step h0 c =
     (let h1 = h0 + of_int (schar c);
          h2 = h1 + push_bit 10 h1
      in h2 XOR drop_bit 6 h2)"

definition dictionary_hash :: "string option \<Rightarrow> u32" where
  "dictionary_hash key =
     (case key of None \<Rightarrow> 0
      | Some s \<Rightarrow>
         (let h = foldl hash_step 0 s;
              h1 = h + push_bit 3 h;
              h2 = h1 XOR drop_bit 11 h1
          in h2 + push_bit 15 h2))"

definition DICTMINSZ :: int where "DICTMINSZ = 128"

text \<open>The outcomes of the four \<^verbatim>\<open>calloc\<close> calls: the structure and its three arrays.\<close>

definition dictionary_new :: "bool \<Rightarrow> bool \<Rightarrow> bool \<Rightarrow> bool \<Rightarrow> int \<Rightarrow> dictionary option" where
  "dictionary_new ok okv okk okh size0 =
     (let size = (if size0 < DICTMINSZ then DICTMINSZ else size0) in
      if ok then
        Some \<lparr>dict_n = 0, dict_size = size,
              dict_val = (if okv then replicate (nat size) None else []),
              dict_key = (if okk then replicate (nat size) None else []),
              dict_hash = (if okh then replicate (nat size) 0 else [])\<rparr>
      else None)"

definition dictionary_grow :: "bool \<Rightarrow> dictionary \<Rightarrow> int \<times> dictionary" where
  "dictionary_grow ok d =
     (if \<not> ok then (-1, d)
      else (0, d\<lparr>dict_size := dict_size d * 2,
                 dict_val := dict_val d @ replicate (nat (dict_size d)) None,
                 dict_key := dict_key d @ replicate (nat (dict_size d)) None,
                 dict_hash := dict_hash d @ replicate (nat (dict_size d)) 0\<rparr>))"

text \<open>
  The search loop shared by get, set and unset: the index of the slot whose hash
  and key match, or \<^const>\<open>dict_size\<close>. A NULL key passed to \<^verbatim>\<open>dictionary_get\<close> hashes to 0
  and reaches \<^verbatim>\<open>strcmp\<close> when a used slot has that hash.
\<close>

function dict_find :: "dictionary \<Rightarrow> string option \<Rightarrow> u32 \<Rightarrow> int \<Rightarrow> int option" where
  "dict_find d k h i =
     (if i < dict_size d then
        do { s \<leftarrow> rd (dict_key d) i;
             case s of None \<Rightarrow> dict_find d k h (i + 1)
             | Some s' \<Rightarrow>
                 do { hi \<leftarrow> rd (dict_hash d) i;
                      if h = hi then
                        (case k of None \<Rightarrow> None
                         | Some k' \<Rightarrow> if k' = s' then Some i else dict_find d k h (i + 1))
                      else dict_find d k h (i + 1) } }
      else Some i)"
  by pat_completeness auto
termination by (relation "measure (\<lambda>(d, k, h, i). nat (dict_size d - i))") auto

declare dict_find.simps [simp del]

definition dictionary_get :: "dictionary \<Rightarrow> string option \<Rightarrow> cstr \<Rightarrow> cstr option" where
  "dictionary_get d key def =
     do { i \<leftarrow> dict_find d key (dictionary_hash key) 0;
          if i < dict_size d
          then do { v \<leftarrow> rd (dict_val d) i; Some (ptr_of v) }
          else Some def }"

text \<open>The search for a free slot, from \<^verbatim>\<open>d->n\<close> with wrap-around; it may not return.\<close>

partial_function (option) dict_free_slot :: "string option list \<Rightarrow> int \<Rightarrow> int \<Rightarrow> int option" where
  "dict_free_slot keys sz i =
     do { s \<leftarrow> rd keys i;
          if s = None then Some i
          else dict_free_slot keys sz (if i + 1 = sz then 0 else i + 1) }"

text \<open>The outcomes of the allocations \<^verbatim>\<open>dictionary_set\<close> may make.\<close>

record dict_alloc =
  grow_ok :: bool
  key_ok :: bool
  val_ok :: bool

definition dict_insert :: "dict_alloc \<Rightarrow> dictionary \<Rightarrow> string option \<Rightarrow> string option \<Rightarrow>
    dictionary option" where
  "dict_insert m d key val =
     do { i \<leftarrow> dict_free_slot (dict_key d) (dict_size d) (dict_n d);
          keys \<leftarrow> wr (dict_key d) i (xstrdup (key_ok m) key);
          vals \<leftarrow> wr (dict_val d) i (xstrdup (val_ok m) val);
          hashes \<leftarrow> wr (dict_hash d) i (dictionary_hash key);
          Some (d\<lparr>dict_key := keys, dict_val := vals, dict_hash := hashes,
                  dict_n := dict_n d + 1\<rparr>) }"

definition dictionary_set ::
  "dict_alloc \<Rightarrow> dictionary option \<Rightarrow> string option \<Rightarrow> string option \<Rightarrow>
    (int \<times> dictionary option) option" where
  "dictionary_set m dp key val =
     (case dp of None \<Rightarrow> Some (-1, None)
      | Some d \<Rightarrow>
         if key = None then Some (-1, Some d)
         else do {
           i \<leftarrow> (if dict_n d > 0 then dict_find d key (dictionary_hash key) 0
                 else Some (dict_size d));
           if i < dict_size d
           then do { _ \<leftarrow> rd (dict_val d) i;
                     vals \<leftarrow> wr (dict_val d) i (xstrdup (val_ok m) val);
                     Some (0, Some (d\<lparr>dict_val := vals\<rparr>)) }
           else
             (let (r, d1) = (if dict_n d = dict_size d then dictionary_grow (grow_ok m) d
                             else (0, d))
              in if r \<noteq> 0 then Some (-1, Some d1)
                 else do { d2 \<leftarrow> dict_insert m d1 key val; Some (0, Some d2) }) })"

definition dictionary_unset :: "dictionary option \<Rightarrow> string option \<Rightarrow> dictionary option option" where
  "dictionary_unset dp key =
     (case dp of None \<Rightarrow> Some None
      | Some d \<Rightarrow>
         if key = None then Some (Some d)
         else do {
           i \<leftarrow> dict_find d key (dictionary_hash key) 0;
           if i \<ge> dict_size d then Some (Some d)
           else do { keys \<leftarrow> wr (dict_key d) i None;
                     vals \<leftarrow> wr (dict_val d) i None;
                     hashes \<leftarrow> wr (dict_hash d) i 0;
                     Some (Some (d\<lparr>dict_key := keys, dict_val := vals, dict_hash := hashes,
                                   dict_n := dict_n d - 1\<rparr>)) } })"

text \<open>
  The loops that visit every slot: \<open>g\<close> is the body, given the index and the key, and
  the results are concatenated.
\<close>

function dict_scan :: "(int \<Rightarrow> string option \<Rightarrow> 'a list option) \<Rightarrow> dictionary \<Rightarrow> int \<Rightarrow> 'a list option" where
  "dict_scan g d i =
     (if i < dict_size d then
        do { k \<leftarrow> rd (dict_key d) i;
             xs \<leftarrow> g i k;
             rest \<leftarrow> dict_scan g d (i + 1);
             Some (xs @ rest) }
      else Some [])"
  by pat_completeness auto
termination by (relation "measure (\<lambda>(g, d, i). nat (dict_size d - i))") auto

declare dict_scan.simps [simp del]

text \<open>\<^verbatim>\<open>dictionary_dump\<close> on an open stream: the text written.\<close>

definition pad_left :: "nat \<Rightarrow> string \<Rightarrow> string" where
  "pad_left w s = replicate (w - length s) CHR '' '' @ s"

definition dict_dump_slot :: "dictionary \<Rightarrow> int \<Rightarrow> string option \<Rightarrow> string option" where
  "dict_dump_slot d i k =
     (case k of None \<Rightarrow> Some []
      | Some s \<Rightarrow>
          do { v \<leftarrow> rd (dict_val d) i;
               Some (pad_left 20 s @ [CHR 0x09, CHR ''[''] @
                     (case v of None \<Rightarrow> ''UNDEF'' | Some t \<Rightarrow> t) @ [CHR '']'', CHR 0x0A]) })"

definition dictionary_dump :: "dictionary option \<Rightarrow> bool \<Rightarrow> string option" where
  "dictionary_dump dp out =
     (case dp of None \<Rightarrow> Some []
      | Some d \<Rightarrow>
         if \<not> out then Some []
         else if dict_n d < 1 then Some (''empty dictionary'' @ [CHR 0x0A])
         else dict_scan (dict_dump_slot d) d 0)"

text \<open>
  \<^verbatim>\<open>dictionary_del\<close>: the strings it releases, in order. The arrays and the structure
  are then released and the dictionary is gone.
\<close>

definition dict_del_slot :: "dictionary \<Rightarrow> int \<Rightarrow> string option \<Rightarrow> string list option" where
  "dict_del_slot d i k =
     do { v \<leftarrow> rd (dict_val d) i;
          Some ((case k of None \<Rightarrow> [] | Some s \<Rightarrow> [s]) @ (case v of None \<Rightarrow> [] | Some s \<Rightarrow> [s])) }"

definition dictionary_del :: "dictionary option \<Rightarrow> string list option" where
  "dictionary_del dp = (case dp of None \<Rightarrow> Some [] | Some d \<Rightarrow> dict_scan (dict_del_slot d) d 0)"

section \<open>Invariant and abstraction\<close>

text \<open>
  The three arrays have \<^const>\<open>dict_size\<close> slots, the counter bounds the number of used
  slots, used slots hold distinct keys beside their hashes. The counter may exceed the
  number of used slots, when the copy of a key could not be allocated.
\<close>

definition dict_used :: "dictionary \<Rightarrow> int" where
  "dict_used d = int (length (filter (\<lambda>k. k \<noteq> None) (dict_key d)))"

definition dict_wf :: "dictionary \<Rightarrow> bool" where
  "dict_wf d \<longleftrightarrow>
     0 < dict_size d \<and> int (length (dict_key d)) = dict_size d \<and>
     length (dict_val d) = length (dict_key d) \<and> length (dict_hash d) = length (dict_key d) \<and>
     dict_used d \<le> dict_n d \<and> dict_n d \<le> dict_size d \<and>
     (\<forall>i<length (dict_key d). dict_key d ! i \<noteq> None \<longrightarrow>
        dict_hash d ! i = dictionary_hash (dict_key d ! i)) \<and>
     (\<forall>i<length (dict_key d). \<forall>j<length (dict_key d).
        dict_key d ! i \<noteq> None \<longrightarrow> dict_key d ! i = dict_key d ! j \<longrightarrow> i = j)"

text \<open>What the table means: a finite map from keys to values, where a value may be NULL.\<close>

definition dict_map :: "dictionary \<Rightarrow> string \<Rightarrow> string option option" where
  "dict_map d k = map_of (zip (dict_key d) (dict_val d)) (Some k)"

lemma dict_wf_lens:
  assumes "dict_wf d"
  shows "dict_size d = int (length (dict_key d))" "length (dict_val d) = length (dict_key d)"
    "length (dict_hash d) = length (dict_key d)" "0 < length (dict_key d)"
  using assms by (auto simp: dict_wf_def)

lemma dict_wf_count:
  assumes "dict_wf d"
  shows "dict_used d \<le> dict_n d" "dict_n d \<le> dict_size d" "0 \<le> dict_used d" "0 < dict_size d"
  using assms by (auto simp: dict_wf_def dict_used_def)

lemma dict_wf_slot:
  "dict_wf d \<Longrightarrow> i < length (dict_key d) \<Longrightarrow> dict_key d ! i = Some k \<Longrightarrow>
   dict_hash d ! i = dictionary_hash (Some k)"
  unfolding dict_wf_def by (metis option.distinct(1))

lemma dict_wf_inj:
  "dict_wf d \<Longrightarrow> i < length (dict_key d) \<Longrightarrow> j < length (dict_key d) \<Longrightarrow>
   dict_key d ! i = Some k \<Longrightarrow> dict_key d ! j = Some k \<Longrightarrow> i = j"
  unfolding dict_wf_def by (metis option.distinct(1))

lemma dict_map_slot:
  assumes "dict_wf d" and "i < length (dict_key d)" and "dict_key d ! i = Some k"
  shows "dict_map d k = Some (dict_val d ! i)"
proof -
  have "\<forall>j<i. dict_key d ! j \<noteq> Some k"
    using dict_wf_inj [OF assms(1) _ assms(2) _ assms(3)] assms(2)
    by (metis less_imp_neq less_trans)
  then show ?thesis
    unfolding dict_map_def using assms dict_wf_lens(2) [OF assms(1)]
    by (intro map_of_zip_first) auto
qed

lemma dict_map_absent:
  "dict_wf d \<Longrightarrow> \<forall>i<length (dict_key d). dict_key d ! i \<noteq> Some k \<Longrightarrow> dict_map d k = None"
  unfolding dict_map_def by (intro map_of_zip_absent) (auto simp: dict_wf_lens)

section \<open>The search loops\<close>

lemma dict_find_step:
  assumes "dict_wf d" and "i < length (dict_key d)"
  shows "dict_find d (Some k) (dictionary_hash (Some k)) (int i) =
     (if dict_key d ! i = Some k then Some (int i)
      else dict_find d (Some k) (dictionary_hash (Some k)) (int i + 1))"
  using assms dict_wf_lens [OF assms(1)] dict_wf_slot [OF assms]
  by (subst dict_find.simps) (auto split: option.splits)

lemma dict_find_spec:
  assumes "dict_wf d" and "i \<le> length (dict_key d)"
  shows "\<exists>j. dict_find d (Some k) (dictionary_hash (Some k)) (int i) = Some (int j) \<and>
     i \<le> j \<and> j \<le> length (dict_key d) \<and>
     (j < length (dict_key d) \<longrightarrow> dict_key d ! j = Some k) \<and>
     (\<forall>m. i \<le> m \<and> m < j \<longrightarrow> dict_key d ! m \<noteq> Some k)"
  using assms(2)
proof (induction "length (dict_key d) - i" arbitrary: i)
  case 0
  then have "dict_find d (Some k) (dictionary_hash (Some k)) (int i) = Some (int i)"
    using dict_wf_lens(1) [OF assms(1)] by (subst dict_find.simps) simp
  with 0 show ?case by auto
next
  case (Suc n)
  then have i: "i < length (dict_key d)" by simp
  note step = dict_find_step [OF assms(1) i, of k]
  show ?case
  proof (cases "dict_key d ! i = Some k")
    case True
    with step i show ?thesis by auto
  next
    case False
    obtain j where j: "dict_find d (Some k) (dictionary_hash (Some k)) (int (Suc i)) = Some (int j)"
      "Suc i \<le> j" "j \<le> length (dict_key d)"
      "j < length (dict_key d) \<longrightarrow> dict_key d ! j = Some k"
      "\<forall>m. Suc i \<le> m \<and> m < j \<longrightarrow> dict_key d ! m \<noteq> Some k"
    proof -
      have "n = length (dict_key d) - Suc i" "Suc i \<le> length (dict_key d)"
        using Suc.hyps(2) i by auto
      from Suc.hyps(1) [OF this] that show ?thesis by blast
    qed
    have "\<forall>m. i \<le> m \<and> m < j \<longrightarrow> dict_key d ! m \<noteq> Some k"
      using j(5) False by (metis Suc_leI le_neq_implies_less)
    with j step False show ?thesis by (intro exI [of _ j]) (auto simp: add.commute)
  qed
qed

text \<open>Searching from the start: either the slot of the key, or the size.\<close>

lemma dict_find_cases:
  assumes "dict_wf d"
  obtains (found) j where
      "dict_find d (Some k) (dictionary_hash (Some k)) 0 = Some (int j)"
      "j < length (dict_key d)" "dict_key d ! j = Some k"
    | (absent) "dict_find d (Some k) (dictionary_hash (Some k)) 0 = Some (dict_size d)"
      "\<forall>j<length (dict_key d). dict_key d ! j \<noteq> Some k"
  using dict_find_spec [OF assms, of 0 k] dict_wf_lens(1) [OF assms]
  by (auto simp: le_less)

text \<open>
  A loop over the slots whose body is defined on every slot never leaves the arrays,
  and visits the slots in order.
\<close>

lemma dict_scan_from:
  assumes "dict_wf d" and "\<forall>i<length (dict_key d). g (int i) (dict_key d ! i) = Some (f i)"
  shows "i \<le> length (dict_key d) \<Longrightarrow>
    dict_scan g d (int i) = Some (concat (map f [i..<length (dict_key d)]))"
proof (induction "length (dict_key d) - i" arbitrary: i)
  case 0
  then show ?case using dict_wf_lens(1) [OF assms(1)] by (subst dict_scan.simps) simp
next
  case (Suc n)
  then have i: "i < length (dict_key d)" by simp
  have "dict_scan g d (int (Suc i)) = Some (concat (map f [Suc i..<length (dict_key d)]))"
    using Suc.hyps(1) [of "Suc i"] Suc.hyps(2) i by simp
  then show ?case
    using i assms(2) dict_wf_lens(1) [OF assms(1)]
    by (subst dict_scan.simps) (simp add: add.commute upt_conv_Cons)
qed

lemma dict_scan_all:
  assumes "dict_wf d" and "\<forall>i<length (dict_key d). g (int i) (dict_key d ! i) = Some (f i)"
  shows "dict_scan g d 0 = Some (concat (map f [0..<length (dict_key d)]))"
  using dict_scan_from [OF assms, of 0] by simp

text \<open>The used slots in order, as key/value pairs.\<close>

definition slot_entry :: "string option \<times> 'v \<Rightarrow> (string \<times> 'v) list" where
  "slot_entry kv = (case fst kv of None \<Rightarrow> [] | Some s \<Rightarrow> [(s, snd kv)])"

definition dict_entries :: "dictionary \<Rightarrow> (string \<times> string option) list" where
  "dict_entries d = concat (map slot_entry (zip (dict_key d) (dict_val d)))"

lemma map_of_slot_entries: "map_of (concat (map slot_entry kvs)) k = map_of kvs (Some k)"
  by (induction kvs) (auto simp: slot_entry_def split: option.splits)

lemma dict_entries_map: "map_of (dict_entries d) = dict_map d"
  by (simp add: fun_eq_iff dict_entries_def dict_map_def map_of_slot_entries)

lemma dict_entries_distinct:
  assumes "dict_wf d" and "(k, v) \<in> set (dict_entries d)"
  shows "dict_map d k = Some v"
proof -
  obtain i where "i < length (dict_key d)" "dict_key d ! i = Some k" "dict_val d ! i = v"
    using assms(2) dict_wf_lens [OF assms(1)]
    by (auto simp: dict_entries_def slot_entry_def set_zip split: option.splits)
  then show ?thesis using dict_map_slot [OF assms(1)] by auto
qed

lemma concat_map_slots:
  assumes "length vs = length ks"
    and "\<And>i. i < length ks \<Longrightarrow> F i = concat (map f (slot_entry (ks ! i, vs ! i)))"
  shows "concat (map F [0..<length ks]) = concat (map f (concat (map slot_entry (zip ks vs))))"
proof -
  have "map F [0..<length ks] = map (\<lambda>kv. concat (map f (slot_entry kv))) (zip ks vs)"
    using assms by (intro nth_equalityI) auto
  moreover have "concat (map (\<lambda>kv. concat (map f (slot_entry kv))) kvs)
      = concat (map f (concat (map slot_entry kvs)))" for kvs
    by (induction kvs) simp_all
  ultimately show ?thesis by metis
qed

lemma dict_scan_entries:
  assumes "dict_wf d"
    and "\<And>i s. i < length (dict_key d) \<Longrightarrow> dict_key d ! i = Some s \<Longrightarrow>
           g (int i) (Some s) = Some (f (s, dict_val d ! i))"
    and "\<And>i. g i None = Some []"
  shows "dict_scan g d 0 = Some (concat (map f (dict_entries d)))"
proof -
  let ?F = "\<lambda>i. concat (map f (slot_entry (dict_key d ! i, dict_val d ! i)))"
  have "\<forall>i<length (dict_key d). g (int i) (dict_key d ! i) = Some (?F i)"
    using assms(2,3) by (auto simp: slot_entry_def split: option.splits)
  from dict_scan_all [OF assms(1) this] show ?thesis
    using concat_map_slots [of "dict_val d" "dict_key d" ?F f] dict_wf_lens(2) [OF assms(1)]
    by (simp add: dict_entries_def)
qed

lemma dictionary_dump_total: "dict_wf d \<Longrightarrow> \<exists>out. dictionary_dump (Some d) True = Some out"
  using dict_scan_all [of d "dict_dump_slot d" "\<lambda>i. the (dict_dump_slot d (int i) (dict_key d ! i))"]
  by (auto simp: dictionary_dump_def dict_dump_slot_def dict_wf_lens split: option.splits)

lemma dict_free_slot_ok:
  assumes "f < length keys" and "keys ! f = None" and "i < length keys"
  shows "\<exists>j. dict_free_slot keys (int (length keys)) (int i) = Some (int j) \<and>
    j < length keys \<and> keys ! j = None"
  using assms(3)
proof (induction "if i \<le> f then f - i else f + length keys - i" arbitrary: i rule: less_induct)
  case less
  show ?case
  proof (cases "keys ! i")
    case None
    then show ?thesis using less.prems by (subst dict_free_slot.simps) auto
  next
    case (Some k)
    then have nf: "i \<noteq> f" using assms(2) by auto
    let ?i' = "if Suc i = length keys then 0 else Suc i"
    have "(if ?i' \<le> f then f - ?i' else f + length keys - ?i')
        < (if i \<le> f then f - i else f + length keys - i)"
      using nf less.prems assms(1) by auto
    moreover have "?i' < length keys" using less.prems by auto
    ultimately obtain j where
      j: "dict_free_slot keys (int (length keys)) (int ?i') = Some (int j)"
         "j < length keys" "keys ! j = None" using less.hyps [of ?i'] by blast
    have "dict_free_slot keys (int (length keys)) (int i) =
        dict_free_slot keys (int (length keys)) (int ?i')"
      using Some less.prems by (subst dict_free_slot.simps) (auto simp: add.commute)
    with j show ?thesis by auto
  qed
qed


section \<open>Changing one slot\<close>

text \<open>Every update of the table writes one slot of the three arrays and the counter.\<close>

definition dict_put_slot ::
  "dictionary \<Rightarrow> nat \<Rightarrow> string option \<Rightarrow> string option \<Rightarrow> u32 \<Rightarrow> int \<Rightarrow> dictionary" where
  "dict_put_slot d i x v h n =
     d\<lparr>dict_key := (dict_key d)[i := x], dict_val := (dict_val d)[i := v],
       dict_hash := (dict_hash d)[i := h], dict_n := n\<rparr>"

lemma dict_put_slot_key [simp]: "dict_key (dict_put_slot d i x v h n) = (dict_key d)[i := x]"
  by (simp add: dict_put_slot_def)

lemma dict_put_slot_val [simp]: "dict_val (dict_put_slot d i x v h n) = (dict_val d)[i := v]"
  by (simp add: dict_put_slot_def)

lemma dict_used_put_slot:
  "i < length (dict_key d) \<Longrightarrow>
   dict_used (dict_put_slot d i x v h n) + (if dict_key d ! i \<noteq> None then 1 else 0)
   = dict_used d + (if x \<noteq> None then 1 else 0)"
  using filter_length_update [of i "dict_key d" "\<lambda>k. k \<noteq> None" x]
  by (auto simp: dict_used_def dict_put_slot_def split: if_splits)

lemma dict_wf_put_slot:
  assumes "dict_wf d" and "i < length (dict_key d)"
    and "x \<noteq> None \<longrightarrow> h = dictionary_hash x \<and>
           (\<forall>j<length (dict_key d). j \<noteq> i \<longrightarrow> dict_key d ! j \<noteq> x)"
    and "dict_used (dict_put_slot d i x v h n) \<le> n" and "n \<le> dict_size d"
  shows "dict_wf (dict_put_slot d i x v h n)"
proof -
  have uniq: "a = b" if "a < length (dict_key d)" "b < length (dict_key d)"
      "(dict_key d)[i := x] ! a \<noteq> None" "(dict_key d)[i := x] ! a = (dict_key d)[i := x] ! b" for a b
    using that assms(2,3) dict_wf_inj [OF assms(1) that(1,2)]
    by (auto simp: nth_list_update split: if_splits)
  have hashes: "(dict_hash d)[i := h] ! a = dictionary_hash ((dict_key d)[i := x] ! a)"
    if "a < length (dict_key d)" "(dict_key d)[i := x] ! a \<noteq> None" for a
    using that assms(2,3) dict_wf_slot [OF assms(1) that(1)] dict_wf_lens [OF assms(1)]
    by (auto simp: nth_list_update split: if_splits)
  show ?thesis
    unfolding dict_wf_def
    using dict_wf_lens [OF assms(1)] dict_wf_count [OF assms(1)] assms(4,5) uniq hashes
    by (auto simp: dict_put_slot_def)
qed

lemma dict_map_put_slot_other:
  "dict_wf d \<Longrightarrow> i < length (dict_key d) \<Longrightarrow> dict_key d ! i \<noteq> Some k \<Longrightarrow> x \<noteq> Some k \<Longrightarrow>
   dict_map (dict_put_slot d i x v h n) k = dict_map d k"
  unfolding dict_map_def by (simp add: map_of_zip_upd_other dict_wf_lens)

lemma dict_map_put_slot:
  assumes "dict_wf d" and "i < length (dict_key d)" and "dict_wf (dict_put_slot d i (Some k) v h n)"
    and "dict_key d ! i = None \<or> dict_key d ! i = Some k"
  shows "dict_map (dict_put_slot d i (Some k) v h n) = (dict_map d)(k \<mapsto> v)"
proof
  fix k'
  show "dict_map (dict_put_slot d i (Some k) v h n) k' = ((dict_map d)(k \<mapsto> v)) k'"
  proof (cases "k' = k")
    case True
    then show ?thesis
      using dict_map_slot [OF assms(3), of i k] assms(1,2) dict_wf_lens(2) [OF assms(1)] by simp
  next
    case False
    then show ?thesis using dict_map_put_slot_other [OF assms(1,2)] assms(4) by fastforce
  qed
qed

lemma dict_map_clear_slot:
  assumes "dict_wf d" and "i < length (dict_key d)" and "dict_key d ! i = Some k"
    and "dict_wf (dict_put_slot d i None v h n)"
  shows "dict_map (dict_put_slot d i None v h n) = (dict_map d)(k := None)"
proof
  fix k'
  show "dict_map (dict_put_slot d i None v h n) k' = ((dict_map d)(k := None)) k'"
  proof (cases "k' = k")
    case True
    have "\<forall>j<length (dict_key d). (dict_key d)[i := None] ! j \<noteq> Some k"
      using dict_wf_inj [OF assms(1) _ assms(2) _ assms(3)]
      by (metis nth_list_update_eq nth_list_update_neq option.distinct(1))
    then show ?thesis using dict_map_absent [OF assms(4)] True by simp
  next
    case False
    then show ?thesis using dict_map_put_slot_other [OF assms(1,2)] assms(3) by fastforce
  qed
qed

section \<open>Growth and insertion\<close>

lemma dictionary_grow_wf:
  assumes "dict_wf d" and "dictionary_grow ok d = (r, d')"
  shows "dict_wf d' \<and> dict_map d' = dict_map d \<and> dict_key d' = dict_key d @
      (if ok then replicate (length (dict_key d)) None else []) \<and>
    dict_n d' = dict_n d \<and> r = (if ok then 0 else -1) \<and>
    (ok \<longrightarrow> dict_size d' = 2 * dict_size d) \<and> (\<not> ok \<longrightarrow> d' = d)"
proof (cases ok)
  case True
  note lens = dict_wf_lens [OF assms(1)]
  have d': "d' = d\<lparr>dict_size := dict_size d * 2,
                 dict_val := dict_val d @ replicate (length (dict_key d)) None,
                 dict_key := dict_key d @ replicate (length (dict_key d)) None,
                 dict_hash := dict_hash d @ replicate (length (dict_key d)) 0\<rparr>" and r: "r = 0"
    using assms(2) True lens(1) by (auto simp: dictionary_grow_def)
  have free: "map_of (replicate n (None, None :: string option)) (Some x) = None"
    for n and x :: string
    by (induction n) auto
  have "dict_wf d'"
    using assms(1) lens unfolding d' dict_wf_def
    by (auto simp: dict_used_def nth_append split: if_splits)
  moreover have "dict_map d' = dict_map d"
    unfolding dict_map_def d' using lens
    by (intro ext)
      (simp add: zip_append zip_replicate free map_add_def del: map_of_zip_is_None split: option.split)
  ultimately show ?thesis using d' True r by simp
qed (use assms in \<open>auto simp: dictionary_grow_def\<close>)

text \<open>Growing when full makes room and keeps everything else.\<close>

lemma dict_room:
  assumes "dict_wf d" and "\<forall>j<length (dict_key d). dict_key d ! j \<noteq> Some k"
    and "(if dict_n d = dict_size d then dictionary_grow ok d else (0, d)) = (r, d1)"
    and "\<not> (dict_n d = dict_size d \<and> \<not> ok)"
  shows "r = 0 \<and> dict_wf d1 \<and> dict_map d1 = dict_map d \<and> dict_n d1 = dict_n d \<and>
    dict_n d1 < dict_size d1 \<and> (\<forall>j<length (dict_key d1). dict_key d1 ! j \<noteq> Some k)"
proof (cases "dict_n d = dict_size d")
  case True
  then have ok: "ok" and g: "dictionary_grow ok d = (r, d1)" using assms(3,4) by auto
  have "dict_key d1 = dict_key d @ replicate (length (dict_key d)) None"
    "dict_size d1 = 2 * dict_size d"
    using dictionary_grow_wf [OF assms(1) g] ok by auto
  moreover have "0 < dict_size d" using assms(1) by (simp add: dict_wf_def)
  ultimately show ?thesis
    using dictionary_grow_wf [OF assms(1) g] ok True assms(2) by (simp add: nth_append)
next
  case False
  then have "d1 = d" "r = 0" using assms(3) by auto
  then show ?thesis using assms(1,2) False dict_wf_count(2) [OF assms(1)] by simp
qed

lemma dict_insert_ok:
  assumes "dict_wf d" and "dict_n d < dict_size d"
    and "\<forall>j<length (dict_key d). dict_key d ! j \<noteq> Some k"
  shows "\<exists>d'. dict_insert m d (Some k) val = Some d' \<and> dict_wf d' \<and>
    dict_map d' = (if key_ok m then (dict_map d)(k \<mapsto> xstrdup (val_ok m) val) else dict_map d) \<and>
    dict_n d' = dict_n d + 1"
proof -
  note lens = dict_wf_lens [OF assms(1)]
  have used: "0 \<le> dict_used d" "dict_used d \<le> dict_n d"
    using assms(1) by (auto simp: dict_wf_def dict_used_def)
  then have "dict_used d < int (length (dict_key d))" using assms(2) lens(1) by simp
  then obtain f where f: "f < length (dict_key d)" "dict_key d ! f = None"
    using filter_length_less_ex [of "\<lambda>k. k \<noteq> None" "dict_key d"] by (auto simp: dict_used_def)
  obtain i0 where i0: "dict_n d = int i0" "i0 < length (dict_key d)"
    using used assms(2) lens(1) by (metis nonneg_int_cases of_nat_less_iff order.trans)
  obtain j where j: "dict_free_slot (dict_key d) (dict_size d) (dict_n d) = Some (int j)"
    "j < length (dict_key d)" "dict_key d ! j = None"
    using dict_free_slot_ok [OF f i0(2)] i0(1) lens(1) by auto
  let ?x = "xstrdup (key_ok m) (Some k)" and ?v = "xstrdup (val_ok m) val"
  let ?d' = "dict_put_slot d j ?x ?v (dictionary_hash (Some k)) (dict_n d + 1)"
  have res: "dict_insert m d (Some k) val = Some ?d'"
    using j lens by (simp add: dict_insert_def dict_put_slot_def)
  have wf: "dict_wf ?d'"
    using dict_used_put_slot [OF j(2)] j(3) used assms(2,3)
    by (intro dict_wf_put_slot [OF assms(1) j(2)]) (auto simp: xstrdup_def)
  have "dict_map ?d' = (if key_ok m then (dict_map d)(k \<mapsto> ?v) else dict_map d)"
  proof (cases "key_ok m")
    case True
    then show ?thesis
      using dict_map_put_slot [OF assms(1) j(2), of k ?v] wf j(3) by (simp add: xstrdup_def)
  next
    case False
    then show ?thesis
      using dict_map_put_slot_other [OF assms(1) j(2)] j(3) by (simp add: xstrdup_def fun_eq_iff)
  qed
  with res wf show ?thesis by (auto simp: dict_put_slot_def)
qed


section \<open>The operations\<close>

lemma dictionary_new_wf:
  assumes "dictionary_new True True True True n = Some d"
  shows "dict_wf d \<and> dict_map d = Map.empty \<and> dict_n d = 0"
  using assms
  by (auto simp: dictionary_new_def Let_def dict_wf_def dict_used_def dict_map_def DICTMINSZ_def
      zip_replicate fun_eq_iff map_of_eq_None_iff split: if_splits)

lemma dictionary_get_map:
  assumes "dict_wf d"
  shows "dictionary_get d (Some k) def =
    Some (case dict_map d k of None \<Rightarrow> def | Some v \<Rightarrow> ptr_of v)"
proof (cases rule: dict_find_cases [OF assms, of k])
  case (1 j)
  then show ?thesis
    using dict_map_slot [OF assms, of j k] dict_wf_lens [OF assms]
    by (simp add: dictionary_get_def)
next
  case 2
  then show ?thesis using dict_map_absent [OF assms, of k] by (simp add: dictionary_get_def)
qed

text \<open>Every outcome of \<^const>\<open>dictionary_set\<close>.\<close>

lemma dictionary_set_cases:
  assumes "dict_wf d"
  obtains (updated) d' where "k \<in> dom (dict_map d)" 
      "dictionary_set m (Some d) (Some k) val = Some (0, Some d')" "dict_wf d'"
      "dict_map d' = (dict_map d)(k \<mapsto> xstrdup (val_ok m) val)" "dict_n d' = dict_n d"
    | (added) d' where "k \<notin> dom (dict_map d)"
      "dictionary_set m (Some d) (Some k) val = Some (0, Some d')" "dict_wf d'"
      "dict_map d' = (if key_ok m then (dict_map d)(k \<mapsto> xstrdup (val_ok m) val) else dict_map d)"
      "dict_n d' = dict_n d + 1" "\<not> (dict_n d = dict_size d \<and> \<not> grow_ok m)"
    | (full) "k \<notin> dom (dict_map d)" "\<not> grow_ok m" "dict_n d = dict_size d"
      "dictionary_set m (Some d) (Some k) val = Some (-1, Some d)"
proof -
  note lens = dict_wf_lens [OF assms]
  let ?search = "if dict_n d > 0 then dict_find d (Some k) (dictionary_hash (Some k)) 0
                 else Some (dict_size d)"
  show thesis
  proof (cases rule: dict_find_cases [OF assms, of k])
    case (1 j)
    have "dict_used d > 0"
      using 1(2,3) nth_mem [of j "dict_key d"]
      by (force simp: dict_used_def filter_empty_conv)
    then have n: "dict_n d > 0" using assms by (auto simp: dict_wf_def)
    let ?v = "xstrdup (val_ok m) val"
    let ?d' = "dict_put_slot d j (Some k) ?v (dictionary_hash (Some k)) (dict_n d)"
    have same: "?d' = d\<lparr>dict_val := (dict_val d)[j := ?v]\<rparr>"
      using 1(2,3) dict_wf_slot [OF assms 1(2,3)] list_update_id [of "dict_key d" j]
        list_update_id [of "dict_hash d" j]
      by (simp add: dict_put_slot_def)
    have wf: "dict_wf ?d'"
      using dict_used_put_slot [OF 1(2), of "Some k"] 1(3) dict_wf_count [OF assms]
        dict_wf_inj [OF assms _ 1(2) _ 1(3)]
      by (intro dict_wf_put_slot [OF assms 1(2)]) auto
    have "dictionary_set m (Some d) (Some k) val = Some (0, Some ?d')"
      unfolding dictionary_set_def by (simp add: n 1(1,2) lens same)
    moreover have "dict_map ?d' = (dict_map d)(k \<mapsto> ?v)" "k \<in> dom (dict_map d)"
      using dict_map_put_slot [OF assms 1(2) wf] dict_map_slot [OF assms 1(2,3)] 1(3) by auto
    ultimately show thesis using wf by (intro updated [of ?d']) (auto simp: dict_put_slot_def)
  next
    case 2
    then have s: "?search = Some (dict_size d)" by simp
    have nk: "k \<notin> dom (dict_map d)" using dict_map_absent [OF assms 2(2)] by auto
    obtain r d1 where g: "(if dict_n d = dict_size d then dictionary_grow (grow_ok m) d else (0, d))
        = (r, d1)" by force
    show thesis
    proof (cases "dict_n d = dict_size d \<and> \<not> grow_ok m")
      case True
      have "dictionary_set m (Some d) (Some k) val = Some (-1, Some d)"
        unfolding dictionary_set_def by (simp add: s True dictionary_grow_def 2(1))
      with True nk show thesis by (intro full) auto
    next
      case False
      then have d1: "r = 0" "dict_wf d1" "dict_map d1 = dict_map d" "dict_n d1 = dict_n d"
        "dict_n d1 < dict_size d1" "\<forall>j<length (dict_key d1). dict_key d1 ! j \<noteq> Some k"
        using dict_room [OF assms 2(2) g False] by simp_all
      obtain d2 where d2: "dict_insert m d1 (Some k) val = Some d2" "dict_wf d2"
        "dict_map d2 = (if key_ok m then (dict_map d1)(k \<mapsto> xstrdup (val_ok m) val) else dict_map d1)"
        "dict_n d2 = dict_n d1 + 1"
        using dict_insert_ok [OF d1(2,5,6)] by blast
      have "dictionary_set m (Some d) (Some k) val = Some (0, Some d2)"
        unfolding dictionary_set_def
        by (simp add: s g d1(1) d2(1) del: split_paired_All split_paired_Ex)
      then show thesis using added nk d2 d1 False by auto
    qed
  qed
qed

lemma dictionary_unset_map:
  assumes "dict_wf d"
  shows "\<exists>d'. dictionary_unset (Some d) (Some k) = Some (Some d') \<and> dict_wf d' \<and>
    dict_map d' = (dict_map d)(k := None) \<and>
    dict_n d' = dict_n d - (if k \<in> dom (dict_map d) then 1 else 0)"
proof (cases rule: dict_find_cases [OF assms, of k])
  case (1 j)
  let ?d' = "dict_put_slot d j None None 0 (dict_n d - 1)"
  have res: "dictionary_unset (Some d) (Some k) = Some (Some ?d')"
    using 1 dict_wf_lens [OF assms] by (simp add: dictionary_unset_def dict_put_slot_def)
  have wf: "dict_wf ?d'"
    using dict_used_put_slot [OF 1(2), of None None 0 "dict_n d - 1"] 1(3)
      dict_wf_count [OF assms]
    by (intro dict_wf_put_slot [OF assms 1(2)]) auto
  show ?thesis
    using res wf dict_map_clear_slot [OF assms 1(2,3) wf] dict_map_slot [OF assms 1(2,3)]
    by (auto simp: dict_put_slot_def)
next
  case 2
  then show ?thesis
    using assms dict_map_absent [OF assms 2(2)]
    by (intro exI [of _ d]) (auto simp: dictionary_unset_def fun_eq_iff)
qed



section \<open>The dictionary as a table\<close>

text \<open>The operations as the interface sees them, with enough memory.\<close>

definition all_ok :: dict_alloc where
  "all_ok = \<lparr>grow_ok = True, key_ok = True, val_ok = True\<rparr>"

definition dict_lookup :: "dictionary \<Rightarrow> string \<Rightarrow> string option option" where
  "dict_lookup d k =
     (case dictionary_get d (Some k) InvalidKey of
        None \<Rightarrow> None
      | Some p \<Rightarrow> (case p of Null \<Rightarrow> Some None | InvalidKey \<Rightarrow> None | Str s \<Rightarrow> Some (Some s)))"

definition dict_store :: "string \<Rightarrow> string option \<Rightarrow> dictionary \<Rightarrow> dictionary option" where
  "dict_store k v d =
     (case dictionary_set all_ok (Some d) (Some k) v of
        Some (r, dp) \<Rightarrow> if r = 0 then dp else None
      | None \<Rightarrow> None)"

definition dict_erase :: "string \<Rightarrow> dictionary \<Rightarrow> dictionary option" where
  "dict_erase k d = Option.bind (dictionary_unset (Some d) (Some k)) id"

lemma dict_lookup_map: "dict_wf d \<Longrightarrow> dict_lookup d = dict_map d"
proof
  fix k
  assume "dict_wf d"
  then show "dict_lookup d k = dict_map d k"
    by (cases "dict_map d k"; cases "the (dict_map d k)")
      (simp_all add: dict_lookup_def dictionary_get_map)
qed

lemma xstrdup_ok [simp]: "xstrdup True v = v"
  by (auto simp: xstrdup_def split: option.splits)

lemma dict_store_map:
  assumes "dict_wf d"
  shows "\<exists>d'. dict_store k v d = Some d' \<and> dict_wf d' \<and> dict_map d' = (dict_map d)(k \<mapsto> v)"
  by (cases rule: dictionary_set_cases [OF assms, of k all_ok v])
    (auto simp: dict_store_def all_ok_def)

lemma dict_erase_map:
  assumes "dict_wf d"
  shows "\<exists>d'. dict_erase k d = Some d' \<and> dict_wf d' \<and> dict_map d' = (dict_map d)(k := None)"
  using dictionary_unset_map [OF assms, of k] by (auto simp: dict_erase_def)

interpretation dict: erasable_table dict_lookup dict_store dict_wf dict_erase
proof unfold_locales
  fix d d' k and v :: "string option"
  assume "dict_wf d" and "dict_store k v d = Some d'"
  then show "dict_wf d'" using dict_store_map [of d k v] by auto
next
  fix d d' k and v :: "string option"
  assume "dict_wf d" and "dict_store k v d = Some d'"
  then show "dict_lookup d' = (dict_lookup d)(k \<mapsto> v)"
    using dict_store_map [of d k v] by (auto simp: dict_lookup_map)
next
  fix d k and v :: "string option"
  assume "dict_wf d"
  then show "\<exists>d'. dict_store k v d = Some d'" "\<exists>d'. dict_erase k d = Some d'"
    using dict_store_map [of d k v] dict_erase_map [of d k] by auto
next
  fix d d' k
  assume "dict_wf d" and "dict_erase k d = Some d'"
  then show "dict_wf d'" "dict_lookup d' = (dict_lookup d)(k := None)"
    using dict_erase_map [of d k] by (auto simp: dict_lookup_map)
qed

text \<open>A concrete table for the witnesses: the 128 free slots of \<^verbatim>\<open>dictionary_new(0)\<close>.\<close>

definition empty_dict :: dictionary where
  "empty_dict = the (dictionary_new True True True True 0)"

lemma dictionary_new_empty: "dictionary_new True True True True 0 = Some empty_dict"
  by (simp add: empty_dict_def dictionary_new_def)

lemma empty_dict_wf: "dict_wf empty_dict" "dict_map empty_dict = Map.empty"
  using dictionary_new_wf [of 0 empty_dict]
  by (auto simp: empty_dict_def dictionary_new_def)

lemma empty_dict_lookup: "dict_lookup empty_dict = Map.empty"
  by (simp add: dict_lookup_map empty_dict_wf)

section \<open>Properties\<close>

text \<open>
  C34: Filling a well formed dictionary with a sequence of key/value pairs never fails
  (the search for a free slot returns, the arrays are not left) when memory is
  available, keeps it well formed, and \<^verbatim>\<open>dictionary_get\<close> afterwards returns, for every
  key, the last value set for it, the value the key had before, or the default.
\<close>

theorem dictionary_fill_get:
  assumes "dict_wf d"
  shows "\<exists>d'. dict.insert_all ps d = Some d' \<and> dict_wf d' \<and>
    (\<forall>k def. dictionary_get d' (Some k) def =
       Some (case map_of (rev ps) k of
               Some v \<Rightarrow> ptr_of v
             | None \<Rightarrow> (case dict_lookup d k of Some v \<Rightarrow> ptr_of v | None \<Rightarrow> def)))"
proof -
  obtain d' where d': "dict.insert_all ps d = Some d'" using dict.insert_all_ok [OF assms] by blast
  have wf: "dict_wf d'" using dict.insert_all_inv [OF assms d'] .
  have "dict_map d' = dict_lookup d ++ map_of (rev ps)"
    using dict.insert_all_last [OF assms d'] dict_lookup_map [OF wf] by simp
  then show ?thesis
    using d' wf dictionary_get_map [OF wf] by (auto simp: map_add_def split: option.splits)
qed

theorem dictionary_fill_get_witness:
  "\<exists>d'. dict.insert_all [(''a'', Some ''1''), (''b'', None), (''a'', Some ''2'')] empty_dict = Some d' \<and>
     dictionary_get d' (Some ''a'') InvalidKey = Some (Str ''2'') \<and>
     dictionary_get d' (Some ''b'') InvalidKey = Some Null \<and>
     dictionary_get d' (Some ''c'') InvalidKey = Some InvalidKey"
  using dictionary_fill_get [OF empty_dict_wf(1),
      of "[(''a'', Some ''1''), (''b'', None), (''a'', Some ''2'')]"]
  by (auto simp: empty_dict_lookup)

text \<open>
  \<^verbatim>\<open>dictionary_set\<close> under every outcome of its allocations. It returns and keeps the
  invariant. It reports failure exactly when the key is new, the arrays are full and
  cannot grow, and then changes nothing; otherwise it returns 0, and the map is updated
  at the key, except that a value that could not be copied is stored as NULL and a new
  key that could not be copied is not stored at all although 0 is returned.
\<close>

theorem dictionary_set_outcomes:
  assumes "dict_wf d"
  shows "\<exists>r d'. dictionary_set m (Some d) (Some k) val = Some (r, Some d') \<and> dict_wf d' \<and>
    (r \<noteq> 0 \<longleftrightarrow> dict_lookup d k = None \<and> dict_n d = dict_size d \<and> \<not> grow_ok m) \<and>
    (r \<noteq> 0 \<longrightarrow> d' = d) \<and>
    (r = 0 \<longrightarrow> dict_lookup d' =
       (if dict_lookup d k = None \<and> \<not> key_ok m then dict_lookup d
        else (dict_lookup d)(k \<mapsto> (if val_ok m then val else None))))"
proof -
  have x: "xstrdup (val_ok m) val = (if val_ok m then val else None)"
    by (auto simp: xstrdup_def split: option.splits)
  show ?thesis
  proof (cases rule: dictionary_set_cases [OF assms, of k m val])
    case (1 d')
    then show ?thesis using assms x by (intro exI [of _ 0] exI [of _ d']) (auto simp: dict_lookup_map)
  next
    case (2 d')
    then show ?thesis using assms x
      by (intro exI [of _ 0] exI [of _ d']) (auto simp: dict_lookup_map)
  next
    case 3
    then show ?thesis using assms by (intro exI [of _ "-1"] exI [of _ d]) (auto simp: dict_lookup_map)
  qed
qed

theorem dictionary_set_outcomes_witness:
  "\<exists>r d'. dictionary_set all_ok (Some empty_dict) (Some ''k'') (Some ''v'') = Some (r, Some d') \<and>
     r = 0 \<and> dict_lookup d' ''k'' = Some (Some ''v'')"
  using dictionary_set_outcomes [OF empty_dict_wf(1), of all_ok "''k''" "Some ''v''"]
  by (auto simp: all_ok_def empty_dict_lookup)

text \<open>
  \<^verbatim>\<open>dictionary_unset\<close> removes the key and nothing else, keeps the invariant, and
  undoes the insertion of a fresh key.
\<close>

theorem dictionary_unset_get:
  assumes "dict_wf d"
  shows "\<exists>d'. dictionary_unset (Some d) (Some k) = Some (Some d') \<and> dict_wf d' \<and>
    (\<forall>k' def. dictionary_get d' (Some k') def =
       (if k' = k then Some def else dictionary_get d (Some k') def))"
  using dictionary_unset_map [OF assms, of k]
  by (auto simp: dictionary_get_map assms)

theorem dictionary_unset_get_witness:
  "\<exists>d'. dictionary_unset (Some empty_dict) (Some ''x'') = Some (Some d') \<and>
     dictionary_get d' (Some ''x'') Null = Some Null"
  using dictionary_unset_get [OF empty_dict_wf(1), of "''x''"] by auto

end
