(* ===== verification/Iniparser.thy ===== *)
theory Iniparser
  imports Dictionary
begin

text \<open>
  \<^verbatim>\<open>ini/iniparser.c\<close>: the accessors over a dictionary, the line parser and the loader.
  Files are their contents as a \<^typ>\<open>string\<close> without NUL characters; output streams are
  the text written; the messages passed to the error callback are returned as values.
\<close>

definition ASCIILINESZ :: nat where "ASCIILINESZ = 1024"

section \<open>String helpers\<close>

datatype line_status =
    LINE_UNPROCESSED
  | LINE_ERROR
  | LINE_EMPTY
  | LINE_COMMENT
  | LINE_SECTION
  | LINE_VALUE

text \<open>At most \<open>len - 1\<close> characters are converted; a zero length or NULL gives NULL.\<close>

definition strlwc :: "string option \<Rightarrow> nat \<Rightarrow> string option" where
  "strlwc inp len =
     (case inp of None \<Rightarrow> None
      | Some s \<Rightarrow> if len = 0 then None else Some (map tolower (take (len - 1) s)))"

text \<open>The string left in the buffer; its length is the value returned.\<close>

definition rstrip :: "string \<Rightarrow> string" where
  "rstrip s = rev (dropWhile isspace (rev s))"

definition strstrip :: "string \<Rightarrow> string" where
  "strstrip s = rstrip (dropWhile isspace s)"

section \<open>The formats of \<open>sscanf\<close> the parser uses\<close>

text \<open>
  A directive is white space (any amount, possibly none), a literal character or a
  \<^verbatim>\<open>%[...]\<close> conversion, which needs at least one character. The conversions that succeed
  before the first mismatch are assigned; their number is the value returned.
\<close>

datatype directive = Ws | Lit char | ScanSet "char \<Rightarrow> bool"

fun sscanf :: "directive list \<Rightarrow> string \<Rightarrow> string list" where
  "sscanf [] s = []"
| "sscanf (Ws # ds) s = sscanf ds (dropWhile isspace s)"
| "sscanf (Lit c # ds) s =
     (case s of [] \<Rightarrow> [] | x # xs \<Rightarrow> if x = c then sscanf ds xs else [])"
| "sscanf (ScanSet p # ds) s =
     (let m = takeWhile p s in if m = [] then [] else m # sscanf ds (dropWhile p s))"

definition DQ :: char where "DQ = CHR 0x22"

definition SQ :: char where "SQ = CHR 0x27"

definition fmt_section :: "directive list" where
  "fmt_section = [Lit CHR ''['', ScanSet (\<lambda>c. c \<noteq> CHR '']'')]"

definition fmt_key_eq :: "directive list" where
  "fmt_key_eq = [ScanSet (\<lambda>c. c \<noteq> CHR ''=''), Ws, Lit CHR ''='', Ws]"

definition fmt_quoted :: "char \<Rightarrow> directive list" where
  "fmt_quoted q = [ScanSet (\<lambda>c. c \<noteq> CHR ''=''), Ws, Lit CHR ''='', Ws, Lit q, ScanSet (\<lambda>c. c \<noteq> q), Lit q]"

definition fmt_plain :: "directive list" where
  "fmt_plain = fmt_key_eq @ [ScanSet (\<lambda>c. c \<noteq> CHR '';'' \<and> c \<noteq> CHR ''#'')]"

definition fmt_comment :: "directive list" where
  "fmt_comment = fmt_key_eq @ [ScanSet (\<lambda>c. c = CHR '';'' \<or> c = CHR ''#'')]"

definition fmt_empty :: "directive list" where
  "fmt_empty = [ScanSet (\<lambda>c. c \<noteq> CHR ''=''), Ws, ScanSet (\<lambda>c. c = CHR ''='')]"

text \<open>The two output buffers after a scan: an assignment that was not reached leaves them.\<close>

definition scan2 :: "directive list \<Rightarrow> string \<Rightarrow> string \<times> string \<Rightarrow> bool \<times> string \<times> string" where
  "scan2 fmt line kv =
     (case sscanf fmt line of
        [] \<Rightarrow> (False, kv)
      | [k] \<Rightarrow> (False, k, snd kv)
      | k # v # _ \<Rightarrow> (True, k, v))"

section \<open>One line\<close>

text \<open>
  \<open>ok\<close> is the outcome of copying the input; the result is the status and the three
  output buffers.
\<close>

definition iniparser_line ::
  "bool \<Rightarrow> string \<Rightarrow> string \<Rightarrow> string \<Rightarrow> string \<Rightarrow> line_status \<times> string \<times> string \<times> string" where
  "iniparser_line ok input_line sec key value =
     (let line = (if ok then strstrip input_line else []);
          len = length line;
          lower = (\<lambda>s. the (strlwc (Some s) len))
      in
      if len < 1 then (LINE_EMPTY, sec, key, value)
      else if line ! 0 = CHR ''#'' \<or> line ! 0 = CHR '';'' then (LINE_COMMENT, sec, key, value)
      else if line ! 0 = CHR ''['' \<and> line ! (len - 1) = CHR '']'' then
        (let sec1 = (case sscanf fmt_section line of [] \<Rightarrow> sec | s # _ \<Rightarrow> s)
         in (LINE_SECTION, lower (strstrip sec1), key, value))
      else
        (let (q2, kv2) = scan2 (fmt_quoted DQ) line (key, value);
             (q1, kv1) = (if q2 then (True, kv2) else scan2 (fmt_quoted SQ) line kv2)
         in if q1 then (LINE_VALUE, sec, lower (strstrip (fst kv1)), snd kv1)
         else
           (let (p, kv3) = scan2 fmt_plain line kv1
            in if p then
                 (let v = strstrip (snd kv3)
                  in (LINE_VALUE, sec, lower (strstrip (fst kv3)),
                      if v = [DQ, DQ] \<or> v = [SQ, SQ] then [] else v))
            else
              (let (c, kv4) = scan2 fmt_comment line kv3;
                   (e, kv5) = (if c then (True, kv4) else scan2 fmt_empty line kv4)
               in if e then (LINE_VALUE, sec, lower (strstrip (fst kv5)), [])
                  else (LINE_ERROR, sec, fst kv5, snd kv5)))))"

section \<open>Loading a file\<close>

datatype ini_message =
    CannotOpen
  | LineTooLong nat
  | SyntaxError nat string
  | MemoryFailure

text \<open>The locals of \<^verbatim>\<open>iniparser_load\<close>; \<open>pending\<close> is \<^verbatim>\<open>line[0..last-1]\<close>.\<close>

record ini_state =
  ini_rest :: string
  ini_pending :: string
  ini_section :: string
  ini_key :: string
  ini_val :: string
  ini_lineno :: nat
  ini_errs :: nat
  ini_dict :: dictionary
  ini_log :: "ini_message list"

text \<open>The allocations made while one line is processed.\<close>

record ini_alloc =
  line_ok :: bool
  set_alloc :: dict_alloc

text \<open>
  The body of the loop once the line is complete: parse it and store the entry.
  The result is the new state and whether an allocation failed.
\<close>

definition ini_process :: "ini_alloc \<Rightarrow> string \<Rightarrow> ini_state \<Rightarrow> (bool \<times> ini_state) option" where
  "ini_process m line st =
     (let (sta, sec, key, val) =
            iniparser_line (line_ok m) line (ini_section st) (ini_key st) (ini_val st);
          st1 = st\<lparr>ini_section := sec, ini_key := key, ini_val := val, ini_pending := []\<rparr>
      in case sta of
           LINE_SECTION \<Rightarrow>
             do { (r, d) \<leftarrow> dictionary_set (set_alloc m) (Some (ini_dict st)) (Some sec) None;
                  Some (r < 0, st1\<lparr>ini_dict := the d\<rparr>) }
         | LINE_VALUE \<Rightarrow>
             do { (r, d) \<leftarrow> dictionary_set (set_alloc m) (Some (ini_dict st))
                      (Some (sec @ '':'' @ key)) (Some val);
                  Some (r < 0, st1\<lparr>ini_dict := the d\<rparr>) }
         | LINE_ERROR \<Rightarrow>
             Some (False, st1\<lparr>ini_errs := ini_errs st + 1,
                              ini_log := ini_log st @ [SyntaxError (ini_lineno st) line]\<rparr>)
         | _ \<Rightarrow> Some (False, st1))"

datatype ini_end = Finished ini_state | Rejected ini_state

partial_function (option) ini_loop :: "(nat \<Rightarrow> ini_alloc) \<Rightarrow> ini_state \<Rightarrow> ini_end option" where
  "ini_loop mem st =
     (case fgets (ASCIILINESZ - length (ini_pending st)) (ini_rest st) of
        None \<Rightarrow> Some (Finished st)
      | Some (chunk, rest, eof) \<Rightarrow>
          (let line = ini_pending st @ chunk;
               st1 = st\<lparr>ini_rest := rest, ini_lineno := ini_lineno st + 1\<rparr>
           in if length line \<le> 1 then ini_loop mem st1
              else if last line \<noteq> CHR 0x0A \<and> \<not> eof then
                Some (Rejected (st1\<lparr>ini_log := ini_log st @ [LineTooLong (ini_lineno st1)]\<rparr>))
              else
                (let line1 = rstrip line
                 in if line1 \<noteq> [] \<and> last line1 = CHR 0x5C
                    then ini_loop mem (st1\<lparr>ini_pending := butlast line1\<rparr>)
                    else (case ini_process (mem (ini_lineno st1)) line1 st1 of
                            None \<Rightarrow> None
                          | Some (failed, st2) \<Rightarrow>
                              if failed
                              then Some (Finished (st2\<lparr>ini_log := ini_log st2 @ [MemoryFailure]\<rparr>))
                              else ini_loop mem st2))))"

definition ini_start :: "string \<Rightarrow> dictionary \<Rightarrow> ini_state" where
  "ini_start content d =
     \<lparr>ini_rest = content, ini_pending = [], ini_section = [], ini_key = [], ini_val = [],
      ini_lineno = 0, ini_errs = 0, ini_dict = d, ini_log = []\<rparr>"

text \<open>
  \<^verbatim>\<open>iniparser_load\<close> on the contents of the file (\<^term>\<open>None\<close> when it cannot be opened) and
  the outcome of \<^verbatim>\<open>dictionary_new(0)\<close>: the dictionary returned and the messages.
\<close>

definition iniparser_load ::
  "(nat \<Rightarrow> ini_alloc) \<Rightarrow> dictionary option \<Rightarrow> string option \<Rightarrow>
    (dictionary option \<times> ini_message list) option" where
  "iniparser_load mem new file =
     (case file of None \<Rightarrow> Some (None, [CannotOpen])
      | Some content \<Rightarrow>
         (case new of None \<Rightarrow> Some (None, [])
          | Some d \<Rightarrow>
             do { e \<leftarrow> ini_loop mem (ini_start content d);
                  Some (case e of
                          Rejected st \<Rightarrow> (None, ini_log st)
                        | Finished st \<Rightarrow>
                            (if ini_errs st \<noteq> 0 then None else Some (ini_dict st), ini_log st)) }))"


section \<open>Accessors\<close>

text \<open>The stack buffers hold \<open>ASCIILINESZ + 1\<close> characters.\<close>

definition iniparser_getstring :: "dictionary option \<Rightarrow> string option \<Rightarrow> cstr \<Rightarrow> cstr option" where
  "iniparser_getstring dp key def =
     (case dp of None \<Rightarrow> Some def
      | Some d \<Rightarrow> if key = None then Some def
                  else dictionary_get d (strlwc key (ASCIILINESZ + 1)) def)"

definition iniparser_find_entry :: "dictionary option \<Rightarrow> string option \<Rightarrow> bool option" where
  "iniparser_find_entry ini entry =
     do { r \<leftarrow> iniparser_getstring ini entry InvalidKey; Some (r \<noteq> InvalidKey) }"

definition iniparser_set ::
  "dict_alloc \<Rightarrow> dictionary option \<Rightarrow> string option \<Rightarrow> string option \<Rightarrow>
    (int \<times> dictionary option) option" where
  "iniparser_set m ini entry val = dictionary_set m ini (strlwc entry (ASCIILINESZ + 1)) val"

definition iniparser_unset :: "dictionary option \<Rightarrow> string option \<Rightarrow> dictionary option option" where
  "iniparser_unset ini entry = dictionary_unset ini (strlwc entry (ASCIILINESZ + 1))"

text \<open>
  \<^verbatim>\<open>strtol\<close> of the C library with base 0: white space, a sign, a \<^verbatim>\<open>0x\<close> or \<^verbatim>\<open>0\<close> prefix,
  the digits, saturating at the bounds of a 64-bit \<^verbatim>\<open>long\<close>.
\<close>

definition digit_value :: "char \<Rightarrow> nat" where
  "digit_value c =
     (let n = (of_char c :: nat) in
      if 48 \<le> n \<and> n \<le> 57 then n - 48
      else if 97 \<le> n \<and> n \<le> 122 then n - 87
      else if 65 \<le> n \<and> n \<le> 90 then n - 55
      else 36)"

fun digits_value :: "nat \<Rightarrow> int \<Rightarrow> string \<Rightarrow> int" where
  "digits_value b acc [] = acc"
| "digits_value b acc (c # s) =
     (if digit_value c < b then digits_value b (acc * int b + int (digit_value c)) s else acc)"

definition strtol0 :: "string \<Rightarrow> int" where
  "strtol0 s0 =
     (let s1 = dropWhile isspace s0;
          neg = (s1 \<noteq> [] \<and> hd s1 = CHR ''-'');
          s2 = (if s1 \<noteq> [] \<and> (hd s1 = CHR ''-'' \<or> hd s1 = CHR ''+'') then tl s1 else s1);
          m = (case s2 of
                 c # x # h # r \<Rightarrow>
                   (if c = CHR ''0'' \<and> (x = CHR ''x'' \<or> x = CHR ''X'') \<and> digit_value h < 16
                    then digits_value 16 0 (h # r)
                    else if c = CHR ''0'' then digits_value 8 0 s2 else digits_value 10 0 s2)
               | c # r \<Rightarrow> (if c = CHR ''0'' then digits_value 8 0 s2 else digits_value 10 0 s2)
               | [] \<Rightarrow> 0);
          v = (if neg then - m else m)
      in if v > 2 ^ 63 - 1 then 2 ^ 63 - 1 else if v < - (2 ^ 63) then - (2 ^ 63) else v)"

definition iniparser_getlongint :: "dictionary option \<Rightarrow> string option \<Rightarrow> int \<Rightarrow> int option" where
  "iniparser_getlongint d key notfound =
     do { r \<leftarrow> iniparser_getstring d key InvalidKey;
          case r of InvalidKey \<Rightarrow> Some notfound | Null \<Rightarrow> None | Str s \<Rightarrow> Some (strtol0 s) }"

text \<open>The cast to \<^verbatim>\<open>int\<close> keeps the low 32 bits.\<close>

definition iniparser_getint :: "dictionary option \<Rightarrow> string option \<Rightarrow> int \<Rightarrow> int option" where
  "iniparser_getint d key notfound =
     do { v \<leftarrow> iniparser_getlongint d key notfound; Some (signed_take_bit 31 v) }"

text \<open>\<^verbatim>\<open>atof\<close> is a parameter.\<close>

definition iniparser_getdouble ::
  "(string \<Rightarrow> 'f) \<Rightarrow> dictionary option \<Rightarrow> string option \<Rightarrow> 'f \<Rightarrow> 'f option" where
  "iniparser_getdouble atof d key notfound =
     do { r \<leftarrow> iniparser_getstring d key InvalidKey;
          case r of InvalidKey \<Rightarrow> Some notfound | Null \<Rightarrow> None | Str s \<Rightarrow> Some (atof s) }"

definition first_char :: "string \<Rightarrow> char" where
  "first_char s = (case s of [] \<Rightarrow> CHR 0x00 | c # _ \<Rightarrow> c)"

definition iniparser_getboolean :: "dictionary option \<Rightarrow> string option \<Rightarrow> int \<Rightarrow> int option" where
  "iniparser_getboolean d key notfound =
     do { r \<leftarrow> iniparser_getstring d key InvalidKey;
          case r of
            InvalidKey \<Rightarrow> Some notfound
          | Null \<Rightarrow> None
          | Str s \<Rightarrow>
              (let c = first_char s in
               if c \<in> set ''yY1tT'' then Some 1
               else if c \<in> set ''nN0fF'' then Some 0
               else Some notfound) }"

section \<open>Sections\<close>

text \<open>A section is a key without a colon.\<close>

definition is_section :: "string \<Rightarrow> bool" where
  "is_section k \<longleftrightarrow> CHR '':'' \<notin> set k"

definition nsec_slot :: "int \<Rightarrow> string option \<Rightarrow> unit list option" where
  "nsec_slot i k = Some (case k of None \<Rightarrow> [] | Some s \<Rightarrow> if is_section s then [()] else [])"

definition iniparser_getnsec :: "dictionary option \<Rightarrow> int option" where
  "iniparser_getnsec dp =
     (case dp of None \<Rightarrow> Some (-1)
      | Some d \<Rightarrow> do { l \<leftarrow> dict_scan nsec_slot d 0; Some (int (length l)) })"

text \<open>The loop of \<^verbatim>\<open>iniparser_getsecname\<close>: it stops at the section number \<open>n\<close>.\<close>

function secname_from :: "dictionary \<Rightarrow> int \<Rightarrow> int \<Rightarrow> int \<Rightarrow> string option option" where
  "secname_from d n foundsec i =
     (if i < dict_size d then
        do { k \<leftarrow> rd (dict_key d) i;
             case k of
               None \<Rightarrow> secname_from d n foundsec (i + 1)
             | Some s \<Rightarrow>
                 if is_section s then
                   (if foundsec + 1 > n then Some (Some s)
                    else secname_from d n (foundsec + 1) (i + 1))
                 else secname_from d n foundsec (i + 1) }
      else Some None)"
  by pat_completeness auto
termination by (relation "measure (\<lambda>(d, n, f, i). nat (dict_size d - i))") auto

declare secname_from.simps [simp del]

definition iniparser_getsecname :: "dictionary option \<Rightarrow> int \<Rightarrow> string option option" where
  "iniparser_getsecname dp n =
     (case dp of None \<Rightarrow> Some None
      | Some d \<Rightarrow> if n < 0 then Some None else secname_from d n 0 0)"

definition pad_right :: "nat \<Rightarrow> string \<Rightarrow> string" where
  "pad_right w s = s @ replicate (w - length s) CHR '' ''"

definition NL :: string where "NL = [CHR 0x0A]"

definition dump_slot :: "dictionary \<Rightarrow> int \<Rightarrow> string option \<Rightarrow> string option" where
  "dump_slot d i k =
     (case k of None \<Rightarrow> Some []
      | Some s \<Rightarrow>
          do { v \<leftarrow> rd (dict_val d) i;
               Some (case v of
                       Some t \<Rightarrow> ''['' @ s @ '']=['' @ t @ '']'' @ NL
                     | None \<Rightarrow> ''['' @ s @ '']=UNDEF'' @ NL) })"

definition iniparser_dump :: "dictionary option \<Rightarrow> bool \<Rightarrow> string option" where
  "iniparser_dump dp f =
     (case dp of None \<Rightarrow> Some []
      | Some d \<Rightarrow> if \<not> f then Some [] else dict_scan (dump_slot d) d 0)"

definition dumpsection_slot ::
  "dictionary \<Rightarrow> string \<Rightarrow> nat \<Rightarrow> int \<Rightarrow> string option \<Rightarrow> string option" where
  "dumpsection_slot d keym seclen i k =
     (case k of None \<Rightarrow> Some []
      | Some s \<Rightarrow>
          if take (seclen + 1) s = keym then
            do { v \<leftarrow> rd (dict_val d) i;
                 Some (pad_right 30 (drop (seclen + 1) s) @ '' = '' @
                       (case v of None \<Rightarrow> [] | Some t \<Rightarrow> t) @ NL) }
          else Some [])"

text \<open>The buffer \<open>keym\<close> is written without a bound.\<close>

definition iniparser_dumpsection_ini ::
  "dictionary option \<Rightarrow> string option \<Rightarrow> bool \<Rightarrow> string option" where
  "iniparser_dumpsection_ini dp sec f =
     (case dp of None \<Rightarrow> Some []
      | Some d \<Rightarrow>
         if \<not> f then Some []
         else do {
           e \<leftarrow> iniparser_find_entry dp sec;
           case sec of
             None \<Rightarrow> Some []
           | Some s \<Rightarrow>
               if \<not> e then Some []
               else if length s + 2 > ASCIILINESZ + 1 then None
               else do {
                 body \<leftarrow> dict_scan (dumpsection_slot d (s @ '':'') (length s)) d 0;
                 Some (NL @ ''['' @ s @ '']'' @ NL @ body @ NL) } })"

definition dump_all_slot :: "dictionary \<Rightarrow> int \<Rightarrow> string option \<Rightarrow> string option" where
  "dump_all_slot d i k =
     (case k of None \<Rightarrow> Some []
      | Some s \<Rightarrow>
          do { v \<leftarrow> rd (dict_val d) i;
               case v of None \<Rightarrow> None | Some t \<Rightarrow> Some (s @ '' = '' @ t @ NL) })"

fun dump_sections :: "dictionary \<Rightarrow> nat \<Rightarrow> int \<Rightarrow> string option" where
  "dump_sections d 0 i = Some []"
| "dump_sections d (Suc n) i =
     do { s \<leftarrow> iniparser_getsecname (Some d) i;
          body \<leftarrow> iniparser_dumpsection_ini (Some d) s True;
          rest \<leftarrow> dump_sections d n (i + 1);
          Some (body @ rest) }"

definition iniparser_dump_ini :: "dictionary option \<Rightarrow> bool \<Rightarrow> string option" where
  "iniparser_dump_ini dp f =
     (case dp of None \<Rightarrow> Some []
      | Some d \<Rightarrow>
         if \<not> f then Some []
         else do {
           nsec \<leftarrow> iniparser_getnsec dp;
           if nsec < 1 then dict_scan (dump_all_slot d) d 0
           else do { body \<leftarrow> dump_sections d (nat nsec) 0; Some (body @ NL) } })"

text \<open>
  The keys of a section. The prefix is the lower-cased name with its NUL replaced by a
  colon, an access outside the buffer when the name has more than 1024 characters.
\<close>

definition seckeys_slot :: "string \<Rightarrow> nat \<Rightarrow> int \<Rightarrow> string option \<Rightarrow> string list option" where
  "seckeys_slot keym seclen i k =
     Some (case k of None \<Rightarrow> [] | Some s \<Rightarrow> if take (seclen + 1) s = keym then [s] else [])"

definition seckeys :: "dictionary \<Rightarrow> string \<Rightarrow> string list option" where
  "seckeys d s =
     (if length s > ASCIILINESZ then None
      else dict_scan (seckeys_slot (map tolower s @ '':'') (length s)) d 0)"

definition iniparser_getsecnkeys :: "dictionary option \<Rightarrow> string option \<Rightarrow> int option" where
  "iniparser_getsecnkeys dp sec =
     (case dp of None \<Rightarrow> Some 0
      | Some d \<Rightarrow>
         do { e \<leftarrow> iniparser_find_entry dp sec;
              case sec of None \<Rightarrow> Some 0
              | Some s \<Rightarrow> if \<not> e then Some 0
                          else do { l \<leftarrow> seckeys d s; Some (int (length l)) } })"

text \<open>\<open>keys\<close> is the caller's array of pointers, filled from the start.\<close>

definition iniparser_getseckeys ::
  "dictionary option \<Rightarrow> string option \<Rightarrow> cstr list option \<Rightarrow> cstr list option option" where
  "iniparser_getseckeys dp sec keys =
     (case (dp, keys) of
        (Some d, Some ks) \<Rightarrow>
          do { e \<leftarrow> iniparser_find_entry dp sec;
               case sec of None \<Rightarrow> Some None
               | Some s \<Rightarrow> if \<not> e then Some None
                           else do { l \<leftarrow> seckeys d s;
                                     if length l \<le> length ks
                                     then Some (Some (map Str l @ drop (length l) ks))
                                     else None } }
      | _ \<Rightarrow> Some None)"


section \<open>Trimming\<close>

definition trimmed :: "string \<Rightarrow> bool" where
  "trimmed s \<longleftrightarrow> s = [] \<or> (\<not> isspace (hd s) \<and> \<not> isspace (last s))"

abbreviation blank :: "string \<Rightarrow> bool" where
  "blank s \<equiv> list_all isspace s"

lemma dropWhile_blank [simp]: "blank ws \<Longrightarrow> dropWhile isspace (ws @ s) = dropWhile isspace s"
  by (induction ws) auto

lemma dropWhile_blank_only [simp]: "blank ws \<Longrightarrow> dropWhile isspace ws = []"
  using dropWhile_blank [of ws "[]"] by simp

lemma dropWhile_trimmed [simp]: "trimmed s \<Longrightarrow> dropWhile isspace s = s"
  by (cases s) (auto simp: trimmed_def)

lemma blank_rev [simp]: "blank (rev ws) = blank ws"
  by (simp add: list_all_iff)

lemma rstrip_blank [simp]: "blank ws \<Longrightarrow> rstrip (s @ ws) = rstrip s"
  by (simp add: rstrip_def)

lemma rstrip_id [simp]: "s = [] \<or> \<not> isspace (last s) \<Longrightarrow> rstrip s = s"
  by (cases s rule: rev_cases) (auto simp: rstrip_def)

lemma rstrip_trimmed: "trimmed s \<Longrightarrow> rstrip s = s"
  by (auto simp: trimmed_def)

lemma strstrip_trimmed [simp]: "trimmed s \<Longrightarrow> strstrip s = s"
  by (simp add: strstrip_def rstrip_trimmed)

text \<open>\<^verbatim>\<open>strstrip\<close> removes exactly the blanks around a trimmed string.\<close>

lemma strstrip_pad:
  assumes "blank ws1" "blank ws2" "trimmed s"
  shows "strstrip (ws1 @ s @ ws2) = s"
proof (cases "s = []")
  case True
  then show ?thesis using assms by (simp add: strstrip_def rstrip_def)
next
  case False
  then have "dropWhile isspace (s @ ws2) = s @ ws2"
    using assms(3) by (cases s) (auto simp: trimmed_def)
  then show ?thesis using assms by (simp add: strstrip_def rstrip_trimmed)
qed

lemma strstrip_pad_right: "blank ws2 \<Longrightarrow> trimmed s \<Longrightarrow> strstrip (s @ ws2) = s"
  using strstrip_pad [of "[]" ws2 s] by simp

lemma trimmed_append:
  "trimmed s \<Longrightarrow> s \<noteq> [] \<Longrightarrow> t \<noteq> [] \<Longrightarrow> \<not> isspace (last t) \<Longrightarrow> trimmed (s @ t)"
  by (auto simp: trimmed_def)

lemma isspace_values [simp]:
  "\<not> isspace CHR ''=''" "\<not> isspace CHR ''[''" "\<not> isspace CHR '']''" "\<not> isspace CHR '';''"
  "\<not> isspace CHR ''#''" "\<not> isspace DQ" "\<not> isspace SQ" "isspace CHR '' ''" "isspace CHR 0x0A"
  "\<not> isspace CHR 0x5C"
  by (simp_all add: isspace_def DQ_def SQ_def)

section \<open>Scanning a line\<close>

lemma takeWhile_key: "c \<notin> set k \<Longrightarrow> takeWhile (\<lambda>x. x \<noteq> c) (k @ c # t) = k"
  by (induction k) auto

lemma dropWhile_key: "c \<notin> set k \<Longrightarrow> dropWhile (\<lambda>x. x \<noteq> c) (k @ c # t) = c # t"
  by (induction k) auto

lemma sscanf_key:
  assumes "CHR ''='' \<notin> set k" and "k \<noteq> []"
  shows "sscanf (ScanSet (\<lambda>c. c \<noteq> CHR ''='') # Ws # Lit CHR ''='' # Ws # ds) (k @ CHR ''='' # t)
    = k # sscanf ds (dropWhile isspace t)"
  using assms by (simp add: takeWhile_key dropWhile_key Let_def)

lemma sscanf_empty:
  assumes "CHR ''='' \<notin> set k" and "k \<noteq> []"
  shows "sscanf fmt_empty (k @ [CHR ''='']) = [k, ''='']"
  using assms by (simp add: fmt_empty_def takeWhile_key dropWhile_key Let_def)

lemma sscanf_no_eq:
  assumes "CHR ''='' \<notin> set s"
  shows "length (sscanf (ScanSet (\<lambda>c. c \<noteq> CHR ''='') # Ws # Lit CHR ''='' # ds) s) \<le> 1"
    and "length (sscanf fmt_empty s) \<le> 1"
proof -
  have w: "takeWhile (\<lambda>c. c \<noteq> CHR ''='') s = s" "dropWhile (\<lambda>c. c \<noteq> CHR ''='') s = []"
    using assms by (auto simp: takeWhile_eq_all_conv)
  show "length (sscanf (ScanSet (\<lambda>c. c \<noteq> CHR ''='') # Ws # Lit CHR ''='' # ds) s) \<le> 1"
    and "length (sscanf fmt_empty s) \<le> 1"
    by (simp_all add: fmt_empty_def Let_def w)
qed

text \<open>What makes a key and a value survive the line format.\<close>

definition clean_key :: "string \<Rightarrow> bool" where
  "clean_key k \<longleftrightarrow> k \<noteq> [] \<and> trimmed k \<and> CHR ''='' \<notin> set k \<and>
     hd k \<noteq> CHR ''#'' \<and> hd k \<noteq> CHR '';'' \<and> hd k \<noteq> CHR ''[''"

definition clean_value :: "string \<Rightarrow> bool" where
  "clean_value v \<longleftrightarrow> trimmed v \<and> CHR '';'' \<notin> set v \<and> CHR ''#'' \<notin> set v \<and>
     (v \<noteq> [] \<longrightarrow> hd v \<noteq> DQ \<and> hd v \<noteq> SQ)"

lemma strlwc_short: "length k < len \<Longrightarrow> strlwc (Some k) len = Some (map tolower k)"
  by (simp add: strlwc_def)

text \<open>The value branches, for a line already stripped: \<open>k ws = ...\<close>.\<close>

lemma ini_value_line:
  assumes k: "clean_key k" and b: "blank ws2" "blank ws3" and v: "clean_value v"
    and line: "strstrip line = k @ ws2 @ CHR ''='' # (if v = [] then [] else ws3 @ v)"
  shows "iniparser_line True line sec key val = (LINE_VALUE, sec, map tolower k, v)"
proof -
  define kk where "kk = k @ ws2"
  define t where "t = (if v = [] then [] else ws3 @ v)"
  define L where "L = kk @ CHR ''='' # t"
  have kk: "CHR ''='' \<notin> set kk" "kk \<noteq> []"
    using k b by (auto simp: clean_key_def list_all_iff kk_def)
  have t: "dropWhile isspace t = v" "v = [] \<Longrightarrow> t = []" using b v by (auto simp: clean_value_def t_def)
  note scan = sscanf_key [OF kk, of _ t, folded L_def, unfolded t]
  have low: "the (strlwc (Some (strstrip kk)) (length L)) = map tolower k"
    using k b by (simp add: strstrip_pad_right clean_key_def strlwc_short L_def kk_def)
  have q: "scan2 (fmt_quoted c) L kv = (False, kk, snd kv)" if "c = DQ \<or> c = SQ" for c kv
    using that v by (cases v) (auto simp: scan2_def fmt_quoted_def scan clean_value_def simp del: sscanf.simps(4))
  have p: "scan2 fmt_plain L kv = (v \<noteq> [], kk, if v = [] then snd kv else v)" for kv
  proof -
    have w: "takeWhile (\<lambda>c. c \<noteq> CHR '';'' \<and> c \<noteq> CHR ''#'') v = v"
      using v by (auto simp: clean_value_def takeWhile_eq_all_conv)
    have "sscanf [ScanSet (\<lambda>c. c \<noteq> CHR '';'' \<and> c \<noteq> CHR ''#'')] v = (if v = [] then [] else [v])"
      by (simp add: Let_def w)
    then show ?thesis
      by (simp add: scan2_def fmt_plain_def fmt_key_eq_def scan del: sscanf.simps(4))
  qed
  have c: "scan2 fmt_comment L kv = (False, kk, snd kv)" if "v = []" for kv
  proof -
    have "sscanf [ScanSet (\<lambda>c. c = CHR '';'' \<or> c = CHR ''#'')] v = []" using that by simp
    then show ?thesis
      by (simp add: scan2_def fmt_comment_def fmt_key_eq_def scan del: sscanf.simps(4))
  qed
  have e: "scan2 fmt_empty L kv = (True, kk, ''='')" if "v = []" for kv
    using that sscanf_empty [OF kk] t(2) by (simp add: scan2_def L_def)
  have L: "strstrip line = L" using line by (simp add: L_def kk_def t_def)
  have len: "\<not> length L < 1" by (simp add: L_def)
  have hd: "L ! 0 \<noteq> CHR ''#''" "L ! 0 \<noteq> CHR '';''" "L ! 0 \<noteq> CHR ''[''"
    using k by (cases k; simp add: L_def kk_def clean_key_def)+
  have sv: "strstrip v = v" "v \<noteq> [DQ, DQ]" "v \<noteq> [SQ, SQ]" using v by (auto simp: clean_value_def)
  show ?thesis
    unfolding iniparser_line_def L Let_def if_True
    by (cases "v = []") (simp_all only: len hd q p c e low sv if_False if_True prod.case fst_conv
        snd_conv disj_commute simp_thms)
qed


lemma ini_quoted_line:
  assumes k: "clean_key k" and b: "blank ws2" "blank ws3" and c: "c = DQ \<or> c = SQ"
    and v: "v \<noteq> []" "c \<notin> set v"
    and line: "strstrip line = k @ ws2 @ CHR ''='' # ws3 @ c # v @ c # r"
  shows "iniparser_line True line sec key val = (LINE_VALUE, sec, map tolower k, v)"
proof -
  define kk where "kk = k @ ws2"
  define t where "t = ws3 @ c # v @ c # r"
  define L where "L = kk @ CHR ''='' # t"
  have kk: "CHR ''='' \<notin> set kk" "kk \<noteq> []"
    using k b by (auto simp: clean_key_def list_all_iff kk_def)
  have t: "dropWhile isspace t = c # v @ c # r" using b c by (auto simp: t_def)
  note scan = sscanf_key [OF kk, of _ t, folded L_def, unfolded t]
  have low: "the (strlwc (Some (strstrip kk)) (length L)) = map tolower k"
    using k b by (simp add: strstrip_pad_right clean_key_def strlwc_short L_def kk_def)
  have vv: "sscanf [ScanSet (\<lambda>x. x \<noteq> c), Lit c] (v @ c # r) = [v]"
    using v by (simp add: takeWhile_key dropWhile_key)
  have q: "scan2 (fmt_quoted c) L kv = (True, kk, v)" for kv
    by (simp add: scan2_def fmt_quoted_def scan vv del: sscanf.simps(4))
  have q': "scan2 (fmt_quoted DQ) L kv = (False, kk, snd kv)" if "c = SQ" for kv
    using that by (simp add: scan2_def fmt_quoted_def scan DQ_def SQ_def del: sscanf.simps(4))
  have L: "strstrip line = L" using line by (simp add: L_def kk_def t_def)
  have len: "\<not> length L < 1" by (simp add: L_def)
  have hd: "L ! 0 \<noteq> CHR ''#''" "L ! 0 \<noteq> CHR '';''" "L ! 0 \<noteq> CHR ''[''"
    using k by (cases k; simp add: L_def kk_def clean_key_def)+
  show ?thesis
    unfolding iniparser_line_def L Let_def if_True
    using c q q' hd len by (auto simp: low)
qed

lemma ini_section_line:
  assumes s: "s \<noteq> []" "trimmed s" "CHR '']'' \<notin> set s" and b: "blank w1" "blank w2"
    and line: "strstrip line = CHR ''['' # w1 @ s @ w2 @ [CHR '']'']"
  shows "iniparser_line True line sec key val = (LINE_SECTION, map tolower s, key, val)"
proof -
  have sep: "CHR '']'' \<notin> set (w1 @ s @ w2)" using s b by (auto simp: list_all_iff)
  have ne: "w1 @ s @ w2 \<noteq> []" using s by simp
  have "sscanf fmt_section (CHR ''['' # (w1 @ s @ w2) @ [CHR '']'']) = [w1 @ s @ w2]"
    using takeWhile_key [OF sep] ne by (simp add: fmt_section_def Let_def del: append_assoc)
  then show ?thesis
    unfolding iniparser_line_def line
    by (simp add: nth_append strstrip_pad b s strlwc_short)
qed

text \<open>Blank lines, comments, and lines that are none of the known forms.\<close>

lemma ini_empty_line: "blank line \<Longrightarrow> iniparser_line ok line sec key val = (LINE_EMPTY, sec, key, val)"
  by (simp add: iniparser_line_def strstrip_def rstrip_def)

lemma ini_error_line:
  assumes "strstrip line \<noteq> []" and "hd (strstrip line) \<notin> set ''#;[''"
    and "CHR ''='' \<notin> set (strstrip line)"
  shows "fst (iniparser_line True line sec key val) = LINE_ERROR"
proof -
  have hd: "strstrip line ! 0 \<notin> {CHR ''#'', CHR '';'', CHR ''[''}"
    using assms(1,2) by (simp add: hd_conv_nth)
  have no: "fst (scan2 fmt (strstrip line) kv) = False"
    if "fmt \<in> {fmt_quoted DQ, fmt_quoted SQ, fmt_plain, fmt_comment, fmt_empty}" for fmt kv
  proof -
    have "length (sscanf fmt (strstrip line)) \<le> 1"
      using that sscanf_no_eq [OF assms(3)]
      by (auto simp: fmt_quoted_def fmt_plain_def fmt_comment_def fmt_key_eq_def)
    then show ?thesis by (auto simp: scan2_def split: list.splits)
  qed
  let ?l = "strstrip line"
  obtain kv2 where q2: "scan2 (fmt_quoted DQ) ?l (key, val) = (False, kv2)"
    using no [of "fmt_quoted DQ" "(key, val)"] by (cases "scan2 (fmt_quoted DQ) ?l (key, val)") auto
  obtain kv1 where q1: "scan2 (fmt_quoted SQ) ?l kv2 = (False, kv1)"
    using no [of "fmt_quoted SQ" kv2] by (cases "scan2 (fmt_quoted SQ) ?l kv2") auto
  obtain kv3 where p: "scan2 fmt_plain ?l kv1 = (False, kv3)"
    using no [of fmt_plain kv1] by (cases "scan2 fmt_plain ?l kv1") auto
  obtain kv4 where c: "scan2 fmt_comment ?l kv3 = (False, kv4)"
    using no [of fmt_comment kv3] by (cases "scan2 fmt_comment ?l kv3") auto
  obtain kv5 where e: "scan2 fmt_empty ?l kv4 = (False, kv5)"
    using no [of fmt_empty kv4] by (cases "scan2 fmt_empty ?l kv4") auto
  have h: "?l ! 0 \<noteq> CHR ''#''" "?l ! 0 \<noteq> CHR '';''" "?l ! 0 \<noteq> CHR ''[''" "\<not> length ?l < 1"
    using hd assms(1) by (auto simp: Suc_le_eq)
  show ?thesis
    unfolding iniparser_line_def Let_def if_True
    by (simp only: h q2 q1 p c e prod.case if_False fst_conv simp_thms)
qed


section \<open>The outcome of a line does not depend on the key and value buffers\<close>

definition scans :: "directive list \<Rightarrow> string \<Rightarrow> bool" where
  "scans fmt line \<longleftrightarrow> 2 \<le> length (sscanf fmt line)"

lemma scan2_ok: "scans fmt line \<Longrightarrow> scan2 fmt line kv = (True, sscanf fmt line ! 0, sscanf fmt line ! 1)"
  by (auto simp: scans_def scan2_def numeral_2_eq_2 Suc_le_length_iff split: list.splits)

lemma scan2_fail: "\<not> scans fmt line \<Longrightarrow>
    scan2 fmt line kv = (False, (if sscanf fmt line = [] then fst kv else hd (sscanf fmt line)), snd kv)"
  by (auto simp: scans_def scan2_def split: list.splits)

text \<open>The key and value of a value line.\<close>

definition line_entry :: "string \<Rightarrow> (string \<times> string) option" where
  "line_entry L =
     (let pick = (\<lambda>fmt. (sscanf fmt L ! 0, sscanf fmt L ! 1)) in
      if scans (fmt_quoted DQ) L then Some (pick (fmt_quoted DQ))
      else if scans (fmt_quoted SQ) L then Some (pick (fmt_quoted SQ))
      else if scans fmt_plain L then
        (let v = strstrip (snd (pick fmt_plain))
         in Some (fst (pick fmt_plain), if v = [DQ, DQ] \<or> v = [SQ, SQ] then [] else v))
      else if scans fmt_comment L then Some (fst (pick fmt_comment), [])
      else if scans fmt_empty L then Some (fst (pick fmt_empty), [])
      else None)"

lemma iniparser_line_form:
  assumes "strstrip line \<noteq> []" and "strstrip line ! 0 \<notin> {CHR ''#'', CHR '';''}"
    and "\<not> (strstrip line ! 0 = CHR ''['' \<and> strstrip line ! (length (strstrip line) - 1) = CHR '']'')"
  shows "case line_entry (strstrip line) of
      Some (k, v) \<Rightarrow> iniparser_line True line sec key val =
        (LINE_VALUE, sec, the (strlwc (Some (strstrip k)) (length (strstrip line))), v)
    | None \<Rightarrow> \<exists>k. iniparser_line True line sec key val = (LINE_ERROR, sec, k, val) \<and>
        (k = key \<or> (\<exists>fmt. k = hd (sscanf fmt (strstrip line)) \<and> sscanf fmt (strstrip line) \<noteq> []))"
proof -
  define L where "L = strstrip line"
  have h: "\<not> length L < 1" "(L ! 0 = CHR ''#'' \<or> L ! 0 = CHR '';'') = False"
    "(L ! 0 = CHR ''['' \<and> L ! (length L - 1) = CHR '']'') = False"
    using assms by (auto simp: L_def Suc_le_eq)
  note simps = iniparser_line_def L_def [symmetric] Let_def if_True h if_False prod.case fst_conv
    snd_conv line_entry_def option.case
  consider (dq) "scans (fmt_quoted DQ) L"
    | (sq) "\<not> scans (fmt_quoted DQ) L" "scans (fmt_quoted SQ) L"
    | (plain) "\<not> scans (fmt_quoted DQ) L" "\<not> scans (fmt_quoted SQ) L" "scans fmt_plain L"
    | (comm) "\<not> scans (fmt_quoted DQ) L" "\<not> scans (fmt_quoted SQ) L" "\<not> scans fmt_plain L"
        "scans fmt_comment L"
    | (empt) "\<not> scans (fmt_quoted DQ) L" "\<not> scans (fmt_quoted SQ) L" "\<not> scans fmt_plain L"
        "\<not> scans fmt_comment L" "scans fmt_empty L"
    | (err) "\<not> scans (fmt_quoted DQ) L" "\<not> scans (fmt_quoted SQ) L" "\<not> scans fmt_plain L"
        "\<not> scans fmt_comment L" "\<not> scans fmt_empty L"
    by blast
  then show ?thesis
  proof cases
    case err
    then show ?thesis
      by (simp only: simps scan2_fail not_False_eq_True simp_thms) (auto split: if_splits)
  qed (simp_all only: simps scan2_fail scan2_ok not_False_eq_True simp_thms)
qed

text \<open>What a line does to the section, the table and the error count.\<close>

definition ini_entry :: "string \<Rightarrow> string \<Rightarrow> string \<times> (string \<times> string option) list \<times> nat" where
  "ini_entry sec line =
     (case iniparser_line True line sec [] [] of
        (LINE_SECTION, s, _) \<Rightarrow> (s, [(s, None)], 0)
      | (LINE_VALUE, s, k, v) \<Rightarrow> (s, [(s @ '':'' @ k, Some v)], 0)
      | (LINE_ERROR, s, _) \<Rightarrow> (s, [], 1)
      | (_, s, _) \<Rightarrow> (s, [], 0))"

lemma iniparser_line_cases:
  obtains (blnk) "\<And>key val. iniparser_line True line sec key val = (LINE_EMPTY, sec, key, val)"
      "ini_entry sec line = (sec, [], 0)"
    | (comm) "\<And>key val. iniparser_line True line sec key val = (LINE_COMMENT, sec, key, val)"
      "ini_entry sec line = (sec, [], 0)"
    | (sect) s where "\<And>key val. iniparser_line True line sec key val = (LINE_SECTION, s, key, val)"
      "ini_entry sec line = (s, [(s, None)], 0)"
    | (entry) k v where "\<And>key val. iniparser_line True line sec key val = (LINE_VALUE, sec, k, v)"
      "ini_entry sec line = (sec, [(sec @ '':'' @ k, Some v)], 0)"
    | (err) "\<And>key val. \<exists>k. iniparser_line True line sec key val = (LINE_ERROR, sec, k, val)"
      "ini_entry sec line = (sec, [], 1)"
proof -
  let ?L = "strstrip line"
  consider (1) "?L = []" | (2) "?L \<noteq> []" "?L ! 0 = CHR ''#'' \<or> ?L ! 0 = CHR '';''"
    | (3) "?L \<noteq> []" "?L ! 0 \<notin> {CHR ''#'', CHR '';''}"
        "?L ! 0 = CHR ''['' \<and> ?L ! (length ?L - 1) = CHR '']''"
    | (4) "?L \<noteq> []" "?L ! 0 \<notin> {CHR ''#'', CHR '';''}"
        "\<not> (?L ! 0 = CHR ''['' \<and> ?L ! (length ?L - 1) = CHR '']'')" by blast
  then show thesis
  proof cases
    case 1
    then have "iniparser_line True line sec key val = (LINE_EMPTY, sec, key, val)" for key val
      by (simp add: iniparser_line_def)
    then show thesis by (intro blnk) (auto simp: ini_entry_def)
  next
    case 2
    then have "iniparser_line True line sec key val = (LINE_COMMENT, sec, key, val)" for key val
      by (simp add: iniparser_line_def)
    then show thesis by (intro comm) (auto simp: ini_entry_def)
  next
    case 3
    then have "iniparser_line True line sec key val = (LINE_SECTION,
        the (strlwc (Some (strstrip (case sscanf fmt_section ?L of [] \<Rightarrow> sec | s # _ \<Rightarrow> s))) (length ?L)),
        key, val)" for key val
      by (simp add: iniparser_line_def Let_def)
    then show thesis by (intro sect) (auto simp: ini_entry_def)
  next
    case 4
    note f = iniparser_line_form [OF 4]
    show thesis
    proof (cases "line_entry ?L")
      case None
      then have e: "\<exists>k. iniparser_line True line sec key val = (LINE_ERROR, sec, k, val)" for key val
        using f [of sec key val] by auto
      obtain k where "iniparser_line True line sec [] [] = (LINE_ERROR, sec, k, [])"
        using e [of "[]" "[]"] by blast
      with e show thesis by (intro err) (auto simp: ini_entry_def)
    next
      case (Some kv)
      then have "iniparser_line True line sec key val =
          (LINE_VALUE, sec, the (strlwc (Some (strstrip (fst kv))) (length ?L)), snd kv)" for key val
        using f [of sec key val] by (auto split: prod.splits)
      then show thesis by (intro entry) (auto simp: ini_entry_def)
    qed
  qed
qed


section \<open>Reading a file line by line\<close>

text \<open>The allocations all succeed.\<close>

definition ini_mem :: "nat \<Rightarrow> ini_alloc" where
  "ini_mem i = \<lparr>line_ok = True, set_alloc = all_ok\<rparr>"

lemma dictionary_set_store:
  assumes "dict_wf d"
  shows "\<exists>d'. dictionary_set all_ok (Some d) (Some k) v = Some (0, Some d') \<and>
    dict_store k v d = Some d' \<and> dict_wf d'"
  using dict_store_map [OF assms, of k v]
  by (auto simp: dict_store_def split: option.splits prod.splits if_splits)

text \<open>One processed line, with enough memory: the entries of the line are stored.\<close>

lemma ini_process_entry:
  assumes "dict_wf (ini_dict st)" and "ini_entry (ini_section st) line = (sec, ops, e)"
  shows "\<exists>st'. ini_process (ini_mem i) line st = Some (False, st') \<and>
    dict.insert_all ops (ini_dict st) = Some (ini_dict st') \<and> dict_wf (ini_dict st') \<and>
    ini_section st' = sec \<and> ini_pending st' = [] \<and> ini_rest st' = ini_rest st \<and>
    ini_lineno st' = ini_lineno st \<and> ini_errs st' = ini_errs st + e"
proof (cases rule: iniparser_line_cases [of line "ini_section st"])
  case (sect s)
  obtain d' where "dictionary_set all_ok (Some (ini_dict st)) (Some s) None = Some (0, Some d')"
    "dict_store s None (ini_dict st) = Some d'" "dict_wf d'"
    using dictionary_set_store [OF assms(1)] by blast
  then show ?thesis using sect assms(2) by (simp add: ini_process_def ini_mem_def)
next
  case (entry k v)
  let ?k = "ini_section st @ '':'' @ k"
  obtain d' where "dictionary_set all_ok (Some (ini_dict st)) (Some ?k) (Some v) = Some (0, Some d')"
    "dict_store ?k (Some v) (ini_dict st) = Some d'" "dict_wf d'"
    using dictionary_set_store [OF assms(1)] by blast
  then show ?thesis using entry assms(2) by (simp add: ini_process_def ini_mem_def)
next
  case err
  then obtain k where "iniparser_line True line (ini_section st) (ini_key st) (ini_val st) =
      (LINE_ERROR, ini_section st, k, ini_val st)" by blast
  then show ?thesis using err(2) assms by (simp add: ini_process_def ini_mem_def)
qed (use assms in \<open>simp_all add: ini_process_def ini_mem_def\<close>)

lemma rstrip_newline: "rstrip (x @ [CHR 0x0A]) = rstrip x"
  by simp

text \<open>
  Logical lines: a physical line whose last visible character is a backslash is
  continued by the next one. Each must fit in the buffer with what is pending.
\<close>

definition continues :: "string \<Rightarrow> bool" where
  "continues x \<longleftrightarrow> rstrip x \<noteq> [] \<and> last (rstrip x) = CHR 0x5C"

fun join_lines :: "string \<Rightarrow> string list \<Rightarrow> string list" where
  "join_lines pre [] = []"
| "join_lines pre (l # ls) =
     (if continues (pre @ l) then join_lines (butlast (rstrip (pre @ l))) ls
      else rstrip (pre @ l) # join_lines [] ls)"

fun lines_fit :: "string \<Rightarrow> string list \<Rightarrow> bool" where
  "lines_fit pre [] = True"
| "lines_fit pre (l # ls) =
     (length pre + length l + 2 \<le> ASCIILINESZ \<and> CHR 0x0A \<notin> set l \<and>
      lines_fit (if continues (pre @ l) then butlast (rstrip (pre @ l)) else []) ls)"

definition unlines :: "string list \<Rightarrow> string" where
  "unlines ls = concat (map (\<lambda>l. l @ NL) ls)"

lemma unlines_simps [simp]:
  "unlines [] = []"
  "unlines (l # ls) = l @ CHR 0x0A # unlines ls"
  "unlines (xs @ ys) = unlines xs @ unlines ys"
  by (simp_all add: unlines_def NL_def)

fun ini_read :: "string \<Rightarrow> string list \<Rightarrow> (string \<times> string option) list \<times> nat" where
  "ini_read sec [] = ([], 0)"
| "ini_read sec (l # ls) =
     (case ini_entry sec l of (sec', ops, e) \<Rightarrow>
        (case ini_read sec' ls of (ops', n) \<Rightarrow> (ops @ ops', e + n)))"

lemma ini_entry_blank: "ini_entry sec [] = (sec, [], 0)"
  by (simp add: ini_entry_def ini_empty_line)

text \<open>One iteration of the loop on a complete physical line.\<close>

lemma ini_loop_line:
  assumes "ini_rest st = l @ CHR 0x0A # r" and "CHR 0x0A \<notin> set l"
    and "length (ini_pending st) + length l + 2 \<le> ASCIILINESZ" and "ini_pending st @ l \<noteq> []"
  shows "ini_loop mem st =
    (let st1 = st\<lparr>ini_rest := r, ini_lineno := ini_lineno st + 1\<rparr>; x = rstrip (ini_pending st @ l)
     in if continues (ini_pending st @ l) then ini_loop mem (st1\<lparr>ini_pending := butlast x\<rparr>)
        else (case ini_process (mem (ini_lineno st + 1)) x st1 of
                None \<Rightarrow> None
              | Some (failed, st2) \<Rightarrow>
                  if failed then Some (Finished (st2\<lparr>ini_log := ini_log st2 @ [MemoryFailure]\<rparr>))
                  else ini_loop mem st2))"
proof -
  have f: "fgets (ASCIILINESZ - length (ini_pending st)) (ini_rest st) = Some (l @ [CHR 0x0A], r, False)"
    using assms(1-3) by (simp add: fgets_line)
  have len: "\<not> length (ini_pending st @ l @ [CHR 0x0A]) \<le> 1" using assms(4) by (cases l) auto
  have rs: "rstrip (ini_pending st @ l @ [CHR 0x0A]) = rstrip (ini_pending st @ l)"
    using rstrip_newline [of "ini_pending st @ l"] by simp
  show ?thesis
    by (subst ini_loop.simps) (simp only: f len rs continues_def Let_def option.case prod.case
        if_False, simp add: continues_def)
qed

lemma ini_loop_blank:
  assumes "ini_rest st = CHR 0x0A # r" and "ini_pending st = []"
  shows "ini_loop mem st = ini_loop mem (st\<lparr>ini_rest := r, ini_lineno := ini_lineno st + 1\<rparr>)"
  using fgets_line [of "[]" ASCIILINESZ r] assms
  by (subst ini_loop.simps) (simp add: ASCIILINESZ_def)


lemma rstrip_length: "length (rstrip s) \<le> length s"
  using length_dropWhile_le [of isspace "rev s"] by (simp add: rstrip_def)

lemma ini_loop_end:
  "ini_rest st = [] \<Longrightarrow> length (ini_pending st) + 2 \<le> ASCIILINESZ \<Longrightarrow>
   ini_loop mem st = Some (Finished st)"
  by (subst ini_loop.simps) (simp add: fgets_def less_diff_conv)

text \<open>The loop reads the logical lines and stores their entries in order.\<close>

lemma ini_loop_reads:
  assumes "ini_rest st = unlines ls" and "lines_fit (ini_pending st) ls"
    and "length (ini_pending st) + 2 \<le> ASCIILINESZ" and "dict_wf (ini_dict st)"
    and "ini_read (ini_section st) (join_lines (ini_pending st) ls) = (ops, n)"
  shows "\<exists>st'. ini_loop ini_mem st = Some (Finished st') \<and> dict_wf (ini_dict st') \<and>
    dict.insert_all ops (ini_dict st) = Some (ini_dict st') \<and> ini_errs st' = ini_errs st + n"
  using assms
proof (induction ls arbitrary: st ops n)
  case Nil
  then show ?case by (auto simp: ini_loop_end)
next
  case (Cons l ls)
  let ?st1 = "st\<lparr>ini_rest := unlines ls, ini_lineno := ini_lineno st + 1\<rparr>"
  let ?x = "rstrip (ini_pending st @ l)"
  have l: "CHR 0x0A \<notin> set l" "length (ini_pending st) + length l + 2 \<le> ASCIILINESZ"
    using Cons.prems(2) by auto
  have rest: "ini_rest st = l @ CHR 0x0A # unlines ls" using Cons.prems(1) by simp
  have len: "length (butlast ?x) + 2 \<le> ASCIILINESZ"
    using rstrip_length [of "ini_pending st @ l"] l(2) by simp
  show ?case
  proof (cases "ini_pending st @ l = []")
    case True
    then have nc: "\<not> continues (ini_pending st @ l)" by (simp add: continues_def rstrip_def)
    have "ini_loop ini_mem st = ini_loop ini_mem ?st1"
      using ini_loop_blank [of st "unlines ls" ini_mem] rest True by simp
    moreover have "ini_read (ini_section ?st1) (join_lines (ini_pending ?st1) ls) = (ops, n)"
      using Cons.prems(5) nc True by (auto simp: ini_entry_blank rstrip_def split: prod.splits)
    ultimately show ?thesis
      using Cons.IH [of ?st1 ops n] Cons.prems(2-4) True nc by (auto simp: rstrip_def)
  next
    case False
    note step = ini_loop_line [OF rest l(1,2) False, of ini_mem, unfolded Let_def]
    show ?thesis
    proof (cases "continues (ini_pending st @ l)")
      case True
      let ?st2 = "?st1\<lparr>ini_pending := butlast ?x\<rparr>"
      have "ini_loop ini_mem st = ini_loop ini_mem ?st2" using step True by simp
      then show ?thesis using Cons.IH [of ?st2 ops n] Cons.prems(2,4,5) True len by simp
    next
      case False
      obtain sec o1 e where e: "ini_entry (ini_section st) ?x = (sec, o1, e)" by (metis prod_cases3)
      obtain o2 n2 where r: "ini_read sec (join_lines [] ls) = (o2, n2)" by force
      have ops: "ops = o1 @ o2" "n = e + n2" using Cons.prems(5) False e r by auto
      obtain st2 where st2: "ini_process (ini_mem (ini_lineno st + 1)) ?x ?st1 = Some (False, st2)"
        "dict.insert_all o1 (ini_dict st) = Some (ini_dict st2)" "dict_wf (ini_dict st2)"
        "ini_section st2 = sec" "ini_pending st2 = []" "ini_rest st2 = unlines ls"
        "ini_errs st2 = ini_errs st + e"
        using ini_process_entry [of ?st1 ?x sec o1 e "ini_lineno st + 1"] e Cons.prems(4) by auto
      have "ini_loop ini_mem st = ini_loop ini_mem st2" using step False st2(1) by simp
      then show ?thesis
        using Cons.IH [of st2 o2 n2] st2 r ops Cons.prems(2) False
        by (auto simp: dict.insert_all_append ASCIILINESZ_def)
    qed
  qed
qed

section \<open>The accessors over a well formed dictionary\<close>

lemma iniparser_getstring_map:
  assumes "dict_wf d" and "length k \<le> ASCIILINESZ"
  shows "iniparser_getstring (Some d) (Some k) def =
    Some (case dict_map d (map tolower k) of None \<Rightarrow> def | Some v \<Rightarrow> ptr_of v)"
  using assms by (simp add: iniparser_getstring_def strlwc_def dictionary_get_map)

lemma iniparser_find_entry_map:
  "dict_wf d \<Longrightarrow> length k \<le> ASCIILINESZ \<Longrightarrow>
   iniparser_find_entry (Some d) (Some k) = Some (map tolower k \<in> dom (dict_map d))"
  by (auto simp: iniparser_find_entry_def iniparser_getstring_map split: option.splits)


section \<open>Dumping sections\<close>

definition dict_sections :: "dictionary \<Rightarrow> string list" where
  "dict_sections d = filter is_section (map fst (dict_entries d))"

lemma iniparser_getnsec_sections:
  assumes "dict_wf d"
  shows "iniparser_getnsec (Some d) = Some (int (length (dict_sections d)))"
proof -
  have "dict_scan nsec_slot d 0 =
      Some (concat (map (\<lambda>e. if is_section (fst e) then [()] else []) (dict_entries d)))"
    by (rule dict_scan_entries [OF assms]) (auto simp: nsec_slot_def)
  moreover have "length (concat (map (\<lambda>e. if is_section (fst e) then [()] else []) es))
      = length (filter is_section (map fst es))" for es :: "(string \<times> string option) list"
    by (induction es) auto
  ultimately show ?thesis by (simp add: iniparser_getnsec_def dict_sections_def)
qed

definition sections_from :: "dictionary \<Rightarrow> nat \<Rightarrow> string list" where
  "sections_from d i =
     filter is_section (map fst (concat (map slot_entry (drop i (zip (dict_key d) (dict_val d))))))"

lemma sections_from_step:
  assumes "dict_wf d" and "i < length (dict_key d)"
  shows "sections_from d i =
    (case dict_key d ! i of None \<Rightarrow> [] | Some s \<Rightarrow> if is_section s then [s] else []) @ sections_from d (Suc i)"
  using assms dict_wf_lens(2) [OF assms(1)]
    Cons_nth_drop_Suc [of i "zip (dict_key d) (dict_val d)", symmetric]
  by (simp add: sections_from_def slot_entry_def split: option.splits)

lemma secname_from_sections:
  assumes "dict_wf d"
  shows "i \<le> length (dict_key d) \<Longrightarrow> found \<le> n \<Longrightarrow>
    secname_from d (int n) (int found) (int i) =
      Some (if n - found < length (sections_from d i) then Some (sections_from d i ! (n - found)) else None)"
proof (induction "length (dict_key d) - i" arbitrary: i found)
  case 0
  then show ?case
    using dict_wf_lens [OF assms] by (subst secname_from.simps) (simp add: sections_from_def)
next
  case (Suc m)
  then have i: "i < length (dict_key d)" "m = length (dict_key d) - Suc i" "Suc i \<le> length (dict_key d)"
    by auto
  note IH = Suc.hyps(1) [OF i(2,3)]
  have int1: "int i + 1 = int (Suc i)" "int found + 1 = int (Suc found)" by simp_all
  note step = sections_from_step [OF assms i(1)]
  show ?case
  proof (cases "\<exists>s. dict_key d ! i = Some s \<and> is_section s")
    case True
    then obtain s where s: "dict_key d ! i = Some s" "is_section s" by blast
    show ?thesis
    proof (cases "found = n")
      case True
      then show ?thesis
        using s i(1) step dict_wf_lens(1) [OF assms] by (subst secname_from.simps) simp
    next
      case False
      then have "Suc found \<le> n" "\<not> int found + 1 > int n" using Suc.prems(2) by auto
      moreover have "n - found = Suc (n - Suc found)" using calculation(1) by simp
      ultimately show ?thesis
        using s i(1) step dict_wf_lens(1) [OF assms] IH [of "Suc found"]
        by (subst secname_from.simps) (simp add: int1)
    qed
  next
    case False
    then have "secname_from d (int n) (int found) (int i) = secname_from d (int n) (int found) (int (Suc i))"
      using i(1) dict_wf_lens(1) [OF assms]
      by (subst secname_from.simps) (auto simp: int1 split: option.splits)
    moreover have "sections_from d i = sections_from d (Suc i)"
      using False step by (auto split: option.splits)
    ultimately show ?thesis using IH [OF Suc.prems(2)] by simp
  qed
qed

lemma iniparser_getsecname_sections:
  assumes "dict_wf d"
  shows "iniparser_getsecname (Some d) (int n) =
    Some (if n < length (dict_sections d) then Some (dict_sections d ! n) else None)"
  using secname_from_sections [OF assms, of 0 0 n]
  by (simp add: iniparser_getsecname_def sections_from_def dict_sections_def dict_entries_def)

text \<open>The lines of a section: a blank one, its name, its keys, a blank one.\<close>

definition in_section :: "string \<Rightarrow> string \<Rightarrow> bool" where
  "in_section s k \<longleftrightarrow> take (length s + 1) k = s @ '':''"

definition key_line :: "string \<Rightarrow> string \<times> string option \<Rightarrow> string" where
  "key_line s kv = pad_right 30 (drop (length s + 1) (fst kv)) @ '' = '' @
     (case snd kv of None \<Rightarrow> [] | Some t \<Rightarrow> t)"

definition section_entries :: "dictionary \<Rightarrow> string \<Rightarrow> (string \<times> string option) list" where
  "section_entries d s = filter (\<lambda>kv. in_section s (fst kv)) (dict_entries d)"

definition section_lines :: "dictionary \<Rightarrow> string \<Rightarrow> string list" where
  "section_lines d s = [[], ''['' @ s @ '']''] @ map (key_line s) (section_entries d s) @ [[]]"

lemma iniparser_dumpsection_lines:
  assumes "dict_wf d" and "map tolower s \<in> dom (dict_map d)" and "length s + 2 \<le> ASCIILINESZ"
  shows "iniparser_dumpsection_ini (Some d) (Some s) True = Some (unlines (section_lines d s))"
proof -
  have scan: "dict_scan (dumpsection_slot d (s @ '':'') (length s)) d 0 =
      Some (concat (map (\<lambda>e. if in_section s (fst e) then key_line s e @ NL else []) (dict_entries d)))"
    by (rule dict_scan_entries [OF assms(1)])
      (auto simp: dumpsection_slot_def in_section_def key_line_def dict_wf_lens [OF assms(1)])
  have lines: "concat (map (\<lambda>e. if in_section s (fst e) then key_line s e @ NL else []) es) =
      unlines (map (key_line s) (filter (\<lambda>kv. in_section s (fst kv)) es))" for es
    by (induction es) (auto simp: unlines_def)
  have e: "iniparser_find_entry (Some d) (Some s) = Some True"
    using assms by (simp add: iniparser_find_entry_map)
  show ?thesis
    using assms(3) scan lines [of "dict_entries d"] e
    by (simp add: iniparser_dumpsection_ini_def section_lines_def section_entries_def NL_def)
qed

lemma dump_sections_lines:
  assumes "dict_wf d" and "i + n = length (dict_sections d)"
    and "\<forall>s \<in> set (dict_sections d). map tolower s = s \<and> length s + 2 \<le> ASCIILINESZ"
  shows "dump_sections d n (int i) =
    Some (unlines (concat (map (section_lines d) (drop i (dict_sections d)))))"
  using assms(2)
proof (induction n arbitrary: i)
  case (Suc n)
  let ?s = "dict_sections d ! i"
  have i: "i < length (dict_sections d)" using Suc.prems by simp
  then have s: "?s \<in> set (dict_sections d)" by simp
  then have "?s \<in> fst ` set (dict_entries d)" by (auto simp: dict_sections_def)
  then have "map tolower ?s \<in> dom (dict_map d)"
    using assms(3) s dict_entries_distinct [OF assms(1)] by force
  then have body: "iniparser_dumpsection_ini (Some d) (Some ?s) True = Some (unlines (section_lines d ?s))"
    using assms(3) s iniparser_dumpsection_lines [OF assms(1)] by blast
  have ii: "int i + 1 = int (Suc i)" by simp
  show ?case
    using Suc.IH [of "Suc i"] Suc.prems iniparser_getsecname_sections [OF assms(1), of i] i body
    by (simp add: Cons_nth_drop_Suc [symmetric] ii del: of_nat_Suc)
qed simp

lemma iniparser_dump_ini_lines:
  assumes "dict_wf d" and "dict_sections d \<noteq> []"
    and "\<forall>s \<in> set (dict_sections d). map tolower s = s \<and> length s + 2 \<le> ASCIILINESZ"
  shows "iniparser_dump_ini (Some d) True =
    Some (unlines (concat (map (section_lines d) (dict_sections d)) @ [[]]))"
  using assms(2) dump_sections_lines [OF assms(1) _ assms(3), of 0 "length (dict_sections d)"]
  by (simp add: iniparser_dump_ini_def iniparser_getnsec_sections [OF assms(1)] NL_def Suc_le_eq)


section \<open>The dump of a clean dictionary loads back\<close>

text \<open>
  What a dictionary must look like to survive its file format: section names and keys
  are lower case, trimmed and free of the characters the line format uses; values are
  trimmed, have no comment character, no quote in front, no backslash at the end; every
  key lies in a section of the table and has a value; every line fits in the buffer.
\<close>

definition clean_section :: "string \<Rightarrow> bool" where
  "clean_section s \<longleftrightarrow> s \<noteq> [] \<and> trimmed s \<and> CHR '']'' \<notin> set s \<and> CHR 0x0A \<notin> set s \<and>
     map tolower s = s \<and> length s + 4 \<le> ASCIILINESZ"

definition clean_entry :: "string \<Rightarrow> string \<Rightarrow> bool" where
  "clean_entry k v \<longleftrightarrow> clean_key k \<and> clean_value v \<and> CHR 0x0A \<notin> set k \<and> CHR 0x0A \<notin> set v \<and>
     map tolower k = k \<and> (v \<noteq> [] \<longrightarrow> last v \<noteq> CHR 0x5C) \<and>
     length (pad_right 30 k) + length v + 5 \<le> ASCIILINESZ"

definition clean_dict :: "dictionary \<Rightarrow> bool" where
  "clean_dict d \<longleftrightarrow> dict_wf d \<and> dict_sections d \<noteq> [] \<and>
     (\<forall>(k, v) \<in> set (dict_entries d).
        if is_section k then v = None \<and> clean_section k
        else in_section (takeWhile (\<lambda>c. c \<noteq> CHR '':'') k) k \<and>
             takeWhile (\<lambda>c. c \<noteq> CHR '':'') k \<in> set (dict_sections d) \<and> v \<noteq> None \<and>
             clean_entry (tl (dropWhile (\<lambda>c. c \<noteq> CHR '':'') k)) (the v))"

lemma in_section_iff: "in_section s k \<longleftrightarrow> (\<exists>r. k = s @ CHR '':'' # r)"
proof
  assume "in_section s k"
  then have "k = (s @ '':'') @ drop (length s + 1) k"
    unfolding in_section_def by (metis append_take_drop_id)
  then show "\<exists>r. k = s @ CHR '':'' # r" by auto
qed (auto simp: in_section_def)

text \<open>The parts of a key of a clean dictionary, seen from one of its sections.\<close>

lemma clean_dict_entry:
  assumes "clean_dict d" and "s \<in> set (dict_sections d)" and "(k, v) \<in> set (section_entries d s)"
  obtains r t where "k = s @ CHR '':'' # r" "v = Some t" "clean_entry r t" "key_line s (k, v) =
    r @ (replicate (30 - length r) CHR '' '' @ '' '') @ CHR ''='' # '' '' @ t"
proof -
  obtain r where r: "k = s @ CHR '':'' # r" and e: "(k, v) \<in> set (dict_entries d)"
    using assms(3) by (auto simp: section_entries_def in_section_iff)
  have ns: "CHR '':'' \<notin> set s" using assms(2) by (auto simp: dict_sections_def is_section_def)
  have "\<not> is_section k" using r by (simp add: is_section_def)
  then have "v \<noteq> None" "clean_entry r (the v)"
    using assms(1) e takeWhile_key [OF ns, of r] dropWhile_key [OF ns, of r] r
    by (auto simp: clean_dict_def)
  with r that show thesis by (auto simp: key_line_def pad_right_def)
qed

lemma clean_dict_section:
  "clean_dict d \<Longrightarrow> s \<in> set (dict_sections d) \<Longrightarrow> clean_section s \<and> (s, None) \<in> set (dict_entries d)"
  by (force simp: clean_dict_def dict_sections_def)

lemma clean_section_short: "clean_section s \<Longrightarrow> map tolower s = s \<and> length s + 2 \<le> ASCIILINESZ"
  by (simp add: clean_section_def)

text \<open>A dumped key line, once stripped at the end, is read back as its entry.\<close>

lemma key_line_rstrip:
  assumes "clean_entry r t" and "L = r @ ws @ CHR ''='' # '' '' @ t" and "blank ws"
  shows "rstrip L = r @ ws @ CHR ''='' # (if t = [] then [] else '' '' @ t)" "\<not> continues L"
    "ini_entry sec (rstrip L) = (sec, [(sec @ CHR '':'' # r, Some t)], 0)"
proof -
  have k: "clean_key r" "clean_value t" "map tolower r = r" "t \<noteq> [] \<longrightarrow> last t \<noteq> CHR 0x5C"
    using assms(1) by (auto simp: clean_entry_def)
  show rs: "rstrip L = r @ ws @ CHR ''='' # (if t = [] then [] else '' '' @ t)"
  proof (cases "t = []")
    case True
    then have "L = (r @ ws @ [CHR ''='']) @ '' ''" using assms(2) by simp
    moreover have "rstrip ((r @ ws @ [CHR ''='']) @ '' '') = rstrip (r @ ws @ [CHR ''=''])"
      by (rule rstrip_blank) simp
    moreover have "rstrip (r @ ws @ [CHR ''='']) = r @ ws @ [CHR ''='']" by (rule rstrip_id) simp
    ultimately have "rstrip L = r @ ws @ [CHR ''='']" by (simp only:)
    then show ?thesis using True by simp
  next
    case False
    then have "\<not> isspace (last L)" using k(2) assms(2) by (simp add: clean_value_def trimmed_def)
    then show ?thesis using False assms(2) by simp
  qed
  then show "\<not> continues L" using k(4) by (auto simp: continues_def)
  have "strstrip (rstrip L) = r @ ws @ CHR ''='' # (if t = [] then [] else '' '' @ t)"
  proof -
    have "trimmed (rstrip L)"
      using k(1,2) by (auto simp: rs trimmed_def clean_key_def clean_value_def)
    then show ?thesis using rs by simp
  qed
  then show "ini_entry sec (rstrip L) = (sec, [(sec @ CHR '':'' # r, Some t)], 0)"
    using ini_value_line [OF k(1) assms(3) _ k(2), of "'' ''" "rstrip L"] k(3)
    by (simp add: ini_entry_def)
qed

lemma section_line_rstrip:
  assumes "clean_section s"
  shows "rstrip (''['' @ s @ '']'') = ''['' @ s @ '']''" "\<not> continues (''['' @ s @ '']'')"
    "ini_entry sec (''['' @ s @ '']'') = (s, [(s, None)], 0)"
proof -
  show rs: "rstrip (''['' @ s @ '']'') = ''['' @ s @ '']''" by (rule rstrip_id) simp
  then show "\<not> continues (''['' @ s @ '']'')" by (simp add: continues_def)
  have "strstrip (''['' @ s @ '']'') = CHR ''['' # [] @ s @ [] @ [CHR '']'']"
    using rs by (simp add: strstrip_def)
  then show "ini_entry sec (''['' @ s @ '']'') = (s, [(s, None)], 0)"
    using assms ini_section_line [of s "[]" "[]" "''['' @ s @ '']''" sec]
    by (simp add: ini_entry_def clean_section_def)
qed


text \<open>The lines of one section, read in order.\<close>

lemma join_lines_simple:
  "\<forall>l \<in> set ls. \<not> continues l \<Longrightarrow> join_lines [] (ls @ ls') = map rstrip ls @ join_lines [] ls'"
  by (induction ls) auto

lemma lines_fit_simple:
  "\<forall>l \<in> set ls. \<not> continues l \<and> length l + 2 \<le> ASCIILINESZ \<and> CHR 0x0A \<notin> set l \<Longrightarrow> lines_fit [] ls"
  by (induction ls) auto

lemma ini_read_append:
  "ini_read sec (ls @ ls') =
    (case ini_read sec ls of (ops, n) \<Rightarrow>
       (case ini_read (foldl (\<lambda>s l. fst (ini_entry s l)) sec ls) ls' of (ops', n') \<Rightarrow> (ops @ ops', n + n')))"
  by (induction ls arbitrary: sec) (auto split: prod.splits)

definition section_ops :: "dictionary \<Rightarrow> string \<Rightarrow> (string \<times> string option) list" where
  "section_ops d s = (s, None) # section_entries d s"

lemma ini_read_entries:
  assumes "clean_dict d" and "s \<in> set (dict_sections d)" and "set es \<subseteq> set (section_entries d s)"
  shows "ini_read s (map (\<lambda>e. rstrip (key_line s e)) es) = (es, 0) \<and>
    foldl (\<lambda>s l. fst (ini_entry s l)) s (map (\<lambda>e. rstrip (key_line s e)) es) = s"
  using assms(3)
proof (induction es)
  case (Cons e es)
  obtain k v where e: "e = (k, v)" by force
  then obtain r t where rt: "k = s @ CHR '':'' # r" "v = Some t" "clean_entry r t"
    "key_line s (k, v) = r @ (replicate (30 - length r) CHR '' '' @ '' '') @ CHR ''='' # '' '' @ t"
    using clean_dict_entry [OF assms(1,2), of k v] Cons.prems by auto
  have "blank (replicate (30 - length r) CHR '' '' @ '' '')" by (simp add: list_all_iff)
  from key_line_rstrip(3) [OF rt(3,4) this, of s]
  show ?case using Cons e rt(1,2) by simp
qed simp

lemma section_lines_ok:
  assumes "clean_dict d" and "s \<in> set (dict_sections d)" and "l \<in> set (section_lines d s)"
  shows "\<not> continues l \<and> length l + 2 \<le> ASCIILINESZ \<and> CHR 0x0A \<notin> set l"
proof -
  have s: "clean_section s" using clean_dict_section [OF assms(1,2)] by blast
  consider "l = []" | "l = ''['' @ s @ '']''" | k v where "(k, v) \<in> set (section_entries d s)"
    "l = key_line s (k, v)"
    using assms(3) by (auto simp: section_lines_def)
  then show ?thesis
  proof cases
    case 1
    then show ?thesis by (simp add: continues_def rstrip_def ASCIILINESZ_def)
  next
    case 2
    then show ?thesis using section_line_rstrip(2) [OF s] s by (auto simp: clean_section_def)
  next
    case 3
    then obtain r t where rt: "clean_entry r t"
      "l = r @ (replicate (30 - length r) CHR '' '' @ '' '') @ CHR ''='' # '' '' @ t"
      using clean_dict_entry [OF assms(1,2) 3(1)] by metis
    have "blank (replicate (30 - length r) CHR '' '' @ '' '')" by (simp add: list_all_iff)
    from key_line_rstrip(2) [OF rt this] rt show ?thesis
      by (auto simp: clean_entry_def pad_right_def)
  qed
qed

lemma ini_read_section:
  assumes "clean_dict d" and "s \<in> set (dict_sections d)"
  shows "ini_read sec (map rstrip (section_lines d s)) = (section_ops d s, 0) \<and>
    foldl (\<lambda>s l. fst (ini_entry s l)) sec (map rstrip (section_lines d s)) = s"
proof -
  have s: "clean_section s" using clean_dict_section [OF assms] by blast
  have r0: "rstrip [] = []" by (simp add: rstrip_def)
  note e = ini_read_entries [OF assms subset_refl]
  show ?thesis
    using e section_line_rstrip(1,3) [OF s]
    by (simp add: section_lines_def section_ops_def r0 ini_entry_blank ini_read_append comp_def
        split: prod.splits)
qed

lemma ini_read_sections:
  assumes "clean_dict d" and "set ss \<subseteq> set (dict_sections d)"
  shows "ini_read sec (map rstrip (concat (map (section_lines d) ss))) = (concat (map (section_ops d) ss), 0)"
  using assms(2)
proof (induction ss arbitrary: sec)
  case (Cons s ss)
  then show ?case
    using ini_read_section [OF assms(1), of s sec] by (simp add: ini_read_append)
qed simp

lemma map_of_rev_graph:
  assumes "\<And>k v. (k, v) \<in> set ops \<Longrightarrow> m k = Some v" and "\<And>k v. m k = Some v \<Longrightarrow> (k, v) \<in> set ops"
  shows "map_of (rev ops) = m"
proof
  fix k
  show "map_of (rev ops) k = m k"
  proof (cases "map_of (rev ops) k")
    case None
    then have "k \<notin> fst ` set ops" by (simp add: map_of_eq_None_iff)
    then show ?thesis using assms(2) None by (metis fst_conv image_eqI option.exhaust)
  next
    case (Some v)
    then show ?thesis using assms(1) map_of_SomeD by fastforce
  qed
qed

lemma clean_dict_ops:
  assumes "clean_dict d"
  shows "map_of (rev (concat (map (section_ops d) (dict_sections d)))) = dict_map d"
proof (rule map_of_rev_graph)
  have wf: "dict_wf d" using assms by (simp add: clean_dict_def)
  fix k v
  show "dict_map d k = Some v" if "(k, v) \<in> set (concat (map (section_ops d) (dict_sections d)))"
    using that clean_dict_section [OF assms] dict_entries_distinct [OF wf]
    by (auto simp: section_ops_def section_entries_def)
  show "(k, v) \<in> set (concat (map (section_ops d) (dict_sections d)))" if "dict_map d k = Some v"
  proof -
    have e: "(k, v) \<in> set (dict_entries d)"
      using that dict_entries_map [of d] by (metis map_of_SomeD)
    show ?thesis
    proof (cases "is_section k")
      case True
      then have "k \<in> set (dict_sections d)" using e by (force simp: dict_sections_def)
      moreover have "v = None" using assms e True by (auto simp: clean_dict_def)
      ultimately show ?thesis by (auto simp: section_ops_def)
    next
      case False
      then show ?thesis using assms e by (force simp: clean_dict_def section_ops_def section_entries_def)
    qed
  qed
qed


section \<open>Safety of the loader\<close>

text \<open>No conversion produces more characters than the line has.\<close>

lemma sscanf_bound: "x \<in> set (sscanf ds s) \<Longrightarrow> length x \<le> length s"
proof (induction ds s rule: sscanf.induct)
  case (2 ds s)
  then show ?case using length_dropWhile_le [of isspace s] by auto
next
  case (4 p ds s)
  then show ?case
    using length_dropWhile_le [of p s] length_takeWhile_le [of p s]
    by (fastforce simp: Let_def split: if_splits)
qed (auto split: list.splits if_splits)

lemma strstrip_length: "length (strstrip s) \<le> length s"
  using rstrip_length [of "dropWhile isspace s"] length_dropWhile_le [of isspace s]
  by (simp add: strstrip_def)

lemma strlwc_length: "len \<noteq> 0 \<Longrightarrow> length (the (strlwc (Some s) len)) \<le> length s"
  by (simp add: strlwc_def)

lemma scans_bound: "scans fmt L \<Longrightarrow> length (sscanf fmt L ! 0) \<le> length L \<and> length (sscanf fmt L ! 1) \<le> length L"
  by (intro conjI sscanf_bound [of _ fmt] nth_mem) (auto simp: scans_def)

lemma line_entry_bound:
  "line_entry L = Some (k, v) \<Longrightarrow> length k \<le> length L \<and> length v \<le> length L"
  using scans_bound [of "fmt_quoted DQ" L] scans_bound [of "fmt_quoted SQ" L] scans_bound [of fmt_plain L]
    scans_bound [of fmt_comment L] scans_bound [of fmt_empty L] strstrip_length [of "sscanf fmt_plain L ! 1"]
  by (auto simp: line_entry_def Let_def split: if_splits)

definition ini_fits :: "string \<Rightarrow> bool" where
  "ini_fits s \<longleftrightarrow> length s < ASCIILINESZ"

lemma iniparser_line_fits:
  assumes "ini_fits line" "ini_fits sec" "ini_fits key" "ini_fits val"
    and "iniparser_line ok line sec key val = (sta, sec', key', val')"
  shows "ini_fits sec' \<and> ini_fits key' \<and> ini_fits val'"
proof -
  let ?L = "strstrip line"
  have L: "length ?L < ASCIILINESZ" using strstrip_length [of line] assms(1) by (simp add: ini_fits_def)
  consider (e) "\<not> ok \<or> ?L = []" | (c) "ok" "?L \<noteq> []" "?L ! 0 \<in> {CHR ''#'', CHR '';''}"
    | (s) "ok" "?L \<noteq> []" "?L ! 0 \<notin> {CHR ''#'', CHR '';''}"
        "?L ! 0 = CHR ''['' \<and> ?L ! (length ?L - 1) = CHR '']''"
    | (v) "ok" "?L \<noteq> []" "?L ! 0 \<notin> {CHR ''#'', CHR '';''}"
        "\<not> (?L ! 0 = CHR ''['' \<and> ?L ! (length ?L - 1) = CHR '']'')" by blast
  then show ?thesis
  proof cases
    case e
    then have "(if ok then ?L else []) = []" by auto
    then show ?thesis using assms by (simp add: iniparser_line_def Let_def)
  next
    case c
    then show ?thesis using assms by (simp add: iniparser_line_def Let_def)
  next
    case s
    define sec1 where "sec1 = (case sscanf fmt_section ?L of [] \<Rightarrow> sec | s # _ \<Rightarrow> s)"
    have "length sec1 < ASCIILINESZ"
      using sscanf_bound [of _ fmt_section ?L] L assms(2)
      by (fastforce simp: sec1_def ini_fits_def split: list.splits)
    moreover have "sec' = the (strlwc (Some (strstrip sec1)) (length ?L))" "key' = key" "val' = val"
      using s assms(5) by (auto simp: iniparser_line_def Let_def sec1_def)
    ultimately show ?thesis
      using s strstrip_length [of sec1] strlwc_length [of "length ?L" "strstrip sec1"] assms(3,4)
      by (simp add: ini_fits_def)
  next
    case v
    note f = iniparser_line_form [OF v(2-4), of sec key val]
    show ?thesis
    proof (cases "line_entry ?L")
      case None
      then have eq: "sec' = sec" "val' = val"
        and k: "key' = key \<or> (\<exists>fmt. key' = hd (sscanf fmt ?L) \<and> sscanf fmt ?L \<noteq> [])"
        using f v(1) assms(5) by auto
      have "length (hd (sscanf fmt ?L)) < ASCIILINESZ" if "sscanf fmt ?L \<noteq> []" for fmt
        using sscanf_bound [OF hd_in_set [OF that]] L by simp
      then have "length key' < ASCIILINESZ" using k assms(3) by (auto simp: ini_fits_def)
      then show ?thesis using eq assms by (simp add: ini_fits_def)
    next
      case (Some kv)
      then obtain k w where kw: "line_entry ?L = Some (k, w)" by (cases kv) auto
      then have "sec' = sec" "key' = the (strlwc (Some (strstrip k)) (length ?L))" "val' = w"
        using f v(1) assms(5) by auto
      then show ?thesis
        using line_entry_bound [OF kw] strstrip_length [of k] strlwc_length [of "length ?L" "strstrip k"]
          v(2) L assms(2) by (simp add: ini_fits_def)
    qed
  qed
qed

text \<open>The invariant of the loop: the buffers are inside their bounds, the table is well formed.\<close>

definition ini_inv :: "ini_state \<Rightarrow> bool" where
  "ini_inv st \<longleftrightarrow> dict_wf (ini_dict st) \<and> length (ini_pending st) + 2 \<le> ASCIILINESZ \<and>
     ini_fits (ini_section st) \<and> ini_fits (ini_key st) \<and> ini_fits (ini_val st)"

lemma dictionary_set_returns:
  assumes "dict_wf d"
  shows "\<exists>r d'. dictionary_set m (Some d) (Some k) v = Some (r, Some d') \<and> dict_wf d'"
  by (cases rule: dictionary_set_cases [OF assms, of k m v]) (use assms in auto)

lemma ini_process_inv:
  assumes "ini_inv st" and "ini_fits line"
  shows "\<exists>f st'. ini_process m line st = Some (f, st') \<and> ini_inv st' \<and> ini_rest st' = ini_rest st \<and>
    ini_lineno st' = ini_lineno st"
proof -
  obtain sta sec key val where l:
    "iniparser_line (line_ok m) line (ini_section st) (ini_key st) (ini_val st) = (sta, sec, key, val)"
    by (metis prod_cases4)
  then have fits: "ini_fits sec" "ini_fits key" "ini_fits val"
    using iniparser_line_fits [OF assms(2) _ _ _ l] assms(1) by (auto simp: ini_inv_def)
  have wf: "dict_wf (ini_dict st)" using assms(1) by (simp add: ini_inv_def)
  have a: "2 \<le> ASCIILINESZ" by (simp add: ASCIILINESZ_def)
  obtain r d where s: "dictionary_set (set_alloc m) (Some (ini_dict st)) (Some sec) None = Some (r, Some d)"
    "dict_wf d" using dictionary_set_returns [OF wf] by blast
  obtain r' d' where v: "dictionary_set (set_alloc m) (Some (ini_dict st)) (Some (sec @ '':'' @ key))
      (Some val) = Some (r', Some d')" "dict_wf d'" using dictionary_set_returns [OF wf] by blast
  show ?thesis
    by (cases sta) (use l fits wf s v a in \<open>auto simp: ini_process_def ini_inv_def\<close>)
qed

lemma ini_loop_returns:
  "ini_inv st \<Longrightarrow> \<exists>st'. (ini_loop mem st = Some (Finished st') \<or> ini_loop mem st = Some (Rejected st')) \<and> ini_inv st'"
proof (induction "length (ini_rest st)" arbitrary: st rule: less_induct)
  case less
  have n: "1 < ASCIILINESZ - length (ini_pending st)" using less.prems by (auto simp: ini_inv_def)
  show ?case
  proof (cases "fgets (ASCIILINESZ - length (ini_pending st)) (ini_rest st)")
    case None
    then show ?thesis using less.prems by (subst (1 2) ini_loop.simps) auto
  next
    case (Some t)
    obtain l r eof where t: "t = (l, r, eof)" by (metis prod_cases3)
    note sp = fgets_split [OF Some [unfolded t] n]
    let ?line = "ini_pending st @ l"
    let ?st1 = "st\<lparr>ini_rest := r, ini_lineno := ini_lineno st + 1\<rparr>"
    let ?x = "rstrip ?line"
    have rest: "length r < length (ini_rest st)" using sp by (cases l) auto
    have fit: "ini_fits ?line" using sp n by (auto simp: ini_fits_def)
    have fitx: "ini_fits ?x" using fit rstrip_length [of ?line] by (simp add: ini_fits_def)
    have inv1: "ini_inv ?st1" using less.prems by (simp add: ini_inv_def)
    have inv2: "ini_inv (?st1\<lparr>ini_pending := butlast ?x\<rparr>)" if "?x \<noteq> []"
      using less.prems fitx that by (cases ?x rule: rev_cases) (auto simp: ini_inv_def ini_fits_def)
    obtain f st2 where st2: "ini_process (mem (ini_lineno ?st1)) ?x ?st1 = Some (f, st2)" "ini_inv st2"
      "ini_rest st2 = r" using ini_process_inv [OF inv1 fitx] by fastforce
    have inv3: "ini_inv (?st1\<lparr>ini_log := y\<rparr>)" "ini_inv (st2\<lparr>ini_log := y\<rparr>)" for y
      using inv1 st2(2) by (simp_all add: ini_inv_def)
    have eq: "ini_loop mem st =
      (if length ?line \<le> 1 then ini_loop mem ?st1
       else if last ?line \<noteq> CHR 0x0A \<and> \<not> eof then
         Some (Rejected (?st1\<lparr>ini_log := ini_log st @ [LineTooLong (ini_lineno ?st1)]\<rparr>))
       else if ?x \<noteq> [] \<and> last ?x = CHR 0x5C then ini_loop mem (?st1\<lparr>ini_pending := butlast ?x\<rparr>)
       else if f then Some (Finished (st2\<lparr>ini_log := ini_log st2 @ [MemoryFailure]\<rparr>))
       else ini_loop mem st2)"
      by (subst ini_loop.simps) (simp only: Some t st2(1) Let_def option.case prod.case)
    show ?thesis
      using less.hyps [of ?st1] less.hyps [of "?st1\<lparr>ini_pending := butlast ?x\<rparr>"] less.hyps [of st2]
        inv1 inv2 inv3 st2(2,3) rest unfolding eq by auto
  qed
qed


section \<open>Properties\<close>

text \<open>A two-slot dictionary for the witnesses: one section with one key.\<close>

definition sample_dict :: dictionary where
  "sample_dict =
     \<lparr>dict_n = 2, dict_size = 2, dict_val = [None, Some ''80''], dict_key = [Some ''net'', Some ''net:port''],
      dict_hash = [dictionary_hash (Some ''net''), dictionary_hash (Some ''net:port'')]\<rparr>"

lemma sample_dict_wf: "dict_wf sample_dict"
  by (simp add: dict_wf_def sample_dict_def dict_used_def less_Suc_eq numeral_2_eq_2)

lemma sample_dict_entries:
  "dict_entries sample_dict = [(''net'', None), (''net:port'', Some ''80'')]"
  "dict_sections sample_dict = [''net'']"
  by (simp_all add: dict_sections_def dict_entries_def sample_dict_def slot_entry_def is_section_def)

lemma sample_dict_clean: "clean_dict sample_dict"
proof -
  have "clean_section ''net''" by code_simp
  moreover have "clean_entry ''port'' ''80''" by code_simp
  ultimately show ?thesis
    by (simp add: clean_dict_def sample_dict_wf sample_dict_entries is_section_def in_section_def)
qed

lemma clean_dump_load:
  assumes "clean_dict d"
  shows "\<exists>file d' log. iniparser_dump_ini (Some d) True = Some file \<and>
    iniparser_load ini_mem (dictionary_new True True True True 0) (Some file) = Some (Some d', log) \<and>
    dict_wf d' \<and> (\<forall>k. dict_lookup d' k = dict_lookup d k)"
proof -
  let ?ls = "concat (map (section_lines d) (dict_sections d)) @ [[]]"
  let ?ops = "concat (map (section_ops d) (dict_sections d))"
  have wf: "dict_wf d" "dict_sections d \<noteq> []" using assms by (auto simp: clean_dict_def)
  have ok: "\<forall>l \<in> set ?ls. \<not> continues l \<and> length l + 2 \<le> ASCIILINESZ \<and> CHR 0x0A \<notin> set l"
    using section_lines_ok [OF assms] by (auto simp: continues_def rstrip_def ASCIILINESZ_def)
  have "\<forall>s \<in> set (dict_sections d). map tolower s = s \<and> length s + 2 \<le> ASCIILINESZ"
    using clean_dict_section [OF assms] clean_section_short by blast
  from iniparser_dump_ini_lines [OF wf this]
  have dump: "iniparser_dump_ini (Some d) True = Some (unlines ?ls)" .
  have "join_lines [] ?ls = map rstrip ?ls"
    using join_lines_simple [of ?ls "[]"] ok by auto
  moreover have "ini_read [] (map rstrip ?ls) = (?ops, 0)"
    using ini_read_sections [OF assms subset_refl, of "[]"]
    by (simp add: ini_read_append ini_entry_blank rstrip_def split: prod.splits)
  ultimately obtain st where st: "ini_loop ini_mem (ini_start (unlines ?ls) empty_dict) = Some (Finished st)"
    "dict_wf (ini_dict st)" "dict.insert_all ?ops empty_dict = Some (ini_dict st)" "ini_errs st = 0"
    using ini_loop_reads [of "ini_start (unlines ?ls) empty_dict" ?ls ?ops 0]
      lines_fit_simple [OF ok] empty_dict_wf(1)
    by (auto simp: ini_start_def ASCIILINESZ_def)
  have "dict_lookup (ini_dict st) = map_of (rev ?ops)"
    using dict.insert_all_last [OF empty_dict_wf(1) st(3)] by (simp add: empty_dict_lookup)
  then have "dict_lookup (ini_dict st) = dict_lookup d"
    using clean_dict_ops [OF assms] dict_lookup_map [OF wf(1)] by simp
  then show ?thesis
    using dump st(1,2,4) by (simp add: iniparser_load_def dictionary_new_empty del: unlines_simps)
qed

text \<open>
  C6: Saving a clean dictionary with \<^verbatim>\<open>iniparser_dump_ini\<close> and loading the file with
  \<^verbatim>\<open>iniparser_load\<close> succeeds and yields a dictionary with the same entries.
\<close>

theorem iniparser_dump_load:
  assumes "clean_dict d"
  shows "\<exists>file d' log. iniparser_dump_ini (Some d) True = Some file \<and>
    iniparser_load ini_mem (dictionary_new True True True True 0) (Some file) = Some (Some d', log) \<and>
    dict_wf d' \<and> (\<forall>k. dict_lookup d' k = dict_lookup d k)"
  by (rule clean_dump_load [OF assms])

theorem iniparser_dump_load_witness:
  "\<exists>file d' log. iniparser_dump_ini (Some sample_dict) True = Some file \<and>
    iniparser_load ini_mem (dictionary_new True True True True 0) (Some file) = Some (Some d', log) \<and>
    dict_lookup d' ''net:port'' = Some (Some ''80'')"
proof -
  have "dict_lookup sample_dict ''net:port'' = Some (Some ''80'')"
    using dict_entries_map [of sample_dict]
    by (simp add: dict_lookup_map sample_dict_wf sample_dict_entries flip: dict_entries_map)
  then show ?thesis using iniparser_dump_load [OF sample_dict_clean] by auto
qed

text \<open>
  C11: Loading a file of lines that fit in the buffer stores the entries of its logical
  lines in order, with the last entry of a key winning; it returns a dictionary exactly
  when no line is a syntax error.
\<close>

theorem iniparser_load_lines:
  assumes "lines_fit [] ls" and "ini_read [] (join_lines [] ls) = (ops, errors)"
  shows "\<exists>d' log. iniparser_load ini_mem (dictionary_new True True True True 0) (Some (unlines ls)) =
      Some (if errors = 0 then Some d' else None, log) \<and> dict_wf d' \<and>
    dict_lookup d' = map_of (rev ops)"
proof -
  obtain st where st: "ini_loop ini_mem (ini_start (unlines ls) empty_dict) = Some (Finished st)"
    "dict_wf (ini_dict st)" "dict.insert_all ops empty_dict = Some (ini_dict st)" "ini_errs st = errors"
    using ini_loop_reads [of "ini_start (unlines ls) empty_dict" ls ops errors] assms empty_dict_wf(1)
    by (auto simp: ini_start_def ASCIILINESZ_def)
  have "dict_lookup (ini_dict st) = map_of (rev ops)"
    using dict.insert_all_last [OF empty_dict_wf(1) st(3)] by (simp add: empty_dict_lookup)
  then show ?thesis
    using st(1,2,4) by (auto simp: iniparser_load_def dictionary_new_empty)
qed

theorem iniparser_load_lines_witness:
  "\<exists>d' log. iniparser_load ini_mem (dictionary_new True True True True 0)
       (Some (unlines [''[A]'', ''x = 1 ; c'', ''y = ab'' @ [CHR 0x5C], ''cd'', ''x = 2''])) = Some (Some d', log) \<and>
     dict_lookup d' ''a:x'' = Some (Some ''2'') \<and> dict_lookup d' ''a:y'' = Some (Some ''abcd'')"
proof -
  let ?ls = "[''[A]'', ''x = 1 ; c'', ''y = ab'' @ [CHR 0x5C], ''cd'', ''x = 2'']"
  have "lines_fit [] ?ls" by code_simp
  moreover have "ini_read [] (join_lines [] ?ls) =
     ([(''a'', None), (''a:x'', Some ''1''), (''a:y'', Some ''abcd''), (''a:x'', Some ''2'')], 0)"
    by code_simp
  ultimately show ?thesis using iniparser_load_lines [of ?ls] by fastforce
qed

text \<open>
  C13: Whatever the file contains and whichever allocations fail while the lines are read, loading
  returns: the loop ends and never indexes outside the arrays of the dictionary, and the
  dictionary it returns, if any, is well formed. The new dictionary itself may fail to be
  allocated, but when it is, so must its three arrays be: \<^verbatim>\<open>dictionary_new\<close> does not test them, and
  the first entry is then written through NULL.
\<close>

theorem iniparser_load_safe:
  assumes "ok \<longrightarrow> okv \<and> okk \<and> okh"
  shows "\<exists>r log. iniparser_load mem (dictionary_new ok okv okk okh 0) file = Some (r, log) \<and>
     (case r of None \<Rightarrow> True | Some d' \<Rightarrow> dict_wf d')"
proof (cases "file = None \<or> \<not> ok")
  case True
  then show ?thesis by (auto simp: iniparser_load_def dictionary_new_def split: option.splits)
next
  case False
  then obtain content where f: "file = Some content" and ok by auto
  have "ini_inv (ini_start content empty_dict)"
    by (simp add: ini_inv_def ini_start_def empty_dict_wf ini_fits_def ASCIILINESZ_def)
  from ini_loop_returns [OF this, of mem] show ?thesis
    using f \<open>ok\<close> assms by (auto simp: iniparser_load_def ini_inv_def dictionary_new_empty)
qed

theorem iniparser_load_safe_witness:
  "(\<exists>r log. iniparser_load ini_mem (dictionary_new True True True True 0) (Some ''[a'') = Some (r, log)) \<and>
   (\<exists>r log. iniparser_load ini_mem (dictionary_new False True False True 0) (Some ''[a]'') = Some (r, log))"
  using iniparser_load_safe [of True True True True ini_mem "Some ''[a''"]
    iniparser_load_safe [of False True False True ini_mem "Some ''[a]''"] by blast

text \<open>
  The unbounded conversions of the line parser cannot overflow its output buffers:
  from a line and buffers of fewer than \<^const>\<open>ASCIILINESZ\<close> characters, every output has
  fewer than \<^const>\<open>ASCIILINESZ\<close> characters, in every branch.
\<close>

theorem iniparser_line_bounds:
  assumes "ini_fits line" "ini_fits sec" "ini_fits key" "ini_fits val"
  shows "case iniparser_line ok line sec key val of
    (_, sec', key', val') \<Rightarrow> ini_fits sec' \<and> ini_fits key' \<and> ini_fits val'"
  using iniparser_line_fits [OF assms] by (auto split: prod.splits)

theorem iniparser_line_bounds_witness:
  "case iniparser_line True ''a=b'' [] [] [] of
    (_, sec', key', val') \<Rightarrow> ini_fits sec' \<and> ini_fits key' \<and> ini_fits val'"
  by (rule iniparser_line_bounds) (simp_all add: ini_fits_def ASCIILINESZ_def)

text \<open>
  A key and a value survive the line format. For a clean key and a clean value, with
  any blanks around the key, the equal sign and the value, and any comment after it, the
  line is a value line with the lower-cased key and the value.
\<close>

theorem iniparser_line_value:
  assumes "clean_key k" and "clean_value v" and "blank w1" "blank w2" "blank w3" "blank w4"
  shows "iniparser_line True (w1 @ k @ w2 @ CHR ''='' # w3 @ v @ w4) sec key val =
    (LINE_VALUE, sec, map tolower k, v)"
proof (rule ini_value_line [OF assms(1,4,5,2)])
  let ?t = "if v = [] then [] else w3 @ v"
  have k: "k \<noteq> []" "trimmed k" using assms(1) by (auto simp: clean_key_def)
  have v: "trimmed v" using assms(2) by (simp add: clean_value_def)
  have tr: "trimmed (k @ w2 @ CHR ''='' # ?t)"
    using v k(2) by (intro trimmed_append [OF k(2,1)]) (auto simp: trimmed_def)
  have eq: "w1 @ k @ w2 @ CHR ''='' # w3 @ v @ w4 =
      w1 @ (k @ w2 @ CHR ''='' # ?t) @ (if v = [] then w3 @ w4 else w4)" by simp
  show "strstrip (w1 @ k @ w2 @ CHR ''='' # w3 @ v @ w4) = k @ w2 @ CHR ''='' # ?t"
    unfolding eq by (rule strstrip_pad) (use assms tr in auto)
qed

theorem iniparser_line_value_witness:
  "iniparser_line True '' Port =  80 '' ''net'' ''old'' ''x'' = (LINE_VALUE, ''net'', ''port'', ''80'')"
proof -
  have k: "clean_key ''Port''" and v: "clean_value ''80''" by code_simp+
  from iniparser_line_value [OF k v, of "'' ''" "'' ''" "''  ''" "'' ''" "''net''" "''old''" "''x''"]
  moreover have "map tolower ''Port'' = ''port''" by code_simp
  ultimately show ?thesis by simp
qed


text \<open>
  Between quotes of either kind a non-empty value is taken literally, blanks and
  comment characters included, whatever text follows the closing quote.
\<close>

theorem iniparser_line_quoted:
  assumes "clean_key k" and "blank w2" "blank w3" and "c = DQ \<or> c = SQ"
    and "v \<noteq> []" and "c \<notin> set v" and "r = [] \<or> \<not> isspace (last r)"
  shows "iniparser_line True (k @ w2 @ CHR ''='' # w3 @ c # v @ c # r) sec key val =
    (LINE_VALUE, sec, map tolower k, v)"
proof (rule ini_quoted_line [OF assms(1-6)])
  have k: "k \<noteq> []" "trimmed k" using assms(1) by (auto simp: clean_key_def)
  have "trimmed (k @ w2 @ CHR ''='' # w3 @ c # v @ c # r)"
    using assms(4,7) by (intro trimmed_append [OF k(2,1)]) auto
  then show "strstrip (k @ w2 @ CHR ''='' # w3 @ c # v @ c # r) = k @ w2 @ CHR ''='' # w3 @ c # v @ c # r"
    by simp
qed

theorem iniparser_line_quoted_witness:
  "iniparser_line True (''a='' @ DQ # '' ; x '' @ DQ # ''; note'') [] [] [] = (LINE_VALUE, [], ''a'', '' ; x '')"
proof -
  have k: "clean_key ''a''" by code_simp
  have t: "map tolower ''a'' = ''a''" by code_simp
  have d: "DQ \<notin> set '' ; x ''" by code_simp
  have b: "''; note'' = [] \<or> \<not> isspace (last ''; note'')" by code_simp
  from iniparser_line_quoted [OF k _ _ _ _ d b, of "[]" "[]" "[]" "[]" "[]"] t show ?thesis by simp
qed

text \<open>
  An empty section header does not clear the section: \<^verbatim>\<open>sscanf\<close> assigns nothing, and
  the previous section name, trimmed and lower-cased, is cut to its first character by
  the length of the line.
\<close>

theorem iniparser_empty_section:
  "iniparser_line True ''[]'' sec key val = (LINE_SECTION, map tolower (take 1 (strstrip sec)), key, val)"
proof -
  have t: "strstrip ''[]'' = ''[]''" by (rule strstrip_trimmed) (simp add: trimmed_def)
  show ?thesis by (simp add: iniparser_line_def t fmt_section_def strlwc_def)
qed

text \<open>
  The typed accessors dereference NULL exactly on the entries that have no value,
  such as every section name: there they have no defined result, whatever the default.
\<close>

theorem iniparser_typed_null:
  assumes "dict_wf d" and "length k \<le> ASCIILINESZ"
  shows "(iniparser_getboolean (Some d) (Some k) notfound = None
      \<longleftrightarrow> dict_lookup d (map tolower k) = Some None) \<and>
    (iniparser_getlongint (Some d) (Some k) notfound = None
      \<longleftrightarrow> dict_lookup d (map tolower k) = Some None)"
proof (cases "dict_map d (map tolower k)")
  case (Some v)
  then show ?thesis
    using assms by (cases v) (simp_all add: iniparser_getboolean_def iniparser_getlongint_def
        iniparser_getstring_map dict_lookup_map Let_def)
qed (use assms in \<open>simp add: iniparser_getboolean_def iniparser_getlongint_def
        iniparser_getstring_map dict_lookup_map\<close>)

theorem iniparser_typed_null_witness:
  "iniparser_getboolean (Some sample_dict) (Some ''NET'') 0 = None"
proof -
  have "map tolower ''NET'' = ''net''" by code_simp
  moreover have "dict_lookup sample_dict ''net'' = Some None"
    by (simp add: dict_lookup_map sample_dict_wf sample_dict_entries flip: dict_entries_map)
  ultimately show ?thesis
    using iniparser_typed_null [OF sample_dict_wf, of "''NET''" 0] by (simp add: ASCIILINESZ_def)
qed

lemma seckeys_entries:
  assumes "dict_wf d" and "length s \<le> ASCIILINESZ"
  shows "seckeys d s = Some (map fst (section_entries d (map tolower s)))"
proof -
  let ?p = "in_section (map tolower s)"
  have "dict_scan (seckeys_slot (map tolower s @ '':'') (length s)) d 0 =
      Some (concat (map (\<lambda>e. if ?p (fst e) then [fst e] else []) (dict_entries d)))"
    by (rule dict_scan_entries [OF assms(1)]) (auto simp: seckeys_slot_def in_section_def)
  moreover have "concat (map (\<lambda>e. if ?p (fst e) then [fst e] else []) es) =
      map fst (filter (\<lambda>kv. ?p (fst kv)) es)" for es :: "(string \<times> string option) list"
    by (induction es) auto
  ultimately show ?thesis using assms(2) by (simp add: seckeys_def section_entries_def)
qed

text \<open>
  \<^verbatim>\<open>iniparser_getsecnkeys\<close> counts what \<^verbatim>\<open>iniparser_getseckeys\<close> writes: an array of that
  many pointers is filled exactly with the keys of the section, in the order of the
  slots, and a smaller one is overrun.
\<close>

theorem iniparser_getseckeys_count:
  assumes "dict_wf d" and "length s \<le> ASCIILINESZ" and "dict_lookup d (map tolower s) \<noteq> None"
    and "iniparser_getsecnkeys (Some d) (Some s) = Some n"
  shows "(int (length ks) = n \<longrightarrow>
       iniparser_getseckeys (Some d) (Some s) (Some ks) =
         Some (Some (map (Str \<circ> fst) (section_entries d (map tolower s))))) \<and>
     (int (length ks) < n \<longrightarrow> iniparser_getseckeys (Some d) (Some s) (Some ks) = None)"
proof -
  have "iniparser_find_entry (Some d) (Some s) = Some True"
    using assms(1-3) by (auto simp: iniparser_find_entry_map dict_lookup_map)
  then show ?thesis
    using assms(4) seckeys_entries [OF assms(1,2)]
    by (auto simp: iniparser_getsecnkeys_def iniparser_getseckeys_def)
qed

theorem iniparser_getseckeys_count_witness:
  "iniparser_getseckeys (Some sample_dict) (Some ''net'') (Some [Null]) = Some (Some [Str ''net:port''])"
proof -
  have l: "map tolower ''net'' = ''net''" by code_simp
  have m: "dict_lookup sample_dict ''net'' = Some None"
    by (simp add: dict_lookup_map sample_dict_wf sample_dict_entries flip: dict_entries_map)
  have e: "section_entries sample_dict ''net'' = [(''net:port'', Some ''80'')]"
    by (simp add: section_entries_def sample_dict_entries in_section_def)
  have n: "iniparser_getsecnkeys (Some sample_dict) (Some ''net'') = Some 1"
    using l m e seckeys_entries [OF sample_dict_wf, of "''net''"]
    by (simp add: iniparser_getsecnkeys_def iniparser_find_entry_map [OF sample_dict_wf] ASCIILINESZ_def
        dict_lookup_map [OF sample_dict_wf] domI)
  show ?thesis
    using iniparser_getseckeys_count [OF sample_dict_wf _ _ n, of "[Null]"] l m e
    by (simp add: ASCIILINESZ_def)
qed

end
