(* ===== verification/StringLib.thy ===== *)
theory StringLib
  imports Prelude
begin

text \<open>
  \<^verbatim>\<open>String-master/libString/String.c\<close>: a growable string in a heap block, with its length
  and capacity.

  The block is the list of its characters, so an access outside it is \<^term>\<open>None\<close>. A
  \<^verbatim>\<open>char *\<close> argument is a \<^typ>\<open>string option\<close> without embedded NUL. The outcome of a
  \<^verbatim>\<open>realloc\<close> is an argument: failure, or the indeterminate contents of the fresh bytes.
  Lengths, capacities and the results of the arithmetic on them are C \<^verbatim>\<open>int\<close>s: a sum that
  leaves their range is undefined (\<open>int_range\<close> gives \<^term>\<open>None\<close>), also where the code adds
  a \<^verbatim>\<open>size_t\<close> and stores it in an \<^verbatim>\<open>int\<close>. Two string arguments are distinct objects; where a function returns
  without effect on a NULL argument, the model takes the objects themselves.
\<close>

section \<open>Data and primitives\<close>

definition NUL :: char where "NUL = CHR 0x00"

record string_t =
  s_array :: "char list"
  s_length :: int
  s_capacity :: int

type_synonym fresh = "(nat \<Rightarrow> char) option"

text \<open>The value of an \<^verbatim>\<open>int\<close> expression, or \<^term>\<open>None\<close> when it overflows.\<close>

definition int_range :: "int \<Rightarrow> int option" where
  "int_range v = (if - (2 ^ 31) \<le> v \<and> v < 2 ^ 31 then Some v else None)"

lemma int_range_ok: "- (2 ^ 31) \<le> v \<Longrightarrow> v < 2 ^ 31 \<Longrightarrow> int_range v = Some v"
  by (simp add: int_range_def)

text \<open>\<^verbatim>\<open>realloc\<close> keeps the common prefix.\<close>

definition realloc :: "fresh \<Rightarrow> char list \<Rightarrow> int \<Rightarrow> char list option" where
  "realloc fresh a n =
     (case fresh of None \<Rightarrow> None
      | Some junk \<Rightarrow> Some (take (nat n) a @ map junk [length a..<nat n]))"

text \<open>The C string that starts a block: up to its first NUL, which must be in the block.\<close>

fun cstr_of :: "char list \<Rightarrow> string option" where
  "cstr_of [] = None"
| "cstr_of (c # cs) = (if c = NUL then Some [] else map_option ((#) c) (cstr_of cs))"

text \<open>A character of a C string argument, its NUL included.\<close>

definition arg_char :: "string \<Rightarrow> int \<Rightarrow> char option" where
  "arg_char s i = rd (s @ [NUL]) i"

fun copy_chars :: "char list \<Rightarrow> char list \<Rightarrow> int \<Rightarrow> int \<Rightarrow> nat \<Rightarrow> char list option" where
  "copy_chars dst src dpos spos 0 = Some dst"
| "copy_chars dst src dpos spos (Suc n) =
     do { c \<leftarrow> rd src spos;
          dst' \<leftarrow> wr dst dpos c;
          copy_chars dst' src (dpos + 1) (spos + 1) n }"

text \<open>Copy up to and including the NUL; the result also has the number of characters before it.\<close>

fun copy_walk :: "char list \<Rightarrow> char list \<Rightarrow> int \<Rightarrow> (char list \<times> int) option" where
  "copy_walk dst [] dpos = None"
| "copy_walk dst (c # cs) dpos =
     do { dst' \<leftarrow> wr dst dpos c;
          if c = NUL then Some (dst', dpos) else copy_walk dst' cs (dpos + 1) }"

section \<open>Construction\<close>

text \<open>The outcomes of the two allocations are arguments.\<close>

definition string_init :: "bool \<Rightarrow> bool \<Rightarrow> string_t option" where
  "string_init ok_array ok_struct =
     (if ok_array \<and> ok_struct
      then Some \<lparr>s_array = replicate 200 NUL, s_length = 0, s_capacity = 200\<rparr> else None)"

definition string_cust_init :: "bool \<Rightarrow> bool \<Rightarrow> int \<Rightarrow> string_t option" where
  "string_cust_init ok_array ok_struct initial_size =
     (if initial_size > 0 \<and> ok_array \<and> ok_struct
      then Some \<lparr>s_array = replicate (nat initial_size) NUL, s_length = 0, s_capacity = initial_size\<rparr>
      else None)"

section \<open>Comparison\<close>

fun equal_walk :: "char list \<Rightarrow> char list \<Rightarrow> bool \<Rightarrow> bool option" where
  "equal_walk (x # xs) (y # ys) r =
     (if x \<noteq> NUL \<and> y \<noteq> NUL then equal_walk xs ys (if x \<noteq> y then False else r) else Some r)"
| "equal_walk (x # xs) [] r = (if x = NUL then Some r else None)"
| "equal_walk [] ys r = None"

definition string_equal :: "string_t option \<Rightarrow> string_t option \<Rightarrow> bool option" where
  "string_equal str1 str2 =
     (case (str1, str2) of
        (Some a, Some b) \<Rightarrow>
          if s_length a = s_length b then equal_walk (s_array a) (s_array b) True else Some False
      | (None, None) \<Rightarrow> Some True
      | _ \<Rightarrow> Some False)"

fun equal_cstr_walk :: "char list \<Rightarrow> char list \<Rightarrow> bool option" where
  "equal_cstr_walk [] ys = None"
| "equal_cstr_walk (x # xs) ys =
     (if x = NUL then Some True
      else (case ys of [] \<Rightarrow> None | y # ys' \<Rightarrow> if x \<noteq> y then Some False else equal_cstr_walk xs ys'))"

definition string_equal_cstring :: "string_t option \<Rightarrow> string option \<Rightarrow> bool option" where
  "string_equal_cstring str1 str2 =
     (case (str1, str2) of
        (Some a, Some s) \<Rightarrow>
          if s_length a = int (length s) then equal_cstr_walk (s_array a) (s @ [NUL]) else Some False
      | _ \<Rightarrow> Some False)"

section \<open>Copy and concatenation\<close>

text \<open>Make room for \<open>need\<close> characters with a block of \<open>n\<close>; a failed \<^verbatim>\<open>realloc\<close> changes nothing.\<close>

definition grow_to :: "fresh \<Rightarrow> string_t \<Rightarrow> int \<Rightarrow> int \<Rightarrow> string_t option" where
  "grow_to fresh s need n =
     do { k \<leftarrow> int_range need;
          if s_capacity s < k
          then do { m \<leftarrow> int_range n;
                    Some (case realloc fresh (s_array s) m of
                            None \<Rightarrow> s
                          | Some a \<Rightarrow> s\<lparr>s_array := a, s_capacity := m\<rparr>) }
          else Some s }"

definition string_copy_sptr :: "fresh \<Rightarrow> string_t \<Rightarrow> string_t \<Rightarrow> string_t option" where
  "string_copy_sptr fresh dest source =
     (if s_length source > 0 then
        do { d \<leftarrow> grow_to fresh dest (s_length source + 1) (s_length source + 51);
             if s_capacity d \<ge> s_length source + 1
             then do { (a, n) \<leftarrow> copy_walk (s_array d) (s_array source) 0;
                       Some (d\<lparr>s_array := a, s_length := n\<rparr>) }
             else Some d }
      else Some dest)"

definition string_copy_cptr_sptr :: "fresh \<Rightarrow> string_t \<Rightarrow> string \<Rightarrow> string_t option" where
  "string_copy_cptr_sptr fresh dest source =
     (let n = int (length source) in
      if n > 0 then
        do { d \<leftarrow> grow_to fresh dest (n + 1) (n + 51);
             if s_capacity d \<ge> n + 1
             then do { a \<leftarrow> copy_chars (s_array d) source 0 0 (length source);
                       a' \<leftarrow> wr a (n + 1) NUL;
                       Some (d\<lparr>s_array := a', s_length := n\<rparr>) }
             else Some d }
      else Some dest)"

definition string_concat :: "fresh \<Rightarrow> string_t \<Rightarrow> string_t \<Rightarrow> string_t option" where
  "string_concat fresh str1 str2 =
     (if s_length str2 > 0 then
        (let n = s_length str1 + s_length str2
         in do { d \<leftarrow> grow_to fresh str1 (n + 2) (n + 52);
                 if s_capacity d \<ge> n + 2
                 then do { a \<leftarrow> copy_chars (s_array d) (s_array str2) (s_length str1) 0 (nat (s_length str2));
                           z \<leftarrow> rd (s_array str2) (s_length str2);
                           a' \<leftarrow> wr a n z;
                           Some (d\<lparr>s_array := a', s_length := n\<rparr>) }
                 else Some d })
      else Some str1)"

section \<open>Character classes\<close>

definition is_lower :: "char \<Rightarrow> bool" where
  "is_lower c \<longleftrightarrow> 97 \<le> (of_char c :: nat) \<and> (of_char c :: nat) \<le> 122"

definition is_upper :: "char \<Rightarrow> bool" where
  "is_upper c \<longleftrightarrow> 65 \<le> (of_char c :: nat) \<and> (of_char c :: nat) \<le> 90"

definition is_digit :: "char \<Rightarrow> bool" where
  "is_digit c \<longleftrightarrow> 48 \<le> (of_char c :: nat) \<and> (of_char c :: nat) \<le> 57"

definition is_letter :: "char \<Rightarrow> bool" where
  "is_letter c \<longleftrightarrow> is_lower c \<or> is_upper c"

definition up_char :: "char \<Rightarrow> char" where
  "up_char c = (if is_lower c then char_of ((of_char c :: nat) - 32) else c)"

definition low_char :: "char \<Rightarrow> char" where
  "low_char c = (if is_upper c then char_of ((of_char c :: nat) + 32) else c)"

text \<open>The loops that walk the array up to its NUL: rewriting it, or testing every character.\<close>

fun map_walk :: "(char \<Rightarrow> char) \<Rightarrow> char list \<Rightarrow> char list option" where
  "map_walk f [] = None"
| "map_walk f (c # cs) = (if c = NUL then Some (c # cs) else map_option ((#) (f c)) (map_walk f cs))"

fun all_walk :: "(char \<Rightarrow> bool) \<Rightarrow> char list \<Rightarrow> bool option" where
  "all_walk p [] = None"
| "all_walk p (c # cs) = (if c = NUL then Some True else if \<not> p c then Some False else all_walk p cs)"

definition string_tolower :: "string_t \<Rightarrow> string_t option" where
  "string_tolower s =
     (if s_length s > 0 then do { a \<leftarrow> map_walk low_char (s_array s); Some (s\<lparr>s_array := a\<rparr>) } else Some s)"

definition string_toupper :: "string_t \<Rightarrow> string_t option" where
  "string_toupper s =
     (if s_length s > 0 then do { a \<leftarrow> map_walk up_char (s_array s); Some (s\<lparr>s_array := a\<rparr>) } else Some s)"

definition string_isalpha :: "string_t option \<Rightarrow> bool option" where
  "string_isalpha sp =
     (case sp of None \<Rightarrow> Some True
      | Some s \<Rightarrow> if s_length s > 0 then all_walk is_letter (s_array s) else Some True)"

definition string_isalphanum :: "string_t option \<Rightarrow> bool option" where
  "string_isalphanum sp =
     (case sp of None \<Rightarrow> Some False
      | Some s \<Rightarrow>
         if s_length s > 0 then all_walk (\<lambda>c. is_letter c \<or> is_digit c) (s_array s) else Some False)"

definition string_isnonalpha :: "string_t option \<Rightarrow> bool option" where
  "string_isnonalpha sp =
     (case sp of None \<Rightarrow> Some True
      | Some s \<Rightarrow> if s_length s > 0 then all_walk (\<lambda>c. \<not> is_letter c) (s_array s) else Some True)"

text \<open>Removal shifts the rest of the string, its NUL included, one place down.\<close>

fun shift_down :: "char list \<Rightarrow> int \<Rightarrow> nat \<Rightarrow> char list option" where
  "shift_down a i 0 = Some a"
| "shift_down a i (Suc n) =
     do { c \<leftarrow> rd a (i + 1); a' \<leftarrow> wr a i c; shift_down a' (i + 1) n }"

function remove_from :: "char list \<Rightarrow> int \<Rightarrow> int \<Rightarrow> (char list \<times> int) option" where
  "remove_from a len pos =
     (if pos < len then
        do { c \<leftarrow> rd a pos;
             if \<not> is_letter c
             then do { a' \<leftarrow> shift_down a pos (nat (len - pos)); remove_from a' (len - 1) pos }
             else remove_from a len (pos + 1) }
      else Some (a, len))"
  by pat_completeness auto
termination by (relation "measure (\<lambda>(a, len, pos). nat (len - pos))") auto

declare remove_from.simps [simp del]

definition string_remove_nonalpha :: "string_t \<Rightarrow> string_t option" where
  "string_remove_nonalpha s =
     (if s_length s > 0
      then do { (a, n) \<leftarrow> remove_from (s_array s) (s_length s) 0;
                Some (s\<lparr>s_array := a, s_length := n\<rparr>) }
      else Some s)"

section \<open>Integers\<close>

text \<open>The second loop of \<^verbatim>\<open>string_is_int\<close> looks for a sign after the first character.\<close>

definition string_is_int :: "string_t option \<Rightarrow> bool option" where
  "string_is_int sp =
     (case sp of None \<Rightarrow> Some False
      | Some s \<Rightarrow>
         if s_length s > 0 then
           do { r1 \<leftarrow> all_walk (\<lambda>c. is_digit c \<or> c = CHR ''-'') (s_array s);
                r2 \<leftarrow> all_walk (\<lambda>c. c \<noteq> CHR ''-'') (tl (s_array s));
                Some (r1 \<and> r2) }
         else Some False)"

text \<open>
  The conversion loop: \<^verbatim>\<open>(int)pow(10, k)\<close> is \<open>0\<close> for a negative exponent; a power or a sum
  outside \<^verbatim>\<open>int\<close> is undefined.
\<close>

fun toint_walk :: "char list \<Rightarrow> int \<Rightarrow> int \<Rightarrow> int option" where
  "toint_walk [] e acc = None"
| "toint_walk (c # cs) e acc =
     (if c = NUL then Some acc
      else do { p \<leftarrow> int_range (if e < 0 then 0 else 10 ^ nat e);
                t \<leftarrow> int_range ((schar c - 48) * p);
                acc' \<leftarrow> int_range (acc + t);
                toint_walk cs (e - 1) acc' })"

definition string_toint :: "string_t option \<Rightarrow> int option" where
  "string_toint sp =
     (case sp of None \<Rightarrow> Some (-1)
      | Some s \<Rightarrow>
         if s_length s > 0 then
           do { b \<leftarrow> string_is_int sp;
                if b then do { t \<leftarrow> cstr_of (s_array s);
                               toint_walk (s_array s) (int (length t) - 1) 0 }
                else Some (-3) }
         else Some (-2))"


section \<open>Ranges and slices\<close>

definition string_copy_range :: "fresh \<Rightarrow> string_t \<Rightarrow> string_t \<Rightarrow> int \<Rightarrow> int \<Rightarrow> string_t option" where
  "string_copy_range fresh dest source src_strt_idx num_to_copy =
     (if s_length source > 0 \<and> src_strt_idx \<ge> 0 \<and> src_strt_idx < s_length source - 1 \<and> num_to_copy > 0
      then
        (let n = (if num_to_copy > s_length source - src_strt_idx
                  then s_length source - src_strt_idx else num_to_copy);
             fill = (\<lambda>d. do { a \<leftarrow> copy_chars (s_array d) (s_array source) 0 src_strt_idx (nat n);
                              a' \<leftarrow> wr a n NUL;
                              Some (d\<lparr>s_array := a', s_length := n\<rparr>) })
         in if n \<le> s_capacity dest then fill dest
            else do { m \<leftarrow> int_range (n + 51);
                      case realloc fresh (s_array dest) m of
                        None \<Rightarrow> Some dest
                      | Some a \<Rightarrow> fill (dest\<lparr>s_array := a, s_capacity := m\<rparr>) })
      else Some dest)"

text \<open>
  \<^verbatim>\<open>string_get_slice\<close> first fixes the size of the new string and the range, then copies;
  an outer \<^term>\<open>Some None\<close> is the NULL it returns.
\<close>

definition slice_range :: "int \<Rightarrow> int \<Rightarrow> int \<Rightarrow> (int \<times> int \<times> int) option" where
  "slice_range len b e =
     (if b \<ge> 0 \<and> b < len then
        (if e > 0 \<and> e \<le> len then (if b < e then Some (e - b + 1, b, e - 1) else None)
         else if e = -1 then Some (len - b + 1, b, len - 1) else None)
      else if b = -1 \<and> e = -1 then Some (len + 1, 0, len - 1) else None)"

definition string_get_slice ::
  "bool \<Rightarrow> bool \<Rightarrow> fresh \<Rightarrow> string_t option \<Rightarrow> int \<Rightarrow> int \<Rightarrow> string_t option option" where
  "string_get_slice ok_array ok_struct fresh source b e =
     (case source of None \<Rightarrow> Some None
      | Some s \<Rightarrow>
         if s_length s > 0 then
           (case slice_range (s_length s) b e of None \<Rightarrow> Some None
            | Some (sz, b', e') \<Rightarrow>
                do { k \<leftarrow> int_range sz;
                     case string_cust_init ok_array ok_struct k of None \<Rightarrow> Some None
                     | Some d \<Rightarrow> do { r \<leftarrow> string_copy_range fresh d s b' (e' - b' + 1); Some (Some r) } })
         else Some None)"

definition string_set_range :: "string_t \<Rightarrow> string \<Rightarrow> int \<Rightarrow> int \<Rightarrow> string_t option" where
  "string_set_range dest repl start_pos end_pos =
     (if start_pos \<ge> 0 \<and> start_pos < s_length dest \<and> end_pos \<ge> 0 \<and> end_pos < s_length dest then
        (if start_pos < end_pos then
           (let count = (if int (length repl) > end_pos - start_pos + 1
                         then end_pos - start_pos + 1 else int (length repl))
            in do { a \<leftarrow> copy_chars (s_array dest) repl start_pos 0 (nat count);
                    Some (dest\<lparr>s_array := a\<rparr>) })
         else if start_pos = end_pos then
           do { c \<leftarrow> arg_char repl 0; a \<leftarrow> wr (s_array dest) start_pos c; Some (dest\<lparr>s_array := a\<rparr>) }
         else Some dest)
      else Some dest)"

section \<open>Search and replacement\<close>

text \<open>
  The inner loop compares after a first match; the result is whether it ended without a
  mismatch, and the two positions (\<^verbatim>\<open>str_to_find_pos\<close> is reset by a mismatch).
\<close>

function find_inner :: "char list \<Rightarrow> int \<Rightarrow> string \<Rightarrow> int \<Rightarrow> int \<Rightarrow> (bool \<times> int) option" where
  "find_inner a len f sp fp =
     (if fp < int (length f) \<and> sp < len then
        do { c \<leftarrow> rd a sp; x \<leftarrow> arg_char f fp;
             if c \<noteq> x then Some (False, sp) else find_inner a len f (sp + 1) (fp + 1) }
      else Some (True, sp))"
  by pat_completeness auto
termination by (relation "measure (\<lambda>(a, len, f, sp, fp). nat (len - sp))") auto

declare find_inner.simps [simp del]

lemma find_inner_ge: "find_inner a len f sp fp = Some (m, sp') \<Longrightarrow> sp \<le> sp'"
proof (induction a len f sp fp rule: find_inner.induct)
  case (1 a len f sp fp)
  from 1(2) show ?case
    by (subst (asm) find_inner.simps)
      (use 1(1) in \<open>force simp: Option.bind_eq_Some_conv split: if_splits\<close>)
qed

text \<open>After a mismatch the search goes on behind the mismatching character.\<close>

function find_outer :: "char list \<Rightarrow> int \<Rightarrow> string \<Rightarrow> int \<Rightarrow> int option" where
  "find_outer a len f sp =
     (if sp < len then
        do { c \<leftarrow> rd a sp; x \<leftarrow> arg_char f 0;
             if c = x then
               do { (m, sp') \<leftarrow> find_inner a len f (sp + 1) 1;
                    if m then Some sp else find_outer a len f (sp' + 1) }
             else find_outer a len f (sp + 1) }
      else Some (-1))"
  by pat_completeness auto
termination
  by (relation "measure (\<lambda>(a, len, f, sp). nat (len - sp))") (auto dest!: find_inner_ge)

declare find_outer.simps [simp del]

definition string_find_cstr :: "string_t option \<Rightarrow> string option \<Rightarrow> int \<Rightarrow> int option" where
  "string_find_cstr sp fp start =
     (case (sp, fp) of
        (Some s, Some f) \<Rightarrow>
          if start \<ge> 0 \<and> start < s_length s \<and> f \<noteq> [] \<and> s_length s > 0
          then find_outer (s_array s) (s_length s) f start
          else Some (-1)
      | _ \<Rightarrow> Some (-1))"

definition string_in :: "string_t option \<Rightarrow> string option \<Rightarrow> bool option" where
  "string_in sp fp =
     (case (sp, fp) of
        (Some s, Some f) \<Rightarrow>
          if s_length s > 0 \<and> f \<noteq> [] then do { r \<leftarrow> string_find_cstr sp fp 0; Some (r \<ge> 0) } else Some False
      | _ \<Rightarrow> Some False)"

fun shift_up :: "char list \<Rightarrow> int \<Rightarrow> int \<Rightarrow> nat \<Rightarrow> char list option" where
  "shift_up a i d 0 = Some a"
| "shift_up a i d (Suc n) =
     do { c \<leftarrow> rd a i; a' \<leftarrow> wr a (i + d) c; shift_up a' (i - 1) d n }"

fun shift_by :: "char list \<Rightarrow> int \<Rightarrow> int \<Rightarrow> nat \<Rightarrow> char list option" where
  "shift_by a i d 0 = Some a"
| "shift_by a i d (Suc n) =
     do { c \<leftarrow> rd a (i + d); a' \<leftarrow> wr a i c; shift_by a' (i + 1) d n }"

text \<open>The static variables of \<^verbatim>\<open>string_replace\<close>; arguments are identified by their addresses.\<close>

record replace_state =
  rs_pos :: int
  rs_dest :: ptr
  rs_find :: ptr
  rs_repl :: ptr

text \<open>
  The body once an occurrence is found at \<open>p\<close>. The block that \<^verbatim>\<open>realloc\<close> returns is not
  stored: when it succeeds the old array is gone, which is the empty block here.
\<close>

definition replace_at :: "bool \<Rightarrow> string_t \<Rightarrow> string \<Rightarrow> string \<Rightarrow> int \<Rightarrow> (string_t \<times> bool) option" where
  "replace_at realloc_ok dest f r p =
     (let lf = int (length f); lr = int (length r); diff = \<bar>lf - lr\<bar>; stop = p + lr - 1 in
      if lr > lf then
        do { n \<leftarrow> int_range (s_length dest + diff);
             m \<leftarrow> (if n > s_capacity dest then int_range (s_capacity dest + diff + 50) else Some 0);
             (let moved = (n > s_capacity dest \<and> realloc_ok);
                  d = (if moved then dest\<lparr>s_array := [], s_capacity := m\<rparr> else dest)
              in if moved \<or> n \<le> s_capacity dest then
                   do { a \<leftarrow> shift_up (s_array d) (s_length dest - 1) diff (nat (s_length dest - (p + lf)));
                        d' \<leftarrow> string_set_range (d\<lparr>s_array := a, s_length := n\<rparr>) r p stop;
                        Some (d', True) }
                 else Some (dest, False)) }
      else if lr < lf then
        do { a \<leftarrow> shift_by (s_array dest) (p + lr) diff (nat (s_length dest - 1 - (p + lr)));
             d' \<leftarrow> string_set_range (dest\<lparr>s_array := a, s_length := s_length dest - diff\<rparr>) r p stop;
             Some (d', True) }
      else do { d' \<leftarrow> string_set_range dest r p stop; Some (d', True) })"

definition string_replace ::
  "bool \<Rightarrow> replace_state \<Rightarrow> (addr \<times> string_t) option \<Rightarrow> (addr \<times> string) option \<Rightarrow>
    (addr \<times> string) option \<Rightarrow> (replace_state \<times> string_t option \<times> bool) option" where
  "string_replace realloc_ok st0 destp findp replp =
     (let same = \<lparr>rs_pos = rs_pos st0, rs_dest = map_option fst destp,
                  rs_find = map_option fst findp, rs_repl = map_option fst replp\<rparr>;
          st = (if rs_dest st0 = None \<and> rs_find st0 = None \<and> rs_repl st0 = None then same else st0)
      in case (destp, findp, replp) of
           (Some (_, dest), Some (_, f), Some (_, r)) \<Rightarrow>
             if s_length dest > 0 \<and> f \<noteq> [] \<and> r \<noteq> [] then
               (let st1 = (if rs_dest same \<noteq> rs_dest st \<or> rs_find same \<noteq> rs_find st \<or> rs_repl same \<noteq> rs_repl st
                           then same\<lparr>rs_pos := 0\<rparr> else st)
                in do { p \<leftarrow> string_find_cstr (Some dest) (Some f) (rs_pos st1);
                        if p > -1
                        then do { (d, b) \<leftarrow> replace_at realloc_ok dest f r p;
                                  Some (st1\<lparr>rs_pos := p + 1\<rparr>, Some d, b) }
                        else Some (st1\<lparr>rs_pos := p + 1\<rparr>, Some dest, False) })
             else Some (st, Some dest, False)
         | _ \<Rightarrow> Some (st, map_option snd destp, False))"

section \<open>Input\<close>

definition write_block :: "char list \<Rightarrow> string \<Rightarrow> char list option" where
  "write_block a s = (if length s < length a then Some (s @ NUL # drop (length s + 1) a) else None)"

text \<open>The length is set to the requested count, whatever was read.\<close>

definition string_fgets :: "fresh \<Rightarrow> string_t \<Rightarrow> int \<Rightarrow> string \<Rightarrow> (string_t \<times> string) option" where
  "string_fgets fresh dest len strm =
     (if len > 0 then
        (let get = (\<lambda>d. case fgets (nat len) strm of
                          None \<Rightarrow> Some (d\<lparr>s_length := len\<rparr>, strm)
                        | Some (s, rest, _) \<Rightarrow>
                            do { a \<leftarrow> write_block (s_array d) s; Some (d\<lparr>s_array := a, s_length := len\<rparr>, rest) })
         in do { k \<leftarrow> int_range (len + 2);
                 if k \<le> s_capacity dest then get dest
                 else do { m \<leftarrow> int_range (len + 52);
                           case realloc fresh (s_array dest) m of
                             None \<Rightarrow> Some (dest, strm)
                           | Some a \<Rightarrow> get (dest\<lparr>s_array := a, s_capacity := m\<rparr>) } })
      else Some (dest, strm))"

text \<open>\<^verbatim>\<open>strncat(buffer, &c, 1)\<close>.\<close>

definition strncat1 :: "char list \<Rightarrow> char \<Rightarrow> char list option" where
  "strncat1 buf c =
     do { t \<leftarrow> cstr_of buf;
          if c = NUL then Some buf
          else do { b \<leftarrow> wr buf (int (length t)) c; wr b (int (length t) + 1) NUL } }"

text \<open>
  The reading loop: \<^verbatim>\<open>getc\<close> at the end of the input gives -1 for ever. The result is the
  buffer (\<^term>\<open>None\<close> when it could not grow) and what is left of the input.
\<close>

definition getc :: "string \<Rightarrow> char \<times> string" where
  "getc s = (case s of [] \<Rightarrow> (CHR 0xFF, []) | c # r \<Rightarrow> (c, r))"

partial_function (option) scan_loop ::
  "(int \<Rightarrow> fresh) \<Rightarrow> char list \<Rightarrow> int \<Rightarrow> char \<Rightarrow> string \<Rightarrow> (char list option \<times> string) option" where
  "scan_loop re buf len c inp =
     (if c = CHR 0x0A then Some (Some buf, inp)
      else if len = int (length buf) then
        do { m \<leftarrow> int_range (int (length buf) + 50);
             case realloc (re len) buf m of
               None \<Rightarrow> Some (None, inp)
             | Some b \<Rightarrow> do { b' \<leftarrow> strncat1 b c;
                              scan_loop re b' (len + 1) (fst (getc inp)) (snd (getc inp)) } }
      else do { b' \<leftarrow> strncat1 buf c;
                scan_loop re b' (len + 1) (fst (getc inp)) (snd (getc inp)) })"

definition string_scan2_s ::
  "bool \<Rightarrow> (int \<Rightarrow> fresh) \<Rightarrow> fresh \<Rightarrow> string_t \<Rightarrow> string \<Rightarrow> (string_t \<times> string) option" where
  "string_scan2_s ok re fresh dest inp =
     (let (c, inp') = getc inp in
      if ok then
        do { (b, rest) \<leftarrow> scan_loop re (replicate 200 NUL) 0 c inp';
             case b of None \<Rightarrow> Some (dest, rest)
             | Some buf \<Rightarrow> do { t \<leftarrow> cstr_of buf; d \<leftarrow> string_copy_cptr_sptr fresh dest t; Some (d, rest) } }
      else Some (dest, inp'))"


section \<open>Invariant and contents\<close>

text \<open>
  A well formed string: the capacity is the size of the block, an \<^verbatim>\<open>int\<close>, the length is
  inside it, the character there is the first NUL.
\<close>

definition str_wf :: "string_t \<Rightarrow> bool" where
  "str_wf s \<longleftrightarrow> s_capacity s = int (length (s_array s)) \<and> s_capacity s < 2 ^ 31 \<and> 0 \<le> s_length s \<and>
     s_length s < s_capacity s \<and> s_array s ! nat (s_length s) = NUL \<and>
     NUL \<notin> set (take (nat (s_length s)) (s_array s))"

definition contents :: "string_t \<Rightarrow> string" where
  "contents s = take (nat (s_length s)) (s_array s)"

lemma str_wfE:
  assumes "str_wf s"
  obtains t r where "s_array s = t @ NUL # r" "s_length s = int (length t)" "NUL \<notin> set t"
    "contents s = t" "s_capacity s = int (length t + 1 + length r)" "s_capacity s < 2 ^ 31"
proof -
  let ?n = "nat (s_length s)"
  have "?n < length (s_array s)" using assms by (auto simp: str_wf_def)
  then have "s_array s = take ?n (s_array s) @ s_array s ! ?n # drop (Suc ?n) (s_array s)"
    by (rule id_take_nth_drop)
  then show thesis
    using assms by (intro that [of "take ?n (s_array s)" "drop (Suc ?n) (s_array s)"])
      (auto simp: str_wf_def contents_def min_def)
qed

lemma str_wfI:
  "s_array s = t @ NUL # r \<Longrightarrow> s_length s = int (length t) \<Longrightarrow> NUL \<notin> set t \<Longrightarrow>
   s_capacity s = int (length (s_array s)) \<Longrightarrow> s_capacity s < 2 ^ 31 \<Longrightarrow> str_wf s \<and> contents s = t"
  by (auto simp: str_wf_def contents_def)

lemma cstr_of_block: "NUL \<notin> set t \<Longrightarrow> cstr_of (t @ NUL # r) = Some t"
  by (induction t) auto

lemma copy_chars_block:
  "spos + n \<le> length src \<Longrightarrow> dpos + n \<le> length dst \<Longrightarrow>
   copy_chars dst src (int dpos) (int spos) n =
     Some (take dpos dst @ take n (drop spos src) @ drop (dpos + n) dst)"
proof (induction n arbitrary: dst dpos spos)
  case (Suc n)
  have ii: "int dpos + 1 = int (Suc dpos)" "int spos + 1 = int (Suc spos)" by simp_all
  have "copy_chars dst src (int dpos) (int spos) (Suc n) =
      copy_chars (dst[dpos := src ! spos]) src (int (Suc dpos)) (int (Suc spos)) n"
    using Suc.prems by (simp add: ii del: of_nat_Suc)
  also have "\<dots> = Some (take (Suc dpos) (dst[dpos := src ! spos]) @ take n (drop (Suc spos) src)
      @ drop (Suc dpos + n) (dst[dpos := src ! spos]))"
    using Suc.prems by (intro Suc.IH) auto
  also have "take (Suc dpos) (dst[dpos := src ! spos]) = take dpos dst @ [src ! spos]"
    using Suc.prems by (simp add: take_Suc_conv_app_nth)
  finally show ?case
    using Suc.prems by (simp add: Cons_nth_drop_Suc [symmetric])
qed simp

lemma copy_walk_block:
  "NUL \<notin> set t \<Longrightarrow> dpos + length t + 1 \<le> length dst \<Longrightarrow>
   copy_walk dst (t @ NUL # r) (int dpos) =
     Some (take dpos dst @ t @ NUL # drop (dpos + length t + 1) dst, int (dpos + length t))"
proof (induction t arbitrary: dst dpos)
  case Nil
  then show ?case by (simp add: upd_conv_take_nth_drop)
next
  case (Cons c t)
  have ii: "int dpos + 1 = int (Suc dpos)" by simp
  have "copy_walk dst ((c # t) @ NUL # r) (int dpos) =
      copy_walk (dst[dpos := c]) (t @ NUL # r) (int (Suc dpos))"
    using Cons.prems by (auto simp: ii simp del: of_nat_Suc)
  also have "\<dots> = Some (take (Suc dpos) (dst[dpos := c]) @ t @ NUL # drop (Suc dpos + length t + 1)
      (dst[dpos := c]), int (Suc dpos + length t))"
    using Cons.prems by (intro Cons.IH) auto
  finally show ?case using Cons.prems by (simp add: take_Suc_conv_app_nth)
qed

lemma map_walk_block: "NUL \<notin> set t \<Longrightarrow> map_walk f (t @ NUL # r) = Some (map f t @ NUL # r)"
  by (induction t) auto

lemma all_walk_block: "NUL \<notin> set t \<Longrightarrow> all_walk p (t @ NUL # r) = Some (list_all p t)"
  by (induction t) auto

lemma shift_down_block:
  "i + n < length a \<Longrightarrow>
   shift_down a (int i) n = Some (take i a @ take n (drop (Suc i) a) @ drop (i + n) a)"
proof (induction n arbitrary: a i)
  case (Suc n)
  have ii: "int i + 1 = int (Suc i)" by simp
  have "shift_down a (int i) (Suc n) = shift_down (a[i := a ! Suc i]) (int (Suc i)) n"
    using Suc.prems by (simp add: ii del: of_nat_Suc)
  also have "\<dots> = Some (take (Suc i) (a[i := a ! Suc i]) @ take n (drop (Suc (Suc i)) (a[i := a ! Suc i]))
      @ drop (Suc i + n) (a[i := a ! Suc i]))"
    using Suc.prems by (intro Suc.IH) auto
  finally show ?case
    using Suc.prems by (simp add: take_Suc_conv_app_nth Cons_nth_drop_Suc [symmetric])
qed simp

lemma remove_from_block:
  "\<exists>r'. remove_from (u @ t @ NUL # r) (int (length u + length t)) (int (length u)) =
     Some (u @ filter is_letter t @ NUL # r', int (length u + length (filter is_letter t))) \<and>
     length (filter is_letter t) + length r' = length t + length r"
proof (induction t arbitrary: u r)
  case Nil
  then show ?case by (subst remove_from.simps) simp
next
  case (Cons c t)
  let ?a = "u @ (c # t) @ NUL # r"
  have at: "rd ?a (int (length u)) = Some c" by (subst rd_of_nat) auto
  show ?case
  proof (cases "is_letter c")
    case True
    then have "remove_from ?a (int (length u + length (c # t))) (int (length u)) =
        remove_from ((u @ [c]) @ t @ NUL # r) (int (length (u @ [c]) + length t)) (int (length (u @ [c])))"
      using at by (subst remove_from.simps) (simp add: add.commute)
    then show ?thesis using Cons.IH [of "u @ [c]" r] True by auto
  next
    case False
    have n: "nat (int (length u + length (c # t)) - int (length u)) = Suc (length t)" by simp
    have "shift_down ?a (int (length u)) (Suc (length t)) = Some (u @ t @ NUL # NUL # r)"
      by (subst shift_down_block) simp_all
    note sh = this [folded n]
    have "remove_from ?a (int (length u + length (c # t))) (int (length u)) =
        remove_from (u @ t @ NUL # NUL # r) (int (length u + length t)) (int (length u))"
      using at False sh by (subst remove_from.simps) (simp del: shift_down.simps)
    then show ?thesis using Cons.IH [of u "NUL # r"] False by auto
  qed
qed

lemma grow_to_ok:
  assumes "s_capacity s = int (length (s_array s))" and "s_capacity s < 2 ^ 31" and "fresh \<noteq> None"
    and "0 \<le> need" and "need \<le> n" and "n < 2 ^ 31"
  obtains d where "grow_to fresh s need n = Some d" "s_capacity d = int (length (s_array d))"
    "s_capacity d < 2 ^ 31" "need \<le> s_capacity d" "s_length d = s_length s"
    "\<And>k. k \<le> length (s_array s) \<Longrightarrow> take k (s_array d) = take k (s_array s)"
proof -
  obtain junk where junk: "fresh = Some junk" using assms(3) by blast
  have k: "int_range need = Some need" "int_range n = Some n"
    using assms(4-6) by (simp_all add: int_range_ok)
  let ?a = "take (nat n) (s_array s) @ map junk [length (s_array s)..<nat n]"
  show thesis
  proof (cases "s_capacity s < need")
    case True
    have "grow_to fresh s need n = Some (s\<lparr>s_array := ?a, s_capacity := n\<rparr>)"
      using True k junk by (simp add: grow_to_def realloc_def)
    from that [OF this] show thesis using True assms(1,4-6) by (simp add: min_def)
  next
    case False
    then have "grow_to fresh s need n = Some s" using k by (simp add: grow_to_def)
    from that [OF this] show thesis using False assms(1,2) by simp
  qed
qed


section \<open>Queries and in-place operations\<close>

lemma string_init_wf: "string_init True True = Some s \<Longrightarrow> str_wf s \<and> contents s = []"
  by (auto simp: string_init_def str_wf_def contents_def)

lemma string_cust_init_wf:
  "string_cust_init True True n = Some s \<Longrightarrow> n < 2 ^ 31 \<Longrightarrow> str_wf s \<and> contents s = [] \<and> s_capacity s = n"
  by (auto simp: string_cust_init_def str_wf_def contents_def split: if_splits)

lemma str_length_contents: "str_wf s \<Longrightarrow> s_length s = int (length (contents s))"
  by (auto elim!: str_wfE)

lemma string_case_ops:
  assumes "str_wf s"
  shows "\<exists>s'. string_tolower s = Some s' \<and> str_wf s' \<and> contents s' = map low_char (contents s)"
    and "\<exists>s'. string_toupper s = Some s' \<and> str_wf s' \<and> contents s' = map up_char (contents s)"
proof -
  have nz: "low_char c \<noteq> NUL" "up_char c \<noteq> NUL" if "c \<noteq> NUL" for c
    using that of_char_mod_256 [where 'a = nat, of c]
    by (auto simp: low_char_def up_char_def is_upper_def is_lower_def NUL_def char_of_eq_iff take_bit_eq_mod)
  from assms obtain t r where s: "s_array s = t @ NUL # r" "s_length s = int (length t)" "NUL \<notin> set t"
    "contents s = t" "s_capacity s = int (length t + 1 + length r)" "s_capacity s < 2 ^ 31" by (rule str_wfE)
  have "NUL \<notin> low_char ` set t" "NUL \<notin> up_char ` set t" using nz s(3) by (metis imageE)+
  then show "\<exists>s'. string_tolower s = Some s' \<and> str_wf s' \<and> contents s' = map low_char (contents s)"
    and "\<exists>s'. string_toupper s = Some s' \<and> str_wf s' \<and> contents s' = map up_char (contents s)"
    using s assms str_wfI [of "s\<lparr>s_array := map low_char t @ NUL # r\<rparr>" "map low_char t" r]
      str_wfI [of "s\<lparr>s_array := map up_char t @ NUL # r\<rparr>" "map up_char t" r]
    by (auto simp: string_tolower_def string_toupper_def map_walk_block)
qed

lemma string_class_tests:
  assumes "str_wf s"
  shows "string_isalpha (Some s) = Some (list_all is_letter (contents s))"
    and "string_isalphanum (Some s) = Some (contents s \<noteq> [] \<and> list_all (\<lambda>c. is_letter c \<or> is_digit c) (contents s))"
    and "string_isnonalpha (Some s) = Some (list_all (\<lambda>c. \<not> is_letter c) (contents s))"
  using assms
  by (auto elim!: str_wfE simp: string_isalpha_def string_isalphanum_def string_isnonalpha_def all_walk_block)

lemma string_is_int_contents:
  assumes "str_wf s"
  shows "string_is_int (Some s) = Some (contents s \<noteq> [] \<and>
    list_all (\<lambda>c. is_digit c \<or> c = CHR ''-'') (contents s) \<and> CHR ''-'' \<notin> set (tl (contents s)))"
proof -
  from assms obtain t r where s: "s_array s = t @ NUL # r" "s_length s = int (length t)" "NUL \<notin> set t"
    "contents s = t" by (rule str_wfE)
  show ?thesis
  proof (cases t)
    case (Cons c u)
    then have "all_walk (\<lambda>c. c \<noteq> CHR ''-'') (u @ NUL # r) = Some (list_all (\<lambda>c. c \<noteq> CHR ''-'') u)"
      using s(3) by (simp add: all_walk_block)
    then show ?thesis
      using s Cons all_walk_block [OF s(3), of "\<lambda>c. is_digit c \<or> c = CHR ''-''" r]
      by (auto simp: string_is_int_def list_all_iff simp del: all_walk.simps)
  qed (use s in \<open>simp add: string_is_int_def\<close>)
qed

lemma equal_walk_blocks:
  "NUL \<notin> set t \<Longrightarrow> NUL \<notin> set t' \<Longrightarrow> length t = length t' \<Longrightarrow>
   equal_walk (t @ NUL # r) (t' @ NUL # r') b = Some (b \<and> t = t')"
proof (induction t t' arbitrary: b rule: list_induct2')
  case (4 x xs y ys)
  then show ?case by auto
qed simp_all

lemma string_equal_contents:
  "str_wf s \<Longrightarrow> str_wf s' \<Longrightarrow> string_equal (Some s) (Some s') = Some (contents s = contents s')"
  by (auto elim!: str_wfE simp: string_equal_def equal_walk_blocks)

section \<open>Growing\<close>

text \<open>Copy and concatenation end by writing a block and its NUL into a grown array.\<close>

lemma string_copy_sptr_contents:
  assumes "str_wf dest" and "str_wf source" and "fresh \<noteq> None" and "s_length source + 51 < 2 ^ 31"
  shows "\<exists>d. string_copy_sptr fresh dest source = Some d \<and> str_wf d \<and>
    contents d = (if contents source = [] then contents dest else contents source)"
proof -
  from assms(2) obtain t r where s: "s_array source = t @ NUL # r" "s_length source = int (length t)"
    "NUL \<notin> set t" "contents source = t" by (rule str_wfE)
  have cap: "s_capacity dest = int (length (s_array dest))" "s_capacity dest < 2 ^ 31"
    using assms(1) by (simp_all add: str_wf_def)
  show ?thesis
  proof (cases "t = []")
    case True
    then show ?thesis using s assms by (simp add: string_copy_sptr_def)
  next
    case False
    obtain d where d: "grow_to fresh dest (s_length source + 1) (s_length source + 51) = Some d"
      "s_capacity d = int (length (s_array d))" "s_capacity d < 2 ^ 31" "int (length t) + 1 \<le> s_capacity d"
      by (rule grow_to_ok [OF cap assms(3), of "s_length source + 1" "s_length source + 51"])
        (use s(2) assms(4) in simp_all)
    have "string_copy_sptr fresh dest source =
        Some (d\<lparr>s_array := t @ NUL # drop (length t + 1) (s_array d), s_length := int (length t)\<rparr>)"
      using False d s copy_walk_block [OF s(3), of 0 "s_array d" r]
      unfolding string_copy_sptr_def d(1) by simp
    then show ?thesis
      using str_wfI [of "d\<lparr>s_array := t @ NUL # drop (length t + 1) (s_array d), s_length := int (length t)\<rparr>"
          t "drop (length t + 1) (s_array d)"] d s False by auto
  qed
qed

lemma string_concat_contents:
  assumes "str_wf s1" and "str_wf s2" and "fresh \<noteq> None" and "s_length s1 + s_length s2 + 52 < 2 ^ 31"
  shows "\<exists>d. string_concat fresh s1 s2 = Some d \<and> str_wf d \<and> contents d = contents s1 @ contents s2"
proof -
  from assms(1) obtain t1 r1 where s1: "s_array s1 = t1 @ NUL # r1" "s_length s1 = int (length t1)"
    "NUL \<notin> set t1" "contents s1 = t1" "s_capacity s1 = int (length t1 + 1 + length r1)" by (rule str_wfE)
  from assms(2) obtain t r where s: "s_array s2 = t @ NUL # r" "s_length s2 = int (length t)"
    "NUL \<notin> set t" "contents s2 = t" by (rule str_wfE)
  show ?thesis
  proof (cases "t = []")
    case True
    then show ?thesis using s assms by (simp add: string_concat_def)
  next
    case False
    let ?n = "s_length s1 + s_length s2"
    have cap: "s_capacity s1 = int (length (s_array s1))" "s_capacity s1 < 2 ^ 31"
      using assms(1) by (simp_all add: str_wf_def)
    obtain d where g: "grow_to fresh s1 (?n + 2) (?n + 52) = Some d" "s_capacity d = int (length (s_array d))"
      "s_capacity d < 2 ^ 31" "?n + 2 \<le> s_capacity d"
      and pre: "\<And>k. k \<le> length (s_array s1) \<Longrightarrow> take k (s_array d) = take k (s_array s1)"
      by (rule grow_to_ok [OF cap assms(3), of "?n + 2" "?n + 52"]) (use s(2) s1(2) assms(4) in simp_all)
    have d: "s_capacity d = int (length (s_array d))" "length t1 + length t + 2 \<le> length (s_array d)"
      "take (length t1) (s_array d) = t1"
      using g(2,4) pre [of "length t1"] s1(1,2) s(2) by auto
    let ?rest = "drop (length t1 + length t + 1) (s_array d)"
    have copy: "copy_chars (s_array d) (s_array s2) (int (length t1)) 0 (length t) =
        Some (t1 @ t @ drop (length t1 + length t) (s_array d))"
      using copy_chars_block [of 0 "length t" "s_array s2" "length t1" "s_array d"] d s by simp
    have fin: "wr (t1 @ t @ drop (length t1 + length t) (s_array d)) (int (length t1) + int (length t)) NUL =
        Some (t1 @ t @ NUL # ?rest)"
      using d(2) wr_of_nat [of "length t1 + length t" "t1 @ t @ drop (length t1 + length t) (s_array d)" NUL]
      by (simp add: list_update_append Cons_nth_drop_Suc [symmetric])
    have z: "rd (t @ NUL # r) (int (length t)) = Some NUL" by simp
    have "string_concat fresh s1 s2 = Some (d\<lparr>s_array := t1 @ t @ NUL # ?rest, s_length := ?n\<rparr>)"
      using False d s s1(2) copy fin z g(4) unfolding string_concat_def Let_def g(1) by simp
    then show ?thesis
      using str_wfI [of "d\<lparr>s_array := t1 @ t @ NUL # ?rest, s_length := ?n\<rparr>" "t1 @ t" ?rest] d s s1 g(3) by auto
  qed
qed

lemma string_remove_nonalpha_contents:
  assumes "str_wf s"
  shows "\<exists>s'. string_remove_nonalpha s = Some s' \<and> str_wf s' \<and> contents s' = filter is_letter (contents s)"
proof -
  from assms obtain t r where s: "s_array s = t @ NUL # r" "s_length s = int (length t)" "NUL \<notin> set t"
    "contents s = t" "s_capacity s = int (length t + 1 + length r)" "s_capacity s < 2 ^ 31" by (rule str_wfE)
  obtain r' where r': "remove_from (t @ NUL # r) (int (length t)) 0 =
      Some (filter is_letter t @ NUL # r', int (length (filter is_letter t)))"
    "length (filter is_letter t) + length r' = length t + length r"
    using remove_from_block [of "[]" t r] by auto
  let ?s' = "s\<lparr>s_array := filter is_letter t @ NUL # r', s_length := int (length (filter is_letter t))\<rparr>"
  show ?thesis
  proof (cases "t = []")
    case False
    then have "string_remove_nonalpha s = Some ?s'" using s r' by (simp add: string_remove_nonalpha_def)
    moreover have "str_wf ?s' \<and> contents ?s' = filter is_letter t"
      using s r'(2) by (intro str_wfI [of _ _ r']) auto
    ultimately show ?thesis using s(4) by auto
  qed (use s assms in \<open>simp add: string_remove_nonalpha_def\<close>)
qed


section \<open>Slices\<close>

lemma string_copy_range_contents:
  assumes "str_wf source" and "str_wf dest" and "0 \<le> b" and "b < s_length source - 1"
    and "0 < n" and "b + n \<le> s_length source" and "n < s_capacity dest"
  shows "\<exists>d. string_copy_range fresh dest source b n = Some d \<and> str_wf d \<and>
    contents d = take (nat n) (drop (nat b) (contents source))"
proof -
  from assms(1) obtain t r where s: "s_array source = t @ NUL # r" "s_length source = int (length t)"
    "NUL \<notin> set t" "contents source = t" by (rule str_wfE)
  obtain b' n' where bn: "b = int b'" "n = int n'" using assms(3,5) by (metis nonneg_int_cases less_imp_le)
  have cap: "s_capacity dest = int (length (s_array dest))" "s_capacity dest < 2 ^ 31"
    using assms(2) by (simp_all add: str_wf_def)
  let ?u = "take n' (drop b' t)" and ?rest = "drop (n' + 1) (s_array dest)"
  have ne: "t \<noteq> []" using assms(3,4) s(2) by auto
  have len: "b' + n' \<le> length t" "n' < length (s_array dest)" using assms(6,7) s(2) bn cap by auto
  then have u: "length ?u = n'" by simp
  have copy: "copy_chars (s_array dest) (s_array source) 0 (int b') n' = Some (?u @ drop n' (s_array dest))"
    using copy_chars_block [of b' n' "s_array source" 0 "s_array dest"] len s(1) by simp
  have fin: "wr (?u @ drop n' (s_array dest)) (int n') NUL = Some (?u @ NUL # ?rest)"
    using u len(2) wr_of_nat [of n' "?u @ drop n' (s_array dest)" NUL]
    by (simp add: list_update_append Cons_nth_drop_Suc [symmetric])
  have "string_copy_range fresh dest source b n =
      Some (dest\<lparr>s_array := ?u @ NUL # ?rest, s_length := n\<rparr>)"
    using assms(3-7) copy fin bn s(2) ne unfolding string_copy_range_def by simp
  moreover have "NUL \<notin> set ?u" using s(3) by (meson in_set_dropD in_set_takeD)
  ultimately show ?thesis
    using str_wfI [of "dest\<lparr>s_array := ?u @ NUL # ?rest, s_length := n\<rparr>" ?u ?rest] u len cap bn s(4)
    by auto
qed

lemma string_get_slice_contents:
  assumes "str_wf s" and "slice_range (s_length s) b e = Some (sz, b', e')" and "0 < s_length s"
  shows "\<exists>d. string_get_slice True True fresh (Some s) b e = Some (Some d) \<and> str_wf d \<and>
    contents d = (if b' < s_length s - 1 then take (nat (e' - b' + 1)) (drop (nat b') (contents s)) else [])"
proof -
  have r: "0 \<le> b'" "b' \<le> e'" "e' < s_length s" "sz = e' - b' + 2"
    using assms by (auto simp: slice_range_def split: if_splits)
  have pos: "s_length s > 0" "0 < sz" "sz < 2 ^ 31" "int_range sz = Some sz"
    using assms(1,3) r by (auto simp: str_wf_def int_range_def)
  obtain d where d: "string_cust_init True True sz = Some d"
    using pos by (simp add: string_cust_init_def)
  note dw = string_cust_init_wf [OF d pos(3)]
  show ?thesis
  proof (cases "b' < s_length s - 1")
    case True
    obtain d' where "string_copy_range fresh d s b' (e' - b' + 1) = Some d'" "str_wf d'"
      "contents d' = take (nat (e' - b' + 1)) (drop (nat b') (contents s))"
      using string_copy_range_contents [OF assms(1), of d b' "e' - b' + 1" fresh] dw r True by auto
    then show ?thesis using pos assms(2) d True by (simp add: string_get_slice_def)
  next
    case False
    then have "string_copy_range fresh d s b' (e' - b' + 1) = Some d" by (simp add: string_copy_range_def)
    then show ?thesis using pos assms(2) d dw False by (simp add: string_get_slice_def)
  qed
qed

section \<open>Search\<close>

lemma find_inner_match:
  assumes "a = t @ NUL # r" and "sp \<le> length t" and "fp \<le> length f" and "NUL \<notin> set t"
  shows "\<exists>m sp'. find_inner a (int (length t)) f (int sp) (int fp) = Some (m, int sp') \<and> sp \<le> sp' \<and>
    (m \<longrightarrow> take (min (length f - fp) (length t - sp)) (drop sp t) =
             take (min (length f - fp) (length t - sp)) (drop fp f))"
  using assms(2,3)
proof (induction "length t - sp" arbitrary: sp fp)
  case 0
  then have "find_inner a (int (length t)) f (int sp) (int fp) = Some (True, int sp)"
    by (subst find_inner.simps) simp
  with 0 show ?case by auto
next
  case (Suc n)
  show ?case
  proof (cases "fp < length f")
    case False
    then show ?thesis using Suc.prems by (subst find_inner.simps) auto
  next
    case True
    have sp: "sp < length t" using Suc.hyps(2) by simp
    have at: "rd a (int sp) = Some (t ! sp)" "arg_char f (int fp) = Some (f ! fp)"
      using sp True assms(1) by (simp_all add: arg_char_def nth_append)
    have ii: "int sp + 1 = int (Suc sp)" "int fp + 1 = int (Suc fp)" by simp_all
    have step: "find_inner a (int (length t)) f (int sp) (int fp) =
        (if t ! sp \<noteq> f ! fp then Some (False, int sp)
         else find_inner a (int (length t)) f (int (Suc sp)) (int (Suc fp)))"
      using sp True at by (subst find_inner.simps) (simp add: ii del: of_nat_Suc)
    show ?thesis
    proof (cases "t ! sp = f ! fp")
      case False
      then show ?thesis using step by auto
    next
      case eq: True
      obtain m sp' where IH: "find_inner a (int (length t)) f (int (Suc sp)) (int (Suc fp)) = Some (m, int sp')"
        "Suc sp \<le> sp'" "m \<longrightarrow> take (min (length f - Suc fp) (length t - Suc sp)) (drop (Suc sp) t) =
             take (min (length f - Suc fp) (length t - Suc sp)) (drop (Suc fp) f)"
      proof -
        have "n = length t - Suc sp" "Suc sp \<le> length t" "Suc fp \<le> length f"
          using Suc.hyps(2) sp True by auto
        from Suc.hyps(1) [OF this] that show ?thesis by blast
      qed
      have k: "min (length f - fp) (length t - sp) = Suc (min (length f - Suc fp) (length t - Suc sp))"
        using sp True by simp
      have "drop sp t = t ! sp # drop (Suc sp) t" "drop fp f = f ! fp # drop (Suc fp) f"
        using sp True by (simp_all add: Cons_nth_drop_Suc)
      then show ?thesis using step eq IH k by (auto intro!: exI [of _ m] exI [of _ sp'])
    qed
  qed
qed

definition matches_at :: "string \<Rightarrow> string \<Rightarrow> nat \<Rightarrow> bool" where
  "matches_at t f p \<longleftrightarrow> (let n = min (length f) (length t - p) in take n (drop p t) = take n f)"

lemma find_outer_sound:
  assumes "a = t @ NUL # r" and "NUL \<notin> set t" and "f \<noteq> []"
  shows "\<exists>v. find_outer a (int (length t)) f (int sp) = Some v \<and>
    (v = -1 \<or> (\<exists>p. v = int p \<and> sp \<le> p \<and> p < length t \<and> matches_at t f p))"
proof (induction "length t - sp" arbitrary: sp rule: less_induct)
  case less
  show ?case
  proof (cases "sp < length t")
    case False
    then show ?thesis by (subst find_outer.simps) simp
  next
    case True
    have at: "rd a (int sp) = Some (t ! sp)" "arg_char f 0 = Some (f ! 0)"
      using True assms rd_of_nat [of 0 "f @ [NUL]"] by (auto simp: arg_char_def nth_append)
    have ii: "int sp + 1 = int (Suc sp)" by simp
    obtain m sp' where inner: "find_inner a (int (length t)) f (int (Suc sp)) 1 = Some (m, int sp')"
      "Suc sp \<le> sp'" "m \<longrightarrow> take (min (length f - 1) (length t - Suc sp)) (drop (Suc sp) t) =
             take (min (length f - 1) (length t - Suc sp)) (drop 1 f)"
      using find_inner_match [OF assms(1) _ _ assms(2), of "Suc sp" 1 f] True assms(3)
      by (auto simp: Suc_le_eq)
    have step: "find_outer a (int (length t)) f (int sp) =
        (if t ! sp = f ! 0 then (if m then Some (int sp) else find_outer a (int (length t)) f (int (Suc sp')))
         else find_outer a (int (length t)) f (int (Suc sp)))"
      using True at inner(1) by (subst find_outer.simps) (simp add: ii add.commute)
    show ?thesis
    proof (cases "t ! sp = f ! 0 \<and> m")
      case True
      then have "matches_at t f sp"
        using inner(3) \<open>sp < length t\<close> assms(3)
          Suc_diff_Suc [OF \<open>sp < length t\<close>, symmetric]
        by (cases f) (auto simp: matches_at_def Let_def Cons_nth_drop_Suc [symmetric])
      then show ?thesis using step True \<open>sp < length t\<close> by auto
    next
      case False
      define nxt where "nxt = (if t ! sp = f ! 0 then Suc sp' else Suc sp)"
      have n: "sp < nxt" "find_outer a (int (length t)) f (int sp) = find_outer a (int (length t)) f (int nxt)"
        using step False inner(2) by (auto simp: nxt_def)
      obtain v where v: "find_outer a (int (length t)) f (int nxt) = Some v"
        "v = -1 \<or> (\<exists>p. v = int p \<and> nxt \<le> p \<and> p < length t \<and> matches_at t f p)"
        using less [of nxt] n(1) True by (meson diff_less_mono2)
      then show ?thesis using n by fastforce
    qed
  qed
qed

section \<open>Integers\<close>

definition decimal :: "string \<Rightarrow> int" where
  "decimal t = foldl (\<lambda>acc c. acc * 10 + (schar c - 48)) 0 t"

lemma decimal_snoc [simp]: "decimal [] = 0" "decimal (t @ [c]) = decimal t * 10 + (schar c - 48)"
  by (simp_all add: decimal_def)

lemma foldl_decimal: "foldl (\<lambda>acc c. acc * 10 + (schar c - 48)) x t = x * 10 ^ length t + decimal t"
  by (induction t rule: rev_induct) (simp_all add: algebra_simps)

lemma decimal_Cons: "decimal (c # t) = (schar c - 48) * 10 ^ length t + decimal t"
  using foldl_decimal [of "schar c - 48" t] by (simp add: decimal_def)

lemma digit_schar: "is_digit c \<Longrightarrow> 0 \<le> schar c - 48 \<and> schar c - 48 \<le> 9"
proof -
  assume d: "is_digit c"
  have "(of_char c :: int) = int (of_char c :: nat)" by (cases c) simp
  then show ?thesis using d by (auto simp: is_digit_def schar_def Let_def)
qed

lemma decimal_bound: "list_all is_digit t \<Longrightarrow> 0 \<le> decimal t \<and> decimal t < 10 ^ length t"
proof (induction t)
  case (Cons c t)
  then have d: "0 \<le> schar c - 48" "schar c - 48 \<le> 9" using digit_schar by auto
  have "(schar c - 48) * 10 ^ length t \<le> 9 * 10 ^ length t" using d by (intro mult_right_mono) auto
  moreover have "0 \<le> (schar c - 48) * 10 ^ length t" using d by simp
  moreover have "0 \<le> decimal t" "decimal t < 10 ^ length t" using Cons by auto
  ultimately have "0 \<le> decimal (c # t)" "decimal (c # t) < 10 * 10 ^ length t"
    unfolding decimal_Cons by linarith+
  then show ?case by simp
qed simp

lemma toint_walk_decimal:
  "list_all is_digit t \<Longrightarrow> NUL \<notin> set t \<Longrightarrow> 0 \<le> acc \<Longrightarrow> acc + decimal t < 2 ^ 31 \<Longrightarrow> length t \<le> 9 \<Longrightarrow>
   toint_walk (t @ NUL # r) (int (length t) - 1) acc = Some (acc + decimal t)"
proof (induction t arbitrary: acc)
  case (Cons c t)
  let ?d = "schar c - 48"
  have d: "0 \<le> ?d" "?d \<le> 9" using Cons.prems(1) digit_schar by auto
  have t: "0 \<le> decimal t" using decimal_bound Cons.prems(1) by auto
  have "length t \<le> 8" using Cons.prems(5) by simp
  then have p: "(10 :: int) ^ length t \<le> 10 ^ 8" by (intro power_increasing) auto
  have prod: "?d * 10 ^ length t \<le> 9 * 10 ^ 8" using d p by (intro mult_mono) auto
  have prod0: "0 \<le> ?d * 10 ^ length t" using d by simp
  have sum: "acc + ?d * 10 ^ length t + decimal t < 2 ^ 31"
    using Cons.prems(4) by (simp add: decimal_Cons algebra_simps)
  have range: "int_range (10 ^ length t) = Some (10 ^ length t)"
    "int_range (?d * 10 ^ length t) = Some (?d * 10 ^ length t)"
    "int_range (acc + ?d * 10 ^ length t) = Some (acc + ?d * 10 ^ length t)"
    using p prod prod0 sum t Cons.prems(3) by (auto simp: int_range_def intro: order_trans [of _ 0])
  have "toint_walk ((c # t) @ NUL # r) (int (length (c # t)) - 1) acc =
      toint_walk (t @ NUL # r) (int (length t) - 1) (acc + ?d * 10 ^ length t)"
    using Cons.prems(2) range by auto
  also have "\<dots> = Some (acc + ?d * 10 ^ length t + decimal t)"
    using Cons.prems sum prod0 by (intro Cons.IH) auto
  finally show ?case by (simp add: decimal_Cons algebra_simps)
qed simp



section \<open>Replacement\<close>

lemma shift_up_block:
  "lo + d + n \<le> length a \<Longrightarrow>
   shift_up a (int lo + int n - 1) (int d) n =
     Some (take (lo + d) a @ take n (drop lo a) @ drop (lo + d + n) a)"
proof (induction n arbitrary: a)
  case (Suc n)
  have ii: "int lo + int (Suc n) - 1 = int (lo + n)" "int (lo + n) + int d = int (lo + n + d)"
    "int (lo + n) - 1 = int lo + int n - 1" by simp_all
  have "shift_up a (int lo + int (Suc n) - 1) (int d) (Suc n) =
      shift_up (a[lo + n + d := a ! (lo + n)]) (int lo + int n - 1) (int d) n"
    using Suc.prems by (simp add: ii del: of_nat_add of_nat_Suc)
  also have "\<dots> = Some (take (lo + d) (a[lo + n + d := a ! (lo + n)]) @
      take n (drop lo (a[lo + n + d := a ! (lo + n)])) @
      drop (lo + d + n) (a[lo + n + d := a ! (lo + n)]))"
    using Suc.prems by (intro Suc.IH) simp
  also have "take n (drop lo (a[lo + n + d := a ! (lo + n)])) = take n (drop lo a)"
    by (simp add: take_drop)
  also have "drop (lo + d + n) (a[lo + n + d := a ! (lo + n)]) = a ! (lo + n) # drop (lo + d + Suc n) a"
    using Suc.prems by (simp add: add.assoc add.commute [of n d] Cons_nth_drop_Suc [symmetric])
  finally show ?case
    using Suc.prems by (simp add: take_Suc_conv_app_nth)
qed simp

lemma shift_by_block:
  "i + d + n \<le> length a \<Longrightarrow>
   shift_by a (int i) (int d) n = Some (take i a @ take n (drop (i + d) a) @ drop (i + n) a)"
proof (induction n arbitrary: a i)
  case (Suc n)
  have ii: "int i + int d = int (i + d)" "int i + 1 = int (Suc i)" by simp_all
  have "shift_by a (int i) (int d) (Suc n) = shift_by (a[i := a ! (i + d)]) (int (Suc i)) (int d) n"
    using Suc.prems by (simp add: ii del: of_nat_add of_nat_Suc)
  also have "\<dots> = Some (take (Suc i) (a[i := a ! (i + d)]) @
      take n (drop (Suc i + d) (a[i := a ! (i + d)])) @ drop (Suc i + n) (a[i := a ! (i + d)]))"
    using Suc.prems by (intro Suc.IH) simp
  finally show ?case
    using Suc.prems by (simp add: take_Suc_conv_app_nth Cons_nth_drop_Suc [symmetric])
qed simp

lemma string_set_range_write:
  assumes "r \<noteq> []" and "int (p + length r) \<le> s_length d" and "s_length d \<le> int (length (s_array d))"
  shows "string_set_range d r (int p) (int p + int (length r) - 1) =
    Some (d\<lparr>s_array := take p (s_array d) @ r @ drop (p + length r) (s_array d)\<rparr>)"
proof (cases "length r = 1")
  case True
  then obtain c where c: "r = [c]" by (cases r) auto
  then have "wr (s_array d) (int p) c = Some (take p (s_array d) @ c # drop (Suc p) (s_array d))"
    using assms(2,3) by (simp add: upd_conv_take_nth_drop)
  moreover have "arg_char [c] 0 = Some c" using rd_of_nat [of 0 "[c, NUL]"] by (simp add: arg_char_def)
  ultimately show ?thesis using assms(2) c by (simp add: string_set_range_def)
next
  case False
  then have "1 < length r" using assms(1) by (cases r) auto
  moreover have "copy_chars (s_array d) r (int p) 0 (length r) =
      Some (take p (s_array d) @ r @ drop (p + length r) (s_array d))"
    using copy_chars_block [of 0 "length r" r p "s_array d"] assms(2,3) by simp
  ultimately show ?thesis using assms(2) by (simp add: string_set_range_def)
qed

lemma replace_at_contents:
  assumes "str_wf s" and "f \<noteq> []" and "r \<noteq> []" and "p + length f \<le> length (contents s)"
    and "s_length s + \<bar>int (length f) - int (length r)\<bar> \<le> s_capacity s"
  shows "\<exists>d. replace_at ok s f r (int p) = Some (d, True) \<and>
    contents d = take p (contents s) @ r @ drop (p + length f) (contents s) \<and>
    s_length d = int (length (contents d))"
proof -
  from assms(1) obtain t rr where s: "s_array s = t @ NUL # rr" "s_length s = int (length t)"
    "contents s = t" "s_capacity s = int (length t + 1 + length rr)" "s_capacity s < 2 ^ 31" by (rule str_wfE)
  let ?lf = "length f" and ?lr = "length r" and ?a = "t @ NUL # rr"
  consider "?lf < ?lr" | "?lr < ?lf" | "?lr = ?lf" by linarith
  then show ?thesis
  proof cases
    case 1
    define d where "d = ?lr - ?lf"
    have d: "?lr = ?lf + d" "0 < d" "\<bar>int ?lf - int ?lr\<bar> = int d" "d \<le> Suc (length rr)"
      using 1 assms(5) s by (auto simp: d_def)
    let ?n = "length t - (p + ?lf)"
    obtain b where b: "b = take (p + ?lr) ?a @ drop (p + ?lf) t @ drop (length t + d) ?a" by blast
    have up: "shift_up ?a (int (length t) - 1) (int d) ?n = Some b"
      unfolding b using shift_up_block [of "p + ?lf" d ?n ?a] assms(4) s(3) d by (simp add: add.assoc)
    have nn: "nat (int (length t) - (int p + int ?lf)) = ?n" by simp
    have lb: "length b = length ?a" unfolding b using assms(4) s d by simp
    let ?d = "s\<lparr>s_array := b, s_length := int (length t) + int d\<rparr>"
    have set: "string_set_range ?d r (int p) (int p + int ?lr - 1) =
        Some (?d\<lparr>s_array := take p b @ r @ drop (p + ?lr) b\<rparr>)"
      using string_set_range_write [OF assms(3), of p ?d] assms(4) s d lb by simp
    have res: "replace_at ok s f r (int p) = Some (?d\<lparr>s_array := take p b @ r @ drop (p + ?lr) b\<rparr>, True)"
      unfolding replace_at_def Let_def d(3) using 1 d(4) s assms(5) up nn set by (simp add: d(3) int_range_ok)
    have dr: "drop (p + ?lr) b = drop (p + ?lf) t @ drop (length t + d) ?a"
    proof -
      have "length (take (p + ?lr) ?a) = p + ?lr" using assms(4) s d by simp
      then show ?thesis unfolding b by (metis append_eq_conv_conj)
    qed
    have tk: "take p b = take p t" unfolding b using assms(4) s d by simp
    obtain X where X: "X = take p b @ r @ drop (p + ?lr) b" by blast
    have take: "take (length t + d) X = take p t @ r @ drop (p + ?lf) t"
      unfolding X dr tk using assms(4) s(3) d(1) by simp
    have "nat (int (length t) + int d) = length t + d" by arith
    then have "contents (?d\<lparr>s_array := X\<rparr>) = take p t @ r @ drop (p + ?lf) t"
      by (simp add: contents_def take)
    moreover have "int (length t) + int d = int (length (take p t @ r @ drop (p + ?lf) t))"
      using assms(4) s(3) d(1) by simp
    ultimately show ?thesis using res [folded X] s(3)
      by (intro exI [of _ "?d\<lparr>s_array := X\<rparr>"]) simp
  next
    case 2
    define d where "d = ?lf - ?lr"
    have d: "?lf = ?lr + d" "0 < d" "\<bar>int ?lf - int ?lr\<bar> = int d" "d \<le> Suc (length rr)"
      using 2 assms(5) s by (auto simp: d_def)
    let ?n = "length t - 1 - (p + ?lr)"
    obtain b where b: "b = take (p + ?lr) ?a @ take ?n (drop (p + ?lf) ?a) @ drop (p + ?lr + ?n) ?a" by blast
    have by_: "shift_by ?a (int p + int ?lr) (int d) ?n = Some b"
      unfolding b using shift_by_block [of "p + ?lr" d ?n ?a] assms(4) s(3) d by (simp add: add.assoc)
    have nn: "nat (int (length t) - 1 - (int p + int ?lr)) = ?n" by simp
    let ?d = "s\<lparr>s_array := b, s_length := int (length t) - int d\<rparr>"
    have lb: "length b = length ?a" unfolding b using assms(4) s d by simp
    have set: "string_set_range ?d r (int p) (int p + int ?lr - 1) =
        Some (?d\<lparr>s_array := take p b @ r @ drop (p + ?lr) b\<rparr>)"
      using string_set_range_write [OF assms(3), of p ?d] assms(4) s d lb by simp
    have res: "replace_at ok s f r (int p) = Some (?d\<lparr>s_array := take p b @ r @ drop (p + ?lr) b\<rparr>, True)"
      unfolding replace_at_def Let_def d(3) using 2 s by_ nn set by (simp add: d(3))
    obtain X where X: "X = take p b @ r @ drop (p + ?lr) b" by blast
    have take: "take (length t - d) X = take p t @ r @ drop (p + ?lf) t"
    proof -
      have "\<not> length t - d \<le> p" using assms(3,4) s d by (cases r) auto
      then show ?thesis unfolding X b using assms(4) s d by (simp add: min_def)
    qed
    have "nat (int (length t) - int d) = length t - d" by arith
    then have "contents (?d\<lparr>s_array := X\<rparr>) = take p t @ r @ drop (p + ?lf) t"
      by (simp add: contents_def take)
    moreover have "int (length t) - int d = int (length (take p t @ r @ drop (p + ?lf) t))"
      using assms(4) s(3) d(1) by simp
    ultimately show ?thesis using res [folded X] s(3)
      by (intro exI [of _ "?d\<lparr>s_array := X\<rparr>"]) simp
  next
    case 3
    have set: "string_set_range s r (int p) (int p + int ?lr - 1) =
        Some (s\<lparr>s_array := take p ?a @ r @ drop (p + ?lr) ?a\<rparr>)"
      using string_set_range_write [OF assms(3), of p s] assms(4) s 3 by simp
    then have "replace_at ok s f r (int p) = Some (s\<lparr>s_array := take p ?a @ r @ drop (p + ?lr) ?a\<rparr>, True)"
      using 3 by (simp add: replace_at_def Let_def)
    then show ?thesis using assms(4) s 3 by (auto simp: contents_def)
  qed
qed


section \<open>Properties\<close>

text \<open>A string object for the witnesses, with seven spare characters.\<close>

definition str :: "string \<Rightarrow> string_t" where
  "str t = \<lparr>s_array = t @ replicate 8 NUL, s_length = int (length t), s_capacity = int (length t) + 8\<rparr>"

lemma str_ok: "NUL \<notin> set t \<Longrightarrow> length t < 1000 \<Longrightarrow> str_wf (str t) \<and> contents (str t) = t"
proof -
  have r: "replicate 8 NUL = NUL # replicate 7 NUL" by (simp add: eval_nat_numeral)
  assume "NUL \<notin> set t" and "length t < 1000"
  then show ?thesis by (intro str_wfI [of _ _ "replicate 7 NUL"]) (simp_all add: str_def r)
qed

text \<open>
  C38: With memory available, and while the two lengths and the 52 characters of slack fit an
  \<^verbatim>\<open>int\<close>, \<^verbatim>\<open>string_concat\<close> never leaves either block, keeps the string well formed
  (NUL-terminated inside its capacity, the capacity an \<^verbatim>\<open>int\<close>) and appends the contents.
\<close>

theorem string_concat_appends:
  assumes "str_wf s1" and "str_wf s2" and "fresh \<noteq> None" and "s_length s1 + s_length s2 + 52 < 2 ^ 31"
  shows "\<exists>d. string_concat fresh s1 s2 = Some d \<and> str_wf d \<and> contents d = contents s1 @ contents s2 \<and>
    string_equal (Some d) (Some s1) = Some (contents s2 = [])"
proof -
  from string_concat_contents [OF assms] obtain d where d: "string_concat fresh s1 s2 = Some d" "str_wf d"
    "contents d = contents s1 @ contents s2" by blast
  then show ?thesis using string_equal_contents [OF d(2) assms(1)] by simp
qed

theorem string_concat_appends_witness:
  "\<exists>d. string_concat (Some (\<lambda>_. NUL)) (str ''ab'') (str ''cd'') = Some d \<and> contents d = ''abcd''"
proof -
  have n: "NUL \<notin> set ''ab''" "NUL \<notin> set ''cd''" by code_simp+
  have l: "s_length (str ''ab'') + s_length (str ''cd'') + 52 < 2 ^ 31" by (simp add: str_def)
  from string_concat_appends [of "str ''ab''" "str ''cd''" "Some (\<lambda>_. NUL)"]
    str_ok [OF n(1)] str_ok [OF n(2)] l show ?thesis by auto
qed

text \<open>
  \<^verbatim>\<open>string_remove_nonalpha\<close> keeps exactly the letters, in order, and the string stays
  well formed; on the result \<^verbatim>\<open>string_isalpha\<close> holds.
\<close>

theorem string_remove_nonalpha_filter:
  assumes "str_wf s"
  shows "\<exists>s'. string_remove_nonalpha s = Some s' \<and> str_wf s' \<and>
    contents s' = filter is_letter (contents s) \<and> string_isalpha (Some s') = Some True"
proof -
  from string_remove_nonalpha_contents [OF assms] obtain s' where
    s': "string_remove_nonalpha s = Some s'" "str_wf s'" "contents s' = filter is_letter (contents s)" by blast
  then show ?thesis using string_class_tests(1) [OF s'(2)] by (simp add: list_all_iff)
qed

theorem string_remove_nonalpha_filter_witness:
  "\<exists>s'. string_remove_nonalpha (str ''a1-B'') = Some s' \<and> contents s' = ''aB''"
proof -
  have n: "NUL \<notin> set ''a1-B''" by code_simp
  have f: "filter is_letter ''a1-B'' = ''aB''" by code_simp
  from string_remove_nonalpha_filter [of "str ''a1-B''"] str_ok [OF n] f show ?thesis by auto
qed

text \<open>
  A slice with valid indices is a fresh well formed string with the characters from
  the start to the end index, except that a slice that starts at the last character is
  empty: the guard of \<^verbatim>\<open>string_copy_range\<close> excludes that start.
\<close>

theorem string_get_slice_substring:
  assumes "str_wf s" and "0 \<le> b" and "b < e" and "e \<le> s_length s"
  shows "\<exists>d. string_get_slice True True fresh (Some s) b e = Some (Some d) \<and> str_wf d \<and>
    contents d = (if b = s_length s - 1 then [] else take (nat (e - b)) (drop (nat b) (contents s)))"
proof -
  have r: "slice_range (s_length s) b e = Some (e - b + 1, b, e - 1)"
    using assms by (simp add: slice_range_def)
  have "nat (e - 1 - b + 1) = nat (e - b)" by simp
  then show ?thesis using string_get_slice_contents [OF assms(1) r, of fresh] assms by auto
qed

theorem string_get_slice_substring_witness:
  "(\<exists>d. string_get_slice True True None (Some (str ''THING'')) 1 3 = Some (Some d) \<and> contents d = ''HI'') \<and>
   (\<exists>d. string_get_slice True True None (Some (str ''THING'')) 4 5 = Some (Some d) \<and> contents d = [])"
proof -
  have n: "NUL \<notin> set ''THING''" by code_simp
  have l: "s_length (str ''THING'') = 5" by (simp add: str_def)
  have c: "str_wf (str ''THING'')" "contents (str ''THING'') = ''THING''" using str_ok [OF n] by auto
  show ?thesis
    using string_get_slice_substring [OF c(1), of 1 3 None] string_get_slice_substring [OF c(1), of 4 5 None] c l
    by (auto simp: numeral_3_eq_3)
qed

text \<open>
  The search never leaves the block, ends, and an index it returns is at or after the
  start position and begins a match of the text, or of the prefix of it that fits before
  the end of the string.
\<close>

theorem string_find_cstr_sound:
  assumes "str_wf s" and "f \<noteq> []" and "0 \<le> start"
  shows "\<exists>v. string_find_cstr (Some s) (Some f) start = Some v \<and>
    (v = -1 \<or> (start \<le> v \<and> v < s_length s \<and> matches_at (contents s) f (nat v)))"
proof (cases "start < s_length s")
  case True
  from assms(1) obtain t r where s: "s_array s = t @ NUL # r" "s_length s = int (length t)" "NUL \<notin> set t"
    "contents s = t" by (rule str_wfE)
  obtain sp where sp: "start = int sp" using assms(3) nonneg_int_cases by blast
  show ?thesis
    using find_outer_sound [OF s(1,3) assms(2), of sp] True assms s sp
    by (auto simp: string_find_cstr_def)
qed (use assms in \<open>simp add: string_find_cstr_def\<close>)

theorem string_find_cstr_sound_witness:
  "\<exists>v. string_find_cstr (Some (str ''abc'')) (Some ''bc'') 0 = Some v \<and>
    (v = -1 \<or> (0 \<le> v \<and> v < 3 \<and> matches_at ''abc'' ''bc'' (nat v)))"
proof -
  have n: "NUL \<notin> set ''abc''" by code_simp
  from string_find_cstr_sound [of "str ''abc''" "''bc''" 0] str_ok [OF n]
  show ?thesis by (simp add: str_def)
qed

text \<open>
  The search misses occurrences and reports partial ones. After a mismatch it goes on
  behind the mismatching character, so ``ab'' is not found in ``aab''; and a match cut by
  the end of the string counts, so ``bcd'' is found in ``abc''.
\<close>

lemma string_find_cstr_wrong:
  "string_find_cstr (Some (str ''aab'')) (Some ''ab'') 0 = Some (-1) \<and>
   string_find_cstr (Some (str ''abc'')) (Some ''bcd'') 0 = Some 1"
  by code_simp

text \<open>A string of at most nine digits converts to its decimal value.\<close>

theorem string_toint_decimal:
  assumes "str_wf s" and "contents s \<noteq> []" and "list_all is_digit (contents s)"
    and "length (contents s) \<le> 9"
  shows "string_toint (Some s) = Some (decimal (contents s))"
proof -
  from assms(1) obtain t r where s: "s_array s = t @ NUL # r" "s_length s = int (length t)" "NUL \<notin> set t"
    "contents s = t" by (rule str_wfE)
  have minus: "\<not> is_digit CHR ''-''" by code_simp
  then have "CHR ''-'' \<notin> set (tl t)" using assms(3) s(4) by (cases t) (auto simp: list_all_iff)
  then have i: "string_is_int (Some s) = Some True"
    using string_is_int_contents [OF assms(1)] assms(2,3) s(4) by (auto simp: list_all_iff)
  have d: "0 \<le> decimal t" "decimal t < 10 ^ length t" using decimal_bound assms(3) s(4) by auto
  moreover have "(10 :: int) ^ length t \<le> 10 ^ 9" using assms(4) s(4) by (intro power_increasing) auto
  ultimately have "decimal t < 2 ^ 31" by simp
  then show ?thesis
    using toint_walk_decimal [of t 0 r] i s assms(2-4) by (simp add: string_toint_def cstr_of_block)
qed

theorem string_toint_decimal_witness: "string_toint (Some (str ''420'')) = Some 420"
proof -
  have n: "NUL \<notin> set ''420''" and d: "list_all is_digit ''420''" and v: "decimal ''420'' = 420" by code_simp+
  from string_toint_decimal [of "str ''420''"] str_ok [OF n] d v show ?thesis by simp
qed

text \<open>A sign is accepted by \<^verbatim>\<open>string_is_int\<close> and converted as a digit.\<close>

lemma string_toint_sign:
  "string_toint (Some (str ''-5'')) = Some (-25) \<and> string_is_int (Some (str ''-'')) = Some True"
  by code_simp

text \<open>
  Copying a C string writes its NUL one place too far: outside the block exactly when
  the capacity is one more than the length, and otherwise leaving the old character at
  the end of the string.
\<close>

theorem string_copy_cptr_overflow:
  assumes "str_wf dest" and "source \<noteq> []" and "int (length source) + 51 < 2 ^ 31"
  shows "(string_copy_cptr_sptr None dest source = None \<longleftrightarrow> s_capacity dest = int (length source) + 1) \<and>
    (s_capacity dest > int (length source) + 1 \<longrightarrow>
       (\<exists>d. string_copy_cptr_sptr None dest source = Some d \<and> contents d = source \<and>
          s_array d ! length source = s_array dest ! length source))"
proof -
  let ?n = "length source" and ?a = "s_array dest"
  let ?b = "source @ drop ?n ?a"
  have cap: "s_capacity dest = int (length ?a)" using assms(1) by (simp add: str_wf_def)
  have g: "grow_to None dest (int ?n + 1) (int ?n + 51) = Some dest"
    using assms(3) by (simp add: grow_to_def realloc_def int_range_ok)
  show ?thesis
  proof (cases "s_capacity dest < int ?n + 1")
    case True
    then show ?thesis using assms(2) by (simp add: string_copy_cptr_sptr_def g)
  next
    case False
    then have copy: "copy_chars ?a source 0 0 ?n = Some ?b"
      using copy_chars_block [of 0 ?n source 0 ?a] cap by simp
    then have r: "string_copy_cptr_sptr None dest source =
        (if int ?n + 1 < s_capacity dest
         then Some (dest\<lparr>s_array := ?b[Suc ?n := NUL], s_length := int ?n\<rparr>) else None)"
      using False assms(2) cap by (auto simp: string_copy_cptr_sptr_def g wr_def nat_add_distrib)
    have "?n < length ?a \<Longrightarrow> ?b[Suc ?n := NUL] ! ?n = ?a ! ?n" by (simp add: nth_append)
    then show ?thesis using r False cap by (auto simp: contents_def)
  qed
qed

theorem string_copy_cptr_overflow_witness:
  "string_copy_cptr_sptr None \<lparr>s_array = replicate 4 NUL, s_length = 0, s_capacity = 4\<rparr> ''abc'' = None"
  using string_copy_cptr_overflow [of "\<lparr>s_array = replicate 4 NUL, s_length = 0, s_capacity = 4\<rparr>" "''abc''"]
  by (simp add: str_wf_def)

text \<open>
  When the occurrence found is complete and the capacity leaves room for the change of
  length, the replacement of text by a longer, shorter or equally long one yields the
  prefix, the new text and the suffix.
\<close>

theorem string_replace_found:
  assumes "str_wf s" and "f \<noteq> []" and "r \<noteq> []" and "p + length f \<le> length (contents s)"
    and "s_length s + \<bar>int (length f) - int (length r)\<bar> \<le> s_capacity s"
    and "string_find_cstr (Some s) (Some f) 0 = Some (int p)"
  shows "\<exists>st d. string_replace ok \<lparr>rs_pos = 0, rs_dest = None, rs_find = None, rs_repl = None\<rparr>
      (Some (a1, s)) (Some (a2, f)) (Some (a3, r)) = Some (st, Some d, True) \<and>
    contents d = take p (contents s) @ r @ drop (p + length f) (contents s) \<and> rs_pos st = int p + 1"
proof -
  have "s_length s > 0"
    using assms(1,2,4) str_length_contents [OF assms(1)] by (cases f) auto
  then show ?thesis
    using replace_at_contents [OF assms(1-5), of ok] assms(2,3,6) by (auto simp: string_replace_def Let_def)
qed

theorem string_replace_found_witness:
  "\<exists>st d. string_replace True \<lparr>rs_pos = 0, rs_dest = None, rs_find = None, rs_repl = None\<rparr>
      (Some (1, str ''1ab2'')) (Some (2, ''ab'')) (Some (3, ''x'')) = Some (st, Some d, True) \<and>
    contents d = ''1x2''"
proof -
  have n: "NUL \<notin> set ''1ab2''" by code_simp
  have f: "string_find_cstr (Some (str ''1ab2'')) (Some ''ab'') 0 = Some (int 1)" by code_simp
  have l: "s_length (str ''1ab2'') = 4" "s_capacity (str ''1ab2'') = 12" by (simp_all add: str_def)
  from string_replace_found [of "str ''1ab2''" "''ab''" "''x''" 1 True 1 2 3] str_ok [OF n] f l
  show ?thesis by (fastforce simp: numeral_3_eq_3)
qed

end
