(* ===== verification/Hashmap.thy ===== *)
theory Hashmap
  imports Store
begin

text \<open>
  \<^verbatim>\<open>udpclient/hashmap/hashmap.c\<close> and \<^verbatim>\<open>udpclient/udpserver/datastruct/hashmapi.c\<close>: open
  addressing with a probe of at most sixteen slots. Both files have the same operations
  over keys that are strings and integers; the shared loops are polymorphic in the key.

  The slots live in a block of a heap, since the growing operation releases the old block
  and then reads it. The map keeps the pointer of a key and never copies it; the model keeps the text of the key, as
  it is while the caller leaves it alone. A \<^verbatim>\<open>void *\<close> value is a \<^typ>\<open>'v option\<close>, with \<^term>\<open>None\<close> for NULL.
\<close>

section \<open>Data\<close>

record ('k, 'v) hm_element =
  he_key :: "'k option"
  he_in_use :: int
  he_data :: "'v option"

record ('k, 'v) hmap =
  hm_blocks :: "('k, 'v) hm_element list heap"
  hm_fresh :: addr
  hm_table_size :: int
  hm_size :: int
  hm_data :: ptr

definition MAP_MISSING :: int where "MAP_MISSING = -3"
definition MAP_FULL :: int where "MAP_FULL = -2"
definition MAP_OMEM :: int where "MAP_OMEM = -1"
definition MAP_OK :: int where "MAP_OK = 0"
definition INITIAL_SIZE :: nat where "INITIAL_SIZE = 2048"
definition MAX_CHAIN_LENGTH :: nat where "MAX_CHAIN_LENGTH = 16"

lemmas map_codes = MAP_MISSING_def MAP_FULL_def MAP_OMEM_def MAP_OK_def

definition free_slot :: "('k, 'v) hm_element" where
  "free_slot = \<lparr>he_key = None, he_in_use = 0, he_data = None\<rparr>"

section \<open>Hash functions\<close>

definition crc32_tab :: "u64 list" where
  "crc32_tab = [
    0x00000000, 0x77073096, 0xee0e612c, 0x990951ba, 0x076dc419, 0x706af48f,
    0xe963a535, 0x9e6495a3, 0x0edb8832, 0x79dcb8a4, 0xe0d5e91e, 0x97d2d988,
    0x09b64c2b, 0x7eb17cbd, 0xe7b82d07, 0x90bf1d91, 0x1db71064, 0x6ab020f2,
    0xf3b97148, 0x84be41de, 0x1adad47d, 0x6ddde4eb, 0xf4d4b551, 0x83d385c7,
    0x136c9856, 0x646ba8c0, 0xfd62f97a, 0x8a65c9ec, 0x14015c4f, 0x63066cd9,
    0xfa0f3d63, 0x8d080df5, 0x3b6e20c8, 0x4c69105e, 0xd56041e4, 0xa2677172,
    0x3c03e4d1, 0x4b04d447, 0xd20d85fd, 0xa50ab56b, 0x35b5a8fa, 0x42b2986c,
    0xdbbbc9d6, 0xacbcf940, 0x32d86ce3, 0x45df5c75, 0xdcd60dcf, 0xabd13d59,
    0x26d930ac, 0x51de003a, 0xc8d75180, 0xbfd06116, 0x21b4f4b5, 0x56b3c423,
    0xcfba9599, 0xb8bda50f, 0x2802b89e, 0x5f058808, 0xc60cd9b2, 0xb10be924,
    0x2f6f7c87, 0x58684c11, 0xc1611dab, 0xb6662d3d, 0x76dc4190, 0x01db7106,
    0x98d220bc, 0xefd5102a, 0x71b18589, 0x06b6b51f, 0x9fbfe4a5, 0xe8b8d433,
    0x7807c9a2, 0x0f00f934, 0x9609a88e, 0xe10e9818, 0x7f6a0dbb, 0x086d3d2d,
    0x91646c97, 0xe6635c01, 0x6b6b51f4, 0x1c6c6162, 0x856530d8, 0xf262004e,
    0x6c0695ed, 0x1b01a57b, 0x8208f4c1, 0xf50fc457, 0x65b0d9c6, 0x12b7e950,
    0x8bbeb8ea, 0xfcb9887c, 0x62dd1ddf, 0x15da2d49, 0x8cd37cf3, 0xfbd44c65,
    0x4db26158, 0x3ab551ce, 0xa3bc0074, 0xd4bb30e2, 0x4adfa541, 0x3dd895d7,
    0xa4d1c46d, 0xd3d6f4fb, 0x4369e96a, 0x346ed9fc, 0xad678846, 0xda60b8d0,
    0x44042d73, 0x33031de5, 0xaa0a4c5f, 0xdd0d7cc9, 0x5005713c, 0x270241aa,
    0xbe0b1010, 0xc90c2086, 0x5768b525, 0x206f85b3, 0xb966d409, 0xce61e49f,
    0x5edef90e, 0x29d9c998, 0xb0d09822, 0xc7d7a8b4, 0x59b33d17, 0x2eb40d81,
    0xb7bd5c3b, 0xc0ba6cad, 0xedb88320, 0x9abfb3b6, 0x03b6e20c, 0x74b1d29a,
    0xead54739, 0x9dd277af, 0x04db2615, 0x73dc1683, 0xe3630b12, 0x94643b84,
    0x0d6d6a3e, 0x7a6a5aa8, 0xe40ecf0b, 0x9309ff9d, 0x0a00ae27, 0x7d079eb1,
    0xf00f9344, 0x8708a3d2, 0x1e01f268, 0x6906c2fe, 0xf762575d, 0x806567cb,
    0x196c3671, 0x6e6b06e7, 0xfed41b76, 0x89d32be0, 0x10da7a5a, 0x67dd4acc,
    0xf9b9df6f, 0x8ebeeff9, 0x17b7be43, 0x60b08ed5, 0xd6d6a3e8, 0xa1d1937e,
    0x38d8c2c4, 0x4fdff252, 0xd1bb67f1, 0xa6bc5767, 0x3fb506dd, 0x48b2364b,
    0xd80d2bda, 0xaf0a1b4c, 0x36034af6, 0x41047a60, 0xdf60efc3, 0xa867df55,
    0x316e8eef, 0x4669be79, 0xcb61b38c, 0xbc66831a, 0x256fd2a0, 0x5268e236,
    0xcc0c7795, 0xbb0b4703, 0x220216b9, 0x5505262f, 0xc5ba3bbe, 0xb2bd0b28,
    0x2bb45a92, 0x5cb36a04, 0xc2d7ffa7, 0xb5d0cf31, 0x2cd99e8b, 0x5bdeae1d,
    0x9b64c2b0, 0xec63f226, 0x756aa39c, 0x026d930a, 0x9c0906a9, 0xeb0e363f,
    0x72076785, 0x05005713, 0x95bf4a82, 0xe2b87a14, 0x7bb12bae, 0x0cb61b38,
    0x92d28e9b, 0xe5d5be0d, 0x7cdcefb7, 0x0bdbdf21, 0x86d3d2d4, 0xf1d4e242,
    0x68ddb3f8, 0x1fda836e, 0x81be16cd, 0xf6b9265b, 0x6fb077e1, 0x18b74777,
    0x88085ae6, 0xff0f6a70, 0x66063bca, 0x11010b5c, 0x8f659eff, 0xf862ae69,
    0x616bffd3, 0x166ccf45, 0xa00ae278, 0xd70dd2ee, 0x4e048354, 0x3903b3c2,
    0xa7672661, 0xd06016f7, 0x4969474d, 0x3e6e77db, 0xaed16a4a, 0xd9d65adc,
    0x40df0b66, 0x37d83bf0, 0xa9bcae53, 0xdebb9ec5, 0x47b2cf7f, 0x30b5ffe9,
    0xbdbdf21c, 0xcabac28a, 0x53b39330, 0x24b4a3a6, 0xbad03605, 0xcdd70693,
    0x54de5729, 0x23d967bf, 0xb3667a2e, 0xc4614ab8, 0x5d681b02, 0x2a6f2b94,
    0xb40bbe37, 0xc30c8ea1, 0x5a05df1b, 0x2d02ef8d]"

definition crc32 :: "string \<Rightarrow> u64" where
  "crc32 s = foldl (\<lambda>v c. crc32_tab ! unat ((v XOR of_char c) AND 0xff) XOR drop_bit 8 v) 0 s"

text \<open>Robert Jenkins' mix function, on 64 and on 32 bits.\<close>

definition mix :: "'a::len word \<Rightarrow> 'a word" where
  "mix k0 =
     (let k1 = k0 + push_bit 12 k0;
          k2 = k1 XOR drop_bit 22 k1;
          k3 = k2 + push_bit 4 k2;
          k4 = k3 XOR drop_bit 9 k3;
          k5 = k4 + push_bit 10 k4;
          k6 = k5 XOR drop_bit 2 k5;
          k7 = k6 + push_bit 7 k6;
          k8 = k7 XOR drop_bit 12 k7
      in drop_bit 3 k8 * 2654435761)"

text \<open>
  The index: the remainder by the table size, which is converted to the unsigned type of
  the key; a table of size zero divides by zero.
\<close>

definition hash_index :: "'a::len word \<Rightarrow> int \<Rightarrow> int option" where
  "hash_index key ts =
     (let d = (of_int ts :: 'a word) in if d = 0 then None else Some (int (unat key mod unat d)))"

definition hashmap_hash_int :: "(string, 'v) hmap \<Rightarrow> string \<Rightarrow> int option" where
  "hashmap_hash_int m key = hash_index (mix (crc32 key)) (hm_table_size m)"

definition hashmapi_hash_int :: "(int, 'v) hmap \<Rightarrow> int \<Rightarrow> int option" where
  "hashmapi_hash_int m key = hash_index (mix (of_int key :: u32)) (hm_table_size m)"

section \<open>The probing loops\<close>

text \<open>A used slot is compared with \<^verbatim>\<open>strcmp\<close>, which must not get a NULL key.\<close>

definition slot_has :: "('k, 'v) hm_element \<Rightarrow> 'k \<Rightarrow> bool option" where
  "slot_has e k =
     (if he_in_use e = 1 then (case he_key e of None \<Rightarrow> None | Some k' \<Rightarrow> Some (k' = k)) else Some False)"

text \<open>For an insertion: the first slot of the window that is free or has the key.\<close>

fun probe_free :: "('k, 'v) hm_element list \<Rightarrow> int \<Rightarrow> 'k \<Rightarrow> int \<Rightarrow> nat \<Rightarrow> int option" where
  "probe_free blk ts k pos 0 = Some MAP_FULL"
| "probe_free blk ts k pos (Suc n) =
     do { e \<leftarrow> rd blk pos;
          if he_in_use e = 0 then Some pos
          else do { b \<leftarrow> slot_has e k;
                    if b then Some pos else probe_free blk ts k ((pos + 1) mod ts) n } }"

text \<open>For a lookup or a removal: the first used slot of the window with the key.\<close>

fun probe_key :: "('k, 'v) hm_element list \<Rightarrow> int \<Rightarrow> 'k \<Rightarrow> int \<Rightarrow> nat \<Rightarrow> int option" where
  "probe_key blk ts k pos 0 = Some MAP_MISSING"
| "probe_key blk ts k pos (Suc n) =
     do { e \<leftarrow> rd blk pos;
          b \<leftarrow> slot_has e k;
          if b then Some pos else probe_key blk ts k ((pos + 1) mod ts) n }"

text \<open>The operations over a given hash function \<open>h\<close>.\<close>

definition hm_hash ::
  "(('k, 'v) hmap \<Rightarrow> 'k \<Rightarrow> int option) \<Rightarrow> ('k, 'v) hmap \<Rightarrow> 'k \<Rightarrow> int option" where
  "hm_hash h m k =
     (if hm_size m \<ge> hm_table_size m then Some MAP_FULL
      else do { pos \<leftarrow> h m k;
                blk \<leftarrow> deref (hm_blocks m) (hm_data m);
                probe_free blk (hm_table_size m) k pos MAX_CHAIN_LENGTH })"

fun rehash_loop ::
  "(('k, 'v) hmap \<Rightarrow> 'k \<Rightarrow> 'v option \<Rightarrow> (int \<times> ('k, 'v) hmap) option) \<Rightarrow>
    ptr \<Rightarrow> int \<Rightarrow> nat \<Rightarrow> ('k, 'v) hmap \<Rightarrow> (int \<times> ('k, 'v) hmap) option" where
  "rehash_loop put pos i 0 m = Some (MAP_OK, m)"
| "rehash_loop put pos i (Suc n) m =
     do { blk \<leftarrow> deref (hm_blocks m) pos;
          e \<leftarrow> rd blk i;
          if he_in_use e = 0 then rehash_loop put pos (i + 1) n m
          else (case he_key e of
                  None \<Rightarrow> None
                | Some k \<Rightarrow>
                    do { (status, m') \<leftarrow> put m k (he_data e);
                         if status \<noteq> MAP_OK then Some (status, m')
                         else rehash_loop put pos (i + 1) n m' }) }"

definition hm_rehash ::
  "(('k, 'v) hmap \<Rightarrow> 'k \<Rightarrow> 'v option \<Rightarrow> (int \<times> ('k, 'v) hmap) option) \<Rightarrow>
    bool \<Rightarrow> ('k, 'v) hmap \<Rightarrow> (int \<times> ('k, 'v) hmap) option" where
  "hm_rehash put ok m =
     (if \<not> ok then Some (MAP_OMEM, m)
      else do {
        blocks \<leftarrow> release (hm_blocks m) (hm_data m);
        let old_size = hm_table_size m in
        let m1 = m\<lparr>hm_blocks := blocks(hm_fresh m \<mapsto> replicate (nat (2 * old_size)) free_slot),
                   hm_fresh := hm_fresh m + 1, hm_data := Some (hm_fresh m),
                   hm_table_size := 2 * old_size, hm_size := 0\<rparr> in
        do { (status, m2) \<leftarrow> rehash_loop put (hm_data m) 0 (nat old_size) m1;
             if status \<noteq> MAP_OK then Some (status, m2)
             else do { blocks' \<leftarrow> release (hm_blocks m2) (hm_data m);
                       Some (MAP_OK, m2\<lparr>hm_blocks := blocks'\<rparr>) } } })"

text \<open>
  The retry loop of an insertion, with the number of rehashings left; the result is the
  index of the slot, or \<^const>\<open>MAP_OMEM\<close>.
\<close>

fun hm_place ::
  "(('k, 'v) hmap \<Rightarrow> 'k \<Rightarrow> int option) \<Rightarrow> (('k, 'v) hmap \<Rightarrow> (int \<times> ('k, 'v) hmap) option) \<Rightarrow>
    nat \<Rightarrow> ('k, 'v) hmap \<Rightarrow> 'k \<Rightarrow> (int \<times> ('k, 'v) hmap) option" where
  "hm_place h rehash 0 m k =
     do { i \<leftarrow> hm_hash h m k; Some (if i = MAP_FULL then MAP_OMEM else i, m) }"
| "hm_place h rehash (Suc n) m k =
     do { i \<leftarrow> hm_hash h m k;
          if i = MAP_FULL
          then do { (status, m') \<leftarrow> rehash m;
                    if status = MAP_OMEM then Some (MAP_OMEM, m') else hm_place h rehash n m' k }
          else Some (i, m) }"

text \<open>
  Insertion and rehashing call each other; the fuel bounds the nesting. One unit is
  enough, since a rehashing never reaches its nested insertion (\<open>hm_put_full\<close> below).
\<close>

fun hm_put ::
  "(('k, 'v) hmap \<Rightarrow> 'k \<Rightarrow> int option) \<Rightarrow> bool \<Rightarrow> nat \<Rightarrow> ('k, 'v) hmap \<Rightarrow> 'k \<Rightarrow> 'v option \<Rightarrow>
    (int \<times> ('k, 'v) hmap) option" where
  "hm_put h ok 0 m k v = None"
| "hm_put h ok (Suc fuel) m k v =
     do { (i, m1) \<leftarrow> hm_place h (hm_rehash (hm_put h ok fuel) ok) 3 m k;
          if i = MAP_OMEM then Some (MAP_OMEM, m1)
          else do { blk \<leftarrow> deref (hm_blocks m1) (hm_data m1);
                    blk' \<leftarrow> wr blk i \<lparr>he_key = Some k, he_in_use = 1, he_data = v\<rparr>;
                    blocks \<leftarrow> modify (hm_blocks m1) (hm_data m1) (\<lambda>_. blk');
                    Some (MAP_OK, m1\<lparr>hm_blocks := blocks, hm_size := hm_size m1 + 1\<rparr>) } }"

text \<open>The value is \<^term>\<open>Some None\<close> when the stored pointer is NULL.\<close>

definition hm_get ::
  "(('k, 'v) hmap \<Rightarrow> 'k \<Rightarrow> int option) \<Rightarrow> ('k, 'v) hmap \<Rightarrow> 'k \<Rightarrow> (int \<times> 'v option) option" where
  "hm_get h m k =
     do { pos \<leftarrow> h m k;
          blk \<leftarrow> deref (hm_blocks m) (hm_data m);
          i \<leftarrow> probe_key blk (hm_table_size m) k pos MAX_CHAIN_LENGTH;
          if i = MAP_MISSING then Some (MAP_MISSING, None)
          else do { e \<leftarrow> rd blk i; Some (MAP_OK, he_data e) } }"

definition hm_remove ::
  "(('k, 'v) hmap \<Rightarrow> 'k \<Rightarrow> int option) \<Rightarrow> ('k, 'v) hmap \<Rightarrow> 'k \<Rightarrow> (int \<times> ('k, 'v) hmap) option" where
  "hm_remove h m k =
     do { pos \<leftarrow> h m k;
          blk \<leftarrow> deref (hm_blocks m) (hm_data m);
          i \<leftarrow> probe_key blk (hm_table_size m) k pos MAX_CHAIN_LENGTH;
          if i = MAP_MISSING then Some (MAP_MISSING, m)
          else do { blk' \<leftarrow> wr blk i free_slot;
                    blocks \<leftarrow> modify (hm_blocks m) (hm_data m) (\<lambda>_. blk');
                    Some (MAP_OK, m\<lparr>hm_blocks := blocks, hm_size := hm_size m - 1\<rparr>) } }"

text \<open>
  The constructor allocates \<^const>\<open>INITIAL_SIZE\<close> slots, whatever size it is asked for. The
  arguments are the outcomes of its two allocations.
\<close>

definition hm_new :: "bool \<Rightarrow> bool \<Rightarrow> int \<Rightarrow> ('k, 'v) hmap option" where
  "hm_new ok_map ok_data initSize =
     (if ok_map \<and> ok_data
      then Some \<lparr>hm_blocks = [0 \<mapsto> replicate INITIAL_SIZE free_slot], hm_fresh = 1,
                 hm_table_size = initSize, hm_size = 0, hm_data = Some 0\<rparr>
      else None)"

definition hm_length :: "('k, 'v) hmap option \<Rightarrow> int" where
  "hm_length mp = (case mp of None \<Rightarrow> 0 | Some m \<Rightarrow> hm_size m)"

section \<open>The two modules\<close>

definition hashmap_new :: "bool \<Rightarrow> bool \<Rightarrow> int \<Rightarrow> (string, 'v) hmap option" where
  "hashmap_new = hm_new"

definition hashmap_hash :: "(string, 'v) hmap \<Rightarrow> string \<Rightarrow> int option" where
  "hashmap_hash = hm_hash hashmap_hash_int"

definition hashmap_put :: "bool \<Rightarrow> (string, 'v) hmap \<Rightarrow> string \<Rightarrow> 'v option \<Rightarrow> (int \<times> (string, 'v) hmap) option" where
  "hashmap_put ok = hm_put hashmap_hash_int ok 1"

definition hashmap_rehash :: "bool \<Rightarrow> (string, 'v) hmap \<Rightarrow> (int \<times> (string, 'v) hmap) option" where
  "hashmap_rehash ok = hm_rehash (hashmap_put ok) ok"

definition hashmap_get :: "(string, 'v) hmap \<Rightarrow> string \<Rightarrow> (int \<times> 'v option) option" where
  "hashmap_get = hm_get hashmap_hash_int"

definition hashmap_remove :: "(string, 'v) hmap \<Rightarrow> string \<Rightarrow> (int \<times> (string, 'v) hmap) option" where
  "hashmap_remove = hm_remove hashmap_hash_int"

definition hashmap_length :: "(string, 'v) hmap option \<Rightarrow> int" where
  "hashmap_length = hm_length"

definition hashmapi_new :: "bool \<Rightarrow> bool \<Rightarrow> int \<Rightarrow> (int, 'v) hmap option" where
  "hashmapi_new = hm_new"

definition hashmapi_hash :: "(int, 'v) hmap \<Rightarrow> int \<Rightarrow> int option" where
  "hashmapi_hash = hm_hash hashmapi_hash_int"

definition hashmapi_put :: "bool \<Rightarrow> (int, 'v) hmap \<Rightarrow> int \<Rightarrow> 'v option \<Rightarrow> (int \<times> (int, 'v) hmap) option" where
  "hashmapi_put ok = hm_put hashmapi_hash_int ok 1"

definition hashmapi_rehash :: "bool \<Rightarrow> (int, 'v) hmap \<Rightarrow> (int \<times> (int, 'v) hmap) option" where
  "hashmapi_rehash ok = hm_rehash (hashmapi_put ok) ok"

text \<open>\<^verbatim>\<open>hashmapi_get\<close> also reads an \<^verbatim>\<open>int\<close> through the value it found.\<close>

definition hashmapi_get :: "(int, 'v) hmap \<Rightarrow> int \<Rightarrow> (int \<times> 'v option) option" where
  "hashmapi_get m k =
     do { (r, v) \<leftarrow> hm_get hashmapi_hash_int m k;
          if r = MAP_OK \<and> v = None then None else Some (r, v) }"

definition hashmapi_remove :: "(int, 'v) hmap \<Rightarrow> int \<Rightarrow> (int \<times> (int, 'v) hmap) option" where
  "hashmapi_remove = hm_remove hashmapi_hash_int"

definition hashmapi_length :: "(int, 'v) hmap option \<Rightarrow> int" where
  "hashmapi_length = hm_length"


section \<open>Invariant\<close>

text \<open>
  The block is live, is not the next one to be allocated, and has at least
  \<^verbatim>\<open>table_size\<close> slots; every used slot has a key. (The
  constructor breaks the first part for a size above \<^const>\<open>INITIAL_SIZE\<close>.)
\<close>

definition hm_wf :: "('k, 'v) hmap \<Rightarrow> bool" where
  "hm_wf m \<longleftrightarrow> 0 < hm_table_size m \<and> hm_table_size m < 2 ^ 31 \<and> hm_data m \<noteq> Some (hm_fresh m) \<and>
     (case deref (hm_blocks m) (hm_data m) of
        None \<Rightarrow> False
      | Some blk \<Rightarrow> hm_table_size m \<le> int (length blk) \<and>
          list_all (\<lambda>e. he_in_use e \<in> {0, 1} \<and> (he_in_use e = 1 \<longrightarrow> he_key e \<noteq> None)) blk)"

definition slots_ok :: "('k, 'v) hm_element list \<Rightarrow> int \<Rightarrow> bool" where
  "slots_ok blk ts \<longleftrightarrow> 0 < ts \<and> ts \<le> int (length blk) \<and>
     (\<forall>e \<in> set blk. he_in_use e \<in> {0, 1} \<and> (he_in_use e = 1 \<longrightarrow> he_key e \<noteq> None))"

lemma hm_wfE:
  assumes "hm_wf m"
  obtains a blk where "hm_data m = Some a" "hm_blocks m a = Some blk" "slots_ok blk (hm_table_size m)"
    "0 < hm_table_size m" "hm_table_size m < 2 ^ 31" "a \<noteq> hm_fresh m"
  using assms by (cases "hm_data m") (auto simp: hm_wf_def slots_ok_def list_all_iff split: option.splits)

lemma hm_wfI:
  "hm_data m = Some a \<Longrightarrow> hm_blocks m a = Some blk \<Longrightarrow> slots_ok blk (hm_table_size m) \<Longrightarrow>
   hm_table_size m < 2 ^ 31 \<Longrightarrow> a \<noteq> hm_fresh m \<Longrightarrow> hm_wf m"
  by (auto simp: hm_wf_def slots_ok_def list_all_iff)

lemma slots_ok_upd:
  "slots_ok blk ts \<Longrightarrow> he_in_use e \<in> {0, 1} \<Longrightarrow> he_in_use e = 1 \<longrightarrow> he_key e \<noteq> None \<Longrightarrow>
   slots_ok (blk[i := e]) ts"
  by (auto simp: slots_ok_def dest!: set_update_subset_insert [THEN subsetD])

lemma hash_index_range:
  assumes "0 < ts" and "ts < 2 ^ 31" and "LENGTH('a) \<ge> 32"
  shows "\<exists>i. hash_index (key :: 'a::len word) ts = Some i \<and> 0 \<le> i \<and> i < ts"
proof -
  have "(2 :: int) ^ 31 \<le> 2 ^ LENGTH('a)" using assms(3) by (intro power_increasing) auto
  then have u: "uint (of_int ts :: 'a word) = ts"
    using assms(1,2) by (simp add: uint_word_of_int take_bit_int_eq_self)
  then have "(of_int ts :: 'a word) \<noteq> 0" using assms(1) by auto
  moreover have "unat (of_int ts :: 'a word) = nat ts" using u by (simp add: unat_eq_nat_uint)
  moreover have "int (unat key mod nat ts) = int (unat key) mod ts" using assms(1) by (simp add: zmod_int)
  ultimately show ?thesis using assms(1) by (auto simp: hash_index_def)
qed

text \<open>What the tables need of a hash function: an index inside the table.\<close>

definition good_hash :: "(('k, 'v) hmap \<Rightarrow> 'k \<Rightarrow> int option) \<Rightarrow> bool" where
  "good_hash h \<longleftrightarrow>
     (\<forall>m k. 0 < hm_table_size m \<and> hm_table_size m < 2 ^ 31 \<longrightarrow>
        (\<exists>i. h m k = Some i \<and> 0 \<le> i \<and> i < hm_table_size m)) \<and>
     (\<forall>m m' k. hm_table_size m = hm_table_size m' \<longrightarrow> h m k = h m' k)"

lemma good_hash_cong: "good_hash h \<Longrightarrow> hm_table_size m = hm_table_size m' \<Longrightarrow> h m k = h m' k"
  unfolding good_hash_def by blast

lemma good_hash_range: "good_hash h \<Longrightarrow> 0 < hm_table_size m \<Longrightarrow> hm_table_size m < 2 ^ 31 \<Longrightarrow>
    \<exists>i. h m k = Some i \<and> 0 \<le> i \<and> i < hm_table_size m"
  unfolding good_hash_def by blast

lemma good_hashmap: "good_hash hashmap_hash_int"
  using hash_index_range [where 'a = 64] by (auto simp: good_hash_def hashmap_hash_int_def)

lemma good_hashmapi: "good_hash hashmapi_hash_int"
  using hash_index_range [where 'a = 32] by (auto simp: good_hash_def hashmapi_hash_int_def)

section \<open>Probing\<close>

lemma slots_ok_at:
  assumes "slots_ok blk ts" and "0 \<le> pos" and "pos < ts"
  obtains e where "rd blk pos = Some e" "blk ! nat pos = e" "nat pos < length blk"
    "he_in_use e = 0 \<or> (he_in_use e = 1 \<and> he_key e \<noteq> None)"
proof -
  have len: "nat pos < length blk" "rd blk pos = Some (blk ! nat pos)"
    using assms by (auto simp: slots_ok_def rd_def)
  then have "blk ! nat pos \<in> set blk" by simp
  then have "he_in_use (blk ! nat pos) = 0 \<or> (he_in_use (blk ! nat pos) = 1 \<and> he_key (blk ! nat pos) \<noteq> None)"
    using assms(1) unfolding slots_ok_def by blast
  with len that show thesis by blast
qed

text \<open>The slots of a window, and those an insertion of \<open>k\<close> may take or a lookup finds.\<close>

definition takes :: "('k, 'v) hm_element list \<Rightarrow> 'k \<Rightarrow> int \<Rightarrow> bool" where
  "takes blk k i \<longleftrightarrow> he_in_use (blk ! nat i) = 0 \<or> he_key (blk ! nat i) = Some k"

lemma probe_free_result:
  assumes "slots_ok blk ts" and "0 \<le> pos" and "pos < ts"
  shows "\<exists>i. probe_free blk ts k pos n = Some i \<and>
    (i = MAP_FULL \<and> (\<forall>j<n. \<not> takes blk k ((pos + int j) mod ts)) \<or>
     0 \<le> i \<and> i < ts \<and> takes blk k i \<and> (\<exists>j<n. i = (pos + int j) mod ts))"
  using assms(2,3)
proof (induction n arbitrary: pos)
  case (Suc n)
  obtain e where e: "rd blk pos = Some e" "blk ! nat pos = e" "nat pos < length blk"
    "he_in_use e = 0 \<or> (he_in_use e = 1 \<and> he_key e \<noteq> None)"
    using slots_ok_at [OF assms(1) Suc.prems] .
  have nxt: "0 \<le> (pos + 1) mod ts" "(pos + 1) mod ts < ts" using Suc.prems by auto
  show ?case
  proof (cases "takes blk k pos")
    case True
    then have "probe_free blk ts k pos (Suc n) = Some pos"
      using e by (auto simp: takes_def slot_has_def split: option.splits)
    moreover have "pos = (pos + int 0) mod ts" using Suc.prems by simp
    ultimately show ?thesis using True Suc.prems by blast
  next
    case False
    then have step: "probe_free blk ts k pos (Suc n) = probe_free blk ts k ((pos + 1) mod ts) n"
      using e by (auto simp: takes_def slot_has_def split: option.splits)
    have sh: "((pos + 1) mod ts + int j) mod ts = (pos + int (Suc j)) mod ts" for j
      by (simp add: mod_add_left_eq add.assoc)
    have p0: "pos mod ts = pos" using Suc.prems by simp
    have win: "(\<forall>j<Suc n. \<not> takes blk k ((pos + int j) mod ts)) \<longleftrightarrow>
        (\<forall>j<n. \<not> takes blk k (((pos + 1) mod ts + int j) mod ts))"
      unfolding sh All_less_Suc2 by (simp add: False p0)
    have win': "(\<exists>j<n. i = ((pos + 1) mod ts + int j) mod ts) \<Longrightarrow> (\<exists>j<Suc n. i = (pos + int j) mod ts)" for i
      unfolding sh by blast
    show ?thesis unfolding step win using Suc.IH [OF nxt] win' by blast
  qed
qed simp

lemma probe_key_after_put:
  assumes "slots_ok blk ts" and "0 \<le> pos" and "pos < ts" and "probe_free blk ts k pos n = Some i" and "0 \<le> i"
  shows "probe_key (blk[nat i := \<lparr>he_key = Some k, he_in_use = 1, he_data = v\<rparr>]) ts k pos n = Some i"
  using assms(2-4)
proof (induction n arbitrary: pos)
  case 0
  then show ?case using assms(5) by (simp add: map_codes)
next
  case (Suc n)
  obtain e where e: "rd blk pos = Some e" "blk ! nat pos = e" "nat pos < length blk"
    "he_in_use e = 0 \<or> (he_in_use e = 1 \<and> he_key e \<noteq> None)"
    using slots_ok_at [OF assms(1) Suc.prems(1,2)] .
  show ?case
  proof (cases "takes blk k pos")
    case True
    then have "i = pos"
      using e Suc.prems(3) by (auto simp: takes_def slot_has_def split: option.splits)
    then show ?thesis using e Suc.prems by (simp add: rd_def slot_has_def)
  next
    case False
    then have step: "probe_free blk ts k ((pos + 1) mod ts) n = Some i"
      using e Suc.prems(3) by (auto simp: takes_def slot_has_def split: option.splits)
    have nxt: "0 \<le> (pos + 1) mod ts" "(pos + 1) mod ts < ts" using Suc.prems by auto
    have "takes blk k i" using probe_free_result [OF assms(1) nxt, of k n] step assms(5)
      by (auto simp: map_codes)
    then have "nat i \<noteq> nat pos" using False by (auto simp: takes_def)
    then show ?thesis
      using Suc.IH [OF nxt step] Suc.prems(1) e False by (auto simp: rd_def slot_has_def takes_def)
  qed
qed

lemma probe_key_other:
  assumes "slots_ok blk ts" and "takes blk k i \<or> he_key e' \<noteq> Some k'" and "takes blk k i" and "k' \<noteq> k"
    and "he_in_use e' \<in> {0, 1}" "he_in_use e' = 1 \<longrightarrow> he_key e' = Some k"
  shows "0 \<le> pos \<Longrightarrow> pos < ts \<Longrightarrow> probe_key (blk[nat i := e']) ts k' pos n = probe_key blk ts k' pos n"
proof (induction n arbitrary: pos)
  case (Suc n)
  obtain e where e: "rd blk pos = Some e" "blk ! nat pos = e" "nat pos < length blk"
    "he_in_use e = 0 \<or> (he_in_use e = 1 \<and> he_key e \<noteq> None)"
    using slots_ok_at [OF assms(1) Suc.prems] .
  have nxt: "0 \<le> (pos + 1) mod ts" "(pos + 1) mod ts < ts" using Suc.prems by auto
  have r: "rd (blk[nat i := e']) pos = Some (if nat i = nat pos then e' else e)"
    using e Suc.prems by (auto simp: rd_def)
  have "slot_has (if nat i = nat pos then e' else e) k' = slot_has e k'"
    using e assms(3-6) by (auto simp: slot_has_def takes_def split: option.splits)
  then show ?case using r e(1) Suc.IH [OF nxt] by (cases "slot_has e k'") simp_all
qed simp


section \<open>Insertion and lookup\<close>

definition hm_lookup ::
  "(('k, 'v) hmap \<Rightarrow> 'k \<Rightarrow> int option) \<Rightarrow> ('k, 'v) hmap \<Rightarrow> 'k \<Rightarrow> 'v option option" where
  "hm_lookup h m k =
     (case hm_get h m k of None \<Rightarrow> None | Some (r, v) \<Rightarrow> if r = MAP_OK then Some v else None)"

lemma probe_key_result:
  assumes "slots_ok blk ts" and "0 \<le> pos" and "pos < ts"
  shows "\<exists>i. probe_key blk ts k pos n = Some i \<and>
    (i = MAP_MISSING \<or> 0 \<le> i \<and> i < ts \<and> he_in_use (blk ! nat i) = 1 \<and> he_key (blk ! nat i) = Some k)"
  using assms(2,3)
proof (induction n arbitrary: pos)
  case (Suc n)
  obtain e where e: "rd blk pos = Some e" "blk ! nat pos = e" "nat pos < length blk"
    "he_in_use e = 0 \<or> (he_in_use e = 1 \<and> he_key e \<noteq> None)"
    using slots_ok_at [OF assms(1) Suc.prems] .
  have nxt: "0 \<le> (pos + 1) mod ts" "(pos + 1) mod ts < ts" using Suc.prems by auto
  have sh: "slot_has e k = Some (he_in_use e = 1 \<and> he_key e = Some k)"
    using e(4) by (auto simp: slot_has_def)
  show ?case
  proof (cases "he_in_use e = 1 \<and> he_key e = Some k")
    case True
    then show ?thesis using e Suc.prems sh by simp
  next
    case False
    then have "probe_key blk ts k pos (Suc n) = probe_key blk ts k ((pos + 1) mod ts) n"
      using False by (auto simp: e(1) sh)
    then show ?thesis using Suc.IH [OF nxt] by presburger
  qed
qed simp

text \<open>The outcomes of the search for a slot.\<close>

lemma hm_hash_result:
  assumes "good_hash h" and "hm_wf m"
  shows "\<exists>i. hm_hash h m k = Some i \<and> (i = MAP_FULL \<or> 0 \<le> i)"
proof -
  from assms(2) obtain a blk where m: "hm_data m = Some a" "hm_blocks m a = Some blk"
    "slots_ok blk (hm_table_size m)" "0 < hm_table_size m" "hm_table_size m < 2 ^ 31" by (rule hm_wfE)
  obtain c where c: "h m k = Some c" "0 \<le> c" "c < hm_table_size m"
    using good_hash_range [OF assms(1) m(4,5)] by blast
  show ?thesis using probe_free_result [OF m(3) c(2,3), of k MAX_CHAIN_LENGTH] c m
    by (auto simp: hm_hash_def)
qed

text \<open>Growing reads the block it has just released.\<close>

lemma hm_rehash_undefined:
  assumes "hm_wf m"
  shows "hm_rehash put True m = None" and "hm_rehash put False m = Some (MAP_OMEM, m)"
proof -
  from assms obtain a blk where m: "hm_data m = Some a" "hm_blocks m a = Some blk"
    "0 < hm_table_size m" "a \<noteq> hm_fresh m" by (rule hm_wfE)
  obtain n where n: "nat (hm_table_size m) = Suc n" using m(3) by (cases "nat (hm_table_size m)") auto
  show "hm_rehash put True m = None" using m n by (simp add: hm_rehash_def Let_def)
  show "hm_rehash put False m = Some (MAP_OMEM, m)" by (simp add: hm_rehash_def)
qed

text \<open>Every outcome of an insertion, whatever the (positive) fuel.\<close>

lemma hm_put_full:
  assumes "good_hash h" and "hm_wf m" and "hm_hash h m k = Some MAP_FULL"
  shows "hm_put h ok (Suc fuel) m k v = (if ok then None else Some (MAP_OMEM, m))"
  using hm_rehash_undefined [OF assms(2)] assms(3) by (cases ok) (simp_all add: numeral_3_eq_3)

lemma hm_put_slot:
  assumes "good_hash h" and "hm_wf m" and "hm_hash h m k = Some i" and "i \<noteq> MAP_FULL"
  shows "\<exists>m'. hm_put h ok (Suc fuel) m k v = Some (MAP_OK, m') \<and> hm_wf m' \<and>
    hm_size m' = hm_size m + 1 \<and> hm_lookup h m' = (hm_lookup h m)(k \<mapsto> v)"
proof -
  from assms(2) obtain a blk where m: "hm_data m = Some a" "hm_blocks m a = Some blk"
    "slots_ok blk (hm_table_size m)" "0 < hm_table_size m" "hm_table_size m < 2 ^ 31"
    "a \<noteq> hm_fresh m" by (rule hm_wfE)
  let ?ts = "hm_table_size m" and ?e = "\<lparr>he_key = Some k, he_in_use = 1, he_data = v\<rparr>"
  obtain c where c: "h m x = Some (c x)" "0 \<le> c x" "c x < ?ts" for x
    using good_hash_range [OF assms(1) m(4,5)] by metis
  have pf: "probe_free blk ?ts k (c k) MAX_CHAIN_LENGTH = Some i"
    using assms(3,4) c(1) m(1,2) by (auto simp: hm_hash_def split: if_splits)
  then have i: "0 \<le> i" "i < ?ts" "takes blk k i"
    using probe_free_result [OF m(3) c(2,3), of k k MAX_CHAIN_LENGTH] assms(4) by auto
  have il: "nat i < length blk" using i m(3) by (auto simp: slots_ok_def)
  let ?m' = "m\<lparr>hm_blocks := (hm_blocks m)(a \<mapsto> blk[nat i := ?e]), hm_size := hm_size m + 1\<rparr>"
  have put: "hm_put h ok (Suc fuel) m k v = Some (MAP_OK, ?m')"
    using assms(3,4) i il m(1,2) by (simp add: numeral_3_eq_3 map_codes wr_def)
  have wf: "hm_wf ?m'" by (rule hm_wfI [where a = a and blk = "blk[nat i := ?e]"]) (use m slots_ok_upd [OF m(3), of ?e "nat i"] in auto)
  have hsame: "h ?m' x = Some (c x)" for x
    using good_hash_cong [OF assms(1), of ?m' m x] c(1) [of x] by simp
  have "hm_lookup h ?m' x = ((hm_lookup h m)(k \<mapsto> v)) x" for x
  proof (cases "x = k")
    case True
    have "probe_key (blk[nat i := ?e]) ?ts k (c k) MAX_CHAIN_LENGTH = Some i"
      by (rule probe_key_after_put [OF m(3) c(2,3) pf i(1)])
    then show ?thesis
      using True hsame m(1,2) i(1) il by (simp add: hm_lookup_def hm_get_def map_codes rd_def)
  next
    case False
    have same: "probe_key (blk[nat i := ?e]) ?ts x (c x) MAX_CHAIN_LENGTH =
        probe_key blk ?ts x (c x) MAX_CHAIN_LENGTH"
      by (rule probe_key_other [OF m(3) _ i(3) False]) (use i(3) c in auto)
    obtain j where j: "probe_key blk ?ts x (c x) MAX_CHAIN_LENGTH = Some j"
      "j = MAP_MISSING \<or> 0 \<le> j \<and> j < ?ts \<and> he_in_use (blk ! nat j) = 1 \<and> he_key (blk ! nat j) = Some x"
      using probe_key_result [OF m(3) c(2,3), of x x] by blast
    have "nat j \<noteq> nat i" if "j \<noteq> MAP_MISSING"
      using j(2) that i(3) False by (auto simp: takes_def)
    then have "rd (blk[nat i := ?e]) j = rd blk j" if "j \<noteq> MAP_MISSING"
      using that j(2) by (auto simp: rd_def)
    then show ?thesis
      using False hsame c(1) [of x] m(1,2) same j(1) by (simp add: hm_lookup_def hm_get_def)
  qed
  then show ?thesis using put wf by auto
qed

section \<open>Both modules as tables\<close>

definition hashmap_lookup :: "(string, 'v) hmap \<Rightarrow> string \<Rightarrow> 'v option option" where
  "hashmap_lookup m k =
     (case hashmap_get m k of None \<Rightarrow> None | Some (r, v) \<Rightarrow> if r = MAP_OK then Some v else None)"

definition hashmap_store :: "string \<Rightarrow> 'v option \<Rightarrow> (string, 'v) hmap \<Rightarrow> (string, 'v) hmap option" where
  "hashmap_store k v m =
     (case hashmap_put True m k v of None \<Rightarrow> None | Some (r, m') \<Rightarrow> if r = MAP_OK then Some m' else None)"

definition hashmapi_lookup :: "(int, 'v) hmap \<Rightarrow> int \<Rightarrow> 'v option option" where
  "hashmapi_lookup m k =
     (case hm_get hashmapi_hash_int m k of None \<Rightarrow> None | Some (r, v) \<Rightarrow> if r = MAP_OK then Some v else None)"

definition hashmapi_store :: "int \<Rightarrow> 'v option \<Rightarrow> (int, 'v) hmap \<Rightarrow> (int, 'v) hmap option" where
  "hashmapi_store k v m =
     (case hashmapi_put True m k v of None \<Rightarrow> None | Some (r, m') \<Rightarrow> if r = MAP_OK then Some m' else None)"

lemma hm_put_store:
  assumes "good_hash h" and "hm_wf m" and "hm_put h True 1 m k v = Some (r, m')" and "r = MAP_OK"
  shows "hm_wf m' \<and> hm_size m' = hm_size m + 1 \<and> hm_lookup h m' = (hm_lookup h m)(k \<mapsto> v)"
proof -
  obtain i where i: "hm_hash h m k = Some i" using hm_hash_result [OF assms(1,2)] by blast
  show ?thesis
    using hm_put_full [OF assms(1,2), of k True 0 v] hm_put_slot [OF assms(1,2) i, of True 0 v] i assms(3)
    by (cases "i = MAP_FULL") auto
qed

interpretation hmap: table hashmap_lookup hashmap_store hm_wf
proof unfold_locales
  fix m m' :: "(string, 'v) hmap" and k v
  assume wf: "hm_wf m" and "hashmap_store k v m = Some m'"
  then have "hm_put hashmap_hash_int True 1 m k v = Some (MAP_OK, m')"
    by (auto simp: hashmap_store_def hashmap_put_def split: option.splits prod.splits if_splits)
  from hm_put_store [OF good_hashmap wf this refl]
  show "hm_wf m'" and "hashmap_lookup m' = (hashmap_lookup m)(k \<mapsto> v)"
    by (auto simp: hashmap_lookup_def hm_lookup_def hashmap_get_def fun_eq_iff)
qed

interpretation hmapi: table hashmapi_lookup hashmapi_store hm_wf
proof unfold_locales
  fix m m' :: "(int, 'v) hmap" and k v
  assume wf: "hm_wf m" and "hashmapi_store k v m = Some m'"
  then have "hm_put hashmapi_hash_int True 1 m k v = Some (MAP_OK, m')"
    by (auto simp: hashmapi_store_def hashmapi_put_def split: option.splits prod.splits if_splits)
  from hm_put_store [OF good_hashmapi wf this refl]
  show "hm_wf m'" and "hashmapi_lookup m' = (hashmapi_lookup m)(k \<mapsto> v)"
    by (auto simp: hashmapi_lookup_def hm_lookup_def fun_eq_iff)
qed

lemma hm_new_lookup:
  fixes h :: "('k, 'v) hmap \<Rightarrow> 'k \<Rightarrow> int option"
  assumes "good_hash h" and "0 < n" and "n \<le> int INITIAL_SIZE" and "hm_new True True n = Some m"
  shows "hm_lookup h m k = None"
proof -
  let ?blk = "replicate INITIAL_SIZE (free_slot :: ('k, 'v) hm_element)"
  have m: "hm_blocks m 0 = Some ?blk" "hm_data m = Some 0" "hm_table_size m = n"
    using assms(4) by (auto simp: hm_new_def)
  have ok: "slots_ok ?blk n"
    using assms(2,3) by (auto simp: slots_ok_def free_slot_def)
  obtain c where c: "h m k = Some c" "0 \<le> c" "c < n"
    using good_hash_range [OF assms(1), of m k] m(3) assms(2,3) by (auto simp: INITIAL_SIZE_def)
  obtain i where i: "probe_key ?blk n k c MAX_CHAIN_LENGTH = Some i"
    "i = MAP_MISSING \<or> 0 \<le> i \<and> i < n \<and> he_in_use (?blk ! nat i) = 1 \<and> he_key (?blk ! nat i) = Some k"
    using probe_key_result [OF ok c(2,3)] by blast
  have "?blk ! nat i = free_slot" if "0 \<le> i" "i < n"
    using that assms(3) by (intro nth_replicate) linarith
  then have "i = MAP_MISSING" using i(2) by (auto simp: free_slot_def)
  then show ?thesis using c(1) m i(1) by (simp add: hm_lookup_def hm_get_def map_codes)
qed

lemma hm_new_wf:
  assumes "0 < n" and "n \<le> int INITIAL_SIZE" and "hm_new True True n = Some m"
  shows "hm_wf m"
  using assms by (auto simp: hm_new_def hm_wf_def INITIAL_SIZE_def free_slot_def list_all_iff)


section \<open>Properties\<close>

lemma hm_get_total:
  assumes "good_hash h" and "hm_wf m"
  shows "hm_get h m k = Some (case hm_lookup h m k of Some v \<Rightarrow> (MAP_OK, v) | None \<Rightarrow> (MAP_MISSING, None))"
proof -
  from assms(2) obtain a blk where m: "hm_data m = Some a" "hm_blocks m a = Some blk"
    "slots_ok blk (hm_table_size m)" "0 < hm_table_size m" "hm_table_size m < 2 ^ 31" by (rule hm_wfE)
  obtain c where c: "h m k = Some c" "0 \<le> c" "c < hm_table_size m"
    using good_hash_range [OF assms(1) m(4,5)] by blast
  obtain i where i: "probe_key blk (hm_table_size m) k c MAX_CHAIN_LENGTH = Some i"
    "i = MAP_MISSING \<or> 0 \<le> i \<and> i < hm_table_size m"
    using probe_key_result [OF m(3) c(2,3)] by blast
  show ?thesis
  proof (cases "i = MAP_MISSING")
    case False
    then have "rd blk i = Some (blk ! nat i)" using i(2) m(3) by (auto simp: slots_ok_def rd_def)
    then show ?thesis using False c m i by (simp add: hm_lookup_def hm_get_def)
  qed (use c m i in \<open>simp add: hm_lookup_def hm_get_def map_codes\<close>)
qed

text \<open>The window of a key has a slot an insertion can take.\<close>

definition window_free :: "(('k, 'v) hmap \<Rightarrow> 'k \<Rightarrow> int option) \<Rightarrow> ('k, 'v) hmap \<Rightarrow> 'k \<Rightarrow> bool" where
  "window_free h m k \<longleftrightarrow> hm_size m < hm_table_size m \<and>
     (case (h m k, deref (hm_blocks m) (hm_data m)) of
        (Some c, Some blk) \<Rightarrow>
          list_ex (\<lambda>j. takes blk k ((c + int j) mod hm_table_size m)) [0..<MAX_CHAIN_LENGTH]
      | _ \<Rightarrow> False)"

lemma hm_hash_window:
  assumes "good_hash h" and "hm_wf m"
  shows "\<exists>i. hm_hash h m k = Some i \<and> (i \<noteq> MAP_FULL \<longleftrightarrow> window_free h m k)"
proof -
  from assms(2) obtain a blk where m: "hm_data m = Some a" "hm_blocks m a = Some blk"
    "slots_ok blk (hm_table_size m)" "0 < hm_table_size m" "hm_table_size m < 2 ^ 31" by (rule hm_wfE)
  obtain c where c: "h m k = Some c" "0 \<le> c" "c < hm_table_size m"
    using good_hash_range [OF assms(1) m(4,5)] by blast
  have w: "list_ex (\<lambda>j. takes blk k ((c + int j) mod hm_table_size m)) [0..<MAX_CHAIN_LENGTH]
      \<longleftrightarrow> (\<exists>j<MAX_CHAIN_LENGTH. takes blk k ((c + int j) mod hm_table_size m))" by (auto simp: list_ex_iff)
  obtain i where i: "probe_free blk (hm_table_size m) k c MAX_CHAIN_LENGTH = Some i"
    "i = MAP_FULL \<and> (\<forall>j<MAX_CHAIN_LENGTH. \<not> takes blk k ((c + int j) mod hm_table_size m)) \<or>
     0 \<le> i \<and> i < hm_table_size m \<and> takes blk k i \<and> (\<exists>j<MAX_CHAIN_LENGTH. i = (c + int j) mod hm_table_size m)"
    using probe_free_result [OF m(3) c(2,3)] by blast
  have wf: "window_free h m k \<longleftrightarrow> hm_size m < hm_table_size m \<and> i \<noteq> MAP_FULL"
    using i(2) c(1) m(1,2) w by (auto simp: window_free_def map_codes)
  have "hm_hash h m k = Some (if hm_size m < hm_table_size m then i else MAP_FULL)"
    using c(1) m(1,2) i(1) by (simp add: hm_hash_def)
  then show ?thesis using wf by auto
qed

lemma hmap_insert_all_size:
  "hm_wf m \<Longrightarrow> hmap.insert_all ps m = Some m' \<Longrightarrow> hm_size m' = hm_size m + int (length ps)"
proof (induction ps arbitrary: m)
  case (Cons p ps)
  then obtain m1 where m1: "hashmap_store (fst p) (snd p) m = Some m1" "hmap.insert_all ps m1 = Some m'"
    by (auto simp: Option.bind_eq_Some_conv)
  then have "hm_put hashmap_hash_int True 1 m (fst p) (snd p) = Some (MAP_OK, m1)"
    by (auto simp: hashmap_store_def hashmap_put_def split: option.splits prod.splits if_splits)
  from hm_put_store [OF good_hashmap Cons.prems(1) this refl] show ?case
    using Cons.IH [OF _ m1(2)] by simp
qed simp

text \<open>While fewer slots are used than a window has, an insertion finds a place.\<close>

definition hm_used :: "('k, 'v) hmap \<Rightarrow> nat" where
  "hm_used m = (case deref (hm_blocks m) (hm_data m) of
     None \<Rightarrow> 0 | Some blk \<Rightarrow> length (filter (\<lambda>e. he_in_use e \<noteq> 0) blk))"

lemma window_distinct:
  assumes "int n \<le> ts"
  shows "inj_on (\<lambda>j. nat ((c + int j) mod ts)) {..<n}"
proof (rule inj_onI)
  fix i j assume ij: "i \<in> {..<n}" "j \<in> {..<n}" "nat ((c + int i) mod ts) = nat ((c + int j) mod ts)"
  then have "0 < ts" using assms by auto
  then have "(c + int i) mod ts = (c + int j) mod ts" using ij(3) by (simp add: eq_nat_nat_iff)
  then have "int i mod ts = int j mod ts" using mod_add_cong [of "c + int i" ts "c + int j" "- c" "- c"] by simp
  then show "i = j" using ij(1,2) assms by simp
qed

lemma window_free_few:
  assumes "good_hash h" "hm_wf m" "hm_used m < MAX_CHAIN_LENGTH" "int MAX_CHAIN_LENGTH \<le> hm_table_size m"
    "hm_size m < hm_table_size m"
  shows "window_free h m k"
proof -
  from assms(2) obtain a blk where m: "hm_data m = Some a" "hm_blocks m a = Some blk"
    "slots_ok blk (hm_table_size m)" "0 < hm_table_size m" "hm_table_size m < 2 ^ 31" by (rule hm_wfE)
  obtain c where c: "h m k = Some c" using good_hash_range [OF assms(1) m(4,5)] by blast
  let ?f = "\<lambda>j. nat ((c + int j) mod hm_table_size m)" and ?U = "{i. i < length blk \<and> he_in_use (blk ! i) \<noteq> 0}"
  have "\<exists>j<MAX_CHAIN_LENGTH. takes blk k ((c + int j) mod hm_table_size m)"
  proof (rule ccontr)
    assume n: "\<not> (\<exists>j<MAX_CHAIN_LENGTH. takes blk k ((c + int j) mod hm_table_size m))"
    have "?f j \<in> ?U" if "j < MAX_CHAIN_LENGTH" for j
    proof -
      have "0 \<le> (c + int j) mod hm_table_size m" "(c + int j) mod hm_table_size m < hm_table_size m"
        using m(4) by simp_all
      then have "?f j < length blk" using m(3) unfolding slots_ok_def by linarith
      then show ?thesis using n that by (auto simp: takes_def)
    qed
    then have "?f ` {..<MAX_CHAIN_LENGTH} \<subseteq> ?U" by blast
    then have "card (?f ` {..<MAX_CHAIN_LENGTH}) \<le> card ?U" by (intro card_mono) auto
    then have "MAX_CHAIN_LENGTH \<le> card ?U" using card_image [OF window_distinct [OF assms(4), of c]] by simp
    then show False using assms(3) m(1,2) by (simp add: hm_used_def length_filter_conv_card)
  qed
  then show ?thesis using c m(1,2) assms(5) by (auto simp: window_free_def list_ex_iff)
qed

lemma hm_put_few:
  assumes "good_hash h" "hm_wf m" "hm_used m < MAX_CHAIN_LENGTH" "int MAX_CHAIN_LENGTH \<le> hm_table_size m"
    "hm_size m < hm_table_size m"
  obtains m' where "hm_put h ok (Suc fuel) m k v = Some (MAP_OK, m')" "hm_wf m'" "hm_size m' = hm_size m + 1"
    "hm_lookup h m' = (hm_lookup h m)(k \<mapsto> v)" "hm_table_size m' = hm_table_size m" "hm_used m' \<le> hm_used m + 1"
proof -
  obtain i where i: "hm_hash h m k = Some i" "i \<noteq> MAP_FULL"
    using hm_hash_window [OF assms(1,2), of k] window_free_few [OF assms, of k] by blast
  obtain m' where m': "hm_put h ok (Suc fuel) m k v = Some (MAP_OK, m')" "hm_wf m'" "hm_size m' = hm_size m + 1"
    "hm_lookup h m' = (hm_lookup h m)(k \<mapsto> v)" using hm_put_slot [OF assms(1,2) i] by blast
  from assms(2) obtain a blk where m: "hm_data m = Some a" "hm_blocks m a = Some blk" by (rule hm_wfE)
  have "0 \<le> i" "i \<noteq> MAP_OMEM" using hm_hash_result [OF assms(1,2), of k] i by (auto simp: map_codes)
  then obtain b where b: "wr blk i \<lparr>he_key = Some k, he_in_use = 1, he_data = v\<rparr> = Some b"
    "m' = m\<lparr>hm_blocks := (hm_blocks m)(a \<mapsto> b), hm_size := hm_size m + 1\<rparr>"
    using m'(1) i m by (auto simp: numeral_3_eq_3 bind_eq_Some_conv)
  have "nat i < length blk" using b(1) by (auto simp: wr_Some_iff nat_less_iff)
  then have "length (filter (\<lambda>e. he_in_use e \<noteq> 0) b) \<le> length (filter (\<lambda>e. he_in_use e \<noteq> 0) blk) + 1"
    using b(1) filter_length_update [of "nat i" blk "\<lambda>e. he_in_use e \<noteq> 0" "\<lparr>he_key = Some k, he_in_use = 1, he_data = v\<rparr>"]
    by (auto simp: wr_Some_iff split: if_splits)
  then show ?thesis using that m' b(2) m by (simp add: hm_used_def)
qed

lemma hm_new_used: "hm_new True True n = Some m \<Longrightarrow> hm_used m = 0 \<and> hm_size m = 0 \<and> hm_table_size m = n"
  by (auto simp: hm_new_def hm_used_def free_slot_def)
text \<open>
  C39: After any sequence of successful insertions into a fresh map of a size the
  constructor can serve, at most \<^const>\<open>INITIAL_SIZE\<close>, \<^verbatim>\<open>hashmap_get\<close> returns the last value put for each key, NULL
  included, and \<^const>\<open>MAP_MISSING\<close> for the others; the length counts the insertions, those
  that overwrite a key included.
\<close>

theorem hashmap_fill_get:
  assumes "0 < n" and "n \<le> int INITIAL_SIZE" and "hashmap_new True True n = Some m0"
    and "hmap.insert_all ps m0 = Some m"
  shows "hashmap_get m k =
      Some (case map_of (rev ps) k of Some v \<Rightarrow> (MAP_OK, v) | None \<Rightarrow> (MAP_MISSING, None)) \<and>
    hashmap_length (Some m) = int (length ps)"
proof -
  have wf: "hm_wf m0" using hm_new_wf [OF assms(1,2)] assms(3) by (simp add: hashmap_new_def)
  have wf': "hm_wf m" using hmap.insert_all_inv [OF wf assms(4)] .
  have z: "hashmap_lookup m0 = Map.empty"
  proof
    fix x
    have "hm_lookup hashmap_hash_int m0 x = None"
      using hm_new_lookup [OF good_hashmap assms(1,2)] assms(3) by (simp add: hashmap_new_def)
    then show "hashmap_lookup m0 x = None" by (simp add: hashmap_lookup_def hm_lookup_def hashmap_get_def)
  qed
  have "hashmap_lookup m = map_of (rev ps)"
    using hmap.insert_all_last [OF wf assms(4)] z by simp
  then have "hm_lookup hashmap_hash_int m = map_of (rev ps)"
    by (simp add: fun_eq_iff hashmap_lookup_def hm_lookup_def hashmap_get_def)
  moreover have "hm_size m0 = 0" using assms(3) by (auto simp: hashmap_new_def hm_new_def)
  ultimately show ?thesis
    using hm_get_total [OF good_hashmap wf'] hmap_insert_all_size [OF wf assms(4)]
    by (simp add: hashmap_get_def hashmap_length_def hm_length_def)
qed


lemma hashmap_new_first_put:
  assumes "hashmap_new True True 16 = Some m"
  shows "\<exists>m'. hashmap_store k v m = Some m'"
proof -
  have wf: "hm_wf m" using hm_new_wf [of 16 m] assms by (simp add: hashmap_new_def INITIAL_SIZE_def)
  have m: "hm_blocks m 0 = Some (replicate INITIAL_SIZE free_slot)" "hm_data m = Some 0" "hm_table_size m = 16"
    "hm_size m = 0" using assms by (auto simp: hashmap_new_def hm_new_def)
  obtain c where c: "hashmap_hash_int m k = Some c" "0 \<le> c" "c < 16"
    using good_hash_range [OF good_hashmap, of m k] m(3) by auto
  have "replicate INITIAL_SIZE free_slot ! nat c = (free_slot :: (string, 'a) hm_element)"
    using c by (intro nth_replicate) (auto simp: INITIAL_SIZE_def)
  then have "takes (replicate INITIAL_SIZE (free_slot :: (string, 'a) hm_element)) k ((c + int 0) mod 16)"
    using c by (simp add: takes_def free_slot_def)
  then have w: "window_free hashmap_hash_int m k"
    using c(1) m by (auto simp: window_free_def list_ex_iff MAX_CHAIN_LENGTH_def intro!: bexI [of _ 0])
  obtain i where "hm_hash hashmap_hash_int m k = Some i" "i \<noteq> MAP_FULL"
    using hm_hash_window [OF good_hashmap wf, of k] w by auto
  from hm_put_slot [OF good_hashmap wf this, of True 0 v] show ?thesis
    by (auto simp: hashmap_store_def hashmap_put_def)
qed

theorem hashmap_fill_get_witness:
  "\<exists>m0 m. hashmap_new True True 16 = Some m0 \<and> hmap.insert_all [(''key'', Some (7 :: int))] m0 = Some m \<and>
    hashmap_get m ''key'' = Some (MAP_OK, Some 7) \<and> hashmap_get m ''other'' = Some (MAP_MISSING, None)"
proof -
  obtain m0 where m0: "hashmap_new True True 16 = Some (m0 :: (string, int) hmap)"
    by (simp add: hashmap_new_def hm_new_def)
  obtain m where "hashmap_store ''key'' (Some (7 :: int)) m0 = Some m"
    using hashmap_new_first_put [OF m0] by blast
  then have m: "hmap.insert_all [(''key'', Some (7 :: int))] m0 = Some m" by simp
  show ?thesis
    using hashmap_fill_get [OF _ _ m0 m, of "''key''"] hashmap_fill_get [OF _ _ m0 m, of "''other''"] m0 m
    by (auto simp: INITIAL_SIZE_def)
qed

text \<open>
  Every outcome of \<^verbatim>\<open>hashmap_put\<close>. With a free slot or the key in the window and room in
  the table it stores the value; otherwise it must grow, which reports \<^const>\<open>MAP_OMEM\<close> and
  changes nothing when memory is short, and reads a released block when it is not.
\<close>

theorem hashmap_put_outcomes:
  assumes "hm_wf m"
  shows "if window_free hashmap_hash_int m k
    then \<exists>m'. hashmap_put ok m k v = Some (MAP_OK, m') \<and> hm_wf m' \<and> hm_size m' = hm_size m + 1 \<and>
           hashmap_lookup m' = (hashmap_lookup m)(k \<mapsto> v)
    else hashmap_put ok m k v = (if ok then None else Some (MAP_OMEM, m))"
proof -
  obtain i where i: "hm_hash hashmap_hash_int m k = Some i"
    "i \<noteq> MAP_FULL \<longleftrightarrow> window_free hashmap_hash_int m k"
    using hm_hash_window [OF good_hashmap assms] by blast
  have l: "hashmap_lookup = hm_lookup hashmap_hash_int"
    by (simp add: fun_eq_iff hashmap_lookup_def hm_lookup_def hashmap_get_def)
  show ?thesis
    using hm_put_slot [OF good_hashmap assms i(1), of ok 0 v] hm_put_full [OF good_hashmap assms, of k ok 0 v] i
    by (auto simp: hashmap_put_def l)
qed

text \<open>A table with a single slot for the witnesses.\<close>

definition one_slot :: "(string, int) hmap" where
  "one_slot = \<lparr>hm_blocks = [0 \<mapsto> [\<lparr>he_key = Some ''k'', he_in_use = 1, he_data = Some 1\<rparr>]],
     hm_fresh = 1, hm_table_size = 1, hm_size = 1, hm_data = Some 0\<rparr>"

theorem hashmap_put_outcomes_witness:
  "hashmap_put True one_slot ''k'' (Some 2) = None \<and>
   hashmap_put False one_slot ''k'' (Some 2) = Some (MAP_OMEM, one_slot)"
proof -
  have wf: "hm_wf one_slot" by (simp add: hm_wf_def one_slot_def)
  have "\<not> window_free hashmap_hash_int one_slot ''k''" by (simp add: window_free_def one_slot_def)
  then show ?thesis
    using hashmap_put_outcomes [OF wf, of "''k''" True "Some 2"]
      hashmap_put_outcomes [OF wf, of "''k''" False "Some 2"] by simp
qed

text \<open>
  Removal does not keep the table a map. Two keys share a slot; after the first is
  removed the second is inserted again in front of its old slot, and removing it brings
  its old value back.
\<close>

definition four_slots :: "(string, int) hmap" where
  "four_slots = \<lparr>hm_blocks = [0 \<mapsto> replicate 4 free_slot], hm_fresh = 1, hm_table_size = 4,
     hm_size = 0, hm_data = Some 0\<rparr>"

lemma same_slot:
  assumes "hm_table_size m = 4"
  shows "hashmap_hash_int m ''x'' = Some 2" "hashmap_hash_int m ''a'' = Some 2"
proof -
  have "crc32 ''x'' = 0x5edef90e" "crc32 ''a'' = 0x3ab551ce"
    by (simp_all add: crc32_def crc32_tab_def)
  then show "hashmap_hash_int m ''x'' = Some 2" "hashmap_hash_int m ''a'' = Some 2"
    using assms by (simp_all add: hashmap_hash_int_def hash_index_def mix_def Let_def)
qed

lemma chain_start: "MAX_CHAIN_LENGTH = Suc (Suc 14)"
  by (simp add: MAX_CHAIN_LENGTH_def)

theorem hashmap_remove_stale:
  "do { (_, m1) \<leftarrow> hashmap_put True four_slots ''x'' (Some 1);
        (_, m2) \<leftarrow> hashmap_put True m1 ''a'' (Some 2);
        (_, m3) \<leftarrow> hashmap_remove m2 ''x'';
        (_, m4) \<leftarrow> hashmap_put True m3 ''a'' (Some 3);
        (_, m5) \<leftarrow> hashmap_remove m4 ''a'';
        hashmap_get m5 ''a'' } = Some (MAP_OK, Some 2)"
  by (simp add: hashmap_put_def hashmap_remove_def hashmap_get_def hm_remove_def hm_get_def hm_hash_def
      same_slot chain_start four_slots_def free_slot_def slot_has_def map_codes rd_def wr_def
      eval_nat_numeral)

end
