(* ===== verification/Vector.thy ===== *)
theory Vector
  imports Prelude
begin

text \<open>
  \<^verbatim>\<open>udpclient/udpserver/datastruct/vector.c\<close>: a growable array of pointers. The elements
  are addresses; the operations that release one return the address they pass to
  \<^verbatim>\<open>free\<close>. Allocation is assumed to succeed, as in the code, and fresh slots hold an
  indeterminate pointer, given as an argument.
\<close>

section \<open>Data and operations\<close>

record vector =
  v_data :: "ptr list"
  v_size :: int
  v_count :: int

definition INITIAL_VECTOR_SIZE :: int where "INITIAL_VECTOR_SIZE = 4"

definition vector_init :: vector where
  "vector_init = \<lparr>v_data = replicate (nat INITIAL_VECTOR_SIZE) None, v_size = INITIAL_VECTOR_SIZE, v_count = 0\<rparr>"

definition vector_count :: "vector \<Rightarrow> int" where
  "vector_count v = v_count v"

definition vector_add :: "ptr \<Rightarrow> vector \<Rightarrow> ptr \<Rightarrow> vector option" where
  "vector_add junk v e =
     (let v1 = (if v_size v = v_count v
                then v\<lparr>v_size := v_size v * 2,
                       v_data := take (nat (v_size v * 2)) (v_data v) @
                                 replicate (nat (v_size v * 2) - length (v_data v)) junk\<rparr>
                else v)
      in do { d \<leftarrow> wr (v_data v1) (v_count v1) e;
              Some (v1\<lparr>v_data := d, v_count := v_count v1 + 1\<rparr>) })"

definition vector_set :: "vector \<Rightarrow> int \<Rightarrow> ptr \<Rightarrow> (int \<times> vector) option" where
  "vector_set v index e =
     (if index \<ge> v_count v \<or> index < 0 then Some (-1, v)
      else do { d \<leftarrow> wr (v_data v) index e; Some (index, v\<lparr>v_data := d\<rparr>) })"

definition vector_get :: "vector \<Rightarrow> int \<Rightarrow> ptr option" where
  "vector_get v index = (if index \<ge> v_count v \<or> index < 0 then Some None else rd (v_data v) index)"

text \<open>The loop of \<^verbatim>\<open>vector_delete\<close> assigns the same slot every time.\<close>

fun delete_loop :: "ptr list \<Rightarrow> int \<Rightarrow> nat \<Rightarrow> ptr list option" where
  "delete_loop d index 0 = Some d"
| "delete_loop d index (Suc n) =
     do { x \<leftarrow> rd d (index + 1); d' \<leftarrow> wr d index x; delete_loop d' index n }"

text \<open>The result has the address passed to \<^verbatim>\<open>free\<close>, if any.\<close>

definition vector_delete :: "vector \<Rightarrow> int \<Rightarrow> (ptr option \<times> vector) option" where
  "vector_delete v index =
     (if index \<ge> v_count v \<or> index < 0 then Some (None, v)
      else do { d \<leftarrow> delete_loop (v_data v) index (nat (v_count v - 1 - index));
                freed \<leftarrow> rd d (v_count v - 1);
                Some (Some freed, v\<lparr>v_data := d, v_count := v_count v - 1\<rparr>) })"

fun free_each :: "ptr list \<Rightarrow> int \<Rightarrow> nat \<Rightarrow> ptr list option" where
  "free_each d i 0 = Some []"
| "free_each d i (Suc n) = do { p \<leftarrow> rd d i; ps \<leftarrow> free_each d (i + 1) n; Some (p # ps) }"

definition vector_free :: "vector \<Rightarrow> ptr list option" where
  "vector_free v = free_each (v_data v) 0 (nat (v_count v))"

section \<open>Invariant and contents\<close>

definition vector_wf :: "vector \<Rightarrow> bool" where
  "vector_wf v \<longleftrightarrow> 0 < v_size v \<and> int (length (v_data v)) = v_size v \<and>
     0 \<le> v_count v \<and> v_count v \<le> v_size v"

definition elems :: "vector \<Rightarrow> ptr list" where
  "elems v = take (nat (v_count v)) (v_data v)"

lemma vector_wfE:
  assumes "vector_wf v"
  obtains n where "v_count v = int n" "n \<le> length (v_data v)" "v_size v = int (length (v_data v))"
    "length (elems v) = n" "0 < length (v_data v)"
proof (rule that [of "nat (v_count v)"])
  show "v_count v = int (nat (v_count v))" "v_size v = int (length (v_data v))" "0 < length (v_data v)"
    "nat (v_count v) \<le> length (v_data v)"
    using assms unfolding vector_wf_def by linarith+
  then show "length (elems v) = nat (v_count v)" by (simp add: elems_def)
qed

lemma vector_init_wf: "vector_wf vector_init \<and> elems vector_init = []"
  by (simp add: vector_wf_def vector_init_def elems_def INITIAL_VECTOR_SIZE_def)

lemma vector_add_elems:
  assumes "vector_wf v"
  shows "\<exists>v'. vector_add junk v e = Some v' \<and> vector_wf v' \<and> elems v' = elems v @ [e]"
proof -
  from assms obtain n where v: "v_count v = int n" "n \<le> length (v_data v)" "v_size v = int (length (v_data v))"
    "length (elems v) = n" "0 < length (v_data v)" by (rule vector_wfE)
  show ?thesis
  proof (cases "n = length (v_data v)")
    case True
    let ?d = "v_data v @ replicate (length (v_data v)) junk"
    have "take (nat (v_size v * 2)) (v_data v) @ replicate (nat (v_size v * 2) - length (v_data v)) junk = ?d"
      using v(3) by (simp add: nat_mult_distrib)
    then have "vector_add junk v e =
        Some (v\<lparr>v_size := v_size v * 2, v_data := ?d[n := e], v_count := int n + 1\<rparr>)"
      using v True by (simp add: vector_add_def Let_def)
    moreover have "1 \<le> length (v_data v)" using v(5) by linarith
    ultimately show ?thesis
      using v True by (simp add: vector_wf_def elems_def nat_add_distrib take_Suc_conv_app_nth nth_append Suc_le_eq)
  next
    case False
    then have "vector_add junk v e = Some (v\<lparr>v_data := (v_data v)[n := e], v_count := int n + 1\<rparr>)"
      using v by (simp add: vector_add_def Let_def)
    then show ?thesis
      using v False by (simp add: vector_wf_def elems_def nat_add_distrib take_Suc_conv_app_nth)
  qed
qed

lemma delete_loop_first:
  "i + 1 < length d \<Longrightarrow> delete_loop d (int i) (Suc n) = Some (d[i := d ! (i + 1)])"
proof (induction n arbitrary: d)
  case 0
  have "rd d (int i + 1) = Some (d ! (i + 1))" using 0 by (simp add: rd_def nat_add_distrib)
  then show ?case using 0 by simp
next
  case (Suc n)
  have r: "rd d (int i + 1) = Some (d ! (i + 1))" using Suc.prems by (simp add: rd_def nat_add_distrib)
  have "delete_loop d (int i) (Suc (Suc n)) = delete_loop (d[i := d ! (i + 1)]) (int i) (Suc n)"
    by (subst delete_loop.simps) (use Suc.prems in \<open>simp add: r del: delete_loop.simps\<close>)
  then show ?case using Suc.IH [of "d[i := d ! (i + 1)]"] Suc.prems by (simp del: delete_loop.simps)
qed

section \<open>Properties\<close>

text \<open>
  \<^verbatim>\<open>vector_add\<close> appends, growing when full; \<^verbatim>\<open>vector_get\<close> and \<^verbatim>\<open>vector_set\<close> then read and
  replace exactly the element at an index in range, and reject any other index.
\<close>

theorem vector_elements:
  assumes "vector_wf v"
  shows "\<exists>v'. vector_add junk v e = Some v' \<and> vector_wf v' \<and> elems v' = elems v @ [e] \<and>
    vector_get v' i = Some (if 0 \<le> i \<and> i < int (length (elems v')) then elems v' ! nat i else None) \<and>
    (\<exists>v''. vector_set v' i x = Some (if 0 \<le> i \<and> i < int (length (elems v')) then i else -1, v'') \<and>
       vector_wf v'' \<and>
       elems v'' = (if 0 \<le> i \<and> i < int (length (elems v')) then (elems v')[nat i := x] else elems v'))"
proof -
  obtain v' where v': "vector_add junk v e = Some v'" "vector_wf v'" "elems v' = elems v @ [e]"
    using vector_add_elems [OF assms] by blast
  from v'(2) obtain n where n: "v_count v' = int n" "n \<le> length (v_data v')"
    "v_size v' = int (length (v_data v'))" "length (elems v') = n" "0 < length (v_data v')" by (rule vector_wfE)
  show ?thesis
  proof (cases "0 \<le> i \<and> i < int n")
    case True
    then obtain k where k: "i = int k" "k < n" by (metis nonneg_int_cases of_nat_less_iff)
    have "vector_get v' i = Some (elems v' ! k)" using k n by (simp add: vector_get_def elems_def)
    moreover have "vector_set v' i x = Some (i, v'\<lparr>v_data := (v_data v')[k := x]\<rparr>)"
      using k n by (simp add: vector_set_def)
    moreover have "vector_wf (v'\<lparr>v_data := (v_data v')[k := x]\<rparr>)"
      "elems (v'\<lparr>v_data := (v_data v')[k := x]\<rparr>) = (elems v')[k := x]"
      using v'(2) n k by (simp_all add: vector_wf_def elems_def take_update_swap)
    ultimately show ?thesis using v' True k n(4) by auto
  next
    case False
    then have "vector_get v' i = Some None" "vector_set v' i x = Some (-1, v')"
      using n(1) by (auto simp: vector_get_def vector_set_def)
    then show ?thesis using v' False n(4) by auto
  qed
qed

theorem vector_elements_witness:
  "\<exists>v'. vector_add None vector_init (Some 9) = Some v' \<and> elems v' = [Some 9] \<and> vector_get v' 0 = Some (Some 9)"
proof -
  have "vector_wf vector_init" "elems vector_init = []" using vector_init_wf by auto
  from vector_elements [OF this(1), of None "Some 9" 0 None] this(2) show ?thesis by auto
qed

text \<open>
  \<^verbatim>\<open>vector_delete\<close> does not delete the element at its index: it copies the next element
  over it, drops the last element from the vector and releases that one. Deleting in
  front of the last two elements leaves a released pointer out and a duplicate in.
\<close>

theorem vector_delete_wrong:
  assumes "vector_wf v" and "0 \<le> i" and "i + 1 < v_count v"
  shows "\<exists>v'. vector_delete v i =
      Some (Some (last (elems v)), v') \<and> vector_wf v' \<and>
    elems v' = butlast ((elems v)[nat i := elems v ! (nat i + 1)])"
proof -
  from assms(1) obtain n where v: "v_count v = int n" "n \<le> length (v_data v)" "v_size v = int (length (v_data v))"
    "length (elems v) = n" "0 < length (v_data v)" by (rule vector_wfE)
  obtain k where k: "i = int k" using assms(2) nonneg_int_cases by blast
  then have kn: "k + 1 < n" using assms(3) v(1) by simp
  then obtain m where m: "nat (v_count v - 1 - i) = Suc m" using k v(1) by (cases "nat (v_count v - 1 - i)") auto
  let ?d = "(v_data v)[k := v_data v ! (k + 1)]"
  have loop: "delete_loop (v_data v) i (nat (v_count v - 1 - i)) = Some ?d"
    unfolding m using delete_loop_first [of k "v_data v" m] kn v(2) k by (simp del: delete_loop.simps)
  have "nat (int n - 1) = n - 1" by arith
  then have freed: "rd ?d (v_count v - 1) = Some (?d ! (n - 1))" using kn v(1,2) by (simp add: rd_def)
  have "vector_delete v i = Some (Some (?d ! (n - 1)), v\<lparr>v_data := ?d, v_count := v_count v - 1\<rparr>)"
    unfolding vector_delete_def using loop freed assms(2,3) by simp
  moreover have "?d ! (n - 1) = last (elems v)"
    using kn v by (simp add: elems_def last_conv_nth)
  moreover have "elems (v\<lparr>v_data := ?d, v_count := v_count v - 1\<rparr>) =
      butlast ((elems v)[nat i := elems v ! (nat i + 1)])"
    using kn v k by (auto simp: elems_def butlast_take butlast_list_update take_update_swap nat_diff_distrib)
  ultimately show ?thesis using assms(1) kn v(1) by (simp add: vector_wf_def)
qed


theorem vector_delete_wrong_witness:
  "\<exists>v'. vector_delete \<lparr>v_data = [Some 1, Some 2, Some 3, None], v_size = 4, v_count = 3\<rparr> 0
      = Some (Some (Some 3), v') \<and> elems v' = [Some 2, Some 2]"
  using vector_delete_wrong [of "\<lparr>v_data = [Some 1, Some 2, Some 3, None], v_size = 4, v_count = 3\<rparr>" 0]
  by (auto simp: vector_wf_def elems_def numeral_3_eq_3)

end
