(* ===== verification/Fifo.thy ===== *)
theory Fifo
  imports Prelude
begin

text \<open>
  The interface of the library's queues: the network buffer (bytes in, bytes out) and the
  job queue of the thread pool. A client only relies on the sequence of what went in and
  what came out; the lemma \<open>run_ops_fifo\<close> is that contract for every script of operations.
\<close>

datatype 'e fifo_op = Put "'e list" | Take nat

primrec op_input :: "'e fifo_op \<Rightarrow> 'e list" where
  "op_input (Put xs) = xs"
| "op_input (Take n) = []"

primrec op_taken :: "'e fifo_op \<Rightarrow> nat" where
  "op_taken (Put xs) = 0"
| "op_taken (Take n) = n"

text \<open>Scripts that never take more than is there, from \<open>k\<close> elements on.\<close>

primrec fifo_legal :: "nat \<Rightarrow> 'e fifo_op list \<Rightarrow> bool" where
  "fifo_legal k [] = True"
| "fifo_legal k (p # ps) = (op_taken p \<le> k \<and> fifo_legal (k - op_taken p + length (op_input p)) ps)"

text \<open>A script of operations: the elements that came out and the state at the end.\<close>

primrec run_ops ::
  "('e list \<Rightarrow> 's \<Rightarrow> 's option) \<Rightarrow> (nat \<Rightarrow> 's \<Rightarrow> ('e list \<times> 's) option) \<Rightarrow>
   'e fifo_op list \<Rightarrow> 's \<Rightarrow> ('e list \<times> 's) option" where
  "run_ops put tak [] s = Some ([], s)"
| "run_ops put tak (p # ps) s =
     (case p of
        Put xs \<Rightarrow> Option.bind (put xs s) (run_ops put tak ps)
      | Take n \<Rightarrow> Option.bind (tak n s)
          (\<lambda>r. Option.bind (run_ops put tak ps (snd r)) (\<lambda>q. Some (fst r @ fst q, snd q))))"

locale fifo =
  fixes put_in :: "'e list \<Rightarrow> 's \<Rightarrow> 's option"
    and take_out :: "nat \<Rightarrow> 's \<Rightarrow> ('e list \<times> 's) option"
    and contents_of :: "'s \<Rightarrow> 'e list"
    and valid :: "'s \<Rightarrow> bool"
  assumes put_in_law: "valid s \<Longrightarrow> put_in xs s = Some s' \<Longrightarrow>
      valid s' \<and> contents_of s' = contents_of s @ xs"
    and take_out_law: "valid s \<Longrightarrow> take_out n s = Some (ys, s') \<Longrightarrow>
      valid s' \<and> contents_of s = ys @ contents_of s' \<and> length ys = n"
    and take_out_ok: "valid s \<Longrightarrow> n \<le> length (contents_of s) \<Longrightarrow> \<exists>r. take_out n s = Some r"
begin

text \<open>What comes out, followed by what is left, is what was there followed by what went in.\<close>

lemma run_ops_fifo:
  "valid s \<Longrightarrow> run_ops put_in take_out ps s = Some (out, s') \<Longrightarrow>
   valid s' \<and> out @ contents_of s' = contents_of s @ concat (map op_input ps)"
proof (induction ps arbitrary: s out)
  case (Cons p ps)
  show ?case
  proof (cases p)
    case (Put xs)
    then obtain s1 where s1: "put_in xs s = Some s1" "run_ops put_in take_out ps s1 = Some (out, s')"
      using Cons.prems(2) by (auto simp: Option.bind_eq_Some_conv)
    then show ?thesis
      using Cons.IH [of s1 out] put_in_law [OF Cons.prems(1) s1(1)] Put by simp
  next
    case (Take n)
    then obtain ys s1 out1 where s1: "take_out n s = Some (ys, s1)" "run_ops put_in take_out ps s1 = Some (out1, s')" "out = ys @ out1"
      using Cons.prems(2) by (auto simp: Option.bind_eq_Some_conv)
    then show ?thesis
      using Cons.IH [of s1 out1] take_out_law [OF Cons.prems(1) s1(1)] Take by simp
  qed
qed simp

lemma run_ops_taken:
  "valid s \<Longrightarrow> run_ops put_in take_out ps s = Some (out, s') \<Longrightarrow>
   length out = sum_list (map op_taken ps)"
proof (induction ps arbitrary: s out)
  case (Cons p ps)
  show ?case
  proof (cases p)
    case (Put xs)
    then obtain s1 where s1: "put_in xs s = Some s1" "run_ops put_in take_out ps s1 = Some (out, s')"
      using Cons.prems(2) by (auto simp: Option.bind_eq_Some_conv)
    then show ?thesis
      using Cons.IH [of s1 out] put_in_law [OF Cons.prems(1) s1(1)] Put by simp
  next
    case (Take n)
    then obtain ys s1 out1 where s1: "take_out n s = Some (ys, s1)" "run_ops put_in take_out ps s1 = Some (out1, s')" "out = ys @ out1"
      using Cons.prems(2) by (auto simp: Option.bind_eq_Some_conv)
    then show ?thesis
      using Cons.IH [of s1 out1] take_out_law [OF Cons.prems(1) s1(1)] Take by simp
  qed
qed simp

text \<open>So what came out is the front of what went in, and what is left is the rest.\<close>

lemma run_ops_split:
  assumes "valid s" and "contents_of s = []" and "run_ops put_in take_out ps s = Some (out, s')"
  shows "out = take (sum_list (map op_taken ps)) (concat (map op_input ps)) \<and>
    contents_of s' = drop (sum_list (map op_taken ps)) (concat (map op_input ps))"
  using run_ops_fifo [OF assms(1, 3)] run_ops_taken [OF assms(1, 3)] assms(2)
  by (simp add: append_eq_conv_conj)

lemma take_all:
  assumes "valid s"
  shows "\<exists>s'. take_out (length (contents_of s)) s = Some (contents_of s, s') \<and> contents_of s' = []"
proof -
  obtain ys s' where r: "take_out (length (contents_of s)) s = Some (ys, s')"
    using take_out_ok [OF assms order_refl] by auto
  have law: "contents_of s = ys @ contents_of s'" "length ys = length (contents_of s)"
    using take_out_law [OF assms r] by blast+
  then have "length (contents_of s) = length ys + length (contents_of s')" by (metis length_append)
  then have e: "contents_of s' = []" using law(2) by simp
  then have "ys = contents_of s" using law(1) by simp
  then show ?thesis using r e by blast
qed

end

end
