(* ===== verification/NetBuffer.thy ===== *)
theory NetBuffer
  imports Fifo
begin

text \<open>
  \<^verbatim>\<open>udpclient/linux/net/buffer.c\<close>: a byte buffer with a read and a write index, which
  compacts or grows when its tail is too short. The indices are 32-bit unsigned and wrap;
  the block has its real length, so a copy that does not fit is undefined (\<^term>\<open>None\<close>). A
  \<^verbatim>\<open>realloc\<close> that fails stops the program (\<^verbatim>\<open>assert\<close>); one that succeeds leaves the
  fresh bytes indeterminate, given by an argument.
\<close>

section \<open>Data and operations\<close>

record buffer =
  b_data :: "u8 list"
  b_len :: u32
  b_read :: u32
  b_write :: u32

type_synonym fresh_bytes = "(nat \<Rightarrow> u8) option"

definition ensure_space :: "fresh_bytes \<Rightarrow> buffer \<Rightarrow> u32 \<Rightarrow> buffer option" where
  "ensure_space fresh b sz =
     (if b_len b - b_write b \<ge> sz then Some b
      else if b_len b - (b_write b - b_read b) > sz then
        (let n = unat (b_write b - b_read b); r = unat (b_read b) in
         if r + n \<le> length (b_data b)
         then Some (b\<lparr>b_data := take n (drop r (b_data b)) @ drop n (b_data b),
                      b_write := b_write b - b_read b, b_read := 0\<rparr>)
         else None)
      else
        (let expand = push_bit 10 (drop_bit 10 (sz + 1023));
             n = unat (b_len b + expand)
         in case fresh of None \<Rightarrow> None
            | Some junk \<Rightarrow>
                Some (b\<lparr>b_data := take n (b_data b) @ map junk [length (b_data b)..<n],
                        b_len := b_len b + expand\<rparr>)))"

definition buffer_new :: "u32 \<Rightarrow> buffer option" where
  "buffer_new sz =
     (if sz = 0 then None
      else Some \<lparr>b_data = replicate (unat sz) 0, b_len = sz, b_read = 0, b_write = 0\<rparr>)"

text \<open>The offset of the data, or \<^term>\<open>None\<close> for the NULL returned.\<close>

definition buffer_peek :: "buffer option \<Rightarrow> u32 option" where
  "buffer_peek bp =
     (case bp of None \<Rightarrow> None | Some b \<Rightarrow> if b_len b = 0 then None else Some (b_read b))"

definition buffer_readablebytes :: "buffer option \<Rightarrow> u32" where
  "buffer_readablebytes bp = (case bp of None \<Rightarrow> 0 | Some b \<Rightarrow> b_write b - b_read b)"

text \<open>\<open>data\<close> has the \<open>sz\<close> bytes to copy, or is NULL.\<close>

definition buffer_append ::
  "fresh_bytes \<Rightarrow> buffer option \<Rightarrow> u8 list option \<Rightarrow> u32 \<Rightarrow> (u32 \<times> buffer option) option" where
  "buffer_append fresh bp data sz =
     (case (bp, data) of
        (Some b, Some bytes) \<Rightarrow>
          if sz = 0 then Some (0, bp)
          else do {
            b1 \<leftarrow> ensure_space fresh b sz;
            let w = unat (b_write b1) in
            let n = unat sz in
            if w + n \<le> length (b_data b1) \<and> n \<le> length bytes
            then Some (0, Some (b1\<lparr>b_data := take w (b_data b1) @ take n bytes @ drop (w + n) (b_data b1),
                                   b_write := b_write b1 + sz\<rparr>))
            else None }
      | _ \<Rightarrow> Some (0, bp))"

text \<open>
  \<^verbatim>\<open>readv\<close> is a parameter: \<^term>\<open>None\<close> when it fails, or the bytes read, which it puts
  first into the tail of the buffer and then into the 4096 bytes of \<open>extra\<close>.
\<close>

definition EXTRA :: nat where "EXTRA = 4096"

definition buffer_readFd ::
  "fresh_bytes \<Rightarrow> u8 list option \<Rightarrow> buffer option \<Rightarrow> int \<Rightarrow> (u32 \<times> buffer option) option" where
  "buffer_readFd fresh readv bp fd =
     (case bp of None \<Rightarrow> Some (0, None)
      | Some b \<Rightarrow>
         if fd < 0 then Some (0, bp)
         else (case readv of None \<Rightarrow> Some (0, bp)
               | Some bytes \<Rightarrow>
                  (let w = unat (b_write b); tail = b_len b - b_write b; n = of_nat (length bytes);
                       head = take (unat tail) bytes;
                       b1 = b\<lparr>b_data := take w (b_data b) @ head @ drop (w + length head) (b_data b)\<rparr>
                   in if w + length head > length (b_data b) then None
                      else if n \<le> tail then Some (n, Some (b1\<lparr>b_write := b_write b + n\<rparr>))
                      else do {
                        (_, b2) \<leftarrow> buffer_append fresh (Some (b1\<lparr>b_write := b_len b\<rparr>))
                                    (Some (drop (unat tail) bytes)) (n - tail);
                        Some (n, b2) })))"

definition buffer_retrieve :: "buffer \<Rightarrow> u32 \<Rightarrow> buffer option" where
  "buffer_retrieve b sz =
     (let readable = b_write b - b_read b in
      if \<not> sz \<le> readable then None
      else if sz < readable then Some (b\<lparr>b_read := b_read b + sz\<rparr>)
      else Some (b\<lparr>b_read := 0, b_write := 0\<rparr>))"

definition buffer_retrieveall :: "buffer option \<Rightarrow> buffer option" where
  "buffer_retrieveall bp = map_option (\<lambda>b. b\<lparr>b_read := 0, b_write := 0\<rparr>) bp"

section \<open>Invariant and contents\<close>

definition buf_wf :: "buffer \<Rightarrow> bool" where
  "buf_wf b \<longleftrightarrow> length (b_data b) = unat (b_len b) \<and> b_len b \<noteq> 0 \<and>
     b_read b \<le> b_write b \<and> b_write b \<le> b_len b"

definition buf_bytes :: "buffer \<Rightarrow> u8 list" where
  "buf_bytes b = take (unat (b_write b) - unat (b_read b)) (drop (unat (b_read b)) (b_data b))"

lemma buf_wf_nat:
  assumes "buf_wf b"
  shows "length (b_data b) = unat (b_len b)" "unat (b_read b) \<le> unat (b_write b)"
    "unat (b_write b) \<le> unat (b_len b)" "unat (b_len b - b_write b) = unat (b_len b) - unat (b_write b)"
    "unat (b_write b - b_read b) = unat (b_write b) - unat (b_read b)"
      "length (buf_bytes b) = unat (b_write b) - unat (b_read b)" "b_len b \<noteq> 0"
  using assms by (auto simp: buf_wf_def buf_bytes_def word_le_nat_alt unat_sub)

lemma buffer_new_wf: "buffer_new n = Some b \<Longrightarrow> buf_wf b \<and> buf_bytes b = []"
  by (auto simp: buffer_new_def buf_wf_def buf_bytes_def split: if_splits)

text \<open>Writing a block at the write index puts it behind the readable bytes.\<close>

lemma splice_bytes:
  "r \<le> w \<Longrightarrow> w + length h \<le> length d \<Longrightarrow>
   take (w + length h - r) (drop r (take w d @ h @ drop (w + length h) d)) = take (w - r) (drop r d) @ h"
  by (simp add: drop_take)

text \<open>After making room the bytes are the same, and the tail is real when the copy fits.\<close>

lemma ensure_space_bytes:
  assumes "buf_wf b" and "ensure_space fresh b sz = Some b1"
    and "unat (b_write b1) + unat sz \<le> length (b_data b1)"
  shows "buf_wf b1 \<and> buf_bytes b1 = buf_bytes b"
proof -
  note n = buf_wf_nat [OF assms(1)]
  let ?w = "unat (b_write b)" and ?r = "unat (b_read b)"
  consider (fits) "b_len b - b_write b \<ge> sz"
    | (compact) "\<not> b_len b - b_write b \<ge> sz" "b_len b - (b_write b - b_read b) > sz"
    | (grow) "\<not> b_len b - b_write b \<ge> sz" "\<not> b_len b - (b_write b - b_read b) > sz" by blast
  then show ?thesis
  proof cases
    case fits
    then show ?thesis using assms by (simp add: ensure_space_def)
  next
    case compact
    let ?d = "take (?w - ?r) (drop ?r (b_data b)) @ drop (?w - ?r) (b_data b)"
    have b1: "b1 = b\<lparr>b_data := ?d, b_write := b_write b - b_read b, b_read := 0\<rparr>"
      using assms(2) compact n by (simp add: ensure_space_def Let_def split: if_splits)
    have "length ?d = unat (b_len b)" using n by simp
    then show ?thesis
      using n unfolding b1 buf_wf_def buf_bytes_def by (simp add: word_le_nat_alt)
  next
    case grow
    then obtain junk L where b1: "b1 = b\<lparr>b_data := take (unat L) (b_data b) @ map junk [length (b_data b)..<unat L],
        b_len := L\<rparr>" using assms(2) by (auto simp: ensure_space_def Let_def split: option.splits)
    let ?d = "take (unat L) (b_data b) @ map junk [length (b_data b)..<unat L]"
    have len: "length ?d = unat L" by simp
    have w: "?w \<le> unat L" using assms(3) len unfolding b1 by simp
    have "take (?w - ?r) (drop ?r ?d) = take (?w - ?r) (drop ?r (b_data b))"
      using w n(1-3) by (simp add: take_drop)
    moreover have "0 < sz" using grow(1) by (metis word_zero_le word_gt_0)
    then have "0 < unat sz" by (simp add: word_less_nat_alt)
    then have "0 < unat L" using assms(3) len unfolding b1 by simp
    ultimately show ?thesis
      using n w len unfolding b1 buf_wf_def buf_bytes_def by (auto simp: word_le_nat_alt)
  qed
qed

lemma buffer_append_bytes:
  assumes wf: "buf_wf b" and app: "buffer_append fresh (Some b) (Some bytes) sz = Some (r, bp)"
    and pos: "sz \<noteq> 0"
  obtains b' where "bp = Some b'" "r = 0" "buf_wf b'" "unat sz \<le> length bytes"
    "buf_bytes b' = buf_bytes b @ take (unat sz) bytes"
proof -
  obtain b1 where b1: "ensure_space fresh b sz = Some b1"
    using app pos by (auto simp: buffer_append_def Option.bind_eq_Some_conv)
  let ?w = "unat (b_write b1)" and ?n = "unat sz" and ?r = "unat (b_read b1)"
  have fit: "?w + ?n \<le> length (b_data b1)" "?n \<le> length bytes"
    using app pos b1 by (auto simp: buffer_append_def Let_def split: if_splits)
  let ?d = "take ?w (b_data b1) @ take ?n bytes @ drop (?w + ?n) (b_data b1)"
  let ?b = "b1\<lparr>b_data := ?d, b_write := b_write b1 + sz\<rparr>"
  have res: "r = 0" "bp = Some ?b"
    using app pos b1 fit by (auto simp: buffer_append_def Let_def)
  have wf1: "buf_wf b1" "buf_bytes b1 = buf_bytes b"
    using ensure_space_bytes [OF wf b1 fit(1)] by auto
  note n = buf_wf_nat [OF wf1(1)]
  have "?w + ?n < 2 ^ 32" using fit(1) n(1) unsigned_less [of "b_len b1", where 'a = nat] by simp
  then have w': "unat (b_write b1 + sz) = ?w + ?n" by (simp add: unat_word_ariths)
  have len: "length ?d = unat (b_len b1)" using fit n by simp
  have "take (?w + ?n - ?r) (drop ?r ?d) = take (?w - ?r) (drop ?r (b_data b1)) @ take ?n bytes"
    using splice_bytes [of ?r ?w "take ?n bytes" "b_data b1"] n fit by simp
  then have "buf_bytes ?b = buf_bytes b1 @ take ?n bytes"
    unfolding buf_bytes_def by (simp add: w')
  moreover have "buf_wf ?b"
    using wf1(1) n fit w' len by (simp add: buf_wf_def word_le_nat_alt)
  ultimately show thesis using that res wf1(2) fit(2) by simp
qed

text \<open>It does succeed while the sizes stay within 32 bits and memory lasts.\<close>

lemma round_up:
  fixes n :: u32
  assumes "unat n + 1023 < 2 ^ 32"
  shows "unat (push_bit 10 (drop_bit 10 (n + 1023))) = (unat n + 1023) div 1024 * 1024"
proof -
  have "unat (n + 1023) = unat n + 1023"
    using assms by (simp add: unat_word_ariths)
  then have "unat (drop_bit 10 (n + 1023)) = (unat n + 1023) div 1024"
    by (simp only: unat_drop_bit_eq) (simp add: drop_bit_eq_div)
  moreover have "(unat n + 1023) div 1024 * 1024 < 2 ^ 32"
    using assms by (metis div_times_less_eq_dividend le_less_trans)
  ultimately show ?thesis
    by (simp add: push_bit_eq_mult unat_word_ariths)
qed

lemma buffer_append_total:
  assumes wf: "buf_wf b" and mem: "fresh = Some junk" and len: "unat sz \<le> length bytes"
    and small: "unat (b_len b) + unat sz + 1023 < 2 ^ 32"
  shows "\<exists>b'. buffer_append fresh (Some b) (Some bytes) sz = Some (0, Some b') \<and>
    unat (b_len b') \<le> unat (b_len b) + unat sz + 1023"
proof -
  note n = buf_wf_nat [OF wf]
  let ?e = "push_bit 10 (drop_bit 10 (sz + 1023))"
  have e: "unat sz \<le> unat ?e" "unat ?e \<le> unat sz + 1023"
    using round_up [of sz] small by (simp_all add: div_times_less_eq_dividend) 
  have L: "unat (b_len b + ?e) = unat (b_len b) + unat ?e"
    using e small by (simp add: unat_word_ariths)
  obtain b1 where b1: "ensure_space fresh b sz = Some b1"
      "unat (b_write b1) + unat sz \<le> length (b_data b1)"
      "unat (b_len b1) \<le> unat (b_len b) + unat sz + 1023"
  proof -
    consider (fits) "b_len b - b_write b \<ge> sz"
      | (compact) "\<not> b_len b - b_write b \<ge> sz" "b_len b - (b_write b - b_read b) > sz"
      | (grow) "\<not> b_len b - b_write b \<ge> sz" "\<not> b_len b - (b_write b - b_read b) > sz" by blast
    then show thesis
    proof cases
      case fits
      then have "unat sz \<le> unat (b_len b) - unat (b_write b)" by (simp only: word_le_nat_alt n)
      then show thesis using that [of b] fits n by (simp add: ensure_space_def)
    next
      case compact
      have "unat (b_len b - (b_write b - b_read b)) = unat (b_len b) - (unat (b_write b) - unat (b_read b))"
        using n by (simp add: unat_sub word_le_nat_alt)
      then have "unat sz < unat (b_len b) - (unat (b_write b) - unat (b_read b))"
        using compact(2) by (simp only: word_less_nat_alt)
      then show thesis using that compact n by (simp add: ensure_space_def Let_def)
    next
      case grow
      then show thesis using that n mem e L by (simp add: ensure_space_def Let_def)
    qed
  qed
  then show ?thesis using len by (simp add: buffer_append_def Let_def)
qed

lemma buffer_retrieve_bytes:
  assumes wf: "buf_wf b" and len: "unat sz \<le> length (buf_bytes b)"
  obtains b' where "buffer_retrieve b sz = Some b'" "buf_wf b'" "buf_bytes b' = drop (unat sz) (buf_bytes b)"
proof -
  note n = buf_wf_nat [OF wf]
  show thesis
  proof (cases "unat sz < length (buf_bytes b)")
    case True
    then have lt: "sz < b_write b - b_read b" "sz \<le> b_write b - b_read b"
      using n by (simp_all add: word_less_nat_alt word_le_nat_alt)
    have "unat (b_read b) + unat sz < 2 ^ 32"
      using True n unsigned_less [of "b_write b", where 'a = nat] by simp
    then have r: "unat (b_read b + sz) = unat (b_read b) + unat sz" by (simp add: unat_word_ariths)
    have "buf_bytes (b\<lparr>b_read := b_read b + sz\<rparr>) = drop (unat sz) (buf_bytes b)"
      using r by (simp add: buf_bytes_def drop_take add.commute)
    moreover have "buf_wf (b\<lparr>b_read := b_read b + sz\<rparr>)"
      using wf r True n by (simp add: buf_wf_def word_le_nat_alt)
    ultimately show thesis using that lt by (simp add: buffer_retrieve_def)
  next
    case False
    then have eq: "unat sz = length (buf_bytes b)" using len by simp
    then have "sz = b_write b - b_read b" using n by (simp add: word_unat_eq_iff)
    then have "buffer_retrieve b sz = Some (b\<lparr>b_read := 0, b_write := 0\<rparr>)"
      by (simp add: buffer_retrieve_def)
    moreover have "buf_wf (b\<lparr>b_read := 0, b_write := 0\<rparr>)" using wf by (simp add: buf_wf_def)
    moreover have "buf_bytes (b\<lparr>b_read := 0, b_write := 0\<rparr>) = drop (unat sz) (buf_bytes b)"
      using eq by (simp add: buf_bytes_def)
    ultimately show thesis using that by blast
  qed
qed

lemma buffer_retrieve_assert:
  assumes "buf_wf b" and "length (buf_bytes b) < unat sz"
  shows "buffer_retrieve b sz = None"
  using assms buf_wf_nat [OF assms(1)] by (simp add: buffer_retrieve_def word_le_nat_alt)

section \<open>The buffer as a queue of bytes\<close>

text \<open>
  How the library's clients use it: append a block; look at \<open>n\<close> readable bytes through
  \<^const>\<open>buffer_peek\<close> and retrieve them.
\<close>

definition buf_put :: "fresh_bytes \<Rightarrow> u8 list \<Rightarrow> buffer \<Rightarrow> buffer option" where
  "buf_put fresh xs b =
     (if length xs < 2 ^ 32
      then Option.bind (buffer_append fresh (Some b) (Some xs) (of_nat (length xs))) snd
      else None)"

definition buf_take :: "nat \<Rightarrow> buffer \<Rightarrow> (u8 list \<times> buffer) option" where
  "buf_take n b =
     (if n < 2 ^ 32
      then do {
        off \<leftarrow> buffer_peek (Some b);
        b' \<leftarrow> buffer_retrieve b (of_nat n);
        Some (take n (drop (unat off) (b_data b)), b') }
      else None)"

lemma buf_take_law:
  assumes wf: "buf_wf b" and n: "n \<le> length (buf_bytes b)"
  shows "\<exists>b'. buf_take n b = Some (take n (buf_bytes b), b') \<and> buf_wf b' \<and> buf_bytes b' = drop n (buf_bytes b)"
proof -
  note nat = buf_wf_nat [OF wf]
  have small: "n < 2 ^ 32" using n nat unsigned_less [of "b_write b", where 'a = nat] by simp
  then have u: "unat (of_nat n :: u32) = n" by (simp add: unat_of_nat32)
  obtain b' where b': "buffer_retrieve b (of_nat n) = Some b'" "buf_wf b'" "buf_bytes b' = drop n (buf_bytes b)"
    using buffer_retrieve_bytes [OF wf, of "of_nat n"] n u by metis
  have "take n (drop (unat (b_read b)) (b_data b)) = take n (buf_bytes b)"
    using n nat by (simp add: buf_bytes_def)
  then show ?thesis using b' nat small by (simp add: buf_take_def buffer_peek_def)
qed

lemma buf_take_short:
  assumes wf: "buf_wf b" and n: "length (buf_bytes b) < n"
  shows "buf_take n b = None"
proof (cases "n < 2 ^ 32")
  case True
  then have "unat (of_nat n :: u32) = n" by (simp add: unat_of_nat32)
  then have "buffer_retrieve b (of_nat n) = None"
    using buffer_retrieve_assert [OF wf, of "of_nat n"] n by simp
  then show ?thesis by (simp add: buf_take_def Option.bind_eq_None_conv)
qed (simp add: buf_take_def)

lemma buf_put_law:
  assumes wf: "buf_wf b" and put: "buf_put fresh xs b = Some b'"
  shows "buf_wf b' \<and> buf_bytes b' = buf_bytes b @ xs"
proof -
  have small: "length xs < 2 ^ 32" using put by (auto simp: buf_put_def split: if_splits)
  then have u: "unat (of_nat (length xs) :: u32) = length xs" by (simp add: unat_of_nat32)
  obtain r where r: "buffer_append fresh (Some b) (Some xs) (of_nat (length xs)) = Some (r, Some b')"
    using put small by (auto simp: buf_put_def Option.bind_eq_Some_conv)
  show ?thesis
  proof (cases "xs = []")
    case True
    then show ?thesis using r wf by (simp add: buffer_append_def)
  next
    case False
    then have "(of_nat (length xs) :: u32) \<noteq> 0" using u by (metis length_0_conv unsigned_0)
    from buffer_append_bytes [OF wf r this] show ?thesis using u by auto
  qed
qed

interpretation buf: fifo "buf_put fresh" buf_take buf_bytes buf_wf for fresh
proof
  fix b b' xs assume "buf_wf b" and "buf_put fresh xs b = Some b'"
  then show "buf_wf b' \<and> buf_bytes b' = buf_bytes b @ xs" by (rule buf_put_law)
next
  fix b b' n ys assume wf: "buf_wf b" and t: "buf_take n b = Some (ys, b')"
  then have "n \<le> length (buf_bytes b)" using buf_take_short [OF wf, of n] by (metis not_le option.distinct(1))
  then show "buf_wf b' \<and> buf_bytes b = ys @ buf_bytes b' \<and> length ys = n"
    using buf_take_law [OF wf, of n] t by auto
next
  fix b n assume "buf_wf b" and "n \<le> length (buf_bytes b)"
  from buf_take_law [OF this] show "\<exists>r. buf_take n b = Some r" by blast
qed

text \<open>
  A put succeeds while the size stays within 32 bits, and the block grows by at most the
  bytes put in, rounded up to whole kilobytes. A script is within bounds when its puts,
  each rounded up, fit 32 bits.
\<close>

lemma buf_put_ok:
  assumes wf: "buf_wf b" and small: "unat (b_len b) + length xs + 1023 < 2 ^ 32"
  shows "\<exists>b'. buf_put (Some junk) xs b = Some b' \<and> unat (b_len b') \<le> unat (b_len b) + length xs + 1023"
proof -
  have u: "unat (of_nat (length xs) :: u32) = length xs"
    using small by (simp add: unat_of_nat32)
  have "\<exists>b'. buffer_append (Some junk) (Some b) (Some xs) (of_nat (length xs)) = Some (0, Some b') \<and>
      unat (b_len b') \<le> unat (b_len b) + length xs + 1023"
    using buffer_append_total [OF wf refl, of "of_nat (length xs)" xs junk] u small by simp
  then show ?thesis using small by (auto simp: buf_put_def)
qed

definition put_size :: "'e fifo_op list \<Rightarrow> nat" where
  "put_size ps = (\<Sum>p\<leftarrow>ps. length (op_input p) + 1023)"

lemma run_buffer_ok:
  "buf_wf b \<Longrightarrow> fifo_legal (length (buf_bytes b)) ps \<Longrightarrow> unat (b_len b) + put_size ps < 2 ^ 32 \<Longrightarrow>
   \<exists>r. run_ops (buf_put (Some junk)) buf_take ps b = Some r"
proof (induction ps arbitrary: b)
  case (Cons p ps)
  show ?case
  proof (cases p)
    case (Put xs)
    then have "unat (b_len b) + length xs + 1023 < 2 ^ 32"
      using Cons.prems(3) by (simp add: put_size_def)
    from buf_put_ok [OF Cons.prems(1) this] obtain b'
      where b': "buf_put (Some junk) xs b = Some b'" "unat (b_len b') \<le> unat (b_len b) + length xs + 1023"
      by blast
    have w: "buf_wf b'" "buf_bytes b' = buf_bytes b @ xs"
      using buf_put_law [OF Cons.prems(1) b'(1)] by auto
    have "\<exists>r. run_ops (buf_put (Some junk)) buf_take ps b' = Some r"
      using Cons.IH [OF w(1)] Cons.prems(2, 3) b'(2) w(2) Put by (simp add: put_size_def)
    then show ?thesis using b'(1) Put by simp
  next
    case (Take n)
    then have "n \<le> length (buf_bytes b)" using Cons.prems(2) by simp
    from buf_take_law [OF Cons.prems(1) this] obtain b' where
      b': "buf_take n b = Some (take n (buf_bytes b), b')" "buf_wf b'" "buf_bytes b' = drop n (buf_bytes b)" by blast
    have "b_len b' = b_len b"
      using b'(1) by (auto simp: buf_take_def buffer_retrieve_def Let_def Option.bind_eq_Some_conv split: if_splits)
    then have "\<exists>r. run_ops (buf_put (Some junk)) buf_take ps b' = Some r"
      using Cons.IH [OF b'(2)] Cons.prems(2, 3) b'(3) Take by (simp add: put_size_def)
    then show ?thesis using b'(1) Take by auto
  qed
qed simp

section \<open>Properties\<close>

text \<open>
  C40: A script of appends and takes that never takes more than is readable, on a new
  buffer, with the appended blocks within 32 bits of size when each is rounded up to
  kilobytes and with \<^verbatim>\<open>realloc\<close> succeeding: every operation succeeds (no copy leaves the
  block, no assertion fails), across every compaction, growth and reset of the indices; the
  bytes taken are the first appended bytes in order, the readable bytes are the others, and
  the count of readable bytes is theirs.
\<close>

theorem buffer_stream:
  assumes "buffer_new n = Some b0" and "fifo_legal 0 ps" and "unat n + put_size ps < 2 ^ 32"
  shows "\<exists>b. run_ops (buf_put (Some junk)) buf_take ps b0 =
      Some (take (sum_list (map op_taken ps)) (concat (map op_input ps)), b) \<and>
    buf_bytes b = drop (sum_list (map op_taken ps)) (concat (map op_input ps)) \<and>
    unat (buffer_readablebytes (Some b)) = length (buf_bytes b)"
proof -
  have b0: "buf_wf b0" "buf_bytes b0 = []" "b_len b0 = n"
    using buffer_new_wf [OF assms(1)] assms(1) by (auto simp: buffer_new_def split: if_splits)
  obtain out b where r: "run_ops (buf_put (Some junk)) buf_take ps b0 = Some (out, b)"
    using run_buffer_ok [OF b0(1), of ps junk] b0 assms(2, 3) by auto
  have "buf_wf b" using buf.run_ops_fifo [OF b0(1) r] by blast
  then show ?thesis
    using r buf.run_ops_split [OF b0(1, 2) r] buf_wf_nat [of b]
    by (simp add: buffer_readablebytes_def)
qed

text \<open>A script that compacts the block and then makes it grow.\<close>

theorem buffer_stream_witness:
  "\<exists>b0 b. buffer_new 4 = Some b0 \<and>
     run_ops (buf_put (Some (\<lambda>i. 0))) buf_take [Put [1, 2, 3], Take 2, Put [4, 5], Put [6, 7, 8], Take 4] b0 =
       Some ([1, 2, 3, 4, 5, 6], b) \<and>
     buf_bytes b = [7, 8] \<and> unat (buffer_readablebytes (Some b)) = 2"
proof -
  let ?ps = "[Put [1, 2, 3], Take 2, Put [4, 5], Put [6, 7, 8], Take 4] :: u8 fifo_op list"
  obtain b0 where b0: "buffer_new 4 = Some b0" by (simp add: buffer_new_def)
  have "fifo_legal 0 ?ps" by simp
  moreover have "unat (4 :: u32) + put_size ?ps < 2 ^ 32" by (simp add: put_size_def)
  ultimately show ?thesis
    using buffer_stream [OF b0, of ?ps "\<lambda>i. 0"] b0 by auto
qed

text \<open>
  An append succeeds, and returns 0 and not the number of bytes, whenever the reallocation
  succeeds and the rounded length stays within 32 bits.
\<close>

theorem buffer_append_ok:
  assumes "buf_wf b" and "unat sz \<le> length bytes" and "unat (b_len b) + unat sz + 1023 < 2 ^ 32"
  shows "\<exists>b'. buffer_append (Some junk) (Some b) (Some bytes) sz = Some (0, Some b') \<and> buf_wf b' \<and>
    buf_bytes b' = buf_bytes b @ take (unat sz) bytes"
proof -
  obtain bp where bp: "buffer_append (Some junk) (Some b) (Some bytes) sz = Some (0, bp)"
    using buffer_append_total [OF assms(1) refl assms(2, 3)] by metis
  show ?thesis
  proof (cases "sz = 0")
    case True
    then show ?thesis using assms(1) by (simp add: buffer_append_def)
  next
    case False
    from buffer_append_bytes [OF assms(1) bp this] bp show ?thesis by metis
  qed
qed

theorem buffer_append_ok_witness:
  "\<exists>b'. buffer_append (Some (\<lambda>i. 0)) (Some \<lparr>b_data = [7, 8], b_len = 2, b_read = 1, b_write = 2\<rparr>)
     (Some [9, 10]) 2 = Some (0, Some b') \<and> buf_wf b' \<and> buf_bytes b' = [8, 9, 10]"
proof -
  let ?b = "\<lparr>b_data = [7, 8], b_len = 2, b_read = 1, b_write = 2\<rparr> :: buffer"
  have "buf_wf ?b" "buf_bytes ?b = [8]" by (simp_all add: buf_wf_def buf_bytes_def)
  with buffer_append_ok [of ?b 2 "[9, 10]" "\<lambda>i. 0"] show ?thesis by simp
qed

text \<open>
  Reading from a descriptor appends exactly the bytes \<^verbatim>\<open>readv\<close> delivered, whether they
  fit the tail or spill into the extra block, and returns their number; a failed read
  changes nothing.
\<close>

theorem buffer_readFd_appends:
  assumes wf: "buf_wf b" and fd: "0 \<le> fd"
    and len: "length bytes \<le> unat (b_len b - b_write b) + EXTRA"
    and small: "unat (b_len b) + EXTRA + 1023 < 2 ^ 32"
  shows "buffer_readFd fresh None (Some b) fd = Some (0, Some b) \<and>
    (\<exists>b'. buffer_readFd (Some junk) (Some bytes) (Some b) fd = Some (of_nat (length bytes), Some b') \<and>
      buf_wf b' \<and> buf_bytes b' = buf_bytes b @ bytes)"
proof
  show "buffer_readFd fresh None (Some b) fd = Some (0, Some b)"
    using fd by (simp add: buffer_readFd_def)
next
  note n = buf_wf_nat [OF wf]
  let ?w = "unat (b_write b)" and ?r = "unat (b_read b)"
  let ?tail = "unat (b_len b) - ?w" and ?n = "of_nat (length bytes) :: u32"
  let ?head = "take ?tail bytes"
  let ?d = "take ?w (b_data b) @ ?head @ drop (?w + length ?head) (b_data b)"
  have u: "unat ?n = length bytes" using len small n by (simp add: unat_of_nat32)
  have fits: "?w + length ?head \<le> length (b_data b)" using n by simp
  have d: "length ?d = unat (b_len b)" using n by simp
  have take_d: "take (?w + length ?head - ?r) (drop ?r ?d) = buf_bytes b @ ?head"
    using splice_bytes [of ?r ?w ?head "b_data b"] n fits by (simp add: buf_bytes_def)
  show "\<exists>b'. buffer_readFd (Some junk) (Some bytes) (Some b) fd = Some (?n, Some b') \<and>
      buf_wf b' \<and> buf_bytes b' = buf_bytes b @ bytes"
  proof (cases "length bytes \<le> ?tail")
    case True
    let ?b = "b\<lparr>b_data := ?d, b_write := b_write b + ?n\<rparr>"
    have "?w + length bytes < 2 ^ 32"
      using True n unsigned_less [of "b_len b", where 'a = nat] by simp
    then have w: "unat (b_write b + ?n) = ?w + length bytes" using u by (simp add: unat_word_ariths)
    have "?n \<le> b_len b - b_write b" using True u n by (simp add: word_le_nat_alt)
    then have "buffer_readFd (Some junk) (Some bytes) (Some b) fd = Some (?n, Some ?b)"
      using fd fits n by (simp add: buffer_readFd_def Let_def)
    moreover have "buf_wf ?b" using wf w d True n by (simp add: buf_wf_def word_le_nat_alt)
    moreover have "buf_bytes ?b = buf_bytes b @ bytes"
      using take_d True w by (simp add: buf_bytes_def)
    ultimately show ?thesis by blast
  next
    case False
    let ?b = "b\<lparr>b_data := ?d, b_write := b_len b\<rparr>"
    let ?m = "?n - (b_len b - b_write b)"
    have gt: "\<not> ?n \<le> b_len b - b_write b" using False u n by (simp add: word_le_nat_alt)
    have m: "unat ?m = length bytes - ?tail" using gt u n by (simp add: unat_sub)
    have wf': "buf_wf ?b" using wf d n by (simp add: buf_wf_def word_le_nat_alt)
    have "length ?head = ?tail" using False by simp
    then have bx: "buf_bytes ?b = buf_bytes b @ ?head"
      using take_d n by (simp add: buf_bytes_def)
    have "unat ?m \<le> EXTRA" using m len n by linarith
    then have room: "unat ?m \<le> length (drop ?tail bytes)" "unat (b_len ?b) + unat ?m + 1023 < 2 ^ 32"
      using m small by simp_all
    obtain bp where bp: "buffer_append (Some junk) (Some ?b) (Some (drop ?tail bytes)) ?m = Some (0, bp)"
      using buffer_append_total [OF wf' refl room] by metis
    have "?m \<noteq> 0" using m False by (metis diff_is_0_eq' not_le unsigned_0 zero_less_diff nat_less_le)
    from buffer_append_bytes [OF wf' bp this] obtain b' where b': "bp = Some b'" "buf_wf b'"
        "buf_bytes b' = buf_bytes ?b @ take (unat ?m) (drop ?tail bytes)" by metis
    have "buffer_readFd (Some junk) (Some bytes) (Some b) fd = Some (?n, Some b')"
      using fd fits n gt bp b'(1) by (simp add: buffer_readFd_def Let_def)
    moreover have "buf_bytes b' = buf_bytes b @ bytes"
      using b'(3) bx m by simp
    ultimately show ?thesis using b'(2) by blast
  qed
qed

theorem buffer_readFd_appends_witness:
  "\<exists>b'. buffer_readFd (Some (\<lambda>i. 0)) (Some [9, 10, 11])
     (Some \<lparr>b_data = [7, 8, 0], b_len = 3, b_read = 1, b_write = 2\<rparr>) 5 = Some (3, Some b') \<and>
     buf_bytes b' = [8, 9, 10, 11]"
proof -
  let ?b = "\<lparr>b_data = [7, 8, 0], b_len = 3, b_read = 1, b_write = 2\<rparr> :: buffer"
  have "buf_wf ?b" "buf_bytes ?b = [8]" by (simp_all add: buf_wf_def buf_bytes_def)
  with buffer_readFd_appends [of ?b 5 "[9, 10, 11]" None "\<lambda>i. 0"] show ?thesis
    by (auto simp: EXTRA_def)
qed

end
