(* ===== verification/RwLock.thy ===== *)
theory RwLock
  imports Prelude
begin

text \<open>
  \<^verbatim>\<open>sync/rwlock.c\<close>: a readers-writer lock from two semaphores and a reader count. Every
  function that locks is cut at its semaphore calls into the atomic steps of a thread; the
  threads interleave in \<open>rw_step\<close>. A semaphore call that fails is a step with
  outcome \<open>ok = False\<close> (a \<^verbatim>\<open>sem_wait\<close> interrupted by a signal, say).
\<close>

section \<open>The lock and its semaphores\<close>

record rwlock =
  wrt :: nat
  mtx :: nat
  delFlag :: nat
  readcount :: int
  active :: int

datatype sem_name = Wrt | Mtx | DelFlag

text \<open>The value returned and the semaphore afterwards; \<^term>\<open>None\<close> blocks.\<close>

definition sem_wait :: "bool \<Rightarrow> nat \<Rightarrow> (int \<times> nat) option" where
  "sem_wait ok n = (if \<not> ok then Some (- 1, n) else if n = 0 then None else Some (0, n - 1))"

definition sem_post :: "bool \<Rightarrow> nat \<Rightarrow> int \<times> nat" where
  "sem_post ok n = (if \<not> ok then (- 1, n) else (0, n + 1))"

datatype errno = NoError | EAGAIN | OtherError

definition sem_trywait :: "bool \<Rightarrow> nat \<Rightarrow> int \<times> errno \<times> nat" where
  "sem_trywait ok n =
     (if \<not> ok then (- 1, OtherError, n) else if n = 0 then (- 1, EAGAIN, n) else (0, NoError, n - 1))"

section \<open>Creation and destruction\<close>

text \<open>
  The outcomes of the allocation and of the three \<^verbatim>\<open>sem_init\<close> are arguments. The result has
  the returned value, the lock and the semaphores that remain initialised.
\<close>

definition rwl_init :: "bool \<Rightarrow> bool \<Rightarrow> bool \<Rightarrow> bool \<Rightarrow> int \<times> rwlock option \<times> sem_name list" where
  "rwl_init mem ok1 ok2 ok3 =
     (if \<not> mem then (- 1, None, [])
      else if \<not> ok1 then (- 1, None, [])
      else if \<not> ok2 then (- 1, None, remove1 Wrt [Wrt])
      else if \<not> ok3 then (- 1, None, remove1 Mtx (remove1 Wrt [Wrt, Mtx]))
      else (0, Some \<lparr>wrt = 1, mtx = 1, delFlag = 1, readcount = 0, active = 1\<rparr>, [Wrt, Mtx, DelFlag]))"

text \<open>
  \<open>lock\<close> is \<^term>\<open>None\<close> for a NULL argument and \<^term>\<open>Some None\<close> for the address of a NULL lock.
  The failures of the semaphore calls are only printed: the second component of the result
  says whether the lock was free.
\<close>

definition rwl_destroy :: "bool \<Rightarrow> bool \<Rightarrow> rwlock option option \<Rightarrow> (int \<times> bool \<times> rwlock option) option" where
  "rwl_destroy ok1 ok2 lock =
     (case lock of
        None \<Rightarrow> Some (- 1, False, None)
      | Some None \<Rightarrow> None
      | Some (Some l) \<Rightarrow>
          (let (r1, e1, w) = sem_trywait ok1 (wrt l); (r2, e2, m) = sem_trywait ok2 (mtx l)
           in Some (0, e1 \<noteq> EAGAIN \<and> e2 \<noteq> EAGAIN, None)))"

definition rwl_isActive :: "bool \<Rightarrow> rwlock option \<Rightarrow> int \<times> rwlock option" where
  "rwl_isActive ok lock =
     (case lock of
        None \<Rightarrow> (- 1, None)
      | Some l \<Rightarrow>
          (let (r, e, d) = sem_trywait ok (delFlag l); l' = l\<lparr>delFlag := d\<rparr>
           in if r = - 1 then (- 1, Some l')
              else if e = EAGAIN then (0, Some l')
              else (1, Some l')))"

section \<open>Locking, step by step\<close>

text \<open>
  Where a thread is: outside, in a lock it holds, or before one of the semaphore calls (or the
  update of the counter) of the function it is running.
\<close>

datatype pc =
    Idle | Writing | Reading
  | W_wait | W_post
  | R_wait | R_count | R_wrt | R_post | R_undo
  | U_wait | U_count | U_wrt | U_post | U_undo

text \<open>
  A step of a function: the new lock, where the thread is next and, when the function returns,
  the value it returns. After an update of the counter the thread is at once before the call
  the branch leads to.
\<close>

type_synonym outcome = "(rwlock \<times> pc \<times> int option) option"

fun rwl_writeLock :: "bool \<Rightarrow> rwlock \<Rightarrow> pc \<Rightarrow> outcome" where
  "rwl_writeLock ok l W_wait =
     (case sem_wait ok (wrt l) of
        None \<Rightarrow> None
      | Some (r, n) \<Rightarrow> if r = - 1 then Some (l, Idle, Some (- 1))
                      else Some (l\<lparr>wrt := n\<rparr>, Writing, Some 0))"
| "rwl_writeLock ok l _ = None"

fun rwl_writeUnlock :: "bool \<Rightarrow> rwlock \<Rightarrow> pc \<Rightarrow> outcome" where
  "rwl_writeUnlock ok l W_post =
     (case sem_post ok (wrt l) of
        (r, n) \<Rightarrow> if r = - 1 then Some (l, Writing, Some (- 1))
                  else Some (l\<lparr>wrt := n\<rparr>, Idle, Some 0))"
| "rwl_writeUnlock ok l _ = None"

fun rwl_readLock :: "bool \<Rightarrow> rwlock \<Rightarrow> pc \<Rightarrow> outcome" where
  "rwl_readLock ok l R_wait =
     (case sem_wait ok (mtx l) of
        None \<Rightarrow> None
      | Some (r, n) \<Rightarrow> if r = - 1 then Some (l, Idle, Some (- 1))
                      else Some (l\<lparr>mtx := n\<rparr>, R_count, None))"
| "rwl_readLock ok l R_count =
     (let c = readcount l + 1
      in Some (l\<lparr>readcount := c\<rparr>, if c = 1 then R_wrt else R_post, None))"
| "rwl_readLock ok l R_wrt =
     (case sem_wait ok (wrt l) of
        None \<Rightarrow> None
      | Some (r, n) \<Rightarrow> if r = - 1 then Some (l, R_undo, None)
                      else Some (l\<lparr>wrt := n\<rparr>, R_post, None))"
| "rwl_readLock ok l R_undo =
     (case sem_post ok (mtx l) of (r, n) \<Rightarrow> Some (l\<lparr>mtx := n\<rparr>, Idle, Some (- 1)))"
| "rwl_readLock ok l R_post =
     (case sem_post ok (mtx l) of
        (r, n) \<Rightarrow> if r = - 1 then Some (l, Idle, Some (- 1))
                  else Some (l\<lparr>mtx := n\<rparr>, Reading, Some 0))"
| "rwl_readLock ok l _ = None"

fun rwl_readUnlock :: "bool \<Rightarrow> rwlock \<Rightarrow> pc \<Rightarrow> outcome" where
  "rwl_readUnlock ok l U_wait =
     (case sem_wait ok (mtx l) of
        None \<Rightarrow> None
      | Some (r, n) \<Rightarrow> if r = - 1 then Some (l, Reading, Some (- 1))
                      else Some (l\<lparr>mtx := n\<rparr>, U_count, None))"
| "rwl_readUnlock ok l U_count =
     (let c = readcount l - 1
      in Some (l\<lparr>readcount := c\<rparr>, if c = 0 then U_wrt else U_post, None))"
| "rwl_readUnlock ok l U_wrt =
     (case sem_post ok (wrt l) of
        (r, n) \<Rightarrow> if r = - 1 then Some (l, U_undo, None)
                  else Some (l\<lparr>wrt := n\<rparr>, U_post, None))"
| "rwl_readUnlock ok l U_undo =
     (case sem_post ok (mtx l) of (r, n) \<Rightarrow> Some (l\<lparr>mtx := n\<rparr>, Idle, Some (- 1)))"
| "rwl_readUnlock ok l U_post =
     (case sem_post ok (mtx l) of
        (r, n) \<Rightarrow> if r = - 1 then Some (l, Idle, Some (- 1))
                  else Some (l\<lparr>mtx := n\<rparr>, Idle, Some 0))"
| "rwl_readUnlock ok l _ = None"

text \<open>The step of a thread that is inside one of the four functions.\<close>

definition thread_step :: "bool \<Rightarrow> rwlock \<Rightarrow> pc \<Rightarrow> outcome" where
  "thread_step ok l p =
     (if p = W_wait then rwl_writeLock ok l p
      else if p = W_post then rwl_writeUnlock ok l p
      else if p \<in> {R_wait, R_count, R_wrt, R_post, R_undo} then rwl_readLock ok l p
      else rwl_readUnlock ok l p)"

text \<open>
  The threads: one that is outside calls a lock function, one that has the lock calls the
  matching unlock function, and one inside a function does its next step. The index of the
  relation says whether every semaphore call so far succeeded.
\<close>

inductive rw_step :: "bool \<Rightarrow> rwlock \<times> pc list \<Rightarrow> rwlock \<times> pc list \<Rightarrow> bool" where
  call: "i < length ps \<Longrightarrow> (ps ! i, q) \<in> {(Idle, W_wait), (Idle, R_wait), (Writing, W_post), (Reading, U_wait)} \<Longrightarrow>
    rw_step True (l, ps) (l, ps[i := q])"
| run: "i < length ps \<Longrightarrow> thread_step ok l (ps ! i) = Some (l', q, r) \<Longrightarrow>
    rw_step ok (l, ps) (l', ps[i := q])"

inductive rw_reach :: "bool \<Rightarrow> nat \<Rightarrow> rwlock \<times> pc list \<Rightarrow> bool" where
  init: "rwl_init True True True True = (0, Some l, live) \<Longrightarrow> rw_reach True n (l, replicate n Idle)"
| step: "rw_reach b n c \<Longrightarrow> rw_step ok c c' \<Longrightarrow> rw_reach (b \<and> ok) n c'"

inductive_cases rw_stepE: "rw_step ok (l, ps) c'"

section \<open>The invariant\<close>

definition holds_mtx :: "pc set" where
  "holds_mtx = {R_count, R_wrt, R_post, U_count, U_wrt, U_post}"

definition counted :: "pc set" where
  "counted = {R_wrt, R_post, Reading, U_wait, U_count}"

text \<open>
  The mutex is held by one thread at most; the counter counts the readers; \<open>wrt\<close> is held by
  one writer, or by the readers together, or is free: the first reader takes it at
  \<^const>\<open>R_wrt\<close> and the last one gives it back at \<^const>\<open>U_wrt\<close>.
\<close>

definition rw_inv :: "rwlock \<times> pc list \<Rightarrow> bool" where
  "rw_inv c = (case c of (l, ps) \<Rightarrow>
     mtx l + at ps holds_mtx = 1 \<and>
     readcount l = int (at ps counted) \<and>
     at ps {R_undo, U_undo} = 0 \<and>
     (at ps {R_wrt} = 1 \<longrightarrow> at ps counted = 1) \<and>
     (at ps {U_wrt} = 1 \<longrightarrow> at ps counted = 0) \<and>
     wrt l + at ps {Writing, W_post} + at ps {U_wrt} +
       (if 0 < at ps counted \<and> at ps {R_wrt} = 0 then 1 else 0) = 1)"

lemma rw_invD:
  assumes "rw_inv (l, ps)"
  shows "mtx l + at ps holds_mtx = 1"
    and "at ps {R_undo, U_undo} = 0"
    and "at ps {R_wrt} = 1 \<Longrightarrow> at ps counted = 1"
    and "wrt l + at ps {Writing, W_post} + at ps {U_wrt} +
      (if 0 < at ps counted \<and> at ps {R_wrt} = 0 then 1 else 0) = 1"
  using assms unfolding rw_inv_def prod.case by blast+

lemma at_replicate: "Idle \<notin> P \<Longrightarrow> at (replicate n Idle) P = 0"
  by (simp add: at_replicate_if)

lemma at_split:
  "at ps holds_mtx = at ps {R_count, R_post, U_count, U_post} + at ps {R_wrt} + at ps {U_wrt}"
  "at ps counted = at ps {R_post, Reading, U_wait, U_count} + at ps {R_wrt}"
  by (induction ps) (auto simp: at_def holds_mtx_def counted_def)

text \<open>The sets a place belongs to, for the six counts of the invariant.\<close>

lemma places [simp]:
  "p \<in> holds_mtx \<longleftrightarrow> p = R_count \<or> p = R_wrt \<or> p = R_post \<or> p = U_count \<or> p = U_wrt \<or> p = U_post"
  "p \<in> counted \<longleftrightarrow> p = R_wrt \<or> p = R_post \<or> p = Reading \<or> p = U_wait \<or> p = U_count"
  by (auto simp: holds_mtx_def counted_def)

lemmas thread_defs = thread_step_def sem_wait_def sem_post_def Let_def

text \<open>Each function keeps the invariant.\<close>

lemma rwl_readLock_inv:
  assumes inv: "rw_inv (l, ps)" and i: "i < length ps"
    and t: "rwl_readLock True l (ps ! i) = Some (l', q, r)"
  shows "rw_inv (l', ps[i := q])"
proof (cases "ps ! i")
  case R_wait
  then have "l' = l\<lparr>mtx := mtx l - 1\<rparr>" "q = R_count" "mtx l \<noteq> 0"
    using t by (auto simp: thread_defs split: if_splits)
  then show ?thesis using inv R_wait unfolding rw_inv_def
    by (simp add: at_move [OF i])
next
  case R_count
  have "0 < at ps {R_count, R_post, U_count, U_post}" using at_pos [OF i] R_count by simp
  then show ?thesis using inv t R_count unfolding rw_inv_def
    by (cases "at ps counted = 0") (auto simp: at_move [OF i] at_split thread_defs)
next
  case R_wrt
  have "0 < at ps {R_wrt}" using at_pos [OF i] R_wrt by simp
  then show ?thesis using inv t R_wrt unfolding rw_inv_def
    by (auto simp: at_move [OF i] at_split thread_defs split: if_splits)
next
  case R_post
  have "0 < at ps {R_count, R_post, U_count, U_post}" "0 < at ps {R_post, Reading, U_wait, U_count}"
    using at_pos [OF i] R_post by simp_all
  then show ?thesis using inv t R_post unfolding rw_inv_def
    by (auto simp: at_move [OF i] at_split thread_defs)
next
  case R_undo
  then show ?thesis using inv at_pos [OF i, of "{R_undo, U_undo}"] by (simp add: rw_inv_def)
qed (use t in simp_all)

lemma rwl_readUnlock_inv:
  assumes inv: "rw_inv (l, ps)" and i: "i < length ps"
    and t: "rwl_readUnlock True l (ps ! i) = Some (l', q, r)"
  shows "rw_inv (l', ps[i := q])"
proof (cases "ps ! i")
  case U_wait
  then have "l' = l\<lparr>mtx := mtx l - 1\<rparr>" "q = U_count" "mtx l \<noteq> 0"
    using t by (auto simp: thread_defs split: if_splits)
  then show ?thesis using inv U_wait unfolding rw_inv_def
    by (simp add: at_move [OF i])
next
  case U_count
  have "0 < at ps {R_count, R_post, U_count, U_post}" "0 < at ps {R_post, Reading, U_wait, U_count}"
    using at_pos [OF i] U_count by simp_all
  then show ?thesis using inv t U_count unfolding rw_inv_def
    by (cases "at ps counted = 1") (auto simp: at_move [OF i] at_split thread_defs)
next
  case U_wrt
  have "0 < at ps {U_wrt}" using at_pos [OF i] U_wrt by simp
  then show ?thesis using inv t U_wrt unfolding rw_inv_def
    by (auto simp: at_move [OF i] at_split thread_defs)
next
  case U_post
  have "0 < at ps {R_count, R_post, U_count, U_post}" using at_pos [OF i] U_post by simp
  then show ?thesis using inv t U_post unfolding rw_inv_def
    by (auto simp: at_move [OF i] at_split thread_defs)
next
  case U_undo
  then show ?thesis using inv at_pos [OF i, of "{R_undo, U_undo}"] by (simp add: rw_inv_def)
qed (use t in simp_all)

lemma rwl_write_inv:
  assumes inv: "rw_inv (l, ps)" and i: "i < length ps"
    and t: "rwl_writeLock True l (ps ! i) = Some (l', q, r) \<or>
      rwl_writeUnlock True l (ps ! i) = Some (l', q, r)"
  shows "rw_inv (l', ps[i := q])"
proof (cases "ps ! i")
  case W_wait
  then have "l' = l\<lparr>wrt := wrt l - 1\<rparr>" "q = Writing" "wrt l \<noteq> 0"
    using t by (auto simp: thread_defs split: if_splits)
  then show ?thesis using inv W_wait unfolding rw_inv_def
    by (simp add: at_move [OF i])
next
  case W_post
  have "0 < at ps {Writing, W_post}" using at_pos [OF i] W_post by simp
  then show ?thesis using inv t W_post unfolding rw_inv_def
    by (auto simp: at_move [OF i] thread_defs)
qed (use t in simp_all)

lemma rw_call_inv:
  assumes inv: "rw_inv (l, ps)" and i: "i < length ps"
    and pq: "(ps ! i, q) \<in> {(Idle, W_wait), (Idle, R_wait), (Writing, W_post), (Reading, U_wait)}"
  shows "rw_inv (l, ps[i := q])"
proof -
  have "at (ps[i := q]) P = at ps P"
    if "P \<in> {holds_mtx, counted, {R_undo, U_undo}, {R_wrt}, {U_wrt}, {Writing, W_post}}" for P
    using that pq by (intro at_same [OF i]) auto
  then show ?thesis using inv by (simp add: rw_inv_def)
qed

lemma rw_inv_step:
  assumes inv: "rw_inv (l, ps)" and step: "rw_step True (l, ps) c'"
  shows "rw_inv c'"
proof -
  from step consider
      (call) i q where "c' = (l, ps[i := q])" "i < length ps"
        "(ps ! i, q) \<in> {(Idle, W_wait), (Idle, R_wait), (Writing, W_post), (Reading, U_wait)}"
    | (run) i l' q r where "c' = (l', ps[i := q])" "i < length ps" "thread_step True l (ps ! i) = Some (l', q, r)"
    by (elim rw_stepE) blast+
  then show ?thesis
  proof cases
    case call
    then show ?thesis using rw_call_inv [OF inv] by simp
  next
    case run
    then have "rwl_readLock True l (ps ! i) = Some (l', q, r) \<or> rwl_readUnlock True l (ps ! i) = Some (l', q, r) \<or>
        rwl_writeLock True l (ps ! i) = Some (l', q, r) \<or> rwl_writeUnlock True l (ps ! i) = Some (l', q, r)"
      unfolding thread_step_def by (metis (full_types))
    then show ?thesis unfolding run(1)
      using rwl_readLock_inv [OF inv run(2)] rwl_readUnlock_inv [OF inv run(2)] rwl_write_inv [OF inv run(2)]
      by blast
  qed
qed

lemma rw_step_length: "rw_step ok c c' \<Longrightarrow> length (snd c') = length (snd c)"
  by (induction rule: rw_step.induct) auto

lemma rw_reach_inv: "rw_reach b n c \<Longrightarrow> length (snd c) = n \<and> (b \<longrightarrow> rw_inv c)"
proof (induction rule: rw_reach.induct)
  case (init l live n)
  then show ?case by (auto simp: rwl_init_def rw_inv_def at_replicate)
next
  case (step b n c ok c')
  then show ?case using rw_step_length [OF step(2)] rw_inv_step [of "fst c" "snd c" c'] by auto
qed

text \<open>Runs, one step at a time.\<close>

lemma rw_reach_start:
  "rw_reach True n (\<lparr>wrt = 1, mtx = 1, delFlag = 1, readcount = 0, active = 1\<rparr>, replicate n Idle)"
  by (rule rw_reach.init [of _ "[Wrt, Mtx, DelFlag]"]) (simp add: rwl_init_def)

lemma rw_reach_call:
  "rw_reach b n (l, ps) \<Longrightarrow> i < length ps \<Longrightarrow> (ps ! i, q) \<in> {(Idle, W_wait), (Idle, R_wait)} \<Longrightarrow>
   rw_reach b n (l, ps[i := q])"
  using rw_reach.step [OF _ rw_step.call, of b n l ps i q] by auto

lemma rw_reach_run:
  "rw_reach b n (l, ps) \<Longrightarrow> i < length ps \<Longrightarrow> thread_step ok l (ps ! i) = Some (l', q, r) \<Longrightarrow>
   rw_reach (b \<and> ok) n (l', ps[i := q])"
  using rw_reach.step [OF _ rw_step.run] .

section \<open>Properties\<close>

text \<open>
  C15: While no semaphore call fails, no thread reads or writes while another one writes, in
  every interleaving of any number of threads.
\<close>

theorem rwl_mutual_exclusion:
  assumes "rw_reach True n (l, ps)" and "i < n" "j < n" "i \<noteq> j" and "ps ! i = Writing"
  shows "ps ! j \<noteq> Writing \<and> ps ! j \<noteq> Reading"
proof -
  have inv: "rw_inv (l, ps)" and n: "length ps = n" using rw_reach_inv [OF assms(1)] by simp_all
  have w: "0 < at ps {Writing, W_post}" using at_pos [of i ps] assms n by simp
  let ?group = "if 0 < at ps counted \<and> at ps {R_wrt} = 0 then 1 else 0 :: nat"
  have sum: "wrt l + at ps {Writing, W_post} + at ps {U_wrt} + ?group = 1" by (rule rw_invD(4) [OF inv])
  then have one: "at ps {Writing, W_post} = 1" and "?group = 0" using w by linarith+
  then have free: "at ps counted = 0 \<or> at ps {R_wrt} \<noteq> 0" by (metis gr_zeroI zero_neq_one)
  from one have "at (ps[i := Idle]) {Writing, W_post} = 0" using assms n by (simp add: at_move)
  then have "ps[i := Idle] ! j \<noteq> Writing" using at_0 [of "ps[i := Idle]"] assms(3) n by simp
  then have "ps ! j \<noteq> Writing" using assms(3, 4) n by simp
  moreover have "ps ! j \<noteq> Reading"
  proof
    assume "ps ! j = Reading"
    then have "0 < at ps {R_post, Reading, U_wait, U_count}" using at_pos [of j ps] assms n by simp
    moreover have "at ps {R_wrt} \<le> 1" using rw_invD(1) [OF inv] at_split(1) [of ps] by linarith
    ultimately show False using free rw_invD(3) [OF inv] at_split(2) [of ps] by linarith
  qed
  ultimately show ?thesis by blast
qed

theorem rwl_mutual_exclusion_witness:
  "\<exists>l ps. rw_reach True 2 (l, ps) \<and> ps ! 0 = Writing \<and> ps ! 1 \<noteq> Writing \<and> ps ! 1 \<noteq> Reading"
proof -
  let ?l = "\<lambda>w. \<lparr>wrt = w, mtx = 1, delFlag = 1, readcount = 0, active = 1\<rparr>"
  have "rw_reach True 2 (?l 1, [Idle, Idle])" using rw_reach_start [of 2] by (simp add: eval_nat_numeral)
  from rw_reach_call [OF this, of 0 W_wait] have "rw_reach True 2 (?l 1, [W_wait, Idle])" by simp
  from rw_reach_run [OF this, of 0 True] have r: "rw_reach True 2 (?l 0, [Writing, Idle])" by (simp add: thread_defs)
  from rwl_mutual_exclusion [OF r, of 0 1] r show ?thesis by (intro exI) auto
qed

text \<open>
  C30: No deadlock. While no semaphore call fails: when some thread is inside a function, a
  thread holds the lock, for reading or writing, or a thread inside a function can do its step.
\<close>

theorem rwl_progress:
  assumes "rw_reach True n (l, ps)" and "k < n" and "ps ! k \<notin> {Idle, Reading, Writing}"
  shows "(\<exists>i<n. ps ! i \<in> {Reading, Writing}) \<or> (\<exists>i<n. thread_step True l (ps ! i) \<noteq> None)"
proof (rule disjCI)
  assume stuck: "\<not> (\<exists>i<n. thread_step True l (ps ! i) \<noteq> None)"
  have inv: "rw_inv (l, ps)" and n: "length ps = n" using rw_reach_inv [OF assms(1)] by simp_all
  have empty: "at ps P = 0" if "\<And>p. p \<in> P \<Longrightarrow> thread_step True l p \<noteq> None" for P
    unfolding at_0 using stuck that n by blast
  have none: "at ps {W_post} = 0" "at ps {R_count, R_post, U_count, U_post} = 0" "at ps {U_wrt} = 0"
    by (rule empty, auto simp: thread_defs)+
  show "\<exists>i<n. ps ! i \<in> {Reading, Writing}"
  proof (rule ccontr)
    assume out: "\<not> (\<exists>i<n. ps ! i \<in> {Reading, Writing})"
    then have w: "at ps {Writing, W_post} = 0" using none(1) n by (auto simp: at_0)
    have "at ps {R_wrt} = 0"
    proof (rule ccontr)
      assume r: "at ps {R_wrt} \<noteq> 0"
      then have "wrt l = 1" using rw_invD(4) [OF inv] w none by simp
      then have "at ps {R_wrt} = 0" using \<open>wrt l = 1\<close> by (intro empty) (auto simp: thread_defs)
      then show False using r by simp
    qed
    then have m: "mtx l = 1" using rw_invD(1) [OF inv] none at_split(1) [of ps] by simp
    have waits: "at ps {R_wait, U_wait} = 0" using m by (intro empty) (auto simp: thread_defs)
    have "at ps counted = 0"
      using out none(2) waits \<open>at ps {R_wrt} = 0\<close> n by (auto simp: at_0)
    then have "wrt l = 1" using rw_invD(4) [OF inv] w none by simp
    then have "at ps {W_wait} = 0" by (intro empty) (auto simp: thread_defs)
    moreover have "at ps {R_undo, U_undo} = 0" by (rule rw_invD(2) [OF inv])
    ultimately show False
      using assms(2, 3) none w waits \<open>at ps {R_wrt} = 0\<close> n by (cases "ps ! k") (auto simp: at_0)
  qed
qed

theorem rwl_progress_witness:
  "\<exists>l ps. rw_reach True 1 (l, ps) \<and> ps ! 0 = W_wait \<and> (\<exists>i<1. thread_step True l (ps ! i) \<noteq> None)"
proof -
  let ?l = "\<lparr>wrt = 1, mtx = 1, delFlag = 1, readcount = 0, active = 1\<rparr>"
  have "rw_reach True 1 (?l, [Idle])" using rw_reach_start [of 1] by simp
  from rw_reach_call [OF this, of 0 W_wait] have r: "rw_reach True 1 (?l, [W_wait])" by simp
  from rwl_progress [OF r, of 0] r show ?thesis by (intro exI [of _ ?l] exI [of _ "[W_wait]"]) auto
qed

text \<open>
  When the \<^verbatim>\<open>sem_wait\<close> of the first reader fails, its count is not taken back, and the
  next reader enters while a writer has the lock.
\<close>

theorem rwl_read_interrupted:
  "\<exists>l. rw_reach False 3 (l, [Writing, Idle, Reading])"
proof -
  let ?l = "\<lambda>w m c. \<lparr>wrt = w, mtx = m, delFlag = 1, readcount = c, active = 1\<rparr>"
  note call = rw_reach_call and run = rw_reach_run
  have r0: "rw_reach True 3 (?l 1 1 0, [Idle, Idle, Idle])" using rw_reach_start [of 3] by (simp add: eval_nat_numeral)
  note defs = thread_defs
  have "rw_reach True 3 (?l 1 1 0, [W_wait, Idle, Idle])" using call [OF r0, of 0 W_wait] by simp
  from run [OF this, of 0 True] have "rw_reach True 3 (?l 0 1 0, [Writing, Idle, Idle])" by (simp add: defs)
  from call [OF this, of 1 R_wait] have "rw_reach True 3 (?l 0 1 0, [Writing, R_wait, Idle])" by simp
  from run [OF this, of 1 True] have "rw_reach True 3 (?l 0 0 0, [Writing, R_count, Idle])" by (simp add: defs)
  from run [OF this, of 1 True] have "rw_reach True 3 (?l 0 0 1, [Writing, R_wrt, Idle])" by (simp add: defs)
  from run [OF this, of 1 False] have "rw_reach False 3 (?l 0 0 1, [Writing, R_undo, Idle])" by (simp add: defs)
  from run [OF this, of 1 True] have "rw_reach False 3 (?l 0 1 1, [Writing, Idle, Idle])" by (simp add: defs)
  from call [OF this, of 2 R_wait] have "rw_reach False 3 (?l 0 1 1, [Writing, Idle, R_wait])" by simp
  from run [OF this, of 2 True] have "rw_reach False 3 (?l 0 0 1, [Writing, Idle, R_count])" by (simp add: defs)
  from run [OF this, of 2 True] have "rw_reach False 3 (?l 0 0 2, [Writing, Idle, R_post])" by (simp add: defs)
  from run [OF this, of 2 True] have "rw_reach False 3 (?l 0 1 2, [Writing, Idle, Reading])" by (simp add: defs)
  then show ?thesis by blast
qed

text \<open>
  \<^verbatim>\<open>rwl_init\<close> returns 0 with a free lock exactly when the allocation and the three
  initialisations succeed; otherwise it returns -1, the lock is NULL and no semaphore is left.
\<close>

lemma rwl_init_outcomes:
  "rwl_init mem ok1 ok2 ok3 =
     (if mem \<and> ok1 \<and> ok2 \<and> ok3
      then (0, Some \<lparr>wrt = 1, mtx = 1, delFlag = 1, readcount = 0, active = 1\<rparr>, [Wrt, Mtx, DelFlag])
      else (- 1, None, []))"
  by (simp add: rwl_init_def)

text \<open>
  \<^verbatim>\<open>rwl_isActive\<close> never returns 0, and only its first call returns 1: it takes the flag
  and does not give it back, so every later call returns -1.
\<close>

theorem rwl_isActive_once:
  "rwl_init True True True True = (0, Some l, live) \<Longrightarrow>
   \<exists>l1. rwl_isActive True (Some l) = (1, Some l1) \<and>
     (\<forall>ok. rwl_isActive ok (Some l1) = (- 1, Some l1)) \<and> (\<forall>ok lk. fst (rwl_isActive ok lk) \<noteq> 0)"
  by (auto simp: rwl_init_def rwl_isActive_def sem_trywait_def split: option.splits)

theorem rwl_isActive_once_witness:
  "\<exists>l l1. rwl_isActive True (Some l) = (1, Some l1) \<and> rwl_isActive True (Some l1) = (- 1, Some l1)"
  using rwl_isActive_once [of "\<lparr>wrt = 1, mtx = 1, delFlag = 1, readcount = 0, active = 1\<rparr>" "[Wrt, Mtx, DelFlag]"]
  by (auto simp: rwl_init_def)

end
