(* ===== verification/JobQueue.thy ===== *)
theory JobQueue
  imports Fifo
begin

text \<open>
  The job queue of \<^verbatim>\<open>udpclient/pool/thpool.c\<close>: jobs are heap nodes linked from the front
  of the queue to its rear through \<^verbatim>\<open>prev\<close>, and a binary semaphore tells the workers that
  there are jobs. Every function here runs with the queue's mutex held, so it is one step of
  the pool of theory \<open>ThreadPool\<close>. The length is an integer: a queue of \<open>2 ^ 31\<close> jobs is not
  considered.
\<close>

section \<open>Data\<close>

record job =
  j_prev :: ptr
  j_function :: addr
  j_arg :: ptr

record jobqueue =
  j_heap :: "job heap"
  front :: ptr
  rear :: ptr
  has_jobs :: int
  q_len :: int

type_synonym work = "addr \<times> ptr"

definition work_of :: "job \<Rightarrow> work" where
  "work_of j = (j_function j, j_arg j)"

section \<open>The binary semaphore\<close>

text \<open>
  \<^const>\<open>has_jobs\<close> is the field \<^verbatim>\<open>v\<close>, always changed under the semaphore's mutex. A
  waiting thread goes on when it finds 1; \<^term>\<open>None\<close> blocks. An initialisation
  with another value than 0 or 1 exits the program.
\<close>

definition bsem_init :: "int \<Rightarrow> int option" where
  "bsem_init value = (if value < 0 \<or> value > 1 then None else Some value)"

definition bsem_reset :: "int option" where
  "bsem_reset = bsem_init 0"

definition bsem_post :: "jobqueue \<Rightarrow> jobqueue" where
  "bsem_post q = q\<lparr>has_jobs := 1\<rparr>"

definition bsem_post_all :: "jobqueue \<Rightarrow> jobqueue" where
  "bsem_post_all q = q\<lparr>has_jobs := 1\<rparr>"

definition bsem_wait :: "jobqueue \<Rightarrow> jobqueue option" where
  "bsem_wait q = (if has_jobs q \<noteq> 1 then None else Some (q\<lparr>has_jobs := 0\<rparr>))"

section \<open>The queue\<close>

text \<open>The two allocations of \<^verbatim>\<open>jobqueue_init\<close> are arguments; \<^term>\<open>None\<close> is -1.\<close>

definition jobqueue_init :: "bool \<Rightarrow> bool \<Rightarrow> job heap \<Rightarrow> jobqueue option" where
  "jobqueue_init ok1 ok2 h =
     (if \<not> ok1 then None
      else if \<not> ok2 then None
      else map_option (\<lambda>v. \<lparr>j_heap = h, front = None, rear = None, has_jobs = v, q_len = 0\<rparr>) (bsem_init 0))"

definition jobqueue_push :: "jobqueue \<Rightarrow> addr \<Rightarrow> jobqueue option" where
  "jobqueue_push q newjob = do {
     h \<leftarrow> modify (j_heap q) (Some newjob) (\<lambda>j. j\<lparr>j_prev := None\<rparr>);
     q' \<leftarrow> (if q_len q = 0
           then Some (q\<lparr>j_heap := h, front := Some newjob, rear := Some newjob\<rparr>)
           else do {
             h' \<leftarrow> modify h (rear q) (\<lambda>j. j\<lparr>j_prev := Some newjob\<rparr>);
             Some (q\<lparr>j_heap := h', rear := Some newjob\<rparr>) });
     Some (bsem_post (q'\<lparr>q_len := q_len q' + 1\<rparr>)) }"

definition jobqueue_pull :: "jobqueue \<Rightarrow> (ptr \<times> jobqueue) option" where
  "jobqueue_pull q =
     (let job_p = front q in
      if q_len q = 0 then Some (job_p, q)
      else if q_len q = 1 then Some (job_p, q\<lparr>front := None, rear := None, q_len := 0\<rparr>)
      else do {
        j \<leftarrow> deref (j_heap q) job_p;
        Some (job_p, bsem_post (q\<lparr>front := j_prev j, q_len := q_len q - 1\<rparr>)) })"

partial_function (option) clear_loop :: "jobqueue \<Rightarrow> jobqueue option" where
  "clear_loop q =
     (if q_len q = 0 then Some q
      else do {
        (p, q1) \<leftarrow> jobqueue_pull q;
        h \<leftarrow> release (j_heap q1) p;
        clear_loop (q1\<lparr>j_heap := h\<rparr>) })"

definition jobqueue_clear :: "jobqueue \<Rightarrow> jobqueue option" where
  "jobqueue_clear q = do {
     q1 \<leftarrow> clear_loop q;
     v \<leftarrow> bsem_reset;
     Some (q1\<lparr>front := None, rear := None, has_jobs := v, q_len := 0\<rparr>) }"

definition jobqueue_destroy :: "jobqueue \<Rightarrow> job heap option" where
  "jobqueue_destroy q = map_option j_heap (jobqueue_clear q)"

section \<open>The invariant\<close>

text \<open>The nodes from a pointer to the end of the queue.\<close>

fun chain :: "job heap \<Rightarrow> ptr \<Rightarrow> addr list \<Rightarrow> bool" where
  "chain h p [] \<longleftrightarrow> p = None"
| "chain h p (a # as) \<longleftrightarrow> p = Some a \<and> (\<exists>j. h a = Some j \<and> chain h (j_prev j) as)"

definition queue_wf :: "jobqueue \<Rightarrow> addr list \<Rightarrow> bool" where
  "queue_wf q as \<longleftrightarrow> chain (j_heap q) (front q) as \<and> distinct as \<and> q_len q = int (length as) \<and>
     rear q = (if as = [] then None else Some (last as)) \<and> has_jobs q \<in> {0, 1}"

definition works :: "job heap \<Rightarrow> addr list \<Rightarrow> work list" where
  "works h as = map (\<lambda>a. work_of (the (h a))) as"

lemma works_simps [simp]:
  "works h [] = []" "works h (a # as) = work_of (the (h a)) # works h as"
  "works h (as @ bs) = works h as @ works h bs" "length (works h as) = length as"
  by (simp_all add: works_def)

lemma works_cong: "(\<And>a. a \<in> set as \<Longrightarrow> h' a = h a) \<Longrightarrow> works h' as = works h as"
  by (simp add: works_def)

lemma job_chain_cong: "(\<And>a. a \<in> set as \<Longrightarrow> h' a = h a) \<Longrightarrow> chain h' p as = chain h p as"
  by (induction as arbitrary: p) auto

lemma chain_live: "chain h p as \<Longrightarrow> a \<in> set as \<Longrightarrow> \<exists>j. h a = Some j"
  by (induction as arbitrary: p) auto

text \<open>Linking a node behind the last one.\<close>

lemma chain_snoc:
  assumes "chain h p as" and "as \<noteq> []" and "distinct as" and "a \<notin> set as"
    and "h a = Some j" and "j_prev j = None" and "h (last as) = Some r"
  shows "chain (h(last as \<mapsto> r\<lparr>j_prev := Some a\<rparr>)) p (as @ [a])"
  using assms
proof (induction as arbitrary: p)
  case (Cons b bs)
  show ?case
  proof (cases "bs = []")
    case True
    then show ?thesis using Cons.prems by auto
  next
    case False
    obtain k where k: "h b = Some k" "chain h (j_prev k) bs" using Cons.prems(1) by auto
    have "b \<noteq> last bs" using Cons.prems(3) False by auto
    then show ?thesis using Cons.IH [OF k(2) False] Cons.prems k False by simp
  qed
qed simp

lemma jobqueue_push_wf:
  assumes wf: "queue_wf q as" and a: "a \<notin> set as" and j: "j_heap q a = Some j"
  obtains q' where "jobqueue_push q a = Some q'" "queue_wf q' (as @ [a])" "has_jobs q' = 1"
    "\<And>b. map_option work_of (j_heap q' b) = map_option work_of (j_heap q b)"
proof (cases "as = []")
  case True
  let ?q = "q\<lparr>j_heap := (j_heap q)(a \<mapsto> j\<lparr>j_prev := None\<rparr>), front := Some a, rear := Some a, has_jobs := 1, q_len := 1\<rparr>"
  have "jobqueue_push q a = Some ?q"
    using wf True j by (simp add: jobqueue_push_def queue_wf_def bsem_post_def)
  then show thesis
    using that [of ?q] wf True j by (simp add: queue_wf_def work_of_def)
next
  case False
  let ?h = "(j_heap q)(a \<mapsto> j\<lparr>j_prev := None\<rparr>)"
  have ch: "chain (j_heap q) (front q) as" and d: "distinct as" using wf by (simp_all add: queue_wf_def)
  have ch': "chain ?h (front q) as" using ch a by (subst job_chain_cong [where h = "j_heap q"]) auto
  obtain r where r: "j_heap q (last as) = Some r" using chain_live [OF ch, of "last as"] False by auto
  have ne: "last as \<noteq> a" using a False by auto
  let ?h' = "?h(last as \<mapsto> r\<lparr>j_prev := Some a\<rparr>)"
  let ?q = "q\<lparr>j_heap := ?h', rear := Some a, has_jobs := 1, q_len := q_len q + 1\<rparr>"
  have "jobqueue_push q a = Some ?q"
    using wf False j r ne by (simp add: jobqueue_push_def queue_wf_def bsem_post_def)
  moreover have "chain ?h' (front q) (as @ [a])"
    using chain_snoc [OF ch' False d a] r ne by simp
  ultimately show thesis
    using that [of ?q] wf a False r j ne by (simp add: queue_wf_def work_of_def)
qed

lemma jobqueue_pull_empty: "queue_wf q [] \<Longrightarrow> jobqueue_pull q = Some (None, q)"
  by (simp add: jobqueue_pull_def queue_wf_def)

lemma jobqueue_pull_wf:
  assumes wf: "queue_wf q (a # as)"
  obtains q' where "jobqueue_pull q = Some (Some a, q')" "queue_wf q' as" "j_heap q' = j_heap q"
    "has_jobs q' = (if as = [] then has_jobs q else 1)"
proof (cases "as = []")
  case True
  let ?q = "q\<lparr>front := None, rear := None, q_len := 0\<rparr>"
  have "jobqueue_pull q = Some (Some a, ?q)" using wf True by (simp add: jobqueue_pull_def queue_wf_def)
  then show thesis using that [of ?q] wf True by (simp add: queue_wf_def)
next
  case False
  then have "q_len q \<noteq> 0" "q_len q \<noteq> 1" using wf by (auto simp: queue_wf_def)
  moreover obtain j where j: "j_heap q a = Some j" "front q = Some a" "chain (j_heap q) (j_prev j) as"
    using wf by (auto simp: queue_wf_def)
  moreover define q' where "q' = bsem_post (q\<lparr>front := j_prev j, q_len := q_len q - 1\<rparr>)"
  ultimately have "jobqueue_pull q = Some (Some a, q')" by (simp add: jobqueue_pull_def)
  then show thesis
    using that [of q'] wf False j by (simp add: queue_wf_def q'_def bsem_post_def)
qed

lemma queue_wf_heap:
  "queue_wf q as \<Longrightarrow> (\<And>a. a \<in> set as \<Longrightarrow> h a = j_heap q a) \<Longrightarrow> queue_wf (q\<lparr>j_heap := h\<rparr>) as"
  using job_chain_cong [of as h "j_heap q"] by (simp add: queue_wf_def)

lemma queue_wf_other:
  "queue_wf q as \<Longrightarrow> a \<notin> set as \<Longrightarrow> queue_wf (q\<lparr>j_heap := (j_heap q)(a := x)\<rparr>) as"
  by (rule queue_wf_heap) auto

text \<open>Clearing pulls and releases every job: it returns, and only the queue's nodes are gone.\<close>

lemma clear_loop_wf:
  "queue_wf q as \<Longrightarrow> \<exists>q'. clear_loop q = Some q' \<and> queue_wf q' [] \<and> j_heap q' = j_heap q |` (- set as)"
proof (induction as arbitrary: q)
  case Nil
  then show ?case by (subst clear_loop.simps) (simp add: queue_wf_def restrict_map_def)
next
  case (Cons a as)
  obtain q1 where q1: "jobqueue_pull q = Some (Some a, q1)" "queue_wf q1 as" "j_heap q1 = j_heap q"
    using jobqueue_pull_wf [OF Cons.prems] by metis
  obtain j where j: "j_heap q a = Some j" using Cons.prems by (auto simp: queue_wf_def)
  let ?q = "q1\<lparr>j_heap := (j_heap q)(a := None)\<rparr>"
  have "a \<notin> set as" "q_len q \<noteq> 0" using Cons.prems by (auto simp: queue_wf_def)
  then have "queue_wf ?q as" using queue_wf_other [OF q1(2), of a None] q1(3) by simp
  from Cons.IH [OF this] obtain q' where q': "clear_loop ?q = Some q'" "queue_wf q' []"
      "j_heap q' = j_heap ?q |` (- set as)" by blast
  have "clear_loop q = Some q'"
    using \<open>q_len q \<noteq> 0\<close> q1 j q'(1) by (subst clear_loop.simps) simp
  moreover have "(j_heap q)(a := None) |` (- set as) = j_heap q |` (- set (a # as))"
    by (rule ext) (simp add: restrict_map_def)
  ultimately show ?case using q'(2, 3) by simp
qed

lemma jobqueue_clear_wf:
  assumes "queue_wf q as"
  shows "\<exists>q'. jobqueue_clear q = Some q' \<and> queue_wf q' [] \<and> has_jobs q' = 0 \<and>
    j_heap q' = j_heap q |` (- set as)"
proof -
  obtain q' where q': "clear_loop q = Some q'" "queue_wf q' []" "j_heap q' = j_heap q |` (- set as)"
    using clear_loop_wf [OF assms] by blast
  then show ?thesis by (simp add: jobqueue_clear_def bsem_reset_def bsem_init_def queue_wf_def)
qed

section \<open>The queue of jobs as a queue of work\<close>

text \<open>
  As the pool uses it: a job is allocated, filled and pushed; a pulled job is read and
  released. The allocator is a parameter, checked to return a node that is not live.
\<close>

definition new_job :: "(job heap \<Rightarrow> ptr) \<Rightarrow> job heap \<Rightarrow> work \<Rightarrow> (addr \<times> job heap) option" where
  "new_job alloc h w =
     (case alloc h of None \<Rightarrow> None
      | Some a \<Rightarrow>
          if h a = None
          then Some (a, h(a \<mapsto> \<lparr>j_prev = None, j_function = fst w, j_arg = snd w\<rparr>)) else None)"

primrec push_all :: "(job heap \<Rightarrow> ptr) \<Rightarrow> work list \<Rightarrow> jobqueue \<Rightarrow> jobqueue option" where
  "push_all alloc [] q = Some q"
| "push_all alloc (w # ws) q = do {
     (a, h) \<leftarrow> new_job alloc (j_heap q) w;
     q1 \<leftarrow> jobqueue_push (q\<lparr>j_heap := h\<rparr>) a;
     push_all alloc ws q1 }"

primrec pull_n :: "nat \<Rightarrow> jobqueue \<Rightarrow> (work list \<times> jobqueue) option" where
  "pull_n 0 q = Some ([], q)"
| "pull_n (Suc n) q = do {
     (p, q1) \<leftarrow> jobqueue_pull q;
     j \<leftarrow> deref (j_heap q1) p;
     h \<leftarrow> release (j_heap q1) p;
     (ws, q2) \<leftarrow> pull_n n (q1\<lparr>j_heap := h\<rparr>);
     Some (work_of j # ws, q2) }"

definition queue_ok :: "jobqueue \<Rightarrow> bool" where
  "queue_ok q \<longleftrightarrow> (\<exists>as. queue_wf q as)"

text \<open>The work in the queue, front first, read off the nodes.\<close>

fun walk :: "nat \<Rightarrow> job heap \<Rightarrow> ptr \<Rightarrow> work list" where
  "walk (Suc n) h (Some a) =
     (case h a of None \<Rightarrow> [] | Some j \<Rightarrow> work_of j # walk n h (j_prev j))"
| "walk _ h _ = []"

definition queued :: "jobqueue \<Rightarrow> work list" where
  "queued q = walk (nat (q_len q)) (j_heap q) (front q)"

lemma walk_chain: "chain h p as \<Longrightarrow> walk (length as) h p = works h as"
  by (induction as arbitrary: p) auto

lemma queued_wf: "queue_wf q as \<Longrightarrow> queued q = works (j_heap q) as"
  by (simp add: queued_def queue_wf_def walk_chain)

text \<open>Adding one job: the node is new, and the work of every other node stays.\<close>

lemma push_new_node:
  assumes wf: "queue_wf q as" and new: "new_job alloc (j_heap q) w = Some (a, h)"
  obtains q' where "jobqueue_push (q\<lparr>j_heap := h\<rparr>) a = Some q'" "queue_wf q' (as @ [a])" "has_jobs q' = 1"
    "a \<notin> dom (j_heap q)" "dom (j_heap q') = insert a (dom (j_heap q))"
    "\<And>b. map_option work_of (j_heap q' b) = (if b = a then Some w else map_option work_of (j_heap q b))"
proof -
  let ?j = "\<lparr>j_prev = None, j_function = fst w, j_arg = snd w\<rparr>"
  have a: "j_heap q a = None" and h: "h = (j_heap q)(a \<mapsto> ?j)"
    using new by (auto simp: new_job_def split: option.splits if_splits)
  have na: "a \<notin> set as" using chain_live [of "j_heap q" "front q" as a] wf a by (auto simp: queue_wf_def)
  have wf1: "queue_wf (q\<lparr>j_heap := h\<rparr>) as" using queue_wf_other [OF wf na] h by simp
  obtain q1 where q1: "jobqueue_push (q\<lparr>j_heap := h\<rparr>) a = Some q1" "queue_wf q1 (as @ [a])" "has_jobs q1 = 1"
      "\<And>b. map_option work_of (j_heap q1 b) = map_option work_of (h b)"
    using jobqueue_push_wf [OF wf1 na, of ?j] h by auto
  have W: "map_option work_of (j_heap q1 b) = (if b = a then Some w else map_option work_of (j_heap q b))" for b
    using q1(4) [of b] h by (simp add: work_of_def)
  have "b \<in> dom (j_heap q1) \<longleftrightarrow> b \<in> insert a (dom (j_heap q))" for b
  proof -
    have "(j_heap q1 b = None) = (map_option work_of (j_heap q1 b) = None)" by simp
    also have "\<dots> = (b \<noteq> a \<and> j_heap q b = None)" unfolding W by simp
    finally show ?thesis by (auto simp: domIff)
  qed
  then have "dom (j_heap q1) = insert a (dom (j_heap q))" by blast
  with q1 W a that [of q1] show thesis by (simp add: domIff)
qed

lemma work_of_the:
  "map_option work_of x = map_option work_of y \<Longrightarrow> y \<noteq> None \<Longrightarrow> work_of (the x) = work_of (the y)"
  by (cases x; cases y) auto

lemma works_work_of:
  "(\<And>b. b \<in> set as \<Longrightarrow> map_option work_of (h' b) = map_option work_of (h b)) \<Longrightarrow>
   (\<And>b. b \<in> set as \<Longrightarrow> h b \<noteq> None) \<Longrightarrow> works h' as = works h as"
  unfolding works_def by (rule map_cong [OF refl]) (rule work_of_the, blast+)

lemma push_new_job:
  assumes wf: "queue_wf q as" and new: "new_job alloc (j_heap q) w = Some (a, h)"
    and push: "jobqueue_push (q\<lparr>j_heap := h\<rparr>) a = Some q'"
  shows "queue_wf q' (as @ [a]) \<and> queued q' = queued q @ [w]"
proof -
  obtain q1 where q1: "jobqueue_push (q\<lparr>j_heap := h\<rparr>) a = Some q1" "queue_wf q1 (as @ [a])"
      "a \<notin> dom (j_heap q)"
      "\<And>b. map_option work_of (j_heap q1 b) = (if b = a then Some w else map_option work_of (j_heap q b))"
    using push_new_node [OF wf new] by metis
  have live: "b \<in> dom (j_heap q)" if "b \<in> set as" for b
    using chain_live [of "j_heap q" "front q" as b] wf that by (auto simp: queue_wf_def)
  have "works (j_heap q1) as = works (j_heap q) as"
    using live q1(3, 4) by (intro works_work_of) auto
  moreover have "work_of (the (j_heap q1 a)) = w" using q1(4) [of a] by auto
  ultimately show ?thesis using q1(1, 2) push queued_wf [OF q1(2)] queued_wf [OF wf] by simp
qed

lemma push_all_law:
  "queue_ok q \<Longrightarrow> push_all alloc ws q = Some q' \<Longrightarrow> queue_ok q' \<and> queued q' = queued q @ ws"
proof (induction ws arbitrary: q)
  case (Cons w ws)
  obtain a h q1 where s: "new_job alloc (j_heap q) w = Some (a, h)"
      "jobqueue_push (q\<lparr>j_heap := h\<rparr>) a = Some q1" "push_all alloc ws q1 = Some q'"
    using Cons.prems(2) by (auto simp: Option.bind_eq_Some_conv)
  obtain as where "queue_wf q as" using Cons.prems(1) by (auto simp: queue_ok_def)
  from push_new_job [OF this s(1, 2)] have "queue_ok q1" "queued q1 = queued q @ [w]"
    by (auto simp: queue_ok_def)
  then show ?case using Cons.IH [OF _ s(3)] by simp
qed simp

lemma pull_n_law:
  "queue_wf q as \<Longrightarrow> n \<le> length as \<Longrightarrow>
   \<exists>q'. pull_n n q = Some (take n (queued q), q') \<and> queue_wf q' (drop n as) \<and> queued q' = drop n (queued q)"
proof (induction n arbitrary: q as)
  case (Suc n)
  then obtain a bs where as: "as = a # bs" by (cases as) auto
  obtain q1 where q1: "jobqueue_pull q = Some (Some a, q1)" "queue_wf q1 bs" "j_heap q1 = j_heap q"
    using jobqueue_pull_wf Suc.prems(1) unfolding as by metis
  obtain j where j: "j_heap q a = Some j" using Suc.prems(1) as by (auto simp: queue_wf_def)
  let ?h = "(j_heap q)(a := None)"
  have na: "a \<notin> set bs" using Suc.prems(1) as by (simp add: queue_wf_def)
  have wf1: "queue_wf (q1\<lparr>j_heap := ?h\<rparr>) bs" using queue_wf_other [OF q1(2) na, of None] q1(3) by simp
  have "works ?h bs = works (j_heap q) bs" using na by (intro works_cong) auto
  then have qd: "queued q = work_of j # queued (q1\<lparr>j_heap := ?h\<rparr>)"
    using queued_wf [OF Suc.prems(1)] queued_wf [OF wf1] as j by simp
  obtain q' where "pull_n n (q1\<lparr>j_heap := ?h\<rparr>) = Some (take n (queued (q1\<lparr>j_heap := ?h\<rparr>)), q')"
      "queue_wf q' (drop n bs)" "queued q' = drop n (queued (q1\<lparr>j_heap := ?h\<rparr>))"
    using Suc.IH [OF wf1] Suc.prems(2) as by auto
  then show ?case using q1 j qd as by simp
qed simp

lemma pull_n_short: "queue_wf q as \<Longrightarrow> length as < n \<Longrightarrow> pull_n n q = None"
proof (induction n arbitrary: q as)
  case (Suc n)
  show ?case
  proof (cases as)
    case Nil
    then show ?thesis using jobqueue_pull_empty Suc.prems(1) by simp
  next
    case (Cons a bs)
    obtain q1 where q1: "jobqueue_pull q = Some (Some a, q1)" "queue_wf q1 bs" "j_heap q1 = j_heap q"
      using jobqueue_pull_wf Suc.prems(1) unfolding Cons by metis
    let ?h = "(j_heap q)(a := None)"
    have na: "a \<notin> set bs" using Suc.prems(1) Cons by (simp add: queue_wf_def)
    have "queue_wf (q1\<lparr>j_heap := ?h\<rparr>) bs" using queue_wf_other [OF q1(2) na, of None] q1(3) by simp
    then have "pull_n n (q1\<lparr>j_heap := ?h\<rparr>) = None" using Suc.IH Suc.prems(2) Cons by simp
    moreover obtain j where "j_heap q a = Some j" using Suc.prems(1) Cons by (auto simp: queue_wf_def)
    ultimately show ?thesis using q1 by simp
  qed
qed simp

interpretation jobs: fifo "push_all alloc" pull_n queued queue_ok for alloc
proof
  fix q q' ws assume "queue_ok q" and "push_all alloc ws q = Some q'"
  then show "queue_ok q' \<and> queued q' = queued q @ ws" by (rule push_all_law)
next
  fix q q' n ws assume "queue_ok q" and t: "pull_n n q = Some (ws, q')"
  then obtain as where as: "queue_wf q as" by (auto simp: queue_ok_def)
  then have "n \<le> length as" using pull_n_short [OF as, of n] t by (metis not_le option.distinct(1))
  with pull_n_law [OF as this] t queued_wf [OF as]
  show "queue_ok q' \<and> queued q = ws @ queued q' \<and> length ws = n" by (auto simp: queue_ok_def)
next
  fix q n assume "queue_ok q" and n: "n \<le> length (queued q)"
  then obtain as where as: "queue_wf q as" by (auto simp: queue_ok_def)
  with pull_n_law [OF as, of n] n queued_wf [OF as] show "\<exists>r. pull_n n q = Some r" by auto
qed

section \<open>Properties\<close>

text \<open>
  The queue hands out the work in the order it was added, for every script of additions and
  removals from an empty queue; what is not handed out is in the queue, in order.
\<close>

theorem jobqueue_order:
  assumes "jobqueue_init True True h = Some q0"
    and "run_ops (push_all alloc) pull_n ps q0 = Some (out, q)"
  shows "out @ queued q = concat (map op_input ps) \<and> q_len q = int (length (queued q)) \<and>
    (front q = None \<longleftrightarrow> q_len q = 0)"
proof -
  have q0: "queue_ok q0" "queued q0 = []"
    using assms(1) by (auto simp: jobqueue_init_def bsem_init_def queue_ok_def queued_def queue_wf_def
        intro!: exI [of _ "[]"])
  from jobs.run_ops_fifo [OF q0(1) assms(2)] q0(2)
  have out: "out @ queued q = concat (map op_input ps)" and ok: "queue_ok q" by simp_all
  then obtain as where as: "queue_wf q as" by (auto simp: queue_ok_def)
  then show ?thesis using out queued_wf [OF as] by (cases as) (auto simp: queue_wf_def)
qed

theorem jobqueue_order_witness:
  "\<exists>q0 q out. jobqueue_init True True Map.empty = Some q0 \<and>
     run_ops (push_all (\<lambda>h. if h 0 = None then Some 0 else Some 1)) pull_n
       [Put [(10, None)], Put [(11, Some 5)], Take 1, Put [(12, None)]] q0 = Some (out, q) \<and>
     out @ queued q = [(10, None), (11, Some 5), (12, None)] \<and> q_len q = 2"
proof -
  let ?alloc = "\<lambda>h :: job heap. if h 0 = None then Some 0 else Some (1 :: addr)"
  let ?ps = "[Put [(10, None)], Put [(11, Some 5)], Take 1, Put [(12, None)]] :: work fifo_op list"
  obtain q0 where q0: "jobqueue_init True True Map.empty = Some q0" by (simp add: jobqueue_init_def bsem_init_def)
  have "\<exists>q. run_ops (push_all ?alloc) pull_n ?ps q0 = Some ([(10, None)], q) \<and> q_len q = 2"
    using q0 by (auto simp: jobqueue_init_def bsem_init_def new_job_def jobqueue_push_def jobqueue_pull_def
        bsem_post_def work_of_def)
  then obtain q where q: "run_ops (push_all ?alloc) pull_n ?ps q0 = Some ([(10, None)], q)" "q_len q = 2" by blast
  from jobqueue_order [OF q0 q(1)] q0 q show ?thesis by auto
qed

text \<open>
  Clearing a well-formed queue returns, releases exactly the queue's nodes and leaves the
  queue empty with its semaphore down.
\<close>

theorem jobqueue_clear_releases:
  assumes "queue_wf q as"
  shows "\<exists>q'. jobqueue_clear q = Some q' \<and> q_len q' = 0 \<and> front q' = None \<and> rear q' = None \<and>
    has_jobs q' = 0 \<and> j_heap q' = j_heap q |` (- set as)"
  using jobqueue_clear_wf [OF assms] by (auto simp: queue_wf_def)

theorem jobqueue_clear_releases_witness:
  "\<exists>q'. jobqueue_clear \<lparr>j_heap = [3 \<mapsto> \<lparr>j_prev = Some 4, j_function = 10, j_arg = None\<rparr>,
       4 \<mapsto> \<lparr>j_prev = None, j_function = 11, j_arg = None\<rparr>],
     front = Some 3, rear = Some 4, has_jobs = 1, q_len = 2\<rparr> = Some q' \<and> j_heap q' = Map.empty"
proof -
  let ?q = "\<lparr>j_heap = [3 \<mapsto> \<lparr>j_prev = Some 4, j_function = 10, j_arg = None\<rparr>,
       4 \<mapsto> \<lparr>j_prev = None, j_function = 11, j_arg = None\<rparr>],
     front = Some 3, rear = Some 4, has_jobs = 1, q_len = 2\<rparr> :: jobqueue"
  have "queue_wf ?q [3, 4]" by (simp add: queue_wf_def)
  from jobqueue_clear_releases [OF this] show ?thesis by (auto simp: restrict_map_def fun_eq_iff)
qed

end
