(* ===== verification/ThreadPool.thy ===== *)
theory ThreadPool
  imports JobQueue "HOL-Library.Multiset"
begin

text \<open>
  The thread pool of \<^verbatim>\<open>udpclient/pool/thpool.c\<close>: workers that take jobs from the queue of
  theory \<open>JobQueue\<close>. A worker's loop is cut at the places where it takes a mutex, tests the
  flag \<^verbatim>\<open>threads_keepalive\<close> or runs the job; a section that holds a mutex is one step. Only the
  last section, which counts the worker out, is cut before its unlock, because
  \<^verbatim>\<open>thpool_destroy\<close> reads the count without the mutex; that the mutex is still held there keeps
  no step of the model from happening, so the model has more interleavings than the code. The
  relation \<open>pool_step\<close> interleaves any number of workers with the client.

  The flag is a static variable of the file, one for all pools of the process: the steps of a
  configuration include its changes by the creation and destruction of other pools, and
  \<open>alone\<close> tells that there were none.
\<close>

section \<open>Data\<close>

record thpool =
  jobqueue_p :: jobqueue
  num_threads_alive :: int
  num_threads_working :: int

text \<open>The places of a worker in \<^verbatim>\<open>thread_do\<close>; \<open>Run\<close> and \<open>Free\<close> have the pulled job.\<close>

datatype place =
    Start | Loop | Wait | Check | Count | Pull | Run addr | Free addr | Done | Exit | Unlock | Dead

section \<open>The worker\<close>

text \<open>The first argument is the value of \<^verbatim>\<open>threads_keepalive\<close>.\<close>

fun thread_do :: "int \<Rightarrow> thpool \<Rightarrow> place \<Rightarrow> (thpool \<times> place) option" where
  "thread_do keepalive p Start = Some (p\<lparr>num_threads_alive := num_threads_alive p + 1\<rparr>, Loop)"
| "thread_do keepalive p Loop = Some (p, if keepalive \<noteq> 0 then Wait else Exit)"
| "thread_do keepalive p Wait = map_option (\<lambda>q. (p\<lparr>jobqueue_p := q\<rparr>, Check)) (bsem_wait (jobqueue_p p))"
| "thread_do keepalive p Check = Some (p, if keepalive \<noteq> 0 then Count else Loop)"
| "thread_do keepalive p Count = Some (p\<lparr>num_threads_working := num_threads_working p + 1\<rparr>, Pull)"
| "thread_do keepalive p Pull = do {
     (job_p, q) \<leftarrow> jobqueue_pull (jobqueue_p p);
     Some (p\<lparr>jobqueue_p := q\<rparr>, case job_p of None \<Rightarrow> Done | Some a \<Rightarrow> Run a) }"
| "thread_do keepalive p (Run a) = do {
     j \<leftarrow> deref (j_heap (jobqueue_p p)) (Some a);
     Some (p, Free a) }"
| "thread_do keepalive p (Free a) = do {
     h \<leftarrow> release (j_heap (jobqueue_p p)) (Some a);
     Some (p\<lparr>jobqueue_p := (jobqueue_p p)\<lparr>j_heap := h\<rparr>\<rparr>, Done) }"
| "thread_do keepalive p Done = Some (p\<lparr>num_threads_working := num_threads_working p - 1\<rparr>, Loop)"
| "thread_do keepalive p Exit = Some (p\<lparr>num_threads_alive := num_threads_alive p - 1\<rparr>, Unlock)"
| "thread_do keepalive p Unlock = Some (p, Dead)"
| "thread_do keepalive p Dead = None"

text \<open>
  Whether the worker that ends a job at \<^const>\<open>Done\<close> signals \<^verbatim>\<open>threads_all_idle\<close>.
\<close>

definition signals_idle :: "thpool \<Rightarrow> bool" where
  "signals_idle p \<longleftrightarrow> num_threads_working p - 1 = 0"

section \<open>The client's functions\<close>

text \<open>
  \<open>n\<close> threads are created; the outcomes of the allocations are arguments. The pool returned
  is the one before the wait for the threads, with the places of the new threads; the first
  result is the new value of \<^verbatim>\<open>threads_keepalive\<close>.
\<close>

definition thpool_init ::
  "int \<Rightarrow> bool \<Rightarrow> bool \<Rightarrow> bool \<Rightarrow> bool \<Rightarrow> int \<times> (thpool \<times> place list) option" where
  "thpool_init num_threads ok_pool ok_queue ok_sem ok_threads =
     (1, let n = (if num_threads < 0 then 0 else num_threads) in
      if \<not> ok_pool then None
      else case jobqueue_init ok_queue ok_sem Map.empty of
        None \<Rightarrow> None
      | Some q \<Rightarrow>
          if \<not> ok_threads then None
          else Some (\<lparr>jobqueue_p = q, num_threads_alive = 0, num_threads_working = 0\<rparr>,
                     replicate (nat n) Start))"

definition init_returns :: "thpool \<Rightarrow> int \<Rightarrow> bool" where
  "init_returns p n \<longleftrightarrow> \<not> num_threads_alive p \<noteq> n"

text \<open>The node \<^verbatim>\<open>malloc\<close> returns is an argument, NULL or not live.\<close>

definition thpool_add_work :: "ptr \<Rightarrow> work \<Rightarrow> thpool \<Rightarrow> (int \<times> thpool) option" where
  "thpool_add_work newjob w p =
     (case newjob of
        None \<Rightarrow> Some (- 1, p)
      | Some _ \<Rightarrow> do {
          (a, h) \<leftarrow> new_job (\<lambda>_. newjob) (j_heap (jobqueue_p p)) w;
          q \<leftarrow> jobqueue_push ((jobqueue_p p)\<lparr>j_heap := h\<rparr>) a;
          Some (0, p\<lparr>jobqueue_p := q\<rparr>) })"

text \<open>The condition on which \<^verbatim>\<open>thpool_wait\<close> goes on waiting.\<close>

definition wait_more :: "thpool \<Rightarrow> bool" where
  "wait_more p \<longleftrightarrow> q_len (jobqueue_p p) \<noteq> 0 \<or> num_threads_working p \<noteq> 0"

text \<open>
  \<^verbatim>\<open>thpool_destroy\<close>: it clears the flag, posts to all threads as long as some are alive,
  and then releases the queue and the pool. The result of the first part is the new value of
  the flag, the result of the last part the heap of the jobs that are left.
\<close>

definition destroy_begin :: int where
  "destroy_begin = 0"

definition destroy_post :: "thpool \<Rightarrow> thpool option" where
  "destroy_post p =
     (if num_threads_alive p \<noteq> 0 then Some (p\<lparr>jobqueue_p := bsem_post_all (jobqueue_p p)\<rparr>) else None)"

definition destroy_end :: "thpool \<Rightarrow> job heap option" where
  "destroy_end p = (if num_threads_alive p \<noteq> 0 then None else jobqueue_destroy (jobqueue_p p))"

section \<open>Interleaving\<close>

text \<open>
  The client waits in \<^verbatim>\<open>thpool_init\<close> until all threads are alive, uses the pool, and destroys
  it; a running job may also add work. Three components record what was added, what
  was handed to a worker and what was run to its end. \<open>alone\<close> is lost when another pool writes
  the flag.
\<close>

datatype phase = Init | Ready | Stopping

record conf =
  threads_keepalive :: int
  alone :: bool
  pool :: thpool
  workers :: "place list"
  phase :: phase
  added :: "work list"
  started :: "work list"
  finished :: "work multiset"

definition job_at :: "thpool \<Rightarrow> addr \<Rightarrow> work" where
  "job_at p a = work_of (the (j_heap (jobqueue_p p) a))"

definition worker_log :: "thpool \<Rightarrow> place \<Rightarrow> place \<Rightarrow> conf \<Rightarrow> conf" where
  "worker_log p w w' c =
     (case (w, w') of
        (Pull, Run a) \<Rightarrow> c\<lparr>started := started c @ [job_at p a]\<rparr>
      | (Free a, Done) \<Rightarrow> c\<lparr>finished := add_mset (job_at p a) (finished c)\<rparr>
      | _ \<Rightarrow> c)"

inductive pool_step :: "conf \<Rightarrow> conf \<Rightarrow> bool" where
  worker: "i < length (workers c) \<Longrightarrow> thread_do (threads_keepalive c) (pool c) (workers c ! i) = Some (p', w') \<Longrightarrow>
    pool_step c (worker_log (pool c) (workers c ! i) w' (c\<lparr>pool := p', workers := (workers c)[i := w']\<rparr>))"
| ready: "phase c = Init \<Longrightarrow> init_returns (pool c) (int (length (workers c))) \<Longrightarrow>
    pool_step c (c\<lparr>phase := Ready\<rparr>)"
| add: "phase c \<noteq> Init \<Longrightarrow> thpool_add_work newjob w (pool c) = Some (0, p') \<Longrightarrow>
    pool_step c (c\<lparr>pool := p', added := added c @ [w]\<rparr>)"
| stop: "phase c = Ready \<Longrightarrow> pool_step c (c\<lparr>threads_keepalive := destroy_begin, phase := Stopping\<rparr>)"
| post: "phase c = Stopping \<Longrightarrow> destroy_post (pool c) = Some p' \<Longrightarrow> pool_step c (c\<lparr>pool := p'\<rparr>)"
| others: "k = fst (thpool_init n ok_pool ok_queue ok_sem ok_threads) \<or> k = destroy_begin \<Longrightarrow>
    pool_step c (c\<lparr>threads_keepalive := k, alone := False\<rparr>)"

inductive pool_reach :: "conf \<Rightarrow> bool" where
  init: "thpool_init n True True True True = (k, Some (p, ws)) \<Longrightarrow>
    pool_reach \<lparr>threads_keepalive = k, alone = True, pool = p, workers = ws, phase = Init, added = [], started = [], finished = {#}\<rparr>"
| step: "pool_reach c \<Longrightarrow> pool_step c c' \<Longrightarrow> pool_reach c'"

section \<open>The invariant\<close>

text \<open>The jobs the workers have.\<close>

fun held :: "place \<Rightarrow> addr multiset" where
  "held (Run a) = {#a#}"
| "held (Free a) = {#a#}"
| "held _ = {#}"

definition inflight :: "place list \<Rightarrow> addr multiset" where
  "inflight ws = sum_list (map held ws)"

lemma inflight_move:
  "i < length ws \<Longrightarrow> inflight (ws[i := w]) + held (ws ! i) = inflight ws + held w"
proof (induction ws arbitrary: i)
  case (Cons v ws)
  then show ?case
  proof (cases i)
    case (Suc j)
    then show ?thesis using Cons by (simp add: inflight_def add.commute add.left_commute)
  qed (simp add: inflight_def)
qed simp

lemma held_inflight:
  assumes "i < length ws"
  shows "held (ws ! i) \<subseteq># inflight ws"
proof -
  have "inflight ws = inflight (ws[i := Start]) + held (ws ! i)"
    using inflight_move [OF assms, of Start] by simp
  then show ?thesis by simp
qed

lemma inflight_start: "inflight (replicate n Start) = {#}"
  by (induction n) (simp_all add: inflight_def)

definition busy :: "place set" where
  "busy = {Pull, Done} \<union> range Run \<union> range Free"

definition living :: "place set" where
  "living = - {Start, Unlock, Dead}"

text \<open>
  Every live node is in the queue or with one worker, once. What was added is what was handed
  out followed by the queue; what was handed out is finished or with a worker.
\<close>

definition jobs_inv :: "conf \<Rightarrow> addr list \<Rightarrow> bool" where
  "jobs_inv c as \<longleftrightarrow>
     queue_wf (jobqueue_p (pool c)) as \<and>
     finite (dom (j_heap (jobqueue_p (pool c)))) \<and>
     mset as + inflight (workers c) = mset_set (dom (j_heap (jobqueue_p (pool c)))) \<and>
     added c = started c @ map (job_at (pool c)) as \<and>
     mset (started c) = finished c + image_mset (job_at (pool c)) (inflight (workers c))"

definition counts_inv :: "conf \<Rightarrow> bool" where
  "counts_inv c \<longleftrightarrow>
     num_threads_working (pool c) = int (at (workers c) busy) \<and>
     num_threads_alive (pool c) = int (at (workers c) living)"

definition phase_inv :: "conf \<Rightarrow> bool" where
  "phase_inv c \<longleftrightarrow>
     (alone c \<longrightarrow> phase c \<noteq> Stopping \<longrightarrow> threads_keepalive c \<noteq> 0 \<and> at (workers c) {Exit, Unlock, Dead} = 0) \<and>
     (phase c \<noteq> Init \<longrightarrow> at (workers c) {Start} = 0)"

text \<open>While jobs are queued, the semaphore is up or a worker that took it is on its way.\<close>

definition wake_inv :: "conf \<Rightarrow> addr list \<Rightarrow> bool" where
  "wake_inv c as \<longleftrightarrow>
     (alone c \<longrightarrow> phase c \<noteq> Stopping \<longrightarrow> as \<noteq> [] \<longrightarrow>
      has_jobs (jobqueue_p (pool c)) = 1 \<or> 0 < at (workers c) {Check, Count, Pull})"

definition pool_inv :: "conf \<Rightarrow> addr list \<Rightarrow> bool" where
  "pool_inv c as \<longleftrightarrow> jobs_inv c as \<and> counts_inv c \<and> phase_inv c \<and> wake_inv c as"

lemma place_sets [simp]:
  "w \<in> busy \<longleftrightarrow> w = Pull \<or> w = Done \<or> (\<exists>a. w = Run a) \<or> (\<exists>a. w = Free a)"
  "w \<in> living \<longleftrightarrow> w \<noteq> Start \<and> w \<noteq> Unlock \<and> w \<noteq> Dead"
  by (auto simp: busy_def living_def)

lemma worker_log_simps [simp]:
  "pool (worker_log p w w' c) = pool c" "workers (worker_log p w w' c) = workers c"
  "phase (worker_log p w w' c) = phase c"
  "threads_keepalive (worker_log p w w' c) = threads_keepalive c" "alone (worker_log p w w' c) = alone c" "added (worker_log p w w' c) = added c"
  by (cases w; cases w'; simp add: worker_log_def)+

lemma counts_worker:
  assumes inv: "counts_inv c" and i: "i < length (workers c)"
    and t: "thread_do (threads_keepalive c) (pool c) (workers c ! i) = Some (p', w')"
    and c': "pool c' = p'" "workers c' = (workers c)[i := w']"
  shows "counts_inv c'"
proof -
  have "0 < at (workers c) busy" if "workers c ! i \<in> busy" using at_pos [OF i that] .
  moreover have "0 < at (workers c) living" if "workers c ! i \<in> living" using at_pos [OF i that] .
  ultimately show ?thesis
    using inv t unfolding counts_inv_def c'
    by (cases "workers c ! i")
       (auto simp: at_move [OF i] Option.bind_eq_Some_conv of_nat_diff split: if_splits option.splits)
qed

text \<open>Steps that touch neither the queue's nodes nor what the workers have.\<close>

lemma jobs_frame:
  assumes inv: "jobs_inv c as"
    and "j_heap (jobqueue_p (pool c')) = j_heap (jobqueue_p (pool c))"
    and "queue_wf (jobqueue_p (pool c')) as" and "inflight (workers c') = inflight (workers c)"
    and "added c' = added c" "started c' = started c" "finished c' = finished c"
  shows "jobs_inv c' as"
proof -
  have "job_at (pool c') = job_at (pool c)" using assms(2) by (simp add: job_at_def fun_eq_iff)
  with assms show ?thesis by (simp add: jobs_inv_def)
qed

lemma jobs_once:
  assumes "jobs_inv c as"
  shows "count (mset as) a + count (inflight (workers c)) a \<le> 1"
    and "a \<in># inflight (workers c) \<Longrightarrow> a \<in> dom (j_heap (jobqueue_p (pool c)))"
    and "a \<in> set as \<Longrightarrow> a \<in> dom (j_heap (jobqueue_p (pool c)))"
proof -
  let ?h = "j_heap (jobqueue_p (pool c))"
  have eq: "mset as + inflight (workers c) = mset_set (dom ?h)" and fin: "finite (dom ?h)"
    using assms by (simp_all add: jobs_inv_def)
  show "count (mset as) a + count (inflight (workers c)) a \<le> 1"
    unfolding count_union [symmetric] eq by (cases "a \<in> dom ?h") (simp_all add: fin)
  show "a \<in># inflight (workers c) \<Longrightarrow> a \<in> dom ?h"
    and "a \<in> set as \<Longrightarrow> a \<in> dom ?h"
    using arg_cong [OF eq, of set_mset] fin by auto
qed

lemma jobs_pull:
  assumes inv: "jobs_inv c as" and i: "i < length (workers c)" and w: "workers c ! i = Pull"
    and t: "thread_do (threads_keepalive c) (pool c) Pull = Some (p', w')"
    and c': "c' = worker_log (pool c) Pull w' (c\<lparr>pool := p', workers := (workers c)[i := w']\<rparr>)"
  shows "jobs_inv c' (tl as)"
proof (cases as)
  case Nil
  have wf: "queue_wf (jobqueue_p (pool c)) []" using inv Nil by (simp add: jobs_inv_def)
  have "p' = pool c \<and> w' = Done" using t jobqueue_pull_empty [OF wf] by auto
  moreover have "inflight ((workers c)[i := Done]) = inflight (workers c)"
    using inflight_move [OF i, of Done] w by simp
  ultimately show ?thesis
    using jobs_frame [OF inv, of c'] wf c' Nil by (simp add: worker_log_def)
next
  case (Cons a bs)
  obtain q where q: "jobqueue_pull (jobqueue_p (pool c)) = Some (Some a, q)" "queue_wf q bs"
      "j_heap q = j_heap (jobqueue_p (pool c))"
    using jobqueue_pull_wf [of "jobqueue_p (pool c)" a bs] inv Cons unfolding jobs_inv_def by metis
  have p': "p' = (pool c)\<lparr>jobqueue_p := q\<rparr>" "w' = Run a" using t q(1) by auto
  have same: "job_at p' = job_at (pool c)" using q(3) p' by (simp add: job_at_def fun_eq_iff)
  have fl: "inflight ((workers c)[i := Run a]) = add_mset a (inflight (workers c))"
    using inflight_move [OF i, of "Run a"] w by simp
  show ?thesis
    using inv q same unfolding jobs_inv_def c' worker_log_def p' Cons
    by (simp add: fl same [unfolded p'])
qed

lemma jobs_free:
  assumes inv: "jobs_inv c as" and i: "i < length (workers c)" and w: "workers c ! i = Free a"
    and t: "thread_do (threads_keepalive c) (pool c) (Free a) = Some (p', w')"
    and c': "c' = worker_log (pool c) (Free a) w' (c\<lparr>pool := p', workers := (workers c)[i := w']\<rparr>)"
  shows "jobs_inv c' as"
proof -
  let ?h = "j_heap (jobqueue_p (pool c))"
  have a: "a \<in># inflight (workers c)" using held_inflight [OF i] w by simp
  then have pos: "0 < count (inflight (workers c)) a" by simp
  have live: "a \<in> dom ?h" by (rule jobs_once(2) [OF inv a])
  have one: "count (inflight (workers c)) a = 1" and "count (mset as) a = 0"
    using pos jobs_once(1) [OF inv, of a] by linarith+
  then have na: "a \<notin> set as" by (simp add: count_eq_zero_iff)
  let ?q = "(jobqueue_p (pool c))\<lparr>j_heap := ?h(a := None)\<rparr>"
  have p': "p' = (pool c)\<lparr>jobqueue_p := ?q\<rparr>" "w' = Done" using t live by auto
  have fl: "add_mset a (inflight ((workers c)[i := Done])) = inflight (workers c)"
    using inflight_move [OF i, of Done] w by simp
  then have gone: "a \<notin># inflight ((workers c)[i := Done])"
    using one by (metis add_left_imp_eq count_add_mset count_eq_zero_iff Suc_eq_plus1 add_0 plus_1_eq_Suc)
  have same: "job_at p' b = job_at (pool c) b" if "b \<noteq> a" for b using that p' by (simp add: job_at_def)
  have wf: "queue_wf ?q as" using queue_wf_other [OF _ na] inv by (simp add: jobs_inv_def)
  have "dom (?h(a := None)) = dom ?h - {a}" by auto
  moreover have "mset as + inflight (workers c) = mset_set (dom ?h)" "finite (dom ?h)"
    using inv by (simp_all add: jobs_inv_def)
  ultimately have own: "mset as + inflight ((workers c)[i := Done]) = mset_set (dom (?h(a := None)))"
    using live fl mset_set.remove [of "dom ?h" a] by (metis add_mset_remove_trivial union_mset_add_mset_right)
  have "map (job_at p') as = map (job_at (pool c)) as" using na same by (metis (no_types, lifting) map_cong)
  moreover have "image_mset (job_at p') (inflight ((workers c)[i := Done])) =
      image_mset (job_at (pool c)) (inflight ((workers c)[i := Done]))"
    using gone same by (metis (no_types, lifting) image_mset_cong)
  ultimately show ?thesis
    using inv wf own fl [symmetric] unfolding jobs_inv_def c' worker_log_def p'
    by (simp del: fun_upd_apply)
qed

lemma jobs_add:
  assumes inv: "jobs_inv c as" and add: "thpool_add_work newjob w (pool c) = Some (0, p')"
    and c': "c' = c\<lparr>pool := p', added := added c @ [w]\<rparr>"
  obtains a where "jobs_inv c' (as @ [a])" "has_jobs (jobqueue_p p') = 1"
proof -
  let ?q = "jobqueue_p (pool c)"
  obtain a h q1 where s: "new_job (\<lambda>_. newjob) (j_heap ?q) w = Some (a, h)"
      "jobqueue_push (?q\<lparr>j_heap := h\<rparr>) a = Some q1" "p' = (pool c)\<lparr>jobqueue_p := q1\<rparr>"
    using add by (auto simp: thpool_add_work_def Option.bind_eq_Some_conv split: option.splits)
  have wf: "queue_wf ?q as" and fin: "finite (dom (j_heap ?q))" using inv by (simp_all add: jobs_inv_def)
  have q1: "queue_wf q1 (as @ [a])" "has_jobs q1 = 1" "a \<notin> dom (j_heap ?q)"
      "dom (j_heap q1) = insert a (dom (j_heap ?q))"
      "\<And>b. map_option work_of (j_heap q1 b) = (if b = a then Some w else map_option work_of (j_heap ?q b))"
    using push_new_node [OF wf s(1)] s(2) by (metis option.inject)+
  have same: "job_at p' b = job_at (pool c) b" if "b \<in> dom (j_heap ?q)" for b
  proof -
    have "b \<noteq> a" using that q1(3) by blast
    then have "map_option work_of (j_heap q1 b) = map_option work_of (j_heap ?q b)" using q1(5) [of b] by simp
    then have "work_of (the (j_heap q1 b)) = work_of (the (j_heap ?q b))"
      by (rule work_of_the) (use that in blast)
    then show ?thesis using s(3) by (simp add: job_at_def)
  qed
  have new: "job_at p' a = w" using q1(5) [of a] s(3) by (auto simp: job_at_def)
  have "map (job_at p') as = map (job_at (pool c)) as"
    using same jobs_once(3) [OF inv] by (metis (no_types, lifting) map_cong)
  moreover have "image_mset (job_at p') (inflight (workers c)) = image_mset (job_at (pool c)) (inflight (workers c))"
    using same jobs_once(2) [OF inv] by (metis (no_types, lifting) image_mset_cong)
  ultimately have "jobs_inv c' (as @ [a])"
    using inv q1(1, 3, 4) fin new s(3) by (simp add: jobs_inv_def c')
  then show thesis using that q1(2) s(3) by simp
qed

lemma jobs_worker:
  assumes inv: "jobs_inv c as" and i: "i < length (workers c)"
    and t: "thread_do (threads_keepalive c) (pool c) (workers c ! i) = Some (p', w')"
    and c': "c' = worker_log (pool c) (workers c ! i) w' (c\<lparr>pool := p', workers := (workers c)[i := w']\<rparr>)"
  shows "jobs_inv c' (if workers c ! i = Pull then tl as else as)"
proof -
  have wf: "queue_wf (jobqueue_p (pool c)) as" using inv by (simp add: jobs_inv_def)
  have frame: "jobs_inv c' as"
    if "j_heap (jobqueue_p p') = j_heap (jobqueue_p (pool c))" "queue_wf (jobqueue_p p') as"
      "held w' = held (workers c ! i)" "workers c ! i \<noteq> Pull" "\<nexists>a. workers c ! i = Free a"
  proof -
    have "inflight ((workers c)[i := w']) = inflight (workers c)"
      using inflight_move [OF i, of w'] that(3) by simp
    moreover have "worker_log (pool c) (workers c ! i) w' c1 = c1" for c1
      using that(4, 5) by (cases "workers c ! i") (auto simp: worker_log_def)
    ultimately show ?thesis using jobs_frame [OF inv, of c'] that(1, 2) c' by simp
  qed
  show ?thesis
  proof (cases "workers c ! i")
    case Wait
    then show ?thesis using t wf frame
      by (auto simp: bsem_wait_def queue_wf_def split: if_splits)
  next
    case Pull
    then show ?thesis using jobs_pull [OF inv i Pull] t c' by simp
  next
    case (Run a)
    then show ?thesis using t wf frame by (auto simp: Option.bind_eq_Some_conv)
  next
    case (Free a)
    then show ?thesis using jobs_free [OF inv i Free] t c' by simp
  qed (use t wf frame in auto)
qed

lemma phase_worker:
  assumes inv: "phase_inv c" and i: "i < length (workers c)"
    and t: "thread_do (threads_keepalive c) (pool c) (workers c ! i) = Some (p', w')"
    and c': "pool c' = p'" "workers c' = (workers c)[i := w']" "phase c' = phase c"
    "threads_keepalive c' = threads_keepalive c" "alone c' = alone c"
  shows "phase_inv c'"
proof -
  have "w' \<noteq> Start" using t by (cases "workers c ! i") (auto simp: Option.bind_eq_Some_conv split: option.splits if_splits)
  moreover have "workers c ! i \<notin> {Exit, Unlock, Dead}" if "alone c" "phase c \<noteq> Stopping"
    using inv i that unfolding phase_inv_def at_0 by blast
  then have "w' \<notin> {Exit, Unlock, Dead}" if "alone c" "phase c \<noteq> Stopping"
    using t inv that unfolding phase_inv_def
    by (cases "workers c ! i") (auto simp: Option.bind_eq_Some_conv split: option.splits)
  ultimately show ?thesis using inv i unfolding phase_inv_def c'
    by (auto simp: at_move)
qed

lemma wake_worker:
  assumes inv: "wake_inv c as" "phase_inv c" "queue_wf (jobqueue_p (pool c)) as" and i: "i < length (workers c)"
    and t: "thread_do (threads_keepalive c) (pool c) (workers c ! i) = Some (p', w')"
    and c': "pool c' = p'" "workers c' = (workers c)[i := w']" "phase c' = phase c"
    "threads_keepalive c' = threads_keepalive c" "alone c' = alone c"
  shows "wake_inv c' (if workers c ! i = Pull then tl as else as)"
proof (cases "\<not> alone c \<or> phase c = Stopping \<or> as = []")
  case True
  then show ?thesis using c' by (auto simp: wake_inv_def)
next
  case False
  then have alive: "threads_keepalive c \<noteq> 0" using inv(2) by (simp add: phase_inv_def)
  have up: "has_jobs (jobqueue_p (pool c)) = 1 \<or> 0 < at (workers c) {Check, Count, Pull}"
    using inv(1) False by (simp add: wake_inv_def)
  show ?thesis
  proof (cases "workers c ! i = Pull")
    case True
    obtain a bs where as: "as = a # bs" using False by (cases as) auto
    obtain q where q: "jobqueue_pull (jobqueue_p (pool c)) = Some (Some a, q)"
        "has_jobs q = (if bs = [] then has_jobs (jobqueue_p (pool c)) else 1)"
      using jobqueue_pull_wf [of "jobqueue_p (pool c)" a bs] inv(3) as by metis
    then have "p' = (pool c)\<lparr>jobqueue_p := q\<rparr>" using t True by simp
    then show ?thesis using q(2) True as c'(1) by (simp add: wake_inv_def)
  next
    case nopull: False
    have "has_jobs (jobqueue_p p') = 1 \<or> 0 < at ((workers c)[i := w']) {Check, Count, Pull}"
    proof (cases "w' \<in> {Check, Count, Pull}")
      case True
      then show ?thesis using at_pos [of i "(workers c)[i := w']"] i by simp
    next
      case False
      then have "workers c ! i \<notin> {Check, Count, Pull, Wait}"
        using t alive nopull by (cases "workers c ! i") (auto simp: bsem_wait_def)
      moreover from this have "has_jobs (jobqueue_p p') = has_jobs (jobqueue_p (pool c))"
        using t by (cases "workers c ! i") (auto simp: Option.bind_eq_Some_conv)
      ultimately show ?thesis using up False i by (auto simp: at_move)
    qed
    then show ?thesis using nopull c' by (simp add: wake_inv_def)
  qed
qed

lemma pool_inv_step:
  assumes inv: "pool_inv c as" and step: "pool_step c c'"
  shows "\<exists>as'. pool_inv c' as'"
  using step
proof cases
  case (worker i p' w')
  let ?as = "if workers c ! i = Pull then tl as else as"
  have "queue_wf (jobqueue_p (pool c)) as" using inv by (simp add: pool_inv_def jobs_inv_def)
  then have "pool_inv c' ?as"
    using inv worker jobs_worker [OF _ worker(2, 3, 1)] counts_worker [OF _ worker(2, 3)]
      phase_worker [OF _ worker(2, 3)] wake_worker [OF _ _ _ worker(2, 3)]
    unfolding pool_inv_def by simp
  then show ?thesis by blast
next
  case ready
  have "at (workers c) {Start} = 0"
  proof -
    have "at (workers c) living = length (workers c)"
      using inv ready by (simp add: pool_inv_def counts_inv_def init_returns_def)
    then show ?thesis unfolding at_0 by (auto simp: at_length)
  qed
  then have "pool_inv c' as"
    using inv ready by (auto simp: pool_inv_def jobs_inv_def counts_inv_def phase_inv_def wake_inv_def)
  then show ?thesis by blast
next
  case (add newjob w p')
  obtain a where a: "jobs_inv c' (as @ [a])" "has_jobs (jobqueue_p p') = 1"
    using jobs_add [of c as newjob w p' c'] inv add by (auto simp: pool_inv_def)
  have "num_threads_working p' = num_threads_working (pool c) \<and> num_threads_alive p' = num_threads_alive (pool c)"
    using add(3) by (auto simp: thpool_add_work_def Option.bind_eq_Some_conv split: option.splits)
  then have "pool_inv c' (as @ [a])"
    using inv add a by (simp add: pool_inv_def counts_inv_def phase_inv_def wake_inv_def)
  then show ?thesis by blast
next
  case stop
  have "jobs_inv c' as" by (rule jobs_frame [of c]) (use inv stop in \<open>auto simp: pool_inv_def jobs_inv_def destroy_begin_def\<close>)
  then have "pool_inv c' as"
    using inv stop by (auto simp: pool_inv_def counts_inv_def phase_inv_def wake_inv_def destroy_begin_def)
  then show ?thesis by blast
next
  case (post p')
  have "jobs_inv c' as"
    by (rule jobs_frame [of c])
      (use inv post in \<open>auto simp: pool_inv_def jobs_inv_def destroy_post_def bsem_post_all_def queue_wf_def split: if_splits\<close>)
  then have "pool_inv c' as"
    using inv post by (auto simp: pool_inv_def counts_inv_def phase_inv_def wake_inv_def destroy_post_def
        bsem_post_all_def split: if_splits)
  then show ?thesis by blast
next
  case (others k n ok_pool ok_queue ok_sem ok_threads)
  have "jobs_inv c' as" by (rule jobs_frame [of c]) (use inv others in \<open>auto simp: pool_inv_def jobs_inv_def\<close>)
  then have "pool_inv c' as"
    using inv others(1) by (simp add: pool_inv_def counts_inv_def phase_inv_def wake_inv_def)
  then show ?thesis by blast
qed

lemma pool_reach_inv: "pool_reach c \<Longrightarrow> \<exists>as. pool_inv c as"
proof (induction rule: pool_reach.induct)
  case (init n k p ws)
  then have "pool_inv \<lparr>threads_keepalive = k, alone = True, pool = p, workers = ws, phase = Init, added = [], started = [], finished = {#}\<rparr> []"
    by (auto simp: thpool_init_def jobqueue_init_def bsem_init_def pool_inv_def jobs_inv_def queue_wf_def
        counts_inv_def phase_inv_def wake_inv_def at_replicate_if inflight_start Let_def)
  then show ?case by blast
next
  case (step c c')
  then show ?case using pool_inv_step by blast
qed

section \<open>Runs\<close>

text \<open>The steps as a function of who moves, to run a scenario.\<close>

datatype event = Worker nat | Init_Done | Add ptr work | Stop | Post | Other_Destroy

fun exec :: "event \<Rightarrow> conf \<Rightarrow> conf option" where
  "exec (Worker i) c =
     (if i < length (workers c)
      then do {
        (p', w') \<leftarrow> thread_do (threads_keepalive c) (pool c) (workers c ! i);
        Some (worker_log (pool c) (workers c ! i) w' (c\<lparr>pool := p', workers := (workers c)[i := w']\<rparr>)) }
      else None)"
| "exec Init_Done c =
     (if phase c = Init \<and> init_returns (pool c) (int (length (workers c))) then Some (c\<lparr>phase := Ready\<rparr>) else None)"
| "exec (Add a w) c =
     (if phase c \<noteq> Init
      then do {
        (r, p') \<leftarrow> thpool_add_work a w (pool c);
        if r = 0 then Some (c\<lparr>pool := p', added := added c @ [w]\<rparr>) else None }
      else None)"
| "exec Stop c =
     (if phase c = Ready then Some (c\<lparr>threads_keepalive := destroy_begin, phase := Stopping\<rparr>) else None)"
| "exec Post c =
     (if phase c = Stopping then map_option (\<lambda>p. c\<lparr>pool := p\<rparr>) (destroy_post (pool c)) else None)"
| "exec Other_Destroy c = Some (c\<lparr>threads_keepalive := destroy_begin, alone := False\<rparr>)"

lemma exec_step: "exec e c = Some c' \<Longrightarrow> pool_step c c'"
  by (cases e) (auto simp: Option.bind_eq_Some_conv intro: pool_step.intros split: if_splits)

primrec execs :: "event list \<Rightarrow> conf \<Rightarrow> conf option" where
  "execs [] c = Some c"
| "execs (e # es) c = Option.bind (exec e c) (execs es)"

lemma execs_steps: "execs es c = Some c' \<Longrightarrow> pool_step\<^sup>*\<^sup>* c c'"
  by (induction es arbitrary: c)
     (auto simp: Option.bind_eq_Some_conv intro: converse_rtranclp_into_rtranclp exec_step)

lemma pool_reach_steps: "pool_step\<^sup>*\<^sup>* c c' \<Longrightarrow> pool_reach c \<Longrightarrow> pool_reach c'"
  by (induction rule: rtranclp_induct) (auto intro: pool_reach.step)

lemma started_prefix: "pool_step\<^sup>*\<^sup>* c c' \<Longrightarrow> \<exists>ws. started c' = started c @ ws"
proof (induction rule: rtranclp_induct)
  case (step d e)
  have "\<exists>ws. started e = started d @ ws"
    using step(2)
  proof cases
    case (worker i p' w')
    then show ?thesis by (cases "workers d ! i"; cases w') (simp_all add: worker_log_def)
  qed auto
  then show ?case using step(3) by auto
qed simp

lemma pool_exactly_once_step:
  assumes "pool_reach c"
  shows "added c = started c @ queued (jobqueue_p (pool c)) \<and>
    mset (started c) = finished c + image_mset (job_at (pool c)) (inflight (workers c))"
proof -
  obtain as where "jobs_inv c as" using pool_reach_inv [OF assms] by (auto simp: pool_inv_def)
  then show ?thesis by (auto simp: jobs_inv_def queued_wf works_def job_at_def)
qed

lemma inflight_idle: "at ws busy = 0 \<Longrightarrow> inflight ws = {#}"
proof (induction ws)
  case (Cons w ws)
  then show ?case by (cases w) (auto simp: inflight_def at_def split: if_splits)
qed (simp add: inflight_def)

lemma pool_safe_step:
  assumes "pool_reach c" and "i < length (workers c)" and "thread_do (threads_keepalive c) (pool c) (workers c ! i) = None"
  shows "workers c ! i = Dead \<or> workers c ! i = Wait \<and> has_jobs (jobqueue_p (pool c)) \<noteq> 1"
proof -
  obtain as where inv: "jobs_inv c as" using pool_reach_inv [OF assms(1)] by (auto simp: pool_inv_def)
  then have wf: "queue_wf (jobqueue_p (pool c)) as" by (simp add: jobs_inv_def)
  have "jobqueue_pull (jobqueue_p (pool c)) \<noteq> None"
  proof (cases as)
    case (Cons a bs)
    then show ?thesis using jobqueue_pull_wf [of "jobqueue_p (pool c)" a bs] wf by (metis option.distinct(1))
  qed (use wf jobqueue_pull_empty in simp)
  moreover have "a \<in> dom (j_heap (jobqueue_p (pool c)))" if "workers c ! i = Run a \<or> workers c ! i = Free a" for a
  proof (rule jobs_once(2) [OF inv])
    show "a \<in># inflight (workers c)" using held_inflight [OF assms(2)] that by auto
  qed
  ultimately show ?thesis
    using assms(3) by (cases "workers c ! i") (auto simp: bsem_wait_def split: if_splits)
qed

text \<open>A scenario: one worker, one job.\<close>

definition start1 :: conf where
  "start1 = \<lparr>threads_keepalive = 1, alone = True, pool = \<lparr>jobqueue_p = \<lparr>j_heap = Map.empty, front = None, rear = None, has_jobs = 0, q_len = 0\<rparr>,
       num_threads_alive = 0, num_threads_working = 0\<rparr>,
     workers = [Start], phase = Init, added = [], started = [], finished = {#}\<rparr>"

lemma execs_reach: "execs es start1 = Some c \<Longrightarrow> pool_reach c"
proof -
  have "pool_reach start1"
    unfolding start1_def by (rule pool_reach.init [of 1]) (simp add: thpool_init_def jobqueue_init_def bsem_init_def)
  then show "execs es start1 = Some c \<Longrightarrow> pool_reach c" using pool_reach_steps execs_steps by blast
qed

lemmas exec_defs = start1_def thpool_add_work_def new_job_def jobqueue_push_def jobqueue_pull_def bsem_post_def
  bsem_wait_def bsem_post_all_def worker_log_def job_at_def work_of_def init_returns_def destroy_begin_def
  destroy_post_def

section \<open>Properties\<close>

text \<open>
  C7: In every interleaving, with other pools coming and going, the work added is the work handed to the workers followed by the
  work in the queue, in order; and the work handed out is the work finished together
  with the work the workers have now: nothing is lost, run twice or reordered.
\<close>

theorem pool_exactly_once:
  assumes "pool_reach c"
  shows "added c = started c @ queued (jobqueue_p (pool c)) \<and>
    mset (started c) = finished c + image_mset (job_at (pool c)) (inflight (workers c))"
  by (rule pool_exactly_once_step [OF assms])

theorem pool_exactly_once_witness:
  "\<exists>c. pool_reach c \<and> added c = [(10, None), (11, None)] \<and> started c = [(10, None)] \<and>
     queued (jobqueue_p (pool c)) = [(11, None)] \<and> finished c = {#}"
proof -
  let ?es = "[Worker 0, Init_Done, Add (Some 7) (10, None), Add (Some 8) (11, None)] @ replicate 5 (Worker 0)"
  obtain c where c: "execs ?es start1 = Some c" "added c = [(10, None), (11, None)]" "started c = [(10, None)]"
      "finished c = {#}"
    by (simp add: exec_defs eval_nat_numeral)
  from pool_exactly_once [OF execs_reach [OF c(1)]] c execs_reach [OF c(1)] show ?thesis by auto
qed


text \<open>
  C12: In every interleaving, with other pools coming and going, no worker ever dereferences or releases a job that is not live: a worker that cannot
  step has ended, or waits for the semaphore.
\<close>

theorem pool_safe:
  assumes "pool_reach c" and "i < length (workers c)" and "thread_do (threads_keepalive c) (pool c) (workers c ! i) = None"
  shows "workers c ! i = Dead \<or> workers c ! i = Wait \<and> has_jobs (jobqueue_p (pool c)) \<noteq> 1"
  by (rule pool_safe_step [OF assms])

theorem pool_safe_witness:
  "\<exists>c. pool_reach c \<and> thread_do (threads_keepalive c) (pool c) (workers c ! 0) = None \<and> workers c ! 0 = Wait"
proof -
  obtain c where c: "execs [Worker 0, Worker 0] start1 = Some c" "workers c = [Wait]" "has_jobs (jobqueue_p (pool c)) = 0"
    by (simp add: exec_defs)
  then have "thread_do (threads_keepalive c) (pool c) (workers c ! 0) = None" by (simp add: bsem_wait_def)
  with pool_safe [OF execs_reach [OF c(1)], of 0] c execs_reach [OF c(1)] show ?thesis by auto
qed


text \<open>
  C14: No wake-up is lost while no other pool of the process has been created or destroyed since
  (\<open>alone\<close>): once \<^verbatim>\<open>thpool_init\<close> has returned, before \<^verbatim>\<open>thpool_destroy\<close> is called, and with
  at least one worker, when jobs are queued then some worker can step, and the semaphore is up
  or a worker that has taken it is on its way to the queue. Without \<open>alone\<close> it fails, as
  \<open>other_pool_ends_workers\<close> shows.
\<close>

theorem pool_no_lost_wakeup:
  assumes "pool_reach c" and "alone c" and "phase c = Ready" and "workers c \<noteq> []" and "q_len (jobqueue_p (pool c)) \<noteq> 0"
  shows "(has_jobs (jobqueue_p (pool c)) = 1 \<or> (\<exists>i < length (workers c). workers c ! i \<in> {Check, Count, Pull})) \<and>
    (\<exists>i < length (workers c). thread_do (threads_keepalive c) (pool c) (workers c ! i) \<noteq> None)"
proof -
  obtain as where inv: "pool_inv c as" using pool_reach_inv [OF assms(1)] by blast
  have "as \<noteq> []" using inv assms(5) by (auto simp: pool_inv_def jobs_inv_def queue_wf_def)
  then have up: "has_jobs (jobqueue_p (pool c)) = 1 \<or> (\<exists>i < length (workers c). workers c ! i \<in> {Check, Count, Pull})"
    using inv assms(2, 3) at_ex by (auto simp: pool_inv_def wake_inv_def)
  have dead: "workers c ! i \<noteq> Dead" if "i < length (workers c)" for i
    using inv assms(2, 3) that by (auto simp: pool_inv_def phase_inv_def at_0)
  obtain i where "i < length (workers c)" "workers c ! i = Wait \<longrightarrow> has_jobs (jobqueue_p (pool c)) = 1"
    using up assms(4) by (cases "has_jobs (jobqueue_p (pool c)) = 1") auto
  then show ?thesis using up dead pool_safe_step [OF assms(1)] by blast
qed

theorem pool_no_lost_wakeup_witness:
  "\<exists>c. pool_reach c \<and> q_len (jobqueue_p (pool c)) = 1 \<and> (\<exists>i < 1. thread_do (threads_keepalive c) (pool c) (workers c ! i) \<noteq> None)"
proof -
  obtain c where c: "execs [Worker 0, Init_Done, Add (Some 7) (10, None), Worker 0] start1 = Some c"
      "workers c = [Wait]" "phase c = Ready" "q_len (jobqueue_p (pool c)) = 1" "alone c"
    by (simp add: exec_defs)
  from pool_no_lost_wakeup [OF execs_reach [OF c(1)] c(5, 3)] c(2, 4)
  have "\<exists>i < 1. thread_do (threads_keepalive c) (pool c) (workers c ! i) \<noteq> None" by simp
  with execs_reach [OF c(1)] c(4) show ?thesis by blast
qed


text \<open>
  C31: What \<^verbatim>\<open>thpool_wait\<close> guarantees. It reads the length first and the number of working
  threads later, with any steps in between: when both reads are 0, every piece of work
  added before the first read has been run to its end.
\<close>

theorem pool_wait_finished:
  assumes "pool_reach c" and "q_len (jobqueue_p (pool c)) = 0"
    and "pool_step\<^sup>*\<^sup>* c c'" and "num_threads_working (pool c') = 0"
  shows "mset (added c) \<subseteq># finished c'"
proof -
  obtain as where as: "pool_inv c as" using pool_reach_inv [OF assms(1)] by blast
  then have "as = []" using assms(2) by (simp add: pool_inv_def jobs_inv_def queue_wf_def)
  then have all: "added c = started c" using as by (simp add: pool_inv_def jobs_inv_def)
  obtain bs where bs: "pool_inv c' bs" using pool_reach_inv pool_reach_steps [OF assms(3, 1)] by blast
  then have "at (workers c') busy = 0" using assms(4) by (simp add: pool_inv_def counts_inv_def)
  then have "inflight (workers c') = {#}" by (rule inflight_idle)
  then have "mset (started c') = finished c'" using bs by (simp add: pool_inv_def jobs_inv_def)
  moreover obtain ws where "started c' = started c @ ws" using started_prefix [OF assms(3)] by blast
  ultimately show ?thesis using all by (metis mset_append mset_subset_eq_add_left)
qed

theorem pool_wait_finished_witness:
  "\<exists>c c'. pool_reach c \<and> added c = [(10, None)] \<and> finished c = {#} \<and> pool_step\<^sup>*\<^sup>* c c' \<and>
     {#(10, None)#} \<subseteq># finished c'"
proof -
  let ?es = "[Worker 0, Init_Done, Add (Some 7) (10, None)] @ replicate 5 (Worker 0)"
  obtain c where c: "execs ?es start1 = Some c" "added c = [(10, None)]" "finished c = {#}"
      "q_len (jobqueue_p (pool c)) = 0" "workers c = [Run 7]" "num_threads_working (pool c) = 1"
      "j_heap (jobqueue_p (pool c)) 7 \<noteq> None"
    by (simp add: exec_defs eval_nat_numeral)
  have "\<exists>c'. execs (replicate 3 (Worker 0)) c = Some c' \<and> num_threads_working (pool c') = 0"
    using c by (auto simp: eval_nat_numeral worker_log_def)
  then obtain c' where c': "execs (replicate 3 (Worker 0)) c = Some c'" "num_threads_working (pool c') = 0" by blast
  from pool_wait_finished [OF execs_reach [OF c(1)] c(4) execs_steps [OF c'(1)] c'(2)] c execs_reach [OF c(1)]
    execs_steps [OF c'(1)] show ?thesis by auto
qed


text \<open>
  What another pool does to this one: its destruction clears the flag they share, the worker
  ends, and the work queued afterwards has nobody to run it.
\<close>

lemma other_pool_ends_workers:
  "\<exists>c. pool_reach c \<and> phase c = Ready \<and> workers c = [Dead] \<and> queued (jobqueue_p (pool c)) = [(10, None)]"
proof -
  obtain c where c: "execs [Worker 0, Init_Done, Other_Destroy, Worker 0, Worker 0, Worker 0, Add (Some 7) (10, None)] start1 =
      Some c" "phase c = Ready" "workers c = [Dead]" "added c = [(10, None)]" "started c = []"
    by (simp add: exec_defs)
  from pool_exactly_once_step [OF execs_reach [OF c(1)]] c execs_reach [OF c(1)] show ?thesis by auto
qed

text \<open>
  C32: When \<^verbatim>\<open>thpool_destroy\<close> has read that no thread is alive, every worker has ended or has only
  the unlock of \<^verbatim>\<open>thcount_lock\<close> left (its one access to the pool that may come after the
  release of the pool, and that does happen: the witness is such a state), so none touches the
  queue again; the release of the queue succeeds and leaves no job behind, and the work handed
  out is finished; what was still queued is dropped.
\<close>

theorem pool_destroy_clean:
  assumes "pool_reach c" and "phase c = Stopping" and "num_threads_alive (pool c) = 0"
  shows "(\<forall>w \<in> set (workers c). w = Dead \<or> w = Unlock) \<and> destroy_end (pool c) = Some Map.empty \<and>
    mset (started c) = finished c \<and> added c = started c @ queued (jobqueue_p (pool c))"
proof -
  obtain as where inv: "pool_inv c as" using pool_reach_inv [OF assms(1)] by blast
  then have "at (workers c) living = 0" "at (workers c) {Start} = 0"
    using assms by (simp_all add: pool_inv_def counts_inv_def phase_inv_def)
  then have dead: "\<forall>i < length (workers c). workers c ! i = Dead \<or> workers c ! i = Unlock" unfolding at_0 by auto
  then have none: "inflight (workers c) = {#}" by (intro inflight_idle) (auto simp: at_0)
  have jobs: "queue_wf (jobqueue_p (pool c)) as" "mset as = mset_set (dom (j_heap (jobqueue_p (pool c))))"
      "finite (dom (j_heap (jobqueue_p (pool c))))"
    using inv none by (simp_all add: pool_inv_def jobs_inv_def)
  have dom: "dom (j_heap (jobqueue_p (pool c))) = set as"
    using arg_cong [OF jobs(2), of set_mset] jobs(3) by simp
  obtain q where "jobqueue_clear (jobqueue_p (pool c)) = Some q" "j_heap q = j_heap (jobqueue_p (pool c)) |` (- set as)"
    using jobqueue_clear_wf [OF jobs(1)] by blast
  moreover have "j_heap (jobqueue_p (pool c)) |` (- set as) = Map.empty"
    unfolding dom [symmetric] by (auto simp: restrict_map_def fun_eq_iff domIff)
  ultimately have "destroy_end (pool c) = Some Map.empty"
    using assms(3) by (simp add: destroy_end_def jobqueue_destroy_def)
  then show ?thesis using dead none inv pool_exactly_once_step [OF assms(1)]
    by (auto simp: in_set_conv_nth pool_inv_def jobs_inv_def)
qed

theorem pool_destroy_clean_witness:
  "\<exists>c. pool_reach c \<and> workers c = [Unlock] \<and> added c = [(10, None)] \<and> destroy_end (pool c) = Some Map.empty"
proof -
  obtain c where c: "execs [Worker 0, Init_Done, Add (Some 7) (10, None), Stop, Worker 0, Worker 0] start1 = Some c"
      "workers c = [Unlock]" "added c = [(10, None)]" "phase c = Stopping" "num_threads_alive (pool c) = 0"
    by (simp add: exec_defs)
  from pool_destroy_clean [OF execs_reach [OF c(1)] c(4, 5)] c execs_reach [OF c(1)] show ?thesis by auto
qed


end
