(* ===== verification/DList.thy ===== *)
theory DList
  imports Prelude
begin

text \<open>
  Doubly linked lists in a heap of nodes, as the timer queue and the buckets of the timer wheel
  use them. The links of a heap are the previous and next pointers of its live nodes, so one
  set of lemmas serves every type of node.
\<close>

type_synonym links = "addr \<Rightarrow> (ptr \<times> ptr) option"

definition links_of :: "('n \<Rightarrow> ptr) \<Rightarrow> ('n \<Rightarrow> ptr) \<Rightarrow> 'n heap \<Rightarrow> links" where
  "links_of prv nxt h a = map_option (\<lambda>n. (prv n, nxt n)) (h a)"

lemma links_of_upd [simp]:
  "links_of prv nxt (h(a \<mapsto> n)) = (links_of prv nxt h)(a \<mapsto> (prv n, nxt n))"
  "links_of prv nxt (h(a := None)) = (links_of prv nxt h)(a := None)"
  by (auto simp: links_of_def)

lemma links_of_Some: "h a = Some n \<Longrightarrow> links_of prv nxt h a = Some (prv n, nxt n)"
  by (simp add: links_of_def)

text \<open>The pointer to the first node of a list, and to the last one behind a given pointer.\<close>

definition first_ptr :: "addr list \<Rightarrow> ptr \<Rightarrow> ptr" where
  "first_ptr as q = (case as of [] \<Rightarrow> q | a # _ \<Rightarrow> Some a)"

definition last_ptr :: "ptr \<Rightarrow> addr list \<Rightarrow> ptr" where
  "last_ptr p as = (if as = [] then p else Some (last as))"

lemma first_ptr_simps [simp]:
  "first_ptr [] q = q" "first_ptr (a # as) q = Some a"
  "first_ptr (as @ bs) q = first_ptr as (first_ptr bs q)"
  by (simp_all add: first_ptr_def split: list.split)

lemma last_ptr_simps [simp]:
  "last_ptr p [] = p" "last_ptr p (as @ [a]) = Some a" "last_ptr p (a # as) = last_ptr (Some a) as"
  by (simp_all add: last_ptr_def)

lemma last_ptr_append [simp]: "last_ptr p (as @ bs) = last_ptr (last_ptr p as) bs"
  by (simp add: last_ptr_def)

text \<open>
  The nodes of a segment are linked: the first one has \<open>p\<close> before it, the last one \<open>q\<close> after it.
\<close>

fun linked :: "links \<Rightarrow> ptr \<Rightarrow> addr list \<Rightarrow> ptr \<Rightarrow> bool" where
  "linked L p [] q \<longleftrightarrow> True"
| "linked L p (a # as) q \<longleftrightarrow> L a = Some (p, first_ptr as q) \<and> linked L (Some a) as q"

lemma linked_append:
  "linked L p (as @ bs) q \<longleftrightarrow> linked L p as (first_ptr bs q) \<and> linked L (last_ptr p as) bs q"
  by (induction as arbitrary: p) auto

lemma linked_other [simp]: "x \<notin> set as \<Longrightarrow> linked (L(x := v)) p as q = linked L p as q"
  by (induction as arbitrary: p) auto

lemma linked_live: "linked L p as q \<Longrightarrow> a \<in> set as \<Longrightarrow> L a \<noteq> None"
  by (induction as arbitrary: p) auto

text \<open>Changing the pointer behind the last node, or before the first one.\<close>

lemma linked_set_next:
  "linked L p (as @ [b]) q \<Longrightarrow> b \<notin> set as \<Longrightarrow>
   linked (L(b \<mapsto> (last_ptr p as, q'))) p (as @ [b]) q'"
  by (simp add: linked_append)

lemma linked_set_prev:
  "linked L p (b # bs) q \<Longrightarrow> b \<notin> set bs \<Longrightarrow> linked (L(b \<mapsto> (p', first_ptr bs q))) p' (b # bs) q"
  by simp

text \<open>
  Insertion of a node between two lists: the neighbours that exist are changed to point to it.
\<close>

definition link_next :: "ptr \<Rightarrow> ptr \<Rightarrow> links \<Rightarrow> links" where
  "link_next p q L = (case p of None \<Rightarrow> L | Some a \<Rightarrow> L(a := map_option (\<lambda>(x, y). (x, q)) (L a)))"

definition link_prev :: "ptr \<Rightarrow> ptr \<Rightarrow> links \<Rightarrow> links" where
  "link_prev q p L = (case q of None \<Rightarrow> L | Some a \<Rightarrow> L(a := map_option (\<lambda>(x, y). (p, y)) (L a)))"

lemma linked_link_next:
  "linked L p as q \<Longrightarrow> distinct as \<Longrightarrow> linked (link_next (last_ptr None as) q' L) p as q'"
proof (cases as rule: rev_cases)
  case (snoc bs b)
  assume "linked L p as q" "distinct as"
  then show ?thesis
    using snoc by (auto simp: link_next_def last_ptr_def linked_append)
qed simp

lemma linked_link_prev:
  "linked L p as q \<Longrightarrow> distinct as \<Longrightarrow> linked (link_prev (first_ptr as None) p' L) p' as q"
  by (cases as) (auto simp: link_prev_def)

lemma linked_link_next_other:
  "last_ptr None bs = Some b \<Longrightarrow> b \<notin> set as \<Longrightarrow> linked (link_next (Some b) q' L) p as q = linked L p as q"
  by (simp add: link_next_def)

lemma link_other [simp]:
  "set bs \<inter> set as = {} \<Longrightarrow> linked (link_next (last_ptr None bs) q' L) p as q = linked L p as q"
  "set as \<inter> set bs = {} \<Longrightarrow> linked (link_prev (first_ptr bs None) p' L) p as q = linked L p as q"
  by (cases bs rule: rev_cases; auto simp: link_next_def last_ptr_def)
     (cases bs; auto simp: link_prev_def)

lemma linked_insert:
  assumes "linked L None (as @ bs) None" and "distinct (as @ bs)" and "a \<notin> set (as @ bs)"
  shows "linked ((link_next (last_ptr None as) (Some a) (link_prev (first_ptr bs None) (Some a) L))
      (a \<mapsto> (last_ptr None as, first_ptr bs None))) None (as @ a # bs) None"
proof -
  let ?L1 = "link_prev (first_ptr bs None) (Some a) L"
  let ?L2 = "link_next (last_ptr None as) (Some a) ?L1"
  have l: "linked L None as (first_ptr bs None)" "linked L (last_ptr None as) bs None"
    using assms(1) by (simp_all add: linked_append)
  have "linked ?L1 None as (first_ptr bs None)" "linked ?L1 (Some a) bs None"
    using l assms(2) linked_link_prev [OF l(2), of "Some a"] by auto
  then have "linked ?L2 None as (Some a)" "linked ?L2 (Some a) bs None"
    using assms(2) linked_link_next [of ?L1 None as "first_ptr bs None" "Some a"] by auto
  then show ?thesis using assms(3) by (simp add: linked_append)
qed

lemma linked_remove:
  assumes "linked L None (as @ a # bs) None" and "distinct (as @ a # bs)"
  shows "linked (link_prev (first_ptr bs None) (last_ptr None as) (link_next (last_ptr None as) (first_ptr bs None) L))
      None (as @ bs) None"
proof -
  let ?L1 = "link_next (last_ptr None as) (first_ptr bs None) L"
  let ?L2 = "link_prev (first_ptr bs None) (last_ptr None as) ?L1"
  have l: "linked L None as (Some a)" "linked L (Some a) bs None"
    using assms(1) by (simp_all add: linked_append)
  have "linked ?L1 None as (first_ptr bs None)" "linked ?L1 (Some a) bs None"
    using l assms(2) linked_link_next [OF l(1), of "first_ptr bs None"] by auto
  then have "linked ?L2 None as (first_ptr bs None)" "linked ?L2 (last_ptr None as) bs None"
    using assms(2) linked_link_prev [of ?L1 "Some a" bs None "last_ptr None as"] by auto
  then show ?thesis by (simp add: linked_append)
qed

lemma linked_cong: "(\<And>x. x \<in> set as \<Longrightarrow> L' x = L x) \<Longrightarrow> linked L' p as q = linked L p as q"
  by (induction as arbitrary: p) auto

lemma linked_insertI:
  assumes "linked L None (as @ bs) None" and "distinct (as @ bs)" and "a \<notin> set (as @ bs)"
    and "L' a = Some (last_ptr None as, first_ptr bs None)"
    and "\<And>x. x \<noteq> a \<Longrightarrow> L' x = link_next (last_ptr None as) (Some a) (link_prev (first_ptr bs None) (Some a) L) x"
  shows "linked L' None (as @ a # bs) None"
proof -
  have "linked L' None (as @ a # bs) None =
      linked ((link_next (last_ptr None as) (Some a) (link_prev (first_ptr bs None) (Some a) L))
        (a \<mapsto> (last_ptr None as, first_ptr bs None))) None (as @ a # bs) None"
    using assms(4, 5) by (intro linked_cong) auto
  with linked_insert [OF assms(1-3)] show ?thesis by simp
qed

lemma linked_removeI:
  assumes "linked L None (as @ a # bs) None" and "distinct (as @ a # bs)"
    and "\<And>x. x \<noteq> a \<Longrightarrow> L' x = link_prev (first_ptr bs None) (last_ptr None as)
        (link_next (last_ptr None as) (first_ptr bs None) L) x"
  shows "linked L' None (as @ bs) None"
proof -
  have "linked L' None (as @ bs) None =
      linked (link_prev (first_ptr bs None) (last_ptr None as) (link_next (last_ptr None as) (first_ptr bs None) L))
        None (as @ bs) None"
  proof (rule linked_cong)
    fix x assume "x \<in> set (as @ bs)"
    then have "x \<noteq> a" using assms(2) by auto
    then show "L' x = link_prev (first_ptr bs None) (last_ptr None as)
        (link_next (last_ptr None as) (first_ptr bs None) L) x" by (rule assms(3))
  qed
  with linked_remove [OF assms(1, 2)] show ?thesis by simp
qed

text \<open>Cutting a list in two.\<close>

lemma linked_cut:
  assumes "linked L None (as @ bs) None" and "distinct (as @ bs)"
    and "\<And>x. L' x = link_prev (first_ptr bs None) None (link_next (last_ptr None as) None L) x"
  shows "linked L' None as None" and "linked L' None bs None"
proof -
  let ?L1 = "link_next (last_ptr None as) None L"
  have L': "L' = link_prev (first_ptr bs None) None ?L1" using assms(3) by (rule ext)
  have l: "linked L None as (first_ptr bs None)" "linked L (last_ptr None as) bs None"
    using assms(1) by (simp_all add: linked_append)
  have "linked ?L1 None as None" "linked ?L1 (last_ptr None as) bs None"
    using l assms(2) linked_link_next [OF l(1), of None] by auto
  then show "linked L' None as None" "linked L' None bs None"
    unfolding L' using assms(2) linked_link_prev [of ?L1 "last_ptr None as" bs None None] by auto
qed

text \<open>The next pointers alone, as a traversal follows them.\<close>

fun chain :: "links \<Rightarrow> addr list \<Rightarrow> bool" where
  "chain L [] \<longleftrightarrow> True"
| "chain L (a # as) \<longleftrightarrow> map_option snd (L a) = Some (first_ptr as None) \<and> chain L as"

lemma linked_chain: "linked L p as None \<Longrightarrow> chain L as"
  by (induction as arbitrary: p) auto

lemma chain_cong: "(\<And>x. x \<in> set as \<Longrightarrow> L' x = L x) \<Longrightarrow> chain L' as = chain L as"
  by (induction as) auto

text \<open>The list that the pointers of a heap represent, with its two ends.\<close>

definition dlist :: "links \<Rightarrow> ptr \<Rightarrow> ptr \<Rightarrow> addr list \<Rightarrow> bool" where
  "dlist L f l as \<longleftrightarrow> linked L None as None \<and> distinct as \<and> f = first_ptr as None \<and> l = last_ptr None as"

lemma dlist_Nil [simp]: "dlist L f l [] \<longleftrightarrow> f = None \<and> l = None"
  by (simp add: dlist_def)

lemma dlist_links:
  assumes "dlist L f l (as @ a # bs)"
  shows "L a = Some (last_ptr None as, first_ptr bs None)"
  using assms by (simp add: dlist_def linked_append)

lemma dlist_other: "x \<notin> set as \<Longrightarrow> dlist (L(x := v)) f l as = dlist L f l as"
  by (simp add: dlist_def)

end
