(* ===== verification/TimeWheel.thy ===== *)
theory TimeWheel
  imports DList
begin

text \<open>
  The timer wheel \<^verbatim>\<open>udpclient/linux/net/time_wheel.c\<close>: an array of doubly linked lists of
  timers, walked backwards one slot per step. Slot numbers are computed in C's mix of
  \<^verbatim>\<open>int\<close> and \<^verbatim>\<open>unsigned\<close>: 32-bit words read as signed; an access outside the array is
  undefined. A callback is given by what it does to the wheel and by the value it returns.
\<close>

section \<open>Data\<close>

record wheel_bucket =
  w_callback :: addr
  w_userdata :: ptr
  w_index :: u32
  w_steps :: u32
  w_prev :: ptr
  w_next :: ptr

record time_wheel =
  w_heap :: "wheel_bucket heap"
  max_steps :: u32
  buckets :: "ptr list"
  wheel_index :: u32

definition upd_w :: "ptr \<Rightarrow> (wheel_bucket \<Rightarrow> wheel_bucket) \<Rightarrow> time_wheel \<Rightarrow> time_wheel option" where
  "upd_w p f w = map_option (\<lambda>h. w\<lparr>w_heap := h\<rparr>) (modify (w_heap w) p f)"

section \<open>Operations\<close>

definition time_wheel_create :: "u32 \<Rightarrow> wheel_bucket heap \<Rightarrow> time_wheel" where
  "time_wheel_create n h =
     \<lparr>w_heap = h, max_steps = n, buckets = replicate (unat n) None, wheel_index = n - 1\<rparr>"

partial_function (option) free_slot_list :: "ptr \<Rightarrow> wheel_bucket heap \<Rightarrow> wheel_bucket heap option" where
  "free_slot_list bucket h =
     (case bucket of None \<Rightarrow> Some h
      | Some a \<Rightarrow> do {
          n \<leftarrow> deref h (Some a);
          h1 \<leftarrow> release h (Some a);
          free_slot_list (w_next n) h1 })"

primrec free_slots :: "ptr list \<Rightarrow> wheel_bucket heap \<Rightarrow> wheel_bucket heap option" where
  "free_slots [] h = Some h"
| "free_slots (b # bs) h = Option.bind (free_slot_list b h) (free_slots bs)"

text \<open>The buckets are released; the wheel itself is not (the last \<^verbatim>\<open>free\<close> is of NULL).\<close>

definition time_wheel_destroy :: "time_wheel option \<Rightarrow> wheel_bucket heap option" where
  "time_wheel_destroy wp = (case wp of None \<Rightarrow> Some Map.empty | Some w \<Rightarrow> free_slots (buckets w) (w_heap w))"

text \<open>Putting a bucket at the head of a slot.\<close>

definition link_head :: "int \<Rightarrow> addr \<Rightarrow> time_wheel \<Rightarrow> time_wheel option" where
  "link_head i a w = do {
     head \<leftarrow> rd (buckets w) i;
     w \<leftarrow> upd_w (Some a) (\<lambda>n. n\<lparr>w_prev := None, w_next := head, w_index := of_int i\<rparr>) w;
     w \<leftarrow> (case head of None \<Rightarrow> Some w | Some _ \<Rightarrow> upd_w head (\<lambda>n. n\<lparr>w_prev := Some a\<rparr>) w);
     bs \<leftarrow> wr (buckets w) i (Some a);
     Some (w\<lparr>buckets := bs\<rparr>) }"

text \<open>A negative slot number wraps around once.\<close>

definition wrap_index :: "time_wheel \<Rightarrow> int \<Rightarrow> int" where
  "wrap_index w i = (if i < 0 then sint (of_int i + max_steps w) else i)"

definition submit_index :: "time_wheel \<Rightarrow> u32 \<Rightarrow> int" where
  "submit_index w steps =
     (if steps > max_steps w
      then (let i = sint (wheel_index w + 1) in if of_int i \<ge> max_steps w then 0 else i)
      else wrap_index w (sint (wheel_index w - steps)))"

text \<open>\<open>a\<close> is the node allocated; a NULL callback is refused.\<close>

definition time_wheel_submit :: "time_wheel \<Rightarrow> addr \<Rightarrow> ptr \<Rightarrow> ptr \<Rightarrow> u32 \<Rightarrow> (ptr \<times> time_wheel) option" where
  "time_wheel_submit w a cb ud steps =
     (case cb of None \<Rightarrow> Some (None, w)
      | Some f \<Rightarrow>
          if \<not> wheel_index w < max_steps w \<or> w_heap w a \<noteq> None then None
          else do {
            w \<leftarrow> link_head (submit_index w steps) a
              (w\<lparr>w_heap := (w_heap w)(a \<mapsto>
                \<lparr>w_callback = f, w_userdata = ud, w_index = of_int (submit_index w steps), w_steps = steps,
                 w_prev = None, w_next = None\<rparr>)\<rparr>);
            Some (Some a, w) })"

text \<open>Unlinking a bucket from its neighbours and, if it is the first, from its slot.\<close>

definition unlink :: "addr \<Rightarrow> time_wheel \<Rightarrow> time_wheel option" where
  "unlink a w = do {
     n \<leftarrow> deref (w_heap w) (Some a);
     w \<leftarrow> (case w_prev n of None \<Rightarrow> Some w | Some p \<Rightarrow> upd_w (Some p) (\<lambda>m. m\<lparr>w_next := w_next n\<rparr>) w);
     w \<leftarrow> (case w_next n of None \<Rightarrow> Some w | Some q \<Rightarrow> upd_w (Some q) (\<lambda>m. m\<lparr>w_prev := w_prev n\<rparr>) w);
     b \<leftarrow> rd (buckets w) (sint (w_index n));
     if b = Some a then do {
       bs \<leftarrow> wr (buckets w) (sint (w_index n)) (w_next n);
       Some (w\<lparr>buckets := bs\<rparr>) }
     else Some w }"

definition free_bucket :: "addr \<Rightarrow> time_wheel \<Rightarrow> time_wheel option" where
  "free_bucket a w = map_option (\<lambda>h. w\<lparr>w_heap := h\<rparr>) (release (w_heap w) (Some a))"

definition time_wheel_cancel :: "time_wheel \<Rightarrow> ptr \<Rightarrow> time_wheel option" where
  "time_wheel_cancel w handle =
     (case handle of None \<Rightarrow> Some w
      | Some a \<Rightarrow> do {
          w \<leftarrow> unlink a w;
          free_bucket a w })"

definition time_wheel_refresh :: "time_wheel \<Rightarrow> ptr \<Rightarrow> time_wheel option" where
  "time_wheel_refresh w handle =
     (case handle of None \<Rightarrow> Some w
      | Some a \<Rightarrow> do {
          n \<leftarrow> deref (w_heap w) (Some a);
          if \<not> w_index n < max_steps w then None
          else do {
            w \<leftarrow> unlink a w;
            link_head (wrap_index w (sint (wheel_index w - w_steps n))) a w } })"

section \<open>A step\<close>

datatype w_action = W_Submit addr addr ptr u32 | W_Cancel addr | W_Refresh addr

definition do_w_action :: "time_wheel \<Rightarrow> w_action \<Rightarrow> time_wheel option" where
  "do_w_action w x =
     (case x of
        W_Submit a f ud s \<Rightarrow> map_option snd (time_wheel_submit w a (Some f) ud s)
      | W_Cancel a \<Rightarrow> time_wheel_cancel w (Some a)
      | W_Refresh a \<Rightarrow> time_wheel_refresh w (Some a))"

primrec do_w_actions :: "w_action list \<Rightarrow> time_wheel \<Rightarrow> time_wheel option" where
  "do_w_actions [] w = Some w"
| "do_w_actions (x # xs) w = Option.bind (do_w_action w x) (do_w_actions xs)"

text \<open>What the callback does, and whether it returns \<^verbatim>\<open>TIME_WHEEL_EXPIRE_ONESHOT\<close>.\<close>

type_synonym w_callback = "addr \<Rightarrow> ptr \<Rightarrow> time_wheel \<Rightarrow> w_action list \<times> bool"

definition expire_bucket :: "w_callback \<Rightarrow> addr \<Rightarrow> time_wheel \<Rightarrow> time_wheel option" where
  "expire_bucket cb a w = do {
     n \<leftarrow> deref (w_heap w) (Some a);
     let (acts, oneshot) = cb (w_callback n) (w_userdata n) w;
     w \<leftarrow> do_w_actions acts w;
     if oneshot then free_bucket a w
     else do {
       n \<leftarrow> deref (w_heap w) (Some a);
       link_head (wrap_index w (sint (wheel_index w - w_steps n + 1))) a w } }"

text \<open>The buckets whose callbacks ran, in order.\<close>

partial_function (option) expire_list :: "w_callback \<Rightarrow> ptr \<Rightarrow> time_wheel \<Rightarrow> (addr list \<times> time_wheel) option" where
  "expire_list cb bucket w =
     (case bucket of None \<Rightarrow> Some ([], w)
      | Some a \<Rightarrow> do {
          n \<leftarrow> deref (w_heap w) (Some a);
          w \<leftarrow> expire_bucket cb a w;
          (fired, w) \<leftarrow> expire_list cb (w_next n) w;
          Some (a # fired, w) })"

definition prev_index :: "time_wheel \<Rightarrow> int" where
  "prev_index w = (let i = sint (wheel_index w) - 1 in if i < 0 then sint (max_steps w - 1) else i)"

definition time_wheel_step :: "w_callback \<Rightarrow> time_wheel option \<Rightarrow> (addr list \<times> time_wheel option) option" where
  "time_wheel_step cb wp =
     (case wp of None \<Rightarrow> Some ([], None)
      | Some w \<Rightarrow> do {
          bucket \<leftarrow> rd (buckets w) (uint (wheel_index w));
          bs \<leftarrow> wr (buckets w) (uint (wheel_index w)) None;
          (fired, w) \<leftarrow> expire_list cb bucket (w\<lparr>buckets := bs, wheel_index := of_int (prev_index w)\<rparr>);
          Some (fired, Some w) })"

section \<open>The invariant\<close>

lemma upd_w_simps [simp]:
  "w_heap w a = Some n \<Longrightarrow> upd_w (Some a) f w = Some (w\<lparr>w_heap := (w_heap w)(a \<mapsto> f n)\<rparr>)"
  "w_heap w a = Some n \<Longrightarrow> free_bucket a w = Some (w\<lparr>w_heap := (w_heap w)(a := None)\<rparr>)"
  by (simp_all add: upd_w_def free_bucket_def)

abbreviation w_links :: "wheel_bucket heap \<Rightarrow> links" where
  "w_links \<equiv> links_of w_prev w_next"

text \<open>
  The wheel represents a list of buckets per slot. Each list is linked and its buckets know their
  slot; every live bucket is in the list of its slot, apart from those in \<open>D\<close>, which are
  detached (being expired, or not yet linked).
\<close>

definition slot_ok :: "time_wheel \<Rightarrow> int \<Rightarrow> addr list \<Rightarrow> bool" where
  "slot_ok w i as \<longleftrightarrow> distinct as \<and> linked (w_links (w_heap w)) None as None \<and>
     rd (buckets w) i = Some (first_ptr as None) \<and>
     (\<forall>a \<in> set as. \<exists>n. w_heap w a = Some n \<and> uint (w_index n) = i)"

definition wheel_ok :: "time_wheel \<Rightarrow> bool" where
  "wheel_ok w \<longleftrightarrow> 0 < uint (max_steps w) \<and> uint (max_steps w) < 2 ^ 31 \<and>
     uint (wheel_index w) < uint (max_steps w) \<and> int (length (buckets w)) = uint (max_steps w)"

abbreviation slots :: "time_wheel \<Rightarrow> int set" where
  "slots w \<equiv> {0..<uint (max_steps w)}"

definition placed :: "time_wheel \<Rightarrow> (int \<Rightarrow> addr list) \<Rightarrow> addr set \<Rightarrow> addr \<Rightarrow> wheel_bucket \<Rightarrow> bool" where
  "placed w S D a n \<longleftrightarrow> w_steps n \<le> max_steps w \<and>
     (a \<in> D \<or> uint (w_index n) < uint (max_steps w) \<and> a \<in> set (S (uint (w_index n))))"

definition wheel_inv :: "time_wheel \<Rightarrow> (int \<Rightarrow> addr list) \<Rightarrow> addr set \<Rightarrow> bool" where
  "wheel_inv w S D \<longleftrightarrow> wheel_ok w \<and>
     (\<forall>i \<in> slots w. slot_ok w i (S i) \<and> set (S i) \<inter> D = {}) \<and>
     (\<forall>a n. w_heap w a = Some n \<longrightarrow> placed w S D a n) \<and> (\<forall>a \<in> D. w_heap w a \<noteq> None)"

text \<open>
  What a wheel promises: for each bucket its callback, its argument, its period and the number
  of steps that pass before the one in which it fires.
\<close>

type_synonym timer = "addr \<times> ptr \<times> nat \<times> nat"

definition timers :: "time_wheel \<Rightarrow> addr \<Rightarrow> timer option" where
  "timers w a = map_option (\<lambda>n. (w_callback n, w_userdata n, unat (w_steps n),
       nat ((uint (wheel_index w) - uint (w_index n)) mod uint (max_steps w)))) (w_heap w a)"

section \<open>Slot numbers\<close>

lemma wheel_okD:
  assumes "wheel_ok w"
  shows "0 < uint (max_steps w)" "uint (max_steps w) < 2 ^ 31" "uint (wheel_index w) < uint (max_steps w)"
    "int (length (buckets w)) = uint (max_steps w)"
  using assms unfolding wheel_ok_def by blast+

lemma sint_of_small:
  assumes "- (2 ^ 31) \<le> i" and "i < 2 ^ 31"
  shows "sint (of_int i :: u32) = i"
proof -
  have "sint (of_int i :: u32) = signed_take_bit 31 i" by (simp add: signed_of_int)
  then show ?thesis using assms by (simp add: signed_take_bit_int_eq_self)
qed

lemma uint_of_small: "0 \<le> i \<Longrightarrow> i < 2 ^ 32 \<Longrightarrow> uint (of_int i :: u32) = i"
  by (simp add: unsigned_of_int take_bit_int_eq_self)

lemma wrap_index_eq:
  assumes w: "wheel_ok w" and i: "- uint (max_steps w) \<le> i" "i < uint (max_steps w)"
  shows "wrap_index w i = i mod uint (max_steps w)"
proof (cases "i < 0")
  case True
  have "of_int i + max_steps w = (of_int (i + uint (max_steps w)) :: u32)" by simp
  then have "wrap_index w i = sint (of_int (i + uint (max_steps w)) :: u32)"
    using True by (simp only: wrap_index_def if_True)
  also have "\<dots> = i + uint (max_steps w)"
    using True i wheel_okD [OF w] by (intro sint_of_small) linarith+
  also have "\<dots> = (i + uint (max_steps w)) mod uint (max_steps w)"
    using True i by (intro mod_pos_pos_trivial [symmetric]) linarith+
  finally show ?thesis by simp
next
  case False
  then show ?thesis using i(2) by (simp add: wrap_index_def)
qed

lemma sint_index_diff:
  assumes w: "wheel_ok w" and s: "s \<le> max_steps w"
  shows "sint (wheel_index w - s) = uint (wheel_index w) - uint s"
proof -
  have "wheel_index w - s = of_int (uint (wheel_index w) - uint s)" by simp
  moreover have "uint s \<le> uint (max_steps w)" using s by (simp add: word_le_def)
  then have "sint (of_int (uint (wheel_index w) - uint s) :: u32) = uint (wheel_index w) - uint s"
    using wheel_okD [OF w] uint_ge_0 [of s] uint_ge_0 [of "wheel_index w"] by (intro sint_of_small) linarith+
  ultimately show ?thesis by (simp only:)
qed

lemma slot_of_steps:
  assumes w: "wheel_ok w" and s: "s \<le> max_steps w"
  shows "wrap_index w (sint (wheel_index w - s)) = (uint (wheel_index w) - uint s) mod uint (max_steps w)"
proof -
  have "uint s \<le> uint (max_steps w)" using s by (simp add: word_le_def)
  then show ?thesis
    using wheel_okD [OF w] uint_ge_0 [of s] uint_ge_0 [of "wheel_index w"]
    unfolding sint_index_diff [OF assms] by (intro wrap_index_eq [OF w]) linarith+
qed

lemma submit_index_eq:
  "wheel_ok w \<Longrightarrow> s \<le> max_steps w \<Longrightarrow>
   submit_index w s = (uint (wheel_index w) - uint s) mod uint (max_steps w)"
  unfolding submit_index_def by (simp only: slot_of_steps leD if_False)

text \<open>The slot that \<open>s\<close> steps lead to fires after \<open>s mod max_steps\<close> steps.\<close>

lemma countdown_slot: "(x - (x - s) mod m) mod m = s mod (m :: int)"
  by (simp add: mod_simps)

lemma slot_mod: "wheel_ok w \<Longrightarrow> x mod uint (max_steps w) \<in> slots w"
  using wheel_okD [of w] by simp

lemma prev_index_eq:
  assumes w: "wheel_ok w"
  shows "prev_index w = (uint (wheel_index w) - 1) mod uint (max_steps w)"
proof -
  have x: "sint (wheel_index w) = uint (wheel_index w)"
    using sint_index_diff [OF w, of 0] by simp
  have "max_steps w - 1 = of_int (uint (max_steps w) - 1)" by simp
  then have m: "sint (max_steps w - 1) = uint (max_steps w) - 1"
    using wheel_okD [OF w] by (simp only:) (intro sint_of_small; linarith)
  show ?thesis
  proof (cases "uint (wheel_index w) = 0")
    case True
    then show ?thesis using wheel_okD [OF w] by (simp add: prev_index_def x m zmod_minus1)
  next
    case False
    then have "0 \<le> uint (wheel_index w) - 1" using uint_ge_0 [of "wheel_index w"] by linarith
    then show ?thesis using wheel_okD(3) [OF w] by (simp add: prev_index_def x Let_def)
  qed
qed

section \<open>Linking and unlinking\<close>

lemma wheel_invD:
  assumes "wheel_inv w S D"
  shows "wheel_ok w" "\<And>i. i \<in> slots w \<Longrightarrow> slot_ok w i (S i)" "\<And>i. i \<in> slots w \<Longrightarrow> set (S i) \<inter> D = {}"
    "\<And>a n. w_heap w a = Some n \<Longrightarrow> placed w S D a n" "\<And>a. a \<in> D \<Longrightarrow> \<exists>n. w_heap w a = Some n"
  using assms unfolding wheel_inv_def by blast+

lemma slot_ok_nodes: "slot_ok w i as \<Longrightarrow> a \<in> set as \<Longrightarrow> \<exists>n. w_heap w a = Some n \<and> uint (w_index n) = i"
  unfolding slot_ok_def by blast

lemma slots_disjoint:
  assumes "wheel_inv w S D" "i \<in> slots w" "j \<in> slots w" "a \<in> set (S i)" "a \<in> set (S j)"
  shows "i = j"
  using slot_ok_nodes [OF wheel_invD(2) [OF assms(1, 2)] assms(4)]
    slot_ok_nodes [OF wheel_invD(2) [OF assms(1, 3)] assms(5)] by auto

lemma slot_ok_cong:
  assumes "slot_ok w i as" and "\<And>b. b \<in> set as \<Longrightarrow> w_heap w' b = w_heap w b" and "rd (buckets w') i = rd (buckets w) i"
  shows "slot_ok w' i as"
proof -
  have "linked (w_links (w_heap w')) None as None = linked (w_links (w_heap w)) None as None"
    using assms(2) by (intro linked_cong) (simp add: links_of_def)
  then show ?thesis using assms unfolding slot_ok_def by (simp; metis)
qed

definition same_wheel :: "time_wheel \<Rightarrow> time_wheel \<Rightarrow> bool" where
  "same_wheel w w' \<longleftrightarrow> max_steps w' = max_steps w \<and> wheel_index w' = wheel_index w \<and> length (buckets w') = length (buckets w)"

lemma same_wheel_ok: "same_wheel w w' \<Longrightarrow> wheel_ok w \<Longrightarrow> wheel_ok w'"
  by (simp add: same_wheel_def wheel_ok_def)

text \<open>An operation that rearranges one slot and moves one bucket in or out of it.\<close>

lemma wheel_inv_slot:
  assumes w: "wheel_inv w S D" and i: "i \<in> slots w" and same: "same_wheel w w'"
    and rds: "\<And>j. j \<in> slots w \<Longrightarrow> j \<noteq> i \<Longrightarrow> rd (buckets w') j = rd (buckets w) j"
    and ok: "slot_ok w' i as" "set as \<inter> D' = {}"
    and D: "insert a D = insert a D'" and a: "\<And>j. j \<in> slots w \<Longrightarrow> j \<noteq> i \<Longrightarrow> a \<notin> set (S j)"
    and old: "insert a (set (S i)) = insert a (set as)" and an: "\<exists>n. w_heap w' a = Some n \<and> placed w' (S(i := as)) D' a n"
    and heap: "\<And>b. b \<noteq> a \<Longrightarrow> b \<notin> set (S i) \<Longrightarrow> w_heap w' b = w_heap w b"
    and inside: "\<And>b. b \<noteq> a \<Longrightarrow> b \<in> set (S i) \<Longrightarrow> \<exists>n m. w_heap w' b = Some n \<and> w_heap w b = Some m \<and> w_steps n = w_steps m \<and> w_index n = w_index m"
  shows "wheel_inv w' (S(i := as)) D'"
proof -
  have m: "max_steps w' = max_steps w" using same unfolding same_wheel_def by blast
  have DD: "b \<in> D \<longleftrightarrow> b \<in> D'" if "b \<noteq> a" for b using D that by (metis insert_iff)
  have 1: "slot_ok w' j ((S(i := as)) j) \<and> set ((S(i := as)) j) \<inter> D' = {}" if j: "j \<in> slots w" for j
  proof (cases "j = i")
    case False
    have ne: "b \<noteq> a" "b \<notin> set (S i)" if "b \<in> set (S j)" for b
      using that slots_disjoint [OF w j i] a [OF j False] False by blast+
    have "w_heap w' b = w_heap w b" if "b \<in> set (S j)" for b using heap [OF ne(1) [OF that] ne(2) [OF that]] .
    from slot_ok_cong [OF wheel_invD(2) [OF w j] this rds [OF j False]] have "slot_ok w' j (S j)" .
    moreover have "set (S j) \<inter> D' = {}" using wheel_invD(3) [OF w j] DD [OF ne(1)] by auto
    ultimately show ?thesis using False by simp
  qed (use ok in simp)
  have 2: "placed w' (S(i := as)) D' b n" if n: "w_heap w' b = Some n" for b n
  proof (cases "b = a \<or> b \<in> set (S i)")
    case True
    then show ?thesis
    proof (cases "b = a")
      case False
      with True have b: "b \<in> set (S i)" by blast
      from inside [OF False b] n obtain k where k: "w_heap w b = Some k" "w_steps n = w_steps k" "w_index n = w_index k" by auto
      have "b \<in> set as" using old b False by blast
      moreover have "uint (w_index k) = i" using slot_ok_nodes [OF wheel_invD(2) [OF w i] b] k(1) by simp
      ultimately show ?thesis using wheel_invD(4) [OF w k(1)] k(2, 3) i m by (simp add: placed_def)
    qed (use an n in auto)
  next
    case False
    then have "w_heap w b = Some n" using heap n by auto
    from wheel_invD(4) [OF w this] have p: "placed w S D b n" .
    have "b \<in> D \<longleftrightarrow> b \<in> D'" using DD False by simp
    moreover have "b \<in> set ((S(i := as)) (uint (w_index n)))" if "b \<in> set (S (uint (w_index n)))"
      using that False by (cases "uint (w_index n) = i") auto
    ultimately show ?thesis using p unfolding placed_def m by blast
  qed
  have 3: "w_heap w' b \<noteq> None" if b: "b \<in> D'" for b
  proof (cases "b = a")
    case False
    then have "b \<in> D" using DD b by simp
    moreover from this have "b \<notin> set (S i)" using wheel_invD(3) [OF w i] by blast
    ultimately show ?thesis using heap [OF False] wheel_invD(5) [OF w] by auto
  qed (use an in auto)
  show ?thesis
    unfolding wheel_inv_def m
    using same_wheel_ok [OF same wheel_invD(1) [OF w]] 1 2 3 by blast
qed

lemma link_head_inv:
  assumes w: "wheel_inv w S (insert a D)" and i: "i \<in> slots w" and a: "a \<notin> D" and n: "w_heap w a = Some n"
  shows "\<exists>w'. link_head i a w = Some w' \<and> wheel_inv w' (S(i := a # S i)) D \<and> same_wheel w w' \<and>
    (\<forall>b \<in> D. w_heap w' b = w_heap w b) \<and>
    timers w' = (timers w)(a \<mapsto> (w_callback n, w_userdata n, unat (w_steps n),
      nat ((uint (wheel_index w) - i) mod uint (max_steps w))))"
proof -
  note inv = wheel_invD [OF w] and ok = wheel_okD [OF wheel_invD(1) [OF w]]
  let ?new = "n\<lparr>w_prev := None, w_next := first_ptr (S i) None, w_index := of_int i\<rparr>"
  have idx: "uint (of_int i :: u32) = i" using i ok(2) by (intro uint_of_small) auto
  have s: "slot_ok w i (S i)" "a \<notin> set (S i)" using inv(2, 3) [OF i] by auto
  have out: "\<And>j. j \<in> slots w \<Longrightarrow> a \<notin> set (S j)" "\<And>j b. j \<in> slots w \<Longrightarrow> b \<in> set (S j) \<Longrightarrow> b \<notin> D"
    using inv(3) by auto
  have rd: "rd (buckets w) i = Some (first_ptr (S i) None)" and dist: "distinct (S i)"
    and lk: "linked (w_links (w_heap w)) None (S i) None" using s(1) unfolding slot_ok_def by blast+
  obtain bs where bs: "wr (buckets w) i (Some a) = Some bs" "bs = (buckets w)[nat i := Some a]"
    using i ok(4) by (simp add: wr_def)
  have rdb: "rd bs j = (if j = i then Some (Some a) else rd (buckets w) j)" if "j \<in> slots w" for j
    using that i ok(4) by (auto simp: rd_def bs(2) nth_list_update)
  have steps: "w_steps n \<le> max_steps w" using inv(4) [OF n] by (simp add: placed_def)
  show ?thesis
  proof (cases "S i")
    case Nil
    define w' where "w' = w\<lparr>w_heap := (w_heap w)(a \<mapsto> ?new), buckets := bs\<rparr>"
    have "link_head i a w = Some w'"
      using n rd bs(1) Nil by (simp add: link_head_def w'_def)
    moreover have same: "same_wheel w w'" by (simp add: same_wheel_def w'_def bs(2))
    moreover have "wheel_inv w' (S(i := a # S i)) D"
    proof (rule wheel_inv_slot [OF w i same])
      show "slot_ok w' i (a # S i)"
        using rdb [OF i] idx by (simp add: slot_ok_def w'_def Nil)
      show "\<exists>n. w_heap w' a = Some n \<and> placed w' (S(i := a # S i)) D a n"
        using steps idx i by (simp add: w'_def placed_def)
    qed (use out a i rdb Nil in \<open>auto simp: w'_def\<close>)
    moreover have "timers w' = (timers w)(a \<mapsto> (w_callback n, w_userdata n, unat (w_steps n),
      nat ((uint (wheel_index w) - i) mod uint (max_steps w))))"
      by (rule ext) (simp add: timers_def w'_def idx)
    moreover have "\<forall>b \<in> D. w_heap w' b = w_heap w b" using a by (auto simp: w'_def)
    ultimately show ?thesis by blast
  next
    case (Cons c cs)
    then obtain m where m: "w_heap w c = Some m" "uint (w_index m) = i" using slot_ok_nodes [OF s(1)] by auto
    have ac: "a \<noteq> c" using s(2) Cons by auto
    define w' where "w' = w\<lparr>w_heap := (w_heap w)(a \<mapsto> ?new, c \<mapsto> m\<lparr>w_prev := Some a\<rparr>), buckets := bs\<rparr>"
    have "link_head i a w = Some w'"
      using n rd bs(1) Cons ac m by (simp add: link_head_def w'_def)
    moreover have same: "same_wheel w w'" by (simp add: same_wheel_def w'_def bs(2))
    moreover have "wheel_inv w' (S(i := a # S i)) D"
    proof (rule wheel_inv_slot [OF w i same])
      have "linked (w_links (w_heap w')) None ([] @ a # S i) None"
        using lk dist s(2) ac m
        by (intro linked_insertI [where L = "w_links (w_heap w)"])
           (auto simp: w'_def Cons link_prev_def link_next_def links_of_Some)
      then show "slot_ok w' i (a # S i)"
        using rdb [OF i] idx s m ac dist
        by (auto simp: slot_ok_def w'_def Cons)
      show "\<exists>n. w_heap w' a = Some n \<and> placed w' (S(i := a # S i)) D a n"
        using steps idx i ac by (simp add: w'_def placed_def)
      show "\<exists>n m. w_heap w' b = Some n \<and> w_heap w b = Some m \<and> w_steps n = w_steps m \<and> w_index n = w_index m"
        if "b \<noteq> a" "b \<in> set (S i)" for b
        using slot_ok_nodes [OF s(1) that(2)] that(1) m by (cases "b = c") (auto simp: w'_def)
      show "set (a # S i) \<inter> D = {}" using out(2) [OF i] a by auto
    qed (use out(1) i rdb Cons in \<open>simp_all add: w'_def\<close>)
    moreover have "timers w' = (timers w)(a \<mapsto> (w_callback n, w_userdata n, unat (w_steps n),
      nat ((uint (wheel_index w) - i) mod uint (max_steps w))))"
      using ac m by (intro ext) (auto simp: timers_def w'_def idx)
    moreover have "c \<notin> D" using out(2) [OF i, of c] Cons by simp
    then have "\<forall>b \<in> D. w_heap w' b = w_heap w b" using a by (auto simp: w'_def)
    ultimately show ?thesis by blast
  qed
qed

text \<open>Changing a link of a neighbour, if there is one.\<close>

definition set_next :: "ptr \<Rightarrow> ptr \<Rightarrow> wheel_bucket heap \<Rightarrow> wheel_bucket heap" where
  "set_next p v h = (case p of None \<Rightarrow> h | Some x \<Rightarrow> h(x := map_option (\<lambda>m. m\<lparr>w_next := v\<rparr>) (h x)))"

definition set_prev :: "ptr \<Rightarrow> ptr \<Rightarrow> wheel_bucket heap \<Rightarrow> wheel_bucket heap" where
  "set_prev p v h = (case p of None \<Rightarrow> h | Some x \<Rightarrow> h(x := map_option (\<lambda>m. m\<lparr>w_prev := v\<rparr>) (h x)))"

lemma set_links [simp]:
  "w_links (set_next p v h) = link_next p v (w_links h)" "w_links (set_prev p v h) = link_prev p v (w_links h)"
  by (auto simp: set_next_def set_prev_def link_next_def link_prev_def links_of_def fun_eq_iff
      option.map_comp comp_def split: option.split)

lemma set_none [simp]: "set_next p v h x = None \<longleftrightarrow> h x = None" "set_prev p v h x = None \<longleftrightarrow> h x = None"
  by (auto simp: set_next_def set_prev_def split: option.split)

lemma set_other [simp]:
  "p \<noteq> Some x \<Longrightarrow> set_next p v h x = h x" "p \<noteq> Some x \<Longrightarrow> set_prev p v h x = h x"
  by (auto simp: set_next_def set_prev_def split: option.split)

lemma set_fields:
  assumes "\<And>m v. f (m\<lparr>w_next := v\<rparr>) = f m" and "\<And>m v. f (m\<lparr>w_prev := v\<rparr>) = f m"
  shows "map_option f (set_next p v h x) = map_option f (h x)" "map_option f (set_prev p v h x) = map_option f (h x)"
  using assms by (auto simp: set_next_def set_prev_def option.map_comp comp_def split: option.split)

lemma upd_neighbour:
  assumes "\<And>x. p = Some x \<Longrightarrow> w_heap w x \<noteq> None"
  shows "(case p of None \<Rightarrow> Some w | Some x \<Rightarrow> upd_w (Some x) (\<lambda>m. m\<lparr>w_next := v\<rparr>) w) =
      Some (w\<lparr>w_heap := set_next p v (w_heap w)\<rparr>)"
    "(case p of None \<Rightarrow> Some w | Some x \<Rightarrow> upd_w (Some x) (\<lambda>m. m\<lparr>w_prev := v\<rparr>) w) =
      Some (w\<lparr>w_heap := set_prev p v (w_heap w)\<rparr>)"
  using assms by (auto simp: set_next_def set_prev_def split: option.split)

lemma unlink_eq:
  assumes n: "w_heap w a = Some n" and i: "i = sint (w_index n)" "rd (buckets w) i = Some b"
    and live: "\<And>x. w_prev n = Some x \<or> w_next n = Some x \<Longrightarrow> w_heap w x \<noteq> None"
  shows "unlink a w = Some (w\<lparr>w_heap := set_prev (w_next n) (w_prev n) (set_next (w_prev n) (w_next n) (w_heap w)),
      buckets := (if b = Some a then (buckets w)[nat i := w_next n] else buckets w)\<rparr>)"
proof -
  let ?w1 = "w\<lparr>w_heap := set_next (w_prev n) (w_next n) (w_heap w)\<rparr>"
  have 1: "(case w_prev n of None \<Rightarrow> Some w | Some x \<Rightarrow> upd_w (Some x) (\<lambda>m. m\<lparr>w_next := w_next n\<rparr>) w) = Some ?w1"
    using live by (intro upd_neighbour) blast
  have 2: "(case w_next n of None \<Rightarrow> Some ?w1 | Some x \<Rightarrow> upd_w (Some x) (\<lambda>m. m\<lparr>w_prev := w_prev n\<rparr>) ?w1) =
      Some (?w1\<lparr>w_heap := set_prev (w_next n) (w_prev n) (w_heap ?w1)\<rparr>)"
    using live by (intro upd_neighbour) simp
  have wr: "wr (buckets w) i v = Some ((buckets w)[nat i := v])" for v
    using i(2) by (simp add: rd_Some_iff wr_def)
  show ?thesis
    unfolding unlink_def by (simp only: deref_simps n bind.bind_lunit 1 2) (simp add: i(2) wr flip: i(1))
qed

lemma unlink_inv:
  assumes w: "wheel_inv w S D" and i: "i \<in> slots w" and a: "a \<in> set (S i)"
  shows "\<exists>w'. unlink a w = Some w' \<and> wheel_inv w' (S(i := remove1 a (S i))) (insert a D) \<and> same_wheel w w' \<and>
    (\<forall>b \<in> D. w_heap w' b = w_heap w b) \<and> timers w' = timers w"
proof -
  note inv = wheel_invD [OF w] and ok = wheel_okD [OF wheel_invD(1) [OF w]]
  have s: "slot_ok w i (S i)" and aD: "a \<notin> D" using inv(2, 3) [OF i] a by auto
  obtain n where n: "w_heap w a = Some n" "uint (w_index n) = i" using slot_ok_nodes [OF s a] by blast
  obtain as bs where S: "S i = as @ a # bs" using a by (meson split_list)
  have rd: "rd (buckets w) i = Some (first_ptr (S i) None)" and dist: "distinct (as @ a # bs)"
    and lk: "linked (w_links (w_heap w)) None (as @ a # bs) None"
    using s S unfolding slot_ok_def by simp_all
  have nb: "w_prev n = last_ptr None as" "w_next n = first_ptr bs None"
    using lk n(1) by (auto simp: linked_append links_of_Some)
  have sint: "sint (w_index n) = i"
  proof -
    have "w_index n = of_int i" using n(2) by (metis word_of_int_uint)
    then show ?thesis using i ok(2) by (simp only:) (intro sint_of_small; simp)
  qed
  define h where "h = set_prev (w_next n) (w_prev n) (set_next (w_prev n) (w_next n) (w_heap w))"
  define bk where "bk = (if first_ptr (S i) None = Some a then (buckets w)[nat i := w_next n] else buckets w)"
  define w' where "w' = w\<lparr>w_heap := h, buckets := bk\<rparr>"
  have nbs: "x \<in> set (S i) \<and> x \<noteq> a" if "w_prev n = Some x \<or> w_next n = Some x" for x
    using that dist unfolding S nb by (auto simp: last_ptr_def first_ptr_def split: if_splits list.splits)
  have un: "unlink a w = Some w'"
    unfolding w'_def h_def bk_def
    using nbs slot_ok_nodes [OF s] by (intro unlink_eq [OF n(1) sint [symmetric] rd]) blast
  have same: "same_wheel w w'" by (simp add: same_wheel_def w'_def bk_def)
  have S': "remove1 a (S i) = as @ bs" using dist unfolding S by (simp add: remove1_append)
  have hsame: "h b = w_heap w b" if "b = a \<or> b \<notin> set (S i)" for b
    unfolding h_def using nbs that by (metis set_other)
  have fields: "map_option f (h x) = map_option f (w_heap w x)"
    if "\<And>m v. f (m\<lparr>w_next := v\<rparr>) = f m" "\<And>m v. f (m\<lparr>w_prev := v\<rparr>) = f m" for f :: "wheel_bucket \<Rightarrow> 'z" and x
    unfolding h_def using that by (simp add: set_fields)
  have data: "map_option (\<lambda>m. (w_callback m, w_userdata m, w_steps m, w_index m)) (h x) =
      map_option (\<lambda>m. (w_callback m, w_userdata m, w_steps m, w_index m)) (w_heap w x)" for x
    by (intro fields) simp_all
  have bki: "rd bk i = Some (first_ptr (as @ bs) None)"
  proof (cases as)
    case Nil
    have "nat i < length (buckets w)" using i ok(4) by (simp add: nat_less_iff)
    then show ?thesis using Nil i ok(4) nb by (simp add: bk_def S rd_def)
  next
    case (Cons c cs)
    then have "c \<noteq> a" using dist by auto
    then show ?thesis using rd Cons S by (simp add: bk_def)
  qed
  have "wheel_inv w' (S(i := as @ bs)) (insert a D)"
  proof (rule wheel_inv_slot [OF w i same])
    have "linked (w_links h) None (as @ bs) None"
      using lk dist by (rule linked_removeI) (simp add: h_def nb)
    moreover have "\<exists>m. h b = Some m \<and> uint (w_index m) = i" if "b \<in> set (as @ bs)" for b
      using slot_ok_nodes [OF s, of b] data [of b] that by (auto simp: S)
    ultimately show "slot_ok w' i (as @ bs)" using dist bki by (simp add: slot_ok_def w'_def)
    show "set (as @ bs) \<inter> insert a D = {}" using inv(3) [OF i] dist by (auto simp: S)
    show "a \<notin> set (S j)" if "j \<in> slots w" "j \<noteq> i" for j
      using slots_disjoint [OF w i that(1) a] that(2) by blast
    show "\<exists>n. w_heap w' a = Some n \<and> placed w' (S(i := as @ bs)) (insert a D) a n"
      using n(1) hsame [of a] inv(4) [OF n(1)] by (simp add: w'_def placed_def)
    show "\<exists>k m. w_heap w' b = Some k \<and> w_heap w b = Some m \<and> w_steps k = w_steps m \<and> w_index k = w_index m"
      if "b \<in> set (S i)" for b
      using slot_ok_nodes [OF s that] data [of b] by (auto simp: w'_def)
    show "rd (buckets w') j = rd (buckets w) j" if "j \<in> slots w" "j \<noteq> i" for j
      using that i by (auto simp: w'_def bk_def rd_def nth_list_update)
  qed (use hsame S in \<open>auto simp: w'_def\<close>)
  moreover have "\<forall>b \<in> D. w_heap w' b = w_heap w b"
    using hsame inv(3) [OF i] by (auto simp: w'_def)
  moreover have "timers w' = timers w"
    by (rule ext) (simp add: timers_def w'_def, rule fields, simp_all)
  ultimately show ?thesis using un same S' by auto
qed

text \<open>A node that is in no slot may be allocated or released.\<close>

lemma free_bucket_inv:
  assumes w: "wheel_inv w S (insert a D)" and a: "a \<notin> D"
  shows "\<exists>w'. free_bucket a w = Some w' \<and> wheel_inv w' S D \<and> same_wheel w w' \<and>
    (\<forall>b \<in> D. w_heap w' b = w_heap w b) \<and> timers w' = (timers w)(a := None)"
proof -
  note inv = wheel_invD [OF w]
  obtain n where n: "w_heap w a = Some n" using inv(5) by blast
  let ?w = "w\<lparr>w_heap := (w_heap w)(a := None)\<rparr>"
  have "slot_ok ?w i (S i)" if "i \<in> slots w" for i
    using inv(3) [OF that] by (intro slot_ok_cong [OF inv(2) [OF that]]) auto
  moreover have "placed ?w S D b m" if "w_heap ?w b = Some m" for b m
    using inv(4) [of b m] that by (auto simp: placed_def split: if_splits)
  moreover have "wheel_ok ?w" using inv(1) by (simp add: wheel_ok_def)
  ultimately have "wheel_inv ?w S D"
    using inv(3, 5) a unfolding wheel_inv_def by auto
  moreover have "timers ?w = (timers w)(a := None)" by (auto simp: timers_def)
  ultimately show ?thesis using n a by (auto simp: same_wheel_def)
qed

lemma new_bucket_inv:
  assumes w: "wheel_inv w S D" and a: "w_heap w a = None" and n: "w_steps n \<le> max_steps w"
  shows "wheel_inv (w\<lparr>w_heap := (w_heap w)(a \<mapsto> n)\<rparr>) S (insert a D)" and "a \<notin> D"
proof -
  note inv = wheel_invD [OF w]
  let ?w = "w\<lparr>w_heap := (w_heap w)(a \<mapsto> n)\<rparr>"
  have out: "a \<notin> set (S i)" if "i \<in> slots w" for i
    using slot_ok_nodes [OF inv(2) [OF that], of a] a by auto
  have "slot_ok ?w i (S i)" if "i \<in> slots w" for i
    using out [OF that] by (intro slot_ok_cong [OF inv(2) [OF that]]) auto
  moreover have "placed ?w S (insert a D) b m" if "w_heap ?w b = Some m" for b m
    using inv(4) [of b m] that n by (auto simp: placed_def split: if_splits)
  moreover have "wheel_ok ?w" using inv(1) by (simp add: wheel_ok_def)
  ultimately show "wheel_inv ?w S (insert a D)"
    using inv(3, 5) out unfolding wheel_inv_def by auto
  show "a \<notin> D" using inv(5) [of a] a by auto
qed

section \<open>The specification of the operations\<close>

text \<open>
  The contract, over the countdowns alone. A callback may act on every bucket that is not due
  in the same step (\<open>X\<close>), as those are unlinked from their slot while the step runs.
\<close>

definition spec_action :: "nat \<Rightarrow> w_action \<Rightarrow> (addr \<Rightarrow> timer option) \<Rightarrow> addr \<Rightarrow> timer option" where
  "spec_action m x T =
     (case x of
        W_Submit a f ud s \<Rightarrow> T(a \<mapsto> (f, ud, unat s, unat s mod m))
      | W_Cancel a \<Rightarrow> T(a := None)
      | W_Refresh a \<Rightarrow> T(a := map_option (\<lambda>(f, ud, s, r). (f, ud, s, s mod m)) (T a)))"

definition legal :: "nat \<Rightarrow> addr set \<Rightarrow> w_action \<Rightarrow> (addr \<Rightarrow> timer option) \<Rightarrow> bool" where
  "legal m X x T =
     (case x of
        W_Submit a f ud s \<Rightarrow> T a = None \<and> unat s \<le> m
      | W_Cancel a \<Rightarrow> T a \<noteq> None \<and> a \<notin> X
      | W_Refresh a \<Rightarrow> T a \<noteq> None \<and> a \<notin> X)"

primrec spec_actions :: "nat \<Rightarrow> w_action list \<Rightarrow> (addr \<Rightarrow> timer option) \<Rightarrow> addr \<Rightarrow> timer option" where
  "spec_actions m [] T = T"
| "spec_actions m (x # xs) T = spec_actions m xs (spec_action m x T)"

primrec legal_all :: "nat \<Rightarrow> addr set \<Rightarrow> w_action list \<Rightarrow> (addr \<Rightarrow> timer option) \<Rightarrow> bool" where
  "legal_all m X [] T = True"
| "legal_all m X (x # xs) T \<longleftrightarrow> legal m X x T \<and> legal_all m X xs (spec_action m x T)"

definition winv :: "time_wheel \<Rightarrow> addr set \<Rightarrow> bool" where
  "winv w D \<longleftrightarrow> (\<exists>S. wheel_inv w S D)"

text \<open>What an operation leaves alone: the size and position of the wheel, and the detached buckets.\<close>

definition leaves :: "addr set \<Rightarrow> time_wheel \<Rightarrow> time_wheel \<Rightarrow> bool" where
  "leaves D w w' \<longleftrightarrow> same_wheel w w' \<and> (\<forall>b \<in> D. w_heap w' b = w_heap w b)"

lemma leavesI: "same_wheel w w' \<Longrightarrow> \<forall>b \<in> D. w_heap w' b = w_heap w b \<Longrightarrow> leaves D w w'"
  by (simp add: leaves_def)

lemma leaves_refl [simp]: "leaves D w w"
  by (simp add: leaves_def same_wheel_def)

lemma leaves_trans: "leaves D w w1 \<Longrightarrow> leaves D w1 w2 \<Longrightarrow> leaves D w w2"
  by (simp add: leaves_def same_wheel_def)

lemma leaves_mono: "leaves D w w' \<Longrightarrow> E \<subseteq> D \<Longrightarrow> leaves E w w'"
  by (auto simp: leaves_def)

lemma leaves_steps: "leaves D w w' \<Longrightarrow> max_steps w' = max_steps w"
  "leaves D w w' \<Longrightarrow> wheel_index w' = wheel_index w"
  by (simp_all add: leaves_def same_wheel_def)

lemma timers_some: "timers w a = Some t \<Longrightarrow> \<exists>n. w_heap w a = Some n"
  by (auto simp: timers_def)

lemma timers_none [simp]: "timers w a = None \<longleftrightarrow> w_heap w a = None"
  by (simp add: timers_def)

lemma wheel_inv_slot_of:
  assumes "wheel_inv w S D" "w_heap w a = Some n" "a \<notin> D"
  shows "uint (w_index n) \<in> slots w" "a \<in> set (S (uint (w_index n)))"
  using wheel_invD(4) [OF assms(1, 2)] assms(3) by (simp_all add: placed_def)

lemma unlink_winv:
  assumes "winv w D" and "w_heap w a = Some n" and "a \<notin> D"
  shows "\<exists>w'. unlink a w = Some w' \<and> winv w' (insert a D) \<and> leaves D w w' \<and> timers w' = timers w"
proof -
  obtain S where S: "wheel_inv w S D" using assms(1) unfolding winv_def by blast
  from unlink_inv [OF S wheel_inv_slot_of [OF S assms(2, 3)]] show ?thesis
    unfolding winv_def leaves_def by blast
qed

lemma link_winv:
  assumes "winv w (insert a D)" and "a \<notin> D" and "w_heap w a = Some n" and "i \<in> slots w"
  shows "\<exists>w'. link_head i a w = Some w' \<and> winv w' D \<and> leaves D w w' \<and>
    timers w' = (timers w)(a \<mapsto> (w_callback n, w_userdata n, unat (w_steps n),
      nat ((uint (wheel_index w) - i) mod uint (max_steps w))))"
proof -
  obtain S where S: "wheel_inv w S (insert a D)" using assms(1) unfolding winv_def by blast
  from link_head_inv [OF S assms(4, 2, 3)] show ?thesis unfolding winv_def leaves_def by blast
qed

lemma free_winv:
  assumes "winv w (insert a D)" and "a \<notin> D"
  shows "\<exists>w'. free_bucket a w = Some w' \<and> winv w' D \<and> leaves D w w' \<and> timers w' = (timers w)(a := None)"
proof -
  obtain S where S: "wheel_inv w S (insert a D)" using assms(1) unfolding winv_def by blast
  from free_bucket_inv [OF S assms(2)] show ?thesis unfolding winv_def leaves_def by blast
qed

lemma winv_ok: "winv w D \<Longrightarrow> wheel_ok w"
  unfolding winv_def using wheel_invD(1) by blast

lemma nat_mod_steps: "nat (uint s mod uint m) = unat s mod unat (m :: u32)"
  by (simp only: nat_mod_distrib unat_eq_nat_uint uint_ge_0)

lemma submit_winv:
  assumes w: "winv w D" and a: "w_heap w a = None" and s: "s \<le> max_steps w"
  shows "\<exists>w'. time_wheel_submit w a (Some f) ud s = Some (Some a, w') \<and> winv w' D \<and> leaves D w w' \<and>
    timers w' = (timers w)(a \<mapsto> (f, ud, unat s, unat s mod unat (max_steps w)))"
proof -
  let ?i = "submit_index w s"
  let ?n = "\<lparr>w_callback = f, w_userdata = ud, w_index = of_int ?i, w_steps = s, w_prev = None, w_next = None\<rparr>"
  define w1 where "w1 = w\<lparr>w_heap := (w_heap w)(a \<mapsto> ?n)\<rparr>"
  have ok: "wheel_ok w" by (rule winv_ok [OF w])
  obtain S where S: "wheel_inv w S D" using w unfolding winv_def by blast
  have "w_steps ?n \<le> max_steps w" using s by simp
  note new = new_bucket_inv [OF S a this]
  have w1: "winv w1 (insert a D)" unfolding winv_def w1_def by (rule exI, rule new(1))
  have aD: "a \<notin> D" by (rule new(2))
  have i: "?i = (uint (wheel_index w) - uint s) mod uint (max_steps w)" by (rule submit_index_eq [OF ok s])
  have "?i \<in> slots w1" using slot_mod [OF ok] i by (simp add: w1_def)
  from link_winv [OF w1 aD _ this, of ?n] obtain w' where
    w': "link_head ?i a w1 = Some w'" "winv w' D" "leaves D w1 w'"
      "timers w' = (timers w1)(a \<mapsto> (f, ud, unat s, nat ((uint (wheel_index w1) - ?i) mod uint (max_steps w1))))"
    by (auto simp: w1_def)
  have "wheel_index w < max_steps w" using wheel_okD(3) [OF ok] by (simp add: word_less_def)
  then have "time_wheel_submit w a (Some f) ud s = Some (Some a, w')"
    using w'(1) a unfolding w1_def by (simp add: time_wheel_submit_def)
  moreover have "leaves D w w'"
    using w'(3) aD by (auto simp: leaves_def same_wheel_def w1_def)
  moreover have "timers w' = (timers w)(a \<mapsto> (f, ud, unat s, unat s mod unat (max_steps w)))"
    unfolding w'(4) i by (auto simp: w1_def timers_def countdown_slot nat_mod_steps)
  ultimately show ?thesis using w'(2) by blast
qed

lemma cancel_winv:
  assumes w: "winv w D" and a: "w_heap w a = Some n" "a \<notin> D"
  shows "\<exists>w'. time_wheel_cancel w (Some a) = Some w' \<and> winv w' D \<and> leaves D w w' \<and> timers w' = (timers w)(a := None)"
proof -
  from unlink_winv [OF w a] obtain w1 where
    w1: "unlink a w = Some w1" "winv w1 (insert a D)" "leaves D w w1" "timers w1 = timers w" by blast
  from free_winv [OF w1(2) a(2)] obtain w' where
    w': "free_bucket a w1 = Some w'" "winv w' D" "leaves D w1 w'" "timers w' = (timers w1)(a := None)" by blast
  show ?thesis
    using w' w1 leaves_trans [OF w1(3) w'(3)] by (simp add: time_wheel_cancel_def)
qed

lemma refresh_winv:
  assumes w: "winv w D" and a: "w_heap w a = Some n" "a \<notin> D"
  shows "\<exists>w'. time_wheel_refresh w (Some a) = Some w' \<and> winv w' D \<and> leaves D w w' \<and>
    timers w' = spec_action (unat (max_steps w)) (W_Refresh a) (timers w)"
proof -
  have ok: "wheel_ok w" by (rule winv_ok [OF w])
  obtain S where S: "wheel_inv w S D" using w unfolding winv_def by blast
  have s: "w_steps n \<le> max_steps w" using wheel_invD(4) [OF S a(1)] by (simp add: placed_def)
  have idx: "w_index n < max_steps w" using wheel_inv_slot_of(1) [OF S a] by (simp add: word_less_def)
  from unlink_winv [OF w a] obtain w1 where
    w1: "unlink a w = Some w1" "winv w1 (insert a D)" "leaves D w w1" "timers w1 = timers w" by blast
  then have "timers w1 a = timers w a" by simp
  then obtain n1 where n1: "w_heap w1 a = Some n1" "w_callback n1 = w_callback n" "w_userdata n1 = w_userdata n"
      "w_steps n1 = w_steps n"
    using a(1) by (auto simp: timers_def word_unat_eq_iff)
  let ?i = "wrap_index w1 (sint (wheel_index w1 - w_steps n))"
  have same: "max_steps w1 = max_steps w" "wheel_index w1 = wheel_index w" by (rule leaves_steps [OF w1(3)])+
  have i: "?i = (uint (wheel_index w) - uint (w_steps n)) mod uint (max_steps w)"
    using slot_of_steps [OF winv_ok [OF w1(2)], of "w_steps n"] s same by simp
  have "?i \<in> slots w1" using slot_mod [OF ok] i same by simp
  from link_winv [OF w1(2) a(2) n1(1) this] obtain w' where
    w': "link_head ?i a w1 = Some w'" "winv w' D" "leaves D w1 w'"
      "timers w' = (timers w1)(a \<mapsto> (w_callback n, w_userdata n, unat (w_steps n),
        nat ((uint (wheel_index w) - ?i) mod uint (max_steps w))))"
    using n1 same by auto
  have "time_wheel_refresh w (Some a) = Some w'"
    using w1(1) w'(1) a(1) idx by (simp add: time_wheel_refresh_def)
  moreover have "timers w' = spec_action (unat (max_steps w)) (W_Refresh a) (timers w)"
    unfolding w'(4) i w1(4) using a(1) by (auto simp: spec_action_def timers_def countdown_slot nat_mod_steps)
  ultimately show ?thesis using w'(2) leaves_trans [OF w1(3) w'(3)] by blast
qed

lemma action_winv:
  assumes w: "winv w D" and x: "legal (unat (max_steps w)) X x (timers w)" and D: "D \<subseteq> X"
  shows "\<exists>w'. do_w_action w x = Some w' \<and> winv w' D \<and> leaves D w w' \<and>
    timers w' = spec_action (unat (max_steps w)) x (timers w)"
proof (cases x)
  case (W_Submit a f ud s)
  then have "w_heap w a = None" "s \<le> max_steps w" using x by (simp_all add: legal_def word_le_nat_alt)
  from submit_winv [OF w this, of f ud] show ?thesis by (auto simp: do_w_action_def spec_action_def W_Submit)
next
  case (W_Cancel a)
  then obtain n where "w_heap w a = Some n" "a \<notin> D" using x D by (auto simp: legal_def)
  from cancel_winv [OF w this] show ?thesis by (auto simp: do_w_action_def spec_action_def W_Cancel)
next
  case (W_Refresh a)
  then obtain n where "w_heap w a = Some n" "a \<notin> D" using x D by (auto simp: legal_def)
  from refresh_winv [OF w this] show ?thesis by (simp add: do_w_action_def W_Refresh)
qed

lemma actions_winv:
  assumes "winv w D" and "legal_all (unat (max_steps w)) X xs (timers w)" and "D \<subseteq> X"
  shows "\<exists>w'. do_w_actions xs w = Some w' \<and> winv w' D \<and> leaves D w w' \<and>
    timers w' = spec_actions (unat (max_steps w)) xs (timers w)"
  using assms
proof (induction xs arbitrary: w)
  case (Cons x xs)
  then obtain w1 where w1: "do_w_action w x = Some w1" "winv w1 D" "leaves D w w1"
      "timers w1 = spec_action (unat (max_steps w)) x (timers w)"
    using action_winv by fastforce
  have m: "max_steps w1 = max_steps w" by (rule leaves_steps(1) [OF w1(3)])
  obtain w2 where w2: "do_w_actions xs w1 = Some w2" "winv w2 D" "leaves D w1 w2"
      "timers w2 = spec_actions (unat (max_steps w)) xs (timers w1)"
    using Cons.IH [OF w1(2)] Cons.prems(2, 3) unfolding m w1(4) by auto
  show ?case using w1(1, 4) w2 leaves_trans [OF w1(3) w2(3)] by auto
qed simp

section \<open>The specification of a step\<close>

type_synonym spec_callback = "addr \<Rightarrow> ptr \<Rightarrow> (addr \<Rightarrow> timer option) \<Rightarrow> w_action list \<times> bool"

definition view :: "spec_callback \<Rightarrow> w_callback" where
  "view acb f ud w = acb f ud (timers w)"

text \<open>
  One step passes for every bucket; then those that were due are expired in turn: their
  callback runs, and they are dropped or fire again after their period.
\<close>

definition tick :: "nat \<Rightarrow> (addr \<Rightarrow> timer option) \<Rightarrow> addr \<Rightarrow> timer option" where
  "tick m T a = map_option (\<lambda>(f, ud, s, r). (f, ud, s, (r + m - 1) mod m)) (T a)"

definition spec_expire :: "nat \<Rightarrow> spec_callback \<Rightarrow> addr \<Rightarrow> (addr \<Rightarrow> timer option) \<Rightarrow> addr \<Rightarrow> timer option" where
  "spec_expire m acb a T =
     (case T a of None \<Rightarrow> T
      | Some (f, ud, s, r) \<Rightarrow>
          let (acts, oneshot) = acb f ud T; T = spec_actions m acts T
          in if oneshot then T(a := None) else T(a \<mapsto> (f, ud, s, s - 1)))"

definition expire_legal :: "nat \<Rightarrow> spec_callback \<Rightarrow> addr set \<Rightarrow> addr \<Rightarrow> (addr \<Rightarrow> timer option) \<Rightarrow> bool" where
  "expire_legal m acb X a T =
     (case T a of None \<Rightarrow> False
      | Some (f, ud, s, r) \<Rightarrow>
          let (acts, oneshot) = acb f ud T in legal_all m X acts T \<and> (oneshot \<or> s \<noteq> 0))"

primrec spec_expire_all :: "nat \<Rightarrow> spec_callback \<Rightarrow> addr list \<Rightarrow> (addr \<Rightarrow> timer option) \<Rightarrow> addr \<Rightarrow> timer option" where
  "spec_expire_all m acb [] T = T"
| "spec_expire_all m acb (a # ds) T = spec_expire_all m acb ds (spec_expire m acb a T)"

primrec expire_all_legal :: "nat \<Rightarrow> spec_callback \<Rightarrow> addr set \<Rightarrow> addr list \<Rightarrow> (addr \<Rightarrow> timer option) \<Rightarrow> bool" where
  "expire_all_legal m acb X [] T = True"
| "expire_all_legal m acb X (a # ds) T \<longleftrightarrow>
     expire_legal m acb X a T \<and> expire_all_legal m acb X ds (spec_expire m acb a T)"

lemma loop_slot:
  assumes w: "wheel_ok w" and s: "s \<noteq> 0" "s \<le> max_steps w"
  shows "wrap_index w (sint (wheel_index w - s + 1)) \<in> slots w"
    "nat ((uint (wheel_index w) - wrap_index w (sint (wheel_index w - s + 1))) mod uint (max_steps w)) = unat s - 1"
proof -
  have "uint s \<noteq> 0" using s(1) by (simp add: uint_0_iff)
  with uint_ge_0 [of s] have u0: "0 \<le> uint s - 1" by linarith
  then have "1 \<le> s" by (simp add: word_le_def)
  then have u1: "uint (s - 1) = uint s - 1" using iffD1 [OF uint_minus_simple_alt, of 1 s] by (simp only: uint_1)
  note u = u1 u0
  have le: "s - 1 \<le> max_steps w" using s(2) u(1) by (simp add: word_le_def)
  have i: "wrap_index w (sint (wheel_index w - s + 1)) = (uint (wheel_index w) - (uint s - 1)) mod uint (max_steps w)"
    using slot_of_steps [OF w le] u(1) by (simp add: algebra_simps)
  show "wrap_index w (sint (wheel_index w - s + 1)) \<in> slots w" unfolding i by (rule slot_mod [OF w])
  have "uint s \<le> uint (max_steps w)" using s(2) by (simp add: word_le_def)
  then show "nat ((uint (wheel_index w) - wrap_index w (sint (wheel_index w - s + 1))) mod uint (max_steps w)) = unat s - 1"
    unfolding i countdown_slot using u(2) by (simp add: nat_diff_distrib)
qed

lemma winv_steps: "winv w D \<Longrightarrow> w_heap w a = Some n \<Longrightarrow> w_steps n \<le> max_steps w"
  unfolding winv_def wheel_inv_def placed_def by blast

lemma expire_bucket_winv:
  assumes w: "winv w (insert a D)" and a: "a \<notin> D" and X: "insert a D \<subseteq> X"
    and legal: "expire_legal (unat (max_steps w)) acb X a (timers w)"
  shows "\<exists>w'. expire_bucket (view acb) a w = Some w' \<and> winv w' D \<and> leaves D w w' \<and>
    timers w' = spec_expire (unat (max_steps w)) acb a (timers w)"
proof -
  let ?m = "unat (max_steps w)"
  obtain n where n: "w_heap w a = Some n"
    using legal by (auto simp: expire_legal_def timers_def split: option.splits)
  obtain acts os where cb: "acb (w_callback n) (w_userdata n) (timers w) = (acts, os)" by fastforce
  then have view: "view acb (w_callback n) (w_userdata n) w = (acts, os)" by (simp add: view_def)
  have T: "timers w a = Some (w_callback n, w_userdata n, unat (w_steps n),
      nat ((uint (wheel_index w) - uint (w_index n)) mod uint (max_steps w)))" using n by (simp add: timers_def)
  have acts: "legal_all ?m X acts (timers w)" and os: "os \<or> w_steps n \<noteq> 0"
    using legal by (auto simp: expire_legal_def T cb unat_gt_0)
  from actions_winv [OF w acts X] obtain w1 where
    w1: "do_w_actions acts w = Some w1" "winv w1 (insert a D)" "leaves (insert a D) w w1"
      "timers w1 = spec_actions ?m acts (timers w)" by blast
  have n1: "w_heap w1 a = Some n" using w1(3) n by (simp add: leaves_def)
  have D1: "leaves D w w1" by (rule leaves_mono [OF w1(3)]) blast
  note same = leaves_steps [OF D1]
  show ?thesis
  proof (cases os)
    case True
    from free_winv [OF w1(2) a] obtain w' where
      w': "free_bucket a w1 = Some w'" "winv w' D" "leaves D w1 w'" "timers w' = (timers w1)(a := None)" by blast
    moreover have "expire_bucket (view acb) a w = Some w'"
      unfolding expire_bucket_def using True n view w1(1) w'(1) by simp
    moreover have "timers w' = spec_expire ?m acb a (timers w)"
      using True by (simp add: spec_expire_def T cb w'(4) w1(4))
    ultimately show ?thesis using leaves_trans [OF D1 w'(3)] by blast
  next
    case False
    with os have s: "w_steps n \<noteq> 0" "w_steps n \<le> max_steps w1" using winv_steps [OF w1(2) n1] by simp_all
    note slot = loop_slot [OF winv_ok [OF w1(2)] s]
    from link_winv [OF w1(2) a n1 slot(1)] obtain w' where
      w': "link_head (wrap_index w1 (sint (wheel_index w1 - w_steps n + 1))) a w1 = Some w'" "winv w' D" "leaves D w1 w'"
        "timers w' = (timers w1)(a \<mapsto> (w_callback n, w_userdata n, unat (w_steps n), unat (w_steps n) - 1))"
      unfolding slot(2) by blast
    moreover have "expire_bucket (view acb) a w = Some w'"
      unfolding expire_bucket_def using False n n1 view w1(1) w'(1) by simp
    moreover have "timers w' = spec_expire ?m acb a (timers w)"
      using False by (simp add: spec_expire_def T cb w'(4) w1(4))
    ultimately show ?thesis using leaves_trans [OF D1 w'(3)] by blast
  qed
qed

lemma expire_list_winv:
  assumes "winv w (set ds)" and "distinct ds" and "chain (w_links (w_heap w)) ds" and "set ds \<subseteq> X"
    and "expire_all_legal (unat (max_steps w)) acb X ds (timers w)"
  shows "\<exists>w'. expire_list (view acb) (first_ptr ds None) w = Some (ds, w') \<and> winv w' {} \<and> leaves {} w w' \<and>
    timers w' = spec_expire_all (unat (max_steps w)) acb ds (timers w)"
  using assms
proof (induction ds arbitrary: w)
  case Nil
  then show ?case by (subst expire_list.simps) simp
next
  case (Cons a ds)
  let ?m = "unat (max_steps w)"
  have "winv w (insert a (set ds))" "a \<notin> set ds" "insert a (set ds) \<subseteq> X" "expire_legal ?m acb X a (timers w)"
    using Cons.prems by simp_all
  from expire_bucket_winv [OF this] obtain w1 where
    w1: "expire_bucket (view acb) a w = Some w1" "winv w1 (set ds)" "leaves (set ds) w w1"
      "timers w1 = spec_expire ?m acb a (timers w)" by blast
  obtain n where n: "w_heap w a = Some n" "w_next n = first_ptr ds None"
    using Cons.prems(3) by (auto simp: links_of_def)
  have "chain (w_links (w_heap w1)) ds = chain (w_links (w_heap w)) ds"
    using w1(3) by (intro chain_cong) (simp add: leaves_def links_of_def)
  then have "chain (w_links (w_heap w1)) ds" using Cons.prems(3) by (simp only: chain.simps)
  moreover have m: "max_steps w1 = max_steps w" by (rule leaves_steps(1) [OF w1(3)])
  ultimately obtain w' where w': "expire_list (view acb) (first_ptr ds None) w1 = Some (ds, w')" "winv w' {}" "leaves {} w1 w'"
      "timers w' = spec_expire_all ?m acb ds (timers w1)"
    using Cons.IH [OF w1(2)] Cons.prems(2, 4, 5) w1(4) by auto
  have "expire_list (view acb) (first_ptr (a # ds) None) w = Some (a # ds, w')"
    using n w1(1) w'(1) by (subst expire_list.simps) simp
  then show ?case
    using w'(2, 4) w1(4) leaves_trans [OF leaves_mono [OF w1(3)] w'(3)] by auto
qed

text \<open>The buckets of the current slot, in the order of the list.\<close>

partial_function (option) list_from :: "wheel_bucket heap \<Rightarrow> ptr \<Rightarrow> addr list option" where
  "list_from h p =
     (case p of None \<Rightarrow> Some []
      | Some a \<Rightarrow> do {
          n \<leftarrow> deref h (Some a);
          as \<leftarrow> list_from h (w_next n);
          Some (a # as) })"

definition due :: "time_wheel \<Rightarrow> addr list option" where
  "due w = Option.bind (rd (buckets w) (uint (wheel_index w))) (list_from (w_heap w))"

lemma list_from_chain: "chain (w_links h) as \<Longrightarrow> list_from h (first_ptr as None) = Some as"
proof (induction as)
  case Nil
  then show ?case by (subst list_from.simps) simp
next
  case (Cons a as)
  then obtain n where "h a = Some n" "w_next n = first_ptr as None" by (auto simp: links_of_def)
  then show ?case using Cons by (subst list_from.simps) simp
qed

lemma countdown_zero: "0 \<le> i \<Longrightarrow> i < m \<Longrightarrow> 0 \<le> x \<Longrightarrow> x < m \<Longrightarrow> nat ((x - i) mod m) = 0 \<longleftrightarrow> i = (x :: int)"
proof -
  assume *: "0 \<le> i" "i < m" "0 \<le> x" "x < m"
  then have "0 \<le> (x - i) mod m" by simp
  then have "nat ((x - i) mod m) = 0 \<longleftrightarrow> (x - i) mod m = 0" by linarith
  also have "\<dots> \<longleftrightarrow> x mod m = i mod m" by (simp add: mod_eq_dvd_iff mod_eq_0_iff_dvd)
  also have "\<dots> \<longleftrightarrow> i = x" using * by auto
  finally show ?thesis .
qed

lemma countdown_tick:
  fixes x i m :: int
  assumes "0 < m"
  shows "nat (((x - 1) mod m - i) mod m) = (nat ((x - i) mod m) + nat m - 1) mod nat m"
proof -
  have "((x - 1) mod m - i) mod m = ((x - i) mod m + m - 1) mod m"
  proof -
    have "((x - 1) mod m - i) mod m = (x - 1 - i) mod m" by (rule mod_diff_left_eq)
    also have "\<dots> = (x - 1 - i + m) mod m" by simp
    also have "\<dots> = ((x - i) + (m - 1)) mod m" by (simp add: algebra_simps)
    also have "\<dots> = ((x - i) mod m + (m - 1)) mod m" by (rule mod_add_left_eq [symmetric])
    finally show ?thesis by (simp add: algebra_simps)
  qed
  also have "nat \<dots> = nat ((x - i) mod m + m - 1) mod nat m"
    using assms by (intro nat_mod_distrib) (simp_all add: add_nonneg_pos)
  also have "nat ((x - i) mod m + m - 1) = nat ((x - i) mod m) + nat m - 1"
    using assms pos_mod_sign [of m "x - i"] by linarith
  finally show ?thesis by simp
qed

lemma step_start:
  assumes w: "winv w {}"
  obtains ds bs w1 where "due w = Some ds" "rd (buckets w) (uint (wheel_index w)) = Some (first_ptr ds None)"
    "wr (buckets w) (uint (wheel_index w)) None = Some bs" "w1 = w\<lparr>buckets := bs, wheel_index := of_int (prev_index w)\<rparr>"
    "winv w1 (set ds)" "distinct ds" "chain (w_links (w_heap w1)) ds" "max_steps w1 = max_steps w"
    "timers w1 = tick (unat (max_steps w)) (timers w)"
    "set ds = {a. \<exists>f ud s. timers w a = Some (f, ud, s, 0)}"
proof -
  obtain S where S: "wheel_inv w S {}" using w unfolding winv_def by blast
  note inv = wheel_invD [OF S] and ok = wheel_okD [OF wheel_invD(1) [OF S]]
  let ?x = "uint (wheel_index w)" and ?m = "uint (max_steps w)"
  have x: "?x \<in> slots w" using ok(3) by simp
  define ds where "ds = S ?x"
  have s: "slot_ok w ?x ds" using inv(2) [OF x] by (simp add: ds_def)
  have rd: "rd (buckets w) ?x = Some (first_ptr ds None)" and dist: "distinct ds"
    and lk: "linked (w_links (w_heap w)) None ds None" using s unfolding slot_ok_def by blast+
  define bs where "bs = (buckets w)[nat ?x := None]"
  have wr: "wr (buckets w) ?x None = Some bs" using ok(3, 4) by (simp add: wr_def bs_def)
  define w1 where "w1 = w\<lparr>buckets := bs, wheel_index := of_int (prev_index w)\<rparr>"
  have "nat ?x < length (buckets w)" using ok(3, 4) by (metis nat_less_iff uint_ge_0)
  then have bs_x: "bs ! nat ?x = None" by (simp add: bs_def)
  have px: "uint (of_int (prev_index w) :: u32) = (?x - 1) mod ?m"
    unfolding prev_index_eq [OF inv(1)] using ok(1, 2)
    by (intro uint_of_small) (auto intro: less_trans [OF pos_mod_bound])
  have ok1: "wheel_ok w1" using ok px by (simp add: wheel_ok_def w1_def bs_def)
  have out: "a \<notin> set ds" if "j \<in> slots w" "j \<noteq> ?x" "a \<in> set (S j)" for j a
    using slots_disjoint [OF S x that(1) _ that(3), folded ds_def] that(2) by blast
  have "slot_ok w1 j ((S(?x := [])) j)" if j: "j \<in> slots w" for j
  proof (cases "j = ?x")
    case True
    then show ?thesis using j ok(4) bs_x by (simp add: slot_ok_def w1_def rd_def) (simp add: bs_def)
  next
    case False
    then have "rd (buckets w1) j = rd (buckets w) j"
      using j x eq_nat_nat_iff [of j ?x] by (auto simp: w1_def bs_def rd_def nth_list_update simp del: nat_uint_eq)
    from slot_ok_cong [OF inv(2) [OF j] _ this] False show ?thesis by (simp add: w1_def)
  qed
  moreover have "set ((S(?x := [])) j) \<inter> set ds = {}" if "j \<in> slots w" for j using out [OF that] by auto
  moreover have "placed w1 (S(?x := [])) (set ds) a n" if "w_heap w1 a = Some n" for a n
    using inv(4) [of a n] that by (auto simp: placed_def w1_def ds_def)
  moreover have "w_heap w1 a \<noteq> None" if "a \<in> set ds" for a
    using slot_ok_nodes [OF s that] by (auto simp: w1_def)
  moreover have "slots w1 = slots w" by (simp add: w1_def)
  ultimately have "wheel_inv w1 (S(?x := [])) (set ds)"
    unfolding wheel_inv_def using ok1 by blast
  then have winv: "winv w1 (set ds)" unfolding winv_def by blast
  have chain: "chain (w_links (w_heap w)) ds" by (rule linked_chain [OF lk])
  have due: "due w = Some ds" using list_from_chain [OF chain] by (simp add: due_def rd)
  have tick: "timers w1 = tick (unat (max_steps w)) (timers w)"
    using countdown_tick [OF ok(1)] px by (auto simp: timers_def tick_def w1_def fun_eq_iff option.map_comp comp_def)
  have "a \<in> set ds \<longleftrightarrow> (\<exists>f ud s. timers w a = Some (f, ud, s, 0))" for a
  proof
    assume "a \<in> set ds"
    from slot_ok_nodes [OF s this] show "\<exists>f ud s. timers w a = Some (f, ud, s, 0)" by (auto simp: timers_def)
  next
    assume "\<exists>f ud s. timers w a = Some (f, ud, s, 0)"
    then obtain n where n: "w_heap w a = Some n" "nat ((?x - uint (w_index n)) mod ?m) = 0"
      by (auto simp: timers_def)
    have i: "uint (w_index n) < ?m" "a \<in> set (S (uint (w_index n)))"
      using wheel_inv_slot_of [OF S n(1)] by simp_all
    have "uint (w_index n) = ?x" using n(2) countdown_zero [OF _ i(1) _ ok(3)] by (simp del: nat_uint_eq)
    then show "a \<in> set ds" using i(2) by (simp add: ds_def)
  qed
  then have set: "set ds = {a. \<exists>f ud s. timers w a = Some (f, ud, s, 0)}" by blast
  show ?thesis
    using that [OF due rd wr w1_def winv dist _ _ tick set] chain by (simp add: w1_def)
qed

lemma step_winv:
  assumes w: "winv w {}" and ds: "due w = Some ds"
    and legal: "expire_all_legal (unat (max_steps w)) acb (set ds) ds (tick (unat (max_steps w)) (timers w))"
  shows "\<exists>w'. time_wheel_step (view acb) (Some w) = Some (ds, Some w') \<and> winv w' {} \<and> max_steps w' = max_steps w \<and>
    timers w' = spec_expire_all (unat (max_steps w)) acb ds (tick (unat (max_steps w)) (timers w)) \<and>
    distinct ds \<and> set ds = {a. \<exists>f ud s. timers w a = Some (f, ud, s, 0)}"
proof (rule step_start [OF w])
  fix ds' bs w1
  assume a: "due w = Some ds'" "rd (buckets w) (uint (wheel_index w)) = Some (first_ptr ds' None)"
    "wr (buckets w) (uint (wheel_index w)) None = Some bs" "w1 = w\<lparr>buckets := bs, wheel_index := of_int (prev_index w)\<rparr>"
    "winv w1 (set ds')" "distinct ds'" "chain (w_links (w_heap w1)) ds'" "max_steps w1 = max_steps w"
    "timers w1 = tick (unat (max_steps w)) (timers w)"
    "set ds' = {a. \<exists>f ud s. timers w a = Some (f, ud, s, 0)}"
  have [simp]: "ds' = ds" using a(1) ds by simp
  from expire_list_winv [OF a(5, 6, 7) subset_refl, of acb] obtain w' where
    w': "expire_list (view acb) (first_ptr ds None) w1 = Some (ds, w')" "winv w' {}" "leaves {} w1 w'"
      "timers w' = spec_expire_all (unat (max_steps w)) acb ds (timers w1)"
    using legal a(8, 9) by auto
  have "time_wheel_step (view acb) (Some w) = Some (ds, Some w')"
    using a(2, 3) w'(1) unfolding a(4) by (simp add: time_wheel_step_def)
  then show ?thesis using w' a(6, 8, 9, 10) leaves_steps(1) [OF w'(3)] by simp
qed

section \<open>Wheels whose callbacks do not use the wheel\<close>

definition quiet :: "(addr \<Rightarrow> ptr \<Rightarrow> bool) \<Rightarrow> spec_callback" where
  "quiet oneshot f ud T = ([], oneshot f ud)"

text \<open>A bucket whose callback loops must have a period.\<close>

definition looping_ok :: "(addr \<Rightarrow> ptr \<Rightarrow> bool) \<Rightarrow> (addr \<Rightarrow> timer option) \<Rightarrow> bool" where
  "looping_ok oneshot T \<longleftrightarrow> (\<forall>a f ud s r. T a = Some (f, ud, s, r) \<longrightarrow> oneshot f ud \<or> s \<noteq> 0)"

definition after_fire :: "(addr \<Rightarrow> ptr \<Rightarrow> bool) \<Rightarrow> timer \<Rightarrow> timer option" where
  "after_fire oneshot t = (case t of (f, ud, s, r) \<Rightarrow> if oneshot f ud then None else Some (f, ud, s, s - 1))"

lemma quiet_expire:
  "spec_expire m (quiet os) a T = T(a := Option.bind (T a) (after_fire os))"
  by (auto simp: spec_expire_def quiet_def after_fire_def fun_eq_iff split: option.split prod.split)

lemma after_fire_Some: "Option.bind t (after_fire os) = Some (f, ud, s, r) \<Longrightarrow> \<exists>r'. t = Some (f, ud, s, r')"
  by (auto simp: after_fire_def split: bind_splits if_splits)

lemma looping_fire: "looping_ok os T \<Longrightarrow> looping_ok os (\<lambda>a. if P a then Option.bind (T a) (after_fire os) else T a)"
  unfolding looping_ok_def by (metis after_fire_Some)

lemma quiet_expire_all:
  assumes "distinct ds" and "\<And>a. a \<in> set ds \<Longrightarrow> T a \<noteq> None" and "looping_ok os T"
  shows "spec_expire_all m (quiet os) ds T = (\<lambda>a. if a \<in> set ds then Option.bind (T a) (after_fire os) else T a) \<and>
    expire_all_legal m (quiet os) X ds T"
  using assms
proof (induction ds arbitrary: T)
  case (Cons a ds)
  let ?T = "T(a := Option.bind (T a) (after_fire os))"
  have loop: "looping_ok os ?T" using looping_fire [OF Cons.prems(3), of "(=) a"] by (simp add: fun_upd_def eq_commute [of a] cong: if_cong)
  have live: "?T b \<noteq> None" if "b \<in> set ds" for b using Cons.prems(1, 2) that by auto
  have "distinct ds" using Cons.prems(1) by simp
  from Cons.IH [OF this live loop] have IH: "spec_expire_all m (quiet os) ds ?T =
      (\<lambda>b. if b \<in> set ds then Option.bind (?T b) (after_fire os) else ?T b)" "expire_all_legal m (quiet os) X ds ?T"
    by blast+
  obtain f ud s r where "T a = Some (f, ud, s, r)" using Cons.prems(2) [of a] by auto
  moreover from this have "os f ud \<or> s \<noteq> 0" using Cons.prems(3) unfolding looping_ok_def by blast
  ultimately have "expire_legal m (quiet os) X a T" by (simp add: expire_legal_def quiet_def)
  then show ?case using IH Cons.prems(1) by (auto simp: quiet_expire fun_eq_iff)
qed simp

lemma looping_tick: "looping_ok os T \<Longrightarrow> looping_ok os (tick m T)"
  by (auto simp: looping_ok_def tick_def)

text \<open>\<open>k\<close> steps in a row; the buckets fired in each.\<close>

primrec run :: "w_callback \<Rightarrow> nat \<Rightarrow> time_wheel option \<Rightarrow> (addr list list \<times> time_wheel option) option" where
  "run cb 0 w = Some ([], w)"
| "run cb (Suc k) w = do {
     (f, w) \<leftarrow> time_wheel_step cb w;
     (fs, w) \<leftarrow> run cb k w;
     Some (f # fs, w) }"

lemma timers_bound:
  assumes "wheel_ok w" and "timers w b = Some (f, ud, s, r)"
  shows "r < unat (max_steps w)"
proof -
  obtain x where "r = nat (x mod uint (max_steps w))"
    using assms(2) by (auto simp: timers_def)
  moreover have "nat (x mod uint (max_steps w)) < nat (uint (max_steps w))" for x
    using wheel_okD(1) [OF assms(1)] pos_mod_bound [of "uint (max_steps w)" x] by linarith
  ultimately show ?thesis by (simp only: unat_eq_nat_uint)
qed

lemma quiet_step:
  assumes w: "winv w {}" and os: "looping_ok os (timers w)"
  shows "\<exists>ds w'. time_wheel_step (view (quiet os)) (Some w) = Some (ds, Some w') \<and> winv w' {} \<and> max_steps w' = max_steps w \<and>
    looping_ok os (timers w') \<and> set ds = {a. \<exists>f ud s. timers w a = Some (f, ud, s, 0)} \<and>
    (\<forall>a f ud s r. timers w a = Some (f, ud, s, Suc r) \<longrightarrow> timers w' a = Some (f, ud, s, r))"
proof (rule step_start [OF w])
  fix ds bs w1
  assume a: "due w = Some ds" "distinct ds" "set ds = {a. \<exists>f ud s. timers w a = Some (f, ud, s, 0)}"
  let ?m = "unat (max_steps w)" and ?T = "tick (unat (max_steps w)) (timers w)"
  have live: "?T b \<noteq> None" if "b \<in> set ds" for b using that unfolding a(3) by (auto simp: tick_def simp del: timers_none)
  note q = quiet_expire_all [OF a(2) live looping_tick [OF os, of ?m], of ?m "set ds"]
  from step_winv [OF w a(1), of "quiet os"] q obtain w' where
    w': "time_wheel_step (view (quiet os)) (Some w) = Some (ds, Some w')" "winv w' {}" "max_steps w' = max_steps w"
      "timers w' = spec_expire_all ?m (quiet os) ds ?T" by blast
  then have T': "timers w' = (\<lambda>b. if b \<in> set ds then Option.bind (?T b) (after_fire os) else ?T b)"
    using q by simp
  have "looping_ok os (timers w')"
    unfolding T' by (rule looping_fire [OF looping_tick [OF os]])
  moreover have "timers w' b = Some (f, ud, s, r)" if b: "timers w b = Some (f, ud, s, Suc r)" for b f ud s r
  proof -
    have "b \<notin> set ds" unfolding a(3) using b by auto
    moreover have "Suc r < ?m" by (rule timers_bound [OF winv_ok [OF w] b])
    ultimately show ?thesis using b by (simp add: T' tick_def)
  qed
  ultimately show ?thesis using w'(1-3) a(3) by blast
qed

lemma run_fires:
  assumes "winv w {}" and "looping_ok os (timers w)" and "timers w a = Some (f, ud, s, r)"
  shows "\<exists>fs w'. run (view (quiet os)) (Suc r) (Some w) = Some (fs, Some w') \<and>
    (\<forall>k \<le> r. a \<in> set (fs ! k) \<longleftrightarrow> k = r)"
  using assms
proof (induction r arbitrary: w)
  case 0
  from quiet_step [OF 0(1, 2)] obtain ds w' where
    w': "time_wheel_step (view (quiet os)) (Some w) = Some (ds, Some w')"
      "set ds = {a. \<exists>f ud s. timers w a = Some (f, ud, s, 0)}" by blast
  then show ?case using 0(3) by simp
next
  case (Suc r)
  from quiet_step [OF Suc.prems(1, 2)] obtain ds w1 where
    w1: "time_wheel_step (view (quiet os)) (Some w) = Some (ds, Some w1)" "winv w1 {}" "looping_ok os (timers w1)"
      "set ds = {a. \<exists>f ud s. timers w a = Some (f, ud, s, 0)}" "timers w1 a = Some (f, ud, s, r)"
    using Suc.prems(3) by blast
  from Suc.IH [OF w1(2, 3, 5)] obtain fs w' where
    w': "run (view (quiet os)) (Suc r) (Some w1) = Some (fs, Some w')" "\<forall>k \<le> r. a \<in> set (fs ! k) \<longleftrightarrow> k = r" by blast
  have "run (view (quiet os)) (Suc (Suc r)) (Some w) = Some (ds # fs, Some w')"
    by (subst run.simps(2)) (simp only: w1(1) w'(1) bind.bind_lunit prod.case)
  moreover have "a \<notin> set ds" using w1(4) Suc.prems(3) by simp
  then have "a \<in> set ((ds # fs) ! k) \<longleftrightarrow> k = Suc r" if "k \<le> Suc r" for k
    using w'(2) that by (cases k) auto
  ultimately show ?case by blast
qed

section \<open>Destroying a wheel\<close>

lemma free_slot_chain:
  "chain (w_links h) as \<Longrightarrow> distinct as \<Longrightarrow> free_slot_list (first_ptr as None) h = Some (\<lambda>a. if a \<in> set as then None else h a)"
proof (induction as arbitrary: h)
  case Nil
  then show ?case by (subst free_slot_list.simps) simp
next
  case (Cons a as)
  then obtain n where n: "h a = Some n" "w_next n = first_ptr as None" by (auto simp: links_of_def)
  have "chain (w_links (h(a := None))) as = chain (w_links h) as"
    using Cons.prems(2) by (intro chain_cong) (auto simp: links_of_def)
  then have "chain (w_links (h(a := None))) as" using Cons.prems(1) by (simp only: chain.simps)
  moreover have "distinct as" using Cons.prems(2) by simp
  ultimately have "free_slot_list (first_ptr as None) (h(a := None)) = Some (\<lambda>b. if b \<in> set as then None else (h(a := None)) b)"
    by (rule Cons.IH)
  then show ?case using n by (subst free_slot_list.simps) (auto simp: fun_eq_iff)
qed

lemma free_slots_lists:
  assumes "\<And>i. i < length bs \<Longrightarrow> chain (w_links h) (S i) \<and> distinct (S i) \<and> bs ! i = first_ptr (S i) None"
    and "\<And>i j. i < length bs \<Longrightarrow> j < length bs \<Longrightarrow> i \<noteq> j \<Longrightarrow> set (S i) \<inter> set (S j) = {}"
  shows "free_slots bs h = Some (\<lambda>a. if \<exists>i < length bs. a \<in> set (S i) then None else h a)"
  using assms
proof (induction bs arbitrary: S h)
  case (Cons b bs)
  let ?h = "\<lambda>a. if a \<in> set (S 0) then None else h a"
  have b: "free_slot_list b h = Some ?h" using Cons.prems(1) [of 0] free_slot_chain by auto
  have "chain (w_links ?h) (S (Suc i))" if "i < length bs" for i
  proof -
    have "chain (w_links ?h) (S (Suc i)) = chain (w_links h) (S (Suc i))"
      using Cons.prems(2) [of 0 "Suc i"] that by (intro chain_cong) (auto simp: links_of_def)
    then show ?thesis using Cons.prems(1) [of "Suc i"] that by simp
  qed
  then have "free_slots bs ?h = Some (\<lambda>a. if \<exists>i < length bs. a \<in> set (S (Suc i)) then None else ?h a)"
    using Cons.prems(1) [of "Suc _"] Cons.prems(2) [of "Suc _" "Suc _"] by (intro Cons.IH) auto
  then show ?case using b by (auto simp: fun_eq_iff less_Suc_eq_0_disj)
qed simp

lemma destroy_winv:
  assumes "winv w {}"
  shows "time_wheel_destroy (Some w) = Some Map.empty"
proof -
  obtain S where S: "wheel_inv w S {}" using assms unfolding winv_def by blast
  note inv = wheel_invD [OF S] and ok = wheel_okD [OF wheel_invD(1) [OF S]]
  let ?S = "\<lambda>i. S (int i)"
  have slot: "int i \<in> slots w" if "i < length (buckets w)" for i using that ok(4) by simp
  have "free_slots (buckets w) (w_heap w) =
      Some (\<lambda>a. if \<exists>i < length (buckets w). a \<in> set (?S i) then None else w_heap w a)"
  proof (rule free_slots_lists)
    fix i assume i: "i < length (buckets w)"
    show "chain (w_links (w_heap w)) (?S i) \<and> distinct (?S i) \<and> buckets w ! i = first_ptr (?S i) None"
      using inv(2) [OF slot [OF i]] i linked_chain by (auto simp: slot_ok_def)
  next
    fix i j assume "i < length (buckets w)" "j < length (buckets w)" "i \<noteq> j"
    then show "set (?S i) \<inter> set (?S j) = {}" using slots_disjoint [OF S slot slot] by auto
  qed
  moreover have "\<exists>i < length (buckets w). a \<in> set (?S i)" if "w_heap w a = Some n" for a n
  proof -
    have "uint (w_index n) < int (length (buckets w))" using wheel_inv_slot_of(1) [OF S that] ok(4) by simp
    then have "nat (uint (w_index n)) < length (buckets w)" by (metis nat_less_iff uint_ge_0)
    then show ?thesis using wheel_inv_slot_of(2) [OF S that] by (intro exI [of _ "nat (uint (w_index n))"]) simp
  qed
  then have "(if \<exists>i < length (buckets w). a \<in> set (?S i) then None else w_heap w a) = None" for a
    by (cases "w_heap w a") auto
  ultimately show ?thesis by (simp add: time_wheel_destroy_def)
qed

lemma winv_create:
  assumes "0 < n" and "n < 2 ^ 31"
  shows "winv (time_wheel_create n Map.empty) {}" "timers (time_wheel_create n Map.empty) = Map.empty"
proof -
  have u: "0 < uint n" "uint n < 2 ^ 31" using assms by (simp_all add: word_less_def)
  then have "1 \<le> n" by (simp add: word_le_def)
  then have "uint (n - 1) = uint n - 1" using iffD1 [OF uint_minus_simple_alt, of 1 n] by (simp only: uint_1)
  then have "wheel_inv (time_wheel_create n Map.empty) (\<lambda>i. []) {}"
    using u by (auto simp: wheel_inv_def wheel_ok_def time_wheel_create_def slot_ok_def rd_def unat_eq_nat_uint
        simp del: nat_uint_eq)
  then show "winv (time_wheel_create n Map.empty) {}" unfolding winv_def by blast
  show "timers (time_wheel_create n Map.empty) = Map.empty"
    by (simp add: timers_def time_wheel_create_def fun_eq_iff)
qed

section \<open>Properties\<close>

text \<open>
  C17: A wheel of fewer than \<open>2 ^ 31\<close> slots implements its contract. Every legal sequence of
  submissions (of at most \<open>max_steps\<close> steps), cancellations and refreshes succeeds and keeps
  the slots consistent; a bucket submitted or refreshed for \<open>s\<close> steps counts down from
  \<open>s mod max_steps\<close>; and destroying the wheel then releases each of its buckets once.
\<close>

theorem time_wheel_operations:
  assumes "0 < n" and "n < 2 ^ 31" and "legal_all (unat n) {} xs Map.empty"
  shows "\<exists>w. do_w_actions xs (time_wheel_create n Map.empty) = Some w \<and> winv w {} \<and>
    timers w = spec_actions (unat n) xs Map.empty \<and> time_wheel_destroy (Some w) = Some Map.empty"
proof -
  have "max_steps (time_wheel_create n Map.empty) = n" by (simp add: time_wheel_create_def)
  with actions_winv [OF winv_create(1) [OF assms(1, 2)], of "{}" xs] assms(3) winv_create(2) [OF assms(1, 2)]
  show ?thesis using destroy_winv by auto
qed

theorem time_wheel_operations_witness:
  "\<exists>w. do_w_actions [W_Submit 1 7 None 2, W_Submit 2 7 None 4, W_Refresh 1, W_Cancel 2]
       (time_wheel_create 4 Map.empty) = Some w \<and> timers w 1 = Some (7, None, 2, 2) \<and> timers w 2 = None"
proof -
  have "legal_all (unat (4 :: u32)) {} [W_Submit 1 7 None 2, W_Submit 2 7 None 4, W_Refresh 1, W_Cancel 2] Map.empty"
    by (simp add: legal_def spec_action_def)
  from time_wheel_operations [OF _ _ this] show ?thesis
    by (auto simp: spec_action_def simp del: timers_none do_w_actions.simps)
qed

definition demo_wheel :: time_wheel where
  "demo_wheel = \<lparr>w_heap = [1 \<mapsto> \<lparr>w_callback = 7, w_userdata = None, w_index = 3, w_steps = 2, w_prev = None, w_next = None\<rparr>],
     max_steps = 4, buckets = [None, None, None, Some 1], wheel_index = 3\<rparr>"

lemma demo_wheel_inv: "winv demo_wheel {}" "timers demo_wheel = [1 \<mapsto> (7, None, 2, 0)]"
proof -
  have "wheel_inv demo_wheel (\<lambda>i. if i = 3 then [1] else []) {}"
    by (auto simp: wheel_inv_def demo_wheel_def wheel_ok_def placed_def slot_ok_def rd_def nth_Cons' nat_eq_iff
        links_of_def split: if_splits)
  then show "winv demo_wheel {}" unfolding winv_def by blast
  show "timers demo_wheel = [1 \<mapsto> (7, None, 2, 0)]" by (auto simp: timers_def demo_wheel_def)
qed

text \<open>
  C16: A step fires exactly the buckets whose countdown is 0, once each, in the order of their
  slot, and implements its contract whatever the callbacks submit, cancel and refresh, as long as
  they leave the buckets due in the same step alone and none loops with a period of 0.
\<close>

theorem time_wheel_step_refines:
  assumes "winv w {}"
  shows "\<exists>ds. due w = Some ds \<and> distinct ds \<and> set ds = {a. \<exists>f ud s. timers w a = Some (f, ud, s, 0)} \<and>
    (expire_all_legal (unat (max_steps w)) acb (set ds) ds (tick (unat (max_steps w)) (timers w)) \<longrightarrow>
     (\<exists>w'. time_wheel_step (view acb) (Some w) = Some (ds, Some w') \<and> winv w' {} \<and>
        timers w' = spec_expire_all (unat (max_steps w)) acb ds (tick (unat (max_steps w)) (timers w))))"
proof (rule step_start [OF assms])
  fix ds
  assume "due w = Some ds" "distinct ds" "set ds = {a. \<exists>f ud s. timers w a = Some (f, ud, s, 0)}"
  then show ?thesis using step_winv [OF assms, of ds acb] by blast
qed

theorem time_wheel_step_refines_witness:
  "\<exists>w'. time_wheel_step (view (\<lambda>f ud T. ([W_Submit 2 9 None 1], False))) (Some demo_wheel) = Some ([1], Some w') \<and>
     timers w' 1 = Some (7, None, 2, 1) \<and> timers w' 2 = Some (9, None, 1, 1)"
proof -
  have "due demo_wheel = Some [1]"
    by (simp add: due_def demo_wheel_def rd_def list_from.simps)
  then show ?thesis
    using time_wheel_step_refines [OF demo_wheel_inv(1), of "\<lambda>f ud T. ([W_Submit 2 9 None 1], False)"]
    unfolding demo_wheel_inv(2)
    by (auto simp: expire_legal_def tick_def legal_def spec_expire_def spec_action_def) (auto simp: demo_wheel_def)
qed

text \<open>
  C19: A bucket submitted for \<open>s\<close> steps, where \<open>s\<close> is at most \<open>max_steps\<close>, fires in the step after \<open>s mod max_steps\<close>
  others, and in none before. The header promises the function after \<open>s\<close> steps: it comes one call later, and
  for \<open>s = max_steps\<close> in the next call. The callbacks here do not use the wheel, and none loops with a period of 0.
\<close>

theorem time_wheel_fires:
  assumes "winv w {}" and "w_heap w a = None" and "s \<le> max_steps w"
    and "looping_ok os (timers w)" and "os f ud \<or> s \<noteq> 0"
  shows "\<exists>w1 fs w'. time_wheel_submit w a (Some f) ud s = Some (Some a, w1) \<and>
    run (view (quiet os)) (Suc (unat s mod unat (max_steps w))) (Some w1) = Some (fs, Some w') \<and>
    (\<forall>k \<le> unat s mod unat (max_steps w). a \<in> set (fs ! k) \<longleftrightarrow> k = unat s mod unat (max_steps w))"
proof -
  from submit_winv [OF assms(1-3), of f ud] obtain w1 where
    w1: "time_wheel_submit w a (Some f) ud s = Some (Some a, w1)" "winv w1 {}"
      "timers w1 = (timers w)(a \<mapsto> (f, ud, unat s, unat s mod unat (max_steps w)))" by blast
  have "looping_ok os (timers w1)"
    using assms(4, 5) unfolding w1(3) looping_ok_def by (auto simp: unat_eq_0)
  from run_fires [OF w1(2) this, of a] w1 show ?thesis by auto
qed

theorem time_wheel_fires_witness:
  "\<exists>w1 fs w'. time_wheel_submit demo_wheel 2 (Some 9) None 4 = Some (Some 2, w1) \<and>
     run (view (quiet (\<lambda>f ud. True))) 1 (Some w1) = Some (fs, Some w') \<and> 2 \<in> set (fs ! 0)"
proof -
  have "looping_ok (\<lambda>f ud. True) (timers demo_wheel)" by (simp add: looping_ok_def)
  from time_wheel_fires [OF demo_wheel_inv(1) _ _ this, of 2 4 9 None] show ?thesis
    by (simp add: demo_wheel_def)
qed

text \<open>
  A bucket that loops with a period of 0 and falls due in slot 0 makes the step write
  behind the array of slots.
\<close>

theorem time_wheel_loop_zero:
  assumes "winv w {}" and "wheel_index w = 0" and "due w = Some (a # ds)"
    and "timers w a = Some (f, ud, 0, 0)" and "\<not> os f ud"
  shows "time_wheel_step (view (quiet os)) (Some w) = None"
proof (rule step_start [OF assms(1)])
  fix ds' bs w1
  assume w1: "due w = Some ds'" "rd (buckets w) (uint (wheel_index w)) = Some (first_ptr ds' None)"
    "wr (buckets w) (uint (wheel_index w)) None = Some bs" "w1 = w\<lparr>buckets := bs, wheel_index := of_int (prev_index w)\<rparr>"
  have ok: "wheel_ok w" by (rule winv_ok [OF assms(1)])
  obtain n where n: "w_heap w a = Some n" "w_callback n = f" "w_userdata n = ud" "w_steps n = 0"
    using assms(4) by (auto simp: timers_def unat_eq_0)
  have "prev_index w = uint (max_steps w) - 1"
    using prev_index_eq [OF ok] assms(2) wheel_okD(1) [OF ok] by (simp add: zmod_minus1)
  then have idx: "wheel_index w1 + 1 = max_steps w" by (simp add: w1(4))
  have "sint (max_steps w) = uint (max_steps w)"
    using wheel_okD(1, 2) [OF ok] sint_of_small [of "uint (max_steps w)"] by simp
  then have i: "wrap_index w1 (sint (wheel_index w1 - w_steps n + 1)) = uint (max_steps w)"
    using wheel_okD(1) [OF ok] by (simp add: wrap_index_def n(4) idx)
  have "length bs = length (buckets w)" by (rule wr_length [OF w1(3)])
  then have "rd (buckets w1) (uint (max_steps w)) = None" using wheel_okD(4) [OF ok] by (simp add: rd_def w1(4))
  then have "link_head (wrap_index w1 (sint (wheel_index w1 - w_steps n + 1))) a w1 = None"
    unfolding i by (simp add: link_head_def)
  moreover have "w_heap w1 a = Some n" using n(1) by (simp add: w1(4))
  ultimately have "expire_bucket (view (quiet os)) a w1 = None"
    using assms(5) n by (simp add: expire_bucket_def view_def quiet_def)
  then have "expire_list (view (quiet os)) (Some a) w1 = None"
    by (subst expire_list.simps) (simp split: bind_splits)
  moreover have "ds' = a # ds" using w1(1) assms(3) by simp
  ultimately show ?thesis using w1(2, 3) unfolding w1(4) by (simp add: time_wheel_step_def)
qed

theorem time_wheel_loop_zero_witness:
  "time_wheel_step (view (quiet (\<lambda>f ud. False)))
     (Some \<lparr>w_heap = [1 \<mapsto> \<lparr>w_callback = 7, w_userdata = None, w_index = 0, w_steps = 0, w_prev = None, w_next = None\<rparr>],
       max_steps = 4, buckets = [Some 1, None, None, None], wheel_index = 0\<rparr>) = None" (is "_ (Some ?w) = None")
proof -
  have "wheel_inv ?w (\<lambda>i. if i = 0 then [1] else []) {}"
    by (auto simp: wheel_inv_def wheel_ok_def placed_def slot_ok_def rd_def nth_Cons' nat_eq_iff links_of_def
        split: if_splits)
  then have "winv ?w {}" unfolding winv_def by blast
  moreover have "due ?w = Some [1]" by (simp add: due_def rd_def list_from.simps)
  moreover have "timers ?w 1 = Some (7, None, 0, 0)" by (simp add: timers_def)
  ultimately show ?thesis by (intro time_wheel_loop_zero) simp_all
qed

end
