(* ===== verification/TaskQueue.thy ===== *)
theory TaskQueue
  imports DList
begin

text \<open>
  The queue of tasks that other threads hand to the event loop:
  \<^verbatim>\<open>udpclient/linux/net/async_task_queue.c\<close> and the lock of \<^verbatim>\<open>lock.h\<close>. \<^verbatim>\<open>lock_it\<close> does not lock: it
  destroys the mutex, and \<^verbatim>\<open>unlock_it\<close> then fails; both are taken to have no other effect, as in
  glibc. So the operations are first modelled as one step each, which is what they do when no
  two of them overlap in time; then the section of a submission that the lock should protect is
  modelled instruction by instruction, for two that do overlap. Nodes are allocated: the code
  does not test \<^verbatim>\<open>malloc\<close>, and a failure is not modelled.
\<close>

section \<open>Data\<close>

record async_task =
  t_callback :: addr
  t_userdata :: ptr
  t_next :: ptr

record task_queue =
  q_heap :: "async_task heap"
  async_task :: ptr
  async_task_end :: ptr
  wakeups :: u64

definition upd_t :: "ptr \<Rightarrow> (async_task \<Rightarrow> async_task) \<Rightarrow> task_queue \<Rightarrow> task_queue option" where
  "upd_t p f q = map_option (\<lambda>h. q\<lparr>q_heap := h\<rparr>) (modify (q_heap q) p f)"

section \<open>Operations\<close>

definition async_task_queue_create :: "async_task heap \<Rightarrow> task_queue" where
  "async_task_queue_create h = \<lparr>q_heap = h, async_task = None, async_task_end = None, wakeups = 0\<rparr>"

partial_function (option) free_tasks :: "task_queue \<Rightarrow> task_queue option" where
  "free_tasks q =
     (case async_task q of None \<Rightarrow> Some q
      | Some a \<Rightarrow> do {
          n \<leftarrow> deref (q_heap q) (Some a);
          h \<leftarrow> release (q_heap q) (Some a);
          free_tasks (q\<lparr>async_task := t_next n, q_heap := h\<rparr>) })"

text \<open>What is left of the heap when the queue is destroyed.\<close>

definition async_task_queue_destroy :: "task_queue option \<Rightarrow> async_task heap option" where
  "async_task_queue_destroy qp = (case qp of None \<Rightarrow> Some Map.empty | Some q \<Rightarrow> map_option q_heap (free_tasks q))"

definition link_task :: "addr \<Rightarrow> task_queue \<Rightarrow> task_queue option" where
  "link_task a q =
     (if async_task q = None then Some (q\<lparr>async_task := Some a, async_task_end := Some a\<rparr>)
      else do {
        q \<leftarrow> upd_t (async_task_end q) (\<lambda>n. n\<lparr>t_next := Some a\<rparr>) q;
        Some (q\<lparr>async_task_end := Some a\<rparr>) })"

text \<open>
  \<open>a\<close> is the node allocated; a NULL callback is refused. The counter of the eventfd stops one
  below its maximum (a write that would pass it fails, which is ignored).
\<close>

definition async_task_queue_submit :: "addr \<Rightarrow> task_queue \<Rightarrow> ptr \<Rightarrow> ptr \<Rightarrow> task_queue option" where
  "async_task_queue_submit a q callback ud =
     (case callback of None \<Rightarrow> Some q
      | Some f \<Rightarrow>
          if q_heap q a \<noteq> None then None
          else do {
            q \<leftarrow> link_task a (q\<lparr>q_heap := (q_heap q)(a \<mapsto> \<lparr>t_callback = f, t_userdata = ud, t_next = None\<rparr>)\<rparr>);
            Some (q\<lparr>wakeups := (if wakeups q = 2 ^ 64 - 2 then wakeups q else wakeups q + 1)\<rparr>) })"

text \<open>
  What is submitted in turn while a task runs, by the task or by another thread meanwhile:
  callbacks and arguments. The nodes are chosen by the allocator, in the heap at that time. The
  tasks that run are logged, with what was submitted during each.
\<close>

type_synonym submission = "addr \<times> ptr"

type_synonym allocator = "async_task heap \<Rightarrow> addr"

primrec submit_all :: "allocator \<Rightarrow> submission list \<Rightarrow> task_queue \<Rightarrow> task_queue option" where
  "submit_all alloc [] q = Some q"
| "submit_all alloc (s # ss) q =
     Option.bind (async_task_queue_submit (alloc (q_heap q)) q (Some (fst s)) (snd s)) (submit_all alloc ss)"

type_synonym task_callback = "addr \<Rightarrow> ptr \<Rightarrow> task_queue \<Rightarrow> submission list"

type_synonym task_log = "(submission \<times> submission list) list"

partial_function (option) run_tasks ::
  "allocator \<Rightarrow> task_callback \<Rightarrow> ptr \<Rightarrow> task_queue \<Rightarrow> (task_log \<times> task_queue) option" where
  "run_tasks alloc cb task q =
     (case task of None \<Rightarrow> Some ([], q)
      | Some a \<Rightarrow> do {
          n \<leftarrow> deref (q_heap q) (Some a);
          let subs = cb (t_callback n) (t_userdata n) q;
          q \<leftarrow> submit_all alloc subs q;
          h \<leftarrow> release (q_heap q) (Some a);
          (ran, q) \<leftarrow> run_tasks alloc cb (t_next n) (q\<lparr>q_heap := h\<rparr>);
          Some (((t_callback n, t_userdata n), subs) # ran, q) })"

definition async_task_queue_process :: "allocator \<Rightarrow> task_callback \<Rightarrow> task_queue \<Rightarrow> (task_log \<times> task_queue) option" where
  "async_task_queue_process alloc cb q = run_tasks alloc cb (async_task q) (q\<lparr>async_task := None, async_task_end := None\<rparr>)"

text \<open>The event of the queue: the counter is read, which sets it to 0, and the tasks are run.\<close>

definition async_task_event :: "allocator \<Rightarrow> task_callback \<Rightarrow> task_queue \<Rightarrow> (task_log \<times> task_queue) option" where
  "async_task_event alloc cb q = async_task_queue_process alloc cb (q\<lparr>wakeups := 0\<rparr>)"

section \<open>Two submissions without a lock\<close>

text \<open>
  \<^verbatim>\<open>lock_it\<close> calls \<^verbatim>\<open>pthread_mutex_destroy\<close>, which leaves the instructions of the section to
  interleave: a thread tests the head, and sets the two ends, or links
  its node behind the last one and moves the end.
\<close>

datatype place = Test | Set_Head | Set_End | Link_Next | Set_Last | Done

definition submit_step :: "addr \<Rightarrow> place \<Rightarrow> task_queue \<Rightarrow> (place \<times> task_queue) option" where
  "submit_step a pc q =
     (case pc of
        Test \<Rightarrow> Some (if async_task q = None then Set_Head else Link_Next, q)
      | Set_Head \<Rightarrow> Some (Set_End, q\<lparr>async_task := Some a\<rparr>)
      | Set_End \<Rightarrow> Some (Done, q\<lparr>async_task_end := Some a\<rparr>)
      | Link_Next \<Rightarrow> map_option (Pair Set_Last) (upd_t (async_task_end q) (\<lambda>n. n\<lparr>t_next := Some a\<rparr>) q)
      | Set_Last \<Rightarrow> Some (Done, q\<lparr>async_task_end := Some a\<rparr>)
      | Done \<Rightarrow> Some (Done, q))"

text \<open>A schedule names the thread of each step; \<open>pcs\<close> is where the threads are.\<close>

primrec submit_run :: "nat list \<Rightarrow> addr list \<Rightarrow> place list \<Rightarrow> task_queue \<Rightarrow> (place list \<times> task_queue) option" where
  "submit_run [] as pcs q = Some (pcs, q)"
| "submit_run (t # ts) as pcs q = do {
     (pc, q) \<leftarrow> submit_step (as ! t) (pcs ! t) q;
     submit_run ts as (pcs[t := pc]) q }"

section \<open>The queue as a list\<close>

abbreviation t_links :: "async_task heap \<Rightarrow> links" where
  "t_links \<equiv> links_of (\<lambda>n. None) t_next"

text \<open>The nodes of the queue; \<open>D\<close> are those that were taken off it and still wait to be run.\<close>

definition task_list :: "task_queue \<Rightarrow> addr list \<Rightarrow> addr set \<Rightarrow> bool" where
  "task_list q as D \<longleftrightarrow> chain (t_links (q_heap q)) as \<and> distinct as \<and> async_task q = first_ptr as None \<and>
     (as \<noteq> [] \<longrightarrow> async_task_end q = Some (last as)) \<and> set as \<inter> D = {} \<and> dom (q_heap q) = set as \<union> D"

definition task_of :: "task_queue \<Rightarrow> addr \<Rightarrow> addr \<times> ptr" where
  "task_of q a = (case q_heap q a of None \<Rightarrow> (0, None) | Some n \<Rightarrow> (t_callback n, t_userdata n))"

definition pending :: "task_queue \<Rightarrow> addr list \<Rightarrow> (addr \<times> ptr) list" where
  "pending q as = map (task_of q) as"

lemma upd_t_simps [simp]:
  "q_heap q a = Some n \<Longrightarrow> upd_t (Some a) f q = Some (q\<lparr>q_heap := (q_heap q)(a \<mapsto> f n)\<rparr>)"
  by (simp add: upd_t_def)

lemma chain_last:
  assumes "chain L (as @ [b])" and "distinct (as @ [b])" and "c \<notin> set (as @ [b])"
    and "map_option snd (L' b) = Some (Some c)" and "map_option snd (L' c) = Some None"
    and "\<And>x. x \<in> set as \<Longrightarrow> L' x = L x"
  shows "chain L' (as @ [b, c])"
  using assms by (induction as) auto

lemma submit_law:
  assumes q: "task_list q as D" and a: "q_heap q a = None"
  shows "\<exists>q'. async_task_queue_submit a q (Some f) ud = Some q' \<and> task_list q' (as @ [a]) D \<and>
    (\<forall>b \<in> D. q_heap q' b = q_heap q b) \<and> pending q' (as @ [a]) = pending q as @ [(f, ud)]"
proof -
  let ?n = "\<lparr>t_callback = f, t_userdata = ud, t_next = None\<rparr>"
  have ch: "chain (t_links (q_heap q)) as" "distinct as" "async_task q = first_ptr as None" "set as \<inter> D = {}"
    "dom (q_heap q) = set as \<union> D" and e: "as \<noteq> [] \<Longrightarrow> async_task_end q = Some (last as)"
    using q unfolding task_list_def by blast+
  have out: "a \<notin> set as" "a \<notin> D" using ch(5) a by auto
  show ?thesis
  proof (cases as rule: rev_cases)
    case Nil
    then show ?thesis using ch out a
      by (auto simp: async_task_queue_submit_def link_task_def task_list_def pending_def task_of_def links_of_def)
  next
    case (snoc bs b)
    obtain m where m: "q_heap q b = Some m" using ch(5) snoc by auto
    have ab: "a \<noteq> b" "b \<notin> D" "b \<notin> set bs" using out ch snoc by auto
    obtain y where head: "async_task q = Some y" using ch(3) snoc by (cases bs) simp_all
    define q' where "q' = q\<lparr>q_heap := (q_heap q)(a \<mapsto> ?n, b \<mapsto> m\<lparr>t_next := Some a\<rparr>), async_task_end := Some a,
      wakeups := (if wakeups q = 2 ^ 64 - 2 then wakeups q else wakeups q + 1)\<rparr>"
    have "async_task_queue_submit a q (Some f) ud = Some q'"
      using a head m ab e snoc by (simp add: async_task_queue_submit_def link_task_def q'_def)
    moreover have "chain (t_links (q_heap q')) (bs @ [b, a])"
      using ch(1, 2) out snoc ab m
      by (intro chain_last [of "t_links (q_heap q)"]) (auto simp: q'_def links_of_def)
    then have "task_list q' (as @ [a]) D"
      using ch out ab m snoc by (cases bs) (auto simp: task_list_def q'_def)
    moreover have "\<forall>x \<in> D. q_heap q' x = q_heap q x" using out ab by (auto simp: q'_def)
    moreover have "pending q' (as @ [a]) = pending q as @ [(f, ud)]"
      using out ab m snoc by (auto simp: pending_def task_of_def q'_def)
    ultimately show ?thesis by blast
  qed
qed

text \<open>The allocator returns nodes that are not in use.\<close>

definition fresh_alloc :: "allocator \<Rightarrow> bool" where
  "fresh_alloc alloc \<longleftrightarrow> (\<forall>h. finite (dom h) \<longrightarrow> h (alloc h) = None)"

lemma task_list_finite: "task_list q as D \<Longrightarrow> finite D \<Longrightarrow> finite (dom (q_heap q))"
  by (simp add: task_list_def)

lemma submit_all_law:
  assumes "task_list q as D" and "finite D" and al: "fresh_alloc alloc"
  shows "\<exists>q' bs. submit_all alloc ss q = Some q' \<and> task_list q' (as @ bs) D \<and>
    (\<forall>b \<in> D. q_heap q' b = q_heap q b) \<and> pending q' (as @ bs) = pending q as @ ss"
  using assms(1)
proof (induction ss arbitrary: q as)
  case Nil
  then show ?case by (intro exI [of _ q] exI [of _ "[]"]) simp
next
  case (Cons s ss)
  let ?a = "alloc (q_heap q)"
  have "q_heap q ?a = None"
    using al task_list_finite [OF Cons.prems assms(2)] unfolding fresh_alloc_def by blast
  from submit_law [OF Cons.prems this, of "fst s" "snd s"] obtain q1 where
    q1: "async_task_queue_submit ?a q (Some (fst s)) (snd s) = Some q1" "task_list q1 (as @ [?a]) D"
      "\<forall>b \<in> D. q_heap q1 b = q_heap q b" "pending q1 (as @ [?a]) = pending q as @ [s]" by auto
  from Cons.IH [OF q1(2)] obtain q' bs where
    "submit_all alloc ss q1 = Some q'" "task_list q' ((as @ [?a]) @ bs) D" "\<forall>b \<in> D. q_heap q' b = q_heap q1 b"
      "pending q' ((as @ [?a]) @ bs) = pending q1 (as @ [?a]) @ ss" by blast
  then show ?case using q1 by (intro exI [of _ q'] exI [of _ "?a # bs"]) simp
qed

lemma run_tasks_law:
  assumes "task_list q as (set ds)" and "chain (t_links (q_heap q)) ds" and "distinct ds" and al: "fresh_alloc alloc"
  shows "\<exists>log q' as'. run_tasks alloc cb (first_ptr ds None) q = Some (log, q') \<and> map fst log = pending q ds \<and>
    task_list q' as' {} \<and> pending q' as' = pending q as @ concat (map snd log)"
  using assms(1-3)
proof (induction ds arbitrary: q as)
  case Nil
  then show ?case by (subst run_tasks.simps) (auto simp: pending_def)
next
  case (Cons d ds)
  obtain n where n: "q_heap q d = Some n" "t_next n = first_ptr ds None"
    using Cons.prems(2) by (auto simp: links_of_def)
  let ?ss = "cb (t_callback n) (t_userdata n) q"
  from submit_all_law [OF Cons.prems(1) _ al, of ?ss] obtain q1 bs where
    q1: "submit_all alloc ?ss q = Some q1" "task_list q1 (as @ bs) (set (d # ds))"
      "\<forall>b \<in> set (d # ds). q_heap q1 b = q_heap q b"
      "pending q1 (as @ bs) = pending q as @ ?ss"
    by auto
  let ?q = "q1\<lparr>q_heap := (q_heap q1)(d := None)\<rparr>" and ?as = "as @ bs"
  have d: "d \<notin> set ?as" "d \<notin> set ds" using q1(2) Cons.prems(3) by (auto simp: task_list_def)
  have links: "t_links (q_heap ?q) x = t_links (q_heap q1) x" if "x \<noteq> d" for x using that by (simp add: links_of_def)
  have "chain (t_links (q_heap ?q)) ?as"
    using q1(2) chain_cong [of ?as "t_links (q_heap ?q)" "t_links (q_heap q1)"] links d(1)
    unfolding task_list_def by metis
  then have S: "task_list ?q ?as (set ds)" using q1(2) d by (auto simp: task_list_def)
  have "chain (t_links (q_heap ?q)) ds = chain (t_links (q_heap q)) ds"
    using q1(3) d(2) by (intro chain_cong) (auto simp: links_of_def)
  then have C: "chain (t_links (q_heap ?q)) ds" using Cons.prems(2) by (simp only: chain.simps)
  have p: "pending ?q ?as = pending q1 ?as" using d(1) by (auto simp: pending_def task_of_def)
  have pd: "pending ?q ds = pending q ds" using q1(3) d(2) by (auto simp: pending_def task_of_def)
  have "distinct ds" using Cons.prems(3) by simp
  from Cons.IH [OF S C this] obtain log q' as' where
    q': "run_tasks alloc cb (first_ptr ds None) ?q = Some (log, q')" "map fst log = pending q ds" "task_list q' as' {}"
      "pending q' as' = pending q1 ?as @ concat (map snd log)"
    unfolding p pd by blast
  have "q_heap q1 d = Some n" using q1(3) n by simp
  then have "run_tasks alloc cb (first_ptr (d # ds) None) q = Some (((t_callback n, t_userdata n), ?ss) # log, q')"
    using n q1(1) q'(1) by (subst run_tasks.simps) simp
  moreover have "pending q (d # ds) = (t_callback n, t_userdata n) # pending q ds"
    using n by (simp add: pending_def task_of_def)
  ultimately show ?case using q'(2-4) q1(4) by auto
qed

lemma event_law:
  assumes q: "task_list q as {}" and al: "fresh_alloc alloc"
  shows "\<exists>log q' as'. async_task_event alloc cb q = Some (log, q') \<and> map fst log = pending q as \<and> task_list q' as' {} \<and>
    pending q' as' = concat (map snd log)"
proof -
  let ?q = "q\<lparr>wakeups := 0, async_task := None, async_task_end := None\<rparr>"
  have h: "chain (t_links (q_heap q)) as" "distinct as" "async_task q = first_ptr as None" "dom (q_heap q) = set as"
    using q unfolding task_list_def by simp_all
  have S: "task_list ?q [] (set as)" using h(4) by (simp add: task_list_def)
  have C: "chain (t_links (q_heap ?q)) as" using h(1) by simp
  have "pending ?q as = pending q as" "pending ?q [] = []" by (simp_all add: pending_def task_of_def)
  with run_tasks_law [OF S C h(2) al, of cb] show ?thesis
    using h(3) by (simp add: async_task_event_def async_task_queue_process_def)
qed

lemma free_tasks_chain:
  assumes "task_list q as {}"
  shows "\<exists>q'. free_tasks q = Some q' \<and> q_heap q' = Map.empty"
  using assms
proof (induction as arbitrary: q)
  case Nil
  then show ?case by (subst free_tasks.simps) (auto simp: task_list_def)
next
  case (Cons a as)
  then obtain n where n: "q_heap q a = Some n" "t_next n = first_ptr as None"
    by (auto simp: task_list_def links_of_def)
  let ?q = "q\<lparr>async_task := t_next n, q_heap := (q_heap q)(a := None)\<rparr>"
  have "chain (t_links (q_heap ?q)) as = chain (t_links (q_heap q)) as"
    using Cons.prems by (intro chain_cong) (auto simp: links_of_def task_list_def)
  then have "task_list ?q as {}" using Cons.prems n(2) by (auto simp: task_list_def split: if_splits)
  from Cons.IH [OF this] obtain q' where "free_tasks ?q = Some q'" "q_heap q' = Map.empty" by blast
  moreover have "async_task q = Some a" using Cons.prems by (simp add: task_list_def)
  ultimately show ?case using n(1) by (subst free_tasks.simps) simp
qed

lemma task_list_create: "task_list (async_task_queue_create Map.empty) [] {}"
  by (simp add: task_list_def async_task_queue_create_def)

section \<open>Properties\<close>

text \<open>
  C37: As long as no two operations on the queue overlap in time (the lock does not make it so),
  and while nodes are allocated: submissions succeed; the next event runs exactly the tasks
  submitted before it, once each and in the order of their submission, and releases their nodes;
  what is submitted while they run, whatever it is, is left for the event after, in order; and a
  queue that is destroyed releases the nodes it still has.
\<close>

theorem async_tasks_in_order:
  assumes "task_list q as {}" and "fresh_alloc alloc"
  shows "\<exists>q1 log q2 as2. submit_all alloc ss q = Some q1 \<and> async_task_event alloc cb q1 = Some (log, q2) \<and>
    map fst log = pending q as @ ss \<and> task_list q2 as2 {} \<and> pending q2 as2 = concat (map snd log) \<and>
    async_task_queue_destroy (Some q2) = Some Map.empty"
proof -
  from submit_all_law [OF assms(1) _ assms(2), of ss] obtain q1 bs where
    q1: "submit_all alloc ss q = Some q1" "task_list q1 (as @ bs) {}"
      "pending q1 (as @ bs) = pending q as @ ss" by auto
  from event_law [OF q1(2) assms(2), of cb] obtain log q2 as2 where
    q2: "async_task_event alloc cb q1 = Some (log, q2)" "map fst log = pending q as @ ss" "task_list q2 as2 {}"
      "pending q2 as2 = concat (map snd log)"
    unfolding q1(3) by blast
  from free_tasks_chain [OF q2(3)] have "async_task_queue_destroy (Some q2) = Some Map.empty"
    by (auto simp: async_task_queue_destroy_def)
  then show ?thesis using q1(1) q2 by blast
qed

text \<open>An allocator, and a task that submits another one.\<close>

definition next_node :: allocator where
  "next_node h = Suc (Max (insert 0 (dom h)))"

lemma next_node_fresh: "fresh_alloc next_node"
  unfolding fresh_alloc_def
proof (intro allI impI)
  fix h :: "async_task heap" assume fin: "finite (dom h)"
  have "next_node h \<notin> dom h"
  proof
    assume "next_node h \<in> dom h"
    then have "next_node h \<le> Max (insert 0 (dom h))" using fin by (intro Max_ge) simp_all
    then show False by (simp add: next_node_def)
  qed
  then show "h (next_node h) = None" by (simp add: domIff)
qed

theorem async_tasks_in_order_witness:
  "\<exists>q1 log q2 as2. submit_all next_node [(7, None), (8, Some 3)] (async_task_queue_create Map.empty) = Some q1 \<and>
     async_task_event next_node (\<lambda>f ud q. if f = 7 then [(9, ud)] else []) q1 = Some (log, q2) \<and>
     map fst log = [(7, None), (8, Some 3)] \<and> pending q2 as2 = concat (map snd log)"
proof -
  let ?q = "async_task_queue_create Map.empty" and ?cb = "\<lambda>f ud q. if f = 7 then [(9, ud)] else []"
  have p: "pending ?q [] @ [(7, None), (8, Some 3)] = [(7, None), (8, Some 3)]" by (simp add: pending_def)
  from async_tasks_in_order [OF task_list_create next_node_fresh, of "[(7, None), (8, Some 3)]" ?cb]
  obtain q1 log q2 as2 where w: "submit_all next_node [(7, None), (8, Some 3)] ?q = Some q1"
      "async_task_event next_node ?cb q1 = Some (log, q2)" "map fst log = [(7, None), (8, Some 3)]"
      "pending q2 as2 = concat (map snd log)"
    unfolding p by (elim exE conjE) (rule that)
  show ?thesis by (intro exI conjI) (rule w)+
qed

abbreviation new_node :: "addr \<Rightarrow> async_task" where
  "new_node f \<equiv> \<lparr>t_callback = f, t_userdata = None, t_next = None\<rparr>"

definition two_nodes :: task_queue where
  "two_nodes = \<lparr>q_heap = [1 \<mapsto> new_node 7, 2 \<mapsto> new_node 8], async_task = None, async_task_end = None, wakeups = 0\<rparr>"

text \<open>
  As the lock does not exclude, two submissions to an empty queue can lose a task: both find
  no head, both set it, and the node of the first is never run and never released.
\<close>

theorem async_submit_lost:
  assumes "async_task q = None" and "a \<noteq> b" and "q_heap q a = Some n" and "q_heap q b = Some m" and "t_next m = None"
  shows "\<exists>q1 q2. submit_run [0, 1, 0, 1, 0, 1] [a, b] [Test, Test] q = Some ([Done, Done], q1) \<and>
    async_task_event alloc (\<lambda>f ud q. []) q1 = Some ([((t_callback m, t_userdata m), [])], q2) \<and>
    async_task q2 = None \<and> q_heap q2 a = Some n"
proof -
  let ?q = "q\<lparr>async_task := Some b, async_task_end := Some b\<rparr>"
  have "submit_run [0, 1, 0, 1, 0, 1] [a, b] [Test, Test] q = Some ([Done, Done], ?q)"
    using assms(1) by (simp add: submit_step_def)
  moreover have "run_tasks alloc (\<lambda>f ud q. []) (Some b) (?q\<lparr>wakeups := 0, async_task := None, async_task_end := None\<rparr>) =
      Some ([((t_callback m, t_userdata m), [])], ?q\<lparr>wakeups := 0, async_task := None, async_task_end := None,
        q_heap := (q_heap q)(b := None)\<rparr>)"
    using assms by (simp add: run_tasks.simps)
  ultimately show ?thesis
    using assms by (simp add: async_task_event_def async_task_queue_process_def)
qed

theorem async_submit_lost_witness:
  "\<exists>q1 q2. submit_run [0, 1, 0, 1, 0, 1] [1, 2] [Test, Test] two_nodes = Some ([Done, Done], q1) \<and>
     async_task_event next_node (\<lambda>f ud q. []) q1 = Some ([((8, None), [])], q2)"
proof -
  have "\<exists>q1 q2. submit_run [0, 1, 0, 1, 0, 1] [1, 2] [Test, Test] two_nodes = Some ([Done, Done], q1) \<and>
    async_task_event next_node (\<lambda>f ud q. []) q1 = Some ([((t_callback (new_node 8), t_userdata (new_node 8)), [])], q2) \<and>
    async_task q2 = None \<and> q_heap q2 1 = Some (new_node 7)"
    by (rule async_submit_lost) (simp_all add: two_nodes_def)
  then show ?thesis by (simp only: async_task.select_convs) blast
qed

end
