(* ===== verification/Channel.thy ===== *)
theory Channel
  imports Prelude "HOL-Library.Sublist"
begin

text \<open>
  The channels of the event loop: \<^verbatim>\<open>udpclient/linux/net/channel.c\<close> and the registration and
  dispatch of their events in \<^verbatim>\<open>loop.c\<close>. The system call \<^verbatim>\<open>epoll_ctl\<close> is its documented effect on
  the set of registered descriptors, and may fail besides (\<open>fails\<close>). A channel belongs to the one
  loop or to none. Channels are allocated: the code does not test \<^verbatim>\<open>malloc\<close>, and a failure is not
  modelled.
\<close>

section \<open>Data\<close>

record channel =
  fd :: int
  c_loop :: bool
  on_event :: ptr
  c_userdata :: ptr
  is_active :: bool
  in_callback :: bool
  alive :: bool
  event :: u32
  revent :: u32
  is_monitored :: bool

text \<open>The channels, the descriptors registered (with their events and their channel), and the
  updates that other threads have asked the loop to run.\<close>

record reactor =
  chans :: "channel heap"
  interest :: "int \<Rightarrow> (u32 \<times> addr) option"
  updates :: "addr list"

datatype epoll_op = EPOLL_CTL_ADD | EPOLL_CTL_MOD | EPOLL_CTL_DEL

type_synonym ctl_fails = "epoll_op \<Rightarrow> int \<Rightarrow> bool"

definition epoll_ctl ::
  "ctl_fails \<Rightarrow> epoll_op \<Rightarrow> int \<Rightarrow> u32 \<Rightarrow> addr \<Rightarrow> (int \<Rightarrow> (u32 \<times> addr) option) \<Rightarrow> (int \<Rightarrow> (u32 \<times> addr) option) option" where
  "epoll_ctl fails op f ev c I =
     (if fails op f \<or> ((I f = None) \<longleftrightarrow> op \<noteq> EPOLL_CTL_ADD) then None
      else Some (I(f := if op = EPOLL_CTL_DEL then None else Some (ev, c))))"

definition upd_c :: "addr \<Rightarrow> (channel \<Rightarrow> channel) \<Rightarrow> reactor \<Rightarrow> reactor option" where
  "upd_c c f R = map_option (\<lambda>h. R\<lparr>chans := h\<rparr>) (modify (chans R) (Some c) f)"

definition free_channel :: "addr \<Rightarrow> reactor \<Rightarrow> reactor option" where
  "free_channel c R = map_option (\<lambda>h. R\<lparr>chans := h\<rparr>) (release (chans R) (Some c))"

section \<open>Operations\<close>

text \<open>\<open>a\<close> is the node allocated.\<close>

definition channel_new :: "addr \<Rightarrow> int \<Rightarrow> bool \<Rightarrow> ptr \<Rightarrow> ptr \<Rightarrow> reactor \<Rightarrow> (ptr \<times> reactor) option" where
  "channel_new a f loop callback userdata R =
     (if \<not> loop \<or> f < 0 then Some (None, R)
      else if chans R a \<noteq> None then None
      else Some (Some a, R\<lparr>chans := (chans R)(a \<mapsto>
        \<lparr>fd = f, c_loop = loop, on_event = callback, c_userdata = userdata, is_active = False, in_callback = False,
         alive = True, event = 0, revent = 0, is_monitored = False\<rparr>)\<rparr>))"

definition channel_destroy :: "ptr \<Rightarrow> reactor \<Rightarrow> reactor option" where
  "channel_destroy channel R =
     (case channel of None \<Rightarrow> Some R
      | Some c \<Rightarrow> do {
          n \<leftarrow> deref (chans R) (Some c);
          if in_callback n then upd_c c (\<lambda>n. n\<lparr>alive := False\<rparr>) R
          else if is_active n then upd_c c (\<lambda>n. n\<lparr>alive := False\<rparr>) R
          else free_channel c R })"

definition channel_getevent :: "ptr \<Rightarrow> reactor \<Rightarrow> u32 option" where
  "channel_getevent channel R =
     (case channel of None \<Rightarrow> Some 0 | Some c \<Rightarrow> map_option event (deref (chans R) (Some c)))"

definition channel_getfd :: "ptr \<Rightarrow> reactor \<Rightarrow> int option" where
  "channel_getfd channel R =
     (case channel of None \<Rightarrow> Some (- 1) | Some c \<Rightarrow> map_option fd (deref (chans R) (Some c)))"

definition channel_getloop :: "ptr \<Rightarrow> reactor \<Rightarrow> bool option" where
  "channel_getloop channel R =
     (case channel of None \<Rightarrow> Some False | Some c \<Rightarrow> map_option c_loop (deref (chans R) (Some c)))"

definition channel_monitored :: "ptr \<Rightarrow> reactor \<Rightarrow> bool option" where
  "channel_monitored channel R =
     (case channel of None \<Rightarrow> Some False | Some c \<Rightarrow> map_option is_monitored (deref (chans R) (Some c)))"

definition channel_set_monitored :: "ptr \<Rightarrow> bool \<Rightarrow> reactor \<Rightarrow> reactor option" where
  "channel_set_monitored channel on R =
     (case channel of None \<Rightarrow> Some R | Some c \<Rightarrow> upd_c c (\<lambda>n. n\<lparr>is_monitored := on\<rparr>) R)"

definition channel_setrevent :: "ptr \<Rightarrow> u32 \<Rightarrow> reactor \<Rightarrow> reactor option" where
  "channel_setrevent channel ev R =
     (case channel of None \<Rightarrow> Some R | Some c \<Rightarrow> upd_c c (\<lambda>n. n\<lparr>revent := ev, is_active := True\<rparr>) R)"

text \<open>The loop of the channel is only dereferenced for the call; a failing call is logged.\<close>

definition do_loop_update_channel :: "ctl_fails \<Rightarrow> addr \<Rightarrow> reactor \<Rightarrow> reactor option" where
  "do_loop_update_channel fails c R = do {
     loop \<leftarrow> channel_getloop (Some c) R;
     ev \<leftarrow> channel_getevent (Some c) R;
     f \<leftarrow> channel_getfd (Some c) R;
     (op, R) \<leftarrow>
       (if ev = 0 then do {
          R \<leftarrow> channel_set_monitored (Some c) False R;
          Some (EPOLL_CTL_DEL, R) }
        else do {
          mon \<leftarrow> channel_monitored (Some c) R;
          if mon then Some (EPOLL_CTL_MOD, R)
          else do {
            R \<leftarrow> channel_set_monitored (Some c) True R;
            Some (EPOLL_CTL_ADD, R) } });
     if \<not> loop then None
     else Some (case epoll_ctl fails op f ev c (interest R) of None \<Rightarrow> R | Some I \<Rightarrow> R\<lparr>interest := I\<rparr>) }"

text \<open>
  \<^verbatim>\<open>loop_run_inloop\<close>: at once when the loop does not run yet or the caller is its thread
  (\<open>here\<close>), as a task of the loop otherwise.
\<close>

definition loop_update_channel :: "ctl_fails \<Rightarrow> bool \<Rightarrow> bool \<Rightarrow> ptr \<Rightarrow> reactor \<Rightarrow> (int \<times> reactor) option" where
  "loop_update_channel fails here loop channel R =
     (case channel of None \<Rightarrow> Some (- 1, R)
      | Some c \<Rightarrow>
          if \<not> loop then Some (- 1, R)
          else if here then map_option (Pair 0) (do_loop_update_channel fails c R)
          else Some (0, R\<lparr>updates := updates R @ [c]\<rparr>))"

definition channel_setevent :: "ctl_fails \<Rightarrow> bool \<Rightarrow> ptr \<Rightarrow> u32 \<Rightarrow> reactor \<Rightarrow> (int \<times> reactor) option" where
  "channel_setevent fails here channel ev R =
     (case channel of None \<Rightarrow> Some (- 1, R)
      | Some c \<Rightarrow> do {
          n \<leftarrow> deref (chans R) (Some c);
          if event n AND ev = ev then Some (0, R)
          else if \<not> c_loop n then None
          else do {
            R \<leftarrow> upd_c c (\<lambda>n. n\<lparr>event := event n OR ev\<rparr>) R;
            (r, R) \<leftarrow> loop_update_channel fails here (c_loop n) channel R;
            Some (if r \<noteq> 0 then - 1 else 0, R) } })"

definition channel_clearevent :: "ctl_fails \<Rightarrow> bool \<Rightarrow> ptr \<Rightarrow> u32 \<Rightarrow> reactor \<Rightarrow> (int \<times> reactor) option" where
  "channel_clearevent fails here channel ev R =
     (case channel of None \<Rightarrow> Some (- 1, R)
      | Some c \<Rightarrow> do {
          n \<leftarrow> deref (chans R) (Some c);
          if ev AND event n = 0 then Some (0, R)
          else if \<not> c_loop n then None
          else do {
            R \<leftarrow> upd_c c (\<lambda>n. n\<lparr>event := event n AND NOT ev\<rparr>) R;
            (r, R) \<leftarrow> loop_update_channel fails here (c_loop n) channel R;
            Some (if r \<noteq> 0 then - 1 else 0, R) } })"

definition channel_detach :: "ctl_fails \<Rightarrow> bool \<Rightarrow> ptr \<Rightarrow> reactor \<Rightarrow> reactor option" where
  "channel_detach fails here channel R =
     (case channel of None \<Rightarrow> Some R
      | Some c \<Rightarrow> do {
          n \<leftarrow> deref (chans R) (Some c);
          if event n = 0 then Some R
          else do {
            R \<leftarrow> upd_c c (\<lambda>n. n\<lparr>event := 0\<rparr>) R;
            (_, R) \<leftarrow> loop_update_channel fails here (c_loop n) channel R;
            upd_c c (\<lambda>m. m\<lparr>event := event n, c_loop := False\<rparr>) R } })"

definition channel_attach :: "ctl_fails \<Rightarrow> bool \<Rightarrow> ptr \<Rightarrow> bool \<Rightarrow> reactor \<Rightarrow> reactor option" where
  "channel_attach fails here channel loop R =
     (case channel of None \<Rightarrow> Some R
      | Some c \<Rightarrow>
          if \<not> loop then Some R
          else do {
            R \<leftarrow> upd_c c (\<lambda>n. n\<lparr>c_loop := loop\<rparr>) R;
            (_, R) \<leftarrow> loop_update_channel fails here loop channel R;
            Some R })"

text \<open>The loop runs the updates asked for by other threads.\<close>

primrec run_updates :: "ctl_fails \<Rightarrow> addr list \<Rightarrow> reactor \<Rightarrow> reactor option" where
  "run_updates fails [] R = Some R"
| "run_updates fails (c # cs) R = Option.bind (do_loop_update_channel fails c R) (run_updates fails cs)"

lemma run_updates_Nil [simp]: "Option.bind x (run_updates fails []) = x"
  by (cases x) simp_all

definition process_updates :: "ctl_fails \<Rightarrow> reactor \<Rightarrow> reactor option" where
  "process_updates fails R = run_updates fails (updates R) (R\<lparr>updates := []\<rparr>)"

section \<open>Dispatch\<close>

text \<open>What a callback asks for, in the loop's thread.\<close>

datatype c_action =
    C_New addr int addr ptr
  | C_Set addr u32
  | C_Clear addr u32
  | C_Detach addr
  | C_Attach addr
  | C_Destroy addr

definition do_c_action :: "ctl_fails \<Rightarrow> c_action \<Rightarrow> reactor \<Rightarrow> reactor option" where
  "do_c_action fails x R =
     (case x of
        C_New a f cb ud \<Rightarrow> map_option snd (channel_new a f True (Some cb) ud R)
      | C_Set c ev \<Rightarrow> map_option snd (channel_setevent fails True (Some c) ev R)
      | C_Clear c ev \<Rightarrow> map_option snd (channel_clearevent fails True (Some c) ev R)
      | C_Detach c \<Rightarrow> channel_detach fails True (Some c) R
      | C_Attach c \<Rightarrow> channel_attach fails True (Some c) True R
      | C_Destroy c \<Rightarrow> channel_destroy (Some c) R)"

primrec do_c_actions :: "ctl_fails \<Rightarrow> c_action list \<Rightarrow> reactor \<Rightarrow> reactor option" where
  "do_c_actions fails [] R = Some R"
| "do_c_actions fails (x # xs) R = Option.bind (do_c_action fails x R) (do_c_actions fails xs)"

type_synonym on_event_f = "addr \<Rightarrow> int \<Rightarrow> u32 \<Rightarrow> ptr \<Rightarrow> reactor \<Rightarrow> c_action list"

text \<open>The channel whose callback ran, if it did, with what the callback asked for.\<close>

type_synonym channel_log = "(addr \<times> c_action list) list"

definition channel_onevent :: "ctl_fails \<Rightarrow> on_event_f \<Rightarrow> ptr \<Rightarrow> reactor \<Rightarrow> (channel_log \<times> reactor) option" where
  "channel_onevent fails cb channel R =
     (case channel of None \<Rightarrow> Some ([], R)
      | Some c \<Rightarrow> do {
          n \<leftarrow> deref (chans R) (Some c);
          if \<not> alive n then do {
            R \<leftarrow> upd_c c (\<lambda>n. n\<lparr>is_active := False\<rparr>) R;
            R \<leftarrow> channel_destroy channel R;
            Some ([], R) }
          else do {
            f \<leftarrow> on_event n;
            R \<leftarrow> upd_c c (\<lambda>n. n\<lparr>in_callback := True\<rparr>) R;
            let acts = cb f (fd n) (revent n) (c_userdata n) R;
            R \<leftarrow> do_c_actions fails acts R;
            R \<leftarrow> upd_c c (\<lambda>n. n\<lparr>in_callback := False, revent := 0, is_active := False\<rparr>) R;
            n \<leftarrow> deref (chans R) (Some c);
            R \<leftarrow> (if \<not> alive n then channel_destroy channel R else Some R);
            Some ([(c, acts)], R) } })"

text \<open>The two passes of the loop over the events that \<^verbatim>\<open>epoll_wait\<close> reports.\<close>

primrec set_revents :: "(addr \<times> u32) list \<Rightarrow> reactor \<Rightarrow> reactor option" where
  "set_revents [] R = Some R"
| "set_revents (e # es) R = Option.bind (channel_setrevent (Some (fst e)) (snd e) R) (set_revents es)"

primrec fire_events :: "ctl_fails \<Rightarrow> on_event_f \<Rightarrow> addr list \<Rightarrow> reactor \<Rightarrow> (channel_log \<times> reactor) option" where
  "fire_events fails cb [] R = Some ([], R)"
| "fire_events fails cb (c # cs) R = do {
     (fired, R) \<leftarrow> channel_onevent fails cb (Some c) R;
     (rest, R) \<leftarrow> fire_events fails cb cs R;
     Some (fired @ rest, R) }"

definition dispatch :: "ctl_fails \<Rightarrow> on_event_f \<Rightarrow> (addr \<times> u32) list \<Rightarrow> reactor \<Rightarrow> (channel_log \<times> reactor) option" where
  "dispatch fails cb es R = Option.bind (set_revents es R) (fire_events fails cb (map fst es))"

section \<open>The invariant\<close>

text \<open>
  A monitored channel is registered with its events, and an attached channel that has events is
  monitored. While events are dispatched, \<open>A\<close> are the channels still to be served and \<open>B\<close> the one
  whose callback runs; a destroyed channel lives on only in \<open>A\<close>.
\<close>

definition chan_ok :: "(int \<Rightarrow> (u32 \<times> addr) option) \<Rightarrow> addr \<Rightarrow> channel \<Rightarrow> bool" where
  "chan_ok I c n \<longleftrightarrow>
     (is_monitored n \<longrightarrow> I (fd n) = Some (event n, c) \<and> event n \<noteq> 0 \<and> c_loop n \<and> alive n) \<and>
     (alive n \<and> c_loop n \<and> event n \<noteq> 0 \<longrightarrow> is_monitored n)"

definition react_ok :: "reactor \<Rightarrow> bool" where
  "react_ok R \<longleftrightarrow> (\<forall>c n. chans R c = Some n \<longrightarrow> chan_ok (interest R) c n) \<and>
     (\<forall>f ev c. interest R f = Some (ev, c) \<longrightarrow> (\<exists>n. chans R c = Some n \<and> is_monitored n \<and> fd n = f))"

definition flags_in :: "addr set \<Rightarrow> addr set \<Rightarrow> addr \<Rightarrow> channel \<Rightarrow> bool" where
  "flags_in A B c n \<longleftrightarrow> (is_active n \<longleftrightarrow> c \<in> A) \<and> (in_callback n \<longleftrightarrow> c \<in> B) \<and> (alive n \<or> c \<in> A) \<and> on_event n \<noteq> None"

definition serving :: "reactor \<Rightarrow> addr set \<Rightarrow> addr set \<Rightarrow> bool" where
  "serving R A B \<longleftrightarrow> react_ok R \<and> (\<forall>c n. chans R c = Some n \<longrightarrow> flags_in A B c n) \<and>
     (\<forall>c \<in> A. chans R c \<noteq> None) \<and> B \<subseteq> A"

abbreviation idle :: "reactor \<Rightarrow> bool" where
  "idle R \<equiv> serving R {} {}"

lemma upd_c_simps [simp]:
  "chans R c = Some n \<Longrightarrow> upd_c c f R = Some (R\<lparr>chans := (chans R)(c \<mapsto> f n)\<rparr>)"
  "chans R c = Some n \<Longrightarrow> free_channel c R = Some (R\<lparr>chans := (chans R)(c := None)\<rparr>)"
  by (simp_all add: upd_c_def free_channel_def)

lemma react_okD:
  assumes "react_ok R"
  shows "\<And>c n. chans R c = Some n \<Longrightarrow> chan_ok (interest R) c n"
    "\<And>f ev c. interest R f = Some (ev, c) \<Longrightarrow> \<exists>n. chans R c = Some n \<and> is_monitored n \<and> fd n = f"
  using assms unfolding react_ok_def by blast+

lemma chan_ok_flags [simp]:
  "chan_ok I c (n\<lparr>is_active := x\<rparr>) = chan_ok I c n" "chan_ok I c (n\<lparr>in_callback := x\<rparr>) = chan_ok I c n"
  "chan_ok I c (n\<lparr>revent := r\<rparr>) = chan_ok I c n"
  unfolding chan_ok_def by simp_all

lemma monitoredD: "chan_ok I c n \<Longrightarrow> is_monitored n \<Longrightarrow> I (fd n) = Some (event n, c) \<and> event n \<noteq> 0 \<and> c_loop n \<and> alive n"
  unfolding chan_ok_def by blast

text \<open>A change of one channel: without a change of its registration, and with one.\<close>

lemma react_ok_same:
  assumes R: "react_ok R" and n: "chans R c = Some n"
    and n': "is_monitored n' = is_monitored n" "fd n' = fd n" "chan_ok (interest R) c n'"
  shows "react_ok (R\<lparr>chans := (chans R)(c \<mapsto> n')\<rparr>)"
proof -
  have "\<exists>m. ((chans R)(c \<mapsto> n')) d = Some m \<and> is_monitored m \<and> fd m = f" if d: "interest R f = Some (ev, d)" for f ev d
    using react_okD(2) [OF R d] n n'(1, 2) by (cases "d = c") auto
  moreover have "chan_ok (interest R) d m" if "((chans R)(c \<mapsto> n')) d = Some m" for d m
    using that n'(3) react_okD(1) [OF R] by (cases "d = c") auto
  ultimately show ?thesis unfolding react_ok_def by simp
qed

lemma react_ok_register:
  assumes R: "react_ok R" and n: "chans R c = Some n" and own: "is_monitored n \<or> interest R (fd n) = None"
    and n': "fd n' = fd n" "chan_ok I c n'"
    and I: "I = (interest R)(fd n := if is_monitored n' then Some (event n', c) else None)"
  shows "react_ok (R\<lparr>chans := (chans R)(c \<mapsto> n'), interest := I\<rparr>)"
proof -
  have c: "interest R (fd n) = None \<or> (\<exists>ev. interest R (fd n) = Some (ev, c))"
    using own monitoredD [OF react_okD(1) [OF R n]] by blast
  have "\<exists>m. ((chans R)(c \<mapsto> n')) d = Some m \<and> is_monitored m \<and> fd m = f" if d: "I f = Some (ev, d)" for f ev d
  proof (cases "f = fd n")
    case True
    then show ?thesis using d n'(1) unfolding I by (auto split: if_splits)
  next
    case False
    then have "interest R f = Some (ev, d)" using d by (simp add: I)
    from react_okD(2) [OF R this] False n show ?thesis by (cases "d = c") auto
  qed
  moreover have "chan_ok I d m" if "((chans R)(c \<mapsto> n')) d = Some m" for d m
  proof (cases "d = c")
    case False
    then have d: "chan_ok (interest R) d m" using that react_okD(1) [OF R] by simp
    have "fd m \<noteq> fd n" if "is_monitored m"
    proof
      assume "fd m = fd n"
      then have "interest R (fd n) = Some (event m, d)" using monitoredD [OF d that] by simp
      then show False using c False by auto
    qed
    then show ?thesis using d unfolding chan_ok_def I by (metis fun_upd_other)
  qed (use that n'(2) in simp)
  ultimately show ?thesis unfolding react_ok_def by simp
qed

lemma react_ok_free:
  assumes R: "react_ok R" and n: "chans R c = Some n" "\<not> is_monitored n"
  shows "react_ok (R\<lparr>chans := (chans R)(c := None)\<rparr>)"
proof -
  have "\<exists>m. ((chans R)(c := None)) d = Some m \<and> is_monitored m \<and> fd m = f" if d: "interest R f = Some (ev, d)" for f ev d
    using react_okD(2) [OF R d] n by (cases "d = c") auto
  moreover have "chan_ok (interest R) d m" if "((chans R)(c := None)) d = Some m" for d m
    using that react_okD(1) [OF R] by (cases "d = c") auto
  ultimately show ?thesis unfolding react_ok_def by simp
qed

lemma servingD:
  assumes "serving R A B"
  shows "react_ok R" "\<And>c n. chans R c = Some n \<Longrightarrow> flags_in A B c n" "\<And>c. c \<in> A \<Longrightarrow> \<exists>n. chans R c = Some n" "B \<subseteq> A"
  using assms unfolding serving_def by blast+

lemma serving_upd:
  assumes R: "serving R A B" and ok: "react_ok (R\<lparr>chans := (chans R)(c \<mapsto> n), interest := I\<rparr>)" and n: "flags_in A' B' c n"
    and A: "\<And>d. d \<noteq> c \<Longrightarrow> d \<in> A' \<longleftrightarrow> d \<in> A" "\<And>d. d \<noteq> c \<Longrightarrow> d \<in> B' \<longleftrightarrow> d \<in> B" and c: "c \<in> B' \<Longrightarrow> c \<in> A'"
  shows "serving (R\<lparr>chans := (chans R)(c \<mapsto> n), interest := I\<rparr>) A' B'"
proof -
  have "flags_in A' B' d m" if "((chans R)(c \<mapsto> n)) d = Some m" for d m
  proof (cases "d = c")
    case False
    then show ?thesis using that servingD(2) [OF R, of d m] A [OF False] by (simp add: flags_in_def)
  qed (use that n in simp)
  moreover have "((chans R)(c \<mapsto> n)) d \<noteq> None" if "d \<in> A'" for d
    using that A(1) [of d] servingD(3) [OF R, of d] by (cases "d = c") auto
  moreover have "d \<in> A'" if "d \<in> B'" for d
    using that A [of d] c servingD(4) [OF R] by (cases "d = c") auto
  then have "B' \<subseteq> A'" by blast
  ultimately show ?thesis unfolding serving_def using ok by simp
qed

lemma serving_upd_chan:
  assumes "serving R A B" and "react_ok (R\<lparr>chans := (chans R)(c \<mapsto> n)\<rparr>)" and "flags_in A' B' c n"
    and "\<And>d. d \<noteq> c \<Longrightarrow> d \<in> A' \<longleftrightarrow> d \<in> A" and "\<And>d. d \<noteq> c \<Longrightarrow> d \<in> B' \<longleftrightarrow> d \<in> B" and "c \<in> B' \<Longrightarrow> c \<in> A'"
  shows "serving (R\<lparr>chans := (chans R)(c \<mapsto> n)\<rparr>) A' B'"
  using serving_upd [OF assms(1) _ assms(3-6), where I = "interest R"] assms(2) by simp

lemma serving_free:
  assumes R: "serving R A B" and n: "chans R c = Some n" "\<not> is_monitored n" and c: "c \<notin> A"
  shows "serving (R\<lparr>chans := (chans R)(c := None)\<rparr>) A B"
proof -
  have "flags_in A B d m" if "((chans R)(c := None)) d = Some m" for d m
    using that servingD(2) [OF R, of d m] by (cases "d = c") auto
  moreover have "((chans R)(c := None)) d \<noteq> None" if "d \<in> A" for d
    using that servingD(3) [OF R, of d] c by auto
  ultimately show ?thesis
    unfolding serving_def using react_ok_free [OF servingD(1) [OF R] n] servingD(4) [OF R] by simp
qed

section \<open>What callbacks may do\<close>

definition no_fail :: ctl_fails where
  "no_fail op f = False"

text \<open>
  A channel in use is alive, and its descriptor is registered by no other channel; before it is
  destroyed it is detached.
\<close>

definition usable :: "reactor \<Rightarrow> addr \<Rightarrow> bool \<Rightarrow> bool" where
  "usable R c attached \<longleftrightarrow>
     (case chans R c of None \<Rightarrow> False
      | Some n \<Rightarrow> alive n \<and> (attached \<longrightarrow> c_loop n) \<and> (is_monitored n \<or> interest R (fd n) = None))"

definition c_legal :: "reactor \<Rightarrow> c_action \<Rightarrow> bool" where
  "c_legal R x =
     (case x of
        C_New a f cb ud \<Rightarrow> chans R a = None
      | C_Set c ev \<Rightarrow> usable R c True
      | C_Clear c ev \<Rightarrow> usable R c True
      | C_Detach c \<Rightarrow> usable R c True
      | C_Attach c \<Rightarrow> usable R c False
      | C_Destroy c \<Rightarrow> (case chans R c of None \<Rightarrow> False | Some n \<Rightarrow> alive n \<and> \<not> is_monitored n))"

primrec c_legal_all :: "reactor \<Rightarrow> c_action list \<Rightarrow> bool" where
  "c_legal_all R [] = True"
| "c_legal_all R (x # xs) \<longleftrightarrow> c_legal R x \<and> (case do_c_action no_fail x R of None \<Rightarrow> True | Some R' \<Rightarrow> c_legal_all R' xs)"

definition well_behaved :: "on_event_f \<Rightarrow> bool" where
  "well_behaved cb \<longleftrightarrow> (\<forall>f d ev ud R. c_legal_all R (cb f d ev ud R))"

definition survives :: "addr \<Rightarrow> reactor \<Rightarrow> reactor \<Rightarrow> bool" where
  "survives c R R' \<longleftrightarrow> (\<forall>n. chans R c = Some n \<and> alive n \<longrightarrow> (\<exists>n'. chans R' c = Some n' \<and> alive n'))"

lemma survives_trans: "survives c R R1 \<Longrightarrow> survives c R1 R2 \<Longrightarrow> survives c R R2"
  unfolding survives_def by blast

lemma survives_upd [simp]: "alive n' \<Longrightarrow> survives c R (R\<lparr>chans := (chans R)(d \<mapsto> n'), interest := I\<rparr>)"
  unfolding survives_def by simp

lemma update_eq:
  assumes n: "chans R c = Some n" "c_loop n" and own: "is_monitored n \<longleftrightarrow> interest R (fd n) \<noteq> None"
  shows "do_loop_update_channel no_fail c R =
    Some (R\<lparr>chans := (chans R)(c \<mapsto> n\<lparr>is_monitored := (event n \<noteq> 0)\<rparr>),
      interest := (interest R)(fd n := if event n \<noteq> 0 then Some (event n, c) else None)\<rparr>)"
proof -
  have upd: "(interest R)(fd n := None) = interest R" if "interest R (fd n) = None" using that by auto
  have mon: "(chans R)(c \<mapsto> n\<lparr>is_monitored := True\<rparr>) = chans R" if "is_monitored n"
    using that n(1) by (cases n) auto
  show ?thesis
    using n own upd mon
    by (cases "event n = 0"; cases "is_monitored n")
      (auto simp: do_loop_update_channel_def channel_getloop_def channel_getevent_def channel_getfd_def
        channel_set_monitored_def channel_monitored_def epoll_ctl_def no_fail_def)
qed

text \<open>The state behind an update that gives the channel \<open>c\<close> the events \<open>e\<close> and attaches it.\<close>

definition registered :: "addr \<Rightarrow> channel \<Rightarrow> u32 \<Rightarrow> reactor \<Rightarrow> reactor" where
  "registered c n e R = R\<lparr>chans := (chans R)(c \<mapsto> n\<lparr>c_loop := True, event := e, is_monitored := (e \<noteq> 0)\<rparr>),
     interest := (interest R)(fd n := if e \<noteq> 0 then Some (e, c) else None)\<rparr>"

lemma registered_sel [simp]:
  "chans (registered c n e R) c = Some (n\<lparr>c_loop := True, event := e, is_monitored := (e \<noteq> 0)\<rparr>)"
  by (simp add: registered_def)

lemma update_registered:
  assumes R: "serving R A B" and n: "chans R c = Some n" and own: "is_monitored n \<or> interest R (fd n) = None"
  shows "do_loop_update_channel no_fail c (R\<lparr>chans := (chans R)(c \<mapsto> n\<lparr>c_loop := True, event := e\<rparr>)\<rparr>) =
      Some (registered c n e R)"
proof -
  have "is_monitored n \<longleftrightarrow> interest R (fd n) \<noteq> None"
    using own monitoredD [OF react_okD(1) [OF servingD(1) [OF R] n]] by auto
  then show ?thesis
    using update_eq [where R = "R\<lparr>chans := (chans R)(c \<mapsto> n\<lparr>c_loop := True, event := e\<rparr>)\<rparr>"
        and n = "n\<lparr>c_loop := True, event := e\<rparr>" and c = c]
    by (simp add: registered_def)
qed

lemma registered_serving:
  assumes R: "serving R A B" and n: "chans R c = Some n" "alive n" and own: "is_monitored n \<or> interest R (fd n) = None"
  shows "serving (registered c n e R) A B" and "survives d R (registered c n e R)"
proof -
  let ?n = "n\<lparr>c_loop := True, event := e, is_monitored := (e \<noteq> 0)\<rparr>"
  let ?I = "(interest R)(fd n := if e \<noteq> 0 then Some (e, c) else None)"
  have "chan_ok ?I c ?n" using n(2) by (simp add: chan_ok_def)
  then have ok: "react_ok (R\<lparr>chans := (chans R)(c \<mapsto> ?n), interest := ?I\<rparr>)"
    by (intro react_ok_register [OF servingD(1) [OF R] n(1) own]) simp_all
  have "flags_in A B c ?n" using servingD(2) [OF R n(1)] by (simp add: flags_in_def)
  then show "serving (registered c n e R) A B"
    unfolding registered_def using servingD(4) [OF R] by (intro serving_upd [OF R ok]) auto
  show "survives d R (registered c n e R)" unfolding registered_def using n(2) by (intro survives_upd) simp
qed

lemma registered_usable: "alive n \<Longrightarrow> usable (registered c n e R) c True"
  by (simp add: usable_def registered_def)

text \<open>A change of one channel that leaves its registration alone.\<close>

lemma unregistered_serving:
  assumes R: "serving R A B" and n: "chans R c = Some n"
    and n': "is_monitored n' = is_monitored n" "fd n' = fd n" "chan_ok (interest R) c n'" "flags_in A' B' c n'"
    and A: "\<And>d. d \<noteq> c \<Longrightarrow> d \<in> A' \<longleftrightarrow> d \<in> A" "\<And>d. d \<noteq> c \<Longrightarrow> d \<in> B' \<longleftrightarrow> d \<in> B" "c \<in> B' \<Longrightarrow> c \<in> A'"
  shows "serving (R\<lparr>chans := (chans R)(c \<mapsto> n')\<rparr>) A' B'"
proof -
  have "react_ok (R\<lparr>chans := (chans R)(c \<mapsto> n')\<rparr>)" by (rule react_ok_same [OF servingD(1) [OF R] n n'(1-3)])
  then show ?thesis by (rule serving_upd_chan [OF R _ n'(4) A])
qed

lemma usableD:
  assumes "usable R c attached"
  obtains n where "chans R c = Some n" "alive n" "attached \<longrightarrow> c_loop n" "is_monitored n \<or> interest R (fd n) = None"
  using assms by (auto simp: usable_def split: option.splits)

lemma self_update: "n\<lparr>c_loop := True, event := e\<rparr> = n\<lparr>event := e\<rparr>" if "c_loop n"
  using that by (cases n) simp

lemma setevent_serving:
  assumes R: "serving R A B" and c: "usable R c True"
  shows "\<exists>R'. channel_setevent no_fail True (Some c) ev R = Some (0, R') \<and> serving R' A B \<and> (\<forall>d. survives d R R') \<and>
    usable R' c True"
proof -
  from c obtain n where n: "chans R c = Some n" "alive n" "c_loop n" "is_monitored n \<or> interest R (fd n) = None"
    by (rule usableD) simp
  show ?thesis
  proof (cases "event n AND ev = ev")
    case True
    then show ?thesis using n R c by (simp add: channel_setevent_def survives_def)
  next
    case False
    then have "channel_setevent no_fail True (Some c) ev R = Some (0, registered c n (event n OR ev) R)"
      using n update_registered [OF R n(1, 4)]
      by (simp add: channel_setevent_def loop_update_channel_def self_update [OF n(3)])
    with registered_serving [OF R n(1, 2, 4)] registered_usable [OF n(2)] show ?thesis by blast
  qed
qed

lemma clearevent_serving:
  assumes R: "serving R A B" and c: "usable R c True"
  shows "\<exists>R'. channel_clearevent no_fail True (Some c) ev R = Some (0, R') \<and> serving R' A B \<and> (\<forall>d. survives d R R') \<and>
    usable R' c True"
proof -
  from c obtain n where n: "chans R c = Some n" "alive n" "c_loop n" "is_monitored n \<or> interest R (fd n) = None"
    by (rule usableD) simp
  show ?thesis
  proof (cases "ev AND event n = 0")
    case True
    then show ?thesis using n R c by (simp add: channel_clearevent_def survives_def)
  next
    case False
    then have "channel_clearevent no_fail True (Some c) ev R = Some (0, registered c n (event n AND NOT ev) R)"
      using n update_registered [OF R n(1, 4)]
      by (simp add: channel_clearevent_def loop_update_channel_def self_update [OF n(3)])
    with registered_serving [OF R n(1, 2, 4)] registered_usable [OF n(2)] show ?thesis by blast
  qed
qed

lemma attach_serving:
  assumes R: "serving R A B" and c: "usable R c False"
  shows "\<exists>R'. channel_attach no_fail True (Some c) True R = Some R' \<and> serving R' A B \<and> (\<forall>d. survives d R R')"
proof -
  from c obtain n where n: "chans R c = Some n" "alive n" "is_monitored n \<or> interest R (fd n) = None"
    by (rule usableD) simp
  have "n\<lparr>c_loop := True, event := event n\<rparr> = n\<lparr>c_loop := True\<rparr>" by (cases n) simp
  then have "channel_attach no_fail True (Some c) True R = Some (registered c n (event n) R)"
    using n update_registered [OF R n(1, 3), of "event n"]
    by (simp add: channel_attach_def loop_update_channel_def)
  with registered_serving [OF R n(1, 2, 3)] show ?thesis by blast
qed

lemma detach_serving:
  assumes R: "serving R A B" and c: "usable R c True"
  shows "\<exists>R'. channel_detach no_fail True (Some c) R = Some R' \<and> serving R' A B \<and> (\<forall>d. survives d R R') \<and>
    (\<exists>n. chans R' c = Some n \<and> \<not> is_monitored n)"
proof -
  from c obtain n where n: "chans R c = Some n" "alive n" "c_loop n" "is_monitored n \<or> interest R (fd n) = None"
    by (rule usableD) simp
  show ?thesis
  proof (cases "event n = 0")
    case True
    then have "\<not> is_monitored n" using monitoredD [OF react_okD(1) [OF servingD(1) [OF R] n(1)]] by blast
    then show ?thesis using True n R by (simp add: channel_detach_def survives_def)
  next
    case False
    let ?R = "registered c n 0 R"
    let ?m = "n\<lparr>c_loop := True, event := 0, is_monitored := False\<rparr>"
    let ?k = "?m\<lparr>event := event n, c_loop := False\<rparr>"
    have m: "chans ?R c = Some ?m" by simp
    have "channel_detach no_fail True (Some c) R = Some (?R\<lparr>chans := (chans ?R)(c \<mapsto> ?k)\<rparr>)"
      using False n update_registered [OF R n(1, 4), of 0] m
      by (simp add: channel_detach_def loop_update_channel_def self_update [OF n(3)])
    moreover note S = registered_serving [OF R n(1, 2, 4), where e = 0]
    have "flags_in A B c ?k" using servingD(2) [OF R n(1)] by (simp add: flags_in_def)
    then have "serving (?R\<lparr>chans := (chans ?R)(c \<mapsto> ?k)\<rparr>) A B"
      using servingD(4) [OF R] by (intro unregistered_serving [OF S(1) m]) (auto simp: chan_ok_def)
    moreover have "survives d R (?R\<lparr>chans := (chans ?R)(c \<mapsto> ?k)\<rparr>)" for d
      using S(2) [of d] n(2) by (auto simp: survives_def)
    moreover have "\<exists>n. chans (?R\<lparr>chans := (chans ?R)(c \<mapsto> ?k)\<rparr>) c = Some n \<and> \<not> is_monitored n" by simp
    ultimately show ?thesis by blast
  qed
qed

lemma destroy_serving:
  assumes R: "serving R A B" and n: "chans R c = Some n" "\<not> is_monitored n"
  shows "\<exists>R'. channel_destroy (Some c) R = Some R' \<and> serving R' A B \<and> (\<forall>d. d \<noteq> c \<longrightarrow> survives d R R')"
proof -
  have f: "flags_in A B c n" by (rule servingD(2) [OF R n(1)])
  show ?thesis
  proof (cases "in_callback n \<or> is_active n")
    case True
    then have "c \<in> A" using f servingD(4) [OF R] by (auto simp: flags_in_def)
    then have "flags_in A B c (n\<lparr>alive := False\<rparr>)" using f by (simp add: flags_in_def)
    then have "serving (R\<lparr>chans := (chans R)(c \<mapsto> n\<lparr>alive := False\<rparr>)\<rparr>) A B"
      using n(2) servingD(4) [OF R] by (intro unregistered_serving [OF R n(1)]) (auto simp: chan_ok_def)
    moreover have "channel_destroy (Some c) R = Some (R\<lparr>chans := (chans R)(c \<mapsto> n\<lparr>alive := False\<rparr>)\<rparr>)"
      using True n(1) by (auto simp: channel_destroy_def)
    ultimately show ?thesis by (auto simp: survives_def)
  next
    case False
    then have "c \<notin> A" using f by (simp add: flags_in_def)
    then have "serving (R\<lparr>chans := (chans R)(c := None)\<rparr>) A B" by (rule serving_free [OF R n])
    moreover have "channel_destroy (Some c) R = Some (R\<lparr>chans := (chans R)(c := None)\<rparr>)"
      using False n(1) by (simp add: channel_destroy_def)
    ultimately show ?thesis by (auto simp: survives_def)
  qed
qed

lemma new_serving:
  assumes R: "serving R A B" and a: "chans R a = None"
  shows "\<exists>r R'. channel_new a f True (Some cb) ud R = Some (r, R') \<and> serving R' A B \<and> (\<forall>d. survives d R R')"
proof (cases "f < 0")
  case True
  then show ?thesis using R by (simp add: channel_new_def survives_def)
next
  case False
  let ?n = "\<lparr>fd = f, c_loop = True, on_event = Some cb, c_userdata = ud, is_active = False, in_callback = False,
         alive = True, event = 0, revent = 0, is_monitored = False\<rparr>"
  let ?R = "R\<lparr>chans := (chans R)(a \<mapsto> ?n)\<rparr>"
  note ok = servingD(1) [OF R]
  have aA: "a \<notin> A" "a \<notin> B" using servingD(3) [OF R, of a] servingD(4) [OF R] a by auto
  have "\<exists>m. chans ?R d = Some m \<and> is_monitored m \<and> fd m = g" if d: "interest R g = Some (ev, d)" for g ev d
    using react_okD(2) [OF ok d] a by (cases "d = a") auto
  moreover have "chan_ok (interest R) d m" if "chans ?R d = Some m" for d m
  proof (cases "d = a")
    case True
    then have "m = ?n" using that by simp
    then show ?thesis by (simp only: chan_ok_def) simp
  next
    case False
    then show ?thesis using that react_okD(1) [OF ok, of d m] by simp
  qed
  ultimately have "react_ok ?R" unfolding react_ok_def by simp
  moreover have "flags_in A B a ?n" using aA by (simp add: flags_in_def)
  ultimately have "serving ?R A B" using aA by (intro serving_upd_chan [OF R]) simp_all
  moreover have "channel_new a f True (Some cb) ud R = Some (Some a, ?R)"
    using False a by (simp add: channel_new_def)
  ultimately show ?thesis by (auto simp: survives_def)
qed

lemma action_serving:
  assumes R: "serving R A B" and x: "c_legal R x"
  shows "\<exists>R'. do_c_action no_fail x R = Some R' \<and> serving R' A B \<and> (\<forall>d. x \<noteq> C_Destroy d \<longrightarrow> survives d R R')"
proof (cases x)
  case (C_New a f cb ud)
  then have "chans R a = None" using x by (simp add: c_legal_def)
  from new_serving [OF R this, of f cb ud] show ?thesis by (auto simp: do_c_action_def C_New)
next
  case (C_Set c ev)
  then have "usable R c True" using x by (simp add: c_legal_def)
  from setevent_serving [OF R this, of ev] show ?thesis by (fastforce simp: do_c_action_def C_Set)
next
  case (C_Clear c ev)
  then have "usable R c True" using x by (simp add: c_legal_def)
  from clearevent_serving [OF R this, of ev] show ?thesis by (fastforce simp: do_c_action_def C_Clear)
next
  case (C_Detach c)
  then have "usable R c True" using x by (simp add: c_legal_def)
  from detach_serving [OF R this] show ?thesis by (auto simp: do_c_action_def C_Detach)
next
  case (C_Attach c)
  then have "usable R c False" using x by (simp add: c_legal_def)
  from attach_serving [OF R this] show ?thesis by (auto simp: do_c_action_def C_Attach)
next
  case (C_Destroy c)
  then obtain n where "chans R c = Some n" "\<not> is_monitored n" using x by (auto simp: c_legal_def split: option.splits)
  from destroy_serving [OF R this] show ?thesis by (auto simp: do_c_action_def C_Destroy)
qed

lemma actions_serving:
  assumes "serving R A B" and "c_legal_all R xs"
  shows "\<exists>R'. do_c_actions no_fail xs R = Some R' \<and> serving R' A B \<and> (\<forall>d. C_Destroy d \<notin> set xs \<longrightarrow> survives d R R')"
  using assms
proof (induction xs arbitrary: R)
  case Nil
  then show ?case by (simp add: survives_def)
next
  case (Cons x xs)
  have "c_legal R x" using Cons.prems(2) by simp
  from action_serving [OF Cons.prems(1) this] obtain R1 where
    R1: "do_c_action no_fail x R = Some R1" "serving R1 A B" "\<forall>d. x \<noteq> C_Destroy d \<longrightarrow> survives d R R1" by blast
  have "c_legal_all R1 xs" using Cons.prems(2) R1(1) by simp
  from Cons.IH [OF R1(2) this] obtain R2 where
    R2: "do_c_actions no_fail xs R1 = Some R2" "serving R2 A B" "\<forall>d. C_Destroy d \<notin> set xs \<longrightarrow> survives d R1 R2" by blast
  have "survives d R R2" if "C_Destroy d \<notin> set (x # xs)" for d
    using R1(3) R2(3) that survives_trans [of d R R1 R2] by auto
  then show ?case using R1(1) R2(1, 2) by auto
qed

section \<open>Dispatching a batch of events\<close>

text \<open>The channels that the callbacks of a log destroyed.\<close>

definition destroyed :: "channel_log \<Rightarrow> addr set" where
  "destroyed l = {c. C_Destroy c \<in> set (concat (map snd l))}"

lemma destroyed_simps [simp]:
  "destroyed [] = {}" "destroyed [(c, as)] = {d. C_Destroy d \<in> set as}" "destroyed (l @ l') = destroyed l \<union> destroyed l'"
  by (auto simp: destroyed_def)

lemma serving_remove:
  assumes R: "serving R A B" and B: "B \<subseteq> {c}" and n: "chans R c = Some n" "\<not> is_monitored n"
  shows "serving (R\<lparr>chans := (chans R)(c := None)\<rparr>) (A - {c}) {}"
proof -
  have "react_ok (R\<lparr>chans := (chans R)(c := None)\<rparr>)" by (rule react_ok_free [OF servingD(1) [OF R] n])
  moreover have "flags_in (A - {c}) {} d m" if d: "((chans R)(c := None)) d = Some m" for d m
  proof -
    have "d \<noteq> c" "chans R d = Some m" using d by (auto split: if_splits)
    moreover from servingD(2) [OF R this(2)] have "flags_in A B d m" .
    moreover have "d \<notin> B" using B \<open>d \<noteq> c\<close> by blast
    ultimately show ?thesis by (simp add: flags_in_def)
  qed
  moreover have "((chans R)(c := None)) d \<noteq> None" if "d \<in> A - {c}" for d
    using that servingD(3) [OF R, of d] by auto
  ultimately show ?thesis unfolding serving_def by simp
qed

text \<open>When a channel has been served it is no longer active; if it was destroyed, it is freed.\<close>

lemma served:
  assumes R: "serving R A {c}" and n: "chans R c = Some n"
  shows "\<exists>R'. (if alive n then Some (R\<lparr>chans := (chans R)(c \<mapsto> n\<lparr>in_callback := False, revent := 0, is_active := False\<rparr>)\<rparr>)
      else channel_destroy (Some c) (R\<lparr>chans := (chans R)(c \<mapsto> n\<lparr>in_callback := False, revent := 0, is_active := False\<rparr>)\<rparr>)) = Some R' \<and>
    serving R' (A - {c}) {} \<and> (\<forall>d. d \<noteq> c \<longrightarrow> chans R' d = chans R d)"
proof -
  let ?n = "n\<lparr>in_callback := False, revent := 0, is_active := False\<rparr>"
  let ?R = "R\<lparr>chans := (chans R)(c \<mapsto> ?n)\<rparr>"
  have ok: "chan_ok (interest R) c n" by (rule react_okD(1) [OF servingD(1) [OF R] n])
  then have ok': "chan_ok (interest R) c ?n" by simp
  have f: "flags_in A {c} c n" by (rule servingD(2) [OF R n])
  have react: "react_ok ?R" by (intro react_ok_same [OF servingD(1) [OF R] n _ _ ok']) simp_all
  show ?thesis
  proof (cases "alive n")
    case True
    then have "flags_in (A - {c}) {} c ?n" using f by (simp add: flags_in_def)
    then have "serving ?R (A - {c}) {}" by (rule serving_upd_chan [OF R react]) simp_all
    then show ?thesis using True by simp
  next
    case False
    then have mon: "\<not> is_monitored n" using ok by (auto simp: chan_ok_def)
    have "serving (R\<lparr>chans := (chans R)(c := None)\<rparr>) (A - {c}) {}" by (rule serving_remove [OF R _ n mon]) simp
    then show ?thesis using False by (simp add: channel_destroy_def)
  qed
qed

lemma onevent_serving:
  assumes R: "serving R A {}" and c: "c \<in> A" and cb: "well_behaved cb"
  shows "\<exists>fired R'. channel_onevent no_fail cb (Some c) R = Some (fired, R') \<and> serving R' (A - {c}) {} \<and>
    (map fst fired = [] \<or> map fst fired = [c]) \<and> (\<forall>n. chans R c = Some n \<and> alive n \<longrightarrow> map fst fired = [c]) \<and>
    (\<forall>d. d \<noteq> c \<and> d \<notin> destroyed fired \<longrightarrow> survives d R R')"
proof -
  obtain n where n: "chans R c = Some n" using servingD(3) [OF R c] by blast
  have f: "flags_in A {} c n" by (rule servingD(2) [OF R n])
  have ok: "chan_ok (interest R) c n" by (rule react_okD(1) [OF servingD(1) [OF R] n])
  show ?thesis
  proof (cases "alive n")
    case False
    then have mon: "\<not> is_monitored n" using ok by (auto simp: chan_ok_def)
    let ?R = "R\<lparr>chans := (chans R)(c \<mapsto> n\<lparr>is_active := False\<rparr>)\<rparr>"
    have inc: "\<not> in_callback n" using f by (simp add: flags_in_def)
    have "channel_onevent no_fail cb (Some c) R = Some ([], R\<lparr>chans := (chans R)(c := None)\<rparr>)"
      using n False inc by (simp add: channel_onevent_def channel_destroy_def)
    moreover have "serving (R\<lparr>chans := (chans R)(c := None)\<rparr>) (A - {c}) {}"
      by (rule serving_remove [OF R _ n mon]) simp
    moreover have "survives d R (R\<lparr>chans := (chans R)(c := None)\<rparr>)" if "d \<noteq> c" for d
      using that by (simp add: survives_def)
    ultimately show ?thesis using False n by simp
  next
    case True
    obtain g where g: "on_event n = Some g" using f by (auto simp: flags_in_def)
    let ?R1 = "R\<lparr>chans := (chans R)(c \<mapsto> n\<lparr>in_callback := True\<rparr>)\<rparr>"
    let ?acts = "cb g (fd n) (revent n) (c_userdata n) ?R1"
    have "chan_ok (interest R) c (n\<lparr>in_callback := True\<rparr>)" using ok by simp
    moreover have "flags_in A {c} c (n\<lparr>in_callback := True\<rparr>)" using f c by (simp add: flags_in_def)
    ultimately have R1: "serving ?R1 A {c}" using c by (intro unregistered_serving [OF R n, where n' = "n\<lparr>in_callback := True\<rparr>"]) simp_all
    have legal: "c_legal_all ?R1 ?acts" using cb unfolding well_behaved_def by blast
    from actions_serving [OF R1 legal] obtain R2 where
      R2: "do_c_actions no_fail ?acts ?R1 = Some R2" "serving R2 A {c}" "\<forall>d. C_Destroy d \<notin> set ?acts \<longrightarrow> survives d ?R1 R2" by blast
    obtain n2 where n2: "chans R2 c = Some n2" using servingD(3) [OF R2(2) c] by blast
    from served [OF R2(2) n2] obtain R3 where
      R3: "(if alive n2 then Some (R2\<lparr>chans := (chans R2)(c \<mapsto> n2\<lparr>in_callback := False, revent := 0, is_active := False\<rparr>)\<rparr>)
      else channel_destroy (Some c) (R2\<lparr>chans := (chans R2)(c \<mapsto> n2\<lparr>in_callback := False, revent := 0, is_active := False\<rparr>)\<rparr>)) = Some R3"
        "serving R3 (A - {c}) {}" "\<forall>d. d \<noteq> c \<longrightarrow> chans R3 d = chans R2 d" by blast
    let ?R2 = "R2\<lparr>chans := (chans R2)(c \<mapsto> n2\<lparr>in_callback := False, revent := 0, is_active := False\<rparr>)\<rparr>"
    have "channel_onevent no_fail cb (Some c) R =
        Option.bind (if alive n2 then Some ?R2 else channel_destroy (Some c) ?R2) (\<lambda>R. Some ([(c, ?acts)], R))"
      using n True g R2(1) n2 by (simp add: channel_onevent_def)
    then have "channel_onevent no_fail cb (Some c) R = Some ([(c, ?acts)], R3)" by (simp only: R3(1) bind.bind_lunit)
    moreover have "survives d R R3" if d: "d \<noteq> c" "d \<notin> destroyed [(c, ?acts)]" for d
    proof -
      have "survives d ?R1 R2" using R2(3) d(2) by simp
      then show ?thesis using d(1) R3(3) by (simp add: survives_def)
    qed
    ultimately show ?thesis using R3(2)
      by (intro exI [of _ "[(c, ?acts)]"] exI [of _ R3]) simp
  qed
qed

lemma fire_serving:
  assumes "serving R (set cs) {}" and "distinct cs" and "well_behaved cb"
  shows "\<exists>fired R'. fire_events no_fail cb cs R = Some (fired, R') \<and> idle R' \<and> subseq (map fst fired) cs \<and>
    (\<forall>c \<in> set cs. (\<exists>n. chans R c = Some n \<and> alive n) \<longrightarrow> c \<in> set (map fst fired) \<or> c \<in> destroyed fired)"
  using assms
proof (induction cs arbitrary: R)
  case (Cons c cs)
  have "c \<in> set (c # cs)" by simp
  from onevent_serving [OF Cons.prems(1) this Cons.prems(3)] obtain f R1 where
    R1: "channel_onevent no_fail cb (Some c) R = Some (f, R1)" "serving R1 (set (c # cs) - {c}) {}"
      "map fst f = [] \<or> map fst f = [c]" "\<forall>n. chans R c = Some n \<and> alive n \<longrightarrow> map fst f = [c]"
      "\<forall>d. d \<noteq> c \<and> d \<notin> destroyed f \<longrightarrow> survives d R R1" by (elim exE conjE) (rule that)
  have "set (c # cs) - {c} = set cs" using Cons.prems(2) by auto
  then have S1: "serving R1 (set cs) {}" using R1(2) by simp
  have "distinct cs" using Cons.prems(2) by simp
  from Cons.IH [OF S1 this Cons.prems(3)] obtain fs R2 where
    R2: "fire_events no_fail cb cs R1 = Some (fs, R2)" "idle R2" "subseq (map fst fs) cs"
      "\<forall>d \<in> set cs. (\<exists>n. chans R1 d = Some n \<and> alive n) \<longrightarrow> d \<in> set (map fst fs) \<or> d \<in> destroyed fs"
    by (elim exE conjE) (rule that)
  have "d \<in> set (map fst (f @ fs)) \<or> d \<in> destroyed (f @ fs)"
    if d: "d \<in> set (c # cs)" "\<exists>n. chans R d = Some n \<and> alive n" for d
  proof (cases "d = c \<or> d \<in> destroyed f")
    case True
    have "d \<in> set (map fst f)" if "d = c"
    proof -
      have "map fst f = [c]" using that d(2) R1(4) by blast
      then show ?thesis using that by simp
    qed
    then show ?thesis using True by auto
  next
    case False
    then have "\<exists>n. chans R1 d = Some n \<and> alive n" using d R1(5) unfolding survives_def by blast
    moreover have "d \<in> set cs" using d(1) False by simp
    ultimately have "d \<in> set (map fst fs) \<or> d \<in> destroyed fs" using R2(4) by blast
    then show ?thesis by auto
  qed
  moreover have "subseq (map fst (f @ fs)) (c # cs)" using R1(3) R2(3) by auto
  ultimately show ?case using R1(1) R2(1, 2) by (intro exI [of _ "f @ fs"] exI [of _ R2]) simp
qed auto

lemma set_revents_serving:
  assumes "serving R A {}" and "\<forall>c \<in> set (map fst es). chans R c \<noteq> None"
  shows "\<exists>R'. set_revents es R = Some R' \<and> serving R' (A \<union> set (map fst es)) {} \<and>
    (\<forall>c. map_option alive (chans R' c) = map_option alive (chans R c))"
  using assms
proof (induction es arbitrary: R A)
  case (Cons e es)
  obtain n where n: "chans R (fst e) = Some n" using Cons.prems(2) by auto
  let ?n = "n\<lparr>revent := snd e, is_active := True\<rparr>"
  let ?R = "R\<lparr>chans := (chans R)(fst e \<mapsto> ?n)\<rparr>"
  have "chan_ok (interest R) (fst e) ?n"
    using react_okD(1) [OF servingD(1) [OF Cons.prems(1)] n] by simp
  moreover have "flags_in (insert (fst e) A) {} (fst e) ?n"
    using servingD(2) [OF Cons.prems(1) n] by (simp add: flags_in_def)
  ultimately have "serving ?R (insert (fst e) A) {}"
    by (intro unregistered_serving [OF Cons.prems(1) n, where n' = ?n]) simp_all
  moreover have "\<forall>c \<in> set (map fst es). chans ?R c \<noteq> None" using Cons.prems(2) by auto
  ultimately obtain R' where R': "set_revents es ?R = Some R'" "serving R' (insert (fst e) A \<union> set (map fst es)) {}"
      "\<forall>c. map_option alive (chans R' c) = map_option alive (chans ?R c)"
    using Cons.IH by blast
  have "map_option alive (chans ?R c) = map_option alive (chans R c)" for c using n by simp
  then show ?case using R' n by (simp add: channel_setrevent_def insert_commute)
qed simp

lemma dispatch_idle:
  assumes R: "idle R" and es: "distinct (map fst es)" "\<forall>c \<in> set (map fst es). chans R c \<noteq> None" and cb: "well_behaved cb"
  shows "\<exists>fired R'. dispatch no_fail cb es R = Some (fired, R') \<and> idle R' \<and> subseq (map fst fired) (map fst es) \<and>
    (\<forall>c \<in> set (map fst es). c \<in> set (map fst fired) \<or> c \<in> destroyed fired)"
proof -
  from set_revents_serving [OF R es(2)] obtain R1 where
    R1: "set_revents es R = Some R1" "serving R1 (set (map fst es)) {}"
      "\<forall>c. map_option alive (chans R1 c) = map_option alive (chans R c)" by auto
  from fire_serving [OF R1(2) es(1) cb] obtain fired R2 where
    R2: "fire_events no_fail cb (map fst es) R1 = Some (fired, R2)" "idle R2" "subseq (map fst fired) (map fst es)"
      "\<forall>c \<in> set (map fst es). (\<exists>n. chans R1 c = Some n \<and> alive n) \<longrightarrow> c \<in> set (map fst fired) \<or> c \<in> destroyed fired"
    by (elim exE conjE) (rule that)
  have "\<exists>n. chans R1 c = Some n \<and> alive n" if c: "c \<in> set (map fst es)" for c
  proof -
    obtain n where n: "chans R c = Some n" using es(2) c by auto
    then have "alive n" using servingD(2) [OF R n] by (simp add: flags_in_def)
    then have "map_option alive (chans R1 c) = Some True" using R1(3) n by simp
    then show ?thesis by auto
  qed
  then have "\<forall>c \<in> set (map fst es). c \<in> set (map fst fired) \<or> c \<in> destroyed fired" using R2(4) by blast
  moreover have "dispatch no_fail cb es R = Some (fired, R2)" using R1(1) R2(1) by (simp add: dispatch_def)
  ultimately show ?thesis using R2(2, 3) by blast
qed

text \<open>In a consistent state the registrations are the attached channels that have events.\<close>

lemma interest_iff:
  assumes "react_ok R"
  shows "interest R f = Some (ev, c) \<longleftrightarrow>
    (\<exists>n. chans R c = Some n \<and> alive n \<and> c_loop n \<and> event n = ev \<and> ev \<noteq> 0 \<and> fd n = f)"
proof
  assume "interest R f = Some (ev, c)"
  with react_okD(2) [OF assms this] monitoredD [OF react_okD(1) [OF assms]]
  show "\<exists>n. chans R c = Some n \<and> alive n \<and> c_loop n \<and> event n = ev \<and> ev \<noteq> 0 \<and> fd n = f" by fastforce
next
  assume "\<exists>n. chans R c = Some n \<and> alive n \<and> c_loop n \<and> event n = ev \<and> ev \<noteq> 0 \<and> fd n = f"
  then obtain n where n: "chans R c = Some n" "alive n" "c_loop n" "event n = ev" "ev \<noteq> 0" "fd n = f" by blast
  then have "is_monitored n" using react_okD(1) [OF assms n(1)] by (auto simp: chan_ok_def)
  then show "interest R f = Some (ev, c)" using monitoredD [OF react_okD(1) [OF assms n(1)]] n by auto
qed

definition empty_reactor :: reactor where
  "empty_reactor = \<lparr>chans = Map.empty, interest = Map.empty, updates = []\<rparr>"

lemma idle_empty: "idle empty_reactor"
  by (simp add: serving_def react_ok_def empty_reactor_def)

abbreviation readable :: "int \<Rightarrow> addr \<Rightarrow> channel" where
  "readable f g \<equiv> \<lparr>fd = f, c_loop = True, on_event = Some g, c_userdata = None, is_active = False, in_callback = False,
     alive = True, event = 1, revent = 0, is_monitored = True\<rparr>"

definition two_channels :: reactor where
  "two_channels = \<lparr>chans = [1 \<mapsto> readable 5 7, 2 \<mapsto> readable 6 8], interest = [5 \<mapsto> (1, 1), 6 \<mapsto> (1, 2)], updates = []\<rparr>"

lemma two_channels_idle: "idle two_channels"
  by (auto simp: serving_def react_ok_def chan_ok_def flags_in_def two_channels_def split: if_splits)

text \<open>The callback 7 detaches and destroys the channel 2, if that is legal.\<close>

definition destroys_two :: on_event_f where
  "destroys_two g f ev ud R = (if g = 7 \<and> c_legal_all R [C_Detach 2, C_Destroy 2] then [C_Detach 2, C_Destroy 2] else [])"

lemma destroys_two_ok: "well_behaved destroys_two"
  unfolding well_behaved_def destroys_two_def by simp

section \<open>Properties\<close>

text \<open>
  C9: While no call of \<^verbatim>\<open>epoll_ctl\<close> and no allocation fails, a batch of events is dispatched safely.
  Callbacks may create channels, change and attach those that are in use, detach them and destroy
  what is detached, including channels of the same batch that are still to be served and the
  channel being served: no freed channel is touched; each callback runs at most once, in the
  order of the batch, and a channel whose callback does not run was destroyed by a callback that
  did; afterwards every destroyed channel is freed and the registrations are consistent.
\<close>

theorem channel_dispatch:
  assumes "idle R" and "distinct (map fst es)" and "\<forall>c \<in> set (map fst es). \<exists>f ev. interest R f = Some (ev, c)"
    and "well_behaved cb"
  shows "\<exists>fired R'. dispatch no_fail cb es R = Some (fired, R') \<and> idle R' \<and> subseq (map fst fired) (map fst es) \<and>
    (\<forall>c \<in> set (map fst es). c \<in> set (map fst fired) \<or> c \<in> destroyed fired)"
proof -
  have "\<forall>c \<in> set (map fst es). chans R c \<noteq> None"
    using assms(3) react_okD(2) [OF servingD(1) [OF assms(1)]] by fastforce
  from dispatch_idle [OF assms(1, 2) this assms(4)] show ?thesis .
qed

theorem channel_dispatch_witness:
  "\<exists>fired R'. dispatch no_fail destroys_two [(1, 1), (2, 1)] two_channels = Some (fired, R') \<and> idle R' \<and>
     (2 \<in> set (map fst fired) \<or> 2 \<in> destroyed fired)"
proof -
  have "\<forall>c \<in> set (map fst [(1, 1 :: u32), (2, 1)]). \<exists>f ev. interest two_channels f = Some (ev, c)"
    by (auto simp: two_channels_def intro: exI [of _ 5] exI [of _ 6])
  from channel_dispatch [OF two_channels_idle _ this destroys_two_ok] show ?thesis by simp blast
qed

text \<open>
  While no system call fails, every legal sequence of operations succeeds and keeps the
  registered descriptors equal to the attached channels that have events, with those events.
\<close>

theorem channel_registration:
  assumes "c_legal_all empty_reactor xs"
  shows "\<exists>R. do_c_actions no_fail xs empty_reactor = Some R \<and> idle R \<and>
    (\<forall>f ev c. interest R f = Some (ev, c) \<longleftrightarrow>
       (\<exists>n. chans R c = Some n \<and> alive n \<and> c_loop n \<and> event n = ev \<and> ev \<noteq> 0 \<and> fd n = f))"
proof -
  from actions_serving [OF idle_empty assms] obtain R where
    R: "do_c_actions no_fail xs empty_reactor = Some R" "idle R" by blast
  then show ?thesis using interest_iff [OF servingD(1) [OF R(2)]] by blast
qed

theorem channel_registration_witness:
  "\<exists>R. do_c_actions no_fail [C_New 1 5 7 None, C_Set 1 3, C_Clear 1 1] empty_reactor = Some R \<and> idle R"
proof -
  have "c_legal_all empty_reactor [C_New 1 5 7 None, C_Set 1 3, C_Clear 1 1]"
    by (simp add: c_legal_def usable_def empty_reactor_def do_c_action_def channel_new_def channel_setevent_def
        channel_clearevent_def loop_update_channel_def do_loop_update_channel_def channel_getloop_def
        channel_getevent_def channel_getfd_def channel_monitored_def channel_set_monitored_def epoll_ctl_def no_fail_def)
  from channel_registration [OF this] show ?thesis by blast
qed

text \<open>
  C33: A change of the events of a channel in use, made in another thread while no other update is
  pending, only marks the channel; when the loop then runs its updates, and no call of
  \<^verbatim>\<open>epoll_ctl\<close> fails, the result is that of the same change made in the loop's thread: the channel
  has its old events and the new ones, its descriptor is registered with exactly these (or not
  at all when there are none), and every other registration is as before.
\<close>

theorem channel_setevent_async:
  assumes "idle R" and "updates R = []" and "usable R c True" and "chans R c = Some n"
  shows "\<exists>R1 R2. channel_setevent no_fail False (Some c) ev R = Some (0, R1) \<and> interest R1 = interest R \<and>
    process_updates no_fail R1 = Some R2 \<and> channel_setevent no_fail True (Some c) ev R = Some (0, R2) \<and> idle R2 \<and>
    map_option event (chans R2 c) = Some (event n OR ev) \<and>
    interest R2 = (interest R)(fd n := if event n OR ev = 0 then None else Some (event n OR ev, c))"
proof -
  have n: "alive n" "c_loop n" "is_monitored n \<or> interest R (fd n) = None"
    using assms(3, 4) by (simp_all add: usable_def)
  have ok: "chan_ok (interest R) c n" by (rule react_okD(1) [OF servingD(1) [OF assms(1)] assms(4)])
  show ?thesis
  proof (cases "event n AND ev = ev")
    case True
    have e: "event n OR ev = event n"
    proof (rule bit_eqI)
      fix k assume "possible_bit TYPE(32 word) k"
      have "bit (event n AND ev) k = bit ev k" using True by simp
      then show "bit (event n OR ev) k = bit (event n) k" by (auto simp: bit_and_iff bit_or_iff)
    qed
    have reg: "(if event n = 0 then None else Some (event n, c)) = interest R (fd n)"
      using ok n unfolding chan_ok_def by auto
    have I: "(interest R)(fd n := if event n = 0 then None else Some (event n, c)) = interest R"
      unfolding reg by (rule fun_upd_triv)
    have "channel_setevent no_fail h (Some c) ev R = Some (0, R)" for h
      using True assms(4) by (simp add: channel_setevent_def)
    moreover have "process_updates no_fail R = Some R"
      using assms(2) by (simp add: process_updates_def)
    ultimately show ?thesis unfolding e I using assms(1, 4)
      by (intro exI [of _ R]) simp
  next
    case False
    let ?e = "event n OR ev"
    let ?R = "R\<lparr>chans := (chans R)(c \<mapsto> n\<lparr>event := ?e\<rparr>)\<rparr>"
    have upd: "do_loop_update_channel no_fail c ?R = Some (registered c n ?e R)"
      using update_registered [OF assms(1, 4) n(3), of ?e] by (simp only: self_update [OF n(2)])
    have "channel_setevent no_fail False (Some c) ev R = Some (0, ?R\<lparr>updates := [c]\<rparr>)"
      using False assms(2, 4) n(2) by (simp add: channel_setevent_def loop_update_channel_def)
    moreover have "channel_setevent no_fail True (Some c) ev R = Some (0, registered c n ?e R)"
      using False assms(4) n(2) upd by (simp add: channel_setevent_def loop_update_channel_def)
    moreover have "process_updates no_fail (?R\<lparr>updates := [c]\<rparr>) = Some (registered c n ?e R)"
    proof -
      have "?R\<lparr>updates := []\<rparr> = ?R" using assms(2) by (cases R) simp
      then show ?thesis using upd by (simp add: process_updates_def)
    qed
    moreover have "idle (registered c n ?e R)"
      by (rule registered_serving(1) [OF assms(1, 4) n(1, 3)])
    ultimately show ?thesis
      by (intro exI [of _ "?R\<lparr>updates := [c]\<rparr>"] exI [of _ "registered c n ?e R"]) (simp add: registered_def)
  qed
qed

theorem channel_setevent_async_witness:
  "\<exists>R1 R2. channel_setevent no_fail False (Some 1) 2 two_channels = Some (0, R1) \<and>
     process_updates no_fail R1 = Some R2 \<and> interest R2 5 = Some (3, 1) \<and> interest R2 6 = Some (1, 2)"
proof -
  have c: "chans two_channels 1 = Some (readable 5 7)" by (simp add: two_channels_def)
  have u: "usable two_channels 1 True" "updates two_channels = []" by (simp_all add: usable_def two_channels_def)
  from channel_setevent_async [OF two_channels_idle u(2, 1) c, of 2] show ?thesis
    by (auto simp: two_channels_def)
qed

text \<open>
  Detaching a channel from another thread makes the loop dereference NULL: the update it
  runs reads the loop of the channel, which has been reset by then.
\<close>

theorem channel_detach_async:
  assumes "updates R = []" and "chans R c = Some n" and "c_loop n" and "event n \<noteq> 0"
  shows "\<exists>R1. channel_detach fails False (Some c) R = Some R1 \<and> process_updates fails R1 = None"
proof -
  let ?n = "n\<lparr>event := event n, c_loop := False\<rparr>"
  let ?R = "R\<lparr>chans := (chans R)(c \<mapsto> ?n)\<rparr>"
  have "channel_detach fails False (Some c) R = Some (?R\<lparr>updates := [c]\<rparr>)"
    using assms by (simp add: channel_detach_def loop_update_channel_def)
  moreover have "do_loop_update_channel fails c (?R\<lparr>updates := []\<rparr>) = None"
    using assms(4) by (cases "is_monitored n") (simp_all add: do_loop_update_channel_def channel_getloop_def channel_getevent_def
        channel_getfd_def channel_monitored_def channel_set_monitored_def)
  ultimately show ?thesis by (simp add: process_updates_def)
qed

theorem channel_detach_async_witness:
  "\<exists>R1. channel_detach no_fail False (Some 1) two_channels = Some R1 \<and> process_updates no_fail R1 = None"
  by (rule channel_detach_async [where n = "readable 5 7"]) (simp_all add: two_channels_def)

text \<open>
  When the registration of a channel fails, the channel counts as monitored all the same and
  the operation reports success; no later change of its events registers it.
\<close>

theorem channel_add_failed:
  assumes "chans R c = Some n" and "c_loop n" and "\<not> is_monitored n" and "event n = 0" and "ev \<noteq> 0"
    and "interest R (fd n) = None" and "fails EPOLL_CTL_ADD (fd n)"
  shows "\<exists>R1. channel_setevent fails True (Some c) ev R = Some (0, R1) \<and> interest R1 = interest R \<and>
    map_option is_monitored (chans R1 c) = Some True \<and>
    (\<forall>ev2. \<exists>R2. channel_setevent no_fail True (Some c) ev2 R1 = Some (0, R2) \<and> interest R2 (fd n) = None)"
proof -
  let ?n = "n\<lparr>event := ev, is_monitored := True\<rparr>"
  let ?R = "R\<lparr>chans := (chans R)(c \<mapsto> ?n)\<rparr>"
  have "channel_setevent fails True (Some c) ev R = Some (0, ?R)"
    using assms by (simp add: channel_setevent_def loop_update_channel_def do_loop_update_channel_def channel_getloop_def
        channel_getevent_def channel_getfd_def channel_monitored_def channel_set_monitored_def epoll_ctl_def)
  moreover have "\<exists>R2. channel_setevent no_fail True (Some c) ev2 ?R = Some (0, R2) \<and> interest R2 (fd n) = None" for ev2
    using assms by (cases "ev OR ev2 = 0") (simp_all add: channel_setevent_def loop_update_channel_def do_loop_update_channel_def
        channel_getloop_def channel_getevent_def channel_getfd_def channel_monitored_def channel_set_monitored_def
        epoll_ctl_def no_fail_def)
  ultimately show ?thesis by auto
qed

theorem channel_add_failed_witness:
  "\<exists>R1. channel_setevent (\<lambda>op f. True) True (Some 1) 1
       \<lparr>chans = [1 \<mapsto> (readable 5 7)\<lparr>event := 0, is_monitored := False\<rparr>], interest = Map.empty, updates = []\<rparr> = Some (0, R1) \<and>
     interest R1 = Map.empty"
  using channel_add_failed [of "\<lparr>chans = [1 \<mapsto> (readable 5 7)\<lparr>event := 0, is_monitored := False\<rparr>], interest = Map.empty, updates = []\<rparr>"
      1 "(readable 5 7)\<lparr>event := 0, is_monitored := False\<rparr>" 1 "\<lambda>op f. True"] by auto

end
