(* ===== verification/UdpPeer.thy ===== *)
theory UdpPeer
  imports Channel
begin

text \<open>
  The UDP endpoint \<^verbatim>\<open>udpclient/linux/net/udp_peer.c\<close>: a reference-counted object used by
  client threads and by the thread of the loop, its channel, and a buffer in which a batch of
  datagrams is framed. A peer that was freed is \<^term>\<open>None\<close>. The sockets are the results of
  \<^verbatim>\<open>recvfrom\<close> and \<^verbatim>\<open>sendto\<close>; the 18 bytes of a sender's \<^verbatim>\<open>inetaddr_t\<close> are part of a datagram.
  Blocks are allocated: the code does not test \<^verbatim>\<open>malloc\<close>, and a failure is not modelled.
\<close>

section \<open>Data\<close>

record udp_peer =
  ref_count :: int
  messagecb :: ptr
  message_userdata :: ptr
  writecb :: ptr
  write_userdata :: ptr
  p_fd :: int
  p_channel :: ptr
  port :: u16
  chunk_count :: u32
  in_data :: "u8 list"

text \<open>The tasks that \<^verbatim>\<open>loop_run_inloop\<close> hands to the loop; the notifications carry new callbacks.\<close>

datatype p_task =
    Init_Event
  | Notify_Message ptr ptr
  | Notify_Write ptr ptr
  | Do_Destroy

record udp =
  peer :: "udp_peer option"
  reactor :: reactor
  p_tasks :: "p_task list"

definition EPOLLIN :: u32 where "EPOLLIN = 1"

definition EPOLLOUT :: u32 where "EPOLLOUT = 4"

definition data_size :: nat where "data_size = (65535 + 2 + 18) * 8"

definition upd_p :: "(udp_peer \<Rightarrow> udp_peer) \<Rightarrow> udp \<Rightarrow> udp option" where
  "upd_p f u = (case peer u of None \<Rightarrow> None | Some p \<Rightarrow> Some (u\<lparr>peer := Some (f p)\<rparr>))"

section \<open>Lifetime\<close>

definition delete_udp_peer :: "ctl_fails \<Rightarrow> udp \<Rightarrow> udp option" where
  "delete_udp_peer fails u = do {
     p \<leftarrow> peer u;
     R \<leftarrow> channel_detach fails True (p_channel p) (reactor u);
     R \<leftarrow> channel_destroy (p_channel p) R;
     Some (u\<lparr>peer := None, reactor := R\<rparr>) }"

definition init_udp_peer_event :: "ctl_fails \<Rightarrow> udp \<Rightarrow> udp option" where
  "init_udp_peer_event fails u = do {
     p \<leftarrow> peer u;
     (_, R) \<leftarrow> channel_setevent fails True (p_channel p) (if writecb p \<noteq> None then EPOLLIN OR EPOLLOUT else EPOLLIN) (reactor u);
     Some (u\<lparr>reactor := R\<rparr>) }"

text \<open>Both notifications: the callback is set, and the reference of the task is dropped.\<close>

definition do_udp_peer_onmessage :: "ctl_fails \<Rightarrow> ptr \<Rightarrow> ptr \<Rightarrow> udp \<Rightarrow> udp option" where
  "do_udp_peer_onmessage fails cb ud u = do {
     u \<leftarrow> upd_p (\<lambda>p. p\<lparr>messagecb := cb, message_userdata := ud\<rparr>) u;
     p \<leftarrow> peer u;
     u \<leftarrow> upd_p (\<lambda>p. p\<lparr>ref_count := ref_count p - 1\<rparr>) u;
     if ref_count p > 1 then
       (if messagecb p = None then do {
          (_, R) \<leftarrow> channel_clearevent fails True (p_channel p) EPOLLIN (reactor u);
          upd_p (\<lambda>p. p\<lparr>message_userdata := None\<rparr>) (u\<lparr>reactor := R\<rparr>) }
        else do {
          (_, R) \<leftarrow> channel_setevent fails True (p_channel p) EPOLLIN (reactor u);
          Some (u\<lparr>reactor := R\<rparr>) })
     else delete_udp_peer fails u }"

definition do_udp_peer_onwrite :: "ctl_fails \<Rightarrow> ptr \<Rightarrow> ptr \<Rightarrow> udp \<Rightarrow> udp option" where
  "do_udp_peer_onwrite fails cb ud u = do {
     u \<leftarrow> upd_p (\<lambda>p. p\<lparr>writecb := cb, write_userdata := ud\<rparr>) u;
     p \<leftarrow> peer u;
     u \<leftarrow> upd_p (\<lambda>p. p\<lparr>ref_count := ref_count p - 1\<rparr>) u;
     if ref_count p > 1 then
       (if writecb p = None then do {
          (_, R) \<leftarrow> channel_clearevent fails True (p_channel p) EPOLLOUT (reactor u);
          upd_p (\<lambda>p. p\<lparr>message_userdata := None\<rparr>) (u\<lparr>reactor := R\<rparr>) }
        else do {
          (_, R) \<leftarrow> channel_setevent fails True (p_channel p) EPOLLOUT (reactor u);
          Some (u\<lparr>reactor := R\<rparr>) })
     else delete_udp_peer fails u }"

definition do_udp_peer_destroy :: "ctl_fails \<Rightarrow> udp \<Rightarrow> udp option" where
  "do_udp_peer_destroy fails u = do {
     p \<leftarrow> peer u;
     u \<leftarrow> upd_p (\<lambda>p. p\<lparr>ref_count := ref_count p - 1\<rparr>) u;
     if ref_count p = 1 then delete_udp_peer fails u else Some u }"

definition run_p_task :: "ctl_fails \<Rightarrow> p_task \<Rightarrow> udp \<Rightarrow> udp option" where
  "run_p_task fails t u =
     (case t of
        Init_Event \<Rightarrow> init_udp_peer_event fails u
      | Notify_Message cb ud \<Rightarrow> do_udp_peer_onmessage fails cb ud u
      | Notify_Write cb ud \<Rightarrow> do_udp_peer_onwrite fails cb ud u
      | Do_Destroy \<Rightarrow> do_udp_peer_destroy fails u)"

definition p_run_inloop :: "ctl_fails \<Rightarrow> bool \<Rightarrow> p_task \<Rightarrow> udp \<Rightarrow> udp option" where
  "p_run_inloop fails here t u = (if here then run_p_task fails t u else Some (u\<lparr>p_tasks := p_tasks u @ [t]\<rparr>))"

text \<open>\<open>sock\<close> is the result of \<^verbatim>\<open>create_udp_socket\<close>, \<open>c\<close> the node of the channel; the result says whether there is a peer.\<close>

definition udp_peer_new ::
  "ctl_fails \<Rightarrow> bool \<Rightarrow> bool \<Rightarrow> bool \<Rightarrow> ptr \<Rightarrow> ptr \<Rightarrow> ptr \<Rightarrow> int \<Rightarrow> addr \<Rightarrow> u8 list \<Rightarrow> reactor \<Rightarrow> udp option" where
  "udp_peer_new fails here loop ip msgcb wrcb userdata sock c zeros R =
     (if \<not> loop \<or> \<not> ip \<or> msgcb = None then Some \<lparr>peer = None, reactor = R, p_tasks = []\<rparr>
      else if sock < 0 then Some \<lparr>peer = None, reactor = R, p_tasks = []\<rparr>
      else do {
        (chan, R) \<leftarrow> channel_new c sock loop (Some 0) None R;
        p_run_inloop fails here Init_Event
          \<lparr>peer = Some \<lparr>ref_count = 1, messagecb = msgcb, message_userdata = userdata, writecb = wrcb,
             write_userdata = userdata, p_fd = sock, p_channel = chan, port = 0, chunk_count = 0, in_data = zeros\<rparr>,
           reactor = R, p_tasks = []\<rparr> })"

text \<open>The callback that was set before is returned.\<close>

definition udp_peer_onmessage :: "ctl_fails \<Rightarrow> bool \<Rightarrow> ptr \<Rightarrow> ptr \<Rightarrow> udp \<Rightarrow> (ptr \<times> udp) option" where
  "udp_peer_onmessage fails here cb ud u = do {
     p \<leftarrow> peer u;
     u \<leftarrow> upd_p (\<lambda>p. p\<lparr>ref_count := ref_count p + 1\<rparr>) u;
     u \<leftarrow> p_run_inloop fails here (Notify_Message cb ud) u;
     Some (messagecb p, u) }"

definition udp_peer_onwrite :: "ctl_fails \<Rightarrow> bool \<Rightarrow> ptr \<Rightarrow> ptr \<Rightarrow> udp \<Rightarrow> (ptr \<times> udp) option" where
  "udp_peer_onwrite fails here cb ud u = do {
     p \<leftarrow> peer u;
     u \<leftarrow> upd_p (\<lambda>p. p\<lparr>ref_count := ref_count p + 1\<rparr>) u;
     u \<leftarrow> p_run_inloop fails here (Notify_Write cb ud) u;
     Some (writecb p, u) }"

definition udp_peer_destroy :: "ctl_fails \<Rightarrow> bool \<Rightarrow> udp \<Rightarrow> udp option" where
  "udp_peer_destroy fails here u = do {
     _ \<leftarrow> peer u;
     p_run_inloop fails here Do_Destroy u }"

definition udp_peer_getport :: "udp \<Rightarrow> u16 option" where
  "udp_peer_getport u = map_option port (peer u)"

text \<open>The loop runs the task at the head of its queue.\<close>

definition run_head :: "ctl_fails \<Rightarrow> udp \<Rightarrow> udp option" where
  "run_head fails u = (case p_tasks u of [] \<Rightarrow> Some u | t # ts \<Rightarrow> run_p_task fails t (u\<lparr>p_tasks := ts\<rparr>))"

section \<open>Receiving and sending\<close>

definition write_at :: "nat \<Rightarrow> u8 list \<Rightarrow> u8 list \<Rightarrow> u8 list option" where
  "write_at i bs d = (if i + length bs \<le> length d then Some (take i d @ bs @ drop (i + length bs) d) else None)"

definition read_at :: "nat \<Rightarrow> nat \<Rightarrow> u8 list \<Rightarrow> u8 list option" where
  "read_at i n d = (if i + n \<le> length d then Some (take n (drop i d)) else None)"

text \<open>
  A result of \<^verbatim>\<open>recvfrom\<close>: a datagram with the address of its sender, or a failure (no more
  datagrams is one). At most \<open>n\<close> bytes of a datagram are delivered; an empty one is taken for a failure.
\<close>

datatype recv_result = Datagram "u8 list" "u8 list" | Recv_Error

text \<open>The size as an \<^verbatim>\<open>unsigned short\<close>, in the byte order of the machine (little endian).\<close>

definition size_bytes :: "nat \<Rightarrow> u8 list" where
  "size_bytes n = [of_nat n, of_nat (n div 256)]"

definition bytes_size :: "u8 list \<Rightarrow> nat" where
  "bytes_size bs = unat (bs ! 0) + 256 * unat (bs ! 1)"

text \<open>
  The loop that fills the buffer: the room that is left, in unsigned arithmetic, must be that of
  a full datagram. The payload is written first, then its size and the address.
\<close>

primrec recv_chunks :: "recv_result list \<Rightarrow> u32 \<Rightarrow> udp_peer \<Rightarrow> udp_peer option" where
  "recv_chunks [] off p = Some p"
| "recv_chunks (r # rs) off p =
     (let max_chunk_size = of_nat data_size - (off + 2 + 18) :: u32 in
      if max_chunk_size < 65507 then Some p
      else
        (case r of
           Recv_Error \<Rightarrow> Some p
         | Datagram payload from \<Rightarrow>
             if payload = [] then Some p
             else
               (let got = take (unat max_chunk_size) payload; ret = length got in do {
                  d \<leftarrow> write_at (unat off + 20) got (in_data p);
                  d \<leftarrow> write_at (unat off) (size_bytes ret) d;
                  d \<leftarrow> write_at (unat off + 2) from d;
                  recv_chunks rs (off + 2 + 18 + of_nat ret) (p\<lparr>in_data := d, chunk_count := chunk_count p + 1\<rparr>) })))"

text \<open>What a callback asks of the peer, in the thread of the loop.\<close>

datatype u_action = U_Onmessage ptr ptr | U_Onwrite ptr ptr | U_Destroy

definition do_u_action :: "ctl_fails \<Rightarrow> u_action \<Rightarrow> udp \<Rightarrow> udp option" where
  "do_u_action fails x u =
     (case x of
        U_Onmessage cb ud \<Rightarrow> map_option snd (udp_peer_onmessage fails True cb ud u)
      | U_Onwrite cb ud \<Rightarrow> map_option snd (udp_peer_onwrite fails True cb ud u)
      | U_Destroy \<Rightarrow> udp_peer_destroy fails True u)"

primrec do_u_actions :: "ctl_fails \<Rightarrow> u_action list \<Rightarrow> udp \<Rightarrow> udp option" where
  "do_u_actions fails [] u = Some u"
| "do_u_actions fails (x # xs) u = Option.bind (do_u_action fails x u) (do_u_actions fails xs)"

type_synonym on_message_f = "addr \<Rightarrow> u8 list \<Rightarrow> ptr \<Rightarrow> u8 list \<Rightarrow> udp \<Rightarrow> u_action list"
type_synonym on_writable_f = "addr \<Rightarrow> ptr \<Rightarrow> udp \<Rightarrow> u_action list"

text \<open>
  The messages handed to the callback, with the addresses of their senders. The loop runs as
  often as \<open>chunk_count\<close> says (\<open>n\<close> is its value when the loop starts); a callback of NULL is called.
\<close>

primrec deliver :: "ctl_fails \<Rightarrow> on_message_f \<Rightarrow> nat \<Rightarrow> u32 \<Rightarrow> udp \<Rightarrow> ((u8 list \<times> u8 list) list \<times> udp) option" where
  "deliver fails cb 0 off u = Some ([], u)"
| "deliver fails cb (Suc n) off u = do {
     p \<leftarrow> peer u;
     size \<leftarrow> read_at (unat off) 2 (in_data p);
     from \<leftarrow> read_at (unat off + 2) 18 (in_data p);
     message \<leftarrow> read_at (unat off + 20) (bytes_size size) (in_data p);
     f \<leftarrow> messagecb p;
     u \<leftarrow> do_u_actions fails (cb f message (message_userdata p) from u) u;
     p \<leftarrow> peer u;
     size \<leftarrow> read_at (unat off) 2 (in_data p);
     u \<leftarrow> upd_p (\<lambda>p. p\<lparr>chunk_count := chunk_count p - 1\<rparr>) u;
     (ms, u) \<leftarrow> deliver fails cb n (off + 2 + 18 + of_nat (bytes_size size)) u;
     Some ((message, from) # ms, u) }"

definition udp_peer_onevent ::
  "ctl_fails \<Rightarrow> on_message_f \<Rightarrow> on_writable_f \<Rightarrow> recv_result list \<Rightarrow> u32 \<Rightarrow> udp \<Rightarrow> ((u8 list \<times> u8 list) list \<times> udp) option" where
  "udp_peer_onevent fails cb wcb rs ev u = do {
     p \<leftarrow> peer u;
     u \<leftarrow> (if ev AND EPOLLOUT \<noteq> 0 then
            (case writecb p of None \<Rightarrow> Some u | Some f \<Rightarrow> do_u_actions fails (wcb f (write_userdata p) u) u)
          else Some u);
     if ev AND EPOLLIN \<noteq> 0 then do {
       p \<leftarrow> peer u;
       p \<leftarrow> recv_chunks rs 0 (p\<lparr>chunk_count := 0\<rparr>);
       let u = u\<lparr>peer := Some p\<rparr>;
       if chunk_count p > 0 \<and> messagecb p \<noteq> None then deliver fails cb (unat (chunk_count p)) 0 u
       else Some ([], u) }
     else Some ([], u) }"

text \<open>\<open>result\<close> is what \<^verbatim>\<open>sendto\<close> returns.\<close>

definition udp_peer_send :: "bool \<Rightarrow> bool \<Rightarrow> bool \<Rightarrow> u32 \<Rightarrow> int \<Rightarrow> int" where
  "udp_peer_send has_peer has_message has_addr len result =
     (if \<not> has_peer \<or> \<not> has_message \<or> len = 0 \<or> 65535 < len \<or> \<not> has_addr then - 1
      else if len \<noteq> of_int result then - 1 else 0)"

section \<open>The lifetime invariant\<close>

text \<open>
  Requests of clients, made in the thread of the loop (\<open>here\<close>) or in another, and the loop
  running its tasks. No request follows the one to destroy the peer, and the loop's own thread
  makes none before the first task of the peer has run.
\<close>

datatype p_event = Ask_Message bool ptr ptr | Ask_Write bool ptr ptr | Ask_Destroy bool | Run_Task

definition p_exec :: "p_event \<Rightarrow> udp \<Rightarrow> udp option" where
  "p_exec e u =
     (case e of
        Ask_Message here cb ud \<Rightarrow> map_option snd (udp_peer_onmessage no_fail here cb ud u)
      | Ask_Write here cb ud \<Rightarrow> map_option snd (udp_peer_onwrite no_fail here cb ud u)
      | Ask_Destroy here \<Rightarrow> udp_peer_destroy no_fail here u
      | Run_Task \<Rightarrow> run_head no_fail u)"

definition p_allowed :: "bool \<Rightarrow> p_event \<Rightarrow> udp \<Rightarrow> bool" where
  "p_allowed asked e u =
     (case e of
        Ask_Message here cb ud \<Rightarrow> \<not> asked \<and> (here \<longrightarrow> Init_Event \<notin> set (p_tasks u))
      | Ask_Write here cb ud \<Rightarrow> \<not> asked \<and> (here \<longrightarrow> Init_Event \<notin> set (p_tasks u))
      | Ask_Destroy here \<Rightarrow> \<not> asked \<and> (here \<longrightarrow> Init_Event \<notin> set (p_tasks u))
      | Run_Task \<Rightarrow> True)"

definition asks :: "bool \<Rightarrow> p_event \<Rightarrow> bool" where
  "asks asked e = (case e of Ask_Destroy here \<Rightarrow> True | _ \<Rightarrow> asked)"

primrec p_run :: "bool \<Rightarrow> p_event list \<Rightarrow> udp \<Rightarrow> (bool \<times> udp) option" where
  "p_run asked [] u = Some (asked, u)"
| "p_run asked (e # es) u = Option.bind (p_exec e u) (p_run (asks asked e) es)"

primrec p_allowed_all :: "bool \<Rightarrow> p_event list \<Rightarrow> udp \<Rightarrow> bool" where
  "p_allowed_all asked [] u = True"
| "p_allowed_all asked (e # es) u \<longleftrightarrow> p_allowed asked e u \<and>
     (case p_exec e u of None \<Rightarrow> True | Some u' \<Rightarrow> p_allowed_all (asks asked e) es u')"

fun is_notify :: "p_task \<Rightarrow> bool" where
  "is_notify (Notify_Message _ _) = True"
| "is_notify (Notify_Write _ _) = True"
| "is_notify _ = False"

definition notifies :: "p_task list \<Rightarrow> nat" where
  "notifies ts = length (filter is_notify ts)"

definition destroys :: "p_task list \<Rightarrow> nat" where
  "destroys ts = length (filter ((=) Do_Destroy) ts)"

text \<open>
  The references are those of the pending notifications and that of the owner, which the task of
  the destruction drops; a peer that was freed has no task left.
\<close>

definition refs :: "bool \<Rightarrow> p_task list \<Rightarrow> nat" where
  "refs asked ts = notifies ts + (if asked \<and> destroys ts = 0 then 0 else 1)"

definition tasks_ok :: "bool \<Rightarrow> p_task list \<Rightarrow> bool" where
  "tasks_ok asked ts \<longleftrightarrow> Init_Event \<notin> set (tl ts) \<and> destroys ts \<le> (if asked then 1 else 0)"

definition peer_ok :: "reactor \<Rightarrow> udp_peer \<Rightarrow> nat \<Rightarrow> bool" where
  "peer_ok R p n \<longleftrightarrow> (\<exists>c. p_channel p = Some c \<and> usable R c True) \<and> ref_count p = int n \<and> 0 < n"

definition peer_inv :: "bool \<Rightarrow> addr set \<Rightarrow> addr set \<Rightarrow> udp \<Rightarrow> bool" where
  "peer_inv asked A B u \<longleftrightarrow> serving (reactor u) A B \<and>
     (case peer u of None \<Rightarrow> asked \<and> p_tasks u = []
      | Some p \<Rightarrow> tasks_ok asked (p_tasks u) \<and> peer_ok (reactor u) p (refs asked (p_tasks u)))"

lemma counts_simps [simp]:
  "notifies [] = 0" "destroys [] = 0"
  "notifies (Notify_Message cb ud # ts) = Suc (notifies ts)" "notifies (Notify_Write cb ud # ts) = Suc (notifies ts)"
  "notifies (Init_Event # ts) = notifies ts" "notifies (Do_Destroy # ts) = notifies ts"
  "destroys (Notify_Message cb ud # ts) = destroys ts" "destroys (Notify_Write cb ud # ts) = destroys ts"
  "destroys (Init_Event # ts) = destroys ts" "destroys (Do_Destroy # ts) = Suc (destroys ts)"
  "notifies (ts @ us) = notifies ts + notifies us" "destroys (ts @ us) = destroys ts + destroys us"
  by (simp_all add: notifies_def destroys_def)

lemma no_tasks:
  assumes "notifies ts = 0" and "destroys ts = 0" and "Init_Event \<notin> set ts"
  shows "ts = []"
proof (cases ts)
  case (Cons t us)
  then show ?thesis using assms by (cases t) simp_all
qed simp

lemma upd_p_simps [simp]: "peer u = Some p \<Longrightarrow> upd_p f u = Some (u\<lparr>peer := Some (f p)\<rparr>)"
  by (simp add: upd_p_def)

lemma delete_serving:
  assumes R: "serving (reactor u) A B" and p: "peer u = Some p" "p_channel p = Some c" and c: "usable (reactor u) c True"
  shows "\<exists>u'. delete_udp_peer no_fail u = Some u' \<and> peer u' = None \<and> serving (reactor u') A B \<and> p_tasks u' = p_tasks u"
proof -
  from detach_serving [OF R c] obtain R1 n where
    R1: "channel_detach no_fail True (Some c) (reactor u) = Some R1" "serving R1 A B" "chans R1 c = Some n" "\<not> is_monitored n"
    by blast
  from destroy_serving [OF R1(2-4)] obtain R2 where R2: "channel_destroy (Some c) R1 = Some R2" "serving R2 A B" by blast
  show ?thesis using p R1(1) R2 by (simp add: delete_udp_peer_def)
qed

text \<open>A task runs on a peer that its reference keeps alive.\<close>

lemma notify_inv:
  assumes R: "serving (reactor u) A B" and p: "peer u = Some p" "p_channel p = Some c" and c: "usable (reactor u) c True"
    and r: "ref_count p = int (Suc n)"
  shows "\<exists>u'. do_udp_peer_onmessage no_fail cb ud u = Some u' \<and> serving (reactor u') A B \<and> p_tasks u' = p_tasks u \<and>
      (case peer u' of None \<Rightarrow> n = 0 | Some p' \<Rightarrow> peer_ok (reactor u') p' n)" (is ?message)
    and "\<exists>u'. do_udp_peer_onwrite no_fail cb ud u = Some u' \<and> serving (reactor u') A B \<and> p_tasks u' = p_tasks u \<and>
      (case peer u' of None \<Rightarrow> n = 0 | Some p' \<Rightarrow> peer_ok (reactor u') p' n)" (is ?written)
proof -
  from setevent_serving [OF R c, of EPOLLIN] obtain R1 where
    R1: "channel_setevent no_fail True (Some c) EPOLLIN (reactor u) = Some (0, R1)" "serving R1 A B" "usable R1 c True" by blast
  from clearevent_serving [OF R c, of EPOLLIN] obtain R2 where
    R2: "channel_clearevent no_fail True (Some c) EPOLLIN (reactor u) = Some (0, R2)" "serving R2 A B" "usable R2 c True" by blast
  from setevent_serving [OF R c, of EPOLLOUT] obtain R3 where
    R3: "channel_setevent no_fail True (Some c) EPOLLOUT (reactor u) = Some (0, R3)" "serving R3 A B" "usable R3 c True" by blast
  from clearevent_serving [OF R c, of EPOLLOUT] obtain R4 where
    R4: "channel_clearevent no_fail True (Some c) EPOLLOUT (reactor u) = Some (0, R4)" "serving R4 A B" "usable R4 c True" by blast
  let ?p = "p\<lparr>messagecb := cb, message_userdata := ud, ref_count := int n\<rparr>"
  let ?q = "p\<lparr>writecb := cb, write_userdata := ud, ref_count := int n\<rparr>"
  show ?message
  proof (cases "n = 0")
    case True
    have "serving (reactor (u\<lparr>peer := Some ?p\<rparr>)) A B" "peer (u\<lparr>peer := Some ?p\<rparr>) = Some ?p" "p_channel ?p = Some c"
      "usable (reactor (u\<lparr>peer := Some ?p\<rparr>)) c True" using R p c by simp_all
    from delete_serving [OF this] obtain u' where "delete_udp_peer no_fail (u\<lparr>peer := Some ?p\<rparr>) = Some u'" "peer u' = None"
      "serving (reactor u') A B" "p_tasks u' = p_tasks u" by auto
    then show ?thesis using p r True by (simp add: do_udp_peer_onmessage_def)
  next
    case False
    then show ?thesis
      using p r R1 R2 by (cases cb) (simp_all add: do_udp_peer_onmessage_def peer_ok_def)
  qed
  show ?written
  proof (cases "n = 0")
    case True
    have "serving (reactor (u\<lparr>peer := Some ?q\<rparr>)) A B" "peer (u\<lparr>peer := Some ?q\<rparr>) = Some ?q" "p_channel ?q = Some c"
      "usable (reactor (u\<lparr>peer := Some ?q\<rparr>)) c True" using R p c by simp_all
    from delete_serving [OF this] obtain u' where "delete_udp_peer no_fail (u\<lparr>peer := Some ?q\<rparr>) = Some u'" "peer u' = None"
      "serving (reactor u') A B" "p_tasks u' = p_tasks u" by auto
    then show ?thesis using p r True by (simp add: do_udp_peer_onwrite_def)
  next
    case False
    then show ?thesis
      using p r R3 R4 by (cases cb) (simp_all add: do_udp_peer_onwrite_def peer_ok_def)
  qed
qed

lemma destroy_inv:
  assumes R: "serving (reactor u) A B" and p: "peer u = Some p" "p_channel p = Some c" and c: "usable (reactor u) c True"
    and r: "ref_count p = int (Suc n)"
  shows "\<exists>u'. do_udp_peer_destroy no_fail u = Some u' \<and> serving (reactor u') A B \<and> p_tasks u' = p_tasks u \<and>
      (case peer u' of None \<Rightarrow> n = 0 | Some p' \<Rightarrow> peer_ok (reactor u') p' n)"
proof (cases "n = 0")
  case True
  let ?p = "p\<lparr>ref_count := int n\<rparr>"
  have "serving (reactor (u\<lparr>peer := Some ?p\<rparr>)) A B" "peer (u\<lparr>peer := Some ?p\<rparr>) = Some ?p" "p_channel ?p = Some c"
    "usable (reactor (u\<lparr>peer := Some ?p\<rparr>)) c True" using R p c by simp_all
  from delete_serving [OF this] obtain u' where "delete_udp_peer no_fail (u\<lparr>peer := Some ?p\<rparr>) = Some u'" "peer u' = None"
    "serving (reactor u') A B" "p_tasks u' = p_tasks u" by auto
  then show ?thesis using p r True by (simp add: do_udp_peer_destroy_def)
next
  case False
  then show ?thesis using p r R c by (simp add: do_udp_peer_destroy_def peer_ok_def)
qed

lemma run_task_inv:
  assumes "peer_inv asked A B (u\<lparr>p_tasks := t # p_tasks u\<rparr>)"
  shows "\<exists>u'. run_p_task no_fail t u = Some u' \<and> peer_inv asked A B u'"
proof -
  obtain p where p: "peer u = Some p" and R: "serving (reactor u) A B"
    and ts: "tasks_ok asked (t # p_tasks u)" and ok: "peer_ok (reactor u) p (refs asked (t # p_tasks u))"
    using assms by (auto simp: peer_inv_def split: option.splits)
  then obtain c where c: "p_channel p = Some c" "usable (reactor u) c True" by (auto simp: peer_ok_def)
  have init: "Init_Event \<notin> set (p_tasks u)" using ts by (simp add: tasks_ok_def)
  then have tl: "Init_Event \<notin> set (tl (p_tasks u))" by (cases "p_tasks u") simp_all
  have ref: "ref_count p = int (refs asked (t # p_tasks u))" using ok by (simp add: peer_ok_def)
  have fin: "peer_inv asked A B u'"
    if u': "serving (reactor u') A B" "p_tasks u' = p_tasks u"
      "case peer u' of None \<Rightarrow> refs asked (p_tasks u) = 0 | Some p' \<Rightarrow> peer_ok (reactor u') p' (refs asked (p_tasks u))"
      and d: "destroys (p_tasks u) \<le> destroys (t # p_tasks u)" for u'
  proof (cases "peer u'")
    case None
    then have "notifies (p_tasks u) = 0" "asked" "destroys (p_tasks u) = 0" using u'(3) by (auto simp: refs_def split: if_splits)
    then show ?thesis using no_tasks [OF _ _ init] None u' by (simp add: peer_inv_def)
  next
    case (Some p')
    have "tasks_ok asked (p_tasks u)" using ts d tl by (simp add: tasks_ok_def split: if_splits)
    then show ?thesis using u' Some by (simp add: peer_inv_def)
  qed
  show ?thesis
  proof (cases t)
    case Init_Event
    from setevent_serving [OF R c(2), of "if writecb p \<noteq> None then EPOLLIN OR EPOLLOUT else EPOLLIN"] obtain R1 where
      R1: "channel_setevent no_fail True (Some c) (if writecb p \<noteq> None then EPOLLIN OR EPOLLOUT else EPOLLIN) (reactor u) = Some (0, R1)"
        "serving R1 A B" "usable R1 c True" by blast
    have "run_p_task no_fail t u = Some (u\<lparr>reactor := R1\<rparr>)"
      using p c R1(1) Init_Event by (simp add: run_p_task_def init_udp_peer_event_def)
    moreover have "peer_ok R1 p (refs asked (p_tasks u))"
      using ok c(1) R1(3) Init_Event by (simp add: peer_ok_def refs_def)
    ultimately show ?thesis using fin [of "u\<lparr>reactor := R1\<rparr>"] R1(2) p Init_Event by simp
  next
    case (Notify_Message cb ud)
    then have "ref_count p = int (Suc (refs asked (p_tasks u)))" using ref by (simp add: refs_def)
    from notify_inv(1) [OF R p c this, of cb ud] fin Notify_Message show ?thesis by (auto simp: run_p_task_def)
  next
    case (Notify_Write cb ud)
    then have "ref_count p = int (Suc (refs asked (p_tasks u)))" using ref by (simp add: refs_def)
    from notify_inv(2) [OF R p c this, of cb ud] fin Notify_Write show ?thesis by (auto simp: run_p_task_def)
  next
    case Do_Destroy
    then have "asked" "destroys (p_tasks u) = 0" using ts by (auto simp: tasks_ok_def split: if_splits)
    then have "ref_count p = int (Suc (refs asked (p_tasks u)))" using ref Do_Destroy by (simp add: refs_def)
    from destroy_inv [OF R p c this] fin Do_Destroy show ?thesis by (auto simp: run_p_task_def)
  qed
qed

lemma tl_append_set: "x \<notin> set (tl ts) \<Longrightarrow> x \<noteq> t \<Longrightarrow> x \<notin> set (tl (ts @ [t]))"
  by (cases ts) simp_all

lemma notify_counts:
  assumes "is_notify t"
  shows "notifies (t # ts) = Suc (notifies ts)" "destroys (t # ts) = destroys ts" "t \<noteq> Init_Event"
  using assms by (cases t; simp)+

lemma tasks_ok_push:
  assumes "tasks_ok False ts" and "Init_Event \<notin> set ts \<or> here = False" and "is_notify t"
  shows "here \<Longrightarrow> tasks_ok False (t # ts)" and "tasks_ok False (ts @ [t])"
    and "refs False (t # ts) = Suc (refs False ts)" and "refs False (ts @ [t]) = Suc (refs False ts)"
  using assms(1, 2) notify_counts(1, 2) [OF assms(3), of ts] notify_counts(1, 2) [OF assms(3), of "[]"] notify_counts(3) [OF assms(3)] tl_append_set [of Init_Event ts t]
  by (simp_all add: tasks_ok_def refs_def)

lemma tasks_ok_destroy:
  assumes "tasks_ok False ts" and "Init_Event \<notin> set ts \<or> here = False"
  shows "here \<Longrightarrow> tasks_ok True (Do_Destroy # ts)" and "tasks_ok True (ts @ [Do_Destroy])"
    and "refs True (Do_Destroy # ts) = refs False ts" and "refs True (ts @ [Do_Destroy]) = refs False ts"
  using assms tl_append_set [of Init_Event ts Do_Destroy] by (simp_all add: tasks_ok_def refs_def)

lemma peer_ok_more: "peer_ok R p n \<Longrightarrow> peer_ok R (p\<lparr>ref_count := ref_count p + 1\<rparr>) (Suc n)"
  by (simp add: peer_ok_def)

text \<open>A request: its task runs at once or waits for the loop.\<close>

lemma request_inv:
  assumes u: "peer_inv asked' A B (u\<lparr>p_tasks := t # p_tasks u\<rparr>) \<or> \<not> here" "peer_inv asked' A B (u\<lparr>p_tasks := p_tasks u @ [t]\<rparr>) \<or> here"
  shows "\<exists>u'. p_run_inloop no_fail here t u = Some u' \<and> peer_inv asked' A B u'"
  using u run_task_inv by (cases here) (auto simp: p_run_inloop_def)

lemma event_inv:
  assumes u: "peer_inv asked A B u" and e: "p_allowed asked e u"
  shows "\<exists>u'. p_exec e u = Some u' \<and> peer_inv (asks asked e) A B u'"
proof -
  have notify: "\<exists>u'. p_run_inloop no_fail here t (u\<lparr>peer := Some (p\<lparr>ref_count := ref_count p + 1\<rparr>)\<rparr>) = Some u' \<and>
      peer_inv asked A B u'"
    if p: "peer u = Some p" and t: "is_notify t" and legal: "\<not> asked" "here \<longrightarrow> Init_Event \<notin> set (p_tasks u)" for here t p
  proof -
    have ok: "serving (reactor u) A B" "tasks_ok False (p_tasks u)" "peer_ok (reactor u) p (refs False (p_tasks u))"
      using u p legal(1) by (simp_all add: peer_inv_def)
    have "Init_Event \<notin> set (p_tasks u) \<or> here = False" using legal(2) by blast
    note ts = tasks_ok_push [OF ok(2) this t]
    show ?thesis
      using ok ts peer_ok_more [OF ok(3)] legal(1) by (intro request_inv) (auto simp: peer_inv_def)
  qed
  have live: "\<exists>p. peer u = Some p" if "\<not> asked" using u that by (auto simp: peer_inv_def split: option.splits)
  show ?thesis
  proof (cases e)
    case (Ask_Message here cb ud)
    then have legal: "\<not> asked" "here \<longrightarrow> Init_Event \<notin> set (p_tasks u)" using e by (simp_all add: p_allowed_def)
    obtain p where p: "peer u = Some p" using live [OF legal(1)] by blast
    from notify [OF p _ legal, of "Notify_Message cb ud"] obtain u' where
      "p_run_inloop no_fail here (Notify_Message cb ud) (u\<lparr>peer := Some (p\<lparr>ref_count := ref_count p + 1\<rparr>)\<rparr>) = Some u'"
      "peer_inv asked A B u'" by auto
    then show ?thesis using p Ask_Message by (simp add: p_exec_def udp_peer_onmessage_def asks_def)
  next
    case (Ask_Write here cb ud)
    then have legal: "\<not> asked" "here \<longrightarrow> Init_Event \<notin> set (p_tasks u)" using e by (simp_all add: p_allowed_def)
    obtain p where p: "peer u = Some p" using live [OF legal(1)] by blast
    from notify [OF p _ legal, of "Notify_Write cb ud"] obtain u' where
      "p_run_inloop no_fail here (Notify_Write cb ud) (u\<lparr>peer := Some (p\<lparr>ref_count := ref_count p + 1\<rparr>)\<rparr>) = Some u'"
      "peer_inv asked A B u'" by auto
    then show ?thesis using p Ask_Write by (simp add: p_exec_def udp_peer_onwrite_def asks_def)
  next
    case (Ask_Destroy here)
    then have legal: "\<not> asked" "here \<longrightarrow> Init_Event \<notin> set (p_tasks u)" using e by (simp_all add: p_allowed_def)
    obtain p where p: "peer u = Some p" using live [OF legal(1)] by blast
    have ok: "serving (reactor u) A B" "tasks_ok False (p_tasks u)" "peer_ok (reactor u) p (refs False (p_tasks u))"
      using u p legal(1) by (simp_all add: peer_inv_def)
    have "Init_Event \<notin> set (p_tasks u) \<or> here = False" using legal(2) by blast
    note ts = tasks_ok_destroy [OF ok(2) this]
    have "\<exists>u'. p_run_inloop no_fail here Do_Destroy u = Some u' \<and> peer_inv True A B u'"
      using ok ts p by (intro request_inv) (auto simp: peer_inv_def)
    then show ?thesis using p Ask_Destroy by (simp add: p_exec_def udp_peer_destroy_def asks_def)
  next
    case Run_Task
    show ?thesis
    proof (cases "p_tasks u")
      case Nil
      then show ?thesis using u Run_Task by (simp add: p_exec_def run_head_def asks_def)
    next
      case (Cons t ts)
      have "u\<lparr>p_tasks := t # p_tasks (u\<lparr>p_tasks := ts\<rparr>)\<rparr> = u" using Cons by (cases u) simp
      then have "peer_inv asked A B ((u\<lparr>p_tasks := ts\<rparr>)\<lparr>p_tasks := t # p_tasks (u\<lparr>p_tasks := ts\<rparr>)\<rparr>)"
        using u by simp
      from run_task_inv [OF this] show ?thesis using Cons Run_Task by (simp add: p_exec_def run_head_def asks_def)
    qed
  qed
qed

lemma events_inv:
  assumes "peer_inv asked A B u" and "p_allowed_all asked es u"
  shows "\<exists>asked' u'. p_run asked es u = Some (asked', u') \<and> peer_inv asked' A B u'"
  using assms
proof (induction es arbitrary: asked u)
  case (Cons e es)
  have "p_allowed asked e u" using Cons.prems(2) by simp
  from event_inv [OF Cons.prems(1) this] obtain u1 where u1: "p_exec e u = Some u1" "peer_inv (asks asked e) A B u1" by blast
  moreover have "p_allowed_all (asks asked e) es u1" using Cons.prems(2) u1(1) by simp
  ultimately show ?case using Cons.IH by auto
qed simp

lemma freed_iff:
  assumes "peer_inv asked A B u"
  shows "peer u = None \<longleftrightarrow> asked \<and> p_tasks u = []"
  using assms by (auto simp: peer_inv_def peer_ok_def refs_def split: option.splits)

lemma new_inv:
  assumes R: "serving R A B" and c: "chans R c = None" and sock: "0 \<le> sock" "interest R sock = None"
  shows "\<exists>u. udp_peer_new no_fail here True True (Some f) wc ud sock c zeros R = Some u \<and> peer_inv False A B u"
proof -
  from new_serving [OF R c, of sock 0 None] sock(1) obtain R1 where
    R1: "channel_new c sock True (Some 0) None R = Some (Some c, R1)" "serving R1 A B"
    using c by (auto simp: channel_new_def)
  then have us: "usable R1 c True"
    using sock c by (auto simp: channel_new_def usable_def split: if_splits)
  let ?p = "\<lparr>ref_count = 1, messagecb = Some f, message_userdata = ud, writecb = wc,
             write_userdata = ud, p_fd = sock, p_channel = Some c, port = 0, chunk_count = 0, in_data = zeros\<rparr>"
  let ?u = "\<lparr>peer = Some ?p, reactor = R1, p_tasks = []\<rparr>"
  have "peer_inv False A B (?u\<lparr>p_tasks := Init_Event # p_tasks ?u\<rparr>)" "peer_inv False A B (?u\<lparr>p_tasks := p_tasks ?u @ [Init_Event]\<rparr>)"
    using R1(2) us by (simp_all add: peer_inv_def tasks_ok_def peer_ok_def refs_def)
  then have "\<exists>u'. p_run_inloop no_fail here Init_Event ?u = Some u' \<and> peer_inv False A B u'"
    by (intro request_inv) simp_all
  then show ?thesis using R1(1) sock(1) by (simp add: udp_peer_new_def)
qed

section \<open>The frames of a batch\<close>

type_synonym datagram = "u8 list \<times> u8 list"

definition dg :: "datagram \<Rightarrow> recv_result" where
  "dg d = Datagram (fst d) (snd d)"

definition frame :: "datagram \<Rightarrow> u8 list" where
  "frame d = size_bytes (length (fst d)) @ snd d @ fst d"

definition frames :: "datagram list \<Rightarrow> u8 list" where
  "frames ds = concat (map frame ds)"

text \<open>A datagram of at most \<open>n\<close> bytes, with an address.\<close>

definition dg_ok :: "nat \<Rightarrow> datagram \<Rightarrow> bool" where
  "dg_ok n d \<longleftrightarrow> 0 < length (fst d) \<and> length (fst d) \<le> n \<and> length (snd d) = 18"

lemma frames_simps [simp]: "frames [] = []" "frames (d # ds) = frame d @ frames ds"
  by (simp_all add: frames_def)

lemma size_bytes_length [simp]: "length (size_bytes n) = 2"
  by (simp add: size_bytes_def)

lemma frame_length: "dg_ok n d \<Longrightarrow> length (frame d) = 20 + length (fst d)"
  by (simp add: frame_def dg_ok_def)

lemma bytes_size_bytes:
  assumes "n < 65536"
  shows "bytes_size (size_bytes n) = n"
proof -
  have "unat (of_nat n :: u8) = n mod 256" "unat (of_nat (n div 256) :: u8) = n div 256 mod 256"
    by (simp_all add: unsigned_of_nat take_bit_eq_mod)
  moreover have "n div 256 < 256" using assms by (simp add: less_mult_imp_div_less)
  ultimately show ?thesis by (simp add: bytes_size_def size_bytes_def)
qed

lemma write_at_mid: "length X = length bs \<Longrightarrow> length A = i \<Longrightarrow> write_at i bs (A @ X @ B) = Some (A @ bs @ B)"
  by (auto simp: write_at_def)

lemma read_at_mid: "length A = i \<Longrightarrow> length X = n \<Longrightarrow> read_at i n (A @ X @ B) = Some X"
  by (auto simp: read_at_def)

text \<open>The room left at an offset, as the code computes it.\<close>

lemma room_left:
  assumes "off \<le> 524420"
  shows "of_nat data_size - (of_nat off + 2 + 18) = (of_nat (524420 - off) :: u32)"
proof -
  have "of_nat data_size = (of_nat (524420 - off) + of_nat off + 20 :: u32)"
    using assms by (simp add: data_size_def flip: of_nat_add)
  then show ?thesis by simp
qed

lemma unat_small32: "n < 2 ^ 32 \<Longrightarrow> unat (of_nat n :: u32) = n"
  by (rule unat_of_nat32)

lemma room_ok:
  assumes "off \<le> 524420"
  shows "(of_nat data_size - (of_nat off + 2 + 18) < (65507 :: u32)) \<longleftrightarrow> 458913 < off"
    "unat (of_nat data_size - (of_nat off + 2 + 18) :: u32) = 524420 - off"
proof -
  have u: "unat (of_nat (524420 - off) :: u32) = 524420 - off" by (rule unat_small32) simp
  show "unat (of_nat data_size - (of_nat off + 2 + 18) :: u32) = 524420 - off"
    unfolding room_left [OF assms] by (rule u)
  show "(of_nat data_size - (of_nat off + 2 + 18) < (65507 :: u32)) \<longleftrightarrow> 458913 < off"
    unfolding room_left [OF assms] word_less_nat_alt u using assms by auto
qed

lemma split_drop: "drop i d = take n (drop i d) @ drop (i + n) d"
  by (metis append_take_drop_id drop_drop add.commute)

lemma recv_step:
  assumes off: "off \<le> 458913" and d: "dg_ok 65507 d" and len: "length (in_data p) = data_size"
  shows "\<exists>D. recv_chunks (dg d # rs) (of_nat off) p =
      recv_chunks rs (of_nat (off + length (frame d))) (p\<lparr>in_data := D, chunk_count := chunk_count p + 1\<rparr>) \<and>
    length D = data_size \<and> take (off + length (frame d)) D = take off (in_data p) @ frame d"
proof -
  obtain m f where mf: "d = (m, f)" by (cases d)
  have fl: "length (frame d) = 20 + length m" by (simp only: frame_length [OF d]) (simp add: mf)
  have m: "0 < length m" "length m \<le> 65507" "length f = 18" using d by (simp_all add: dg_ok_def mf)
  let ?d = "in_data p"
  define A S F M B where "A = take off ?d" and "S = take 2 (drop off ?d)" and "F = take 18 (drop (off + 2) ?d)"
    and "M = take (length m) (drop (off + 20) ?d)" and "B = drop (off + 20 + length m) ?d"
  have room: "off + 20 + length m \<le> length ?d" using off m(2) len by (simp add: data_size_def)
  have split: "?d = A @ S @ F @ M @ B"
  proof -
    have "drop off ?d = S @ drop (off + 2) ?d" unfolding S_def by (rule split_drop)
    moreover have "drop (off + 2) ?d = F @ drop (off + 2 + 18) ?d" unfolding F_def by (rule split_drop)
    moreover have "drop (off + 20) ?d = M @ B" unfolding M_def B_def by (rule split_drop)
    moreover have "off + 2 + 18 = off + 20" by simp
    ultimately show ?thesis unfolding A_def by (metis append_take_drop_id)
  qed
  have l: "length A = off" "length S = 2" "length F = 18" "length M = length m"
    using room by (simp_all add: A_def S_def F_def M_def)
  let ?D = "A @ size_bytes (length m) @ f @ m @ B"
  have w1: "write_at (off + 20) m ?d = Some (A @ S @ F @ m @ B)"
    using write_at_mid [of M m "A @ S @ F" "off + 20" B] l split by simp
  have w2: "write_at off (size_bytes (length m)) (A @ S @ F @ m @ B) = Some (A @ size_bytes (length m) @ F @ m @ B)"
    using write_at_mid [of S "size_bytes (length m)" A off "F @ m @ B"] l by simp
  have w3: "write_at (off + 2) f (A @ size_bytes (length m) @ F @ m @ B) = Some ?D"
    using write_at_mid [of F f "A @ size_bytes (length m)" "off + 2" "m @ B"] l m(3) by simp
  have dgm: "dg d = Datagram m f" by (simp add: dg_def mf)
  have ne: "m \<noteq> []" using m(1) by simp
  have o: "off \<le> 524420" using off by simp
  have got: "take (524420 - off) m = m" using m(2) off by simp
  have un: "unat (of_nat off :: u32) = off" by (rule unat_small32) (use off in simp)
  have more: "(of_nat off + 2 + 18 + of_nat (length m) :: u32) = of_nat (off + length (frame d))"
    by (simp add: fl)
  have big: "\<not> of_nat data_size - (of_nat off + 2 + 18) < (65507 :: u32)" using room_ok(1) [OF o] off by simp
  have "recv_chunks (dg d # rs) (of_nat off) p =
      recv_chunks rs (of_nat (off + length (frame d))) (p\<lparr>in_data := ?D, chunk_count := chunk_count p + 1\<rparr>)"
    by (simp only: dgm recv_chunks.simps(2) Let_def if_not_P [OF big] recv_result.case if_not_P [OF ne]
        room_ok(2) [OF o] got un w1 w2 w3 bind.bind_lunit more)
  moreover have "length ?D = data_size" using split l len m(3) by simp
  moreover have "take (off + length (frame d)) ?D = A @ frame d"
    using l m(3) unfolding fl by (simp add: mf frame_def)
  ultimately show ?thesis unfolding A_def by blast
qed

lemma dg_ok_mono: "dg_ok m d \<Longrightarrow> m \<le> n \<Longrightarrow> dg_ok n d"
  by (simp add: dg_ok_def)

lemma recv_law:
  assumes "\<forall>d \<in> set ds. dg_ok 65487 d" and "off \<le> 524420" and "length (in_data p) = data_size"
  shows "\<exists>k D. recv_chunks (map dg ds) (of_nat off) p = Some (p\<lparr>in_data := D, chunk_count := chunk_count p + of_nat k\<rparr>) \<and>
    k \<le> length ds \<and> length D = data_size \<and>
    take (off + length (frames (take k ds))) D = take off (in_data p) @ frames (take k ds) \<and>
    off + length (frames (take k ds)) \<le> 524420 \<and> (k = length ds \<or> 458913 < off + length (frames (take k ds)))"
  using assms
proof (induction ds arbitrary: off p)
  case Nil
  then show ?case by (intro exI [of _ 0] exI [of _ "in_data p"]) simp
next
  case (Cons d ds)
  show ?case
  proof (cases "458913 < off")
    case True
    then have "recv_chunks (map dg (d # ds)) (of_nat off) p = Some p"
      using room_ok(1) [OF Cons.prems(2)] by (simp add: Let_def)
    then show ?thesis using True Cons.prems by (intro exI [of _ 0] exI [of _ "in_data p"]) simp
  next
    case False
    have d: "dg_ok 65507 d" "length (frame d) \<le> 65507"
      using Cons.prems(1) dg_ok_mono [of 65487 d 65507] frame_length [of 65487 d] by (auto simp: dg_ok_def)
    have off: "off \<le> 458913" using False by simp
    from recv_step [OF off d(1) Cons.prems(3), of "map dg ds"] obtain D1 where
      D1: "recv_chunks (map dg (d # ds)) (of_nat off) p =
        recv_chunks (map dg ds) (of_nat (off + length (frame d))) (p\<lparr>in_data := D1, chunk_count := chunk_count p + 1\<rparr>)"
        "length D1 = data_size" "take (off + length (frame d)) D1 = take off (in_data p) @ frame d" by auto
    let ?p = "p\<lparr>in_data := D1, chunk_count := chunk_count p + 1\<rparr>" and ?off = "off + length (frame d)"
    have "\<forall>d \<in> set ds. dg_ok 65487 d" "?off \<le> 524420" "length (in_data ?p) = data_size"
      using Cons.prems(1) off d(2) D1(2) by simp_all
    from Cons.IH [OF this] obtain k D where
      k: "recv_chunks (map dg ds) (of_nat ?off) ?p = Some (?p\<lparr>in_data := D, chunk_count := chunk_count ?p + of_nat k\<rparr>)"
        "k \<le> length ds" "length D = data_size"
        "take (?off + length (frames (take k ds))) D = take ?off (in_data ?p) @ frames (take k ds)"
        "?off + length (frames (take k ds)) \<le> 524420" "k = length ds \<or> 458913 < ?off + length (frames (take k ds))" by blast
    have "recv_chunks (map dg (d # ds)) (of_nat off) p = Some (p\<lparr>in_data := D, chunk_count := chunk_count p + of_nat (Suc k)\<rparr>)"
      unfolding D1(1) k(1) by (simp add: add.assoc)
    then show ?thesis
      using k(2-6) D1(3) by (intro exI [of _ "Suc k"] exI [of _ D]) (simp add: add.assoc)
  qed
qed

text \<open>
  What a message callback may ask without ending the delivery: a new message callback, but not its
  removal, and any change of the write callback, but not the destruction.
\<close>

fun mild :: "u_action \<Rightarrow> bool" where
  "mild (U_Onmessage cb ud) \<longleftrightarrow> cb \<noteq> None"
| "mild (U_Onwrite cb ud) \<longleftrightarrow> True"
| "mild U_Destroy \<longleftrightarrow> False"

definition mild_callback :: "on_message_f \<Rightarrow> bool" where
  "mild_callback cb \<longleftrightarrow> (\<forall>f m ud a u. \<forall>x \<in> set (cb f m ud a u). mild x)"

lemma delete_gone: "delete_udp_peer fails u = Some u' \<Longrightarrow> peer u' = None"
  by (auto simp: delete_udp_peer_def split: bind_splits)

definition same_buffer :: "udp_peer \<Rightarrow> udp_peer \<Rightarrow> bool" where
  "same_buffer p p' \<longleftrightarrow> in_data p' = in_data p \<and> chunk_count p' = chunk_count p"

lemma notify_frame:
  assumes p: "peer u = Some p" and p': "peer u' = Some p'"
  shows "do_udp_peer_onmessage fails cb ud u = Some u' \<Longrightarrow> same_buffer p p' \<and> messagecb p' = cb \<and> p_tasks u' = p_tasks u"
    and "do_udp_peer_onwrite fails cb ud u = Some u' \<Longrightarrow> same_buffer p p' \<and> messagecb p' = messagecb p \<and> p_tasks u' = p_tasks u"
  using p p' delete_gone
  by (fastforce simp: do_udp_peer_onmessage_def do_udp_peer_onwrite_def same_buffer_def split: bind_splits if_splits)+

lemma mild_action:
  assumes u: "peer_inv False A B u" "Init_Event \<notin> set (p_tasks u)" and p: "peer u = Some p" "messagecb p \<noteq> None" and x: "mild x"
  shows "\<exists>u' p'. do_u_action no_fail x u = Some u' \<and> peer_inv False A B u' \<and> Init_Event \<notin> set (p_tasks u') \<and>
    peer u' = Some p' \<and> messagecb p' \<noteq> None \<and> same_buffer p p'"
proof -
  have live: "\<exists>p'. peer u' = Some p'" if "peer_inv False A B u'" for u'
    using freed_iff [OF that] by auto
  let ?u = "u\<lparr>peer := Some (p\<lparr>ref_count := ref_count p + 1\<rparr>)\<rparr>"
  have u': "peer ?u = Some (p\<lparr>ref_count := ref_count p + 1\<rparr>)" "p_tasks ?u = p_tasks u" by simp_all
  have same: "same_buffer (p\<lparr>ref_count := ref_count p + 1\<rparr>) p' = same_buffer p p'" for p'
    by (simp add: same_buffer_def)
  show ?thesis
  proof (cases x)
    case (U_Onmessage cb ud)
    have "p_allowed False (Ask_Message True cb ud) u" using u(2) by (simp add: p_allowed_def)
    from event_inv [OF u(1) this] obtain v where
      v: "p_exec (Ask_Message True cb ud) u = Some v" "peer_inv False A B v" by (auto simp: asks_def)
    then have run: "do_udp_peer_onmessage no_fail cb ud ?u = Some v"
      using p(1) by (simp add: p_exec_def udp_peer_onmessage_def p_run_inloop_def run_p_task_def split: bind_splits)
    obtain q where q: "peer v = Some q" using live [OF v(2)] by blast
    have "do_u_action no_fail x u = Some v" using v(1) U_Onmessage by (simp add: do_u_action_def p_exec_def)
    then show ?thesis using notify_frame(1) [OF u'(1) q run] v(2) q x U_Onmessage u(2) u'(2) same by auto
  next
    case (U_Onwrite cb ud)
    have "p_allowed False (Ask_Write True cb ud) u" using u(2) by (simp add: p_allowed_def)
    from event_inv [OF u(1) this] obtain v where
      v: "p_exec (Ask_Write True cb ud) u = Some v" "peer_inv False A B v" by (auto simp: asks_def)
    then have run: "do_udp_peer_onwrite no_fail cb ud ?u = Some v"
      using p(1) by (simp add: p_exec_def udp_peer_onwrite_def p_run_inloop_def run_p_task_def split: bind_splits)
    obtain q where q: "peer v = Some q" using live [OF v(2)] by blast
    have "do_u_action no_fail x u = Some v" using v(1) U_Onwrite by (simp add: do_u_action_def p_exec_def)
    then show ?thesis using notify_frame(2) [OF u'(1) q run] v(2) q p(2) u(2) u'(2) same by auto
  next
    case U_Destroy
    then show ?thesis using x by simp
  qed
qed

lemma mild_actions:
  assumes "peer_inv False A B u" "Init_Event \<notin> set (p_tasks u)" and "peer u = Some p" "messagecb p \<noteq> None"
    and "\<forall>x \<in> set xs. mild x"
  shows "\<exists>u' p'. do_u_actions no_fail xs u = Some u' \<and> peer_inv False A B u' \<and> Init_Event \<notin> set (p_tasks u') \<and>
    peer u' = Some p' \<and> messagecb p' \<noteq> None \<and> same_buffer p p'"
  using assms
proof (induction xs arbitrary: u p)
  case Nil
  then show ?case by (simp add: same_buffer_def)
next
  case (Cons x xs)
  have "mild x" "\<forall>x \<in> set xs. mild x" using Cons.prems(5) by simp_all
  from mild_action [OF Cons.prems(1-4) this(1)] obtain u1 p1 where
    u1: "do_u_action no_fail x u = Some u1" "peer_inv False A B u1" "Init_Event \<notin> set (p_tasks u1)" "peer u1 = Some p1"
      "messagecb p1 \<noteq> None" "same_buffer p p1" by blast
  from Cons.IH [OF u1(2-5) \<open>\<forall>x \<in> set xs. mild x\<close>] obtain u2 p2 where
    "do_u_actions no_fail xs u1 = Some u2" "peer_inv False A B u2" "Init_Event \<notin> set (p_tasks u2)" "peer u2 = Some p2"
      "messagecb p2 \<noteq> None" "same_buffer p1 p2" by blast
  with u1(1, 6) show ?case by (auto simp: same_buffer_def)
qed

lemma peer_inv_buffer:
  assumes "peer_inv asked A B u" and "peer u = Some p" and "ref_count p' = ref_count p" "p_channel p' = p_channel p"
  shows "peer_inv asked A B (u\<lparr>peer := Some p'\<rparr>)"
  using assms by (simp add: peer_inv_def peer_ok_def)

lemma deliver_law:
  assumes cb: "mild_callback cb" and "\<forall>d \<in> set ds. dg_ok 65535 d"
    and "peer_inv False A B u" "Init_Event \<notin> set (p_tasks u)" "peer u = Some p" "messagecb p \<noteq> None"
    and "in_data p = pre @ frames ds @ post" and "length pre + length (frames ds) < 2 ^ 32"
  shows "\<exists>u'. deliver no_fail cb (length ds) (of_nat (length pre)) u = Some (ds, u') \<and> peer_inv False A B u'"
  using assms(2-8)
proof (induction ds arbitrary: pre u p)
  case Nil
  then show ?case by simp
next
  case (Cons d ds)
  obtain m a where d: "d = (m, a)" by (cases d)
  have m: "length m < 65536" "length a = 18" and fl: "length (frame d) = 20 + length m"
    using Cons.prems(1) frame_length [of 65535 d] by (auto simp: dg_ok_def d)
  have un: "unat (of_nat (length pre) :: u32) = length pre" using Cons.prems(7) by (intro unat_small32) simp
  have data: "in_data p = pre @ size_bytes (length m) @ a @ m @ (frames ds @ post)"
    using Cons.prems(6) by (simp add: frame_def d)
  have r: "read_at (length pre) 2 (in_data p) = Some (size_bytes (length m))"
    "read_at (length pre + 2) 18 (in_data p) = Some a"
    "read_at (length pre + 20) (length m) (in_data p) = Some m"
    using read_at_mid [of pre "length pre" "size_bytes (length m)" 2 "a @ m @ (frames ds @ post)"]
      read_at_mid [of "pre @ size_bytes (length m)" "length pre + 2" a 18 "m @ (frames ds @ post)"]
      read_at_mid [of "pre @ size_bytes (length m) @ a" "length pre + 20" m "length m" "frames ds @ post"] m(2)
    unfolding data by simp_all
  obtain f where f: "messagecb p = Some f" using Cons.prems(5) by blast
  have "\<forall>x \<in> set (cb f m (message_userdata p) a u). mild x" using cb unfolding mild_callback_def by blast
  from mild_actions [OF Cons.prems(2-5) this] obtain u1 p1 where
    u1: "do_u_actions no_fail (cb f m (message_userdata p) a u) u = Some u1" "peer_inv False A B u1"
      "Init_Event \<notin> set (p_tasks u1)" "peer u1 = Some p1" "messagecb p1 \<noteq> None" "same_buffer p p1" by blast
  let ?p = "p1\<lparr>chunk_count := chunk_count p1 - 1\<rparr>"
  let ?u = "u1\<lparr>peer := Some ?p\<rparr>"
  have r1: "read_at (length pre) 2 (in_data p1) = Some (size_bytes (length m))"
    using r(1) u1(6) by (simp add: same_buffer_def)
  have "peer_inv False A B ?u" by (rule peer_inv_buffer [OF u1(2, 4)]) simp_all
  moreover have "in_data ?p = (pre @ frame d) @ frames ds @ post"
    using u1(6) Cons.prems(6) by (simp add: same_buffer_def)
  ultimately obtain u2 where u2: "deliver no_fail cb (length ds) (of_nat (length (pre @ frame d))) ?u = Some (ds, u2)"
      "peer_inv False A B u2"
    using Cons.IH [of ?u ?p "pre @ frame d"] Cons.prems(1, 7) u1(3, 5) by auto
  moreover have "of_nat (length pre) + 2 + 18 + of_nat (length m) = (of_nat (length (pre @ frame d)) :: u32)"
    by (simp add: fl)
  moreover have "deliver no_fail cb (Suc (length ds)) (of_nat (length pre)) u =
      Option.bind (deliver no_fail cb (length ds) (of_nat (length pre) + 2 + 18 + of_nat (length m)) ?u)
        (\<lambda>r. Some (d # fst r, snd r))"
    using Cons.prems(4) f r r1 u1(1, 4) bytes_size_bytes [OF m(1)] by (simp add: un d case_prod_beta')
  ultimately have "deliver no_fail cb (Suc (length ds)) (of_nat (length pre)) u = Some (d # ds, u2)"
    by (simp only: bind.bind_lunit fst_conv snd_conv)
  then show ?case using u2(2) by simp
qed

lemma frames_length: "\<forall>d \<in> set ds. dg_ok n d \<Longrightarrow> 21 * length ds \<le> length (frames ds)"
proof (induction ds)
  case (Cons d ds)
  then have "1 \<le> length (fst d)" "length (frame d) = 20 + length (fst d)" "21 * length ds \<le> length (frames ds)"
    using frame_length [of n d] by (auto simp: dg_ok_def Suc_le_eq)
  then show ?case by simp
qed simp

text \<open>A batch is received up to a point where the room is used up, and handed to the callback.\<close>

lemma receive_law:
  assumes cb: "mild_callback cb" and ds: "\<forall>d \<in> set ds. dg_ok 65487 d"
    and u: "peer_inv False A B u" "Init_Event \<notin> set (p_tasks u)"
    and p: "peer u = Some p" "messagecb p \<noteq> None" "length (in_data p) = data_size"
  shows "\<exists>k u'. udp_peer_onevent no_fail cb wcb (map dg ds) EPOLLIN u = Some (take k ds, u') \<and> peer_inv False A B u' \<and>
    (k = length ds \<or> 458913 < length (frames (take k ds)))"
proof -
  let ?p = "p\<lparr>chunk_count := 0\<rparr>"
  have "length (in_data ?p) = data_size" using p(3) by simp
  from recv_law [OF ds _ this, of 0] obtain k D where
    k: "recv_chunks (map dg ds) 0 ?p = Some (?p\<lparr>in_data := D, chunk_count := of_nat k\<rparr>)" "k \<le> length ds"
      "take (length (frames (take k ds))) D = frames (take k ds)" "length (frames (take k ds)) \<le> 524420"
      "k = length ds \<or> 458913 < length (frames (take k ds))" by auto
  let ?q = "?p\<lparr>in_data := D, chunk_count := of_nat k\<rparr>"
  have dk: "\<forall>d \<in> set (take k ds). dg_ok 65487 d" using ds by (auto dest: in_set_takeD)
  then have "21 * k \<le> 524420" using frames_length [OF dk] k(2, 4) by simp
  then have uk: "unat (of_nat k :: u32) = k" by (intro unat_small32) simp
  have ev: "EPOLLIN AND EPOLLOUT = 0" "EPOLLIN AND EPOLLIN \<noteq> 0" by (simp_all add: EPOLLIN_def EPOLLOUT_def)
  have D: "D = frames (take k ds) @ drop (length (frames (take k ds))) D"
    by (metis append_take_drop_id k(3))
  then have D': "in_data ?q = [] @ frames (take k ds) @ drop (length (frames (take k ds))) D" by simp
  show ?thesis
  proof (cases "k = 0")
    case True
    have "peer_inv False A B (u\<lparr>peer := Some ?q\<rparr>)" by (rule peer_inv_buffer [OF u(1) p(1)]) simp_all
    then show ?thesis using True p k(1, 5) ev by (simp add: udp_peer_onevent_def)
  next
    case False
    then have "0 < (of_nat k :: u32)" using uk by (simp add: word_less_nat_alt)
    moreover have "\<forall>d \<in> set (take k ds). dg_ok 65535 d" using dk dg_ok_mono [of 65487 _ 65535] by auto
    moreover have "peer_inv False A B (u\<lparr>peer := Some ?q\<rparr>)" by (rule peer_inv_buffer [OF u(1) p(1)]) simp_all
    ultimately have "\<exists>u'. deliver no_fail cb (length (take k ds)) (of_nat (length ([] :: u8 list))) (u\<lparr>peer := Some ?q\<rparr>) =
        Some (take k ds, u') \<and> peer_inv False A B u'"
      using u(2) p(2) k(4) by (intro deliver_law [OF cb _ _ _ _ _ D']) simp_all
    then obtain u' where "deliver no_fail cb (length (take k ds)) (of_nat (length ([] :: u8 list))) (u\<lparr>peer := Some ?q\<rparr>) =
        Some (take k ds, u')" "peer_inv False A B u'" by blast
    then show ?thesis using p k(1, 2, 5) ev uk \<open>0 < (of_nat k :: u32)\<close>
      by (intro exI [of _ k] exI [of _ u']) (simp add: udp_peer_onevent_def)
  qed
qed

section \<open>Properties\<close>

lemma idle_fresh: "serving empty_reactor {} {}" "chans empty_reactor c = None" "interest empty_reactor f = None"
  using idle_empty by (simp_all add: empty_reactor_def)


lemma example_peer:
  "udp_peer_new no_fail False True True (Some 7) None None 5 1 [] empty_reactor =
    Some \<lparr>peer = Some \<lparr>ref_count = 1, messagecb = Some 7, message_userdata = None, writecb = None,
             write_userdata = None, p_fd = 5, p_channel = Some 1, port = 0, chunk_count = 0, in_data = []\<rparr>,
           reactor = empty_reactor\<lparr>chans := [1 \<mapsto> \<lparr>fd = 5, c_loop = True, on_event = Some 0, c_userdata = None,
             is_active = False, in_callback = False, alive = True, event = 0, revent = 0, is_monitored = False\<rparr>]\<rparr>,
           p_tasks = [Init_Event]\<rparr>"
  by (simp add: udp_peer_new_def channel_new_def p_run_inloop_def empty_reactor_def)


text \<open>
  C25: A batch of datagrams of 1 to 65487 bytes, on a peer whose first task has run and whose
  destruction was not requested, while \<^verbatim>\<open>epoll_ctl\<close> and the allocations succeed: it is received
  inside the buffer and handed to the callback unchanged, in order, each with the address of its
  sender, and datagrams are only left in the socket when the buffer has no room for another one.
  The message callback may replace the callbacks of the peer, but neither remove the message
  callback nor destroy the peer, which the code does not survive (\<open>udp_destroy_in_callback\<close>);
  an empty datagram ends a batch as a failure does, and larger ones can overrun the buffer
  (\<open>udp_receive_overflow\<close>).
\<close>

theorem udp_receive_in_order:
  assumes "mild_callback cb" and "\<forall>d \<in> set ds. dg_ok 65487 d"
    and "peer_inv False A B u" "Init_Event \<notin> set (p_tasks u)"
    and "peer u = Some p" and "messagecb p \<noteq> None" and "length (in_data p) = data_size"
  shows "\<exists>k u'. udp_peer_onevent no_fail cb wcb (map dg ds) EPOLLIN u = Some (take k ds, u') \<and> peer_inv False A B u' \<and>
    (k = length ds \<or> 458913 < length (frames (take k ds)))"
  using assms by (rule receive_law)

definition example_p :: udp_peer where
  "example_p = \<lparr>ref_count = 1, messagecb = Some 7, message_userdata = None, writecb = None,
     write_userdata = None, p_fd = 5, p_channel = Some 1, port = 0, chunk_count = 0, in_data = replicate data_size 0\<rparr>"

definition example_udp :: udp where
  "example_udp = \<lparr>peer = Some example_p, reactor = two_channels, p_tasks = []\<rparr>"

definition example_batch :: "datagram list" where
  "example_batch = [([1, 2], replicate 18 0), ([3], replicate 18 0)]"

lemma example_simps:
  "peer example_udp = Some example_p" "messagecb example_p = Some 7" "length (in_data example_p) = data_size"
  "p_tasks example_udp = []" "reactor example_udp = two_channels" "p_channel example_p = Some 1" "ref_count example_p = 1"
  "\<forall>d \<in> set example_batch. dg_ok 65487 d" "dg_ok 65487 ([1], replicate 18 0)"
  by (simp_all add: example_udp_def example_p_def example_batch_def dg_ok_def)

lemma example_inv: "peer_inv False {} {} example_udp"
proof -
  have "usable two_channels 1 True" by (simp add: usable_def two_channels_def)
  then show ?thesis
    using two_channels_idle by (simp add: peer_inv_def example_simps tasks_ok_def peer_ok_def refs_def)
qed

text \<open>A callback that replaces itself.\<close>

theorem udp_receive_in_order_witness:
  "\<exists>k u'. udp_peer_onevent no_fail (\<lambda>f m ud a u. [U_Onmessage (Some 8) None]) (\<lambda>f ud u. []) (map dg example_batch) EPOLLIN
       example_udp = Some (take k example_batch, u') \<and>
     (k = length example_batch \<or> 458913 < length (frames (take k example_batch)))"
proof -
  have "mild_callback (\<lambda>f m ud a u. [U_Onmessage (Some 8) None])" by (simp add: mild_callback_def)
  from udp_receive_in_order [OF this example_simps(8) example_inv _ example_simps(1) _ example_simps(3)] show ?thesis
    using example_simps(2, 4) by fastforce
qed

text \<open>
  A sender can make the peer write behind its buffer: nine datagrams that fill it to the last
  byte leave a room that is negative, which the unsigned arithmetic takes for four gigabytes; a
  tenth one is then written out of bounds.
\<close>

theorem udp_receive_overflow:
  assumes "length (in_data p) = data_size"
  shows "\<exists>ds. (\<forall>d \<in> set ds. dg_ok 65507 d) \<and> recv_chunks (map dg ds) 0 p = None"
proof -
  have step: "\<exists>q. recv_chunks (map dg (d # ds)) (of_nat off) p = recv_chunks (map dg ds) (of_nat (off + (20 + length (fst d)))) q \<and>
      length (in_data q) = data_size"
    if "off \<le> 458913" "dg_ok 65507 d" "length (in_data p) = data_size" for off d ds p
    using recv_step [OF that, of "map dg ds"] frame_length [OF that(2)] by fastforce
  define big :: datagram where "big = (replicate 65507 0, replicate 18 0)"
  define small :: datagram where "small = (replicate 204 0, replicate 18 0)"
  define last :: datagram where "last = ([0], replicate 18 0)"
  have len: "length (fst big) = 65507" "length (fst small) = 204" by (simp_all add: big_def small_def)
  have ok: "dg_ok 65507 big" "dg_ok 65507 small" "dg_ok 65507 last"
    by (simp_all add: big_def small_def last_def dg_ok_def)
  have bigs: "\<exists>q. recv_chunks (map dg (replicate n big @ ds)) (of_nat off) p =
      recv_chunks (map dg ds) (of_nat (off + n * 65527)) q \<and> length (in_data q) = data_size"
    if "off + n * 65527 \<le> 458913 + 65527" "length (in_data p) = data_size" for n off ds p
    using that
  proof (induction n arbitrary: off p)
    case (Suc n)
    then have "off \<le> 458913" by simp
    from step [OF this ok(1) Suc.prems(2), of "replicate n big @ ds"] obtain q1 where
      "recv_chunks (map dg (big # replicate n big @ ds)) (of_nat off) p = recv_chunks (map dg (replicate n big @ ds)) (of_nat (off + 65527)) q1"
      "length (in_data q1) = data_size" unfolding len by auto
    with Suc.IH [of "off + 65527" q1] Suc.prems(1) show ?case by (auto simp: algebra_simps)
  qed auto
  from bigs [of 0 7 p "[small, big, last]"] assms obtain q1 where
    q1: "recv_chunks (map dg (replicate 7 big @ [small, big, last])) 0 p = recv_chunks (map dg [small, big, last]) (of_nat 458689) q1"
      "length (in_data q1) = data_size" by auto
  from step [OF _ ok(2) q1(2), of 458689 "[big, last]"] len obtain q2 where
    q2: "recv_chunks (map dg [small, big, last]) (of_nat 458689) q1 = recv_chunks (map dg [big, last]) (of_nat 458913) q2"
      "length (in_data q2) = data_size" by auto
  from step [OF _ ok(1) q2(2), of 458913 "[last]"] len obtain q3 where
    q3: "recv_chunks (map dg [big, last]) (of_nat 458913) q2 = recv_chunks (map dg [last]) (of_nat 524440) q3"
      "length (in_data q3) = data_size" by auto
  have "recv_chunks (map dg [last]) (of_nat 524440) q3 = None"
    using q3(2) by (simp add: dg_def last_def data_size_def write_at_def Let_def)
  then have "recv_chunks (map dg (replicate 7 big @ [small, big, last])) 0 p = None"
    by (simp only: q1(1) q2(1) q3(1))
  moreover have "\<forall>d \<in> set (replicate 7 big @ [small, big, last]). dg_ok 65507 d" using ok by auto
  ultimately show ?thesis by blast
qed

theorem udp_receive_overflow_witness:
  "\<exists>ds. (\<forall>d \<in> set ds. dg_ok 65507 d) \<and> recv_chunks (map dg ds) 0 example_p = None"
  by (rule udp_receive_overflow [OF example_simps(3)])

text \<open>
  A message callback that destroys its peer, the only reference, makes the loop use the freed
  peer: the loop counts the chunk down when the callback has returned.
\<close>

theorem udp_destroy_in_callback:
  assumes "peer_inv False A B u" and "p_tasks u = []" and "peer u = Some p" and "messagecb p = Some f"
    and "length (in_data p) = data_size" and "dg_ok 65487 d" and "\<And>m ud a u. cb f m ud a u = [U_Destroy]"
  shows "udp_peer_onevent no_fail cb wcb [dg d] EPOLLIN u = None"
proof -
  let ?p = "p\<lparr>chunk_count := 0\<rparr>"
  have "\<forall>d \<in> set [d]. dg_ok 65487 d" "length (in_data ?p) = data_size" using assms(5, 6) by simp_all
  from recv_law [OF this(1) _ this(2), of 0] obtain k D where
    r: "recv_chunks (map dg [d]) (of_nat 0) ?p = Some (?p\<lparr>in_data := D, chunk_count := chunk_count ?p + of_nat k\<rparr>)"
      "k \<le> length [d]" "length D = data_size" "take (0 + length (frames (take k [d]))) D = take 0 (in_data ?p) @ frames (take k [d])"
      "k = length [d] \<or> 458913 < 0 + length (frames (take k [d]))" by blast
  have k1: "k = 1" using r(2, 5) by (cases k) auto
  have k: "recv_chunks [dg d] 0 ?p = Some (?p\<lparr>in_data := D, chunk_count := 1\<rparr>)" using r(1) k1 by simp
  have D: "take (length (frame d)) D = frame d" using r(4) k1 by simp
  let ?q = "?p\<lparr>in_data := D, chunk_count := 1\<rparr>"
  let ?u = "u\<lparr>peer := Some ?q\<rparr>"
  have inv: "serving (reactor u) A B" "peer_ok (reactor u) p 1"
    using assms(1-3) by (simp_all add: peer_inv_def refs_def)
  then obtain c where c: "p_channel ?q = Some c" "usable (reactor ?u) c True" "ref_count ?q = int (Suc 0)"
    by (auto simp: peer_ok_def)
  have "serving (reactor ?u) A B" "peer ?u = Some ?q" using inv by simp_all
  from destroy_inv [OF this c] obtain u' where
    u': "do_udp_peer_destroy no_fail ?u = Some u'" "peer u' = None" by (auto simp: peer_ok_def split: option.splits)
  have "deliver no_fail cb 1 0 ?u = None"
    using assms(4, 7) u' by (auto simp: do_u_action_def udp_peer_destroy_def p_run_inloop_def run_p_task_def split: bind_splits)
  moreover have "EPOLLIN AND EPOLLOUT = 0" "EPOLLIN AND EPOLLIN \<noteq> 0" by (simp_all add: EPOLLIN_def EPOLLOUT_def)
  ultimately show ?thesis using assms(3, 4) k by (simp add: udp_peer_onevent_def)
qed

theorem udp_destroy_in_callback_witness:
  "udp_peer_onevent no_fail (\<lambda>f m ud a u. [U_Destroy]) (\<lambda>f ud u. []) [dg ([1], replicate 18 0)] EPOLLIN example_udp = None"
  using udp_destroy_in_callback [OF example_inv example_simps(4, 1-3, 9)] by simp

end
