(* ===== verification/TimerQueue.thy ===== *)
theory TimerQueue
  imports DList "HOL-Library.Sublist"
begin

text \<open>
  The timers of an event loop, \<^verbatim>\<open>udpclient/linux/net/timer_queue.c\<close>: a doubly linked list of
  timers in the order of their timestamps. The functions that run in the loop's thread are
  modelled step by step; the public ones run them at once, or leave them as a task when
  another thread calls. The clock is an argument. What a timer's callback does to
  the queue is a list of actions, chosen from the state it is called in, each with the clock
  it reads. Nodes are allocated: the code does not test \<^verbatim>\<open>malloc\<close>, and a failure is not modelled.
\<close>

section \<open>Data\<close>

record loop_timer =
  timestamp :: u64
  interval :: u32
  expirecb :: addr
  userdata :: ptr
  is_in_callback :: bool
  is_alive :: bool
  is_expired :: bool
  is_in_queue :: bool
  t_prev :: ptr
  t_next :: ptr

datatype task = Do_Insert addr | Do_Cancel addr | Do_Refresh addr

text \<open>The timers in memory, the queue's fields, and the tasks left for the loop's thread.\<close>

record timer_queue =
  t_heap :: "loop_timer heap"
  timer_list :: ptr
  timer_list_end :: ptr
  min_timestamp :: u64
  tasks :: "task list"

definition upd :: "ptr \<Rightarrow> (loop_timer \<Rightarrow> loop_timer) \<Rightarrow> timer_queue \<Rightarrow> timer_queue option" where
  "upd p f q = map_option (\<lambda>h. q\<lparr>t_heap := h\<rparr>) (modify (t_heap q) p f)"

definition look :: "timer_queue \<Rightarrow> ptr \<Rightarrow> loop_timer option" where
  "look q p = deref (t_heap q) p"

section \<open>Creation\<close>

definition timer_queue_create :: "u64 \<Rightarrow> loop_timer heap \<Rightarrow> timer_queue" where
  "timer_queue_create now h =
     \<lparr>t_heap = h, timer_list = None, timer_list_end = None, min_timestamp = now, tasks = []\<rparr>"

partial_function (option) free_timers :: "timer_queue \<Rightarrow> timer_queue option" where
  "free_timers q =
     (case timer_list q of None \<Rightarrow> Some q
      | Some a \<Rightarrow> do {
          n \<leftarrow> look q (Some a);
          h \<leftarrow> release (t_heap q) (Some a);
          free_timers (q\<lparr>timer_list := t_next n, t_heap := h\<rparr>) })"

definition timer_queue_destroy :: "timer_queue option \<Rightarrow> loop_timer heap option" where
  "timer_queue_destroy qp =
     (case qp of None \<Rightarrow> Some Map.empty | Some q \<Rightarrow> map_option t_heap (free_timers q))"

section \<open>The list of timers\<close>

text \<open>The first timer from a node on that is later than a time; it walks to the end otherwise.\<close>

partial_function (option) skip_until :: "loop_timer heap \<Rightarrow> u64 \<Rightarrow> ptr \<Rightarrow> ptr option" where
  "skip_until h t p =
     (case p of None \<Rightarrow> Some None
      | Some a \<Rightarrow> do {
          n \<leftarrow> deref h (Some a);
          if timestamp n \<le> t then skip_until h t (t_next n) else Some (Some a) })"

definition insert_timer_inloop :: "timer_queue \<Rightarrow> addr \<Rightarrow> timer_queue option" where
  "insert_timer_inloop q timer = do {
     q \<leftarrow> upd (Some timer) (\<lambda>n. n\<lparr>t_prev := None, t_next := None\<rparr>) q;
     n \<leftarrow> look q (Some timer);
     q \<leftarrow> (case timer_list q of
           None \<Rightarrow> Some (q\<lparr>timer_list := Some timer, timer_list_end := Some timer, min_timestamp := timestamp n\<rparr>)
         | Some first \<Rightarrow> do {
             t_iter \<leftarrow> skip_until (t_heap q) (timestamp n) (Some first);
             (case t_iter of
                None \<Rightarrow> do {
                  q \<leftarrow> upd (timer_list_end q) (\<lambda>m. m\<lparr>t_next := Some timer\<rparr>) q;
                  q \<leftarrow> upd (Some timer) (\<lambda>m. m\<lparr>t_prev := timer_list_end q\<rparr>) q;
                  Some (q\<lparr>timer_list_end := Some timer\<rparr>) }
              | Some i \<Rightarrow> do {
                  m \<leftarrow> look q (Some i);
                  (case t_prev m of
                     None \<Rightarrow> do {
                       q \<leftarrow> upd (Some timer) (\<lambda>m. m\<lparr>t_prev := None, t_next := Some i\<rparr>) q;
                       q \<leftarrow> upd (Some i) (\<lambda>m. m\<lparr>t_prev := Some timer\<rparr>) q;
                       Some (q\<lparr>timer_list := Some timer, min_timestamp := timestamp n\<rparr>) }
                   | Some p \<Rightarrow> do {
                       q \<leftarrow> upd (Some p) (\<lambda>m. m\<lparr>t_next := Some timer\<rparr>) q;
                       q \<leftarrow> upd (Some timer) (\<lambda>m. m\<lparr>t_prev := Some p, t_next := Some i\<rparr>) q;
                       upd (Some i) (\<lambda>m. m\<lparr>t_prev := Some timer\<rparr>) q }) }) });
     upd (Some timer) (\<lambda>m. m\<lparr>is_in_queue := True\<rparr>) q }"

text \<open>The time is read only when the list becomes empty.\<close>

definition remove_timer_inloop :: "u64 \<Rightarrow> timer_queue \<Rightarrow> addr \<Rightarrow> timer_queue option" where
  "remove_timer_inloop now q timer = do {
     n \<leftarrow> look q (Some timer);
     if timer_list q = Some timer then
       (case t_next n of
          Some i \<Rightarrow> do {
            q \<leftarrow> upd (Some i) (\<lambda>m. m\<lparr>t_prev := None\<rparr>) (q\<lparr>timer_list := Some i\<rparr>);
            m \<leftarrow> look q (Some i);
            Some (q\<lparr>min_timestamp := timestamp m\<rparr>) }
        | None \<Rightarrow> Some (q\<lparr>timer_list := None, timer_list_end := None, min_timestamp := now\<rparr>))
     else if timer_list_end q = Some timer then
       upd (t_prev n) (\<lambda>m. m\<lparr>t_next := None\<rparr>) (q\<lparr>timer_list_end := t_prev n\<rparr>)
     else do {
       q \<leftarrow> upd (t_prev n) (\<lambda>m. m\<lparr>t_next := t_next n\<rparr>) q;
       upd (t_next n) (\<lambda>m. m\<lparr>t_prev := t_prev n\<rparr>) q } }"

definition free_timer :: "addr \<Rightarrow> timer_queue \<Rightarrow> timer_queue option" where
  "free_timer a q = map_option (\<lambda>h. q\<lparr>t_heap := h\<rparr>) (release (t_heap q) (Some a))"

section \<open>Tasks and the public functions\<close>

definition do_insert_timer :: "timer_queue \<Rightarrow> addr \<Rightarrow> timer_queue option" where
  "do_insert_timer q timer = do {
     n \<leftarrow> look q (Some timer);
     if is_alive n then insert_timer_inloop q timer else free_timer timer q }"

definition timer_queue_cancel_inloop :: "u64 \<Rightarrow> timer_queue \<Rightarrow> addr \<Rightarrow> timer_queue option" where
  "timer_queue_cancel_inloop now q timer = do {
     n \<leftarrow> look q (Some timer);
     if is_in_callback n then upd (Some timer) (\<lambda>n. n\<lparr>is_alive := False\<rparr>) q
     else if is_expired n then upd (Some timer) (\<lambda>n. n\<lparr>is_alive := False\<rparr>) q
     else if is_in_queue n then do {
       q \<leftarrow> remove_timer_inloop now q timer;
       free_timer timer q }
     else upd (Some timer) (\<lambda>n. n\<lparr>is_alive := False\<rparr>) q }"

definition do_timer_queue_refresh :: "u64 \<Rightarrow> timer_queue \<Rightarrow> addr \<Rightarrow> timer_queue option" where
  "do_timer_queue_refresh now q timer = do {
     q \<leftarrow> remove_timer_inloop now q timer;
     q \<leftarrow> upd (Some timer) (\<lambda>n. n\<lparr>timestamp := now + ucast (interval n), t_prev := None, t_next := None\<rparr>) q;
     insert_timer_inloop q timer }"

definition run_task :: "u64 \<Rightarrow> task \<Rightarrow> timer_queue \<Rightarrow> timer_queue option" where
  "run_task now t q =
     (case t of
        Do_Insert a \<Rightarrow> do_insert_timer q a
      | Do_Cancel a \<Rightarrow> timer_queue_cancel_inloop now q a
      | Do_Refresh a \<Rightarrow> do_timer_queue_refresh now q a)"

text \<open>
  \<^verbatim>\<open>loop_run_inloop\<close>: at once when the loop does not run yet or the caller is its
  thread (\<open>here\<close>), as a task of the loop otherwise.
\<close>

definition run_inloop :: "bool \<Rightarrow> u64 \<Rightarrow> task \<Rightarrow> timer_queue \<Rightarrow> timer_queue option" where
  "run_inloop here now t q = (if here then run_task now t q else Some (q\<lparr>tasks := tasks q @ [t]\<rparr>))"

text \<open>\<open>a\<close> is the new node; a callback of NULL is refused.\<close>

definition timer_queue_add ::
  "bool \<Rightarrow> u64 \<Rightarrow> addr \<Rightarrow> timer_queue \<Rightarrow> u64 \<Rightarrow> u32 \<Rightarrow> ptr \<Rightarrow> ptr \<Rightarrow> (ptr \<times> timer_queue) option" where
  "timer_queue_add here now a q ts iv cb ud =
     (case cb of None \<Rightarrow> Some (None, q)
      | Some f \<Rightarrow>
          if t_heap q a \<noteq> None then None
          else do {
            q \<leftarrow> run_inloop here now (Do_Insert a)
              (q\<lparr>t_heap := (t_heap q)(a \<mapsto>
                \<lparr>timestamp = ts, interval = iv, expirecb = f, userdata = ud, is_in_callback = False, is_alive = True,
                 is_expired = False, is_in_queue = False, t_prev = None, t_next = None\<rparr>)\<rparr>);
            Some (Some a, q) })"

definition timer_queue_cancel :: "bool \<Rightarrow> u64 \<Rightarrow> timer_queue \<Rightarrow> ptr \<Rightarrow> timer_queue option" where
  "timer_queue_cancel here now q timer =
     (case timer of None \<Rightarrow> Some q | Some a \<Rightarrow> run_inloop here now (Do_Cancel a) q)"

definition timer_queue_refresh :: "bool \<Rightarrow> u64 \<Rightarrow> timer_queue \<Rightarrow> ptr \<Rightarrow> timer_queue option" where
  "timer_queue_refresh here now q timer =
     (case timer of None \<Rightarrow> Some q
      | Some a \<Rightarrow> do {
          n \<leftarrow> look q (Some a);
          if interval n > 0 then run_inloop here now (Do_Refresh a) q else Some q })"

text \<open>The number of milliseconds to wait; \<^verbatim>\<open>long\<close> has 64 bits.\<close>

definition timer_queue_gettimeout :: "u64 \<Rightarrow> timer_queue option \<Rightarrow> int" where
  "timer_queue_gettimeout now qp =
     (case qp of None \<Rightarrow> 100
      | Some q \<Rightarrow>
          if timer_list q = None then 100
          else
            (let interval = sint (min_timestamp q - now);
                 timeout = 100;
                 timeout = (if timeout > interval then interval else timeout)
             in if timeout < 0 then 0 else timeout))"

section \<open>Expiry\<close>

text \<open>
  What a callback asks of the queue, in the loop's thread. An addition there does not read the
  clock: its task runs at once.
\<close>

datatype action =
    A_Add addr u64 u32 addr ptr
  | A_Cancel u64 addr
  | A_Refresh u64 addr

definition do_action :: "timer_queue \<Rightarrow> action \<Rightarrow> timer_queue option" where
  "do_action q x =
     (case x of
        A_Add a ts iv f ud \<Rightarrow> map_option snd (timer_queue_add True 0 a q ts iv (Some f) ud)
      | A_Cancel now a \<Rightarrow> timer_queue_cancel True now q (Some a)
      | A_Refresh now a \<Rightarrow> timer_queue_refresh True now q (Some a))"

primrec do_actions :: "action list \<Rightarrow> timer_queue \<Rightarrow> timer_queue option" where
  "do_actions [] q = Some q"
| "do_actions (x # xs) q = Option.bind (do_action q x) (do_actions xs)"

type_synonym callback = "addr \<Rightarrow> ptr \<Rightarrow> timer_queue \<Rightarrow> action list"

partial_function (option) mark_expired :: "ptr \<Rightarrow> timer_queue \<Rightarrow> timer_queue option" where
  "mark_expired timer_iter q =
     (case timer_iter of None \<Rightarrow> Some q
      | Some a \<Rightarrow> do {
          q \<leftarrow> upd (Some a) (\<lambda>n. n\<lparr>is_expired := True\<rparr>) q;
          n \<leftarrow> look q (Some a);
          mark_expired (t_next n) q })"

text \<open>
  One timer that is due: the callback, and its next period or its end. The callbacks that run
  are logged, with the actions they asked for.
\<close>

type_synonym timer_log = "(addr \<times> action list) list"

definition expire :: "callback \<Rightarrow> addr \<Rightarrow> timer_queue \<Rightarrow> (timer_log \<times> timer_queue) option" where
  "expire cb a q = do {
     q \<leftarrow> upd (Some a) (\<lambda>n. n\<lparr>t_prev := None, t_next := None\<rparr>) q;
     n \<leftarrow> look q (Some a);
     (fired, q) \<leftarrow>
       (if is_alive n then do {
          q \<leftarrow> upd (Some a) (\<lambda>n. n\<lparr>is_in_callback := True\<rparr>) q;
          let acts = cb (expirecb n) (userdata n) q;
          q \<leftarrow> do_actions acts q;
          q \<leftarrow> upd (Some a) (\<lambda>n. n\<lparr>is_in_callback := False\<rparr>) q;
          Some ([(a, acts)], q) }
        else Some ([], q));
     n \<leftarrow> look q (Some a);
     q \<leftarrow> (if is_alive n \<and> interval n \<noteq> 0 then do {
           q \<leftarrow> upd (Some a) (\<lambda>n. n\<lparr>timestamp := timestamp n + ucast (interval n), is_expired := False,
                                     t_prev := None, t_next := None\<rparr>) q;
           insert_timer_inloop q a }
         else free_timer a q);
     Some (fired, q) }"

partial_function (option) run_done :: "callback \<Rightarrow> ptr \<Rightarrow> timer_queue \<Rightarrow> (timer_log \<times> timer_queue) option" where
  "run_done cb done_timer q =
     (case done_timer of None \<Rightarrow> Some ([], q)
      | Some a \<Rightarrow> do {
          n \<leftarrow> look q (Some a);
          (fired, q) \<leftarrow> expire cb a q;
          (rest, q) \<leftarrow> run_done cb (t_next n) q;
          Some (fired @ rest, q) })"

text \<open>The timers that are due are taken off the queue; \<^term>\<open>None\<close> inside when there are none.\<close>

definition take_due :: "u64 \<Rightarrow> timer_queue \<Rightarrow> (ptr \<times> timer_queue) option option" where
  "take_due now q = do {
     timer \<leftarrow> skip_until (t_heap q) now (timer_list q);
     (case timer of
        None \<Rightarrow> do {
          q1 \<leftarrow> upd (timer_list q) (\<lambda>n. n\<lparr>t_prev := None\<rparr>) q;
          q1 \<leftarrow> upd (timer_list_end q) (\<lambda>n. n\<lparr>t_next := None\<rparr>) q1;
          Some (Some (timer_list q, q1\<lparr>timer_list := None, timer_list_end := None, min_timestamp := now\<rparr>)) }
      | Some t \<Rightarrow> do {
          n \<leftarrow> look q (Some t);
          (case t_prev n of
             None \<Rightarrow> Some None
           | Some p \<Rightarrow> do {
               q1 \<leftarrow> upd (Some p) (\<lambda>n. n\<lparr>t_next := None\<rparr>) q;
               q1 \<leftarrow> upd (Some t) (\<lambda>n. n\<lparr>t_prev := None\<rparr>) q1;
               Some (Some (timer_list q, q1\<lparr>timer_list := Some t, min_timestamp := timestamp n\<rparr>)) }) }) }"

definition timer_queue_process_inloop ::
  "callback \<Rightarrow> u64 \<Rightarrow> timer_queue option \<Rightarrow> (timer_log \<times> timer_queue option) option" where
  "timer_queue_process_inloop cb now qp =
     (case qp of None \<Rightarrow> Some ([], None)
      | Some q \<Rightarrow>
          if timer_list q = None then Some ([], Some q)
          else do {
            due \<leftarrow> take_due now q;
            (case due of None \<Rightarrow> Some ([], Some q)
             | Some (done_timer, q) \<Rightarrow> do {
                 q \<leftarrow> mark_expired done_timer q;
                 (fired, q) \<leftarrow> run_done cb done_timer q;
                 Some (fired, Some q) }) })"

section \<open>The list and its invariant\<close>

lemma look_upd_simps [simp]:
  "look q (Some a) = t_heap q a"
  "t_heap q a = Some n \<Longrightarrow> upd (Some a) f q = Some (q\<lparr>t_heap := (t_heap q)(a \<mapsto> f n)\<rparr>)"
  "t_heap q a = Some n \<Longrightarrow> free_timer a q = Some (q\<lparr>t_heap := (t_heap q)(a := None)\<rparr>)"
  "upd None f q = None" "look q None = None"
  by (simp_all add: look_def upd_def free_timer_def)

abbreviation tl_links :: "loop_timer heap \<Rightarrow> links" where
  "tl_links \<equiv> links_of t_prev t_next"

definition key :: "timer_queue \<Rightarrow> addr \<Rightarrow> u64" where
  "key q a = timestamp (the (t_heap q a))"

definition queue_list :: "timer_queue \<Rightarrow> addr list \<Rightarrow> bool" where
  "queue_list q xs \<longleftrightarrow> dlist (tl_links (t_heap q)) (timer_list q) (timer_list_end q) xs"

text \<open>A timer without its links.\<close>

definition timer_data :: "loop_timer \<Rightarrow> loop_timer" where
  "timer_data n = n\<lparr>t_prev := None, t_next := None\<rparr>"

definition same_data :: "timer_queue \<Rightarrow> timer_queue \<Rightarrow> addr set \<Rightarrow> bool" where
  "same_data q q' A \<longleftrightarrow> (\<forall>b. b \<notin> A \<longrightarrow> map_option timer_data (t_heap q' b) = map_option timer_data (t_heap q b))"

lemma queue_list_live: "queue_list q xs \<Longrightarrow> a \<in> set xs \<Longrightarrow> \<exists>n. t_heap q a = Some n"
  using linked_live [of "tl_links (t_heap q)" None xs None a]
  by (auto simp: queue_list_def dlist_def links_of_def)

lemma queue_list_node:
  assumes "queue_list q (as @ a # bs)"
  obtains n where "t_heap q a = Some n" "t_prev n = last_ptr None as" "t_next n = first_ptr bs None"
  using dlist_links [of "tl_links (t_heap q)" "timer_list q" "timer_list_end q" as a bs] assms
  by (auto simp: queue_list_def links_of_def)

lemma skip_until_linked:
  "linked (tl_links h) p xs None \<Longrightarrow> (\<And>b. b \<in> set xs \<Longrightarrow> timestamp (the (h b)) = k b) \<Longrightarrow>
   skip_until h t (first_ptr xs None) = Some (first_ptr (dropWhile (\<lambda>b. k b \<le> t) xs) None)"
proof (induction xs arbitrary: p)
  case Nil
  then show ?case by (subst skip_until.simps) simp
next
  case (Cons a xs)
  then obtain n where n: "h a = Some n" "t_next n = first_ptr xs None" by (auto simp: links_of_def)
  then have "timestamp n = k a" using Cons.prems(2) [of a] by simp
  then show ?case using Cons n by (subst skip_until.simps) auto
qed

lemma skip_until_new:
  assumes "queue_list q xs" and "a \<notin> set xs"
  shows "skip_until ((t_heap q)(a \<mapsto> m)) t (timer_list q) =
    Some (first_ptr (dropWhile (\<lambda>b. key q b \<le> t) xs) None)"
proof -
  have "linked (tl_links ((t_heap q)(a \<mapsto> m))) None xs None" and f: "timer_list q = first_ptr xs None"
    using assms by (simp_all add: queue_list_def dlist_def)
  moreover have "\<And>b. b \<in> set xs \<Longrightarrow> timestamp (the (((t_heap q)(a \<mapsto> m)) b)) = key q b"
    using assms(2) by (auto simp: key_def)
  ultimately show ?thesis unfolding f using skip_until_linked [of "(t_heap q)(a \<mapsto> m)" None xs "key q" t] by blast
qed

lemma insert_timer_tail:
  assumes l: "queue_list q xs" and a: "a \<notin> set xs" "t_heap q a = Some n" and x: "xs \<noteq> []"
    and late: "dropWhile (\<lambda>b. key q b \<le> timestamp n) xs = []"
  obtains q' where "insert_timer_inloop q a = Some q'" "queue_list q' (xs @ [a])"
    "t_heap q' a = Some (n\<lparr>t_prev := Some (last xs), t_next := None, is_in_queue := True\<rparr>)"
    "same_data q q' {a}" "\<And>b. b \<notin> insert a (set xs) \<Longrightarrow> t_heap q' b = t_heap q b"
    "tasks q' = tasks q" "min_timestamp q' = min_timestamp q"
proof -
  let ?n = "n\<lparr>t_prev := None, t_next := None\<rparr>" and ?e = "last xs"
  let ?h = "(t_heap q)(a \<mapsto> ?n)"
  obtain e where e: "t_heap q ?e = Some e" using queue_list_live [OF l] x by fastforce
  have ea: "?e \<noteq> a" using a(1) x by auto
  have ends: "timer_list q = first_ptr xs None" "timer_list_end q = Some ?e" and d: "distinct xs"
      and lk: "linked (tl_links (t_heap q)) None xs None"
    using l x by (simp_all add: queue_list_def dlist_def last_ptr_def)
  have skip: "skip_until ?h (timestamp n) (timer_list q) = Some None"
    unfolding skip_until_new [OF l a(1)] late by simp
  obtain f where f: "timer_list q = Some f" using ends(1) x by (cases xs) auto
  let ?h' = "?h(?e \<mapsto> e\<lparr>t_next := Some a\<rparr>, a \<mapsto> ?n\<lparr>t_prev := Some ?e, is_in_queue := True\<rparr>)"
  let ?q = "q\<lparr>t_heap := ?h', timer_list_end := Some a\<rparr>"
  have "insert_timer_inloop q a = Some ?q"
    using a(2) f skip e ea ends(2) by (simp add: insert_timer_inloop_def fun_upd_twist)
  moreover have "linked (tl_links ?h') None (xs @ a # []) None"
    by (rule linked_insertI [where L = "tl_links (t_heap q)"])
      (use lk d a(1) x ea e in \<open>auto simp: last_ptr_def link_next_def link_prev_def links_of_def\<close>)
  then have "queue_list ?q (xs @ [a])"
    using d a(1) ends(1) x by (cases xs) (auto simp: queue_list_def dlist_def)
  moreover have "same_data q ?q {a}" using e by (auto simp: same_data_def timer_data_def)
  moreover have "t_heap ?q b = t_heap q b" if "b \<notin> insert a (set xs)" for b
    using that last_in_set [OF x] by auto
  ultimately show thesis using that [of ?q] by simp
qed

lemma insert_timer_front:
  assumes l: "queue_list q (i # bs)" and a: "a \<notin> set (i # bs)" "t_heap q a = Some n"
    and early: "\<not> key q i \<le> timestamp n"
  obtains q' where "insert_timer_inloop q a = Some q'" "queue_list q' (a # i # bs)"
    "t_heap q' a = Some (n\<lparr>t_prev := None, t_next := Some i, is_in_queue := True\<rparr>)"
    "same_data q q' {a}" "\<And>b. b \<notin> insert a (set (i # bs)) \<Longrightarrow> t_heap q' b = t_heap q b"
    "tasks q' = tasks q" "min_timestamp q' = timestamp n"
proof -
  let ?n = "n\<lparr>t_prev := None, t_next := None\<rparr>"
  let ?h = "(t_heap q)(a \<mapsto> ?n)"
  obtain m where m: "t_heap q i = Some m" "t_prev m = None"
    using queue_list_node [of q "[]" i bs] l by auto
  have ends: "timer_list q = Some i" "timer_list_end q = last_ptr None (i # bs)" and d: "distinct (i # bs)"
      and lk: "linked (tl_links (t_heap q)) None (i # bs) None"
    using l by (simp_all add: queue_list_def dlist_def)
  have skip: "skip_until ?h (timestamp n) (Some i) = Some (Some i)"
    using skip_until_new [OF l a(1), of ?n "timestamp n"] early ends(1) by simp
  let ?h' = "?h(a \<mapsto> n\<lparr>t_prev := None, t_next := Some i, is_in_queue := True\<rparr>, i \<mapsto> m\<lparr>t_prev := Some a\<rparr>)"
  let ?q = "q\<lparr>t_heap := ?h', timer_list := Some a, min_timestamp := timestamp n\<rparr>"
  have ia: "i \<noteq> a" using a(1) by auto
  have "insert_timer_inloop q a = Some ?q"
    using a(2) skip m ia ends(1) by (simp add: insert_timer_inloop_def fun_upd_twist)
  moreover have "linked (tl_links ?h') None ([] @ a # i # bs) None"
    by (rule linked_insertI [where L = "tl_links (t_heap q)"])
      (use lk d a(1) ia m in \<open>auto simp: last_ptr_def link_next_def link_prev_def links_of_def\<close>)
  then have "queue_list ?q (a # i # bs)"
    using d a(1) ends(2) by (simp add: queue_list_def dlist_def)
  moreover have "same_data q ?q {a}" using m by (auto simp: same_data_def timer_data_def)
  ultimately show thesis using that [of ?q] ia by simp
qed

lemma insert_timer_middle:
  assumes l: "queue_list q (as @ p # i # bs)" and a: "a \<notin> set (as @ p # i # bs)" "t_heap q a = Some n"
    and early: "dropWhile (\<lambda>b. key q b \<le> timestamp n) (as @ p # i # bs) = i # bs"
  obtains q' where "insert_timer_inloop q a = Some q'" "queue_list q' (as @ p # a # i # bs)"
    "t_heap q' a = Some (n\<lparr>t_prev := Some p, t_next := Some i, is_in_queue := True\<rparr>)"
    "same_data q q' {a}" "\<And>b. b \<notin> insert a (set (as @ p # i # bs)) \<Longrightarrow> t_heap q' b = t_heap q b"
    "tasks q' = tasks q" "min_timestamp q' = min_timestamp q"
proof -
  let ?n = "n\<lparr>t_prev := None, t_next := None\<rparr>"
  let ?h = "(t_heap q)(a \<mapsto> ?n)"
  obtain m where m: "t_heap q i = Some m" "t_prev m = Some p"
    using queue_list_node [of q "as @ [p]" i bs] l by auto
  obtain k where k: "t_heap q p = Some k" using queue_list_live [OF l, of p] by auto
  have ends: "timer_list q = first_ptr (as @ p # i # bs) None" "timer_list_end q = last_ptr None (as @ p # i # bs)"
      and d: "distinct (as @ p # i # bs)" and lk: "linked (tl_links (t_heap q)) None (as @ p # i # bs) None"
    using l by (simp_all add: queue_list_def dlist_def)
  obtain f where f: "timer_list q = Some f" using ends(1) by (cases as) auto
  have skip: "skip_until ?h (timestamp n) (Some f) = Some (Some i)"
    using skip_until_new [OF l a(1), of ?n "timestamp n"] early f by simp
  let ?h' = "?h(p \<mapsto> k\<lparr>t_next := Some a\<rparr>, a \<mapsto> n\<lparr>t_prev := Some p, t_next := Some i, is_in_queue := True\<rparr>,
      i \<mapsto> m\<lparr>t_prev := Some a\<rparr>)"
  let ?q = "q\<lparr>t_heap := ?h'\<rparr>"
  have ne: "i \<noteq> a" "p \<noteq> a" "i \<noteq> p" using a(1) d by auto
  have "insert_timer_inloop q a = Some ?q"
    using a(2) f skip m k ne by (simp add: insert_timer_inloop_def fun_upd_twist)
  moreover have "linked (tl_links ?h') None ((as @ [p]) @ a # i # bs) None"
    by (rule linked_insertI [where L = "tl_links (t_heap q)"])
      (use lk d a(1) ne m k in \<open>auto simp: link_next_def link_prev_def links_of_def linked_append\<close>)
  then have "queue_list ?q (as @ p # a # i # bs)"
    using d a(1) ends by (cases as) (auto simp: queue_list_def dlist_def)
  moreover have "same_data q ?q {a}" using m k by (auto simp: same_data_def timer_data_def)
  ultimately show thesis using that [of ?q] ne by simp
qed

text \<open>Insertion, whatever the position.\<close>

lemma insert_timer_list:
  assumes l: "queue_list q xs" and a: "a \<notin> set xs" "t_heap q a = Some n"
  defines "as \<equiv> takeWhile (\<lambda>b. key q b \<le> timestamp n) xs" and "bs \<equiv> dropWhile (\<lambda>b. key q b \<le> timestamp n) xs"
  obtains q' where "insert_timer_inloop q a = Some q'" "queue_list q' (as @ a # bs)"
    "map_option timer_data (t_heap q' a) = Some (timer_data (n\<lparr>is_in_queue := True\<rparr>))"
    "same_data q q' {a}" "\<And>b. b \<notin> insert a (set xs) \<Longrightarrow> t_heap q' b = t_heap q b"
    "tasks q' = tasks q" "min_timestamp q' = (if as = [] then timestamp n else min_timestamp q)"
proof -
  have xs: "xs = as @ bs" by (simp add: as_def bs_def)
  consider "xs = []" | "xs \<noteq> []" "bs = []" | i cs where "as = []" "bs = i # cs"
    | p ds i cs where "as = ds @ [p]" "bs = i # cs"
    by (metis list.exhaust rev_exhaust xs append_is_Nil_conv)
  then show thesis
  proof cases
    case 1
    let ?q = "q\<lparr>t_heap := (t_heap q)(a \<mapsto> n\<lparr>t_prev := None, t_next := None, is_in_queue := True\<rparr>),
        timer_list := Some a, timer_list_end := Some a, min_timestamp := timestamp n\<rparr>"
    have "insert_timer_inloop q a = Some ?q"
      using a(2) l 1 by (simp add: insert_timer_inloop_def queue_list_def)
    then show thesis using that [of ?q] 1 xs a(2)
      by (simp add: queue_list_def dlist_def same_data_def timer_data_def)
  next
    case 2
    then have "as = xs" using xs by simp
    from insert_timer_tail [OF l a 2(1)] 2(2) obtain q' where "insert_timer_inloop q a = Some q'" "queue_list q' (xs @ [a])"
      "t_heap q' a = Some (n\<lparr>t_prev := Some (last xs), t_next := None, is_in_queue := True\<rparr>)"
      "same_data q q' {a}" "\<And>b. b \<notin> insert a (set xs) \<Longrightarrow> t_heap q' b = t_heap q b"
      "tasks q' = tasks q" "min_timestamp q' = min_timestamp q"
      unfolding bs_def by metis
    then show thesis using that [of q'] 2 \<open>as = xs\<close> by (simp add: timer_data_def)
  next
    case (3 i cs)
    have l': "queue_list q (i # cs)" and a': "a \<notin> set (i # cs)" using l a xs 3 by simp_all
    have "\<not> key q i \<le> timestamp n" using 3(2) unfolding bs_def by (metis dropWhile_eq_Cons_conv)
    from insert_timer_front [OF l' a' a(2) this] obtain q' where "insert_timer_inloop q a = Some q'"
      "queue_list q' (a # i # cs)" "t_heap q' a = Some (n\<lparr>t_prev := None, t_next := Some i, is_in_queue := True\<rparr>)"
      "same_data q q' {a}" "\<And>b. b \<notin> insert a (set (i # cs)) \<Longrightarrow> t_heap q' b = t_heap q b"
      "tasks q' = tasks q" "min_timestamp q' = timestamp n" by metis
    then show thesis using that [of q'] 3 xs by (simp add: timer_data_def)
  next
    case (4 p ds i cs)
    have xs4: "xs = ds @ p # i # cs" using xs 4 by simp
    have l': "queue_list q (ds @ p # i # cs)" and a': "a \<notin> set (ds @ p # i # cs)" using l a(1) xs4 by simp_all
    have "dropWhile (\<lambda>b. key q b \<le> timestamp n) (ds @ p # i # cs) = i # cs"
      using 4(2) unfolding bs_def xs4 .
    from insert_timer_middle [OF l' a' a(2) this] obtain q' where "insert_timer_inloop q a = Some q'"
      "queue_list q' (ds @ p # a # i # cs)" "t_heap q' a = Some (n\<lparr>t_prev := Some p, t_next := Some i, is_in_queue := True\<rparr>)"
      "same_data q q' {a}" "\<And>b. b \<notin> insert a (set (ds @ p # i # cs)) \<Longrightarrow> t_heap q' b = t_heap q b"
      "tasks q' = tasks q" "min_timestamp q' = min_timestamp q" by metis
    then show thesis using that [of q'] 4 xs4 by (simp add: timer_data_def)
  qed
qed

text \<open>Removal, whatever the position.\<close>

lemma remove_timer_list:
  assumes l: "queue_list q (as @ a # bs)"
  obtains q' where "remove_timer_inloop now q a = Some q'" "queue_list q' (as @ bs)" "same_data q q' {}"
    "\<And>b. b \<notin> set (as @ bs) \<Longrightarrow> t_heap q' b = t_heap q b" "tasks q' = tasks q"
    "min_timestamp q' = (if as \<noteq> [] then min_timestamp q else if bs = [] then now else key q (hd bs))"
proof -
  obtain n where n: "t_heap q a = Some n" "t_prev n = last_ptr None as" "t_next n = first_ptr bs None"
    using queue_list_node [OF l] by metis
  have ends: "timer_list q = first_ptr (as @ a # bs) None" "timer_list_end q = last_ptr None (as @ a # bs)"
      and d: "distinct (as @ a # bs)" and lk: "linked (tl_links (t_heap q)) None (as @ a # bs) None"
    using l by (simp_all add: queue_list_def dlist_def)
  have list: "queue_list q' (as @ bs)"
    if "linked (tl_links (t_heap q')) None (as @ bs) None"
      "timer_list q' = first_ptr (as @ bs) None" "timer_list_end q' = last_ptr None (as @ bs)" for q'
    using that d by (simp add: queue_list_def dlist_def)
  consider "as = []" "bs = []" | i cs where "as = []" "bs = i # cs" | ds p where "as = ds @ [p]" "bs = []"
    | ds p i cs where "as = ds @ [p]" "bs = i # cs"
    by (metis list.exhaust rev_exhaust)
  then show thesis
  proof cases
    case 1
    let ?q = "q\<lparr>timer_list := None, timer_list_end := None, min_timestamp := now\<rparr>"
    have "remove_timer_inloop now q a = Some ?q" using n ends 1 by (simp add: remove_timer_inloop_def)
    then show thesis using that [of ?q] 1 by (simp add: queue_list_def dlist_def same_data_def)
  next
    case (2 i cs)
    obtain m where m: "t_heap q i = Some m" using queue_list_live [OF l, of i] 2 by auto
    let ?q = "q\<lparr>t_heap := (t_heap q)(i \<mapsto> m\<lparr>t_prev := None\<rparr>), timer_list := Some i, min_timestamp := timestamp m\<rparr>"
    have "remove_timer_inloop now q a = Some ?q" using n ends 2 m by (simp add: remove_timer_inloop_def)
    moreover have "linked (tl_links (t_heap ?q)) None (as @ bs) None"
      by (rule linked_removeI [OF lk d]) (use 2 m in \<open>auto simp: link_prev_def link_next_def links_of_def\<close>)
    then have "queue_list ?q (as @ bs)" by (rule list) (use ends 2 in simp_all)
    moreover have "same_data q ?q {}" using m by (auto simp: same_data_def timer_data_def)
    ultimately show thesis using that [of ?q] 2 d m by (simp add: key_def)
  next
    case (3 ds p)
    obtain m where m: "t_heap q p = Some m" using queue_list_live [OF l, of p] 3 by auto
    have first: "timer_list q \<noteq> Some a" using ends(1) d 3 by (cases ds) auto
    let ?q = "q\<lparr>t_heap := (t_heap q)(p \<mapsto> m\<lparr>t_next := None\<rparr>), timer_list_end := Some p\<rparr>"
    have "remove_timer_inloop now q a = Some ?q" using n ends(2) first 3 m by (simp add: remove_timer_inloop_def)
    moreover have "linked (tl_links (t_heap ?q)) None (as @ bs) None"
      by (rule linked_removeI [OF lk d]) (use 3 m in \<open>auto simp: link_prev_def link_next_def links_of_def\<close>)
    then have "queue_list ?q (as @ bs)" by (rule list) (use ends 3 in simp_all)
    moreover have "same_data q ?q {}" using m by (auto simp: same_data_def timer_data_def)
    ultimately show thesis using that [of ?q] 3 by simp
  next
    case (4 ds p i cs)
    obtain m where m: "t_heap q p = Some m" using queue_list_live [OF l, of p] 4 by auto
    obtain k where k: "t_heap q i = Some k" using queue_list_live [OF l, of i] 4 by auto
    have ne: "i \<noteq> p" "i \<noteq> a" "p \<noteq> a" using d 4 by auto
    have first: "timer_list q \<noteq> Some a" using ends(1) d 4 by (cases ds) auto
    have last: "timer_list_end q \<noteq> Some a" using ends(2) d 4 by (auto simp: last_ptr_def split: if_splits)
    let ?q = "q\<lparr>t_heap := (t_heap q)(p \<mapsto> m\<lparr>t_next := Some i\<rparr>, i \<mapsto> k\<lparr>t_prev := Some p\<rparr>)\<rparr>"
    have "remove_timer_inloop now q a = Some ?q"
      using n first last 4 m k ne by (simp add: remove_timer_inloop_def)
    moreover have "linked (tl_links (t_heap ?q)) None (as @ bs) None"
      by (rule linked_removeI [OF lk d]) (use 4 m k ne in \<open>auto simp: link_prev_def link_next_def links_of_def\<close>)
    then have "queue_list ?q (as @ bs)" by (rule list) (use ends 4 in \<open>simp_all add: last_ptr_def\<close>)
    moreover have "same_data q ?q {}" using m k by (auto simp: same_data_def timer_data_def)
    ultimately show thesis using that [of ?q] 4 ne by simp
  qed
qed

text \<open>
  The invariant: the list is in the order of the timestamps, the least one is cached, and a
  live timer is in the list exactly when its flags say so.
\<close>

definition in_list :: "loop_timer \<Rightarrow> bool" where
  "in_list n \<longleftrightarrow> is_in_queue n \<and> \<not> is_expired n \<and> \<not> is_in_callback n"

definition flags_ok :: "timer_queue \<Rightarrow> addr list \<Rightarrow> bool" where
  "flags_ok q xs \<longleftrightarrow> (\<forall>b n. t_heap q b = Some n \<longrightarrow> (b \<in> set xs \<longleftrightarrow> in_list n) \<and> (in_list n \<longrightarrow> is_alive n))"

definition tq_wf :: "timer_queue \<Rightarrow> addr list \<Rightarrow> bool" where
  "tq_wf q xs \<longleftrightarrow> queue_list q xs \<and> sorted (map (key q) xs) \<and>
     (xs \<noteq> [] \<longrightarrow> min_timestamp q = key q (hd xs)) \<and> flags_ok q xs"

lemma timer_data_fields:
  assumes "timer_data n' = timer_data n"
  shows "timestamp n' = timestamp n" "in_list n' = in_list n" "is_alive n' = is_alive n"
    "is_expired n' = is_expired n" "is_in_callback n' = is_in_callback n" "interval n' = interval n"
  using assms by (cases n; cases n'; simp add: timer_data_def in_list_def)+

lemma same_data_node:
  assumes "same_data q q' A" and "b \<notin> A" and "t_heap q b = Some n"
  obtains n' where "t_heap q' b = Some n'" "timer_data n' = timer_data n"
proof -
  have "map_option timer_data (t_heap q' b) = Some (timer_data n)" using assms by (simp add: same_data_def)
  then show thesis using that by (auto simp: map_option_case split: option.splits)
qed

lemma same_data_none: "same_data q q' A \<Longrightarrow> b \<notin> A \<Longrightarrow> t_heap q' b = None \<longleftrightarrow> t_heap q b = None"
  by (metis same_data_def option.map_disc_iff)

lemma same_data_key:
  assumes "same_data q q' A" and "b \<notin> A" and "t_heap q b \<noteq> None"
  shows "key q' b = key q b"
proof -
  obtain n where n: "t_heap q b = Some n" using assms(3) by auto
  obtain n' where "t_heap q' b = Some n'" "timer_data n' = timer_data n" using same_data_node [OF assms(1, 2) n] .
  with n show ?thesis using timer_data_fields(1) [of n' n] by (simp add: key_def)
qed

lemma set_insert_between: "set (takeWhile P xs @ a # dropWhile P xs) = insert a (set xs)"
proof -
  have "set xs = set (takeWhile P xs) \<union> set (dropWhile P xs)" by (metis set_append takeWhile_dropWhile_id)
  then show ?thesis by auto
qed

text \<open>The stable place of a new key keeps a list sorted.\<close>

lemma sorted_between:
  "sorted (us @ vs) \<Longrightarrow> \<forall>x \<in> set us. x \<le> t \<Longrightarrow> \<forall>x \<in> set vs. t \<le> x \<Longrightarrow> sorted (us @ t # vs)"
  by (auto simp: sorted_append)

lemma sorted_insert_after:
  assumes "sorted (map k xs)"
  shows "sorted (map k (takeWhile (\<lambda>b. k b \<le> t) xs) @ t # map k (dropWhile (\<lambda>b. k b \<le> t) xs))"
proof -
  have split: "sorted (map k (takeWhile (\<lambda>b. k b \<le> t) xs) @ map k (dropWhile (\<lambda>b. k b \<le> t) xs))"
    using assms by (metis map_append takeWhile_dropWhile_id)
  have le: "\<forall>x \<in> set (map k (takeWhile (\<lambda>b. k b \<le> t) xs)). x \<le> t" by (auto dest: set_takeWhileD)
  have "\<forall>x \<in> set (map k (dropWhile (\<lambda>b. k b \<le> t) xs)). t \<le> x"
  proof (cases "dropWhile (\<lambda>b. k b \<le> t) xs")
    case (Cons y ys)
    then have "t < k y" by (metis dropWhile_eq_Cons_conv linorder_not_le)
    moreover have "\<forall>z \<in> set ys. k y \<le> k z" using split Cons by (simp add: sorted_append)
    ultimately show ?thesis using Cons by auto
  next
    case Nil
    show ?thesis unfolding Nil by simp
  qed
  with split le show ?thesis by (rule sorted_between)
qed

text \<open>Inserting a live timer that is in no list.\<close>

lemma insert_timer_wf:
  assumes wf: "queue_list q xs" "sorted (map (key q) xs)" "xs \<noteq> [] \<Longrightarrow> min_timestamp q = key q (hd xs)"
    and flags: "\<And>b n. b \<noteq> a \<Longrightarrow> t_heap q b = Some n \<Longrightarrow> (b \<in> set xs \<longleftrightarrow> in_list n) \<and> (in_list n \<longrightarrow> is_alive n)"
    and a: "a \<notin> set xs" "t_heap q a = Some n" "is_alive n" "\<not> is_expired n" "\<not> is_in_callback n"
  obtains q' where "insert_timer_inloop q a = Some q'"
    "tq_wf q' (takeWhile (\<lambda>b. key q b \<le> timestamp n) xs @ a # dropWhile (\<lambda>b. key q b \<le> timestamp n) xs)"
    "key q' a = timestamp n" "same_data q q' {a}" "\<And>b. b \<notin> insert a (set xs) \<Longrightarrow> t_heap q' b = t_heap q b"
    "tasks q' = tasks q"
proof -
  let ?as = "takeWhile (\<lambda>b. key q b \<le> timestamp n) xs" and ?bs = "dropWhile (\<lambda>b. key q b \<le> timestamp n) xs"
  obtain q' where q': "insert_timer_inloop q a = Some q'" "queue_list q' (?as @ a # ?bs)"
      "map_option timer_data (t_heap q' a) = Some (timer_data (n\<lparr>is_in_queue := True\<rparr>))"
      "same_data q q' {a}" "\<And>b. b \<notin> insert a (set xs) \<Longrightarrow> t_heap q' b = t_heap q b"
      "tasks q' = tasks q" "min_timestamp q' = (if ?as = [] then timestamp n else min_timestamp q)"
    using insert_timer_list [OF wf(1) a(1, 2)] by metis
  obtain m where m: "t_heap q' a = Some m" "timer_data m = timer_data (n\<lparr>is_in_queue := True\<rparr>)"
    using q'(3) by (auto simp: map_option_case split: option.splits)
  have ma: "timestamp m = timestamp n" "in_list m" "is_alive m"
    using timer_data_fields [OF m(2)] a by (simp_all add: in_list_def)
  have keys: "key q' b = key q b" if "b \<in> set xs" for b
    using same_data_key [OF q'(4), of b] queue_list_live [OF wf(1) that] that a(1) by auto
  have maps: "map (key q') (?as @ a # ?bs) = map (key q) ?as @ timestamp n # map (key q) ?bs"
    using keys m ma by (auto simp: key_def [of q' a] dest: set_takeWhileD set_dropWhileD)
  have "sorted (map (key q') (?as @ a # ?bs))" unfolding maps by (rule sorted_insert_after [OF wf(2)])
  moreover have "min_timestamp q' = key q' (hd (?as @ a # ?bs))"
  proof (cases xs)
    case (Cons x ys)
    then show ?thesis using q'(7) wf(3) keys [of x] m ma by (auto simp: key_def [of q' a])
  qed (use q'(7) m ma in \<open>simp add: key_def\<close>)
  moreover have "flags_ok q' (?as @ a # ?bs)"
    unfolding flags_ok_def
  proof (intro allI impI)
    fix b k assume k: "t_heap q' b = Some k"
    have set: "set (?as @ a # ?bs) = insert a (set xs)"
      by (rule set_insert_between)
    show "(b \<in> set (?as @ a # ?bs) \<longleftrightarrow> in_list k) \<and> (in_list k \<longrightarrow> is_alive k)"
    proof (cases "b = a")
      case True
      then show ?thesis using k m ma by simp
    next
      case False
      then obtain k0 where k0: "t_heap q b = Some k0" using same_data_none [OF q'(4), of b] k by auto
      then have "timer_data k = timer_data k0" using same_data_node [OF q'(4) _ k0] False k by auto
      then show ?thesis using flags [OF False k0] timer_data_fields [of k k0] False set by simp
    qed
  qed
  ultimately show thesis using that [of q'] q' m ma by (simp add: tq_wf_def key_def)
qed

lemma remove_timer_wf:
  assumes wf: "tq_wf q (as @ a # bs)"
  obtains q' where "remove_timer_inloop now q a = Some q'" "queue_list q' (as @ bs)"
    "sorted (map (key q') (as @ bs))" "as @ bs \<noteq> [] \<Longrightarrow> min_timestamp q' = key q' (hd (as @ bs))"
    "same_data q q' {}" "\<And>b. b \<notin> set (as @ bs) \<Longrightarrow> t_heap q' b = t_heap q b" "tasks q' = tasks q"
proof -
  have l: "queue_list q (as @ a # bs)" and srt: "sorted (map (key q) (as @ a # bs))"
      and mn: "min_timestamp q = key q (hd (as @ a # bs))"
    using wf by (auto simp: tq_wf_def)
  obtain q' where q': "remove_timer_inloop now q a = Some q'" "queue_list q' (as @ bs)" "same_data q q' {}"
      "\<And>b. b \<notin> set (as @ bs) \<Longrightarrow> t_heap q' b = t_heap q b" "tasks q' = tasks q"
      "min_timestamp q' = (if as \<noteq> [] then min_timestamp q else if bs = [] then now else key q (hd bs))"
    using remove_timer_list [OF l] by metis
  have keys: "key q' b = key q b" if "b \<in> set (as @ bs)" for b
    using same_data_key [OF q'(3), of b] queue_list_live [OF l, of b] that by auto
  have maps: "map (key q') (as @ bs) = map (key q) (as @ bs)" using keys by (simp add: map_eq_conv)
  have "sorted (map (key q') (as @ bs))" unfolding maps using srt by (auto simp: sorted_append)
  moreover have "min_timestamp q' = key q' (hd (as @ bs))" if "as @ bs \<noteq> []"
    using q'(6) mn keys [of "hd (as @ bs)"] that by (auto simp: hd_append)
  ultimately show thesis using that q' by blast
qed

text \<open>
  What a step leaves of the timers that are being expired: everything, but those in \<open>C\<close> may be
  cancelled.
\<close>

definition keeps :: "addr set \<Rightarrow> timer_queue \<Rightarrow> timer_queue \<Rightarrow> bool" where
  "keeps C q q' \<longleftrightarrow> (\<forall>b n. t_heap q b = Some n \<longrightarrow> is_expired n \<or> is_in_callback n \<longrightarrow>
     (\<exists>v. t_heap q' b = Some (n\<lparr>is_alive := v\<rparr>) \<and> (b \<notin> C \<longrightarrow> v = is_alive n)))"

lemma keeps_same:
  assumes "\<And>b n. t_heap q b = Some n \<Longrightarrow> is_expired n \<or> is_in_callback n \<Longrightarrow> t_heap q' b = Some n"
  shows "keeps C q q'"
  unfolding keeps_def
proof (intro allI impI)
  fix b n assume "t_heap q b = Some n" "is_expired n \<or> is_in_callback n"
  then have "t_heap q' b = Some (n\<lparr>is_alive := is_alive n\<rparr>)" using assms by simp
  then show "\<exists>v. t_heap q' b = Some (n\<lparr>is_alive := v\<rparr>) \<and> (b \<notin> C \<longrightarrow> v = is_alive n)" by blast
qed

lemma keepsD:
  "keeps C q q' \<Longrightarrow> t_heap q b = Some n \<Longrightarrow> is_expired n \<or> is_in_callback n \<Longrightarrow>
   \<exists>v. t_heap q' b = Some (n\<lparr>is_alive := v\<rparr>)"
  unfolding keeps_def by blast

lemma keeps_refl: "t_heap q' = t_heap q \<Longrightarrow> keeps C q q'"
  by (rule keeps_same) simp

lemma keeps_trans: "keeps C q q1 \<Longrightarrow> keeps D q1 q2 \<Longrightarrow> keeps (C \<union> D) q q2"
  unfolding keeps_def by fastforce

lemma flags_out: "flags_ok q xs \<Longrightarrow> t_heap q b = Some n \<Longrightarrow> is_expired n \<or> is_in_callback n \<Longrightarrow> b \<notin> set xs"
  by (auto simp: flags_ok_def in_list_def)

lemma keeps_unchanged:
  assumes "flags_ok q xs" and "\<And>b. b \<notin> insert a (set xs) \<Longrightarrow> t_heap q' b = t_heap q b"
    and "\<And>n. t_heap q a = Some n \<Longrightarrow> \<not> is_expired n \<and> \<not> is_in_callback n"
  shows "keeps C q q'"
proof (rule keeps_same)
  fix b n assume b: "t_heap q b = Some n" "is_expired n \<or> is_in_callback n"
  then have "b \<notin> insert a (set xs)" using flags_out [OF assms(1)] assms(3) by auto
  then show "t_heap q' b = Some n" using assms(2) b by simp
qed

text \<open>The list part of the invariant only looks at the nodes in the list.\<close>

definition list_wf :: "timer_queue \<Rightarrow> addr list \<Rightarrow> bool" where
  "list_wf q xs \<longleftrightarrow> queue_list q xs \<and> sorted (map (key q) xs) \<and> (xs \<noteq> [] \<longrightarrow> min_timestamp q = key q (hd xs))"

lemma tq_wf_iff: "tq_wf q xs \<longleftrightarrow> list_wf q xs \<and> flags_ok q xs"
  by (auto simp: tq_wf_def list_wf_def)

lemma list_wf_other:
  assumes "list_wf q xs" and "a \<notin> set xs"
  shows "list_wf (q\<lparr>t_heap := (t_heap q)(a := x)\<rparr>) xs"
proof -
  let ?q = "q\<lparr>t_heap := (t_heap q)(a := x)\<rparr>"
  have keys: "key ?q b = key q b" if "b \<in> set xs" for b using assms(2) that by (auto simp: key_def)
  then have maps: "map (key ?q) xs = map (key q) xs" by (simp add: map_eq_conv)
  have "sorted (map (key ?q) xs)" unfolding maps using assms(1) by (simp add: list_wf_def)
  moreover have "queue_list ?q xs"
    using assms by (cases x) (simp_all add: list_wf_def queue_list_def dlist_other)
  ultimately show ?thesis using assms(1) keys [of "hd xs"] by (simp add: list_wf_def)
qed

text \<open>Changing, releasing or killing a timer that is in no list.\<close>

lemma set_out_wf:
  assumes wf: "tq_wf q xs" and a: "t_heap q a = Some n" "\<not> in_list n" and n': "\<not> in_list n'"
  shows "tq_wf (q\<lparr>t_heap := (t_heap q)(a \<mapsto> n')\<rparr>) xs"
proof -
  have out: "a \<notin> set xs" using wf a by (auto simp: tq_wf_def flags_ok_def)
  have "flags_ok (q\<lparr>t_heap := (t_heap q)(a \<mapsto> n')\<rparr>) xs"
    using wf a(1) out n' by (auto simp: tq_wf_def flags_ok_def)
  then show ?thesis using list_wf_other [OF _ out, of q "Some n'"] wf by (simp add: tq_wf_iff)
qed

lemma drop_out_wf:
  assumes wf: "tq_wf q xs" and a: "t_heap q a = Some n" "\<not> in_list n"
  shows "tq_wf (q\<lparr>t_heap := (t_heap q)(a := None)\<rparr>) xs"
proof -
  have out: "a \<notin> set xs" using wf a by (auto simp: tq_wf_def flags_ok_def)
  have "flags_ok (q\<lparr>t_heap := (t_heap q)(a := None)\<rparr>) xs" using wf by (auto simp: tq_wf_def flags_ok_def)
  then show ?thesis using list_wf_other [OF _ out, of q None] wf by (simp add: tq_wf_iff)
qed

lemma kill_wf:
  assumes wf: "tq_wf q xs" and a: "t_heap q a = Some n" "\<not> in_list n"
  shows "tq_wf (q\<lparr>t_heap := (t_heap q)(a \<mapsto> n\<lparr>is_alive := False\<rparr>)\<rparr>) xs"
    and "keeps {a} q (q\<lparr>t_heap := (t_heap q)(a \<mapsto> n\<lparr>is_alive := False\<rparr>)\<rparr>)"
proof -
  show "tq_wf (q\<lparr>t_heap := (t_heap q)(a \<mapsto> n\<lparr>is_alive := False\<rparr>)\<rparr>) xs"
    by (rule set_out_wf [OF wf a]) (use a in \<open>simp add: in_list_def\<close>)
  let ?q = "q\<lparr>t_heap := (t_heap q)(a \<mapsto> n\<lparr>is_alive := False\<rparr>)\<rparr>"
  show "keeps {a} q ?q" unfolding keeps_def
  proof (intro allI impI)
    fix b k assume b: "t_heap q b = Some k"
    show "\<exists>v. t_heap ?q b = Some (k\<lparr>is_alive := v\<rparr>) \<and> (b \<notin> {a} \<longrightarrow> v = is_alive k)"
    proof (cases "b = a")
      case False
      then have "t_heap ?q b = Some (k\<lparr>is_alive := is_alive k\<rparr>)" using b by simp
      then show ?thesis by blast
    qed (use a b in auto)
  qed
qed

lemma insert_new_wf:
  assumes wf: "tq_wf q xs" and a: "t_heap q a = None" and n: "is_alive n" "\<not> is_expired n" "\<not> is_in_callback n"
  obtains q' xs' where "insert_timer_inloop (q\<lparr>t_heap := (t_heap q)(a \<mapsto> n)\<rparr>) a = Some q'" "tq_wf q' xs'"
    "keeps {} q q'" "tasks q' = tasks q" "set xs' = insert a (set xs)" "key q' a = timestamp n"
    "\<And>b. b \<in> set xs \<Longrightarrow> key q' b = key q b"
proof -
  let ?q = "q\<lparr>t_heap := (t_heap q)(a \<mapsto> n)\<rparr>"
  have out: "a \<notin> set xs" using queue_list_live [of q xs a] wf a by (auto simp: tq_wf_def)
  have lw: "list_wf ?q xs" using list_wf_other [OF _ out] wf by (simp add: tq_wf_iff)
  have fl: "\<And>b k. b \<noteq> a \<Longrightarrow> t_heap ?q b = Some k \<Longrightarrow> (b \<in> set xs \<longleftrightarrow> in_list k) \<and> (in_list k \<longrightarrow> is_alive k)"
    using wf by (simp add: tq_wf_def flags_ok_def)
  obtain q' where q': "insert_timer_inloop ?q a = Some q'"
    "tq_wf q' (takeWhile (\<lambda>b. key ?q b \<le> timestamp n) xs @ a # dropWhile (\<lambda>b. key ?q b \<le> timestamp n) xs)"
    "key q' a = timestamp n" "same_data ?q q' {a}" "\<And>b. b \<notin> insert a (set xs) \<Longrightarrow> t_heap q' b = t_heap ?q b"
    "tasks q' = tasks ?q"
    using insert_timer_wf [of ?q xs a n] lw fl out n unfolding list_wf_def by auto
  have "keeps {} q q'"
  proof (rule keeps_unchanged)
    show "flags_ok q xs" using wf by (simp add: tq_wf_def)
    show "t_heap q' b = t_heap q b" if "b \<notin> insert a (set xs)" for b using q'(5) [OF that] that by simp
  qed (use a in simp)
  moreover have "set (takeWhile (\<lambda>b. key ?q b \<le> timestamp n) xs @ a # dropWhile (\<lambda>b. key ?q b \<le> timestamp n) xs) =
      insert a (set xs)"
    by (rule set_insert_between)
  moreover have "key q' b = key q b" if "b \<in> set xs" for b
  proof -
    have "b \<noteq> a" using that out by blast
    moreover have "t_heap q b \<noteq> None" using queue_list_live [of q xs b] wf that by (auto simp: tq_wf_def)
    ultimately show ?thesis using same_data_key [OF q'(4), of b] by (simp add: key_def)
  qed
  moreover have "tasks q' = tasks q" using q'(6) by simp
  ultimately show thesis using q'(1, 2, 3) by (intro that)
qed

text \<open>Taking a timer out of the list.\<close>

lemma detach_wf:
  assumes wf: "tq_wf q xs" and a: "t_heap q a = Some n" "in_list n"
  obtains q1 ys where "remove_timer_inloop now q a = Some q1" "list_wf q1 ys" "set ys = set xs - {a}"
    "t_heap q1 a = Some n" "keeps {} q q1" "tasks q1 = tasks q"
    "\<And>b k. b \<noteq> a \<Longrightarrow> t_heap q1 b = Some k \<Longrightarrow> (b \<in> set ys \<longleftrightarrow> in_list k) \<and> (in_list k \<longrightarrow> is_alive k)"
proof -
  have "a \<in> set xs" using wf a by (auto simp: tq_wf_def flags_ok_def)
  then obtain as bs where xs: "xs = as @ a # bs" by (auto simp: in_set_conv_decomp)
  have d: "a \<notin> set (as @ bs)" using wf xs by (auto simp: tq_wf_def queue_list_def dlist_def)
  obtain q1 where q1: "remove_timer_inloop now q a = Some q1" "queue_list q1 (as @ bs)"
      "sorted (map (key q1) (as @ bs))" "as @ bs \<noteq> [] \<Longrightarrow> min_timestamp q1 = key q1 (hd (as @ bs))"
      "same_data q q1 {}" "\<And>b. b \<notin> set (as @ bs) \<Longrightarrow> t_heap q1 b = t_heap q b" "tasks q1 = tasks q"
    using remove_timer_wf [OF wf [unfolded xs], of now] by metis
  have "list_wf q1 (as @ bs)" using q1(2, 3, 4) unfolding list_wf_def by blast
  moreover have "set (as @ bs) = set xs - {a}" using xs d by auto
  moreover have "t_heap q1 a = Some n" using q1(6) [OF d] a by simp
  moreover have "keeps {} q q1"
  proof (rule keeps_unchanged)
    show "flags_ok q xs" using wf by (simp add: tq_wf_def)
    show "t_heap q1 b = t_heap q b" if "b \<notin> insert a (set xs)" for b using q1(6) [of b] that xs by auto
    show "\<And>n. t_heap q a = Some n \<Longrightarrow> \<not> is_expired n \<and> \<not> is_in_callback n" using a by (simp add: in_list_def)
  qed
  moreover have "(b \<in> set (as @ bs) \<longleftrightarrow> in_list k) \<and> (in_list k \<longrightarrow> is_alive k)"
    if b: "b \<noteq> a" "t_heap q1 b = Some k" for b k
  proof -
    obtain k0 where k0: "t_heap q b = Some k0" using same_data_none [OF q1(5), of b] b by auto
    then have "timer_data k = timer_data k0" using same_data_node [OF q1(5) _ k0] b by auto
    then show ?thesis using wf k0 b xs timer_data_fields [of k k0] by (auto simp: tq_wf_def flags_ok_def)
  qed
  ultimately show thesis using that [of q1 "as @ bs"] q1(1, 7) by blast
qed

lemma cancel_wf:
  assumes wf: "tq_wf q xs" and a: "t_heap q a = Some n"
  obtains q' xs' where "timer_queue_cancel_inloop now q a = Some q'" "tq_wf q' xs'" "keeps {a} q q'"
    "tasks q' = tasks q" "set xs' = set xs - {a}"
proof (cases "in_list n")
  case False
  let ?q = "q\<lparr>t_heap := (t_heap q)(a \<mapsto> n\<lparr>is_alive := False\<rparr>)\<rparr>"
  have "a \<notin> set xs" using wf a False by (auto simp: tq_wf_def flags_ok_def)
  moreover have "timer_queue_cancel_inloop now q a = Some ?q"
    using a False by (auto simp: timer_queue_cancel_inloop_def in_list_def)
  ultimately show thesis using that [of ?q xs] kill_wf [OF wf a False] by simp
next
  case True
  obtain q1 ys where q1: "remove_timer_inloop now q a = Some q1" "list_wf q1 ys" "set ys = set xs - {a}"
    "t_heap q1 a = Some n" "keeps {} q q1" "tasks q1 = tasks q"
    "\<And>b k. b \<noteq> a \<Longrightarrow> t_heap q1 b = Some k \<Longrightarrow> (b \<in> set ys \<longleftrightarrow> in_list k) \<and> (in_list k \<longrightarrow> is_alive k)"
    using detach_wf [OF wf a True, of now] by metis
  let ?q = "q1\<lparr>t_heap := (t_heap q1)(a := None)\<rparr>"
  have "timer_queue_cancel_inloop now q a = Some ?q"
    using a True q1(1, 4) by (simp add: timer_queue_cancel_inloop_def in_list_def)
  moreover have "tq_wf ?q ys"
    using list_wf_other [OF q1(2), of a None] q1(3, 7) by (simp add: tq_wf_iff flags_ok_def)
  moreover have "keeps {a} q ?q"
    using q1(5) a True by (auto simp: keeps_def in_list_def)
  ultimately show thesis using that [of ?q ys] q1(3, 6) by simp
qed

lemma refresh_wf:
  assumes wf: "tq_wf q xs" and a: "t_heap q a = Some n" "in_list n"
  obtains q' xs' where "do_timer_queue_refresh now q a = Some q'" "tq_wf q' xs'" "keeps {} q q'"
    "tasks q' = tasks q" "set xs' = set xs" "key q' a = now + ucast (interval n)"
proof -
  obtain q1 ys where q1: "remove_timer_inloop now q a = Some q1" "list_wf q1 ys" "set ys = set xs - {a}"
    "t_heap q1 a = Some n" "keeps {} q q1" "tasks q1 = tasks q"
    "\<And>b k. b \<noteq> a \<Longrightarrow> t_heap q1 b = Some k \<Longrightarrow> (b \<in> set ys \<longleftrightarrow> in_list k) \<and> (in_list k \<longrightarrow> is_alive k)"
    using detach_wf [OF wf a, of now] by metis
  let ?n = "n\<lparr>timestamp := now + ucast (interval n), t_prev := None, t_next := None\<rparr>"
  let ?q = "q1\<lparr>t_heap := (t_heap q1)(a \<mapsto> ?n)\<rparr>"
  have out: "a \<notin> set ys" using q1(3) by simp
  have alive: "is_alive ?n" "\<not> is_expired ?n" "\<not> is_in_callback ?n"
    using wf a by (auto simp: tq_wf_def flags_ok_def in_list_def)
  have ins: "queue_list ?q ys" "sorted (map (key ?q) ys)" "ys \<noteq> [] \<Longrightarrow> min_timestamp ?q = key ?q (hd ys)"
    using list_wf_other [OF q1(2) out, of "Some ?n"] unfolding list_wf_def by blast+
  have fl: "\<And>b k. b \<noteq> a \<Longrightarrow> t_heap ?q b = Some k \<Longrightarrow> (b \<in> set ys \<longleftrightarrow> in_list k) \<and> (in_list k \<longrightarrow> is_alive k)"
    using q1(7) by simp
  have node: "t_heap ?q a = Some ?n" by simp
  obtain q' where q': "insert_timer_inloop ?q a = Some q'"
    "tq_wf q' (takeWhile (\<lambda>b. key ?q b \<le> timestamp ?n) ys @ a # dropWhile (\<lambda>b. key ?q b \<le> timestamp ?n) ys)"
    "key q' a = timestamp ?n" "same_data ?q q' {a}" "\<And>b. b \<notin> insert a (set ys) \<Longrightarrow> t_heap q' b = t_heap ?q b"
    "tasks q' = tasks ?q"
    using insert_timer_wf [OF ins fl out node alive] by blast
  have "do_timer_queue_refresh now q a = Some q'"
    using q1(1, 4) q'(1) by (simp add: do_timer_queue_refresh_def)
  moreover have "keeps {} q q'"
  proof (rule keeps_same)
    fix b k assume b: "t_heap q b = Some k" "is_expired k \<or> is_in_callback k"
    then obtain v where v: "t_heap q1 b = Some (k\<lparr>is_alive := v\<rparr>)" "v = is_alive k"
      using q1(5) unfolding keeps_def by blast
    have "b \<noteq> a" using b a by (auto simp: in_list_def)
    moreover have "b \<notin> set ys" using flags_out [OF _ b] wf q1(3) by (auto simp: tq_wf_def)
    ultimately show "t_heap q' b = Some k" using q'(5) [of b] v by simp
  qed
  moreover have "set (takeWhile (\<lambda>b. key ?q b \<le> timestamp ?n) ys @ a # dropWhile (\<lambda>b. key ?q b \<le> timestamp ?n) ys) =
      set xs"
  proof -
    have "insert a (set ys) = set xs" using q1(3) wf a by (auto simp: tq_wf_def flags_ok_def)
    then show ?thesis by (simp only: set_insert_between)
  qed
  moreover have "key q' a = now + ucast (interval n)" using q'(3) by simp
  moreover have "tasks q' = tasks q" using q'(6) q1(6) by simp
  ultimately show thesis using q'(2) by (intro that)
qed

section \<open>Expiry\<close>

text \<open>
  The actions a callback may ask for: an added node is fresh memory, a cancelled timer is
  live, and a refreshed one is in the queue (or has no period). A callback is
  well behaved when its actions are, in whatever state it is called.
\<close>

definition legal :: "timer_queue \<Rightarrow> action \<Rightarrow> bool" where
  "legal q x =
     (case x of
        A_Add a ts iv f ud \<Rightarrow> t_heap q a = None
      | A_Cancel now a \<Rightarrow> t_heap q a \<noteq> None
      | A_Refresh now a \<Rightarrow> (case t_heap q a of None \<Rightarrow> False | Some n \<Rightarrow> interval n = 0 \<or> in_list n))"

primrec legal_all :: "timer_queue \<Rightarrow> action list \<Rightarrow> bool" where
  "legal_all q [] = True"
| "legal_all q (x # xs) =
     (legal q x \<and> (case do_action q x of None \<Rightarrow> True | Some q' \<Rightarrow> legal_all q' xs))"

definition cancels :: "action list \<Rightarrow> addr set" where
  "cancels as = {a. \<exists>now. A_Cancel now a \<in> set as}"

lemma cancels_Cons: "cancels (x # as) = cancels [x] \<union> cancels as"
  by (auto simp: cancels_def)

lemma action_wf:
  assumes wf: "tq_wf q xs" and legal: "legal q x"
  obtains q' xs' where "do_action q x = Some q'" "tq_wf q' xs'" "keeps (cancels [x]) q q'" "tasks q' = tasks q"
proof (cases x)
  case (A_Add a ts iv f ud)
  let ?n = "\<lparr>timestamp = ts, interval = iv, expirecb = f, userdata = ud, is_in_callback = False, is_alive = True,
     is_expired = False, is_in_queue = False, t_prev = None, t_next = None\<rparr>"
  have a: "t_heap q a = None" using legal A_Add by (simp add: legal_def)
  obtain q' xs' where q': "insert_timer_inloop (q\<lparr>t_heap := (t_heap q)(a \<mapsto> ?n)\<rparr>) a = Some q'" "tq_wf q' xs'"
      "keeps {} q q'" "tasks q' = tasks q"
    using insert_new_wf [OF wf a, of ?n] by (metis loop_timer.select_convs(5-7))
  have "do_action q x = Some q'"
    using A_Add a q'(1) by (simp add: do_action_def timer_queue_add_def run_inloop_def run_task_def do_insert_timer_def)
  then show thesis using that q' A_Add by (simp add: cancels_def)
next
  case (A_Cancel now a)
  then obtain n where "t_heap q a = Some n" using legal by (auto simp: legal_def)
  from cancel_wf [OF wf this, of now] show thesis
    using that A_Cancel by (auto simp: cancels_def do_action_def timer_queue_cancel_def run_inloop_def run_task_def)
next
  case (A_Refresh now a)
  then obtain n where n: "t_heap q a = Some n" "interval n = 0 \<or> in_list n"
    using legal by (auto simp: legal_def split: option.splits)
  show thesis
  proof (cases "interval n = 0")
    case True
    then have "do_action q x = Some q" using A_Refresh n by (simp add: do_action_def timer_queue_refresh_def)
    then show thesis using that [of q xs] wf keeps_refl by simp
  next
    case False
    then have pos: "interval n > 0" by (simp add: word_gt_0)
    from refresh_wf [OF wf n(1), of now] n(2) False show thesis
      using that A_Refresh n(1) pos by (auto simp: cancels_def do_action_def timer_queue_refresh_def run_inloop_def run_task_def)
  qed
qed

lemma actions_wf:
  "tq_wf q xs \<Longrightarrow> legal_all q as \<Longrightarrow>
   \<exists>q' xs'. do_actions as q = Some q' \<and> tq_wf q' xs' \<and> keeps (cancels as) q q' \<and> tasks q' = tasks q"
proof (induction as arbitrary: q xs)
  case Nil
  then show ?case using keeps_refl by auto
next
  case (Cons x as)
  obtain q1 xs1 where q1: "do_action q x = Some q1" "tq_wf q1 xs1" "keeps (cancels [x]) q q1" "tasks q1 = tasks q"
    using action_wf [OF Cons.prems(1)] Cons.prems(2) by (metis legal_all.simps(2))
  then have "legal_all q1 as" using Cons.prems(2) by simp
  from Cons.IH [OF q1(2) this] q1 show ?case by (auto simp: cancels_Cons [of x as] intro: keeps_trans)
qed

lemma sorted_due: "sorted (map k xs) \<Longrightarrow> b \<in> set xs \<Longrightarrow> k b \<le> t \<Longrightarrow> b \<in> set (takeWhile (\<lambda>b. k b \<le> t) xs)"
  by (induction xs) (auto intro: order_trans)

lemma sint_diff:
  fixes a b :: u64
  assumes "uint a < 2 ^ 63" and "uint b < 2 ^ 63"
  shows "sint (a - b) = uint a - uint b"
proof -
  have "uint (a - b) = take_bit 64 (uint a - uint b)" by (simp add: uint_word_ariths take_bit_eq_mod)
  moreover have "sint (a - b) = signed_take_bit 63 (uint (a - b))" by (simp add: sint_uint)
  ultimately have "sint (a - b) = signed_take_bit 63 (uint a - uint b)"
    by (simp only: signed_take_bit_take_bit) simp
  moreover have "- (2 ^ 63) \<le> uint a - uint b" "uint a - uint b < 2 ^ 63"
    using assms uint_ge_0 [of a] uint_ge_0 [of b] by linarith+
  ultimately show ?thesis by (simp add: signed_take_bit_int_eq_self)
qed

definition well_behaved :: "callback \<Rightarrow> bool" where
  "well_behaved cb \<longleftrightarrow> (\<forall>f u q. legal_all q (cb f u q))"

text \<open>The timers that the callbacks of a log cancelled.\<close>

definition cancelled :: "timer_log \<Rightarrow> addr set" where
  "cancelled l = cancels (concat (map snd l))"

lemma cancelled_simps [simp]:
  "cancelled [] = {}" "cancelled [(a, as)] = cancels as" "cancelled (l @ l') = cancelled l \<union> cancelled l'"
  by (auto simp: cancelled_def cancels_def)

text \<open>The frame of one expiry that cancels \<open>C\<close>: the other timers that wait for theirs.\<close>

definition keeps_others :: "addr set \<Rightarrow> addr \<Rightarrow> timer_queue \<Rightarrow> timer_queue \<Rightarrow> bool" where
  "keeps_others C a q q' \<longleftrightarrow> (\<forall>b n. b \<noteq> a \<longrightarrow> t_heap q b = Some n \<longrightarrow> is_expired n \<or> is_in_callback n \<longrightarrow>
     (\<exists>v. t_heap q' b = Some (n\<lparr>is_alive := v\<rparr>) \<and> (b \<notin> C \<longrightarrow> v = is_alive n)))"

lemma keeps_othersI:
  assumes "keeps C q1 q2"
    and "\<And>b. b \<noteq> a \<Longrightarrow> t_heap q1 b = t_heap q b" and "\<And>b. b \<noteq> a \<Longrightarrow> t_heap q3 b = t_heap q2 b"
  shows "keeps_others C a q q3"
  using assms unfolding keeps_others_def keeps_def by metis

lemma keeps_others_trans:
  assumes "keeps_others C a q q1" and "\<And>b n. b \<noteq> a \<Longrightarrow> t_heap q1 b = Some n \<Longrightarrow> is_expired n \<or> is_in_callback n \<Longrightarrow> t_heap q2 b = Some n"
  shows "keeps_others C a q q2"
  unfolding keeps_others_def
proof (intro allI impI)
  fix b n assume b: "b \<noteq> a" "t_heap q b = Some n" "is_expired n \<or> is_in_callback n"
  then obtain v where "t_heap q1 b = Some (n\<lparr>is_alive := v\<rparr>)" "b \<notin> C \<longrightarrow> v = is_alive n"
    using assms(1) unfolding keeps_others_def by blast
  then show "\<exists>v. t_heap q2 b = Some (n\<lparr>is_alive := v\<rparr>) \<and> (b \<notin> C \<longrightarrow> v = is_alive n)"
    using assms(2) [OF b(1)] b(3) by auto
qed

text \<open>The callback of a due timer.\<close>

lemma callback_wf:
  assumes wf: "tq_wf q xs" and a: "t_heap q a = Some n" "is_expired n" and good: "well_behaved cb"
  obtains q1 q2 xs2 v where
    "upd (Some a) (\<lambda>n. n\<lparr>is_in_callback := True\<rparr>) q = Some q1"
    "do_actions (cb (expirecb n) (userdata n) q1) q1 = Some q2" "tq_wf q2 xs2"
    "t_heap q2 a = Some (n\<lparr>is_in_callback := True, is_alive := v\<rparr>)"
    "keeps_others (cancels (cb (expirecb n) (userdata n) q1)) a q q2" "tasks q2 = tasks q"
proof -
  let ?q = "q\<lparr>t_heap := (t_heap q)(a \<mapsto> n\<lparr>is_in_callback := True\<rparr>)\<rparr>"
  have "tq_wf ?q xs" by (rule set_out_wf [OF wf a(1)]) (use a in \<open>simp_all add: in_list_def\<close>)
  moreover have "legal_all ?q (cb (expirecb n) (userdata n) ?q)" using good by (simp add: well_behaved_def)
  ultimately obtain q2 xs2 where q2: "do_actions (cb (expirecb n) (userdata n) ?q) ?q = Some q2" "tq_wf q2 xs2"
      "keeps (cancels (cb (expirecb n) (userdata n) ?q)) ?q q2" "tasks q2 = tasks ?q"
    using actions_wf by blast
  have "t_heap ?q a = Some (n\<lparr>is_in_callback := True\<rparr>)" by simp
  then obtain v where "t_heap q2 a = Some (n\<lparr>is_in_callback := True, is_alive := v\<rparr>)"
    using keepsD [OF q2(3)] by fastforce
  moreover have "keeps_others (cancels (cb (expirecb n) (userdata n) ?q)) a q q2"
    by (rule keeps_othersI [OF q2(3)]) simp_all
  ultimately show thesis using that [of ?q q2 xs2 v] q2 a by simp
qed

text \<open>The end of an expiry: the next period, or release.\<close>

lemma reschedule_wf:
  assumes wf: "tq_wf q xs" and a: "t_heap q a = Some n" "is_expired n" "\<not> is_in_callback n" "is_alive n"
  obtains q' xs' where
    "insert_timer_inloop (q\<lparr>t_heap := (t_heap q)(a \<mapsto> n\<lparr>timestamp := t, is_expired := False, t_prev := None, t_next := None\<rparr>)\<rparr>) a = Some q'"
    "tq_wf q' xs'" "tasks q' = tasks q"
    "\<And>b m. b \<noteq> a \<Longrightarrow> t_heap q b = Some m \<Longrightarrow> is_expired m \<or> is_in_callback m \<Longrightarrow> t_heap q' b = Some m"
proof -
  let ?n = "n\<lparr>timestamp := t, is_expired := False, t_prev := None, t_next := None\<rparr>"
  let ?q = "q\<lparr>t_heap := (t_heap q)(a \<mapsto> ?n)\<rparr>"
  have out: "a \<notin> set xs" using wf a by (auto simp: tq_wf_def flags_ok_def in_list_def)
  have ins: "queue_list ?q xs" "sorted (map (key ?q) xs)" "xs \<noteq> [] \<Longrightarrow> min_timestamp ?q = key ?q (hd xs)"
    using list_wf_other [OF _ out, of q "Some ?n"] wf unfolding list_wf_def tq_wf_iff by blast+
  have fl: "\<And>b k. b \<noteq> a \<Longrightarrow> t_heap ?q b = Some k \<Longrightarrow> (b \<in> set xs \<longleftrightarrow> in_list k) \<and> (in_list k \<longrightarrow> is_alive k)"
    using wf by (simp add: tq_wf_def flags_ok_def)
  have node: "t_heap ?q a = Some ?n" by simp
  have alive: "is_alive ?n" "\<not> is_expired ?n" "\<not> is_in_callback ?n" using a by simp_all
  obtain q' where q': "insert_timer_inloop ?q a = Some q'"
    "tq_wf q' (takeWhile (\<lambda>b. key ?q b \<le> timestamp ?n) xs @ a # dropWhile (\<lambda>b. key ?q b \<le> timestamp ?n) xs)"
    "\<And>b. b \<notin> insert a (set xs) \<Longrightarrow> t_heap q' b = t_heap ?q b" "tasks q' = tasks ?q"
    using insert_timer_wf [OF ins fl out node alive] by blast
  have "t_heap q' b = Some m" if "b \<noteq> a" "t_heap q b = Some m" "is_expired m \<or> is_in_callback m" for b m
    using q'(3) [of b] flags_out [of q xs b m] wf that by (simp add: tq_wf_def)
  moreover have "tasks q' = tasks q" using q'(4) by simp
  ultimately show thesis using that [OF q'(1, 2)] by blast
qed

lemma expire_wf:
  assumes wf: "tq_wf q xs" and a: "t_heap q a = Some n" "is_expired n" "\<not> is_in_callback n"
    and good: "well_behaved cb"
  obtains l q' xs' where "expire cb a q = Some (l, q')" "map fst l = (if is_alive n then [a] else [])" "tq_wf q' xs'"
    "keeps_others (cancelled l) a q q'" "tasks q' = tasks q"
proof -
  let ?n = "n\<lparr>t_prev := None, t_next := None\<rparr>"
  let ?q = "q\<lparr>t_heap := (t_heap q)(a \<mapsto> ?n)\<rparr>"
  have out: "\<not> in_list n" "\<not> in_list ?n" using a(2) unfolding in_list_def by auto
  have wf1: "tq_wf ?q xs" by (rule set_out_wf [OF wf a(1) out])
  have same: "keeps_others C a q ?q" for C unfolding keeps_others_def
  proof (intro allI impI)
    fix b k assume "b \<noteq> a" "t_heap q b = Some k"
    then have "t_heap ?q b = Some (k\<lparr>is_alive := is_alive k\<rparr>)" by simp
    then show "\<exists>v. t_heap ?q b = Some (k\<lparr>is_alive := v\<rparr>) \<and> (b \<notin> C \<longrightarrow> v = is_alive k)" by blast
  qed
  show thesis
  proof (cases "is_alive n")
    case False
    let ?e = "?q\<lparr>t_heap := (t_heap ?q)(a := None)\<rparr>"
    have "expire cb a q = Some ([], ?e)" using a False by (simp add: expire_def)
    moreover have "tq_wf ?e xs" by (rule drop_out_wf [OF wf1 _ out(2)]) simp
    moreover have "keeps_others {} a q ?e" by (rule keeps_others_trans [OF same]) simp
    ultimately show thesis using that [of "[]" ?e xs] False by simp
  next
    case True
    have node: "t_heap ?q a = Some ?n" "is_expired ?n" using a by simp_all
    obtain q1 q2 xs2 v where q2: "upd (Some a) (\<lambda>n. n\<lparr>is_in_callback := True\<rparr>) ?q = Some q1"
      "do_actions (cb (expirecb ?n) (userdata ?n) q1) q1 = Some q2" "tq_wf q2 xs2"
      "t_heap q2 a = Some (?n\<lparr>is_in_callback := True, is_alive := v\<rparr>)" "keeps_others (cancels (cb (expirecb ?n) (userdata ?n) q1)) a ?q q2"
      "tasks q2 = tasks ?q"
      using callback_wf [OF wf1 node good] by blast
    let ?acts = "cb (expirecb n) (userdata n) q1"
    let ?m = "?n\<lparr>is_alive := v, is_in_callback := False\<rparr>"
    let ?q3 = "q2\<lparr>t_heap := (t_heap q2)(a \<mapsto> ?m)\<rparr>"
    have wf3: "tq_wf ?q3 xs2" by (rule set_out_wf [OF q2(3, 4)]) (use a in \<open>simp_all add: in_list_def\<close>)
    have k2: "keeps_others (cancels ?acts) a q q2"
      using q2(5) unfolding keeps_others_def by simp
    then have k3: "keeps_others (cancels ?acts) a q ?q3" by (rule keeps_others_trans) simp
    show thesis
    proof (cases "v \<and> interval n \<noteq> 0")
      case False
      let ?e = "?q3\<lparr>t_heap := (t_heap ?q3)(a := None)\<rparr>"
      have "expire cb a q = Some ([(a, ?acts)], ?e)"
        using a True False q2 by (auto simp: expire_def)
      moreover have "tq_wf ?e xs2" by (rule drop_out_wf [OF wf3, of a ?m]) (use a in \<open>simp_all add: in_list_def\<close>)
      moreover have "keeps_others (cancels ?acts) a q ?e" by (rule keeps_others_trans [OF k3]) simp
      ultimately show thesis using that [of "[(a, ?acts)]" ?e xs2] True q2(6) by simp
    next
      case again: True
      have node3: "t_heap ?q3 a = Some ?m" "is_expired ?m" "\<not> is_in_callback ?m" "is_alive ?m"
        using a again by simp_all
      obtain q' xs' where q': "insert_timer_inloop (?q3\<lparr>t_heap := (t_heap ?q3)(a \<mapsto>
          ?m\<lparr>timestamp := timestamp n + ucast (interval n), is_expired := False, t_prev := None, t_next := None\<rparr>)\<rparr>) a = Some q'"
        "tq_wf q' xs'" "tasks q' = tasks ?q3"
        "\<And>b m. b \<noteq> a \<Longrightarrow> t_heap ?q3 b = Some m \<Longrightarrow> is_expired m \<or> is_in_callback m \<Longrightarrow> t_heap q' b = Some m"
        using reschedule_wf [OF wf3 node3] by blast
      have "expire cb a q = Some ([(a, ?acts)], q')"
        using a True again q2 q'(1) by (simp add: expire_def)
      moreover have "keeps_others (cancels ?acts) a q q'" by (rule keeps_others_trans [OF k3 q'(4)])
      ultimately show thesis using that [of "[(a, ?acts)]" q' xs'] True q'(2, 3) q2(6) by simp
    qed
  qed
qed

text \<open>The due timers, detached: linked to the next one and marked.\<close>

fun next_chain :: "loop_timer heap \<Rightarrow> addr list \<Rightarrow> bool" where
  "next_chain h [] \<longleftrightarrow> True"
| "next_chain h (d # ds) \<longleftrightarrow> (\<exists>n. h d = Some n \<and> t_next n = first_ptr ds None) \<and> next_chain h ds"

lemma next_chain_other [simp]: "d \<notin> set ds \<Longrightarrow> next_chain (h(d := x)) ds = next_chain h ds"
  by (induction ds) auto

lemma next_chain_linked: "linked (tl_links h) p ds None \<Longrightarrow> next_chain h ds"
  by (induction ds arbitrary: p) (auto simp: links_of_def)

definition mark :: "addr list \<Rightarrow> loop_timer heap \<Rightarrow> loop_timer heap" where
  "mark ds h b = (if b \<in> set ds then map_option (\<lambda>n. n\<lparr>is_expired := True\<rparr>) (h b) else h b)"

lemma mark_expired_chain:
  "next_chain (t_heap q) ds \<Longrightarrow> distinct ds \<Longrightarrow>
   mark_expired (first_ptr ds None) q = Some (q\<lparr>t_heap := mark ds (t_heap q)\<rparr>)"
proof (induction ds arbitrary: q)
  case Nil
  have "mark [] (t_heap q) = t_heap q" by (simp add: mark_def fun_eq_iff)
  then show ?case by (subst mark_expired.simps) simp
next
  case (Cons d ds)
  then obtain n where n: "t_heap q d = Some n" "t_next n = first_ptr ds None" by auto
  let ?q = "q\<lparr>t_heap := (t_heap q)(d \<mapsto> n\<lparr>is_expired := True\<rparr>)\<rparr>"
  have "d \<notin> set ds" "next_chain (t_heap q) ds" using Cons.prems by simp_all
  then have "next_chain (t_heap ?q) ds" by simp
  then have "mark_expired (first_ptr ds None) ?q = Some (?q\<lparr>t_heap := mark ds (t_heap ?q)\<rparr>)"
    using Cons by simp
  moreover have "mark ds (t_heap ?q) = mark (d # ds) (t_heap q)"
    using n Cons.prems(2) by (auto simp: mark_def fun_eq_iff)
  ultimately show ?case using n by (subst mark_expired.simps) simp
qed

fun done_ok :: "timer_queue \<Rightarrow> addr list \<Rightarrow> bool" where
  "done_ok q [] \<longleftrightarrow> True"
| "done_ok q (d # ds) \<longleftrightarrow>
     (\<exists>n. t_heap q d = Some n \<and> is_expired n \<and> \<not> is_in_callback n \<and> t_next n = first_ptr ds None) \<and> done_ok q ds"

lemma done_ok_node: "done_ok q ds \<Longrightarrow> b \<in> set ds \<Longrightarrow> \<exists>k. t_heap q b = Some k \<and> is_expired k \<and> \<not> is_in_callback k"
  by (induction ds) auto

lemma done_ok_keeps:
  "done_ok q ds \<Longrightarrow> keeps_others C a q q' \<Longrightarrow> a \<notin> set ds \<Longrightarrow> done_ok q' ds"
proof (induction ds)
  case (Cons d ds)
  then obtain n where n: "t_heap q d = Some n" "is_expired n" "\<not> is_in_callback n" "t_next n = first_ptr ds None" by auto
  then obtain v where "t_heap q' d = Some (n\<lparr>is_alive := v\<rparr>)"
    using Cons.prems(2, 3) unfolding keeps_others_def by fastforce
  then show ?case using Cons n by simp
qed simp

lemma run_done_wf:
  assumes good: "well_behaved cb"
  shows "tq_wf q xs \<Longrightarrow> done_ok q ds \<Longrightarrow> distinct ds \<Longrightarrow>
    \<exists>fired q' xs'. run_done cb (first_ptr ds None) q = Some (fired, q') \<and> tq_wf q' xs' \<and> tasks q' = tasks q \<and>
      subseq (map fst fired) ds \<and>
      (\<forall>d \<in> set ds. is_alive (the (t_heap q d)) \<and> d \<notin> cancelled fired \<longrightarrow> d \<in> set (map fst fired))"
proof (induction ds arbitrary: q xs)
  case Nil
  then show ?case by (subst run_done.simps) auto
next
  case (Cons d ds)
  then obtain n where n: "t_heap q d = Some n" "is_expired n" "\<not> is_in_callback n" "t_next n = first_ptr ds None" by auto
  obtain f q1 xs1 where q1: "expire cb d q = Some (f, q1)" "tq_wf q1 xs1" "keeps_others (cancelled f) d q q1" "tasks q1 = tasks q"
    and f: "map fst f = (if is_alive n then [d] else [])"
    using expire_wf [OF Cons.prems(1) n(1-3) good] by metis
  have "done_ok q1 ds" using done_ok_keeps [OF _ q1(3)] Cons.prems(2, 3) by simp
  then obtain fired q' xs' where q': "run_done cb (first_ptr ds None) q1 = Some (fired, q')" "tq_wf q' xs'"
      "tasks q' = tasks q1" "subseq (map fst fired) ds"
      "\<forall>d \<in> set ds. is_alive (the (t_heap q1 d)) \<and> d \<notin> cancelled fired \<longrightarrow> d \<in> set (map fst fired)"
    using Cons.IH [OF q1(2)] Cons.prems(3) by (metis distinct.simps(2))
  have run: "run_done cb (first_ptr (d # ds) None) q = Some (f @ fired, q')"
    using n q1(1) q'(1) by (subst run_done.simps) simp
  have alive: "is_alive (the (t_heap q1 b))"
    if b: "b \<in> set ds" "b \<notin> cancelled f" "is_alive (the (t_heap q b))" for b
  proof -
    obtain k where k: "t_heap q b = Some k" "is_expired k" using done_ok_node [OF _ b(1)] Cons.prems(2) by auto
    then show ?thesis using q1(3) b Cons.prems(3) unfolding keeps_others_def by fastforce
  qed
  have "subseq (map fst (f @ fired)) (d # ds)" using q'(4) f by auto
  moreover have "\<forall>b \<in> set (d # ds). is_alive (the (t_heap q b)) \<and> b \<notin> cancelled (f @ fired) \<longrightarrow> b \<in> set (map fst (f @ fired))"
  proof (intro ballI impI)
    fix b assume b: "b \<in> set (d # ds)" and c: "is_alive (the (t_heap q b)) \<and> b \<notin> cancelled (f @ fired)"
    show "b \<in> set (map fst (f @ fired))"
    proof (cases "b = d")
      case True
      then have "map fst f = [b]" using f c n(1) by simp
      then show ?thesis by simp
    next
      case False
      then have "b \<in> set ds" using b by simp
      moreover from this have "is_alive (the (t_heap q1 b))" using alive c by simp
      ultimately show ?thesis using q'(5) c by simp
    qed
  qed
  ultimately show ?case using run q'(2, 3) q1(4) by metis
qed

text \<open>Detaching the due timers splits the list.\<close>

lemma take_due_list:
  assumes l: "queue_list q (ds @ rs)" and ne: "ds @ rs \<noteq> []"
    and skip: "skip_until (t_heap q) now (timer_list q) = Some (first_ptr rs None)"
  shows "ds = [] \<and> take_due now q = Some None \<or>
    (\<exists>q1. take_due now q = Some (Some (first_ptr ds None, q1)) \<and> next_chain (t_heap q1) ds \<and> queue_list q1 rs \<and>
      same_data q q1 {} \<and> tasks q1 = tasks q \<and> (rs \<noteq> [] \<longrightarrow> min_timestamp q1 = key q (hd rs)))"
proof -
  have ends: "timer_list q = first_ptr (ds @ rs) None" "timer_list_end q = last_ptr None (ds @ rs)"
      and d: "distinct (ds @ rs)" and lk: "linked (tl_links (t_heap q)) None (ds @ rs) None"
    using l by (simp_all add: queue_list_def dlist_def)
  consider (all) "rs = []" | (none) r cs where "ds = []" "rs = r # cs"
    | (some) es p r cs where "ds = es @ [p]" "rs = r # cs"
    by (metis list.exhaust rev_exhaust)
  then show ?thesis
  proof cases
    case all
    then obtain f fs where f: "timer_list q = Some f" "ds = f # fs" using ne ends(1) by (cases ds) auto
    have lf: "queue_list q ([] @ f # (fs @ rs))" using l f by simp
    obtain n where n: "t_heap q f = Some n" "t_prev n = None" using queue_list_node [OF lf] by auto
    have e: "timer_list_end q = Some (last ds)" using ends(2) all ne by (auto simp: last_ptr_def)
    have bl: "butlast ds @ [last ds] = ds" using f(2) append_butlast_last_id [of ds] by simp
    have le: "queue_list q (butlast ds @ [last ds])" unfolding bl using l all by simp
    obtain m where m: "t_heap q (last ds) = Some m" "t_next m = None" using queue_list_node [OF le] by auto
    have same: "n\<lparr>t_prev := None\<rparr> = n" "m\<lparr>t_next := None\<rparr> = m" using n m by simp_all
    have upds: "upd (timer_list q) (\<lambda>n. n\<lparr>t_prev := None\<rparr>) q = Some q" "upd (timer_list_end q) (\<lambda>n. n\<lparr>t_next := None\<rparr>) q = Some q"
      using n(1) m(1) f(1) e same by (simp_all add: fun_upd_idem)
    let ?q = "q\<lparr>timer_list := None, timer_list_end := None, min_timestamp := now\<rparr>"
    have "take_due now q = Some (Some (first_ptr ds None, ?q))"
      using skip all upds ends(1) by (simp add: take_due_def)
    moreover have "next_chain (t_heap ?q) ds" using next_chain_linked [of "t_heap q" None ds] lk all by simp
    ultimately show ?thesis using all by (auto simp: queue_list_def same_data_def)
  next
    case none
    obtain n where "t_heap q r = Some n" "t_prev n = None" using queue_list_node [of q "[]" r cs] l none by auto
    then show ?thesis using skip none by (simp add: take_due_def)
  next
    case some
    obtain n where n: "t_heap q r = Some n" "t_prev n = Some p" using queue_list_node [of q "es @ [p]" r cs] l some by auto
    obtain m where m: "t_heap q p = Some m" using queue_list_live [OF l, of p] some by auto
    have ne: "p \<noteq> r" using d some by auto
    let ?h = "(t_heap q)(p \<mapsto> m\<lparr>t_next := None\<rparr>, r \<mapsto> n\<lparr>t_prev := None\<rparr>)"
    let ?q = "q\<lparr>t_heap := ?h, timer_list := Some r, min_timestamp := timestamp n\<rparr>"
    have "take_due now q = Some (Some (timer_list q, ?q))"
      using skip some n m ne by (simp add: take_due_def)
    moreover have "timer_list q = first_ptr ds None" using ends(1) some by (cases es) auto
    moreover have cut: "linked (tl_links ?h) None ds None" "linked (tl_links ?h) None rs None"
      by (rule linked_cut [OF lk d]; use some n m ne in \<open>auto simp: link_prev_def link_next_def links_of_def\<close>)+
    moreover have "queue_list ?q rs" using cut(2) d ends(2) some by (simp add: queue_list_def dlist_def last_ptr_def)
    moreover have "same_data q ?q {}" using n m by (auto simp: same_data_def timer_data_def)
    ultimately show ?thesis using next_chain_linked [of ?h None ds] some n by (auto simp: key_def)
  qed
qed

lemma due_wf:
  fixes now :: u64
  assumes wf: "tq_wf q xs" and ne: "xs \<noteq> []"
  defines "ds \<equiv> takeWhile (\<lambda>b. key q b \<le> now) xs" and "rs \<equiv> dropWhile (\<lambda>b. key q b \<le> now) xs"
  shows "ds = [] \<and> take_due now q = Some None \<or>
    (\<exists>q1 q2. take_due now q = Some (Some (first_ptr ds None, q1)) \<and> mark_expired (first_ptr ds None) q1 = Some q2 \<and>
      tq_wf q2 rs \<and> done_ok q2 ds \<and> tasks q2 = tasks q \<and> (\<forall>d \<in> set ds. is_alive (the (t_heap q2 d))))"
proof -
  have xs: "ds @ rs = xs" by (simp add: ds_def rs_def)
  have l: "queue_list q (ds @ rs)" and d: "distinct (ds @ rs)" using wf xs by (simp_all add: tq_wf_def queue_list_def dlist_def)
  have "linked (tl_links (t_heap q)) None xs None" "timer_list q = first_ptr xs None"
    using wf by (simp_all add: tq_wf_def queue_list_def dlist_def)
  then have skip: "skip_until (t_heap q) now (timer_list q) = Some (first_ptr rs None)"
    using skip_until_linked [of "t_heap q" None xs "key q" now] by (simp add: key_def rs_def)
  have "ds @ rs \<noteq> []" using ne xs by simp
  from take_due_list [OF l this skip] show ?thesis
  proof (elim disjE)
    assume "\<exists>q1. take_due now q = Some (Some (first_ptr ds None, q1)) \<and> next_chain (t_heap q1) ds \<and> queue_list q1 rs \<and>
      same_data q q1 {} \<and> tasks q1 = tasks q \<and> (rs \<noteq> [] \<longrightarrow> min_timestamp q1 = key q (hd rs))"
    then obtain q1 where q1: "take_due now q = Some (Some (first_ptr ds None, q1))" "next_chain (t_heap q1) ds"
      "queue_list q1 rs" "same_data q q1 {}" "tasks q1 = tasks q" "rs \<noteq> [] \<longrightarrow> min_timestamp q1 = key q (hd rs)" by blast
    let ?q = "q1\<lparr>t_heap := mark ds (t_heap q1)\<rparr>"
    have mk: "mark_expired (first_ptr ds None) q1 = Some ?q"
      using mark_expired_chain [OF q1(2)] d by simp
    have node: "\<exists>k0. t_heap q b = Some k0 \<and> timer_data k = timer_data k0" if "t_heap q1 b = Some k" for b k
      using same_data_none [OF q1(4), of b] same_data_node [OF q1(4), of b] that by fastforce
    have keys: "key ?q b = key q b" if "b \<in> set rs" for b
      using same_data_key [OF q1(4), of b] queue_list_live [OF l, of b] that d by (auto simp: key_def mark_def)
    have maps: "map (key ?q) rs = map (key q) rs" using keys by (simp add: map_eq_conv)
    have "sorted (map (key q) (ds @ rs))" using wf xs by (simp add: tq_wf_def)
    then have "sorted (map (key ?q) rs)" unfolding maps by (simp add: sorted_append)
    moreover have "queue_list ?q rs"
    proof -
      have "linked (tl_links (mark ds (t_heap q1))) None rs None = linked (tl_links (t_heap q1)) None rs None"
        using d by (intro linked_cong) (auto simp: mark_def links_of_def)
      then show ?thesis using q1(3) by (simp add: queue_list_def dlist_def)
    qed
    moreover have "flags_ok ?q rs" unfolding flags_ok_def
    proof (intro allI impI)
      fix b k assume k: "t_heap ?q b = Some k"
      show "(b \<in> set rs \<longleftrightarrow> in_list k) \<and> (in_list k \<longrightarrow> is_alive k)"
      proof (cases "b \<in> set ds")
        case True
        then have "is_expired k" using k by (auto simp: mark_def)
        then show ?thesis using True d by (auto simp: in_list_def)
      next
        case False
        then obtain k0 where k0: "t_heap q b = Some k0" "timer_data k = timer_data k0" using k node by (auto simp: mark_def)
        then have "(b \<in> set xs \<longleftrightarrow> in_list k0) \<and> (in_list k0 \<longrightarrow> is_alive k0)"
          using wf unfolding tq_wf_def flags_ok_def by blast
        then show ?thesis using False timer_data_fields(2, 3) [OF k0(2)] by (simp add: xs [symmetric])
      qed
    qed
    ultimately have "tq_wf ?q rs" using q1(6) keys [of "hd rs"] by (simp add: tq_wf_def)
    moreover have dn: "\<exists>k. t_heap ?q b = Some k \<and> is_expired k \<and> \<not> is_in_callback k \<and> is_alive k" if b: "b \<in> set ds" for b
    proof -
      obtain k0 where k0: "t_heap q b = Some k0" using queue_list_live [OF l, of b] b by auto
      then have "in_list k0 \<and> is_alive k0" using wf b xs unfolding tq_wf_def flags_ok_def by (metis UnI1 set_append)
      moreover obtain k where "t_heap q1 b = Some k" "timer_data k = timer_data k0"
        using same_data_node [OF q1(4) _ k0] by auto
      ultimately show ?thesis using b timer_data_fields [of k k0] by (simp add: mark_def in_list_def)
    qed
    have "done_ok ?q ds'" if "next_chain (t_heap q1) ds'" "set ds' \<subseteq> set ds" for ds'
      using that
    proof (induction ds')
      case (Cons b ds')
      then show ?case using dn [of b] by (auto simp: mark_def)
    qed simp
    then have "done_ok ?q ds" using q1(2) by blast
    ultimately show ?thesis using q1(1, 5) mk dn by fastforce
  qed auto
qed

text \<open>Destruction walks the list and releases exactly its timers.\<close>

lemma free_timers_chain:
  "next_chain (t_heap q) xs \<Longrightarrow> distinct xs \<Longrightarrow> timer_list q = first_ptr xs None \<Longrightarrow>
   \<exists>q'. free_timers q = Some q' \<and> t_heap q' = t_heap q |` (- set xs)"
proof (induction xs arbitrary: q)
  case Nil
  then show ?case by (subst free_timers.simps) (simp add: restrict_map_def)
next
  case (Cons a xs)
  then obtain n where n: "t_heap q a = Some n" "t_next n = first_ptr xs None" by auto
  let ?q = "q\<lparr>timer_list := t_next n, t_heap := (t_heap q)(a := None)\<rparr>"
  have "next_chain (t_heap ?q) xs" "distinct xs" "timer_list ?q = first_ptr xs None" using Cons.prems n by simp_all
  from Cons.IH [OF this] obtain q' where q': "free_timers ?q = Some q'" "t_heap q' = t_heap ?q |` (- set xs)" by blast
  have "t_heap ?q |` (- set xs) = t_heap q |` (- set (a # xs))"
    by (rule ext) (simp add: restrict_map_def)
  moreover have "free_timers q = Some q'"
    using q'(1) n Cons.prems(3) by (subst free_timers.simps) simp
  ultimately show ?case using q'(2) by metis
qed

lemma timer_queue_destroy_frees:
  assumes "tq_wf q xs"
  shows "timer_queue_destroy (Some q) = Some (t_heap q |` (- set xs))"
proof -
  have "next_chain (t_heap q) xs" "distinct xs" "timer_list q = first_ptr xs None"
    using assms next_chain_linked [of "t_heap q" None xs] by (simp_all add: tq_wf_def queue_list_def dlist_def)
  from free_timers_chain [OF this] show ?thesis by (auto simp: timer_queue_destroy_def)
qed

text \<open>A queue with two timers, at 10 and at 20.\<close>

definition two_timers :: timer_queue where
  "two_timers = \<lparr>t_heap =
     [1 \<mapsto> \<lparr>timestamp = 10, interval = 0, expirecb = 7, userdata = None, is_in_callback = False, is_alive = True,
           is_expired = False, is_in_queue = True, t_prev = None, t_next = Some 2\<rparr>,
      2 \<mapsto> \<lparr>timestamp = 20, interval = 5, expirecb = 7, userdata = None, is_in_callback = False, is_alive = True,
           is_expired = False, is_in_queue = True, t_prev = Some 1, t_next = None\<rparr>],
     timer_list = Some 1, timer_list_end = Some 2, min_timestamp = 10, tasks = []\<rparr>"

lemma two_timers_wf: "tq_wf two_timers [1, 2]" "key two_timers 1 = 10" "key two_timers 2 = 20"
  by (auto simp: two_timers_def tq_wf_def queue_list_def dlist_def links_of_def key_def flags_ok_def in_list_def
      last_ptr_def word_le_nat_alt)

section \<open>Properties\<close>

lemma tq_wf_create: "tq_wf (timer_queue_create now Map.empty) []"
  by (simp add: tq_wf_def timer_queue_create_def queue_list_def flags_ok_def)

text \<open>
  C8: One pass over the due timers, when callbacks add timers in fresh memory, cancel live timers
  (their own and others that are due included) and refresh timers that are in the queue or have
  no period (a refresh of a timer that is due in this pass, its own included, crashes:
  \<open>timer_queue_refresh_self\<close>). The pass ends without touching released memory, the queue is
  again sorted and consistent, the callbacks that ran are those of due timers, each once and in
  the order of the timestamps, and every due timer whose callback did not run was cancelled by
  one that did.
\<close>

theorem timer_queue_process:
  assumes "tq_wf q xs" and "well_behaved cb"
  shows "\<exists>fired q' xs'. timer_queue_process_inloop cb now (Some q) = Some (fired, Some q') \<and> tq_wf q' xs' \<and>
    subseq (map fst fired) (takeWhile (\<lambda>b. key q b \<le> now) xs) \<and>
    (\<forall>b \<in> set xs. key q b \<le> now \<longrightarrow> b \<in> set (map fst fired) \<or> b \<in> cancelled fired)"
proof (cases "xs = []")
  case True
  then have "timer_list q = None" using assms(1) by (simp add: tq_wf_def queue_list_def)
  then have "timer_queue_process_inloop cb now (Some q) = Some ([], Some q)" by (simp add: timer_queue_process_inloop_def)
  then show ?thesis using assms(1) True by auto
next
  case False
  let ?ds = "takeWhile (\<lambda>b. key q b \<le> now) xs"
  have first: "timer_list q \<noteq> None" using assms(1) False by (cases xs) (auto simp: tq_wf_def queue_list_def dlist_def)
  have due: "b \<in> set ?ds" if "b \<in> set xs" "key q b \<le> now" for b
    using sorted_due [of "key q" xs b now] assms(1) that by (simp add: tq_wf_def)
  from due_wf [OF assms(1) False, of now] show ?thesis
  proof (elim disjE conjE exE)
    assume "?ds = []" and none: "take_due now q = Some None"
    then have "timer_queue_process_inloop cb now (Some q) = Some ([], Some q)"
      using first by (simp add: timer_queue_process_inloop_def)
    then show ?thesis using assms(1) due \<open>?ds = []\<close> by fastforce
  next
    fix q1 q2
    assume t: "take_due now q = Some (Some (first_ptr ?ds None, q1))" "mark_expired (first_ptr ?ds None) q1 = Some q2"
      and wf2: "tq_wf q2 (dropWhile (\<lambda>b. key q b \<le> now) xs)" "done_ok q2 ?ds"
      and alive: "\<forall>d \<in> set ?ds. is_alive (the (t_heap q2 d))"
    have "distinct ?ds" using assms(1) by (simp add: tq_wf_def queue_list_def dlist_def)
    from run_done_wf [OF assms(2) wf2 this] obtain fired q' xs' where
      r: "run_done cb (first_ptr ?ds None) q2 = Some (fired, q')" "tq_wf q' xs'" "subseq (map fst fired) ?ds"
        "\<forall>d \<in> set ?ds. is_alive (the (t_heap q2 d)) \<and> d \<notin> cancelled fired \<longrightarrow> d \<in> set (map fst fired)" by blast
    have "timer_queue_process_inloop cb now (Some q) = Some (fired, Some q')"
      using first t r(1) by (auto simp: timer_queue_process_inloop_def)
    then show ?thesis using r(2, 3, 4) alive due by blast
  qed
qed

text \<open>The callback of the first timer cancels the second, which is due as well.\<close>

definition cancels_two :: callback where
  "cancels_two f u q = (if legal_all q [A_Cancel 30 2] then [A_Cancel 30 2] else [])"

lemma cancels_two_ok: "well_behaved cancels_two"
  by (simp add: well_behaved_def cancels_two_def)

theorem timer_queue_process_witness:
  "\<exists>fired q'. timer_queue_process_inloop cancels_two 25 (Some two_timers) = Some (fired, Some q') \<and>
     (2 \<in> set (map fst fired) \<or> 2 \<in> cancelled fired)"
proof -
  have "key two_timers 2 \<le> 25" using two_timers_wf(3) by (simp add: word_le_nat_alt)
  with timer_queue_process [OF two_timers_wf(1) cancels_two_ok, of 25] show ?thesis by auto
qed


text \<open>
  From an empty queue, every legal sequence of additions, cancellations and refreshes
  succeeds, and leaves a sorted, consistent queue of live timers with its earliest
  timestamp cached.
\<close>

theorem timer_queue_invariant:
  assumes "legal_all (timer_queue_create t0 Map.empty) as"
  shows "\<exists>q xs. do_actions as (timer_queue_create t0 Map.empty) = Some q \<and> tq_wf q xs \<and>
    sorted (map (key q) xs) \<and> (timer_list q \<noteq> None \<longrightarrow> (\<forall>b \<in> set xs. min_timestamp q \<le> key q b))"
proof -
  obtain q xs where q: "do_actions as (timer_queue_create t0 Map.empty) = Some q" "tq_wf q xs"
    using actions_wf [OF tq_wf_create assms] by blast
  then have "\<forall>b \<in> set xs. min_timestamp q \<le> key q b" by (cases xs) (auto simp: tq_wf_def)
  then show ?thesis using q by (auto simp: tq_wf_def)
qed

theorem timer_queue_invariant_witness:
  "\<exists>q xs. do_actions [A_Add 1 10 0 5 None, A_Cancel 3 1] (timer_queue_create 0 Map.empty) = Some q \<and> tq_wf q xs"
proof -
  have "legal_all (timer_queue_create 0 Map.empty) [A_Add 1 10 0 5 None, A_Cancel 3 1]"
    by (simp add: timer_queue_create_def legal_def do_action_def timer_queue_add_def run_inloop_def run_task_def
        do_insert_timer_def insert_timer_inloop_def split: option.split)
  from timer_queue_invariant [OF this] show ?thesis by blast
qed


text \<open>
  The loop never waits past its earliest timer and never more than 100 ms: while the times
  stay below \<open>2 ^ 63\<close>, the timeout is the distance to the earliest timer cut to \<open>0..100\<close>.
\<close>

theorem timer_queue_timeout:
  assumes "tq_wf q xs" and "xs \<noteq> []" and "uint (key q (hd xs)) < 2 ^ 63" and "uint now < 2 ^ 63"
  shows "timer_queue_gettimeout now (Some q) = min 100 (max 0 (uint (key q (hd xs)) - uint now))"
proof -
  have first: "timer_list q \<noteq> None" "min_timestamp q = key q (hd xs)"
    using assms(1, 2) by (cases xs; auto simp: tq_wf_def queue_list_def dlist_def)+
  have "sint (key q (hd xs) - now) = uint (key q (hd xs)) - uint now"
    by (rule sint_diff) (use assms in auto)
  then show ?thesis using first by (auto simp: timer_queue_gettimeout_def Let_def)
qed

theorem timer_queue_timeout_witness: "timer_queue_gettimeout 3 (Some two_timers) = 7"
  using timer_queue_timeout [OF two_timers_wf(1), of 3] by (simp add: two_timers_wf(2) [simplified])


text \<open>
  A callback that refreshes its own timer dereferences NULL: the timer is no longer in the
  list when its callback runs.
\<close>

theorem timer_queue_refresh_self:
  assumes "tq_wf q xs" and "t_heap q a = Some n" and "is_expired n" and "is_alive n" and "interval n \<noteq> 0"
  shows "expire (\<lambda>f u q. A_Refresh t a # as) a q = None"
proof -
  have out: "a \<notin> set xs" using assms by (auto simp: tq_wf_def flags_ok_def in_list_def)
  then have ends: "timer_list q \<noteq> Some a" "timer_list_end q \<noteq> Some a"
    using assms(1) by (cases xs; simp add: tq_wf_def queue_list_def dlist_def; simp add: last_ptr_def; metis last_in_set list.set_intros list.distinct(1))+
  let ?q = "q\<lparr>t_heap := (t_heap q)(a \<mapsto> n\<lparr>t_prev := None, t_next := None, is_in_callback := True\<rparr>)\<rparr>"
  have "do_timer_queue_refresh t ?q a = None"
    using ends by (simp add: do_timer_queue_refresh_def remove_timer_inloop_def)
  moreover have "0 < interval n" using assms(5) by (simp only: word_gt_0)
  ultimately have "do_actions (A_Refresh t a # as) ?q = None"
    by (simp add: do_action_def timer_queue_refresh_def run_inloop_def run_task_def)
  then show ?thesis using assms(2, 4) by (simp add: expire_def del: do_actions.simps)
qed

theorem timer_queue_refresh_self_witness:
  "expire (\<lambda>f u q. [A_Refresh 30 5]) 5
     \<lparr>t_heap = [5 \<mapsto> \<lparr>timestamp = 20, interval = 9, expirecb = 7, userdata = None, is_in_callback = False,
        is_alive = True, is_expired = True, is_in_queue = True, t_prev = None, t_next = None\<rparr>],
      timer_list = None, timer_list_end = None, min_timestamp = 30, tasks = []\<rparr> = None"
proof -
  let ?n = "\<lparr>timestamp = 20, interval = 9, expirecb = 7, userdata = None, is_in_callback = False,
        is_alive = True, is_expired = True, is_in_queue = True, t_prev = None, t_next = None\<rparr> :: loop_timer"
  let ?q = "\<lparr>t_heap = [5 \<mapsto> ?n], timer_list = None, timer_list_end = None, min_timestamp = 30, tasks = []\<rparr>"
  have "tq_wf ?q []" by (simp add: tq_wf_def queue_list_def flags_ok_def in_list_def)
  then show ?thesis by (rule timer_queue_refresh_self [where n = ?n]) simp_all
qed


end
