(* ===== verification/EventLoop.thy ===== *)
theory EventLoop
  imports TimerQueue Channel
begin

text \<open>
  The event loop \<^verbatim>\<open>udpclient/linux/net/loop.c\<close>: it puts the channels and the timer queue together.
  Each pass waits for events as long as the timer queue allows, dispatches them and runs the
  timers that are due. The environment gives each pass the clock, what \<^verbatim>\<open>epoll_wait\<close> returns,
  whether a reallocation succeeds, and whether one of its callbacks or tasks calls
  \<^verbatim>\<open>loop_quit\<close>.
\<close>

section \<open>Data\<close>

text \<open>\<open>has_events\<close>: the array of events is a block, not NULL.\<close>

record event_loop =
  run :: bool
  threadId :: int
  has_events :: bool
  max_event_count :: int
  l_reactor :: reactor
  l_timers :: timer_queue

datatype wait_result = Events "(addr \<times> u32) list" | Wait_Interrupted | Wait_Failed

record pass =
  wait_clock :: u64
  wait_result :: wait_result
  realloc_ok :: bool
  process_clock :: u64
  quits :: bool

section \<open>Operations\<close>

text \<open>
  \<open>epfd\<close> is the result of \<^verbatim>\<open>epoll_create\<close>; \<open>ok_loop\<close> and \<open>ok_events\<close> tell whether the two blocks
  are allocated, which the code writes to untested. The result inside is the NULL returned.
\<close>

definition loop_new ::
  "bool \<Rightarrow> bool \<Rightarrow> int \<Rightarrow> int \<Rightarrow> u64 \<Rightarrow> reactor \<Rightarrow> loop_timer heap \<Rightarrow> event_loop option option" where
  "loop_new ok_loop ok_events epfd hint now R h =
     (if \<not> ok_loop then None
      else if epfd < 0 then Some None
      else if \<not> ok_events then None
      else Some (Some \<lparr>run = False, threadId = 0, has_events = True, max_event_count = hint, l_reactor = R,
                       l_timers = timer_queue_create now h\<rparr>))"

definition loop_inloopthread :: "int \<Rightarrow> event_loop option \<Rightarrow> bool" where
  "loop_inloopthread tid lp = (case lp of None \<Rightarrow> False | Some l \<Rightarrow> threadId l = tid)"

text \<open>Whether \<^verbatim>\<open>loop_run_inloop\<close> runs the callback at once (\<open>here\<close> in the components).\<close>

definition runs_here :: "int \<Rightarrow> event_loop \<Rightarrow> bool" where
  "runs_here tid l \<longleftrightarrow> \<not> run l \<or> threadId l = tid"

definition do_loop_quit :: "event_loop \<Rightarrow> event_loop" where
  "do_loop_quit l = l\<lparr>run := False\<rparr>"

text \<open>Timers of the loop: the absolute time of the expiry, and the period of a repeated one.\<close>

definition loop_runafter :: "bool \<Rightarrow> u64 \<Rightarrow> addr \<Rightarrow> event_loop \<Rightarrow> u32 \<Rightarrow> ptr \<Rightarrow> ptr \<Rightarrow> (ptr \<times> event_loop) option" where
  "loop_runafter here now a l iv cb ud =
     (if cb = None \<or> iv = 0 then Some (None, l)
      else do {
        (t, q) \<leftarrow> timer_queue_add here now a (l_timers l) (now + ucast iv) 0 cb ud;
        Some (t, l\<lparr>l_timers := q\<rparr>) })"

definition loop_runevery :: "bool \<Rightarrow> u64 \<Rightarrow> addr \<Rightarrow> event_loop \<Rightarrow> u32 \<Rightarrow> ptr \<Rightarrow> ptr \<Rightarrow> (ptr \<times> event_loop) option" where
  "loop_runevery here now a l iv cb ud =
     (if cb = None \<or> iv = 0 then Some (None, l)
      else do {
        (t, q) \<leftarrow> timer_queue_add here now a (l_timers l) (now + ucast iv) iv cb ud;
        Some (t, l\<lparr>l_timers := q\<rparr>) })"

definition loop_cancel :: "bool \<Rightarrow> u64 \<Rightarrow> event_loop option \<Rightarrow> ptr \<Rightarrow> event_loop option option" where
  "loop_cancel here now lp timer =
     (case lp of None \<Rightarrow> Some None
      | Some l \<Rightarrow>
          if timer = None then Some lp
          else map_option (\<lambda>q. Some (l\<lparr>l_timers := q\<rparr>)) (timer_queue_cancel here now (l_timers l) timer))"

definition loop_refresh :: "bool \<Rightarrow> u64 \<Rightarrow> event_loop option \<Rightarrow> ptr \<Rightarrow> event_loop option option" where
  "loop_refresh here now lp timer =
     (case lp of None \<Rightarrow> Some None
      | Some l \<Rightarrow>
          if timer = None then Some lp
          else map_option (\<lambda>q. Some (l\<lparr>l_timers := q\<rparr>)) (timer_queue_refresh here now (l_timers l) timer))"

text \<open>
  The array of events doubles when a pass has filled it, up to the limit of open files. The
  result of \<^verbatim>\<open>realloc\<close> is stored untested: after a failure the array is NULL. A doubled count
  beyond \<^verbatim>\<open>int\<close> is undefined.
\<close>

definition grow_events :: "bool \<Rightarrow> int \<Rightarrow> int \<Rightarrow> event_loop \<Rightarrow> event_loop option" where
  "grow_events ok max_open result l =
     (if result = max_event_count l \<and> result < max_open then
        (if result * 2 \<ge> 2 ^ 31 then None
         else (let result = result * 2; result = (if result > max_open then max_open else result)
               in Some (l\<lparr>has_events := ok, max_event_count := result\<rparr>)))
      else Some l)"

text \<open>
  One pass; the timeout and the channels and timers whose callbacks ran are returned with the
  state. The array is cleared first, and more events than it holds would be written behind it.
\<close>

type_synonym pass_log = "int \<times> channel_log \<times> timer_log"

definition loop_pass ::
  "ctl_fails \<Rightarrow> on_event_f \<Rightarrow> callback \<Rightarrow> int \<Rightarrow> pass \<Rightarrow> event_loop \<Rightarrow> (pass_log \<times> event_loop) option" where
  "loop_pass fails cb tcb max_open e l = (if \<not> has_events l then None else do {
     let timeout = timer_queue_gettimeout (wait_clock e) (Some (l_timers l));
     (served, l) \<leftarrow>
       (case wait_result e of
          Events es \<Rightarrow>
            if int (length es) > max_event_count l then None
            else if es = [] then Some ([], l)
            else do {
              (served, R) \<leftarrow> dispatch fails cb es (l_reactor l);
              l \<leftarrow> grow_events (realloc_ok e) max_open (int (length es)) (l\<lparr>l_reactor := R\<rparr>);
              Some (served, l) }
        | Wait_Interrupted \<Rightarrow> Some ([], l)
        | Wait_Failed \<Rightarrow> Some ([], l));
     (fired, q) \<leftarrow> timer_queue_process_inloop tcb (process_clock e) (Some (l_timers l));
     let l = l\<lparr>l_timers := the q\<rparr>;
     Some ((timeout, served, fired), if quits e then do_loop_quit l else l) })"

text \<open>Passes until the loop is told to quit; what is left of the environment's script is returned.\<close>

primrec passes ::
  "ctl_fails \<Rightarrow> on_event_f \<Rightarrow> callback \<Rightarrow> int \<Rightarrow> pass list \<Rightarrow> event_loop \<Rightarrow>
   (pass_log list \<times> pass list \<times> event_loop) option" where
  "passes fails cb tcb max_open [] l = Some ([], [], l)"
| "passes fails cb tcb max_open (e # es) l =
     (if \<not> run l then Some ([], e # es, l)
      else do {
        (x, l) \<leftarrow> loop_pass fails cb tcb max_open e l;
        (xs, rest, l) \<leftarrow> passes fails cb tcb max_open es l;
        Some (x # xs, rest, l) })"

definition loop_loop ::
  "ctl_fails \<Rightarrow> on_event_f \<Rightarrow> callback \<Rightarrow> int \<Rightarrow> int \<Rightarrow> pass list \<Rightarrow> event_loop \<Rightarrow>
   (pass_log list \<times> pass list \<times> event_loop) option" where
  "loop_loop fails cb tcb max_open tid es l = passes fails cb tcb max_open es (l\<lparr>threadId := tid, run := True\<rparr>)"

section \<open>The invariant\<close>

definition loop_ok :: "int \<Rightarrow> int \<Rightarrow> event_loop \<Rightarrow> bool" where
  "loop_ok hint max_open l \<longleftrightarrow> idle (l_reactor l) \<and> (\<exists>xs. tq_wf (l_timers l) xs) \<and>
     has_events l \<and> hint \<le> max_event_count l \<and> max_event_count l \<le> max hint max_open"

text \<open>
  What \<^verbatim>\<open>epoll_wait\<close> documents: at most as many events as asked for, each of a registered
  channel, no channel twice.
\<close>

definition wait_ok :: "pass \<Rightarrow> event_loop \<Rightarrow> bool" where
  "wait_ok e l \<longleftrightarrow>
     (case wait_result e of
        Events es \<Rightarrow> int (length es) \<le> max_event_count l \<and> distinct (map fst es) \<and>
          (\<forall>c \<in> set (map fst es). \<exists>f ev. interest (l_reactor l) f = Some (ev, c))
      | _ \<Rightarrow> True)"

primrec waits_ok :: "ctl_fails \<Rightarrow> on_event_f \<Rightarrow> callback \<Rightarrow> int \<Rightarrow> pass list \<Rightarrow> event_loop \<Rightarrow> bool" where
  "waits_ok fails cb tcb max_open [] l = True"
| "waits_ok fails cb tcb max_open (e # es) l \<longleftrightarrow>
     (run l \<longrightarrow> wait_ok e l \<and>
        (case loop_pass fails cb tcb max_open e l of None \<Rightarrow> True | Some (x, l') \<Rightarrow> waits_ok fails cb tcb max_open es l'))"

lemma grow_ok:
  assumes "loop_ok hint max_open l" and "0 \<le> hint" and "max_open \<le> 2 ^ 30"
  shows "\<exists>l'. grow_events True max_open n l = Some l' \<and> loop_ok hint max_open l' \<and> run l' = run l \<and>
    l_reactor l' = l_reactor l \<and> l_timers l' = l_timers l"
  using assms by (auto simp: grow_events_def loop_ok_def Let_def)

text \<open>Callbacks that only make legal use of their component.\<close>

definition callbacks_ok :: "on_event_f \<Rightarrow> callback \<Rightarrow> bool" where
  "callbacks_ok cb tcb \<longleftrightarrow> Channel.well_behaved cb \<and> TimerQueue.well_behaved tcb"

lemma timers_pass:
  assumes "tq_wf q xs" and "callbacks_ok cb tcb"
  shows "\<exists>fired q' xs'. timer_queue_process_inloop tcb now (Some q) = Some (fired, Some q') \<and> tq_wf q' xs'"
proof (cases "xs = []")
  case True
  then have "timer_list q = None" using assms(1) by (simp add: tq_wf_def queue_list_def)
  then show ?thesis using assms(1) by (auto simp: timer_queue_process_inloop_def)
next
  case False
  have first: "timer_list q \<noteq> None" using assms(1) False by (cases xs) (auto simp: tq_wf_def queue_list_def dlist_def)
  have cb: "TimerQueue.well_behaved tcb" using assms(2) by (simp add: callbacks_ok_def)
  let ?ds = "takeWhile (\<lambda>b. key q b \<le> now) xs"
  have dist: "distinct ?ds" using assms(1) by (simp add: tq_wf_def queue_list_def dlist_def)
  from due_wf [OF assms(1) False, of now] consider
      (none) "take_due now q = Some None"
    | (some) q1 q2 where "take_due now q = Some (Some (first_ptr ?ds None, q1))" "mark_expired (first_ptr ?ds None) q1 = Some q2"
        "tq_wf q2 (dropWhile (\<lambda>b. key q b \<le> now) xs)" "done_ok q2 ?ds"
    by blast
  then show ?thesis
  proof cases
    case none
    then show ?thesis using first assms(1) by (auto simp: timer_queue_process_inloop_def)
  next
    case some
    from run_done_wf [OF cb some(3, 4) dist] obtain fired q' xs' where
      "run_done tcb (first_ptr ?ds None) q2 = Some (fired, q')" "tq_wf q' xs'" by blast
    then show ?thesis using first some(1, 2) by (auto simp: timer_queue_process_inloop_def)
  qed
qed

lemma timers_loop_ok: "loop_ok hint m l \<Longrightarrow> tq_wf q xs \<Longrightarrow> loop_ok hint m (l\<lparr>l_timers := q\<rparr>)"
  by (auto simp: loop_ok_def)

lemma quit_loop_ok: "loop_ok hint m l \<Longrightarrow> loop_ok hint m (do_loop_quit l)"
  by (simp add: loop_ok_def do_loop_quit_def)

lemma timeout_range: "0 \<le> timer_queue_gettimeout now qp" "timer_queue_gettimeout now qp \<le> 100"
  by (auto simp: timer_queue_gettimeout_def Let_def split: option.split)

lemma pass_ok:
  assumes l: "loop_ok hint max_open l" and h: "0 \<le> hint" "max_open \<le> 2 ^ 30" and cb: "callbacks_ok cb tcb"
    and e: "wait_ok e l" and mem: "realloc_ok e"
  shows "\<exists>t s f l'. loop_pass no_fail cb tcb max_open e l = Some ((t, s, f), l') \<and> loop_ok hint max_open l' \<and>
    run l' = (run l \<and> \<not> quits e) \<and> 0 \<le> t \<and> t \<le> 100"
proof -
  have "\<exists>s l1. (case wait_result e of
          Events es \<Rightarrow>
            if int (length es) > max_event_count l then None
            else if es = [] then Some ([], l)
            else do {
              (served, R) \<leftarrow> dispatch no_fail cb es (l_reactor l);
              l \<leftarrow> grow_events (realloc_ok e) max_open (int (length es)) (l\<lparr>l_reactor := R\<rparr>);
              Some (served, l) }
        | Wait_Interrupted \<Rightarrow> Some ([], l)
        | Wait_Failed \<Rightarrow> Some ([], l)) = Some (s, l1) \<and> loop_ok hint max_open l1 \<and> run l1 = run l"
  proof (cases "wait_result e")
    case (Events es)
    have es: "int (length es) \<le> max_event_count l" "distinct (map fst es)"
      "\<forall>c \<in> set (map fst es). \<exists>f ev. interest (l_reactor l) f = Some (ev, c)"
      using e Events by (simp_all add: wait_ok_def)
    have idle: "idle (l_reactor l)" using l by (simp add: loop_ok_def)
    have live: "\<forall>c \<in> set (map fst es). chans (l_reactor l) c \<noteq> None"
      using es(3) react_okD(2) [OF servingD(1) [OF idle]] by fastforce
    have "Channel.well_behaved cb" using cb by (simp add: callbacks_ok_def)
    from dispatch_idle [OF idle es(2) live this] obtain s R where
      R: "dispatch no_fail cb es (l_reactor l) = Some (s, R)" "idle R" by blast
    have "loop_ok hint max_open (l\<lparr>l_reactor := R\<rparr>)" using l R(2) by (simp add: loop_ok_def)
    from grow_ok [OF this h, of "int (length es)"] obtain l1 where
      g: "grow_events True max_open (int (length es)) (l\<lparr>l_reactor := R\<rparr>) = Some l1" "loop_ok hint max_open l1" "run l1 = run l"
      by auto
    show ?thesis
    proof (cases "es = []")
      case True
      then show ?thesis using Events l h by (auto simp: loop_ok_def)
    next
      case False
      then show ?thesis using Events es(1) R(1) g mem by simp
    qed
  qed (use l in simp_all)
  then obtain s l1 where l1: "(case wait_result e of
          Events es \<Rightarrow>
            if int (length es) > max_event_count l then None
            else if es = [] then Some ([], l)
            else do {
              (served, R) \<leftarrow> dispatch no_fail cb es (l_reactor l);
              l \<leftarrow> grow_events (realloc_ok e) max_open (int (length es)) (l\<lparr>l_reactor := R\<rparr>);
              Some (served, l) }
        | Wait_Interrupted \<Rightarrow> Some ([], l)
        | Wait_Failed \<Rightarrow> Some ([], l)) = Some (s, l1)" "loop_ok hint max_open l1" "run l1 = run l" by blast
  obtain xs where "tq_wf (l_timers l1) xs" using l1(2) by (auto simp: loop_ok_def)
  from timers_pass [OF this cb, of "process_clock e"] obtain f q xs' where
    q: "timer_queue_process_inloop tcb (process_clock e) (Some (l_timers l1)) = Some (f, Some q)" "tq_wf q xs'" by blast
  let ?l = "l1\<lparr>l_timers := q\<rparr>"
  have "loop_ok hint max_open ?l" by (rule timers_loop_ok [OF l1(2) q(2)])
  then have "loop_ok hint max_open (if quits e then do_loop_quit ?l else ?l)" using quit_loop_ok by simp
  moreover have "run (if quits e then do_loop_quit ?l else ?l) = (run l \<and> \<not> quits e)"
    using l1(3) by (simp add: do_loop_quit_def)
  moreover have "loop_pass no_fail cb tcb max_open e l =
      Some ((timer_queue_gettimeout (wait_clock e) (Some (l_timers l)), s, f), if quits e then do_loop_quit ?l else ?l)"
    unfolding loop_pass_def Let_def l1(1) using l by (simp add: q(1) loop_ok_def)
  ultimately show ?thesis using timeout_range by blast
qed

text \<open>The passes up to the first one that asks the loop to quit.\<close>

primrec until_quit :: "pass list \<Rightarrow> pass list" where
  "until_quit [] = []"
| "until_quit (e # es) = e # (if quits e then [] else until_quit es)"

lemma passes_ok:
  assumes "loop_ok hint max_open l" and h: "0 \<le> hint" "max_open \<le> 2 ^ 30" and cb: "callbacks_ok cb tcb"
    and "waits_ok no_fail cb tcb max_open es l" and "run l" and "\<forall>e \<in> set es. realloc_ok e"
  shows "\<exists>xs l'. passes no_fail cb tcb max_open es l = Some (xs, drop (length (until_quit es)) es, l') \<and>
    loop_ok hint max_open l' \<and> length xs = length (until_quit es) \<and> (\<forall>x \<in> set xs. 0 \<le> fst x \<and> fst x \<le> 100) \<and>
    (run l' \<longleftrightarrow> (\<forall>e \<in> set es. \<not> quits e))"
  using assms(1, 5, 6, 7)
proof (induction es arbitrary: l)
  case (Cons e es)
  have "wait_ok e l" "realloc_ok e" using Cons.prems(2-4) by simp_all
  from pass_ok [OF Cons.prems(1) h cb this] obtain t s f l1 where
    l1: "loop_pass no_fail cb tcb max_open e l = Some ((t, s, f), l1)" "loop_ok hint max_open l1"
      "run l1 \<longleftrightarrow> run l \<and> \<not> quits e" "0 \<le> t" "t \<le> 100" by blast
  show ?case
  proof (cases "quits e")
    case True
    then have "passes no_fail cb tcb max_open es l1 = Some ([], es, l1)" using l1(3) by (cases es) simp_all
    then show ?thesis using True l1 Cons.prems(3) by simp
  next
    case False
    have w: "waits_ok no_fail cb tcb max_open es l1" using Cons.prems(2, 3) l1(1) by simp
    have "run l1" using l1(3) False Cons.prems(3) by simp
    moreover have "\<forall>e \<in> set es. realloc_ok e" using Cons.prems(4) by simp
    ultimately obtain xs l' where
      r: "passes no_fail cb tcb max_open es l1 = Some (xs, drop (length (until_quit es)) es, l')"
        "loop_ok hint max_open l'" "length xs = length (until_quit es)" "\<forall>x \<in> set xs. 0 \<le> fst x \<and> fst x \<le> 100"
        "run l' \<longleftrightarrow> (\<forall>e \<in> set es. \<not> quits e)"
      using Cons.IH [OF l1(2) w] by blast
    have "passes no_fail cb tcb max_open (e # es) l = Some ((t, s, f) # xs, drop (length (until_quit es)) es, l')"
      using Cons.prems(3) l1(1) r(1) by simp
    then show ?thesis using False r(2-5) l1(4, 5) by simp
  qed
qed simp

section \<open>Properties\<close>

text \<open>
  C1: The loop is safe for as long as it runs, while \<^verbatim>\<open>epoll_ctl\<close>, the allocations and \<^verbatim>\<open>realloc\<close>
  succeed, the limit of open files is at most \<open>2 ^ 30\<close>, and the callbacks of channels and timers
  make legal use of their component (\<open>c_legal\<close>, \<open>legal\<close>). For every sequence of results of
  \<^verbatim>\<open>epoll_wait\<close>, failures included, every pass succeeds; the channels, their registrations and
  the timer queue stay consistent; no wait exceeds 100 ms or is endless; the array of events
  stays allocated and between its first size and the limit; and the loop ends exactly with the
  first pass in which it is told to quit.
\<close>

theorem loop_loop_safe:
  assumes "loop_ok hint max_open l" and "0 \<le> hint" and "max_open \<le> 2 ^ 30" and "callbacks_ok cb tcb"
    and "waits_ok no_fail cb tcb max_open es (l\<lparr>threadId := tid, run := True\<rparr>)" and "\<forall>e \<in> set es. realloc_ok e"
  shows "\<exists>xs l'. loop_loop no_fail cb tcb max_open tid es l = Some (xs, drop (length (until_quit es)) es, l') \<and>
    loop_ok hint max_open l' \<and> length xs = length (until_quit es) \<and> (\<forall>x \<in> set xs. 0 \<le> fst x \<and> fst x \<le> 100) \<and>
    (run l' \<longleftrightarrow> (\<forall>e \<in> set es. \<not> quits e))"
proof -
  have "loop_ok hint max_open (l\<lparr>threadId := tid, run := True\<rparr>)" using assms(1) by (simp add: loop_ok_def)
  from passes_ok [OF this assms(2-5) _ assms(6)] show ?thesis by (simp add: loop_loop_def)
qed

definition example_loop :: event_loop where
  "example_loop = \<lparr>run = False, threadId = 0, has_events = True, max_event_count = 2, l_reactor = two_channels,
     l_timers = two_timers\<rparr>"

definition example_passes :: "pass list" where
  "example_passes = [\<lparr>wait_clock = 3, wait_result = Events [(1, 1), (2, 1)], realloc_ok = True, process_clock = 15, quits = True\<rparr>,
     \<lparr>wait_clock = 16, wait_result = Wait_Failed, realloc_ok = True, process_clock = 17, quits = False\<rparr>]"

text \<open>The first pass fills the array, which grows.\<close>

theorem loop_loop_safe_witness:
  "\<exists>xs l'. loop_loop no_fail destroys_two (\<lambda>f u q. []) 1024 9 example_passes example_loop = Some (xs, tl example_passes, l') \<and>
     \<not> run l'"
proof -
  have l: "loop_ok 2 1024 example_loop"
    using two_channels_idle two_timers_wf(1) by (auto simp: loop_ok_def example_loop_def)
  have cb: "callbacks_ok destroys_two (\<lambda>f u q. [])"
    using destroys_two_ok by (simp add: callbacks_ok_def TimerQueue.well_behaved_def)
  have reg: "\<exists>f ev. interest two_channels f = Some (ev, 1)" "\<exists>f ev. interest two_channels f = Some (ev, 2)"
    by (auto simp: two_channels_def intro: exI [of _ 5] exI [of _ 6])
  let ?l = "example_loop\<lparr>threadId := 9, run := True\<rparr>"
  have e: "wait_ok (hd example_passes) ?l" "realloc_ok (hd example_passes)"
    using reg by (simp_all add: wait_ok_def example_passes_def example_loop_def)
  have "loop_ok 2 1024 ?l" using l by (simp add: loop_ok_def)
  from pass_ok [OF this _ _ cb e] obtain t s f l1 where
    p: "loop_pass no_fail destroys_two (\<lambda>f u q. []) 1024 (hd example_passes) ?l = Some ((t, s, f), l1)" "\<not> run l1"
    by (auto simp: example_passes_def)
  have "waits_ok no_fail destroys_two (\<lambda>f u q. []) 1024 example_passes ?l"
    using e p by (simp add: example_passes_def)
  from loop_loop_safe [OF l _ _ cb this] show ?thesis by (auto simp: example_passes_def)
qed

end
