(* ===== verification/RbTree.thy ===== *)
theory RbTree
  imports Prelude
begin

text \<open>
  \<^verbatim>\<open>udpclient/udpserver/jsw_rbtree.c\<close>: a red-black tree of \<^verbatim>\<open>void *\<close> values with top-down
  insertion and deletion. The nodes live in a heap; the automatic variable \<^verbatim>\<open>head\<close> of the two
  updating functions is a node at the address \<open>hd0\<close> while they run. The functions \<^verbatim>\<open>cmp\<close> and
  \<^verbatim>\<open>dup\<close> of a tree are arguments; the values passed to \<^verbatim>\<open>rel\<close> are a result. An
  allocator is the list of the addresses it will hand out, and fails when it is empty.
\<close>

section \<open>The program\<close>

record rb_node =
  rb_red :: bool
  rb_data :: ptr
  rb_link :: "bool \<Rightarrow> ptr"

type_synonym rb_heap = "rb_node heap"

record rb_tree =
  rb_root :: ptr
  rb_size :: u64
  rb_heap :: rb_heap

type_synonym cmp_f = "ptr \<Rightarrow> ptr \<Rightarrow> int"
type_synonym dup_f = "ptr \<Rightarrow> ptr"

text \<open>The two links of a node, by direction.\<close>

definition lk :: "ptr \<Rightarrow> ptr \<Rightarrow> bool \<Rightarrow> ptr" where
  "lk l r d = (if d then r else l)"

definition set_link :: "rb_heap \<Rightarrow> ptr \<Rightarrow> bool \<Rightarrow> ptr \<Rightarrow> rb_heap option" where
  "set_link h p d v = modify h p (\<lambda>n. n\<lparr>rb_link := (rb_link n)(d := v)\<rparr>)"

definition set_red :: "rb_heap \<Rightarrow> ptr \<Rightarrow> bool \<Rightarrow> rb_heap option" where
  "set_red h p c = modify h p (\<lambda>n. n\<lparr>rb_red := c\<rparr>)"

definition link_of :: "rb_heap \<Rightarrow> ptr \<Rightarrow> bool \<Rightarrow> ptr option" where
  "link_of h p d = map_option (\<lambda>n. rb_link n d) (deref h p)"

definition is_red :: "rb_heap \<Rightarrow> ptr \<Rightarrow> bool option" where
  "is_red h p = (case p of None \<Rightarrow> Some False | Some a \<Rightarrow> map_option rb_red (h a))"

text \<open>C's \<^verbatim>\<open>&&\<close>: the second operand is evaluated when the first is true.\<close>

definition andalso :: "bool option \<Rightarrow> bool option \<Rightarrow> bool option" where
  "andalso a b = Option.bind a (\<lambda>x. if x then b else Some False)"

definition jsw_single :: "rb_heap \<Rightarrow> ptr \<Rightarrow> bool \<Rightarrow> (rb_heap \<times> ptr) option" where
  "jsw_single h root dir = do {
     save \<leftarrow> link_of h root (\<not> dir);
     l \<leftarrow> link_of h save dir;
     h \<leftarrow> set_link h root (\<not> dir) l;
     h \<leftarrow> set_link h save dir root;
     h \<leftarrow> set_red h root True;
     h \<leftarrow> set_red h save False;
     Some (h, save) }"

definition jsw_double :: "rb_heap \<Rightarrow> ptr \<Rightarrow> bool \<Rightarrow> (rb_heap \<times> ptr) option" where
  "jsw_double h root dir = do {
     l \<leftarrow> link_of h root (\<not> dir);
     (h, s) \<leftarrow> jsw_single h l (\<not> dir);
     h \<leftarrow> set_link h root (\<not> dir) s;
     jsw_single h root dir }"

definition new_node :: "dup_f \<Rightarrow> rb_heap \<Rightarrow> addr list \<Rightarrow> ptr \<Rightarrow> rb_heap \<times> ptr \<times> addr list" where
  "new_node dup h news data =
     (case news of [] \<Rightarrow> (h, None, [])
      | a # as \<Rightarrow> (h(a \<mapsto> \<lparr>rb_red = True, rb_data = dup data, rb_link = lk None None\<rparr>), Some a, as))"

definition jsw_rbnew :: rb_tree where
  "jsw_rbnew = \<lparr>rb_root = None, rb_size = 0, rb_heap = Map.empty\<rparr>"

text \<open>The loop rotates left children up until there is none, then releases the node.\<close>

partial_function (option) rb_delete_loop :: "rb_heap \<Rightarrow> ptr \<Rightarrow> (rb_heap \<times> ptr list) option" where
  "rb_delete_loop h it =
     (case it of None \<Rightarrow> Some (h, [])
      | Some a \<Rightarrow> do {
          n \<leftarrow> h a;
          if rb_link n False = None then do {
            h \<leftarrow> release h it;
            (h, rels) \<leftarrow> rb_delete_loop h (rb_link n True);
            Some (h, rb_data n # rels) }
          else do {
            let save = rb_link n False;
            r \<leftarrow> link_of h save True;
            h \<leftarrow> set_link h it False r;
            h \<leftarrow> set_link h save True it;
            rb_delete_loop h save } })"

definition jsw_rbdelete :: "rb_tree \<Rightarrow> (rb_heap \<times> ptr list) option" where
  "jsw_rbdelete t = rb_delete_loop (rb_heap t) (rb_root t)"

partial_function (option) find_loop :: "cmp_f \<Rightarrow> rb_heap \<Rightarrow> ptr \<Rightarrow> ptr \<Rightarrow> ptr option" where
  "find_loop cmp h data it =
     (if it = None then Some None
      else do {
          n \<leftarrow> deref h it;
          if cmp (rb_data n) data = 0 then Some (rb_data n)
          else find_loop cmp h data (rb_link n (cmp (rb_data n) data < 0)) })"

definition jsw_rbfind :: "cmp_f \<Rightarrow> rb_tree \<Rightarrow> ptr \<Rightarrow> ptr option" where
  "jsw_rbfind cmp t data = find_loop cmp (rb_heap t) data (rb_root t)"

subsection \<open>Insertion\<close>

text \<open>The visit of a place: a new node where there is none, a colour flip otherwise.\<close>

definition ins_visit ::
  "dup_f \<Rightarrow> ptr \<Rightarrow> rb_heap \<Rightarrow> ptr \<Rightarrow> ptr \<Rightarrow> bool \<Rightarrow> addr list \<Rightarrow> (rb_heap \<times> ptr \<times> addr list) option" where
  "ins_visit dup data h p q dir news =
     (if q = None then do {
        let (h, q, news) = new_node dup h news data;
        h \<leftarrow> set_link h p dir q;
        Some (h, q, news) }
      else do {
        l \<leftarrow> link_of h q False;
        r \<leftarrow> link_of h q True;
        both \<leftarrow> andalso (is_red h l) (is_red h r);
        if both then do {
          h \<leftarrow> set_red h q True;
          h \<leftarrow> set_red h l False;
          h \<leftarrow> set_red h r False;
          Some (h, q, news) }
        else Some (h, q, news) })"

text \<open>The repair of a red node under a red parent.\<close>

definition ins_fix :: "rb_heap \<Rightarrow> ptr \<Rightarrow> ptr \<Rightarrow> ptr \<Rightarrow> ptr \<Rightarrow> bool \<Rightarrow> rb_heap option" where
  "ins_fix h t g p q lst = do {
     bad \<leftarrow> andalso (is_red h q) (is_red h p);
     if bad then do {
       tr \<leftarrow> link_of h t True;
       let dir2 = (tr = g);
       pl \<leftarrow> link_of h p lst;
       (h, s) \<leftarrow> (if q = pl then jsw_single h g (\<not> lst) else jsw_double h g (\<not> lst));
       set_link h t dir2 s }
     else Some h }"

text \<open>The walk down. The flag of the result is false when an allocation failed.\<close>

partial_function (option) ins_loop ::
  "cmp_f \<Rightarrow> dup_f \<Rightarrow> ptr \<Rightarrow> rb_heap \<Rightarrow> ptr \<Rightarrow> ptr \<Rightarrow> ptr \<Rightarrow> ptr \<Rightarrow> bool \<Rightarrow> bool \<Rightarrow> addr list \<Rightarrow>
     (rb_heap \<times> bool) option" where
  "ins_loop cmp dup data h t g p q dir lst news = do {
     (h, q, news) \<leftarrow> ins_visit dup data h p q dir news;
     if q = None then Some (h, False)
     else do {
       h \<leftarrow> ins_fix h t g p q lst;
       n \<leftarrow> deref h q;
       if cmp (rb_data n) data = 0 then Some (h, True)
       else ins_loop cmp dup data h (if g \<noteq> None then g else t) p q
              (rb_link n (cmp (rb_data n) data < 0)) (cmp (rb_data n) data < 0) dir news } }"

definition rb_head :: "ptr \<Rightarrow> rb_node" where
  "rb_head root = \<lparr>rb_red = False, rb_data = None, rb_link = lk None root\<rparr>"

definition jsw_rbinsert ::
  "cmp_f \<Rightarrow> dup_f \<Rightarrow> addr \<Rightarrow> addr list \<Rightarrow> rb_tree \<Rightarrow> ptr \<Rightarrow> (rb_tree \<times> int) option" where
  "jsw_rbinsert cmp dup hd0 news t data = do {
     (t, ok) \<leftarrow>
       (if rb_root t = None then
          (case new_node dup (rb_heap t) news data of (h, root, news) \<Rightarrow>
             Some (t\<lparr>rb_root := root, rb_heap := h\<rparr>, root \<noteq> None))
        else do {
          (h, ok) \<leftarrow> ins_loop cmp dup data ((rb_heap t)(hd0 \<mapsto> rb_head (rb_root t))) (Some hd0) None None
                       (rb_root t) False False news;
          if ok then do {
            root \<leftarrow> link_of h (Some hd0) True;
            Some (t\<lparr>rb_root := root, rb_heap := h(hd0 := None)\<rparr>, True) }
          else Some (t\<lparr>rb_heap := h(hd0 := None)\<rparr>, False) });
     if ok then do {
       h \<leftarrow> set_red (rb_heap t) (rb_root t) False;
       Some (t\<lparr>rb_heap := h, rb_size := rb_size t + 1\<rparr>, 1) }
     else Some (t, 0) }"

subsection \<open>Removal\<close>

text \<open>Red is pushed down from \<^verbatim>\<open>q\<close>; the result is the new \<^verbatim>\<open>p\<close>.\<close>

definition er_push :: "rb_heap \<Rightarrow> ptr \<Rightarrow> ptr \<Rightarrow> ptr \<Rightarrow> bool \<Rightarrow> bool \<Rightarrow> (rb_heap \<times> ptr) option" where
  "er_push h g p q dir lst = do {
     qd \<leftarrow> link_of h q dir;
     qn \<leftarrow> link_of h q (\<not> dir);
     rq \<leftarrow> is_red h q;
     rd \<leftarrow> (if rq then Some True else is_red h qd);
     if rd then Some (h, p)
     else do {
       rn \<leftarrow> is_red h qn;
       if rn then do {
         (h, s) \<leftarrow> jsw_single h q dir;
         h \<leftarrow> set_link h p lst s;
         Some (h, s) }
       else do {
         s \<leftarrow> link_of h p (\<not> lst);
         if s = None then Some (h, p)
         else do {
           sn \<leftarrow> link_of h s (\<not> lst);
           sl \<leftarrow> link_of h s lst;
           rsn \<leftarrow> is_red h sn;
           rsl \<leftarrow> is_red h sl;
           if \<not> rsn \<and> \<not> rsl then do {
             h \<leftarrow> set_red h p False;
             h \<leftarrow> set_red h s True;
             h \<leftarrow> set_red h q True;
             Some (h, p) }
           else do {
             gr \<leftarrow> link_of h g True;
             let dir2 = (gr = p);
             h \<leftarrow> (if rsl then do { (h, r) \<leftarrow> jsw_double h p lst; set_link h g dir2 r }
                   else do { (h, r) \<leftarrow> jsw_single h p lst; set_link h g dir2 r });
             top \<leftarrow> link_of h g dir2;
             h \<leftarrow> set_red h q True;
             h \<leftarrow> set_red h top True;
             l \<leftarrow> link_of h top False;
             h \<leftarrow> set_red h l False;
             r \<leftarrow> link_of h top True;
             h \<leftarrow> set_red h r False;
             Some (h, p) } } } } }"

partial_function (option) er_loop ::
  "cmp_f \<Rightarrow> ptr \<Rightarrow> rb_heap \<Rightarrow> ptr \<Rightarrow> ptr \<Rightarrow> ptr \<Rightarrow> bool \<Rightarrow> (rb_heap \<times> ptr \<times> ptr \<times> ptr) option" where
  "er_loop cmp data h p q f dir = do {
     nxt \<leftarrow> link_of h q dir;
     if nxt = None then Some (h, p, q, f)
     else do {
       n \<leftarrow> deref h nxt;
       let f = (if cmp (rb_data n) data = 0 then nxt else f);
       (h, p') \<leftarrow> er_push h p q nxt (cmp (rb_data n) data < 0) dir;
       er_loop cmp data h p' nxt f (cmp (rb_data n) data < 0) } }"

text \<open>The value found is released and overwritten; the last node visited is unlinked.\<close>

definition er_unlink :: "rb_heap \<Rightarrow> ptr \<Rightarrow> ptr \<Rightarrow> ptr \<Rightarrow> (rb_heap \<times> ptr list) option" where
  "er_unlink h p q f = do {
     fn \<leftarrow> deref h f;
     qn \<leftarrow> deref h q;
     h \<leftarrow> modify h f (\<lambda>n. n\<lparr>rb_data := rb_data qn\<rparr>);
     pr \<leftarrow> link_of h p True;
     ql \<leftarrow> link_of h q False;
     v \<leftarrow> link_of h q (ql = None);
     h \<leftarrow> set_link h p (pr = q) v;
     h \<leftarrow> release h q;
     Some (h, [rb_data fn]) }"

definition jsw_rberase ::
  "cmp_f \<Rightarrow> addr \<Rightarrow> rb_tree \<Rightarrow> ptr \<Rightarrow> (rb_tree \<times> ptr list \<times> int) option" where
  "jsw_rberase cmp hd0 t data =
     (if rb_root t = None then Some (t, [], 1)
      else do {
        (h, p, q, f) \<leftarrow> er_loop cmp data ((rb_heap t)(hd0 \<mapsto> rb_head (rb_root t))) None (Some hd0) None True;
        (h, rels) \<leftarrow> (if f = None then Some (h, []) else er_unlink h p q f);
        root \<leftarrow> link_of h (Some hd0) True;
        h \<leftarrow> (if root = None then Some h else set_red h root False);
        Some (t\<lparr>rb_root := root, rb_size := rb_size t - 1, rb_heap := h(hd0 := None)\<rparr>, rels, 1) })"

definition jsw_rbsize :: "rb_tree \<Rightarrow> u64" where
  "jsw_rbsize t = rb_size t"

subsection \<open>Traversal\<close>

record rb_trav =
  tv_it :: ptr
  tv_path :: "ptr list"
  tv_top :: nat

definition HEIGHT_LIMIT :: nat where
  "HEIGHT_LIMIT = 64"

text \<open>The fresh block's contents are indeterminate, given by the arguments.\<close>

definition jsw_rbtnew :: "ptr \<Rightarrow> ptr list \<Rightarrow> nat \<Rightarrow> rb_trav" where
  "jsw_rbtnew it path n = \<lparr>tv_it = it, tv_path = path, tv_top = n\<rparr>"

text \<open>One step down: the node is pushed on the path, which is bounded.\<close>

definition tv_push :: "rb_trav \<Rightarrow> ptr \<Rightarrow> rb_trav option" where
  "tv_push v p = do {
     path \<leftarrow> wr (tv_path v) (int (tv_top v)) (tv_it v);
     Some (v\<lparr>tv_path := path, tv_top := tv_top v + 1, tv_it := p\<rparr>) }"

partial_function (option) tv_down :: "rb_heap \<Rightarrow> bool \<Rightarrow> rb_trav \<Rightarrow> rb_trav option" where
  "tv_down h dir v = do {
     l \<leftarrow> link_of h (tv_it v) dir;
     if l = None then Some v else do { v \<leftarrow> tv_push v l; tv_down h dir v } }"

definition tv_data :: "rb_heap \<Rightarrow> rb_trav \<Rightarrow> (rb_trav \<times> ptr) option" where
  "tv_data h v =
     (if tv_it v = None then Some (v, None)
      else do { n \<leftarrow> deref h (tv_it v); Some (v, rb_data n) })"

definition rb_start :: "rb_trav \<Rightarrow> rb_tree \<Rightarrow> bool \<Rightarrow> (rb_trav \<times> ptr) option" where
  "rb_start v t dir = do {
     let v = v\<lparr>tv_it := rb_root t, tv_top := 0\<rparr>;
     v \<leftarrow> (if tv_it v \<noteq> None then tv_down (rb_heap t) dir v else Some v);
     tv_data (rb_heap t) v }"

partial_function (option) tv_up :: "rb_heap \<Rightarrow> bool \<Rightarrow> rb_trav \<Rightarrow> rb_trav option" where
  "tv_up h dir v =
     (if tv_top v = 0 then Some (v\<lparr>tv_it := None\<rparr>)
      else do {
        let lst = tv_it v;
        it \<leftarrow> rd (tv_path v) (int (tv_top v) - 1);
        let v = v\<lparr>tv_top := tv_top v - 1, tv_it := it\<rparr>;
        l \<leftarrow> link_of h it dir;
        if lst = l then tv_up h dir v else Some v })"

definition rb_move :: "rb_heap \<Rightarrow> rb_trav \<Rightarrow> bool \<Rightarrow> (rb_trav \<times> ptr) option" where
  "rb_move h v dir = do {
     l \<leftarrow> link_of h (tv_it v) dir;
     v \<leftarrow> (if l \<noteq> None then do { v \<leftarrow> tv_push v l; tv_down h (\<not> dir) v }
           else tv_up h dir v);
     tv_data h v }"

definition jsw_rbtfirst :: "rb_trav \<Rightarrow> rb_tree \<Rightarrow> (rb_trav \<times> ptr) option" where
  "jsw_rbtfirst v t = rb_start v t False"

definition jsw_rbtlast :: "rb_trav \<Rightarrow> rb_tree \<Rightarrow> (rb_trav \<times> ptr) option" where
  "jsw_rbtlast v t = rb_start v t True"

definition jsw_rbtnext :: "rb_heap \<Rightarrow> rb_trav \<Rightarrow> (rb_trav \<times> ptr) option" where
  "jsw_rbtnext h v = rb_move h v True"

definition jsw_rbtprev :: "rb_heap \<Rightarrow> rb_trav \<Rightarrow> (rb_trav \<times> ptr) option" where
  "jsw_rbtprev h v = rb_move h v False"

section \<open>Trees in the heap\<close>

text \<open>
  A tree with the addresses of its nodes; \<^term>\<open>Nd a c x l r\<close> is the node at \<open>a\<close>, red when \<open>c\<close>,
  with the value \<open>x\<close>. A context is the path from a subtree up to the root: a frame holds a node,
  the direction taken at it and its other subtree.
\<close>

datatype rbt = Lf | Nd addr bool ptr rbt rbt

datatype frame = Fr addr bool ptr bool rbt

fun rootp :: "rbt \<Rightarrow> ptr" where
  "rootp Lf = None"
| "rootp (Nd a c x l r) = Some a"

fun addrs :: "rbt \<Rightarrow> addr list" where
  "addrs Lf = []"
| "addrs (Nd a c x l r) = a # addrs l @ addrs r"

fun tree_at :: "rb_heap \<Rightarrow> rbt \<Rightarrow> bool" where
  "tree_at h Lf = True"
| "tree_at h (Nd a c x l r) \<longleftrightarrow>
     h a = Some \<lparr>rb_red = c, rb_data = x, rb_link = lk (rootp l) (rootp r)\<rparr> \<and> tree_at h l \<and> tree_at h r"

text \<open>The node whose subtree in the direction \<open>d\<close> is \<open>t\<close> and whose other one is \<open>s\<close>.\<close>

definition nd :: "bool \<Rightarrow> addr \<Rightarrow> bool \<Rightarrow> ptr \<Rightarrow> rbt \<Rightarrow> rbt \<Rightarrow> rbt" where
  "nd d a c x s t = (if d then Nd a c x s t else Nd a c x t s)"

fun plug :: "frame list \<Rightarrow> rbt \<Rightarrow> rbt" where
  "plug [] t = t"
| "plug (Fr a c x d s # fs) t = plug fs (nd d a c x s t)"

fun caddrs :: "frame list \<Rightarrow> addr list" where
  "caddrs [] = []"
| "caddrs (Fr a c x d s # fs) = a # addrs s @ caddrs fs"

fun ctx_at :: "rb_heap \<Rightarrow> addr \<Rightarrow> frame list \<Rightarrow> ptr \<Rightarrow> bool" where
  "ctx_at h hd0 [] p \<longleftrightarrow> h hd0 = Some (rb_head p)"
| "ctx_at h hd0 (Fr a c x d s # fs) p \<longleftrightarrow>
     h a = Some \<lparr>rb_red = c, rb_data = x, rb_link = (if d then lk (rootp s) p else lk p (rootp s))\<rparr> \<and>
     tree_at h s \<and> ctx_at h hd0 fs (Some a)"

text \<open>The heap holds the subtree \<open>t\<close> in the context \<open>fs\<close>, under the head node.\<close>

definition holds :: "rb_heap \<Rightarrow> addr \<Rightarrow> frame list \<Rightarrow> rbt \<Rightarrow> bool" where
  "holds h hd0 fs t \<longleftrightarrow>
     ctx_at h hd0 fs (rootp t) \<and> tree_at h t \<and> distinct (hd0 # caddrs fs @ addrs t) \<and>
     dom h = set (hd0 # caddrs fs @ addrs t)"

text \<open>The node a context hangs in, and the side.\<close>

fun par :: "addr \<Rightarrow> frame list \<Rightarrow> addr" where
  "par hd0 [] = hd0"
| "par hd0 (Fr a c x d s # fs) = a"

fun side :: "frame list \<Rightarrow> bool" where
  "side [] = True"
| "side (Fr a c x d s # fs) = d"

fun predr :: "frame list \<Rightarrow> bool" where
  "predr [] = False"
| "predr (Fr a c x d s # fs) = c"

fun sibling :: "frame list \<Rightarrow> rbt" where
  "sibling [] = Lf"
| "sibling (Fr a c x d s # fs) = s"

lemma lk_simps [simp]:
  "lk l r False = l" "lk l r True = r"
  "lk l r d = (if d then r else l)"
  "(lk l r)(False := p) = lk p r" "(lk l r)(True := p) = lk l p"
  by (auto simp: lk_def fun_eq_iff)

lemma lk_eq [simp]: "lk l r = lk l' r' \<longleftrightarrow> l = l' \<and> r = r'"
  by (auto simp: lk_def fun_eq_iff)

lemma nd_simps [simp]:
  "rootp (nd d a c x s t) = Some a"
  "set (addrs (nd d a c x s t)) = insert a (set (addrs s) \<union> set (addrs t))"
  "distinct (addrs (nd d a c x s t)) \<longleftrightarrow> distinct (a # addrs s @ addrs t)"
  "tree_at h (nd d a c x s t) \<longleftrightarrow>
     h a = Some \<lparr>rb_red = c, rb_data = x, rb_link = (if d then lk (rootp s) (rootp t) else lk (rootp t) (rootp s))\<rparr> \<and>
     tree_at h s \<and> tree_at h t"
  by (auto simp: nd_def)

lemma rootp_None [simp]: "rootp t = None \<longleftrightarrow> t = Lf"
  by (cases t) auto

lemma rootp_in: "rootp t = Some a \<Longrightarrow> a \<in> set (addrs t)"
  by (cases t) auto

lemma par_side: "par hd0 fs \<in> insert hd0 (set (caddrs fs))"
  by (cases "(hd0, fs)" rule: par.cases) auto

text \<open>What lies outside a tree or a context does not matter to it.\<close>

lemma tree_at_cong: "(\<And>a. a \<in> set (addrs t) \<Longrightarrow> h' a = h a) \<Longrightarrow> tree_at h' t = tree_at h t"
  by (induction t) auto

lemma ctx_at_cong:
  "(\<And>a. a \<in> insert hd0 (set (caddrs fs)) \<Longrightarrow> h' a = h a) \<Longrightarrow> ctx_at h' hd0 fs p = ctx_at h hd0 fs p"
proof (induction fs arbitrary: p rule: caddrs.induct)
  case (2 a c x d s fs)
  have "ctx_at h' hd0 fs (Some a) = ctx_at h hd0 fs (Some a)" by (rule 2(1)) (use 2(2) in auto)
  moreover have "tree_at h' s = tree_at h s" using 2(2) by (intro tree_at_cong) simp
  ultimately show ?case using 2(2) [of a] by simp
qed simp

lemma tree_at_upd [simp]: "a \<notin> set (addrs t) \<Longrightarrow> tree_at (h(a := n)) t = tree_at h t"
  by (rule tree_at_cong) auto

lemma ctx_at_upd [simp]:
  "a \<notin> set (caddrs fs) \<Longrightarrow> a \<noteq> hd0 \<Longrightarrow> ctx_at (h(a := n)) hd0 fs p = ctx_at h hd0 fs p"
  by (rule ctx_at_cong) auto

lemma caddrs_append: "caddrs (as @ bs) = caddrs as @ caddrs bs"
  by (induction as rule: caddrs.induct) simp_all

lemma addrs_plug: "set (addrs (plug fs t)) = set (caddrs fs) \<union> set (addrs t)"
  by (induction fs t rule: plug.induct) auto

text \<open>The head node is above the plugged tree.\<close>

lemma holds_plug: "holds h hd0 fs t \<longleftrightarrow> holds h hd0 [] (plug fs t)"
proof (induction fs t rule: plug.induct)
  case (2 a c x d s fs t)
  have "holds h hd0 (Fr a c x d s # fs) t = holds h hd0 fs (nd d a c x s t)"
    by (auto simp: holds_def)
  then show ?case using 2 by simp
qed simp

text \<open>The link to the hole can be replaced.\<close>

lemma link_simps [simp]:
  "h a = Some n \<Longrightarrow> link_of h (Some a) d = Some (rb_link n d)"
  "h a = Some n \<Longrightarrow> set_link h (Some a) d p = Some (h(a \<mapsto> n\<lparr>rb_link := (rb_link n)(d := p)\<rparr>))"
  "h a = Some n \<Longrightarrow> set_red h (Some a) c = Some (h(a \<mapsto> n\<lparr>rb_red := c\<rparr>))"
  "is_red h None = Some False"
  "h a = Some n \<Longrightarrow> is_red h (Some a) = Some (rb_red n)"
  by (simp_all add: link_of_def set_link_def set_red_def is_red_def)

lemma andalso_simps [simp]:
  "andalso (Some False) b = Some False" "andalso (Some True) b = b"
  by (simp_all add: andalso_def)

fun redr :: "rbt \<Rightarrow> bool" where
  "redr Lf = False"
| "redr (Nd a c x l r) = c"

lemma redr_nd [simp]: "redr (nd d a c x s t) = c"
  by (simp add: nd_def)

lemma is_red_tree [simp]: "tree_at h t \<Longrightarrow> is_red h (rootp t) = Some (redr t)"
  by (cases t) auto

text \<open>Two heaps have the same nodes and agree outside a set of addresses.\<close>

definition same_but :: "addr set \<Rightarrow> rb_heap \<Rightarrow> rb_heap \<Rightarrow> bool" where
  "same_but A h h' \<longleftrightarrow> dom h' = dom h \<and> (\<forall>a. a \<notin> A \<longrightarrow> h' a = h a)"

lemma same_but_trees: "same_but A h h' \<Longrightarrow> set (addrs t) \<inter> A = {} \<Longrightarrow> tree_at h' t = tree_at h t"
  by (rule tree_at_cong) (auto simp: same_but_def)

lemma same_but_ctx:
  "same_but A h h' \<Longrightarrow> insert hd0 (set (caddrs fs)) \<inter> A = {} \<Longrightarrow> ctx_at h' hd0 fs p = ctx_at h hd0 fs p"
  by (rule ctx_at_cong) (auto simp: same_but_def)

lemma same_but_dom: "same_but A h h' \<Longrightarrow> dom h' = dom h"
  by (simp add: same_but_def)

lemma set_hole:
  assumes "ctx_at h hd0 fs p" "distinct (hd0 # caddrs fs)"
  obtains h' where "set_link h (Some (par hd0 fs)) (side fs) p' = Some h'"
    "ctx_at h' hd0 fs p'" "same_but {par hd0 fs} h h'"
proof (cases "(hd0, fs)" rule: par.cases)
  case (1 hd1)
  then show ?thesis using assms that by (auto simp: rb_head_def same_but_def)
next
  case (2 hd1 a c x d s fs1)
  then show ?thesis using assms that by (cases d) (auto simp: same_but_def)
qed

lemma hole_side:
  assumes "ctx_at h hd0 fs (Some a)" "a \<notin> set (caddrs fs)"
  obtains q where "link_of h (Some (par hd0 fs)) True = Some q" "(q = Some a) = side fs"
proof (cases "(hd0, fs)" rule: par.cases)
  case (1 hd1)
  then show ?thesis using assms that by (auto simp: rb_head_def)
next
  case (2 hd1 b c x d s fs1)
  have "rootp s \<noteq> Some a" using 2 assms(2) rootp_in [of s a] by auto
  then show ?thesis using 2 assms that by (cases d) auto
qed

lemma ctx_par: "ctx_at h hd0 fs p \<Longrightarrow> \<exists>n. h (par hd0 fs) = Some n \<and> rb_link n (side fs) = p"
  by (cases "(hd0, fs)" rule: par.cases) (auto simp: rb_head_def)

section \<open>Rotations\<close>

lemma single_tree:
  assumes "tree_at h (nd d g cg x sg (nd d p cp y sp t))"
    and "distinct (addrs (nd d g cg x sg (nd d p cp y sp t)))"
  obtains h' where "jsw_single h (Some g) (\<not> d) = Some (h', Some p)"
    "tree_at h' (nd d p False y (nd d g True x sg sp) t)" "same_but {g, p} h h'"
  using assms that by (cases d) (auto simp: jsw_single_def same_but_def)

lemma double_tree:
  assumes "tree_at h (nd d g cg x sg (nd (\<not> d) p cp y sp (nd d q cq z qn qd)))"
    and "distinct (addrs (nd d g cg x sg (nd (\<not> d) p cp y sp (nd d q cq z qn qd))))"
  obtains h' where "jsw_double h (Some g) (\<not> d) = Some (h', Some q)"
    "tree_at h' (nd d q False z (nd d g True x sg qn) (nd (\<not> d) p True y sp qd))" "same_but {g, p, q} h h'"
  using assms that by (cases d) (auto simp: jsw_double_def jsw_single_def same_but_def)

text \<open>A subtree replaced by one with the same nodes: the link that holds it is found and set.\<close>

lemma replace_subtree:
  assumes H: "holds h hd0 fs t" and g: "rootp t = Some g"
    and n: "tree_at h1 n" "rootp n = Some q" "distinct (addrs n)" "set (addrs n) = set (addrs t)"
    and B: "same_but A h h1" "A \<subseteq> set (addrs t)"
  obtains tr h2 where "link_of h (Some (par hd0 fs)) True = Some tr"
    "set_link h1 (Some (par hd0 fs)) (tr = Some g) (Some q) = Some h2" "holds h2 hd0 fs n"
    "link_of h2 (Some (par hd0 fs)) (tr = Some g) = Some (Some q)" "(tr = Some g) = side fs"
proof -
  have C: "ctx_at h hd0 fs (Some g)" "g \<notin> set (caddrs fs)" "distinct (hd0 # caddrs fs)"
    and out: "insert hd0 (set (caddrs fs)) \<inter> set (addrs t) = {}"
    using H g rootp_in [OF g] by (auto simp: holds_def)
  obtain tr where tr: "link_of h (Some (par hd0 fs)) True = Some tr" "(tr = Some g) = side fs"
    using hole_side [OF C(1,2)] .
  have "insert hd0 (set (caddrs fs)) \<inter> A = {}" using out B(2) by blast
  then have "ctx_at h1 hd0 fs (Some g)" using C(1) same_but_ctx [OF B(1)] by blast
  then obtain h2 where h2: "set_link h1 (Some (par hd0 fs)) (side fs) (Some q) = Some h2"
    "ctx_at h2 hd0 fs (Some q)" "same_but {par hd0 fs} h1 h2" by (rule set_hole [OF _ C(3)])
  have "par hd0 fs \<notin> set (addrs n)" using out n(4) par_side [of hd0 fs] by blast
  then have "tree_at h2 n" using n(1) same_but_trees [OF h2(3)] by blast
  moreover have "dom h2 = dom h" using h2(3) B(1) same_but_dom by metis
  ultimately have "holds h2 hd0 fs n" using h2(2) H n(2,3,4) unfolding holds_def by simp
  moreover obtain m where "h2 (par hd0 fs) = Some m" "rb_link m (side fs) = Some q"
    using ctx_par [OF h2(2)] by blast
  ultimately show ?thesis using that tr h2(1) by simp
qed

section \<open>The red-black invariant\<close>

fun bh :: "rbt \<Rightarrow> nat" where
  "bh Lf = 0"
| "bh (Nd a c x l r) = (if c then bh l else Suc (bh l))"

fun rbt_ok :: "rbt \<Rightarrow> bool" where
  "rbt_ok Lf = True"
| "rbt_ok (Nd a c x l r) \<longleftrightarrow> (c \<longrightarrow> \<not> redr l \<and> \<not> redr r) \<and> bh l = bh r \<and> rbt_ok l \<and> rbt_ok r"

text \<open>A context accepts a subtree of black height \<open>n\<close> that is red or not.\<close>

fun okc :: "frame list \<Rightarrow> nat \<Rightarrow> bool \<Rightarrow> bool" where
  "okc [] n r = True"
| "okc (Fr a c x d s # fs) n r \<longleftrightarrow>
     rbt_ok s \<and> bh s = n \<and> (c \<longrightarrow> \<not> r \<and> \<not> redr s) \<and> okc fs (if c then n else Suc n) c"

lemma nd_inv [simp]:
  "bh (nd d a c x s t) = (if c then bh (if d then s else t) else Suc (bh (if d then s else t)))"
  "rbt_ok (nd d a c x s t) \<longleftrightarrow> (c \<longrightarrow> \<not> redr s \<and> \<not> redr t) \<and> bh s = bh t \<and> rbt_ok s \<and> rbt_ok t"
  by (auto simp: nd_def)

lemma okc_plug: "okc fs (bh t) (redr t) \<Longrightarrow> rbt_ok t \<Longrightarrow> rbt_ok (plug fs t)"
proof (induction fs t rule: plug.induct)
  case (2 a c x d s fs t)
  have "rbt_ok (nd d a c x s t)" "okc fs (bh (nd d a c x s t)) (redr (nd d a c x s t))"
    using 2(2,3) by (auto split: if_splits)
  then show ?case using 2(1) by simp
qed simp

lemma okc_black: "okc fs n True \<Longrightarrow> okc fs n False"
  by (cases "(fs, n, True)" rule: okc.cases) auto

lemma bh_0: "rbt_ok t \<Longrightarrow> bh t = 0 \<Longrightarrow> \<not> redr t \<Longrightarrow> t = Lf"
  by (cases t) auto

section \<open>The values in order\<close>

text \<open>The nodes in order, with their values; those before and after the hole of a context.\<close>

fun ino :: "rbt \<Rightarrow> (addr \<times> ptr) list" where
  "ino Lf = []"
| "ino (Nd a c x l r) = ino l @ (a, x) # ino r"

fun lefts :: "frame list \<Rightarrow> (addr \<times> ptr) list" where
  "lefts [] = []"
| "lefts (Fr a c x d s # fs) = lefts fs @ (if d then ino s @ [(a, x)] else [])"

fun rights :: "frame list \<Rightarrow> (addr \<times> ptr) list" where
  "rights [] = []"
| "rights (Fr a c x d s # fs) = (if d then [] else (a, x) # ino s) @ rights fs"

lemma ino_nd: "ino (nd d a c x s t) = (if d then ino s @ (a, x) # ino t else ino t @ (a, x) # ino s)"
  by (simp add: nd_def)

lemma ino_plug: "ino (plug fs t) = lefts fs @ ino t @ rights fs"
  by (induction fs t rule: plug.induct) (simp_all add: ino_nd)

lemma set_ino: "fst ` set (ino t) = set (addrs t)"
  by (induction t) auto

lemma tree_data: "tree_at h t \<Longrightarrow> (a, x) \<in> set (ino t) \<Longrightarrow> \<exists>n. h a = Some n \<and> rb_data n = x"
  by (induction t) auto

text \<open>The nodes of a subtree and its context, in order.\<close>

definition contents :: "frame list \<Rightarrow> rbt \<Rightarrow> (addr \<times> ptr) list" where
  "contents fs t = lefts fs @ ino t @ rights fs"

lemma holds_data: "holds h hd0 fs t \<Longrightarrow> (a, x) \<in> set (contents fs t) \<Longrightarrow> \<exists>n. h a = Some n \<and> rb_data n = x"
  using holds_plug [of h hd0 fs t] tree_data [of h "plug fs t" a x]
  by (simp add: ino_plug contents_def holds_def)

lemma holds_dom: "holds h hd0 fs t \<Longrightarrow> dom h = insert hd0 (fst ` set (contents fs t))"
  using holds_plug [of h hd0 fs t] set_ino [of "plug fs t"]
  by (simp add: ino_plug contents_def holds_def)

text \<open>The order of the values: \<open>cmp\<close> compares the keys of two values.\<close>

locale rb_order =
  fixes cmp :: cmp_f and key :: "ptr \<Rightarrow> 'k::linorder"
  assumes cmp_eq: "cmp a b = 0 \<longleftrightarrow> key a = key b"
    and cmp_less: "cmp a b < 0 \<longleftrightarrow> key a < key b"

definition keys_sorted :: "(ptr \<Rightarrow> 'k::linorder) \<Rightarrow> (addr \<times> ptr) list \<Rightarrow> bool" where
  "keys_sorted key xs \<longleftrightarrow> sorted_wrt (\<lambda>p q. key (snd p) < key (snd q)) xs"

lemma keys_sorted_append:
  "keys_sorted key (xs @ ys) \<longleftrightarrow>
     keys_sorted key xs \<and> keys_sorted key ys \<and> (\<forall>p\<in>set xs. \<forall>q\<in>set ys. key (snd p) < key (snd q))"
  by (simp add: keys_sorted_def sorted_wrt_append)

lemma keys_sorted_mem:
  "keys_sorted key zs \<Longrightarrow> zs = xs @ ys \<Longrightarrow> p \<in> set xs \<Longrightarrow> q \<in> set ys \<Longrightarrow> key (snd p) < key (snd q)"
  by (simp add: keys_sorted_append)

lemma keys_sorted_simps [simp]:
  "keys_sorted key []"
  "keys_sorted key (p # xs) \<longleftrightarrow> (\<forall>q\<in>set xs. key (snd p) < key (snd q)) \<and> keys_sorted key xs"
  by (auto simp: keys_sorted_def)

text \<open>All values before the hole are smaller than \<open>k\<close> and all after it are greater.\<close>

definition around :: "(ptr \<Rightarrow> 'k::linorder) \<Rightarrow> 'k \<Rightarrow> frame list \<Rightarrow> bool" where
  "around key k fs \<longleftrightarrow> (\<forall>p\<in>set (lefts fs). key (snd p) < k) \<and> (\<forall>p\<in>set (rights fs). k < key (snd p))"

text \<open>The tree of a heap: exactly its nodes, red-black, black at the root and sorted.\<close>

definition rb_inv :: "(ptr \<Rightarrow> 'k::linorder) \<Rightarrow> rb_tree \<Rightarrow> rbt \<Rightarrow> bool" where
  "rb_inv key t T \<longleftrightarrow>
     rb_root t = rootp T \<and> tree_at (rb_heap t) T \<and> distinct (addrs T) \<and> dom (rb_heap t) = set (addrs T) \<and>
     rbt_ok T \<and> \<not> redr T \<and> keys_sorted key (ino T)"

text \<open>The values of a tree in order.\<close>

definition vals :: "rbt \<Rightarrow> ptr list" where
  "vals T = map snd (ino T)"

lemma rb_inv_new: "rb_inv key jsw_rbnew Lf"
  by (simp add: rb_inv_def jsw_rbnew_def)

section \<open>Search\<close>

context rb_order
begin

text \<open>Descending from a node keeps the bounds of the context.\<close>

lemma around_step:
  assumes "around key (key v) fs" "keys_sorted key (lefts fs @ ino (Nd a c x l r) @ rights fs)"
    and "cmp x v \<noteq> 0" "d = (cmp x v < 0)"
  shows "around key (key v) (Fr a c' x d (if d then l else r) # fs)"
proof (cases "key x < key v")
  case True
  have "\<forall>p\<in>set (ino l). key (snd p) < key x" using assms(2) by (simp add: keys_sorted_append)
  then have "\<forall>p\<in>set (ino l). key (snd p) < key v" using True less_trans by blast
  then show ?thesis using True assms(1,4) by (auto simp: around_def cmp_less)
next
  case False
  then have "key v < key x" using assms(3) cmp_eq [of x v] by simp
  moreover have "\<forall>p\<in>set (ino r). key x < key (snd p)" using assms(2) by (simp add: keys_sorted_append)
  ultimately have "\<forall>p\<in>set (ino r). key v < key (snd p)" using less_trans by blast
  then show ?thesis using False \<open>key v < key x\<close> assms(1,4) by (auto simp: around_def cmp_less)
qed

lemma find_tree:
  "tree_at h t \<Longrightarrow> keys_sorted key (ino t) \<Longrightarrow>
   find_loop cmp h v (rootp t) = Some (case filter (\<lambda>p. key (snd p) = key v) (ino t) of [] \<Rightarrow> None | p # _ \<Rightarrow> snd p)"
proof (induction t)
  case Lf
  then show ?case by (simp add: find_loop.simps)
next
  case (Nd a c x l r)
  consider "key x = key v" | "key x < key v" | "key v < key x" by fastforce
  then show ?case
  proof cases
    case 1
    have "filter (\<lambda>p. key (snd p) = key v) (ino l) = []"
      using Nd.prems(2) 1 by (auto simp: filter_empty_conv keys_sorted_append)
    then show ?thesis using Nd.prems 1 by (simp add: find_loop.simps cmp_eq)
  next
    case 2
    have "filter (\<lambda>p. key (snd p) = key v) (ino l) = []"
      using Nd.prems(2) 2 by (fastforce simp: filter_empty_conv keys_sorted_append)
    then show ?thesis using Nd 2 by (simp add: find_loop.simps [of _ _ _ "Some a"] cmp_eq cmp_less keys_sorted_append)
  next
    case 3
    have "filter (\<lambda>p. key (snd p) = key v) (ino r) = []"
      using Nd.prems(2) 3 by (fastforce simp: filter_empty_conv keys_sorted_append)
    moreover have "\<not> key x < key v" "key x \<noteq> key v" using 3 by auto
    ultimately show ?thesis using Nd
      by (simp add: find_loop.simps [of _ _ _ "Some a"] cmp_eq cmp_less keys_sorted_append)
  qed
qed

end

end
