(* ===== verification/RbInsert.thy ===== *)
theory RbInsert
  imports RbTree
begin

text \<open>
  Insertion into the red-black tree of theory \<open>RbTree\<close>. The walk down is followed through the
  subtree below \<open>q\<close> and the context above it. After a rotation the pointers \<open>t\<close> and \<open>g\<close> of the
  code lag behind the path; the nodes visited until they are right again need no repair.
\<close>

section \<open>The pointers of the walk\<close>

fun pp :: "frame list \<Rightarrow> ptr" where
  "pp [] = None"
| "pp (Fr a c x d s # fs) = Some a"

lemma pp_par: "fs \<noteq> [] \<Longrightarrow> pp fs = Some (par hd0 fs)"
  by (cases "(hd0, fs)" rule: par.cases) auto

lemma is_red_pp: "ctx_at h hd0 fs p \<Longrightarrow> is_red h (pp fs) = Some (predr fs)"
  by (cases "(hd0, fs)" rule: par.cases) auto

section \<open>One visit\<close>

text \<open>A place where the visit makes a red node: an empty one, or a node with two red children.\<close>

fun hot :: "rbt \<Rightarrow> bool" where
  "hot Lf = True"
| "hot (Nd a c x l r) \<longleftrightarrow> redr l \<and> redr r"

lemma visit_new:
  assumes "holds h hd0 fs Lf" "fs \<noteq> []" "h a = None"
  obtains h' where "ins_visit dup v h (pp fs) None (side fs) (a # as) = Some (h', Some a, as)"
    "holds h' hd0 fs (Nd a True (dup v) Lf Lf)"
proof -
  let ?h = "h(a \<mapsto> \<lparr>rb_red = True, rb_data = dup v, rb_link = lk None None\<rparr>)"
  have out: "a \<notin> insert hd0 (set (caddrs fs))" using assms by (auto simp: holds_def)
  then have "ctx_at ?h hd0 fs None" "distinct (hd0 # caddrs fs)" using assms by (auto simp: holds_def)
  then obtain h' where h': "set_link ?h (Some (par hd0 fs)) (side fs) (Some a) = Some h'"
    "ctx_at h' hd0 fs (Some a)" "same_but {par hd0 fs} ?h h'" by (rule set_hole)
  have "par hd0 fs \<noteq> a" using out par_side [of hd0 fs] by auto
  then have "h' a = ?h a" using h'(3) by (simp add: same_but_def)
  then have "holds h' hd0 fs (Nd a True (dup v) Lf Lf)"
    using h'(2) same_but_dom [OF h'(3)] assms(1) out by (auto simp: holds_def)
  then show ?thesis using that h'(1) pp_par [OF assms(2)] by (simp add: ins_visit_def new_node_def)
qed

lemma visit_fail:
  assumes "holds h hd0 fs Lf" "fs \<noteq> []"
  obtains h' where "ins_visit dup v h (pp fs) None (side fs) [] = Some (h', None, [])"
    "holds h' hd0 fs Lf"
proof -
  have "ctx_at h hd0 fs None" "distinct (hd0 # caddrs fs)" using assms by (auto simp: holds_def)
  then obtain h' where h': "set_link h (Some (par hd0 fs)) (side fs) None = Some h'"
    "ctx_at h' hd0 fs None" "same_but {par hd0 fs} h h'" by (rule set_hole)
  have "holds h' hd0 fs Lf" using h'(2) same_but_dom [OF h'(3)] assms(1) by (simp add: holds_def)
  then show ?thesis using that h'(1) pp_par [OF assms(2)] by (simp add: ins_visit_def new_node_def)
qed

lemma visit_cool:
  assumes "holds h hd0 fs t" "\<not> hot t"
  shows "ins_visit dup v h p (rootp t) dir news = Some (h, rootp t, news)"
proof -
  obtain a c x l r where t: "t = Nd a c x l r" using assms(2) by (cases t) auto
  have "tree_at h l" "tree_at h r" using assms(1) t by (auto simp: holds_def)
  then show ?thesis using assms t by (auto simp: ins_visit_def holds_def andalso_def)
qed

lemma visit_flip:
  assumes "holds h hd0 fs (Nd q c x (Nd a True y l1 l2) (Nd b True z r1 r2))"
  obtains h' where "ins_visit dup v h p (Some q) dir news = Some (h', Some q, news)"
    "holds h' hd0 fs (Nd q True x (Nd a False y l1 l2) (Nd b False z r1 r2))"
  using assms that by (auto simp: ins_visit_def holds_def)

section \<open>The repair\<close>

lemma fix_none:
  assumes "ctx_at h hd0 fs' p'" "tree_at h t" "\<not> (redr t \<and> predr fs')"
  shows "ins_fix h tp g (pp fs') (rootp t) lst = Some h"
  using assms is_red_pp [OF assms(1)] by (auto simp: ins_fix_def andalso_def)

lemma holds_two:
  "holds h hd0 (Fr p cp y d sp # Fr g cg x e sg # rest) t \<longleftrightarrow> holds h hd0 rest (nd e g cg x sg (nd d p cp y sp t))"
  using holds_plug [of h hd0 "Fr p cp y d sp # Fr g cg x e sg # rest" t]
    holds_plug [of h hd0 rest "nd e g cg x sg (nd d p cp y sp t)"] by simp

lemma fix_single:
  assumes H: "holds h hd0 (Fr p True y d sp # Fr g cg x d sg # rest) t" "rootp t = Some q" "redr t"
  obtains h' where "ins_fix h (Some (par hd0 rest)) (Some g) (Some p) (Some q) d = Some h'"
    "holds h' hd0 (Fr p False y d (nd d g True x sg sp) # rest) t"
proof -
  let ?o = "nd d g cg x sg (nd d p True y sp t)" and ?n = "nd d p False y (nd d g True x sg sp) t"
  have H2: "holds h hd0 rest ?o" using H by (simp add: holds_two)
  then have t: "tree_at h ?o" "distinct (addrs ?o)" by (simp_all only: holds_def distinct_append) auto
  obtain h1 where h1: "jsw_single h (Some g) (\<not> d) = Some (h1, Some p)" "tree_at h1 ?n" "same_but {g, p} h h1"
    using single_tree [OF t] .
  have n: "distinct (addrs ?n)" "set (addrs ?n) = set (addrs ?o)" using t(2) by auto
  obtain tr h2 where h2: "link_of h (Some (par hd0 rest)) True = Some tr"
    "set_link h1 (Some (par hd0 rest)) (tr = Some g) (Some p) = Some h2" "holds h2 hd0 rest ?n"
    by (rule replace_subtree [where g = g and q = p, OF H2 _ h1(2) _ n h1(3)]) simp_all
  have "holds h2 hd0 (Fr p False y d (nd d g True x sg sp) # rest) t"
    using h2(3) holds_plug [of h2 hd0 rest ?n] holds_plug [of h2 hd0 "Fr p False y d (nd d g True x sg sp) # rest" t]
    by simp
  moreover have "is_red h (Some q) = Some True" "is_red h (Some p) = Some True" "link_of h (Some p) d = Some (Some q)"
    using t(1) H(2,3) is_red_tree [of h t] by auto
  ultimately show ?thesis using that h1(1) h2(1,2) by (simp add: ins_fix_def)
qed

lemma fix_double:
  assumes H: "holds h hd0 (Fr p True y (\<not> d) sp # Fr g cg x d sg # rest) (nd d q True z qn qd)"
  obtains h' where "ins_fix h (Some (par hd0 rest)) (Some g) (Some p) (Some q) d = Some h'"
    "holds h' hd0 rest (nd d q False z (nd d g True x sg qn) (nd (\<not> d) p True y sp qd))"
proof -
  let ?t = "nd d q True z qn qd"
  let ?o = "nd d g cg x sg (nd (\<not> d) p True y sp ?t)"
  let ?n = "nd d q False z (nd d g True x sg qn) (nd (\<not> d) p True y sp qd)"
  have H2: "holds h hd0 rest ?o" using H by (simp add: holds_two)
  then have t: "tree_at h ?o" "distinct (addrs ?o)" by (simp_all only: holds_def distinct_append) auto
  obtain h1 where h1: "jsw_double h (Some g) (\<not> d) = Some (h1, Some q)" "tree_at h1 ?n" "same_but {g, p, q} h h1"
    using double_tree [OF t] .
  have n: "distinct (addrs ?n)" "set (addrs ?n) = set (addrs ?o)" using t(2) by auto
  obtain tr h2 where h2: "link_of h (Some (par hd0 rest)) True = Some tr"
    "set_link h1 (Some (par hd0 rest)) (tr = Some g) (Some q) = Some h2" "holds h2 hd0 rest ?n"
    by (rule replace_subtree [where g = g and q = q, OF H2 _ h1(2) _ n h1(3)]) simp_all
  have "rootp sp \<noteq> Some q" using t(2) rootp_in [of sp q] by auto
  moreover have "is_red h (Some q) = Some True" "is_red h (Some p) = Some True" "link_of h (Some p) d = Some (rootp sp)"
    using t(1) by auto
  ultimately show ?thesis using that h1(1) h2 by (simp add: ins_fix_def)
qed

section \<open>The walk\<close>

text \<open>What the list of values becomes when \<open>v\<close> is inserted, and what is reported.\<close>

definition ins_result ::
  "(ptr \<Rightarrow> 'k::linorder) \<Rightarrow> dup_f \<Rightarrow> ptr \<Rightarrow> addr list \<Rightarrow> (addr \<times> ptr) list \<Rightarrow> (addr \<times> ptr) list \<Rightarrow> bool \<Rightarrow> bool" where
  "ins_result key dup v news xs ys ok \<longleftrightarrow>
     (if \<exists>p\<in>set xs. key (snd p) = key v then ok \<and> ys = xs
      else case news of
        [] \<Rightarrow> \<not> ok \<and> ys = xs
      | a # _ \<Rightarrow> ok \<and> (\<exists>l r. xs = l @ r \<and> ys = l @ (a, dup v) # r \<and>
          (\<forall>p\<in>set l. key (snd p) < key v) \<and> (\<forall>p\<in>set r. key v < key (snd p))))"

definition walk :: "(ptr \<Rightarrow> 'k::linorder) \<Rightarrow> ptr \<Rightarrow> rb_heap \<Rightarrow> addr \<Rightarrow> frame list \<Rightarrow> rbt \<Rightarrow> bool" where
  "walk key v h hd0 fs t \<longleftrightarrow>
     holds h hd0 fs t \<and> okc fs (bh t) (redr t) \<and> rbt_ok t \<and> around key (key v) fs \<and>
     keys_sorted key (contents fs t)"

text \<open>The walk has ended well: the heap holds a valid tree with the values expected.\<close>

definition ins_ok ::
  "(ptr \<Rightarrow> 'k::linorder) \<Rightarrow> dup_f \<Rightarrow> ptr \<Rightarrow> addr list \<Rightarrow> addr \<Rightarrow> (addr \<times> ptr) list \<Rightarrow> (rb_heap \<times> bool) option \<Rightarrow> bool" where
  "ins_ok key dup v news hd0 xs res \<longleftrightarrow>
     (\<exists>h T ok. res = Some (h, ok) \<and> holds h hd0 [] T \<and> rbt_ok T \<and> ins_result key dup v news xs (ino T) ok)"

locale rb_values = rb_order cmp key for cmp :: cmp_f and key :: "ptr \<Rightarrow> 'k::linorder" +
  fixes dup :: dup_f and v :: ptr
  assumes key_dup: "key (dup v) = key v"
begin

lemma walk_end:
  assumes "walk key v h hd0 fs t"
  shows "holds h hd0 [] (plug fs t)" "rbt_ok (plug fs t)" "ino (plug fs t) = contents fs t"
  using assms holds_plug okc_plug ino_plug unfolding walk_def contents_def by blast+

lemma walk_stop:
  assumes "walk key v h hd0 fs (Nd q c x l r)" "cmp x v = 0"
  shows "ins_ok key dup v news hd0 (contents fs (Nd q c x l r)) (Some (h, True))"
proof -
  have "\<exists>p\<in>set (contents fs (Nd q c x l r)). key (snd p) = key v"
    using assms(2) by (simp add: contents_def cmp_eq)
  then show ?thesis using walk_end [OF assms(1)] unfolding ins_ok_def ins_result_def by auto
qed

lemma walk_down:
  assumes "walk key v h hd0 fs (Nd q c x l r)" "cmp x v \<noteq> 0" "d = (cmp x v < 0)"
  shows "walk key v h hd0 (Fr q c x d (if d then l else r) # fs) (if d then r else l)"
    "contents (Fr q c x d (if d then l else r) # fs) (if d then r else l) = contents fs (Nd q c x l r)"
proof -
  let ?fs = "Fr q c x d (if d then l else r) # fs" and ?t = "if d then r else l"
  have nd: "nd d q c x (if d then l else r) ?t = Nd q c x l r" by (simp add: nd_def)
  have "holds h hd0 ?fs ?t"
    using assms(1) holds_plug [of h hd0 ?fs ?t] holds_plug [of h hd0 fs "Nd q c x l r"]
    by (simp only: walk_def plug.simps nd)
  moreover show C: "contents ?fs ?t = contents fs (Nd q c x l r)" by (simp add: contents_def)
  moreover have "around key (key v) ?fs"
    using around_step [OF _ _ assms(2,3)] assms(1) unfolding walk_def contents_def by blast
  ultimately show "walk key v h hd0 ?fs ?t"
    using assms(1) unfolding walk_def by (auto split: if_splits)
qed

text \<open>A visit that changes nothing.\<close>

lemma calm_step:
  assumes "holds h hd0 fs (Nd q c x l r)" "\<not> (redr l \<and> redr r)" "\<not> (c \<and> predr fs)"
  shows "ins_loop cmp dup v h tp g (pp fs) (Some q) dir lst news =
    (if cmp x v = 0 then Some (h, True)
     else ins_loop cmp dup v h (if g \<noteq> None then g else tp) (pp fs) (Some q)
            (rootp (if cmp x v < 0 then r else l)) (cmp x v < 0) dir news)"
proof -
  have "ins_visit dup v h (pp fs) (Some q) dir news = Some (h, Some q, news)"
    using visit_cool [OF assms(1)] assms(2) by simp
  moreover have "ins_fix h tp g (pp fs) (Some q) lst = Some h"
    using fix_none [of h hd0 fs "Some q" "Nd q c x l r"] assms(1,3) by (simp add: holds_def)
  moreover have "h q = Some \<lparr>rb_red = c, rb_data = x, rb_link = lk (rootp l) (rootp r)\<rparr>"
    using assms(1) by (simp add: holds_def)
  ultimately show ?thesis by (subst ins_loop.simps) simp
qed

text \<open>The repair above a node that just became red.\<close>

lemma repair:
  assumes H: "holds h hd0 fs t" "rootp t = Some q" "redr t" "rbt_ok t" "okc fs (bh t) False"
      "around key (key v) fs" "keys_sorted key (contents fs t)"
    and up: "predr fs \<longrightarrow> tl fs \<noteq> [] \<and> \<not> redr (sibling (tl fs))"
    and lst: "tl fs \<noteq> [] \<longrightarrow> lst = side (tl fs)"
  obtains (quiet) "ins_fix h (Some (par hd0 (tl (tl fs)))) (pp (tl fs)) (pp fs) (Some q) lst = Some h"
      "walk key v h hd0 fs t" "\<not> predr fs"
  | (single) h' p y d sp g cg x sg rest where
      "fs = Fr p True y d sp # Fr g cg x d sg # rest"
      "ins_fix h (Some (par hd0 (tl (tl fs)))) (pp (tl fs)) (pp fs) (Some q) lst = Some h'"
      "walk key v h' hd0 (Fr p False y d (nd d g True x sg sp) # rest) t"
      "contents (Fr p False y d (nd d g True x sg sp) # rest) t = contents fs t"
  | (double) h' p y d sp g cg x sg rest z qn qd where
      "fs = Fr p True y (\<not> d) sp # Fr g cg x d sg # rest" "t = nd d q True z qn qd"
      "ins_fix h (Some (par hd0 (tl (tl fs)))) (pp (tl fs)) (pp fs) (Some q) lst = Some h'"
      "walk key v h' hd0 rest (nd d q False z (nd d g True x sg qn) (nd (\<not> d) p True y sp qd))"
      "contents rest (nd d q False z (nd d g True x sg qn) (nd (\<not> d) p True y sp qd)) = contents fs t"
proof (cases "predr fs")
  case False
  then have "okc fs (bh t) (redr t)" using H(5) by (cases fs rule: predr.cases) auto
  then have "walk key v h hd0 fs t" using H by (simp add: walk_def)
  moreover have "ins_fix h (Some (par hd0 (tl (tl fs)))) (pp (tl fs)) (pp fs) (rootp t) lst = Some h"
    using fix_none False H(1) unfolding holds_def by blast
  ultimately show ?thesis using quiet False H(2) by simp
next
  case True
  then obtain p y d' sp gs where fs: "fs = Fr p True y d' sp # gs" by (cases fs rule: predr.cases) auto
  then obtain g cg x d sg rest where gs: "gs = Fr g cg x d sg # rest" "\<not> redr sg"
    using up True by (cases gs rule: predr.cases) auto
  have l: "lst = d" using lst fs gs by simp
  have k: "\<not> cg" "\<not> redr sp" "rbt_ok sp" "rbt_ok sg" "bh sp = bh t" "bh sg = bh t" "okc rest (Suc (bh t)) False"
    using H(5) fs gs by auto
  show ?thesis
  proof (cases "d' = d")
    case d: True
    let ?fs = "Fr p False y d (nd d g True x sg sp) # rest"
    obtain h' where h': "ins_fix h (Some (par hd0 rest)) (Some g) (Some p) (Some q) d = Some h'" "holds h' hd0 ?fs t"
      using fix_single H(1,2,3) fs gs d by blast
    have C: "contents ?fs t = contents fs t" using fs gs d by (simp add: contents_def ino_nd)
    have "lefts ?fs = lefts fs" "rights ?fs = rights fs" using fs gs d by (simp_all add: ino_nd)
    then have "around key (key v) ?fs" using H(6) by (simp only: around_def)
    moreover have "okc ?fs (bh t) (redr t)" using k gs(2) by simp
    ultimately have "walk key v h' hd0 ?fs t" using h'(2) C H(4,7) by (simp only: walk_def)
    then show ?thesis using single [of p y d sp g cg x sg rest h'] h'(1) C fs gs d l by simp
  next
    case False
    then have d: "d' = (\<not> d)" by simp
    obtain z qn qd where t: "t = nd d q True z qn qd"
      using H(2,3) by (cases t; cases d) (auto simp: nd_def)
    let ?t = "nd d q False z (nd d g True x sg qn) (nd (\<not> d) p True y sp qd)"
    obtain h' where h': "ins_fix h (Some (par hd0 rest)) (Some g) (Some p) (Some q) d = Some h'" "holds h' hd0 rest ?t"
      using fix_double H(1) t fs gs d by blast
    have C: "contents rest ?t = contents fs t" using fs gs d t by (simp add: contents_def ino_nd)
    have "around key (key v) rest" using H(6) fs gs by (auto simp: around_def)
    moreover have "rbt_ok ?t" "bh ?t = Suc (bh t)" "redr ?t = False" using k gs(2) t H(4) by auto
    ultimately have "walk key v h' hd0 rest ?t" using h'(2) k(7) C H(7) by (simp only: walk_def)
    then show ?thesis using double [of p y d sp g cg x sg rest z qn qd h'] h'(1) C fs gs d l t by simp
  qed
qed

text \<open>After a rotation \<open>t\<close> and \<open>g\<close> lag behind; the next visit, of a black node with black children, is quiet.\<close>

definition cool :: "rbt \<Rightarrow> bool" where
  "cool t \<longleftrightarrow> (\<exists>b w l r. t = Nd b False w l r \<and> \<not> redr l \<and> \<not> redr r)"

text \<open>The states at the head of the loop in which the pointers agree with the path.\<close>

definition ready :: "frame list \<Rightarrow> rbt \<Rightarrow> bool" where
  "ready fs t \<longleftrightarrow>
     (hot t \<and> predr fs \<longrightarrow> tl fs \<noteq> [] \<and> \<not> redr (sibling (tl fs))) \<and>
     (redr t \<longrightarrow> fs \<noteq> [] \<and> \<not> redr (sibling fs)) \<and> (t = Lf \<longrightarrow> fs \<noteq> [])"

abbreviation run :: "rb_heap \<Rightarrow> addr \<Rightarrow> frame list \<Rightarrow> rbt \<Rightarrow> bool \<Rightarrow> bool \<Rightarrow> addr list \<Rightarrow> (rb_heap \<times> bool) option" where
  "run h hd0 fs t dir lst news \<equiv>
     ins_loop cmp dup v h (Some (par hd0 (tl (tl fs)))) (pp (tl fs)) (pp fs) (rootp t) dir lst news"

lemma next_t: "(if pp gs \<noteq> None then pp gs else Some (par hd0 (tl gs))) = Some (par hd0 gs)"
  by (cases "(hd0, gs)" rule: par.cases) auto

text \<open>Descending from a node with synchronised pointers.\<close>

lemma run_down:
  assumes "holds h hd0 fs (Nd q c x l r)" "\<not> (redr l \<and> redr r)" "\<not> (c \<and> predr fs)" "cmp x v \<noteq> 0"
    and d: "d = (cmp x v < 0)"
  shows "run h hd0 fs (Nd q c x l r) dir lst news =
    run h hd0 (Fr q c x d (if d then l else r) # fs) (if d then r else l) d dir news"
  using calm_step [OF assms(1,2,3), of "Some (par hd0 (tl (tl fs)))" "pp (tl fs)" dir lst news] assms(4) next_t [of "tl fs" hd0]
  by (simp add: d)

text \<open>The visit of a cool node brings the pointers back in step.\<close>

lemma weak_step:
  assumes W: "walk key v h hd0 fs t" and t: "cool t" and g: "tl fs \<noteq> []"
    and IH: "\<And>fs' t' d. size t' < size t \<Longrightarrow> walk key v h hd0 fs' t' \<Longrightarrow> ready fs' t' \<Longrightarrow> d = side fs' \<Longrightarrow>
      contents fs' t' = contents fs t \<Longrightarrow> tl fs' = fs \<Longrightarrow> ins_ok key dup v news hd0 (contents fs t) (run h hd0 fs' t' d dir news)"
  shows "ins_ok key dup v news hd0 (contents fs t) (ins_loop cmp dup v h tp (pp (tl fs)) (pp fs) (rootp t) dir lst news)"
proof -
  obtain b w l r where t: "t = Nd b False w l r" "\<not> redr l" "\<not> redr r" using assms(2) by (auto simp: cool_def)
  have Q: "ins_loop cmp dup v h tp (pp (tl fs)) (pp fs) (Some b) dir lst news =
      (if cmp w v = 0 then Some (h, True)
       else ins_loop cmp dup v h (pp (tl fs)) (pp fs) (Some b) (rootp (if cmp w v < 0 then r else l)) (cmp w v < 0) dir news)"
    using calm_step [of h hd0 fs b False w l r] W t pp_par [OF g, of hd0] unfolding walk_def by simp
  show ?thesis
  proof (cases "cmp w v = 0")
    case True
    then show ?thesis using Q walk_stop W t(1) by simp
  next
    case False
    define d where "d = (cmp w v < 0)"
    let ?fs = "Fr b False w d (if d then l else r) # fs" and ?t = "if d then r else l"
    have D: "walk key v h hd0 ?fs ?t" "contents ?fs ?t = contents fs t"
      using walk_down [OF _ False d_def] W t(1) by simp_all
    have "ready ?fs ?t" using t by (auto simp: ready_def)
    moreover have "size ?t < size t" using t(1) by simp
    ultimately have "ins_ok key dup v news hd0 (contents fs t) (run h hd0 ?fs ?t d dir news)"
      using D by (intro IH) simp_all
    moreover have "pp (tl fs) = Some (par hd0 (tl fs))" using pp_par [OF g] .
    ultimately show ?thesis using Q False t(1) by (simp add: d_def)
  qed
qed

lemma loop_unfold:
  assumes "ins_visit dup v h (pp fs) (Some q) dir news = Some (h1, Some q, news)"
    and "ins_fix h1 tp g (pp fs) (Some q) lst = Some h2" "h2 q = Some n"
  shows "ins_loop cmp dup v h tp g (pp fs) (Some q) dir lst news =
    (if cmp (rb_data n) v = 0 then Some (h2, True)
     else ins_loop cmp dup v h2 (if g \<noteq> None then g else tp) (pp fs) (Some q)
            (rb_link n (cmp (rb_data n) v < 0)) (cmp (rb_data n) v < 0) dir news)"
  using assms by (subst ins_loop.simps) simp

text \<open>After a double rotation the walk first visits a red node it has already passed.\<close>

lemma red_step:
  assumes W: "walk key v h hd0 fs (nd e m True u so t)" and t: "cool t" "\<not> redr so" and fs: "fs \<noteq> []" "\<not> predr fs"
    and e: "cmp u v \<noteq> 0" "(cmp u v < 0) = e"
    and IH: "\<And>fs' t' d. size t' < size t \<Longrightarrow> walk key v h hd0 fs' t' \<Longrightarrow> ready fs' t' \<Longrightarrow> d = side fs' \<Longrightarrow>
      contents fs' t' = contents fs (nd e m True u so t) \<Longrightarrow> tl fs' = Fr m True u e so # fs \<Longrightarrow>
      ins_ok key dup v news hd0 (contents fs (nd e m True u so t)) (run h hd0 fs' t' d e news)"
  shows "ins_ok key dup v news hd0 (contents fs (nd e m True u so t))
    (ins_loop cmp dup v h tp g (pp fs) (Some m) dir lst news)"
proof -
  let ?l = "if e then so else t" and ?r = "if e then t else so" and ?fs = "Fr m True u e so # fs"
  have nd: "nd e m True u so t = Nd m True u ?l ?r" by (simp add: nd_def)
  have black: "\<not> redr t" using t(1) by (auto simp: cool_def)
  have "holds h hd0 fs (Nd m True u ?l ?r)" using W nd by (simp add: walk_def)
  from calm_step [OF this, of tp g dir lst news]
  have Q: "ins_loop cmp dup v h tp g (pp fs) (Some m) dir lst news =
      ins_loop cmp dup v h (if g \<noteq> None then g else tp) (pp fs) (Some m) (rootp t) e dir news"
    using t(2) black fs(2) e by auto
  have "walk key v h hd0 (Fr m True u e (if e then ?l else ?r) # fs) (if e then ?r else ?l)"
    "contents (Fr m True u e (if e then ?l else ?r) # fs) (if e then ?r else ?l) = contents fs (nd e m True u so t)"
    using walk_down [OF _ e(1), where d = e] W nd e(2) by simp_all
  then have D: "walk key v h hd0 ?fs t" "contents ?fs t = contents fs (nd e m True u so t)"
    by (auto split: if_splits)
  have "ins_ok key dup v news hd0 (contents ?fs t)
      (ins_loop cmp dup v h (if g \<noteq> None then g else tp) (pp (tl ?fs)) (pp ?fs) (rootp t) e dir news)"
  proof (rule weak_step [OF D(1) t(1)])
    fix fs' t' and d :: bool
    assume "size t' < size t" "walk key v h hd0 fs' t'" "ready fs' t'" "d = side fs'"
      "contents fs' t' = contents ?fs t" "tl fs' = ?fs"
    then show "ins_ok key dup v news hd0 (contents ?fs t) (run h hd0 fs' t' d e news)"
      unfolding D(2) by (rule IH)
  qed (simp add: fs)
  then show ?thesis using Q D(2) by simp
qed

text \<open>A node with two red children: the colours are flipped and the node is repaired, then left.\<close>

lemma flip_ok:
  assumes V: "ins_visit dup v h (pp fs) (Some q) dir news = Some (h1, Some q, news)"
      "holds h1 hd0 fs (Nd q True x A B)" "cool A" "cool B" "rbt_ok (Nd q True x A B)"
      "okc fs (bh (Nd q True x A B)) False" "around key (key v) fs"
      "keys_sorted key (contents fs (Nd q True x A B))"
    and up: "predr fs \<longrightarrow> tl fs \<noteq> [] \<and> \<not> redr (sibling (tl fs))"
    and dir: "fs \<noteq> [] \<longrightarrow> dir = side fs" and lst: "tl fs \<noteq> [] \<longrightarrow> lst = side (tl fs)"
    and IH: "\<And>h' fs' t' dir lst. size t' < size (Nd q True x A B) \<Longrightarrow> walk key v h' hd0 fs' t' \<Longrightarrow> ready fs' t' \<Longrightarrow>
      dir = side fs' \<Longrightarrow> (tl fs' \<noteq> [] \<longrightarrow> lst = side (tl fs')) \<Longrightarrow> contents fs' t' = contents fs (Nd q True x A B) \<Longrightarrow>
      ins_ok key dup v news hd0 (contents fs (Nd q True x A B)) (run h' hd0 fs' t' dir lst news)"
  shows "ins_ok key dup v news hd0 (contents fs (Nd q True x A B)) (run h hd0 fs (Nd q True x A B) dir lst news)"
proof -
  let ?t = "Nd q True x A B"
  have AB: "A \<noteq> Lf" "B \<noteq> Lf" "\<not> redr A" "\<not> redr B" "\<not> hot A" "\<not> hot B"
    using V(3,4) by (auto simp: cool_def)
  have r: "rootp ?t = Some q" "redr ?t" by simp_all
  show ?thesis
  proof (cases rule: repair [OF V(2) r V(5,6,7,8) up lst, case_names quiet single double])
    case quiet
    have q: "h1 q = Some \<lparr>rb_red = True, rb_data = x, rb_link = lk (rootp A) (rootp B)\<rparr>"
      using V(2) by (simp add: holds_def)
    note U = loop_unfold [OF V(1) quiet(1) q]
    show ?thesis
    proof (cases "cmp x v = 0")
      case True
      then show ?thesis using U walk_stop [OF quiet(2)] by simp
    next
      case False
      define d where "d = (cmp x v < 0)"
      let ?fs = "Fr q True x d (if d then A else B) # fs" and ?s = "if d then B else A"
      note D = walk_down [OF quiet(2) False d_def]
      have "ready ?fs ?s" using AB by (auto simp: ready_def)
      then have "ins_ok key dup v news hd0 (contents fs ?t) (run h1 hd0 ?fs ?s d dir news)"
        using dir D by (intro IH) simp_all
      then show ?thesis using U False next_t [of "tl fs" hd0] by (simp add: d_def if_distrib [of rootp])
    qed
  next
    case (single h2 p y d sp g cg w sg rest)
    let ?fs = "Fr p False y d (nd d g True w sg sp) # rest"
    have "h2 q = Some \<lparr>rb_red = True, rb_data = x, rb_link = lk (rootp A) (rootp B)\<rparr>"
      using single(3) by (simp add: walk_def holds_def)
    note U = loop_unfold [OF V(1) single(2) this]
    show ?thesis
    proof (cases "cmp x v = 0")
      case True
      then show ?thesis using U walk_stop [OF single(3)] single(4) by simp
    next
      case False
      define e where "e = (cmp x v < 0)"
      let ?fs3 = "Fr q True x e (if e then A else B) # ?fs" and ?s = "if e then B else A"
      note D = walk_down [OF single(3) False e_def]
      have "cool ?s" using V(3,4) by simp
      then have "ins_ok key dup v news hd0 (contents ?fs3 ?s)
          (ins_loop cmp dup v h2 (Some g) (pp (tl ?fs3)) (pp ?fs3) (rootp ?s) e dir news)"
      proof (rule weak_step [OF D(1)])
        fix fs' t' and d' :: bool
        assume "size t' < size ?s" "walk key v h2 hd0 fs' t'" "ready fs' t'" "d' = side fs'"
          "contents fs' t' = contents ?fs3 ?s" "tl fs' = ?fs3"
        then show "ins_ok key dup v news hd0 (contents ?fs3 ?s) (run h2 hd0 fs' t' d' e news)"
          unfolding D(2) single(4) by (intro IH) (auto split: if_splits)
      qed simp
      then show ?thesis using U False D(2) single(1,4) by (simp add: e_def if_distrib [of rootp])
    qed
  next
    case (double h2 p y d sp g cg w sg rest z qn qd)
    let ?G = "nd d g True w sg qn" and ?P = "nd (\<not> d) p True y sp qd"
    let ?L = "if d then ?G else ?P" and ?R = "if d then ?P else ?G"
    have z: "z = x" "cool qn" "cool qd" "size qn < size ?t" "size qd < size ?t"
      using double(2) V(3,4) by (auto simp: nd_def split: if_splits)
    have top: "nd d q False z ?G ?P = Nd q False x ?L ?R" using z(1) by (simp add: nd_def)
    note W = double(4) [unfolded top] and C = double(5) [unfolded top]
    have "h2 q = Some \<lparr>rb_red = False, rb_data = x, rb_link = lk (rootp ?L) (rootp ?R)\<rparr>"
      using W by (simp only: walk_def holds_def tree_at.simps)
    note U = loop_unfold [OF V(1) double(3) this]
    show ?thesis
    proof (cases "cmp x v = 0")
      case True
      then show ?thesis using U walk_stop [OF W] C by simp
    next
      case False
      define e where "e = (cmp x v < 0)"
      let ?fs = "Fr q False x e (if e then ?L else ?R) # rest"
      note D = walk_down [OF W False e_def]
      have key: "cmp y v \<noteq> 0 \<and> (cmp y v < 0) = (\<not> d)" "cmp w v \<noteq> 0 \<and> (cmp w v < 0) = d"
        using V(7) double(1) unfolding cmp_eq cmp_less
        by (auto simp: around_def ball_Un split: if_splits) (fastforce+)?
      have "ins_ok key dup v news hd0 (contents fs ?t)
          (ins_loop cmp dup v h2 (Some g) (Some p) (pp ?fs) (rootp (if e then ?R else ?L)) e dir news)"
      proof (cases "e = d")
        case True
        have W': "walk key v h2 hd0 ?fs ?P" and C': "contents ?fs ?P = contents fs ?t" using D C True by auto
        have "ins_ok key dup v news hd0 (contents ?fs ?P)
          (ins_loop cmp dup v h2 (Some g) (Some p) (pp ?fs) (Some p) e dir news)"
        proof (rule red_step [OF W' z(3)])
          show "\<not> redr sp" using V(6) double(1) by simp
          fix fs' t' and d' :: bool
          assume "size t' < size qd" "walk key v h2 hd0 fs' t'" "ready fs' t'" "d' = side fs'"
            "contents fs' t' = contents ?fs ?P" "tl fs' = Fr p True y (\<not> d) sp # ?fs"
          then show "ins_ok key dup v news hd0 (contents ?fs ?P) (run h2 hd0 fs' t' d' (\<not> d) news)"
            unfolding C' using z(5) by (intro IH) simp_all
        qed (use key in simp_all)
        then show ?thesis using C' True by (cases d) simp_all
      next
        case False
        have W': "walk key v h2 hd0 ?fs ?G" and C': "contents ?fs ?G = contents fs ?t" using D C False by auto
        have "ins_ok key dup v news hd0 (contents ?fs ?G)
          (ins_loop cmp dup v h2 (Some g) (Some p) (pp ?fs) (Some g) e dir news)"
        proof (rule red_step [OF W' z(2)])
          show "\<not> redr sg" using up double(1) by simp
          fix fs' t' and d' :: bool
          assume "size t' < size qn" "walk key v h2 hd0 fs' t'" "ready fs' t'" "d' = side fs'"
            "contents fs' t' = contents ?fs ?G" "tl fs' = Fr g True w d sg # ?fs"
          then show "ins_ok key dup v news hd0 (contents ?fs ?G) (run h2 hd0 fs' t' d' d news)"
            unfolding C' using z(4) by (intro IH) simp_all
        qed (use key in simp_all)
        then show ?thesis using C' False by (cases d; cases e) simp_all
      qed
      moreover have "pp (tl fs) = Some g" "pp fs = Some p" using double(1) by simp_all
      ultimately show ?thesis using U False by (cases d; cases "cmp x v < 0") (simp_all add: e_def)
    qed
  qed
qed

theorem ins_loop_ok:
  "\<lbrakk>walk key v h hd0 fs t; ready fs t; fs \<noteq> [] \<longrightarrow> dir = side fs; tl fs \<noteq> [] \<longrightarrow> lst = side (tl fs);
    \<forall>a as. news = a # as \<longrightarrow> a \<notin> insert hd0 (fst ` set (contents fs t))\<rbrakk> \<Longrightarrow>
   ins_ok key dup v news hd0 (contents fs t) (run h hd0 fs t dir lst news)"
proof (induction t arbitrary: h fs dir lst rule: measure_induct_rule [of size])
  case (less t)
  note W = less.prems(1)
  have H: "holds h hd0 fs t" "okc fs (bh t) (redr t)" "rbt_ok t" "around key (key v) fs"
      "keys_sorted key (contents fs t)"
    using W unfolding walk_def by blast+
  consider (leaf) "t = Lf" | (quiet) q c x l r where "t = Nd q c x l r" "\<not> (redr l \<and> redr r)"
    | (flip) q c x a y l1 l2 b z r1 r2 where "t = Nd q c x (Nd a True y l1 l2) (Nd b True z r1 r2)"
  proof (cases t)
    case (Nd q c x l r)
    then show ?thesis using that by (cases l; cases r) auto
  qed simp
  then show ?case
  proof cases
    case leaf
    then have fs: "fs \<noteq> []" using less.prems(2) by (simp add: ready_def)
    have absent: "\<not> (\<exists>p\<in>set (contents fs t). key (snd p) = key v)"
      using H(4) leaf by (auto simp: around_def contents_def)
    show ?thesis
    proof (cases news)
      case Nil
      obtain h' where h': "ins_visit dup v h (pp fs) None (side fs) [] = Some (h', None, [])" "holds h' hd0 fs Lf"
        using visit_fail H(1) leaf fs by blast
      have "walk key v h' hd0 fs t" using H h'(2) leaf by (simp add: walk_def)
      then have "ins_ok key dup v news hd0 (contents fs t) (Some (h', False))"
        using walk_end absent Nil unfolding ins_ok_def ins_result_def by fastforce
      moreover have "run h hd0 fs t dir lst news = Some (h', False)"
        using h'(1) leaf Nil less.prems(3) fs by (subst ins_loop.simps) simp
      ultimately show ?thesis by simp
    next
      case (Cons a as)
      let ?t = "Nd a True (dup v) Lf Lf"
      have new: "h a = None" using less.prems(5) Cons holds_dom [OF H(1)] by blast
      obtain h' where h': "ins_visit dup v h (pp fs) None (side fs) news = Some (h', Some a, as)" "holds h' hd0 fs ?t"
        using visit_new [OF H(1) [unfolded leaf] fs] new Cons by blast
      have "keys_sorted key (contents fs ?t)"
        using H(4,5) leaf key_dup by (auto simp: contents_def keys_sorted_append around_def)
      moreover have "okc fs (bh ?t) False" using H(2) leaf by simp
      moreover have "predr fs \<longrightarrow> tl fs \<noteq> [] \<and> \<not> redr (sibling (tl fs))"
        using less.prems(2) leaf by (simp add: ready_def)
      ultimately obtain h2 fs2 t2 where R:
        "ins_fix h' (Some (par hd0 (tl (tl fs)))) (pp (tl fs)) (pp fs) (Some a) lst = Some h2"
        "walk key v h2 hd0 fs2 t2" "contents fs2 t2 = contents fs ?t"
        using repair [OF h'(2), of a lst thesis] H(4) less.prems(4) by simp
      have "ins_result key dup v news (contents fs t) (contents fs ?t) True"
        using absent H(4) leaf Cons by (auto simp: ins_result_def contents_def around_def)
      then have "ins_ok key dup v news hd0 (contents fs t) (Some (h2, True))"
        using walk_end [OF R(2)] R(3) unfolding ins_ok_def by metis
      moreover have "(a, dup v) \<in> set (contents fs2 t2)" using R(3) by (simp add: contents_def)
      then obtain n where "h2 a = Some n" "rb_data n = dup v"
        using holds_data R(2) unfolding walk_def by blast
      ultimately show ?thesis
        using h'(1) R(1) leaf Cons less.prems(3) fs key_dup cmp_eq by (subst ins_loop.simps) simp
    qed
  next
    case quiet
    have Q: "\<not> (c \<and> predr fs)" using H(2) quiet(1) by (cases fs rule: predr.cases) auto
    note hs = H(1) [unfolded quiet(1)]
    show ?thesis
    proof (cases "cmp x v = 0")
      case True
      then show ?thesis
        using walk_stop [OF W [unfolded quiet(1)]] calm_step [OF hs quiet(2) Q] quiet(1) by simp
    next
      case False
      define d where "d = (cmp x v < 0)"
      let ?fs = "Fr q c x d (if d then l else r) # fs" and ?t = "if d then r else l"
      note D = walk_down [OF W [unfolded quiet(1)] False d_def]
      have "ready ?fs ?t" using less.prems(2) quiet by (auto simp: ready_def)
      then have "ins_ok key dup v news hd0 (contents ?fs ?t) (run h hd0 ?fs ?t d dir news)"
        using quiet(1) less.prems(3,5) D by (intro less.IH) auto
      then show ?thesis
        using run_down [OF hs quiet(2) Q False d_def] quiet(1) D(2) by simp
    qed
  next
    case flip
    let ?A = "Nd a False y l1 l2" and ?B = "Nd b False z r1 r2"
    let ?t = "Nd q True x ?A ?B"
    have c: "\<not> c" "cool ?A" "cool ?B" "rbt_ok ?t" "bh ?t = bh t" "contents fs ?t = contents fs t"
      using H(3) flip by (auto simp: cool_def contents_def)
    obtain h1 where h1: "ins_visit dup v h (pp fs) (Some q) dir news = Some (h1, Some q, news)" "holds h1 hd0 fs ?t"
      using visit_flip H(1) flip by metis
    have up: "predr fs \<longrightarrow> tl fs \<noteq> [] \<and> \<not> redr (sibling (tl fs))"
      using less.prems(2) flip by (simp add: ready_def)
    have k: "okc fs (bh ?t) False" "keys_sorted key (contents fs ?t)" using H(2,5) flip c by simp_all
    have IH: "ins_ok key dup v news hd0 (contents fs t) (run h' hd0 fs' t' dir lst news)"
      if "size t' < size ?t" "walk key v h' hd0 fs' t'" "ready fs' t'" "dir = side fs'"
        "tl fs' \<noteq> [] \<longrightarrow> lst = side (tl fs')" "contents fs' t' = contents fs ?t" for h' fs' t' dir lst
      using less.IH [OF _ that(2,3) _ that(5)] that(1,4,6) less.prems(5) flip c(6) by simp
    have "ins_ok key dup v news hd0 (contents fs ?t) (run h hd0 fs ?t dir lst news)"
      using IH c(6) by (intro flip_ok [OF h1 c(2,3,4) k(1) H(4) k(2) up less.prems(3,4)]) metis
    then show ?thesis using c(6) flip by simp
  qed
qed

lemma ins_result_sorted:
  "keys_sorted key xs \<Longrightarrow> ins_result key dup v news xs ys ok \<Longrightarrow> keys_sorted key ys"
  using key_dup by (auto simp: ins_result_def keys_sorted_append split: if_splits list.splits)

text \<open>The whole of \<open>jsw_rbinsert\<close>: every call returns, in every case with a valid list of values.\<close>

lemma rbinsert_inv:
  assumes I: "rb_inv key t T" and hd0: "rb_heap t hd0 = None"
    and new: "\<forall>a as. news = a # as \<longrightarrow> a \<noteq> hd0 \<and> rb_heap t a = None"
    and ok: "news \<noteq> [] \<or> (\<exists>p\<in>set (ino T). key (snd p) = key v)"
  obtains t' T' where "jsw_rbinsert cmp dup hd0 news t v = Some (t', 1)" "rb_inv key t' T'"
    "rb_size t' = rb_size t + 1" "ins_result key dup v news (ino T) (ino T') True" "rb_heap t' hd0 = None"
proof (cases T)
  case Lf
  then obtain a as where news: "news = a # as" using ok by (cases news) auto
  let ?T = "Nd a False (dup v) Lf Lf"
  have root: "rb_root t = None" "rb_heap t = Map.empty" using I Lf by (auto simp: rb_inv_def)
  have "jsw_rbinsert cmp dup hd0 news t v =
      Some (t\<lparr>rb_root := Some a, rb_size := rb_size t + 1,
        rb_heap := [a \<mapsto> \<lparr>rb_red = False, rb_data = dup v, rb_link = lk None None\<rparr>]\<rparr>, 1)"
    using root news by (simp add: jsw_rbinsert_def new_node_def)
  moreover have "rb_inv key (t\<lparr>rb_root := Some a, rb_size := rb_size t + 1,
      rb_heap := [a \<mapsto> \<lparr>rb_red = False, rb_data = dup v, rb_link = lk None None\<rparr>]\<rparr>) ?T"
    by (simp add: rb_inv_def)
  moreover have "ins_result key dup v news (ino T) (ino ?T) True" using Lf news by (simp add: ins_result_def)
  ultimately show ?thesis using that [of _ ?T] new news by simp
next
  case (Nd a c x l r)
  let ?h = "(rb_heap t)(hd0 \<mapsto> rb_head (rb_root t))"
  have out: "hd0 \<notin> set (addrs T)" using I hd0 by (auto simp: rb_inv_def)
  have "holds ?h hd0 [] T" using I out by (auto simp: holds_def rb_inv_def)
  then have "walk key v ?h hd0 [] T" using I by (simp add: walk_def rb_inv_def around_def contents_def)
  moreover have "ready [] T" using I Nd by (simp add: ready_def rb_inv_def)
  moreover have "\<forall>a as. news = a # as \<longrightarrow> a \<notin> insert hd0 (fst ` set (contents [] T))"
    using new I set_ino [of T] by (auto simp: contents_def rb_inv_def)
  ultimately have "ins_ok key dup v news hd0 (contents [] T) (run ?h hd0 [] T False False news)"
    by (intro ins_loop_ok) simp_all
  then obtain h' T' ok where L: "run ?h hd0 [] T False False news = Some (h', ok)" "holds h' hd0 [] T'"
    "rbt_ok T'" "ins_result key dup v news (ino T) (ino T') ok"
    by (auto simp: ins_ok_def contents_def)
  have R: "ok" using L(4) ok by (auto simp: ins_result_def split: if_splits list.splits)
  have nonempty: "T' \<noteq> Lf" using L(4) Nd by (auto simp: ins_result_def split: if_splits list.splits)
  then obtain a' c' x' l' r' where T': "T' = Nd a' c' x' l' r'" by (cases T') auto
  let ?T = "Nd a' False x' l' r'"
  have H': "h' hd0 = Some (rb_head (Some a'))" "tree_at h' T'" "hd0 \<notin> set (addrs T')" "distinct (addrs T')"
      "dom h' = insert hd0 (set (addrs T'))"
    using L(2) T' by (auto simp: holds_def)
  let ?h' = "h'(hd0 := None, a' \<mapsto> \<lparr>rb_red = False, rb_data = x', rb_link = lk (rootp l') (rootp r')\<rparr>)"
  have root: "rb_root t = Some a" "rb_root t = rootp T" using I Nd by (auto simp: rb_inv_def)
  have "jsw_rbinsert cmp dup hd0 news t v =
      Some (t\<lparr>rb_root := Some a', rb_size := rb_size t + 1, rb_heap := ?h'\<rparr>, 1)"
    using L(1) R H' T' root by (auto simp: jsw_rbinsert_def rb_head_def)
  moreover have "ino ?T = ino T'" using T' by simp
  moreover have "rb_inv key (t\<lparr>rb_root := Some a', rb_size := rb_size t + 1, rb_heap := ?h'\<rparr>) ?T"
    using H' T' L(3) ins_result_sorted [OF _ L(4)] I by (auto simp: rb_inv_def)
  ultimately show ?thesis using that [of _ ?T] L(4) R H'(3) T' by auto
qed

end

end
