(* ===== verification/RbErase.thy ===== *)
theory RbErase
  imports RbTree
begin

text \<open>
  Removal from the red-black tree of theory \<open>RbTree\<close>. The walk pushes a red node down in front of
  it, so that the last node visited is red and a leaf, or the only node; the value found on the way is
  replaced by the last one and the last node is unlinked.
\<close>

section \<open>The cases of a push\<close>

definition child :: "bool \<Rightarrow> rbt \<Rightarrow> rbt" where
  "child d t = (case t of Lf \<Rightarrow> Lf | Nd a c x l r \<Rightarrow> if d then r else l)"

lemma child_nd [simp]: "child d (nd d a c x s t) = t" "child (\<not> d) (nd d a c x s t) = s"
  by (auto simp: child_def nd_def)

lemma nd_child: "t = Nd a c x l r \<Longrightarrow> t = nd d a c x (child (\<not> d) t) (child d t)"
  by (auto simp: child_def nd_def)

lemma red_links:
  assumes "tree_at h (nd d q c x s t)"
  shows "link_of h (Some q) d = Some (rootp t)" "link_of h (Some q) (\<not> d) = Some (rootp s)"
    "is_red h (Some q) = Some c" "is_red h (rootp t) = Some (redr t)" "is_red h (rootp s) = Some (redr s)"
  using assms by (cases d; auto)+

lemma push_keep:
  assumes "tree_at h (nd d q c x s t)" "c \<or> redr t"
  shows "er_push h g p (Some q) d lst = Some (h, p)"
  using red_links [OF assms(1)] assms(2) by (auto simp: er_push_def)

text \<open>A red child on the other side is rotated above the node.\<close>

lemma push_rotate:
  assumes H: "holds h hd0 fs (nd d q False x (nd (\<not> d) b True y sp t) dc)" and c: "\<not> redr dc"
  obtains h' where "er_push h g (Some (par hd0 fs)) (Some q) d (side fs) = Some (h', Some b)"
    "holds h' hd0 (Fr b False y d t # fs) (nd d q True x sp dc)"
proof -
  let ?o = "nd d q False x (nd (\<not> d) b True y sp t) dc"
  let ?n = "nd d b False y t (nd d q True x sp dc)"
  have flip: "nd d q False x (nd (\<not> d) b True y sp t) dc = nd (\<not> d) q False x dc (nd (\<not> d) b True y sp t)"
    "nd (\<not> d) b False y (nd (\<not> d) q True x dc sp) t = ?n"
    by (auto simp: nd_def)
  have t: "tree_at h ?o" "distinct (addrs ?o)" using H by (simp_all only: holds_def distinct_append) auto
  obtain h1 where h1: "jsw_single h (Some q) (\<not> \<not> d) = Some (h1, Some b)" "tree_at h1 ?n" "same_but {q, b} h h1"
    using single_tree [of h "\<not> d" q False x dc b True y sp t] t unfolding flip by blast
  have n: "distinct (addrs ?n)" "set (addrs ?n) = set (addrs ?o)" using t(2) by auto
  obtain tr h2 where h2: "link_of h (Some (par hd0 fs)) True = Some tr"
    "set_link h1 (Some (par hd0 fs)) (tr = Some q) (Some b) = Some h2" "holds h2 hd0 fs ?n"
    "(tr = Some q) = side fs"
    by (rule replace_subtree [where g = q and q = b, OF H _ h1(2) _ n h1(3)]) simp_all
  have "er_push h g (Some (par hd0 fs)) (Some q) d (side fs) = Some (h2, Some b)"
    using red_links [OF t(1)] c h1(1) h2 by (simp add: er_push_def)
  moreover have "holds h2 hd0 (Fr b False y d t # fs) (nd d q True x sp dc)"
    using h2(3) holds_plug [of h2 hd0 fs ?n] holds_plug [of h2 hd0 "Fr b False y d t # fs" "nd d q True x sp dc"]
    by simp
  ultimately show ?thesis using that by blast
qed

text \<open>At the root there is no sibling.\<close>

lemma push_root:
  assumes "holds h hd0 [] (nd d q False x s t)" "\<not> redr s" "\<not> redr t"
  shows "er_push h g (Some hd0) (Some q) d True = Some (h, Some hd0)"
proof -
  have "tree_at h (nd d q False x s t)" "h hd0 = Some (rb_head (Some q))" using assms(1) by (auto simp: holds_def)
  then show ?thesis using red_links [of h d q False x s t] assms by (simp add: er_push_def rb_head_def)
qed

lemma push_flip:
  assumes H: "holds h hd0 (Fr p cp y e (nd e b cb z bn bl) # fs) (nd d q False x s t)"
    and c: "\<not> redr s" "\<not> redr t" "\<not> redr bn" "\<not> redr bl"
  obtains h' where "er_push h g (Some p) (Some q) d e = Some (h', Some p)"
    "holds h' hd0 (Fr p False y e (nd e b True z bn bl) # fs) (nd d q True x s t)"
proof -
  have t: "tree_at h (nd d q False x s t)" "tree_at h (nd e b cb z bn bl)" using H by (auto simp: holds_def)
  have p: "h p = Some \<lparr>rb_red = cp, rb_data = y, rb_link = (if e then lk (Some b) (Some q) else lk (Some q) (Some b))\<rparr>"
    using H by (simp add: holds_def)
  have "link_of h (Some p) (\<not> e) = Some (Some b)" using p by simp
  moreover have ne: "p \<noteq> b" "p \<noteq> q" "b \<noteq> q" using H by (auto simp: holds_def)
  moreover define h' where "h' = h(p \<mapsto> \<lparr>rb_red = False, rb_data = y, rb_link = (if e then lk (Some b) (Some q) else lk (Some q) (Some b))\<rparr>,
        b \<mapsto> \<lparr>rb_red = True, rb_data = z, rb_link = (if e then lk (rootp bn) (rootp bl) else lk (rootp bl) (rootp bn))\<rparr>,
        q \<mapsto> \<lparr>rb_red = True, rb_data = x, rb_link = (if d then lk (rootp s) (rootp t) else lk (rootp t) (rootp s))\<rparr>)"
  ultimately have "er_push h g (Some p) (Some q) d e = Some (h', Some p)"
    using red_links [OF t(1)] red_links [OF t(2)] c p t by (simp add: er_push_def h'_def)
  moreover have "holds h' hd0 (Fr p False y e (nd e b True z bn bl) # fs) (nd d q True x s t)"
    using H unfolding h'_def by (auto simp: holds_def)
  ultimately show ?thesis using that by blast
qed

lemma nd_not: "nd (\<not> d) a c x s t = nd d a c x t s"
  by (simp add: nd_def)

text \<open>The last steps of a rotation at the parent: its colours.\<close>

lemma recolour:
  assumes H: "holds h hd0 fs (nd e m cm w (nd f b cb z b1 b2) (nd e p cp y o1 (nd d q cq x s t)))"
  obtains h' where
    "\<And>k :: rb_heap \<Rightarrow> (rb_heap \<times> ptr) option.
       do { h \<leftarrow> set_red h (Some q) True; h \<leftarrow> set_red h (Some m) True;
            l \<leftarrow> link_of h (Some m) False; h \<leftarrow> set_red h l False;
            r \<leftarrow> link_of h (Some m) True; h \<leftarrow> set_red h r False; k h } = k h'"
    "holds h' hd0 (Fr p False y e o1 # Fr m True w e (nd f b False z b1 b2) # fs) (nd d q True x s t)"
proof -
  define ml where "ml = (if e then lk (Some b) (Some p) else lk (Some p) (Some b))"
  define pl where "pl = (if e then lk (rootp o1) (Some q) else lk (Some q) (rootp o1))"
  define bl where "bl = (if f then lk (rootp b1) (rootp b2) else lk (rootp b2) (rootp b1))"
  define ql where "ql = (if d then lk (rootp s) (rootp t) else lk (rootp t) (rootp s))"
  let ?b = "\<lparr>rb_red = False, rb_data = z, rb_link = bl\<rparr>" and ?p = "\<lparr>rb_red = False, rb_data = y, rb_link = pl\<rparr>"
  have h: "h m = Some \<lparr>rb_red = cm, rb_data = w, rb_link = ml\<rparr>" "h p = Some \<lparr>rb_red = cp, rb_data = y, rb_link = pl\<rparr>"
    "h b = Some \<lparr>rb_red = cb, rb_data = z, rb_link = bl\<rparr>" "h q = Some \<lparr>rb_red = cq, rb_data = x, rb_link = ql\<rparr>"
    and ne: "m \<noteq> p" "m \<noteq> b" "m \<noteq> q" "p \<noteq> b" "p \<noteq> q" "b \<noteq> q"
    using H by (auto simp: holds_def ml_def pl_def bl_def ql_def)
  define h0 where "h0 = h(q \<mapsto> \<lparr>rb_red = True, rb_data = x, rb_link = ql\<rparr>, m \<mapsto> \<lparr>rb_red = True, rb_data = w, rb_link = ml\<rparr>)"
  define h' where "h' = (if e then h0(b \<mapsto> ?b, p \<mapsto> ?p) else h0(p \<mapsto> ?p, b \<mapsto> ?b))"
  have "do { h \<leftarrow> set_red h (Some q) True; h \<leftarrow> set_red h (Some m) True;
            l \<leftarrow> link_of h (Some m) False; h \<leftarrow> set_red h l False;
            r \<leftarrow> link_of h (Some m) True; h \<leftarrow> set_red h r False; k h } = k h'"
    for k :: "rb_heap \<Rightarrow> (rb_heap \<times> ptr) option"
    using h ne by (cases e) (simp_all add: h'_def h0_def ml_def)
  moreover have "h' q = Some \<lparr>rb_red = True, rb_data = x, rb_link = ql\<rparr>" "h' m = Some \<lparr>rb_red = True, rb_data = w, rb_link = ml\<rparr>"
    "h' p = Some ?p" "h' b = Some ?b" "dom h' = dom h" "\<And>a. a \<notin> {q, m, p, b} \<Longrightarrow> h' a = h a"
    using h ne by (auto simp: h'_def h0_def)
  note N = this
  have "same_but {q, m, p, b} h h'" using N(5,6) by (simp add: same_but_def)
  note B = same_but_trees [OF this] same_but_ctx [OF this]
  have "holds h' hd0 (Fr p False y e o1 # Fr m True w e (nd f b False z b1 b2) # fs) (nd d q True x s t)"
    using H N(1-5) unfolding holds_def by (auto simp: B ml_def pl_def bl_def ql_def)
  ultimately show ?thesis using that by blast
qed

text \<open>A red child of the sibling: a rotation at the parent, double when the child is on the node's side.\<close>

lemma push_double:
  assumes H: "holds h hd0 (Fr p cp y e (nd e b False z bn (nd e m True w md mn)) # fs) (nd d q False x s t)"
    and c: "\<not> redr s" "\<not> redr t"
  obtains h' where "er_push h (Some (par hd0 fs)) (Some p) (Some q) d e = Some (h', Some p)"
    "holds h' hd0 (Fr p False y e mn # Fr m True w e (nd e b False z bn md) # fs) (nd d q True x s t)"
proof -
  let ?q = "nd d q False x s t" and ?m = "nd e m True w md mn"
  let ?o = "nd e p cp y (nd e b False z bn ?m) ?q" and ?n = "nd e m False w (nd e b True z bn md) (nd e p True y mn ?q)"
  have H2: "holds h hd0 fs ?o"
    using H holds_plug [of h hd0 fs ?o] holds_plug [of h hd0 "Fr p cp y e (nd e b False z bn ?m) # fs" ?q] by simp
  then have t: "tree_at h ?o" "distinct (addrs ?o)" by (simp_all only: holds_def distinct_append) auto
  obtain h1 where h1: "jsw_double h (Some p) e = Some (h1, Some m)" "tree_at h1 ?n" "same_but {p, b, m} h h1"
    using double_tree [of h "\<not> e" p cp y ?q b False z bn m True w mn md] t by (auto simp: nd_not)
  have n: "distinct (addrs ?n)" "set (addrs ?n) = set (addrs ?o)" using t(2) by auto
  obtain tr h2 where h2: "link_of h (Some (par hd0 fs)) True = Some tr"
    "set_link h1 (Some (par hd0 fs)) (tr = Some p) (Some m) = Some h2" "holds h2 hd0 fs ?n"
    "link_of h2 (Some (par hd0 fs)) (tr = Some p) = Some (Some m)"
    by (rule replace_subtree [where g = p and q = m, OF H2 _ h1(2) _ n h1(3)]) simp_all
  obtain h3 where h3: "\<And>k :: rb_heap \<Rightarrow> (rb_heap \<times> ptr) option.
      do { h \<leftarrow> set_red h2 (Some q) True; h \<leftarrow> set_red h (Some m) True;
           l \<leftarrow> link_of h (Some m) False; h \<leftarrow> set_red h l False;
           r \<leftarrow> link_of h (Some m) True; h \<leftarrow> set_red h r False; k h } = k h3"
    "holds h3 hd0 (Fr p False y e mn # Fr m True w e (nd e b False z bn md) # fs) (nd d q True x s t)"
    using recolour [OF h2(3)] by blast
  have "tree_at h ?q" "tree_at h (nd e b False z bn ?m)" using t(1) by simp_all
  note L = red_links [OF this(1)] red_links [OF this(2)] red_links [OF t(1)]
  have "er_push h (Some (par hd0 fs)) (Some p) (Some q) d e = Some (h3, Some p)"
    using L c h1(1) h2(1,2,4) h3(1) by (simp add: er_push_def)
  then show ?thesis using that h3(2) by simp
qed

lemma push_single:
  assumes H: "holds h hd0 (Fr p cp y e (nd e b False z (nd f m True w m1 m2) bl) # fs) (nd d q False x s t)"
    and c: "\<not> redr s" "\<not> redr t" "\<not> redr bl"
  obtains h' where "er_push h (Some (par hd0 fs)) (Some p) (Some q) d e = Some (h', Some p)"
    "holds h' hd0 (Fr p False y e bl # Fr b True z e (nd f m False w m1 m2) # fs) (nd d q True x s t)"
proof -
  let ?q = "nd d q False x s t" and ?m = "nd f m True w m1 m2"
  let ?o = "nd e p cp y (nd e b False z ?m bl) ?q" and ?n = "nd e b False z ?m (nd e p True y bl ?q)"
  have H2: "holds h hd0 fs ?o"
    using H holds_plug [of h hd0 fs ?o] holds_plug [of h hd0 "Fr p cp y e (nd e b False z ?m bl) # fs" ?q] by simp
  then have t: "tree_at h ?o" "distinct (addrs ?o)" by (simp_all only: holds_def distinct_append) auto
  obtain h1 where h1: "jsw_single h (Some p) e = Some (h1, Some b)" "tree_at h1 ?n" "same_but {p, b} h h1"
    using single_tree [of h "\<not> e" p cp y ?q b False z bl ?m] t by (auto simp: nd_not)
  have n: "distinct (addrs ?n)" "set (addrs ?n) = set (addrs ?o)" using t(2) by auto
  obtain tr h2 where h2: "link_of h (Some (par hd0 fs)) True = Some tr"
    "set_link h1 (Some (par hd0 fs)) (tr = Some p) (Some b) = Some h2" "holds h2 hd0 fs ?n"
    "link_of h2 (Some (par hd0 fs)) (tr = Some p) = Some (Some b)"
    by (rule replace_subtree [where g = p and q = b, OF H2 _ h1(2) _ n h1(3)]) simp_all
  obtain h3 where h3: "\<And>k :: rb_heap \<Rightarrow> (rb_heap \<times> ptr) option.
      do { h \<leftarrow> set_red h2 (Some q) True; h \<leftarrow> set_red h (Some b) True;
           l \<leftarrow> link_of h (Some b) False; h \<leftarrow> set_red h l False;
           r \<leftarrow> link_of h (Some b) True; h \<leftarrow> set_red h r False; k h } = k h3"
    "holds h3 hd0 (Fr p False y e bl # Fr b True z e (nd f m False w m1 m2) # fs) (nd d q True x s t)"
    using recolour [OF h2(3)] by blast
  have "tree_at h ?q" "tree_at h (nd e b False z ?m bl)" using t(1) by simp_all
  note L = red_links [OF this(1)] red_links [OF this(2)] red_links [OF t(1)]
  have "er_push h (Some (par hd0 fs)) (Some p) (Some q) d e = Some (h3, Some p)"
    using L c h1(1) h2(1,2,4) h3(1) by (simp add: er_push_def)
  then show ?thesis using that h3(2) by simp
qed

section \<open>The walk\<close>

definition er_walk :: "(ptr \<Rightarrow> 'k::linorder) \<Rightarrow> rb_heap \<Rightarrow> addr \<Rightarrow> frame list \<Rightarrow> rbt \<Rightarrow> bool" where
  "er_walk key h hd0 fs t \<longleftrightarrow>
     holds h hd0 fs t \<and> okc fs (bh t) (redr t) \<and> rbt_ok t \<and> keys_sorted key (contents fs t)"

text \<open>Before a push the node, its parent or, below the root, nothing is red; after it the node or the
  next one is red, unless the node is the root and none of the three is.\<close>

definition red_above :: "frame list \<Rightarrow> rbt \<Rightarrow> bool" where
  "red_above fs t \<longleftrightarrow> fs = [] \<or> predr fs \<or> redr t \<or> (tl fs = [] \<and> \<not> redr (sibling fs))"

definition red_below :: "frame list \<Rightarrow> bool \<Rightarrow> rbt \<Rightarrow> rbt \<Rightarrow> bool" where
  "red_below fs c s t \<longleftrightarrow> c \<or> redr t \<or> (fs = [] \<and> \<not> redr s)"

lemma rbt_black_ex: "\<not> redr t \<Longrightarrow> rbt_ok t \<Longrightarrow> 0 < bh t \<Longrightarrow> \<exists>b z bn bl. t = nd e b False z bn bl"
  by (cases t; cases e) (auto simp: nd_def)

lemma redr_nd_ex: "redr t \<Longrightarrow> \<exists>b z bn bl. t = nd e b True z bn bl"
  by (cases t; cases e) (auto simp: nd_def)

lemma er_push_ok:
  assumes W: "er_walk key h hd0 fs (nd d q c x s t)" and R: "red_above fs (nd d q c x s t)"
    and g: "fs \<noteq> [] \<longrightarrow> g = Some (par hd0 (tl fs))"
  obtains h' fs' c' s' l r where
    "er_push h g (Some (par hd0 fs)) (Some q) d (side fs) = Some (h', Some (par hd0 fs'))"
    "er_walk key h' hd0 fs' (nd d q c' x s' t)" "red_below fs' c' s' t"
    "contents fs' (nd d q c' x s' t) = contents fs (nd d q c x s t)"
    "lefts fs' = lefts fs @ l" "rights fs' = r @ rights fs" "if d then r = [] else l = []"
proof -
  have H: "holds h hd0 fs (nd d q c x s t)" "okc fs (bh (nd d q c x s t)) c" "rbt_ok (nd d q c x s t)"
    "keys_sorted key (contents fs (nd d q c x s t))"
    using W by (simp_all add: er_walk_def)
  show ?thesis
  proof (cases "c \<or> redr t")
    case True
    have "er_push h g (Some (par hd0 fs)) (Some q) d (side fs) = Some (h, Some (par hd0 fs))"
      using push_keep H(1) True unfolding holds_def by blast
    then show ?thesis using W True by (intro that [of h fs c s "[]" "[]"]) (auto simp: red_below_def)
  next
    case False
    then have c: "c = False" "\<not> redr t" by simp_all
    note H = H [unfolded c(1)]
    show ?thesis
    proof (cases "redr s")
      case True
      then obtain b y sp u where s: "s = nd (\<not> d) b True y sp u" using redr_nd_ex by blast
      have "holds h hd0 fs (nd d q False x (nd (\<not> d) b True y sp u) t)" using H(1) s by simp
      then obtain h' where h': "er_push h g (Some (par hd0 fs)) (Some q) d (side fs) = Some (h', Some b)"
        "holds h' hd0 (Fr b False y d u # fs) (nd d q True x sp t)"
        using push_rotate c(2) by blast
      let ?fs = "Fr b False y d u # fs" and ?t = "nd d q True x sp t"
      have C: "contents ?fs ?t = contents fs (nd d q False x s t)"
        by (simp add: contents_def ino_nd s)
      have "er_walk key h' hd0 ?fs ?t"
        using h'(2) H(2,3,4) c(2) C s by (auto simp: er_walk_def)
      then show ?thesis using h'(1) C c
        by (intro that [of h' ?fs True sp "if d then ino u @ [(b, y)] else []" "if d then [] else (b, y) # ino u"])
          (simp_all add: red_below_def)
    next
      case black: False
      show ?thesis
      proof (cases fs)
        case Nil
        then have "er_push h g (Some (par hd0 fs)) (Some q) d (side fs) = Some (h, Some (par hd0 fs))"
          using push_root H(1) c(2) black by simp
        then show ?thesis using W c black Nil
          by (intro that [of h fs False s "[]" "[]"]) (simp_all add: red_below_def)
      next
        case (Cons f gs)
        then obtain p cp y e o1 where fs: "fs = Fr p cp y e o1 # gs" by (cases f) auto
        have O: "rbt_ok o1" "bh o1 = Suc (bh s)" "bh t = bh s" "rbt_ok s" "rbt_ok t"
          "cp \<longrightarrow> \<not> redr o1" "okc gs (if cp then Suc (bh s) else Suc (Suc (bh s))) cp"
          using H(2,3) fs by (auto split: if_splits)
        have red: "cp \<or> gs = []" using R fs c by (auto simp: red_above_def)
        moreover have ob: "\<not> redr o1" using R fs c O(6) by (auto simp: red_above_def)
        ultimately have top: "okc gs (Suc (bh s)) True" using O(7) by auto
        obtain b z bn bl where o1: "o1 = nd e b False z bn bl" using rbt_black_ex ob O(1,2) by (metis zero_less_Suc)
        have g: "g = Some (par hd0 gs)" using assms(3) fs by simp
        have B: "rbt_ok bn" "rbt_ok bl" "bh bn = bh s" "bh bl = bh s" using O(1,2) o1 by (auto split: if_splits)
        note H1 = H(1) [unfolded fs o1]
        consider (flip) "\<not> redr bn" "\<not> redr bl" | (double) m w md mn where "bl = nd e m True w md mn"
          | (single) m w m1 m2 where "bn = nd e m True w m1 m2" "\<not> redr bl"
          using redr_nd_ex [of bl e] redr_nd_ex [of bn e] by blast
        then show ?thesis
        proof cases
          case flip
          let ?fs = "Fr p False y e (nd e b True z bn bl) # gs" and ?t = "nd d q True x s t"
          obtain h' where h': "er_push h g (Some p) (Some q) d e = Some (h', Some p)" "holds h' hd0 ?fs ?t"
            using push_flip [OF H1 black c(2) flip] by blast
          have C: "contents ?fs ?t = contents fs (nd d q False x s t)"
            unfolding fs o1 by (simp add: contents_def ino_nd)
          have "okc ?fs (bh ?t) (redr ?t)" using B O(3,4) flip okc_black [OF top] by simp
          then have "er_walk key h' hd0 ?fs ?t" using h'(2) H(4) C O(3,4,5) c(2) black by (simp add: er_walk_def)
          then show ?thesis using h'(1) C c fs o1
            by (intro that [of h' ?fs True s "[]" "[]"]) (simp_all add: red_below_def ino_nd)
        next
          case double
          let ?fs = "Fr p False y e mn # Fr m True w e (nd e b False z bn md) # gs" and ?t = "nd d q True x s t"
          obtain h' where h': "er_push h g (Some p) (Some q) d e = Some (h', Some p)" "holds h' hd0 ?fs ?t"
            using push_double [OF H1 [unfolded double] black c(2)] g by blast
          have C: "contents ?fs ?t = contents fs (nd d q False x s t)"
            unfolding fs o1 double by (simp add: contents_def ino_nd)
          have "okc ?fs (bh ?t) (redr ?t)" using B O(3,4) top double by (cases e) simp_all
          then have "er_walk key h' hd0 ?fs ?t" using h'(2) H(4) C O(3,4,5) c(2) black by (simp add: er_walk_def)
          then show ?thesis using h'(1) C c fs o1 double
            by (intro that [of h' ?fs True s "[]" "[]"]) (simp_all add: red_below_def ino_nd)
        next
          case single
          let ?fs = "Fr p False y e bl # Fr b True z e (nd e m False w m1 m2) # gs" and ?t = "nd d q True x s t"
          obtain h' where h': "er_push h g (Some p) (Some q) d e = Some (h', Some p)" "holds h' hd0 ?fs ?t"
            using push_single [OF H1 [unfolded single(1)] black c(2) single(2)] g by blast
          have C: "contents ?fs ?t = contents fs (nd d q False x s t)"
            unfolding fs o1 single by (simp add: contents_def ino_nd)
          have "okc ?fs (bh ?t) (redr ?t)" using B O(3,4) top single by (cases e) simp_all
          then have "er_walk key h' hd0 ?fs ?t" using h'(2) H(4) C O(3,4,5) c(2) black by (simp add: er_walk_def)
          then show ?thesis using h'(1) C c fs o1 single
            by (intro that [of h' ?fs True s "[]" "[]"]) (simp_all add: red_below_def ino_nd)
        qed
      qed
    qed
  qed
qed

text \<open>What the pointer \<open>f\<close> says while the walk is at the node \<open>q\<close> with the value \<open>x\<close>: nothing was
  found, or \<open>q\<close> holds the value, or the next node in order does.\<close>

definition sought :: "(ptr \<Rightarrow> 'k::linorder) \<Rightarrow> 'k \<Rightarrow> ptr \<Rightarrow> frame list \<Rightarrow> addr \<Rightarrow> ptr \<Rightarrow> bool" where
  "sought key k f fs q x \<longleftrightarrow>
     (case f of None \<Rightarrow> around key k fs \<and> key x \<noteq> k
      | Some a \<Rightarrow> if a = q then key x = k
          else key x < k \<and> (\<exists>xf r. rights fs = (a, xf) # r \<and> key xf = k))"

lemma sought_push:
  assumes "sought key k f fs q x" "keys_sorted key (contents fs' (nd d q c x s t))"
    and "lefts fs' = lefts fs @ l" "rights fs' = r @ rights fs" "if d then r = [] else l = []" "d = (key x < k)"
  shows "sought key k f fs' q x"
proof (cases f)
  case None
  have "(q, x) \<in> set (ino (nd d q c x s t))" by (simp add: ino_nd)
  then have "\<forall>p\<in>set l. key (snd p) < key x" "\<forall>p\<in>set r. key x < key (snd p)"
    using assms(3,4) keys_sorted_mem [OF assms(2), of "lefts fs'" "ino (nd d q c x s t) @ rights fs'" _ "(q, x)"]
      keys_sorted_mem [OF assms(2), of "lefts fs' @ ino (nd d q c x s t)" "rights fs'" "(q, x)"]
    by (simp_all add: contents_def)
  then show ?thesis using assms(1,3-6) None
    by (cases "key x < k") (fastforce simp: sought_def around_def)+
next
  case (Some a)
  then show ?thesis using assms by (auto simp: sought_def)
qed

context rb_order
begin

text \<open>Descending to the next node, before it is pushed.\<close>

lemma sought_down:
  assumes W: "er_walk key h hd0 fs (nd d q c x s (nd e b cb y u w))" and F: "sought key (key v) f fs q x"
    and d: "d = (cmp x v < 0)"
  shows "sought key (key v) (if cmp y v = 0 then Some b else f) (Fr q c x d s # fs) b y"
proof -
  let ?t = "nd e b cb y u w" and ?fs = "Fr q c x d s # fs"
  have H: "holds h hd0 fs (nd d q c x s ?t)" "keys_sorted key (contents fs (nd d q c x s ?t))"
    using W by (simp_all add: er_walk_def)
  have m: "(b, y) \<in> set (ino ?t)" by (simp add: ino_nd)
  then have ord: "if d then key x < key y else key y < key x"
    using keys_sorted_mem [OF H(2), of "lefts fs @ ino s @ [(q, x)]" "ino ?t @ rights fs" "(q, x)" "(b, y)"]
      keys_sorted_mem [OF H(2), of "lefts fs @ ino ?t" "(q, x) # ino s @ rights fs" "(b, y)" "(q, x)"]
    by (cases d) (simp_all add: contents_def ino_nd [of _ q])
  show ?thesis
  proof (cases "cmp y v = 0")
    case True
    then show ?thesis by (simp add: sought_def cmp_eq)
  next
    case y: False
    consider (none) "f = None" | (here) "f = Some q" | (above) a where "f = Some a" "a \<noteq> q" by (cases f) auto
    then show ?thesis
    proof cases
      case none
      have "nd d q c x s ?t = Nd q c x (if d then s else ?t) (if d then ?t else s)" by (simp add: nd_def)
      then have "around key (key v) (Fr q c x d (if d then (if d then s else ?t) else (if d then ?t else s)) # fs)"
        using F none H(2) unfolding contents_def by (intro around_step d) (simp_all add: sought_def cmp_eq)
      then have "around key (key v) ?fs" by (cases d) simp_all
      then show ?thesis using none y by (simp add: sought_def cmp_eq)
    next
      case here
      then have "key x = key v" "\<not> d" using F d by (simp_all add: sought_def cmp_less)
      moreover have "q \<noteq> b" using H(1) by (auto simp: holds_def)
      ultimately show ?thesis using here y ord by (simp add: sought_def)
    next
      case above
      then obtain xf r where r: "rights fs = (a, xf) # r" "key xf = key v" "key x < key v"
        using F by (auto simp: sought_def)
      then have "d" using d by (simp add: cmp_less)
      have "(a, xf) \<in> set (contents fs (nd d q c x s ?t))" "(b, y) \<in> set (contents fs (nd d q c x s ?t))"
        using r(1) m by (simp_all add: contents_def ino_nd [of _ q])
      then obtain n n' where "h a = Some n" "rb_data n = xf" "h b = Some n'" "rb_data n' = y"
        using holds_data [OF H(1)] by metis
      then have "a \<noteq> b \<or> xf = y" by auto
      moreover have "key y < key xf" 
        using keys_sorted_mem [OF H(2), of "lefts fs @ ino (nd d q c x s ?t)" "rights fs" "(b, y)" "(a, xf)"] r(1) m
        by (simp add: contents_def ino_nd [of _ q])
      ultimately show ?thesis using above y r \<open>d\<close> by (auto simp: sought_def)
    qed
  qed
qed

theorem er_loop_ok:
  "\<lbrakk>er_walk key h hd0 fs (nd d q c x s t); red_below fs c s t; sought key (key v) f fs q x; d = (cmp x v < 0)\<rbrakk> \<Longrightarrow>
   \<exists>h' fs' q' c' x' f'. er_loop cmp v h (Some (par hd0 fs)) (Some q) f d = Some (h', Some (par hd0 fs'), Some q', f') \<and>
     er_walk key h' hd0 fs' (Nd q' c' x' Lf Lf) \<and> (c' \<or> fs' = []) \<and> sought key (key v) f' fs' q' x' \<and>
     contents fs' (Nd q' c' x' Lf Lf) = contents fs (nd d q c x s t)"
proof (induction t arbitrary: h fs d q c x s f rule: measure_induct_rule [of size])
  case (less t)
  note W = less.prems(1)
  have H: "holds h hd0 fs (nd d q c x s t)" "okc fs (bh (nd d q c x s t)) c" "rbt_ok (nd d q c x s t)"
    "keys_sorted key (contents fs (nd d q c x s t))"
    using W by (simp_all add: er_walk_def)
  have nxt: "link_of h (Some q) d = Some (rootp t)" using H(1) red_links(1) unfolding holds_def by blast
  show ?case
  proof (cases t)
    case Lf
    have "\<not> redr s" using H(3) less.prems(2) Lf by (auto simp: red_below_def)
    then have s: "s = Lf" using bh_0 H(3) Lf by auto
    have "nd d q c x s t = Nd q c x Lf Lf" using s Lf by (simp add: nd_def)
    moreover have "er_loop cmp v h (Some (par hd0 fs)) (Some q) f d = Some (h, Some (par hd0 fs), Some q, f)"
      using nxt Lf by (subst er_loop.simps) simp
    moreover have "c \<or> fs = []" using less.prems(2) Lf by (auto simp: red_below_def)
    ultimately show ?thesis using W less.prems(3) by metis
  next
    case (Nd b cb y l r)
    define e where "e = (cmp y v < 0)"
    obtain u w where t: "t = nd e b cb y u w" using nd_child [OF Nd] by blast
    let ?fs = "Fr q c x d s # fs" and ?f = "if cmp y v = 0 then Some b else f"
    have "holds h hd0 ?fs t"
      using H(1) holds_plug [of h hd0 ?fs t] holds_plug [of h hd0 fs "nd d q c x s t"] by simp
    moreover have C: "contents ?fs t = contents fs (nd d q c x s t)" by (simp add: contents_def ino_nd)
    ultimately have W1: "er_walk key h hd0 ?fs (nd e b cb y u w)"
      using H(2,3,4) t by (auto simp: er_walk_def split: if_splits)
    have A: "red_above ?fs (nd e b cb y u w)"
      using less.prems(2) t by (auto simp: red_below_def red_above_def)
    have G: "?fs \<noteq> [] \<longrightarrow> Some (par hd0 fs) = Some (par hd0 (tl ?fs))" by simp
    obtain h1 fs1 c1 u1 l1 r1 where P:
      "er_push h (Some (par hd0 fs)) (Some (par hd0 ?fs)) (Some b) e (side ?fs) = Some (h1, Some (par hd0 fs1))"
      "er_walk key h1 hd0 fs1 (nd e b c1 y u1 w)" "red_below fs1 c1 u1 w"
      "contents fs1 (nd e b c1 y u1 w) = contents ?fs (nd e b cb y u w)"
      "lefts fs1 = lefts ?fs @ l1" "rights fs1 = r1 @ rights ?fs" "if e then r1 = [] else l1 = []"
      by (rule er_push_ok [OF W1 A G])
    have "sought key (key v) ?f ?fs b y" using sought_down W less.prems(3,4) t by blast
    then have F: "sought key (key v) ?f fs1 b y"
      using sought_push P(2,5,6,7) e_def cmp_less unfolding er_walk_def by blast
    have "size w < size t" using t by (simp add: nd_def)
    from less.IH [OF this P(2,3) F e_def] obtain h' fs' q' c' x' f' where L:
      "er_loop cmp v h1 (Some (par hd0 fs1)) (Some b) ?f e = Some (h', Some (par hd0 fs'), Some q', f')"
      "er_walk key h' hd0 fs' (Nd q' c' x' Lf Lf)" "c' \<or> fs' = []" "sought key (key v) f' fs' q' x'"
      "contents fs' (Nd q' c' x' Lf Lf) = contents fs1 (nd e b c1 y u1 w)"
      by blast
    have "tree_at h t" using H(1) by (simp add: holds_def)
    then have "er_loop cmp v h (Some (par hd0 fs)) (Some q) f d =
        er_loop cmp v h1 (Some (par hd0 fs1)) (Some b) ?f e"
      using nxt Nd P(1) by (subst er_loop.simps) (simp add: e_def)
    then show ?thesis using L P(4) C t by metis
  qed
qed

end

section \<open>The end of the removal\<close>

lemma unlink_last:
  assumes H: "holds h hd0 fs (Nd q c x Lf Lf)"
  obtains h' pr where "link_of h (Some (par hd0 fs)) True = Some pr"
    "Option.bind (set_link h (Some (par hd0 fs)) (pr = Some q) None) (\<lambda>h. release h (Some q)) = Some h'"
    "holds h' hd0 fs Lf"
proof -
  have C: "ctx_at h hd0 fs (Some q)" "q \<notin> set (caddrs fs)" "distinct (hd0 # caddrs fs)" "q \<noteq> hd0"
    "dom h = insert q (set (hd0 # caddrs fs))"
    using H by (auto simp: holds_def)
  obtain pr where pr: "link_of h (Some (par hd0 fs)) True = Some pr" "(pr = Some q) = side fs"
    using hole_side [OF C(1,2)] .
  obtain h1 where h1: "set_link h (Some (par hd0 fs)) (side fs) None = Some h1" "ctx_at h1 hd0 fs None"
    "same_but {par hd0 fs} h h1"
    using set_hole [OF C(1,3)] .
  have d1: "dom h1 = insert q (set (hd0 # caddrs fs))" using same_but_dom [OF h1(3)] C(5) by simp
  then obtain n where "h1 q = Some n" by blast
  moreover have "holds (h1(q := None)) hd0 fs Lf"
    using h1(2) C(2,3,4) d1 by (auto simp: holds_def)
  ultimately show ?thesis using that pr h1(1) by simp
qed

lemma set_data:
  assumes "holds h hd0 (fs1 @ Fr a c x d s # fs2) t"
  obtains h' where "modify h (Some a) (\<lambda>n. n\<lparr>rb_data := y\<rparr>) = Some h'"
    "holds h' hd0 (fs1 @ Fr a c y d s # fs2) t" "\<forall>b. b \<noteq> a \<longrightarrow> h' b = h b"
proof -
  have "ctx_at h hd0 (fs1 @ Fr a c x d s # fs2) p \<Longrightarrow> distinct (hd0 # caddrs (fs1 @ Fr a c x d s # fs2)) \<Longrightarrow>
      \<exists>n. h a = Some n \<and> ctx_at (h(a \<mapsto> n\<lparr>rb_data := y\<rparr>)) hd0 (fs1 @ Fr a c y d s # fs2) p" for p
    by (induction fs1 arbitrary: p rule: caddrs.induct) (auto simp: caddrs_append)
  then obtain n where n: "h a = Some n" "ctx_at (h(a \<mapsto> n\<lparr>rb_data := y\<rparr>)) hd0 (fs1 @ Fr a c y d s # fs2) (rootp t)"
    using assms unfolding holds_def by (metis distinct_append append_Cons)
  have "a \<notin> set (addrs t)" using assms by (auto simp: holds_def caddrs_append)
  then have "holds (h(a \<mapsto> n\<lparr>rb_data := y\<rparr>)) hd0 (fs1 @ Fr a c y d s # fs2) t"
    using assms n by (auto simp: holds_def caddrs_append)
  then show ?thesis using that n(1) by simp
qed

text \<open>A node that comes next in order after the hole is a frame that was left to the left.\<close>

lemma rights_frame:
  "rights fs = (a, x) # r \<Longrightarrow> \<exists>fs1 c s fs2. fs = fs1 @ Fr a c x False s # fs2 \<and> rights fs1 = [] \<and> r = ino s @ rights fs2"
proof (induction fs rule: rights.induct)
  case (2 b c y d s fs)
  show ?case
  proof (cases d)
    case True
    then obtain fs1 c' s' fs2 where "fs = fs1 @ Fr a c' x False s' # fs2" "rights fs1 = []" "r = ino s' @ rights fs2"
      using 2 by auto
    then show ?thesis using True by (intro exI [of _ "Fr b c y d s # fs1"]) auto
  next
    case False
    then show ?thesis using 2(2) by (intro exI [of _ "[]"]) auto
  qed
qed simp

lemma frames_append:
  "lefts (as @ bs) = lefts bs @ lefts as" "rights (as @ bs) = rights as @ rights bs"
  by (induction as rule: lefts.induct) simp_all

lemma okc_data: "okc (fs1 @ Fr a c x d s # fs2) n r = okc (fs1 @ Fr a c y d s # fs2) n r"
  by (induction fs1 arbitrary: n r rule: caddrs.induct) simp_all

lemma par_data: "par hd0 (fs1 @ Fr a c x d s # fs2) = par hd0 (fs1 @ Fr a c y d s # fs2)"
  by (cases "(hd0, fs1)" rule: par.cases) simp_all

text \<open>What happens to the values in order, and what is released.\<close>

definition er_result :: "(ptr \<Rightarrow> 'k) \<Rightarrow> 'k \<Rightarrow> ptr list \<Rightarrow> ptr list \<Rightarrow> ptr list \<Rightarrow> bool" where
  "er_result key k xs ys rels \<longleftrightarrow>
     (if k \<in> key ` set xs then \<exists>l x r. xs = l @ x # r \<and> ys = l @ r \<and> key x = k \<and> rels = [x]
      else ys = xs \<and> rels = [])"

lemma er_resultI: "key x = k \<Longrightarrow> er_result key k (l @ x # r) (l @ r) [x]"
  by (auto simp: er_result_def)

text \<open>The valid tree the removal ends with, before its root is painted.\<close>

lemma er_unlink_ok:
  assumes W: "er_walk key h hd0 fs (Nd q c x Lf Lf)" and c: "c \<or> fs = []" and F: "sought key k (Some a) fs q x"
  obtains h' T' rels where "er_unlink h (Some (par hd0 fs)) (Some q) (Some a) = Some (h', rels)"
    "holds h' hd0 [] T'" "rbt_ok T'" "keys_sorted key (ino T')"
    "er_result key k (map snd (contents fs (Nd q c x Lf Lf))) (map snd (ino T')) rels"
proof -
  have H: "holds h hd0 fs (Nd q c x Lf Lf)" "okc fs (if c then 0 else 1) c"
    "keys_sorted key (contents fs (Nd q c x Lf Lf))"
    using W by (auto simp: er_walk_def)
  have q: "h q = Some \<lparr>rb_red = c, rb_data = x, rb_link = lk None None\<rparr>" using H(1) by (simp add: holds_def)
  have ok: "okc fs 0 False" using H(2) c okc_black by auto
  show ?thesis
  proof (cases "a = q")
    case True
    obtain h' pr where U: "link_of h (Some (par hd0 fs)) True = Some pr"
      "Option.bind (set_link h (Some (par hd0 fs)) (pr = Some q) None) (\<lambda>h. release h (Some q)) = Some h'"
      "holds h' hd0 fs Lf"
      using unlink_last [OF H(1)] .
    have "h(q \<mapsto> \<lparr>rb_red = c, rb_data = x, rb_link = lk None None\<rparr>) = h" using q by auto
    then have "er_unlink h (Some (par hd0 fs)) (Some q) (Some a) = Some (h', [x])"
      using U(1,2) q True by (cases "set_link h (Some (par hd0 fs)) (pr = Some q) None") (simp_all add: er_unlink_def)
    moreover have "holds h' hd0 [] (plug fs Lf)" using U(3) holds_plug by blast
    moreover have "rbt_ok (plug fs Lf)" using okc_plug ok by simp
    moreover have "keys_sorted key (ino (plug fs Lf))"
      using H(3) by (simp add: ino_plug contents_def keys_sorted_append)
    moreover have "er_result key k (map snd (contents fs (Nd q c x Lf Lf))) (map snd (ino (plug fs Lf))) [x]"
      using F True er_resultI [of key x k "map snd (lefts fs)" "map snd (rights fs)"]
      by (simp add: ino_plug contents_def sought_def)
    ultimately show ?thesis using that by blast
  next
    case False
    then obtain xf r where r: "rights fs = (a, xf) # r" "key xf = k" "key x < k" using F by (auto simp: sought_def)
    obtain fs1 ca s fs2 where fs: "fs = fs1 @ Fr a ca xf False s # fs2" "rights fs1 = []" "r = ino s @ rights fs2"
      using rights_frame [OF r(1)] by blast
    let ?fs = "fs1 @ Fr a ca x False s # fs2"
    obtain h1 where h1: "modify h (Some a) (\<lambda>n. n\<lparr>rb_data := x\<rparr>) = Some h1" "holds h1 hd0 ?fs (Nd q c x Lf Lf)"
      "\<forall>b. b \<noteq> a \<longrightarrow> h1 b = h b"
      by (rule set_data [where y = x, OF H(1) [unfolded fs(1)]])
    obtain h' pr where U: "link_of h1 (Some (par hd0 ?fs)) True = Some pr"
      "Option.bind (set_link h1 (Some (par hd0 ?fs)) (pr = Some q) None) (\<lambda>h. release h (Some q)) = Some h'"
      "holds h' hd0 ?fs Lf"
      using unlink_last [OF h1(2)] .
    have p: "par hd0 fs = par hd0 ?fs" unfolding fs(1) by (rule par_data)
    obtain n where n: "h a = Some n" "rb_data n = xf"
      using holds_data [OF H(1), of a xf] r(1) by (auto simp: contents_def)
    have "h1 q = h q" using h1(3) False by simp
    then have "er_unlink h (Some (par hd0 fs)) (Some q) (Some a) = Some (h', [xf])"
      using U(1,2) q n h1(1) unfolding p
      by (cases "set_link h1 (Some (par hd0 ?fs)) (pr = Some q) None") (simp_all add: er_unlink_def)
    moreover have "holds h' hd0 [] (plug ?fs Lf)" using U(3) holds_plug by blast
    moreover have "rbt_ok (plug ?fs Lf)" using okc_plug [of ?fs Lf] ok okc_data fs(1) by simp metis
    moreover have C: "ino (plug ?fs Lf) = lefts fs @ (a, x) # r" "contents fs (Nd q c x Lf Lf) = lefts fs @ (q, x) # (a, xf) # r"
      using fs by (simp_all add: ino_plug contents_def frames_append)
    then have "keys_sorted key (ino (plug ?fs Lf))"
      using H(3) by (auto simp: keys_sorted_append)
    moreover have "er_result key k (map snd (contents fs (Nd q c x Lf Lf))) (map snd (ino (plug ?fs Lf))) [xf]"
      using C er_resultI [of key xf k "map snd (lefts fs) @ [x]" "map snd r", OF r(2)] by simp
    ultimately show ?thesis using that by blast
  qed
qed

text \<open>The root is painted and the head node disappears.\<close>

lemma paint_root:
  assumes H: "holds h hd0 [] T" "rbt_ok T" "keys_sorted key (ino T)"
  obtains h' T' where "link_of h (Some hd0) True = Some (rootp T)"
    "(if rootp T = None then Some h else set_red h (rootp T) False) = Some h'"
    "rb_inv key \<lparr>rb_root = rootp T, rb_size = n, rb_heap = h'(hd0 := None)\<rparr> T'" "ino T' = ino T"
proof (cases T)
  case Lf
  then have "rb_inv key \<lparr>rb_root = rootp T, rb_size = n, rb_heap = h(hd0 := None)\<rparr> Lf"
    using H by (auto simp: rb_inv_def holds_def)
  then show ?thesis using that [of h Lf] H(1) Lf by (simp add: holds_def rb_head_def)
next
  case (Nd a c x l r)
  let ?h = "h(a \<mapsto> \<lparr>rb_red = False, rb_data = x, rb_link = lk (rootp l) (rootp r)\<rparr>)" and ?T = "Nd a False x l r"
  have "rb_inv key \<lparr>rb_root = rootp T, rb_size = n, rb_heap = ?h(hd0 := None)\<rparr> ?T"
    using H Nd by (auto simp: rb_inv_def holds_def)
  then show ?thesis using that [of ?h ?T] H(1) Nd by (simp add: holds_def rb_head_def)
qed

context rb_order
begin

theorem rberase_inv:
  assumes I: "rb_inv key t T" and hd0: "rb_heap t hd0 = None"
  obtains t' T' rels where "jsw_rberase cmp hd0 t v = Some (t', rels, 1)" "rb_inv key t' T'"
    "rb_size t' = (if T = Lf then rb_size t else rb_size t - 1)" "er_result key (key v) (vals T) (vals T') rels"
    "rb_heap t' hd0 = None"
proof (cases T)
  case Lf
  then have "jsw_rberase cmp hd0 t v = Some (t, [], 1)" using I by (simp add: jsw_rberase_def rb_inv_def)
  then show ?thesis using that I Lf hd0 by (simp add: er_result_def vals_def)
next
  case (Nd q c x l r)
  let ?h = "(rb_heap t)(hd0 \<mapsto> rb_head (rb_root t))"
  define d where "d = (cmp x v < 0)"
  have out: "hd0 \<notin> set (addrs T)" using I hd0 by (auto simp: rb_inv_def)
  have "holds ?h hd0 [] T" using I out by (auto simp: holds_def rb_inv_def)
  then have "er_walk key ?h hd0 [] T" using I by (simp add: er_walk_def rb_inv_def contents_def)
  moreover obtain s u where T: "T = nd d q c x s u" using nd_child [OF Nd] by blast
  ultimately have W: "er_walk key ?h hd0 [] (nd d q c x s u)" by simp
  obtain h1 fs c1 s1 ls rs where P: "er_push ?h None (Some (par hd0 [])) (Some q) d (side []) = Some (h1, Some (par hd0 fs))"
    "er_walk key h1 hd0 fs (nd d q c1 x s1 u)" "red_below fs c1 s1 u"
    "contents fs (nd d q c1 x s1 u) = contents [] (nd d q c x s u)"
    "lefts fs = lefts [] @ ls" "rights fs = rs @ rights []" "if d then rs = [] else ls = []"
    by (rule er_push_ok [OF W, of None]) (simp_all add: red_above_def)
  let ?f = "if cmp x v = 0 then Some q else None"
  have "sought key (key v) ?f [] q x" by (simp add: sought_def around_def cmp_eq)
  then have F: "sought key (key v) ?f fs q x"
    using sought_push P(2,5,6,7) d_def cmp_less unfolding er_walk_def by blast
  obtain h2 fs' q' c' x' f' where L:
    "er_loop cmp v h1 (Some (par hd0 fs)) (Some q) ?f d = Some (h2, Some (par hd0 fs'), Some q', f')"
    "er_walk key h2 hd0 fs' (Nd q' c' x' Lf Lf)" "c' \<or> fs' = []" "sought key (key v) f' fs' q' x'"
    "contents fs' (Nd q' c' x' Lf Lf) = contents [] (nd d q c x s u)"
    using er_loop_ok [OF P(2,3) F d_def] P(4) by metis
  have root: "rb_root t = Some q" "tree_at ?h T" using I Nd out by (auto simp: rb_inv_def)
  have "er_loop cmp v ?h None (Some hd0) None True = er_loop cmp v h1 (Some (par hd0 fs)) (Some q) ?f d"
    using P(1) root Nd by (subst er_loop.simps) (simp add: rb_head_def d_def)
  then have E: "er_loop cmp v ?h None (Some hd0) None True = Some (h2, Some (par hd0 fs'), Some q', f')"
    using L(1) by simp
  have V: "map snd (contents fs' (Nd q' c' x' Lf Lf)) = vals T" using L(5) T by (simp add: vals_def contents_def)
  obtain h3 T1 rels where U:
    "(if f' = None then Some (h2, []) else er_unlink h2 (Some (par hd0 fs')) (Some q') f') = Some (h3, rels)"
    "holds h3 hd0 [] T1" "rbt_ok T1" "keys_sorted key (ino T1)" "er_result key (key v) (vals T) (map snd (ino T1)) rels"
  proof (cases f')
    case None
    have H: "holds h2 hd0 fs' (Nd q' c' x' Lf Lf)" "okc fs' (bh (Nd q' c' x' Lf Lf)) c'"
      "keys_sorted key (contents fs' (Nd q' c' x' Lf Lf))" using L(2) by (auto simp: er_walk_def)
    have "key v \<notin> key ` set (vals T)"
      using L(4) None V [symmetric] by (auto simp: sought_def around_def contents_def)
    then have "er_result key (key v) (vals T) (map snd (ino (plug fs' (Nd q' c' x' Lf Lf)))) []"
      using V by (simp add: er_result_def ino_plug contents_def)
    moreover have "holds h2 hd0 [] (plug fs' (Nd q' c' x' Lf Lf))" using H(1) holds_plug by blast
    moreover have "rbt_ok (plug fs' (Nd q' c' x' Lf Lf))" using H(2) by (intro okc_plug) simp_all
    moreover have "keys_sorted key (ino (plug fs' (Nd q' c' x' Lf Lf)))" using H(3) by (simp add: ino_plug contents_def)
    ultimately show ?thesis using that None by auto
  next
    case (Some a)
    then show ?thesis using er_unlink_ok [OF L(2,3)] L(4) V that by (metis option.distinct(1))
  qed
  obtain h4 T' where R: "link_of h3 (Some hd0) True = Some (rootp T1)"
    "(if rootp T1 = None then Some h3 else set_red h3 (rootp T1) False) = Some h4"
    "rb_inv key \<lparr>rb_root = rootp T1, rb_size = rb_size t - 1, rb_heap = h4(hd0 := None)\<rparr> T'" "ino T' = ino T1"
    by (rule paint_root [where n = "rb_size t - 1", OF U(2,3,4)])
  have "jsw_rberase cmp hd0 t v =
      Some (\<lparr>rb_root = rootp T1, rb_size = rb_size t - 1, rb_heap = h4(hd0 := None)\<rparr>, rels, 1)"
    using E U(1) R(1,2) root(1) by (cases t) (simp add: jsw_rberase_def)
  then show ?thesis using that R(3,4) U(5) Nd by (simp add: vals_def)
qed

end

end
