(* ===== verification/RbTraverse.thy ===== *)
theory RbTraverse
  imports RbTree
begin

text \<open>
  Traversal of the red-black tree of theory \<open>RbTree\<close> in both directions, the bound of its path, and
  the destruction of a tree. \<open>inod d\<close> lists a tree in the direction \<open>d\<close>: in order when \<open>d\<close> is true.
\<close>

section \<open>The height of a tree\<close>

fun ht :: "rbt \<Rightarrow> nat" where
  "ht Lf = 0"
| "ht (Nd a c x l r) = Suc (max (ht l) (ht r))"

lemma ht_nd: "ht (nd d a c x s t) = Suc (max (ht s) (ht t))"
  by (auto simp: nd_def)

lemma ht_bh: "rbt_ok t \<Longrightarrow> ht t \<le> 2 * bh t + (if redr t then 1 else 0)"
  by (induction t) (auto split: if_splits)

lemma bh_size: "rbt_ok t \<Longrightarrow> 2 ^ bh t \<le> length (ino t) + 1"
  by (induction t) auto

lemma ht_plug: "length fs + ht t \<le> ht (plug fs t)"
proof (induction fs t rule: plug.induct)
  case (2 a c x d s fs t)
  then show ?case by (simp add: ht_nd)
qed simp

text \<open>A path in a tree of fewer than \<open>2 ^ 32\<close> values is shorter than \<open>HEIGHT_LIMIT\<close>.\<close>

lemma height_limit:
  assumes "rbt_ok T" "\<not> redr T" "length (ino T) < 2 ^ 32"
  shows "ht T \<le> HEIGHT_LIMIT"
proof -
  have "(2::nat) ^ bh T \<le> 2 ^ 32" using bh_size [OF assms(1)] assms(3) by linarith
  then have "bh T \<le> 32" by (rule power_le_imp_le_exp [rotated]) simp
  then show ?thesis using ht_bh [OF assms(1)] assms(2) by (simp add: HEIGHT_LIMIT_def)
qed

section \<open>Positions\<close>

definition inod :: "bool \<Rightarrow> rbt \<Rightarrow> (addr \<times> ptr) list" where
  "inod d t = (if d then ino t else rev (ino t))"

fun beyond :: "bool \<Rightarrow> frame list \<Rightarrow> (addr \<times> ptr) list" where
  "beyond d [] = []"
| "beyond d (Fr a c x e s # fs) = (if e = d then [] else (a, x) # inod d s) @ beyond d fs"

lemma nd_not_Lf [simp]: "nd d a c x s t \<noteq> Lf"
  by (simp add: nd_def)

lemma inod_Lf [simp]: "inod d Lf = []"
  by (simp add: inod_def)

lemma inod_nd: "inod d (nd e a c x s t) = (if e = d then inod d s @ (a, x) # inod d t else inod d t @ (a, x) # inod d s)"
  by (simp add: inod_def ino_nd)

fun fptr :: "frame \<Rightarrow> ptr" where
  "fptr (Fr a c x d s) = Some a"

text \<open>The traversal stands at the root of \<open>t\<close>, with the nodes above it on its path.\<close>

definition tv_ok :: "rb_trav \<Rightarrow> frame list \<Rightarrow> rbt \<Rightarrow> bool" where
  "tv_ok v fs t \<longleftrightarrow> tv_it v = rootp t \<and> tv_top v = length fs \<and> length (tv_path v) = HEIGHT_LIMIT \<and>
     take (tv_top v) (tv_path v) = map fptr (rev fs)"

text \<open>What is left of the tree \<open>T\<close> in the direction \<open>d\<close>, at the node with the value \<open>x\<close>.\<close>

definition tv_at :: "rbt \<Rightarrow> bool \<Rightarrow> rb_trav \<Rightarrow> ptr \<Rightarrow> (addr \<times> ptr) list \<Rightarrow> bool" where
  "tv_at T d v x ys \<longleftrightarrow>
     (\<exists>fs a c s t. T = plug fs (nd d a c x s t) \<and> tv_ok v fs (nd d a c x s t) \<and> ys = inod d t @ beyond d fs)"

lemma tree_plug: "tree_at h (plug fs t) \<Longrightarrow> tree_at h t"
  by (induction fs t rule: plug.induct) simp_all

lemma distinct_plug: "distinct (addrs (plug fs t)) \<Longrightarrow> distinct (addrs t)"
  by (induction fs t rule: plug.induct) simp_all

lemma tree_link: "tree_at h (nd d a c x s t) \<Longrightarrow> link_of h (Some a) d = Some (rootp t)"
  by (cases d) auto

lemma tree_link_other: "tree_at h (nd d a c x s t) \<Longrightarrow> link_of h (Some a) (\<not> d) = Some (rootp s)"
  by (cases d) auto

lemma nd_other: "nd d a c x s t = nd (\<not> d) a c x t s"
  by (simp add: nd_def)

lemma tv_push_ok:
  assumes "tv_ok v fs (nd d a c x s t)" "length fs < HEIGHT_LIMIT"
  obtains v' where "tv_push v (rootp t) = Some v'" "tv_ok v' (Fr a c x d s # fs) t"
proof -
  let ?v = "v\<lparr>tv_path := (tv_path v)[length fs := Some a], tv_top := tv_top v + 1, tv_it := rootp t\<rparr>"
  have "take (Suc (length fs)) ((tv_path v)[length fs := Some a]) = map fptr (rev fs) @ [Some a]"
    using assms by (auto simp: tv_ok_def take_Suc_conv_app_nth take_update_cancel)
  then have "tv_ok ?v (Fr a c x d s # fs) t" using assms by (auto simp: tv_ok_def)
  moreover have "tv_push v (rootp t) = Some ?v" using assms by (auto simp: tv_push_def tv_ok_def)
  ultimately show ?thesis using that by blast
qed

text \<open>Down to the first node of a subtree in the direction \<open>d\<close>.\<close>

lemma tv_down_ok:
  "\<lbrakk>tv_ok v fs t; t \<noteq> Lf; tree_at h t; length fs + ht t \<le> HEIGHT_LIMIT\<rbrakk> \<Longrightarrow>
   \<exists>v' x ys p. tv_down h (\<not> d) v = Some v' \<and> tv_at (plug fs t) d v' x ys \<and> inod d t @ beyond d fs = (p, x) # ys"
proof (induction t arbitrary: v fs rule: measure_induct_rule [of size])
  case (less t)
  obtain a c x l r where "t = Nd a c x l r" using less.prems(2) by (cases t) auto
  then obtain s u where t: "t = nd d a c x s u" using nd_def by (metis (full_types))
  have L: "link_of h (tv_it v) (\<not> d) = Some (rootp s)"
    using less.prems(1,3) tree_link_other t by (simp add: tv_ok_def)
  show ?case
  proof (cases s)
    case Lf
    have "tv_down h (\<not> d) v = Some v" using L Lf by (subst tv_down.simps) simp
    moreover have "tv_at (plug fs t) d v x (inod d u @ beyond d fs)"
      using less.prems(1) t unfolding tv_at_def by blast
    moreover have "inod d t @ beyond d fs = (a, x) # inod d u @ beyond d fs" using t Lf by (simp add: inod_nd)
    ultimately show ?thesis by blast
  next
    case (Nd b cb y l' r')
    let ?fs = "Fr a c x (\<not> d) u # fs"
    have t': "t = nd (\<not> d) a c x u s" using t nd_other by simp
    obtain v1 where v1: "tv_push v (rootp s) = Some v1" "tv_ok v1 ?fs s"
      using tv_push_ok [of v fs "\<not> d" a c x u s] less.prems(1,4) t' by (auto simp: ht_nd)
    have "size s < size t" using t by (simp add: nd_def)
    moreover have "tree_at h s" "length ?fs + ht s \<le> HEIGHT_LIMIT"
      using less.prems(3,4) t by (simp_all add: ht_nd)
    ultimately obtain v' z ys p where R: "tv_down h (\<not> d) v1 = Some v'" "tv_at (plug ?fs s) d v' z ys"
      "inod d s @ beyond d ?fs = (p, z) # ys"
      using less.IH [OF _ v1(2)] Nd by blast
    have "tv_down h (\<not> d) v = Some v'" using L Nd v1(1) R(1) by (subst tv_down.simps) simp
    moreover have "plug ?fs s = plug fs t" using t' by simp
    moreover have "inod d t @ beyond d fs = inod d s @ beyond d ?fs" using t by (simp add: inod_nd)
    ultimately show ?thesis using R(2,3) by metis
  qed
qed

text \<open>Up to the next node in the direction \<open>d\<close>, or off the tree.\<close>

definition tv_next :: "rbt \<Rightarrow> bool \<Rightarrow> rb_trav \<Rightarrow> (addr \<times> ptr) list \<Rightarrow> bool" where
  "tv_next T d v ys \<longleftrightarrow>
     (case ys of [] \<Rightarrow> tv_it v = None \<and> length (tv_path v) = HEIGHT_LIMIT | p # ys \<Rightarrow> tv_at T d v (snd p) ys)"

lemma tv_up_ok:
  "\<lbrakk>tv_ok v fs t; t \<noteq> Lf; tree_at h (plug fs t); distinct (addrs (plug fs t))\<rbrakk> \<Longrightarrow>
   \<exists>v'. tv_up h d v = Some v' \<and> tv_next (plug fs t) d v' (beyond d fs)"
proof (induction fs arbitrary: v t)
  case Nil
  then show ?case by (subst tv_up.simps) (simp add: tv_ok_def tv_next_def)
next
  case (Cons f fs)
  obtain a c x e s where f: "f = Fr a c x e s" by (cases f) auto
  let ?n = "nd e a c x s t" and ?v = "v\<lparr>tv_top := length fs, tv_it := Some a\<rparr>"
  have V: "tv_it v = rootp t" "tv_top v = Suc (length fs)" "length (tv_path v) = HEIGHT_LIMIT"
    "take (Suc (length fs)) (tv_path v) = map fptr (rev fs) @ [Some a]"
    using Cons.prems(1) f by (auto simp: tv_ok_def)
  have len: "length fs < length (tv_path v)"
    using arg_cong [OF V(4), of length] by simp
  have nth: "tv_path v ! length fs = Some a" "take (length fs) (tv_path v) = map fptr (rev fs)"
    using V(4) len by (auto simp: take_Suc_conv_app_nth)
  have P: "tree_at h (plug fs ?n)" "distinct (addrs (plug fs ?n))" using Cons.prems(3,4) f by simp_all
  have ok: "tv_ok ?v fs ?n" using V(3) nth(2) by (simp add: tv_ok_def)
  have n: "tree_at h ?n" using tree_plug P(1) .
  have rd: "rd (tv_path v) (int (length fs)) = Some (Some a)" using nth(1) len by simp
  show ?case
  proof (cases "e = d")
    case True
    have "link_of h (Some a) d = Some (rootp t)" using tree_link n True by blast
    then have "tv_up h d v = tv_up h d ?v" using V(1,2) rd by (subst tv_up.simps) simp
    moreover have "?n \<noteq> Lf" by (simp add: nd_def)
    ultimately show ?thesis using Cons.IH [OF ok _ P] f True by simp
  next
    case False
    then have e: "e = (\<not> d)" by auto
    have "distinct (addrs ?n)" using distinct_plug P(2) .
    then have "rootp s \<noteq> rootp t"
      using Cons.prems(2) rootp_in [of t] rootp_in [of s] by (cases t) auto
    moreover have "link_of h (Some a) d = Some (rootp s)" using tree_link_other [of h e] n e by simp
    ultimately have "tv_up h d v = Some ?v" using V(1,2) rd by (subst tv_up.simps) simp
    moreover have "tv_at (plug fs ?n) d ?v x (inod d s @ beyond d fs)"
      using ok nd_other [of d a c x t s] e unfolding tv_at_def
      by (intro exI [of _ fs] exI [of _ a] exI [of _ c] exI [of _ t] exI [of _ s]) simp
    ultimately show ?thesis using f e by (simp add: tv_next_def)
  qed
qed

lemma tv_next_data:
  assumes "tv_next T d v ys" "tree_at h T"
  shows "tv_data h v = Some (v, case ys of [] \<Rightarrow> None | p # _ \<Rightarrow> snd p)"
proof (cases ys)
  case (Cons p zs)
  then obtain fs a c s t where "T = plug fs (nd d a c (snd p) s t)" "tv_ok v fs (nd d a c (snd p) s t)"
    using assms(1) by (auto simp: tv_next_def tv_at_def)
  then show ?thesis using tree_plug [of h fs "nd d a c (snd p) s t"] assms(2) Cons
    by (auto simp: tv_data_def tv_ok_def)
qed (use assms in \<open>simp add: tv_next_def tv_data_def\<close>)

lemma rb_move_ok:
  assumes A: "tv_at T d v x ys" and T: "tree_at h T" "distinct (addrs T)" "ht T \<le> HEIGHT_LIMIT"
  obtains v' where "rb_move h v d = Some (v', case ys of [] \<Rightarrow> None | p # _ \<Rightarrow> snd p)" "tv_next T d v' ys"
proof -
  obtain fs a c s t where t: "T = plug fs (nd d a c x s t)" "tv_ok v fs (nd d a c x s t)" "ys = inod d t @ beyond d fs"
    using A by (auto simp: tv_at_def)
  have n: "tree_at h (nd d a c x s t)" using tree_plug T(1) t(1) by blast
  have L: "link_of h (tv_it v) d = Some (rootp t)" using tree_link [OF n] t(2) by (simp add: tv_ok_def)
  have ht: "length fs + Suc (ht t) \<le> HEIGHT_LIMIT"
    using ht_plug [of fs "nd d a c x s t"] T(3) t(1) by (simp add: ht_nd)
  have "\<exists>v'. (if rootp t \<noteq> None then Option.bind (tv_push v (rootp t)) (tv_down h (\<not> d)) else tv_up h d v) = Some v' \<and>
      tv_next T d v' ys"
  proof (cases "t = Lf")
    case True
    obtain v' where "tv_up h d v = Some v'" "tv_next T d v' (beyond d fs)"
      using tv_up_ok [OF t(2) nd_not_Lf, of h d] T t(1) by auto
    then show ?thesis using True t(3) by simp
  next
    case False
    obtain v1 where v1: "tv_push v (rootp t) = Some v1" "tv_ok v1 (Fr a c x d s # fs) t"
      using tv_push_ok [OF t(2)] ht by auto
    then obtain v' z zs p where "tv_down h (\<not> d) v1 = Some v'" "tv_at T d v' z zs" "ys = (p, z) # zs"
      using tv_down_ok [OF v1(2) False, of h d] n ht t(1,3) by (auto simp: nd_inv)
    then show ?thesis using False v1(1) by (simp add: tv_next_def)
  qed
  then obtain v' where "(if rootp t \<noteq> None then Option.bind (tv_push v (rootp t)) (tv_down h (\<not> d)) else tv_up h d v) = Some v'"
    "tv_next T d v' ys" by blast
  moreover have "tv_data h v' = Some (v', case ys of [] \<Rightarrow> None | p # _ \<Rightarrow> snd p)"
    using tv_next_data calculation(2) T(1) by blast
  ultimately show ?thesis using that L by (simp add: rb_move_def del: not_None_eq)
qed

lemma rb_start_ok:
  assumes T: "rb_root t = rootp T" "tree_at (rb_heap t) T" "ht T \<le> HEIGHT_LIMIT"
    and v: "length (tv_path v) = HEIGHT_LIMIT"
  obtains v' where "rb_start v t (\<not> d) = Some (v', case inod d T of [] \<Rightarrow> None | p # _ \<Rightarrow> snd p)"
    "tv_next T d v' (inod d T)"
proof -
  let ?v = "v\<lparr>tv_it := rb_root t, tv_top := 0\<rparr>"
  have "\<exists>v'. (if tv_it ?v \<noteq> None then tv_down (rb_heap t) (\<not> d) ?v else Some ?v) = Some v' \<and> tv_next T d v' (inod d T)"
  proof (cases "T = Lf")
    case True
    then show ?thesis using T(1) v by (simp add: tv_next_def)
  next
    case False
    have "tv_ok ?v [] T" using T(1) v by (simp add: tv_ok_def)
    then obtain v' x ys p where "tv_down (rb_heap t) (\<not> d) ?v = Some v'" "tv_at T d v' x ys" "inod d T = (p, x) # ys"
      using tv_down_ok [of ?v "[]" T "rb_heap t" d] False T by auto
    then show ?thesis using False T(1) by (simp add: tv_next_def)
  qed
  then obtain v' where "(if tv_it ?v \<noteq> None then tv_down (rb_heap t) (\<not> d) ?v else Some ?v) = Some v'"
    "tv_next T d v' (inod d T)" by blast
  moreover have "tv_data (rb_heap t) v' = Some (v', case inod d T of [] \<Rightarrow> None | p # _ \<Rightarrow> snd p)"
    using tv_next_data calculation(2) T(2) by blast
  ultimately show ?thesis using that by (simp add: rb_start_def)
qed

text \<open>The loop of the clients: the first value, then the next one until there is none.\<close>

partial_function (option) visit_rest :: "rb_heap \<Rightarrow> rb_trav \<Rightarrow> bool \<Rightarrow> ptr list option" where
  "visit_rest h v d = do {
     (v, p) \<leftarrow> rb_move h v d;
     if p = None then Some [] else do { ps \<leftarrow> visit_rest h v d; Some (p # ps) } }"

definition visit_all :: "rb_trav \<Rightarrow> rb_tree \<Rightarrow> bool \<Rightarrow> ptr list option" where
  "visit_all v t d = do {
     (v, p) \<leftarrow> rb_start v t (\<not> d);
     if p = None then Some [] else do { ps \<leftarrow> visit_rest (rb_heap t) v d; Some (p # ps) } }"

lemma visit_rest_ok:
  "\<lbrakk>tv_at T d v x ys; tree_at h T; distinct (addrs T); ht T \<le> HEIGHT_LIMIT; None \<notin> snd ` set ys\<rbrakk> \<Longrightarrow>
   visit_rest h v d = Some (map snd ys)"
proof (induction ys arbitrary: v x)
  case Nil
  then obtain v' where "rb_move h v d = Some (v', None)" using rb_move_ok [OF Nil.prems(1-4)] by auto
  then show ?case by (subst visit_rest.simps) simp
next
  case (Cons p ys)
  obtain v' where v': "rb_move h v d = Some (v', snd p)" "tv_next T d v' (p # ys)"
    using rb_move_ok [OF Cons.prems(1-4)] by auto
  then have "visit_rest h v' d = Some (map snd ys)" using Cons by (simp add: tv_next_def)
  then show ?case using v'(1) Cons.prems(5) by (subst visit_rest.simps) auto
qed

lemma visit_all_ok:
  assumes I: "rb_inv key t T" and n: "length (ino T) < 2 ^ 32" and nn: "None \<notin> set (vals T)"
    and v: "length (tv_path v) = HEIGHT_LIMIT"
  shows "visit_all v t d = Some (map snd (inod d T))"
proof -
  have T: "rb_root t = rootp T" "tree_at (rb_heap t) T" "distinct (addrs T)" "ht T \<le> HEIGHT_LIMIT"
    using I height_limit n by (auto simp: rb_inv_def)
  obtain v' where S: "rb_start v t (\<not> d) = Some (v', case inod d T of [] \<Rightarrow> None | p # _ \<Rightarrow> snd p)"
    "tv_next T d v' (inod d T)"
    using rb_start_ok [OF T(1,2,4) v] .
  have nn': "None \<notin> snd ` set (inod d T)" using nn by (auto simp: inod_def vals_def)
  show ?thesis
  proof (cases "inod d T")
    case Nil
    then show ?thesis using S(1) by (simp add: visit_all_def)
  next
    case (Cons p ys)
    have "visit_rest (rb_heap t) v' d = Some (map snd ys)"
      using visit_rest_ok [OF _ T(2-4)] S(2) Cons nn' by (auto simp: tv_next_def)
    then show ?thesis using S(1) Cons nn' by (auto simp: visit_all_def)
  qed
qed

section \<open>Destruction\<close>

text \<open>Rotations keep the order of the values; a node without a left child is released.\<close>

fun lsize :: "rbt \<Rightarrow> nat" where
  "lsize Lf = 0"
| "lsize (Nd a c x l r) = size l"

lemma delete_loop_ok:
  "\<lbrakk>tree_at h t; distinct (addrs t); dom h = set (addrs t)\<rbrakk> \<Longrightarrow>
   rb_delete_loop h (rootp t) = Some (Map.empty, map snd (ino t))"
proof (induction t arbitrary: h rule: wf_induct_rule [OF wf_measures [of "[size, lsize]"]])
  case (1 t)
  show ?case
  proof (cases t)
    case Lf
    then show ?thesis using 1(2-) by (subst rb_delete_loop.simps) simp
  next
    case (Nd a c x l r)
    show ?thesis
    proof (cases l)
      case Lf
      have "dom (h(a := None)) = set (addrs r)" using 1(3,4) Nd Lf by simp
      then have "rb_delete_loop (h(a := None)) (rootp r) = Some (Map.empty, map snd (ino r))"
        using 1(2,3) Nd Lf by (intro 1(1)) (simp_all del: fun_upd_apply)
      then show ?thesis using 1(2) Nd Lf by (subst rb_delete_loop.simps) simp
    next
      case l: (Nd b cb y l1 l2)
      let ?t = "Nd b cb y l1 (Nd a c x l2 r)"
      let ?h = "h(a \<mapsto> \<lparr>rb_red = c, rb_data = x, rb_link = lk (rootp l2) (rootp r)\<rparr>,
        b \<mapsto> \<lparr>rb_red = cb, rb_data = y, rb_link = lk (rootp l1) (Some a)\<rparr>)"
      have h: "h a = Some \<lparr>rb_red = c, rb_data = x, rb_link = lk (Some b) (rootp r)\<rparr>"
        "h b = Some \<lparr>rb_red = cb, rb_data = y, rb_link = lk (rootp l1) (rootp l2)\<rparr>" "a \<noteq> b"
        and T: "tree_at h l1" "tree_at h l2" "tree_at h r" and D: "distinct (addrs ?t)" "dom h = set (addrs ?t)"
        using 1(2-) Nd l by auto
      have tr: "tree_at ?h ?t" using T D(1) h(3) by simp
      have dm: "dom ?h = set (addrs ?t)" using D(2) by auto
      have "(?t, t) \<in> measures [size, lsize]" using Nd l by simp
      from 1(1) [OF this tr D(1) dm]
      have "rb_delete_loop ?h (Some b) = Some (Map.empty, map snd (ino ?t))" by (simp only: rootp.simps)
      moreover have "rb_delete_loop h (Some a) = rb_delete_loop ?h (Some b)"
        using h by (subst rb_delete_loop.simps) simp
      ultimately show ?thesis using Nd l by simp
    qed
  qed
qed

lemma jsw_rbdelete_ok:
  "rb_inv key t T \<Longrightarrow> jsw_rbdelete t = Some (Map.empty, vals T)"
  using delete_loop_ok [of "rb_heap t" T] by (simp add: rb_inv_def jsw_rbdelete_def vals_def)

end
