(* ===== verification/RbSet.thy ===== *)
theory RbSet
  imports RbInsert RbErase RbTraverse
begin

text \<open>
  The red-black tree of \<open>RbTree\<close> as a sorted set of values, one for each key: insertion, removal,
  search, traversal and destruction together, for every sequence of operations.
\<close>

section \<open>The values by key\<close>

definition vmap :: "(ptr \<Rightarrow> 'k) \<Rightarrow> ptr list \<Rightarrow> 'k \<Rightarrow> ptr option" where
  "vmap key xs = map_of (map (\<lambda>x. (key x, x)) xs)"

lemma vmap_simps [simp]:
  "vmap key [] = Map.empty"
  "vmap key (x # xs) = (vmap key xs)(key x \<mapsto> x)"
  by (simp_all add: vmap_def)

lemma vmap_insert: "key x \<notin> key ` set (l @ r) \<Longrightarrow> vmap key (l @ x # r) = (vmap key (l @ r))(key x \<mapsto> x)"
  by (induction l) (auto simp: fun_upd_twist)

lemma vmap_None: "vmap key xs k = None \<longleftrightarrow> k \<notin> key ` set xs"
  by (induction xs) auto

lemma vmap_delete:
  assumes "key x \<notin> key ` set (l @ r)"
  shows "vmap key (l @ r) = (vmap key (l @ x # r))(key x := None)"
proof -
  have "vmap key (l @ r) (key x) = None" using assms vmap_None by metis
  then show ?thesis using vmap_insert [OF assms] by (simp add: fun_upd_idem)
qed

lemma vmap_first:
  "(case filter (\<lambda>p. key (snd p) = k) ps of [] \<Rightarrow> None | p # _ \<Rightarrow> snd p) =
   (case vmap key (map snd ps) k of None \<Rightarrow> None | Some x \<Rightarrow> x)"
  by (induction ps) auto

lemma sorted_keys_distinct: "keys_sorted key ps \<Longrightarrow> distinct (map key (map snd ps))"
  by (induction ps) (auto simp: image_iff)

lemma vals_distinct: "rb_inv key t T \<Longrightarrow> distinct (map key (vals T))"
  using sorted_keys_distinct [of key "ino T"] by (simp add: rb_inv_def vals_def)

lemma vals_sorted: "rb_inv key t T \<Longrightarrow> sorted_wrt (\<lambda>x y. key x < key y) (vals T)"
  by (simp add: rb_inv_def vals_def keys_sorted_def sorted_wrt_map)

section \<open>Sequences of operations\<close>

datatype rb_op = Insert ptr | Erase ptr

text \<open>The allocator \<open>alloc\<close> chooses a free address from the nodes in use.\<close>

fun rb_step :: "cmp_f \<Rightarrow> dup_f \<Rightarrow> addr \<Rightarrow> (rb_heap \<Rightarrow> addr) \<Rightarrow> rb_op \<Rightarrow> rb_tree \<Rightarrow> rb_tree option" where
  "rb_step cmp dup hd0 alloc (Insert v) t = map_option fst (jsw_rbinsert cmp dup hd0 [alloc (rb_heap t)] t v)"
| "rb_step cmp dup hd0 alloc (Erase v) t = map_option fst (jsw_rberase cmp hd0 t v)"

fun rb_steps :: "cmp_f \<Rightarrow> dup_f \<Rightarrow> addr \<Rightarrow> (rb_heap \<Rightarrow> addr) \<Rightarrow> rb_op list \<Rightarrow> rb_tree \<Rightarrow> rb_tree option" where
  "rb_steps cmp dup hd0 alloc [] t = Some t"
| "rb_steps cmp dup hd0 alloc (op # ops) t =
     Option.bind (rb_step cmp dup hd0 alloc op t) (rb_steps cmp dup hd0 alloc ops)"

text \<open>The abstract operation: an insertion keeps the value that is there.\<close>

fun rb_spec :: "(ptr \<Rightarrow> 'k) \<Rightarrow> dup_f \<Rightarrow> rb_op \<Rightarrow> ('k \<Rightarrow> ptr option) \<Rightarrow> 'k \<Rightarrow> ptr option" where
  "rb_spec key dup (Insert v) m = (if m (key v) = None then m(key v \<mapsto> dup v) else m)"
| "rb_spec key dup (Erase v) m = m(key v := None)"

definition good_alloc :: "addr \<Rightarrow> (rb_heap \<Rightarrow> addr) \<Rightarrow> bool" where
  "good_alloc hd0 alloc \<longleftrightarrow> (\<forall>h. finite (dom h) \<longrightarrow> h (alloc h) = None \<and> alloc h \<noteq> hd0)"

lemma ins_vmap:
  assumes "ins_result key dup v (a # as) xs ys True" "key (dup v) = key v"
  shows "vmap key (map snd ys) = rb_spec key dup (Insert v) (vmap key (map snd xs))"
proof (cases "\<exists>p\<in>set xs. key (snd p) = key v")
  case True
  then obtain p where "p \<in> set xs" "key (snd p) = key v" by blast
  then have "key v \<in> key ` set (map snd xs)" by (metis imageI image_set)
  then have "vmap key (map snd xs) (key v) \<noteq> None" using vmap_None by metis
  moreover have "ys = xs" using assms(1) True by (auto simp: ins_result_def)
  ultimately show ?thesis by auto
next
  case False
  then have "\<exists>l r. xs = l @ r \<and> ys = l @ (a, dup v) # r" using assms(1) by (auto simp: ins_result_def)
  then obtain l r where lr: "xs = l @ r" "ys = l @ (a, dup v) # r" by blast
  have n: "key v \<notin> key ` set (map snd xs)" using False by auto
  then have "vmap key (map snd xs) (key v) = None" using vmap_None by metis
  moreover have "vmap key (map snd ys) = (vmap key (map snd xs))(key v \<mapsto> dup v)"
    using vmap_insert [of key "dup v" "map snd l" "map snd r"] n lr assms(2) by simp
  ultimately show ?thesis by simp
qed

lemma er_vmap:
  assumes "er_result key (key v) xs ys rels" "distinct (map key xs)"
  shows "vmap key ys = rb_spec key dup (Erase v) (vmap key xs)"
proof (cases "key v \<in> key ` set xs")
  case True
  then obtain l x r where "xs = l @ x # r" "ys = l @ r" "key x = key v"
    using assms(1) by (auto simp: er_result_def)
  then show ?thesis using vmap_delete [of key x l r] assms(2) by auto
next
  case False
  then show ?thesis using assms(1) vmap_None [of key xs "key v"] by (auto simp: er_result_def fun_upd_idem)
qed

lemma rb_step_ok:
  assumes O: "rb_order cmp key" and D: "\<And>v. key (dup v) = key v" and A: "good_alloc hd0 alloc"
    and I: "rb_inv key t T" "rb_heap t hd0 = None"
  obtains t' T' where "rb_step cmp dup hd0 alloc op t = Some t'" "rb_inv key t' T'" "rb_heap t' hd0 = None"
    "vmap key (vals T') = rb_spec key dup op (vmap key (vals T))"
proof (cases op)
  case (Insert v)
  have V: "rb_values cmp key dup v" using O D by (simp add: rb_values_def rb_values_axioms_def)
  have fin: "finite (dom (rb_heap t))" using I(1) by (simp add: rb_inv_def)
  let ?a = "alloc (rb_heap t)"
  have a: "rb_heap t ?a = None" "?a \<noteq> hd0" using A fin by (auto simp: good_alloc_def)
  obtain t' T' where R: "jsw_rbinsert cmp dup hd0 [?a] t v = Some (t', 1)" "rb_inv key t' T'"
    "ins_result key dup v [?a] (ino T) (ino T') True" "rb_heap t' hd0 = None"
    by (rule rb_values.rbinsert_inv [OF V I, of "[?a]"]) (use a in auto)
  then show ?thesis using that ins_vmap [of key dup v ?a "[]" "ino T" "ino T'"] D Insert
    by (simp add: vals_def)
next
  case (Erase v)
  obtain t' T' rels where R: "jsw_rberase cmp hd0 t v = Some (t', rels, 1)" "rb_inv key t' T'"
    "er_result key (key v) (vals T) (vals T') rels" "rb_heap t' hd0 = None"
    by (rule rb_order.rberase_inv [OF O I])
  then show ?thesis using that er_vmap [of key v "vals T" "vals T'" rels] vals_distinct [OF I(1)] Erase by simp
qed

lemma rb_steps_ok:
  assumes O: "rb_order cmp key" and D: "\<And>v. key (dup v) = key v" and A: "good_alloc hd0 alloc"
  shows "rb_inv key t T \<Longrightarrow> rb_heap t hd0 = None \<Longrightarrow>
    \<exists>t' T'. rb_steps cmp dup hd0 alloc ops t = Some t' \<and> rb_inv key t' T' \<and> rb_heap t' hd0 = None \<and>
      vmap key (vals T') = fold (rb_spec key dup) ops (vmap key (vals T))"
proof (induction ops arbitrary: t T)
  case (Cons op ops)
  obtain t1 T1 where S: "rb_step cmp dup hd0 alloc op t = Some t1" "rb_inv key t1 T1" "rb_heap t1 hd0 = None"
    "vmap key (vals T1) = rb_spec key dup op (vmap key (vals T))"
    by (rule rb_step_ok [OF O D A Cons.prems])
  from Cons.IH [OF S(2,3)] show ?case using S(1,4) by auto
qed auto

text \<open>A search returns the value of the key, or NULL.\<close>

lemma rbfind_vmap:
  assumes "rb_order cmp key" "rb_inv key t T"
  shows "jsw_rbfind cmp t v = Some (case vmap key (vals T) (key v) of None \<Rightarrow> None | Some x \<Rightarrow> x)"
  using rb_order.find_tree [OF assms(1), of "rb_heap t" T v] assms(2) vmap_first [of key "key v" "ino T"]
  by (simp add: rb_inv_def jsw_rbfind_def vals_def)

section \<open>Properties\<close>

text \<open>Values compared by their addresses, for the examples.\<close>

definition addr_key :: "ptr \<Rightarrow> nat" where
  "addr_key p = (case p of None \<Rightarrow> 0 | Some a \<Rightarrow> a)"

definition addr_cmp :: cmp_f where
  "addr_cmp p q = int (addr_key p) - int (addr_key q)"

definition next_free :: "'n heap \<Rightarrow> addr" where
  "next_free h = Suc (Max (insert 0 (dom h)))"

lemma addr_order: "rb_order addr_cmp addr_key"
  by unfold_locales (auto simp: addr_cmp_def)

lemma next_free_fresh: "finite (dom h) \<Longrightarrow> h (next_free h) = None"
proof (rule ccontr)
  assume "finite (dom h)" "h (next_free h) \<noteq> None"
  then have "next_free h \<le> Max (insert 0 (dom h))" by (intro Max_ge) auto
  then show False by (simp add: next_free_def)
qed

lemma next_free_good: "good_alloc 0 next_free"
  by (simp add: good_alloc_def next_free_fresh) (simp add: next_free_def)

text \<open>
  C2: On an empty tree every sequence of insertions and removals succeeds, with any comparison that
  orders the values by a key and any allocator that has memory for every node. It leaves a valid red-black tree that is sorted, has no node
  besides those of the tree, and in which a search finds what the operations say: an insertion
  stores a copy unless the key is there, a removal removes the key.
\<close>

theorem rbtree_sorted_set:
  assumes "rb_order cmp key" "\<And>v. key (dup v) = key v" "good_alloc hd0 alloc"
  shows "\<exists>t T. rb_steps cmp dup hd0 alloc ops jsw_rbnew = Some t \<and> rb_inv key t T \<and>
    (\<forall>v. jsw_rbfind cmp t v =
       Some (case fold (rb_spec key dup) ops Map.empty (key v) of None \<Rightarrow> None | Some x \<Rightarrow> x))"
proof -
  have "rb_heap jsw_rbnew hd0 = None" by (simp add: jsw_rbnew_def)
  from rb_steps_ok [OF assms rb_inv_new this, of ops] obtain t T where
    "rb_steps cmp dup hd0 alloc ops jsw_rbnew = Some t" "rb_inv key t T"
    "vmap key (vals T) = fold (rb_spec key dup) ops Map.empty"
    by (auto simp: vals_def)
  then show ?thesis using rbfind_vmap [OF assms(1)] by auto
qed

lemma rbtree_sorted_set_witness:
  "\<exists>t. rb_steps addr_cmp id 0 next_free [Insert (Some 5), Insert (Some 3), Insert (Some 5), Erase (Some 3)] jsw_rbnew = Some t \<and>
     jsw_rbfind addr_cmp t (Some 5) = Some (Some 5) \<and> jsw_rbfind addr_cmp t (Some 3) = Some None"
  using rbtree_sorted_set [OF addr_order _ next_free_good, of id
      "[Insert (Some 5), Insert (Some 3), Insert (Some 5), Erase (Some 3)]"]
  by (auto simp: addr_key_def)

text \<open>
  C18: In a valid tree of fewer than \<open>2 ^ 32\<close> values the traversal stays inside its path of 64
  nodes and visits the values in the order of their keys, from both ends; the destruction releases every
  value once, in order, and every node.
\<close>

theorem rbtree_traversal:
  assumes "rb_inv key t T" "length (vals T) < 2 ^ 32" "None \<notin> set (vals T)" "length (tv_path v) = HEIGHT_LIMIT"
  shows "visit_all v t True = Some (vals T) \<and> visit_all v t False = Some (rev (vals T)) \<and>
    sorted_wrt (\<lambda>x y. key x < key y) (vals T) \<and> jsw_rbdelete t = Some (Map.empty, vals T)"
proof -
  have "length (ino T) < 2 ^ 32" using assms(2) by (simp add: vals_def)
  then have "visit_all v t True = Some (vals T)" "visit_all v t False = Some (rev (vals T))"
    using visit_all_ok [OF assms(1) _ assms(3,4)] by (simp_all add: inod_def vals_def rev_map)
  then show ?thesis using vals_sorted jsw_rbdelete_ok assms(1) by blast
qed

text \<open>A tree of the values 3, 5, 7, 10, 15, 20 and 30 at these addresses.\<close>

definition demo_T :: rbt where
  "demo_T = Nd 20 False (Some 20)
     (Nd 10 True (Some 10) (Nd 5 False (Some 5) (Nd 3 True (Some 3) Lf Lf) (Nd 7 True (Some 7) Lf Lf))
        (Nd 15 False (Some 15) Lf Lf))
     (Nd 30 False (Some 30) Lf Lf)"

definition demo_tree :: rb_tree where
  "demo_tree = \<lparr>rb_root = Some 20, rb_size = 7, rb_heap =
     [20 \<mapsto> \<lparr>rb_red = False, rb_data = Some 20, rb_link = lk (Some 10) (Some 30)\<rparr>,
      10 \<mapsto> \<lparr>rb_red = True, rb_data = Some 10, rb_link = lk (Some 5) (Some 15)\<rparr>,
      5 \<mapsto> \<lparr>rb_red = False, rb_data = Some 5, rb_link = lk (Some 3) (Some 7)\<rparr>,
      3 \<mapsto> \<lparr>rb_red = True, rb_data = Some 3, rb_link = lk None None\<rparr>,
      7 \<mapsto> \<lparr>rb_red = True, rb_data = Some 7, rb_link = lk None None\<rparr>,
      15 \<mapsto> \<lparr>rb_red = False, rb_data = Some 15, rb_link = lk None None\<rparr>,
      30 \<mapsto> \<lparr>rb_red = False, rb_data = Some 30, rb_link = lk None None\<rparr>]\<rparr>"

lemma demo_inv: "rb_inv addr_key demo_tree demo_T"
  by (simp add: rb_inv_def demo_tree_def demo_T_def addr_key_def insert_commute)

lemma rbtree_traversal_witness:
  "visit_all (jsw_rbtnew None (replicate 64 None) 0) demo_tree True =
     Some [Some 3, Some 5, Some 7, Some 10, Some 15, Some 20, Some 30]"
  using rbtree_traversal [OF demo_inv, of "jsw_rbtnew None (replicate 64 None) 0"]
  by (simp add: demo_T_def vals_def jsw_rbtnew_def HEIGHT_LIMIT_def)

lemma insert_present:
  assumes "rb_order cmp key" "rb_inv key t T" "rb_heap t hd0 = None" "key v \<in> key ` set (vals T)" "key (dup v) = key v"
  shows "\<exists>t' T'. jsw_rbinsert cmp dup hd0 [] t v = Some (t', 1) \<and> rb_inv key t' T' \<and> vals T' = vals T \<and>
    rb_size t' = rb_size t + 1"
proof -
  have V: "rb_values cmp key dup v" using assms(1,5) by (simp add: rb_values_def rb_values_axioms_def)
  obtain p where p: "p \<in> set (ino T)" "key (snd p) = key v" using assms(4) by (force simp: vals_def)
  obtain t' T' where "jsw_rbinsert cmp dup hd0 [] t v = Some (t', 1)" "rb_inv key t' T'"
    "rb_size t' = rb_size t + 1" "ins_result key dup v [] (ino T) (ino T') True"
    by (rule rb_values.rbinsert_inv [OF V assms(2,3), of "[]"]) (use p in auto)
  moreover have "\<exists>p\<in>set (ino T). key (snd p) = key v" using p by blast
  then have "ino T' = ino T" using calculation(4) by (simp add: ins_result_def)
  ultimately show ?thesis by (auto simp: vals_def)
qed

lemma erase_absent:
  assumes "rb_order cmp key" "rb_inv key t T" "rb_heap t hd0 = None" "key v \<notin> key ` set (vals T)" "T \<noteq> Lf"
  shows "\<exists>t' T'. jsw_rberase cmp hd0 t v = Some (t', [], 1) \<and> rb_inv key t' T' \<and> vals T' = vals T \<and>
    rb_size t' = rb_size t - 1"
proof -
  obtain t' T' rels where "jsw_rberase cmp hd0 t v = Some (t', rels, 1)" "rb_inv key t' T'"
    "rb_size t' = (if T = Lf then rb_size t else rb_size t - 1)" "er_result key (key v) (vals T) (vals T') rels"
    by (rule rb_order.rberase_inv [OF assms(1-3)])
  then show ?thesis using assms(4,5) by (auto simp: er_result_def)
qed

text \<open>
  The recorded size is not the number of values: inserting a key that is there changes nothing
  but counts up, removing a key that is not there changes no value but counts down.
\<close>

theorem rb_size_drifts:
  assumes "rb_order cmp key" "rb_inv key t T" "rb_heap t hd0 = None" "T \<noteq> Lf" "key (dup v) = key v"
  shows "\<exists>t' T'. rb_inv key t' T' \<and> vals T' = vals T \<and>
    (if key v \<in> key ` set (vals T) then jsw_rbinsert cmp dup hd0 [] t v = Some (t', 1) \<and> rb_size t' = rb_size t + 1
     else jsw_rberase cmp hd0 t v = Some (t', [], 1) \<and> rb_size t' = rb_size t - 1)"
proof (cases "key v \<in> key ` set (vals T)")
  case True
  then show ?thesis using insert_present [of cmp key t T hd0 v dup] assms True by auto
next
  case False
  then show ?thesis using erase_absent [of cmp key t T hd0 v] assms False by auto
qed

lemma rb_size_drifts_witness:
  "(\<exists>t'. jsw_rbinsert addr_cmp id 0 [] demo_tree (Some 7) = Some (t', 1) \<and> rb_size t' = 8) \<and>
   (\<exists>t'. jsw_rberase addr_cmp 0 demo_tree (Some 4) = Some (t', [], 1) \<and> rb_size t' = 6)"
  using rb_size_drifts [OF addr_order demo_inv, of 0 id "Some 7"] rb_size_drifts [OF addr_order demo_inv, of 0 id "Some 4"]
  by (auto simp: demo_tree_def demo_T_def vals_def addr_key_def)

text \<open>
  An insertion whose allocation fails reports the failure but can lose values: a rotation at the
  root has already been made, and the root of the tree is not updated.
\<close>

theorem rb_insert_failed_loses:
  "\<exists>t'. jsw_rbinsert addr_cmp id 0 [] demo_tree (Some 1) = Some (t', 0) \<and>
     jsw_rbfind addr_cmp demo_tree (Some 5) = Some (Some 5) \<and> jsw_rbfind addr_cmp t' (Some 5) = Some None"
  by (simp add: jsw_rbinsert_def demo_tree_def ins_loop.simps ins_visit_def ins_fix_def new_node_def jsw_single_def
      addr_cmp_def addr_key_def rb_head_def jsw_rbfind_def find_loop.simps)

end
