(* ===== verification/Devices.thy ===== *)
theory Devices
  imports RbSet
begin

text \<open>
  The registry of devices, \<^verbatim>\<open>udpclient/udpserver/function.c\<close>: a red-black tree of copies of device
  structures, compared by their address on the network, and the sequence numbers kept in them. The
  devices live in a heap of their own; the addresses of new devices and nodes are arguments.
\<close>

section \<open>The program\<close>

record dev_info =
  dev_name :: "u8 list"
  dev_version :: u32
  dev_type :: u32
  dev_factory :: u32
  dev_runtime :: u32

text \<open>The arrays \<^verbatim>\<open>key\<close>, \<^verbatim>\<open>iv\<close> and \<^verbatim>\<open>hmac_key\<close> are one block; the key object is its encoding.\<close>

record device =
  remote_ip :: u32
  dev_port :: u16
  dev_sn :: u32
  dev_inuse :: bool
  dev_online :: bool
  dev_mark :: bool
  dev_keys :: "u8 list"
  dev_eckey :: "u8 list option"
  dev_old_time :: int
  dev_inf :: dev_info

record registry =
  rg_devs :: "device heap"
  rg_tree :: rb_tree

definition ip_of :: "device heap \<Rightarrow> ptr \<Rightarrow> u32" where
  "ip_of ds p = (case deref ds p of None \<Rightarrow> 0 | Some d \<Rightarrow> remote_ip d)"

text \<open>Every pointer that is compared is live (\<open>reg_inv\<close> below).\<close>

definition centroid_cmp :: "device heap \<Rightarrow> cmp_f" where
  "centroid_cmp ds p1 p2 =
     (if ip_of ds p1 > ip_of ds p2 then 1 else if ip_of ds p1 < ip_of ds p2 then -1 else 0)"

text \<open>The copy is made at the address \<open>a\<close>.\<close>

definition centroid_copy :: "addr \<Rightarrow> ptr \<Rightarrow> device heap \<Rightarrow> device heap" where
  "centroid_copy a p ds = ds(a := deref ds p)"

definition centroid_dup :: "addr \<Rightarrow> dup_f" where
  "centroid_dup a p = Some a"

definition centroidset_new :: registry where
  "centroidset_new = \<lparr>rg_devs = Map.empty, rg_tree = jsw_rbnew\<rparr>"

text \<open>
  The copy exists when the tree has made a node for it. \<open>oc\<close> is the outcome of its \<^verbatim>\<open>calloc\<close>, which is not
  tested: the bytes are then moved to the null pointer.
\<close>

definition centroidset_insert ::
  "addr \<Rightarrow> addr list \<Rightarrow> bool \<Rightarrow> addr \<Rightarrow> ptr \<Rightarrow> registry \<Rightarrow> (registry \<times> int) option" where
  "centroidset_insert hd0 news oc a pt r = do {
     let ds = centroid_copy a pt (rg_devs r);
     (t, ret) \<leftarrow> jsw_rbinsert (centroid_cmp ds) (centroid_dup a) hd0 news (rg_tree r) pt;
     let made = (case news of [] \<Rightarrow> False | n # _ \<Rightarrow> rb_heap t n \<noteq> None);
     if made \<and> \<not> oc then None
     else Some (r\<lparr>rg_tree := t, rg_devs := (if made then ds else rg_devs r)\<rparr>, if ret = 0 then -1 else 0) }"

definition device_insert ::
  "addr \<Rightarrow> addr list \<Rightarrow> bool \<Rightarrow> addr \<Rightarrow> ptr \<Rightarrow> registry \<Rightarrow> (registry \<times> int) option" where
  "device_insert = centroidset_insert"

definition blank_device :: "u32 \<Rightarrow> device" where
  "blank_device ip = \<lparr>remote_ip = ip, dev_port = 0, dev_sn = 0, dev_inuse = False, dev_online = False,
     dev_mark = False, dev_keys = replicate 64 0, dev_eckey = None, dev_old_time = 0,
     dev_inf = \<lparr>dev_name = replicate 40 0, dev_version = 0, dev_type = 0, dev_factory = 0, dev_runtime = 0\<rparr>\<rparr>"

text \<open>The key is an automatic variable at the address \<open>tmp\<close>.\<close>

definition find_device :: "addr \<Rightarrow> u32 \<Rightarrow> registry \<Rightarrow> ptr option" where
  "find_device tmp ip r = jsw_rbfind (centroid_cmp ((rg_devs r)(tmp \<mapsto> blank_device ip))) (rg_tree r) (Some tmp)"

definition sn_ret :: "addr \<Rightarrow> u32 \<Rightarrow> registry \<Rightarrow> u32 option" where
  "sn_ret tmp ip r = do {
     element \<leftarrow> find_device tmp ip r;
     if element = None then Some (- 1)
     else do {
       d \<leftarrow> deref (rg_devs r) element;
       Some (if dev_sn d \<noteq> 0xFFFFFFFF then dev_sn d else 0) } }"

definition sn_set :: "addr \<Rightarrow> u32 \<Rightarrow> u32 \<Rightarrow> registry \<Rightarrow> registry option" where
  "sn_set tmp ip num r = do {
     element \<leftarrow> find_device tmp ip r;
     if element = None then Some r
     else do {
       ds \<leftarrow> modify (rg_devs r) element (\<lambda>d. d\<lparr>dev_sn := num\<rparr>);
       Some (r\<lparr>rg_devs := ds\<rparr>) } }"

text \<open>A packet's header, before the conversion to network order, its data and the receiver.\<close>

record packet =
  pk_type :: u8
  pk_version :: u8
  pk_company :: u8
  pk_sn :: u32
  pk_action :: u8
  pk_para :: u8
  pk_len :: u16
  pk_to :: "u32 \<times> u16"

text \<open>The packet is taken from \<^verbatim>\<open>balloc\<close>, whose result is not tested (\<open>ok\<close>).\<close>

definition print_packet :: "device heap \<Rightarrow> ptr \<Rightarrow> packet option" where
  "print_packet ds p = do {
     d \<leftarrow> deref ds p;
     Some \<lparr>pk_type = 1, pk_version = 1, pk_company = 4, pk_sn = 0, pk_action = 2, pk_para = 0, pk_len = 9,
       pk_to = (remote_ip d, dev_port d)\<rparr> }"

fun all_some :: "'a option list \<Rightarrow> 'a list option" where
  "all_some [] = Some []"
| "all_some (x # xs) = do { y \<leftarrow> x; ys \<leftarrow> all_some xs; Some (y # ys) }"

definition device_print :: "bool \<Rightarrow> rb_trav \<Rightarrow> registry \<Rightarrow> packet list option" where
  "device_print ok v r = do {
     ps \<leftarrow> visit_all v (rg_tree r) True;
     if ps \<noteq> [] \<and> \<not> ok then None else all_some (map (print_packet (rg_devs r)) ps) }"

text \<open>The first value is read but not printed.\<close>

definition centroidset_printset :: "rb_trav \<Rightarrow> registry \<Rightarrow> u32 list option" where
  "centroidset_printset v r = do {
     (v, _) \<leftarrow> jsw_rbtfirst v (rg_tree r);
     ps \<leftarrow> visit_rest (rb_heap (rg_tree r)) v True;
     all_some (map (\<lambda>p. map_option remote_ip (deref (rg_devs r) p)) ps) }"

text \<open>
  The configuration file: one device for each line with at least five fields. \<^verbatim>\<open>inet_addr\<close> is an
  argument. \<open>ok i\<close> holds the outcomes of the allocations for line \<open>i\<close>: the structure that is filled, the
  node of the tree and the copy in it. \<open>adev\<close> and \<open>anode\<close> choose the addresses of the objects that are made.
\<close>

record cfg_mem =
  cm_line :: bool
  cm_node :: bool
  cm_copy :: bool

definition DMS_PORT :: u16 where "DMS_PORT = 5000"

definition cstr :: "string \<Rightarrow> string" where
  "cstr s = takeWhile (\<lambda>c. c \<noteq> CHR 0x00) s"

definition strtok :: "string \<Rightarrow> (string \<times> string) option" where
  "strtok s =
     (let t = dropWhile (\<lambda>c. c = CHR '','') s in
      if t = [] then None
      else Some (takeWhile (\<lambda>c. c \<noteq> CHR '','') t, drop 1 (dropWhile (\<lambda>c. c \<noteq> CHR '','') t)))"

definition fifth_field :: "string \<Rightarrow> string option" where
  "fifth_field str = do {
     (_, s1) \<leftarrow> strtok str;
     (_, s2) \<leftarrow> strtok s1;
     (_, s3) \<leftarrow> strtok s2;
     (_, s4) \<leftarrow> strtok s3;
     (w, _) \<leftarrow> strtok s4;
     Some w }"

definition cfg_device :: "u32 \<Rightarrow> device" where
  "cfg_device ip = (blank_device 0)\<lparr>remote_ip := ip, dev_port := DMS_PORT, dev_inuse := True, dev_sn := 0,
     dev_old_time := 0, dev_online := False, dev_mark := False\<rparr>"

text \<open>The structure is cleared first; it is released when the line has too few fields only.\<close>

definition cfg_line ::
  "(string \<Rightarrow> u32) \<Rightarrow> addr \<Rightarrow> (device heap \<Rightarrow> addr) \<Rightarrow> (rb_heap \<Rightarrow> addr) \<Rightarrow> cfg_mem \<Rightarrow> string \<Rightarrow>
    registry \<Rightarrow> registry option" where
  "cfg_line inet_addr hd0 adev anode ok str r =
     (if \<not> cm_line ok then Some r
      else do {
        let p = adev (rg_devs r);
        let ds = (rg_devs r)(p \<mapsto> blank_device 0);
        case fifth_field (cstr str) of
          None \<Rightarrow> do { ds' \<leftarrow> release ds (Some p); Some (r\<lparr>rg_devs := ds'\<rparr>) }
        | Some w \<Rightarrow> do {
            ds' \<leftarrow> modify ds (Some p) (\<lambda>_. cfg_device (inet_addr w));
            let news = (if cm_node ok then [anode (rb_heap (rg_tree r))] else []);
            (r', ret) \<leftarrow> centroidset_insert hd0 news (cm_copy ok) (adev ds') (Some p) (r\<lparr>rg_devs := ds'\<rparr>);
            Some r' } })"

function cfg_lines :: "string \<Rightarrow> string list" where
  "cfg_lines s = (case fgets 256 s of None \<Rightarrow> [] | Some (l, rest, eof) \<Rightarrow> l # cfg_lines rest)"
  by auto
termination
  by (relation "measure length") (auto dest: fgets_split)

declare cfg_lines.simps [simp del]

fun cfg_loop ::
  "(string \<Rightarrow> u32) \<Rightarrow> addr \<Rightarrow> (device heap \<Rightarrow> addr) \<Rightarrow> (rb_heap \<Rightarrow> addr) \<Rightarrow> (nat \<Rightarrow> cfg_mem) \<Rightarrow> nat \<Rightarrow> string list \<Rightarrow>
    registry \<Rightarrow> registry option" where
  "cfg_loop inet_addr hd0 adev anode ok i [] r = Some r"
| "cfg_loop inet_addr hd0 adev anode ok i (l # ls) r = do {
     r' \<leftarrow> cfg_line inet_addr hd0 adev anode (ok i) l r;
     cfg_loop inet_addr hd0 adev anode ok (i + 1) ls r' }"

definition read_cfg ::
  "(string \<Rightarrow> u32) \<Rightarrow> addr \<Rightarrow> (device heap \<Rightarrow> addr) \<Rightarrow> (rb_heap \<Rightarrow> addr) \<Rightarrow> (nat \<Rightarrow> cfg_mem) \<Rightarrow> string option \<Rightarrow>
    registry \<Rightarrow> (registry \<times> int) option" where
  "read_cfg inet_addr hd0 adev anode ok config r =
     (case config of
        None \<Rightarrow> Some (r, -1)
      | Some txt \<Rightarrow> do { r' \<leftarrow> cfg_loop inet_addr hd0 adev anode ok 0 (cfg_lines txt) r; Some (r', 0) })"

section \<open>The order of the devices\<close>

interpretation devs: rb_order "centroid_cmp ds" "ip_of ds" for ds
  by unfold_locales (auto simp: centroid_cmp_def)

interpretation devs_copy: rb_values "centroid_cmp (centroid_copy a p ds)" "ip_of (centroid_copy a p ds)" "centroid_dup a" p
  for a p ds
  by unfold_locales (cases p; simp add: centroid_copy_def centroid_dup_def ip_of_def)

text \<open>The tree is valid, its values are live devices.\<close>

definition reg_inv :: "registry \<Rightarrow> rbt \<Rightarrow> bool" where
  "reg_inv r T \<longleftrightarrow> rb_inv (ip_of (rg_devs r)) (rg_tree r) T \<and> (\<forall>p\<in>set (vals T). deref (rg_devs r) p \<noteq> None)"

text \<open>The devices by their addresses.\<close>

definition reg_map :: "registry \<Rightarrow> rbt \<Rightarrow> u32 \<Rightarrow> device option" where
  "reg_map r T ip = Option.bind (vmap (ip_of (rg_devs r)) (vals T) ip) (deref (rg_devs r))"

lemma keys_sorted_cong:
  assumes "\<And>p. p \<in> set (map snd xs) \<Longrightarrow> key p = key' p"
  shows "keys_sorted key xs = keys_sorted key' xs"
  using assms by (induction xs) auto

lemma rb_inv_cong:
  assumes "\<And>p. p \<in> set (vals T) \<Longrightarrow> key p = key' p"
  shows "rb_inv key t T = rb_inv key' t T"
  using keys_sorted_cong [of "ino T" key key'] assms by (simp add: rb_inv_def vals_def)

lemma vmap_cong: "(\<And>p. p \<in> set xs \<Longrightarrow> key p = key' p) \<Longrightarrow> vmap key xs = vmap key' xs"
  by (induction xs) auto

text \<open>A device object that no value points to does not matter.\<close>

lemma ip_of_other: "p \<noteq> Some a \<Longrightarrow> ip_of (ds(a := x)) p = ip_of ds p"
  by (cases p) (simp_all add: ip_of_def)

lemma live_other: "\<forall>p\<in>set (vals T). deref ds p \<noteq> None \<Longrightarrow> ds a = None \<Longrightarrow> p \<in> set (vals T) \<Longrightarrow> p \<noteq> Some a"
  by auto

lemma find_device_ok:
  assumes I: "reg_inv r T" and tmp: "rg_devs r tmp = None"
  shows "find_device tmp ip r = Some (case vmap (ip_of (rg_devs r)) (vals T) ip of None \<Rightarrow> None | Some p \<Rightarrow> p)"
proof -
  let ?ds = "(rg_devs r)(tmp \<mapsto> blank_device ip)"
  have k: "ip_of (rg_devs r) p = ip_of ?ds p" if "p \<in> set (vals T)" for p
    using live_other [of T "rg_devs r" tmp p] ip_of_other [of p tmp "rg_devs r" "Some (blank_device ip)"] I tmp that
    by (simp add: reg_inv_def)
  have V: "vmap (ip_of (rg_devs r)) (vals T) = vmap (ip_of ?ds) (vals T)" by (rule vmap_cong [OF k])
  have "rb_inv (ip_of ?ds) (rg_tree r) T" using rb_inv_cong [OF k] I by (simp add: reg_inv_def)
  from rbfind_vmap [OF devs.rb_order_axioms this, of "Some tmp"]
  moreover have "ip_of ?ds (Some tmp) = ip" by (simp add: ip_of_def blank_device_def)
  ultimately show ?thesis unfolding find_device_def V by simp
qed

text \<open>The element found is the live device with the address.\<close>

lemma vmap_some: "vmap key xs k = Some p \<Longrightarrow> p \<in> set xs \<and> key p = k"
  by (induction xs) (auto split: if_splits)

lemma find_device_cases:
  assumes "reg_inv r T" "rg_devs r tmp = None"
  obtains (none) "find_device tmp ip r = Some None" "reg_map r T ip = None"
  | (some) a d where "find_device tmp ip r = Some (Some a)" "rg_devs r a = Some d" "remote_ip d = ip"
      "reg_map r T ip = Some d" "Some a \<in> set (vals T)"
proof (cases "vmap (ip_of (rg_devs r)) (vals T) ip")
  case None
  then show ?thesis using none find_device_ok [OF assms] by (simp add: reg_map_def)
next
  case (Some p)
  then have "p \<in> set (vals T)" "ip_of (rg_devs r) p = ip" using vmap_some by metis+
  moreover have "deref (rg_devs r) p \<noteq> None" using calculation(1) assms(1) unfolding reg_inv_def by blast
  then obtain a d where "p = Some a" "rg_devs r a = Some d" by (cases p) auto
  ultimately show ?thesis using some find_device_ok [OF assms] Some by (simp add: reg_map_def ip_of_def)
qed

lemma sn_ret_ok:
  assumes "reg_inv r T" "rg_devs r tmp = None"
  shows "sn_ret tmp ip r = Some (case reg_map r T ip of None \<Rightarrow> - 1
    | Some d \<Rightarrow> if dev_sn d = 0xFFFFFFFF then 0 else dev_sn d)"
  by (cases rule: find_device_cases [OF assms, of ip]) (simp_all add: sn_ret_def)

lemma vmap_mem: "distinct (map key xs) \<Longrightarrow> p \<in> set xs \<Longrightarrow> vmap key xs (key p) = Some p"
  by (induction xs) (auto simp: image_iff)

lemma deref_other: "p \<noteq> Some a \<Longrightarrow> deref (ds(a := x)) p = deref ds p"
  by (cases p) simp_all

text \<open>An update of a device that keeps its address.\<close>

lemma reg_update:
  assumes I: "reg_inv r T" and a: "rg_devs r a = Some d" "remote_ip d' = remote_ip d" "Some a \<in> set (vals T)"
  shows "reg_inv (r\<lparr>rg_devs := (rg_devs r)(a \<mapsto> d')\<rparr>) T"
    and "reg_map (r\<lparr>rg_devs := (rg_devs r)(a \<mapsto> d')\<rparr>) T = (reg_map r T)(remote_ip d \<mapsto> d')"
proof -
  let ?ds = "(rg_devs r)(a \<mapsto> d')" and ?m = "vmap (ip_of (rg_devs r)) (vals T)"
  have k: "ip_of ?ds p = ip_of (rg_devs r) p" for p using a(1,2) by (cases p) (auto simp: ip_of_def)
  then have e: "ip_of ?ds = ip_of (rg_devs r)" by auto
  have "deref ?ds p \<noteq> None" if "deref (rg_devs r) p \<noteq> None" for p using that by (cases p) auto
  then show "reg_inv (r\<lparr>rg_devs := ?ds\<rparr>) T" using I e by (simp add: reg_inv_def)
  have ia: "ip_of (rg_devs r) (Some a) = remote_ip d" using a(1) by (simp add: ip_of_def)
  have m: "?m (remote_ip d) = Some (Some a)"
    using vmap_mem [OF _ a(3)] vals_distinct I ia by (metis reg_inv_def)
  show "reg_map (r\<lparr>rg_devs := ?ds\<rparr>) T = (reg_map r T)(remote_ip d \<mapsto> d')"
  proof
    fix ip
    show "reg_map (r\<lparr>rg_devs := ?ds\<rparr>) T ip = ((reg_map r T)(remote_ip d \<mapsto> d')) ip"
    proof (cases "ip = remote_ip d")
      case True then show ?thesis using m e by (simp add: reg_map_def)
    next
      case False
      then show ?thesis using e ia vmap_some [of "ip_of (rg_devs r)" "vals T" ip]
          deref_other [of "the (vmap (ip_of (rg_devs r)) (vals T) ip)" a "rg_devs r" "Some d'"]
        by (cases "vmap (ip_of (rg_devs r)) (vals T) ip") (auto simp: reg_map_def)
    qed
  qed
qed

text \<open>The devices are found under their own addresses.\<close>

lemma reg_map_ip: "reg_map r T ip = Some d \<Longrightarrow> remote_ip d = ip"
  using vmap_some [of "ip_of (rg_devs r)" "vals T" ip]
  by (cases "vmap (ip_of (rg_devs r)) (vals T) ip") (auto simp: reg_map_def ip_of_def)

lemma reg_map_dom: "remote_ip ` ran (reg_map r T) = dom (reg_map r T)"
proof
  show "remote_ip ` ran (reg_map r T) \<subseteq> dom (reg_map r T)" using reg_map_ip by (fastforce simp: ran_def)
  show "dom (reg_map r T) \<subseteq> remote_ip ` ran (reg_map r T)"
  proof
    fix ip assume "ip \<in> dom (reg_map r T)"
    then obtain d where d: "reg_map r T ip = Some d" by blast
    then have "d \<in> ran (reg_map r T)" by (rule ranI)
    then show "ip \<in> remote_ip ` ran (reg_map r T)" using reg_map_ip [OF d] by blast
  qed
qed

section \<open>Insertion\<close>

lemma reg_map_cong:
  assumes "\<And>p. p \<in> set (vals T) \<Longrightarrow> deref ds p = deref ds' p"
  shows "reg_map \<lparr>rg_devs = ds, rg_tree = t\<rparr> T = reg_map \<lparr>rg_devs = ds', rg_tree = t'\<rparr> T"
proof
  fix ip
  have "ip_of ds p = ip_of ds' p" if "p \<in> set (vals T)" for p using assms that by (simp add: ip_of_def)
  then have "vmap (ip_of ds) (vals T) = vmap (ip_of ds') (vals T)" by (rule vmap_cong)
  then show "reg_map \<lparr>rg_devs = ds, rg_tree = t\<rparr> T ip = reg_map \<lparr>rg_devs = ds', rg_tree = t'\<rparr> T ip"
    using assms vmap_some [of "ip_of ds'" "vals T" ip]
    by (cases "vmap (ip_of ds') (vals T) ip") (auto simp: reg_map_def)
qed

lemma reg_map_fields: "reg_map r T = reg_map \<lparr>rg_devs = rg_devs r, rg_tree = t\<rparr> T"
  by (simp add: reg_map_def fun_eq_iff)

lemma insert_device_ok:
  assumes I: "reg_inv r T" and pt: "rg_devs r pt = Some d" and a: "rg_devs r a = None"
    and n: "rb_heap (rg_tree r) hd0 = None" "rb_heap (rg_tree r) n = None" "n \<noteq> hd0"
  obtains r' T' where "centroidset_insert hd0 [n] True a (Some pt) r = Some (r', 0)" "reg_inv r' T'"
    "length (vals T') = length (vals T) + (if reg_map r T (remote_ip d) = None then 1 else 0)"
    "reg_map r' T' = (if reg_map r T (remote_ip d) = None then (reg_map r T)(remote_ip d \<mapsto> d) else reg_map r T)"
    "rb_heap (rg_tree r') hd0 = None" "rg_devs r' = (if reg_map r T (remote_ip d) = None then (rg_devs r)(a \<mapsto> d) else rg_devs r)"
proof -
  let ?ds = "centroid_copy a (Some pt) (rg_devs r)" and ?t = "rg_tree r"
  have ds: "?ds = (rg_devs r)(a \<mapsto> d)" using pt by (simp add: centroid_copy_def)
  have ne: "a \<noteq> pt" using pt a by auto
  have live: "\<forall>p\<in>set (vals T). deref (rg_devs r) p \<noteq> None" using I by (simp add: reg_inv_def)
  have same: "deref ?ds p = deref (rg_devs r) p" if "p \<in> set (vals T)" for p
    using live_other [OF live a that] ds by (cases p) auto
  then have k: "ip_of (rg_devs r) p = ip_of ?ds p" if "p \<in> set (vals T)" for p using that by (simp add: ip_of_def)
  have inv: "rb_inv (ip_of ?ds) ?t T" using rb_inv_cong [OF k] I by (simp add: reg_inv_def)
  have key: "ip_of ?ds (Some pt) = remote_ip d" "ip_of ?ds (Some a) = remote_ip d"
    using ds pt ne by (simp_all add: ip_of_def)
  obtain t' T' where R: "jsw_rbinsert (centroid_cmp ?ds) (centroid_dup a) hd0 [n] ?t (Some pt) = Some (t', 1)"
    "rb_inv (ip_of ?ds) t' T'" "ins_result (ip_of ?ds) (centroid_dup a) (Some pt) [n] (ino T) (ino T') True"
    "rb_heap t' hd0 = None"
    by (rule devs_copy.rbinsert_inv [OF inv n(1), of "[n]"]) (use n in auto)
  have V: "vmap (ip_of ?ds) (vals T) = vmap (ip_of (rg_devs r)) (vals T)" by (rule vmap_cong) (simp add: k)
  have found: "reg_map r T ip = None \<longleftrightarrow> vmap (ip_of (rg_devs r)) (vals T) ip = None" for ip
    using vmap_some [of "ip_of (rg_devs r)" "vals T" ip] live
    by (cases "vmap (ip_of (rg_devs r)) (vals T) ip") (auto simp: reg_map_def)
  show ?thesis
  proof (cases "reg_map r T (remote_ip d) = None")
    case True
    then have "vmap (ip_of ?ds) (vals T) (remote_ip d) = None" using found V by simp
    then have absent: "remote_ip d \<notin> ip_of ?ds ` set (vals T)" using vmap_None by metis
    then have "\<not> (\<exists>p\<in>set (ino T). ip_of ?ds (snd p) = ip_of ?ds (Some pt))"
      unfolding key vals_def set_map by (metis imageI)
    then obtain l r0 where lr: "ino T = l @ r0" "ino T' = l @ (n, Some a) # r0"
      using R(3) by (auto simp: ins_result_def centroid_dup_def)
    have "n \<in> set (addrs T')" using lr(2) set_ino [of T'] by (metis fst_conv image_eqI in_set_conv_decomp)
    then have "rb_heap t' n \<noteq> None" using R(2) by (auto simp: rb_inv_def)
    then have C: "centroidset_insert hd0 [n] True a (Some pt) r = Some (r\<lparr>rg_tree := t', rg_devs := ?ds\<rparr>, 0)"
      using R(1) by (simp add: centroidset_insert_def)
    have vals: "vals T = map snd l @ map snd r0" "vals T' = map snd l @ Some a # map snd r0"
      using lr by (simp_all add: vals_def)
    have "reg_inv (r\<lparr>rg_tree := t', rg_devs := ?ds\<rparr>) T'"
      using R(2) vals live same ds by (auto simp: reg_inv_def)
    moreover have "reg_map (r\<lparr>rg_tree := t', rg_devs := ?ds\<rparr>) T' = (reg_map r T)(remote_ip d \<mapsto> d)"
    proof
      fix ip
      have "vmap (ip_of ?ds) (vals T') = (vmap (ip_of ?ds) (vals T))(remote_ip d \<mapsto> Some a)"
        using vmap_insert [of "ip_of ?ds" "Some a" "map snd l" "map snd r0"] absent key(2) vals by simp
      then show "reg_map (r\<lparr>rg_tree := t', rg_devs := ?ds\<rparr>) T' ip = ((reg_map r T)(remote_ip d \<mapsto> d)) ip"
        using V ds same vmap_some [of "ip_of (rg_devs r)" "vals T" ip]
        by (cases "vmap (ip_of (rg_devs r)) (vals T) ip") (auto simp: reg_map_def)
    qed
    moreover have "length (vals T') = length (vals T) + 1" using vals by simp
    ultimately show ?thesis using that C R(4) True ds by simp
  next
    case False
    then have "vmap (ip_of ?ds) (vals T) (remote_ip d) \<noteq> None" using found V by simp
    then have "remote_ip d \<in> ip_of ?ds ` set (vals T)" using vmap_None by metis
    then have "\<exists>p\<in>set (ino T). ip_of ?ds (snd p) = ip_of ?ds (Some pt)" unfolding key vals_def set_map by (metis imageE)
    then have e: "ino T' = ino T" using R(3) by (simp add: ins_result_def)
    have "n \<notin> set (addrs T')" using I n(2) set_ino [of T'] set_ino [of T] e by (auto simp: reg_inv_def rb_inv_def)
    then have "rb_heap t' n = None" using R(2) by (auto simp: rb_inv_def)
    then have C: "centroidset_insert hd0 [n] True a (Some pt) r = Some (r\<lparr>rg_tree := t'\<rparr>, 0)"
      using R(1) by (simp add: centroidset_insert_def)
    have vals: "vals T' = vals T" using e by (simp add: vals_def)
    then have k': "ip_of ?ds p = ip_of (rg_devs r) p" if "p \<in> set (vals T')" for p using k that by simp
    have "rb_inv (ip_of (rg_devs r)) t' T'" using rb_inv_cong [OF k'] R(2) by simp
    then have "reg_inv (r\<lparr>rg_tree := t'\<rparr>) T'" using live vals by (simp add: reg_inv_def)
    moreover have "reg_map (r\<lparr>rg_tree := t'\<rparr>) T' = reg_map r T" using vals by (simp add: reg_map_def fun_eq_iff)
    moreover have "length (vals T') = length (vals T)" using vals by simp
    ultimately show ?thesis using that C R(4) False by simp
  qed
qed

section \<open>The configuration file\<close>

definition good_dev_alloc :: "(device heap \<Rightarrow> addr) \<Rightarrow> bool" where
  "good_dev_alloc adev \<longleftrightarrow> (\<forall>h. finite (dom h) \<longrightarrow> h (adev h) = None)"

text \<open>The address of a line that is read, if \<^verbatim>\<open>balloc\<close> succeeds.\<close>

definition cfg_ip :: "(string \<Rightarrow> u32) \<Rightarrow> cfg_mem \<Rightarrow> string \<Rightarrow> u32 option" where
  "cfg_ip inet_addr ok l = (if cm_line ok then map_option inet_addr (fifth_field (cstr l)) else None)"

text \<open>What a line adds.\<close>

definition cfg_add :: "u32 option \<Rightarrow> (u32 \<Rightarrow> device option) \<Rightarrow> u32 \<Rightarrow> device option" where
  "cfg_add ip m = (case ip of None \<Rightarrow> m | Some ip \<Rightarrow> if m ip = None then m(ip \<mapsto> cfg_device ip) else m)"

lemma reg_dead_upd:
  assumes I: "reg_inv r T" and a: "rg_devs r a = None"
  shows "reg_inv (r\<lparr>rg_devs := (rg_devs r)(a := x)\<rparr>) T" "reg_map (r\<lparr>rg_devs := (rg_devs r)(a := x)\<rparr>) T = reg_map r T"
proof -
  let ?ds = "(rg_devs r)(a := x)"
  have live: "\<forall>p\<in>set (vals T). deref (rg_devs r) p \<noteq> None" using I by (simp add: reg_inv_def)
  have same: "deref ?ds p = deref (rg_devs r) p" if "p \<in> set (vals T)" for p
    by (rule deref_other [OF live_other [OF live a that]])
  have k: "ip_of (rg_devs r) p = ip_of ?ds p" if "p \<in> set (vals T)" for p using same [OF that] by (simp add: ip_of_def)
  have "rb_inv (ip_of ?ds) (rg_tree r) T" using rb_inv_cong [OF k] I by (simp add: reg_inv_def)
  then show "reg_inv (r\<lparr>rg_devs := ?ds\<rparr>) T" using live same by (simp add: reg_inv_def)
  show "reg_map (r\<lparr>rg_devs := ?ds\<rparr>) T = reg_map r T"
    using reg_map_cong [of T ?ds "rg_devs r" "rg_tree r" "rg_tree r", OF same]
      reg_map_fields [of r T "rg_tree r"] reg_map_fields [of "r\<lparr>rg_devs := ?ds\<rparr>" T "rg_tree r"] by simp
qed

lemma card_dom_new: "finite (dom h) \<Longrightarrow> h a = None \<Longrightarrow> card (dom (h(a \<mapsto> x))) = card (dom h) + 1"
  by (simp add: domIff)

lemma cfg_line_ok:
  assumes I: "reg_inv r T" "rb_heap (rg_tree r) hd0 = None" "finite (dom (rg_devs r))"
    and A: "good_dev_alloc adev" "good_alloc hd0 anode" and M: "cm_node ok" "cm_copy ok"
  obtains r' T' where "cfg_line ia hd0 adev anode ok l r = Some r'" "reg_inv r' T'"
    "reg_map r' T' = cfg_add (cfg_ip ia ok l) (reg_map r T)"
    "rb_heap (rg_tree r') hd0 = None" "finite (dom (rg_devs r'))"
    "card (dom (rg_devs r')) + length (vals T) = card (dom (rg_devs r)) + length (vals T') +
       (if cfg_ip ia ok l = None then 0 else 1)"
proof -
  let ?p = "adev (rg_devs r)" and ?n = "anode (rb_heap (rg_tree r))"
  have p: "rg_devs r ?p = None" using A(1) I(3) by (simp add: good_dev_alloc_def)
  have n: "rb_heap (rg_tree r) ?n = None" "?n \<noteq> hd0"
    using A(2) I(1) by (auto simp: good_alloc_def reg_inv_def rb_inv_def)
  consider (no) "\<not> cm_line ok" | (few) "cm_line ok" "fifth_field (cstr l) = None" | (dev) w where "cm_line ok" "fifth_field (cstr l) = Some w" by auto
  then show ?thesis
  proof cases
    case no
    then show ?thesis using that [of r T] I by (simp add: cfg_line_def cfg_ip_def cfg_add_def)
  next
    case few
    have "(rg_devs r)(?p := None) = rg_devs r" using p by (simp add: fun_upd_idem)
    then have "cfg_line ia hd0 adev anode ok l r = Some r" using few by (simp add: cfg_line_def)
    then show ?thesis using that [of r T] I few by (simp add: cfg_ip_def cfg_add_def)
  next
    case dev
    let ?d = "cfg_device (ia w)" let ?ds = "(rg_devs r)(?p \<mapsto> ?d)" let ?r = "r\<lparr>rg_devs := ?ds\<rparr>"
    note R = reg_dead_upd [OF I(1) p, of "Some ?d"]
    have "finite (dom ?ds)" using I(3) by simp
    then have a: "rg_devs ?r (adev ?ds) = None" using A(1) unfolding good_dev_alloc_def by (metis registry.select_convs(1) registry.surjective registry.update_convs(1))
    have cp: "card (dom ?ds) = card (dom (rg_devs r)) + 1" by (rule card_dom_new [OF I(3) p])
    have tree: "rb_heap (rg_tree ?r) hd0 = None" "rb_heap (rg_tree ?r) ?n = None" using I(2) n by simp_all
    obtain r' T' where C: "centroidset_insert hd0 [?n] True (adev ?ds) (Some ?p) ?r = Some (r', 0)" "reg_inv r' T'"
      "reg_map r' T' = (if reg_map ?r T (remote_ip ?d) = None then (reg_map ?r T)(remote_ip ?d \<mapsto> ?d) else reg_map ?r T)"
      "rb_heap (rg_tree r') hd0 = None"
      "rg_devs r' = (if reg_map ?r T (remote_ip ?d) = None then (rg_devs ?r)(adev ?ds \<mapsto> ?d) else rg_devs ?r)"
      "length (vals T') = length (vals T) + (if reg_map ?r T (remote_ip ?d) = None then 1 else 0)"
      by (rule insert_device_ok [OF R(1) _ a tree n(2), of ?p ?d]) auto
    have e: "reg_map ?r T = reg_map r T" "remote_ip ?d = ia w" "rg_devs ?r = ?ds" using R(2) by (simp_all add: cfg_device_def)
    have L: "cfg_line ia hd0 adev anode ok l r = Some r'" using C(1) dev M by (simp add: cfg_line_def)
    have ip: "cfg_ip ia ok l = Some (ia w)" using dev by (simp add: cfg_ip_def)
    have m: "reg_map r' T' = cfg_add (cfg_ip ia ok l) (reg_map r T)" using C(3) unfolding e ip cfg_add_def by simp
    have D: "rg_devs r' = (if reg_map r T (ia w) = None then ?ds(adev ?ds \<mapsto> ?d) else ?ds)" using C(5) unfolding e .
    have fin: "finite (dom ?ds)" using I(3) by simp
    have "card (dom (?ds(adev ?ds \<mapsto> ?d))) = card (dom ?ds) + 1"
      using a unfolding e(3) by (rule card_dom_new [OF fin])
    then have "card (dom (rg_devs r')) + length (vals T) = card (dom (rg_devs r)) + length (vals T') + 1"
      using cp C(6) unfolding D e by (simp del: fun_upd_apply)
    moreover have "finite (dom (rg_devs r'))" using fin unfolding D by simp
    ultimately show ?thesis using that [OF L C(2) m C(4)] ip by simp
  qed
qed

text \<open>The addresses of the lines, numbered from \<open>i\<close>.\<close>

definition cfg_ips :: "(string \<Rightarrow> u32) \<Rightarrow> (nat \<Rightarrow> cfg_mem) \<Rightarrow> nat \<Rightarrow> string list \<Rightarrow> u32 list" where
  "cfg_ips ia ok i ls = concat (map (\<lambda>(j, l). case cfg_ip ia (ok j) l of None \<Rightarrow> [] | Some ip \<Rightarrow> [ip]) (enumerate i ls))"

lemma cfg_ips_simps [simp]:
  "cfg_ips ia ok i [] = []"
  "cfg_ips ia ok i (l # ls) = (case cfg_ip ia (ok i) l of None \<Rightarrow> [] | Some ip \<Rightarrow> [ip]) @ cfg_ips ia ok (i + 1) ls"
  by (simp_all add: cfg_ips_def)

lemma cfg_add_all:
  "fold (\<lambda>ip. cfg_add (Some ip)) ips m ip = (if m ip = None \<and> ip \<in> set ips then Some (cfg_device ip) else m ip)"
  by (induction ips arbitrary: m) (auto simp: cfg_add_def)

lemma cfg_loop_ok:
  assumes A: "good_dev_alloc adev" "good_alloc hd0 anode" and M: "\<And>i. cm_node (ok i)" "\<And>i. cm_copy (ok i)"
  shows "reg_inv r T \<Longrightarrow> rb_heap (rg_tree r) hd0 = None \<Longrightarrow> finite (dom (rg_devs r)) \<Longrightarrow>
    \<exists>r' T'. cfg_loop ia hd0 adev anode ok i ls r = Some r' \<and> reg_inv r' T' \<and>
      reg_map r' T' = fold (\<lambda>ip. cfg_add (Some ip)) (cfg_ips ia ok i ls) (reg_map r T) \<and>
      rb_heap (rg_tree r') hd0 = None \<and> finite (dom (rg_devs r')) \<and>
      card (dom (rg_devs r')) + length (vals T) = card (dom (rg_devs r)) + length (vals T') + length (cfg_ips ia ok i ls)"
proof (induction ls arbitrary: i r T)
  case (Cons l ls)
  obtain r1 T1 where S: "cfg_line ia hd0 adev anode (ok i) l r = Some r1" "reg_inv r1 T1"
    "reg_map r1 T1 = cfg_add (cfg_ip ia (ok i) l) (reg_map r T)"
    "rb_heap (rg_tree r1) hd0 = None" "finite (dom (rg_devs r1))"
    "card (dom (rg_devs r1)) + length (vals T) = card (dom (rg_devs r)) + length (vals T1) +
       (if cfg_ip ia (ok i) l = None then 0 else 1)"
    by (rule cfg_line_ok [OF Cons.prems A M])
  obtain r' T' where R: "cfg_loop ia hd0 adev anode ok (i + 1) ls r1 = Some r'" "reg_inv r' T'"
    "reg_map r' T' = fold (\<lambda>ip. cfg_add (Some ip)) (cfg_ips ia ok (i + 1) ls) (reg_map r1 T1)"
    "rb_heap (rg_tree r') hd0 = None" "finite (dom (rg_devs r'))"
    "card (dom (rg_devs r')) + length (vals T1) = card (dom (rg_devs r1)) + length (vals T') + length (cfg_ips ia ok (i + 1) ls)"
    using Cons.IH [OF S(2,4,5), of "i + 1"] by blast
  have "cfg_add None m = m" for m by (simp add: cfg_add_def)
  then have "reg_map r' T' = fold (\<lambda>ip. cfg_add (Some ip)) (cfg_ips ia ok i (l # ls)) (reg_map r T)"
    using R(3) S(3) by (simp split: option.splits)
  moreover have "card (dom (rg_devs r')) + length (vals T) = card (dom (rg_devs r)) + length (vals T') + length (cfg_ips ia ok i (l # ls))"
    using R(6) S(6) by (auto split: option.splits if_splits)
  moreover have "cfg_loop ia hd0 adev anode ok i (l # ls) r = Some r'" using S(1) R(1) by simp
  ultimately show ?case using R(2,4,5) by blast
qed auto

lemma reg_inv_new: "reg_inv centroidset_new Lf" "reg_map centroidset_new Lf = Map.empty"
  by (simp_all add: reg_inv_def centroidset_new_def rb_inv_new vals_def reg_map_def fun_eq_iff)

section \<open>Every device once\<close>

lemma all_some_map: "(\<And>x. x \<in> set xs \<Longrightarrow> f x = Some (g x)) \<Longrightarrow> all_some (map f xs) = Some (map g xs)"
  by (induction xs) auto

lemma reg_list:
  assumes "reg_inv r T"
  obtains ds where "map (deref (rg_devs r)) (vals T) = map Some ds" "set ds = ran (reg_map r T)"
    "sorted_wrt (\<lambda>x y. remote_ip x < remote_ip y) ds"
proof -
  let ?f = "\<lambda>p. the (deref (rg_devs r) p)" and ?k = "ip_of (rg_devs r)"
  have live: "deref (rg_devs r) p = Some (?f p)" if "p \<in> set (vals T)" for p using assms that by (auto simp: reg_inv_def)
  have ip: "remote_ip (?f p) = ?k p" if "p \<in> set (vals T)" for p
    using live [OF that] by (cases "deref (rg_devs r) p") (simp_all add: ip_of_def)
  have I: "rb_inv ?k (rg_tree r) T" using assms by (simp add: reg_inv_def)
  have "d \<in> ran (reg_map r T)" if "d \<in> set (map ?f (vals T))" for d
  proof -
    obtain p where p: "p \<in> set (vals T)" "d = ?f p" using \<open>d \<in> set (map ?f (vals T))\<close> by auto
    then have "reg_map r T (?k p) = Some d" using vmap_mem [OF vals_distinct [OF I] p(1)] live by (simp add: reg_map_def)
    then show ?thesis by (rule ranI)
  qed
  moreover have "d \<in> set (map ?f (vals T))" if D: "d \<in> ran (reg_map r T)" for d
  proof -
    obtain ip where "reg_map r T ip = Some d" using D by (auto simp: ran_def)
    then obtain p where "vmap ?k (vals T) ip = Some p" "deref (rg_devs r) p = Some d"
      unfolding reg_map_def by (cases "vmap ?k (vals T) ip") auto
    then show ?thesis using vmap_some [of ?k "vals T" ip p] by force
  qed
  ultimately have "set (map ?f (vals T)) = ran (reg_map r T)" by blast
  moreover have "sorted_wrt (\<lambda>x y. remote_ip x < remote_ip y) (map ?f (vals T))"
    using sorted_wrt_mono_rel [OF _ vals_sorted [OF I], of "\<lambda>x y. remote_ip (?f x) < remote_ip (?f y)"] ip
    by (simp add: sorted_wrt_map)
  moreover have "map (deref (rg_devs r)) (vals T) = map Some (map ?f (vals T))" using live by simp
  ultimately show ?thesis using that by blast
qed

lemma device_print_ok:
  assumes I: "reg_inv r T" and n: "length (vals T) < 2 ^ 32" and v: "length (tv_path v) = HEIGHT_LIMIT"
    and ds: "map (deref (rg_devs r)) (vals T) = map Some ds"
  shows "device_print True v r = Some (map (\<lambda>d. \<lparr>pk_type = 1, pk_version = 1, pk_company = 4, pk_sn = 0, pk_action = 2,
    pk_para = 0, pk_len = 9, pk_to = (remote_ip d, dev_port d)\<rparr>) ds)"
proof -
  have none: "None \<notin> set (vals T)" using I by (auto simp: reg_inv_def)
  have "rb_inv (ip_of (rg_devs r)) (rg_tree r) T" using I by (simp add: reg_inv_def)
  moreover have "length (ino T) < 2 ^ 32" using n by (simp add: vals_def)
  ultimately have V: "visit_all v (rg_tree r) True = Some (vals T)"
    using visit_all_ok [of _ _ T v True] none v by (simp add: inod_def vals_def)
  have "\<forall>ds. map (deref (rg_devs r)) ps = map Some ds \<longrightarrow> all_some (map (print_packet (rg_devs r)) ps) =
    Some (map (\<lambda>d. \<lparr>pk_type = 1, pk_version = 1, pk_company = 4, pk_sn = 0, pk_action = 2,
    pk_para = 0, pk_len = 9, pk_to = (remote_ip d, dev_port d)\<rparr>) ds)" for ps
    by (induction ps) (auto simp: print_packet_def Cons_eq_map_conv)
  then show ?thesis using V ds by (simp add: device_print_def)
qed

section \<open>Properties\<close>

lemma vals_in_dom:
  assumes "reg_inv r T"
  shows "card {p. Some p \<in> set (vals T)} = length (vals T)" "{p. Some p \<in> set (vals T)} \<subseteq> dom (rg_devs r)" "None \<notin> set (vals T)"
proof -
  have live: "\<forall>p\<in>set (vals T). deref (rg_devs r) p \<noteq> None" using assms by (simp add: reg_inv_def)
  then show none: "None \<notin> set (vals T)" by auto
  show "{p. Some p \<in> set (vals T)} \<subseteq> dom (rg_devs r)" using live by (auto simp: domIff)
  have "distinct (map (ip_of (rg_devs r)) (vals T))" using vals_distinct [of "ip_of (rg_devs r)" "rg_tree r" T] assms by (simp add: reg_inv_def)
  then have d: "distinct (vals T)" by (simp add: distinct_map)
  have "x \<in> Some ` {p. Some p \<in> set (vals T)} \<longleftrightarrow> x \<in> set (vals T)" for x using none by (cases x) auto
  then have "Some ` {p. Some p \<in> set (vals T)} = set (vals T)" by blast
  then have "card {p. Some p \<in> set (vals T)} = card (set (vals T))" by (metis card_image inj_Some)
  then show "card {p. Some p \<in> set (vals T)} = length (vals T)" using distinct_card [OF d] by simp
qed

text \<open>
  C20: Reading a configuration file into a new registry succeeds and leaves a valid tree, when the
  allocations of the tree's nodes and copies succeed, which the code does not test.
  \<^verbatim>\<open>find_device\<close> then returns a device for exactly the addresses of the lines with
  five fields for which \<^verbatim>\<open>balloc\<close> gave memory, each with the fields the code sets, however often
  an address occurs. Beside the devices that the tree refers to, exactly one structure for each of these lines stays allocated.
\<close>

theorem read_cfg_registry:
  assumes "good_dev_alloc adev" "good_alloc hd0 anode" "\<And>i. cm_node (ok i)" "\<And>i. cm_copy (ok i)"
  shows "\<exists>r T. read_cfg ia hd0 adev anode ok (Some txt) centroidset_new = Some (r, 0) \<and> reg_inv r T \<and>
    (\<forall>tmp ip. rg_devs r tmp = None \<longrightarrow>
       (case find_device tmp ip r of None \<Rightarrow> False
        | Some p \<Rightarrow> deref (rg_devs r) p =
            (if ip \<in> set (cfg_ips ia ok 0 (cfg_lines txt)) then Some (cfg_device ip) else None))) \<and>
    card (dom (rg_devs r) - {p. Some p \<in> set (vals T)}) = length (cfg_ips ia ok 0 (cfg_lines txt))"
proof -
  let ?ips = "cfg_ips ia ok 0 (cfg_lines txt)"
  have new: "rb_heap (rg_tree centroidset_new) hd0 = None" "finite (dom (rg_devs centroidset_new))"
    by (simp_all add: centroidset_new_def jsw_rbnew_def)
  obtain r T where R: "cfg_loop ia hd0 adev anode ok 0 (cfg_lines txt) centroidset_new = Some r" "reg_inv r T"
    "reg_map r T = fold (\<lambda>ip. cfg_add (Some ip)) ?ips (reg_map centroidset_new Lf)" "finite (dom (rg_devs r))"
    "card (dom (rg_devs r)) + length (vals Lf) = card (dom (rg_devs centroidset_new)) + length (vals T) + length ?ips"
    using cfg_loop_ok [where ok = ok and ia = ia and i = 0 and ls = "cfg_lines txt", OF assms reg_inv_new(1) new]
    by (elim exE conjE) (rule that)
  have "case find_device tmp ip r of None \<Rightarrow> False
    | Some p \<Rightarrow> deref (rg_devs r) p = (if ip \<in> set ?ips then Some (cfg_device ip) else None)"
    if t: "rg_devs r tmp = None" for tmp ip
    using R(3) cfg_add_all [of ?ips Map.empty ip] reg_inv_new(2)
    by (cases rule: find_device_cases [OF R(2) t, of ip]) auto
  moreover have "card (dom (rg_devs r)) = length (vals T) + length ?ips" using R(5) by (simp add: vals_def centroidset_new_def)
  then have "card (dom (rg_devs r) - {p. Some p \<in> set (vals T)}) = length ?ips"
    using card_Diff_subset [OF finite_subset [OF vals_in_dom(2) [OF R(2)] R(4)] vals_in_dom(2) [OF R(2)]] vals_in_dom(1) [OF R(2)] by simp
  ultimately show ?thesis using R(1,2) by (auto simp: read_cfg_def)
qed

lemma next_free_good_dev: "good_dev_alloc next_free"
  by (simp add: good_dev_alloc_def next_free_fresh)

lemma cfg_example: "cfg_lines (''1,a,b,c,xy'' @ CHR 0x0A # []) = [''1,a,b,c,xy'' @ [CHR 0x0A]]"
proof -
  have "cfg_lines [] = []" by (subst cfg_lines.simps) (simp add: fgets_def)
  then show ?thesis using fgets_line [of "''1,a,b,c,xy''" 256 "[]"] by (subst cfg_lines.simps) simp
qed

lemma read_cfg_registry_witness:
  "\<exists>r. read_cfg (\<lambda>w. of_nat (length w)) 0 next_free next_free (\<lambda>i. \<lparr>cm_line = True, cm_node = True, cm_copy = True\<rparr>) (Some (''1,a,b,c,xy'' @ CHR 0x0A # [])) centroidset_new
     = Some (r, 0) \<and> (\<forall>tmp. rg_devs r tmp = None \<longrightarrow>
       (case find_device tmp 3 r of None \<Rightarrow> False | Some p \<Rightarrow> deref (rg_devs r) p = Some (cfg_device 3)))"
proof -
  let ?ok = "\<lambda>i :: nat. \<lparr>cm_line = True, cm_node = True, cm_copy = True\<rparr>"
  let ?t = "''1,a,b,c,xy'' @ CHR 0x0A # []" and ?ia = "\<lambda>w. of_nat (length w) :: u32"
  have e: "cfg_ips ?ia (\<lambda>i. \<lparr>cm_line = True, cm_node = True, cm_copy = True\<rparr>) 0 (cfg_lines ?t) = [3]"
    unfolding cfg_example by (simp add: cfg_ip_def fifth_field_def strtok_def cstr_def)
  obtain r where r: "read_cfg ?ia 0 next_free next_free (\<lambda>i. \<lparr>cm_line = True, cm_node = True, cm_copy = True\<rparr>) (Some ?t) centroidset_new = Some (r, 0)"
    and f: "\<forall>tmp ip. rg_devs r tmp = None \<longrightarrow> (case find_device tmp ip r of None \<Rightarrow> False
        | Some p \<Rightarrow> deref (rg_devs r) p = (if ip \<in> set [3] then Some (cfg_device ip) else None))"
    using read_cfg_registry [OF next_free_good_dev next_free_good, of ?ok ?ia ?t] unfolding e by auto
  have "(3 :: u32) \<in> set [3]" by simp
  then have "case find_device tmp 3 r of None \<Rightarrow> False | Some p \<Rightarrow> deref (rg_devs r) p = Some (cfg_device 3)"
    if "rg_devs r tmp = None" for tmp
    using f [rule_format, OF that, of 3] by (cases "find_device tmp 3 r") simp_all
  then show ?thesis using r by blast
qed

text \<open>
  With a valid registry of fewer than \<open>2 ^ 32\<close> devices the heartbeat sends one packet to
  every device, in the order of their addresses.
\<close>

theorem device_print_all:
  assumes "reg_inv r T" "length (vals T) < 2 ^ 32" "length (tv_path v) = HEIGHT_LIMIT"
  shows "\<exists>ds. device_print True v r = Some (map (\<lambda>d. \<lparr>pk_type = 1, pk_version = 1, pk_company = 4, pk_sn = 0,
      pk_action = 2, pk_para = 0, pk_len = 9, pk_to = (remote_ip d, dev_port d)\<rparr>) ds) \<and>
    set ds = ran (reg_map r T) \<and> sorted_wrt (\<lambda>x y. remote_ip x < remote_ip y) ds"
proof -
  obtain ds where "map (deref (rg_devs r)) (vals T) = map Some ds" "set ds = ran (reg_map r T)"
    "sorted_wrt (\<lambda>x y. remote_ip x < remote_ip y) ds" by (rule reg_list [OF assms(1)])
  then show ?thesis using device_print_ok [OF assms] by blast
qed

definition one_device :: registry where
  "one_device = \<lparr>rg_devs = [1 \<mapsto> cfg_device 7],
     rg_tree = \<lparr>rb_root = Some 2, rb_size = 1, rb_heap = [2 \<mapsto> \<lparr>rb_red = False, rb_data = Some 1, rb_link = lk None None\<rparr>]\<rparr>\<rparr>"

lemma one_device_inv: "reg_inv one_device (Nd 2 False (Some 1) Lf Lf)"
  by (simp add: reg_inv_def one_device_def rb_inv_def vals_def)

lemma device_print_all_witness:
  "\<exists>p. device_print True (jsw_rbtnew None (replicate 64 None) 0) one_device = Some [p] \<and> pk_to p = (7, 5000)"
proof -
  have "ran (reg_map one_device (Nd 2 False (Some 1) Lf Lf)) = {cfg_device 7}"
    by (auto simp: reg_map_def one_device_def vals_def ip_of_def cfg_device_def ran_def split: if_splits)
  moreover have "ds = [d]" if ds: "set ds = {d}" "sorted_wrt (\<lambda>x y. remote_ip x < remote_ip y) ds" for ds and d :: device
  proof (cases ds)
    case (Cons x xs)
    then show ?thesis using ds by (cases xs) auto
  qed (use ds in simp)
  ultimately show ?thesis
    using device_print_all [OF one_device_inv, of "jsw_rbtnew None (replicate 64 None) 0"]
    by (fastforce simp: vals_def jsw_rbtnew_def HEIGHT_LIMIT_def cfg_device_def DMS_PORT_def)
qed

end
