(* ===== verification/DeviceServer.thy ===== *)
theory DeviceServer
  imports Devices Hashmap
begin

text \<open>
  The packets of the device server, \<^verbatim>\<open>udpclient/udpserver/Callback.c\<close>: commands to the devices with
  their sequence numbers, the dispatch of a received packet through a hash map of handlers, and the
  transfer of a file in chunks.

  The surroundings of a call are a record: the address of an automatic variable, the clock,
  \<^verbatim>\<open>inet_ntoa\<close>, the files, the outcomes of allocations and the results of the cipher functions. It also
  says what the machine makes of three calls that C leaves undefined or whose code is not in the tree:
  \<open>en_free_stream\<close>, that \<^verbatim>\<open>free\<close> of a stream returns and leaves its descriptor open; \<open>en_literal\<close>, that 40 bytes
  can be read where the literal \<^verbatim>\<open>"zx"\<close> of 3 begins; \<open>en_cancel_null\<close>, that \<^verbatim>\<open>cancel_timer\<close> takes a null pointer.
  Where one of them is false the call is undefined in the model. A process has \<open>en_max_open\<close> descriptors.
  \<open>en_confused\<close> is what \<^verbatim>\<open>hashmapi_get\<close> makes of a table with slots of the other layout (\<^term>\<open>None\<close> when it leaves
  the memory of the table), \<open>en_reltimer\<close> the timer that \<^verbatim>\<open>register_reltimer\<close>, which is not in the tree, returns.
\<close>

section \<open>Data\<close>

text \<open>The data of a packet: the union as far as the code sets it. Numbers are in host order.\<close>

datatype body =
    Empty
  | Text string
  | Clock u32
  | Total u32
  | Chunk u32 u32 u32 "u8 list"

record out = packet +
  pk_body :: body

record updev_info =
  up_key :: string
  up_from :: "u32 \<times> u16"
  up_state :: u8
  up_ip :: u32
  up_time :: u64
  up_len :: u32
  up_send_size :: u64
  up_total :: u64
  up_offset :: u64
  up_file :: string

record env =
  en_tmp :: addr
  en_ntoa :: "u32 \<Rightarrow> string"
  en_now :: u64
  en_file :: "string \<Rightarrow> u8 list option"
  en_put :: bool
  en_pool :: bool
  en_new :: "updev_info heap \<Rightarrow> addr"
  en_fp :: bool
  en_decrypt :: "u8 list \<Rightarrow> u8 list"
  en_public :: "u8 list \<Rightarrow> bool"
  en_verify :: "u8 list \<Rightarrow> u8 list \<Rightarrow> u8 list \<Rightarrow> bool"
  en_free_stream :: bool
  en_literal :: bool
  en_cancel_null :: bool
  en_max_open :: nat
  en_confused :: "(string, addr) hmap \<Rightarrow> int \<Rightarrow> ptr option"
  en_reltimer :: ptr
  en_tra :: "ptr heap \<Rightarrow> addr"

datatype handler =
    Head_check | Time_function | State_function | Negotiate_function | Restart_function
  | Devinfo_function | Sysinfo_function | Set_sysinfo_function | Trans_data | Start_response
  | End_res | Test_function

record callback =
  cb_type :: int
  cb_function :: handler

record server =
  sv_reg :: registry
  sv_mymap :: "(string, addr) hmap"
  sv_calls :: "callback heap"
  sv_map :: "(string, addr) hmap"
  sv_up :: "updev_info heap"
  sv_timer :: "(int, addr) hmap"
  sv_tm :: "ptr heap"
  sv_cancelled :: "ptr list"
  sv_sent :: "out list"
  sv_ini :: "(string \<times> u8 list) list"
  sv_open :: nat

text \<open>Reads of a received packet, and the two byte orders.\<close>

definition bytes_at :: "u8 list \<Rightarrow> nat \<Rightarrow> nat \<Rightarrow> u8 list option" where
  "bytes_at bs i n = (if i + n \<le> length bs then Some (take n (drop i bs)) else None)"

definition le32 :: "u8 list \<Rightarrow> u32" where
  "le32 bs = foldr (\<lambda>b w. push_bit 8 w OR ucast b) bs 0"

definition be32 :: "u8 list \<Rightarrow> u32" where
  "be32 bs = foldl (\<lambda>w b. push_bit 8 w OR ucast b) 0 bs"

definition send :: "u8 \<Rightarrow> u8 \<Rightarrow> u8 \<Rightarrow> u32 \<Rightarrow> u8 \<Rightarrow> u16 \<Rightarrow> body \<Rightarrow> u32 \<times> u16 \<Rightarrow> server \<Rightarrow> server" where
  "send type version company sn action len b to s = s\<lparr>sv_sent := sv_sent s @
     [\<lparr>pk_type = type, pk_version = version, pk_company = company, pk_sn = sn, pk_action = action, pk_para = 0,
       pk_len = len, pk_to = to, pk_body = b\<rparr>]\<rparr>"

section \<open>Commands to a device\<close>

text \<open>The next sequence number, \<^term>\<open>None\<close> when there is no device.\<close>

definition take_sn :: "env \<Rightarrow> u32 \<Rightarrow> server \<Rightarrow> (server \<times> u32 option) option" where
  "take_sn e ip s = do {
     sn \<leftarrow> sn_ret (en_tmp e) ip (sv_reg s);
     if sn = - 1 then Some (s, None)
     else do {
       r \<leftarrow> sn_set (en_tmp e) ip (sn + 1) (sv_reg s);
       Some (s\<lparr>sv_reg := r\<rparr>, Some (sn + 1)) } }"

text \<open>The four commands differ in the numbers and the text of the packet.\<close>

definition send_command :: "env \<Rightarrow> u8 \<Rightarrow> u8 \<Rightarrow> u8 \<Rightarrow> u16 \<Rightarrow> body \<Rightarrow> u32 \<Rightarrow> server \<Rightarrow> (server \<times> int) option" where
  "send_command e type company action len b ip s = do {
     ptr \<leftarrow> find_device (en_tmp e) ip (sv_reg s);
     if ptr = None then Some (s, - 1)
     else do {
       d \<leftarrow> deref (rg_devs (sv_reg s)) ptr;
       (s, sn) \<leftarrow> take_sn e (remote_ip d) s;
       case sn of
         None \<Rightarrow> Some (s, - 1)
       | Some n \<Rightarrow> Some (send type 1 company n action len b (remote_ip d, dev_port d) s, 0) } }"

definition send_restart :: "env \<Rightarrow> u32 \<Rightarrow> server \<Rightarrow> (server \<times> int) option" where
  "send_restart e = send_command e 2 4 4 0 Empty"

definition send_devinfo :: "env \<Rightarrow> u32 \<Rightarrow> server \<Rightarrow> (server \<times> int) option" where
  "send_devinfo e = send_command e 2 5 5 4 (Text ''randbufdata'')"

definition send_sysinfo :: "env \<Rightarrow> u32 \<Rightarrow> server \<Rightarrow> (server \<times> int) option" where
  "send_sysinfo e = send_command e 2 6 6 4 (Text ''randbufdata'')"

definition send_set_sysinfo :: "env \<Rightarrow> u32 \<Rightarrow> server \<Rightarrow> (server \<times> int) option" where
  "send_set_sysinfo e = send_command e 2 7 7 4 (Text ''randbufdata'')"

definition get_file_size :: "env \<Rightarrow> string \<Rightarrow> u64" where
  "get_file_size e name = (case en_file e name of None \<Rightarrow> 0 | Some f \<Rightarrow> of_nat (length f))"

text \<open>
  The timer that sends the packet again. The device is looked up with \<^verbatim>\<open>hashmapi_get\<close> in the map of the transfers,
  whose keys are strings, and the new entry is put into the map of the timers. The result of a function
  that ends without \<^verbatim>\<open>return\<close> is written as 0.
\<close>

definition arm_timer :: "env \<Rightarrow> u32 \<Rightarrow> server \<Rightarrow> (server \<times> int) option" where
  "arm_timer e ip s = do {
     p \<leftarrow> en_confused e (sv_map s) (sint ip);
     if \<not> en_pool e then None
     else if p = None then do {
       let a = en_tra e (sv_tm s);
       (err, m) \<leftarrow> hashmapi_put (en_put e) (sv_timer s) (sint ip) (Some a);
       Some (s\<lparr>sv_tm := (sv_tm s)(a \<mapsto> en_reltimer e), sv_timer := m\<rparr>, if err = - 1 then - 1 else 0) }
     else do {
       tm \<leftarrow> modify (sv_tm s) p (\<lambda>_. en_reltimer e);
       Some (s\<lparr>sv_tm := tm\<rparr>, 0) } }"

text \<open>The type of the packet is not set.\<close>

definition send_upgrade :: "env \<Rightarrow> u8 \<Rightarrow> u32 \<Rightarrow> server \<Rightarrow> (server \<times> int) option" where
  "send_upgrade e type ip s = do {
     (s, r) \<leftarrow> send_command e type 4 9 4 (Total (ucast (get_file_size e ''a.tar.gz''))) ip s;
     if r = - 1 then Some (s, - 1) else arm_timer e ip s }"

section \<open>File transfer\<close>

text \<open>
  A stream is opened when the file is there and a descriptor is left, and is never closed; \<open>sv_open\<close>
  counts the descriptors that are used up.
\<close>

definition open_stream :: "env \<Rightarrow> string \<Rightarrow> server \<Rightarrow> server \<times> u8 list option" where
  "open_stream e name s =
     (case en_file e name of
        None \<Rightarrow> (s, None)
      | Some f \<Rightarrow> if sv_open s < en_max_open e then (s\<lparr>sv_open := sv_open s + 1\<rparr>, Some f) else (s, None))"

definition free_stream :: "env \<Rightarrow> u8 list option \<Rightarrow> server \<Rightarrow> server option" where
  "free_stream e fp s = (if fp \<noteq> None \<and> \<not> en_free_stream e then None else Some s)"

text \<open>The packet is filled with 40 bytes from the literal \<^verbatim>\<open>"zx"\<close>; those after its NUL are not part of the model.\<close>

definition end_response :: "env \<Rightarrow> u32 \<times> u16 \<Rightarrow> u64 \<Rightarrow> server \<Rightarrow> server option" where
  "end_response e from sz s = do {
     (s, sn) \<leftarrow> take_sn e (fst from) s;
     case sn of
       None \<Rightarrow> Some s
     | Some n \<Rightarrow> if en_literal e then Some (send 2 10 4 n 10 4 (Total (ucast sz)) from s) else None }"

text \<open>\<^verbatim>\<open>fseek\<close> fails for an offset that is negative as a \<^verbatim>\<open>long\<close>, and is not tested.\<close>

definition seek_pos :: "u64 \<Rightarrow> nat" where
  "seek_pos off = (if sint off < 0 then 0 else unat off)"

definition trans_data :: "env \<Rightarrow> u32 \<times> u16 \<Rightarrow> server \<Rightarrow> server option" where
  "trans_data e from s = do {
     (err, p) \<leftarrow> hashmap_get (sv_map s) (en_ntoa e (fst from));
     if err = MAP_MISSING then Some s
     else do {
       up \<leftarrow> modify (sv_up s) p (\<lambda>u. u\<lparr>up_total := get_file_size e (up_file u)\<rparr>);
       u \<leftarrow> deref up p;
       let (s, fp) = open_stream e (up_file u) (s\<lparr>sv_up := up\<rparr>);
       (s, sn) \<leftarrow> take_sn e (fst from) s;
       case (sn, fp) of
         (Some n, Some f) \<Rightarrow>
           let data = take 1000 (drop (seek_pos (up_offset u)) f) in
           if data \<noteq> [] then do {
             let s = send 2 1 4 n 8 4 (Chunk (of_nat (length data)) (ucast (up_offset u)) (up_len u) data) from s;
             up \<leftarrow> modify (sv_up s) p (\<lambda>u. u\<lparr>up_offset := up_offset u + of_nat (length data),
               up_send_size := up_send_size u + of_nat (length data), up_time := en_now e\<rparr>);
             free_stream e fp (s\<lparr>sv_up := up\<rparr>) }
           else do {
             s \<leftarrow> end_response e from (up_total u) s;
             up \<leftarrow> modify (sv_up s) p (\<lambda>u. u\<lparr>up_state := 4\<rparr>);
             free_stream e fp (s\<lparr>sv_up := up\<rparr>) }
       | _ \<Rightarrow> Some s } }"

text \<open>The structure of a transfer that begins.\<close>

definition new_updev :: "env \<Rightarrow> u32 \<times> u16 \<Rightarrow> u32 \<Rightarrow> u32 \<Rightarrow> updev_info" where
  "new_updev e from recv_len max_len = \<lparr>up_key = en_ntoa e (fst from), up_from = from, up_state = 1, up_ip = fst from,
     up_time = en_now e, up_len = max_len, up_send_size = 0, up_total = 0, up_offset = scast recv_len,
     up_file = ''a.tar.gz''\<rparr>"

definition cancel_transfer_timer :: "env \<Rightarrow> u32 \<Rightarrow> server \<Rightarrow> server option" where
  "cancel_transfer_timer e ip s = do {
     (eno, tra) \<leftarrow> hashmapi_get (sv_timer s) (sint ip);
     if eno = MAP_MISSING then Some s
     else do {
       t \<leftarrow> deref (sv_tm s) tra;
       if t = None \<and> \<not> en_cancel_null e then None
       else do {
         tm \<leftarrow> modify (sv_tm s) tra (\<lambda>_. None);
         Some (s\<lparr>sv_cancelled := sv_cancelled s @ [t], sv_tm := tm\<rparr>) } } }"

text \<open>Whether the entry was found or made; \<^term>\<open>None\<close> when the map has no room.\<close>

definition transfer_entry :: "env \<Rightarrow> u32 \<times> u16 \<Rightarrow> u32 \<Rightarrow> u32 \<Rightarrow> server \<Rightarrow> (server \<times> ptr) option" where
  "transfer_entry e from recv_len max_len s = do {
     let key = en_ntoa e (fst from);
     (err, p) \<leftarrow> hashmap_get (sv_map s) key;
     if err = MAP_MISSING then do {
       let a = en_new e (sv_up s);
       (err, m) \<leftarrow> hashmap_put (en_put e) (sv_map s) key (Some a);
       Some (s\<lparr>sv_up := (sv_up s)(a \<mapsto> new_updev e from recv_len max_len), sv_map := m\<rparr>, if err = - 1 then None else Some a) }
     else do {
       up \<leftarrow> modify (sv_up s) p (\<lambda>u. u\<lparr>up_time := en_now e, up_offset := scast recv_len, up_state := 1, up_len := max_len\<rparr>);
       Some (s\<lparr>sv_up := up\<rparr>, p) } }"

definition start_response :: "env \<Rightarrow> u8 list \<Rightarrow> u32 \<times> u16 \<Rightarrow> server \<Rightarrow> server option" where
  "start_response e buff from s = do {
     packet \<leftarrow> bytes_at buff 0 1036;
     s \<leftarrow> cancel_transfer_timer e (fst from) s;
     (s, p) \<leftarrow> transfer_entry e from (le32 (take 4 (drop 12 packet))) (le32 (take 4 (drop 16 packet))) s;
     if p = None then Some s
     else if packet ! 9 = 0x0C then do {
       up \<leftarrow> modify (sv_up s) p (\<lambda>u. u\<lparr>up_state := 3\<rparr>); Some (s\<lparr>sv_up := up\<rparr>) }
     else if packet ! 9 = 0x0D then do {
       up \<leftarrow> modify (sv_up s) p (\<lambda>u. u\<lparr>up_state := 5\<rparr>); Some (s\<lparr>sv_up := up\<rparr>) }
     else do {
       up \<leftarrow> modify (sv_up s) p (\<lambda>u. u\<lparr>up_total := get_file_size e (up_file u)\<rparr>);
       u \<leftarrow> deref up p;
       let (s, fp) = open_stream e (up_file u) (s\<lparr>sv_up := up\<rparr>);
       s \<leftarrow> trans_data e from s;
       free_stream e fp s } }"

definition end_res :: "env \<Rightarrow> u8 list \<Rightarrow> u32 \<times> u16 \<Rightarrow> server \<Rightarrow> server option" where
  "end_res e buff from s = do {
     packet \<leftarrow> bytes_at buff 0 1036;
     (err, p) \<leftarrow> hashmap_get (sv_map s) (en_ntoa e (fst from));
     if err = MAP_MISSING then Some s
     else do { up \<leftarrow> modify (sv_up s) p (\<lambda>u. u\<lparr>up_state := 4\<rparr>); Some (s\<lparr>sv_up := up\<rparr>) } }"

section \<open>The other handlers\<close>

definition upd_device :: "(device \<Rightarrow> device) \<Rightarrow> ptr \<Rightarrow> server \<Rightarrow> server option" where
  "upd_device f p s = do {
     ds \<leftarrow> modify (rg_devs (sv_reg s)) p f;
     Some (s\<lparr>sv_reg := (sv_reg s)\<lparr>rg_devs := ds\<rparr>\<rparr>) }"

definition time_function :: "env \<Rightarrow> u8 list \<Rightarrow> u32 \<times> u16 \<Rightarrow> server \<Rightarrow> server option" where
  "time_function e buff from s = do {
     _ \<leftarrow> bytes_at buff 0 1036;
     Some (send 1 1 4 0 1 4 (Clock (ucast (en_now e))) from s) }"

definition state_function :: "env \<Rightarrow> u32 \<times> u16 \<Rightarrow> server \<Rightarrow> server option" where
  "state_function e from s = do {
     p \<leftarrow> find_device (en_tmp e) (fst from) (sv_reg s);
     if p = None then Some s else upd_device (\<lambda>d. d\<lparr>dev_online := True\<rparr>) p s }"

definition devinfo_function :: "env \<Rightarrow> u8 list \<Rightarrow> u32 \<times> u16 \<Rightarrow> server \<Rightarrow> server option" where
  "devinfo_function e buff from s =
     (if \<not> en_pool e then None
      else do {
        info \<leftarrow> bytes_at buff 12 56;
        p \<leftarrow> find_device (en_tmp e) (fst from) (sv_reg s);
        if p = None then Some s
        else upd_device (\<lambda>d. d\<lparr>dev_inf := \<lparr>dev_name = take 40 info, dev_version = le32 (take 4 (drop 40 info)),
          dev_type = be32 (take 4 (drop 44 info)), dev_factory = be32 (take 4 (drop 48 info)),
          dev_runtime = be32 (take 4 (drop 52 info))\<rparr>\<rparr>) p s })"

text \<open>
  The \<^verbatim>\<open>FILE *\<close> goes through an \<^verbatim>\<open>int\<close>: \<open>en_fp\<close> says that the file was opened and that its pointer
  survives. The length is that of a string, which must end in the block.
\<close>

definition sysinfo_function :: "env \<Rightarrow> u8 list \<Rightarrow> u32 \<times> u16 \<Rightarrow> server \<Rightarrow> server option" where
  "sysinfo_function e buff from s = do {
     sys \<leftarrow> bytes_at buff 12 1024;
     if 0 \<notin> set sys \<or> \<not> en_fp e then None
     else do {
       _ \<leftarrow> find_device (en_tmp e) (fst from) (sv_reg s);
       Some (s\<lparr>sv_ini := sv_ini s @ [(''sysinfo/'' @ en_ntoa e (fst from) @ ''.ini'', takeWhile (\<lambda>b. b \<noteq> 0) sys)]\<rparr>) } }"

text \<open>The lengths in the packet are not checked against its size.\<close>

definition negotiate_function :: "env \<Rightarrow> u8 list \<Rightarrow> u32 \<times> u16 \<Rightarrow> server \<Rightarrow> server option" where
  "negotiate_function e buff from s = do {
     p \<leftarrow> find_device (en_tmp e) (fst from) (sv_reg s);
     if p = None then Some s
     else do {
       b \<leftarrow> bytes_at buff 13 1;
       let inlen = sint (hd b) + 2;
       if inlen < 0 then None
       else do {
         let inlen = nat inlen;
         inp \<leftarrow> bytes_at buff 12 inlen;
         let decbuf = en_decrypt e inp;
         if length decbuf \<noteq> 64 then Some s
         else do {
           lb \<leftarrow> bytes_at buff (12 + inlen) 4;
           let len = unat (be32 lb);
           tmpkey \<leftarrow> bytes_at buff (16 + inlen) len;
           if \<not> en_public e tmpkey then Some s
           else do {
             sig \<leftarrow> bytes_at buff (16 + inlen + len) 64;
             if \<not> en_verify e tmpkey sig tmpkey then Some s
             else upd_device (\<lambda>d. d\<lparr>dev_keys := decbuf, dev_eckey := Some tmpkey\<rparr>) p s } } } } }"

text \<open>The copy of the packet that \<^verbatim>\<open>test_funciton\<close> makes is not released.\<close>

definition test_function :: "env \<Rightarrow> u8 list \<Rightarrow> u32 \<times> u16 \<Rightarrow> server \<Rightarrow> server option" where
  "test_function e buff from s = do {
     s \<leftarrow> start_response e buff from s;
     _ \<leftarrow> bytes_at buff 0 524;
     if en_pool e then Some s else None }"

section \<open>Stalled transfers\<close>

text \<open>
  One round of the loop of \<^verbatim>\<open>task4\<close> for a device: the entry, if it is to be stored in the ini file. The
  differences of times are unsigned.
\<close>

definition task4_device :: "env \<Rightarrow> u32 \<Rightarrow> server \<Rightarrow> (server \<times> updev_info list) option" where
  "task4_device e ip s = do {
     (err, p) \<leftarrow> hashmap_get (sv_map s) (en_ntoa e ip);
     if err = MAP_MISSING then Some (s, [])
     else do {
       u \<leftarrow> deref (sv_up s) p;
       let age = en_now e - up_time u;
       if age > 10 \<and> up_state u \<noteq> 4 \<and> up_state u \<noteq> 2 then do {
         up \<leftarrow> modify (sv_up s) p (\<lambda>u. u\<lparr>up_state := 2\<rparr>);
         Some (s\<lparr>sv_up := up\<rparr>, [u\<lparr>up_state := 2\<rparr>]) }
       else if age > 5 \<and> age < 10 \<and> (up_state u = 4 \<or> up_state u = 3 \<or> up_state u = 5) then Some (s, [u])
       else Some (s, []) } }"

fun task4_devices :: "env \<Rightarrow> u32 list \<Rightarrow> server \<Rightarrow> (server \<times> updev_info list) option" where
  "task4_devices e [] s = Some (s, [])"
| "task4_devices e (ip # ips) s = do {
     (s, xs) \<leftarrow> task4_device e ip s;
     (s, ys) \<leftarrow> task4_devices e ips s;
     Some (s, xs @ ys) }"

definition task4_pass :: "env \<Rightarrow> rb_trav \<Rightarrow> server \<Rightarrow> (server \<times> updev_info list) option" where
  "task4_pass e v s = do {
     ps \<leftarrow> visit_all v (rg_tree (sv_reg s)) True;
     ips \<leftarrow> all_some (map (\<lambda>p. map_option remote_ip (deref (rg_devs (sv_reg s)) p)) ps);
     task4_devices e ips s }"

section \<open>Dispatch\<close>

text \<open>The first handler has another function type: calling it is undefined.\<close>

fun run_handler :: "handler \<Rightarrow> env \<Rightarrow> u8 list \<Rightarrow> u32 \<times> u16 \<Rightarrow> server \<Rightarrow> server option" where
  "run_handler Head_check e buff from s = None"
| "run_handler Time_function e buff from s = time_function e buff from s"
| "run_handler State_function e buff from s = state_function e from s"
| "run_handler Negotiate_function e buff from s = negotiate_function e buff from s"
| "run_handler Restart_function e buff from s = Some s"
| "run_handler Devinfo_function e buff from s = devinfo_function e buff from s"
| "run_handler Sysinfo_function e buff from s = sysinfo_function e buff from s"
| "run_handler Set_sysinfo_function e buff from s = Some s"
| "run_handler Trans_data e buff from s = trans_data e from s"
| "run_handler Start_response e buff from s = start_response e buff from s"
| "run_handler End_res e buff from s = end_res e buff from s"
| "run_handler Test_function e buff from s = test_function e buff from s"

text \<open>\<^verbatim>\<open>sprintf\<close> of an unsigned number.\<close>

fun dec :: "nat \<Rightarrow> string" where
  "dec n = (if n < 10 then [] else dec (n div 10)) @ [char_of (48 + n mod 10)]"

declare dec.simps [simp del]

definition head_check :: "env \<Rightarrow> u8 list \<Rightarrow> u32 \<times> u16 \<Rightarrow> server \<Rightarrow> (server \<times> int) option" where
  "head_check e buff from s = do {
     b \<leftarrow> bytes_at buff 8 1;
     (err, p) \<leftarrow> hashmap_get (sv_mymap s) (dec (unat (hd b)));
     if err = MAP_MISSING then Some (s, - 1)
     else do {
       cb \<leftarrow> deref (sv_calls s) p;
       s \<leftarrow> run_handler (cb_function cb) e buff from s;
       Some (s, 0) } }"

text \<open>The key and the handler of a type.\<close>

definition handler_table :: "(int \<times> string \<times> handler) list" where
  "handler_table =
     [(0, ''0'', Head_check), (1, ''1'', Time_function), (2, ''2'', State_function), (3, ''3'', Negotiate_function),
      (4, ''4'', Restart_function), (5, ''5'', Devinfo_function), (6, ''6'', Sysinfo_function),
      (7, ''7'', Set_sysinfo_function), (8, ''8'', Trans_data), (9, ''9'', Start_response), (0xA, ''10'', End_res),
      (0xD, ''13'', Time_function), (0xC, ''12'', Time_function), (0x10, ''16'', Test_function)]"

text \<open>The object is made at the address \<open>a\<close>; the result of the insertion is ignored.\<close>

definition RegisterCommandHandler :: "bool \<Rightarrow> addr \<Rightarrow> int \<Rightarrow> server \<Rightarrow> server option" where
  "RegisterCommandHandler ok a type s =
     (case map_of handler_table type of
        None \<Rightarrow> Some s
      | Some (key, h) \<Rightarrow> do {
          (err, m) \<leftarrow> hashmap_put ok (sv_mymap s) key (Some a);
          Some (s\<lparr>sv_calls := (sv_calls s)(a \<mapsto> \<lparr>cb_type = type, cb_function = h\<rparr>), sv_mymap := m\<rparr>) })"

definition register_types :: "int list" where
  "register_types = [0, 1, 2, 3, 4, 5, 6, 7, 8, 9, 0xA, 0x10, 0xC, 0xD]"

text \<open>The objects of the callbacks are at the addresses of a list.\<close>

fun register_all :: "bool \<Rightarrow> (addr \<times> int) list \<Rightarrow> server \<Rightarrow> server option" where
  "register_all ok [] s = Some s"
| "register_all ok ((a, type) # ts) s = do { s \<leftarrow> RegisterCommandHandler ok a type s; register_all ok ts s }"

definition init_register :: "bool \<Rightarrow> addr list \<Rightarrow> server \<Rightarrow> server option" where
  "init_register ok cbs s = do {
     m1 \<leftarrow> hashmap_new ok ok 50;
     m2 \<leftarrow> hashmap_new ok ok 2000;
     register_all ok (zip cbs register_types) (s\<lparr>sv_mymap := m1, sv_map := m2\<rparr>) }"

section \<open>Sequence numbers\<close>

text \<open>What follows a number: zero is never used, and the largest is followed by one.\<close>

definition next_sn :: "u32 \<Rightarrow> u32" where
  "next_sn n = (if n = 0xFFFFFFFF then 1 else n + 1)"

lemma sn_max: "(0xFFFFFFFF :: u32) = - 1"
  by simp

definition srv_dev :: "env \<Rightarrow> server \<Rightarrow> rbt \<Rightarrow> bool" where
  "srv_dev e s T \<longleftrightarrow> reg_inv (sv_reg s) T \<and> rg_devs (sv_reg s) (en_tmp e) = None"

lemma sn_set_ok:
  assumes I: "reg_inv r T" "rg_devs r tmp = None" and d: "reg_map r T ip = Some d"
  obtains r' where "sn_set tmp ip n r = Some r'" "reg_inv r' T" "rg_devs r' tmp = None"
    "reg_map r' T = (reg_map r T)(ip \<mapsto> d\<lparr>dev_sn := n\<rparr>)"
proof -
  obtain a where f: "find_device tmp ip r = Some (Some a)" "rg_devs r a = Some d" "remote_ip d = ip" "Some a \<in> set (vals T)"
    using d by (cases rule: find_device_cases [OF I, of ip]) auto
  let ?r = "r\<lparr>rg_devs := (rg_devs r)(a \<mapsto> d\<lparr>dev_sn := n\<rparr>)\<rparr>"
  have "sn_set tmp ip n r = Some ?r" using f(1,2) by (simp add: sn_set_def)
  moreover have "reg_inv ?r T" "reg_map ?r T = (reg_map r T)(ip \<mapsto> d\<lparr>dev_sn := n\<rparr>)"
    using reg_update [OF I(1) f(2) _ f(4), of "d\<lparr>dev_sn := n\<rparr>"] f(3) by simp_all
  moreover have "rg_devs ?r tmp = None" using I(2) f(2) by auto
  ultimately show ?thesis using that by blast
qed

lemma take_sn_ok:
  assumes I: "srv_dev e s T" and d: "reg_map (sv_reg s) T ip = Some d"
  obtains r where "take_sn e ip s = Some (s\<lparr>sv_reg := r\<rparr>, Some (next_sn (dev_sn d)))" "srv_dev e (s\<lparr>sv_reg := r\<rparr>) T"
    "reg_map r T = (reg_map (sv_reg s) T)(ip \<mapsto> d\<lparr>dev_sn := next_sn (dev_sn d)\<rparr>)"
proof -
  have R: "reg_inv (sv_reg s) T" "rg_devs (sv_reg s) (en_tmp e) = None" using I by (simp_all add: srv_dev_def)
  let ?n = "if dev_sn d = 0xFFFFFFFF then 0 else dev_sn d"
  have ret: "sn_ret (en_tmp e) ip (sv_reg s) = Some ?n" using sn_ret_ok [OF R, of ip] d by simp
  have ne: "?n \<noteq> - 1" using sn_max by auto
  have nx: "?n + 1 = next_sn (dev_sn d)" by (simp add: next_sn_def)
  obtain r where S: "sn_set (en_tmp e) ip (next_sn (dev_sn d)) (sv_reg s) = Some r" "reg_inv r T"
    "rg_devs r (en_tmp e) = None"
    "reg_map r T = (reg_map (sv_reg s) T)(ip \<mapsto> d\<lparr>dev_sn := next_sn (dev_sn d)\<rparr>)"
    by (rule sn_set_ok [OF R d])
  have "take_sn e ip s = Some (s\<lparr>sv_reg := r\<rparr>, Some (next_sn (dev_sn d)))"
    unfolding take_sn_def ret using ne S(1) unfolding nx [symmetric] by simp
  then show ?thesis using that S(2-4) by (simp add: srv_dev_def)
qed

text \<open>The commands.\<close>

datatype command = Restart | Devinfo | Sysinfo | Set_sysinfo

fun command_fields :: "env \<Rightarrow> command \<Rightarrow> u8 \<times> u8 \<times> u8 \<times> u16 \<times> body" where
  "command_fields e Restart = (2, 4, 4, 0, Empty)"
| "command_fields e Devinfo = (2, 5, 5, 4, Text ''randbufdata'')"
| "command_fields e Sysinfo = (2, 6, 6, 4, Text ''randbufdata'')"
| "command_fields e Set_sysinfo = (2, 7, 7, 4, Text ''randbufdata'')"

fun run_command :: "env \<Rightarrow> command \<Rightarrow> u32 \<Rightarrow> server \<Rightarrow> (server \<times> int) option" where
  "run_command e Restart ip s = send_restart e ip s"
| "run_command e Devinfo ip s = send_devinfo e ip s"
| "run_command e Sysinfo ip s = send_sysinfo e ip s"
| "run_command e Set_sysinfo ip s = send_set_sysinfo e ip s"

lemma run_command_fields:
  "command_fields e c = (t, co, ac, len, b) \<Longrightarrow> run_command e c ip s = send_command e t co ac len b ip s"
  by (cases c) (auto simp: send_restart_def send_devinfo_def send_sysinfo_def send_set_sysinfo_def)

lemma send_command_ok:
  assumes I: "srv_dev e s T" and d: "reg_map (sv_reg s) T ip = Some d"
  obtains s' where "send_command e t co ac len b ip s = Some (s', 0)" "srv_dev e s' T"
    "reg_map (sv_reg s') T = (reg_map (sv_reg s) T)(ip \<mapsto> d\<lparr>dev_sn := next_sn (dev_sn d)\<rparr>)"
    "sv_sent s' = sv_sent s @ [\<lparr>pk_type = t, pk_version = 1, pk_company = co, pk_sn = next_sn (dev_sn d), pk_action = ac,
       pk_para = 0, pk_len = len, pk_to = (ip, dev_port d), pk_body = b\<rparr>]"
proof -
  have R: "reg_inv (sv_reg s) T" "rg_devs (sv_reg s) (en_tmp e) = None" using I by (simp_all add: srv_dev_def)
  obtain a where a: "find_device (en_tmp e) ip (sv_reg s) = Some (Some a)" "rg_devs (sv_reg s) a = Some d" "remote_ip d = ip"
    using d by (cases rule: find_device_cases [OF R, of ip]) auto
  obtain r where S: "take_sn e ip s = Some (s\<lparr>sv_reg := r\<rparr>, Some (next_sn (dev_sn d)))" "srv_dev e (s\<lparr>sv_reg := r\<rparr>) T"
    "reg_map r T = (reg_map (sv_reg s) T)(ip \<mapsto> d\<lparr>dev_sn := next_sn (dev_sn d)\<rparr>)"
    by (rule take_sn_ok [OF I d])
  let ?s = "send t 1 co (next_sn (dev_sn d)) ac len b (ip, dev_port d) (s\<lparr>sv_reg := r\<rparr>)"
  have "send_command e t co ac len b ip s = Some (?s, 0)" using a S(1) by (simp add: send_command_def)
  then show ?thesis using that [of ?s] S(2,3) by (simp add: send_def srv_dev_def)
qed

section \<open>The table of handlers\<close>

definition undec :: "string \<Rightarrow> nat" where
  "undec s = foldl (\<lambda>n c. 10 * n + (of_char c - 48)) 0 s"

lemma undec_snoc: "undec (s @ [c]) = 10 * undec s + (of_char c - 48)"
  by (simp add: undec_def)

lemma undec_dec: "undec (dec n) = n"
proof (induction n rule: dec.induct)
  case (1 n)
  have d: "(of_char (char_of (48 + n mod 10) :: char) :: nat) - 48 = n mod 10" by (simp add: of_char_of)
  show ?case
  proof (cases "n < 10")
    case True
    then show ?thesis using d by (subst dec.simps) (simp add: undec_def)
  next
    case False
    then have "undec (dec n) = 10 * (n div 10) + n mod 10"
      using 1 d by (subst dec.simps) (simp add: undec_snoc)
    then show ?thesis by simp
  qed
qed

lemma dec_inj: "dec m = dec n \<longleftrightarrow> m = n"
  using undec_dec by metis

lemma map_of_dec:
  "\<forall>(n, k, h) \<in> set xs. 0 \<le> n \<and> k = dec (nat n) \<Longrightarrow> map_of (map snd xs) (dec m) = map_option snd (map_of xs (int m))"
  by (induction xs) (auto simp: dec_inj)

text \<open>
  Server and client keep a table of the same kind: a hash map from the decimal of a type to the
  object of its handler. The locale holds what they share; \<open>tab\<close> gives the key and the
  handler of each type.
\<close>

definition tab_disp :: "(string, addr) hmap \<Rightarrow> callback heap \<Rightarrow> string \<Rightarrow> handler option" where
  "tab_disp m cs k = (case hm_lookup hashmap_hash_int m k of
     Some (Some a) \<Rightarrow> map_option cb_function (cs a) | _ \<Rightarrow> None)"

definition tab_ok :: "addr set \<Rightarrow> (string, addr) hmap \<Rightarrow> callback heap \<Rightarrow> bool" where
  "tab_ok A m cs \<longleftrightarrow> hm_wf m \<and>
     (\<forall>k v. hm_lookup hashmap_hash_int m k = Some v \<longrightarrow> (\<exists>a \<in> A. v = Some a \<and> cs a \<noteq> None))"

fun tab_put :: "(int \<times> string \<times> handler) list \<Rightarrow> bool \<Rightarrow> addr \<Rightarrow> int \<Rightarrow> (string, addr) hmap \<times> callback heap \<Rightarrow>
    ((string, addr) hmap \<times> callback heap) option" where
  "tab_put tab ok a t (m, cs) = (case map_of tab t of
     None \<Rightarrow> Some (m, cs)
   | Some (key, h) \<Rightarrow> do {
       (err, m) \<leftarrow> hashmap_put ok m key (Some a);
       Some (m, cs(a \<mapsto> \<lparr>cb_type = t, cb_function = h\<rparr>)) })"

fun tab_put_all :: "(int \<times> string \<times> handler) list \<Rightarrow> bool \<Rightarrow> (addr \<times> int) list \<Rightarrow>
    (string, addr) hmap \<times> callback heap \<Rightarrow> ((string, addr) hmap \<times> callback heap) option" where
  "tab_put_all tab ok [] mc = Some mc"
| "tab_put_all tab ok ((a, t) # ts) mc = do { mc \<leftarrow> tab_put tab ok a t mc; tab_put_all tab ok ts mc }"

fun disp_add :: "(int \<times> string \<times> handler) list \<Rightarrow> addr \<times> int \<Rightarrow> (string \<Rightarrow> handler option) \<Rightarrow> string \<Rightarrow> handler option" where
  "disp_add tab (a, t) m = (case map_of tab t of None \<Rightarrow> m | Some (k, h) \<Rightarrow> m(k \<mapsto> h))"

locale handler_tab =
  fixes tab :: "(int \<times> string \<times> handler) list"
  assumes tab_keys: "\<forall>(n, k, h) \<in> set tab. 0 \<le> n \<and> k = dec (nat n)"
begin

lemma put_ok:
  assumes D: "tab_ok A m0 cs0" and a: "a \<notin> A" and u: "hm_used m0 < 16" "16 \<le> hm_table_size m0"
    "hm_size m0 < hm_table_size m0"
  obtains m cs where "tab_put tab ok a t (m0, cs0) = Some (m, cs)" "tab_ok (insert a A) m cs"
    "tab_disp m cs = disp_add tab (a, t) (tab_disp m0 cs0)"
    "hm_used m \<le> hm_used m0 + 1" "hm_table_size m = hm_table_size m0" "hm_size m \<le> hm_size m0 + 1"
proof (cases "map_of tab t")
  case None
  then show ?thesis using that [of m0 cs0] D by (auto simp: tab_ok_def)
next
  case (Some kh)
  obtain k h where kh: "kh = (k, h)" by (cases kh)
  have W: "hm_wf m0" using D by (simp add: tab_ok_def)
  obtain m where m: "hm_put hashmap_hash_int ok (Suc 0) m0 k (Some a) = Some (MAP_OK, m)" "hm_wf m"
    "hm_size m = hm_size m0 + 1" "hm_lookup hashmap_hash_int m = (hm_lookup hashmap_hash_int m0)(k \<mapsto> Some a)"
    "hm_table_size m = hm_table_size m0" "hm_used m \<le> hm_used m0 + 1"
    by (rule hm_put_few [OF good_hashmap W]) (use u in \<open>simp_all add: MAX_CHAIN_LENGTH_def\<close>)
  let ?cs = "cs0(a \<mapsto> \<lparr>cb_type = t, cb_function = h\<rparr>)"
  have R: "tab_put tab ok a t (m0, cs0) = Some (m, ?cs)"
    using m(1) Some kh unfolding tab_put.simps hashmap_put_def One_nat_def by (simp del: hm_put.simps)
  have "tab_ok (insert a A) m ?cs" using D m(2,4) a unfolding tab_ok_def by (auto split: if_splits)
  moreover have "tab_disp m ?cs = disp_add tab (a, t) (tab_disp m0 cs0)"
  proof
    fix x
    show "tab_disp m ?cs x = disp_add tab (a, t) (tab_disp m0 cs0) x"
      using D m(4) a Some kh unfolding tab_ok_def tab_disp_def by (auto split: option.splits)
  qed
  ultimately show ?thesis using that [OF R] m(3,5,6) by simp
qed

lemma put_all_ok:
  "tab_ok A m0 cs0 \<Longrightarrow> distinct (map fst ts) \<Longrightarrow> A \<inter> fst ` set ts = {} \<Longrightarrow> hm_used m0 + length ts \<le> 16 \<Longrightarrow>
   16 \<le> hm_table_size m0 \<Longrightarrow> hm_size m0 + int (length ts) \<le> hm_table_size m0 \<Longrightarrow>
   \<exists>m cs B. tab_put_all tab ok ts (m0, cs0) = Some (m, cs) \<and> tab_ok B m cs \<and>
     tab_disp m cs = fold (disp_add tab) ts (tab_disp m0 cs0)"
proof (induction ts arbitrary: m0 cs0 A)
  case (Cons p ts)
  obtain a t where p: "p = (a, t)" by (cases p)
  have n: "a \<notin> A" "hm_used m0 < 16" "hm_size m0 < hm_table_size m0"
    using Cons.prems p by auto
  obtain m cs where R: "tab_put tab ok a t (m0, cs0) = Some (m, cs)" "tab_ok (insert a A) m cs"
    "tab_disp m cs = disp_add tab (a, t) (tab_disp m0 cs0)"
    "hm_used m \<le> hm_used m0 + 1" "hm_table_size m = hm_table_size m0" "hm_size m \<le> hm_size m0 + 1"
    by (rule put_ok [OF Cons.prems(1) n(1,2) Cons.prems(5) n(3)])
  have "\<exists>m' cs' B. tab_put_all tab ok ts (m, cs) = Some (m', cs') \<and> tab_ok B m' cs' \<and>
     tab_disp m' cs' = fold (disp_add tab) ts (tab_disp m cs)"
    by (rule Cons.IH [OF R(2)]) (use Cons.prems R(4-6) p in auto)
  then show ?case using R(1,3) p by (auto simp del: tab_put.simps)
qed auto

lemma table_new:
  assumes "distinct cbs" "length cbs = length types" "length types \<le> 16"
  obtains m1 m cs B where "(hashmap_new True True 50 :: (string, addr) hmap option) = Some m1"
    "tab_put_all tab True (zip cbs types) (m1, cs0) = Some (m, cs)" "tab_ok B m cs"
    "tab_disp m cs = fold (disp_add tab) (zip cbs types) Map.empty"
proof -
  obtain m1 where m1: "(hashmap_new True True 50 :: (string, addr) hmap option) = Some m1" by (simp add: hashmap_new_def hm_new_def)
  have n: "hm_new True True 50 = Some m1" using m1 by (simp add: hashmap_new_def)
  have wf: "hm_wf m1" by (rule hm_new_wf [OF _ _ n]) (simp_all add: INITIAL_SIZE_def)
  have none: "hm_lookup hashmap_hash_int m1 k = None" for k
    by (rule hm_new_lookup [OF good_hashmap _ _ n]) (simp_all add: INITIAL_SIZE_def)
  have D: "tab_ok {} m1 cs0" using wf none by (simp add: tab_ok_def)
  have z: "tab_disp m1 cs0 = Map.empty" using none by (simp add: tab_disp_def fun_eq_iff)
  have l: "length (zip cbs types) = length types" "map fst (zip cbs types) = cbs" using assms(2) by simp_all
  have "\<exists>m cs B. tab_put_all tab True (zip cbs types) (m1, cs0) = Some (m, cs) \<and> tab_ok B m cs \<and>
     tab_disp m cs = fold (disp_add tab) (zip cbs types) (tab_disp m1 cs0)"
    by (rule put_all_ok [OF D]) (use l assms hm_new_used [OF n] in simp_all)
  then show ?thesis using that m1 z by (metis (no_types))
qed

lemma dispatch_get:
  fixes t :: u8
  assumes B: "tab_ok B m cs" and d: "tab_disp m cs = map_of (map snd tab)"
  obtains (missing) "map_of tab (uint t) = None" "hashmap_get m (dec (unat t)) = Some (MAP_MISSING, None)"
  | (found) k a cb where "map_of tab (uint t) = Some (k, cb_function cb)" "hashmap_get m (dec (unat t)) = Some (MAP_OK, Some a)" "cs a = Some cb"
proof -
  have wf: "hm_wf m" using B by (simp add: tab_ok_def)
  let ?k = "dec (unat t)"
  have D: "tab_disp m cs ?k = map_option snd (map_of tab (uint t))"
    using map_of_dec [OF tab_keys, of "unat t"] d by simp
  have g: "hashmap_get m ?k = Some (case hm_lookup hashmap_hash_int m ?k of
    Some v \<Rightarrow> (MAP_OK, v) | None \<Rightarrow> (MAP_MISSING, None))"
    using hm_get_total [OF good_hashmap wf] by (simp add: hashmap_get_def)
  show ?thesis
  proof (cases "hm_lookup hashmap_hash_int m ?k")
    case None
    then show ?thesis using missing g D by (simp add: tab_disp_def)
  next
    case (Some v)
    then obtain a where a: "v = Some a" "cs a \<noteq> None" using B unfolding tab_ok_def by blast
    then obtain cb where c: "cs a = Some cb" by blast
    then have "map_option snd (map_of tab (uint t)) = Some (cb_function cb)" using D Some a(1) by (simp add: tab_disp_def)
    then obtain k where "map_of tab (uint t) = Some (k, cb_function cb)" by (cases "map_of tab (uint t)") auto
    then show ?thesis using found c g Some a(1) by simp
  qed
qed

end

interpretation srv_tab: handler_tab handler_table
  by unfold_locales (simp add: handler_table_def dec.simps char_of_def bit_Suc_0_iff)

text \<open>The handler of a packet type, and the table of a server.\<close>

definition handler_of :: "u8 \<Rightarrow> handler option" where
  "handler_of t = map_option snd (map_of handler_table (uint t))"

definition disp :: "server \<Rightarrow> string \<Rightarrow> handler option" where
  "disp s = tab_disp (sv_mymap s) (sv_calls s)"

definition disp_ok :: "addr set \<Rightarrow> server \<Rightarrow> bool" where
  "disp_ok A s \<longleftrightarrow> tab_ok A (sv_mymap s) (sv_calls s)"

lemma register_tab: "RegisterCommandHandler ok a t s =
    map_option (\<lambda>(m, cs). s\<lparr>sv_calls := cs, sv_mymap := m\<rparr>) (tab_put handler_table ok a t (sv_mymap s, sv_calls s))"
proof (cases "map_of handler_table t")
  case (Some kh)
  then show ?thesis by (cases kh; cases "hashmap_put ok (sv_mymap s) (fst kh) (Some a)") (auto simp: RegisterCommandHandler_def)
qed (simp add: RegisterCommandHandler_def)

lemma register_all_tab: "register_all ok ts s =
    map_option (\<lambda>(m, cs). s\<lparr>sv_calls := cs, sv_mymap := m\<rparr>) (tab_put_all handler_table ok ts (sv_mymap s, sv_calls s))"
proof (induction ts arbitrary: s)
  case (Cons p ts)
  obtain a t where p: "p = (a, t)" by (cases p)
  show ?case
  proof (cases "tab_put handler_table ok a t (sv_mymap s, sv_calls s)")
    case (Some mc)
    obtain m cs where mc: "mc = (m, cs)" by (cases mc)
    have "register_all ok (p # ts) s = register_all ok ts (s\<lparr>sv_calls := cs, sv_mymap := m\<rparr>)"
      using Some mc by (simp add: p register_tab del: tab_put.simps)
    then show ?thesis using Some mc by (simp add: p Cons del: tab_put.simps)
  qed (simp add: p register_tab del: tab_put.simps)
qed simp

lemma handlers_all: "fold (disp_add handler_table) (zip [a0, a1, a2, a3, a4, a5, a6, a7, a8, a9, a10, a11, a12, a13] register_types) Map.empty
  = map_of (map snd handler_table)"
  by (simp add: handler_table_def register_types_def fun_eq_iff)

lemma list_of_14:
  assumes "length cbs = 14"
  obtains a0 a1 a2 a3 a4 a5 a6 a7 a8 a9 a10 a11 a12 a13 where "cbs = [a0, a1, a2, a3, a4, a5, a6, a7, a8, a9, a10, a11, a12, a13]"
  using assms by (auto simp: eval_nat_numeral length_Suc_conv)

lemma init_register_ok:
  assumes "distinct cbs" "length cbs = 14"
  obtains m cs B m2 where "init_register True cbs s = Some (s\<lparr>sv_calls := cs, sv_mymap := m, sv_map := m2\<rparr>)"
    "disp_ok B (s\<lparr>sv_calls := cs, sv_mymap := m, sv_map := m2\<rparr>)"
    "disp (s\<lparr>sv_calls := cs, sv_mymap := m, sv_map := m2\<rparr>) = map_of (map snd handler_table)"
    "hashmap_new True True 2000 = Some m2"
proof -
  obtain m2 where m2: "(hashmap_new True True 2000 :: (string, addr) hmap option) = Some m2" by (simp add: hashmap_new_def hm_new_def)
  have len: "length cbs = length register_types" "length register_types \<le> 16" using assms(2) by (simp_all add: register_types_def)
  obtain a0 a1 a2 a3 a4 a5 a6 a7 a8 a9 a10 a11 a12 a13 where cbs: "cbs = [a0, a1, a2, a3, a4, a5, a6, a7, a8, a9, a10, a11, a12, a13]"
    by (rule list_of_14 [OF assms(2)])
  obtain m1 m cs B where R: "(hashmap_new True True 50 :: (string, addr) hmap option) = Some m1"
    "tab_put_all handler_table True (zip cbs register_types) (m1, sv_calls s) = Some (m, cs)" "tab_ok B m cs"
    "tab_disp m cs = fold (disp_add handler_table) (zip cbs register_types) Map.empty"
    by (rule srv_tab.table_new [OF assms(1) len])
  have d: "tab_disp m cs = map_of (map snd handler_table)" using R(4) unfolding cbs handlers_all .
  have "init_register True cbs s = Some (s\<lparr>sv_calls := cs, sv_mymap := m, sv_map := m2\<rparr>)"
    using R(1,2) m2 by (simp add: init_register_def register_all_tab)
  then show ?thesis using that R(3) m2 d by (simp add: disp_ok_def disp_def)
qed

text \<open>The dispatch by a table that is set up.\<close>

definition table_ready :: "server \<Rightarrow> bool" where
  "table_ready s \<longleftrightarrow> (\<exists>B. disp_ok B s) \<and> disp s = map_of (map snd handler_table)"

lemma head_check_ok:
  assumes "table_ready s" "8 < length buff"
  shows "head_check e buff from s = (case handler_of (buff ! 8) of None \<Rightarrow> Some (s, - 1)
    | Some h \<Rightarrow> map_option (\<lambda>s'. (s', 0)) (run_handler h e buff from s))"
proof -
  obtain B where B: "tab_ok B (sv_mymap s) (sv_calls s)" "tab_disp (sv_mymap s) (sv_calls s) = map_of (map snd handler_table)"
    using assms(1) by (auto simp: table_ready_def disp_ok_def disp_def)
  have b: "bytes_at buff 8 1 = Some [buff ! 8]" using assms(2) by (simp add: bytes_at_def take_Suc_conv_app_nth hd_drop_conv_nth [symmetric] take_Suc)
  show ?thesis
  proof (cases rule: srv_tab.dispatch_get [OF B, of "buff ! 8"])
    case 1
    then show ?thesis using b by (simp add: head_check_def handler_of_def)
  next
    case (2 k a cb)
    then show ?thesis using b
      by (cases "run_handler (cb_function cb) e buff from s") (simp_all add: head_check_def map_codes handler_of_def)
  qed
qed

end
