(* ===== verification/DeviceSession.thy ===== *)
theory DeviceSession
  imports DeviceServer
begin

text \<open>
  Sessions of the device server of \<open>DeviceServer\<close>: the transfer of a file, arbitrary streams of packets,
  the supervision of transfers, and the properties of the server.
\<close>

section \<open>A transfer\<close>

definition pkt_data :: "out \<Rightarrow> u8 list" where
  "pkt_data p = (case pk_body p of Chunk n off len data \<Rightarrow> data | _ \<Rightarrow> [])"

text \<open>A transfer of the file \<open>f\<close> to the device \<open>ip\<close> that has come to the place \<open>k\<close>.\<close>

definition transfer :: "env \<Rightarrow> u32 \<Rightarrow> addr \<Rightarrow> u8 list \<Rightarrow> nat \<Rightarrow> rbt \<Rightarrow> server \<Rightarrow> bool" where
  "transfer e ip a f k T s \<longleftrightarrow> srv_dev e s T \<and> reg_map (sv_reg s) T ip \<noteq> None \<and>
     hm_wf (sv_map s) \<and> hm_lookup hashmap_hash_int (sv_map s) (en_ntoa e ip) = Some (Some a) \<and>
     (\<exists>u. sv_up s a = Some u \<and> up_file u = ''a.tar.gz'' \<and> up_offset u = of_nat k) \<and> k \<le> length f"

definition file_ok :: "env \<Rightarrow> u8 list \<Rightarrow> bool" where
  "file_ok e f \<longleftrightarrow> en_file e ''a.tar.gz'' = Some f \<and> length f < 2 ^ 63"

lemma seek_pos_ok:
  assumes "n < 2 ^ 63"
  shows "seek_pos (of_nat n) = n"
proof -
  have "unat (of_nat n :: u64) = n" using assms by (simp add: unsigned_of_nat take_bit_nat_eq_self)
  moreover have "\<not> sint (of_nat n :: u64) < 0" using assms
    by (simp add: signed_of_nat signed_take_bit_int_eq_self)
  ultimately show ?thesis by (simp add: seek_pos_def)
qed

lemma ucast_nat: "(ucast (of_nat n :: u64) :: u32) = of_nat n"
  by transfer simp

lemma get_ok:
  "hm_wf m \<Longrightarrow> hm_lookup hashmap_hash_int m k = Some v \<Longrightarrow> hashmap_get m k = Some (MAP_OK, v)"
  using hm_get_total [OF good_hashmap, of m k] by (simp add: hashmap_get_def)

lemma get_missing:
  "hm_wf m \<Longrightarrow> hm_lookup hashmap_hash_int m k = None \<Longrightarrow> hashmap_get m k = Some (MAP_MISSING, None)"
  using hm_get_total [OF good_hashmap, of m k] by (simp add: hashmap_get_def)

lemma take_sn_srv:
  assumes "srv_dev e s T" "reg_map (sv_reg s) T ip \<noteq> None"
  obtains r n where "take_sn e ip s = Some (s\<lparr>sv_reg := r\<rparr>, Some n)" "srv_dev e (s\<lparr>sv_reg := r\<rparr>) T" "reg_map r T ip \<noteq> None"
proof -
  obtain d where d: "reg_map (sv_reg s) T ip = Some d" using assms(2) by blast
  obtain r where "take_sn e ip s = Some (s\<lparr>sv_reg := r\<rparr>, Some (next_sn (dev_sn d)))" "srv_dev e (s\<lparr>sv_reg := r\<rparr>) T"
    "reg_map r T = (reg_map (sv_reg s) T)(ip \<mapsto> d\<lparr>dev_sn := next_sn (dev_sn d)\<rparr>)"
    by (rule take_sn_ok [OF assms(1) d])
  then show ?thesis using that by (metis fun_upd_same option.distinct(1))
qed

lemma open_stream_ok:
  "en_file e n = Some f \<Longrightarrow> sv_open s < en_max_open e \<Longrightarrow> open_stream e n s = (s\<lparr>sv_open := sv_open s + 1\<rparr>, Some f)"
  by (simp add: open_stream_def)

lemma free_stream_ok: "en_free_stream e \<Longrightarrow> free_stream e fp s = Some s"
  by (simp add: free_stream_def)

text \<open>What the machine makes of the calls that C leaves undefined.\<close>

definition tolerant :: "env \<Rightarrow> bool" where
  "tolerant e \<longleftrightarrow> en_free_stream e \<and> en_literal e"

lemma end_response_ok:
  assumes "srv_dev e s T" "reg_map (sv_reg s) T ip \<noteq> None" "en_literal e"
  obtains r n where "end_response e (ip, port) sz s = Some (send 2 10 4 n 10 4 (Total (ucast sz)) (ip, port) (s\<lparr>sv_reg := r\<rparr>))"
    "srv_dev e (s\<lparr>sv_reg := r\<rparr>) T" "reg_map r T ip \<noteq> None"
proof -
  obtain r n where "take_sn e ip s = Some (s\<lparr>sv_reg := r\<rparr>, Some n)" "srv_dev e (s\<lparr>sv_reg := r\<rparr>) T" "reg_map r T ip \<noteq> None"
    by (rule take_sn_srv [OF assms(1,2)])
  then show ?thesis using that assms(3) by (simp add: end_response_def)
qed

text \<open>One request: the next chunk, or the end of the file.\<close>

definition reply_ok :: "u32 \<Rightarrow> u16 \<Rightarrow> u8 list \<Rightarrow> nat \<Rightarrow> out \<Rightarrow> bool" where
  "reply_ok ip port f k p \<longleftrightarrow> pk_to p = (ip, port) \<and> pk_para p = 0 \<and> pk_action p = (if k < length f then 8 else 10) \<and>
     (if k < length f
      then \<exists>len. pk_body p = Chunk (of_nat (length (take 1000 (drop k f)))) (of_nat k) len (take 1000 (drop k f))
      else pk_body p = Total (of_nat (length f)))"

lemma trans_ok:
  assumes X: "transfer e ip a f k T s" and F: "file_ok e f" and M: "tolerant e" "sv_open s < en_max_open e"
  obtains s' p where "trans_data e (ip, port) s = Some s'" "transfer e ip a f (min (length f) (k + 1000)) T s'"
    "sv_sent s' = sv_sent s @ [p]" "reply_ok ip port f k p"
    "sv_mymap s' = sv_mymap s" "sv_calls s' = sv_calls s" "sv_open s' = sv_open s + 1"
    "k = length f \<longrightarrow> (\<exists>u. sv_up s' a = Some u \<and> up_state u = 4)"
proof -
  let ?key = "en_ntoa e ip"
  obtain u where u: "sv_up s a = Some u" "up_file u = ''a.tar.gz''" "up_offset u = of_nat k" and k: "k \<le> length f"
    and S: "srv_dev e s T" "reg_map (sv_reg s) T ip \<noteq> None" "hm_wf (sv_map s)"
    "hm_lookup hashmap_hash_int (sv_map s) ?key = Some (Some a)"
    using X by (auto simp: transfer_def)
  have f: "en_file e ''a.tar.gz'' = Some f" "length f < 2 ^ 63" using F by (simp_all add: file_ok_def)
  have fs: "get_file_size e ''a.tar.gz'' = of_nat (length f)" using f by (simp add: get_file_size_def)
  have L: "en_literal e" "en_free_stream e" using M(1) by (simp_all add: tolerant_def)
  let ?u = "u\<lparr>up_total := of_nat (length f)\<rparr>"
  let ?s = "s\<lparr>sv_up := (sv_up s)(a \<mapsto> ?u), sv_open := sv_open s + 1\<rparr>"
  have O: "open_stream e ''a.tar.gz'' (s\<lparr>sv_up := (sv_up s)(a \<mapsto> ?u)\<rparr>) = (?s, Some f)"
    using open_stream_ok [OF f(1), of "s\<lparr>sv_up := (sv_up s)(a \<mapsto> ?u)\<rparr>"] M(2) by simp
  have S1: "srv_dev e ?s T" "reg_map (sv_reg ?s) T ip \<noteq> None" using S by (simp_all add: srv_dev_def)
  obtain r n where R: "take_sn e ip ?s = Some (?s\<lparr>sv_reg := r\<rparr>, Some n)" "srv_dev e (?s\<lparr>sv_reg := r\<rparr>) T" "reg_map r T ip \<noteq> None"
    by (rule take_sn_srv [OF S1])
  have g: "hashmap_get (sv_map s) ?key = Some (MAP_OK, Some a)" by (rule get_ok [OF S(3,4)])
  have pos: "seek_pos (of_nat k) = k" using seek_pos_ok k f(2) by simp
  show ?thesis
  proof (cases "k < length f")
    case True
    let ?d = "take 1000 (drop k f)"
    let ?p = "\<lparr>pk_type = 2, pk_version = 1, pk_company = 4, pk_sn = n, pk_action = 8, pk_para = 0, pk_len = 4, pk_to = (ip, port),
      pk_body = Chunk (of_nat (length ?d)) (of_nat k) (up_len u) ?d\<rparr>"
    let ?u' = "?u\<lparr>up_offset := up_offset u + of_nat (length ?d), up_send_size := up_send_size u + of_nat (length ?d), up_time := en_now e\<rparr>"
    let ?s' = "?s\<lparr>sv_reg := r, sv_sent := sv_sent s @ [?p], sv_up := (sv_up s)(a \<mapsto> ?u')\<rparr>"
    have ne: "?d \<noteq> []" using True by simp
    have "trans_data e (ip, port) s = Some ?s'"
      using g R(1) u O fs ne free_stream_ok [OF L(2)] unfolding trans_data_def
      by (simp add: map_codes pos send_def ucast_nat Let_def del: take_eq_Nil drop_eq_Nil length_take length_drop)
    moreover have "k + length ?d = min (length f) (k + 1000)" using k by simp
    then have "of_nat k + of_nat (length ?d) = (of_nat (min (length f) (k + 1000)) :: u64)" by (metis of_nat_add)
    then have "transfer e ip a f (min (length f) (k + 1000)) T ?s'"
      using R(2,3) S(3,4) u unfolding transfer_def srv_dev_def by simp
    moreover have "reply_ok ip port f k ?p" using True by (auto simp: reply_ok_def)
    ultimately show ?thesis using that [of ?s' ?p] True by simp
  next
    case False
    then have k: "k = length f" using k by simp
    then have pos: "seek_pos (of_nat (length f)) = length f" using pos by simp
    let ?s2 = "?s\<lparr>sv_reg := r\<rparr>"
    have S2: "reg_map (sv_reg ?s2) T ip \<noteq> None" using R(3) by simp
    obtain r2 n2 where E: "end_response e (ip, port) (of_nat (length f)) ?s2 =
        Some (send 2 10 4 n2 10 4 (Total (ucast (of_nat (length f) :: u64))) (ip, port) (?s2\<lparr>sv_reg := r2\<rparr>))"
      "srv_dev e (?s2\<lparr>sv_reg := r2\<rparr>) T" "reg_map r2 T ip \<noteq> None"
      by (rule end_response_ok [OF R(2) S2 L(1)])
    let ?p = "\<lparr>pk_type = 2, pk_version = 10, pk_company = 4, pk_sn = n2, pk_action = 10, pk_para = 0, pk_len = 4, pk_to = (ip, port),
      pk_body = Total (of_nat (length f))\<rparr>"
    let ?s' = "?s\<lparr>sv_reg := r2, sv_sent := sv_sent s @ [?p], sv_up := (sv_up s)(a \<mapsto> ?u\<lparr>up_state := 4\<rparr>)\<rparr>"
    have "trans_data e (ip, port) s = Some ?s'"
      using g R(1) E(1) u O fs k free_stream_ok [OF L(2)] unfolding trans_data_def by (simp add: map_codes pos send_def ucast_nat Let_def)
    moreover have "transfer e ip a f (min (length f) (k + 1000)) T ?s'"
      using E(2,3) S(3,4) u k unfolding transfer_def srv_dev_def by simp
    moreover have "reply_ok ip port f k ?p" using k by (simp add: reply_ok_def)
    ultimately show ?thesis using that [of ?s' ?p] by simp
  qed
qed

text \<open>Without a descriptor a request of the device is not answered.\<close>

lemma no_descriptor_left:
  assumes X: "transfer e ip a f k T s" and F: "file_ok e f" and M: "en_max_open e \<le> sv_open s"
  shows "\<exists>s'. trans_data e (ip, port) s = Some s' \<and> sv_sent s' = sv_sent s"
proof -
  obtain u where u: "sv_up s a = Some u" "up_file u = ''a.tar.gz''" and S: "srv_dev e s T" "reg_map (sv_reg s) T ip \<noteq> None"
    "hm_wf (sv_map s)" "hm_lookup hashmap_hash_int (sv_map s) (en_ntoa e ip) = Some (Some a)"
    using X by (auto simp: transfer_def)
  let ?s = "s\<lparr>sv_up := (sv_up s)(a \<mapsto> u\<lparr>up_total := get_file_size e ''a.tar.gz''\<rparr>)\<rparr>"
  have O: "open_stream e ''a.tar.gz'' ?s = (?s, None)" using M F by (simp add: open_stream_def file_ok_def)
  have S1: "srv_dev e ?s T" "reg_map (sv_reg ?s) T ip \<noteq> None" using S by (simp_all add: srv_dev_def)
  obtain r n where R: "take_sn e ip ?s = Some (?s\<lparr>sv_reg := r\<rparr>, Some n)" by (rule take_sn_srv [OF S1])
  have "trans_data e (ip, port) s = Some (?s\<lparr>sv_reg := r\<rparr>)"
    using get_ok [OF S(3,4)] R u O unfolding trans_data_def by (simp add: map_codes)
  then show ?thesis by simp
qed

text \<open>The packets of a client, each with the time it is served at.\<close>

fun serve :: "env \<Rightarrow> (u64 \<times> u8 list \<times> u32 \<times> u16) list \<Rightarrow> server \<Rightarrow> server option" where
  "serve e [] s = Some s"
| "serve e ((t, buff, from) # ps) s = do {
     (s, r) \<leftarrow> head_check (e\<lparr>en_now := t\<rparr>) buff from s;
     serve e ps s }"

lemma serve_append: "serve e (ps @ qs) s = Option.bind (serve e ps s) (serve e qs)"
proof (induction ps arbitrary: s)
  case (Cons p ps)
  then show ?case by (cases p; cases "head_check (e\<lparr>en_now := fst p\<rparr>) (fst (snd p)) (snd (snd p)) s") auto
qed simp

lemma env_time: "transfer (e\<lparr>en_now := t\<rparr>) ip a f k T s = transfer e ip a f k T s" "file_ok (e\<lparr>en_now := t\<rparr>) f = file_ok e f"
  "srv_dev (e\<lparr>en_now := t\<rparr>) s T = srv_dev e s T" "tolerant (e\<lparr>en_now := t\<rparr>) = tolerant e"
  by (simp_all add: transfer_def file_ok_def srv_dev_def tolerant_def)

lemma table_ready_cong: "sv_mymap s' = sv_mymap s \<Longrightarrow> sv_calls s' = sv_calls s \<Longrightarrow> table_ready s' = table_ready s"
proof -
  assume e: "sv_mymap s' = sv_mymap s" "sv_calls s' = sv_calls s"
  then have "disp s' = disp s" by (intro ext) (simp add: disp_def split: option.split)
  moreover have "disp_ok B s' = disp_ok B s" for B using e by (simp add: disp_ok_def)
  ultimately show ?thesis by (simp add: table_ready_def)
qed

lemma handler_trans: "handler_of 8 = Some Trans_data" "handler_of 9 = Some Start_response"
  by (simp_all add: handler_of_def handler_table_def)

text \<open>The requests of the device after the first one.\<close>

definition next_request :: "u32 \<times> u16 \<Rightarrow> u64 \<times> u8 list \<times> u32 \<times> u16 \<Rightarrow> bool" where
  "next_request from p \<longleftrightarrow> (case p of (t, buff, fr) \<Rightarrow> fr = from \<and> 8 < length buff \<and> buff ! 8 = 8)"

definition session_ok :: "env \<Rightarrow> u32 \<Rightarrow> u16 \<Rightarrow> addr \<Rightarrow> u8 list \<Rightarrow> nat \<Rightarrow> rbt \<Rightarrow> nat \<Rightarrow> nat \<Rightarrow> server \<Rightarrow> bool" where
  "session_ok e ip port a f k T used n s \<longleftrightarrow> table_ready s \<and> sv_open s = used + n \<and> transfer e ip a f (min (length f) (k + 1000 * n)) T s \<and>
     length (sv_sent s) = n \<and> (\<forall>i<n. reply_ok ip port f (min (length f) (k + 1000 * i)) (sv_sent s ! i)) \<and>
     (n > 0 \<and> length f \<le> k + 1000 * (n - 1) \<longrightarrow> (\<exists>u. sv_up s a = Some u \<and> up_state u = 4))"

lemma session_step:
  assumes S: "session_ok e ip port a f k T used n s" and F: "file_ok e f" and M: "tolerant e" "used + n < en_max_open e"
  obtains s' where "trans_data e (ip, port) s = Some s'" "session_ok e ip port a f k T used (Suc n) s'"
proof -
  let ?k = "min (length f) (k + 1000 * n)"
  have X: "transfer e ip a f ?k T s" and O: "sv_open s = used + n" using S by (simp_all add: session_ok_def)
  then have O': "sv_open s < en_max_open e" using M(2) by simp
  obtain s' p where R: "trans_data e (ip, port) s = Some s'" "transfer e ip a f (min (length f) (?k + 1000)) T s'"
    "sv_sent s' = sv_sent s @ [p]" "reply_ok ip port f ?k p" "sv_mymap s' = sv_mymap s" "sv_calls s' = sv_calls s"
    "sv_open s' = sv_open s + 1" "?k = length f \<longrightarrow> (\<exists>u. sv_up s' a = Some u \<and> up_state u = 4)"
    by (rule trans_ok [OF X F M(1) O'])
  have m: "min (length f) (?k + 1000) = min (length f) (k + 1000 * Suc n)" by simp
  have T: "table_ready s'" using S table_ready_cong [OF R(5,6)] by (simp add: session_ok_def)
  have l: "length (sv_sent s) = n" using S by (simp add: session_ok_def)
  have "reply_ok ip port f (min (length f) (k + 1000 * i)) (sv_sent s' ! i)" if "i < Suc n" for i
  proof (cases "i = n")
    case True then show ?thesis using R(3,4) l by (simp add: nth_append)
  next
    case False then show ?thesis using that S R(3) l by (simp add: session_ok_def nth_append)
  qed
  then have "session_ok e ip port a f k T used (Suc n) s'"
    using T R(2,3,7,8) l O unfolding session_ok_def m by simp
  then show ?thesis using that R(1) by blast
qed

lemma session_serve:
  assumes F: "file_ok e f" and M: "tolerant e" and S: "session_ok e ip port a f k T used n s"
    and P: "\<forall>p\<in>set ps. next_request (ip, port) p" and O: "used + n + length ps \<le> en_max_open e"
  shows "\<exists>s'. serve e ps s = Some s' \<and> session_ok e ip port a f k T used (n + length ps) s'"
  using S P O
proof (induction ps arbitrary: n s)
  case (Cons p ps)
  obtain t buff where p: "p = (t, buff, ip, port)" "8 < length buff" "buff ! 8 = 8"
    using Cons.prems(2) by (auto simp: next_request_def)
  have E: "session_ok (e\<lparr>en_now := t\<rparr>) ip port a f k T used n s" using Cons.prems(1) by (simp add: session_ok_def env_time)
  have F': "file_ok (e\<lparr>en_now := t\<rparr>) f" and M': "tolerant (e\<lparr>en_now := t\<rparr>)" "used + n < en_max_open (e\<lparr>en_now := t\<rparr>)"
    using F M Cons.prems(3) by (simp_all add: env_time)
  obtain s1 where s1: "trans_data (e\<lparr>en_now := t\<rparr>) (ip, port) s = Some s1"
    "session_ok (e\<lparr>en_now := t\<rparr>) ip port a f k T used (Suc n) s1"
    by (rule session_step [OF E F' M'])
  have "table_ready s" using Cons.prems(1) by (simp add: session_ok_def)
  then have H: "head_check (e\<lparr>en_now := t\<rparr>) buff (ip, port) s = Some (s1, 0)"
    using head_check_ok p(2,3) s1(1) handler_trans(1) by simp
  have "session_ok e ip port a f k T used (Suc n) s1" using s1(2) by (simp add: session_ok_def env_time)
  from Cons.IH [OF this] Cons.prems(2,3) H p(1) show ?case by simp
qed auto

text \<open>The replies together.\<close>

lemma session_data:
  assumes "\<forall>i<length ps. reply_ok ip port f (min (length f) (k + 1000 * i)) (ps ! i)" "k \<le> length f"
  shows "concat (map pkt_data ps) = take (1000 * length ps) (drop k f)"
  using assms(1)
proof (induction ps rule: rev_induct)
  case (snoc p ps)
  let ?k = "min (length f) (k + 1000 * length ps)"
  have IH: "concat (map pkt_data ps) = take (1000 * length ps) (drop k f)"
  proof (rule snoc.IH, intro allI impI)
    fix i assume "i < length ps"
    then show "reply_ok ip port f (min (length f) (k + 1000 * i)) (ps ! i)"
      using snoc.prems [rule_format, of i] by (simp add: nth_append)
  qed
  have "reply_ok ip port f ?k p" using snoc.prems by (metis length_append_singleton lessI nth_append_length)
  then have "pkt_data p = take 1000 (drop (k + 1000 * length ps) f)"
    by (auto simp: reply_ok_def pkt_data_def min_def split: if_splits)
  then show ?case using IH take_add [of "1000 * length ps" 1000 "drop k f"] by (simp add: add.commute)
qed simp

text \<open>The first request makes the entry of the device.\<close>

definition fresh_map :: "(string, addr) hmap \<Rightarrow> bool" where
  "fresh_map m \<longleftrightarrow> hm_wf m \<and> hm_used m = 0 \<and> hm_size m = 0 \<and> hm_table_size m = 2000 \<and>
     (\<forall>k. hm_lookup hashmap_hash_int m k = None)"

lemma fresh_map_new:
  assumes "hashmap_new True True 2000 = Some m"
  shows "fresh_map m"
proof -
  have n: "hm_new True True 2000 = Some m" using assms by (simp add: hashmap_new_def)
  have "hm_wf m" by (rule hm_new_wf [OF _ _ n]) (simp_all add: INITIAL_SIZE_def)
  moreover have "hm_lookup hashmap_hash_int m k = None" for k
    by (rule hm_new_lookup [OF good_hashmap _ _ n]) (simp_all add: INITIAL_SIZE_def)
  ultimately show ?thesis using hm_new_used [OF n] by (simp add: fresh_map_def)
qed

definition start_request :: "nat \<Rightarrow> u8 list \<Rightarrow> bool" where
  "start_request k buff \<longleftrightarrow> 1036 \<le> length buff \<and> buff ! 8 = 9 \<and> buff ! 9 \<noteq> 0x0C \<and> buff ! 9 \<noteq> 0x0D \<and>
     scast (le32 (take 4 (drop 12 buff))) = (of_nat k :: u64)"

text \<open>The timer of the device, if there is one, is armed.\<close>

definition timer_armed :: "u32 \<Rightarrow> server \<Rightarrow> bool" where
  "timer_armed ip s \<longleftrightarrow> hm_wf (sv_timer s) \<and>
     (\<forall>v. hm_lookup hashmapi_hash_int (sv_timer s) (sint ip) = Some v \<longrightarrow> (\<exists>a t. v = Some a \<and> sv_tm s a = Some (Some t)))"

lemma cancel_armed:
  assumes "timer_armed ip s"
  obtains xs tm where "cancel_transfer_timer e ip s = Some (s\<lparr>sv_cancelled := xs, sv_tm := tm\<rparr>)"
proof -
  have w: "hm_wf (sv_timer s)" using assms by (simp add: timer_armed_def)
  note g = hm_get_total [OF good_hashmapi w, of "sint ip"]
  show ?thesis
  proof (cases "hm_lookup hashmapi_hash_int (sv_timer s) (sint ip)")
    case None
    then show ?thesis using that [where xs = "sv_cancelled s" and tm = "sv_tm s"] g by (simp add: cancel_transfer_timer_def hashmapi_get_def map_codes)
  next
    case (Some v)
    then obtain a t where a: "v = Some a" "sv_tm s a = Some (Some t)" using assms by (auto simp: timer_armed_def)
    show ?thesis using that [where xs = "sv_cancelled s @ [Some t]" and tm = "(sv_tm s)(a \<mapsto> None)"] g Some a
      by (simp add: cancel_transfer_timer_def hashmapi_get_def map_codes)
  qed
qed

lemma start_response_ok:
  assumes D: "srv_dev e s T" "reg_map (sv_reg s) T ip \<noteq> None" and m: "fresh_map (sv_map s)"
    and t: "timer_armed ip s"
    and b: "start_request k buff" "k \<le> length f" and F: "file_ok e f" and M: "tolerant e" "sv_open s < en_max_open e"
  obtains s1 where "start_response e buff (ip, port) s = trans_data e (ip, port) s1" "transfer e ip (en_new e (sv_up s)) f k T s1"
    "sv_sent s1 = sv_sent s" "sv_mymap s1 = sv_mymap s" "sv_calls s1 = sv_calls s" "sv_open s1 = sv_open s + 1"
proof -
  obtain xs tm where C: "cancel_transfer_timer e ip s = Some (s\<lparr>sv_cancelled := xs, sv_tm := tm\<rparr>)" by (rule cancel_armed [OF t])
  let ?sc = "s\<lparr>sv_cancelled := xs, sv_tm := tm\<rparr>"
  let ?key = "en_ntoa e ip" and ?pk = "take 1036 buff"
  let ?r = "le32 (take 4 (drop 12 ?pk))" and ?l = "le32 (take 4 (drop 16 ?pk))"
  let ?n = "new_updev e (ip, port) ?r ?l"
  have W: "hm_wf (sv_map s)" "hm_lookup hashmap_hash_int (sv_map s) ?key = None" using m by (simp_all add: fresh_map_def)
  obtain m' where m': "hm_put hashmap_hash_int (en_put e) (Suc 0) (sv_map s) ?key (Some (en_new e (sv_up s))) = Some (MAP_OK, m')" "hm_wf m'"
    "hm_lookup hashmap_hash_int m' = (hm_lookup hashmap_hash_int (sv_map s))(?key \<mapsto> Some (en_new e (sv_up s)))"
    by (rule hm_put_few [OF good_hashmap W(1)]) (use m in \<open>simp_all add: fresh_map_def MAX_CHAIN_LENGTH_def\<close>)
  have put: "hashmap_put (en_put e) (sv_map s) ?key (Some (en_new e (sv_up s))) = Some (MAP_OK, m')"
    using m'(1) unfolding hashmap_put_def One_nat_def .
  have l: "1036 \<le> length buff" "buff ! 9 \<noteq> 0x0C" "buff ! 9 \<noteq> 0x0D" using b(1) by (simp_all add: start_request_def)
  have pk: "bytes_at buff 0 1036 = Some ?pk" "?pk ! 9 = buff ! 9" "take 4 (drop 12 ?pk) = take 4 (drop 12 buff)"
    using l(1) by (simp_all add: bytes_at_def drop_take min_def)
  let ?s = "?sc\<lparr>sv_up := (sv_up s)(en_new e (sv_up s) \<mapsto> ?n), sv_map := m'\<rparr>"
  have E: "transfer_entry e (ip, port) ?r ?l ?sc = Some (?s, Some (en_new e (sv_up s)))"
    using get_missing [OF W] put by (simp add: transfer_entry_def map_codes Let_def)
  let ?s1 = "?s\<lparr>sv_up := (sv_up ?s)(en_new e (sv_up s) \<mapsto> ?n\<lparr>up_total := get_file_size e (up_file ?n)\<rparr>)\<rparr>"
  let ?s2 = "?s1\<lparr>sv_open := sv_open s + 1\<rparr>"
  have f: "en_file e ''a.tar.gz'' = Some f" using F by (simp add: file_ok_def)
  have O: "open_stream e ''a.tar.gz'' ?s1 = (?s2, Some f)" using open_stream_ok [OF f, of ?s1] M(2) by simp
  have n: "up_file ?n = ''a.tar.gz''" by (simp add: new_updev_def)
  have fr: "free_stream e fp = Some" for fp using free_stream_ok M(1) unfolding tolerant_def by (intro ext) blast
  have "start_response e buff (ip, port) s = trans_data e (ip, port) ?s2"
    using pk(1,2) C E l(2,3) O n fr unfolding start_response_def by simp
  moreover have "transfer e ip (en_new e (sv_up s)) f k T ?s2"
    using D m' b pk(3) by (simp add: transfer_def srv_dev_def new_updev_def start_request_def)
  ultimately show ?thesis using that by simp
qed

lemma init_ready:
  assumes "distinct cbs" "length cbs = 14"
  obtains m cs m2 where "init_register True cbs s = Some (s\<lparr>sv_calls := cs, sv_mymap := m, sv_map := m2\<rparr>)"
    "table_ready (s\<lparr>sv_calls := cs, sv_mymap := m, sv_map := m2\<rparr>)" "fresh_map m2"
  using init_register_ok [OF assms, of s] fresh_map_new unfolding table_ready_def by metis

section \<open>Any packets\<close>

text \<open>The state between packets: the tables are valid and their values are live objects.\<close>

definition live_vals :: "('k \<Rightarrow> addr option option) \<Rightarrow> 'n heap \<Rightarrow> bool" where
  "live_vals f h \<longleftrightarrow> (\<forall>k v. f k = Some v \<longrightarrow> v \<noteq> None \<and> h (the v) \<noteq> None)"

definition srv_inv :: "env \<Rightarrow> rbt \<Rightarrow> server \<Rightarrow> bool" where
  "srv_inv e T s \<longleftrightarrow> table_ready s \<and> srv_dev e s T \<and> hm_wf (sv_map s) \<and> hm_wf (sv_timer s) \<and>
     live_vals (hm_lookup hashmap_hash_int (sv_map s)) (sv_up s) \<and>
     live_vals (hm_lookup hashmapi_hash_int (sv_timer s)) (sv_tm s)"

lemma live_vals_upd: "live_vals f h \<Longrightarrow> live_vals f (h(a \<mapsto> x))"
  by (auto simp: live_vals_def)

lemma live_vals_put: "live_vals f h \<Longrightarrow> live_vals (f(k \<mapsto> Some a)) (h(a \<mapsto> x))"
  by (auto simp: live_vals_def)

lemma srv_inv_fields:
  assumes "srv_inv e T s" "sv_mymap s' = sv_mymap s" "sv_calls s' = sv_calls s" "srv_dev e s' T"
    "hm_wf (sv_map s')" "live_vals (hm_lookup hashmap_hash_int (sv_map s')) (sv_up s')"
    "sv_timer s' = sv_timer s" "live_vals (hm_lookup hashmapi_hash_int (sv_timer s')) (sv_tm s')"
  shows "srv_inv e T s'"
  using assms table_ready_cong [OF assms(2,3)] by (simp add: srv_inv_def)

lemma srv_inv_up:
  assumes "srv_inv e T s"
  shows "srv_inv e T (s\<lparr>sv_up := (sv_up s)(a \<mapsto> x)\<rparr>)"
  by (rule srv_inv_fields [OF assms]) (use assms in \<open>simp_all add: srv_inv_def srv_dev_def live_vals_upd\<close>)

lemma srv_inv_reg:
  assumes "srv_inv e T s" "srv_dev e (s\<lparr>sv_reg := r\<rparr>) T"
  shows "srv_inv e T (s\<lparr>sv_reg := r\<rparr>)"
  by (rule srv_inv_fields [OF assms(1)]) (use assms in \<open>simp_all add: srv_inv_def\<close>)

lemma srv_inv_send:
  assumes "srv_inv e T s"
  shows "srv_inv e T (send ty v co sn ac len b to s)"
  by (rule srv_inv_fields [OF assms]) (use assms in \<open>simp_all add: srv_inv_def srv_dev_def live_vals_upd send_def\<close>)

lemma get_up:
  assumes "srv_inv e T s"
  obtains (missing) "hashmap_get (sv_map s) k = Some (MAP_MISSING, None)"
  | (entry) a u where "hashmap_get (sv_map s) k = Some (MAP_OK, Some a)" "sv_up s a = Some u"
      "hm_lookup hashmap_hash_int (sv_map s) k = Some (Some a)"
proof (cases "hm_lookup hashmap_hash_int (sv_map s) k")
  case None
  then show ?thesis using missing get_missing [OF _ None] assms by (simp add: srv_inv_def)
next
  case (Some v)
  then have "v \<noteq> None" "sv_up s (the v) \<noteq> None" using assms unfolding srv_inv_def live_vals_def by blast+
  then obtain a where a: "v = Some a" "sv_up s a \<noteq> None" by auto
  then show ?thesis using entry get_ok [OF _ Some] assms Some by (auto simp: srv_inv_def)
qed

lemma take_sn_any:
  assumes "srv_inv e T s"
  obtains r n where "take_sn e ip s = Some (s\<lparr>sv_reg := r\<rparr>, n)" "srv_inv e T (s\<lparr>sv_reg := r\<rparr>)"
proof (cases "reg_map (sv_reg s) T ip")
  case None
  have R: "reg_inv (sv_reg s) T" "rg_devs (sv_reg s) (en_tmp e) = None" using assms by (simp_all add: srv_inv_def srv_dev_def)
  have "take_sn e ip s = Some (s\<lparr>sv_reg := sv_reg s\<rparr>, None)" using sn_ret_ok [OF R, of ip] None by (simp add: take_sn_def)
  then show ?thesis using that assms by (metis server.surjective server.update_convs(1))
next
  case (Some d)
  have D: "srv_dev e s T" using assms by (simp add: srv_inv_def)
  obtain r where "take_sn e ip s = Some (s\<lparr>sv_reg := r\<rparr>, Some (next_sn (dev_sn d)))" "srv_dev e (s\<lparr>sv_reg := r\<rparr>) T"
    by (rule take_sn_ok [OF D Some])
  then show ?thesis using that srv_inv_reg [OF assms] by blast
qed

lemma srv_inv_open:
  assumes "srv_inv e T s"
  shows "srv_inv e T (s\<lparr>sv_open := n\<rparr>)"
  by (rule srv_inv_fields [OF assms]) (use assms in \<open>simp_all add: srv_inv_def srv_dev_def\<close>)

lemma open_any:
  assumes "srv_inv e T s"
  obtains n fp where "open_stream e name s = (s\<lparr>sv_open := n\<rparr>, fp)" "srv_inv e T (s\<lparr>sv_open := n\<rparr>)"
proof -
  have "open_stream e name s = (s\<lparr>sv_open := sv_open (fst (open_stream e name s))\<rparr>, snd (open_stream e name s))"
    by (simp add: open_stream_def split: option.split)
  then show ?thesis using that srv_inv_open [OF assms] by blast
qed

lemma end_response_any:
  assumes "srv_inv e T s" "en_literal e"
  obtains s' where "end_response e from sz s = Some s'" "srv_inv e T s'" "sv_up s' = sv_up s"
proof -
  obtain r n where t: "take_sn e (fst from) s = Some (s\<lparr>sv_reg := r\<rparr>, n)" "srv_inv e T (s\<lparr>sv_reg := r\<rparr>)"
    by (rule take_sn_any [OF assms(1)])
  show ?thesis
  proof (cases n)
    case None then show ?thesis using that [of "s\<lparr>sv_reg := r\<rparr>"] t by (simp add: end_response_def)
  next
    case (Some m)
    let ?s' = "send 2 10 4 m 10 4 (Total (ucast sz)) from (s\<lparr>sv_reg := r\<rparr>)"
    have "end_response e from sz s = Some ?s'" using t(1) Some assms(2) by (simp add: end_response_def)
    moreover have "sv_up ?s' = sv_up s" by (simp add: send_def)
    ultimately show ?thesis using that srv_inv_send [OF t(2)] by blast
  qed
qed

lemma trans_data_any:
  assumes I: "srv_inv e T s" and M: "tolerant e"
  obtains s' where "trans_data e from s = Some s'" "srv_inv e T s'"
proof (cases rule: get_up [OF I, of "en_ntoa e (fst from)"])
  case 1
  then show ?thesis using that I by (simp add: trans_data_def)
next
  case (2 a u)
  have L: "en_literal e" "en_free_stream e" using M by (simp_all add: tolerant_def)
  let ?u = "u\<lparr>up_total := get_file_size e (up_file u)\<rparr>" let ?sc = "s\<lparr>sv_up := (sv_up s)(a \<mapsto> ?u)\<rparr>"
  obtain o' fp where O: "open_stream e (up_file u) ?sc = (?sc\<lparr>sv_open := o'\<rparr>, fp)" "srv_inv e T (?sc\<lparr>sv_open := o'\<rparr>)"
    by (rule open_any [OF srv_inv_up [OF I, of a ?u]])
  let ?s = "?sc\<lparr>sv_open := o'\<rparr>"
  obtain r n where t: "take_sn e (fst from) ?s = Some (?s\<lparr>sv_reg := r\<rparr>, n)" "srv_inv e T (?s\<lparr>sv_reg := r\<rparr>)"
    by (rule take_sn_any [OF O(2)])
  note U = srv_inv_up [where a = a]
  consider (fail) "n = None \<or> fp = None" | (ok) m f where "n = Some m" "fp = Some f"
    by (cases n; cases fp) auto
  then show ?thesis
  proof cases
    case fail
    have "trans_data e from s = Some (?s\<lparr>sv_reg := r\<rparr>)"
      using fail 2 O(1) t(1) unfolding trans_data_def by (cases n) (auto simp: map_codes split: option.splits)
    then show ?thesis using that t(2) by blast
  next
    case ok
    let ?d = "take 1000 (drop (seek_pos (up_offset u)) f)"
    show ?thesis
    proof (cases "?d = []")
      case True
      obtain s2 where e: "end_response e from (up_total ?u) (?s\<lparr>sv_reg := r\<rparr>) = Some s2" "srv_inv e T s2" "sv_up s2 = sv_up ?s"
        by (rule end_response_any [OF t(2) L(1), of "from" "up_total ?u"]) simp
      have "trans_data e from s = Some (s2\<lparr>sv_up := (sv_up s2)(a \<mapsto> ?u\<lparr>up_state := 4\<rparr>)\<rparr>)"
        using ok 2 O(1) t(1) e(1,3) True free_stream_ok [OF L(2)] unfolding trans_data_def by (simp add: map_codes Let_def)
      then show ?thesis using that U [OF e(2)] by blast
    next
      case False
      let ?p = "Chunk (of_nat (length ?d)) (ucast (up_offset u)) (up_len u) ?d"
      let ?s2 = "send 2 1 4 m 8 4 ?p from (?s\<lparr>sv_reg := r\<rparr>)"
      let ?u2 = "?u\<lparr>up_offset := up_offset u + of_nat (length ?d), up_send_size := up_send_size u + of_nat (length ?d), up_time := en_now e\<rparr>"
      have "trans_data e from s = Some (?s2\<lparr>sv_up := (sv_up ?s2)(a \<mapsto> ?u2)\<rparr>)"
        using ok 2 O(1) t(1) False free_stream_ok [OF L(2)] unfolding trans_data_def
        by (simp add: map_codes Let_def send_def del: take_eq_Nil drop_eq_Nil length_take length_drop)
      then show ?thesis using that U [OF srv_inv_send [OF t(2)]] by blast
    qed
  qed
qed

lemma cancel_any:
  assumes I: "srv_inv e T s" and M: "en_cancel_null e"
  obtains s' where "cancel_transfer_timer e ip s = Some s'" "srv_inv e T s'"
proof -
  have w: "hm_wf (sv_timer s)" using I by (simp add: srv_inv_def)
  note g = hm_get_total [OF good_hashmapi w, of "sint ip"]
  show ?thesis
  proof (cases "hm_lookup hashmapi_hash_int (sv_timer s) (sint ip)")
    case None
    then show ?thesis using that [of s] g I by (simp add: cancel_transfer_timer_def hashmapi_get_def map_codes)
  next
    case (Some v)
    then have "v \<noteq> None" "sv_tm s (the v) \<noteq> None" using I unfolding srv_inv_def live_vals_def by blast+
    then obtain a t where a: "v = Some a" "sv_tm s a = Some t" by auto
    let ?s' = "s\<lparr>sv_cancelled := sv_cancelled s @ [t], sv_tm := (sv_tm s)(a \<mapsto> None)\<rparr>"
    have "srv_inv e T ?s'"
      by (rule srv_inv_fields [OF I]) (use I in \<open>simp_all add: srv_inv_def srv_dev_def live_vals_upd\<close>)
    moreover have "cancel_transfer_timer e ip s = Some ?s'"
      using g Some a M by (simp add: cancel_transfer_timer_def hashmapi_get_def map_codes)
    ultimately show ?thesis using that by blast
  qed
qed

text \<open>The map has room for the key, or its growth fails.\<close>

lemma put_any:
  assumes w: "hm_wf m" and ok: "\<not> ok \<or> window_free hashmap_hash_int m k"
  obtains (full) "hashmap_put ok m k v = Some (MAP_OMEM, m)"
  | (put) m' where "hashmap_put ok m k v = Some (MAP_OK, m')" "hm_wf m'"
      "hm_lookup hashmap_hash_int m' = (hm_lookup hashmap_hash_int m)(k \<mapsto> v)"
proof -
  obtain i where i: "hm_hash hashmap_hash_int m k = Some i" "i \<noteq> MAP_FULL \<longleftrightarrow> window_free hashmap_hash_int m k"
    using hm_hash_window [OF good_hashmap w] by blast
  show ?thesis
  proof (cases "i = MAP_FULL")
    case True
    then show ?thesis using full hm_put_full [OF good_hashmap w, of k ok 0 v] i ok
      by (simp add: hashmap_put_def del: hm_put.simps)
  next
    case False
    then show ?thesis using put hm_put_slot [OF good_hashmap w i(1), of ok 0 v]
      by (auto simp: hashmap_put_def simp del: hm_put.simps)
  qed
qed

text \<open>
  The command to upgrade, when the lookup in the wrong map finds nothing and the map of the timers has
  room: one packet, and an armed timer for the device.
\<close>

lemma send_upgrade_arms:
  assumes D: "srv_dev e s T" "reg_map (sv_reg s) T ip = Some d" and m: "en_confused e (sv_map s) (sint ip) = Some None"
    and p: "en_pool e" "en_reltimer e \<noteq> None" and w: "hm_wf (sv_timer s)" "window_free hashmapi_hash_int (sv_timer s) (sint ip)"
  obtains s' where "send_upgrade e ty ip s = Some (s', 0)" "timer_armed ip s'" "srv_dev e s' T"
    "map pk_action (sv_sent s') = map pk_action (sv_sent s) @ [9]" "sv_map s' = sv_map s"
proof -
  let ?b = "Total (ucast (get_file_size e ''a.tar.gz''))"
  have n: "reg_map (sv_reg s) T ip \<noteq> None" using D(2) by simp
  have R: "reg_inv (sv_reg s) T" "rg_devs (sv_reg s) (en_tmp e) = None" using D(1) by (simp_all add: srv_dev_def)
  obtain a where a: "find_device (en_tmp e) ip (sv_reg s) = Some (Some a)" "rg_devs (sv_reg s) a = Some d" "remote_ip d = ip"
    using D(2) by (cases rule: find_device_cases [OF R, of ip]) auto
  obtain r n where t: "take_sn e ip s = Some (s\<lparr>sv_reg := r\<rparr>, Some n)" "srv_dev e (s\<lparr>sv_reg := r\<rparr>) T"
    by (rule take_sn_srv [OF D(1) n])
  let ?s = "send ty 1 4 n 9 4 ?b (ip, dev_port d) (s\<lparr>sv_reg := r\<rparr>)"
  have c: "send_command e ty 4 9 4 ?b ip s = Some (?s, 0)" using a t(1) by (simp add: send_command_def)
  obtain i where i: "hm_hash hashmapi_hash_int (sv_timer s) (sint ip) = Some i" "i \<noteq> MAP_FULL"
    using hm_hash_window [OF good_hashmapi w(1)] w(2) by blast
  let ?a = "en_tra e (sv_tm s)"
  obtain m' where m': "hashmapi_put (en_put e) (sv_timer s) (sint ip) (Some ?a) = Some (MAP_OK, m')" "hm_wf m'"
    "hm_lookup hashmapi_hash_int m' = (hm_lookup hashmapi_hash_int (sv_timer s))(sint ip \<mapsto> Some ?a)"
    using hm_put_slot [OF good_hashmapi w(1) i, of "en_put e" 0 "Some ?a"] by (auto simp: hashmapi_put_def simp del: hm_put.simps)
  let ?s' = "?s\<lparr>sv_tm := (sv_tm s)(?a \<mapsto> en_reltimer e), sv_timer := m'\<rparr>"
  have "arm_timer e ip ?s = Some (?s', 0)" using m p(1) m'(1) by (simp add: arm_timer_def send_def Let_def map_codes)
  then have "send_upgrade e ty ip s = Some (?s', 0)" using c by (simp add: send_upgrade_def)
  moreover have "timer_armed ip ?s'" using m'(2,3) p(2) by (auto simp: timer_armed_def)
  ultimately show ?thesis using that t(2) by (simp add: srv_dev_def send_def)
qed

lemma transfer_entry_any:
  assumes I: "srv_inv e T s" and ok: "\<not> en_put e"
  obtains s' p where "transfer_entry e from rl ml s = Some (s', p)" "srv_inv e T s'" "p \<noteq> None \<longrightarrow> sv_up s' (the p) \<noteq> None"
proof (cases rule: get_up [OF I, of "en_ntoa e (fst from)"])
  case 1
  let ?k = "en_ntoa e (fst from)" and ?a = "en_new e (sv_up s)"
  let ?s = "s\<lparr>sv_up := (sv_up s)(?a \<mapsto> new_updev e from rl ml)\<rparr>"
  have w: "hm_wf (sv_map s)" using I by (simp add: srv_inv_def)
  show ?thesis
  proof (cases rule: put_any [OF w disjI1 [OF ok], of ?k "Some ?a"])
    case one: 1
    have "transfer_entry e from rl ml s = Some (?s, None)"
      using 1 one by (simp add: transfer_entry_def map_codes Let_def)
    then show ?thesis using that srv_inv_up [OF I] by blast
  next
    case put: (2 m)
    let ?s' = "?s\<lparr>sv_map := m\<rparr>"
    have "transfer_entry e from rl ml s = Some (?s', Some ?a)"
      using 1 put(1) by (simp add: transfer_entry_def map_codes Let_def)
    moreover have "srv_inv e T ?s'"
      by (rule srv_inv_fields [OF I]) (use I put(2,3) in \<open>simp_all add: srv_inv_def srv_dev_def live_vals_put\<close>)
    ultimately show ?thesis using that by simp
  qed
next
  case (2 a u)
  let ?u = "u\<lparr>up_time := en_now e, up_offset := scast rl, up_state := 1, up_len := ml\<rparr>"
  have "transfer_entry e from rl ml s = Some (s\<lparr>sv_up := (sv_up s)(a \<mapsto> ?u)\<rparr>, Some a)"
    using 2 by (simp add: transfer_entry_def map_codes)
  then show ?thesis using that srv_inv_up [OF I] by simp
qed

lemma start_response_any:
  assumes I: "srv_inv e T s" and ok: "\<not> en_put e" and M: "tolerant e" "en_cancel_null e" and b: "1036 \<le> length buff"
  obtains s' where "start_response e buff from s = Some s'" "srv_inv e T s'"
proof -
  let ?pk = "take 1036 buff"
  let ?r = "le32 (take 4 (drop 12 ?pk))" and ?l = "le32 (take 4 (drop 16 ?pk))"
  have pk: "bytes_at buff 0 1036 = Some ?pk" using b by (simp add: bytes_at_def)
  obtain s1 where s1: "cancel_transfer_timer e (fst from) s = Some s1" "srv_inv e T s1" by (rule cancel_any [OF I M(2)])
  obtain s2 p where s2: "transfer_entry e from ?r ?l s1 = Some (s2, p)" "srv_inv e T s2" "p \<noteq> None \<longrightarrow> sv_up s2 (the p) \<noteq> None"
    by (rule transfer_entry_any [OF s1(2) ok])
  show ?thesis
  proof (cases p)
    case None
    then show ?thesis using that pk s1(1) s2(1,2) by (simp add: start_response_def)
  next
    case (Some a)
    then obtain u where u: "sv_up s2 a = Some u" using s2(3) by auto
    note I2 = srv_inv_up [OF s2(2), of a]
    let ?u = "u\<lparr>up_total := get_file_size e (up_file u)\<rparr>"
    let ?s2 = "s2\<lparr>sv_up := (sv_up s2)(a \<mapsto> ?u)\<rparr>"
    obtain n fp where O: "open_stream e (up_file u) ?s2 = (?s2\<lparr>sv_open := n\<rparr>, fp)" "srv_inv e T (?s2\<lparr>sv_open := n\<rparr>)"
      by (rule open_any [OF I2])
    obtain s3 where s3: "trans_data e from (?s2\<lparr>sv_open := n\<rparr>) = Some s3" "srv_inv e T s3"
      by (rule trans_data_any [OF O(2) M(1)])
    have fr: "free_stream e fp s3 = Some s3" using free_stream_ok M(1) by (simp add: tolerant_def)
    have "start_response e buff from s =
      (if ?pk ! 9 = 0x0C then Some (s2\<lparr>sv_up := (sv_up s2)(a \<mapsto> u\<lparr>up_state := 3\<rparr>)\<rparr>)
       else if ?pk ! 9 = 0x0D then Some (s2\<lparr>sv_up := (sv_up s2)(a \<mapsto> u\<lparr>up_state := 5\<rparr>)\<rparr>) else Some s3)"
      using pk s1(1) s2(1) Some u O(1) s3(1) fr unfolding start_response_def by (simp del: nth_take)
    then show ?thesis using that I2 s3(2) by (simp split: if_splits)
  qed
qed

lemma end_res_any:
  assumes I: "srv_inv e T s" and b: "1036 \<le> length buff"
  obtains s' where "end_res e buff from s = Some s'" "srv_inv e T s'"
proof (cases rule: get_up [OF I, of "en_ntoa e (fst from)"])
  case 1
  then show ?thesis using that I b by (simp add: end_res_def bytes_at_def)
next
  case (2 a u)
  then have "end_res e buff from s = Some (s\<lparr>sv_up := (sv_up s)(a \<mapsto> u\<lparr>up_state := 4\<rparr>)\<rparr>)"
    using b by (simp add: end_res_def bytes_at_def map_codes)
  then show ?thesis using that srv_inv_up [OF I] by blast
qed

text \<open>A change of a device that keeps its address.\<close>

lemma upd_found:
  assumes I: "srv_inv e T s" and f: "\<And>d. remote_ip (f d) = remote_ip d"
  obtains (none) "find_device (en_tmp e) ip (sv_reg s) = Some None"
  | (some) p s' where "find_device (en_tmp e) ip (sv_reg s) = Some p" "p \<noteq> None" "upd_device f p s = Some s'" "srv_inv e T s'"
proof -
  have R: "reg_inv (sv_reg s) T" "rg_devs (sv_reg s) (en_tmp e) = None" using I by (simp_all add: srv_inv_def srv_dev_def)
  consider (n) "find_device (en_tmp e) ip (sv_reg s) = Some None"
    | (y) a d where "find_device (en_tmp e) ip (sv_reg s) = Some (Some a)" "rg_devs (sv_reg s) a = Some d" "Some a \<in> set (vals T)"
    by (cases rule: find_device_cases [OF R, of ip]) auto
  then show ?thesis
  proof cases
    case n then show ?thesis by (rule none)
  next
    case y
    let ?r = "(sv_reg s)\<lparr>rg_devs := (rg_devs (sv_reg s))(a \<mapsto> f d)\<rparr>"
    have "srv_dev e (s\<lparr>sv_reg := ?r\<rparr>) T"
      using reg_update(1) [OF R(1) y(2) f y(3)] R(2) y(2) by (auto simp: srv_dev_def)
    moreover have "upd_device f (Some a) s = Some (s\<lparr>sv_reg := ?r\<rparr>)" using y(2) by (simp add: upd_device_def)
    ultimately show ?thesis using some [OF y(1)] srv_inv_reg [OF I] by blast
  qed
qed

definition safe_action :: "u8 \<Rightarrow> bool" where
  "safe_action t \<longleftrightarrow> t \<noteq> 0 \<and> t \<noteq> 3 \<and> t \<noteq> 6"

lemma run_handler_any:
  assumes I: "srv_inv e T s" and ok: "\<not> en_put e" "en_pool e" and M: "tolerant e" "en_cancel_null e"
    and b: "1036 \<le> length buff"
    and h: "h \<noteq> Head_check" "h \<noteq> Negotiate_function" "h \<noteq> Sysinfo_function"
  shows "\<exists>s'. run_handler h e buff from s = Some s' \<and> srv_inv e T s'"
proof (cases h)
  case Time_function
  then show ?thesis using srv_inv_send [OF I] b by (simp add: time_function_def bytes_at_def)
next
  case State_function
  show ?thesis unfolding State_function
    by (cases rule: upd_found [OF I, of "\<lambda>d. d\<lparr>dev_online := True\<rparr>" "fst from"]) (auto simp: state_function_def I)
next
  case Devinfo_function
  let ?i = "take 56 (drop 12 buff)"
  let ?f = "\<lambda>d. d\<lparr>dev_inf := \<lparr>dev_name = take 40 ?i, dev_version = le32 (take 4 (drop 40 ?i)),
          dev_type = be32 (take 4 (drop 44 ?i)), dev_factory = be32 (take 4 (drop 48 ?i)),
          dev_runtime = be32 (take 4 (drop 52 ?i))\<rparr>\<rparr>"
  have "bytes_at buff 12 56 = Some ?i" using b by (simp add: bytes_at_def)
  then show ?thesis unfolding Devinfo_function using ok(2)
    by (cases rule: upd_found [OF I, of ?f "fst from"]) (auto simp: devinfo_function_def I)
next
  case Trans_data
  then show ?thesis using trans_data_any [OF I M(1), of "from"] by (metis run_handler.simps(9))
next
  case Start_response
  then show ?thesis using start_response_any [OF I ok(1) M b, of "from"] by (metis run_handler.simps(10))
next
  case End_res
  then show ?thesis using end_res_any [OF I b, of "from"] by (metis run_handler.simps(11))
next
  case Test_function
  obtain s' where "start_response e buff from s = Some s'" "srv_inv e T s'" by (rule start_response_any [OF I ok(1) M b])
  then show ?thesis using Test_function ok(2) b by (simp add: test_function_def bytes_at_def)
qed (use I h in simp_all)

lemma srv_inv_time: "srv_inv (e\<lparr>en_now := t\<rparr>) T s = srv_inv e T s"
  by (simp add: srv_inv_def env_time)

lemma handler_of_safe:
  assumes "handler_of t = Some h" "safe_action t"
  shows "h \<noteq> Head_check" "h \<noteq> Negotiate_function" "h \<noteq> Sysinfo_function"
proof -
  have "uint t \<noteq> 0" "uint t \<noteq> 3" "uint t \<noteq> 6"
    using assms(2) by (simp_all add: safe_action_def word_uint_eq_iff)
  then show "h \<noteq> Head_check" "h \<noteq> Negotiate_function" "h \<noteq> Sysinfo_function"
    using assms(1) by (auto simp: handler_of_def handler_table_def split: if_splits)
qed

lemma head_check_any:
  assumes I: "srv_inv e T s" and ok: "\<not> en_put e" "en_pool e" and M: "tolerant e" "en_cancel_null e"
    and b: "1036 \<le> length buff" "safe_action (buff ! 8)"
  shows "\<exists>s' r. head_check e buff from s = Some (s', r) \<and> srv_inv e T s'"
proof -
  have t: "table_ready s" "8 < length buff" using I b(1) by (simp_all add: srv_inv_def)
  show ?thesis
  proof (cases "handler_of (buff ! 8)")
    case None
    then show ?thesis using head_check_ok [OF t, of e "from"] I by simp
  next
    case (Some h)
    obtain s' where "run_handler h e buff from s = Some s'" "srv_inv e T s'"
      using run_handler_any [OF I ok M b(1) handler_of_safe [OF Some b(2)]] by blast
    then show ?thesis using head_check_ok [OF t, of e "from"] Some by simp
  qed
qed

definition safe_packet :: "u64 \<times> u8 list \<times> u32 \<times> u16 \<Rightarrow> bool" where
  "safe_packet p \<longleftrightarrow> (case p of (t, buff, fr) \<Rightarrow> 1036 \<le> length buff \<and> safe_action (buff ! 8))"

lemma serve_any:
  assumes ok: "\<not> en_put e" "en_pool e" and M: "tolerant e" "en_cancel_null e"
  shows "srv_inv e T s \<Longrightarrow> list_all safe_packet ps \<Longrightarrow> \<exists>s'. serve e ps s = Some s' \<and> srv_inv e T s'"
proof (induction ps arbitrary: s)
  case (Cons p ps)
  obtain t buff fr where p: "p = (t, buff, fr)" by (cases p)
  have b: "1036 \<le> length buff" "safe_action (buff ! 8)" using Cons.prems(2) p by (simp_all add: safe_packet_def)
  have I: "srv_inv (e\<lparr>en_now := t\<rparr>) T s" using Cons.prems(1) by (simp add: srv_inv_time)
  obtain s1 r where "head_check (e\<lparr>en_now := t\<rparr>) buff fr s = Some (s1, r)" "srv_inv e T s1"
    using head_check_any [OF I _ _ _ _ b, of fr] ok M by (auto simp: srv_inv_time env_time(4))
  then show ?case using Cons.IH [of s1] Cons.prems(2) p by simp
qed auto

text \<open>A server after the registration.\<close>

lemma init_inv:
  assumes "distinct cbs" "length cbs = 14" "srv_dev e s T" "hm_wf (sv_timer s)"
    "live_vals (hm_lookup hashmapi_hash_int (sv_timer s)) (sv_tm s)"
  obtains s' where "init_register True cbs s = Some s'" "srv_inv e T s'" "sv_up s' = sv_up s"
proof -
  obtain m cs m2 where I: "init_register True cbs s = Some (s\<lparr>sv_calls := cs, sv_mymap := m, sv_map := m2\<rparr>)"
    "table_ready (s\<lparr>sv_calls := cs, sv_mymap := m, sv_map := m2\<rparr>)" "fresh_map m2"
    by (rule init_ready [OF assms(1,2)])
  then have "srv_inv e T (s\<lparr>sv_calls := cs, sv_mymap := m, sv_map := m2\<rparr>)"
    using assms(3-5) by (simp add: srv_inv_def srv_dev_def live_vals_def fresh_map_def)
  then show ?thesis using that I(1) by simp
qed

section \<open>Stalled transfers are marked\<close>

definition stalled :: "u64 \<Rightarrow> updev_info \<Rightarrow> bool" where
  "stalled now u \<longleftrightarrow> now - up_time u > 10 \<and> up_state u \<noteq> 4 \<and> up_state u \<noteq> 2"

definition has_entry :: "env \<Rightarrow> server \<Rightarrow> u32 set \<Rightarrow> addr \<Rightarrow> bool" where
  "has_entry e s ips a \<longleftrightarrow> (\<exists>ip\<in>ips. hm_lookup hashmap_hash_int (sv_map s) (en_ntoa e ip) = Some (Some a))"

definition marked :: "env \<Rightarrow> server \<Rightarrow> u32 set \<Rightarrow> updev_info heap" where
  "marked e s ips a = map_option (\<lambda>u. if has_entry e s ips a \<and> stalled (en_now e) u then u\<lparr>up_state := 2\<rparr> else u) (sv_up s a)"

lemma marked_empty: "marked e s {} = sv_up s"
  by (simp add: marked_def has_entry_def fun_eq_iff option.map_ident)

lemma marked_again: "sv_map s1 = sv_map s \<Longrightarrow> sv_up s1 = marked e s A \<Longrightarrow> marked e s1 B = marked e s (A \<union> B)"
  by (auto simp: marked_def has_entry_def stalled_def fun_eq_iff option.map_comp intro!: option.map_cong)

lemma task4_device_ok:
  assumes I: "srv_inv e T s"
  obtains s' xs where "task4_device e ip s = Some (s', xs)" "srv_inv e T s'" "sv_up s' = marked e s {ip}"
    "sv_map s' = sv_map s"
proof (cases "hm_lookup hashmap_hash_int (sv_map s) (en_ntoa e ip)")
  case None
  have "hm_wf (sv_map s)" using I by (simp add: srv_inv_def)
  then have "task4_device e ip s = Some (s, [])" using get_missing [OF _ None] by (simp add: task4_device_def)
  moreover have "marked e s {ip} = sv_up s" using None by (simp add: marked_def has_entry_def fun_eq_iff option.map_ident)
  ultimately show ?thesis using that I by metis
next
  case (Some v)
  then obtain a u where au: "v = Some a" "sv_up s a = Some u" "hashmap_get (sv_map s) (en_ntoa e ip) = Some (MAP_OK, Some a)"
    by (cases rule: get_up [OF I, of "en_ntoa e ip"]) (use get_ok [OF _ Some] I in \<open>auto simp: srv_inv_def map_codes\<close>)
  have he: "has_entry e s {ip} b \<longleftrightarrow> b = a" for b using Some au(1) by (auto simp: has_entry_def)
  show ?thesis
  proof (cases "stalled (en_now e) u")
    case True
    let ?s = "s\<lparr>sv_up := (sv_up s)(a \<mapsto> u\<lparr>up_state := 2\<rparr>)\<rparr>"
    have "task4_device e ip s = Some (?s, [u\<lparr>up_state := 2\<rparr>])"
      using au True by (simp add: task4_device_def map_codes stalled_def Let_def)
    moreover have "sv_up ?s = marked e s {ip}"
      using he au(2) True by (auto simp: marked_def fun_eq_iff option.map_ident)
    moreover have "sv_map ?s = sv_map s" by simp
    ultimately show ?thesis using that srv_inv_up [OF I, of a "u\<lparr>up_state := 2\<rparr>"] by blast
  next
    case False
    have c: "\<not> (en_now e - up_time u > 10 \<and> up_state u \<noteq> 4 \<and> up_state u \<noteq> 2)" using False by (simp add: stalled_def)
    have "\<exists>xs. task4_device e ip s = Some (s, xs)"
      unfolding task4_device_def au(3) by (simp only: bind.simps case_prod_conv au(2) deref_simps Let_def c if_False) (simp add: map_codes)
    moreover have "sv_up s = marked e s {ip}"
    proof
      fix x show "sv_up s x = marked e s {ip} x"
        using he au(2) False by (cases "sv_up s x"; cases "x = a") (auto simp: marked_def)
    qed
    ultimately show ?thesis using that I by blast
  qed
qed

lemma task4_devices_ok:
  "srv_inv e T s \<Longrightarrow> \<exists>s' xs. task4_devices e ips s = Some (s', xs) \<and> srv_inv e T s' \<and>
     sv_up s' = marked e s (set ips) \<and> sv_map s' = sv_map s"
proof (induction ips arbitrary: s)
  case Nil
  then show ?case by (simp add: marked_empty)
next
  case (Cons ip ips)
  obtain s1 xs where S: "task4_device e ip s = Some (s1, xs)" "srv_inv e T s1" "sv_up s1 = marked e s {ip}" "sv_map s1 = sv_map s"
    by (rule task4_device_ok [OF Cons.prems])
  obtain s' ys where R: "task4_devices e ips s1 = Some (s', ys)" "srv_inv e T s'" "sv_up s' = marked e s1 (set ips)"
    "sv_map s' = sv_map s1" using Cons.IH [OF S(2)] by blast
  have "marked e s1 (set ips) = marked e s ({ip} \<union> set ips)" by (rule marked_again [OF S(4,3)])
  then show ?case using S R by simp
qed

lemma task4_pass_ok:
  assumes I: "srv_inv e T s" and n: "length (vals T) < 2 ^ 32" and v: "length (tv_path v) = HEIGHT_LIMIT"
  shows "\<exists>s' xs. task4_pass e v s = Some (s', xs) \<and> srv_inv e T s' \<and> sv_up s' = marked e s (dom (reg_map (sv_reg s) T))"
proof -
  have R: "reg_inv (sv_reg s) T" using I by (simp add: srv_inv_def srv_dev_def)
  then have none: "None \<notin> set (vals T)" by (auto simp: reg_inv_def)
  have "rb_inv (ip_of (rg_devs (sv_reg s))) (rg_tree (sv_reg s)) T" using R by (simp add: reg_inv_def)
  moreover have "length (ino T) < 2 ^ 32" using n by (simp add: vals_def)
  ultimately have V: "visit_all v (rg_tree (sv_reg s)) True = Some (vals T)"
    using visit_all_ok [of _ _ T v True] none v by (simp add: inod_def vals_def)
  obtain ds where ds: "map (deref (rg_devs (sv_reg s))) (vals T) = map Some ds" "set ds = ran (reg_map (sv_reg s) T)"
    by (rule reg_list [OF R])
  have "map (\<lambda>p. map_option remote_ip (deref (rg_devs (sv_reg s)) p)) (vals T) = map (map_option remote_ip) (map (deref (rg_devs (sv_reg s))) (vals T))"
    by simp
  then have A: "all_some (map (\<lambda>p. map_option remote_ip (deref (rg_devs (sv_reg s)) p)) (vals T)) = Some (map remote_ip ds)"
    using all_some_map [of ds "\<lambda>d. Some (remote_ip d)" remote_ip] unfolding ds(1) by (simp add: comp_def)
  have "set (map remote_ip ds) = dom (reg_map (sv_reg s) T)"
    using reg_map_dom [of "sv_reg s" T] ds(2) by simp
  then obtain s' xs where "task4_devices e (map remote_ip ds) s = Some (s', xs)" "srv_inv e T s'"
    "sv_up s' = marked e s (dom (reg_map (sv_reg s) T))"
    using task4_devices_ok [OF I, of "map remote_ip ds"] by metis
  then show ?thesis using V A by (simp add: task4_pass_def)
qed

section \<open>Properties\<close>

text \<open>The commands of an operator, with their results.\<close>

fun run_commands :: "env \<Rightarrow> (command \<times> u32) list \<Rightarrow> server \<Rightarrow> (server \<times> int list) option" where
  "run_commands e [] s = Some (s, [])"
| "run_commands e ((c, ip) # cs) s = do {
     (s, r) \<leftarrow> run_command e c ip s;
     (s, rs) \<leftarrow> run_commands e cs s;
     Some (s, r # rs) }"

definition numbers_to :: "u32 \<Rightarrow> out list \<Rightarrow> u32 list" where
  "numbers_to ip ps = map pk_sn (filter (\<lambda>p. fst (pk_to p) = ip) ps)"

lemma run_commands_ok:
  "srv_dev e s T \<Longrightarrow> \<forall>(c, ip)\<in>set cs. reg_map (sv_reg s) T ip \<noteq> None \<Longrightarrow>
   \<exists>s' ps. run_commands e cs s = Some (s', replicate (length cs) 0) \<and> sv_sent s' = sv_sent s @ ps \<and>
     map (\<lambda>p. fst (pk_to p)) ps = map snd cs \<and>
     (\<forall>ip d. reg_map (sv_reg s) T ip = Some d \<longrightarrow>
        numbers_to ip ps = map (\<lambda>i. (next_sn ^^ Suc i) (dev_sn d)) [0..<length (filter (\<lambda>c. snd c = ip) cs)])"
proof (induction cs arbitrary: s)
  case Nil
  then show ?case by (simp add: numbers_to_def)
next
  case (Cons x cs)
  obtain c ip where x: "x = (c, ip)" by (cases x)
  obtain d where d: "reg_map (sv_reg s) T ip = Some d" using Cons.prems(2) x by auto
  obtain t co ac len b where cf: "command_fields e c = (t, co, ac, len, b)" by (metis prod_cases5)
  obtain s1 where S: "send_command e t co ac len b ip s = Some (s1, 0)" "srv_dev e s1 T"
    "reg_map (sv_reg s1) T = (reg_map (sv_reg s) T)(ip \<mapsto> d\<lparr>dev_sn := next_sn (dev_sn d)\<rparr>)"
    "sv_sent s1 = sv_sent s @ [\<lparr>pk_type = t, pk_version = 1, pk_company = co, pk_sn = next_sn (dev_sn d), pk_action = ac,
       pk_para = 0, pk_len = len, pk_to = (ip, dev_port d), pk_body = b\<rparr>]"
    by (rule send_command_ok [OF Cons.prems(1) d])
  have P: "\<forall>(c, ip)\<in>set cs. reg_map (sv_reg s1) T ip \<noteq> None" using Cons.prems(2) unfolding S(3) by auto
  have run: "run_command e c ip s = Some (s1, 0)" using run_command_fields [OF cf] S(1) by simp
  obtain s' ps where R: "run_commands e cs s1 = Some (s', replicate (length cs) 0)" "sv_sent s' = sv_sent s1 @ ps"
     "map (\<lambda>p. fst (pk_to p)) ps = map snd cs"
     "\<forall>ip d. reg_map (sv_reg s1) T ip = Some d \<longrightarrow>
        numbers_to ip ps = map (\<lambda>i. (next_sn ^^ Suc i) (dev_sn d)) [0..<length (filter (\<lambda>c. snd c = ip) cs)]"
    using Cons.IH [OF S(2) P] by blast
  let ?p = "\<lparr>pk_type = t, pk_version = 1, pk_company = co, pk_sn = next_sn (dev_sn d), pk_action = ac,
       pk_para = 0, pk_len = len, pk_to = (ip, dev_port d), pk_body = b\<rparr>"
  have "numbers_to ip' (?p # ps) = map (\<lambda>i. (next_sn ^^ Suc i) (dev_sn d')) [0..<length (filter (\<lambda>c. snd c = ip') (x # cs))]"
    if d': "reg_map (sv_reg s) T ip' = Some d'" for ip' d'
  proof (cases "ip' = ip")
    case True
    then have dd: "d' = d" using d d' by simp
    have "numbers_to ip ps = map (\<lambda>i. (next_sn ^^ Suc i) (next_sn (dev_sn d))) [0..<length (filter (\<lambda>c. snd c = ip) cs)]"
      using R(4) S(3) by simp
    then show ?thesis using True dd x
      by (simp add: numbers_to_def map_upt_Suc funpow_swap1 del: upt_Suc)
  next
    case False
    then show ?thesis using R(4) S(3) d' x by (simp add: numbers_to_def)
  qed
  then show ?case using run R(1-3) S(4) x by (intro exI [of _ s'] exI [of _ "?p # ps"]) simp
qed

text \<open>
  Commands to registered devices always succeed and send one packet each, in order. The
  packets to a device are numbered consecutively from the number after the one it has, with 1 after
  the largest number; 0 is never used.
\<close>

theorem command_numbers:
  assumes "reg_inv (sv_reg s) T" "rg_devs (sv_reg s) (en_tmp e) = None" "sv_sent s = []"
    "list_all (\<lambda>c. reg_map (sv_reg s) T (snd c) \<noteq> None) cs"
  shows "\<exists>s'. run_commands e cs s = Some (s', replicate (length cs) 0) \<and>
    map (\<lambda>p. fst (pk_to p)) (sv_sent s') = map snd cs \<and>
    (\<forall>ip d. reg_map (sv_reg s) T ip = Some d \<longrightarrow> numbers_to ip (sv_sent s') =
       map (\<lambda>i. (next_sn ^^ Suc i) (dev_sn d)) [0..<length (filter (\<lambda>c. snd c = ip) cs)]) \<and>
    (\<forall>n. next_sn n \<noteq> 0)"
proof -
  have nz: "next_sn n \<noteq> 0" for n
  proof (cases "n = 0xFFFFFFFF")
    case False
    then have "n \<noteq> - 1" unfolding sn_max .
    then have "n + 1 \<noteq> 0" using eq_neg_iff_add_eq_0 [of n 1] by simp
    then show ?thesis using False by (simp only: next_sn_def if_False not_False_eq_True)
  qed (simp add: next_sn_def)
  have D: "srv_dev e s T" using assms(1,2) by (simp add: srv_dev_def)
  have "\<forall>(c, ip)\<in>set cs. reg_map (sv_reg s) T ip \<noteq> None" using assms(4) by (auto simp: list_all_iff)
  from run_commands_ok [OF D this] show ?thesis using nz assms(3) by auto
qed

text \<open>
  After the registration, a packet is dispatched by its action: the handler of the table runs,
  and an action that is not in the table has no effect but the code -1. In particular action 0, whose
  handler has another type, is undefined.
\<close>

theorem dispatch_by_action:
  assumes "distinct cbs" "length cbs = 14" "8 < length buff"
  shows "\<exists>s. init_register True cbs s0 = Some s \<and>
    head_check e buff from s = (case handler_of (buff ! 8) of
        None \<Rightarrow> Some (s, - 1)
      | Some h \<Rightarrow> map_option (\<lambda>s'. (s', 0)) (run_handler h e buff from s)) \<and>
    (buff ! 8 = 0 \<longrightarrow> head_check e buff from s = None)"
proof -
  obtain m cs m2 where "init_register True cbs s0 = Some (s0\<lparr>sv_calls := cs, sv_mymap := m, sv_map := m2\<rparr>)"
    "table_ready (s0\<lparr>sv_calls := cs, sv_mymap := m, sv_map := m2\<rparr>)"
    by (rule init_ready [OF assms(1,2)])
  moreover have "handler_of 0 = Some Head_check" by (simp add: handler_of_def handler_table_def)
  ultimately show ?thesis using head_check_ok [OF _ assms(3)] by simp
qed

lemma transfer_session:
  assumes "distinct cbs" "length cbs = 14" "srv_dev e s0 T" "reg_map (sv_reg s0) T ip \<noteq> None" "file_ok e f"
    "timer_armed ip s0" "sv_sent s0 = []" "en_free_stream e" "en_literal e" "sv_open s0 + length ps + 2 \<le> en_max_open e"
    "start_request k buff" "k \<le> length f" "list_all (next_request (ip, port)) ps"
  obtains s s' where "init_register True cbs s0 = Some s" "serve e ((t, buff, ip, port) # ps) s = Some s'"
    "session_ok e ip port (en_new e (sv_up s0)) f k T (sv_open s0 + 1) (Suc (length ps)) s'"
proof -
  obtain m cs m2 where I: "init_register True cbs s0 = Some (s0\<lparr>sv_calls := cs, sv_mymap := m, sv_map := m2\<rparr>)"
    "table_ready (s0\<lparr>sv_calls := cs, sv_mymap := m, sv_map := m2\<rparr>)" "fresh_map m2"
    by (rule init_ready [OF assms(1,2)])
  let ?s = "s0\<lparr>sv_calls := cs, sv_mymap := m, sv_map := m2\<rparr>" and ?e = "e\<lparr>en_now := t\<rparr>" and ?a = "en_new e (sv_up s0)"
  have P: "srv_dev ?e ?s T" "reg_map (sv_reg ?s) T ip \<noteq> None" "fresh_map (sv_map ?s)" "timer_armed ip ?s"
    using assms(3,4,6) I(3) by (simp_all add: srv_dev_def timer_armed_def)
  have F: "file_ok ?e f" and M: "tolerant e" "tolerant ?e" using assms(5,8,9) by (simp_all add: env_time tolerant_def)
  have O: "sv_open ?s < en_max_open ?e" "sv_open s0 + 1 + 0 < en_max_open ?e" using assms(10) by simp_all
  obtain s1 where s1: "start_response ?e buff (ip, port) ?s = trans_data ?e (ip, port) s1" "transfer ?e ip ?a f k T s1"
    "sv_sent s1 = []" "sv_mymap s1 = sv_mymap ?s" "sv_calls s1 = sv_calls ?s" "sv_open s1 = sv_open s0 + 1"
    by (rule start_response_ok [OF P assms(11,12) F M(2) O(1), of port]) (use assms(7) in simp)
  have "table_ready s1" using table_ready_cong [OF s1(4,5)] I(2) by simp
  then have "session_ok ?e ip port ?a f k T (sv_open s0 + 1) 0 s1" using s1(2,3,6) assms(12) by (simp add: session_ok_def min_def)
  then obtain s2 where s2: "trans_data ?e (ip, port) s1 = Some s2" "session_ok ?e ip port ?a f k T (sv_open s0 + 1) (Suc 0) s2"
    by (rule session_step [OF _ F M(2) O(2)])
  have H: "head_check ?e buff (ip, port) ?s = Some (s2, 0)"
    using head_check_ok [OF I(2)] assms(11) s1(1) s2(1) handler_trans(2) by (simp add: start_request_def)
  have S: "session_ok e ip port ?a f k T (sv_open s0 + 1) 1 s2" using s2(2) by (simp add: session_ok_def env_time)
  have ps: "\<forall>p\<in>set ps. next_request (ip, port) p" using assms(13) by (simp add: list_all_iff)
  obtain s' where s': "serve e ps s2 = Some s'" "session_ok e ip port ?a f k T (sv_open s0 + 1) (Suc (length ps)) s'"
    using session_serve [OF assms(5) M(1) S ps] assms(10) by auto
  have "serve e ((t, buff, ip, port) # ps) ?s = Some s'" using H s'(1) by simp
  then show ?thesis using that I(1) s'(2) by blast
qed



text \<open>
  A round of the supervision marks as broken exactly the transfers of registered devices
  that have had no progress for more than ten seconds and are neither ended nor broken; the others are
  unchanged.
\<close>

theorem task4_marks_stalled:
  assumes "srv_inv e T s" "length (vals T) < 2 ^ 32" "length (tv_path v) = HEIGHT_LIMIT"
  shows "\<exists>s' xs. task4_pass e v s = Some (s', xs) \<and> srv_inv e T s' \<and>
    (\<forall>a. sv_up s' a = map_option (\<lambda>u.
       if (\<exists>ip. reg_map (sv_reg s) T ip \<noteq> None \<and> hm_lookup hashmap_hash_int (sv_map s) (en_ntoa e ip) = Some (Some a)) \<and>
          en_now e - up_time u > 10 \<and> up_state u \<noteq> 4 \<and> up_state u \<noteq> 2
       then u\<lparr>up_state := 2\<rparr> else u) (sv_up s a))"
proof -
  obtain s' xs where "task4_pass e v s = Some (s', xs)" "srv_inv e T s'" "sv_up s' = marked e s (dom (reg_map (sv_reg s) T))"
    using task4_pass_ok [OF assms] by blast
  moreover have "has_entry e s (dom (reg_map (sv_reg s) T)) a \<longleftrightarrow>
    (\<exists>ip. reg_map (sv_reg s) T ip \<noteq> None \<and> hm_lookup hashmap_hash_int (sv_map s) (en_ntoa e ip) = Some (Some a))" for a
    by (simp add: has_entry_def Bex_def dom_def)
  ultimately show ?thesis by (simp add: marked_def stalled_def)
qed

section \<open>Examples\<close>

definition demo_table :: "('k, addr) hmap" where
  "demo_table = \<lparr>hm_blocks = [0 \<mapsto> replicate INITIAL_SIZE free_slot], hm_fresh = 1, hm_table_size = 16, hm_size = 0,
     hm_data = Some 0\<rparr>"

definition demo_env :: env where
  "demo_env = \<lparr>en_tmp = 0, en_ntoa = (\<lambda>ip. dec (unat ip)), en_now = 0,
     en_file = (\<lambda>n. if n = ''a.tar.gz'' then Some [1, 2, 3] else None), en_put = True, en_pool = True, en_new = next_free,
     en_fp = True, en_decrypt = id, en_public = (\<lambda>b. b \<noteq> []), en_verify = (\<lambda>m g k. m = g),
     en_free_stream = True, en_literal = True, en_cancel_null = True, en_max_open = 1024,
     en_confused = (\<lambda>m k. Some None), en_reltimer = Some 9, en_tra = next_free\<rparr>"

definition demo_server :: server where
  "demo_server = \<lparr>sv_reg = one_device, sv_mymap = demo_table, sv_calls = Map.empty, sv_map = demo_table, sv_up = Map.empty,
     sv_timer = demo_table, sv_tm = Map.empty, sv_cancelled = [], sv_sent = [], sv_ini = [], sv_open = 3\<rparr>"

abbreviation "demo_rbt \<equiv> Nd 2 False (Some 1) Lf Lf"

lemma demo_reg: "srv_dev demo_env demo_server demo_rbt" "reg_map (sv_reg demo_server) demo_rbt 7 = Some (cfg_device 7)"
  using one_device_inv by (simp_all add: srv_dev_def demo_server_def demo_env_def one_device_def reg_map_def vals_def ip_of_def cfg_device_def)

lemma command_numbers_witness:
  "\<exists>s'. run_commands demo_env [(Restart, 7), (Devinfo, 7)] demo_server = Some (s', [0, 0]) \<and>
     numbers_to 7 (sv_sent s') = [1, 2]"
proof -
  let ?cs = "[(Restart, 7 :: u32), (Devinfo, 7)]"
  have "list_all (\<lambda>c. reg_map (sv_reg demo_server) demo_rbt (snd c) \<noteq> None) ?cs"
    using demo_reg(2) by simp
  moreover have "reg_inv (sv_reg demo_server) demo_rbt" "rg_devs (sv_reg demo_server) (en_tmp demo_env) = None"
    "sv_sent demo_server = []" using demo_reg(1) by (simp_all add: srv_dev_def demo_server_def)
  ultimately obtain s' where
    R: "run_commands demo_env ?cs demo_server = Some (s', replicate (length ?cs) 0)" and
    N: "\<forall>ip d. reg_map (sv_reg demo_server) demo_rbt ip = Some d \<longrightarrow> numbers_to ip (sv_sent s') =
       map (\<lambda>i. (next_sn ^^ Suc i) (dev_sn d)) [0..<length (filter (\<lambda>c. snd c = ip) ?cs)]"
    using command_numbers [of demo_server demo_rbt demo_env "?cs"] by blast
  have "numbers_to 7 (sv_sent s') = [1, 2]"
    using N [rule_format, OF demo_reg(2)] by (simp add: next_sn_def cfg_device_def)
  then show ?thesis using R by (simp del: run_commands.simps)
qed

lemma dispatch_by_action_witness:
  "\<exists>s. init_register True [0..<14] demo_server = Some s \<and>
     head_check demo_env (replicate 8 0 @ [17]) (7, 5000) s = Some (s, - 1)"
proof -
  have "handler_of 17 = None" by (simp add: handler_of_def handler_table_def)
  then show ?thesis
    using dispatch_by_action [of "[0..<14]" "replicate 8 0 @ [17]" demo_server demo_env "(7, 5000)"]
    by (auto simp: nth_append)
qed

lemma demo_start: "start_request 0 (replicate 8 0 @ 9 # replicate 1027 0)"
proof -
  have "take 4 (drop 12 (replicate 8 0 @ 9 # replicate 1027 0)) = [0, 0, 0, 0 :: u8]"
    by (simp add: drop_Cons' take_Cons' min_def eval_nat_numeral)
  then show ?thesis by (simp add: start_request_def nth_append nth_Cons' le32_def)
qed

lemma demo_timers: "hm_wf (sv_timer demo_server)" "live_vals (hm_lookup hashmapi_hash_int (sv_timer demo_server)) h"
proof -
  have n: "hm_new True True 16 = Some demo_table" by (simp add: hm_new_def demo_table_def)
  show "hm_wf (sv_timer demo_server)" using hm_new_wf [OF _ _ n] by (simp add: demo_server_def INITIAL_SIZE_def)
  have "hm_lookup hashmapi_hash_int demo_table k = None" for k
    by (rule hm_new_lookup [OF good_hashmapi _ _ n]) (simp_all add: INITIAL_SIZE_def)
  then show "live_vals (hm_lookup hashmapi_hash_int (sv_timer demo_server)) h" by (simp add: live_vals_def demo_server_def)
qed

lemma demo_armed: "timer_armed ip demo_server"
  using demo_timers(1) demo_timers(2) [of Map.empty] by (auto simp: timer_armed_def live_vals_def)



lemma task4_marks_stalled_witness:
  "\<exists>s s' xs u. sv_up s 5 = Some u \<and> up_state u = 1 \<and>
     task4_pass (demo_env\<lparr>en_now := 20\<rparr>) (jsw_rbtnew None (replicate 64 None) 0) s = Some (s', xs) \<and>
     sv_up s' 5 = Some (u\<lparr>up_state := 2\<rparr>)"
proof -
  let ?e = "demo_env\<lparr>en_now := 20\<rparr>"
  have D: "srv_dev ?e demo_server demo_rbt" using demo_reg(1) by (simp add: srv_dev_def)
  obtain m cs m2 where R: "table_ready (demo_server\<lparr>sv_calls := cs, sv_mymap := m, sv_map := m2\<rparr>)" "fresh_map m2"
    by (rule init_ready [of "[0..<14]" demo_server]) simp_all
  have F: "hm_wf m2" "\<And>k. hm_lookup hashmap_hash_int m2 k = None" using R(2) by (simp_all add: fresh_map_def)
  obtain m3 where m3: "hm_wf m3" "hm_lookup hashmap_hash_int m3 = (hm_lookup hashmap_hash_int m2)(en_ntoa ?e 7 \<mapsto> Some 5)"
    by (rule hm_put_few [OF good_hashmap F(1)]) (use R(2) in \<open>simp_all add: fresh_map_def MAX_CHAIN_LENGTH_def\<close>)
  let ?u = "new_updev demo_env (7, 5000) 0 0"
  let ?s = "demo_server\<lparr>sv_calls := cs, sv_mymap := m, sv_map := m3, sv_up := [5 \<mapsto> ?u]\<rparr>"
  have "table_ready ?s" using R(1) by (subst table_ready_cong [of _ "demo_server\<lparr>sv_calls := cs, sv_mymap := m, sv_map := m2\<rparr>"]) simp_all
  then have I: "srv_inv ?e demo_rbt ?s"
    using D demo_timers m3 F(2) by (simp add: srv_inv_def srv_dev_def live_vals_def)
  have u: "up_state ?u = 1" "up_time ?u = 0" by (simp_all add: new_updev_def demo_env_def)
  have r: "reg_map (sv_reg ?s) demo_rbt 7 \<noteq> None" using demo_reg(2) by simp
  have l: "hm_lookup hashmap_hash_int (sv_map ?s) (en_ntoa ?e 7) = Some (Some 5)" using m3(2) by simp
  obtain s' xs where "task4_pass ?e (jsw_rbtnew None (replicate 64 None) 0) ?s = Some (s', xs)"
    "\<forall>a. sv_up s' a = map_option (\<lambda>u.
       if (\<exists>ip. reg_map (sv_reg ?s) demo_rbt ip \<noteq> None \<and> hm_lookup hashmap_hash_int (sv_map ?s) (en_ntoa ?e ip) = Some (Some a)) \<and>
          en_now ?e - up_time u > 10 \<and> up_state u \<noteq> 4 \<and> up_state u \<noteq> 2
       then u\<lparr>up_state := 2\<rparr> else u) (sv_up ?s a)"
    using task4_marks_stalled [OF I, of "jsw_rbtnew None (replicate 64 None) 0"]
    by (auto simp: vals_def jsw_rbtnew_def HEIGHT_LIMIT_def)
  moreover have "\<exists>ip. reg_map (sv_reg ?s) demo_rbt ip \<noteq> None \<and> hm_lookup hashmap_hash_int (sv_map ?s) (en_ntoa ?e ip) = Some (Some 5)"
    using r l by blast
  then have "sv_up s' 5 = Some (?u\<lparr>up_state := 2\<rparr>)" using calculation(2) [rule_format, of 5] u by simp
  ultimately show ?thesis using u(1) by (intro exI [of _ ?s] exI [of _ s'] exI [of _ xs] exI [of _ ?u]) simp
qed

end
