(* ===== verification/DeviceClient.thy ===== *)
theory DeviceClient
  imports DeviceSession
begin

text \<open>
  The device's side of the protocol, \<^verbatim>\<open>udpclient/function/function.c\<close> and the job of \<^verbatim>\<open>epoll_client.c\<close>:
  the handlers of received packets, which answer with packets of 1036 bytes, and their table.
  A message is the memory from its first byte on. The log is at its debug level, so every text that is printed
  is read: \<open>log_string\<close> is undefined when it has no NUL. What is printed is not kept. (Numbers are printed
  with conversions of another width; the model takes them to be printed.) The last sections send the packets of a
  session of the server of \<open>DeviceSession\<close> to the client.
\<close>

section \<open>Data\<close>

record client =
  cl_mymap :: "(string, addr) hmap"
  cl_calls :: "callback heap"
  cl_file :: "u8 list option"
  cl_total :: int
  cl_sent :: "u8 list list"

text \<open>
  The surroundings: the clock, whether the file can be opened, how many bytes \<^verbatim>\<open>fwrite\<close> takes, and how
  many of these have left the buffer of the stream before it is closed.
\<close>

record client_env =
  ce_now :: u32
  ce_open :: bool
  ce_room :: nat
  ce_flush :: "nat \<Rightarrow> nat"

definition le_bytes32 :: "u32 \<Rightarrow> u8 list" where
  "le_bytes32 w = [ucast w, ucast (drop_bit 8 w), ucast (drop_bit 16 w), ucast (drop_bit 24 w)]"

definition be_bytes32 :: "u32 \<Rightarrow> u8 list" where
  "be_bytes32 w = rev (le_bytes32 w)"

definition be_bytes16 :: "u16 \<Rightarrow> u8 list" where
  "be_bytes16 w = [ucast (drop_bit 8 w), ucast w]"

text \<open>A packet whose structure was cleared first; company and parameter are the same in all of them.\<close>

definition cl_packet :: "u8 \<Rightarrow> u8 list \<Rightarrow> u32 \<Rightarrow> u8 \<Rightarrow> u16 \<Rightarrow> u8 list \<Rightarrow> u8 list" where
  "cl_packet type hmac sn action len body =
     [push_bit 4 1 OR type, 4] @ hmac @ be_bytes32 sn @ [action, 0] @ be_bytes16 len @
     body @ replicate (1024 - length body) 0"

definition cl_send :: "u8 list \<Rightarrow> client \<Rightarrow> client" where
  "cl_send bs c = c\<lparr>cl_sent := cl_sent c @ [bs]\<rparr>"

text \<open>The two bytes \<^verbatim>\<open>"zx"\<close>.\<close>

definition zx :: "u8 list" where "zx = [0x7A, 0x78]"

definition cl_bytes :: "client \<Rightarrow> u8 list" where
  "cl_bytes c = (case cl_file c of None \<Rightarrow> [] | Some f \<Rightarrow> f)"

definition cl_file_size :: "client \<Rightarrow> u64" where
  "cl_file_size c = (case cl_file c of None \<Rightarrow> 0 | Some f \<Rightarrow> of_nat (length f))"

section \<open>Handlers\<close>

text \<open>The memory of a \<^verbatim>\<open>%s\<close>, up to the end of the object it is in, which must hold the end of the text.\<close>

definition log_string :: "u8 list \<Rightarrow> unit option" where
  "log_string bs = (if 0 \<in> set bs then Some () else None)"

definition cl_state :: "client \<Rightarrow> client" where
  "cl_state c = cl_send (cl_packet 1 zx 0 2 0 []) c"

definition cl_restart :: "client \<Rightarrow> client" where
  "cl_restart c = cl_send (cl_packet 2 zx 0 4 0 []) c"

text \<open>The version is written byte by byte and not converted.\<close>

definition cl_dev_info :: "client_env \<Rightarrow> u8 list" where
  "cl_dev_info e = map of_char ''device name'' @ replicate 29 0 @ [2, 3, 4, 5] @ be_bytes32 3 @ be_bytes32 3 @
     be_bytes32 (ce_now e)"

definition cl_devinfo :: "client_env \<Rightarrow> client \<Rightarrow> client" where
  "cl_devinfo e c = cl_send (cl_packet 2 zx 0 5 0 (cl_dev_info e)) c"

text \<open>The text of the configuration is built in a variable of its own and not sent.\<close>

definition cl_sysinfo :: "client \<Rightarrow> client" where
  "cl_sysinfo c = cl_send (cl_packet 2 zx 0 6 0 []) c"

definition cl_set_sysinfo :: "u8 list \<Rightarrow> client \<Rightarrow> client option" where
  "cl_set_sysinfo message c = do { sy \<leftarrow> bytes_at message 12 1024; _ \<leftarrow> log_string sy; Some c }"

definition cl_start_response :: "u8 list \<Rightarrow> client \<Rightarrow> client option" where
  "cl_start_response message c = do {
     packet \<leftarrow> bytes_at message 0 1036;
     msg \<leftarrow> bytes_at message 12 36;
     _ \<leftarrow> log_string (drop 16 packet);
     _ \<leftarrow> log_string (drop 4 msg);
     let m = cl_file_size c;
     Some (cl_send (cl_packet 0 [0, 0] (be32 (take 4 (drop 4 packet))) 9 4 (le_bytes32 (ucast m) @ le_bytes32 1000)) c) }"

text \<open>
  The number of bytes to write comes from the packet; it is passed to \<^verbatim>\<open>fwrite\<close> as a \<^verbatim>\<open>size_t\<close>, and reads
  outside the copy of the packet are undefined, as is the report of a short write, which prints a text without giving
  it. The size of the file is taken before the stream is closed.
\<close>

definition cl_trans_data :: "client_env \<Rightarrow> u8 list \<Rightarrow> client \<Rightarrow> client option" where
  "cl_trans_data e message c =
     (if \<not> ce_open e then Some c
      else do {
        let f = cl_bytes c;
        packet \<leftarrow> bytes_at message 0 1036;
        _ \<leftarrow> log_string (drop 24 packet);
        let writesize = sint (le32 (take 4 (drop 12 packet)));
        if writesize < 0 then None
        else do {
          data \<leftarrow> bytes_at packet 24 (nat writesize);
          let len = min (nat writesize) (ce_room e);
          if int len < writesize then None
          else do {
            let m = (of_nat (length f + ce_flush e len) :: u64);
            let c = cl_send (cl_packet 0 [0, 0] (be32 (take 4 (drop 4 packet))) 8 4 (le_bytes32 (ucast m) @ le_bytes32 1024)) c;
            Some (c\<lparr>cl_file := Some (f @ take len data), cl_total := cl_total c + int len\<rparr>) } } })"

definition cl_end_res :: "u8 list \<Rightarrow> client \<Rightarrow> client option" where
  "cl_end_res message c = do {
     packet \<leftarrow> bytes_at message 0 1036;
     msg \<leftarrow> bytes_at message 12 36;
     _ \<leftarrow> log_string (drop 16 packet);
     _ \<leftarrow> log_string (drop 4 msg);
     Some (cl_send (cl_packet 0 [0, 0] (be32 (take 4 (drop 4 packet))) 10 4 []) c) }"

text \<open>
  The handlers but the first, which is \<open>cl_head_check\<close> itself. The bodies of \<^verbatim>\<open>time_funciton\<close> and
  \<^verbatim>\<open>negotiate_funciton\<close> are not compiled; \<^verbatim>\<open>test_funciton\<close> is never registered.
\<close>

fun cl_run :: "handler \<Rightarrow> client_env \<Rightarrow> u8 list \<Rightarrow> client \<Rightarrow> client option" where
  "cl_run Time_function e message c = Some c"
| "cl_run State_function e message c = Some (cl_state c)"
| "cl_run Negotiate_function e message c = Some c"
| "cl_run Restart_function e message c = Some (cl_restart c)"
| "cl_run Devinfo_function e message c = Some (cl_devinfo e c)"
| "cl_run Sysinfo_function e message c = Some (cl_sysinfo c)"
| "cl_run Set_sysinfo_function e message c = cl_set_sysinfo message c"
| "cl_run Trans_data e message c = cl_trans_data e message c"
| "cl_run Start_response e message c = cl_start_response message c"
| "cl_run End_res e message c = cl_end_res message c"
| "cl_run _ e message c = None"

section \<open>Dispatch\<close>

text \<open>The handler of type 0 is the dispatch itself, so the function may not return.\<close>

partial_function (option) cl_head_check :: "client_env \<Rightarrow> u8 list \<Rightarrow> client \<Rightarrow> (client \<times> int) option" where
  "cl_head_check e message c = do {
     b \<leftarrow> bytes_at message 8 1;
     (err, p) \<leftarrow> hashmap_get (cl_mymap c) (dec (unat (hd b)));
     if err = MAP_MISSING then Some (c, - 1)
     else do {
       cb \<leftarrow> deref (cl_calls c) p;
       if cb_function cb = Head_check then do { (c, r) \<leftarrow> cl_head_check e message c; Some (c, 0) }
       else do { c \<leftarrow> cl_run (cb_function cb) e message c; Some (c, 0) } } }"

definition cl_handler_table :: "(int \<times> string \<times> handler) list" where
  "cl_handler_table =
     [(0, ''0'', Head_check), (1, ''1'', Time_function), (2, ''2'', State_function), (3, ''3'', Negotiate_function),
      (4, ''4'', Restart_function), (5, ''5'', Devinfo_function), (6, ''6'', Sysinfo_function),
      (7, ''7'', Set_sysinfo_function), (8, ''8'', Trans_data), (9, ''9'', Start_response), (0xA, ''10'', End_res),
      (0xD, ''13'', Time_function), (0xC, ''12'', Time_function)]"

definition cl_RegisterCommandHandler :: "bool \<Rightarrow> addr \<Rightarrow> int \<Rightarrow> client \<Rightarrow> client option" where
  "cl_RegisterCommandHandler ok a type c =
     (case map_of cl_handler_table type of
        None \<Rightarrow> Some c
      | Some (key, h) \<Rightarrow> do {
          (err, m) \<leftarrow> hashmap_put ok (cl_mymap c) key (Some a);
          Some (c\<lparr>cl_calls := (cl_calls c)(a \<mapsto> \<lparr>cb_type = type, cb_function = h\<rparr>), cl_mymap := m\<rparr>) })"

fun cl_register_all :: "bool \<Rightarrow> (addr \<times> int) list \<Rightarrow> client \<Rightarrow> client option" where
  "cl_register_all ok [] c = Some c"
| "cl_register_all ok ((a, type) # ts) c = do { c \<leftarrow> cl_RegisterCommandHandler ok a type c; cl_register_all ok ts c }"

definition cl_init_register :: "bool \<Rightarrow> addr list \<Rightarrow> client \<Rightarrow> client option" where
  "cl_init_register ok cbs c = do {
     m \<leftarrow> hashmap_new ok ok 50;
     cl_register_all ok (zip cbs register_types) (c\<lparr>cl_mymap := m\<rparr>) }"

text \<open>One round of the job that asks for the time.\<close>

definition cl_task1 :: "client \<Rightarrow> client" where
  "cl_task1 c = cl_send (cl_packet 1 zx 0 1 0 []) c"

interpretation dev_tab: handler_tab cl_handler_table
  by unfold_locales (simp add: cl_handler_table_def dec.simps char_of_def bit_Suc_0_iff)

definition cl_ready :: "client \<Rightarrow> bool" where
  "cl_ready c \<longleftrightarrow> (\<exists>B. tab_ok B (cl_mymap c) (cl_calls c)) \<and>
     tab_disp (cl_mymap c) (cl_calls c) = map_of (map snd cl_handler_table)"

definition cl_handler_of :: "u8 \<Rightarrow> handler option" where
  "cl_handler_of t = map_option snd (map_of cl_handler_table (uint t))"

lemma cl_register_tab: "cl_RegisterCommandHandler ok a t c =
    map_option (\<lambda>(m, cs). c\<lparr>cl_calls := cs, cl_mymap := m\<rparr>) (tab_put cl_handler_table ok a t (cl_mymap c, cl_calls c))"
proof (cases "map_of cl_handler_table t")
  case (Some kh)
  then show ?thesis by (cases kh; cases "hashmap_put ok (cl_mymap c) (fst kh) (Some a)") (auto simp: cl_RegisterCommandHandler_def)
qed (simp add: cl_RegisterCommandHandler_def)

lemma cl_register_all_tab: "cl_register_all ok ts c =
    map_option (\<lambda>(m, cs). c\<lparr>cl_calls := cs, cl_mymap := m\<rparr>) (tab_put_all cl_handler_table ok ts (cl_mymap c, cl_calls c))"
proof (induction ts arbitrary: c)
  case (Cons p ts)
  obtain a t where p: "p = (a, t)" by (cases p)
  show ?case
  proof (cases "tab_put cl_handler_table ok a t (cl_mymap c, cl_calls c)")
    case (Some mc)
    obtain m cs where mc: "mc = (m, cs)" by (cases mc)
    have "cl_register_all ok (p # ts) c = cl_register_all ok ts (c\<lparr>cl_calls := cs, cl_mymap := m\<rparr>)"
      using Some mc by (simp add: p cl_register_tab del: tab_put.simps)
    then show ?thesis using Some mc by (simp add: p Cons del: tab_put.simps)
  qed (simp add: p cl_register_tab del: tab_put.simps)
qed simp

lemma cl_handlers_all: "fold (disp_add cl_handler_table) (zip [a0, a1, a2, a3, a4, a5, a6, a7, a8, a9, a10, a11, a12, a13] register_types) Map.empty
  = map_of (map snd cl_handler_table)"
  by (simp add: cl_handler_table_def register_types_def fun_eq_iff)

lemma cl_init_ready:
  assumes "distinct cbs" "length cbs = 14"
  obtains m cs where "cl_init_register True cbs c = Some (c\<lparr>cl_calls := cs, cl_mymap := m\<rparr>)"
    "cl_ready (c\<lparr>cl_calls := cs, cl_mymap := m\<rparr>)"
proof -
  have len: "length cbs = length register_types" "length register_types \<le> 16" using assms(2) by (simp_all add: register_types_def)
  obtain a0 a1 a2 a3 a4 a5 a6 a7 a8 a9 a10 a11 a12 a13 where cbs: "cbs = [a0, a1, a2, a3, a4, a5, a6, a7, a8, a9, a10, a11, a12, a13]"
    by (rule list_of_14 [OF assms(2)])
  obtain m1 m cs B where R: "(hashmap_new True True 50 :: (string, addr) hmap option) = Some m1"
    "tab_put_all cl_handler_table True (zip cbs register_types) (m1, cl_calls c) = Some (m, cs)" "tab_ok B m cs"
    "tab_disp m cs = fold (disp_add cl_handler_table) (zip cbs register_types) Map.empty"
    by (rule dev_tab.table_new [OF assms(1) len])
  have d: "tab_disp m cs = map_of (map snd cl_handler_table)" using R(4) unfolding cbs cl_handlers_all .
  have "cl_init_register True cbs c = Some (c\<lparr>cl_calls := cs, cl_mymap := m\<rparr>)"
    using R(1,2) by (simp add: cl_init_register_def cl_register_all_tab)
  then show ?thesis using that R(3) d by (auto simp: cl_ready_def)
qed

lemma cl_head_check_ok:
  assumes "cl_ready c" "8 < length message" "cl_handler_of (message ! 8) \<noteq> Some Head_check"
  shows "cl_head_check e message c = (case cl_handler_of (message ! 8) of None \<Rightarrow> Some (c, - 1)
    | Some h \<Rightarrow> map_option (\<lambda>c'. (c', 0)) (cl_run h e message c))"
proof -
  obtain B where B: "tab_ok B (cl_mymap c) (cl_calls c)" "tab_disp (cl_mymap c) (cl_calls c) = map_of (map snd cl_handler_table)"
    using assms(1) by (auto simp: cl_ready_def)
  have b: "bytes_at message 8 1 = Some [message ! 8]" using assms(2) by (simp add: bytes_at_def take_Suc_conv_app_nth hd_drop_conv_nth [symmetric] take_Suc)
  show ?thesis
  proof (cases rule: dev_tab.dispatch_get [OF B, of "message ! 8"])
    case 1
    then show ?thesis using b by (subst cl_head_check.simps) (simp add: cl_handler_of_def)
  next
    case (2 k a cb)
    have "cb_function cb \<noteq> Head_check" using 2(1) assms(3) by (simp add: cl_handler_of_def)
    then show ?thesis using b 2
      by (subst cl_head_check.simps, cases "cl_run (cb_function cb) e message c") (simp_all add: map_codes cl_handler_of_def)
  qed
qed

section \<open>Bytes\<close>

lemma le32_bytes: "le32 (le_bytes32 w) = w"
proof (rule bit_word_eqI)
  show "bit (le32 (le_bytes32 w)) n \<longleftrightarrow> bit w n" if "n < LENGTH(32)" for n
    using that by (cases "n < 8"; cases "n < 16"; cases "n < 24") (simp_all add: le32_def le_bytes32_def bit_simps, linarith+)
qed

lemma be32_bytes: "be32 (be_bytes32 w) = w"
proof -
  have "be32 (rev bs) = le32 bs" for bs by (simp add: be32_def le32_def foldl_conv_foldr)
  then show ?thesis by (simp add: be_bytes32_def le32_bytes)
qed

lemma length_bytes [simp]: "length (le_bytes32 w) = 4" "length (be_bytes32 w) = 4" "length (be_bytes16 v) = 2"
  by (simp_all add: le_bytes32_def be_bytes32_def be_bytes16_def)

lemma two: "length xs = 2 \<Longrightarrow> \<exists>a b. xs = [a, b]"
  by (cases xs; cases "tl xs") auto

lemma cl_packet_fields:
  assumes "length hmac = 2" "length body \<le> 1024"
  shows "length (cl_packet ty hmac sn action len body) = 1036" "cl_packet ty hmac sn action len body ! 8 = action"
    "cl_packet ty hmac sn action len body ! 9 = 0" "drop 12 (cl_packet ty hmac sn action len body) = body @ replicate (1024 - length body) 0"
proof -
  obtain h1 h2 where h: "hmac = [h1, h2]" using two assms(1) by blast
  obtain s1 s2 s3 s4 where s: "be_bytes32 sn = [s1, s2, s3, s4]" by (simp add: be_bytes32_def le_bytes32_def)
  obtain l1 l2 where l: "be_bytes16 len = [l1, l2]" by (simp add: be_bytes16_def)
  show "length (cl_packet ty hmac sn action len body) = 1036" "cl_packet ty hmac sn action len body ! 8 = action"
    "cl_packet ty hmac sn action len body ! 9 = 0" "drop 12 (cl_packet ty hmac sn action len body) = body @ replicate (1024 - length body) 0"
    using assms(2) by (simp_all add: cl_packet_def h s l)
qed

section \<open>Packets of the server\<close>

text \<open>
  A packet of the server as bytes: the fields that the code sets, the others as they are in \<open>g\<close>.
  The numbers of a chunk but the third are in the order of the host, the size in the packet
  that starts a transfer in that of the network, the one in the packet that ends it in that of the host.
\<close>

definition wire_body :: "u8 list \<Rightarrow> u8 \<Rightarrow> body \<Rightarrow> u8 list" where
  "wire_body g action b = (case b of
     Empty \<Rightarrow> g
   | Text t \<Rightarrow> map of_char t @ drop (length t) g
   | Clock n \<Rightarrow> be_bytes32 n @ drop 4 g
   | Total n \<Rightarrow> (if action = 9 then be_bytes32 n else le_bytes32 n) @ zx @ [0] @ drop 7 g
   | Chunk n off len data \<Rightarrow> le_bytes32 n @ le_bytes32 off @ be_bytes32 len @ data @ replicate (1012 - length data) 0)"

definition wire :: "u8 list \<Rightarrow> out \<Rightarrow> u8 list" where
  "wire g p = [push_bit 4 (pk_version p) OR pk_type p, pk_company p] @ take 2 (drop 2 g) @ be_bytes32 (pk_sn p) @
     [pk_action p, pk_para p] @ be_bytes16 (pk_len p) @ wire_body (drop 12 g) (pk_action p) (pk_body p)"

fun cl_receive :: "client_env \<Rightarrow> u8 list list \<Rightarrow> client \<Rightarrow> client option" where
  "cl_receive e [] c = Some c"
| "cl_receive e (m # ms) c = do { (c, r) \<leftarrow> cl_head_check e m c; cl_receive e ms c }"

lemma wire_fields:
  assumes "length g = 1036" "length (wire_body (drop 12 g) (pk_action p) (pk_body p)) = 1024"
  shows "length (wire g p) = 1036" "wire g p ! 8 = pk_action p" "wire g p ! 9 = pk_para p"
    "drop 12 (wire g p) = wire_body (drop 12 g) (pk_action p) (pk_body p)"
proof -
  have "length (take 2 (drop 2 g)) = 2" using assms(1) by simp
  then obtain h1 h2 where h: "take 2 (drop 2 g) = [h1, h2]" using two by blast
  obtain s1 s2 s3 s4 where s: "be_bytes32 (pk_sn p) = [s1, s2, s3, s4]" by (simp add: be_bytes32_def le_bytes32_def)
  obtain l1 l2 where l: "be_bytes16 (pk_len p) = [l1, l2]" by (simp add: be_bytes16_def)
  show "length (wire g p) = 1036" "wire g p ! 8 = pk_action p" "wire g p ! 9 = pk_para p"
    "drop 12 (wire g p) = wire_body (drop 12 g) (pk_action p) (pk_body p)"
    using assms(2) by (simp_all add: wire_def h s l)
qed

text \<open>The client on the packets of a transfer.\<close>

lemma cl_handlers: "cl_handler_of 8 = Some Trans_data" "cl_handler_of 9 = Some Start_response" "cl_handler_of 10 = Some End_res"
  by (simp_all add: cl_handler_of_def cl_handler_table_def)

lemma cl_ready_cong: "cl_mymap c' = cl_mymap c \<Longrightarrow> cl_calls c' = cl_calls c \<Longrightarrow> cl_ready c' = cl_ready c"
  by (simp add: cl_ready_def)

lemma cl_get_chunk:
  assumes r: "cl_ready c" and o: "ce_open ce" and m: "length m = 1036" "m ! 8 = 8"
    "drop 12 m = wire_body g 8 (Chunk (of_nat (length data)) off len data)" and d: "length data \<le> 1000" "length data \<le> ce_room ce"
  obtains bs c' where "cl_receive ce [m] c = Some c'" "cl_ready c'" "cl_bytes c' = cl_bytes c @ data" "cl_sent c' = cl_sent c @ [bs]"
    "length bs = 1036" "bs ! 8 = 8"
proof -
  have "take 4 (drop 12 m) = le_bytes32 (of_nat (length data))" unfolding m(3) by (simp add: wire_body_def)
  then have w: "sint (le32 (take 4 (drop 12 m))) = int (length data)"
    using d(1) by (simp add: le32_bytes signed_of_nat signed_take_bit_int_eq_self)
  have "take (length data) (drop 24 m) = take (length data) (drop 12 (drop 12 m))" by (simp add: drop_drop)
  also have "\<dots> = data" unfolding m(3) by (simp add: wire_body_def)
  finally have p: "bytes_at m 24 (length data) = Some data" using m(1) d(1) by (simp add: bytes_at_def)
  have full: "bytes_at m 0 1036 = Some m" using m(1) by (simp add: bytes_at_def)
  have "drop 12 (drop 12 m) = data @ replicate (1012 - length data) 0" unfolding m(3) by (simp add: wire_body_def)
  then have nul: "log_string (drop 24 m) = Some ()" using d(1) by (simp add: log_string_def)
  let ?bs = "cl_packet 0 [0, 0] (be32 (take 4 (drop 4 m))) 8 4
    (le_bytes32 (ucast (of_nat (length (cl_bytes c) + ce_flush ce (length data)) :: u64)) @ le_bytes32 1024)"
  let ?c = "(cl_send ?bs c)\<lparr>cl_file := Some (cl_bytes c @ data), cl_total := cl_total c + int (length data)\<rparr>"
  have b: "length ?bs = 1036" "?bs ! 8 = 8" by (simp_all add: cl_packet_fields(1,2))
  have h: "cl_trans_data ce m c = Some ?c"
    using o full w p d(2) nul by (simp add: cl_trans_data_def cl_send_def Let_def)
  have R: "cl_receive ce [m] c = Some ?c" using cl_head_check_ok [OF r, of m ce] m cl_handlers(1) h by simp
  show ?thesis
    by (rule that [OF R _ _ _ b]) (use r cl_ready_cong [of ?c c] in \<open>simp_all add: cl_send_def cl_bytes_def\<close>)
qed

lemma cl_get_end:
  assumes r: "cl_ready c" and m: "length m = 1036" "m ! 8 = 10" "0 \<in> set (take 32 (drop 16 m))"
  obtains bs c' where "cl_receive ce [m] c = Some c'" "cl_ready c'" "cl_bytes c' = cl_bytes c" "cl_sent c' = cl_sent c @ [bs]"
    "length bs = 1036" "bs ! 8 = 10"
proof -
  let ?bs = "cl_packet 0 [0, 0] (be32 (take 4 (drop 4 (take 1036 m)))) 10 4 []"
  have b: "length ?bs = 1036" "?bs ! 8 = 10" by (simp_all add: cl_packet_fields(1,2))
  have "log_string (drop 16 (take 1036 m)) = Some ()" "log_string (drop 4 (take 36 (drop 12 m))) = Some ()"
    using m(1,3) set_take_subset [of 32 "drop 16 m"] by (auto simp: log_string_def drop_take)
  then have h: "cl_end_res m c = Some (cl_send ?bs c)" using m(1) by (simp add: cl_end_res_def bytes_at_def)
  have R: "cl_receive ce [m] c = Some (cl_send ?bs c)"
    using cl_head_check_ok [OF r, of m ce] m cl_handlers(3) h by simp
  show ?thesis
    by (rule that [OF R _ _ _ b]) (use r cl_ready_cong [of "cl_send ?bs c" c] in \<open>simp_all add: cl_send_def cl_bytes_def\<close>)
qed

lemma receive_cons: "cl_receive ce (m # ms) c = Option.bind (cl_receive ce [m] c) (cl_receive ce ms)"
  by (cases "cl_head_check ce m c") auto

text \<open>One packet of a session for the place \<open>k\<close>, and the packets one after the other.\<close>

lemma cl_get_reply:
  assumes C: "cl_ready c" "cl_bytes c = take k f" and p: "reply_ok ip port f k p" and o: "ce_open ce" "1000 \<le> ce_room ce"
    and g: "length g = 1036"
  obtains bs c' where "cl_receive ce [wire g p] c = Some c'" "cl_ready c'" "cl_bytes c' = take (k + 1000) f"
    "cl_sent c' = cl_sent c @ [bs]" "bs ! 8 = pk_action p"
proof (cases "k < length f")
  case True
  let ?d = "take 1000 (drop k f)"
  obtain len where P: "pk_action p = 8" "pk_body p = Chunk (of_nat (length ?d)) (of_nat k) len ?d"
    using p True by (auto simp: reply_ok_def)
  have wb: "length (wire_body (drop 12 g) (pk_action p) (pk_body p)) = 1024" using P by (simp add: wire_body_def)
  have m: "length (wire g p) = 1036" "wire g p ! 8 = 8"
    "drop 12 (wire g p) = wire_body (drop 12 g) 8 (Chunk (of_nat (length ?d)) (of_nat k) len ?d)"
    using wire_fields [OF g wb] P by simp_all
  have d: "length ?d \<le> 1000" "length ?d \<le> ce_room ce" using o(2) by simp_all
  obtain bs c' where c': "cl_receive ce [wire g p] c = Some c'" "cl_ready c'" "cl_bytes c' = cl_bytes c @ ?d"
    "cl_sent c' = cl_sent c @ [bs]" "bs ! 8 = 8" by (rule cl_get_chunk [OF C(1) o(1) m d])
  have "cl_bytes c' = take (k + 1000) f" using c'(3) C(2) by (simp add: take_add)
  then show ?thesis using that [OF c'(1,2) _ c'(4)] c'(5) P(1) by simp
next
  case False
  then have P: "pk_action p = 10" "pk_body p = Total (of_nat (length f))" using p by (auto simp: reply_ok_def)
  have wb: "length (wire_body (drop 12 g) (pk_action p) (pk_body p)) = 1024" using P g by (simp add: wire_body_def zx_def)
  have m: "length (wire g p) = 1036" "wire g p ! 8 = 10" "drop 12 (wire g p) = wire_body (drop 12 g) 10 (Total (of_nat (length f)))"
    using wire_fields [OF g wb] P by simp_all
  have "drop 16 (wire g p) = drop 4 (drop 12 (wire g p))" by (simp only: drop_drop) simp
  then have "drop 16 (wire g p) = zx @ [0] @ drop 7 (drop 12 g)" unfolding m(3) by (simp add: wire_body_def)
  then have nul: "0 \<in> set (take 32 (drop 16 (wire g p)))" by (simp add: zx_def)
  obtain bs c' where c': "cl_receive ce [wire g p] c = Some c'" "cl_ready c'" "cl_bytes c' = cl_bytes c"
    "cl_sent c' = cl_sent c @ [bs]" "bs ! 8 = 10" by (rule cl_get_end [OF C(1) m(1,2) nul])
  have "cl_bytes c' = take (k + 1000) f" using c'(3) C(2) False by simp
  then show ?thesis using that [OF c'(1,2) _ c'(4)] c'(5) P(1) by simp
qed

lemma cl_get_replies:
  assumes o: "ce_open ce" "1000 \<le> ce_room ce" and g: "\<And>p. length (g p) = 1036"
  shows "cl_ready c \<Longrightarrow> cl_bytes c = take k f \<Longrightarrow> k \<le> length f \<Longrightarrow>
    \<forall>i<length ps. reply_ok ip port f (min (length f) (k + 1000 * i)) (ps ! i) \<Longrightarrow>
    \<exists>c'. cl_receive ce (map (\<lambda>p. wire (g p) p) ps) c = Some c' \<and> cl_bytes c' = take (k + 1000 * length ps) f \<and>
      (\<exists>ms. cl_sent c' = cl_sent c @ ms \<and> map (\<lambda>m. m ! 8) ms = map pk_action ps)"
proof (induction ps arbitrary: c k)
  case (Cons p ps)
  let ?k = "min (length f) (k + 1000)"
  have "reply_ok ip port f k p" using Cons.prems(4) [rule_format, of 0] Cons.prems(3) by (simp add: min_absorb2)
  then obtain bs c1 where c1: "cl_receive ce [wire (g p) p] c = Some c1" "cl_ready c1" "cl_bytes c1 = take (k + 1000) f"
    "cl_sent c1 = cl_sent c @ [bs]" "bs ! 8 = pk_action p"
    using cl_get_reply [OF Cons.prems(1,2) _ o g] by metis
  have b: "cl_bytes c1 = take ?k f" using c1(3) by (simp add: min_def)
  have "\<forall>i<length ps. reply_ok ip port f (min (length f) (?k + 1000 * i)) (ps ! i)"
  proof (intro allI impI)
    fix i assume i: "i < length ps"
    have "min (length f) (?k + 1000 * i) = min (length f) (k + 1000 * Suc i)" by simp
    then show "reply_ok ip port f (min (length f) (?k + 1000 * i)) (ps ! i)"
      using Cons.prems(4) [rule_format, of "Suc i"] i by simp
  qed
  from Cons.IH [OF c1(2) b _ this] obtain c' ms where R: "cl_receive ce (map (\<lambda>p. wire (g p) p) ps) c1 = Some c'"
    "cl_bytes c' = take (?k + 1000 * length ps) f" "cl_sent c' = cl_sent c1 @ ms" "map (\<lambda>m. m ! 8) ms = map pk_action ps" by auto
  have "take (?k + 1000 * length ps) f = take (k + 1000 * length (p # ps)) f"
    by (simp add: min_def add.assoc)
  moreover have "cl_receive ce (map (\<lambda>p. wire (g p) p) (p # ps)) c = Some c'"
    using receive_cons [of ce "wire (g p) p" "map (\<lambda>p. wire (g p) p) ps" c] c1(1) R(1) by (simp del: cl_receive.simps)
  moreover have "cl_sent c' = cl_sent c @ bs # ms" "map (\<lambda>m. m ! 8) (bs # ms) = map pk_action (p # ps)"
    using R(3,4) c1(4,5) by simp_all
  ultimately show ?case using R(2) by metis
qed simp

section \<open>Any packets\<close>

lemma cl_head_check_0:
  assumes "cl_ready c" "8 < length message" "message ! 8 = 0"
  shows "cl_head_check e message c = None"
proof -
  obtain B where B: "tab_ok B (cl_mymap c) (cl_calls c)" "tab_disp (cl_mymap c) (cl_calls c) = map_of (map snd cl_handler_table)"
    using assms(1) by (auto simp: cl_ready_def)
  have b: "bytes_at message 8 1 = Some [0]"
    using assms(2,3) by (simp add: bytes_at_def take_Suc_conv_app_nth hd_drop_conv_nth [symmetric] take_Suc)
  obtain a cb where G: "hashmap_get (cl_mymap c) (dec 0) = Some (MAP_OK, Some a)" "cl_calls c a = Some cb" "cb_function cb = Head_check"
    by (cases rule: dev_tab.dispatch_get [OF B, of 0]) (auto simp: cl_handler_table_def)
  have "m' = message \<longrightarrow> c' = c \<longrightarrow> False" if "cl_head_check e' m' c' = Some r" for e' m' c' r
    apply (rule cl_head_check.raw_induct [where P = "\<lambda>e' m' c' r. m' = message \<longrightarrow> c' = c \<longrightarrow> False", OF _ that])
    subgoal premises prems for rec e' m' c' r
    proof (intro impI)
      assume e: "m' = message" "c' = c"
      then obtain r' where "rec e' m' c' = Some r'"
        using prems(2) b G by (cases "rec e' m' c'") (simp_all add: map_codes)
      then show False using prems(1) e by blast
    qed
    done
  then show ?thesis by (metis not_None_eq)
qed

lemma cl_run_frame: "cl_run h e m c = Some c' \<Longrightarrow> cl_mymap c' = cl_mymap c \<and> cl_calls c' = cl_calls c"
  by (cases h) (auto simp: cl_send_def cl_state_def cl_restart_def cl_devinfo_def cl_sysinfo_def cl_set_sysinfo_def
    cl_trans_data_def cl_start_response_def cl_end_res_def Let_def bind_eq_Some_conv split: if_splits)

lemma sint_cases: "sint w = uint w - (if sint w < 0 then 2 ^ 32 else 0)" for w :: u32
proof transfer
  fix w :: int
  have "signed_take_bit 31 w = take_bit 32 w - 2 ^ 32 * of_bool (bit w 31)"
    using signed_take_bit_eq_take_bit_minus [of 31 w] by simp
  moreover have "take_bit 32 w < 2 ^ 32" by (rule take_bit_int_less_exp)
  ultimately show "signed_take_bit (LENGTH(32) - Suc 0) w =
      take_bit LENGTH(32) w - (if signed_take_bit (LENGTH(32) - Suc 0) w < 0 then 2 ^ 32 else 0)"
    by (simp add: signed_take_bit_negative_iff)
qed

lemma fits: "s < 0 \<and> 2 ^ 31 \<le> u \<or> 0 \<le> s \<and> s = u \<Longrightarrow>
    (24 + nat s \<le> 1036 \<and> \<not> s < 0 \<and> \<not> int (min (nat s) n) < s) = (nat u \<le> 1012 \<and> nat u \<le> n)" for s u :: int
  by (auto split: if_split_asm)

lemma short: "length m \<ge> 1036 \<Longrightarrow> drop 16 (take 1036 m) = take 1020 (drop 16 m)"
  "length m \<ge> 1036 \<Longrightarrow> drop 24 (take 1036 m) = take 1012 (drop 24 m)"
  "length m \<ge> 1036 \<Longrightarrow> drop 4 (take 36 (drop 12 m)) = take 32 (drop 16 m)"
  by (simp_all add: drop_take)

lemma log_string_some: "log_string bs = (if 0 \<in> set bs then Some () else None)"
  by (simp add: log_string_def)

text \<open>What a packet of the size of the structure has to hold for its handler to be defined.\<close>

definition writable :: "client_env \<Rightarrow> u8 list \<Rightarrow> bool" where
  "writable e m \<longleftrightarrow> 0 \<in> set (take 1012 (drop 24 m)) \<and>
     unat (le32 (take 4 (drop 12 m))) \<le> 1012 \<and> unat (le32 (take 4 (drop 12 m))) \<le> ce_room e"

lemma cl_trans_defined:
  assumes "1036 \<le> length m"
  shows "cl_trans_data e m c \<noteq> None \<longleftrightarrow> (ce_open e \<longrightarrow> writable e m)"
proof -
  let ?w = "le32 (take 4 (drop 12 m))"
  have t: "take 4 (drop 12 (take 1036 m)) = take 4 (drop 12 m)" by (simp add: drop_take)
  have R: "24 + nat (sint ?w) \<le> 1036 \<and> \<not> sint ?w < 0 \<and> \<not> int (min (nat (sint ?w)) (ce_room e)) < sint ?w \<longleftrightarrow>
      unat ?w \<le> 1012 \<and> unat ?w \<le> ce_room e"
  proof -
    have "sint ?w = uint ?w - (if sint ?w < 0 then 2 ^ 32 else 0)" by (rule sint_cases)
    moreover have "- (2 ^ 31) \<le> sint ?w" using sint_greater_eq [of ?w] by simp
    ultimately have "sint ?w < 0 \<and> 2 ^ 31 \<le> uint ?w \<or> 0 \<le> sint ?w \<and> sint ?w = uint ?w"
      by (cases "sint ?w < 0") simp_all
    from fits [OF this, of "ce_room e"] show ?thesis by (simp only: unat_eq_nat_uint)
  qed
  have full: "bytes_at m 0 1036 = Some (take 1036 m)" using assms by (simp add: bytes_at_def)
  have rest: "bytes_at (take 1036 m) 24 n = (if 24 + n \<le> 1036 then Some (take n (drop 24 (take 1036 m))) else None)" for n
    using assms by (simp add: bytes_at_def)
  have chk: "(if W < 0 then None else (if 24 + nat W \<le> 1036 then Some X else None) \<bind>
        (\<lambda>data. if int (min (nat W) n) < W then None else Some (F data))) \<noteq> None \<longleftrightarrow>
      24 + nat W \<le> 1036 \<and> \<not> W < 0 \<and> \<not> int (min (nat W) n) < W" for W :: int and X :: "u8 list" and F :: "u8 list \<Rightarrow> client" and n
    by (cases "W < 0"; cases "24 + nat W \<le> 1036"; cases "int (min (nat W) n) < W") (simp_all only: if_True if_False bind.simps, simp_all)
  show ?thesis
  proof (cases "ce_open e")
    case True
    show ?thesis
    proof (cases "0 \<in> set (take 1012 (drop 24 m))")
      case nul: True
      then have l: "log_string (drop 24 (take 1036 m)) = Some ()" by (simp only: log_string_some short(2) [OF assms] if_True)
      have "cl_trans_data e m c \<noteq> None \<longleftrightarrow> 24 + nat (sint ?w) \<le> 1036 \<and> \<not> sint ?w < 0 \<and> \<not> int (min (nat (sint ?w)) (ce_room e)) < sint ?w"
        unfolding cl_trans_data_def Let_def full l t Option.bind.bind_lunit rest if_not_P [OF not_not [THEN iffD2, OF True]] by (rule chk)
      then show ?thesis using True R nul unfolding writable_def by blast
    next
      case False
      then have l: "log_string (drop 24 (take 1036 m)) = None" by (simp only: log_string_some short(2) [OF assms] if_False)
      have "cl_trans_data e m c = None"
        unfolding cl_trans_data_def Let_def full l t Option.bind.bind_lunit if_not_P [OF not_not [THEN iffD2, OF True]] by simp
      then show ?thesis using True False by (simp add: writable_def)
    qed
  qed (simp add: cl_trans_data_def)
qed

lemma cl_text_defined:
  assumes "1036 \<le> length m"
  shows "cl_set_sysinfo m c \<noteq> None \<longleftrightarrow> 0 \<in> set (take 1024 (drop 12 m))"
    "cl_start_response m c \<noteq> None \<longleftrightarrow> 0 \<in> set (take 32 (drop 16 m))"
    "cl_end_res m c \<noteq> None \<longleftrightarrow> 0 \<in> set (take 32 (drop 16 m))"
proof -
  have b: "bytes_at m 0 1036 = Some (take 1036 m)" "bytes_at m 12 36 = Some (take 36 (drop 12 m))"
    "bytes_at m 12 1024 = Some (take 1024 (drop 12 m))" using assms by (simp_all add: bytes_at_def)
  show "cl_set_sysinfo m c \<noteq> None \<longleftrightarrow> 0 \<in> set (take 1024 (drop 12 m))"
    unfolding cl_set_sysinfo_def b log_string_some by simp
  have "set (take 32 (drop 16 m)) \<subseteq> set (take 1020 (drop 16 m))" by (rule set_take_subset_set_take) simp
  then show "cl_start_response m c \<noteq> None \<longleftrightarrow> 0 \<in> set (take 32 (drop 16 m))"
      "cl_end_res m c \<noteq> None \<longleftrightarrow> 0 \<in> set (take 32 (drop 16 m))"
    unfolding cl_start_response_def cl_end_res_def b Option.bind.bind_lunit short [OF assms] log_string_some by (auto simp: Let_def)
qed

lemma cl_run_defined:
  assumes "1036 \<le> length m" "h \<notin> {Head_check, Test_function}"
  shows "cl_run h e m c \<noteq> None \<longleftrightarrow> (h = Set_sysinfo_function \<longrightarrow> 0 \<in> set (take 1024 (drop 12 m))) \<and>
    (h = Start_response \<or> h = End_res \<longrightarrow> 0 \<in> set (take 32 (drop 16 m))) \<and> (h = Trans_data \<and> ce_open e \<longrightarrow> writable e m)"
  using assms(2) cl_trans_defined [OF assms(1), of e c] cl_text_defined [OF assms(1), of c]
  by (cases h) (simp_all only: cl_run.simps handler.distinct handler.simps, simp_all)

text \<open>The packets that a client survives.\<close>

definition survivable :: "client_env \<Rightarrow> u8 list \<Rightarrow> bool" where
  "survivable e m \<longleftrightarrow> m ! 8 \<noteq> 0 \<and>
     (m ! 8 = 7 \<longrightarrow> 0 \<in> set (take 1024 (drop 12 m))) \<and>
     (m ! 8 = 9 \<or> m ! 8 = 10 \<longrightarrow> 0 \<in> set (take 32 (drop 16 m))) \<and>
     (m ! 8 = 8 \<and> ce_open e \<longrightarrow> writable e m)"

lemma cl_handler_cases: "(cl_handler_of t = Some Head_check \<longleftrightarrow> t = 0) \<and> (cl_handler_of t = Some Set_sysinfo_function \<longleftrightarrow> t = 7) \<and>
    (cl_handler_of t = Some Trans_data \<longleftrightarrow> t = 8) \<and> (cl_handler_of t = Some Start_response \<longleftrightarrow> t = 9) \<and>
    (cl_handler_of t = Some End_res \<longleftrightarrow> t = 10) \<and> cl_handler_of t \<noteq> Some Test_function"
proof -
  have n: "uint t = 0 \<longleftrightarrow> t = 0" "uint t = 7 \<longleftrightarrow> t = 7" "uint t = 8 \<longleftrightarrow> t = 8" "uint t = 9 \<longleftrightarrow> t = 9" "uint t = 10 \<longleftrightarrow> t = 10"
    by (simp_all add: word_uint_eq_iff)
  show ?thesis unfolding cl_handler_of_def cl_handler_table_def n [symmetric] by (auto split: if_splits)
qed

lemma cl_head_check_defined:
  assumes "cl_ready c" "1036 \<le> length m"
  shows "cl_head_check e m c \<noteq> None \<longleftrightarrow> survivable e m"
    "cl_head_check e m c = Some (c', r) \<Longrightarrow> cl_ready c'"
proof -
  let ?h = "cl_handler_of (m ! 8)"
  have l: "8 < length m" using assms(2) by simp
  note H = cl_handler_cases [of "m ! 8"]
  consider (zero) "m ! 8 = 0" | (none) "?h = None" | (run) h where "?h = Some h" "h \<notin> {Head_check, Test_function}" "m ! 8 \<noteq> 0"
    using H by (cases ?h) auto
  then have "(cl_head_check e m c \<noteq> None \<longleftrightarrow> survivable e m) \<and> (cl_head_check e m c = Some (c', r) \<longrightarrow> cl_ready c')"
  proof cases
    case zero
    then show ?thesis using cl_head_check_0 [OF assms(1) l] by (simp add: survivable_def)
  next
    case none
    then have "survivable e m" using H by (auto simp: survivable_def)
    then show ?thesis using none cl_head_check_ok [OF assms(1) l] assms(1) by auto
  next
    case run
    then have C: "cl_head_check e m c = map_option (\<lambda>c'. (c', 0)) (cl_run h e m c)" using cl_head_check_ok [OF assms(1) l] by simp
    have R: "cl_run h e m c = Some c1 \<Longrightarrow> cl_ready c1" for c1
      using cl_run_frame cl_ready_cong assms(1) by blast
    have "cl_run h e m c \<noteq> None \<longleftrightarrow> survivable e m"
      using cl_run_defined [OF assms(2) run(2), of e c] run(1,3) H unfolding survivable_def by simp
    then show ?thesis using C R by auto
  qed
  then show "cl_head_check e m c \<noteq> None \<longleftrightarrow> survivable e m" "cl_head_check e m c = Some (c', r) \<Longrightarrow> cl_ready c'" by blast+
qed

lemma receive_defined:
  "cl_ready c \<Longrightarrow> list_all (\<lambda>m. 1036 \<le> length m) ms \<Longrightarrow> cl_receive e ms c \<noteq> None \<longleftrightarrow> list_all (survivable e) ms"
proof (induction ms arbitrary: c)
  case (Cons m ms)
  have m: "1036 \<le> length m" using Cons.prems(2) by simp
  show ?case
  proof (cases "cl_head_check e m c")
    case None
    then show ?thesis using cl_head_check_defined(1) [OF Cons.prems(1) m, of e] by auto
  next
    case (Some cr)
    obtain c' r where cr: "cr = (c', r)" by (cases cr)
    have "cl_ready c'" using cl_head_check_defined(2) [OF Cons.prems(1) m] Some cr by simp
    then show ?thesis
      using Cons.IH [of c'] Cons.prems(2) Some cr cl_head_check_defined(1) [OF Cons.prems(1) m, of e] by simp
  qed
qed simp

section \<open>Properties\<close>

text \<open>
  C3: What the server sends in a session, delivered in order, brings the device's file up to date. The
  session is that of C4: the requests may come from anywhere, as the client's own answers go to port 0. A device that has
  the first \<open>k\<close> bytes of the file has, after a session from the place \<open>k\<close>, the next 1000 bytes for each
  request, in particular the whole file when there are enough requests, and it has answered each packet with one of the same action. The
  file must open and each write must be complete; what the server leaves unset in a packet is arbitrary.
\<close>

theorem transfer_received:
  assumes "distinct cbs" "length cbs = 14" "srv_dev e s0 T" "reg_map (sv_reg s0) T ip \<noteq> None" "file_ok e f"
    "timer_armed ip s0" "sv_sent s0 = []" "en_free_stream e" "en_literal e" "sv_open s0 + length ps + 2 \<le> en_max_open e"
    "start_request k buff" "k \<le> length f" "list_all (next_request (ip, port)) ps"
    "distinct cbs'" "length cbs' = 14" "cl_bytes c0 = take k f" "ce_open ce" "1000 \<le> ce_room ce"
    "\<And>p. length (g p) = 1036"
  shows "\<exists>s s' c c' ms. init_register True cbs s0 = Some s \<and> serve e ((t, buff, ip, port) # ps) s = Some s' \<and>
    cl_init_register True cbs' c0 = Some c \<and> cl_receive ce (map (\<lambda>p. wire (g p) p) (sv_sent s')) c = Some c' \<and>
    cl_bytes c' = take (k + 1000 * (length ps + 1)) f \<and>
    cl_sent c' = cl_sent c @ ms \<and> map (\<lambda>m. m ! 8) ms = map pk_action (sv_sent s')"
proof -
  obtain s s' where R: "init_register True cbs s0 = Some s" "serve e ((t, buff, ip, port) # ps) s = Some s'"
    "session_ok e ip port (en_new e (sv_up s0)) f k T (sv_open s0 + 1) (Suc (length ps)) s'"
    by (rule transfer_session [OF assms(1-13)])
  obtain cm ccs where C: "cl_init_register True cbs' c0 = Some (c0\<lparr>cl_calls := ccs, cl_mymap := cm\<rparr>)"
    "cl_ready (c0\<lparr>cl_calls := ccs, cl_mymap := cm\<rparr>)" by (rule cl_init_ready [OF assms(14,15)])
  have B: "cl_bytes (c0\<lparr>cl_calls := ccs, cl_mymap := cm\<rparr>) = take k f" using assms(16) by (simp add: cl_bytes_def)
  have len: "length (sv_sent s') = length ps + 1" and
    rep: "\<forall>i<length (sv_sent s'). reply_ok ip port f (min (length f) (k + 1000 * i)) (sv_sent s' ! i)"
    using R(3) by (simp_all add: session_ok_def)
  obtain c' ms where "cl_receive ce (map (\<lambda>p. wire (g p) p) (sv_sent s')) (c0\<lparr>cl_calls := ccs, cl_mymap := cm\<rparr>) = Some c'"
    "cl_bytes c' = take (k + 1000 * (length ps + 1)) f" "cl_sent c' = cl_sent (c0\<lparr>cl_calls := ccs, cl_mymap := cm\<rparr>) @ ms"
    "map (\<lambda>m. m ! 8) ms = map pk_action (sv_sent s')"
    using cl_get_replies [where g = g, OF assms(17-19) C(2) B assms(12) rep] unfolding len by (elim exE conjE) (rule that)
  then show ?thesis using R(1,2) C(1) by (intro exI conjI)
qed

text \<open>
  C23: The packets a client survives, of those with the size of the structure and whatever they hold:
  it goes through a stream of them exactly when none has action 0, for which the dispatch calls itself for ever;
  the texts that are logged end in the copy of the packet (actions 7, 9 and 10, and 8 when the file can be opened);
  and, when the file can be opened, none with action 8 asks for more than the 1012 bytes that follow its header or for
  more than \<^verbatim>\<open>fwrite\<close> takes.
\<close>

theorem client_survives:
  assumes "distinct cbs" "length cbs = 14" "list_all (\<lambda>m. 1036 \<le> length m) ms"
  shows "\<exists>c. cl_init_register True cbs c0 = Some c \<and>
    (cl_receive e ms c \<noteq> None \<longleftrightarrow> list_all (survivable e) ms)"
proof -
  obtain m cs where "cl_init_register True cbs c0 = Some (c0\<lparr>cl_calls := cs, cl_mymap := m\<rparr>)"
    "cl_ready (c0\<lparr>cl_calls := cs, cl_mymap := m\<rparr>)" by (rule cl_init_ready [OF assms(1,2)])
  then show ?thesis using receive_defined [OF _ assms(3)] by blast
qed

text \<open>The offset of a chunk is not looked at: a datagram that arrives twice is appended twice.\<close>

lemma chunk_twice:
  assumes "cl_ready c" "ce_open ce" "length m = 1036" "m ! 8 = 8"
    "drop 12 m = wire_body g 8 (Chunk (of_nat (length data)) off len data)" "length data \<le> 1000" "length data \<le> ce_room ce"
  shows "\<exists>c'. cl_receive ce [m, m] c = Some c' \<and> cl_bytes c' = cl_bytes c @ data @ data"
proof -
  obtain bs c1 where c1: "cl_receive ce [m] c = Some c1" "cl_ready c1" "cl_bytes c1 = cl_bytes c @ data"
    by (rule cl_get_chunk [OF assms])
  obtain bs c2 where c2: "cl_receive ce [m] c1 = Some c2" "cl_bytes c2 = cl_bytes c1 @ data"
    by (rule cl_get_chunk [OF c1(2) assms(2-7)])
  have "cl_receive ce [m, m] c = Option.bind (cl_receive ce [m] c) (cl_receive ce [m])"
    by (cases "cl_head_check ce m c") auto
  then have "cl_receive ce [m, m] c = Some c2" unfolding c1(1) using c2(1) by (simp del: cl_receive.simps)
  then show ?thesis using c1(3) c2(2) by (simp del: cl_receive.simps)
qed

section \<open>Examples\<close>

definition demo_client :: client where
  "demo_client = \<lparr>cl_mymap = demo_table, cl_calls = Map.empty, cl_file = None, cl_total = 0, cl_sent = []\<rparr>"

definition demo_client_env :: client_env where
  "demo_client_env = \<lparr>ce_now = 0, ce_open = True, ce_room = 5000, ce_flush = (\<lambda>n. 0)\<rparr>"

lemma transfer_received_witness:
  "\<exists>s s' c c' ms. init_register True [0..<14] demo_server = Some s \<and>
     serve demo_env [(3, replicate 8 0 @ 9 # replicate 1027 0, 7, 5000), (4, replicate 8 0 @ [8], 7, 5000)] s = Some s' \<and>
     cl_init_register True [0..<14] demo_client = Some c \<and>
     cl_receive demo_client_env (map (\<lambda>p. wire (replicate 1036 5) p) (sv_sent s')) c = Some c' \<and>
     cl_bytes c' = [1, 2, 3] \<and> cl_sent c' = cl_sent c @ ms \<and> map (\<lambda>m. m ! 8) ms = map pk_action (sv_sent s')"
proof -
  let ?ps = "[(4, replicate 8 0 @ [8], 7, 5000)] :: (u64 \<times> u8 list \<times> u32 \<times> u16) list"
  have r: "reg_map (sv_reg demo_server) demo_rbt 7 \<noteq> None" using demo_reg(2) by simp
  have f: "file_ok demo_env [1, 2, 3]" by (simp add: file_ok_def demo_env_def)
  have z: "sv_sent demo_server = []" by (simp add: demo_server_def)
  have m: "en_free_stream demo_env" "en_literal demo_env" "sv_open demo_server + length ?ps + 2 \<le> en_max_open demo_env"
    by (simp_all add: demo_env_def demo_server_def)
  have p: "list_all (next_request (7, 5000)) ?ps" by (simp add: next_request_def nth_append)
  have k: "cl_bytes demo_client = take 0 [1, 2, 3]" by (simp add: cl_bytes_def demo_client_def)
  have o: "ce_open demo_client_env" "1000 \<le> ce_room demo_client_env" by (simp_all add: demo_client_env_def)
  show ?thesis
    using transfer_received [OF _ _ demo_reg(1) r f demo_armed z m demo_start _ p _ _ k o, of "[0..<14]" "[0..<14]" "\<lambda>p. replicate 1036 5" 3]
    by fastforce
qed

lemma client_survives_witness:
  "\<exists>c. cl_init_register True [0..<14] demo_client = Some c \<and>
    cl_receive demo_client_env [replicate 1036 2, replicate 1036 9] c = None \<and>
    cl_receive demo_client_env [replicate 1036 2] c \<noteq> None"
proof -
  have l: "list_all (\<lambda>m. 1036 \<le> length m) [replicate 1036 2, replicate 1036 (9 :: u8)]"
    "list_all (\<lambda>m. 1036 \<le> length m) [replicate 1036 (2 :: u8)]" by simp_all
  have "survivable demo_client_env (replicate 1036 2)" "\<not> survivable demo_client_env (replicate 1036 9)"
    by (simp_all add: survivable_def)
  then show ?thesis using client_survives [of "[0..<14]" _ demo_client demo_client_env, OF _ _ l(1)]
    client_survives [of "[0..<14]" _ demo_client demo_client_env, OF _ _ l(2)] by fastforce
qed

end
