(* ===== verification/Balloc.thy ===== *)
theory Balloc
  imports Prelude
begin

text \<open>
  The block allocator of the device server (\<^verbatim>\<open>udpclient/udpserver/balloc.c\<close>): blocks
  of the sizes 16, 32, ..., 65536 bytes are cut off one buffer and come back on a free
  queue of their class; bigger requests, and all of them when the buffer is used up, go
  to \<^verbatim>\<open>malloc\<close> when the flags allow it. Every block has a header of 16 bytes (a
  union of the size and the link of the free queue, and the flags with an integrity
  mark) before the pointer the caller gets.

  Memory has two views, as the code uses it: the headers by the address of their block,
  and the bytes. The address \<^verbatim>\<open>malloc\<close> returns (0 when it fails) is an argument of the
  operations that may call it, the addresses given to \<^verbatim>\<open>free\<close> are logged in the state.
  The statistics (\<^verbatim>\<open>B_STATS\<close>), the fill and verify code and the \<^verbatim>\<open>UNICODE\<close> copy are
  not compiled and not modelled.
\<close>

section \<open>Data\<close>

datatype btype_u = BSize int | BNext addr

record btype =
  bt_u :: btype_u
  bt_flags :: u32

definition B_SHIFT :: nat where "B_SHIFT = 4"
definition B_MAX_CLASS :: nat where "B_MAX_CLASS = 13"
definition B_MALLOCED :: u32 where "B_MALLOCED = 0x80000000"
definition B_DEFAULT_MEM :: int where "B_DEFAULT_MEM = 64 * 1024"
definition B_FILL_WORD :: u32 where "B_FILL_WORD = 0x77777777"
definition B_INTEGRITY :: u32 where "B_INTEGRITY = 0x8124000"
definition B_INTEGRITY_MASK :: u32 where "B_INTEGRITY_MASK = 0xFFFF000"
definition B_USE_MALLOC :: u32 where "B_USE_MALLOC = 1"
definition B_USER_BUF :: u32 where "B_USER_BUF = 2"

text \<open>\<^verbatim>\<open>sizeof(bType)\<close> where pointers have 64 bits.\<close>

definition sizeof_btype :: nat where "sizeof_btype = 16"

record bstate =
  bQhead :: "addr list"
  bFreeBuf :: addr
  bFreeNext :: addr
  bFreeSize :: int
  bFreeLeft :: int
  bFlags :: u32
  bopenCount :: int
  b_hdr :: "addr \<Rightarrow> btype option"
  b_mem :: "addr \<Rightarrow> u8"
  b_freed :: "addr list"

definition bstate0 :: bstate where
  "bstate0 = \<lparr>bQhead = replicate B_MAX_CLASS 0, bFreeBuf = 0, bFreeNext = 0, bFreeSize = 0,
     bFreeLeft = 0, bFlags = B_USE_MALLOC, bopenCount = 0, b_hdr = (\<lambda>a. None),
     b_mem = (\<lambda>a. 0), b_freed = []\<rparr>"

section \<open>Opening and closing\<close>

definition bopen :: "addr \<Rightarrow> addr \<Rightarrow> int \<Rightarrow> u32 \<Rightarrow> bstate \<Rightarrow> int \<times> bstate" where
  "bopen m buf bufsize flags s =
     (let s = s\<lparr>bFlags := flags, bopenCount := bopenCount s + 1\<rparr> in
      if bopenCount s > 1 then (0, s)
      else
        let bufsize = (if buf = 0 \<and> bufsize = 0 then B_DEFAULT_MEM else bufsize);
            b = (if buf = 0 then m else buf) in
        if b = 0 then (- 1, s\<lparr>bopenCount := bopenCount s - 1\<rparr>)
        else
          (0, s\<lparr>bFlags := (if buf = 0 then flags else flags OR B_USER_BUF),
               bFreeSize := bufsize, bFreeLeft := bufsize, bFreeBuf := b, bFreeNext := b,
               bQhead := replicate B_MAX_CLASS 0\<rparr>))"

text \<open>Freeing the buffer takes the headers inside it away.\<close>

definition bclose :: "bstate \<Rightarrow> bstate" where
  "bclose s =
     (let c = bopenCount s - 1 in
      if c \<le> 0 \<and> bFlags s AND B_USER_BUF = 0 then
        s\<lparr>bopenCount := 0, b_freed := b_freed s @ [bFreeBuf s],
          b_hdr := (\<lambda>a. if bFreeBuf s \<le> a \<and> a < bFreeBuf s + nat (bFreeSize s) then None
                        else b_hdr s a)\<rparr>
      else s\<lparr>bopenCount := c\<rparr>)"

section \<open>Allocation\<close>

text \<open>
  The class of a size: the number of times \<^verbatim>\<open>(size - 1) >> 4\<close> can be halved. A negative
  size would shift in ones for ever; above \<^term>\<open>2 ^ 30\<close> the shift of 1 overflows.
\<close>

fun mask_bits :: "nat \<Rightarrow> nat" where
  "mask_bits msk = (if msk = 0 then 0 else Suc (mask_bits (msk div 2)))"

declare mask_bits.simps [simp del]

definition bclass :: "int \<Rightarrow> nat" where
  "bclass n = (if n = 0 then 0 else mask_bits (nat (n - 1) div 2 ^ B_SHIFT))"

definition blk_size :: "nat \<Rightarrow> nat" where
  "blk_size q = 2 ^ (B_SHIFT + q) + sizeof_btype"

definition ballocGetSize :: "int \<Rightarrow> (nat \<times> int) option" where
  "ballocGetSize n =
     (if n < 0 \<or> B_SHIFT + bclass n > 30 then None
      else Some (bclass n, int (blk_size (bclass n))))"

definition used_hdr :: "int \<Rightarrow> u32 \<Rightarrow> btype" where
  "used_hdr memSize flags =
     \<lparr>bt_u = BSize (memSize - int sizeof_btype), bt_flags = flags OR B_INTEGRITY\<rparr>"

definition balloc_malloc :: "addr \<Rightarrow> int \<Rightarrow> bstate \<Rightarrow> addr \<times> bstate" where
  "balloc_malloc m memSize s =
     (if bFlags s AND B_USE_MALLOC = 0 \<or> m = 0 then (0, s)
      else (m + sizeof_btype, s\<lparr>b_hdr := (b_hdr s)(m \<mapsto> used_hdr memSize B_MALLOCED)\<rparr>))"

definition balloc_open :: "addr \<Rightarrow> bstate \<Rightarrow> int \<times> bstate" where
  "balloc_open m0 s = (if bFreeBuf s = 0 then bopen m0 0 B_DEFAULT_MEM 0 s else (0, s))"

definition balloc_block :: "addr \<Rightarrow> int \<Rightarrow> bstate \<Rightarrow> (addr \<times> bstate) option" where
  "balloc_block m n s =
     (if n < 0 then Some (0, s)
      else do {
        (q, memSize) \<leftarrow> ballocGetSize n;
        if q \<ge> B_MAX_CLASS then Some (balloc_malloc m memSize s)
        else do {
          bp \<leftarrow> rd (bQhead s) (int q);
          if bp \<noteq> 0 then do {
            h \<leftarrow> b_hdr s bp;
            case bt_u h of BSize _ \<Rightarrow> None
            | BNext nx \<Rightarrow>
                Some (bp + sizeof_btype,
                  s\<lparr>bQhead := (bQhead s)[q := nx],
                    b_hdr := (b_hdr s)(bp \<mapsto> used_hdr memSize 0)\<rparr>) }
          else if bFreeLeft s > memSize then
            Some (bFreeNext s + sizeof_btype,
              s\<lparr>bFreeNext := bFreeNext s + nat memSize, bFreeLeft := bFreeLeft s - memSize,
                b_hdr := (b_hdr s)(bFreeNext s \<mapsto> used_hdr memSize 0)\<rparr>)
          else Some (balloc_malloc m memSize s) } })"

text \<open>\<^verbatim>\<open>m0\<close> is what \<^verbatim>\<open>malloc\<close> returns to the \<^verbatim>\<open>bopen\<close> a first allocation makes.\<close>

definition balloc :: "addr \<Rightarrow> addr \<Rightarrow> int \<Rightarrow> bstate \<Rightarrow> (addr \<times> bstate) option" where
  "balloc m0 m n s =
     (let (r, s1) = balloc_open m0 s in
      if r < 0 then Some (0, s1) else balloc_block m n s1)"

section \<open>Release, duplication, reallocation\<close>

definition hdr_of :: "bstate \<Rightarrow> addr \<Rightarrow> btype option" where
  "hdr_of s mp = (if mp < sizeof_btype then None else b_hdr s (mp - sizeof_btype))"

definition has_mark :: "btype \<Rightarrow> bool" where
  "has_mark h \<longleftrightarrow> bt_flags h AND B_INTEGRITY_MASK = B_INTEGRITY"

definition hdr_size :: "btype \<Rightarrow> int option" where
  "hdr_size h = (case bt_u h of BSize n \<Rightarrow> Some n | BNext _ \<Rightarrow> None)"

definition bfree :: "addr \<Rightarrow> bstate \<Rightarrow> bstate option" where
  "bfree mp s = do {
     h \<leftarrow> hdr_of s mp;
     let bp = mp - sizeof_btype;
     if \<not> has_mark h then Some s
     else do {
       n \<leftarrow> hdr_size h;
       (q, memSize) \<leftarrow> ballocGetSize n;
       if bt_flags h AND B_MALLOCED \<noteq> 0 then
         Some (s\<lparr>b_hdr := (b_hdr s)(bp := None), b_freed := b_freed s @ [bp]\<rparr>)
       else do {
         nx \<leftarrow> rd (bQhead s) (int q);
         Some (s\<lparr>bQhead := (bQhead s)[q := bp],
                 b_hdr := (b_hdr s)(bp \<mapsto> \<lparr>bt_u = BNext nx, bt_flags = B_FILL_WORD\<rparr>)\<rparr>) } } }"

definition bfreeSafe :: "addr \<Rightarrow> bstate \<Rightarrow> bstate option" where
  "bfreeSafe mp s = (if mp \<noteq> 0 then bfree mp s else Some s)"

text \<open>\<^verbatim>\<open>memcpy\<close> and \<^verbatim>\<open>strncpy\<close> as a write of bytes; the argument of \<^verbatim>\<open>bstrdup\<close> is the
  string without its NUL, or NULL.\<close>

definition put_bytes :: "addr \<Rightarrow> u8 list \<Rightarrow> (addr \<Rightarrow> u8) \<Rightarrow> addr \<Rightarrow> u8" where
  "put_bytes a xs mem = (\<lambda>x. if a \<le> x \<and> x < a + length xs then xs ! (x - a) else mem x)"

definition get_bytes :: "(addr \<Rightarrow> u8) \<Rightarrow> addr \<Rightarrow> nat \<Rightarrow> u8 list" where
  "get_bytes mem a n = map (\<lambda>i. mem (a + i)) [0 ..< n]"

definition bstrdup ::
  "addr \<Rightarrow> addr \<Rightarrow> u8 list option \<Rightarrow> bstate \<Rightarrow> (addr \<times> bstate) option" where
  "bstrdup m0 m str s = do {
     let cs = (case str of None \<Rightarrow> [] | Some cs \<Rightarrow> cs);
     (cp, s) \<leftarrow> balloc m0 m (int (length cs) + 1) s;
     Some (cp, if cp \<noteq> 0 then s\<lparr>b_mem := put_bytes cp (cs @ [0]) (b_mem s)\<rparr> else s) }"

definition brealloc :: "addr \<Rightarrow> addr \<Rightarrow> addr \<Rightarrow> int \<Rightarrow> bstate \<Rightarrow> (addr \<times> bstate) option" where
  "brealloc m0 m mp newsize s =
     (if mp = 0 then balloc m0 m newsize s
      else do {
        h \<leftarrow> hdr_of s mp;
        n \<leftarrow> hdr_size h;
        if n \<ge> newsize then Some (mp, s)
        else do {
          (nb, s) \<leftarrow> balloc m0 m newsize s;
          if nb = 0 then Some (0, s)
          else do {
            let s = s\<lparr>b_mem := put_bytes nb (get_bytes (b_mem s) mp (nat n)) (b_mem s)\<rparr>;
            s \<leftarrow> bfree mp s;
            Some (nb, s) } } })"

section \<open>The size classes\<close>

lemma mask_bits_bound: "m < 2 ^ mask_bits m"
proof (induction m rule: mask_bits.induct)
  case (1 m)
  then show ?case by (cases "m = 0") (auto simp: mask_bits.simps [of m])
qed

lemma mask_bits_least: "m < 2 ^ k \<Longrightarrow> mask_bits m \<le> k"
proof (induction m arbitrary: k rule: mask_bits.induct)
  case (1 m)
  show ?case
  proof (cases "m = 0")
    case False
    then obtain j where j: "k = Suc j" using "1.prems" by (cases k) auto
    then have "m div 2 < 2 ^ j" using "1.prems" by auto
    then show ?thesis using "1.IH" [OF False] j False by (simp add: mask_bits.simps [of m])
  qed (simp add: mask_bits.simps)
qed

lemma bclass_fits: "0 \<le> n \<Longrightarrow> n \<le> 2 ^ (4 + bclass n)"
proof -
  assume n: "0 \<le> n"
  show ?thesis
  proof (cases "n = 0")
    case False
    have "nat (n - 1) div 16 < 2 ^ bclass n"
      using mask_bits_bound [of "nat (n - 1) div 16"] False by (simp add: bclass_def B_SHIFT_def)
    then have "nat (n - 1) < 2 ^ bclass n * 16" by (simp add: div_less_iff_less_mult)
    moreover have "int (2 ^ bclass n * 16) = 2 ^ (4 + bclass n)" by (simp add: power_add)
    ultimately show ?thesis using n by linarith
  qed simp
qed

lemma bclass_least: "0 \<le> n \<Longrightarrow> n \<le> 2 ^ (4 + k) \<Longrightarrow> bclass n \<le> k"
proof -
  assume n: "0 \<le> n" "n \<le> 2 ^ (4 + k)"
  have "int (2 ^ k * 16) = 2 ^ (4 + k)" by (simp add: power_add)
  then have "n \<noteq> 0 \<Longrightarrow> nat (n - 1) < 2 ^ k * 16" using n by linarith
  then have "n \<noteq> 0 \<Longrightarrow> nat (n - 1) div 16 < 2 ^ k" by (simp add: div_less_iff_less_mult)
  then show ?thesis using mask_bits_least by (auto simp: bclass_def B_SHIFT_def)
qed

lemma bclass_power: "bclass (2 ^ (4 + q)) = q"
proof -
  have "(2 :: int) ^ (4 + q) \<le> 2 ^ (4 + bclass (2 ^ (4 + q)))" by (rule bclass_fits) simp
  then have "q \<le> bclass (2 ^ (4 + q))" by simp
  moreover have "bclass (2 ^ (4 + q)) \<le> q" by (rule bclass_least) simp_all
  ultimately show ?thesis by simp
qed

lemma ballocGetSize_ok:
  "0 \<le> n \<Longrightarrow> n \<le> 2 ^ 30 \<Longrightarrow> ballocGetSize n = Some (bclass n, int (blk_size (bclass n)))"
  using bclass_least [of n 26] by (simp add: ballocGetSize_def B_SHIFT_def)

section \<open>The objects of the caller and the layout of memory\<close>

text \<open>
  The caller's view: a pointer whose header bears the integrity mark is an object of
  as many bytes as the header says. Nothing else of the state is visible.
\<close>

definition obj_of :: "(addr \<Rightarrow> u8) \<Rightarrow> addr \<Rightarrow> btype option \<Rightarrow> u8 list option" where
  "obj_of mem p ho = (case ho of None \<Rightarrow> None
     | Some h \<Rightarrow> if has_mark h then map_option (\<lambda>n. get_bytes mem p (nat n)) (hdr_size h) else None)"

definition babs :: "bstate \<Rightarrow> addr \<Rightarrow> u8 list option" where
  "babs s p = obj_of (b_mem s) p (hdr_of s p)"

lemma babs_upd:
  assumes "b_hdr s' = (b_hdr s)(a := x)" "b_mem s' = b_mem s"
  shows "babs s' = (babs s)(a + sizeof_btype := obj_of (b_mem s) (a + sizeof_btype) x)"
  by (rule ext) (auto simp: assms babs_def hdr_of_def)

lemma mark_simps [simp]:
  "has_mark (used_hdr n 0)" "has_mark (used_hdr n B_MALLOCED)"
  "\<not> has_mark \<lparr>bt_u = u, bt_flags = B_FILL_WORD\<rparr>"
  "bt_flags (used_hdr n 0) AND B_MALLOCED = 0" "bt_flags (used_hdr n B_MALLOCED) AND B_MALLOCED \<noteq> 0"
  "hdr_size (used_hdr (int (blk_size q)) f) = Some (2 ^ (4 + q))"
  by (simp_all add: has_mark_def used_hdr_def hdr_size_def B_INTEGRITY_def B_INTEGRITY_MASK_def
      B_MALLOCED_def B_FILL_WORD_def blk_size_def B_SHIFT_def)

lemma obj_of_simps [simp]:
  "obj_of mem p None = None"
  "obj_of mem p (Some \<lparr>bt_u = u, bt_flags = B_FILL_WORD\<rparr>) = None"
  "obj_of mem p (Some (used_hdr (int (blk_size q)) 0)) = Some (get_bytes mem p (2 ^ (4 + q)))"
  "obj_of mem p (Some (used_hdr (int (blk_size q)) B_MALLOCED)) = Some (get_bytes mem p (2 ^ (4 + q)))"
  by (simp_all add: obj_of_def nat_power_eq)

lemma length_get_bytes [simp]: "length (get_bytes mem a n) = n"
  by (simp add: get_bytes_def)

definition apart :: "addr \<Rightarrow> nat \<Rightarrow> addr \<Rightarrow> nat \<Rightarrow> bool" where
  "apart a n b k \<longleftrightarrow> a + n \<le> b \<or> b + k \<le> a"

fun qchain :: "(addr \<Rightarrow> btype option) \<Rightarrow> addr \<Rightarrow> addr list \<Rightarrow> bool" where
  "qchain h p [] \<longleftrightarrow> p = 0"
| "qchain h p (a # as) \<longleftrightarrow> p = a \<and> a \<noteq> 0 \<and>
     (\<exists>nx. h a = Some \<lparr>bt_u = BNext nx, bt_flags = B_FILL_WORD\<rparr> \<and> qchain h nx as)"

lemma qchain_upd: "a \<notin> set as \<Longrightarrow> qchain (h(a := x)) p as = qchain h p as"
  by (induction as arbitrary: p) auto

lemma qchain_free:
  "qchain h p as \<Longrightarrow> a \<in> set as \<Longrightarrow> \<exists>nx. h a = Some \<lparr>bt_u = BNext nx, bt_flags = B_FILL_WORD\<rparr>"
  by (induction as arbitrary: p) auto

text \<open>
  The layout: \<open>G\<close> gives the class of every block and whether it came from \<^verbatim>\<open>malloc\<close>,
  \<open>fr\<close> the free queue of every class.
\<close>

type_synonym blocks = "addr \<Rightarrow> (nat \<times> bool) option"

definition buffer_wf :: "bstate \<Rightarrow> bool" where
  "buffer_wf s \<longleftrightarrow> bFreeBuf s \<noteq> 0 \<and> 0 \<le> bFreeLeft s \<and> bFreeLeft s \<le> bFreeSize s \<and>
     bFreeNext s = bFreeBuf s + nat (bFreeSize s - bFreeLeft s)"

definition block_wf :: "bstate \<Rightarrow> addr \<Rightarrow> nat \<Rightarrow> bool \<Rightarrow> bool" where
  "block_wf s a q m \<longleftrightarrow> a \<noteq> 0 \<and>
     (if m then q \<le> 26 \<and> apart a (blk_size q) (bFreeBuf s) (nat (bFreeSize s))
      else q < B_MAX_CLASS \<and> bFreeBuf s \<le> a \<and> a + blk_size q \<le> bFreeNext s)"

definition blocks_wf :: "blocks \<Rightarrow> bstate \<Rightarrow> bool" where
  "blocks_wf G s \<longleftrightarrow> (\<forall>a q m. G a = Some (q, m) \<longrightarrow> block_wf s a q m) \<and>
     (\<forall>a q m b r k. G a = Some (q, m) \<longrightarrow> G b = Some (r, k) \<longrightarrow> a \<noteq> b \<longrightarrow>
        apart a (blk_size q) b (blk_size r))"

definition queues_wf :: "blocks \<Rightarrow> (nat \<Rightarrow> addr list) \<Rightarrow> bstate \<Rightarrow> bool" where
  "queues_wf G fr s \<longleftrightarrow> length (bQhead s) = B_MAX_CLASS \<and>
     (\<forall>q < B_MAX_CLASS. qchain (b_hdr s) (bQhead s ! q) (fr q) \<and> distinct (fr q) \<and>
        (\<forall>a \<in> set (fr q). G a = Some (q, False)))"

definition mflag :: "bool \<Rightarrow> u32" where "mflag m = (if m then B_MALLOCED else 0)"

definition hdrs_wf :: "blocks \<Rightarrow> (nat \<Rightarrow> addr list) \<Rightarrow> bstate \<Rightarrow> bool" where
  "hdrs_wf G fr s \<longleftrightarrow> (\<forall>a. G a = None \<longrightarrow> b_hdr s a = None) \<and>
     (\<forall>a q m. G a = Some (q, m) \<longrightarrow>
        (\<not> m \<and> a \<in> set (fr q)) \<or> b_hdr s a = Some (used_hdr (int (blk_size q)) (mflag m)))"

definition binv :: "blocks \<Rightarrow> (nat \<Rightarrow> addr list) \<Rightarrow> bstate \<Rightarrow> bool" where
  "binv G fr s \<longleftrightarrow> buffer_wf s \<and> blocks_wf G s \<and> queues_wf G fr s \<and> hdrs_wf G fr s"

lemma binvI: "buffer_wf s \<Longrightarrow> blocks_wf G s \<Longrightarrow> queues_wf G fr s \<Longrightarrow> hdrs_wf G fr s \<Longrightarrow> binv G fr s"
  by (simp add: binv_def)

lemma binvD: "binv G fr s \<Longrightarrow> buffer_wf s \<and> blocks_wf G s \<and> queues_wf G fr s \<and> hdrs_wf G fr s"
  by (simp add: binv_def)

lemma mark_mflag [simp]:
  "has_mark (used_hdr n (mflag m))" "bt_flags (used_hdr n (mflag m)) AND B_MALLOCED = 0 \<longleftrightarrow> \<not> m"
  "obj_of mem p (Some (used_hdr (int (blk_size q)) (mflag m))) = Some (get_bytes mem p (2 ^ (4 + q)))"
  by (simp_all add: mflag_def)

lemma blk_size_pos [simp]: "0 < blk_size q"
  by (simp add: blk_size_def)

text \<open>A used block is a header with the mark, and only those.\<close>

lemma binv_marked:
  assumes "binv G fr s" "b_hdr s a = Some h" "has_mark h"
  obtains q m where "G a = Some (q, m)" "h = used_hdr (int (blk_size q)) (mflag m)"
proof -
  have H: "hdrs_wf G fr s" and Q: "queues_wf G fr s" and W: "blocks_wf G s"
    using assms(1) by (simp_all add: binv_def)
  from H assms(2) obtain q m where g: "G a = Some (q, m)"
    by (cases "G a") (auto simp: hdrs_wf_def)
  have "\<not> (\<not> m \<and> a \<in> set (fr q))"
  proof
    assume f: "\<not> m \<and> a \<in> set (fr q)"
    then have "q < B_MAX_CLASS" using W g by (auto simp: blocks_wf_def block_wf_def)
    then show False using Q f assms(2,3) qchain_free unfolding queues_wf_def by fastforce
  qed
  then show thesis using H g assms(2) that unfolding hdrs_wf_def by fastforce
qed

lemma babs_SomeE:
  assumes "binv G fr s" "babs s p = Some xs"
  obtains a q m where "p = a + sizeof_btype" "G a = Some (q, m)"
    "b_hdr s a = Some (used_hdr (int (blk_size q)) (mflag m))"
    "xs = get_bytes (b_mem s) p (2 ^ (4 + q))"
proof -
  obtain h where h: "hdr_of s p = Some h" "has_mark h"
    using assms(2) by (auto simp: babs_def obj_of_def split: option.splits if_splits)
  then have p: "p = (p - sizeof_btype) + sizeof_btype" and h': "b_hdr s (p - sizeof_btype) = Some h"
    by (auto simp: hdr_of_def split: if_splits)
  obtain q m where g: "G (p - sizeof_btype) = Some (q, m)" "h = used_hdr (int (blk_size q)) (mflag m)"
    using binv_marked [OF assms(1) h' h(2)] .
  moreover have "xs = get_bytes (b_mem s) p (2 ^ (4 + q))"
    using assms(2) h g(2) by (simp add: babs_def)
  ultimately show thesis using that p h' by metis
qed

text \<open>Two objects never share a byte.\<close>

lemma babs_apart:
  assumes "binv G fr s" "babs s p = Some xs" "babs s r = Some ys" "p \<noteq> r"
  shows "apart p (length xs) r (length ys)"
proof -
  obtain a q m where a: "p = a + sizeof_btype" "G a = Some (q, m)" "length xs = 2 ^ (4 + q)"
    using babs_SomeE [OF assms(1,2)] by (metis length_get_bytes)
  obtain b k j where b: "r = b + sizeof_btype" "G b = Some (k, j)" "length ys = 2 ^ (4 + k)"
    using babs_SomeE [OF assms(1,3)] by (metis length_get_bytes)
  have "blocks_wf G s" using assms(1) by (simp add: binv_def)
  moreover have "a \<noteq> b" using a(1) b(1) assms(4) by simp
  ultimately have "apart a (blk_size q) b (blk_size k)" using a(2) b(2) unfolding blocks_wf_def by blast
  then show ?thesis using a b by (auto simp: apart_def blk_size_def B_SHIFT_def)
qed

section \<open>Allocation\<close>

text \<open>The queue of the class: its first block becomes used.\<close>

lemma binv_take:
  assumes I: "binv G fr s" and q: "q < B_MAX_CLASS" and f: "fr q = a # as"
    and h: "b_hdr s a = Some \<lparr>bt_u = BNext nx, bt_flags = B_FILL_WORD\<rparr>"
  shows "binv G (fr(q := as)) (s\<lparr>bQhead := (bQhead s)[q := nx],
    b_hdr := (b_hdr s)(a \<mapsto> used_hdr (int (blk_size q)) 0)\<rparr>)" (is "binv _ ?fr ?s")
proof (rule binvI)
  have Q: "queues_wf G fr s" and H: "hdrs_wf G fr s" using I by (simp_all add: binv_def)
  have qq: "qchain (b_hdr s) (bQhead s ! q) (a # as) \<and> distinct (a # as) \<and>
      (\<forall>b \<in> set (a # as). G b = Some (q, False))"
    using Q q f unfolding queues_wf_def by metis
  have other: "a \<notin> set (fr k)" if k: "k < B_MAX_CLASS" "k \<noteq> q" for k
  proof
    assume "a \<in> set (fr k)"
    then have "G a = Some (k, False)" using Q k unfolding queues_wf_def by blast
    then show False using qq k(2) by simp
  qed
  show "buffer_wf ?s" using I by (simp add: binv_def buffer_wf_def)
  show "blocks_wf G ?s" using I by (simp add: binv_def blocks_wf_def block_wf_def)
  show "queues_wf G ?fr ?s"
    unfolding queues_wf_def
  proof (intro conjI allI impI)
    show "length (bQhead ?s) = B_MAX_CLASS" using Q by (simp add: queues_wf_def)
    fix k assume k: "k < B_MAX_CLASS"
    have L: "length (bQhead s) = B_MAX_CLASS" using Q by (simp add: queues_wf_def)
    show "qchain (b_hdr ?s) (bQhead ?s ! k) (?fr k)"
      using Q k qq h other [OF k] L by (cases "k = q") (auto simp: queues_wf_def qchain_upd)
    show "distinct (?fr k)" using Q k qq by (cases "k = q") (auto simp: queues_wf_def)
    show "\<forall>b\<in>set (?fr k). G b = Some (k, False)"
      using Q k qq by (cases "k = q") (auto simp: queues_wf_def)
  qed
  show "hdrs_wf G ?fr ?s"
    unfolding hdrs_wf_def
  proof (intro conjI allI impI)
    fix b assume "G b = None"
    then show "b_hdr ?s b = None" using H qq by (auto simp: hdrs_wf_def)
  next
    fix b r k assume g: "G b = Some (r, k)"
    show "(\<not> k \<and> b \<in> set (?fr r)) \<or> b_hdr ?s b = Some (used_hdr (int (blk_size r)) (mflag k))"
    proof (cases "b = a")
      case True
      then show ?thesis using g qq by (simp add: mflag_def)
    next
      case False
      have "(\<not> k \<and> b \<in> set (fr r)) \<or> b_hdr s b = Some (used_hdr (int (blk_size r)) (mflag k))"
        using H g unfolding hdrs_wf_def by blast
      then show ?thesis using False f by auto
    qed
  qed
qed

text \<open>A block that did not exist: cut off the buffer, or from \<^verbatim>\<open>malloc\<close>.\<close>

lemma binv_new:
  assumes I: "binv G fr s" and g: "G a = None"
    and s': "bQhead s' = bQhead s" "bFreeBuf s' = bFreeBuf s" "bFreeSize s' = bFreeSize s"
      "b_hdr s' = (b_hdr s)(a \<mapsto> used_hdr (int (blk_size q)) (mflag m))"
    and bw: "buffer_wf s'" "bFreeNext s \<le> bFreeNext s'" and b: "block_wf s' a q m"
    and far: "\<And>b r k. G b = Some (r, k) \<Longrightarrow> apart a (blk_size q) b (blk_size r)"
  shows "binv (G(a \<mapsto> (q, m))) fr s'"
proof (rule binvI)
  have Q: "queues_wf G fr s" and H: "hdrs_wf G fr s" and W: "blocks_wf G s"
    using I by (simp_all add: binv_def)
  have other: "a \<notin> set (fr k)" if k: "k < B_MAX_CLASS" for k
    using Q k g unfolding queues_wf_def by fastforce
  show "buffer_wf s'" by (rule bw(1))
  have old: "block_wf s' b r k" if "G b = Some (r, k)" for b r k
  proof -
    have "block_wf s b r k" using W that unfolding blocks_wf_def by blast
    then show ?thesis using s' bw(2) by (auto simp: block_wf_def)
  qed
  have far': "apart b (blk_size r) a (blk_size q)" if "G b = Some (r, k)" for b r k
    using far [OF that] by (auto simp: apart_def)
  show "blocks_wf (G(a \<mapsto> (q, m))) s'"
    using W old far far' b unfolding blocks_wf_def by (auto split: if_splits)
  show "queues_wf (G(a \<mapsto> (q, m))) fr s'"
    unfolding queues_wf_def
  proof (intro conjI allI impI)
    show "length (bQhead s') = B_MAX_CLASS" using Q s' by (simp add: queues_wf_def)
    fix k assume k: "k < B_MAX_CLASS"
    show "qchain (b_hdr s') (bQhead s' ! k) (fr k)"
      using Q k s' other [OF k] by (simp add: queues_wf_def qchain_upd)
    show "distinct (fr k)" using Q k by (simp add: queues_wf_def)
    show "\<forall>b\<in>set (fr k). (G(a \<mapsto> (q, m))) b = Some (k, False)"
      using Q k other [OF k] by (auto simp: queues_wf_def)
  qed
  show "hdrs_wf (G(a \<mapsto> (q, m))) fr s'"
    using H s' unfolding hdrs_wf_def by auto
qed

text \<open>What \<^verbatim>\<open>malloc\<close> promises: memory apart from the buffer and from every object.\<close>

definition malloc_fresh :: "bstate \<Rightarrow> addr \<Rightarrow> nat \<Rightarrow> bool" where
  "malloc_fresh s m n \<longleftrightarrow> (m \<noteq> 0 \<longrightarrow> apart m n (bFreeBuf s) (nat (bFreeSize s)) \<and>
     (\<forall>p xs. babs s p = Some xs \<longrightarrow> apart m n (p - sizeof_btype) (sizeof_btype + length xs)))"

lemma malloc_fresh_0 [simp]: "malloc_fresh s 0 n"
  by (simp add: malloc_fresh_def)

lemma fresh_far:
  assumes I: "binv G fr s" and F: "malloc_fresh s m n" "m \<noteq> 0" and g: "G b = Some (r, k)"
  shows "apart m n b (blk_size r)"
proof (cases k)
  case False
  then have "bFreeBuf s \<le> b" "b + blk_size r \<le> bFreeNext s"
    using I g by (auto simp: binv_def blocks_wf_def block_wf_def)
  moreover have "bFreeNext s \<le> bFreeBuf s + nat (bFreeSize s)"
    using I by (auto simp: binv_def buffer_wf_def)
  ultimately show ?thesis using F by (auto simp: malloc_fresh_def apart_def)
next
  case True
  then have "b_hdr s b = Some (used_hdr (int (blk_size r)) (mflag True))"
    using I g by (auto simp: binv_def hdrs_wf_def)
  then have "babs s (b + sizeof_btype) = Some (get_bytes (b_mem s) (b + sizeof_btype) (2 ^ (4 + r)))"
    by (simp add: babs_def hdr_of_def)
  then have "apart m n (b + sizeof_btype - sizeof_btype) (sizeof_btype +
      length (get_bytes (b_mem s) (b + sizeof_btype) (2 ^ (4 + r))))"
    using F unfolding malloc_fresh_def by blast
  then show ?thesis by (simp add: blk_size_def B_SHIFT_def add.commute)
qed

text \<open>What every way of allocating gives: \<open>bgot s r xs s'\<close>.\<close>

definition bgot :: "bstate \<Rightarrow> addr \<Rightarrow> nat \<Rightarrow> bstate \<Rightarrow> bool" where
  "bgot s r q s' \<longleftrightarrow> r \<noteq> 0 \<and> babs s r = None \<and>
     babs s' = (babs s)(r \<mapsto> get_bytes (b_mem s) r (2 ^ (4 + q))) \<and>
     b_mem s' = b_mem s \<and> bFreeBuf s' = bFreeBuf s \<and> bFreeSize s' = bFreeSize s \<and>
     (\<forall>p. hdr_of s p \<noteq> None \<longrightarrow> hdr_of s' p \<noteq> None)"

lemma bgotI:
  assumes "b_hdr s' = (b_hdr s)(a \<mapsto> used_hdr (int (blk_size q)) (mflag m))" "b_mem s' = b_mem s"
    "bFreeBuf s' = bFreeBuf s" "bFreeSize s' = bFreeSize s"
    "obj_of (b_mem s) (a + sizeof_btype) (b_hdr s a) = None"
  shows "bgot s (a + sizeof_btype) q s'"
  using assms babs_upd [OF assms(1,2)]
  by (auto simp: bgot_def babs_def hdr_of_def sizeof_btype_def)

lemma malloc_sound:
  assumes I: "binv G fr s" and F: "malloc_fresh s m (blk_size q)" and q: "q \<le> 26"
    and b: "balloc_malloc m (int (blk_size q)) s = (r, s')"
  shows "(r = 0 \<and> s' = s) \<or> (bgot s r q s' \<and> (\<exists>G'. binv G' fr s'))"
proof (cases "bFlags s AND B_USE_MALLOC = 0 \<or> m = 0")
  case True
  then show ?thesis using b by (auto simp: balloc_malloc_def)
next
  case False
  then have r: "r = m + sizeof_btype" and s': "s' = s\<lparr>b_hdr := (b_hdr s)(m \<mapsto>
      used_hdr (int (blk_size q)) (mflag True))\<rparr>"
    using b by (auto simp: balloc_malloc_def mflag_def)
  have m: "m \<noteq> 0" using False by simp
  have far: "\<And>b r k. G b = Some (r, k) \<Longrightarrow> apart m (blk_size q) b (blk_size r)"
    by (rule fresh_far [OF I F m])
  have g: "G m = None"
  proof (rule ccontr)
    assume "G m \<noteq> None"
    then obtain r k where "G m = Some (r, k)" by (cases "G m") auto
    from far [OF this] show False
      using blk_size_pos [of q] blk_size_pos [of r] by (simp add: apart_def)
  qed
  have "b_hdr s m = None" using I g by (simp add: binv_def hdrs_wf_def)
  then have "bgot s r q s'" unfolding r by (intro bgotI [where m = True]) (simp_all add: s')
  moreover have "binv (G(m \<mapsto> (q, True))) fr s'"
  proof (rule binv_new [OF I g])
    show "buffer_wf s'" using I by (simp add: s' binv_def buffer_wf_def)
    show "block_wf s' m q True" using F m q by (simp add: block_wf_def s' malloc_fresh_def)
  qed (simp_all add: s' far)
  ultimately show ?thesis by blast
qed

lemma carve_sound:
  assumes I: "binv G fr s" and q: "q < B_MAX_CLASS" and l: "int (blk_size q) < bFreeLeft s"
    and s': "s' = s\<lparr>bFreeNext := bFreeNext s + blk_size q, bFreeLeft := bFreeLeft s - int (blk_size q),
      b_hdr := (b_hdr s)(bFreeNext s \<mapsto> used_hdr (int (blk_size q)) 0)\<rparr>"
  shows "bgot s (bFreeNext s + sizeof_btype) q s' \<and> (\<exists>G'. binv G' fr s')"
proof -
  let ?a = "bFreeNext s"
  have bw: "buffer_wf s" and W: "blocks_wf G s" and H: "hdrs_wf G fr s"
    using I by (simp_all add: binv_def)
  have hi: "?a + blk_size q \<le> bFreeBuf s + nat (bFreeSize s)"
    using bw l unfolding buffer_wf_def by linarith
  have far: "apart ?a (blk_size q) b (blk_size r)" if "G b = Some (r, k)" for b r k
  proof -
    have "block_wf s b r k" using W that unfolding blocks_wf_def by blast
    then show ?thesis using hi bw by (auto simp: block_wf_def apart_def buffer_wf_def split: if_splits)
  qed
  have g: "G ?a = None"
  proof (rule ccontr)
    assume "G ?a \<noteq> None"
    then obtain r k where "G ?a = Some (r, k)" by (cases "G ?a") auto
    from far [OF this] show False
      using blk_size_pos [of q] blk_size_pos [of r] by (simp add: apart_def)
  qed
  have "b_hdr s ?a = None" using H g by (simp add: hdrs_wf_def)
  then have "bgot s (?a + sizeof_btype) q s'"
    by (intro bgotI [where m = False]) (simp_all add: s' mflag_def)
  moreover have "binv (G(?a \<mapsto> (q, False))) fr s'"
  proof (rule binv_new [OF I g])
    show "buffer_wf s'" using bw l unfolding s' buffer_wf_def by (simp, arith)
    show "block_wf s' ?a q False" using bw q by (simp add: block_wf_def s' buffer_wf_def)
  qed (simp_all add: s' far mflag_def)
  ultimately show ?thesis by blast
qed

lemma balloc_block_sound:
  assumes I: "binv G fr s" and n: "n \<le> 2 ^ 30" and F: "malloc_fresh s m (blk_size (bclass n))"
  shows "\<exists>r s'. balloc_block m n s = Some (r, s') \<and>
    ((r = 0 \<and> s' = s) \<or>
     (0 \<le> n \<and> bgot s r (bclass n) s' \<and> (\<exists>G' fr'. binv G' fr' s')))"
proof (cases "n < 0")
  case True
  then show ?thesis by (simp add: balloc_block_def)
next
  case False
  define q where "q = bclass n"
  have q26: "q \<le> 26" using bclass_least [of n 26] n False by (simp add: q_def)
  have gs: "ballocGetSize n = Some (q, int (blk_size q))"
    using ballocGetSize_ok [of n] n False by (simp add: q_def)
  obtain mr ms where M: "balloc_malloc m (int (blk_size q)) s = (mr, ms)" by force
  have mal: "(mr = 0 \<and> ms = s) \<or> (bgot s mr q ms \<and> (\<exists>G' fr'. binv G' fr' ms))"
    using malloc_sound [OF I F [folded q_def] q26 M] by blast
  show ?thesis
  proof (cases "B_MAX_CLASS \<le> q")
    case True
    then have "balloc_block m n s = Some (mr, ms)"
      using False M by (simp add: balloc_block_def gs)
    then show ?thesis using mal False unfolding q_def by auto
  next
    case small: False
    then have Q: "q < length (bQhead s)" "qchain (b_hdr s) (bQhead s ! q) (fr q)"
      using I by (auto simp: binv_def queues_wf_def)
    show ?thesis
    proof (cases "fr q")
      case (Cons a as)
      then obtain nx where h: "bQhead s ! q = a" "a \<noteq> 0"
        "b_hdr s a = Some \<lparr>bt_u = BNext nx, bt_flags = B_FILL_WORD\<rparr>"
        using Q(2) by auto
      let ?s = "s\<lparr>bQhead := (bQhead s)[q := nx], b_hdr := (b_hdr s)(a \<mapsto> used_hdr (int (blk_size q)) 0)\<rparr>"
      have "balloc_block m n s = Some (a + sizeof_btype, ?s)"
        using False small h Q(1) by (simp add: balloc_block_def gs)
      moreover have "binv G (fr(q := as)) ?s"
        using binv_take [OF I _ Cons h(3)] small by simp
      moreover have "bgot s (a + sizeof_btype) q ?s"
        by (rule bgotI [where m = False]) (simp_all add: mflag_def h(3))
      ultimately show ?thesis using False unfolding q_def by auto
    next
      case Nil
      then have z: "bQhead s ! q = 0" using Q(2) by simp
      show ?thesis
      proof (cases "int (blk_size q) < bFreeLeft s")
        case True
        let ?s = "s\<lparr>bFreeNext := bFreeNext s + blk_size q, bFreeLeft := bFreeLeft s - int (blk_size q),
          b_hdr := (b_hdr s)(bFreeNext s \<mapsto> used_hdr (int (blk_size q)) 0)\<rparr>"
        have "balloc_block m n s = Some (bFreeNext s + sizeof_btype, ?s)"
          using False small z Q(1) True by (simp add: balloc_block_def gs)
        moreover have "bgot s (bFreeNext s + sizeof_btype) q ?s \<and> (\<exists>G'. binv G' fr ?s)"
          using carve_sound [OF I _ True refl] small by simp
        ultimately show ?thesis using False unfolding q_def by auto
      next
        case nocarve: False
        then have "balloc_block m n s = Some (mr, ms)"
          using False small z Q(1) M by (simp add: balloc_block_def gs)
        then show ?thesis using mal False unfolding q_def by auto
      qed
    qed
  qed
qed

lemma balloc_opened: "bFreeBuf s \<noteq> 0 \<Longrightarrow> balloc m0 m n s = balloc_block m n s"
  by (simp add: balloc_def balloc_open_def)

section \<open>Release\<close>

lemma bfree_unmarked:
  "hdr_of s p = Some h \<Longrightarrow> \<not> has_mark h \<Longrightarrow> bfree p s = Some s"
  by (simp add: bfree_def)

lemma bfree_live:
  assumes I: "binv G fr s" and p: "babs s p = Some xs"
  shows "\<exists>s'. bfree p s = Some s' \<and> (\<exists>G' fr'. binv G' fr' s') \<and> babs s' = (babs s)(p := None) \<and>
    b_mem s' = b_mem s \<and> bFreeBuf s' = bFreeBuf s"
proof -
  obtain a q m where a: "p = a + sizeof_btype" "G a = Some (q, m)"
    "b_hdr s a = Some (used_hdr (int (blk_size q)) (mflag m))"
    using babs_SomeE [OF I p] by metis
  have bw: "buffer_wf s" and W: "blocks_wf G s" and Q: "queues_wf G fr s" and H: "hdrs_wf G fr s"
    using I by (simp_all add: binv_def)
  have w: "block_wf s a q m" using W a(2) unfolding blocks_wf_def by blast
  have h: "hdr_of s p = Some (used_hdr (int (blk_size q)) (mflag m))"
    using a by (simp add: hdr_of_def)
  have out: "a \<notin> set (fr k)" if k: "k < B_MAX_CLASS" for k
  proof
    assume "a \<in> set (fr k)"
    then obtain nx where "b_hdr s a = Some \<lparr>bt_u = BNext nx, bt_flags = B_FILL_WORD\<rparr>"
      using Q k qchain_free unfolding queues_wf_def by blast
    then show False using a(3) mark_simps(3) mark_mflag(1) by (metis option.inject)
  qed
  have q26: "q \<le> 26" using w by (auto simp: block_wf_def B_MAX_CLASS_def split: if_splits)
  have "(2 :: int) ^ (4 + q) \<le> 2 ^ 30" by (rule power_increasing) (use q26 in simp_all)
  then have gs: "ballocGetSize (2 ^ (4 + q)) = Some (q, int (blk_size q))"
    using ballocGetSize_ok [of "2 ^ (4 + q)"] by (simp only: bclass_power) simp
  show ?thesis
  proof (cases m)
    case True
    let ?s = "s\<lparr>b_hdr := (b_hdr s)(a := None), b_freed := b_freed s @ [a]\<rparr>"
    have "bfree p s = Some ?s"
      using True by (simp add: bfree_def h gs del: power_add) (simp add: a(1))
    moreover have "babs ?s = (babs s)(p := None)"
      using babs_upd [of ?s s a None] by (simp add: a(1))
    moreover have "binv (G(a := None)) fr ?s"
    proof (rule binvI)
      show "buffer_wf ?s" using bw by (simp add: buffer_wf_def)
      show "blocks_wf (G(a := None)) ?s"
        using W unfolding blocks_wf_def by (auto simp: block_wf_def)
      show "queues_wf (G(a := None)) fr ?s"
        using Q out by (auto simp: queues_wf_def qchain_upd)
      show "hdrs_wf (G(a := None)) fr ?s" using H by (auto simp: hdrs_wf_def)
    qed
    ultimately show ?thesis by auto
  next
    case False
    then have q: "q < B_MAX_CLASS" and a0: "a \<noteq> 0" using w by (simp_all add: block_wf_def)
    have L: "length (bQhead s) = B_MAX_CLASS" using Q by (simp add: queues_wf_def)
    let ?h = "\<lparr>bt_u = BNext (bQhead s ! q), bt_flags = B_FILL_WORD\<rparr>"
    let ?s = "s\<lparr>bQhead := (bQhead s)[q := a], b_hdr := (b_hdr s)(a \<mapsto> ?h)\<rparr>"
    have "bfree p s = Some ?s"
      using False q L by (simp add: bfree_def h gs del: power_add) (simp add: a(1))
    moreover have "babs ?s = (babs s)(p := None)"
      using babs_upd [of ?s s a "Some ?h"] by (simp add: a(1))
    moreover have "binv G (fr(q := a # fr q)) ?s"
    proof (rule binvI)
      show "buffer_wf ?s" using bw by (simp add: buffer_wf_def)
      show "blocks_wf G ?s" using W unfolding blocks_wf_def by (auto simp: block_wf_def)
      show "queues_wf G (fr(q := a # fr q)) ?s"
        unfolding queues_wf_def
      proof (intro conjI allI impI)
        show "length (bQhead ?s) = B_MAX_CLASS" using L by simp
        fix k assume k: "k < B_MAX_CLASS"
        have k': "qchain (b_hdr s) (bQhead s ! k) (fr k) \<and> distinct (fr k) \<and>
          (\<forall>b\<in>set (fr k). G b = Some (k, False))" using Q k unfolding queues_wf_def by blast
        then show "qchain (b_hdr ?s) (bQhead ?s ! k) ((fr(q := a # fr q)) k)"
          using out [OF k] L k a0 by (cases "k = q") (auto simp: qchain_upd)
        show "distinct ((fr(q := a # fr q)) k)" using k' out [OF k] by (cases "k = q") simp_all
        show "\<forall>b\<in>set ((fr(q := a # fr q)) k). G b = Some (k, False)"
          using k' a(2) False by auto
      qed
      show "hdrs_wf G (fr(q := a # fr q)) ?s"
        unfolding hdrs_wf_def
      proof (intro conjI allI impI)
        fix b assume "G b = None"
        then show "b_hdr ?s b = None" using H a(2) by (auto simp: hdrs_wf_def)
      next
        fix b r j assume g: "G b = Some (r, j)"
        show "(\<not> j \<and> b \<in> set ((fr(q := a # fr q)) r)) \<or>
          b_hdr ?s b = Some (used_hdr (int (blk_size r)) (mflag j))"
        proof (cases "b = a")
          case True
          then show ?thesis using g a(2) False by simp
        next
          case ne: False
          have "(\<not> j \<and> b \<in> set (fr r)) \<or> b_hdr s b = Some (used_hdr (int (blk_size r)) (mflag j))"
            using H g unfolding hdrs_wf_def by blast
          then show ?thesis using ne by auto
        qed
      qed
    qed
    ultimately show ?thesis by auto
  qed
qed

section \<open>The bytes of an object\<close>

lemma binv_mem [simp]: "binv G fr (s\<lparr>b_mem := f\<rparr>) = binv G fr s"
  by (simp add: binv_def buffer_wf_def blocks_wf_def block_wf_def queues_wf_def hdrs_wf_def)

lemma get_put_same:
  "i + length ys \<le> n \<Longrightarrow> get_bytes (put_bytes (p + i) ys f) p n =
    take i (get_bytes f p n) @ ys @ drop (i + length ys) (get_bytes f p n)"
  by (rule nth_equalityI) (auto simp: get_bytes_def put_bytes_def nth_append add.commute)

lemma get_put_apart:
  "apart p n a k \<Longrightarrow> a \<le> b \<Longrightarrow> b + length ys \<le> a + k \<Longrightarrow>
    get_bytes (put_bytes b ys f) p n = get_bytes f p n"
  by (auto simp: get_bytes_def put_bytes_def apart_def)

lemma babs_put:
  assumes I: "binv G fr s" and p: "babs s p = Some xs" and i: "i + length ys \<le> length xs"
  shows "babs (s\<lparr>b_mem := put_bytes (p + i) ys (b_mem s)\<rparr>) =
    (babs s)(p \<mapsto> take i xs @ ys @ drop (i + length ys) xs)"
proof (rule ext)
  fix r
  let ?f = "put_bytes (p + i) ys (b_mem s)"
  let ?s = "s\<lparr>b_mem := ?f\<rparr>"
  have I': "binv G fr ?s" using I by simp
  have hd: "hdr_of ?s = hdr_of s" by (simp add: hdr_of_def fun_eq_iff)
  have v: "babs ?s r = map_option (\<lambda>zs. get_bytes ?f r (length zs)) (babs s r)" for r
    by (simp add: babs_def obj_of_def hd option.map_comp comp_def split: option.split)
  show "babs ?s r = ((babs s)(p \<mapsto> take i xs @ ys @ drop (i + length ys) xs)) r"
  proof (cases "babs s r")
    case None
    then show ?thesis using v [of r] p by auto
  next
    case (Some zs)
    have zs: "zs = get_bytes (b_mem s) r (length zs)"
      using babs_SomeE [OF I Some] by (metis length_get_bytes)
    show ?thesis
    proof (cases "r = p")
      case True
      then have "zs = xs" using Some p by simp
      then show ?thesis using v [of r] Some True i zs by (simp add: get_put_same)
    next
      case False
      have "apart r (length zs) p (length xs)" by (rule babs_apart [OF I Some p False])
      then have "get_bytes ?f r (length zs) = get_bytes (b_mem s) r (length zs)"
        by (rule get_put_apart) (use i in simp_all)
      then show ?thesis using v [of r] Some False zs by simp
    qed
  qed
qed

section \<open>Scripts of operations, and the heap they implement\<close>

text \<open>
  A client's operations; \<^term>\<open>BWrite\<close> is its own store into an object. The address is
  what \<^verbatim>\<open>malloc\<close> would return.
\<close>

datatype bop = BAlloc addr int | BFree addr | BWrite addr nat u8 | BRealloc addr addr int
  | BStrdup addr "u8 list option"

definition str_of :: "u8 list option \<Rightarrow> u8 list" where
  "str_of str = (case str of None \<Rightarrow> [] | Some cs \<Rightarrow> cs)"

fun bop_step :: "bop \<Rightarrow> bstate \<Rightarrow> (addr \<times> bstate) option" where
  "bop_step (BAlloc m n) s = balloc 0 m n s"
| "bop_step (BFree p) s = map_option (Pair 0) (bfreeSafe p s)"
| "bop_step (BWrite p i b) s = Some (0, s\<lparr>b_mem := put_bytes (p + i) [b] (b_mem s)\<rparr>)"
| "bop_step (BRealloc m p n) s = brealloc 0 m p n s"
| "bop_step (BStrdup m str) s = bstrdup 0 m str s"

definition size_ok :: "bstate \<Rightarrow> addr \<Rightarrow> int \<Rightarrow> bool" where
  "size_ok s m n \<longleftrightarrow> n \<le> 2 ^ 30 \<and> malloc_fresh s m (blk_size (bclass n))"

text \<open>
  What the client keeps to: a pointer it frees was allocated, and may have been freed
  since; it writes inside its objects and reallocates them only.
\<close>

fun bop_ok :: "bstate \<Rightarrow> bop \<Rightarrow> bool" where
  "bop_ok s (BAlloc m n) \<longleftrightarrow> size_ok s m n"
| "bop_ok s (BFree p) \<longleftrightarrow> p = 0 \<or> hdr_of s p \<noteq> None"
| "bop_ok s (BWrite p i b) \<longleftrightarrow> (case babs s p of None \<Rightarrow> False | Some xs \<Rightarrow> i < length xs)"
| "bop_ok s (BRealloc m p n) \<longleftrightarrow> (p = 0 \<or> babs s p \<noteq> None) \<and> size_ok s m n"
| "bop_ok s (BStrdup m str) \<longleftrightarrow> size_ok s m (int (length (str_of str)) + 1)"

text \<open>The specification: a heap of byte arrays.\<close>

inductive astep ::
  "(addr \<Rightarrow> u8 list option) \<Rightarrow> bop \<Rightarrow> addr \<Rightarrow> (addr \<Rightarrow> u8 list option) \<Rightarrow> bool" where
  alloc_null: "astep A (BAlloc m n) 0 A"
| alloc: "r \<noteq> 0 \<Longrightarrow> A r = None \<Longrightarrow> n \<le> int (length xs) \<Longrightarrow> astep A (BAlloc m n) r (A(r \<mapsto> xs))"
| free_live: "A p = Some xs \<Longrightarrow> astep A (BFree p) 0 (A(p := None))"
| free_dead: "A p = None \<Longrightarrow> astep A (BFree p) 0 A"
| store: "A p = Some xs \<Longrightarrow> i < length xs \<Longrightarrow> astep A (BWrite p i b) 0 (A(p \<mapsto> xs[i := b]))"
| realloc_null: "astep A (BAlloc m n) r A' \<Longrightarrow> astep A (BRealloc m 0 n) r A'"
| realloc_keep: "A p = Some xs \<Longrightarrow> n \<le> int (length xs) \<Longrightarrow> astep A (BRealloc m p n) p A"
| realloc_fail: "A p = Some xs \<Longrightarrow> int (length xs) < n \<Longrightarrow> astep A (BRealloc m p n) 0 A"
| realloc_move: "A p = Some xs \<Longrightarrow> int (length xs) < n \<Longrightarrow> r \<noteq> 0 \<Longrightarrow> A r = None \<Longrightarrow>
    n \<le> int (length (xs @ ys)) \<Longrightarrow> astep A (BRealloc m p n) r (A(p := None, r \<mapsto> xs @ ys))"
| strdup_null: "astep A (BStrdup m str) 0 A"
| strdup: "r \<noteq> 0 \<Longrightarrow> A r = None \<Longrightarrow> astep A (BStrdup m str) r (A(r \<mapsto> str_of str @ [0] @ ys))"

inductive_cases astep_allocE: "astep A (BAlloc m n) r A'"

fun brun :: "bop list \<Rightarrow> bstate \<Rightarrow> (addr list \<times> bstate) option" where
  "brun [] s = Some ([], s)"
| "brun (op # ops) s = do {
     (r, s) \<leftarrow> bop_step op s;
     (rs, s) \<leftarrow> brun ops s;
     Some (r # rs, s) }"

fun bops_ok :: "bstate \<Rightarrow> bop list \<Rightarrow> bool" where
  "bops_ok s [] \<longleftrightarrow> True"
| "bops_ok s (op # ops) \<longleftrightarrow> bop_ok s op \<and>
     (case bop_step op s of None \<Rightarrow> True | Some (r, s') \<Rightarrow> bops_ok s' ops)"

inductive aruns ::
  "(addr \<Rightarrow> u8 list option) \<Rightarrow> bop list \<Rightarrow> addr list \<Rightarrow> (addr \<Rightarrow> u8 list option) \<Rightarrow> bool" where
  aruns_nil: "aruns A [] [] A"
| aruns_cons: "astep A op r A' \<Longrightarrow> aruns A' ops rs A'' \<Longrightarrow> aruns A (op # ops) (r # rs) A''"

lemma binv_open: "binv G fr s \<Longrightarrow> bFreeBuf s \<noteq> 0"
  by (simp add: binv_def buffer_wf_def)

lemma balloc_sound:
  assumes I: "binv G fr s" and ok: "size_ok s m n"
  shows "\<exists>r s'. balloc m0 m n s = Some (r, s') \<and>
    ((r = 0 \<and> s' = s) \<or> (0 \<le> n \<and> bgot s r (bclass n) s' \<and> (\<exists>G' fr'. binv G' fr' s')))"
  using balloc_block_sound [OF I] ok by (simp add: balloc_opened [OF binv_open [OF I]] size_ok_def)

lemma bgot_length:
  "0 \<le> n \<Longrightarrow> bgot s r (bclass n) s' \<Longrightarrow> n \<le> int (length (get_bytes (b_mem s) r (2 ^ (4 + bclass n))))"
  using bclass_fits [of n] by simp

lemma step_alloc:
  assumes I: "binv G fr s" and ok: "size_ok s m n"
  shows "\<exists>r s'. balloc m0 m n s = Some (r, s') \<and> astep (babs s) (BAlloc m n) r (babs s') \<and>
    (\<exists>G' fr'. binv G' fr' s')"
proof -
  obtain r s' where b: "balloc m0 m n s = Some (r, s')"
    and c: "(r = 0 \<and> s' = s) \<or> (0 \<le> n \<and> bgot s r (bclass n) s' \<and> (\<exists>G' fr'. binv G' fr' s'))"
    using balloc_sound [OF I ok] by blast
  from c show ?thesis
  proof
    assume "r = 0 \<and> s' = s"
    then show ?thesis using b I astep.alloc_null by auto
  next
    assume g: "0 \<le> n \<and> bgot s r (bclass n) s' \<and> (\<exists>G' fr'. binv G' fr' s')"
    then have "astep (babs s) (BAlloc m n) r (babs s')"
      using bgot_length [of n s r s'] unfolding bgot_def by (metis astep.alloc)
    then show ?thesis using b g by blast
  qed
qed

lemma step_strdup:
  assumes I: "binv G fr s" and ok: "size_ok s m (int (length (str_of str)) + 1)"
  shows "\<exists>r s'. bstrdup m0 m str s = Some (r, s') \<and> astep (babs s) (BStrdup m str) r (babs s') \<and>
    (\<exists>G' fr'. binv G' fr' s')"
proof -
  let ?n = "int (length (str_of str)) + 1" and ?cs = "str_of str @ [0]"
  obtain r s1 where b: "balloc m0 m ?n s = Some (r, s1)"
    and c: "(r = 0 \<and> s1 = s) \<or> (0 \<le> ?n \<and> bgot s r (bclass ?n) s1 \<and> (\<exists>G' fr'. binv G' fr' s1))"
    using balloc_sound [OF I ok] by blast
  let ?s2 = "if r \<noteq> 0 then s1\<lparr>b_mem := put_bytes r ?cs (b_mem s1)\<rparr> else s1"
  have e: "bstrdup m0 m str s = Some (r, ?s2)"
    using b by (simp add: bstrdup_def str_of_def)
  from c show ?thesis
  proof
    assume "r = 0 \<and> s1 = s"
    then show ?thesis using e I astep.strdup_null by auto
  next
    assume g: "0 \<le> ?n \<and> bgot s r (bclass ?n) s1 \<and> (\<exists>G' fr'. binv G' fr' s1)"
    then obtain G' fr' where I1: "binv G' fr' s1" by blast
    let ?xs = "get_bytes (b_mem s) r (2 ^ (4 + bclass ?n))"
    have r: "r \<noteq> 0" "babs s r = None" "babs s1 = (babs s)(r \<mapsto> ?xs)" using g by (simp_all add: bgot_def)
    have "?n \<le> int (length ?xs)" using bgot_length [of ?n s r s1] g by blast
    then have "int (length ?cs) \<le> int (length ?xs)" by (simp del: length_get_bytes)
    then have l: "0 + length ?cs \<le> length ?xs" by (simp only: of_nat_le_iff add_0)
    have "babs s1 r = Some ?xs" using r(3) by simp
    from babs_put [OF I1 this l]
    have "babs ?s2 = (babs s)(r \<mapsto> str_of str @ [0] @ drop (length ?cs) ?xs)"
      using r by simp
    moreover have "binv G' fr' ?s2" using I1 r(1) by simp
    ultimately show ?thesis
      using e astep.strdup [where A = "babs s" and str = str and m = m and r = r, OF r(1,2)] I1 by metis
  qed
qed

lemma step_free:
  assumes I: "binv G fr s" and ok: "bop_ok s (BFree p)"
  shows "\<exists>s'. bfreeSafe p s = Some s' \<and> astep (babs s) (BFree p) 0 (babs s') \<and>
    (\<exists>G' fr'. binv G' fr' s')"
proof (cases "babs s p")
  case (Some xs)
  then have "p \<noteq> 0" by (cases "p = 0") (simp_all add: babs_def hdr_of_def sizeof_btype_def)
  then have e: "bfreeSafe p s = bfree p s" by (simp add: bfreeSafe_def)
  have "astep (babs s) (BFree p) 0 ((babs s)(p := None))"
    by (rule astep.free_live [where A = "babs s", OF Some])
  then show ?thesis using bfree_live [OF I Some] unfolding e by metis
next
  case None
  have "bfreeSafe p s = Some s"
  proof (cases "p = 0")
    case False
    then obtain h where h: "hdr_of s p = Some h" using ok by auto
    have "\<not> has_mark h"
    proof
      assume m: "has_mark h"
      have "b_hdr s (p - sizeof_btype) = Some h" using h by (auto simp: hdr_of_def split: if_splits)
      from binv_marked [OF I this m] obtain q j where "h = used_hdr (int (blk_size q)) (mflag j)" .
      then show False using None h by (simp add: babs_def)
    qed
    then show ?thesis using False bfree_unmarked [OF h] by (simp add: bfreeSafe_def)
  qed (simp add: bfreeSafe_def)
  then show ?thesis using astep.free_dead [where A = "babs s", OF None] I by auto
qed

lemma step_store:
  assumes I: "binv G fr s" and ok: "bop_ok s (BWrite p i b)"
  shows "astep (babs s) (BWrite p i b) 0 (babs (s\<lparr>b_mem := put_bytes (p + i) [b] (b_mem s)\<rparr>))"
proof -
  obtain xs where xs: "babs s p = Some xs" "i < length xs" using ok by (auto split: option.splits)
  have "babs (s\<lparr>b_mem := put_bytes (p + i) [b] (b_mem s)\<rparr>) = (babs s)(p \<mapsto> xs[i := b])"
    using babs_put [OF I xs(1), of i "[b]"] xs(2) by (simp add: upd_conv_take_nth_drop)
  then show ?thesis using astep.store [where A = "babs s", OF xs] by simp
qed

lemma realloc_moved:
  assumes I: "binv G fr s" and p: "babs s p = Some xs" and l: "int (length xs) < n"
    and ok: "size_ok s m n" and b: "balloc m0 m n s = Some (r, s1)" and r: "r \<noteq> 0"
  shows "\<exists>s' ys. bfree p (s1\<lparr>b_mem := put_bytes r (get_bytes (b_mem s1) p (length xs)) (b_mem s1)\<rparr>)
      = Some s' \<and> (\<exists>G' fr'. binv G' fr' s') \<and> babs s r = None \<and> n \<le> int (length (xs @ ys)) \<and>
      babs s' = (babs s)(p := None, r \<mapsto> xs @ ys)"
proof -
  from balloc_sound [OF I ok, of m0] b r
  have g: "0 \<le> n" "bgot s r (bclass n) s1" and "\<exists>G' fr'. binv G' fr' s1" by auto
  then obtain G1 f1 where I1: "binv G1 f1 s1" by blast
  let ?zs = "get_bytes (b_mem s) r (2 ^ (4 + bclass n))"
  let ?s2 = "s1\<lparr>b_mem := put_bytes r (get_bytes (b_mem s1) p (length xs)) (b_mem s1)\<rparr>"
  have n: "n \<le> int (length ?zs)" by (rule bgot_length [OF g])
  have ab: "babs s1 = (babs s)(r \<mapsto> ?zs)" "babs s r = None" "b_mem s1 = b_mem s"
    using g(2) by (simp_all add: bgot_def)
  have xs: "get_bytes (b_mem s1) p (length xs) = xs"
    using babs_SomeE [OF I p] ab(3) by (metis length_get_bytes)
  have ne: "p \<noteq> r" using p ab(2) by auto
  have "0 + length xs \<le> length ?zs" using n l by linarith
  moreover have "babs s1 r = Some ?zs" using ab(1) by simp
  ultimately have "babs (s1\<lparr>b_mem := put_bytes (r + 0) xs (b_mem s1)\<rparr>) =
      (babs s1)(r \<mapsto> take 0 ?zs @ xs @ drop (0 + length xs) ?zs)"
    using babs_put [OF I1] by blast
  then have a2: "babs ?s2 = (babs s)(r \<mapsto> xs @ drop (length xs) ?zs)"
    by (simp only: xs ab(1) add_0_right add_0 take_0 append_Nil fun_upd_upd)
  have I2: "binv G1 f1 ?s2" using I1 by simp
  have "babs ?s2 p = Some xs" using a2 p ne by simp
  then obtain s' where s': "bfree p ?s2 = Some s'" "\<exists>G' fr'. binv G' fr' s'"
    "babs s' = (babs ?s2)(p := None)" using bfree_live [OF I2] by blast
  have "babs s' = (babs s)(p := None, r \<mapsto> xs @ drop (length xs) ?zs)"
    using s'(3) a2 ne by (simp only:) (rule fun_upd_twist, simp)
  moreover have "n \<le> int (length (xs @ drop (length xs) ?zs))"
    using n l by (simp del: length_get_bytes)
  ultimately show ?thesis using s'(1,2) ab(2) by blast
qed

lemma hdr_size_babs:
  assumes "binv G fr s" "babs s p = Some xs"
  shows "p \<noteq> 0 \<and> (\<exists>h. hdr_of s p = Some h \<and> hdr_size h = Some (int (length xs)))"
proof -
  obtain a q m where a: "p = a + sizeof_btype" "b_hdr s a = Some (used_hdr (int (blk_size q)) (mflag m))"
    "length xs = 2 ^ (4 + q)" using babs_SomeE [OF assms] by (metis length_get_bytes)
  then have "hdr_of s p = Some (used_hdr (int (blk_size q)) (mflag m))" "p \<noteq> 0"
    by (simp_all add: hdr_of_def sizeof_btype_def)
  then show ?thesis using a(3) by simp
qed

lemma step_realloc:
  assumes I: "binv G fr s" and ok: "bop_ok s (BRealloc m p n)"
  shows "\<exists>r s'. brealloc m0 m p n s = Some (r, s') \<and> astep (babs s) (BRealloc m p n) r (babs s') \<and>
    (\<exists>G' fr'. binv G' fr' s')"
proof (cases "p = 0")
  case True
  have sz: "size_ok s m n" using ok by simp
  from step_alloc [OF I sz, of m0] show ?thesis
    by (auto simp: brealloc_def True intro: astep.realloc_null)
next
  case False
  have sz: "size_ok s m n" using ok by simp
  obtain xs where xs: "babs s p = Some xs" using ok False by auto
  obtain h where h: "hdr_of s p = Some h" "hdr_size h = Some (int (length xs))"
    using hdr_size_babs [OF I xs] by blast
  show ?thesis
  proof (cases "n \<le> int (length xs)")
    case True
    then show ?thesis using astep.realloc_keep [where A = "babs s", OF xs True] I False h by (auto simp: brealloc_def)
  next
    case lt: False
    then have l: "int (length xs) < n" by simp
    obtain r s1 where b: "balloc m0 m n s = Some (r, s1)" "r = 0 \<longrightarrow> s1 = s"
      using balloc_sound [OF I sz, of m0] by (auto simp: bgot_def)
    show ?thesis
    proof (cases "r = 0")
      case True
      then have "brealloc m0 m p n s = Some (0, s)" using False h lt b by (simp add: brealloc_def)
      then show ?thesis using astep.realloc_fail [where A = "babs s", OF xs l] I by blast
    next
      case r: False
      obtain s' ys where m: "bfree p (s1\<lparr>b_mem := put_bytes r (get_bytes (b_mem s1) p (length xs)) (b_mem s1)\<rparr>)
          = Some s'" "\<exists>G' fr'. binv G' fr' s'" "babs s r = None" "n \<le> int (length (xs @ ys))"
          "babs s' = (babs s)(p := None, r \<mapsto> xs @ ys)"
        using realloc_moved [OF I xs l sz b(1) r] by blast
      have "brealloc m0 m p n s = Some (r, s')"
        using False h lt b r m(1) by (simp add: brealloc_def Let_def)
      moreover have "astep (babs s) (BRealloc m p n) r (babs s')"
        unfolding m(5) by (rule astep.realloc_move [where A = "babs s", OF xs l r m(3,4)])
      ultimately show ?thesis using m(2) by blast
    qed
  qed
qed

lemma bop_sound:
  assumes I: "binv G fr s" and ok: "bop_ok s op"
  shows "\<exists>r s'. bop_step op s = Some (r, s') \<and> astep (babs s) op r (babs s') \<and>
    (\<exists>G' fr'. binv G' fr' s')"
proof (cases op)
  case (BAlloc m n)
  then show ?thesis using step_alloc [OF I] ok by simp
next
  case (BFree p)
  then show ?thesis using step_free [OF I] ok by (auto simp del: bop_ok.simps)
next
  case (BWrite p i b)
  then show ?thesis using step_store [OF I] ok I by (auto simp del: bop_ok.simps)
next
  case (BRealloc m p n)
  then show ?thesis using step_realloc [OF I] ok by (simp del: bop_ok.simps)
next
  case (BStrdup m str)
  then show ?thesis using step_strdup [OF I] ok by simp
qed

lemma brun_sound:
  "binv G fr s \<Longrightarrow> bops_ok s ops \<Longrightarrow> \<exists>rs s'. brun ops s = Some (rs, s') \<and>
     aruns (babs s) ops rs (babs s') \<and> (\<exists>G' fr'. binv G' fr' s')"
proof (induction ops arbitrary: G fr s)
  case Nil
  then show ?case using aruns_nil by auto
next
  case (Cons op ops)
  have ok: "bop_ok s op" using Cons.prems(2) by simp
  obtain r s1 G1 f1 where s1: "bop_step op s = Some (r, s1)" "astep (babs s) op r (babs s1)"
    "binv G1 f1 s1" using bop_sound [OF Cons.prems(1) ok] by blast
  have "bops_ok s1 ops" using Cons.prems(2) s1(1) by simp
  then obtain rs s' where "brun ops s1 = Some (rs, s')" "aruns (babs s1) ops rs (babs s')"
    "\<exists>G' fr'. binv G' fr' s'" using Cons.IH [OF s1(3)] by blast
  then show ?case using s1(1,2) aruns_cons by fastforce
qed

section \<open>Room in the buffer\<close>

text \<open>The most that an operation takes from the buffer.\<close>

fun bneed :: "bop \<Rightarrow> int" where
  "bneed (BAlloc m n) = int (blk_size (bclass n))"
| "bneed (BRealloc m p n) = int (blk_size (bclass n))"
| "bneed (BStrdup m str) = int (blk_size (bclass (int (length (str_of str)) + 1)))"
| "bneed (BFree p) = 0"
| "bneed (BWrite p i b) = 0"

text \<open>A request of 0 to 65536 bytes.\<close>

fun basks :: "bop \<Rightarrow> int option" where
  "basks (BAlloc m n) = Some n"
| "basks (BRealloc m p n) = Some n"
| "basks (BStrdup m str) = Some (int (length (str_of str)) + 1)"
| "basks (BFree p) = None"
| "basks (BWrite p i b) = None"

definition in_class :: "int \<Rightarrow> bool" where
  "in_class n \<longleftrightarrow> 0 \<le> n \<and> n \<le> 65536"

lemma balloc_room:
  assumes "bFreeBuf s \<noteq> 0" "in_class n" "int (blk_size (bclass n)) < bFreeLeft s"
    and "balloc m0 m n s = Some (r, s')"
  shows "r \<noteq> 0 \<and> bFreeLeft s - int (blk_size (bclass n)) \<le> bFreeLeft s'"
proof -
  have n: "0 \<le> n" "n \<le> 2 ^ (4 + 12)" using assms(2) by (simp_all add: in_class_def)
  have q: "bclass n < B_MAX_CLASS" using bclass_least [OF n] by (simp add: B_MAX_CLASS_def)
  have gs: "ballocGetSize n = Some (bclass n, int (blk_size (bclass n)))"
    by (rule ballocGetSize_ok) (use n in simp_all)
  have E: "\<forall>k. u \<noteq> BSize k \<Longrightarrow> \<exists>a. u = BNext a" for u by (cases u) auto
  show ?thesis
    using assms(3,4) n(1) q unfolding balloc_opened [OF assms(1)]
    by (auto simp: balloc_block_def gs sizeof_btype_def Option.bind_eq_Some_conv
        split: if_splits btype_u.split_asm dest!: E)
qed

lemma bfree_left: "bfree p s = Some s' \<Longrightarrow> bFreeLeft s' = bFreeLeft s"
  by (auto simp: bfree_def Let_def Option.bind_eq_Some_conv split: if_splits)

lemma bop_room:
  assumes I: "binv G fr s" and c: "\<And>n. basks op = Some n \<Longrightarrow> in_class n"
    and l: "bneed op < bFreeLeft s" and b: "bop_step op s = Some (r, s')"
  shows "(basks op \<noteq> None \<longrightarrow> r \<noteq> 0) \<and> bFreeLeft s - bneed op \<le> bFreeLeft s'"
proof (cases op)
  case (BAlloc m n)
  then show ?thesis using balloc_room [OF binv_open [OF I], of n 0 m r s'] c l b by simp
next
  case (BFree p)
  then show ?thesis using b bfree_left by (auto simp: bfreeSafe_def split: if_splits)
next
  case (BWrite p i v)
  then show ?thesis using b by auto
next
  case (BStrdup m str)
  let ?n = "int (length (str_of str)) + 1"
  obtain s1 where s1: "balloc 0 m ?n s = Some (r, s1)" "bFreeLeft s' = bFreeLeft s1"
    using b BStrdup by (auto simp: bstrdup_def str_of_def Let_def Option.bind_eq_Some_conv)
  show ?thesis using balloc_room [OF binv_open [OF I] _ _ s1(1)] c l s1(2) BStrdup by simp
next
  case (BRealloc m p n)
  have n: "in_class n" "int (blk_size (bclass n)) < bFreeLeft s" using c l BRealloc by simp_all
  have "brealloc 0 m p n s = Some (r, s')" using b BRealloc by simp
  then consider "p \<noteq> 0" "r = p" "s' = s"
    | s1 where "balloc 0 m n s = Some (r, s1)" "r \<noteq> 0 \<longrightarrow> bFreeLeft s' = bFreeLeft s1"
    | s1 where "balloc 0 m n s = Some (0, s1)"
    by (auto simp: brealloc_def Let_def Option.bind_eq_Some_conv dest!: bfree_left split: if_splits)
  then show ?thesis
  proof cases
    case 1
    then show ?thesis using BRealloc by simp
  next
    case (2 s1)
    show ?thesis using balloc_room [OF binv_open [OF I] n 2(1)] 2(2) BRealloc by simp
  next
    case (3 s1)
    then show ?thesis using balloc_room [OF binv_open [OF I] n 3(1)] by simp
  qed
qed

lemma brun_room:
  "binv G fr s \<Longrightarrow> bops_ok s ops \<Longrightarrow> \<forall>op \<in> set ops. \<forall>n. basks op = Some n \<longrightarrow> in_class n \<Longrightarrow>
    sum_list (map bneed ops) < bFreeLeft s \<Longrightarrow> brun ops s = Some (rs, s') \<Longrightarrow>
    list_all2 (\<lambda>op r. basks op \<noteq> None \<longrightarrow> r \<noteq> 0) ops rs"
proof (induction ops arbitrary: G fr s rs)
  case (Cons op ops)
  have ok: "bop_ok s op" using Cons.prems(2) by simp
  obtain r s1 G1 f1 where s1: "bop_step op s = Some (r, s1)" "binv G1 f1 s1"
    using bop_sound [OF Cons.prems(1) ok] by blast
  obtain rs1 where rs: "brun ops s1 = Some (rs1, s')" "rs = r # rs1"
    using Cons.prems(5) s1(1) by (auto simp: Option.bind_eq_Some_conv)
  have nn: "0 \<le> bneed op" for op by (cases op) simp_all
  have "0 \<le> sum_list (map bneed ops)" by (rule sum_list_nonneg) (use nn in auto)
  then have l: "bneed op < bFreeLeft s" using Cons.prems(4) by simp
  have c: "\<And>n. basks op = Some n \<Longrightarrow> in_class n" using Cons.prems(3) by simp
  have R: "(basks op \<noteq> None \<longrightarrow> r \<noteq> 0) \<and> bFreeLeft s - bneed op \<le> bFreeLeft s1"
    by (rule bop_room [OF Cons.prems(1) c l s1(1)])
  have "bops_ok s1 ops" using Cons.prems(2) s1(1) by simp
  moreover have "sum_list (map bneed ops) < bFreeLeft s1" using R Cons.prems(4) by simp
  ultimately have "list_all2 (\<lambda>op r. basks op \<noteq> None \<longrightarrow> r \<noteq> 0) ops rs1"
    using Cons.IH [OF s1(2) _ _ _ rs(1)] Cons.prems(3) by simp
  then show ?case using R rs(2) by simp
qed auto

section \<open>Properties\<close>

lemma bopen_sound:
  assumes "b_hdr s0 = (\<lambda>a. None)" "bopenCount s0 = 0" "0 \<le> n" "bopen m buf n flags s0 = (0, s)"
  shows "binv (\<lambda>a. None) (\<lambda>q. []) s \<and> babs s = (\<lambda>p. None)"
proof -
  let ?b = "if buf = 0 then m else buf"
  have b: "?b \<noteq> 0" using assms(2,4) by (auto simp: bopen_def Let_def split: if_splits)
  have s: "bFreeBuf s = ?b" "bFreeNext s = ?b" "bFreeLeft s = bFreeSize s" "0 \<le> bFreeSize s"
    "bQhead s = replicate B_MAX_CLASS 0" "b_hdr s = (\<lambda>a. None)"
    using assms b by (auto simp: bopen_def Let_def B_DEFAULT_MEM_def split: if_splits)
  have "binv (\<lambda>a. None) (\<lambda>q. []) s"
    by (rule binvI) (use s b in \<open>simp_all add: buffer_wf_def blocks_wf_def queues_wf_def hdrs_wf_def\<close>)
  moreover have "babs s = (\<lambda>p. None)" by (simp add: babs_def hdr_of_def s fun_eq_iff)
  ultimately show ?thesis ..
qed

text \<open>
  C5: The allocator implements a heap of byte arrays: after \<^verbatim>\<open>bopen\<close>, every script of
  allocations, releases (repeated ones of blocks of the buffer included), stores,
  reallocations and string copies succeeds, every step changes the objects as the
  specification says (a new object overlaps nothing and is big enough, the others keep
  their bytes, a reallocation keeps the contents), and no two objects share a byte.
\<close>

theorem balloc_heap:
  assumes "b_hdr s0 = (\<lambda>a. None)" "bopenCount s0 = 0" "0 \<le> n" "bopen m buf n flags s0 = (0, s)"
    and "bops_ok s ops"
  shows "\<exists>rs s'. brun ops s = Some (rs, s') \<and> aruns (\<lambda>p. None) ops rs (babs s') \<and>
    (\<forall>p r xs ys. babs s' p = Some xs \<and> babs s' r = Some ys \<and> p \<noteq> r \<longrightarrow>
       apart p (length xs) r (length ys))"
proof -
  have I: "binv (\<lambda>a. None) (\<lambda>q. []) s" "babs s = (\<lambda>p. None)"
    using bopen_sound [OF assms(1-4)] by blast+
  obtain rs s' G fr where s': "brun ops s = Some (rs, s')" "aruns (babs s) ops rs (babs s')"
    "binv G fr s'" using brun_sound [OF I(1) assms(5)] by blast
  then show ?thesis using I(2) babs_apart [OF s'(3)] by metis
qed

text \<open>
  C28: The layout of the memory is kept by every script: the blocks cut off the buffer
  tile it up to \<^verbatim>\<open>bFreeNext\<close>, the malloced ones lie outside, no two overlap, every block is
  either used, with the size of its class in its header, or in the free queue of its
  class, which is a chain without repetition.
\<close>

theorem balloc_layout:
  assumes "b_hdr s0 = (\<lambda>a. None)" "bopenCount s0 = 0" "0 \<le> n" "bopen m buf n flags s0 = (0, s)"
    and "bops_ok s ops" "brun ops s = Some (rs, s')"
  shows "\<exists>G fr. buffer_wf s' \<and> blocks_wf G s' \<and> queues_wf G fr s' \<and> hdrs_wf G fr s'"
proof -
  have I: "binv (\<lambda>a. None) (\<lambda>q. []) s" using bopen_sound [OF assms(1-4)] by blast
  show ?thesis using brun_sound [OF I assms(5)] assms(6) unfolding binv_def by auto
qed

text \<open>
  C29: No allocation fails while the buffer has room: a script whose requests are of at
  most 65536 bytes and whose blocks, headers included and nothing reused, are smaller
  than the buffer gets a block for every request.
\<close>

theorem balloc_never_null:
  assumes "b_hdr s0 = (\<lambda>a. None)" "bopenCount s0 = 0" "bopen m buf n flags s0 = (0, s)"
    and "bops_ok s ops" "brun ops s = Some (rs, s')"
    and "\<forall>op \<in> set ops. \<forall>k. basks op = Some k \<longrightarrow> in_class k"
    and "0 < n" "sum_list (map bneed ops) < n"
  shows "list_all2 (\<lambda>op r. basks op \<noteq> None \<longrightarrow> r \<noteq> 0) ops rs"
proof -
  have I: "binv (\<lambda>a. None) (\<lambda>q. []) s" using bopen_sound [OF assms(1,2) _ assms(3)] assms(7) by simp
  have "bFreeLeft s = n" using assms(2,3,7) by (auto simp: bopen_def Let_def split: if_splits)
  then show ?thesis by (intro brun_room [OF I assms(4,6) _ assms(5)]) (simp add: assms(8))
qed

text \<open>
  Releasing a block of the buffer and allocating its class again gives the same block
  and restores the state; a second release in between changes nothing.
\<close>

theorem bfree_balloc:
  assumes I: "binv G fr s" and h: "hdr_of s p = Some h" "has_mark h" "bt_flags h AND B_MALLOCED = 0"
    and k: "hdr_size h = Some k" "0 \<le> n" "bclass n = bclass k"
  shows "\<exists>s'. bfree p s = Some s' \<and> bfree p s' = Some s' \<and> babs s' p = None \<and>
    balloc m0 m n s' = Some (p, s)"
proof -
  define a where "a = p - sizeof_btype"
  have p: "p = a + sizeof_btype" and ha: "b_hdr s a = Some h"
    using h(1) by (auto simp: hdr_of_def a_def split: if_splits)
  obtain q j where g: "G a = Some (q, j)" "h = used_hdr (int (blk_size q)) (mflag j)"
    using binv_marked [OF I ha h(2)] .
  have j: "\<not> j" using h(3) g(2) by simp
  have w: "block_wf s a q j" using I g(1) unfolding binv_def blocks_wf_def by blast
  have q: "q < B_MAX_CLASS" and a0: "a \<noteq> 0" using w j by (simp_all add: block_wf_def)
  have L: "length (bQhead s) = B_MAX_CLASS" using I by (simp add: binv_def queues_wf_def)
  have k': "k = 2 ^ (4 + q)" using k(1) g(2) by simp
  then have c: "bclass n = q" using k(3) by (simp only: bclass_power)
  have "(2 :: int) ^ (4 + q) \<le> 2 ^ 30" by (rule power_increasing) (use q in \<open>simp_all add: B_MAX_CLASS_def\<close>)
  then have gs: "ballocGetSize k = Some (q, int (blk_size q))"
    using ballocGetSize_ok [of k] unfolding k' by (simp only: bclass_power) simp
  have gn: "ballocGetSize n = Some (q, int (blk_size q))"
    using k(2) q c by (simp add: ballocGetSize_def B_SHIFT_def B_MAX_CLASS_def)
  let ?h = "\<lparr>bt_u = BNext (bQhead s ! q), bt_flags = B_FILL_WORD\<rparr>"
  let ?s = "s\<lparr>bQhead := (bQhead s)[q := a], b_hdr := (b_hdr s)(a \<mapsto> ?h)\<rparr>"
  have f: "bfree p s = Some ?s"
    using h k(1) q L by (simp add: bfree_def gs) (simp add: p)
  have hs: "hdr_of ?s p = Some ?h" by (simp add: hdr_of_def p)
  have "bfree p ?s = Some ?s" by (rule bfree_unmarked [OF hs]) simp
  moreover have "babs ?s p = None" by (simp add: babs_def hs)
  moreover have "balloc m0 m n ?s = Some (p, s)"
  proof -
    have "bFreeBuf ?s \<noteq> 0" using binv_open [OF I] by simp
    then have "balloc m0 m n ?s = balloc_block m n ?s" by (rule balloc_opened)
    also have "\<dots> = Some (p, ?s\<lparr>bQhead := (bQhead ?s)[q := bQhead s ! q],
        b_hdr := (b_hdr ?s)(a \<mapsto> used_hdr (int (blk_size q)) 0)\<rparr>)"
      using k(2) q L a0 gn by (simp add: balloc_block_def p)
    also have "used_hdr (int (blk_size q)) 0 = h" using g(2) j by (simp add: mflag_def)
    also have "?s\<lparr>bQhead := (bQhead ?s)[q := bQhead s ! q], b_hdr := (b_hdr ?s)(a \<mapsto> h)\<rparr> = s"
      using ha by (simp add: fun_upd_idem)
    finally show ?thesis .
  qed
  ultimately show ?thesis using f by blast
qed

text \<open>
  A caller that gives its own buffer loses it to \<^verbatim>\<open>free\<close> when a second task opens the
  module: \<^verbatim>\<open>bopen\<close> sets the flags before it looks at the count, which forgets that the
  buffer is the caller's.
\<close>

theorem bopen_shared_frees_user_buffer:
  assumes "bopenCount s0 = 0" "buf \<noteq> 0" "f2 AND B_USER_BUF = 0"
    and s1: "s1 = snd (bopen m buf n f1 s0)" and s2: "s2 = snd (bopen m2 buf2 n2 f2 s1)"
  shows "b_freed (bclose s1) = b_freed s0 \<and> b_freed (bclose (bclose s2)) = b_freed s0 @ [buf]"
proof
  have u: "(f OR B_USER_BUF) AND B_USER_BUF \<noteq> 0" for f
  proof
    assume z: "(f OR B_USER_BUF) AND B_USER_BUF = 0"
    have "(f OR B_USER_BUF) AND B_USER_BUF = B_USER_BUF"
      by (rule bit_word_eqI) (auto simp: bit_simps)
    then show False using z by (simp add: B_USER_BUF_def)
  qed
  show "b_freed (bclose s1) = b_freed s0"
    using assms(1,2) u by (simp add: s1 bopen_def bclose_def Let_def)
  show "b_freed (bclose (bclose s2)) = b_freed s0 @ [buf]"
    using assms(1-3) by (simp add: s2 s1 bopen_def bclose_def Let_def)
qed

section \<open>Concrete runs\<close>

text \<open>A buffer of 4096 bytes at address 1024, and a script that uses every operation.\<close>

definition bstate1 :: bstate where
  "bstate1 = snd (bopen 0 1024 4096 0 bstate0)"

definition script1 :: "bop list" where
  "script1 = [BAlloc 0 20, BWrite 1040 3 7, BRealloc 0 1040 100, BFree 1040, BFree 1040,
     BStrdup 0 (Some [65, 66]), BAlloc 0 32]"

lemma bstate1_open: "bopen 0 1024 4096 0 bstate0 = (0, bstate1)"
  by (simp add: bstate1_def bopen_def bstate0_def Let_def)

lemma bstate0_fresh: "b_hdr bstate0 = (\<lambda>a. None)" "bopenCount bstate0 = 0"
  by (simp_all add: bstate0_def)

lemmas balloc_eval = balloc_def balloc_open_def balloc_block_def balloc_malloc_def ballocGetSize_def
  bclass_def mask_bits.simps blk_size_def B_SHIFT_def B_MAX_CLASS_def sizeof_btype_def rd_def
  bstate1_def bstate0_def bopen_def Let_def B_USE_MALLOC_def B_USER_BUF_def

lemmas bfree_eval = bfree_def bfreeSafe_def hdr_of_def has_mark_def hdr_size_def used_hdr_def
  B_INTEGRITY_def B_INTEGRITY_MASK_def B_MALLOCED_def B_FILL_WORD_def brealloc_def bstrdup_def
  size_ok_def babs_def obj_of_def str_of_def

lemma script1_run: "map_option fst (brun script1 bstate1) = Some [1040, 0, 1088, 0, 0, 1232, 1040]"
  by (simp add: script1_def balloc_eval bfree_eval numeral_2_eq_2 [symmetric])

lemma script1_ok: "bops_ok bstate1 script1"
  by (simp add: script1_def balloc_eval bfree_eval)

lemma balloc_heap_witness:
  "\<exists>rs s'. brun script1 bstate1 = Some (rs, s') \<and> aruns (\<lambda>p. None) script1 rs (babs s') \<and>
    (\<forall>p r xs ys. babs s' p = Some xs \<and> babs s' r = Some ys \<and> p \<noteq> r \<longrightarrow>
       apart p (length xs) r (length ys))"
  by (rule balloc_heap [OF bstate0_fresh _ bstate1_open script1_ok]) simp

lemma balloc_layout_witness:
  "\<exists>s' G fr. brun script1 bstate1 = Some ([1040, 0, 1088, 0, 0, 1232, 1040], s') \<and>
    buffer_wf s' \<and> blocks_wf G s' \<and> queues_wf G fr s' \<and> hdrs_wf G fr s'"
proof -
  obtain s' where s': "brun script1 bstate1 = Some ([1040, 0, 1088, 0, 0, 1232, 1040], s')"
    using script1_run by auto
  show ?thesis using s' balloc_layout [OF bstate0_fresh _ bstate1_open script1_ok s'] by simp
qed

lemma balloc_never_null_witness:
  "list_all2 (\<lambda>op r. basks op \<noteq> None \<longrightarrow> r \<noteq> 0) script1 [1040, 0, 1088, 0, 0, 1232, 1040 :: addr]"
proof -
  obtain s' where s': "brun script1 bstate1 = Some ([1040, 0, 1088, 0, 0, 1232, 1040], s')"
    using script1_run by auto
  show ?thesis
    by (rule balloc_never_null [OF bstate0_fresh bstate1_open script1_ok s'])
      (simp_all add: script1_def in_class_def balloc_eval bfree_eval)
qed

definition bstate2 :: bstate where
  "bstate2 = snd (the (balloc 0 0 20 bstate1))"

lemma bstate2_inv: "\<exists>G fr. binv G fr bstate2"
proof -
  have I: "binv (\<lambda>a. None) (\<lambda>q. []) bstate1"
    using bopen_sound [OF bstate0_fresh _ bstate1_open] by simp
  have "size_ok bstate1 0 20" by (simp add: size_ok_def)
  then obtain r s' G fr where "balloc 0 0 20 bstate1 = Some (r, s')" "binv G fr s'"
    using step_alloc [OF I, of 0 20 0] by blast
  then show ?thesis by (auto simp: bstate2_def simp del: mask_bits.simps)
qed

lemma bfree_balloc_witness:
  "\<exists>s'. bfree 1040 bstate2 = Some s' \<and> bfree 1040 s' = Some s' \<and> babs s' 1040 = None \<and>
    balloc 0 0 17 s' = Some (1040, bstate2)"
proof -
  obtain G fr where I: "binv G fr bstate2" using bstate2_inv by blast
  show ?thesis
    by (rule bfree_balloc [OF I, where h = "used_hdr 48 0" and k = 32])
      (simp_all add: bstate2_def balloc_eval bfree_eval)
qed

lemma bopen_shared_frees_user_buffer_witness:
  "b_freed (bclose (snd (bopen 0 1024 4096 0 bstate0))) = [] \<and>
   b_freed (bclose (bclose (snd (bopen 0 0 0 1 (snd (bopen 0 1024 4096 0 bstate0)))))) = [1024]"
  using bopen_shared_frees_user_buffer [OF bstate0_fresh(2), where buf = 1024 and ?f2.0 = 1,
      OF _ _ refl refl, of 0 4096 0 0 0 0]
  by (simp add: B_USER_BUF_def bstate0_def)

end
