(* ===== verification/MesaTimer.thy ===== *)
theory MesaTimer
  imports Prelude "HOL-Library.Multiset"
begin

text \<open>
  The timers of \<^verbatim>\<open>timer/MESA_timer-master/src/MESA_timer.c\<close>: a queue of timers in the
  order of their expiry, or a wheel whose spokes are visited one per tick. A timer is an
  element on the heap, known by its address; the tail queues (\<^verbatim>\<open>TAILQ\<close> macros) are the
  lists of the addresses of their elements, and the removal of an element from a queue
  it is not in is undefined. The union of the queue and the wheel is a datatype.

  The address \<^verbatim>\<open>malloc\<close> returns is an argument; NULL, which the code does not test, is
  undefined. Callbacks are logged with their argument; a callback that calls back into
  the same timer is not modelled. \<^verbatim>\<open>long\<close> has 64 bits.
\<close>

section \<open>Data\<close>

record melem =
  me_expire :: int
  me_rot :: int
  me_cursor :: int
  me_callback :: nat
  me_event :: nat

record mqueue =
  mq_last :: int
  mq_queue :: "addr list"

record mwheel =
  mw_size :: int
  mw_create :: int
  mw_spoke :: int
  mw_last :: int
  mw_spokes :: "addr list list"

datatype mbody = MQueue mqueue | MWheel mwheel

record mtimer =
  mt_body :: mbody
  mt_cnt :: int
  mt_mem :: int
  mt_elems :: "addr \<Rightarrow> melem option"

text \<open>\<^verbatim>\<open>sizeof\<close> of a timer, of an element and of the head of a queue.\<close>

definition sizeof_timer :: int where "sizeof_timer = 64"
definition sizeof_elem :: int where "sizeof_elem = 48"
definition sizeof_TQ :: int where "sizeof_TQ = 16"

definition TM_TYPE_QUEUE :: int where "TM_TYPE_QUEUE = 0"
definition TM_TYPE_WHEEL :: int where "TM_TYPE_WHEEL = 1"
definition MAX_WHEEL_SIZE :: int where "MAX_WHEEL_SIZE = 10000"

section \<open>C arithmetic\<close>

text \<open>An overflow of \<^verbatim>\<open>long\<close> is undefined, the conversion to \<^verbatim>\<open>int\<close> keeps 32 bits, division
  rounds towards 0.\<close>

definition long :: "int \<Rightarrow> int option" where
  "long x = (if - (2 ^ 63) \<le> x \<and> x < 2 ^ 63 then Some x else None)"

definition to_int :: "int \<Rightarrow> int" where
  "to_int x = (x + 2 ^ 31) mod 2 ^ 32 - 2 ^ 31"

definition c_div :: "int \<Rightarrow> int \<Rightarrow> int" where
  "c_div a b = (if a < 0 then - ((- a) div b) else a div b)"

definition c_rem :: "int \<Rightarrow> int \<Rightarrow> int" where
  "c_rem a b = (if a < 0 then - ((- a) mod b) else a mod b)"

section \<open>Creation and destruction\<close>

definition MESA_timer_create :: "int \<Rightarrow> int \<Rightarrow> mtimer option" where
  "MESA_timer_create wheel_size tm_type =
     (if tm_type = TM_TYPE_QUEUE then
        Some \<lparr>mt_body = MQueue \<lparr>mq_last = - 1, mq_queue = []\<rparr>, mt_cnt = 0, mt_mem = sizeof_timer,
          mt_elems = (\<lambda>a. None)\<rparr>
      else if tm_type = TM_TYPE_WHEEL then
        (if wheel_size \<le> 0 \<or> wheel_size > MAX_WHEEL_SIZE then None
         else Some \<lparr>mt_body = MWheel \<lparr>mw_size = wheel_size, mw_create = - 1, mw_spoke = 0, mw_last = - 1,
             mw_spokes = replicate (nat wheel_size) []\<rparr>, mt_cnt = 0,
           mt_mem = sizeof_timer + sizeof_TQ * wheel_size, mt_elems = (\<lambda>a. None)\<rparr>)
      else None)"

text \<open>The elements that are freed, in order; every one must be live once.\<close>

fun free_elems :: "addr list \<Rightarrow> (addr \<Rightarrow> melem option) \<Rightarrow> (addr \<Rightarrow> melem option) option" where
  "free_elems [] h = Some h"
| "free_elems (a # as) h = (case h a of None \<Rightarrow> None | Some e \<Rightarrow> free_elems as (h(a := None)))"

fun free_spokes :: "addr list list \<Rightarrow> (addr \<Rightarrow> melem option) \<Rightarrow> (addr \<Rightarrow> melem option) option" where
  "free_spokes [] h = Some h"
| "free_spokes (q # qs) h = Option.bind (free_elems q h) (free_spokes qs)"

definition MESA_timer_destroy :: "mtimer \<Rightarrow> (addr \<Rightarrow> melem option) option" where
  "MESA_timer_destroy t = (case mt_body t of
     MQueue q \<Rightarrow> free_elems (mq_queue q) (mt_elems t)
   | MWheel w \<Rightarrow> free_spokes (mw_spokes w) (mt_elems t))"

section \<open>Adding\<close>

definition tailq_remove :: "addr \<Rightarrow> addr list \<Rightarrow> addr list option" where
  "tailq_remove a q = (if a \<in> set q then Some (remove1 a q) else None)"

definition queue_last :: "(addr \<Rightarrow> melem option) \<Rightarrow> addr list \<Rightarrow> int option" where
  "queue_last h q = (if q = [] then Some (- 1) else map_option me_expire (h (last q)))"

definition keep_elem :: "addr \<Rightarrow> melem \<Rightarrow> mtimer \<Rightarrow> mtimer" where
  "keep_elem a e t = t\<lparr>mt_elems := (mt_elems t)(a \<mapsto> e), mt_cnt := mt_cnt t + 1,
     mt_mem := mt_mem t + sizeof_elem\<rparr>"

definition drop_elem :: "addr \<Rightarrow> mtimer \<Rightarrow> mtimer" where
  "drop_elem a t = t\<lparr>mt_elems := (mt_elems t)(a := None), mt_cnt := mt_cnt t - 1,
     mt_mem := mt_mem t - sizeof_elem\<rparr>"

definition wheel_start :: "int \<Rightarrow> mwheel \<Rightarrow> mwheel" where
  "wheel_start now w =
     (if mw_last w = - 1 then w\<lparr>mw_create := now, mw_spoke := 0, mw_last := 0\<rparr> else w)"

definition wheel_cursor :: "int \<Rightarrow> int \<Rightarrow> mwheel \<Rightarrow> int option" where
  "wheel_cursor now timeout w = do {
     x \<leftarrow> long (now - mw_create w + c_rem timeout (mw_size w));
     Some (c_rem x (mw_size w)) }"

definition wheel_insert :: "addr \<Rightarrow> int \<Rightarrow> mwheel \<Rightarrow> mwheel option" where
  "wheel_insert a cursor w = do {
     q \<leftarrow> rd (mw_spokes w) cursor;
     qs \<leftarrow> wr (mw_spokes w) cursor (q @ [a]);
     Some (w\<lparr>mw_spokes := qs\<rparr>) }"

text \<open>The fields of the wheel are not set in an element of a queue; they read as 0 here.\<close>

definition MESA_timer_add ::
  "int \<Rightarrow> int \<Rightarrow> nat \<Rightarrow> nat \<Rightarrow> addr \<Rightarrow> mtimer \<Rightarrow> (int \<times> ptr \<times> mtimer) option" where
  "MESA_timer_add now timeout cb ev m t =
     (if now < 0 \<or> timeout < 0 then None
      else do {
        expire \<leftarrow> long (now + timeout);
        case mt_body t of
          MQueue q \<Rightarrow>
            if expire < mq_last q then Some (- 1, None, t)
            else if m = 0 then None
            else Some (0, Some m,
              (keep_elem m \<lparr>me_expire = expire, me_rot = 0, me_cursor = 0, me_callback = cb, me_event = ev\<rparr> t)
              \<lparr>mt_body := MQueue (q\<lparr>mq_last := expire, mq_queue := mq_queue q @ [m]\<rparr>)\<rparr>)
        | MWheel w0 \<Rightarrow>
            if m = 0 then None
            else do {
              let w = wheel_start now w0;
              let rot = to_int (c_div timeout (mw_size w));
              cursor \<leftarrow> wheel_cursor now timeout w;
              w \<leftarrow> wheel_insert m cursor w;
              Some (0, Some m,
                (keep_elem m \<lparr>me_expire = expire, me_rot = rot, me_cursor = cursor, me_callback = cb, me_event = ev\<rparr> t)
                \<lparr>mt_body := MWheel w\<rparr>) } })"

section \<open>Removing\<close>

definition mq_remove :: "addr \<Rightarrow> (addr \<Rightarrow> melem option) \<Rightarrow> mqueue \<Rightarrow> mqueue option" where
  "mq_remove a h q = do {
     as \<leftarrow> tailq_remove a (mq_queue q);
     l \<leftarrow> queue_last h as;
     Some (q\<lparr>mq_queue := as, mq_last := l\<rparr>) }"

definition wheel_remove :: "addr \<Rightarrow> int \<Rightarrow> mwheel \<Rightarrow> mwheel option" where
  "wheel_remove a cursor w = do {
     q \<leftarrow> rd (mw_spokes w) cursor;
     q \<leftarrow> tailq_remove a q;
     qs \<leftarrow> wr (mw_spokes w) cursor q;
     Some (w\<lparr>mw_spokes := qs\<rparr>) }"

definition call_opt :: "nat option \<Rightarrow> nat \<Rightarrow> (nat \<times> nat) list" where
  "call_opt cb para = (case cb of None \<Rightarrow> [] | Some f \<Rightarrow> [(f, para)])"

definition MESA_timer_del ::
  "addr \<Rightarrow> nat option \<Rightarrow> nat \<Rightarrow> mtimer \<Rightarrow> (int \<times> (nat \<times> nat) list \<times> mtimer) option" where
  "MESA_timer_del a cb para t = do {
     e \<leftarrow> mt_elems t a;
     b \<leftarrow> (case mt_body t of
         MQueue q \<Rightarrow> map_option MQueue (mq_remove a (mt_elems t) q)
       | MWheel w \<Rightarrow> map_option MWheel (wheel_remove a (me_cursor e) w));
     Some (me_expire e, call_opt cb para, (drop_elem a t)\<lparr>mt_body := b\<rparr>) }"

section \<open>Checking\<close>

text \<open>The queue: the loop runs over what is left of it.\<close>

fun mq_check :: "int \<Rightarrow> int \<Rightarrow> int \<Rightarrow> addr list \<Rightarrow> mtimer \<Rightarrow>
    (int \<times> (nat \<times> nat) list \<times> addr list \<times> mtimer) option" where
  "mq_check now mx cnt [] t = Some (cnt, [], [], t)"
| "mq_check now mx cnt (a # as) t =
     (if cnt \<ge> mx then Some (cnt, [], a # as, t)
      else do {
        e \<leftarrow> mt_elems t a;
        if now < me_expire e then Some (cnt, [], a # as, t)
        else do {
          (cnt, cs, as, t) \<leftarrow> mq_check now mx (cnt + 1) as (drop_elem a t);
          Some (cnt, (me_callback e, me_event e) # cs, as, t) } })"

text \<open>One spoke: an element with rotations left loses one, the others are called. The flag
  says that the maximum of callbacks was reached.\<close>

fun spoke_check :: "int \<Rightarrow> int \<Rightarrow> addr list \<Rightarrow> mtimer \<Rightarrow>
    (bool \<times> int \<times> (nat \<times> nat) list \<times> addr list \<times> mtimer) option" where
  "spoke_check mx cnt [] t = Some (False, cnt, [], [], t)"
| "spoke_check mx cnt (a # as) t = do {
     e \<leftarrow> mt_elems t a;
     if me_rot e \<noteq> 0 then
       if me_rot e \<le> - (2 ^ 31) then None
       else do {
         (f, cnt, cs, as, t) \<leftarrow> spoke_check mx cnt as
           (t\<lparr>mt_elems := (mt_elems t)(a \<mapsto> e\<lparr>me_rot := me_rot e - 1\<rparr>)\<rparr>);
         Some (f, cnt, cs, a # as, t) }
     else if cnt \<ge> mx then Some (True, cnt, [], a # as, t)
     else do {
       (f, cnt, cs, as, t) \<leftarrow> spoke_check mx (cnt + 1) as (drop_elem a t);
       Some (f, cnt, (me_callback e, me_event e) # cs, as, t) } }"

text \<open>The ticks since the last check; the counter of the loop is an \<^verbatim>\<open>int\<close>.\<close>

fun wheel_ticks :: "int \<Rightarrow> nat \<Rightarrow> int \<Rightarrow> int \<Rightarrow> mwheel \<Rightarrow> mtimer \<Rightarrow>
    (int \<times> (nat \<times> nat) list \<times> mwheel \<times> mtimer) option" where
  "wheel_ticks mx 0 i cnt w t = Some (cnt, [], w, t)"
| "wheel_ticks mx (Suc n) i cnt w t = do {
     spoke \<leftarrow> rd (mw_spokes w) (mw_spoke w);
     (f, cnt, cs, spoke, t) \<leftarrow> spoke_check mx cnt spoke t;
     qs \<leftarrow> wr (mw_spokes w) (mw_spoke w) spoke;
     let w = w\<lparr>mw_spokes := qs\<rparr>;
     if f then Some (cnt, cs, w, t)
     else if i + 1 \<ge> 2 ^ 31 then None
     else do {
       (cnt, ds, w, t) \<leftarrow> wheel_ticks mx n (i + 1) cnt
         (w\<lparr>mw_spoke := (mw_spoke w + 1) mod mw_size w\<rparr>) t;
       Some (cnt, cs @ ds, w, t) } }"

definition MESA_timer_check ::
  "int \<Rightarrow> int \<Rightarrow> mtimer \<Rightarrow> (int \<times> (nat \<times> nat) list \<times> mtimer) option" where
  "MESA_timer_check now mx t =
     (if now < 0 \<or> mx < 0 then None
      else case mt_body t of
        MQueue q \<Rightarrow> do {
          (cnt, cs, as, t) \<leftarrow> mq_check now mx 0 (mq_queue q) t;
          Some (cnt, cs, t\<lparr>mt_body := MQueue (q\<lparr>mq_queue := as\<rparr>)\<rparr>) }
      | MWheel w \<Rightarrow>
          if mw_create w = - 1 then Some (0, [], t)
          else do {
            (cnt, cs, w, t) \<leftarrow> wheel_ticks mx (nat (now - mw_create w - mw_last w)) 0 0 w t;
            Some (cnt, cs, t\<lparr>mt_body := MWheel (w\<lparr>mw_last := now - mw_create w\<rparr>)\<rparr>) })"

section \<open>Resetting\<close>

definition MESA_timer_reset :: "addr \<Rightarrow> int \<Rightarrow> int \<Rightarrow> mtimer \<Rightarrow> (int \<times> mtimer) option" where
  "MESA_timer_reset a now timeout t = do {
     e \<leftarrow> mt_elems t a;
     case mt_body t of
       MQueue q \<Rightarrow> do {
         q \<leftarrow> mq_remove a (mt_elems t) q;
         expire \<leftarrow> long (now + timeout);
         if expire < mq_last q then Some (- 1, t\<lparr>mt_body := MQueue q\<rparr>)
         else Some (0, t\<lparr>mt_elems := (mt_elems t)(a \<mapsto> e\<lparr>me_expire := expire\<rparr>),
           mt_body := MQueue (q\<lparr>mq_last := expire, mq_queue := mq_queue q @ [a]\<rparr>)\<rparr>) }
     | MWheel w \<Rightarrow> do {
         w \<leftarrow> wheel_remove a (me_cursor e) w;
         let w = wheel_start now w;
         expire \<leftarrow> long (now + timeout);
         let rot = to_int (c_div timeout (mw_size w));
         cursor \<leftarrow> wheel_cursor now timeout w;
         w \<leftarrow> wheel_insert a cursor w;
         Some (0, t\<lparr>mt_elems := (mt_elems t)(a \<mapsto>
             e\<lparr>me_expire := expire, me_rot := rot, me_cursor := cursor\<rparr>), mt_body := MWheel w\<rparr>) } }"

definition MESA_timer_count :: "mtimer \<Rightarrow> int" where
  "MESA_timer_count t = mt_cnt t"

definition MESA_timer_memsize :: "mtimer \<Rightarrow> int" where
  "MESA_timer_memsize t = mt_mem t"

section \<open>Well-formed timers\<close>

text \<open>
  What both types have in common: the elements in the queues are the live ones, each in
  one place, and the counters agree with them.
\<close>

definition counted :: "addr list \<Rightarrow> int \<Rightarrow> mtimer \<Rightarrow> bool" where
  "counted as base t \<longleftrightarrow> distinct as \<and> dom (mt_elems t) = set as \<and> mt_cnt t = int (length as) \<and>
     mt_mem t = base + sizeof_elem * int (length as)"

definition expire_of :: "(addr \<Rightarrow> melem option) \<Rightarrow> addr \<Rightarrow> int" where
  "expire_of h a = me_expire (the (h a))"

definition mcall :: "(addr \<Rightarrow> melem option) \<Rightarrow> addr \<Rightarrow> nat \<times> nat" where
  "mcall h a = (me_callback (the (h a)), me_event (the (h a)))"

definition qinv :: "mqueue \<Rightarrow> mtimer \<Rightarrow> bool" where
  "qinv q t \<longleftrightarrow> counted (mq_queue q) sizeof_timer t \<and>
     sorted (map (expire_of (mt_elems t)) (mq_queue q)) \<and>
     (\<forall>a \<in> set (mq_queue q). expire_of (mt_elems t) a \<le> mq_last q)"

lemma countedD:
  assumes "counted as base t" "a \<in> set as"
  obtains e where "mt_elems t a = Some e"
  using assms by (auto simp: counted_def)

lemma counted_body [simp]: "counted as base (t\<lparr>mt_body := b\<rparr>) = counted as base t"
  by (simp add: counted_def)

lemma counted_perm: "counted as base t \<Longrightarrow> mset as = mset bs \<Longrightarrow> counted bs base t"
  unfolding counted_def by (metis mset_eq_imp_distinct_iff mset_eq_length mset_eq_setD)

lemma counted_keep:
  "counted as base t \<Longrightarrow> mt_elems t a = None \<Longrightarrow> mset bs = mset (a # as) \<Longrightarrow>
    counted bs base (keep_elem a e t)"
proof -
  assume c: "counted as base t" and n: "mt_elems t a = None" and m: "mset bs = mset (a # as)"
  have "a \<notin> set as" using c n by (auto simp: counted_def)
  then have "counted (a # as) base (keep_elem a e t)"
    using c by (auto simp: counted_def keep_elem_def algebra_simps sizeof_elem_def)
  then show ?thesis using counted_perm m by metis
qed

lemma counted_drop:
  assumes c: "counted as base t" and m: "mset as = mset (a # bs)"
  shows "counted bs base (drop_elem a t)"
proof -
  have "counted (a # bs) base t" by (rule counted_perm [OF c m])
  then show ?thesis by (auto simp: counted_def drop_elem_def algebra_simps sizeof_elem_def)
qed

lemma counted_update:
  "counted as base t \<Longrightarrow> a \<in> set as \<Longrightarrow> counted as base (t\<lparr>mt_elems := (mt_elems t)(a \<mapsto> e)\<rparr>)"
  by (auto simp: counted_def)

lemma expire_of_other [simp]: "b \<noteq> a \<Longrightarrow> expire_of (h(a := x)) b = expire_of h b"
  by (simp add: expire_of_def)

lemma map_expire_other [simp]:
  "a \<notin> set as \<Longrightarrow> map (expire_of (h(a := x))) as = map (expire_of h) as"
  by (rule map_cong) (auto simp: expire_of_def)

lemma drop_elem_sel [simp]:
  "mt_elems (drop_elem a t) = (mt_elems t)(a := None)" "mt_body (drop_elem a t) = mt_body t"
  by (simp_all add: drop_elem_def)

lemma keep_elem_sel [simp]:
  "mt_elems (keep_elem a e t) = (mt_elems t)(a \<mapsto> e)" "mt_body (keep_elem a e t) = mt_body t"
  by (simp_all add: keep_elem_def)

section \<open>The queue\<close>

lemma queue_last_bound:
  assumes "queue_last h as = Some l" "sorted (map (expire_of h) as)" "a \<in> set as"
  shows "expire_of h a \<le> l"
proof -
  have ne: "as \<noteq> []" using assms(3) by auto
  then have l: "l = expire_of h (last as)" using assms(1) by (auto simp: queue_last_def expire_of_def)
  have "as = butlast as @ [last as]" using ne by simp
  then have "a = last as \<or> a \<in> set (butlast as)" using assms(3) by (metis Un_iff set_append set_ConsD empty_iff empty_set)
  moreover have "sorted (map (expire_of h) (butlast as @ [last as]))" using ne assms(2) by simp
  ultimately show ?thesis unfolding l by (auto simp: sorted_append)
qed

lemma mq_remove_ok:
  assumes I: "qinv q t" and a: "a \<in> set (mq_queue q)"
  obtains q' where "mq_remove a (mt_elems t) q = Some q'" "mq_queue q' = remove1 a (mq_queue q)"
    "sorted (map (expire_of (mt_elems t)) (mq_queue q'))"
    "\<forall>b \<in> set (mq_queue q'). expire_of (mt_elems t) b \<le> mq_last q'"
    "a \<notin> set (mq_queue q')" "mset (mq_queue q) = mset (a # mq_queue q')"
proof -
  let ?as = "remove1 a (mq_queue q)" and ?h = "mt_elems t"
  have C: "counted (mq_queue q) sizeof_timer t" and S: "sorted (map (expire_of ?h) (mq_queue q))"
    using I by (simp_all add: qinv_def)
  have S': "sorted (map (expire_of ?h) ?as)"
    by (rule sorted_map_remove1 [OF S])
  have "\<exists>l. queue_last ?h ?as = Some l"
  proof (cases "?as = []")
    case False
    then have "last ?as \<in> set ?as" by simp
    then have "last ?as \<in> set (mq_queue q)" using set_remove1_subset [of a "mq_queue q"] by blast
    then obtain e where "?h (last ?as) = Some e" by (rule countedD [OF C])
    then show ?thesis using False by (simp add: queue_last_def)
  qed (simp add: queue_last_def)
  then obtain l where l: "queue_last ?h ?as = Some l" by blast
  have d: "distinct (mq_queue q)" using C by (simp add: counted_def)
  show thesis
  proof (rule that [of "q\<lparr>mq_queue := ?as, mq_last := l\<rparr>"])
    show "mq_remove a ?h q = Some (q\<lparr>mq_queue := ?as, mq_last := l\<rparr>)"
      using a l by (simp add: mq_remove_def tailq_remove_def)
  qed (use S' queue_last_bound [OF l S'] d a in simp_all)
qed

lemma queue_add:
  assumes I: "qinv q t" and n: "mt_elems t m = None" and e: "me_expire e \<ge> mq_last q"
  shows "qinv (q\<lparr>mq_last := me_expire e, mq_queue := mq_queue q @ [m]\<rparr>)
    ((keep_elem m e t)\<lparr>mt_body := b\<rparr>)"
proof -
  have C: "counted (mq_queue q) sizeof_timer t" using I by (simp add: qinv_def)
  have m: "m \<notin> set (mq_queue q)" using C n by (auto simp: counted_def)
  have "counted (mq_queue q @ [m]) sizeof_timer (keep_elem m e t)"
    by (rule counted_keep [OF C n]) simp
  moreover have x: "expire_of ((mt_elems t)(m \<mapsto> e)) m = me_expire e" by (simp add: expire_of_def)
  moreover have "\<forall>c \<in> set (mq_queue q). expire_of ((mt_elems t)(m \<mapsto> e)) c \<le> me_expire e"
    using I m e by (fastforce simp: qinv_def expire_of_def)
  ultimately show ?thesis using I m e by (auto simp: qinv_def sorted_append)
qed

lemma queue_del:
  assumes I: "qinv q t" and a: "a \<in> set (mq_queue q)"
  shows "\<exists>q'. mq_remove a (mt_elems t) q = Some q' \<and> qinv q' ((drop_elem a t)\<lparr>mt_body := b\<rparr>)"
proof -
  obtain q' where q': "mq_remove a (mt_elems t) q = Some q'"
    "sorted (map (expire_of (mt_elems t)) (mq_queue q'))"
    "\<forall>b \<in> set (mq_queue q'). expire_of (mt_elems t) b \<le> mq_last q'"
    "a \<notin> set (mq_queue q')" "mset (mq_queue q) = mset (a # mq_queue q')"
    by (rule mq_remove_ok [OF I a]) blast
  have "counted (mq_queue q) sizeof_timer t" using I by (simp add: qinv_def)
  then have "counted (mq_queue q') sizeof_timer (drop_elem a t)" by (rule counted_drop [OF _ q'(5)])
  moreover have "\<forall>b \<in> set (mq_queue q'). expire_of ((mt_elems t)(a := None)) b \<le> mq_last q'"
    using q'(3,4) by (auto simp: expire_of_def)
  ultimately show ?thesis using q'(1,2,4) by (auto simp: qinv_def)
qed

lemma queue_reset:
  assumes I: "qinv q t" and a: "a \<in> set (mq_queue q)" "mt_elems t a = Some e"
    and r: "mq_remove a (mt_elems t) q = Some q'" and x: "x \<ge> mq_last q'"
  shows "qinv (q'\<lparr>mq_last := x, mq_queue := mq_queue q' @ [a]\<rparr>)
    (t\<lparr>mt_elems := (mt_elems t)(a \<mapsto> e\<lparr>me_expire := x\<rparr>), mt_body := b\<rparr>)"
proof -
  have q': "sorted (map (expire_of (mt_elems t)) (mq_queue q'))"
    "\<forall>b \<in> set (mq_queue q'). expire_of (mt_elems t) b \<le> mq_last q'"
    "a \<notin> set (mq_queue q')" "mset (mq_queue q) = mset (a # mq_queue q')"
    by (rule mq_remove_ok [OF I a(1)], use r in simp)+
  have "counted (mq_queue q) sizeof_timer t" using I by (simp add: qinv_def)
  then have "counted (mq_queue q) sizeof_timer (t\<lparr>mt_elems := (mt_elems t)(a \<mapsto> e\<lparr>me_expire := x\<rparr>)\<rparr>)"
    using a(1) by (rule counted_update)
  then have "counted (mq_queue q' @ [a]) sizeof_timer (t\<lparr>mt_elems := (mt_elems t)(a \<mapsto> e\<lparr>me_expire := x\<rparr>)\<rparr>)"
    by (rule counted_perm) (simp add: q'(4))
  moreover have "expire_of ((mt_elems t)(a \<mapsto> e\<lparr>me_expire := x\<rparr>)) a = x" by (simp add: expire_of_def)
  moreover have "\<forall>b \<in> set (mq_queue q'). expire_of ((mt_elems t)(a \<mapsto> e\<lparr>me_expire := x\<rparr>)) b \<le> x"
    using q'(2,3) x by (fastforce simp: expire_of_def)
  ultimately show ?thesis using q'(1,2,3) x by (fastforce simp: qinv_def sorted_append counted_def)
qed

text \<open>A check calls the due timers, at most the given number, and drops them.\<close>

lemma mq_check_run:
  "counted as base t \<Longrightarrow> \<exists>t'. mq_check now mx cnt as t =
     (let f = take (nat (mx - cnt)) (takeWhile (\<lambda>a. expire_of (mt_elems t) a \<le> now) as) in
      Some (cnt + int (length f), map (mcall (mt_elems t)) f, drop (length f) as, t')) \<and>
     counted (drop (length (take (nat (mx - cnt)) (takeWhile (\<lambda>a. expire_of (mt_elems t) a \<le> now) as))) as) base t' \<and>
     (\<forall>b \<in> set (drop (length (take (nat (mx - cnt)) (takeWhile (\<lambda>a. expire_of (mt_elems t) a \<le> now) as))) as).
       mt_elems t' b = mt_elems t b)"
proof (induction as arbitrary: t cnt)
  case Nil
  then show ?case by simp
next
  case (Cons a as)
  obtain e where e: "mt_elems t a = Some e" by (rule countedD [OF Cons.prems, of a]) simp
  have d: "a \<notin> set as" using Cons.prems by (simp add: counted_def)
  show ?case
  proof (cases "cnt \<ge> mx \<or> now < me_expire e")
    case True
    then show ?thesis using Cons.prems e by (auto simp: expire_of_def Let_def)
  next
    case False
    let ?t = "drop_elem a t"
    have C: "counted as base ?t" by (rule counted_drop [OF Cons.prems]) simp
    have W: "takeWhile (\<lambda>b. expire_of (mt_elems ?t) b \<le> now) as =
        takeWhile (\<lambda>b. expire_of (mt_elems t) b \<le> now) as"
      by (rule takeWhile_cong [OF refl]) (use d in \<open>auto simp: expire_of_def\<close>)
    let ?f = "take (nat (mx - (cnt + 1))) (takeWhile (\<lambda>b. expire_of (mt_elems t) b \<le> now) as)"
    have M: "map (mcall (mt_elems ?t)) ?f = map (mcall (mt_elems t)) ?f"
      by (rule map_cong [OF refl]) (use d set_takeWhileD in \<open>fastforce simp: mcall_def dest: in_set_takeD\<close>)
    obtain t' where t': "mq_check now mx (cnt + 1) as ?t = Some (cnt + 1 + int (length ?f),
        map (mcall (mt_elems t)) ?f, drop (length ?f) as, t')"
      "counted (drop (length ?f) as) base t'"
      "\<forall>b \<in> set (drop (length ?f) as). mt_elems t' b = mt_elems ?t b"
      using Cons.IH [OF C, of "cnt + 1"] unfolding W Let_def M by blast
    have n: "nat (mx - cnt) = Suc (nat (mx - (cnt + 1)))" using False by linarith
    have "\<forall>b \<in> set (drop (length ?f) as). mt_elems t' b = mt_elems t b"
      using t'(3) d by (metis drop_elem_sel(1) fun_upd_other in_set_dropD)
    then show ?thesis
      using False e t'(1,2) by (auto simp: n expire_of_def mcall_def Let_def)
  qed
qed

section \<open>One spoke of the wheel\<close>

definition rot_of :: "(addr \<Rightarrow> melem option) \<Rightarrow> addr \<Rightarrow> int" where
  "rot_of h a = me_rot (the (h a))"

text \<open>The elements after the visit of those in a list: called and gone, or a rotation less.\<close>

definition aged :: "(addr \<Rightarrow> melem option) \<Rightarrow> addr list \<Rightarrow> addr \<Rightarrow> melem option" where
  "aged h pre = (\<lambda>a. if a \<in> set pre then
       (if rot_of h a = 0 then None else map_option (\<lambda>e. e\<lparr>me_rot := me_rot e - 1\<rparr>) (h a))
     else h a)"

lemma aged_Nil [simp]: "aged h [] = h"
  by (simp add: aged_def)

lemma aged_Cons:
  "a \<notin> set pre \<Longrightarrow> h a = Some e \<Longrightarrow>
   aged h (a # pre) = aged (h(a := if me_rot e = 0 then None else Some (e\<lparr>me_rot := me_rot e - 1\<rparr>))) pre"
  by (auto simp: aged_def rot_of_def fun_eq_iff)

abbreviation ripe :: "(addr \<Rightarrow> melem option) \<Rightarrow> addr list \<Rightarrow> addr list" where
  "ripe h as \<equiv> filter (\<lambda>a. rot_of h a = 0) as"

abbreviation green :: "(addr \<Rightarrow> melem option) \<Rightarrow> addr list \<Rightarrow> addr list" where
  "green h as \<equiv> filter (\<lambda>a. rot_of h a \<noteq> 0) as"

lemma rot_other [simp]: "a \<notin> set as \<Longrightarrow> ripe (h(a := x)) as = ripe h as"
  "a \<notin> set as \<Longrightarrow> green (h(a := x)) as = green h as"
  by (induction as) (auto simp: rot_of_def)

lemma mcall_other [simp]: "a \<notin> set as \<Longrightarrow> map (mcall (h(a := x))) (filter P as) = map (mcall h) (filter P as)"
  by (auto simp: mcall_def)

definition spoke_result ::
  "int \<Rightarrow> addr list \<Rightarrow> addr list \<Rightarrow> mtimer \<Rightarrow> mtimer \<Rightarrow> bool \<times> int \<times> (nat \<times> nat) list \<times> addr list \<times> mtimer" where
  "spoke_result cnt pre suf t t' = (suf \<noteq> [], cnt + int (length (ripe (mt_elems t) pre)),
     map (mcall (mt_elems t)) (ripe (mt_elems t) pre), green (mt_elems t) pre @ suf, t')"

lemma spoke_check_run:
  "counted (as @ rest) base t \<Longrightarrow> \<forall>a \<in> set as. 0 \<le> rot_of (mt_elems t) a \<Longrightarrow>
   \<exists>pre suf t'. as = pre @ suf \<and> spoke_check mx cnt as t = Some (spoke_result cnt pre suf t t') \<and>
     mt_elems t' = aged (mt_elems t) pre \<and> mt_body t' = mt_body t \<and>
     counted (green (mt_elems t) pre @ suf @ rest) base t' \<and>
     (int (length (ripe (mt_elems t) as)) \<le> mx - cnt \<longrightarrow> suf = [])"
proof (induction as arbitrary: t cnt rest)
  case Nil
  then show ?case by (auto simp: spoke_result_def)
next
  case (Cons a as)
  let ?h = "mt_elems t"
  obtain e where e: "?h a = Some e" by (rule countedD [OF Cons.prems(1), of a]) simp
  have d: "a \<notin> set as" and P: "mset ((a # as) @ rest) = mset (as @ a # rest)"
    using Cons.prems(1) by (simp_all add: counted_def)
  have r: "rot_of ?h a = me_rot e" "0 \<le> me_rot e" using e Cons.prems(2) by (auto simp: rot_of_def)
  have nn: "\<forall>b \<in> set as. 0 \<le> rot_of (?h(a := x)) b" for x
    using Cons.prems(2) d by (auto simp: rot_of_def)
  show ?case
  proof (cases "me_rot e = 0")
    case False
    let ?t = "t\<lparr>mt_elems := ?h(a \<mapsto> e\<lparr>me_rot := me_rot e - 1\<rparr>)\<rparr>"
    have "counted ((a # as) @ rest) base ?t" by (rule counted_update [OF Cons.prems(1)]) simp
    then have C: "counted (as @ a # rest) base ?t" by (rule counted_perm [OF _ P])
    have N: "\<forall>b \<in> set as. 0 \<le> rot_of (mt_elems ?t) b" using nn by simp
    obtain pre suf t' where I: "as = pre @ suf" "spoke_check mx cnt as ?t = Some (spoke_result cnt pre suf ?t t')"
      "mt_elems t' = aged (mt_elems ?t) pre" "mt_body t' = mt_body ?t"
      "counted (green (mt_elems ?t) pre @ suf @ a # rest) base t'"
      "int (length (ripe (mt_elems ?t) as)) \<le> mx - cnt \<longrightarrow> suf = []"
      using Cons.IH [OF C N, of cnt] by blast
    have dp: "a \<notin> set pre" using d I(1) by simp
    show ?thesis
    proof (intro exI conjI)
      show "a # as = (a # pre) @ suf" using I(1) by simp
      show "spoke_check mx cnt (a # as) t = Some (spoke_result cnt (a # pre) suf t t')"
        using e False r I(2) dp by (simp add: spoke_result_def)
      show "mt_elems t' = aged ?h (a # pre)" using I(3) aged_Cons [where h = "mt_elems t", OF dp e] False by simp
      show "mt_body t' = mt_body t" using I(4) by simp
      show "counted (green ?h (a # pre) @ suf @ rest) base t'"
        by (rule counted_perm [OF I(5)]) (use dp False r in simp)
      show "int (length (ripe ?h (a # as))) \<le> mx - cnt \<longrightarrow> suf = []"
        using I(6) d False r by simp
    qed
  next
    case z: True
    show ?thesis
    proof (cases "cnt \<ge> mx")
      case True
      show ?thesis
      proof (intro exI conjI)
        show "a # as = [] @ (a # as)" by simp
        show "spoke_check mx cnt (a # as) t = Some (spoke_result cnt [] (a # as) t t)"
          using e z True by (simp add: spoke_result_def)
        show "int (length (ripe ?h (a # as))) \<le> mx - cnt \<longrightarrow> a # as = []" using z r True by simp
      qed (use Cons.prems(1) in simp_all)
    next
      case False
      let ?t = "drop_elem a t"
      have C: "counted (as @ rest) base ?t" by (rule counted_drop [OF Cons.prems(1)]) simp
      have N: "\<forall>b \<in> set as. 0 \<le> rot_of (mt_elems ?t) b" using nn by simp
      obtain pre suf t' where I: "as = pre @ suf"
        "spoke_check mx (cnt + 1) as ?t = Some (spoke_result (cnt + 1) pre suf ?t t')"
        "mt_elems t' = aged (mt_elems ?t) pre" "mt_body t' = mt_body ?t"
        "counted (green (mt_elems ?t) pre @ suf @ rest) base t'"
        "int (length (ripe (mt_elems ?t) as)) \<le> mx - (cnt + 1) \<longrightarrow> suf = []"
        using Cons.IH [OF C N, of "cnt + 1"] by blast
      have dp: "a \<notin> set pre" using d I(1) by simp
      show ?thesis
      proof (intro exI conjI)
        show "a # as = (a # pre) @ suf" using I(1) by simp
        show "spoke_check mx cnt (a # as) t = Some (spoke_result cnt (a # pre) suf t t')"
          using e False z r I(2) dp by (simp add: spoke_result_def mcall_def [of ?h a])
        show "mt_elems t' = aged ?h (a # pre)" using I(3) aged_Cons [where h = "mt_elems t", OF dp e] z by simp
        show "mt_body t' = mt_body t" using I(4) by simp
        show "counted (green ?h (a # pre) @ suf @ rest) base t'"
          using I(5) dp z r by simp
        show "int (length (ripe ?h (a # as))) \<le> mx - cnt \<longrightarrow> suf = []"
          using I(6) d z r by simp
      qed
    qed
  qed
qed

section \<open>The wheel\<close>

lemma concat_upd:
  "i < length xs \<Longrightarrow> mset (concat (xs[i := ys])) + mset (xs ! i) = mset (concat xs) + mset ys"
proof -
  assume i: "i < length xs"
  have "concat xs = concat (take i xs) @ xs ! i @ concat (drop (Suc i) xs)"
    by (subst id_take_nth_drop [OF i]) simp
  moreover have "concat (xs[i := ys]) = concat (take i xs) @ ys @ concat (drop (Suc i) xs)"
    using i by (simp add: upd_conv_take_nth_drop)
  ultimately show ?thesis by simp
qed

lemma concat_upd_length:
  "i < length xs \<Longrightarrow> length (concat (xs[i := ys])) + length (xs ! i) = length (concat xs) + length ys"
  by (metis concat_upd size_mset size_union)

definition wheel_wf :: "(addr \<Rightarrow> melem option) \<Rightarrow> mwheel \<Rightarrow> bool" where
  "wheel_wf h w \<longleftrightarrow> 0 < mw_size w \<and> mw_size w \<le> MAX_WHEEL_SIZE \<and>
     length (mw_spokes w) = nat (mw_size w) \<and> 0 \<le> mw_spoke w \<and> mw_spoke w < mw_size w \<and>
     (\<forall>i < length (mw_spokes w). \<forall>a \<in> set (mw_spokes w ! i). \<forall>e. h a = Some e \<longrightarrow>
        me_cursor e = int i \<and> 0 \<le> me_rot e) \<and>
     (mw_create w = - 1 \<and> mw_last w = - 1 \<or> 0 \<le> mw_create w \<and> 0 \<le> mw_last w)"

definition wheel_mem :: "mwheel \<Rightarrow> int" where
  "wheel_mem w = sizeof_timer + sizeof_TQ * mw_size w"

definition mw_inv :: "mwheel \<Rightarrow> mtimer \<Rightarrow> bool" where
  "mw_inv w t \<longleftrightarrow> wheel_wf (mt_elems t) w \<and> counted (concat (mw_spokes w)) (wheel_mem w) t"

lemma mw_inv_body [simp]: "mw_inv w (t\<lparr>mt_body := b\<rparr>) = mw_inv w t"
  by (simp add: mw_inv_def)

lemma mw_inv_at:
  assumes "mw_inv w t" "i < length (mw_spokes w)" "a \<in> set (mw_spokes w ! i)" "mt_elems t a = Some e"
  shows "me_cursor e = int i \<and> 0 \<le> me_rot e"
  using assms unfolding mw_inv_def wheel_wf_def by blast

lemma mw_inv_in:
  assumes "mw_inv w t" "mt_elems t a = Some e"
  shows "nat (me_cursor e) < length (mw_spokes w) \<and> 0 \<le> me_cursor e \<and>
    a \<in> set (mw_spokes w ! nat (me_cursor e)) \<and> 0 \<le> me_rot e"
proof -
  have "a \<in> set (concat (mw_spokes w))" using assms by (auto simp: mw_inv_def counted_def)
  then obtain q where "q \<in> set (mw_spokes w)" "a \<in> set q" by auto
  then obtain i where i: "i < length (mw_spokes w)" "a \<in> set (mw_spokes w ! i)"
    by (metis in_set_conv_nth)
  then have "me_cursor e = int i \<and> 0 \<le> me_rot e" using mw_inv_at assms by metis
  then show ?thesis using i by simp
qed

lemma mw_inv_distinct:
  assumes I: "mw_inv w t" and i: "i < length (mw_spokes w)" "j < length (mw_spokes w)" "i \<noteq> j"
  shows "set (mw_spokes w ! i) \<inter> set (mw_spokes w ! j) = {}"
proof (rule ccontr)
  assume "set (mw_spokes w ! i) \<inter> set (mw_spokes w ! j) \<noteq> {}"
  then obtain a where a: "a \<in> set (mw_spokes w ! i)" "a \<in> set (mw_spokes w ! j)" by blast
  then have "a \<in> set (concat (mw_spokes w))" using i by auto
  moreover have "counted (concat (mw_spokes w)) (wheel_mem w) t" using I by (simp add: mw_inv_def)
  ultimately obtain e where "mt_elems t a = Some e" using countedD by metis
  then have "me_cursor e = int i" "me_cursor e = int j"
    using mw_inv_at [OF I i(1) a(1)] mw_inv_at [OF I i(2) a(2)] by auto
  then show False using i by simp
qed

lemma mw_inv_start: "mw_inv w t \<Longrightarrow> 0 \<le> now \<Longrightarrow> mw_inv (wheel_start now w) t"
  by (auto simp: mw_inv_def wheel_wf_def wheel_start_def wheel_mem_def)

lemma wheel_wf_at:
  "wheel_wf h w \<Longrightarrow> j < length (mw_spokes w) \<Longrightarrow> a \<in> set (mw_spokes w ! j) \<Longrightarrow> h a = Some e \<Longrightarrow>
    me_cursor e = int j \<and> 0 \<le> me_rot e"
  unfolding wheel_wf_def by blast

lemma wheel_wf_upd:
  assumes W: "wheel_wf h w" and i: "i < length (mw_spokes w)"
    and rest: "\<And>j a e. j < length (mw_spokes w) \<Longrightarrow> a \<in> set (mw_spokes w ! j) \<Longrightarrow> j \<noteq> i \<Longrightarrow> h' a = Some e \<Longrightarrow>
      me_cursor e = int j \<and> 0 \<le> me_rot e"
    and new: "\<And>a e. a \<in> set q \<Longrightarrow> h' a = Some e \<Longrightarrow> me_cursor e = int i \<and> 0 \<le> me_rot e"
  shows "wheel_wf h' (w\<lparr>mw_spokes := (mw_spokes w)[i := q]\<rparr>)"
proof -
  let ?w = "w\<lparr>mw_spokes := (mw_spokes w)[i := q]\<rparr>"
  have "me_cursor e = int j \<and> 0 \<le> me_rot e"
    if "j < length (mw_spokes ?w)" "a \<in> set (mw_spokes ?w ! j)" "h' a = Some e" for j a e
    using that i rest [of j a e] new [of a e] by (cases "j = i") simp_all
  then show ?thesis using W unfolding wheel_wf_def by simp
qed

lemma mset_swap: "add_mset a r = q \<Longrightarrow> x + q = y + r \<Longrightarrow> y = add_mset a x"
  by (metis add_right_cancel union_mset_add_mset_left union_mset_add_mset_right)

lemma wheel_insert_wf:
  assumes W: "wheel_wf h w" and c: "0 \<le> c" "c < mw_size w" and m: "m \<notin> set (concat (mw_spokes w))"
    and e: "me_cursor e = c" "0 \<le> me_rot e"
  shows "\<exists>w'. wheel_insert m c w = Some w' \<and> w' = w\<lparr>mw_spokes := (mw_spokes w)[nat c := mw_spokes w ! nat c @ [m]]\<rparr> \<and>
    wheel_wf (h(m \<mapsto> e)) w' \<and> mset (concat (mw_spokes w')) = mset (m # concat (mw_spokes w))"
proof -
  have i: "nat c < length (mw_spokes w)" using W c by (simp add: wheel_wf_def)
  let ?w = "w\<lparr>mw_spokes := (mw_spokes w)[nat c := mw_spokes w ! nat c @ [m]]\<rparr>"
  have at: "me_cursor x = int j \<and> 0 \<le> me_rot x"
    if "j < length (mw_spokes w)" "a \<in> set (mw_spokes w ! j)" "(h(m \<mapsto> e)) a = Some x" for j a x
  proof -
    have "a \<in> set (concat (mw_spokes w))" using that(1,2) by fastforce
    then have "h a = Some x" using m that(3) by (metis fun_upd_other)
    then show ?thesis using W that(1,2) unfolding wheel_wf_def by blast
  qed
  have "wheel_insert m c w = Some ?w" using i c by (simp add: wheel_insert_def rd_def wr_def)
  moreover have "wheel_wf (h(m \<mapsto> e)) ?w"
  proof (rule wheel_wf_upd [OF W i])
    fix a x assume a: "a \<in> set (mw_spokes w ! nat c @ [m])" "(h(m \<mapsto> e)) a = Some x"
    show "me_cursor x = int (nat c) \<and> 0 \<le> me_rot x"
    proof (cases "a = m")
      case True
      then show ?thesis using a e c by simp
    next
      case False
      then show ?thesis using at [OF i] a by simp
    qed
  qed (rule at)
  moreover have "mset (concat (mw_spokes ?w)) = mset (m # concat (mw_spokes w))"
    using concat_upd [OF i, of "mw_spokes w ! nat c @ [m]"] by simp
  ultimately show ?thesis by blast
qed

lemma wheel_remove_wf:
  assumes I: "mw_inv w t" and a: "mt_elems t a = Some e"
  shows "\<exists>w'. wheel_remove a (me_cursor e) w = Some w' \<and>
    w' = w\<lparr>mw_spokes := (mw_spokes w)[nat (me_cursor e) := remove1 a (mw_spokes w ! nat (me_cursor e))]\<rparr> \<and>
    wheel_wf (mt_elems t) w' \<and> mset (concat (mw_spokes w)) = mset (a # concat (mw_spokes w')) \<and>
    a \<notin> set (concat (mw_spokes w'))"
proof -
  define i where "i = nat (me_cursor e)"
  have i: "i < length (mw_spokes w)" "me_cursor e = int i" "a \<in> set (mw_spokes w ! i)"
    using mw_inv_in [OF I a] by (simp_all add: i_def)
  let ?w = "w\<lparr>mw_spokes := (mw_spokes w)[i := remove1 a (mw_spokes w ! i)]\<rparr>"
  have W: "wheel_wf (mt_elems t) w" and C: "counted (concat (mw_spokes w)) (wheel_mem w) t"
    using I by (simp_all add: mw_inv_def)
  have "wheel_remove a (me_cursor e) w = Some ?w"
    using i by (simp add: wheel_remove_def tailq_remove_def)
  moreover have "wheel_wf (mt_elems t) ?w"
  proof (rule wheel_wf_upd [OF W i(1)])
    fix b x assume b: "b \<in> set (remove1 a (mw_spokes w ! i))" "mt_elems t b = Some x"
    show "me_cursor x = int i \<and> 0 \<le> me_rot x"
      by (rule wheel_wf_at [OF W i(1) _ b(2)]) (use b(1) set_remove1_subset [of a "mw_spokes w ! i"] in blast)
  qed (rule wheel_wf_at [OF W])
  moreover have M: "mset (concat (mw_spokes w)) = mset (a # concat (mw_spokes ?w))"
  proof -
    have "add_mset a (mset (remove1 a (mw_spokes w ! i))) = mset (mw_spokes w ! i)" using i(3) by simp
    moreover have "mset (concat ((mw_spokes w)[i := remove1 a (mw_spokes w ! i)])) + mset (mw_spokes w ! i) =
        mset (concat (mw_spokes w)) + mset (remove1 a (mw_spokes w ! i))" by (rule concat_upd [OF i(1)])
    ultimately show ?thesis by (simp add: mset_swap)
  qed
  moreover have "a \<notin> set (concat (mw_spokes ?w))"
  proof -
    have "distinct (a # concat (mw_spokes ?w))"
      using C M mset_eq_imp_distinct_iff unfolding counted_def by blast
    then show ?thesis by simp
  qed
  ultimately show ?thesis unfolding i_def by blast
qed

lemma wheel_mem_spokes [simp]: "wheel_mem (w\<lparr>mw_spokes := q\<rparr>) = wheel_mem w"
  by (simp add: wheel_mem_def)

lemma wheel_add:
  assumes I: "mw_inv w t" and m: "mt_elems t m = None" and c: "0 \<le> me_cursor e" "me_cursor e < mw_size w" "0 \<le> me_rot e"
  shows "\<exists>w'. wheel_insert m (me_cursor e) w = Some w' \<and>
    w' = w\<lparr>mw_spokes := (mw_spokes w)[nat (me_cursor e) := mw_spokes w ! nat (me_cursor e) @ [m]]\<rparr> \<and>
    mw_inv w' ((keep_elem m e t)\<lparr>mt_body := b\<rparr>)"
proof -
  have W: "wheel_wf (mt_elems t) w" and C: "counted (concat (mw_spokes w)) (wheel_mem w) t"
    using I by (simp_all add: mw_inv_def)
  have "m \<notin> set (concat (mw_spokes w))" using C m unfolding counted_def by blast
  then obtain w' where w': "wheel_insert m (me_cursor e) w = Some w'"
    "w' = w\<lparr>mw_spokes := (mw_spokes w)[nat (me_cursor e) := mw_spokes w ! nat (me_cursor e) @ [m]]\<rparr>"
    "wheel_wf ((mt_elems t)(m \<mapsto> e)) w'" "mset (concat (mw_spokes w')) = mset (m # concat (mw_spokes w))"
    using wheel_insert_wf [OF W c(1,2) _ refl c(3)] by blast
  have "counted (concat (mw_spokes w')) (wheel_mem w) (keep_elem m e t)" by (rule counted_keep [OF C m w'(4)])
  moreover have "wheel_mem w' = wheel_mem w" using w'(2) by simp
  ultimately have "mw_inv w' ((keep_elem m e t)\<lparr>mt_body := b\<rparr>)" using w'(3) by (simp add: mw_inv_def)
  then show ?thesis using w'(1,2) by blast
qed

lemma wheel_wf_None: "wheel_wf h w \<Longrightarrow> wheel_wf (h(a := None)) w"
  unfolding wheel_wf_def by (auto split: if_splits)

lemma wheel_del:
  assumes I: "mw_inv w t" and a: "mt_elems t a = Some e"
  shows "\<exists>w'. wheel_remove a (me_cursor e) w = Some w' \<and> mw_inv w' ((drop_elem a t)\<lparr>mt_body := b\<rparr>)"
proof -
  obtain w' where w': "wheel_remove a (me_cursor e) w = Some w'"
    "w' = w\<lparr>mw_spokes := (mw_spokes w)[nat (me_cursor e) := remove1 a (mw_spokes w ! nat (me_cursor e))]\<rparr>"
    "wheel_wf (mt_elems t) w'" "mset (concat (mw_spokes w)) = mset (a # concat (mw_spokes w'))"
    using wheel_remove_wf [OF I a] by blast
  have C: "counted (concat (mw_spokes w)) (wheel_mem w) t" using I by (simp add: mw_inv_def)
  have "counted (concat (mw_spokes w')) (wheel_mem w) (drop_elem a t)" by (rule counted_drop [OF C w'(4)])
  moreover have "wheel_mem w' = wheel_mem w" using w'(2) by simp
  ultimately show ?thesis using w'(1) wheel_wf_None [OF w'(3)] by (simp add: mw_inv_def)
qed

section \<open>Ticks\<close>

lemma aged_Some:
  "aged h pre a = Some e' \<Longrightarrow> \<exists>e. h a = Some e \<and> (a \<notin> set pre \<longrightarrow> e' = e) \<and>
    (a \<in> set pre \<longrightarrow> me_rot e \<noteq> 0 \<and> e' = e\<lparr>me_rot := me_rot e - 1\<rparr>)"
  by (auto simp: aged_def rot_of_def split: if_splits)

lemma tick:
  assumes I: "mw_inv w t" and i: "i < length (mw_spokes w)"
  shows "\<exists>pre suf t'. mw_spokes w ! i = pre @ suf \<and>
    spoke_check mx cnt (mw_spokes w ! i) t = Some (spoke_result cnt pre suf t t') \<and>
    mt_elems t' = aged (mt_elems t) pre \<and> mt_body t' = mt_body t \<and>
    (int (length (ripe (mt_elems t) (mw_spokes w ! i))) \<le> mx - cnt \<longrightarrow> suf = []) \<and>
    mw_inv (w\<lparr>mw_spokes := (mw_spokes w)[i := green (mt_elems t) pre @ suf]\<rparr>) t'"
proof -
  let ?qs = "mw_spokes w" and ?h = "mt_elems t"
  let ?rest = "concat (take i ?qs) @ concat (drop (Suc i) ?qs)"
  have W: "wheel_wf ?h w" and C: "counted (concat ?qs) (wheel_mem w) t" using I by (simp_all add: mw_inv_def)
  have cc: "concat ?qs = concat (take i ?qs) @ ?qs ! i @ concat (drop (Suc i) ?qs)"
    by (subst id_take_nth_drop [OF i]) simp
  have "mset (concat ?qs) = mset (?qs ! i @ ?rest)" by (subst cc) simp
  then have C1: "counted (?qs ! i @ ?rest) (wheel_mem w) t" by (rule counted_perm [OF C])
  have N: "\<forall>a \<in> set (?qs ! i). 0 \<le> rot_of ?h a"
  proof
    fix a assume a: "a \<in> set (?qs ! i)"
    then obtain e where "?h a = Some e" using countedD [OF C1, of a] by auto
    then show "0 \<le> rot_of ?h a" using mw_inv_at [OF I i a] by (simp add: rot_of_def)
  qed
  obtain pre suf t' where r: "?qs ! i = pre @ suf"
    "spoke_check mx cnt (?qs ! i) t = Some (spoke_result cnt pre suf t t')"
    "mt_elems t' = aged ?h pre" "mt_body t' = mt_body t" "counted (green ?h pre @ suf @ ?rest) (wheel_mem w) t'"
    "int (length (ripe ?h (?qs ! i))) \<le> mx - cnt \<longrightarrow> suf = []"
    using spoke_check_run [OF C1 N, of mx cnt] by blast
  let ?w = "w\<lparr>mw_spokes := ?qs[i := green ?h pre @ suf]\<rparr>"
  have "concat (?qs[i := green ?h pre @ suf]) = concat (take i ?qs) @ (green ?h pre @ suf) @ concat (drop (Suc i) ?qs)"
    using i by (simp add: upd_conv_take_nth_drop)
  then have "mset (green ?h pre @ suf @ ?rest) = mset (concat (mw_spokes ?w))" by simp
  then have "counted (concat (mw_spokes ?w)) (wheel_mem ?w) t'" using counted_perm [OF r(5)] by simp
  moreover have "wheel_wf (mt_elems t') ?w"
  proof (rule wheel_wf_upd [OF W i])
    fix j a x assume a: "j < length ?qs" "a \<in> set (?qs ! j)" "mt_elems t' a = Some x"
    then obtain e where e: "?h a = Some e" "a \<notin> set pre \<longrightarrow> x = e"
      "a \<in> set pre \<longrightarrow> me_rot e \<noteq> 0 \<and> x = e\<lparr>me_rot := me_rot e - 1\<rparr>" using aged_Some r(3) by metis
    then show "me_cursor x = int j \<and> 0 \<le> me_rot x"
      using mw_inv_at [OF I a(1,2) e(1)] by (cases "a \<in> set pre") auto
  next
    fix a x assume a: "a \<in> set (green ?h pre @ suf)" "mt_elems t' a = Some x"
    then have m: "a \<in> set (?qs ! i)" using r(1) by auto
    obtain e where e: "?h a = Some e" "a \<notin> set pre \<longrightarrow> x = e"
      "a \<in> set pre \<longrightarrow> me_rot e \<noteq> 0 \<and> x = e\<lparr>me_rot := me_rot e - 1\<rparr>" using aged_Some a(2) r(3) by metis
    then show "me_cursor x = int i \<and> 0 \<le> me_rot x"
      using mw_inv_at [OF I i m e(1)] by (cases "a \<in> set pre") auto
  qed
  ultimately have "mw_inv ?w t'" by (simp add: mw_inv_def)
  then show ?thesis using r by blast
qed

lemma mw_inv_spoke: "mw_inv w t \<Longrightarrow> mw_inv (w\<lparr>mw_spoke := (mw_spoke w + 1) mod mw_size w\<rparr>) t"
  by (auto simp: mw_inv_def wheel_wf_def wheel_mem_def)

lemma mw_inv_index: "mw_inv w t \<Longrightarrow> nat (mw_spoke w) < length (mw_spokes w) \<and> 0 \<le> mw_spoke w"
  by (auto simp: mw_inv_def wheel_wf_def)

lemma ticks_safe:
  "mw_inv w t \<Longrightarrow> i + int n < 2 ^ 31 \<Longrightarrow> \<exists>k cs w' t'. wheel_ticks mx n i cnt w t = Some (k, cs, w', t') \<and>
     mw_inv w' t' \<and> mw_create w' = mw_create w \<and> mw_last w' = mw_last w \<and> mt_body t' = mt_body t"
proof (induction n arbitrary: i cnt w t)
  case (Suc n)
  let ?i = "nat (mw_spoke w)"
  have i: "?i < length (mw_spokes w)" "0 \<le> mw_spoke w" using mw_inv_index [OF Suc.prems(1)] by auto
  obtain pre suf t' where r: "mw_spokes w ! ?i = pre @ suf"
    "spoke_check mx cnt (mw_spokes w ! ?i) t = Some (spoke_result cnt pre suf t t')" "mt_body t' = mt_body t"
    "mw_inv (w\<lparr>mw_spokes := (mw_spokes w)[?i := green (mt_elems t) pre @ suf]\<rparr>) t'"
    using tick [OF Suc.prems(1) i(1), of mx cnt] by blast
  let ?w = "w\<lparr>mw_spokes := (mw_spokes w)[?i := green (mt_elems t) pre @ suf]\<rparr>"
  have rd: "rd (mw_spokes w) (mw_spoke w) = Some (mw_spokes w ! ?i)" using i by (simp add: rd_def)
  have wr: "wr (mw_spokes w) (mw_spoke w) q = Some ((mw_spokes w)[?i := q])" for q using i by (simp add: wr_def)
  have lt: "i + 1 + int n < 2 ^ 31" using Suc.prems(2) by simp
  show ?case
  proof (cases "suf = []")
    case False
    then show ?thesis using r rd wr by (simp add: spoke_result_def)
  next
    case True
    obtain k cs w' t'' where s: "wheel_ticks mx n (i + 1) (cnt + int (length (ripe (mt_elems t) pre)))
        (?w\<lparr>mw_spoke := (mw_spoke ?w + 1) mod mw_size ?w\<rparr>) t' = Some (k, cs, w', t'')"
      "mw_inv w' t''" "mw_create w' = mw_create w" "mw_last w' = mw_last w" "mt_body t'' = mt_body t"
      using Suc.IH [OF mw_inv_spoke [OF r(4)] lt] r(3) by fastforce
    then show ?thesis using r rd wr True lt by (simp add: spoke_result_def)
  qed
qed auto

section \<open>A wheel in step with the clock\<close>

text \<open>
  \<open>sync h w l\<close>: the wheel has made \<open>l\<close> ticks since its creation, and every element is on
  the spoke and has the rotations left that its expiry asks for.
\<close>

definition tick_of :: "mwheel \<Rightarrow> melem \<Rightarrow> int" where
  "tick_of w e = me_expire e - mw_create w"

definition sync :: "(addr \<Rightarrow> melem option) \<Rightarrow> mwheel \<Rightarrow> int \<Rightarrow> bool" where
  "sync h w l \<longleftrightarrow> 0 \<le> l \<and> mw_spoke w = l mod mw_size w \<and>
     (\<forall>a e. h a = Some e \<longrightarrow> l \<le> tick_of w e \<and> me_cursor e = tick_of w e mod mw_size w \<and>
        me_rot e = (tick_of w e - l) div mw_size w)"

lemma syncD:
  "sync h w l \<Longrightarrow> h a = Some e \<Longrightarrow> l \<le> tick_of w e \<and> me_cursor e = tick_of w e mod mw_size w \<and>
    me_rot e = (tick_of w e - l) div mw_size w"
  unfolding sync_def by blast

text \<open>The arithmetic of a rotation.\<close>

lemma div_step:
  fixes x s :: int
  assumes "0 < s" "0 < x"
  shows "(x - 1) div s = (if x mod s = 0 then x div s - 1 else x div s)"
proof (cases "x mod s = 0")
  case True
  then have "x - 1 = (s - 1) + (x div s - 1) * s"
    using div_mult_mod_eq [of x s] by (simp add: algebra_simps)
  then have "(x - 1) div s = (s - 1) div s + (x div s - 1)" using assms by (simp only: div_mult_self1)
  then show ?thesis using True assms by (simp add: div_pos_pos_trivial)
next
  case False
  have m: "0 \<le> x mod s - 1" "x mod s - 1 < s"
    using False assms pos_mod_sign [of s x] pos_mod_bound [of s x] by linarith+
  have "x - 1 = (x mod s - 1) + (x div s) * s" using div_mult_mod_eq [of x s] by simp
  then have "(x - 1) div s = (x mod s - 1) div s + x div s" using assms by (simp only: div_mult_self1)
  then show ?thesis using False m by (simp add: div_pos_pos_trivial)
qed

lemma rot_zero_iff:
  fixes d l s :: int
  assumes "0 < s" "l \<le> d" "d mod s = l mod s"
  shows "(d - l) div s = 0 \<longleftrightarrow> d = l"
proof -
  have "(d - l) mod s = 0" using assms(3) mod_eq_dvd_iff [of d s l] by (simp add: dvd_eq_mod_eq_0)
  then have "d - l = (d - l) div s * s" using div_mult_mod_eq [of "d - l" s] by simp
  then show ?thesis by auto
qed

definition due_list :: "(addr \<Rightarrow> melem option) \<Rightarrow> mwheel \<Rightarrow> int \<Rightarrow> addr list" where
  "due_list h w d = filter (\<lambda>a. expire_of h a = mw_create w + d) (mw_spokes w ! nat (d mod mw_size w))"

lemma sync_ripe:
  assumes I: "mw_inv w t" and S: "sync (mt_elems t) w l"
  shows "ripe (mt_elems t) (mw_spokes w ! nat (mw_spoke w)) = due_list (mt_elems t) w l"
proof -
  let ?i = "nat (mw_spoke w)"
  have i: "?i < length (mw_spokes w)" "int ?i = mw_spoke w" using mw_inv_index [OF I] by auto
  have s: "mw_spoke w = l mod mw_size w" using S by (simp add: sync_def)
  have z: "0 < mw_size w" using I by (simp add: mw_inv_def wheel_wf_def)
  have "rot_of (mt_elems t) a = 0 \<longleftrightarrow> expire_of (mt_elems t) a = mw_create w + l"
    if a: "a \<in> set (mw_spokes w ! ?i)" for a
  proof -
    have "a \<in> set (concat (mw_spokes w))" using i(1) a by fastforce
    moreover have "counted (concat (mw_spokes w)) (wheel_mem w) t" using I by (simp add: mw_inv_def)
    ultimately obtain e where e: "mt_elems t a = Some e" using countedD by metis
    have "me_cursor e = int ?i" using mw_inv_at [OF I i(1) a e] by blast
    then have m: "tick_of w e mod mw_size w = l mod mw_size w" using syncD [OF S e] i(2) s by simp
    have "me_rot e = 0 \<longleftrightarrow> tick_of w e = l" using rot_zero_iff [OF z _ m] syncD [OF S e] by simp
    then show ?thesis using e by (auto simp: rot_of_def expire_of_def tick_of_def)
  qed
  then show ?thesis unfolding due_list_def s by (intro filter_cong) auto
qed

lemma sync_tick:
  assumes I: "mw_inv w t" and S: "sync (mt_elems t) w l"
    and w': "mw_create w' = mw_create w" "mw_size w' = mw_size w"
      "mw_spoke w' = (mw_spoke w + 1) mod mw_size w"
  shows "sync (aged (mt_elems t) (mw_spokes w ! nat (mw_spoke w))) w' (l + 1)"
proof -
  let ?h = "mt_elems t" and ?as = "mw_spokes w ! nat (mw_spoke w)" and ?s = "mw_size w"
  have s: "mw_spoke w = l mod ?s" "0 \<le> l" using S by (simp_all add: sync_def)
  have z: "0 < ?s" using I by (simp add: mw_inv_def wheel_wf_def)
  have "mw_spoke w' = (l + 1) mod ?s" unfolding w'(3) s(1) by (rule mod_add_left_eq)
  moreover have "l + 1 \<le> tick_of w' e' \<and> me_cursor e' = tick_of w' e' mod ?s \<and>
      me_rot e' = (tick_of w' e' - (l + 1)) div ?s" if a: "aged ?h ?as a = Some e'" for a e'
  proof -
    obtain e where e: "?h a = Some e" "a \<notin> set ?as \<longrightarrow> e' = e"
      "a \<in> set ?as \<longrightarrow> me_rot e \<noteq> 0 \<and> e' = e\<lparr>me_rot := me_rot e - 1\<rparr>" using aged_Some [OF a] by metis
    let ?d = "tick_of w e"
    have t: "tick_of w' e' = ?d" "me_cursor e' = me_cursor e" using e(2,3) w'(1) by (auto simp: tick_of_def)
    have D: "l \<le> ?d" "me_cursor e = ?d mod ?s" "me_rot e = (?d - l) div ?s" using syncD [OF S e(1)] by auto
    have at: "a \<in> set ?as \<longleftrightarrow> ?d mod ?s = l mod ?s"
    proof
      assume "a \<in> set ?as"
      then have "me_cursor e = int (nat (mw_spoke w))"
        using mw_inv_at [OF I _ _ e(1)] mw_inv_index [OF I] by blast
      then show "?d mod ?s = l mod ?s" using D(2) s(1) mw_inv_index [OF I] by simp
    next
      assume "?d mod ?s = l mod ?s"
      then have "me_cursor e = mw_spoke w" using D(2) s(1) by simp
      then show "a \<in> set ?as" using mw_inv_in [OF I e(1)] by simp
    qed
    have ne: "?d \<noteq> l"
    proof
      assume q: "?d = l"
      then have "a \<in> set ?as" "me_rot e = 0" using at D(3) z by simp_all
      then show False using e(3) by blast
    qed
    have "(?d - (l + 1)) div ?s = (if (?d - l) mod ?s = 0 then (?d - l) div ?s - 1 else (?d - l) div ?s)"
      using div_step [OF z, of "?d - l"] D(1) ne by (simp add: algebra_simps)
    moreover have "(?d - l) mod ?s = 0 \<longleftrightarrow> a \<in> set ?as"
      unfolding at using mod_eq_dvd_iff [of ?d ?s l] by (simp add: dvd_eq_mod_eq_0)
    ultimately have "me_rot e' = (?d - (l + 1)) div ?s" using e(2,3) D(3) by auto
    then show ?thesis using t D ne by simp
  qed
  ultimately show ?thesis using s(2) w'(2) by (simp add: sync_def)
qed

lemma due_list_later:
  assumes I: "mw_inv w t" and S: "sync (mt_elems t) w l" and d: "l < d"
    and w': "mw_create w' = mw_create w" "mw_size w' = mw_size w"
      "mw_spokes w' = (mw_spokes w)[nat (mw_spoke w) := green (mt_elems t) (mw_spokes w ! nat (mw_spoke w))]"
    and h': "h' = aged (mt_elems t) (mw_spokes w ! nat (mw_spoke w))"
  shows "due_list h' w' d = due_list (mt_elems t) w d"
    "map (mcall h') (due_list (mt_elems t) w d) = map (mcall (mt_elems t)) (due_list (mt_elems t) w d)"
proof -
  let ?h = "mt_elems t" and ?i = "nat (mw_spoke w)" and ?j = "nat (d mod mw_size w)"
  let ?as = "mw_spokes w ! ?i"
  have i: "?i < length (mw_spokes w)" using mw_inv_index [OF I] by auto
  have z: "0 < mw_size w" and j: "?j < length (mw_spokes w)"
    using I by (auto simp: mw_inv_def wheel_wf_def nat_less_iff)
  have live: "\<exists>e. ?h a = Some e" if "k < length (mw_spokes w)" "a \<in> set (mw_spokes w ! k)" for k a
  proof -
    have "a \<in> set (concat (mw_spokes w))" using that by fastforce
    then show ?thesis using I countedD unfolding mw_inv_def by metis
  qed
  have keep: "h' a \<noteq> None \<and> expire_of h' a = expire_of ?h a \<and> mcall h' a = mcall ?h a"
    if a: "k < length (mw_spokes w)" "a \<in> set (mw_spokes w ! k)" "expire_of ?h a = mw_create w + d" for k a
  proof -
    obtain e where e: "?h a = Some e" using live a(1,2) by blast
    have t: "tick_of w e = d" using a(3) e by (simp add: tick_of_def expire_of_def)
    have "\<not> (a \<in> set ?as \<and> rot_of ?h a = 0)"
    proof
      assume "a \<in> set ?as \<and> rot_of ?h a = 0"
      then have "a \<in> set (due_list ?h w l)" using sync_ripe [OF I S] by (metis (mono_tags, lifting) mem_Collect_eq set_filter)
      then have "expire_of ?h a = mw_create w + l" by (simp add: due_list_def)
      then show False using a(3) d by simp
    qed
    then show ?thesis using e unfolding h' by (auto simp: aged_def expire_of_def mcall_def)
  qed
  have exp: "expire_of h' a = mw_create w + d \<longleftrightarrow> expire_of ?h a = mw_create w + d"
    if a: "k < length (mw_spokes w)" "a \<in> set (mw_spokes w ! k)" "a \<in> set ?as \<longrightarrow> rot_of ?h a \<noteq> 0" for k a
    using live [OF a(1,2)] a(3) unfolding h' by (auto simp: aged_def expire_of_def)
  show "due_list h' w' d = due_list ?h w d"
  proof (cases "?j = ?i")
    case False
    have "a \<notin> set ?as" if "a \<in> set (mw_spokes w ! ?j)" for a
      using mw_inv_distinct [OF I j i False] that by blast
    then have "filter (\<lambda>a. expire_of h' a = mw_create w + d) (mw_spokes w ! ?j) =
        filter (\<lambda>a. expire_of ?h a = mw_create w + d) (mw_spokes w ! ?j)"
      by (intro filter_cong refl exp [OF j]) auto
    moreover have "mw_spokes w' ! ?j = mw_spokes w ! ?j" using False w'(3) by simp
    ultimately show ?thesis by (simp only: due_list_def w'(1,2))
  next
    case True
    have "filter (\<lambda>a. expire_of h' a = mw_create w + d) (green ?h ?as) =
        filter (\<lambda>a. expire_of ?h a = mw_create w + d) (green ?h ?as)"
      by (intro filter_cong refl exp [OF i]) auto
    also have "\<dots> = filter (\<lambda>a. expire_of ?h a = mw_create w + d) ?as"
    proof -
      have "rot_of ?h a \<noteq> 0" if "a \<in> set ?as" "expire_of ?h a = mw_create w + d" for a
        using keep [OF i that] that(1) live [OF i that(1)] unfolding h' by (auto simp: aged_def split: if_splits)
      then show ?thesis by (auto simp: filter_filter intro!: filter_cong)
    qed
    finally show ?thesis using True i w' by (simp add: due_list_def)
  qed
  show "map (mcall h') (due_list ?h w d) = map (mcall ?h) (due_list ?h w d)"
    using keep [OF j] by (auto simp: due_list_def)
qed

text \<open>The timers that \<open>n\<close> ticks call, and what they leave.\<close>

definition due_between :: "(addr \<Rightarrow> melem option) \<Rightarrow> mwheel \<Rightarrow> int \<Rightarrow> nat \<Rightarrow> addr list" where
  "due_between h w l n = concat (map (\<lambda>k. due_list h w (l + int k)) [0 ..< n])"

lemma due_between_Suc:
  "due_between h w l (Suc n) = due_list h w l @ due_between h w (l + 1) n"
proof -
  have "[0 ..< Suc n] = 0 # map Suc [0 ..< n]" by (simp add: map_Suc_upt upt_conv_Cons del: upt_Suc)
  then show ?thesis by (simp add: due_between_def comp_def algebra_simps del: upt_Suc)
qed

lemma due_between_cong:
  assumes "\<And>d. l \<le> d \<Longrightarrow> due_list h' w' d = due_list h w d"
    "\<And>d. l \<le> d \<Longrightarrow> map (mcall h') (due_list h w d) = map (mcall h) (due_list h w d)"
  shows "map (mcall h') (due_between h' w' l n) = map (mcall h) (due_between h w l n)"
proof (induction n)
  case (Suc n)
  then show ?case using assms [of "l + int n"] by (simp add: due_between_def)
qed (simp add: due_between_def)

lemma due_between_length:
  assumes "\<And>d. l \<le> d \<Longrightarrow> due_list h' w' d = due_list h w d"
  shows "due_between h' w' l n = due_between h w l n"
  using assms by (simp add: due_between_def)

lemma sync_gone:
  assumes I: "mw_inv w t" and S: "sync (mt_elems t) w l" and e: "mt_elems t a = Some e"
  shows "aged (mt_elems t) (mw_spokes w ! nat (mw_spoke w)) a = None \<longleftrightarrow> tick_of w e = l"
proof -
  let ?as = "mw_spokes w ! nat (mw_spoke w)" and ?h = "mt_elems t"
  have R: "a \<in> set (ripe ?h ?as) \<longleftrightarrow> a \<in> set (due_list ?h w l)" using sync_ripe [OF I S] by simp
  have s: "mw_spoke w = l mod mw_size w" using S by (simp add: sync_def)
  have "aged ?h ?as a = None \<longleftrightarrow> a \<in> set (ripe ?h ?as)" using e by (auto simp: aged_def)
  also have "\<dots> \<longleftrightarrow> a \<in> set ?as \<and> tick_of w e = l"
    unfolding R using e s by (auto simp: due_list_def tick_of_def expire_of_def)
  also have "\<dots> \<longleftrightarrow> tick_of w e = l"
  proof -
    have "a \<in> set ?as" if t: "tick_of w e = l"
    proof -
      have "me_cursor e = mw_spoke w" using syncD [OF S e] s t by simp
      then show ?thesis using mw_inv_in [OF I e] by simp
    qed
    then show ?thesis by blast
  qed
  finally show ?thesis .
qed

lemma aged_frame: "aged h as a = Some e' \<Longrightarrow> \<exists>e r. h a = Some e \<and> e' = e\<lparr>me_rot := r\<rparr>"
  by (drule aged_Some) (metis melem.surjective melem.update_convs(2))

lemma mw_inv_cnt: "mw_inv w t \<Longrightarrow> mt_cnt t = int (length (concat (mw_spokes w)))"
  by (simp add: mw_inv_def counted_def)

definition survivors :: "(addr \<Rightarrow> melem option) \<Rightarrow> (addr \<Rightarrow> melem option) \<Rightarrow> int \<Rightarrow> bool" where
  "survivors h h' limit \<longleftrightarrow> (\<forall>a. h a = None \<longrightarrow> h' a = None) \<and>
     (\<forall>a e. h a = Some e \<longrightarrow> (if me_expire e < limit then h' a = None
        else \<exists>r. h' a = Some (e\<lparr>me_rot := r\<rparr>)))"

lemma survivors_tick:
  assumes I: "mw_inv w t" and S: "sync (mt_elems t) w l"
  shows "survivors (mt_elems t) (aged (mt_elems t) (mw_spokes w ! nat (mw_spoke w))) (mw_create w + l + 1)"
  unfolding survivors_def
proof (intro conjI allI impI)
  let ?as = "mw_spokes w ! nat (mw_spoke w)" and ?h = "mt_elems t"
  fix a
  show "aged ?h ?as a = None" if "?h a = None" using that by (simp add: aged_def)
  fix e assume e: "?h a = Some e"
  have l: "l \<le> tick_of w e" using syncD [OF S e] by simp
  show "if me_expire e < mw_create w + l + 1 then aged ?h ?as a = None
      else \<exists>r. aged ?h ?as a = Some (e\<lparr>me_rot := r\<rparr>)"
  proof (cases "tick_of w e = l")
    case True
    then show ?thesis using sync_gone [OF I S e] by (simp add: tick_of_def)
  next
    case False
    then obtain x where x: "aged ?h ?as a = Some x" using sync_gone [OF I S e] by auto
    have "\<not> me_expire e < mw_create w + l + 1" using False l by (simp add: tick_of_def)
    then show ?thesis using x aged_frame [OF x] e by auto
  qed
qed

lemma survivors_trans:
  "survivors h h1 x \<Longrightarrow> survivors h1 h2 y \<Longrightarrow> x \<le> y \<Longrightarrow> survivors h h2 y"
  unfolding survivors_def
proof (intro conjI allI impI, goal_cases)
  case (1 a)
  then show ?case by blast
next
  case (2 a e)
  show ?case
  proof (cases "me_expire e < x")
    case True
    then have "h1 a = None" using 2 by auto
    then show ?thesis using 2 True by auto
  next
    case False
    then obtain r where r: "h1 a = Some (e\<lparr>me_rot := r\<rparr>)" using 2 by fastforce
    then show ?thesis using 2(2) by (auto dest!: spec [where x = a] spec [where x = "e\<lparr>me_rot := r\<rparr>"] split: if_splits)
  qed
qed

lemma ticks_exact:
  "mw_inv w t \<Longrightarrow> sync (mt_elems t) w l \<Longrightarrow> i + int n < 2 ^ 31 \<Longrightarrow> mt_cnt t \<le> mx - cnt \<Longrightarrow>
   \<exists>w' t'. wheel_ticks mx n i cnt w t = Some (cnt + int (length (due_between (mt_elems t) w l n)),
       map (mcall (mt_elems t)) (due_between (mt_elems t) w l n), w', t') \<and>
     mw_inv w' t' \<and> sync (mt_elems t') w' (l + int n) \<and> mw_create w' = mw_create w \<and>
     mw_size w' = mw_size w \<and> mt_body t' = mt_body t \<and>
     survivors (mt_elems t) (mt_elems t') (mw_create w + l + int n)"
proof (induction n arbitrary: i cnt w t l)
  case 0
  have "\<exists>r. e = e\<lparr>me_rot := r\<rparr>" for e :: melem by (rule exI [where x = "me_rot e"]) simp
  moreover have "\<not> me_expire e < mw_create w + l" if "mt_elems t a = Some e" for a e
    using syncD [OF "0.prems"(2) that] by (simp add: tick_of_def)
  ultimately have "survivors (mt_elems t) (mt_elems t) (mw_create w + l)" by (simp add: survivors_def)
  then show ?case using "0.prems"(1,2) by (simp add: due_between_def)
next
  case (Suc n)
  let ?i = "nat (mw_spoke w)" and ?h = "mt_elems t"
  let ?as = "mw_spokes w ! ?i"
  note I = Suc.prems(1) and S = Suc.prems(2)
  have i: "?i < length (mw_spokes w)" "0 \<le> mw_spoke w" using mw_inv_index [OF I] by auto
  have R: "ripe ?h ?as = due_list ?h w l" by (rule sync_ripe [OF I S])
  have le: "length ?as \<le> length (concat (mw_spokes w))"
    by (subst (2) id_take_nth_drop [OF i(1)]) simp
  have few: "int (length (ripe ?h ?as)) \<le> mx - cnt"
    using Suc.prems(4) mw_inv_cnt [OF I] le length_filter_le [of "\<lambda>a. rot_of ?h a = 0" ?as] by linarith
  obtain pre suf t' where r: "?as = pre @ suf"
    "spoke_check mx cnt ?as t = Some (spoke_result cnt pre suf t t')"
    "mt_elems t' = aged ?h pre" "mt_body t' = mt_body t" "suf = []"
    "mw_inv (w\<lparr>mw_spokes := (mw_spokes w)[?i := green ?h pre @ suf]\<rparr>) t'"
    using tick [OF I i(1), of mx cnt] few by blast
  then have p: "pre = ?as" by simp
  let ?w = "w\<lparr>mw_spokes := (mw_spokes w)[?i := green ?h ?as]\<rparr>"
  let ?w1 = "?w\<lparr>mw_spoke := (mw_spoke ?w + 1) mod mw_size ?w\<rparr>"
  let ?k = "cnt + int (length (due_list ?h w l))"
  have h': "mt_elems t' = aged ?h ?as" using r(3) p by simp
  have I1: "mw_inv ?w1 t'" using mw_inv_spoke [OF r(6)] r(5) p by simp
  have S1: "sync (mt_elems t') ?w1 (l + 1)" unfolding h' by (rule sync_tick [OF I S]) simp_all
  have lt: "i + 1 + int n < 2 ^ 31" using Suc.prems(3) by simp
  have "length (concat (mw_spokes ?w1)) + length ?as = length (concat (mw_spokes w)) + length (green ?h ?as)"
    using concat_upd_length [OF i(1), of "green ?h ?as"] by simp
  moreover have "length ?as = length (ripe ?h ?as) + length (green ?h ?as)"
    using sum_length_filter_compl [of "\<lambda>a. rot_of ?h a = 0" ?as] by simp
  ultimately have c1: "mt_cnt t' \<le> mx - ?k"
    using Suc.prems(4) unfolding mw_inv_cnt [OF I] mw_inv_cnt [OF I1] R [symmetric] by linarith
  have later: "due_list (mt_elems t') ?w1 d = due_list ?h w d"
    "map (mcall (mt_elems t')) (due_list ?h w d) = map (mcall ?h) (due_list ?h w d)" if d: "l + 1 \<le> d" for d
    using due_list_later [OF I S, of d ?w1 "mt_elems t'"] d h' by simp_all
  have B: "due_between (mt_elems t') ?w1 (l + 1) n = due_between ?h w (l + 1) n"
    by (rule due_between_length) (rule later(1))
  have M: "map (mcall (mt_elems t')) (due_between (mt_elems t') ?w1 (l + 1) n) =
      map (mcall ?h) (due_between ?h w (l + 1) n)"
    by (rule due_between_cong) (rule later, assumption)+
  obtain w2 t2 where s: "wheel_ticks mx n (i + 1) ?k ?w1 t' =
      Some (?k + int (length (due_between ?h w (l + 1) n)), map (mcall ?h) (due_between ?h w (l + 1) n), w2, t2)"
    "mw_inv w2 t2" "sync (mt_elems t2) w2 (l + 1 + int n)" "mw_create w2 = mw_create w" "mw_size w2 = mw_size w"
    "mt_body t2 = mt_body t'" "survivors (mt_elems t') (mt_elems t2) (mw_create w + (l + 1) + int n)"
    using Suc.IH [OF I1 S1 lt c1] unfolding B M [unfolded B] by auto
  have rd: "rd (mw_spokes w) (mw_spoke w) = Some ?as" using i by (simp add: rd_def)
  have wr: "wr (mw_spokes w) (mw_spoke w) q = Some ((mw_spokes w)[?i := q])" for q using i by (simp add: wr_def)
  have "wheel_ticks mx (Suc n) i cnt w t = Some (cnt + int (length (due_between ?h w l (Suc n))),
      map (mcall ?h) (due_between ?h w l (Suc n)), w2, t2)"
    using r(2,5) p s(1) lt R by (simp add: rd wr spoke_result_def due_between_Suc Let_def)
  moreover have "survivors ?h (mt_elems t2) (mw_create w + l + int (Suc n))"
    using survivors_trans [OF survivors_tick [OF I S], of "mt_elems t2" "mw_create w + (l + 1) + int n"] s(7) h'
    by (simp add: algebra_simps)
  ultimately show ?case using s(2-6) r(4) by (auto simp: algebra_simps)
qed

section \<open>Every operation keeps a timer well-formed\<close>

definition minv :: "mtimer \<Rightarrow> bool" where
  "minv t \<longleftrightarrow> (case mt_body t of MQueue q \<Rightarrow> qinv q t | MWheel w \<Rightarrow> mw_inv w t)"

datatype mop = MAdd int int nat nat addr | MDel addr "nat option" nat | MReset addr int int | MCheck int int

definition mop_step :: "mop \<Rightarrow> mtimer \<Rightarrow> mtimer option" where
  "mop_step op t = (case op of
     MAdd now timeout cb ev m \<Rightarrow> map_option (\<lambda>(r, p, t). t) (MESA_timer_add now timeout cb ev m t)
   | MDel a cb para \<Rightarrow> map_option (\<lambda>(r, cs, t). t) (MESA_timer_del a cb para t)
   | MReset a now timeout \<Rightarrow> map_option snd (MESA_timer_reset a now timeout t)
   | MCheck now mx \<Rightarrow> map_option (\<lambda>(r, cs, t). t) (MESA_timer_check now mx t))"

definition time_ok :: "int \<Rightarrow> int \<Rightarrow> bool" where
  "time_ok now timeout \<longleftrightarrow> 0 \<le> now \<and> now < 2 ^ 62 \<and> 0 \<le> timeout \<and> timeout < 2 ^ 31"

definition clock_ok :: "int \<Rightarrow> mtimer \<Rightarrow> bool" where
  "clock_ok now t \<longleftrightarrow> (case mt_body t of MQueue q \<Rightarrow> True | MWheel w \<Rightarrow> mw_create w \<le> now)"

text \<open>
  What a caller keeps to: sane times, a clock that does not go back behind the creation,
  fresh memory, live timers; and on a queue, a reset to an expiry that is not before that
  of another timer.
\<close>

definition mop_ok :: "mtimer \<Rightarrow> mop \<Rightarrow> bool" where
  "mop_ok t op \<longleftrightarrow> (case op of
     MAdd now timeout cb ev m \<Rightarrow> time_ok now timeout \<and> clock_ok now t \<and> m \<noteq> 0 \<and> mt_elems t m = None
   | MDel a cb para \<Rightarrow> mt_elems t a \<noteq> None
   | MReset a now timeout \<Rightarrow> time_ok now timeout \<and> clock_ok now t \<and> mt_elems t a \<noteq> None \<and>
       (\<forall>q. mt_body t = MQueue q \<longrightarrow> (\<forall>b. b \<noteq> a \<longrightarrow> mt_elems t b \<noteq> None \<longrightarrow>
          expire_of (mt_elems t) b \<le> now + timeout))
   | MCheck now mx \<Rightarrow> 0 \<le> now \<and> 0 \<le> mx \<and> (\<forall>w. mt_body t = MWheel w \<longrightarrow>
       mw_create w \<le> now \<and> now - mw_create w < 2 ^ 31))"

lemma long_ok: "time_ok now timeout \<Longrightarrow> long (now + timeout) = Some (now + timeout)"
  by (simp add: time_ok_def long_def)

text \<open>Where a new timer goes.\<close>

lemma placed:
  assumes I: "mw_inv w t" and T: "time_ok now timeout" and c: "mw_create w \<le> now"
    and w': "w' = wheel_start now w"
  shows "mw_inv w' t \<and> wheel_cursor now timeout w' = Some ((now - mw_create w' + timeout) mod mw_size w') \<and>
    to_int (c_div timeout (mw_size w')) = timeout div mw_size w' \<and> 0 \<le> timeout div mw_size w' \<and>
    0 \<le> (now - mw_create w' + timeout) mod mw_size w' \<and>
    (now - mw_create w' + timeout) mod mw_size w' < mw_size w'"
proof -
  have t: "0 \<le> now" "0 \<le> timeout" "timeout < 2 ^ 31" "now < 2 ^ 62" using T by (simp_all add: time_ok_def)
  have I': "mw_inv w' t" unfolding w' by (rule mw_inv_start [OF I t(1)])
  have wf: "wheel_wf (mt_elems t) w" using I by (simp add: mw_inv_def)
  have s: "0 < mw_size w'" using I' by (simp add: mw_inv_def wheel_wf_def)
  have c': "mw_create w' \<le> now" "0 \<le> mw_create w'"
    using c wf t(1) unfolding w' by (auto simp: wheel_start_def wheel_wf_def)
  have m: "0 \<le> timeout mod mw_size w'" "timeout mod mw_size w' \<le> timeout"
    using s t(2) by (simp_all add: zmod_le_nonneg_dividend)
  have x: "long (now - mw_create w' + c_rem timeout (mw_size w')) = Some (now - mw_create w' + timeout mod mw_size w')"
    using c' m t by (simp add: long_def c_rem_def)
  have nn: "\<not> now - mw_create w' + timeout mod mw_size w' < 0" using c' m by linarith
  have "wheel_cursor now timeout w' = Some ((now - mw_create w' + timeout mod mw_size w') mod mw_size w')"
    unfolding wheel_cursor_def x using nn by (simp add: c_rem_def)
  also have "\<dots> = Some ((now - mw_create w' + timeout) mod mw_size w')" by (simp add: mod_add_right_eq)
  finally have "wheel_cursor now timeout w' = Some ((now - mw_create w' + timeout) mod mw_size w')" .
  moreover have "0 \<le> timeout div mw_size w'" using s t(2) by (simp add: pos_imp_zdiv_nonneg_iff)
  moreover have "timeout div mw_size w' \<le> timeout" using zdiv_mono2 [of timeout 1 "mw_size w'"] s t(2) by simp
  ultimately show ?thesis using I' s t(2,3) by (simp add: to_int_def c_div_def)
qed

lemma minv_queue: "mt_body t = MQueue q \<Longrightarrow> minv t = qinv q t"
  and minv_wheel: "mt_body t = MWheel w \<Longrightarrow> minv t = mw_inv w t"
  by (simp_all add: minv_def)

lemma qinv_body [simp]: "qinv q (t\<lparr>mt_body := b\<rparr>) = qinv q t"
  by (simp add: qinv_def)

lemma add_ok:
  assumes M: "minv t" and ok: "mop_ok t (MAdd now timeout cb ev m)"
  shows "\<exists>t'. mop_step (MAdd now timeout cb ev m) t = Some t' \<and> minv t'"
proof -
  have T: "time_ok now timeout" and m: "m \<noteq> 0" "mt_elems t m = None" and c: "clock_ok now t"
    using ok by (simp_all add: mop_ok_def)
  have nn: "0 \<le> now" "0 \<le> timeout" using T by (simp_all add: time_ok_def)
  note L = long_ok [OF T]
  show ?thesis
  proof (cases "mt_body t")
    case (MQueue q)
    then have I: "qinv q t" using M by (simp add: minv_def)
    show ?thesis
    proof (cases "now + timeout < mq_last q")
      case True
      then show ?thesis using MQueue nn L M by (simp add: mop_step_def MESA_timer_add_def)
    next
      case False
      let ?e = "\<lparr>me_expire = now + timeout, me_rot = 0, me_cursor = 0, me_callback = cb, me_event = ev\<rparr>"
      let ?q = "q\<lparr>mq_last := now + timeout, mq_queue := mq_queue q @ [m]\<rparr>"
      let ?t = "(keep_elem m ?e t)\<lparr>mt_body := MQueue ?q\<rparr>"
      have "qinv ?q ?t" using queue_add [OF I m(2), of ?e "MQueue ?q"] False by simp
      then have "minv ?t" by (simp add: minv_def)
      then show ?thesis using MQueue nn L m(1) False by (simp add: mop_step_def MESA_timer_add_def)
    qed
  next
    case (MWheel w0)
    then have I: "mw_inv w0 t" and c0: "mw_create w0 \<le> now" using M c by (simp_all add: minv_def clock_ok_def)
    define w where "w = wheel_start now w0"
    note P = placed [OF I T c0 w_def]
    let ?c = "(now - mw_create w + timeout) mod mw_size w"
    let ?e = "\<lparr>me_expire = now + timeout, me_rot = timeout div mw_size w, me_cursor = ?c, me_callback = cb, me_event = ev\<rparr>"
    obtain w' where w': "wheel_insert m ?c w = Some w'" "\<And>b. mw_inv w' ((keep_elem m ?e t)\<lparr>mt_body := b\<rparr>)"
      using wheel_add [of w t m ?e] P m(2) by auto
    have "minv ((keep_elem m ?e t)\<lparr>mt_body := MWheel w'\<rparr>)" using w'(2) by (simp add: minv_def)
    then show ?thesis
      using MWheel nn L m(1) P w'(1) by (simp add: mop_step_def MESA_timer_add_def w_def [symmetric] Let_def)
  qed
qed

lemma del_ok:
  assumes M: "minv t" and a: "mt_elems t a = Some e"
  shows "\<exists>t'. MESA_timer_del a cb para t = Some (me_expire e, call_opt cb para, t') \<and> minv t' \<and>
    mt_elems t' = (mt_elems t)(a := None)"
proof (cases "mt_body t")
  case (MQueue q)
  then have I: "qinv q t" using M by (simp add: minv_def)
  then have "a \<in> set (mq_queue q)" using a by (auto simp: qinv_def counted_def)
  then obtain q' where q': "mq_remove a (mt_elems t) q = Some q'"
    "qinv q' ((drop_elem a t)\<lparr>mt_body := MQueue q'\<rparr>)" using queue_del [OF I] by fastforce
  let ?t = "(drop_elem a t)\<lparr>mt_body := MQueue q'\<rparr>"
  have "minv ?t" using q'(2) by (simp add: minv_def)
  then show ?thesis using MQueue a q'(1) by (simp add: MESA_timer_del_def)
next
  case (MWheel w)
  then have I: "mw_inv w t" using M by (simp add: minv_def)
  obtain w' where w': "wheel_remove a (me_cursor e) w = Some w'" "mw_inv w' ((drop_elem a t)\<lparr>mt_body := MWheel w'\<rparr>)"
    using wheel_del [OF I a] by fastforce
  let ?t = "(drop_elem a t)\<lparr>mt_body := MWheel w'\<rparr>"
  have "minv ?t" using w'(2) by (simp add: minv_def)
  then show ?thesis using MWheel a w'(1) by (simp add: MESA_timer_del_def)
qed

lemma reset_ok:
  assumes M: "minv t" and ok: "mop_ok t (MReset a now timeout)"
  shows "\<exists>t'. MESA_timer_reset a now timeout t = Some (0, t') \<and> minv t'"
proof -
  obtain e where e: "mt_elems t a = Some e" using ok by (auto simp: mop_ok_def)
  have T: "time_ok now timeout" and c: "clock_ok now t" using ok by (simp_all add: mop_ok_def)
  have nn: "0 \<le> now" "0 \<le> timeout" using T by (simp_all add: time_ok_def)
  note L = long_ok [OF T]
  show ?thesis
  proof (cases "mt_body t")
    case (MQueue q)
    then have I: "qinv q t" using M by (simp add: minv_def)
    have C: "counted (mq_queue q) sizeof_timer t" using I by (simp add: qinv_def)
    have a: "a \<in> set (mq_queue q)" using C e by (auto simp: counted_def)
    obtain q' where r: "mq_remove a (mt_elems t) q = Some q'" "a \<notin> set (mq_queue q')"
      "mset (mq_queue q) = mset (a # mq_queue q')" by (rule mq_remove_ok [OF I a]) blast
    have x: "mq_last q' \<le> now + timeout"
    proof (cases "mq_queue q' = []")
      case True
      then show ?thesis using r(1) nn
        by (auto simp: mq_remove_def queue_last_def tailq_remove_def Option.bind_eq_Some_conv split: if_splits)
    next
      case False
      let ?b = "last (mq_queue q')"
      have b: "?b \<in> set (mq_queue q')" using False by simp
      have "set (mq_queue q) = set (a # mq_queue q')" using r(3) by (rule mset_eq_setD)
      then have "?b \<in> set (mq_queue q)" using b by simp
      then obtain x where x: "mt_elems t ?b = Some x" using countedD [OF C] by metis
      have "?b \<noteq> a" using b r(2) by metis
      then have "expire_of (mt_elems t) ?b \<le> now + timeout" using ok MQueue x by (simp add: mop_ok_def)
      moreover have "mq_last q' = expire_of (mt_elems t) ?b"
        using r(1) False by (auto simp: mq_remove_def queue_last_def Option.bind_eq_Some_conv expire_of_def split: if_splits)
      ultimately show ?thesis by simp
    qed
    let ?q = "q'\<lparr>mq_last := now + timeout, mq_queue := mq_queue q' @ [a]\<rparr>"
    let ?t = "t\<lparr>mt_elems := (mt_elems t)(a \<mapsto> e\<lparr>me_expire := now + timeout\<rparr>), mt_body := MQueue ?q\<rparr>"
    have "qinv ?q ?t" by (rule queue_reset [OF I a e r(1) x])
    then have "minv ?t" by (simp add: minv_def)
    then show ?thesis using MQueue e r(1) L x by (simp add: MESA_timer_reset_def)
  next
    case (MWheel w0)
    then have I0: "mw_inv w0 t" and c0: "mw_create w0 \<le> now" using M c by (simp_all add: minv_def clock_ok_def)
    obtain w1 where w1: "wheel_remove a (me_cursor e) w0 = Some w1"
      "w1 = w0\<lparr>mw_spokes := mw_spokes w1\<rparr>" "wheel_wf (mt_elems t) w1"
      "mset (concat (mw_spokes w0)) = mset (a # concat (mw_spokes w1))" "a \<notin> set (concat (mw_spokes w1))"
      using wheel_remove_wf [OF I0 e] by fastforce
    define w where "w = wheel_start now w1"
    have st: "wheel_start now w1 = (wheel_start now w0)\<lparr>mw_spokes := mw_spokes w1\<rparr>"
      by (subst w1(2)) (simp add: wheel_start_def)
    note P = placed [OF I0 T c0 refl]
    have f: "mw_create w = mw_create (wheel_start now w0)" "mw_size w = mw_size (wheel_start now w0)"
      "mw_spokes w = mw_spokes w1" by (simp_all add: w_def st)
    have cu: "wheel_cursor now timeout w = wheel_cursor now timeout (wheel_start now w0)"
      by (simp add: wheel_cursor_def f)
    let ?c = "(now - mw_create w + timeout) mod mw_size w"
    let ?e = "e\<lparr>me_expire := now + timeout, me_rot := timeout div mw_size w, me_cursor := ?c\<rparr>"
    have W: "wheel_wf (mt_elems t) w"
      using w1(3) nn unfolding w_def wheel_start_def by (auto simp: wheel_wf_def)
    obtain w' where w': "wheel_insert a ?c w = Some w'" "wheel_wf ((mt_elems t)(a \<mapsto> ?e)) w'"
      "mset (concat (mw_spokes w')) = mset (a # concat (mw_spokes w))"
      "w' = w\<lparr>mw_spokes := (mw_spokes w)[nat ?c := mw_spokes w ! nat ?c @ [a]]\<rparr>"
      using wheel_insert_wf [OF W, of ?c a ?e] P w1(5) by (auto simp: f)
    have C: "counted (concat (mw_spokes w0)) (wheel_mem w0) t" using I0 by (simp add: mw_inv_def)
    have "a \<in> set (concat (mw_spokes w0))" using C e by (auto simp: counted_def)
    then have "counted (concat (mw_spokes w0)) (wheel_mem w0) (t\<lparr>mt_elems := (mt_elems t)(a \<mapsto> ?e)\<rparr>)"
      by (rule counted_update [OF C])
    then have "counted (concat (mw_spokes w')) (wheel_mem w0) (t\<lparr>mt_elems := (mt_elems t)(a \<mapsto> ?e)\<rparr>)"
      by (rule counted_perm) (simp add: w1(4) w'(3) f)
    moreover have "wheel_mem w' = wheel_mem w0"
      by (simp add: w'(4) wheel_mem_def f) (simp add: wheel_start_def)
    ultimately have "minv (t\<lparr>mt_elems := (mt_elems t)(a \<mapsto> ?e), mt_body := MWheel w'\<rparr>)"
      using w'(2) by (simp add: minv_def mw_inv_def counted_def)
    moreover have "MESA_timer_reset a now timeout t =
        Some (0, t\<lparr>mt_elems := (mt_elems t)(a \<mapsto> ?e), mt_body := MWheel w'\<rparr>)"
      using MWheel e w1(1) L P w'(1) cu by (simp add: MESA_timer_reset_def w_def [symmetric] f Let_def)
    ultimately show ?thesis by blast
  qed
qed

lemma takeWhile_sorted:
  "sorted (map f as) \<Longrightarrow> takeWhile (\<lambda>a. f a \<le> x) as = filter (\<lambda>a. f a \<le> x) as"
proof (induction as)
  case (Cons a as)
  show ?case
  proof (cases "f a \<le> x")
    case False
    then have "filter (\<lambda>b. f b \<le> x) as = []" using Cons.prems by (fastforce simp: filter_empty_conv)
    then show ?thesis using False by simp
  qed (use Cons in simp)
qed simp

definition due_first :: "(addr \<Rightarrow> melem option) \<Rightarrow> int \<Rightarrow> int \<Rightarrow> addr list \<Rightarrow> addr list" where
  "due_first h now mx as = take (nat mx) (filter (\<lambda>a. expire_of h a \<le> now) as)"

lemma check_queue:
  assumes b: "mt_body t = MQueue q" and I: "qinv q t" and n: "0 \<le> now" "0 \<le> mx"
  shows "\<exists>t'. MESA_timer_check now mx t = (let f = due_first (mt_elems t) now mx (mq_queue q) in
      Some (int (length f), map (mcall (mt_elems t)) f, t')) \<and>
    (let q' = q\<lparr>mq_queue := drop (length (due_first (mt_elems t) now mx (mq_queue q))) (mq_queue q)\<rparr> in
      mt_body t' = MQueue q' \<and> qinv q' t' \<and>
      (\<forall>a \<in> set (mq_queue q'). mt_elems t' a = mt_elems t a))"
proof -
  have C: "counted (mq_queue q) sizeof_timer t" and S: "sorted (map (expire_of (mt_elems t)) (mq_queue q))"
    and L: "\<forall>a \<in> set (mq_queue q). expire_of (mt_elems t) a \<le> mq_last q" using I by (simp_all add: qinv_def)
  let ?f = "due_first (mt_elems t) now mx (mq_queue q)"
  let ?q = "q\<lparr>mq_queue := drop (length ?f) (mq_queue q)\<rparr>"
  have f: "take (nat (mx - 0)) (takeWhile (\<lambda>a. expire_of (mt_elems t) a \<le> now) (mq_queue q)) = ?f"
    by (simp add: due_first_def takeWhile_sorted [OF S])
  obtain t' where t': "mq_check now mx 0 (mq_queue q) t = Some (0 + int (length ?f), map (mcall (mt_elems t)) ?f,
      drop (length ?f) (mq_queue q), t')" "counted (drop (length ?f) (mq_queue q)) sizeof_timer t'"
    "\<forall>b \<in> set (drop (length ?f) (mq_queue q)). mt_elems t' b = mt_elems t b"
    using mq_check_run [OF C, of now mx 0] unfolding f Let_def by blast
  let ?t = "t'\<lparr>mt_body := MQueue ?q\<rparr>"
  have e: "\<forall>b \<in> set (mq_queue ?q). expire_of (mt_elems t') b = expire_of (mt_elems t) b"
    using t'(3) by (simp add: expire_of_def)
  have "map (expire_of (mt_elems t')) (mq_queue ?q) = drop (length ?f) (map (expire_of (mt_elems t)) (mq_queue q))"
    using e by (simp add: drop_map)
  then have "sorted (map (expire_of (mt_elems t')) (mq_queue ?q))" using S by (simp add: sorted_wrt_drop)
  moreover have "\<forall>b \<in> set (mq_queue ?q). expire_of (mt_elems t') b \<le> mq_last ?q"
    using e L by (auto dest: in_set_dropD)
  ultimately have "qinv ?q ?t" using t'(2) by (simp add: qinv_def)
  moreover have "MESA_timer_check now mx t = Some (int (length ?f), map (mcall (mt_elems t)) ?f, ?t)"
    using b n t'(1) by (simp add: MESA_timer_check_def)
  ultimately show ?thesis using t'(3) by (simp add: Let_def)
qed

lemma check_ok:
  assumes M: "minv t" and ok: "mop_ok t (MCheck now mx)"
  shows "\<exists>r cs t'. MESA_timer_check now mx t = Some (r, cs, t') \<and> minv t'"
proof (cases "mt_body t")
  case (MQueue q)
  then have I: "qinv q t" using M by (simp add: minv_def)
  have n: "0 \<le> now" "0 \<le> mx" using ok by (simp_all add: mop_ok_def)
  obtain t' q' r cs where "MESA_timer_check now mx t = Some (r, cs, t')" "mt_body t' = MQueue q'" "qinv q' t'"
    using check_queue [OF MQueue I n] unfolding Let_def by blast
  then show ?thesis by (auto simp: minv_def)
next
  case (MWheel w)
  then have I: "mw_inv w t" using M by (simp add: minv_def)
  have n: "0 \<le> now" "0 \<le> mx" "mw_create w \<le> now" "now - mw_create w < 2 ^ 31"
    using ok MWheel by (simp_all add: mop_ok_def)
  show ?thesis
  proof (cases "mw_create w = - 1")
    case True
    then show ?thesis using MWheel n M by (simp add: MESA_timer_check_def)
  next
    case False
    then have c: "0 \<le> mw_create w" "0 \<le> mw_last w" using I by (auto simp: mw_inv_def wheel_wf_def)
    let ?n = "nat (now - mw_create w - mw_last w)"
    have "0 + int ?n < 2 ^ 31" using n c by simp
    then obtain k cs w' t' where s: "wheel_ticks mx ?n 0 0 w t = Some (k, cs, w', t')" "mw_inv w' t'"
      "mw_create w' = mw_create w" using ticks_safe [OF I, of 0 ?n mx 0] by blast
    let ?w = "w'\<lparr>mw_last := now - mw_create w\<rparr>"
    have "mw_inv ?w (t'\<lparr>mt_body := MWheel ?w\<rparr>)"
      using s(2,3) n c by (auto simp: mw_inv_def wheel_wf_def wheel_mem_def)
    then have "minv (t'\<lparr>mt_body := MWheel ?w\<rparr>)" by (simp add: minv_def)
    then show ?thesis using MWheel n s(1,3) False by (simp add: MESA_timer_check_def)
  qed
qed

lemma mop_sound:
  assumes M: "minv t" and ok: "mop_ok t op"
  shows "\<exists>t'. mop_step op t = Some t' \<and> minv t'"
proof (cases op)
  case (MAdd now timeout cb ev m)
  then show ?thesis using add_ok [OF M] ok by blast
next
  case (MDel a cb para)
  then obtain e where "mt_elems t a = Some e" using ok by (auto simp: mop_ok_def)
  from del_ok [OF M this, of cb para] show ?thesis using MDel by (auto simp: mop_step_def)
next
  case (MReset a now timeout)
  then obtain t' where "MESA_timer_reset a now timeout t = Some (0, t')" "minv t'" using reset_ok [OF M] ok by blast
  then show ?thesis using MReset by (simp add: mop_step_def)
next
  case (MCheck now mx)
  then obtain r cs t' where "MESA_timer_check now mx t = Some (r, cs, t')" "minv t'" using check_ok [OF M] ok by blast
  then show ?thesis using MCheck by (simp add: mop_step_def)
qed

fun mrun :: "mop list \<Rightarrow> mtimer \<Rightarrow> mtimer option" where
  "mrun [] t = Some t"
| "mrun (op # ops) t = Option.bind (mop_step op t) (mrun ops)"

fun mops_ok :: "mtimer \<Rightarrow> mop list \<Rightarrow> bool" where
  "mops_ok t [] \<longleftrightarrow> True"
| "mops_ok t (op # ops) \<longleftrightarrow> mop_ok t op \<and>
     (case mop_step op t of None \<Rightarrow> True | Some t' \<Rightarrow> mops_ok t' ops)"

lemma mrun_sound: "minv t \<Longrightarrow> mops_ok t ops \<Longrightarrow> \<exists>t'. mrun ops t = Some t' \<and> minv t'"
proof (induction ops arbitrary: t)
  case (Cons op ops)
  have ok: "mop_ok t op" using Cons.prems(2) by simp
  obtain t1 where t1: "mop_step op t = Some t1" "minv t1" using mop_sound [OF Cons.prems(1) ok] by blast
  then have "mops_ok t1 ops" using Cons.prems(2) by simp
  then show ?case using Cons.IH [OF t1(2)] t1(1) by simp
qed simp

lemma create_ok: "MESA_timer_create n ty = Some t \<Longrightarrow> minv t"
  by (auto simp: MESA_timer_create_def minv_def qinv_def mw_inv_def counted_def wheel_wf_def wheel_mem_def
      split: if_splits)

lemma free_elems_all: "distinct as \<Longrightarrow> set as \<subseteq> dom h \<Longrightarrow> free_elems as h = Some (h |` (- set as))"
proof (induction as arbitrary: h)
  case (Cons a as)
  then obtain e where e: "h a = Some e" by auto
  have "free_elems as (h(a := None)) = Some ((h(a := None)) |` (- set as))"
    by (rule Cons.IH) (use Cons.prems in auto)
  moreover have "(h(a := None)) |` (- set as) = h |` (- set (a # as))"
    by (auto simp: restrict_map_def)
  ultimately show ?case using e by simp
qed (simp add: restrict_map_def)

lemma free_elems_append: "free_elems (as @ bs) h = Option.bind (free_elems as h) (free_elems bs)"
  by (induction as arbitrary: h) (auto split: option.split)

lemma free_spokes_concat: "free_spokes qs = free_elems (concat qs)"
proof (induction qs)
  case (Cons q qs)
  show ?case by (rule ext) (simp add: free_elems_append Cons.IH)
qed (simp add: fun_eq_iff)

lemma destroy_all: "minv t \<Longrightarrow> MESA_timer_destroy t = Some (\<lambda>a. None)"
proof -
  assume M: "minv t"
  have all: "free_elems as (mt_elems t) = Some (\<lambda>a. None)" if "counted as b t" for as b
  proof -
    have "(mt_elems t) |` (- set as) = (\<lambda>a. None)"
      using that by (auto simp: counted_def restrict_map_def fun_eq_iff)
    then show ?thesis using that free_elems_all [of as "mt_elems t"] by (simp add: counted_def)
  qed
  show ?thesis using M all
    by (cases "mt_body t") (auto simp: MESA_timer_destroy_def minv_def qinv_def mw_inv_def free_spokes_concat)
qed

lemma count_live: "minv t \<Longrightarrow> finite (dom (mt_elems t)) \<and> MESA_timer_count t = int (card (dom (mt_elems t)))"
proof -
  assume M: "minv t"
  have c: "finite (dom (mt_elems t)) \<and> mt_cnt t = int (card (dom (mt_elems t)))" if "counted as b t" for as b
    using that distinct_card [of as] by (simp add: counted_def)
  show ?thesis using M c by (cases "mt_body t") (auto simp: MESA_timer_count_def minv_def qinv_def mw_inv_def)
qed

section \<open>Scripts that stay in step with the clock\<close>

definition in_step :: "mtimer \<Rightarrow> bool" where
  "in_step t \<longleftrightarrow> (\<exists>w. mt_body t = MWheel w \<and> mw_inv w t \<and>
     (if mw_last w = - 1 then mt_elems t = (\<lambda>a. None) else sync (mt_elems t) w (mw_last w)))"

text \<open>
  A timer is added (or reset) when the wheel is behind the clock by less than what is left
  of a rotation after the timeout, and a check may call every timer.
\<close>

definition near :: "int \<Rightarrow> int \<Rightarrow> mwheel \<Rightarrow> bool" where
  "near now timeout w \<longleftrightarrow> mw_last w = - 1 \<or>
     mw_last w \<le> now - mw_create w \<and> now - mw_create w - mw_last w + timeout mod mw_size w < mw_size w"

definition in_time :: "mtimer \<Rightarrow> mop \<Rightarrow> bool" where
  "in_time t op \<longleftrightarrow> (case mt_body t of MQueue q \<Rightarrow> False | MWheel w \<Rightarrow>
     (case op of
        MAdd now timeout cb ev m \<Rightarrow> near now timeout w
      | MReset a now timeout \<Rightarrow> near now timeout w
      | MDel a cb para \<Rightarrow> True
      | MCheck now mx \<Rightarrow> mw_last w \<le> now - mw_create w \<and> mt_cnt t \<le> mx))"

fun all_in_time :: "mtimer \<Rightarrow> mop list \<Rightarrow> bool" where
  "all_in_time t [] \<longleftrightarrow> True"
| "all_in_time t (op # ops) \<longleftrightarrow> in_time t op \<and>
     (case mop_step op t of None \<Rightarrow> True | Some t' \<Rightarrow> all_in_time t' ops)"

lemma in_stepE:
  assumes "in_step t"
  obtains w where "mt_body t = MWheel w" "mw_inv w t"
    "if mw_last w = - 1 then mt_elems t = (\<lambda>a. None) else sync (mt_elems t) w (mw_last w)"
  using assms by (auto simp: in_step_def)

lemma in_stepI:
  assumes "mt_body t = MWheel w" "minv t"
    "if mw_last w = - 1 then mt_elems t = (\<lambda>a. None) else sync (mt_elems t) w (mw_last w)"
  shows "in_step t"
  using assms by (auto simp: in_step_def minv_def)

lemma sync_sub: "sync h w l \<Longrightarrow> (\<And>a e. h' a = Some e \<Longrightarrow> h a = Some e) \<Longrightarrow> sync h' w l"
  unfolding sync_def by blast

lemma sync_cong:
  "sync h w l \<Longrightarrow> mw_spoke w' = mw_spoke w \<Longrightarrow> mw_create w' = mw_create w \<Longrightarrow> mw_size w' = mw_size w \<Longrightarrow>
    sync h w' l"
  by (simp add: sync_def tick_of_def)

lemma sync_put:
  assumes S: "sync h w l"
    and e: "l \<le> tick_of w e" "me_cursor e = tick_of w e mod mw_size w"
      "me_rot e = (tick_of w e - l) div mw_size w"
  shows "sync (h(m \<mapsto> e)) w l"
  using S e unfolding sync_def by (auto split: if_splits)

lemma near_rot:
  fixes d s timeout :: int
  assumes "0 < s" "0 \<le> d" "d + timeout mod s < s"
  shows "(d + timeout) div s = timeout div s"
proof -
  have "d + timeout = (d + timeout mod s) + (timeout div s) * s" using div_mult_mod_eq [of timeout s] by simp
  then have "(d + timeout) div s = (d + timeout mod s) div s + timeout div s"
    using assms(1) by (simp only: div_mult_self1)
  moreover have "0 \<le> timeout mod s" using assms(1) by simp
  ultimately show ?thesis using assms by (simp add: div_pos_pos_trivial)
qed

lemma sync_start:
  assumes I: "mw_inv w t" and S: "if mw_last w = - 1 then h = (\<lambda>a. None) else sync h w (mw_last w)"
  shows "sync h (wheel_start now w) (mw_last (wheel_start now w)) \<and> mw_last (wheel_start now w) \<noteq> - 1"
proof (cases "mw_last w = - 1")
  case True
  then show ?thesis using S by (simp add: sync_def wheel_start_def)
qed (use S in \<open>simp add: wheel_start_def\<close>)

lemma near_start:
  assumes I: "mw_inv w t" and T: "time_ok now timeout" and N: "near now timeout w" and w': "w' = wheel_start now w"
  shows "mw_last w' \<le> now - mw_create w' \<and> now - mw_create w' - mw_last w' + timeout mod mw_size w' < mw_size w'"
proof -
  have "0 < mw_size w" using I by (simp add: mw_inv_def wheel_wf_def)
  then show ?thesis using N unfolding w' near_def wheel_start_def by auto
qed

text \<open>The element that an addition or a reset puts into the wheel is in step.\<close>

lemma put_in_step:
  assumes I: "mw_inv w0 t" and S: "if mw_last w0 = - 1 then h = (\<lambda>a. None) else sync h w0 (mw_last w0)"
    and T: "time_ok now timeout" and c: "mw_create w0 \<le> now" and N: "near now timeout w0"
    and w: "w = wheel_start now w0"
    and e: "me_expire e = now + timeout" "me_rot e = timeout div mw_size w"
      "me_cursor e = (now - mw_create w + timeout) mod mw_size w"
    and w': "mw_spoke w' = mw_spoke w" "mw_create w' = mw_create w" "mw_size w' = mw_size w" "mw_last w' = mw_last w"
  shows "mw_last w' \<noteq> - 1 \<and> sync (h(m \<mapsto> e)) w' (mw_last w')"
proof -
  have s: "0 < mw_size w" using I unfolding w by (auto simp: mw_inv_def wheel_wf_def wheel_start_def)
  have S1: "sync h w (mw_last w)" "mw_last w \<noteq> - 1" using sync_start [OF I S] w by simp_all
  have n: "mw_last w \<le> now - mw_create w" "now - mw_create w - mw_last w + timeout mod mw_size w < mw_size w"
    using near_start [OF I T N w] by blast+
  have t: "tick_of w e = now - mw_create w + timeout" using e(1) by (simp add: tick_of_def)
  have "(now - mw_create w - mw_last w + timeout) div mw_size w = timeout div mw_size w"
    by (rule near_rot [OF s _ n(2)]) (use n(1) in simp)
  moreover have "tick_of w e - mw_last w = now - mw_create w - mw_last w + timeout" using t by simp
  ultimately have "me_rot e = (tick_of w e - mw_last w) div mw_size w" using e(2) by (simp only:)
  moreover have "mw_last w \<le> tick_of w e" using n(1) t T by (simp add: time_ok_def)
  moreover have "me_cursor e = tick_of w e mod mw_size w" using e(3) t by simp
  ultimately have "sync (h(m \<mapsto> e)) w (mw_last w)" using sync_put [OF S1(1)] by blast
  then have "sync (h(m \<mapsto> e)) w' (mw_last w)" by (rule sync_cong [OF _ w'(1-3)])
  then show ?thesis using w'(4) S1(2) by simp
qed

lemma wheel_fields:
  "wheel_insert m c w = Some w' \<Longrightarrow> mw_spoke w' = mw_spoke w \<and> mw_create w' = mw_create w \<and>
    mw_size w' = mw_size w \<and> mw_last w' = mw_last w"
  "wheel_remove m c w = Some w' \<Longrightarrow> mw_spoke w' = mw_spoke w \<and> mw_create w' = mw_create w \<and>
    mw_size w' = mw_size w \<and> mw_last w' = mw_last w"
  by (auto simp: wheel_insert_def wheel_remove_def Option.bind_eq_Some_conv)

lemma in_step_add:
  assumes S: "in_step t" and ok: "mop_ok t (MAdd now timeout cb ev m)" and tm: "in_time t (MAdd now timeout cb ev m)"
    and st: "mop_step (MAdd now timeout cb ev m) t = Some t'"
  shows "in_step t'"
proof -
  obtain w0 where w0: "mt_body t = MWheel w0" "mw_inv w0 t"
    "if mw_last w0 = - 1 then mt_elems t = (\<lambda>a. None) else sync (mt_elems t) w0 (mw_last w0)"
    by (rule in_stepE [OF S])
  have T: "time_ok now timeout" and c: "mw_create w0 \<le> now" and m: "m \<noteq> 0"
    using ok w0(1) by (simp_all add: mop_ok_def clock_ok_def)
  have N: "near now timeout w0" using tm w0(1) by (simp add: in_time_def)
  have nn: "0 \<le> now" "0 \<le> timeout" using T by (simp_all add: time_ok_def)
  define w where "w = wheel_start now w0"
  note P = placed [OF w0(2) T c w_def]
  let ?e = "\<lparr>me_expire = now + timeout, me_rot = timeout div mw_size w,
    me_cursor = (now - mw_create w + timeout) mod mw_size w, me_callback = cb, me_event = ev\<rparr>"
  obtain w' where w': "wheel_insert m ((now - mw_create w + timeout) mod mw_size w) w = Some w'"
    "t' = (keep_elem m ?e t)\<lparr>mt_body := MWheel w'\<rparr>"
    using st w0(1) nn m P long_ok [OF T]
    by (auto simp: mop_step_def MESA_timer_add_def w_def [symmetric] Let_def Option.bind_eq_Some_conv)
  have f: "mw_spoke w' = mw_spoke w" "mw_create w' = mw_create w" "mw_size w' = mw_size w" "mw_last w' = mw_last w"
    using wheel_fields(1) [OF w'(1)] by simp_all
  have "mw_last w' \<noteq> - 1 \<and> sync ((mt_elems t)(m \<mapsto> ?e)) w' (mw_last w')"
    by (rule put_in_step [OF w0(2,3) T c N w_def _ _ _ f]) simp_all
  moreover have "minv t'" using add_ok [of t now timeout cb ev m] ok st w0(1,2) by (auto simp: minv_def)
  ultimately show ?thesis by (intro in_stepI [where w = w']) (simp_all add: w'(2))
qed

lemma in_step_reset:
  assumes S: "in_step t" and ok: "mop_ok t (MReset a now timeout)" and tm: "in_time t (MReset a now timeout)"
    and st: "mop_step (MReset a now timeout) t = Some t'"
  shows "in_step t'"
proof -
  obtain w0 where w0: "mt_body t = MWheel w0" "mw_inv w0 t"
    "if mw_last w0 = - 1 then mt_elems t = (\<lambda>a. None) else sync (mt_elems t) w0 (mw_last w0)"
    by (rule in_stepE [OF S])
  obtain e where e: "mt_elems t a = Some e" using ok by (auto simp: mop_ok_def)
  have T: "time_ok now timeout" and c: "mw_create w0 \<le> now"
    using ok w0(1) by (simp_all add: mop_ok_def clock_ok_def)
  have N: "near now timeout w0" using tm w0(1) by (simp add: in_time_def)
  have M: "minv t" using w0 by (simp add: minv_def)
  have l: "mw_last w0 \<noteq> - 1" using w0(3) e by (auto split: if_splits)
  note P = placed [OF w0(2) T c refl]
  have w_start: "wheel_start now w = w" if "mw_last w = mw_last w0" for w using that l by (simp add: wheel_start_def)
  note P' = P [unfolded w_start [OF refl]]
  obtain w1 where w1: "wheel_remove a (me_cursor e) w0 = Some w1" using wheel_remove_wf [OF w0(2) e] by blast
  note f1 = wheel_fields(2) [OF w1]
  have cu: "wheel_cursor now timeout w1 = wheel_cursor now timeout w0" using f1 by (simp add: wheel_cursor_def)
  let ?e = "e\<lparr>me_expire := now + timeout, me_rot := timeout div mw_size w0,
    me_cursor := (now - mw_create w0 + timeout) mod mw_size w0\<rparr>"
  obtain w' where w': "wheel_insert a ((now - mw_create w0 + timeout) mod mw_size w0) w1 = Some w'"
    "t' = t\<lparr>mt_elems := (mt_elems t)(a \<mapsto> ?e), mt_body := MWheel w'\<rparr>"
    using st w0(1) e w1 f1 P' cu long_ok [OF T] w_start [of w1]
    by (auto simp: mop_step_def MESA_timer_reset_def Let_def Option.bind_eq_Some_conv)
  have f: "mw_spoke w' = mw_spoke w0" "mw_create w' = mw_create w0" "mw_size w' = mw_size w0" "mw_last w' = mw_last w0"
    using wheel_fields(1) [OF w'(1)] f1 by simp_all
  have "mw_last w' \<noteq> - 1 \<and> sync ((mt_elems t)(a \<mapsto> ?e)) w' (mw_last w')"
    by (rule put_in_step [OF w0(2,3) T c N w_start [OF refl, symmetric] _ _ _ f]) simp_all
  moreover have "minv t'"
  proof -
    obtain t2 where "MESA_timer_reset a now timeout t = Some (0, t2)" "minv t2" using reset_ok [OF M ok] by blast
    then show ?thesis using st by (simp add: mop_step_def)
  qed
  ultimately show ?thesis by (intro in_stepI [where w = w']) (simp_all add: w'(2))
qed

lemma in_step_del:
  assumes S: "in_step t" and ok: "mop_ok t (MDel a cb para)" and st: "mop_step (MDel a cb para) t = Some t'"
  shows "in_step t'"
proof -
  obtain w0 where w0: "mt_body t = MWheel w0" "mw_inv w0 t"
    "if mw_last w0 = - 1 then mt_elems t = (\<lambda>a. None) else sync (mt_elems t) w0 (mw_last w0)"
    by (rule in_stepE [OF S])
  have M: "minv t" using w0 by (simp add: minv_def)
  obtain e where e: "mt_elems t a = Some e" using ok by (auto simp: mop_ok_def)
  obtain w1 where w1: "wheel_remove a (me_cursor e) w0 = Some w1" "t' = (drop_elem a t)\<lparr>mt_body := MWheel w1\<rparr>"
    using st w0(1) e by (auto simp: mop_step_def MESA_timer_del_def Option.bind_eq_Some_conv)
  note f = wheel_fields(2) [OF w1(1)]
  have l: "mw_last w0 \<noteq> - 1" using w0(3) e by (auto split: if_splits)
  then have "sync ((mt_elems t)(a := None)) w0 (mw_last w0)"
    using w0(3) by (auto intro: sync_sub split: if_splits)
  then have "sync ((mt_elems t)(a := None)) w1 (mw_last w1)" using sync_cong f by auto
  moreover have "minv t'" using del_ok [OF M e, of cb para] st by (auto simp: mop_step_def)
  ultimately show ?thesis using l f by (intro in_stepI [where w = w1]) (simp_all add: w1(2))
qed

text \<open>The timers a check calls: those that expired before it, once each, in order.\<close>

lemma due_list_in:
  assumes I: "mw_inv w t" and S: "sync (mt_elems t) w l"
  shows "a \<in> set (due_list (mt_elems t) w d) \<longleftrightarrow> (\<exists>e. mt_elems t a = Some e \<and> tick_of w e = d)"
proof
  assume a: "a \<in> set (due_list (mt_elems t) w d)"
  have "nat (d mod mw_size w) < length (mw_spokes w)" using I by (auto simp: mw_inv_def wheel_wf_def nat_less_iff)
  moreover have "a \<in> set (mw_spokes w ! nat (d mod mw_size w))" using a by (simp add: due_list_def)
  ultimately have "a \<in> set (concat (mw_spokes w))" by fastforce
  moreover have "counted (concat (mw_spokes w)) (wheel_mem w) t" using I by (simp add: mw_inv_def)
  ultimately obtain e where "mt_elems t a = Some e" using countedD by metis
  then show "\<exists>e. mt_elems t a = Some e \<and> tick_of w e = d"
    using a by (auto simp: due_list_def expire_of_def tick_of_def)
next
  assume "\<exists>e. mt_elems t a = Some e \<and> tick_of w e = d"
  then obtain e where e: "mt_elems t a = Some e" "tick_of w e = d" by blast
  then have "me_cursor e = d mod mw_size w" using syncD [OF S e(1)] by simp
  then show "a \<in> set (due_list (mt_elems t) w d)"
    using mw_inv_in [OF I e(1)] e by (auto simp: due_list_def expire_of_def tick_of_def)
qed

lemma due_between_spec:
  assumes I: "mw_inv w t" and S: "sync (mt_elems t) w l"
  shows "set (due_between (mt_elems t) w l n) =
      {a. \<exists>e. mt_elems t a = Some e \<and> me_expire e < mw_create w + l + int n} \<and>
    distinct (due_between (mt_elems t) w l n) \<and>
    sorted (map (expire_of (mt_elems t)) (due_between (mt_elems t) w l n))"
proof (induction n)
  case 0
  have "\<not> me_expire e < mw_create w + l" if "mt_elems t a = Some e" for a e
    using syncD [OF S that] by (simp add: tick_of_def)
  then show ?case by (auto simp: due_between_def)
next
  case (Suc n)
  let ?h = "mt_elems t" and ?d = "l + int n"
  have e: "due_between ?h w l (Suc n) = due_between ?h w l n @ due_list ?h w ?d" by (simp add: due_between_def)
  have s: "set (due_list ?h w ?d) = {a. \<exists>e. ?h a = Some e \<and> me_expire e = mw_create w + ?d}"
    using due_list_in [OF I S, of _ ?d] by (auto simp: tick_of_def)
  have dd: "distinct (due_list ?h w ?d)"
  proof -
    have "distinct (concat (mw_spokes w))" using I by (simp add: mw_inv_def counted_def)
    moreover have "nat (?d mod mw_size w) < length (mw_spokes w)"
      using I by (auto simp: mw_inv_def wheel_wf_def nat_less_iff)
    ultimately have "distinct (mw_spokes w ! nat (?d mod mw_size w))" by (simp add: distinct_concat_iff)
    then show ?thesis by (simp add: due_list_def)
  qed
  have eq: "map (expire_of ?h) (due_list ?h w ?d) = replicate (length (due_list ?h w ?d)) (mw_create w + ?d)"
    by (rule map_replicate_const [THEN subst], rule map_cong [OF refl]) (simp add: due_list_def)
  have lt: "expire_of ?h a < mw_create w + ?d" if "a \<in> set (due_between ?h w l n)" for a
    using that Suc.IH by (auto simp: expire_of_def)
  have "set (due_between ?h w l n) \<inter> set (due_list ?h w ?d) = {}" using lt by (fastforce simp: due_list_def)
  moreover have "set (due_between ?h w l (Suc n)) =
      {a. \<exists>e. ?h a = Some e \<and> me_expire e < mw_create w + l + int (Suc n)}"
    unfolding e set_append s using Suc.IH by auto
  moreover have "sorted (map (expire_of ?h) (due_between ?h w l (Suc n)))"
  proof -
    have "\<forall>x \<in> set (map (expire_of ?h) (due_between ?h w l n)). x \<le> mw_create w + ?d"
      using lt by (metis (no_types, lifting) imageE list.set_map order_less_imp_le)
    moreover have "sorted (map (expire_of ?h) (due_between ?h w l n))" using Suc.IH by blast
    ultimately show ?thesis unfolding e map_append eq sorted_append by simp
  qed
  ultimately show ?case using Suc.IH dd unfolding e by simp
qed

lemma check_wheel:
  assumes S: "in_step t" and ok: "mop_ok t (MCheck now mx)" and tm: "in_time t (MCheck now mx)"
  shows "\<exists>f t'. MESA_timer_check now mx t = Some (int (length f), map (mcall (mt_elems t)) f, t') \<and>
    set f = {a. \<exists>e. mt_elems t a = Some e \<and> me_expire e < now} \<and> distinct f \<and>
    sorted (map (expire_of (mt_elems t)) f) \<and> survivors (mt_elems t) (mt_elems t') now \<and> in_step t'"
proof -
  obtain w where w: "mt_body t = MWheel w" "mw_inv w t"
    "if mw_last w = - 1 then mt_elems t = (\<lambda>a. None) else sync (mt_elems t) w (mw_last w)"
    by (rule in_stepE [OF S])
  have n: "0 \<le> now" "0 \<le> mx" "mw_create w \<le> now" "now - mw_create w < 2 ^ 31"
    using ok w(1) by (simp_all add: mop_ok_def)
  have l: "mw_last w \<le> now - mw_create w" "mt_cnt t \<le> mx - 0" using tm w(1) by (simp_all add: in_time_def)
  have cl: "mw_create w = - 1 \<and> mw_last w = - 1 \<or> 0 \<le> mw_create w \<and> 0 \<le> mw_last w"
    using w(2) by (simp add: mw_inv_def wheel_wf_def)
  show ?thesis
  proof (cases "mw_create w = - 1")
    case True
    then have "mt_elems t = (\<lambda>a. None)" using cl w(3) by auto
    then show ?thesis using True w(1) n S by (simp add: MESA_timer_check_def survivors_def)
  next
    case False
    then have c: "0 \<le> mw_create w" "0 \<le> mw_last w" using cl by auto
    then have Y: "sync (mt_elems t) w (mw_last w)" using w(3) by auto
    let ?n = "nat (now - mw_create w - mw_last w)"
    let ?f = "due_between (mt_elems t) w (mw_last w) ?n"
    have now: "mw_last w + int ?n = now - mw_create w" "mw_create w + mw_last w + int ?n = now" using l(1) by simp_all
    have lt: "0 + int ?n < 2 ^ 31" using n c by simp
    obtain w' t' where s: "wheel_ticks mx ?n 0 0 w t = Some (0 + int (length ?f), map (mcall (mt_elems t)) ?f, w', t')"
      "mw_inv w' t'" "sync (mt_elems t') w' (now - mw_create w)" "mw_create w' = mw_create w"
      "survivors (mt_elems t) (mt_elems t') now"
      using ticks_exact [OF w(2) Y lt l(2)] unfolding now by blast
    let ?w = "w'\<lparr>mw_last := now - mw_create w\<rparr>"
    let ?t = "t'\<lparr>mt_body := MWheel ?w\<rparr>"
    have C: "MESA_timer_check now mx t = Some (int (length ?f), map (mcall (mt_elems t)) ?f, ?t)"
      using w(1) n s(1,4) False by (simp add: MESA_timer_check_def)
    have M: "minv t" using w by (simp add: minv_def)
    have "minv ?t" using check_ok [OF M ok] C by auto
    moreover have "sync (mt_elems ?t) ?w (now - mw_create w)" using sync_cong [OF s(3), of ?w] by simp
    ultimately have "in_step ?t" using n c l(1) by (intro in_stepI [where w = ?w]) simp_all
    then show ?thesis using C s(5) due_between_spec [OF w(2) Y, of ?n] unfolding now by auto
  qed
qed

lemma in_step_op:
  assumes "in_step t" "mop_ok t op" "in_time t op" "mop_step op t = Some t'"
  shows "in_step t'"
proof (cases op)
  case (MAdd now timeout cb ev m)
  then show ?thesis using in_step_add assms by blast
next
  case (MDel a cb para)
  then show ?thesis using in_step_del assms by blast
next
  case (MReset a now timeout)
  then show ?thesis using in_step_reset assms by blast
next
  case (MCheck now mx)
  then show ?thesis using check_wheel [OF assms(1), of now mx] assms by (auto simp: mop_step_def)
qed

lemma in_step_run:
  "in_step t \<Longrightarrow> mops_ok t ops \<Longrightarrow> all_in_time t ops \<Longrightarrow> mrun ops t = Some t' \<Longrightarrow> in_step t'"
proof (induction ops arbitrary: t)
  case (Cons op ops)
  obtain t1 where t1: "mop_step op t = Some t1" "mrun ops t1 = Some t'"
    using Cons.prems(4) by (auto simp: Option.bind_eq_Some_conv)
  have "in_step t1" by (rule in_step_op [OF Cons.prems(1) _ _ t1(1)]) (use Cons.prems(2,3) in simp_all)
  then show ?case by (rule Cons.IH) (use Cons.prems(2,3) t1 in simp_all)
qed simp

lemma in_step_create: "MESA_timer_create n TM_TYPE_WHEEL = Some t \<Longrightarrow> in_step t"
  using create_ok [of n TM_TYPE_WHEEL t]
  by (auto simp: MESA_timer_create_def in_step_def minv_def TM_TYPE_WHEEL_def TM_TYPE_QUEUE_def split: if_splits)

section \<open>Properties\<close>

text \<open>
  C36: Every script of additions, removals, resets and checks that keeps to the rules runs
  on both types of timer, the count is the number of the timers that are left, and the
  destruction then releases all of them.
\<close>

theorem mesa_script_safe:
  assumes "MESA_timer_create n ty = Some t" "mops_ok t ops"
  shows "\<exists>t'. mrun ops t = Some t' \<and> MESA_timer_count t' = int (card (dom (mt_elems t'))) \<and>
    MESA_timer_destroy t' = Some (\<lambda>a. None)"
proof -
  obtain t' where "mrun ops t = Some t'" "minv t'" using mrun_sound [OF create_ok [OF assms(1)] assms(2)] by blast
  then show ?thesis using count_live destroy_all by blast
qed

text \<open>
  C22: A check of a queue calls the timers that are due, in the order of their expiry, no
  more than the given number; it keeps the others unchanged and the queue in order.
\<close>

theorem mesa_queue_check:
  assumes "mt_body t = MQueue q" "qinv q t" "0 \<le> now" "0 \<le> mx"
    and "f = take (nat mx) (filter (\<lambda>a. expire_of (mt_elems t) a \<le> now) (mq_queue q))"
  shows "\<exists>t' q'. MESA_timer_check now mx t = Some (int (length f), map (mcall (mt_elems t)) f, t') \<and>
    mt_body t' = MQueue q' \<and> qinv q' t' \<and> mq_queue q = f @ mq_queue q' \<and>
    mt_elems t' = (mt_elems t) |` set (mq_queue q')"
proof -
  have f: "f = due_first (mt_elems t) now mx (mq_queue q)" using assms(5) by (simp add: due_first_def)
  let ?q = "q\<lparr>mq_queue := drop (length f) (mq_queue q)\<rparr>"
  obtain t' where t': "MESA_timer_check now mx t = Some (int (length f), map (mcall (mt_elems t)) f, t')"
    "mt_body t' = MQueue ?q" "qinv ?q t'" "\<forall>a \<in> set (mq_queue ?q). mt_elems t' a = mt_elems t a"
    using check_queue [OF assms(1-4)] unfolding Let_def f [symmetric] by blast
  have S: "sorted (map (expire_of (mt_elems t)) (mq_queue q))" using assms(2) by (simp add: qinv_def)
  have "f = take (length f) (mq_queue q)"
    unfolding assms(5) takeWhile_sorted [OF S, symmetric]
    by (metis append_take_drop_id takeWhile_eq_take take_take length_take min.commute min_def)
  then have "mq_queue q = f @ mq_queue ?q" by (metis append_take_drop_id mqueue.select_convs(2) mqueue.surjective mqueue.update_convs(2))
  moreover have "mt_elems t' = (mt_elems t) |` set (mq_queue ?q)"
  proof (rule ext)
    fix a
    have "dom (mt_elems t') = set (mq_queue ?q)" using t'(3) by (simp add: qinv_def counted_def)
    then have "a \<notin> set (mq_queue ?q) \<Longrightarrow> mt_elems t' a = None" by auto
    then show "mt_elems t' a = ((mt_elems t) |` set (mq_queue ?q)) a"
      using t'(4) by (cases "a \<in> set (mq_queue ?q)") auto
  qed
  ultimately show ?thesis using t'(1-3) by blast
qed

text \<open>
  C21: On a wheel that is used in step with the clock, a check calls exactly the timers
  whose expiry lies before it, once each, in the order of their expiry, and leaves the
  others with nothing changed but their rotations; the wheel stays in step.
\<close>

theorem mesa_wheel_fires:
  assumes "MESA_timer_create n TM_TYPE_WHEEL = Some t0" "mops_ok t0 ops" "all_in_time t0 ops"
    and "mrun ops t0 = Some t" "mop_ok t (MCheck now mx)" "in_time t (MCheck now mx)"
  shows "\<exists>f t'. MESA_timer_check now mx t = Some (int (length f), map (mcall (mt_elems t)) f, t') \<and>
    set f = {a. \<exists>e. mt_elems t a = Some e \<and> me_expire e < now} \<and> distinct f \<and>
    sorted (map (expire_of (mt_elems t)) f) \<and> survivors (mt_elems t) (mt_elems t') now \<and> in_step t'"
  by (rule check_wheel [OF in_step_run [OF in_step_create [OF assms(1)] assms(2-4)] assms(5,6)])

lemma mq_check_frame:
  "mq_check now mx cnt as t = Some (k, cs, as', t') \<Longrightarrow> a \<notin> set as \<Longrightarrow> mt_elems t' a = mt_elems t a"
  by (induction as arbitrary: cnt t k cs as' t')
    (auto simp: Option.bind_eq_Some_conv split: if_splits)

text \<open>
  A reset that a queue refuses (-1) has already taken the timer out: it stays counted
  and allocated, no check calls it any more, and deleting it is undefined.
\<close>

theorem mesa_reset_loses:
  assumes b: "mt_body t = MQueue q" and I: "qinv q t" and e: "mt_elems t a = Some e"
    and T: "time_ok now timeout" and r: "c \<in> set (mq_queue q)" "c \<noteq> a" "now + timeout < expire_of (mt_elems t) c"
  shows "\<exists>t'. MESA_timer_reset a now timeout t = Some (- 1, t') \<and> mt_elems t' a = Some e \<and>
    MESA_timer_count t' = MESA_timer_count t \<and> MESA_timer_del a cb para t' = None \<and>
    (\<forall>now2 mx k cs t2. MESA_timer_check now2 mx t' = Some (k, cs, t2) \<longrightarrow> mt_elems t2 a = Some e)"
proof -
  have C: "counted (mq_queue q) sizeof_timer t" using I by (simp add: qinv_def)
  have a: "a \<in> set (mq_queue q)" using C e by (auto simp: counted_def)
  obtain q' where q': "mq_remove a (mt_elems t) q = Some q'" "mq_queue q' = remove1 a (mq_queue q)"
    "\<forall>b \<in> set (mq_queue q'). expire_of (mt_elems t) b \<le> mq_last q'" "a \<notin> set (mq_queue q')"
    by (rule mq_remove_ok [OF I a]) blast
  have "c \<in> set (mq_queue q')" using q'(2) r(1,2) by simp
  then have l: "now + timeout < mq_last q'" using q'(3) r(3) by fastforce
  let ?t = "t\<lparr>mt_body := MQueue q'\<rparr>"
  have "MESA_timer_reset a now timeout t = Some (- 1, ?t)"
    using b e q'(1) long_ok [OF T] l by (simp add: MESA_timer_reset_def)
  moreover have "MESA_timer_del a cb para ?t = None"
    using e q'(4) by (simp add: MESA_timer_del_def mq_remove_def tailq_remove_def)
  moreover have "mt_elems t2 a = Some e" if K: "MESA_timer_check now2 mx ?t = Some (k, cs, t2)" for now2 mx k cs t2
  proof -
    obtain as t3 where "mq_check now2 mx 0 (mq_queue q') ?t = Some (k, cs, as, t3)" "mt_elems t2 = mt_elems t3"
      using K by (auto simp: MESA_timer_check_def Option.bind_eq_Some_conv split: if_splits)
    then show ?thesis using mq_check_frame [OF _ q'(4)] e by fastforce
  qed
  ultimately show ?thesis using e by (auto simp: MESA_timer_count_def)
qed

section \<open>Concrete runs\<close>

definition wheel4 :: mtimer where "wheel4 = the (MESA_timer_create 4 TM_TYPE_WHEEL)"
definition queue0 :: mtimer where "queue0 = the (MESA_timer_create 0 TM_TYPE_QUEUE)"

lemma wheel4_create: "MESA_timer_create 4 TM_TYPE_WHEEL = Some wheel4"
  by (simp add: wheel4_def MESA_timer_create_def TM_TYPE_WHEEL_def TM_TYPE_QUEUE_def MAX_WHEEL_SIZE_def)

lemma queue0_create: "MESA_timer_create 0 TM_TYPE_QUEUE = Some queue0"
  by (simp add: queue0_def MESA_timer_create_def TM_TYPE_QUEUE_def)

lemmas mesa_eval = mop_step_def MESA_timer_add_def MESA_timer_del_def MESA_timer_reset_def MESA_timer_check_def
  MESA_timer_create_def TM_TYPE_WHEEL_def TM_TYPE_QUEUE_def MAX_WHEEL_SIZE_def wheel4_def queue0_def
  long_def to_int_def c_div_def c_rem_def wheel_start_def wheel_cursor_def wheel_insert_def wheel_remove_def
  keep_elem_def drop_elem_def tailq_remove_def mq_remove_def queue_last_def rd_def wr_def Let_def eval_nat_numeral

lemmas mesa_ok_eval = mop_ok_def time_ok_def clock_ok_def expire_of_def in_time_def near_def

definition mscript1 :: "mop list" where
  "mscript1 = [MAdd 10 1 7 70 101, MAdd 10 5 8 80 102, MCheck 11 9, MAdd 11 0 9 90 103, MReset 101 11 2]"

lemma mscript1_ok: "mops_ok wheel4 mscript1"
  by (simp add: mscript1_def mesa_eval mesa_ok_eval)

lemma mscript1_in_time: "all_in_time wheel4 mscript1"
  by (simp add: mscript1_def mesa_eval mesa_ok_eval)

lemma mesa_script_safe_witness:
  "\<exists>t'. mrun mscript1 wheel4 = Some t' \<and> MESA_timer_count t' = int (card (dom (mt_elems t'))) \<and>
    MESA_timer_destroy t' = Some (\<lambda>a. None)"
  by (rule mesa_script_safe [OF wheel4_create mscript1_ok])

definition wheel4_run :: mtimer where "wheel4_run = the (mrun mscript1 wheel4)"

lemma wheel4_run: "mrun mscript1 wheel4 = Some wheel4_run"
  by (simp add: wheel4_run_def mscript1_def mesa_eval)

lemma mesa_wheel_fires_witness:
  "\<exists>f t'. MESA_timer_check 14 9 wheel4_run = Some (int (length f), map (mcall (mt_elems wheel4_run)) f, t') \<and>
    set f = {101, 103} \<and> in_step t'"
proof -
  have ok: "mop_ok wheel4_run (MCheck 14 9)" "in_time wheel4_run (MCheck 14 9)"
    by (simp_all add: wheel4_run_def mscript1_def mesa_eval mesa_ok_eval)
  have "{a. \<exists>e. mt_elems wheel4_run a = Some e \<and> me_expire e < 14} = {101, 103}"
    by (auto simp: wheel4_run_def mscript1_def mesa_eval)
  then show ?thesis
    using mesa_wheel_fires [OF wheel4_create mscript1_ok mscript1_in_time wheel4_run ok] by auto
qed

definition queue0_run :: mtimer where
  "queue0_run = the (mrun [MAdd 10 1 7 70 101, MAdd 10 5 8 80 102, MAdd 11 9 9 90 103] queue0)"

lemma queue0_run_inv:
  "mt_body queue0_run = MQueue \<lparr>mq_last = 20, mq_queue = [101, 102, 103]\<rparr> \<and>
   qinv \<lparr>mq_last = 20, mq_queue = [101, 102, 103]\<rparr> queue0_run"
proof -
  have ok: "mops_ok queue0 [MAdd 10 1 7 70 101, MAdd 10 5 8 80 102, MAdd 11 9 9 90 103]"
    by (simp add: mesa_eval mesa_ok_eval)
  have b: "mt_body queue0_run = MQueue \<lparr>mq_last = 20, mq_queue = [101, 102, 103]\<rparr>"
    by (simp add: queue0_run_def mesa_eval)
  have "minv queue0_run" using mrun_sound [OF create_ok [OF queue0_create] ok] by (auto simp: queue0_run_def)
  then show ?thesis using b by (simp add: minv_def)
qed

lemma mesa_queue_check_witness:
  "\<exists>t'. MESA_timer_check 16 1 queue0_run = Some (1, [(7, 70)], t')"
  using mesa_queue_check [OF queue0_run_inv [THEN conjunct1] queue0_run_inv [THEN conjunct2], of 16 1, OF _ _ refl]
  by (auto simp: queue0_run_def mesa_eval expire_of_def mcall_def)

lemma mesa_reset_loses_witness:
  "\<exists>t'. MESA_timer_reset 101 12 1 queue0_run = Some (- 1, t') \<and> mt_elems t' 101 \<noteq> None \<and>
    MESA_timer_del 101 None 0 t' = None"
proof -
  have e: "mt_elems queue0_run 101 = Some \<lparr>me_expire = 11, me_rot = 0, me_cursor = 0, me_callback = 7, me_event = 70\<rparr>"
    by (simp add: queue0_run_def mesa_eval)
  have "time_ok 12 1" "expire_of (mt_elems queue0_run) 102 = 15"
    by (simp_all add: time_ok_def queue0_run_def mesa_eval expire_of_def)
  then show ?thesis
    using mesa_reset_loses [OF queue0_run_inv [THEN conjunct1] queue0_run_inv [THEN conjunct2] e, of 12 1 102 None 0]
    by auto
qed

text \<open>
  A check that stops at the maximum of callbacks takes the clock over although the wheel
  has not made the ticks: the third timer, due at 1, is not called at 3 but at 4. A timer
  added while the wheel is behind by more than a rotation allows is called early: at 7
  instead of 11.
\<close>

lemma mesa_wheel_limit_late:
  "map_option (\<lambda>t. map_option (fst \<circ> snd) (MESA_timer_check 3 9 t))
     (mrun [MAdd 0 0 1 1 101, MAdd 0 0 2 2 102, MAdd 0 1 3 3 103, MCheck 2 1] wheel4) = Some (Some [(2, 2)])"
  by (simp add: mesa_eval)

lemma mesa_wheel_lag_early:
  "map_option (\<lambda>t. map_option (fst \<circ> snd) (MESA_timer_check 7 9 t))
     (mrun [MAdd 0 9 1 1 101, MAdd 7 3 2 2 102] wheel4) = Some (Some [(2, 2)])"
  by (simp add: mesa_eval)

end
