(* ===== verification/ConfigFile.thy ===== *)
theory ConfigFile
  imports Iniparser DeviceServer
begin

text \<open>
  The configuration files of the device server: the helpers of \<^verbatim>\<open>ini/config.c\<close> and
  \<^verbatim>\<open>ini/load.c\<close>, which change a value of a loaded dictionary and save it, and the job
  that prepares the file of the transfers (\<^verbatim>\<open>task5\<close> in \<^verbatim>\<open>udpserver/Callback.c\<close>). The file system is
  a map from names to contents; whether a file can be opened is an argument.
  \<^verbatim>\<open>ini_find\<close> and \<^verbatim>\<open>ini_del\<close> have empty bodies.
\<close>

type_synonym files = "string \<Rightarrow> string option"

section \<open>Saving\<close>

definition init_config ::
  "(nat \<Rightarrow> ini_alloc) \<Rightarrow> dictionary option \<Rightarrow> string \<Rightarrow> files \<Rightarrow> (dictionary option \<times> ini_message list) option" where
  "init_config mem new name fs = iniparser_load mem new (fs name)"

definition write_file :: "bool \<Rightarrow> dictionary option \<Rightarrow> string \<Rightarrow> files \<Rightarrow> (int \<times> files) option" where
  "write_file ok dic name fs =
     (if \<not> ok then Some (- 1, fs)
      else do { content \<leftarrow> iniparser_dump_ini dic True; Some (0, fs(name \<mapsto> content)) })"

text \<open>An append; the code returns no value when it succeeds (\<^term>\<open>None\<close>).\<close>

definition ini_add :: "bool \<Rightarrow> string \<Rightarrow> string \<Rightarrow> files \<Rightarrow> int option \<times> files" where
  "ini_add ok ptr name fs =
     (if \<not> ok then (Some (- 1), fs)
      else (None, fs(name \<mapsto> (case fs name of None \<Rightarrow> [] | Some c \<Rightarrow> c) @ ptr)))"

text \<open>\<^verbatim>\<open>sprintf\<close> into an array of \<open>n\<close> characters.\<close>

definition cbuf :: "nat \<Rightarrow> string \<Rightarrow> string option" where
  "cbuf n s = (if length s < n then Some s else None)"

definition ini_modify_string :: "dict_alloc \<Rightarrow> bool \<Rightarrow> dictionary option \<Rightarrow> string \<Rightarrow> string \<Rightarrow> string \<Rightarrow> string \<Rightarrow>
    files \<Rightarrow> (dictionary option \<times> files) option" where
  "ini_modify_string m ok dic sec ptr key filename fs = do {
     sec_name \<leftarrow> cbuf 32 key;
     key_name \<leftarrow> cbuf 64 (sec @ '':'' @ sec_name);
     key_value \<leftarrow> cbuf 32 ptr;
     (r, dic) \<leftarrow> dictionary_set m dic (Some key_name) (Some key_value);
     (r, fs) \<leftarrow> write_file ok dic filename fs;
     Some (dic, fs) }"

text \<open>\<^verbatim>\<open>"%d"\<close>: the number is a \<^verbatim>\<open>long\<close>, of which 32 bits are printed.\<close>

definition digit_char :: "nat \<Rightarrow> char" where
  "digit_char n = ''0123456789'' ! n"

fun show_nat :: "nat \<Rightarrow> string" where
  "show_nat n = (if n < 10 then [digit_char n] else show_nat (n div 10) @ [digit_char (n mod 10)])"

declare show_nat.simps [simp del]

definition show_int :: "int \<Rightarrow> string" where
  "show_int x = (if x < 0 then CHR ''-'' # show_nat (nat (- x)) else show_nat (nat x))"

definition ini_modify_num :: "dict_alloc \<Rightarrow> bool \<Rightarrow> dictionary option \<Rightarrow> string \<Rightarrow> int \<Rightarrow> string \<Rightarrow> string \<Rightarrow>
    files \<Rightarrow> (dictionary option \<times> files) option" where
  "ini_modify_num m ok dic sec num key filename fs = do {
     sec_name \<leftarrow> cbuf 32 key;
     key_name \<leftarrow> cbuf 64 (sec @ '':'' @ sec_name);
     key_value \<leftarrow> cbuf 32 (show_int (sint (word_of_int num :: u32)));
     (r, dic) \<leftarrow> dictionary_set m dic (Some key_name) (Some key_value);
     (r, fs) \<leftarrow> write_file ok dic filename fs;
     Some (dic, fs) }"

definition find_is_exist :: "dictionary option \<Rightarrow> string option \<Rightarrow> int option" where
  "find_is_exist d s = do { r \<leftarrow> iniparser_find_entry d s; Some (if \<not> r then 0 else - 1) }"

section \<open>The file of the transfers\<close>

text \<open>
  \<^verbatim>\<open>task5\<close> without the dictionaries it loads, which it does not use: for each device in
  the order of the tree, it stops when the file has content, and appends a section.
\<close>

definition transfer_section :: "string \<Rightarrow> string" where
  "transfer_section key = ''['' @ key @ '']'' @ NL @ ''state='' @ NL @ ''time='' @ NL @ ''offset='' @ NL @
     ''file='' @ NL @ ''size='' @ NL"

definition file_size :: "files \<Rightarrow> string \<Rightarrow> nat" where
  "file_size fs name = (case fs name of None \<Rightarrow> 0 | Some c \<Rightarrow> length c)"

fun task5_devices :: "(u32 \<Rightarrow> string) \<Rightarrow> bool \<Rightarrow> u32 list \<Rightarrow> files \<Rightarrow> files option" where
  "task5_devices ntoa ok [] fs = Some fs"
| "task5_devices ntoa ok (ip # ips) fs =
     (if file_size fs ''copy.ini'' > 0 then Some fs
      else do {
        key \<leftarrow> cbuf 16 (ntoa ip);
        buff \<leftarrow> cbuf 1024 (transfer_section key);
        task5_devices ntoa ok ips (snd (ini_add ok buff ''copy.ini'' fs)) })"

definition task5 :: "env \<Rightarrow> bool \<Rightarrow> rb_trav \<Rightarrow> server \<Rightarrow> files \<Rightarrow> files option" where
  "task5 e ok v s fs = do {
     ps \<leftarrow> visit_all v (rg_tree (sv_reg s)) True;
     ips \<leftarrow> all_some (map (\<lambda>p. map_option remote_ip (deref (rg_devs (sv_reg s)) p)) ps);
     task5_devices (en_ntoa e) ok ips fs }"

section \<open>A clean dictionary with a changed value\<close>

lemma dict_entries_graph: "dict_wf d \<Longrightarrow> (k, v) \<in> set (dict_entries d) \<longleftrightarrow> dict_map d k = Some v"
  by (metis dict_entries_distinct dict_entries_map map_of_SomeD)

lemma dict_sections_map:
  "dict_wf d \<Longrightarrow> s \<in> set (dict_sections d) \<longleftrightarrow> is_section s \<and> s \<in> dom (dict_map d)"
  using dict_entries_graph [of d s] by (force simp: dict_sections_def)

lemma clean_dict_store:
  assumes c: "clean_dict d" and s: "s \<in> set (dict_sections d)" and e: "clean_entry r t"
    and d': "dict_wf d'" "dict_map d' = (dict_map d)(s @ '':'' @ r \<mapsto> Some t)"
  shows "clean_dict d'"
proof -
  let ?k = "s @ '':'' @ r"
  have wf: "dict_wf d" using c by (simp add: clean_dict_def)
  have ns: "CHR '':'' \<notin> set s" using s by (auto simp: dict_sections_def is_section_def)
  have k: "\<not> is_section ?k" by (simp add: is_section_def)
  have tw: "takeWhile (\<lambda>c. c \<noteq> CHR '':'') ?k = s" "dropWhile (\<lambda>c. c \<noteq> CHR '':'') ?k = CHR '':'' # r"
    using takeWhile_key [OF ns, of r] dropWhile_key [OF ns, of r] by simp_all
  have S: "set (dict_sections d') = set (dict_sections d)"
    using k by (auto simp: dict_sections_map [OF d'(1)] dict_sections_map [OF wf] d'(2))
  have E: "(k, v) \<in> set (dict_entries d') \<longleftrightarrow> (if k = ?k then v = Some t else (k, v) \<in> set (dict_entries d))"
    for k v by (simp only: dict_entries_graph [OF d'(1)] dict_entries_graph [OF wf] d'(2)) auto
  have ne: "dict_sections d' \<noteq> []" using S s by force
  have "if is_section k then v = None \<and> clean_section k
        else in_section (takeWhile (\<lambda>c. c \<noteq> CHR '':'') k) k \<and>
             takeWhile (\<lambda>c. c \<noteq> CHR '':'') k \<in> set (dict_sections d') \<and> v \<noteq> None \<and>
             clean_entry (tl (dropWhile (\<lambda>c. c \<noteq> CHR '':'') k)) (the v)"
    if m: "(k, v) \<in> set (dict_entries d')" for k v
  proof (cases "k = ?k")
    case True
    then have "v = Some t" using m E by simp
    moreover have "in_section s ?k" by (simp add: in_section_def)
    ultimately show ?thesis using True k tw S s e by simp
  next
    case False
    then have "(k, v) \<in> set (dict_entries d)" using m E by simp
    moreover have "\<forall>(k, v) \<in> set (dict_entries d).
        if is_section k then v = None \<and> clean_section k
        else in_section (takeWhile (\<lambda>c. c \<noteq> CHR '':'') k) k \<and>
             takeWhile (\<lambda>c. c \<noteq> CHR '':'') k \<in> set (dict_sections d) \<and> v \<noteq> None \<and>
             clean_entry (tl (dropWhile (\<lambda>c. c \<noteq> CHR '':'') k)) (the v)"
      using c unfolding clean_dict_def by (elim conjE)
    ultimately show ?thesis unfolding S by (drule_tac bspec) (assumption, simp only: prod.case)
  qed
  then show ?thesis using d'(1) ne unfolding clean_dict_def by blast
qed

lemma saved:
  assumes c: "clean_dict d" and s: "s \<in> set (dict_sections d)" and e: "clean_entry r t"
  shows "\<exists>d' fl d2 log. dictionary_set all_ok (Some d) (Some (s @ '':'' @ r)) (Some t) = Some (0, Some d') \<and>
    iniparser_dump_ini (Some d') True = Some fl \<and>
    iniparser_load ini_mem (dictionary_new True True True True 0) (Some fl) = Some (Some d2, log) \<and>
    dict_wf d2 \<and> dict_lookup d2 = (dict_lookup d)(s @ '':'' @ r \<mapsto> Some t)"
proof -
  let ?k = "s @ '':'' @ r"
  have wf: "dict_wf d" using c by (simp add: clean_dict_def)
  obtain d1 where d1: "dictionary_set all_ok (Some d) (Some ?k) (Some t) = Some (0, Some d1)"
    "dict_store ?k (Some t) d = Some d1" "dict_wf d1" using dictionary_set_store [OF wf] by blast
  then have m: "dict_map d1 = (dict_map d)(?k \<mapsto> Some t)"
    using dict_store_map [OF wf, of ?k "Some t"] by simp
  have "clean_dict d1" by (rule clean_dict_store [OF c s e d1(3) m])
  then obtain fl d2 log where L: "iniparser_dump_ini (Some d1) True = Some fl"
    "iniparser_load ini_mem (dictionary_new True True True True 0) (Some fl) = Some (Some d2, log)"
    "dict_wf d2" "\<forall>k. dict_lookup d2 k = dict_lookup d1 k" using clean_dump_load by blast
  have "dict_lookup d1 = (dict_lookup d)(?k \<mapsto> Some t)"
    by (simp only: dict_lookup_map [OF d1(3)] dict_lookup_map [OF wf] m)
  then have "dict_lookup d2 = (dict_lookup d)(?k \<mapsto> Some t)" using L(4) by (auto simp: fun_eq_iff)
  then show ?thesis using d1(1) L(1-3) by blast
qed

section \<open>Numbers\<close>

lemma digit_chars:
  "list_all (\<lambda>n. digit_value (digit_char n) = n \<and> digit_char n \<in> set ''0123456789'' \<and>
     (n = 0) = (digit_char n = CHR ''0'')) [0 ..< 10]"
  by code_simp

lemma digit_char_props:
  assumes "n < 10"
  shows "digit_value (digit_char n) = n" "digit_char n \<in> set ''0123456789''"
    "digit_char n = CHR ''0'' \<longleftrightarrow> n = 0"
  using digit_chars assms by (auto simp: list_all_iff simp del: list.set)

lemma show_nat_digits: "set (show_nat n) \<subseteq> set ''0123456789'' \<and> show_nat n \<noteq> []"
proof (induction n rule: show_nat.induct)
  case (1 n)
  show ?case
  proof (cases "n < 10")
    case True
    then have "show_nat n = [digit_char n]" by (simp add: show_nat.simps)
    then show ?thesis using digit_char_props(2) [OF True] by (metis empty_set empty_subsetI insert_subset list.simps(15) not_Cons_self2)
  next
    case False
    then have "show_nat n = show_nat (n div 10) @ [digit_char (n mod 10)]" by (simp add: show_nat.simps [of n])
    then show ?thesis using 1 [OF False] digit_char_props(2) [of "n mod 10"]
      by (metis Un_subset_iff append_is_Nil_conv empty_set empty_subsetI insert_subset list.simps(15)
          mod_less_divisor set_append zero_less_numeral)
  qed
qed

lemma digits_value_snoc:
  "list_all (\<lambda>c. digit_value c < b) s \<Longrightarrow> digits_value b acc (s @ t) = digits_value b (digits_value b acc s) t"
  by (induction s arbitrary: acc) auto

lemma digit_values: "list_all (\<lambda>c. digit_value c < 10 \<and> \<not> isspace c \<and> c \<noteq> CHR ''-'' \<and> c \<noteq> CHR ''+'' \<and>
    c \<noteq> CHR ''x'' \<and> c \<noteq> CHR ''X'') ''0123456789''"
  by code_simp

lemma show_nat_chars: "c \<in> set (show_nat n) \<Longrightarrow> digit_value c < 10 \<and> \<not> isspace c \<and> c \<noteq> CHR ''-'' \<and>
    c \<noteq> CHR ''+'' \<and> c \<noteq> CHR ''x'' \<and> c \<noteq> CHR ''X''"
  using digit_values show_nat_digits [of n] by (auto simp: list_all_iff simp del: list.set)

lemma digits_value_show: "digits_value 10 0 (show_nat n) = int n"
proof (induction n rule: show_nat.induct)
  case (1 n)
  show ?case
  proof (cases "n < 10")
    case True
    then show ?thesis by (simp add: show_nat.simps [of n] digit_char_props(1))
  next
    case False
    have "list_all (\<lambda>c. digit_value c < 10) (show_nat (n div 10))"
      using show_nat_chars by (simp add: list_all_iff)
    moreover have "int (n div 10) * 10 + int (n mod 10) = int n"
      by (metis mult.commute of_nat_add of_nat_mult of_nat_numeral mult_div_mod_eq)
    ultimately show ?thesis using 1 [OF False] False
      by (simp add: show_nat.simps [of n] digits_value_snoc digit_char_props(1))
  qed
qed

lemma show_nat_hd: "hd (show_nat n) = CHR ''0'' \<longleftrightarrow> n = 0"
proof (induction n rule: show_nat.induct)
  case (1 n)
  show ?case
  proof (cases "n < 10")
    case True
    then show ?thesis by (simp add: show_nat.simps [of n] digit_char_props(3))
  next
    case False
    have "show_nat n = show_nat (n div 10) @ [digit_char (n mod 10)]" using False by (simp add: show_nat.simps [of n])
    then have "hd (show_nat n) = hd (show_nat (n div 10))" using show_nat_digits by simp
    moreover have "n div 10 \<noteq> 0" "n \<noteq> 0" using False by simp_all
    ultimately show ?thesis using 1 [OF False] by simp
  qed
qed

lemma show_nat_zero: "show_nat 0 = ''0''"
  by code_simp

text \<open>What \<^verbatim>\<open>strtol\<close> reads back.\<close>

lemma strtol0_nat:
  assumes n: "int n < 2 ^ 63"
  shows "strtol0 (show_nat n) = int n \<and> strtol0 (CHR ''-'' # show_nat n) = - int n"
proof (cases "n = 0")
  case True
  have "strtol0 ''0'' = 0 \<and> strtol0 ''-0'' = 0" by code_simp
  then show ?thesis using True show_nat_zero by simp
next
  case False
  obtain c r where e: "show_nat n = c # r" using show_nat_digits by (meson neq_Nil_conv)
  have c: "\<not> isspace c" "c \<noteq> CHR ''-''" "c \<noteq> CHR ''+''" using show_nat_chars [of c n] e by simp_all
  have c0: "c \<noteq> CHR ''0''" using show_nat_hd [of n] e False by simp
  have D: "digits_value 10 0 (c # r) = int n" using digits_value_show [of n] e by simp
  have sp: "\<not> isspace (CHR ''-'')" by code_simp
  have "strtol0 (c # r) = int n"
    using n by (simp add: strtol0_def Let_def c c0 D del: digits_value.simps split: list.split)
  moreover have "strtol0 (CHR ''-'' # c # r) = - int n"
    using n by (simp add: strtol0_def Let_def c c0 D sp del: digits_value.simps split: list.split)
  ultimately show ?thesis using e by simp
qed

lemma strtol0_int: "- (2 ^ 31) \<le> x \<Longrightarrow> x < 2 ^ 31 \<Longrightarrow> strtol0 (show_int x) = x"
  using strtol0_nat [of "nat x"] strtol0_nat [of "nat (- x)"] by (auto simp: show_int_def)

lemma show_int_chars: "set (show_int x) \<subseteq> set ''-0123456789'' \<and> show_int x \<noteq> []"
proof -
  have e: "set ''-0123456789'' = insert (CHR ''-'') (set ''0123456789'')" by (rule list.set(2))
  have "set (show_int x) \<subseteq> insert (CHR ''-'') (set (show_nat (nat x)) \<union> set (show_nat (nat (- x))))"
    by (auto simp: show_int_def)
  moreover have "show_int x \<noteq> []" using show_nat_digits by (auto simp: show_int_def)
  ultimately show ?thesis
    using show_nat_digits [of "nat x"] show_nat_digits [of "nat (- x)"] unfolding e by blast
qed

lemma length_show_nat: "n < 10 ^ k \<Longrightarrow> 0 < k \<Longrightarrow> length (show_nat n) \<le> k"
proof (induction n arbitrary: k rule: show_nat.induct)
  case (1 n)
  show ?case
  proof (cases "n < 10")
    case True
    then show ?thesis using "1.prems" by (simp add: show_nat.simps [of n])
  next
    case False
    obtain j where k: "k = Suc j" using "1.prems"(2) by (cases k) simp_all
    have j0: "0 < j" using "1.prems"(1) False k by (cases j) simp_all
    note j = k j0
    then have "n div 10 < 10 ^ j" using "1.prems" by (simp add: div_less_iff_less_mult mult.commute)
    then show ?thesis using "1.IH" [OF False _ j(2)] False j(1) by (simp add: show_nat.simps [of n])
  qed
qed

lemma length_show_int: "- (2 ^ 31) \<le> x \<Longrightarrow> x < 2 ^ 31 \<Longrightarrow> length (show_int x) \<le> 11"
proof -
  assume "- (2 ^ 31) \<le> x" "x < 2 ^ 31"
  then have "nat x < 10 ^ 10" "nat (- x) < 10 ^ 10" by simp_all
  then have "length (show_nat (nat x)) \<le> 10" "length (show_nat (nat (- x))) \<le> 10"
    using length_show_nat [of _ 10] by simp_all
  then show ?thesis by (simp add: show_int_def)
qed

lemma number_chars: "list_all (\<lambda>c. \<not> isspace c \<and> c \<noteq> CHR '';'' \<and> c \<noteq> CHR ''#'' \<and> c \<noteq> CHR 0x0A \<and>
    c \<noteq> CHR 0x5C \<and> c \<noteq> DQ \<and> c \<noteq> SQ) ''-0123456789''"
  by code_simp

lemma number_char: "c \<in> set (show_int x) \<Longrightarrow> \<not> isspace c \<and> c \<noteq> CHR '';'' \<and> c \<noteq> CHR ''#'' \<and> c \<noteq> CHR 0x0A \<and>
    c \<noteq> CHR 0x5C \<and> c \<noteq> DQ \<and> c \<noteq> SQ"
  using number_chars show_int_chars [of x] unfolding list_all_iff by blast

lemma clean_number: "clean_value (show_int x) \<and> CHR 0x0A \<notin> set (show_int x) \<and> last (show_int x) \<noteq> CHR 0x5C"
proof -
  have ne: "show_int x \<noteq> []" using show_int_chars by blast
  then have "hd (show_int x) \<in> set (show_int x)" "last (show_int x) \<in> set (show_int x)" by simp_all
  then show ?thesis using number_char [of _ x] unfolding clean_value_def trimmed_def by metis
qed

section \<open>Properties\<close>

text \<open>A key that can be given to the functions: clean, and fitting in their arrays.\<close>

definition config_key :: "dictionary \<Rightarrow> string \<Rightarrow> string \<Rightarrow> bool" where
  "config_key d sec key \<longleftrightarrow> sec \<in> set (dict_sections d) \<and> clean_key key \<and> CHR 0x0A \<notin> set key \<and>
     map tolower key = key \<and> length key < 32 \<and> length sec + length key + 1 < 64"

lemma config_entry:
  "config_key d sec key \<Longrightarrow> clean_value v \<Longrightarrow> CHR 0x0A \<notin> set v \<Longrightarrow> (v \<noteq> [] \<longrightarrow> last v \<noteq> CHR 0x5C) \<Longrightarrow>
    length v < 32 \<Longrightarrow> clean_entry key v"
  by (auto simp: config_key_def clean_entry_def pad_right_def ASCIILINESZ_def)

text \<open>
  C26: Changing a value of a clean dictionary with \<^verbatim>\<open>ini_modify_string\<close> saves a file that
  loads back with exactly this value changed; no other file is touched.
\<close>

theorem ini_modify_string_saved:
  assumes c: "clean_dict d" and k: "config_key d sec key"
    and v: "clean_value v" "CHR 0x0A \<notin> set v" "v \<noteq> [] \<longrightarrow> last v \<noteq> CHR 0x5C" "length v < 32"
  shows "\<exists>d' content d2 log. ini_modify_string all_ok True (Some d) sec v key name fs =
      Some (Some d', fs(name \<mapsto> content)) \<and>
    init_config ini_mem (dictionary_new True True True True 0) name (fs(name \<mapsto> content)) = Some (Some d2, log) \<and>
    dict_lookup d2 = (dict_lookup d)(sec @ '':'' @ key \<mapsto> Some v)"
proof -
  have s: "sec \<in> set (dict_sections d)" and l: "length key < 32" "length (sec @ '':'' @ key) < 64"
    using k by (simp_all add: config_key_def)
  obtain d' fl d2 log where S: "dictionary_set all_ok (Some d) (Some (sec @ '':'' @ key)) (Some v) = Some (0, Some d')"
    "iniparser_dump_ini (Some d') True = Some fl"
    "iniparser_load ini_mem (dictionary_new True True True True 0) (Some fl) = Some (Some d2, log)"
    "dict_lookup d2 = (dict_lookup d)(sec @ '':'' @ key \<mapsto> Some v)"
    using saved [OF c s config_entry [OF k v]] by blast
  have "ini_modify_string all_ok True (Some d) sec v key name fs = Some (Some d', fs(name \<mapsto> fl))"
    using S(1,2) l v(4) by (simp add: ini_modify_string_def cbuf_def write_file_def)
  moreover have "init_config ini_mem (dictionary_new True True True True 0) name (fs(name \<mapsto> fl)) = Some (Some d2, log)"
    using S(3) by (simp add: init_config_def)
  ultimately show ?thesis using S(4) by blast
qed

text \<open>
  C35: A number stored with \<^verbatim>\<open>ini_modify_num\<close> is what \<^verbatim>\<open>iniparser_getint\<close> returns after
  the file has been loaded again, for every number of 32 bits.
\<close>

theorem ini_modify_num_read_back:
  assumes c: "clean_dict d" and k: "config_key d sec key" and n: "- (2 ^ 31) \<le> num" "num < 2 ^ 31"
    and low: "map tolower (sec @ '':'' @ key) = sec @ '':'' @ key"
  shows "\<exists>d' content d2 log. ini_modify_num all_ok True (Some d) sec num key name fs =
      Some (Some d', fs(name \<mapsto> content)) \<and>
    init_config ini_mem (dictionary_new True True True True 0) name (fs(name \<mapsto> content)) = Some (Some d2, log) \<and>
    iniparser_getint (Some d2) (Some (sec @ '':'' @ key)) notfound = Some num"
proof -
  have s: "sec \<in> set (dict_sections d)" and l: "length key < 32" "length (sec @ '':'' @ key) < 64"
    using k by (simp_all add: config_key_def)
  have w: "sint (word_of_int num :: u32) = num"
    using n by (simp add: signed_take_bit_int_eq_self sint_sbintrunc')
  have len: "length (show_int num) < 32" using length_show_int [OF n] by simp
  have cl: "clean_value (show_int num)" "CHR 0x0A \<notin> set (show_int num)"
    "show_int num \<noteq> [] \<longrightarrow> last (show_int num) \<noteq> CHR 0x5C" using clean_number [of num] by blast+
  obtain d' fl d2 log where S: "dictionary_set all_ok (Some d) (Some (sec @ '':'' @ key)) (Some (show_int num)) = Some (0, Some d')"
    "iniparser_dump_ini (Some d') True = Some fl"
    "iniparser_load ini_mem (dictionary_new True True True True 0) (Some fl) = Some (Some d2, log)"
    "dict_wf d2" "dict_lookup d2 = (dict_lookup d)(sec @ '':'' @ key \<mapsto> Some (show_int num))"
    using saved [OF c s config_entry [OF k cl len]] by blast
  have "dict_map d2 (sec @ '':'' @ key) = Some (Some (show_int num))"
    using S(5) dict_lookup_map [OF S(4)] by simp
  then have "iniparser_getstring (Some d2) (Some (sec @ '':'' @ key)) InvalidKey = Some (Str (show_int num))"
    using dictionary_get_map [OF S(4)] strlwc_short [of "sec @ '':'' @ key" "ASCIILINESZ + 1"] low l(2)
    by (simp add: iniparser_getstring_def ASCIILINESZ_def)
  then have "iniparser_getint (Some d2) (Some (sec @ '':'' @ key)) notfound = Some num"
    using n by (simp add: iniparser_getint_def iniparser_getlongint_def strtol0_int signed_take_bit_int_eq_self)
  moreover have "ini_modify_num all_ok True (Some d) sec num key name fs = Some (Some d', fs(name \<mapsto> fl))"
    using S(1,2) l len by (simp add: ini_modify_num_def w cbuf_def write_file_def)
  moreover have "init_config ini_mem (dictionary_new True True True True 0) name (fs(name \<mapsto> fl)) = Some (Some d2, log)"
    using S(3) by (simp add: init_config_def)
  ultimately show ?thesis by blast
qed

text \<open>The dictionary of the witnesses: the section \<^verbatim>\<open>net\<close> with the key \<^verbatim>\<open>port\<close>.\<close>

lemma sample_config_key: "config_key sample_dict ''net'' ''port''"
  by (simp add: config_key_def sample_dict_entries clean_key_def trimmed_def isspace_def) code_simp

lemma ini_modify_string_saved_witness:
  "\<exists>d' content d2 log. ini_modify_string all_ok True (Some sample_dict) ''net'' ''8080'' ''port'' ''dev.ini'' (\<lambda>n. None) =
      Some (Some d', [''dev.ini'' \<mapsto> content]) \<and>
    init_config ini_mem (dictionary_new True True True True 0) ''dev.ini'' [''dev.ini'' \<mapsto> content] = Some (Some d2, log) \<and>
    dict_lookup d2 ''net:port'' = Some (Some ''8080'')"
proof -
  have "clean_value ''8080''" "CHR 0x0A \<notin> set ''8080''" by code_simp+
  moreover have "''8080'' \<noteq> [] \<longrightarrow> last ''8080'' \<noteq> CHR 0x5C" "length ''8080'' < 32" by simp_all
  ultimately obtain d' c d2 log where R: "ini_modify_string all_ok True (Some sample_dict) ''net'' ''8080'' ''port'' ''dev.ini'' (\<lambda>n. None) =
      Some (Some d', [''dev.ini'' \<mapsto> c])"
    "init_config ini_mem (dictionary_new True True True True 0) ''dev.ini'' [''dev.ini'' \<mapsto> c] = Some (Some d2, log)"
    "dict_lookup d2 = (dict_lookup sample_dict)(''net'' @ '':'' @ ''port'' \<mapsto> Some ''8080'')"
    using ini_modify_string_saved [OF sample_dict_clean sample_config_key] by meson
  have "dict_lookup d2 ''net:port'' = Some (Some ''8080'')" using R(3) by simp
  then show ?thesis using R(1,2) by blast
qed

lemma ini_modify_num_read_back_witness:
  "\<exists>d' content d2 log. ini_modify_num all_ok True (Some sample_dict) ''net'' (- 77) ''port'' ''dev.ini'' (\<lambda>n. None) =
      Some (Some d', [''dev.ini'' \<mapsto> content]) \<and>
    init_config ini_mem (dictionary_new True True True True 0) ''dev.ini'' [''dev.ini'' \<mapsto> content] = Some (Some d2, log) \<and>
    iniparser_getint (Some d2) (Some ''net:port'') 0 = Some (- 77)"
proof -
  have "map tolower (''net'' @ '':'' @ ''port'') = ''net'' @ '':'' @ ''port''" by code_simp
  then show ?thesis
    using ini_modify_num_read_back [OF sample_dict_clean sample_config_key, of "- 77" "''dev.ini''" "\<lambda>n. None" 0]
    by simp
qed

text \<open>
  \<^verbatim>\<open>task5\<close> prepares one device only: the section of the first one makes the file
  non-empty, and the second round of the loop returns.
\<close>

lemma task5_first_device:
  assumes "file_size fs ''copy.ini'' = 0" "length (ntoa ip) < 16"
  shows "task5_devices ntoa True (ip # ips) fs = Some (fs(''copy.ini'' \<mapsto> transfer_section (ntoa ip)))"
proof -
  let ?fs = "fs(''copy.ini'' \<mapsto> transfer_section (ntoa ip))"
  have "0 < file_size ?fs ''copy.ini''" by (simp add: file_size_def transfer_section_def)
  then have r: "task5_devices ntoa True ips ?fs = Some ?fs" by (cases ips) simp_all
  have "(case fs ''copy.ini'' of None \<Rightarrow> [] | Some c \<Rightarrow> c) = []"
    using assms(1) by (auto simp: file_size_def split: option.splits)
  moreover have "length (transfer_section (ntoa ip)) < 1024"
    using assms(2) by (simp add: transfer_section_def NL_def)
  ultimately show ?thesis using assms r by (simp add: cbuf_def ini_add_def)
qed

end
