(* ===== verification/Crypt.thy ===== *)
theory Crypt
  imports Prelude
begin

text \<open>
  \<^verbatim>\<open>sm3_hmac\<close> of \<^verbatim>\<open>cert/crypt.c\<close>. The digest is OpenSSL's: its block size and the hash of a
  sequence of bytes are parameters, and a digest context is the bytes it has been given since
  it was initialised. Lengths are those an \<^verbatim>\<open>int\<close> can hold; the array that is cleared between the passes is overwritten
  where it is read and not cleared here. The arrays of the function are lists with checked access. The
  functions that read keys and certificates only call OpenSSL and are not modelled.
\<close>

section \<open>The digest\<close>

record evp_md =
  md_block :: int
  md_hash :: "u8 list \<Rightarrow> u8 list"

type_synonym md_ctx = "u8 list"

definition EVP_DigestInit :: md_ctx where "EVP_DigestInit = []"

definition EVP_DigestUpdate :: "u8 list \<Rightarrow> int \<Rightarrow> md_ctx \<Rightarrow> md_ctx option" where
  "EVP_DigestUpdate buf n c = (if 0 \<le> n \<and> n \<le> int (length buf) then Some (c @ take (nat n) buf) else None)"

text \<open>The digest is written to the front of an array.\<close>

definition write_front :: "u8 list \<Rightarrow> u8 list \<Rightarrow> u8 list option" where
  "write_front buf xs = (if length xs \<le> length buf then Some (xs @ drop (length xs) buf) else None)"

definition EVP_DigestFinal :: "evp_md \<Rightarrow> md_ctx \<Rightarrow> u8 list \<Rightarrow> (u8 list \<times> int) option" where
  "EVP_DigestFinal md c buf = do {
     buf \<leftarrow> write_front buf (md_hash md c);
     Some (buf, int (length (md_hash md c))) }"

section \<open>The function\<close>

definition memset_front :: "u8 list \<Rightarrow> u8 \<Rightarrow> int \<Rightarrow> u8 list option" where
  "memset_front buf b n = (if 0 \<le> n then write_front buf (replicate (nat n) b) else None)"

text \<open>The loop over the key, from index \<open>i\<close>, \<open>n\<close> rounds to go.\<close>

fun xor_key :: "u8 list \<Rightarrow> nat \<Rightarrow> int \<Rightarrow> u8 list \<Rightarrow> u8 list \<Rightarrow> (u8 list \<times> u8 list) option" where
  "xor_key key 0 i ipad opad = Some (ipad, opad)"
| "xor_key key (Suc n) i ipad opad = do {
     k \<leftarrow> rd key i;
     a \<leftarrow> rd ipad i;
     ipad \<leftarrow> wr ipad i (a XOR k);
     b \<leftarrow> rd opad i;
     opad \<leftarrow> wr opad i (b XOR k);
     xor_key key n (i + 1) ipad opad }"

definition sm3_hmac :: "evp_md \<Rightarrow> u8 list \<Rightarrow> int \<Rightarrow> u8 list \<Rightarrow> int \<Rightarrow> u8 list \<Rightarrow> (int \<times> u8 list) option" where
  "sm3_hmac md key0 keylen0 inp inlen out = do {
     let sum = replicate 64 0;
     let tmpbuf = replicate 64 0;
     let block_size = md_block md;
     (key, keylen) \<leftarrow>
       (if keylen0 > block_size then do {
          c \<leftarrow> EVP_DigestUpdate key0 keylen0 EVP_DigestInit;
          (sum, md_len) \<leftarrow> EVP_DigestFinal md c sum;
          Some (sum, md_len) }
        else Some (key0, keylen0));
     ipad \<leftarrow> memset_front (replicate 128 0) 0x36 block_size;
     opad \<leftarrow> memset_front (replicate 128 0) 0x5C block_size;
     (ipad, opad) \<leftarrow> xor_key key (nat keylen) 0 ipad opad;
     c \<leftarrow> EVP_DigestUpdate ipad block_size EVP_DigestInit;
     c \<leftarrow> EVP_DigestUpdate inp inlen c;
     (tmpbuf, md_len) \<leftarrow> EVP_DigestFinal md c tmpbuf;
     c \<leftarrow> EVP_DigestUpdate opad block_size EVP_DigestInit;
     c \<leftarrow> EVP_DigestUpdate tmpbuf md_len c;
     (out, md_len) \<leftarrow> EVP_DigestFinal md c out;
     Some (md_len, out) }"

section \<open>The definition of HMAC\<close>

text \<open>RFC 2104, for a hash with blocks of \<open>b\<close> bytes.\<close>

definition hmac_key :: "(u8 list \<Rightarrow> u8 list) \<Rightarrow> nat \<Rightarrow> u8 list \<Rightarrow> u8 list" where
  "hmac_key H b key = (let k = (if length key > b then H key else key) in k @ replicate (b - length k) 0)"

definition hmac :: "(u8 list \<Rightarrow> u8 list) \<Rightarrow> nat \<Rightarrow> u8 list \<Rightarrow> u8 list \<Rightarrow> u8 list" where
  "hmac H b key msg = H (map (\<lambda>k. 0x5C XOR k) (hmac_key H b key) @
     H (map (\<lambda>k. 0x36 XOR k) (hmac_key H b key) @ msg))"

text \<open>What OpenSSL promises of a digest that the arrays of the function can hold.\<close>

definition digest_ok :: "evp_md \<Rightarrow> bool" where
  "digest_ok md \<longleftrightarrow> 0 < md_block md \<and> md_block md \<le> 128 \<and>
     (\<forall>xs. length (md_hash md xs) \<le> 64 \<and> int (length (md_hash md xs)) \<le> md_block md)"

lemma xor_key_run:
  assumes "i + n \<le> length key" "i + n \<le> length ipad" "i + n \<le> length opad"
  shows "xor_key key n (int i) ipad opad =
    Some (take i ipad @ map2 (XOR) (take n (drop i ipad)) (take n (drop i key)) @ drop (i + n) ipad,
          take i opad @ map2 (XOR) (take n (drop i opad)) (take n (drop i key)) @ drop (i + n) opad)"
  using assms
proof (induction n arbitrary: i ipad opad)
  case (Suc n)
  have i: "i < length key" "i < length ipad" "i < length opad" using Suc.prems by simp_all
  have s: "int i + 1 = int (Suc i)" by simp
  let ?a = "ipad[i := ipad ! i XOR key ! i]" and ?b = "opad[i := opad ! i XOR key ! i]"
  have step: "take (Suc i) (x[i := v]) @ map2 (XOR) (take n (drop (Suc i) (x[i := v]))) (take n (drop (Suc i) key)) @
      drop (Suc i + n) (x[i := v]) =
      take i x @ (v # map2 (XOR) (take n (drop (Suc i) x)) (take n (drop (Suc i) key))) @ drop (i + Suc n) x"
    if "i < length x" for x and v :: u8
    using that by (simp add: take_Suc_conv_app_nth)
  have cons: "map2 (XOR) (take (Suc n) (drop i x)) (take (Suc n) (drop i key)) =
      (x ! i XOR key ! i) # map2 (XOR) (take n (drop (Suc i) x)) (take n (drop (Suc i) key))"
    if "i < length x" for x :: "u8 list"
    using that i(1) by (simp add: Cons_nth_drop_Suc [symmetric])
  have "xor_key key (Suc n) (int i) ipad opad = xor_key key n (int (Suc i)) ?a ?b"
    using i by (simp add: s del: of_nat_Suc)
  also have "\<dots> = Some (take (Suc i) ?a @ map2 (XOR) (take n (drop (Suc i) ?a)) (take n (drop (Suc i) key)) @ drop (Suc i + n) ?a,
      take (Suc i) ?b @ map2 (XOR) (take n (drop (Suc i) ?b)) (take n (drop (Suc i) key)) @ drop (Suc i + n) ?b)"
    by (rule Suc.IH) (use Suc.prems in simp_all)
  finally show ?case by (simp only: step [OF i(2)] step [OF i(3)] cons [OF i(2)] cons [OF i(3)])
qed simp

lemma xor_pad:
  fixes p :: u8
  assumes "n \<le> b" "n \<le> length key"
  shows "take b (map2 (XOR) (take n (replicate b p @ zs)) (take n key) @ drop n (replicate b p @ zs)) =
    map (\<lambda>k. p XOR k) (take n key @ replicate (b - n) 0)"
proof -
  have "take n (replicate b p @ zs) = replicate n p" "drop n (replicate b p @ zs) = replicate (b - n) p @ zs"
    using assms(1) by simp_all
  moreover have "map2 (XOR) (replicate n p) (take n key) = map (\<lambda>k. p XOR k) (take n key)"
    using assms(2) by (intro nth_equalityI) simp_all
  ultimately show ?thesis using assms by simp
qed

lemma update_take: "n \<le> length buf \<Longrightarrow> EVP_DigestUpdate buf (int n) [] = Some (take n buf)"
  by (simp add: EVP_DigestUpdate_def)

section \<open>Properties\<close>

text \<open>
  C27: \<^verbatim>\<open>sm3_hmac\<close> computes the HMAC of RFC 2104 over the digest, for keys and messages of
  every length, and returns the length of the digest.
\<close>

theorem sm3_hmac_rfc:
  assumes D: "digest_ok md" and o: "length (hmac (md_hash md) (nat (md_block md)) key msg) \<le> length out"
  shows "\<exists>out'. sm3_hmac md key (int (length key)) msg (int (length msg)) out =
      Some (int (length (hmac (md_hash md) (nat (md_block md)) key msg)), out') \<and>
    take (length (hmac (md_hash md) (nat (md_block md)) key msg)) out' = hmac (md_hash md) (nat (md_block md)) key msg"
proof -
  let ?H = "md_hash md"
  define b where "b = nat (md_block md)"
  have b: "md_block md = int b" "0 < b" "b \<le> 128" using D unfolding b_def digest_ok_def by linarith+
  have h: "length (?H xs) \<le> 64" "length (?H xs) \<le> b" for xs using D by (auto simp: digest_ok_def b_def nat_le_eq_zle le_nat_iff)
  define k where "k = (if length key > b then ?H key else key)"
  have kb: "length k \<le> b" using h(2) by (simp add: k_def)
  define k2 where "k2 = (if length key > b then ?H key @ drop (length (?H key)) (replicate 64 0) else key)"
  have key: "(if int (length key) > md_block md then do {
          c \<leftarrow> EVP_DigestUpdate key (int (length key)) EVP_DigestInit;
          (sum, md_len) \<leftarrow> EVP_DigestFinal md c (replicate 64 0);
          Some (sum, md_len) }
        else Some (key, int (length key))) = Some (k2, int (length k))"
    using h(1) by (simp add: b k2_def k_def EVP_DigestUpdate_def EVP_DigestInit_def EVP_DigestFinal_def write_front_def)
  have t: "take (length k) k2 = k" "length k \<le> length k2" by (simp_all add: k_def k2_def)
  have pad: "memset_front (replicate 128 0) p (md_block md) = Some (replicate b p @ replicate (128 - b) 0)" for p
    using b by (simp add: memset_front_def write_front_def)
  let ?x = "\<lambda>p. map2 (XOR) (take (length k) (replicate b p @ replicate (128 - b) 0)) k @
    drop (length k) (replicate b p @ replicate (128 - b) (0 :: u8))"
  have loop: "xor_key k2 (nat (int (length k))) 0 (replicate b 0x36 @ replicate (128 - b) 0) (replicate b 0x5C @ replicate (128 - b) 0) =
      Some (?x 0x36, ?x 0x5C)"
    using xor_key_run [of 0 "length k" k2 "replicate b 0x36 @ replicate (128 - b) 0" "replicate b 0x5C @ replicate (128 - b) 0"]
      kb t b by simp
  have x: "take b (?x p) = map (\<lambda>c. p XOR c) (hmac_key ?H b key)" for p
    using xor_pad [OF kb t(2), of p "replicate (128 - b) 0"] t(1) by (simp add: hmac_key_def k_def [symmetric] Let_def)
  have lx: "b \<le> length (?x p)" for p using kb b by simp
  let ?in = "map (\<lambda>c. 0x36 XOR c) (hmac_key ?H b key) @ msg"
  let ?d = "hmac ?H b key msg"
  have u1: "EVP_DigestUpdate (?x p) (md_block md) EVP_DigestInit = Some (map (\<lambda>c. p XOR c) (hmac_key ?H b key))" for p
    using update_take [OF lx [of p]] by (simp only: x b(1) EVP_DigestInit_def)
  have u2: "EVP_DigestUpdate msg (int (length msg)) c = Some (c @ msg)" for c by (simp add: EVP_DigestUpdate_def)
  have f1: "EVP_DigestFinal md ?in (replicate 64 0) = Some (?H ?in @ drop (length (?H ?in)) (replicate 64 0), int (length (?H ?in)))"
    using h(1) by (simp add: EVP_DigestFinal_def write_front_def)
  have u3: "EVP_DigestUpdate (?H ?in @ drop (length (?H ?in)) (replicate 64 0)) (int (length (?H ?in))) c = Some (c @ ?H ?in)" for c
    by (simp add: EVP_DigestUpdate_def)
  have f2: "EVP_DigestFinal md (map (\<lambda>c. 0x5C XOR c) (hmac_key ?H b key) @ ?H ?in) out = Some (?d @ drop (length ?d) out, int (length ?d))"
    using o unfolding b_def [symmetric] by (simp add: EVP_DigestFinal_def write_front_def hmac_def)
  have "sm3_hmac md key (int (length key)) msg (int (length msg)) out = Some (int (length ?d), ?d @ drop (length ?d) out)"
    unfolding sm3_hmac_def Let_def
    by (simp only: key pad loop u1 u2 f1 u3 f2 Option.bind.bind_lunit prod.case)
  then show ?thesis unfolding b_def [symmetric] by simp
qed

text \<open>A digest for the witness: the exclusive or of the bytes, in blocks of four.\<close>

definition xor_md :: evp_md where
  "xor_md = \<lparr>md_block = 4, md_hash = (\<lambda>xs. [foldr (XOR) xs 0])\<rparr>"

lemma sm3_hmac_rfc_witness:
  "\<exists>out'. sm3_hmac xor_md [1, 2, 4, 8, 16] 5 [7, 9] 2 [0, 0] = Some (1, out') \<and>
    take 1 out' = hmac (md_hash xor_md) 4 [1, 2, 4, 8, 16] [7, 9]"
proof -
  have "digest_ok xor_md" by (simp add: digest_ok_def xor_md_def)
  moreover have "length (hmac (md_hash xor_md) (nat (md_block xor_md)) [1, 2, 4, 8, 16] [7, 9]) = 1"
    by (simp add: hmac_def xor_md_def)
  ultimately show ?thesis
    using sm3_hmac_rfc [of xor_md "[1, 2, 4, 8, 16]" "[7, 9]" "[0, 0]"] by (simp add: xor_md_def)
qed

end
