(* ===== verification/Spec2Isabelle.thy ===== *)
theory Spec2Isabelle
  imports Iniparser StringLib Hashmap Vector NetBuffer RwLock ThreadPool TimeWheel TaskQueue UdpPeer EventLoop DeviceClient Balloc MesaTimer ConfigFile Crypt
begin

text \<open>
  CommonLib is a collection of C components for servers: an ini file parser, containers and
  strings, locks and a thread pool, an event loop with timers, channels and UDP endpoints, a
  block allocator, and a server of devices over them.
  This development models the C components that carry the program's own logic, each in a
  theory of its own, translated from the source function by function, with the theorems that
  make it correct. Where the code is wrong, the theorem states what it does.

  \<^bold>\<open>Parts and theories.\<close> A component is a record or datatype for its state and one definition per
  C function, under the C name where Isabelle allows it.

    \<^item> \<open>Prelude\<close>: memory (bounds-checked blocks, heaps of nodes), C integer conversions, the C
      library's character classes, \<^verbatim>\<open>fgets\<close>; generic lemmas on lists and maps.
    \<^item> \<open>Store\<close>, \<open>Fifo\<close>: the interfaces of the tables and of the queues, as locales. They are
      interpreted in \<open>Dictionary\<close>, \<open>Hashmap\<close>, \<open>NetBuffer\<close> and \<open>JobQueue\<close>, and the properties of
      those components rest on the facts of the interpretations.
    \<^item> \<open>Dictionary\<close> (\<^verbatim>\<open>ini/dictionary.c\<close>): strings in three parallel arrays with free slots;
      \<open>Iniparser\<close> (\<^verbatim>\<open>ini/iniparser.c\<close>): line format, loader, accessors and dump over it. Two
      copies of both files, under \<^verbatim>\<open>udpclient\<close>, have the same code.
    \<^item> \<open>StringLib\<close> (\<^verbatim>\<open>String-master/libString/String.c\<close>): a growable string.
    \<^item> \<open>Hashmap\<close> (\<^verbatim>\<open>udpclient/hashmap/hashmap.c\<close>, \<^verbatim>\<open>datastruct/hashmapi.c\<close>): open addressing;
      \<open>Vector\<close> (\<^verbatim>\<open>datastruct/vector.c\<close>): a growable array of pointers.
    \<^item> \<open>RbTree\<close>, \<open>RbInsert\<close>, \<open>RbErase\<close>, \<open>RbTraverse\<close>, \<open>RbSet\<close> (\<^verbatim>\<open>udpclient/udpserver/jsw_rbtree.c\<close>): a
      red-black tree of pointers; the program and its heap, each operation, the sorted set. The
      comparison a client gives is the locale \<open>rb_order\<close>.
    \<^item> \<open>Devices\<close> (\<^verbatim>\<open>udpclient/udpserver/function.c\<close>): the registry of devices, which interprets
      \<open>rb_order\<close> by their addresses, its configuration file and the heartbeat; \<open>DeviceServer\<close> and
      \<open>DeviceSession\<close> (\<^verbatim>\<open>udpclient/udpserver/Callback.c\<close>): the packets to and from the devices, which
      rest on \<open>Devices\<close> and \<open>Hashmap\<close>; \<open>DeviceClient\<close> (\<^verbatim>\<open>udpclient/function/function.c\<close>): the device's side,
      and what it makes of the packets of a session. The tables of handlers of the two are the locale \<open>handler_tab\<close>.
    \<^item> \<open>ConfigFile\<close> (\<^verbatim>\<open>udpserver/ini/config.c\<close>, \<^verbatim>\<open>load.c\<close>, \<^verbatim>\<open>task5\<close> of \<^verbatim>\<open>Callback.c\<close>): values changed in
      an ini file, over \<open>Iniparser\<close>; \<open>Crypt\<close> (\<^verbatim>\<open>cert/crypt.c\<close>): the keyed digest.
    \<^item> \<open>RwLock\<close> (\<^verbatim>\<open>sync/rwlock.c\<close>): a readers-writer lock, as the interleavings of atomic steps.
    \<^item> \<open>JobQueue\<close> and \<open>ThreadPool\<close> (\<^verbatim>\<open>udpclient/pool/thpool.c\<close>): the job queue and the
      interleavings of workers and client over it.
    \<^item> \<open>NetBuffer\<close> (\<^verbatim>\<open>udpclient/linux/net/buffer.c\<close>): the byte buffer of a connection.
    \<^item> \<open>DList\<close>: doubly linked lists of nodes, shared by \<open>TimerQueue\<close> (\<^verbatim>\<open>timer_queue.c\<close>: timers
      in the order of their timestamps) and \<open>TimeWheel\<close> (\<^verbatim>\<open>time_wheel.c\<close>: timers in slots).
    \<^item> \<open>Channel\<close> (\<^verbatim>\<open>channel.c\<close> and the registration and dispatch in \<^verbatim>\<open>loop.c\<close>), \<open>TaskQueue\<close>
      (\<^verbatim>\<open>async_task_queue.c\<close>, \<^verbatim>\<open>lock.h\<close>), \<open>UdpPeer\<close> (\<^verbatim>\<open>udp_peer.c\<close>) and \<open>EventLoop\<close> (\<^verbatim>\<open>loop.c\<close>), all
      of \<^verbatim>\<open>udpclient/linux/net\<close>.
    \<^item> \<open>Balloc\<close> (\<^verbatim>\<open>udpclient/udpserver/balloc.c\<close>): an allocator of blocks in classes of sizes, over
      a buffer of bytes; \<open>MesaTimer\<close> (\<^verbatim>\<open>timer/MESA_timer-master\<close>): timers in a queue or in a wheel.

  \<^bold>\<open>How the parts interact.\<close> The loader fills a dictionary through \<open>dictionary_set\<close> and the accessors
  read it. The device server finds the handler of a packet and the state of a transfer in hash maps,
  and the device of a sender in the red-black tree. The pool's workers take their jobs from the job queue under its mutex. The
  event loop owns a set of channels, a timer queue and a task queue: each pass of
  \<open>loop_pass\<close> waits as long as \<open>timer_queue_gettimeout\<close> says, calls \<open>channel_onevent\<close> for the
  channels with events and then \<open>timer_queue_process_inloop\<close>. Callbacks call back into the
  component that called them: a callback is a list of operations, chosen freely from the state
  it is called in, so a theorem about a pass holds for every legal callback. A UDP peer registers
  a channel; its operations run at once in the thread of the loop and are left as tasks
  in the loop's task queue by other threads. What a pass does is also kept in logs (the callbacks called and
  what they did), which the theorems speak about. All pools share one static flag for their workers; other pools are a
  step of the model that may change it.

  \<^bold>\<open>Conventions.\<close> An outer \<^typ>\<open>'a option\<close> is undefined behaviour: \<^term>\<open>None\<close> is a dereference of NULL
  or of a released object, an access outside its block or a failed assert. Error codes are
  values. The outcome of an allocation or of a system call is an argument of the
  operation that makes it, and theorems hold for every outcome unless a hypothesis excludes one (in
  \<open>RbSet\<close> every node can be allocated; \<open>rb_insert_failed_loses\<close> is what happens otherwise).
  What the machine makes of a call that C leaves undefined, or whose code is not in the tree, is an argument,
  too, where the code goes on after it (\<open>en_free_stream\<close>, \<open>en_literal\<close>, \<open>en_cancel_null\<close> of the device server), and
  a theorem that needs it to be harmless says so.
  Machine integers are words where their width matters (buffer indices, wheel slots, sizes that wrap).

  \<^bold>\<open>Lemma groups.\<close> Each component has its invariant (\<open>dict_wf\<close>, \<open>str_wf\<close>, \<open>hm_wf\<close>, \<open>buf_wf\<close>,
  \<open>queue_wf\<close>, \<open>tq_wf\<close>, \<open>winv\<close>, \<open>serving\<close>, \<open>peer_ok\<close>, \<open>rb_inv\<close>, \<open>binv\<close>, \<open>minv\<close>, \<open>mw_inv\<close>, \<open>reg_inv\<close>, \<open>srv_inv\<close>, the step invariants of \<open>RwLock\<close> and
  \<open>ThreadPool\<close>), lemmas that every operation keeps it, and lemmas that give the operation's effect on
  an abstract view (a map, a list, a set of registrations, countdowns). The properties combine them: refinement of the
  abstract view for every script of operations, mutual exclusion and progress over all
  interleavings, safety of the loop whatever the callbacks do, the round trip of ini files,
  and the places where the code leaves its contract.

  \<^bold>\<open>Bounds.\<close> Loops are structural where the code walks a list or a block; the walk of a linked
  structure takes the number of nodes as fuel or is a \<^theory_text>\<open>partial_function\<close>, and the theorems
  say that it returns. Line lengths (1024), the probe length (16), the UDP
  buffer (65536 and 18 bytes of address), the classes of the allocator (16 bytes to 64 KB), the waiting time (100 ms) are the code's constants.

  \<^bold>\<open>Not modelled.\<close> The C++ parts of the repository (\<^verbatim>\<open>client\<close>, \<^verbatim>\<open>base\<close>, \<^verbatim>\<open>mempool\<close>, \<^verbatim>\<open>log\<close>,
  \<^verbatim>\<open>timer/ratas\<close>, \<^verbatim>\<open>Mutiqueue\<close>), vendored code (zlib, pugixml, rapidjson, openssl headers, md5),
  tests, demos and benchmarks, the slab allocator \<^verbatim>\<open>Memory/ncx_slab.c\<close> (that of nginx), the
  estimate of retransmission times (floating point), and the thin wrappers of the socket, log and clock functions. Of
  modelled components: the functions that only read input or print
  (\<^verbatim>\<open>string_scan\<close>, \<^verbatim>\<open>dictionary_dump\<close> to a terminal), floating point conversions, signal
  handling of the pool, calls of OpenSSL, and memory that is only released. \<^verbatim>\<open>PROJECT.json\<close> lists every part with its status and the reason.
\<close>

end
